(* ===== verification/Prelude.thy ===== *)
theory Prelude
  imports Main "HOL-Library.Word" "HOL-Library.Monad_Syntax"
begin

unbundle bit_operations_syntax

text \<open>
  Shared ground of the development: names for the machine integers of the Rust sources,
  the value-level reading of a panic, byte codecs, population counts, and the small list
  lemmas the components rest on.

  Conventions used by every theory:
  \<^item> \<open>u8\<close>, \<open>u16\<close>, \<open>u32\<close>, \<open>u64\<close>, \<open>u128\<close> are words of that width; their
    \<open>+\<close>, \<open>-\<close>, \<open>*\<close> wrap, as the release build of the sources does;
  \<^item> \<open>usize\<close> is a natural number (the targets are 64-bit and an in-memory length is
    far below the wrap); where the code casts a length into \<open>u64\<close> and multiplies, the
    wrap is written out;
  \<^item> a panic (a failed \<open>assert!\<close>, \<open>expect\<close>, an index out of range) is \<open>None\<close>; a
    returned \<open>Err\<close> is \<open>Inl\<close>.
\<close>

type_synonym u8 = "8 word"
type_synonym u16 = "16 word"
type_synonym u32 = "32 word"
type_synonym u64 = "64 word"
type_synonym u128 = "128 word"
type_synonym bytes = "8 word list"

named_theorems word_conv \<open>conversions between words and the naturals they stand for\<close>
named_theorems panic_free \<open>operations that return a value on the states they are used on\<close>

section \<open>Indexing that panics, checked arithmetic\<close>

definition nth_opt :: "'a list \<Rightarrow> nat \<Rightarrow> 'a option" where
  "nth_opt xs i = (if i < length xs then Some (xs ! i) else None)"

lemma nth_opt_Some [simp]: "i < length xs \<Longrightarrow> nth_opt xs i = Some (xs ! i)"
  by (simp add: nth_opt_def)

lemma nth_opt_None [simp]: "length xs \<le> i \<Longrightarrow> nth_opt xs i = None"
  by (simp add: nth_opt_def)

lemma nth_opt_eq_Some: "nth_opt xs i = Some x \<longleftrightarrow> i < length xs \<and> x = xs ! i"
  by (auto simp: nth_opt_def)

definition slice_range :: "nat \<Rightarrow> nat \<Rightarrow> 'a list \<Rightarrow> 'a list" where
  "slice_range i j xs = take (j - i) (drop i xs)"

lemma length_slice_range [simp]: "j \<le> length xs \<Longrightarrow> length (slice_range i j xs) = j - i"
  by (simp add: slice_range_def)

lemma slice_range_nth: "j \<le> length xs \<Longrightarrow> k < j - i \<Longrightarrow> slice_range i j xs ! k = xs ! (i + k)"
  by (simp add: slice_range_def)

lemma slice_range_append_mid [simp]:
  "i = length as \<Longrightarrow> j = length as + length bs \<Longrightarrow> slice_range i j (as @ bs @ cs) = bs"
  by (simp add: slice_range_def)

definition div_ceil :: "nat \<Rightarrow> nat \<Rightarrow> nat" where
  "div_ceil a b = a div b + (if a mod b > 0 then 1 else 0)"

lemma div_ceil_alt: "0 < b \<Longrightarrow> div_ceil a b = (a + (b - 1)) div b"
proof -
  assume b: "0 < b"
  have "(a + (b - 1)) div b = a div b + (a mod b + (b - 1)) div b"
    by (metis div_add1_eq div_mult_mod_eq div_mult_self3 b add.assoc bot_nat_0.not_eq_extremum)
  also have "(a mod b + (b - 1)) div b = (if a mod b > 0 then 1 else 0)"
  proof (cases "a mod b = 0")
    case False
    have "a mod b < b" using b by simp
    then have "(a mod b + (b - 1)) div b = Suc ((a mod b - 1) div b)"
      using False b le_div_geq [of b "a mod b + (b - 1)"] by simp
    then show ?thesis using False \<open>a mod b < b\<close> by simp
  qed (use b in simp)
  finally show ?thesis by (simp add: div_ceil_def)
qed

lemma div_ceil_le_iff: "0 < b \<Longrightarrow> div_ceil a b \<le> k \<longleftrightarrow> a \<le> k * b"
proof -
  assume b: "0 < b"
  have "div_ceil a b \<le> k \<longleftrightarrow> (a + (b - 1)) div b < Suc k"
    by (simp only: div_ceil_alt [OF b] less_Suc_eq_le)
  also have "\<dots> \<longleftrightarrow> a + (b - 1) < Suc k * b"
    using b by (simp only: div_less_iff_less_mult)
  also have "\<dots> \<longleftrightarrow> a \<le> k * b" using b by auto
  finally show ?thesis .
qed

lemma le_div_ceil_mult: "0 < b \<Longrightarrow> a \<le> div_ceil a b * b"
  using div_ceil_le_iff [of b a "div_ceil a b"] by simp

lemma div_mult_add [simp]: "b < m \<Longrightarrow> (m * q + b) div m = (q :: nat)"
  by simp

lemma mod_mult_add [simp]: "b < m \<Longrightarrow> (m * q + b) mod m = (b :: nat)"
  by simp

lemma strict_remdups_adj: "sorted xs \<Longrightarrow> sorted_wrt (<) (remdups_adj (xs :: 'a::linorder list))"
  by (induction xs rule: remdups_adj.induct) (auto simp: less_le)

end
