(* ===== verification/Words.thy ===== *)
theory Words
  imports Prelude
begin

unbundle bit_operations_syntax

text \<open>
  Words as bit sequences and as byte sequences: little-endian and big-endian encodings
  (\<open>to_le_bytes\<close>, \<open>from_le_bytes\<close> and their big-endian twins in the Rust standard
  library), the population count \<open>u64::count_ones\<close>, and the lemmas that let the
  components reason about both bit by bit.
\<close>

section \<open>Byte encodings\<close>

definition le_bytes :: "nat \<Rightarrow> 'a::len word \<Rightarrow> bytes" where
  "le_bytes k w = map (\<lambda>i. ucast (drop_bit (8 * i) w)) [0..<k]"

fun of_le_bytes :: "bytes \<Rightarrow> 'a::len word" where
  "of_le_bytes [] = 0"
| "of_le_bytes (b # bs) = ucast b OR push_bit 8 (of_le_bytes bs)"

definition be_bytes :: "nat \<Rightarrow> 'a::len word \<Rightarrow> bytes" where
  "be_bytes k w = rev (le_bytes k w)"

definition of_be_bytes :: "bytes \<Rightarrow> 'a::len word" where
  "of_be_bytes bs = of_le_bytes (rev bs)"

lemma length_le_bytes [simp]: "length (le_bytes k w) = k"
  by (simp add: le_bytes_def)

lemma length_be_bytes [simp]: "length (be_bytes k w) = k"
  by (simp add: be_bytes_def)

lemma le_bytes_nth [simp]: "i < k \<Longrightarrow> le_bytes k w ! i = ucast (drop_bit (8 * i) w)"
  by (simp add: le_bytes_def)

lemma bit_of_le_bytes:
  "bit (of_le_bytes bs :: 'a::len word) n \<longleftrightarrow>
     n < LENGTH('a) \<and> n div 8 < length bs \<and> bit (bs ! (n div 8)) (n mod 8)"
proof (induction bs arbitrary: n)
  case (Cons b bs)
  show ?case
  proof (cases "n < 8")
    case True
    then show ?thesis
      by (auto simp: bit_simps)
  next
    case False
    then have "n div 8 = Suc ((n - 8) div 8)" "n mod 8 = (n - 8) mod 8"
      by (simp_all add: le_div_geq le_mod_geq)
    moreover have "\<not> bit b n" using False bit_imp_le_length [of b n] by auto
    ultimately show ?thesis using False Cons.IH [of "n - 8"]
      by (auto simp: bit_simps)
  qed
qed simp

lemma of_le_bytes_le_bytes:
  fixes w :: "'a::len word"
  assumes "LENGTH('a) \<le> 8 * k"
  shows "of_le_bytes (le_bytes k w) = w"
proof (rule bit_eqI)
  fix n
  assume "possible_bit TYPE('a word) n"
  then have n: "n < LENGTH('a)" by simp
  then have "n div 8 < k" using assms by (simp add: less_mult_imp_div_less mult.commute)
  then show "bit (of_le_bytes (le_bytes k w) :: 'a word) n = bit w n"
    using n by (simp add: bit_of_le_bytes bit_simps)
qed

lemma of_be_bytes_be_bytes:
  fixes w :: "'a::len word"
  assumes "LENGTH('a) \<le> 8 * k"
  shows "of_be_bytes (be_bytes k w) = w"
  using of_le_bytes_le_bytes [OF assms] by (simp add: of_be_bytes_def be_bytes_def)

lemmas of_le_bytes_le_bytes_64 [simp] = of_le_bytes_le_bytes [where 'a = 64 and k = 8, simplified]
lemmas of_le_bytes_le_bytes_32 [simp] = of_le_bytes_le_bytes [where 'a = 32 and k = 4, simplified]
lemmas of_le_bytes_le_bytes_16 [simp] = of_le_bytes_le_bytes [where 'a = 16 and k = 2, simplified]

section \<open>Population count\<close>

definition popcount :: "'a::len word \<Rightarrow> nat" where
  "popcount w = length (filter (bit w) [0..<LENGTH('a)])"

lemma popcount_card: "popcount (w :: 'a::len word) = card {i. i < LENGTH('a) \<and> bit w i}"
proof -
  have "popcount w = card (set (filter (bit w) [0..<LENGTH('a)]))"
    unfolding popcount_def by (rule distinct_card [symmetric]) simp
  also have "set (filter (bit w) [0..<LENGTH('a)]) = {i. i < LENGTH('a) \<and> bit w i}"
    by auto
  finally show ?thesis .
qed

lemma popcount_le: "popcount (w :: 'a::len word) \<le> LENGTH('a)"
  unfolding popcount_def by (metis length_filter_le length_upt minus_nat.diff_0)

text \<open>The mask of the low \<open>k\<close> bits, \<open>(1 << k) - 1\<close>.\<close>

lemma mask_shift: "k < LENGTH('a) \<Longrightarrow> push_bit k 1 - 1 = (mask k :: 'a::len word)"
  by (simp add: mask_eq_exp_minus_1 push_bit_eq_mult)

lemma popcount_take_bit:
  assumes "k \<le> LENGTH('a)"
  shows "popcount (take_bit k (w :: 'a::len word)) = length (filter (bit w) [0..<k])"
proof -
  have "filter (bit (take_bit k w)) [0..<LENGTH('a)] = filter (bit w) [0..<k]"
  proof -
    have "[0..<LENGTH('a)] = [0..<k] @ [k..<LENGTH('a)]"
      using assms upt_add_eq_append [of 0 k "LENGTH('a) - k"] by simp
    moreover have "filter (bit (take_bit k w)) [k..<LENGTH('a)] = []"
      by (auto simp: filter_empty_conv bit_simps)
    moreover have "filter (bit (take_bit k w)) [0..<k] = filter (bit w) [0..<k]"
      using assms by (intro filter_cong) (auto simp: bit_simps)
    ultimately show ?thesis by simp
  qed
  then show ?thesis by (simp add: popcount_def)
qed


section \<open>Leading zeros\<close>

definition leading_zeros :: "'a::len word \<Rightarrow> nat" where
  "leading_zeros w = length (takeWhile (\<lambda>i. \<not> bit w i) (rev [0..<LENGTH('a)]))"

lemma leading_zeros_ge_iff:
  assumes "k \<le> LENGTH('a)"
  shows "LENGTH('a) - k \<le> leading_zeros (w :: 'a::len word) \<longleftrightarrow> (\<forall>i\<ge>k. \<not> bit w i)"
proof -
  have "n - k \<le> length (takeWhile (\<lambda>i. \<not> bit w i) (rev [0..<n])) \<longleftrightarrow>
      (\<forall>i. k \<le> i \<and> i < n \<longrightarrow> \<not> bit w i)" if "k \<le> n" for n
    using that by (induction n) (auto simp: le_Suc_eq less_Suc_eq Suc_diff_le)
  from this [OF assms] show ?thesis
    unfolding leading_zeros_def using bit_imp_le_length by blast
qed

lemma leading_zeros_le: "leading_zeros (w :: 'a::len word) \<le> LENGTH('a)"
  unfolding leading_zeros_def by (metis length_rev length_takeWhile_le length_upt minus_nat.diff_0)

lemma high_bits_clear_iff:
  "(\<forall>i\<ge>k. \<not> bit (w :: 'a::len word) i) \<longleftrightarrow> unat w < 2 ^ k \<or> LENGTH('a) \<le> k"
proof (cases "LENGTH('a) \<le> k")
  case True
  then show ?thesis using bit_imp_le_length by (meson le_trans linorder_not_le)
next
  case False
  have "(\<forall>i\<ge>k. \<not> bit w i) \<longleftrightarrow> take_bit k w = w"
    by (auto simp: bit_eq_iff bit_simps) (metis bit_imp_le_length linorder_not_less)+
  also have "\<dots> \<longleftrightarrow> take_bit k (unat w) = unat w"
    by (metis unsigned_take_bit_eq word_unat_eq_iff)
  also have "\<dots> \<longleftrightarrow> unat w < 2 ^ k" by (simp add: take_bit_nat_eq_self_iff)
  finally show ?thesis using False by simp
qed

lemma power_bracket: "(2::nat) ^ a \<le> n \<Longrightarrow> n < 2 ^ Suc a \<Longrightarrow> 2 ^ b \<le> n \<Longrightarrow> n < 2 ^ Suc b \<Longrightarrow> a = b"
proof -
  assume n: "(2::nat) ^ a \<le> n" "n < 2 ^ Suc a" "2 ^ b \<le> n" "n < 2 ^ Suc b"
  have "(2::nat) ^ a < 2 ^ Suc b" "(2::nat) ^ b < 2 ^ Suc a" using n by linarith+
  then have "a < Suc b" "b < Suc a" by (simp_all only: power_strict_increasing_iff [OF one_less_numeral_iff [THEN iffD2]] semiring_norm)
  then show ?thesis by simp
qed

lemma leading_zeros_lt: "(w :: u64) \<noteq> 0 \<Longrightarrow> leading_zeros w < 64"
proof (rule ccontr)
  assume "w \<noteq> 0" "\<not> leading_zeros w < 64"
  then have "\<forall>i\<ge>0. \<not> bit w i" using leading_zeros_ge_iff [of 0 w] by simp
  then show False using \<open>w \<noteq> 0\<close> by (simp add: bit_eq_iff)
qed

lemma top_bit:
  assumes "(w :: u64) \<noteq> 0"
  defines "h \<equiv> 64 - 1 - leading_zeros w"
  shows "h < 64" "2 ^ h \<le> unat w" "unat w < 2 ^ Suc h"
proof -
  have lz: "64 - k \<le> leading_zeros w \<longleftrightarrow> unat w < 2 ^ k" if "k \<le> 64" for k
    using leading_zeros_ge_iff [of k w] high_bits_clear_iff [of k w] that unsigned_less [of w] by auto
  have l: "leading_zeros w < 64" using assms(1) by (rule leading_zeros_lt)
  then show h: "h < 64" by (simp add: h_def)
  have "\<not> 64 - h \<le> leading_zeros w" using l by (simp add: h_def)
  then show "2 ^ h \<le> unat w" using lz [of h] h by simp
  have "64 - Suc h \<le> leading_zeros w" by (simp add: h_def)
  then show "unat w < 2 ^ Suc h" using lz [of "Suc h"] h by simp
qed

section \<open>A list of 64-bit words as one bit stream\<close>

definition words_bit :: "u64 list \<Rightarrow> nat \<Rightarrow> bool" where
  "words_bit ws p \<longleftrightarrow> p div 64 < length ws \<and> bit (ws ! (p div 64)) (p mod 64)"

lemma words_bit_append_zeros [simp]: "words_bit (ws @ replicate n 0) p = words_bit ws p"
  by (auto simp: words_bit_def nth_append)

lemma words_bit_update:
  assumes "i < length ws"
  shows "words_bit (ws[i := w]) p =
    (if p div 64 = i then bit w (p mod 64) else words_bit ws p)"
  using assms by (auto simp: words_bit_def)

lemma words_bit_update_or:
  assumes "i < length ws"
  shows "words_bit (ws[i := ws ! i OR w]) p =
    (words_bit ws p \<or> (p div 64 = i \<and> bit w (p mod 64)))"
  using assms by (auto simp: words_bit_def bit_simps nth_list_update)

lemma words_bit_out: "64 * length ws \<le> p \<Longrightarrow> \<not> words_bit ws p"
  by (auto simp: words_bit_def)

lemma unat_of_nat_64: "n < 2 ^ 64 \<Longrightarrow> unat (of_nat n :: u64) = n"
  by (simp add: unsigned_of_nat take_bit_nat_eq_self)

section \<open>Text\<close>

text \<open>Well-formed UTF-8 (Unicode table 3-7), which \<open>from_utf8\<close> decides.\<close>

definition cont_byte :: "u8 \<Rightarrow> bool" where
  "cont_byte b \<longleftrightarrow> 0x80 \<le> b \<and> b \<le> 0xBF"

fun utf8_valid :: "bytes \<Rightarrow> bool" where
  "utf8_valid [] = True"
| "utf8_valid (a # bs) =
    (if a \<le> 0x7F then utf8_valid bs
     else if 0xC2 \<le> a \<and> a \<le> 0xDF then (case bs of b # bs \<Rightarrow> cont_byte b \<and> utf8_valid bs | _ \<Rightarrow> False)
     else if 0xE0 \<le> a \<and> a \<le> 0xEF then (case bs of b # c # bs \<Rightarrow>
         cont_byte b \<and> (a = 0xE0 \<longrightarrow> 0xA0 \<le> b) \<and> (a = 0xED \<longrightarrow> b \<le> 0x9F) \<and> cont_byte c \<and> utf8_valid bs | _ \<Rightarrow> False)
     else if 0xF0 \<le> a \<and> a \<le> 0xF4 then (case bs of b # c # d # bs \<Rightarrow>
         cont_byte b \<and> (a = 0xF0 \<longrightarrow> 0x90 \<le> b) \<and> (a = 0xF4 \<longrightarrow> b \<le> 0x8F) \<and> cont_byte c \<and> cont_byte d \<and> utf8_valid bs | _ \<Rightarrow> False)
     else False)"

end
