(* ===== verification/IntVec.thy ===== *)
theory IntVec
  imports Words
begin

unbundle bit_operations_syntax

text \<open>
  The fixed-width bit-packed integer array of the pack format
  (\<open>crates/rdf-core/src/ir/pack/bits.rs\<close>): the owned builder \<open>IntVector\<close>, its byte
  encoding and the borrowed reader \<open>IntVectorRef\<close>, with the header readers both use.
  The abstract value of a vector is the list of its entries; the lemmas say that packing,
  reading back and re-reading from bytes all agree on that list.
\<close>

section \<open>Errors and header reads\<close>

datatype pack_bits_error = Truncated nat nat | Malformed string

text \<open>\<open>usize\<close> addition that saturates, subtraction as the release build wraps it, and the two
  fixed-width reads of \<open>bytes.rs\<close>.\<close>

definition usize_saturating_add :: "nat \<Rightarrow> nat \<Rightarrow> nat" where
  "usize_saturating_add a b = min (a + b) (2 ^ 64 - 1)"

definition usize_wrapping_sub :: "nat \<Rightarrow> nat \<Rightarrow> nat" where
  "usize_wrapping_sub a b = (if b \<le> a then a - b else a + 2 ^ 64 - b)"

definition bytes_read_u32_le :: "bytes \<Rightarrow> nat \<Rightarrow> u32 option" where
  "bytes_read_u32_le bs offset =
     (if offset \<le> length bs \<and> 4 \<le> length (drop offset bs)
      then Some (of_le_bytes (take 4 (drop offset bs))) else None)"

definition bytes_read_u64_le :: "bytes \<Rightarrow> nat \<Rightarrow> u64 option" where
  "bytes_read_u64_le bs offset =
     (if offset \<le> length bs \<and> 8 \<le> length (drop offset bs)
      then Some (of_le_bytes (take 8 (drop offset bs))) else None)"

lemma usize_wrapping_sub_le [simp]: "b \<le> a \<Longrightarrow> usize_wrapping_sub a b = a - b"
  by (simp add: usize_wrapping_sub_def)

text \<open>A header read returns the value and the advanced cursor, or the truncation error.\<close>

definition read_header_u64 :: "bytes \<Rightarrow> nat \<Rightarrow> pack_bits_error + u64 \<times> nat" where
  "read_header_u64 bs pos =
     (case bytes_read_u64_le bs pos of
        None \<Rightarrow> Inl (Truncated (usize_saturating_add pos 8) (length bs))
      | Some v \<Rightarrow> Inr (v, pos + 8))"

definition read_header_u32 :: "bytes \<Rightarrow> nat \<Rightarrow> pack_bits_error + u32 \<times> nat" where
  "read_header_u32 bs pos =
     (case bytes_read_u32_le bs pos of
        None \<Rightarrow> Inl (Truncated (usize_saturating_add pos 4) (length bs))
      | Some v \<Rightarrow> Inr (v, pos + 4))"

text \<open>Word and half-word reads at an index the caller validated; they panic outside.\<close>

definition read_u64_le :: "bytes \<Rightarrow> nat \<Rightarrow> u64 option" where
  "read_u64_le bs idx = bytes_read_u64_le bs (idx * 8)"

definition read_u16_le :: "bytes \<Rightarrow> nat \<Rightarrow> u16 option" where
  "read_u16_le bs idx =
     (if idx * 2 \<le> length bs \<and> 2 \<le> length (drop (idx * 2) bs)
      then Some (of_le_bytes (take 2 (drop (idx * 2) bs))) else None)"

section \<open>Widths and masks\<close>

definition bits_for :: "u64 \<Rightarrow> nat" where
  "bits_for max_value = 64 - leading_zeros max_value"

definition mask_for_width :: "nat \<Rightarrow> u64" where
  "mask_for_width width =
     (if width = 0 then 0 else if width = 64 then - 1 else push_bit width 1 - 1)"

section \<open>The owned vector\<close>

record int_vector =
  iv_width :: nat
  iv_len :: nat
  iv_words :: "u64 list"

definition iv_with_width :: "nat \<Rightarrow> int_vector option" where
  "iv_with_width width =
     (if width \<le> 64 then Some \<lparr>iv_width = width, iv_len = 0, iv_words = []\<rparr> else None)"

text \<open>
  \<open>push\<close> in the release build: the debug assertion on the value is a hypothesis of the
  lemmas, and the \<open>u64\<close> product \<open>len * width\<close> wraps.
\<close>

definition iv_push :: "int_vector \<Rightarrow> u64 \<Rightarrow> int_vector option" where
  "iv_push v value =
     (if iv_width v = 0 then Some (v\<lparr>iv_len := iv_len v + 1\<rparr>)
      else
        let bit_pos = (iv_len v * iv_width v) mod 2 ^ 64;
            word_index = bit_pos div 64;
            bit_offset = bit_pos mod 64;
            bits_needed = (bit_pos + iv_width v) mod 2 ^ 64;
            words_needed = div_ceil bits_needed 64;
            words = (if length (iv_words v) < words_needed
                     then iv_words v @ replicate (words_needed - length (iv_words v)) 0
                     else iv_words v)
        in do {
          w \<leftarrow> nth_opt words word_index;
          let words = words[word_index := w OR push_bit bit_offset value];
          words \<leftarrow> (if bit_offset + iv_width v > 64
             then do {
               w' \<leftarrow> nth_opt words (word_index + 1);
               Some (words[word_index + 1 := w' OR drop_bit (64 - bit_offset) value])
             }
             else Some words);
          Some (v\<lparr>iv_len := iv_len v + 1, iv_words := words\<rparr>)
        })"

fun iv_push_all :: "int_vector \<Rightarrow> u64 list \<Rightarrow> int_vector option" where
  "iv_push_all v [] = Some v"
| "iv_push_all v (x # xs) = do { v' \<leftarrow> iv_push v x; iv_push_all v' xs }"

definition iv_from_values :: "u64 list \<Rightarrow> int_vector option" where
  "iv_from_values values = do {
     v \<leftarrow> iv_with_width (bits_for (if values = [] then 0 else Max (set values)));
     iv_push_all v values
   }"

text \<open>
  The body shared word for word by \<open>IntVector::get\<close> and \<open>IntVectorRef::get\<close>; they
  differ in how a backing word is read, the argument \<open>rd\<close>.
\<close>

definition packed_get :: "(nat \<Rightarrow> u64 option) \<Rightarrow> nat \<Rightarrow> nat \<Rightarrow> nat \<Rightarrow> u64 option" where
  "packed_get rd width len i =
     (if \<not> i < len then None
      else if width = 0 then Some 0
      else
        let bit_pos = (i * width) mod 2 ^ 64;
            word_index = bit_pos div 64;
            bit_offset = bit_pos mod 64
        in do {
          w \<leftarrow> rd word_index;
          let value = drop_bit bit_offset w;
          value \<leftarrow> (if bit_offset + width > 64
             then do { w' \<leftarrow> rd (word_index + 1); Some (value OR push_bit (64 - bit_offset) w') }
             else Some value);
          Some (value AND mask_for_width width)
        })"

definition iv_get :: "int_vector \<Rightarrow> nat \<Rightarrow> u64 option" where
  "iv_get v i = packed_get (nth_opt (iv_words v)) (iv_width v) (iv_len v) i"

definition iv_packed_bytes :: "int_vector \<Rightarrow> bytes" where
  "iv_packed_bytes v = concat (map (le_bytes 8) (iv_words v))"

definition iv_to_bytes :: "int_vector \<Rightarrow> bytes" where
  "iv_to_bytes v =
     le_bytes 8 (of_nat (iv_len v) :: u64) @ le_bytes 4 (of_nat (iv_width v) :: u32) @
     iv_packed_bytes v"

definition iv_serialized_len :: "int_vector \<Rightarrow> nat" where
  "iv_serialized_len v = 12 + length (iv_words v) * 8"

section \<open>The borrowed reader\<close>

record int_vector_ref =
  ivr_width :: nat
  ivr_len :: nat
  ivr_words :: bytes

text \<open>
  \<open>from_bytes\<close> in the release build: \<open>len as u64 * width\<close> wraps, the later sums stay
  below the wrap because \<open>words_len\<close> is at most \<open>2 ^ 58\<close>.
\<close>

definition ivr_from_bytes :: "bytes \<Rightarrow> pack_bits_error + int_vector_ref" where
  "ivr_from_bytes bs =
     (case read_header_u64 bs 0 of Inl e \<Rightarrow> Inl e | Inr (len, pos) \<Rightarrow>
      case read_header_u32 bs pos of Inl e \<Rightarrow> Inl e | Inr (width, pos) \<Rightarrow>
      if unat width > 64 then Inl (Malformed ''int_vector: width exceeds 64'')
      else
        let total_bits = (unat len * unat width) mod 2 ^ 64;
            words_len = div_ceil total_bits 64;
            words_bytes_len = words_len * 8;
            end_pos = pos + words_bytes_len
        in if length bs < end_pos then Inl (Truncated end_pos (length bs))
           else Inr \<lparr>ivr_width = unat width, ivr_len = unat len,
                     ivr_words = slice_range pos end_pos bs\<rparr>)"

definition ivr_serialized_len :: "int_vector_ref \<Rightarrow> nat" where
  "ivr_serialized_len r = 12 + length (ivr_words r)"

definition ivr_get :: "int_vector_ref \<Rightarrow> nat \<Rightarrow> u64 option" where
  "ivr_get r i = packed_get (read_u64_le (ivr_words r)) (ivr_width r) (ivr_len r) i"

section \<open>Reading: the bit-level meaning of an entry\<close>

lemma bit_mask_for_width: "w \<le> 64 \<Longrightarrow> bit (mask_for_width w) j \<longleftrightarrow> j < w"
  by (auto simp: mask_for_width_def bit_simps simp flip: mask_eq_exp_minus_1)

lemma packed_get_value:
  assumes rd: "\<And>k. k < length ws \<Longrightarrow> rd k = Some (ws ! k)"
    and w: "width \<le> 64" and i: "i < len"
    and wrap: "len * width < 2 ^ 64" and fits: "len * width \<le> 64 * length ws"
  obtains x where "packed_get rd width len i = Some x"
    and "\<forall>j. bit x j \<longleftrightarrow> j < width \<and> words_bit ws (i * width + j)"
proof (cases "width = 0")
  case True
  then show ?thesis using i that [of 0] by (simp add: packed_get_def)
next
  case False
  define bp where "bp = i * width"
  define wi where "wi = bp div 64"
  define bo where "bo = bp mod 64"
  have bp: "bp = 64 * wi + bo" and bo: "bo < 64" by (simp_all add: wi_def bo_def)
  have "Suc i * width \<le> len * width" using i by (intro mult_le_mono1) simp
  then have top: "bp + width \<le> len * width" by (simp add: bp_def)
  have nowrap: "i * width mod 2 ^ 64 = bp" using top wrap by (simp add: bp_def)
  have top': "bp + width \<le> 64 * length ws" using top fits by simp
  have wi: "wi < length ws" using top' False bp by linarith
  have wi1: "wi + 1 < length ws" if "bo + width > 64" using top' that bp by linarith
  define x where "x = ((if bo + width > 64 then drop_bit bo (ws ! wi) OR push_bit (64 - bo) (ws ! (wi + 1))
      else drop_bit bo (ws ! wi)) AND mask_for_width width)"
  have get: "packed_get rd width len i = Some x"
    using i False wi wi1 rd nowrap
    by (simp add: packed_get_def x_def wi_def [symmetric] bo_def [symmetric] Let_def)
  moreover have "bit x j \<longleftrightarrow> j < width \<and> words_bit ws (i * width + j)" for j
  proof (cases "j < width")
    case False
    then show ?thesis using w by (simp add: x_def bit_simps bit_mask_for_width)
  next
    case True
    show ?thesis
    proof (cases "bo + j < 64")
      case lo: True
      have "bp + j = 64 * wi + (bo + j)" using bp by simp
      then have "(bp + j) div 64 = wi" "(bp + j) mod 64 = bo + j"
        using lo by (simp_all only: div_mult_add mod_mult_add)
      then show ?thesis using True w lo wi
        by (auto simp: x_def words_bit_def bp_def bit_simps bit_mask_for_width add.commute)
    next
      case hi: False
      have j64: "j < 64" using True w by simp
      have "bp + j = 64 * (wi + 1) + (bo + j - 64)" "bo + j - 64 < 64" using bp hi bo j64 by simp_all
      then have "(bp + j) div 64 = wi + 1" "(bp + j) mod 64 = bo + j - 64"
        by (simp_all only: div_mult_add mod_mult_add)
      moreover have str: "bo + width > 64" using hi True by simp
      moreover have "\<not> bit (drop_bit bo (ws ! wi)) j"
        using hi bit_imp_le_length [of "ws ! wi" "bo + j"] by (auto simp: bit_simps)
      moreover have "j - (64 - bo) = bo + j - 64" using hi bo by simp
      ultimately show ?thesis using True w hi wi1 j64
        by (auto simp: x_def words_bit_def bp_def bit_simps bit_mask_for_width)
    qed
  qed
  ultimately show ?thesis using that by blast
qed

text \<open>Two ways of reading the same words give the same entries.\<close>

lemma packed_get_same:
  assumes "\<And>k. k < length ws \<Longrightarrow> rd k = Some (ws ! k)" "\<And>k. k < length ws \<Longrightarrow> rd' k = Some (ws ! k)"
    and c: "width \<le> 64" "i < len" "len * width < 2 ^ 64" "len * width \<le> 64 * length ws"
  shows "packed_get rd width len i = packed_get rd' width len i"
proof -
  obtain x where x: "packed_get rd width len i = Some x"
    "\<forall>j. bit x j \<longleftrightarrow> j < width \<and> words_bit ws (i * width + j)"
    by (rule packed_get_value [OF assms(1) c]) blast
  obtain y where y: "packed_get rd' width len i = Some y"
    "\<forall>j. bit y j \<longleftrightarrow> j < width \<and> words_bit ws (i * width + j)"
    by (rule packed_get_value [OF assms(2) c]) blast
  have "x = y" by (rule bit_eqI) (simp add: x y)
  then show ?thesis using x y by simp
qed

section \<open>The owned vector: invariant and abstract value\<close>

definition iv_inv :: "int_vector \<Rightarrow> bool" where
  "iv_inv v \<longleftrightarrow> iv_width v \<le> 64 \<and> iv_len v * iv_width v < 2 ^ 64 \<and>
     length (iv_words v) = div_ceil (iv_len v * iv_width v) 64 \<and>
     (\<forall>p \<ge> iv_len v * iv_width v. \<not> words_bit (iv_words v) p)"

definition iv_values :: "int_vector \<Rightarrow> u64 list" where
  "iv_values v = map (the \<circ> iv_get v) [0..<iv_len v]"

lemma length_iv_values [simp]: "length (iv_values v) = iv_len v"
  by (simp add: iv_values_def)

lemma iv_inv_fits: "iv_inv v \<Longrightarrow> iv_len v * iv_width v \<le> 64 * length (iv_words v)"
  using le_div_ceil_mult [of 64 "iv_len v * iv_width v"] by (simp add: iv_inv_def mult.commute)

lemma iv_get_bits:
  assumes "iv_inv v" and "i < iv_len v"
  obtains x where "iv_get v i = Some x"
    and "\<And>j. bit x j \<longleftrightarrow> j < iv_width v \<and> words_bit (iv_words v) (i * iv_width v + j)"
proof -
  have "iv_width v \<le> 64" "iv_len v * iv_width v < 2 ^ 64" using assms by (simp_all add: iv_inv_def)
  from packed_get_value [OF _ this(1) assms(2) this(2) iv_inv_fits [OF assms(1)],
      of "nth_opt (iv_words v)"] that show ?thesis by (auto simp: iv_get_def)
qed

lemma iv_get_values: assumes "iv_inv v" "i < iv_len v" shows "iv_get v i = Some (iv_values v ! i)"
proof -
  obtain x where "iv_get v i = Some x" by (rule iv_get_bits [OF assms])
  then show ?thesis using assms by (simp add: iv_values_def)
qed

lemma bit_iv_values:
  assumes "iv_inv v" "i < iv_len v"
  shows "bit (iv_values v ! i) j \<longleftrightarrow> j < iv_width v \<and> words_bit (iv_words v) (i * iv_width v + j)"
proof -
  obtain x where "iv_get v i = Some x"
    and "\<And>j. bit x j \<longleftrightarrow> j < iv_width v \<and> words_bit (iv_words v) (i * iv_width v + j)"
    by (rule iv_get_bits [OF assms]) blast
  then show ?thesis using assms by (simp add: iv_values_def)
qed

lemma iv_with_width_inv:
  "width \<le> 64 \<Longrightarrow> \<exists>v. iv_with_width width = Some v \<and> iv_inv v \<and> iv_len v = 0 \<and>
     iv_width v = width \<and> iv_values v = []"
  by (auto simp: iv_with_width_def iv_inv_def iv_values_def words_bit_def div_ceil_def)

text \<open>
  Writing a value that fits in \<open>wd\<close> bits at stream position \<open>bp\<close>: one word, or two when
  the value straddles a word boundary.
\<close>

lemma write_straddle:
  fixes x :: u64
  assumes wd: "wd \<le> 64" and fit: "\<forall>j\<ge>wd. \<not> bit x j" and room: "bp + wd \<le> 64 * length ws" "0 < wd"
    and ws1: "ws1 = ws[bp div 64 := ws ! (bp div 64) OR push_bit (bp mod 64) x]"
  shows "words_bit (if bp mod 64 + wd > 64
        then ws1[bp div 64 + 1 := ws1 ! (bp div 64 + 1) OR drop_bit (64 - bp mod 64) x] else ws1) p
      \<longleftrightarrow> words_bit ws p \<or> (bp \<le> p \<and> bit x (p - bp))"
proof -
  define wi where "wi = bp div 64"
  define bo where "bo = bp mod 64"
  have bp: "bp = 64 * wi + bo" and bo: "bo < 64" by (simp_all add: wi_def bo_def)
  have wi: "wi < length ws" and wi1: "bo + wd > 64 \<Longrightarrow> wi + 1 < length ws"
    using room bp by linarith+
  have stream1: "words_bit ws1 p \<longleftrightarrow> words_bit ws p \<or>
      (p div 64 = wi \<and> bit (push_bit bo x) (p mod 64))"
    using wi by (simp add: ws1 words_bit_update_or wi_def bo_def)
  have lo: "p div 64 = wi \<and> bit (push_bit bo x) (p mod 64) \<longleftrightarrow>
      p div 64 = wi \<and> bp \<le> p \<and> bit x (p - bp)"
  proof (cases "p div 64 = wi")
    case True
    define r where "r = p mod 64"
    have "p = 64 * wi + r" "r < 64" using True by (auto simp: r_def)
    then have "p - bp = r - bo" "bp \<le> p \<longleftrightarrow> bo \<le> r" using bp by simp_all
    then show ?thesis using True \<open>r < 64\<close> by (simp add: bit_simps r_def [symmetric])
  qed simp
  have hi: "p div 64 = wi + 1 \<and> bit (drop_bit (64 - bo) x) (p mod 64) \<longleftrightarrow>
      p div 64 = wi + 1 \<and> bp \<le> p \<and> bit x (p - bp)"
  proof (cases "p div 64 = wi + 1")
    case True
    define r where "r = p mod 64"
    have "p = 64 * (wi + 1) + r" using True mult_div_mod_eq [of 64 p] by (simp add: r_def)
    then have "p - bp = 64 - bo + r" "bp \<le> p" using bp bo by simp_all
    then show ?thesis using True by (simp add: bit_simps r_def [symmetric])
  qed simp
  have reach: "p div 64 = wi \<or> p div 64 = wi + 1 \<and> bo + wd > 64" if "bp \<le> p" "bit x (p - bp)"
  proof -
    have "p - bp < wd" using that fit by (metis linorder_not_less)
    then have p: "64 * wi + bo \<le> p" "p < 64 * wi + bo + wd" using that bp by simp_all
    show ?thesis
    proof (cases "p < 64 * wi + 64")
      case True
      then have "p = 64 * wi + (p - 64 * wi)" "p - 64 * wi < 64" using p by simp_all
      then show ?thesis by (metis div_mult_add)
    next
      case False
      then have "p = 64 * (wi + 1) + (p - 64 * (wi + 1))" "p - 64 * (wi + 1) < 64"
        using p wd bo by simp_all
      then have "p div 64 = wi + 1" by (metis div_mult_add)
      then show ?thesis using False p by simp
    qed
  qed
  show ?thesis
  proof (cases "bo + wd > 64")
    case True
    then have "words_bit (ws1[wi + 1 := ws1 ! (wi + 1) OR drop_bit (64 - bo) x]) p \<longleftrightarrow>
        words_bit ws1 p \<or> (p div 64 = wi + 1 \<and> bit (drop_bit (64 - bo) x) (p mod 64))"
      using wi1 by (simp add: words_bit_update_or ws1)
    then show ?thesis using reach lo hi stream1 True by (simp only: wi_def bo_def if_True) blast
  next
    case False
    then show ?thesis using reach lo stream1 by (simp only: wi_def bo_def if_False) blast
  qed
qed

text \<open>Pushing a value that fits writes exactly its bits after the ones in use.\<close>

lemma iv_push_words:
  assumes inv: "iv_inv v" and fit: "\<forall>j\<ge>iv_width v. \<not> bit x j"
    and wrap: "(iv_len v + 1) * iv_width v < 2 ^ 64" and w0: "iv_width v \<noteq> 0"
  obtains ws where "iv_push v x = Some (v\<lparr>iv_len := iv_len v + 1, iv_words := ws\<rparr>)"
    and "length ws = div_ceil ((iv_len v + 1) * iv_width v) 64"
    and "\<And>p. words_bit ws p \<longleftrightarrow> words_bit (iv_words v) p \<or>
           (iv_len v * iv_width v \<le> p \<and> bit x (p - iv_len v * iv_width v))"
proof -
  define wd where "wd = iv_width v"
  define bp where "bp = iv_len v * wd"
  define n where "n = div_ceil (bp + wd) 64"
  define ws0 where "ws0 = iv_words v @ replicate (n - length (iv_words v)) 0"
  define ws1 where "ws1 = ws0[bp div 64 := ws0 ! (bp div 64) OR push_bit (bp mod 64) x]"
  define ws where "ws = (if bp mod 64 + wd > 64
      then ws1[bp div 64 + 1 := ws1 ! (bp div 64 + 1) OR drop_bit (64 - bp mod 64) x] else ws1)"
  have w: "wd \<le> 64" "0 < wd" using inv w0 by (simp_all add: iv_inv_def wd_def)
  have next_eq: "(iv_len v + 1) * iv_width v = bp + wd" by (simp add: bp_def wd_def)
  have "bp + wd < 2 ^ 64" using wrap by (simp only: next_eq)
  then have nowrap: "iv_len v * wd mod 2 ^ 64 = bp" "(bp + wd) mod 2 ^ 64 = bp + wd"
    unfolding bp_def by (intro mod_less; linarith)+
  have "length (iv_words v) = div_ceil bp 64"
    using inv by (simp add: iv_inv_def bp_def wd_def)
  then have mono: "length (iv_words v) \<le> n"
    unfolding n_def by (simp add: div_ceil_le_iff order_trans [OF _ le_div_ceil_mult])
  have len0: "length ws0 = n" using mono by (simp add: ws0_def)
  have "bp + wd \<le> n * 64" by (simp add: n_def le_div_ceil_mult)
  then have room: "bp + wd \<le> 64 * n" by simp
  then have wi: "bp div 64 < n" "bp mod 64 + wd > 64 \<Longrightarrow> bp div 64 + 1 < n"
    using w mult_div_mod_eq [of 64 bp] by linarith+
  have grow: "(if length (iv_words v) < n then ws0 else iv_words v) = ws0"
    using mono by (auto simp: ws0_def)
  have push: "iv_push v x = Some (v\<lparr>iv_len := iv_len v + 1, iv_words := ws\<rparr>)"
    using w0 wi len0 unfolding iv_push_def Let_def nowrap wd_def [symmetric] n_def [symmetric]
      ws0_def [symmetric] grow by (simp add: ws1_def [symmetric] ws_def) (simp add: ws1_def)
  have "words_bit ws p \<longleftrightarrow> words_bit ws0 p \<or> (bp \<le> p \<and> bit x (p - bp))" for p
    unfolding ws_def using w fit room len0 ws1_def by (intro write_straddle) (simp_all add: wd_def)
  moreover have "length ws = n" by (simp add: ws_def ws1_def len0)
  ultimately show ?thesis
    using that [OF push] unfolding next_eq n_def by (simp add: ws0_def bp_def wd_def)
qed

lemma iv_push_correct:
  assumes inv: "iv_inv v" and fit: "\<forall>j\<ge>iv_width v. \<not> bit x j"
    and wrap: "(iv_len v + 1) * iv_width v < 2 ^ 64"
  obtains v' where "iv_push v x = Some v'" "iv_inv v'" "iv_width v' = iv_width v"
    "iv_values v' = iv_values v @ [x]"
proof (cases "iv_width v = 0")
  case True
  define v' where "v' = v\<lparr>iv_len := iv_len v + 1\<rparr>"
  have "x = 0" using fit True by (simp add: bit_eq_iff)
  moreover have zero: "iv_get u i = Some 0" if "iv_width u = 0" "i < iv_len u" for u i
    using that by (simp add: iv_get_def packed_get_def)
  ultimately have "iv_values v' = iv_values v @ [x]"
    using True by (simp add: iv_values_def v'_def)
  moreover have "iv_inv v'" using inv True by (simp add: iv_inv_def v'_def)
  ultimately show ?thesis using that [of v'] True by (simp add: iv_push_def v'_def)
next
  case False
  obtain ws where push: "iv_push v x = Some (v\<lparr>iv_len := iv_len v + 1, iv_words := ws\<rparr>)"
    and len: "length ws = div_ceil ((iv_len v + 1) * iv_width v) 64"
    and str: "\<And>p. words_bit ws p \<longleftrightarrow> words_bit (iv_words v) p \<or>
           (iv_len v * iv_width v \<le> p \<and> bit x (p - iv_len v * iv_width v))"
    by (rule iv_push_words [OF inv fit wrap False]) blast
  define v' where "v' = v\<lparr>iv_len := iv_len v + 1, iv_words := ws\<rparr>"
  have old: "\<not> words_bit (iv_words v) p" if "iv_len v * iv_width v \<le> p" for p
    using inv that by (simp add: iv_inv_def)
  have inv': "iv_inv v'"
    unfolding iv_inv_def v'_def using inv wrap len fit old
    by (auto simp: str iv_inv_def algebra_simps)
  have "iv_values v' ! i = (iv_values v @ [x]) ! i" if i: "i < iv_len v'" for i
  proof (rule bit_eqI)
    fix j
    have bits: "bit (iv_values v' ! i) j \<longleftrightarrow> j < iv_width v \<and> words_bit ws (i * iv_width v + j)"
      using bit_iv_values [OF inv' i] by (simp add: v'_def)
    show "bit (iv_values v' ! i) j = bit ((iv_values v @ [x]) ! i) j"
    proof (cases "i < iv_len v")
      case True
      have "Suc i * iv_width v \<le> iv_len v * iv_width v" using True by (intro mult_le_mono1) simp
      then have "i * iv_width v + j < iv_len v * iv_width v" if "j < iv_width v" using that by simp
      then show ?thesis using bits True bit_iv_values [OF inv True, of j]
        by (auto simp: str nth_append)
    next
      case False
      then have "i = iv_len v" using i by (simp add: v'_def)
      then show ?thesis using bits fit old by (auto simp: str nth_append)
    qed
  qed
  then have "iv_values v' = iv_values v @ [x]"
    by (intro nth_equalityI) (simp_all add: v'_def)
  then show ?thesis using that [of v'] push inv' by (simp add: v'_def)
qed

lemma iv_push_all_correct:
  assumes "iv_inv v" "\<forall>x\<in>set xs. \<forall>j\<ge>iv_width v. \<not> bit x j"
    "(iv_len v + length xs) * iv_width v < 2 ^ 64"
  shows "\<exists>v'. iv_push_all v xs = Some v' \<and> iv_inv v' \<and> iv_width v' = iv_width v \<and>
     iv_values v' = iv_values v @ xs"
  using assms
proof (induction xs arbitrary: v)
  case (Cons x xs)
  have "(iv_len v + 1) * iv_width v \<le> (iv_len v + length (x # xs)) * iv_width v"
    by (intro mult_le_mono1) simp
  then have "(iv_len v + 1) * iv_width v < 2 ^ 64" using Cons.prems(3) by (rule le_less_trans)
  with Cons.prems obtain v' where v': "iv_push v x = Some v'" "iv_inv v'" "iv_width v' = iv_width v"
    "iv_values v' = iv_values v @ [x]"
    by (metis iv_push_correct list.set_intros(1))
  have "iv_len v' = iv_len v + 1" using arg_cong [OF v'(4), of length] by simp
  then show ?case using Cons.IH [OF v'(2)] Cons.prems v' by auto
qed simp

lemma bits_for_le_iff: "bits_for x \<le> k \<longleftrightarrow> unat x < 2 ^ k \<or> 64 \<le> k"
proof (cases "k \<le> 64")
  case True
  then have "bits_for x \<le> k \<longleftrightarrow> 64 - k \<le> leading_zeros x"
    using leading_zeros_le [of x] by (auto simp: bits_for_def)
  also have "\<dots> \<longleftrightarrow> (\<forall>i\<ge>k. \<not> bit x i)"
    using leading_zeros_ge_iff [where 'a = 64, of k x] True by simp
  finally show ?thesis by (simp add: high_bits_clear_iff)
qed (simp add: bits_for_def)

lemma bits_for_fits: "x \<le> y \<Longrightarrow> j \<ge> bits_for y \<Longrightarrow> \<not> bit (x :: u64) j"
  using high_bits_clear_iff [of "bits_for y" x] bits_for_le_iff [of y "bits_for y"]
  by (auto simp: word_le_nat_alt)

theorem iv_from_values_correct:
  assumes "length xs * bits_for (if xs = [] then 0 else Max (set xs)) < 2 ^ 64"
  shows "\<exists>v. iv_from_values xs = Some v \<and> iv_inv v \<and> iv_values v = xs \<and>
     iv_width v = bits_for (if xs = [] then 0 else Max (set xs))"
proof -
  define w where "w = bits_for (if xs = [] then 0 else Max (set xs))"
  have "w \<le> 64" by (simp add: w_def bits_for_def)
  then obtain v where v: "iv_with_width w = Some v" "iv_inv v" "iv_len v = 0" "iv_width v = w"
    "iv_values v = []" using iv_with_width_inv by blast
  have "\<forall>x\<in>set xs. \<forall>j\<ge>iv_width v. \<not> bit x j"
    unfolding v w_def by (auto simp: bits_for_fits [OF Max_ge])
  from iv_push_all_correct [OF v(2) this] show ?thesis
    using assms v unfolding iv_from_values_def w_def [symmetric] by auto
qed

section \<open>The byte encoding and the borrowed reader\<close>

lemma length_concat_le_bytes: "length (concat (map (le_bytes 8) ws)) = 8 * length (ws :: u64 list)"
  by (induction ws) simp_all

lemma drop_concat_le_bytes:
  "drop (8 * k) (concat (map (le_bytes 8) (ws :: u64 list))) = concat (map (le_bytes 8) (drop k ws))"
proof (induction ws arbitrary: k)
  case (Cons w ws)
  then show ?case by (cases k) simp_all
qed simp

lemma bytes_read_u64_le_append [simp]:
  "bytes_read_u64_le (le_bytes 8 w @ rest) 0 = Some (w :: u64)"
  "length pre = n \<Longrightarrow> bytes_read_u64_le (pre @ le_bytes 8 w @ rest) n = Some (w :: u64)"
  by (simp_all add: bytes_read_u64_le_def)

lemma bytes_read_u32_le_append [simp]:
  "length pre = n \<Longrightarrow> bytes_read_u32_le (pre @ le_bytes 4 w @ rest) n = Some (w :: u32)"
  by (simp add: bytes_read_u32_le_def)

lemma read_u64_le_words:
  assumes "k < length ws"
  shows "read_u64_le (concat (map (le_bytes 8) ws)) k = Some (ws ! k)"
proof -
  have "drop (k * 8) (concat (map (le_bytes 8) ws)) =
      le_bytes 8 (ws ! k) @ concat (map (le_bytes 8) (drop (Suc k) ws))"
    using drop_concat_le_bytes [of k ws] Cons_nth_drop_Suc [OF assms]
    by (metis concat.simps(2) list.simps(9) mult.commute)
  then show ?thesis using assms
    by (simp add: read_u64_le_def bytes_read_u64_le_def length_concat_le_bytes)
qed

definition ivr_inv :: "int_vector_ref \<Rightarrow> bool" where
  "ivr_inv r \<longleftrightarrow> ivr_width r \<le> 64 \<and> ivr_len r * ivr_width r < 2 ^ 64 \<and>
     length (ivr_words r) = 8 * div_ceil (ivr_len r * ivr_width r) 64"

definition ivr_values :: "int_vector_ref \<Rightarrow> u64 list" where
  "ivr_values r = map (the \<circ> ivr_get r) [0..<ivr_len r]"

lemma length_ivr_values [simp]: "length (ivr_values r) = ivr_len r"
  by (simp add: ivr_values_def)

text \<open>The reader of a well-formed buffer never panics below its length.\<close>

lemma read_u64_le_Some: "8 * k + 8 \<le> length bs \<Longrightarrow> \<exists>w. read_u64_le bs k = Some w"
  by (simp add: read_u64_le_def bytes_read_u64_le_def)

lemma ivr_get_values:
  assumes inv: "ivr_inv r" and i: "i < ivr_len r"
  shows "ivr_get r i = Some (ivr_values r ! i)"
proof -
  define n where "n = div_ceil (ivr_len r * ivr_width r) 64"
  define ws where "ws = map (the \<circ> read_u64_le (ivr_words r)) [0..<n]"
  have rd: "read_u64_le (ivr_words r) k = Some (ws ! k)" if "k < length ws" for k
    using that inv read_u64_le_Some [of k "ivr_words r"] by (auto simp: ws_def ivr_inv_def n_def)
  have w: "ivr_width r \<le> 64" "ivr_len r * ivr_width r < 2 ^ 64"
    using inv by (simp_all add: ivr_inv_def)
  have fits: "ivr_len r * ivr_width r \<le> 64 * length ws"
    using le_div_ceil_mult [of 64 "ivr_len r * ivr_width r"] by (simp add: ws_def n_def mult.commute)
  obtain x where "packed_get (read_u64_le (ivr_words r)) (ivr_width r) (ivr_len r) i = Some x"
    by (rule packed_get_value [OF rd w(1) i w(2) fits])
  then show ?thesis using i by (simp add: ivr_values_def ivr_get_def)
qed

theorem ivr_from_bytes_to_bytes:
  assumes inv: "iv_inv v" and len: "iv_len v < 2 ^ 64"
  obtains r where "ivr_from_bytes (iv_to_bytes v @ rest) = Inr r" "ivr_inv r"
    "ivr_values r = iv_values v" "ivr_serialized_len r = length (iv_to_bytes v)"
    "ivr_len r = iv_len v" "ivr_width r = iv_width v"
proof -
  define r where "r = \<lparr>ivr_width = iv_width v, ivr_len = iv_len v, ivr_words = iv_packed_bytes v\<rparr>"
  have w: "iv_width v \<le> 64" "iv_len v * iv_width v < 2 ^ 64"
    and lw: "length (iv_words v) = div_ceil (iv_len v * iv_width v) 64"
    using inv by (simp_all add: iv_inv_def)
  have lb: "length (iv_packed_bytes v) = 8 * div_ceil (iv_len v * iv_width v) 64"
    by (simp add: iv_packed_bytes_def length_concat_le_bytes lw)
  have un: "unat (of_nat (iv_len v) :: u64) = iv_len v" "unat (of_nat (iv_width v) :: u32) = iv_width v"
    using len w by (simp_all add: unat_of_nat)
  have hdr: "read_header_u64 (iv_to_bytes v @ rest) 0 = Inr (of_nat (iv_len v), 8)"
    "read_header_u32 (iv_to_bytes v @ rest) 8 = Inr (of_nat (iv_width v), 12)"
    by (simp_all add: read_header_u64_def read_header_u32_def iv_to_bytes_def)
  have prod: "iv_len v * iv_width v mod 2 ^ 64 = iv_len v * iv_width v"
    using w by (intro mod_less)
  have sl: "slice_range 12 (12 + length (iv_packed_bytes v)) (iv_to_bytes v @ rest) = iv_packed_bytes v"
    by (simp add: iv_to_bytes_def slice_range_def)
  have parse: "ivr_from_bytes (iv_to_bytes v @ rest) = Inr r"
    using w sl unfolding ivr_from_bytes_def hdr un prod
    by (simp add: hdr un prod lb r_def mult.commute) (simp add: iv_to_bytes_def lb un)
  have rd: "read_u64_le (iv_packed_bytes v) k = Some (iv_words v ! k)"
      "nth_opt (iv_words v) k = Some (iv_words v ! k)" if "k < length (iv_words v)" for k
    using that by (simp_all add: iv_packed_bytes_def read_u64_le_words)
  have same: "ivr_get r i = iv_get v i" if "i < iv_len v" for i
    unfolding ivr_get_def iv_get_def r_def int_vector_ref.simps
    by (rule packed_get_same [OF rd w(1) that w(2) iv_inv_fits [OF inv]])
  have "ivr_values r = iv_values v"
    unfolding ivr_values_def iv_values_def using same by (auto simp: r_def)
  moreover have "ivr_inv r" using w by (simp add: ivr_inv_def r_def lb)
  moreover have "ivr_serialized_len r = length (iv_to_bytes v)"
    by (simp add: ivr_serialized_len_def r_def iv_to_bytes_def)
  ultimately show ?thesis using that [OF parse] by (simp add: r_def)
qed

section \<open>The byte encoding\<close>

lemma values_bytes_parse:
  assumes "length xs < 2 ^ 58"
  shows "\<exists>v r. iv_from_values xs = Some v \<and> ivr_from_bytes (iv_to_bytes v @ rest) = Inr r \<and>
     ivr_serialized_len r = length (iv_to_bytes v) \<and> ivr_len r = length xs \<and>
     (\<forall>i < length xs. ivr_get r i = Some (xs ! i))"
proof -
  let ?w = "bits_for (if xs = [] then 0 else Max (set xs))"
  have "length xs * ?w \<le> length xs * 64" by (intro mult_le_mono2) (simp add: bits_for_def)
  also have "\<dots> < 2 ^ 64" using assms by simp
  finally have "length xs * ?w < 2 ^ 64" .
  from iv_from_values_correct [OF this]
  obtain v where v: "iv_from_values xs = Some v" "iv_inv v" "iv_values v = xs" by blast
  have len: "iv_len v = length xs" using arg_cong [OF v(3), of length] by simp
  then have "iv_len v < 2 ^ 64" using assms by simp
  from ivr_from_bytes_to_bytes [OF v(2) this, of rest]
  obtain r where "ivr_from_bytes (iv_to_bytes v @ rest) = Inr r" "ivr_inv r" "ivr_values r = iv_values v"
    "ivr_serialized_len r = length (iv_to_bytes v)" "ivr_len r = iv_len v" by metis
  then show ?thesis using v len ivr_get_values [of r] by auto
qed

section \<open>A header that wraps\<close>

definition overflow_header :: bytes where
  "overflow_header = [0, 0, 0, 0, 0, 0, 0, 0x40, 4, 0, 0, 0]"

lemma overflow_header_parses:
  "\<exists>r. ivr_from_bytes overflow_header = Inr r \<and> ivr_len r = 2 ^ 62 \<and> ivr_width r = 4 \<and>
     ivr_words r = [] \<and> ivr_get r 0 = None"
proof -
  define r where "r = \<lparr>ivr_width = 4, ivr_len = 2 ^ 62, ivr_words = []\<rparr>"
  have h: "read_header_u64 overflow_header 0 = Inr (0x4000000000000000, 8)"
    "read_header_u32 overflow_header 8 = Inr (4, 12)"
    by code_simp+
  have "ivr_from_bytes overflow_header = Inr r"
    by (simp only: ivr_from_bytes_def h sum.case prod.case)
      (simp add: r_def div_ceil_def slice_range_def overflow_header_def)
  moreover have "ivr_get r 0 = None"
    by (simp add: ivr_get_def packed_get_def r_def read_u64_le_def bytes_read_u64_le_def)
  ultimately show ?thesis by (auto simp: r_def)
qed

section \<open>What a header promises\<close>

text \<open>The bytes of payload that a header asks for, and the bits of a little-endian payload.\<close>

definition promised :: "nat \<Rightarrow> nat \<Rightarrow> nat" where
  "promised len width = 8 * div_ceil (len * width mod 2 ^ 64) 64"

definition payload_bit :: "bytes \<Rightarrow> nat \<Rightarrow> bool" where
  "payload_bit payload n \<longleftrightarrow> n div 8 < length payload \<and> bit (payload ! (n div 8)) (n mod 8)"

lemma parse_header:
  "ivr_from_bytes (le_bytes 8 (len :: u64) @ le_bytes 4 (width :: u32) @ payload) =
     (if 64 < unat width then Inl (Malformed ''int_vector: width exceeds 64'')
      else if length payload < promised (unat len) (unat width)
      then Inl (Truncated (12 + promised (unat len) (unat width)) (12 + length payload))
      else Inr \<lparr>ivr_width = unat width, ivr_len = unat len, ivr_words = take (promised (unat len) (unat width)) payload\<rparr>)"
proof -
  let ?bs = "le_bytes 8 len @ le_bytes 4 width @ payload"
  have h: "read_header_u64 ?bs 0 = Inr (len, 8)" "read_header_u32 ?bs 8 = Inr (width, 12)"
    by (simp_all add: read_header_u64_def read_header_u32_def)
  have slice: "slice_range 12 (12 + n) ?bs = take n payload" for n by (simp add: slice_range_def)
  show ?thesis unfolding ivr_from_bytes_def h sum.case prod.case Let_def mult.commute [of _ 8] promised_def [symmetric] slice by simp
qed

text \<open>The words of a payload, and their bits.\<close>

definition payload_words :: "bytes \<Rightarrow> nat \<Rightarrow> u64 list" where
  "payload_words payload n = map (\<lambda>k. of_le_bytes (take 8 (drop (k * 8) payload))) [0..<n]"

lemma read_payload: "8 * n \<le> length payload \<Longrightarrow> read_u64_le (take (8 * n) payload) k = (if k < n then Some (payload_words payload n ! k) else None)"
  by (auto simp: read_u64_le_def bytes_read_u64_le_def payload_words_def drop_take)

lemma payload_words_bit:
  assumes "8 * n \<le> length payload" "p < 64 * n"
  shows "words_bit (payload_words payload n) p \<longleftrightarrow> payload_bit payload p"
proof -
  have k: "p div 64 < n" using assms(2) by (simp add: less_mult_imp_div_less mult.commute)
  have "p = p mod 64 + 8 * (8 * (p div 64))" by simp
  then have "p div 8 = (p mod 64 + 8 * (8 * (p div 64))) div 8" by (rule arg_cong)
  also have "\<dots> = 8 * (p div 64) + p mod 64 div 8" by (rule div_mult_self2) simp
  finally have d: "p div 8 = p mod 64 div 8 + p div 64 * 8" by simp
  have m: "p mod 64 mod 8 = p mod 8" "p mod 64 div 8 < 8" "p mod 64 < 64" by (simp_all add: mod_mod_cancel)
  have "p div 64 * 8 + 8 \<le> length payload" using k assms(1) by linarith
  then have "p mod 64 div 8 < length payload - p div 64 * 8" "p div 64 * 8 + p mod 64 div 8 < length payload" "p div 64 * 8 \<le> length payload"
    using m(2) by linarith+
  then show ?thesis using k d m
    by (simp add: words_bit_def payload_words_def bit_of_le_bytes payload_bit_def add.commute del: numeral_nat)
qed

lemma reads_within:
  assumes "width \<le> 64" "promised len width \<le> length payload" "len * width < 2 ^ 64" "i < len"
  shows "\<exists>x. ivr_get \<lparr>ivr_width = width, ivr_len = len, ivr_words = take (promised len width) payload\<rparr> i = Some x \<and>
    (\<forall>j. bit x j \<longleftrightarrow> j < width \<and> payload_bit payload (i * width + j))"
proof -
  define n where "n = div_ceil (len * width) 64"
  have p: "promised len width = 8 * n" using assms(3) by (simp add: promised_def n_def)
  have fits: "len * width \<le> 64 * n" using le_div_ceil_mult [of 64 "len * width"] by (simp add: n_def mult.commute)
  have words: "length (payload_words payload n) = n" by (simp add: payload_words_def)
  have "read_u64_le (take (8 * n) payload) k = Some (payload_words payload n ! k)" if "k < n" for k
    using that assms(2) read_payload [of n payload k] by (simp add: p)
  then obtain x where x: "packed_get (read_u64_le (take (8 * n) payload)) width len i = Some x"
    "\<forall>j. bit x j \<longleftrightarrow> j < width \<and> words_bit (payload_words payload n) (i * width + j)"
    using packed_get_value [of "payload_words payload n" _ width i len] words assms fits by metis
  have "i * width + j < 64 * n" if "j < width" for j
  proof -
    have "(i + 1) * width \<le> len * width" using assms(4) by (intro mult_le_mono1) simp
    then show ?thesis using that fits by simp
  qed
  then have "words_bit (payload_words payload n) (i * width + j) \<longleftrightarrow> payload_bit payload (i * width + j)" if "j < width" for j
    using payload_words_bit [of n payload] assms(2) that by (simp add: p)
  then show ?thesis using x by (auto simp: ivr_get_def p)
qed

text \<open>With a wrapped product the entry at the last word of the range that \<open>u64\<close> positions reach is not there.\<close>

lemma read_panics:
  assumes "width \<le> 64" "promised len width \<le> length payload" "length payload < 2 ^ 61" "2 ^ 64 \<le> len * width"
  shows "\<exists>i<len. ivr_get \<lparr>ivr_width = width, ivr_len = len, ivr_words = take (promised len width) payload\<rparr> i = None"
proof -
  define n where "n = div_ceil (len * width mod 2 ^ 64) 64"
  define i where "i = (2 ^ 64 - 1) div width"
  have width: "0 < width" using assms(4) by (cases width) auto
  have le: "i * width \<le> 2 ^ 64 - 1" unfolding i_def by (rule div_times_less_eq_dividend)
  have gt: "2 ^ 64 - 1 < i * width + width" using dividend_less_div_times [OF width, of "2 ^ 64 - 1"] by (simp add: i_def)
  have i: "i < len"
  proof (rule ccontr)
    assume "\<not> i < len"
    then have "len * width \<le> i * width" by (intro mult_le_mono1) simp
    from le_trans [OF assms(4) le_trans [OF this le]] show False by simp
  qed
  have "2 ^ 64 - 64 \<le> i * width" using gt assms(1) by linarith
  then have word: "2 ^ 58 - 1 \<le> i * width div 64" using div_le_mono [of "2 ^ 64 - 64" "i * width" 64] by simp
  have p: "promised len width = 8 * n" by (simp add: promised_def n_def)
  then have "n < 2 ^ 58" using assms(2,3) by simp
  then have "\<not> i * width div 64 < n" using word by linarith
  then have "read_u64_le (take (8 * n) payload) (i * width div 64) = None"
    using read_payload [of n payload "i * width div 64"] assms(2) by (simp add: p)
  moreover have "i * width mod 2 ^ 64 = i * width" using le by simp
  ultimately have "packed_get (read_u64_le (take (8 * n) payload)) width len i = None"
    using i width unfolding packed_get_def Let_def by simp
  then show ?thesis using i by (auto simp: ivr_get_def p)
qed

section \<open>Properties\<close>

text \<open>C1: \<open>IntVector::from_values\<close> returns a vector whose width is the bit length of the
  largest value and whose \<open>get\<close> returns exactly the values, panicking only at an index past
  the end, as long as the packed size stays below \<open>2 ^ 64\<close> bits.\<close>

theorem from_values_get:
  assumes "length xs * bits_for (if xs = [] then 0 else Max (set xs)) < 2 ^ 64"
  shows "\<exists>v. iv_from_values xs = Some v \<and> iv_len v = length xs \<and>
     iv_width v = bits_for (if xs = [] then 0 else Max (set xs)) \<and>
     (\<forall>i. iv_get v i = (if i < length xs then Some (xs ! i) else None))"
proof -
  obtain v where v: "iv_from_values xs = Some v" "iv_inv v" "iv_values v = xs"
    "iv_width v = bits_for (if xs = [] then 0 else Max (set xs))"
    using iv_from_values_correct [OF assms] by blast
  have "iv_len v = length xs" using arg_cong [OF v(3), of length] by simp
  then show ?thesis using v iv_get_values [OF v(2)] by (auto simp: iv_get_def packed_get_def)
qed

theorem from_values_get_witness:
  "\<exists>v. iv_from_values [5, 0, 7] = Some v \<and> iv_len v = 3 \<and> iv_get v 0 = Some 5 \<and>
     iv_get v 2 = Some 7 \<and> iv_get v 3 = None"
proof -
  have "bits_for (Max (set [5, 0, 7])) \<le> 64" by (simp add: bits_for_def)
  then have "length [5, 0, 7 :: u64] * bits_for (if [5, 0, 7 :: u64] = [] then 0 else Max (set [5, 0, 7])) < 2 ^ 64"
    by simp
  from from_values_get [OF this] obtain v where "iv_from_values [5, 0, 7] = Some v"
    "iv_len v = length [5, 0, 7 :: u64]"
    "\<forall>i. iv_get v i = (if i < length [5, 0, 7 :: u64] then Some ([5, 0, 7] ! i) else None)" by blast
  then show ?thesis by (intro exI [of _ v]) simp
qed

text \<open>C2: the byte encoding of a packed vector, followed by any other bytes, parses back to a
  reader with the same length and entries, which reports the encoding's own length as
  consumed.\<close>

theorem packed_bytes_round_trip:
  assumes "length xs < 2 ^ 58"
  shows "\<exists>v r. iv_from_values xs = Some v \<and> ivr_from_bytes (iv_to_bytes v @ rest) = Inr r \<and>
     ivr_serialized_len r = length (iv_to_bytes v) \<and> ivr_len r = length xs \<and>
     (\<forall>i < length xs. ivr_get r i = Some (xs ! i))"
  by (rule values_bytes_parse [OF assms])

theorem packed_bytes_round_trip_witness:
  "\<exists>v r. iv_from_values [5, 0, 7] = Some v \<and> ivr_from_bytes (iv_to_bytes v @ [1]) = Inr r \<and>
     ivr_get r 2 = Some 7"
  using packed_bytes_round_trip [of "[5, 0, 7]" "[1]"] by auto

text \<open>C3: \<open>IntVectorRef::from_bytes\<close> on every header and payload below \<open>2 ^ 61\<close> bytes. A width above 64 and a
  payload shorter than the header promises are refused; otherwise the reader takes exactly the promised
  bytes. The promise multiplies \<open>len\<close> and \<open>width\<close> in \<open>u64\<close>: every read below the length returns, and then with the
  bits of the payload at its place, exactly when that product does not wrap. With a wrapped product the
  parser accepts a buffer on which some read below the length panics.\<close>

theorem from_bytes_exact:
  assumes "length payload < 2 ^ 61"
  shows "ivr_from_bytes (le_bytes 8 (len :: u64) @ le_bytes 4 (width :: u32) @ payload) =
      (if 64 < unat width then Inl (Malformed ''int_vector: width exceeds 64'')
       else if length payload < promised (unat len) (unat width)
       then Inl (Truncated (12 + promised (unat len) (unat width)) (12 + length payload))
       else Inr \<lparr>ivr_width = unat width, ivr_len = unat len, ivr_words = take (promised (unat len) (unat width)) payload\<rparr>) \<and>
    (\<forall>r. ivr_from_bytes (le_bytes 8 len @ le_bytes 4 width @ payload) = Inr r \<longrightarrow>
      ((\<forall>i<ivr_len r. ivr_get r i \<noteq> None) \<longleftrightarrow> unat len * unat width < 2 ^ 64) \<and>
      (unat len * unat width < 2 ^ 64 \<longrightarrow> (\<forall>i<ivr_len r. \<exists>x. ivr_get r i = Some x \<and>
        (\<forall>j. bit x j \<longleftrightarrow> j < unat width \<and> payload_bit payload (i * unat width + j)))))"
proof -
  have "((\<forall>i<ivr_len r. ivr_get r i \<noteq> None) \<longleftrightarrow> unat len * unat width < 2 ^ 64) \<and>
      (unat len * unat width < 2 ^ 64 \<longrightarrow> (\<forall>i<ivr_len r. \<exists>x. ivr_get r i = Some x \<and>
        (\<forall>j. bit x j \<longleftrightarrow> j < unat width \<and> payload_bit payload (i * unat width + j))))"
    if "ivr_from_bytes (le_bytes 8 len @ le_bytes 4 width @ payload) = Inr r" for r
  proof -
    have r: "r = \<lparr>ivr_width = unat width, ivr_len = unat len, ivr_words = take (promised (unat len) (unat width)) payload\<rparr>"
      "unat width \<le> 64" "promised (unat len) (unat width) \<le> length payload"
      using that by (auto simp: parse_header split: if_splits)
    show ?thesis using reads_within [OF r(2,3)] read_panics [OF r(2,3) assms] unfolding r(1) int_vector_ref.simps
      by (metis not_le option.distinct(1))
  qed
  then show ?thesis unfolding parse_header by blast
qed

theorem from_bytes_exact_witness:
  "(\<exists>r i. ivr_from_bytes (le_bytes 8 (2 ^ 62 :: u64) @ le_bytes 4 (4 :: u32) @ []) = Inr r \<and> i < ivr_len r \<and> ivr_get r i = None) \<and>
   ivr_from_bytes (le_bytes 8 (3 :: u64) @ le_bytes 4 (4 :: u32) @ [1, 2]) = Inl (Truncated 20 14)"
proof -
  have p: "promised (unat (2 ^ 62 :: u64)) (unat (4 :: u32)) = 0" "\<not> unat (2 ^ 62 :: u64) * unat (4 :: u32) < 2 ^ 64"
    "promised (unat (3 :: u64)) (unat (4 :: u32)) = 8" by (simp_all add: promised_def div_ceil_def)
  show ?thesis using from_bytes_exact [of "[]" "2 ^ 62" 4] from_bytes_exact [of "[1, 2]" 3 4] p by auto
qed

end
