(* ===== verification/Varint.thy ===== *)
theory Varint
  imports IntVec
begin

unbundle bit_operations_syntax

text \<open>
  The variable-length integers of the pack format
  (\<open>crates/rdf-core/src/ir/pack/bits.rs\<close>): LEB128 varints, the zigzag map, and delta lists
  with their streaming reader. A reader that advances a \<open>&mut usize\<close> cursor returns the
  cursor beside its result, on the error paths too.
\<close>

section \<open>Varints\<close>

function write_varint :: "bytes \<Rightarrow> u64 \<Rightarrow> bytes" where
  "write_varint out v =
     (let byte = ucast (v AND 0x7f); v' = drop_bit 7 v
      in if v' = 0 then out @ [byte] else write_varint (out @ [byte OR 0x80]) v')"
  by auto

lemma unat_drop_bit_7: "unat (drop_bit 7 v) = unat (v :: u64) div 128"
  by (simp add: drop_bit_eq_div unat_div_distrib)

lemma drop_bit_7_less: "drop_bit 7 (v :: u64) \<noteq> 0 \<Longrightarrow> unat (drop_bit 7 v) < unat v"
proof -
  assume "drop_bit 7 v \<noteq> 0"
  then have "unat v div 128 \<noteq> 0" by (metis unat_drop_bit_7 unat_eq_zero)
  then show ?thesis unfolding unat_drop_bit_7 by simp
qed

termination write_varint
  by (relation "measure (\<lambda>(_, v). unat v)") (auto intro: drop_bit_7_less)

declare write_varint.simps [simp del]

function read_varint_loop :: "bytes \<Rightarrow> nat \<Rightarrow> u64 \<Rightarrow> nat \<Rightarrow> (pack_bits_error + u64) \<times> nat" where
  "read_varint_loop bs pos result shift =
     (if shift \<ge> 64 then (Inl (Malformed ''varint exceeds 64 bits''), pos)
      else if \<not> pos < length bs then (Inl (Truncated (usize_saturating_add pos 1) (length bs)), pos)
      else
        let byte = bs ! pos; pos = pos + 1
        in if shift = 63 \<and> byte AND 0x7e \<noteq> 0 then (Inl (Malformed ''varint exceeds 64 bits''), pos)
           else
             let result = result OR push_bit shift (ucast (byte AND 0x7f))
             in if byte AND 0x80 = 0 then (Inr result, pos)
                else read_varint_loop bs pos result (shift + 7))"
  by auto
termination by (relation "measure (\<lambda>(_, _, _, shift). 64 - shift)") auto

declare read_varint_loop.simps [simp del]

definition read_varint :: "bytes \<Rightarrow> nat \<Rightarrow> (pack_bits_error + u64) \<times> nat" where
  "read_varint bs pos = read_varint_loop bs pos 0 0"

section \<open>Zigzag\<close>

text \<open>An \<open>i64\<close> is its 64-bit pattern; \<open>>>\<close> on it is the arithmetic shift.\<close>

definition zigzag_encode :: "u64 \<Rightarrow> u64" where
  "zigzag_encode value = push_bit 1 value XOR signed_drop_bit 63 value"

definition zigzag_decode :: "u64 \<Rightarrow> u64" where
  "zigzag_decode value = drop_bit 1 value XOR - (value AND 1)"

section \<open>Delta lists\<close>

text \<open>\<open>v - prev\<close> as the release build computes it; that the values do not decrease is the
  debug assertion, a hypothesis of the lemmas.\<close>

fun write_delta_loop :: "bytes \<Rightarrow> u64 \<Rightarrow> u64 list \<Rightarrow> bytes" where
  "write_delta_loop out prev [] = out"
| "write_delta_loop out prev (v # vs) = write_delta_loop (write_varint out (v - prev)) v vs"

definition write_delta_list :: "bytes \<Rightarrow> u64 list \<Rightarrow> bytes" where
  "write_delta_list out values = write_delta_loop out 0 values"

record delta_list_ref =
  dl_bytes :: bytes
  dl_pos :: nat
  dl_remaining :: nat
  dl_prev :: u64

definition dl_new :: "bytes \<Rightarrow> nat \<Rightarrow> delta_list_ref" where
  "dl_new bs count = \<lparr>dl_bytes = bs, dl_pos = 0, dl_remaining = count, dl_prev = 0\<rparr>"

definition checked_add_u64 :: "u64 \<Rightarrow> u64 \<Rightarrow> u64 option" where
  "checked_add_u64 a b = (if unat a + unat b < 2 ^ 64 then Some (a + b) else None)"

definition dl_next :: "delta_list_ref \<Rightarrow> (pack_bits_error + u64) option \<times> delta_list_ref" where
  "dl_next d =
     (if dl_remaining d = 0 then (None, d)
      else
        let d = d\<lparr>dl_remaining := dl_remaining d - 1\<rparr>
        in case read_varint (dl_bytes d) (dl_pos d) of (res, pos) \<Rightarrow>
          let d = d\<lparr>dl_pos := pos\<rparr>
          in case res of
            Inr delta \<Rightarrow> (case checked_add_u64 (dl_prev d) delta of
                Some value \<Rightarrow> (Some (Inr value), d\<lparr>dl_prev := value\<rparr>)
              | None \<Rightarrow> (Some (Inl (Malformed ''delta list value overflow'')), d\<lparr>dl_remaining := 0\<rparr>))
          | Inl e \<Rightarrow> (Some (Inl e), d\<lparr>dl_remaining := 0\<rparr>))"

lemma dl_next_remaining: "dl_next d = (Some x, d') \<Longrightarrow> dl_remaining d' < dl_remaining d"
  by (auto simp: dl_next_def Let_def split: if_splits prod.splits sum.splits option.splits)

text \<open>Draining the iterator: the items it yields and the state it ends in.\<close>

function dl_drain :: "delta_list_ref \<Rightarrow> (pack_bits_error + u64) list \<times> delta_list_ref" where
  "dl_drain d =
     (case dl_next d of
        (None, d') \<Rightarrow> ([], d')
      | (Some x, d') \<Rightarrow> let (xs, d'') = dl_drain d' in (x # xs, d''))"
  by auto
termination by (relation "measure dl_remaining") (auto intro: dl_next_remaining [OF sym])

declare dl_drain.simps [simp del]

section \<open>Varint round trip\<close>

definition varint_bytes :: "u64 \<Rightarrow> bytes" where
  "varint_bytes v = write_varint [] v"

lemma write_varint_pre: "write_varint (out @ out') v = out @ write_varint out' v"
proof (induction out' v rule: write_varint.induct)
  case (1 out' v)
  show ?case
  proof (cases "drop_bit 7 v = 0")
    case False
    then show ?thesis using 1 [OF refl refl False]
      unfolding write_varint.simps [of "out @ out'" v] write_varint.simps [of out' v] Let_def append_assoc
      by (simp only: if_False)
  qed (simp add: write_varint.simps [of _ v])
qed

lemma write_varint_append: "write_varint out v = out @ varint_bytes v"
  using write_varint_pre [of out "[]"] by (simp add: varint_bytes_def)

lemma varint_bytes_rec:
  "varint_bytes v = (if drop_bit 7 v = 0 then [ucast (v AND 0x7f)]
     else (ucast (v AND 0x7f) OR 0x80) # varint_bytes (drop_bit 7 v))"
  using write_varint.simps [of "[]" v] unfolding write_varint_append Let_def by simp

lemma mask_7: "v AND 0x7f = take_bit 7 (v :: 'a::len word)"
  by (simp add: take_bit_eq_mask mask_eq_exp_minus_1)

lemma byte_7: "(ucast (take_bit 7 (v :: u64)) :: u8) AND 0x80 = 0"
    "((ucast (take_bit 7 (v :: u64)) :: u8) OR 0x80) AND 0x80 \<noteq> 0"
    "ucast ((ucast (take_bit 7 v) :: u8) AND 0x7f) = take_bit 7 v"
    "ucast (((ucast (take_bit 7 v) :: u8) OR 0x80) AND 0x7f) = take_bit 7 v"
proof -
  have "(0x80 :: u8) = push_bit 7 1" by simp
  then have b: "bit (0x80 :: u8) j \<longleftrightarrow> j = 7" for j
    by (simp only: bit_push_bit_iff) (auto simp: bit_simps)
  show "(ucast (take_bit 7 (v :: u64)) :: u8) AND 0x80 = 0"
    by (rule bit_word_eqI, simp only: bit_and_iff b) (auto simp: bit_simps)
  show "((ucast (take_bit 7 (v :: u64)) :: u8) OR 0x80) AND 0x80 \<noteq> 0"
    by (metis b bit_0_eq bit_and_iff bit_or_iff bot_apply bot_bool_def)
  show "ucast ((ucast (take_bit 7 v) :: u8) AND 0x7f) = take_bit 7 v"
    "ucast (((ucast (take_bit 7 v) :: u8) OR 0x80) AND 0x7f) = take_bit 7 v"
    unfolding mask_7 by (rule bit_word_eqI; simp only: bit_take_bit_iff bit_or_iff bit_and_iff bit_unsigned_iff b; auto)+
qed

lemma take_drop_or: "take_bit 7 v OR push_bit 7 (drop_bit 7 v) = (v :: u64)"
proof (rule bit_word_eqI)
  fix n
  show "bit (take_bit 7 v OR push_bit 7 (drop_bit 7 v)) n = bit v n" if "n < LENGTH(64)"
    using that by (cases "n < 7") (auto simp: bit_simps)
qed

lemma varint_step:
  fixes v :: u64
  shows "push_bit s (take_bit 7 v) OR push_bit (s + 7) (drop_bit 7 v) = push_bit s v"
  using arg_cong [OF take_drop_or [of v], of "push_bit s"] by (simp add: push_bit_or push_bit_push_bit)

text \<open>Values that fit the bits left above the current shift are read back.\<close>

lemma read_varint_loop_correct:
  assumes "drop pos bs = varint_bytes v @ rest" "s mod 7 = 0" "s \<le> 63" "\<forall>j. bit v j \<longrightarrow> j + s < 64"
  shows "read_varint_loop bs pos result s = (Inr (result OR push_bit s v), pos + length (varint_bytes v))"
  using assms
proof (induction "unat v" arbitrary: v pos result s rule: less_induct)
  case less
  let ?t = "take_bit 7 v" and ?b = "bs ! pos"
  have ne: "varint_bytes v \<noteq> []" by (subst varint_bytes_rec) simp
  then have pos: "pos < length bs" using less.prems(1) by (metis append_is_Nil_conv drop_eq_Nil linorder_not_le)
  have b: "?b = hd (varint_bytes v)" using less.prems(1) ne pos by (metis hd_append2 hd_drop_conv_nth)
  have small: "?t = v AND 1" if "s = 63"
    using less.prems(4) that by (intro bit_word_eqI) (auto simp: bit_simps)
  have top: "\<not> (s = 63 \<and> ?b AND 0x7e \<noteq> 0)" and next0: "drop_bit 7 v = 0" if "s = 63"
  proof -
    have v1: "v AND 1 = v"
      using less.prems(4) that by (intro bit_word_eqI) (auto simp: bit_simps)
    show d: "drop_bit 7 v = 0"
      using less.prems(4) that by (intro bit_word_eqI) (auto simp: bit_simps)
    have "v = 0 \<or> v = 1" using v1 by (metis and_one_eq mod2_eq_if)
    then show "\<not> (s = 63 \<and> ?b AND 0x7e \<noteq> 0)"
      unfolding b by (subst varint_bytes_rec) (auto simp: d)
  qed
  show ?case
  proof (cases "drop_bit 7 v = 0")
    case True
    have vb: "varint_bytes v = [ucast ?t]" using True by (subst varint_bytes_rec) (simp add: mask_7)
    have "take_bit 7 v = v" using take_drop_or [of v] True by simp
    then show ?thesis using pos less.prems(3) top b byte_7 [of v]
      by (subst read_varint_loop.simps) (auto simp: Let_def vb)
  next
    case False
    then have vb: "varint_bytes v = (ucast ?t OR 0x80) # varint_bytes (drop_bit 7 v)"
      by (subst varint_bytes_rec) (simp add: mask_7)
    obtain q where "s = 7 * q" using less.prems(2) by (metis mod_eq_0_iff_dvd dvdE)
    moreover have "s \<noteq> 63" using next0 False by blast
    ultimately have s7: "s + 7 \<le> 63" using less.prems(3) by auto
    have "drop (pos + 1) bs = varint_bytes (drop_bit 7 v) @ rest"
      using less.prems(1) vb by (metis Suc_eq_plus1 append_Cons drop_Suc list.sel(3) tl_drop)
    moreover have "(s + 7) mod 7 = 0" using less.prems(2) by simp
    moreover have "\<forall>j. bit (drop_bit 7 v) j \<longrightarrow> j + (s + 7) < 64"
      using less.prems(4) by (force simp: bit_simps)
    ultimately have IH: "read_varint_loop bs (pos + 1) (result OR push_bit s ?t) (s + 7) =
        (Inr ((result OR push_bit s ?t) OR push_bit (s + 7) (drop_bit 7 v)), pos + 1 + length (varint_bytes (drop_bit 7 v)))"
      by (intro less.hyps [OF drop_bit_7_less [OF False]] s7)
    have "read_varint_loop bs pos result s = read_varint_loop bs (pos + 1) (result OR push_bit s ?t) (s + 7)"
      using pos less.prems(3) s7 b byte_7 [of v] vb
      by (subst read_varint_loop.simps) (simp add: Let_def)
    then show ?thesis unfolding IH or.assoc varint_step by (simp add: vb)
  qed
qed

lemma read_varint_correct:
  assumes "drop pos bs = varint_bytes v @ rest"
  shows "read_varint bs pos = (Inr v, pos + length (varint_bytes v))"
  using read_varint_loop_correct [OF assms, of 0 0] bit_imp_le_length [of v] by (simp add: read_varint_def)

lemma length_varint_bytes: "unat v < 2 ^ (7 * n) \<Longrightarrow> 0 < n \<Longrightarrow> length (varint_bytes v) \<le> n"
proof (induction n arbitrary: v)
  case (Suc n)
  show ?case
  proof (cases "drop_bit 7 v = 0")
    case False
    have nz: "unat v div 128 \<noteq> 0" using False by (metis unat_drop_bit_7 unat_eq_zero)
    then have "unat (drop_bit 7 v) < 2 ^ (7 * n)" "0 < n"
      using Suc.prems by (auto simp: unat_drop_bit_7 power_add less_mult_imp_div_less mult.commute intro!: Nat.gr0I)
    then show ?thesis using Suc.IH [of "drop_bit 7 v"] False by (subst varint_bytes_rec) simp
  qed (subst varint_bytes_rec, simp)
qed simp

lemma varint_bytes_bounds: "1 \<le> length (varint_bytes v)" "length (varint_bytes v) \<le> 10"
proof -
  show "1 \<le> length (varint_bytes v)" by (subst varint_bytes_rec) simp
  have "unat v < 2 ^ (7 * 10)" using unsigned_less [of v, where 'a = nat] by simp
  then show "length (varint_bytes v) \<le> 10" by (rule length_varint_bytes) simp
qed

section \<open>Zigzag\<close>

lemma bit_sign_fill: "signed_drop_bit 63 v = (if bit v 63 then - 1 else 0 :: u64)"
  by (rule bit_word_eqI) (auto simp: bit_simps not_less_eq_eq)

lemma bit_zigzag_encode:
  "bit (zigzag_encode v) j \<longleftrightarrow> j < 64 \<and> (0 < j \<and> bit v (j - 1)) \<noteq> bit v 63"
proof -
  have "bit (push_bit 1 v) j \<longleftrightarrow> j < 64 \<and> 0 < j \<and> bit v (j - 1)"
    by (simp only: bit_push_bit_iff) auto
  moreover have "bit (if bit v 63 then - 1 else 0 :: u64) j \<longleftrightarrow> j < 64 \<and> bit v 63"
    by (simp add: bit_simps)
  ultimately show ?thesis unfolding zigzag_encode_def bit_sign_fill by (simp only: bit_xor_iff) blast
qed

lemma word_and_1: "u AND 1 = (if bit u 0 then 1 else 0 :: u64)"
  by (rule bit_word_eqI) (auto simp: bit_simps intro!: Nat.gr0I)

lemma bit_zigzag_decode: "bit (zigzag_decode u) j \<longleftrightarrow> j < 64 \<and> bit u (Suc j) \<noteq> bit u 0"
  using bit_imp_le_length [of u "Suc j"] unfolding zigzag_decode_def word_and_1 by (auto simp: bit_simps)

lemma zigzag_round_trip: "zigzag_decode (zigzag_encode v) = v"
proof (rule bit_word_eqI)
  fix j
  show "bit (zigzag_decode (zigzag_encode v)) j = bit v j" if "j < LENGTH(64)"
    using that by (cases "j = 63") (auto simp: bit_zigzag_decode bit_zigzag_encode)
qed

lemma zigzag_round_trip': "zigzag_encode (zigzag_decode u) = u"
proof (rule bit_word_eqI)
  fix j
  have "\<not> bit u 64" using bit_imp_le_length [of u 64] by auto
  then show "bit (zigzag_encode (zigzag_decode u)) j = bit u j" if "j < LENGTH(64)"
    using that by (cases j) (auto simp: bit_zigzag_encode bit_zigzag_decode)
qed

text \<open>The arithmetic reading: \<open>0, -1, 1, -2, ...\<close> become \<open>0, 1, 2, 3, ...\<close>.\<close>

lemma zigzag_encode_sint:
  "uint (zigzag_encode v) = (if 0 \<le> sint v then 2 * sint v else - 2 * sint v - 1)"
proof -
  have m: "uint v mod 18446744073709551616 = uint v"
    using uint_lt2p [of v] by (intro mod_pos_pos_trivial) simp_all
  have s: "sint v = (if bit v 63 then uint v - 2 ^ 64 else uint v)"
    using m
    by (simp add: sint_uint signed_take_bit_eq_if_positive signed_take_bit_eq_take_bit_minus
        bit_uint_iff take_bit_eq_mod)
  have hi: "2 ^ 63 \<le> uint v \<longleftrightarrow> bit v 63"
  proof -
    define q r where "q = uint v div 9223372036854775808" and "r = uint v mod 9223372036854775808"
    have "uint v = 9223372036854775808 * q + r" "0 \<le> r" "r < 9223372036854775808"
      unfolding q_def r_def by simp_all
    moreover have "0 \<le> uint v" "uint v < 18446744073709551616" using uint_lt2p [of v] by simp_all
    ultimately have q: "q = 0 \<and> uint v < 9223372036854775808 \<or> q = 1 \<and> 9223372036854775808 \<le> uint v" by linarith
    have "bit v 63 \<longleftrightarrow> odd q"
      unfolding q_def using bit_uint_iff [of v 63] by (simp add: bit_iff_odd)
    then show ?thesis using q by auto
  qed
  show ?thesis
  proof (cases "bit v 63")
    case True
    have "zigzag_encode v = NOT (push_bit 1 v)"
      unfolding zigzag_encode_def bit_sign_fill using True by simp
    then have "uint (zigzag_encode v) = 2 ^ 64 - 1 - (2 * uint v) mod 2 ^ 64"
    proof -
      have n: "NOT w = - 1 - w" for w :: u64 by (simp add: not_eq_complement)
      have "uint (- 1 - w :: u64) = 2 ^ 64 - 1 - uint w" for w
        using uint_lt2p [of w] by (simp add: uint_sub_if' unsigned_minus_1_eq_mask mask_eq_exp_minus_1)
      then show ?thesis unfolding \<open>zigzag_encode v = _\<close> n
        by (simp add: uint_word_ariths mult.commute)
    qed
    moreover have "(2 * uint v - 18446744073709551616) mod 18446744073709551616 = 2 * uint v - 18446744073709551616"
      using True hi uint_lt2p [of v] by (intro mod_pos_pos_trivial) simp_all
    then have "2 * uint v mod 18446744073709551616 = 2 * uint v - 18446744073709551616"
      unfolding minus_mod_self2 .
    ultimately show ?thesis using True hi s uint_lt2p [of v] by simp
  next
    case False
    then have "uint (zigzag_encode v) = (2 * uint v) mod 2 ^ 64"
      unfolding zigzag_encode_def bit_sign_fill by (simp add: uint_word_ariths mult.commute)
    then show ?thesis using False hi s uint_lt2p [of v] by simp
  qed
qed

section \<open>Delta lists\<close>

lemma write_delta_loop_append: "write_delta_loop out p vs = out @ write_delta_loop [] p vs"
proof (induction vs arbitrary: out p)
  case (Cons v vs)
  show ?case using Cons [of "write_varint out (v - p)"] Cons [of "write_varint [] (v - p)"]
    by (simp add: write_varint_append [of out] write_varint_append [of "[]"])
qed simp

lemma dl_next_step:
  assumes "drop (dl_pos d) (dl_bytes d) = write_delta_loop [] (dl_prev d) (v # vs) @ rest"
    and "dl_remaining d = length (v # vs)" "sorted (dl_prev d # v # vs)"
  shows "\<exists>d'. dl_next d = (Some (Inr v), d') \<and> dl_remaining d' = length vs \<and> dl_prev d' = v \<and>
    drop (dl_pos d') (dl_bytes d') = write_delta_loop [] v vs @ rest \<and>
    dl_pos d' + length (write_delta_loop [] v vs) = dl_pos d + length (write_delta_loop [] (dl_prev d) (v # vs))"
proof -
  let ?p = "dl_prev d" and ?e = "varint_bytes (v - dl_prev d)"
  have enc: "write_delta_loop [] ?p (v # vs) = ?e @ write_delta_loop [] v vs"
    using write_delta_loop_append [of ?e v vs] by (simp add: write_varint_append)
  then have len: "length (write_delta_loop [] ?p (v # vs)) = length ?e + length (write_delta_loop [] v vs)"
    by (simp only: length_append)
  have read: "read_varint (dl_bytes d) (dl_pos d) = (Inr (v - ?p), dl_pos d + length ?e)"
    using assms(1) unfolding enc append_assoc by (rule read_varint_correct)
  have "?p \<le> v" using assms(3) by simp
  then have "unat ?p + unat (v - ?p) = unat v" by (simp add: unat_sub word_le_nat_alt)
  then have add: "checked_add_u64 ?p (v - ?p) = Some v"
    using unsigned_less [of v, where 'a = nat] by (simp add: checked_add_u64_def)
  have "drop (dl_pos d + length ?e) (dl_bytes d) = write_delta_loop [] v vs @ rest"
    using arg_cong [OF assms(1), of "drop (length ?e)"] unfolding enc by (simp add: add.commute)
  then show ?thesis
    using assms(2) len
    by (intro exI [of _ "d\<lparr>dl_pos := dl_pos d + length ?e, dl_remaining := length vs, dl_prev := v\<rparr>"])
      (simp add: dl_next_def Let_def read add del: write_delta_loop.simps)
qed

lemma dl_drain_correct:
  assumes "drop (dl_pos d) (dl_bytes d) = write_delta_loop [] (dl_prev d) vs @ rest"
    and "dl_remaining d = length vs" "sorted (dl_prev d # vs)"
  shows "\<exists>d'. dl_drain d = (map Inr vs, d') \<and> dl_pos d' = dl_pos d + length (write_delta_loop [] (dl_prev d) vs)"
  using assms
proof (induction vs arbitrary: d)
  case Nil
  then have "dl_next d = (None, d)" by (simp add: dl_next_def)
  then show ?case by (subst dl_drain.simps) simp
next
  case (Cons v vs)
  obtain d' where d': "dl_next d = (Some (Inr v), d')" "dl_remaining d' = length vs" "dl_prev d' = v"
    "drop (dl_pos d') (dl_bytes d') = write_delta_loop [] v vs @ rest"
    "dl_pos d' + length (write_delta_loop [] v vs) = dl_pos d + length (write_delta_loop [] (dl_prev d) (v # vs))"
    using dl_next_step [OF Cons.prems] by blast
  then obtain d'' where "dl_drain d' = (map Inr vs, d'')"
    "dl_pos d'' = dl_pos d' + length (write_delta_loop [] (dl_prev d') vs)"
    using Cons.IH [of d'] Cons.prems(3) by auto
  then show ?case using d' by (subst dl_drain.simps) (simp del: write_delta_loop.simps)
qed

lemma delta_list_round_trip:
  assumes "sorted vs"
  shows "\<exists>d. dl_drain (dl_new (write_delta_list [] vs @ rest) (length vs)) = (map Inr vs, d) \<and>
    dl_pos d = length (write_delta_list [] vs)"
proof -
  have "sorted (0 # vs)" using assms by simp
  then show ?thesis
    using dl_drain_correct [of "dl_new (write_delta_list [] vs @ rest) (length vs)" vs rest]
    by (simp add: dl_new_def write_delta_list_def)
qed

section \<open>Properties\<close>

text \<open>Every \<open>u64\<close> is written in one to ten bytes and read back from any position of any
  buffer that holds those bytes there, with the cursor left just past them.\<close>

lemma varint_round_trip:
  "read_varint (pre @ write_varint [] v @ rest) (length pre) = (Inr v, length pre + length (write_varint [] v)) \<and>
   1 \<le> length (write_varint [] v) \<and> length (write_varint [] v) \<le> 10"
  using read_varint_correct [of "length pre" "pre @ write_varint [] v @ rest" v rest]
    varint_bytes_bounds [of v] unfolding varint_bytes_def by simp

text \<open>\<open>zigzag_encode\<close> and \<open>zigzag_decode\<close> are inverse bijections on the 64-bit patterns,
  and the encoding sends a non-negative \<open>n\<close> to \<open>2 n\<close> and a negative one to \<open>-2 n - 1\<close>,
  \<open>i64::MIN\<close> included.\<close>

theorem zigzag_bijection:
  "zigzag_decode (zigzag_encode v) = v \<and> zigzag_encode (zigzag_decode v) = v \<and>
   uint (zigzag_encode v) = (if 0 \<le> sint v then 2 * sint v else - 2 * sint v - 1)"
  by (intro conjI zigzag_round_trip zigzag_round_trip' zigzag_encode_sint)

text \<open>A non-decreasing list written by \<open>write_delta_list\<close> and read by \<open>DeltaListRef\<close>
  with its count, in front of any further bytes, yields the list without an error and
  consumes exactly its encoding.\<close>

theorem delta_list_reads_back:
  assumes "sorted vs"
  shows "\<exists>d. dl_drain (dl_new (write_delta_list [] vs @ rest) (length vs)) = (map Inr vs, d) \<and>
    dl_pos d = length (write_delta_list [] vs)"
  by (rule delta_list_round_trip [OF assms])

theorem delta_list_reads_back_witness:
  "\<exists>d. dl_drain (dl_new (write_delta_list [] [3, 3, 400] @ [9]) (length [3, 3, 400 :: u64])) =
     (map Inr [3, 3, 400], d)"
  using delta_list_reads_back [of "[3, 3, 400]" "[9]"] by auto

end
