(* ===== verification/SelectWord.thy ===== *)
theory SelectWord
  imports Words
begin

unbundle bit_operations_syntax

text \<open>
  \<open>select_in_word\<close> of \<open>crates/rdf-core/src/ir/pack/bits.rs\<close>: the position of the
  \<open>r\<close>-th set bit of a 64-bit word by byte-parallel arithmetic. The definition is the code's;
  the proof reads a word as its eight base-256 digits, shows that every step of the
  population count acts digit by digit without a carry, and finishes with one 256-entry table.
\<close>

section \<open>The code\<close>

definition BYTE_ONES :: u64 where "BYTE_ONES = 0x0101010101010101"
definition BYTE_HIGHS :: u64 where "BYTE_HIGHS = 0x8080808080808080"

text \<open>One row of the compile-time table \<open>SELECT_IN_BYTE\<close>: eight 8s, entry \<open>k\<close> overwritten
  by the position of the \<open>k\<close>-th set bit, as the two nested loops do.\<close>

definition select_row :: "nat \<Rightarrow> nat list" where
  "select_row byte = fst (fold (\<lambda>b (row, k). if byte AND push_bit b 1 \<noteq> 0 then (row[k := b], k + 1) else (row, k))
     [0..<8] (replicate 8 8, 0))"

definition SELECT_IN_BYTE :: "nat list list" where
  "SELECT_IN_BYTE = map select_row [0..<256]"

definition select_in_word :: "u64 \<Rightarrow> nat \<Rightarrow> nat option" where
  "select_in_word word r =
     (let pairs = word - (drop_bit 1 word AND 0x5555555555555555);
          nibbles = (pairs AND 0x3333333333333333) + (drop_bit 2 pairs AND 0x3333333333333333);
          bytes = (nibbles + drop_bit 4 nibbles) AND 0x0F0F0F0F0F0F0F0F;
          prefix = bytes * BYTE_ONES
      in if \<not> r < unat (drop_bit 56 prefix) then None
      else
        let at_most_r = ((of_nat r * BYTE_ONES OR BYTE_HIGHS) - prefix) AND BYTE_HIGHS;
            byte_index = unat (drop_bit 56 (drop_bit 7 at_most_r * BYTE_ONES));
            shift = byte_index * 8;
            before = unat (drop_bit shift (push_bit 8 prefix) AND 0xFF);
            byte = unat (drop_bit shift word AND 0xFF)
        in if \<not> before \<le> r then None
           else do {
             row \<leftarrow> nth_opt SELECT_IN_BYTE byte;
             b \<leftarrow> nth_opt row (r - before);
             Some (shift + b)
           })"

section \<open>Base-256 digits\<close>

fun val :: "int list \<Rightarrow> int" where
  "val [] = 0"
| "val (b # bs) = b + 256 * val bs"

definition digits_ok :: "int list \<Rightarrow> bool" where
  "digits_ok bs \<longleftrightarrow> (\<forall>b\<in>set bs. 0 \<le> b \<and> b < 256)"

lemma digits_ok_simps [simp]:
  "digits_ok []" "digits_ok (b # bs) \<longleftrightarrow> 0 \<le> b \<and> b < 256 \<and> digits_ok bs"
  by (simp_all add: digits_ok_def)

lemma take_drop_digit:
  "0 \<le> b \<Longrightarrow> b < 256 \<Longrightarrow> take_bit 8 (b + 256 * y) = (b :: int)"
  "0 \<le> b \<Longrightarrow> b < 256 \<Longrightarrow> drop_bit 8 (b + 256 * y) = (y :: int)"
  by (simp_all add: take_bit_eq_mod drop_bit_eq_div)

lemma digit_split: "(x :: int) = take_bit 8 x + 256 * drop_bit 8 x"
  by (simp add: take_bit_eq_mod drop_bit_eq_div)

lemma and_digit:
  assumes "0 \<le> b" "b < 256" "0 \<le> m" "m < 256"
  shows "(b + 256 * y) AND (m + 256 * z) = (b AND m) + 256 * (y AND (z :: int))"
  using digit_split [of "(b + 256 * y) AND (m + 256 * z)"] assms
  by (simp add: take_drop_digit)

lemma or_digit:
  assumes "0 \<le> b" "b < 256" "0 \<le> m" "m < 256"
  shows "(b + 256 * y) OR (m + 256 * z) = (b OR m) + 256 * (y OR (z :: int))"
  using digit_split [of "(b + 256 * y) OR (m + 256 * z)"] assms
  by (simp add: take_drop_digit)

lemma bit_digit:
  assumes "0 \<le> b" "b < 256"
  shows "bit (b + 256 * y) n = (if n < 8 then bit b n else bit (y :: int) (n - 8))"
proof -
  have "bit (b + 256 * y) n = bit (take_bit 8 (b + 256 * y)) n" if "n < 8"
    using that by (simp add: bit_take_bit_iff)
  moreover have "bit (b + 256 * y) n = bit (drop_bit 8 (b + 256 * y)) (n - 8)" if "\<not> n < 8"
    using that by (simp add: bit_drop_bit_eq)
  ultimately show ?thesis using assms by (simp add: take_drop_digit)
qed

lemma val_bounds: "digits_ok bs \<Longrightarrow> 0 \<le> val bs \<and> val bs < 256 ^ length bs"
  by (induction bs) auto

lemma val_nth: "digits_ok bs \<Longrightarrow> k < length bs \<Longrightarrow> val bs div 256 ^ k mod 256 = bs ! k"
proof (induction bs arbitrary: k)
  case (Cons b bs)
  show ?case
  proof (cases k)
    case (Suc j)
    have "val (b # bs) div 256 ^ k = (b + 256 * val bs) div 256 div 256 ^ j"
      by (simp add: Suc zdiv_zmult2_eq)
    also have "\<dots> = val bs div 256 ^ j" using Cons.prems by simp
    finally show ?thesis using Cons Suc by simp
  qed (use Cons in simp)
qed simp

fun digits :: "nat \<Rightarrow> int \<Rightarrow> int list" where
  "digits 0 n = []"
| "digits (Suc k) n = n mod 256 # digits k (n div 256)"

lemma digits_val: "0 \<le> n \<Longrightarrow> n < 256 ^ k \<Longrightarrow> val (digits k n) = n"
proof (induction k arbitrary: n)
  case (Suc k)
  have "n div 256 < 256 ^ k" "0 \<le> n div 256" using Suc.prems by simp_all
  then show ?case using Suc.IH by simp
qed simp

lemma digits_ok_digits: "digits_ok (digits k n)"
  by (induction k arbitrary: n) auto

lemma length_digits [simp]: "length (digits k n) = k"
  by (induction k arbitrary: n) auto

lemma word_digits:
  fixes w :: u64
  obtains bs where "uint w = val bs" "digits_ok bs" "length bs = 8"
proof -
  have "uint w < 256 ^ 8" using unsigned_less [of w, where 'a = int] by simp
  then show ?thesis using that [of "digits 8 (uint w)"] by (simp add: digits_val digits_ok_digits)
qed

section \<open>The steps act digit by digit\<close>

definition pop8 :: "int \<Rightarrow> nat" where
  "pop8 b = length (filter (bit b) [0..<8])"

definition pairs8 :: "int \<Rightarrow> int" where
  "pairs8 b = b - ((b div 2) AND 0x55)"

definition nibbles8 :: "int \<Rightarrow> int" where
  "nibbles8 b = (b AND 0x33) + ((b div 4) AND 0x33)"

text \<open>Everything the carries could disturb, checked over the 256 byte values.\<close>

lemma byte_table:
  "\<forall>b\<in>set [0..255::int]. (b div 2) AND 0x55 \<le> b \<and> (b div 2 + 128) AND 0x55 = (b div 2) AND 0x55 \<and>
     (\<forall>c\<in>set [0,1,2,3]. (b div 4 + 64 * c) AND 0x33 = (b div 4) AND 0x33) \<and>
     b AND 0x33 \<le> 0x33 \<and> (b div 4) AND 0x33 \<le> 0x33 \<and>
     b AND 128 = (if 128 \<le> b then 128 else 0)"
  by code_simp

lemma nibble_table:
  "\<forall>b\<in>set [0..255::int]. let n = nibbles8 (pairs8 b); p = int (pop8 b) in
     0 \<le> n \<and> n mod 16 \<le> 4 \<and> n div 16 \<le> 4 \<and>
     (\<forall>c\<in>set [0,1,2,3,4]. (n + n div 16 + 16 * c) AND 0x0F = p)"
  by code_simp

lemma byte_facts:
  fixes b :: int
  assumes "0 \<le> b" "b < 256"
  shows "(b div 2) AND 0x55 \<le> b" "0 \<le> c \<Longrightarrow> c < 2 \<Longrightarrow> (b div 2 + 128 * c) AND 0x55 = (b div 2) AND 0x55"
    "0 \<le> c \<Longrightarrow> c < 4 \<Longrightarrow> (b div 4 + 64 * c) AND 0x33 = (b div 4) AND 0x33"
    "b AND 0x33 \<le> 0x33" "(b div 4) AND 0x33 \<le> 0x33" "b AND 128 = (if 128 \<le> b then 128 else 0)"
proof -
  have b: "b \<in> set [0..255]" using assms by simp
  have c4: "c \<in> set [0,1,2,3]" if "0 \<le> c" "c < 4" using that by auto
  have c2: "c = 0 \<or> c = 1" if "0 \<le> c" "c < 2" using that by auto
  show "(b div 2) AND 0x55 \<le> b" "0 \<le> c \<Longrightarrow> c < 2 \<Longrightarrow> (b div 2 + 128 * c) AND 0x55 = (b div 2) AND 0x55"
    "0 \<le> c \<Longrightarrow> c < 4 \<Longrightarrow> (b div 4 + 64 * c) AND 0x33 = (b div 4) AND 0x33"
    "b AND 0x33 \<le> 0x33" "(b div 4) AND 0x33 \<le> 0x33" "b AND 128 = (if 128 \<le> b then 128 else 0)"
    using byte_table [rule_format, OF b] c4 c2 by auto
qed

lemma nibble_facts:
  assumes "0 \<le> b" "b < 256" and n: "n = nibbles8 (pairs8 b)"
  shows "0 \<le> n" "n mod 16 \<le> 4" "n div 16 \<le> 4"
    "0 \<le> c \<Longrightarrow> c \<le> 4 \<Longrightarrow> (n + n div 16 + 16 * c) AND 0x0F = int (pop8 b)"
proof -
  have b: "b \<in> set [0..255]" using assms by simp
  have "c \<in> set [0,1,2,3,4]" if "0 \<le> c" "c \<le> 4" using that by auto
  then show "0 \<le> n" "n mod 16 \<le> 4" "n div 16 \<le> 4"
    "0 \<le> c \<Longrightarrow> c \<le> 4 \<Longrightarrow> (n + n div 16 + 16 * c) AND 0x0F = int (pop8 b)"
    using nibble_table [rule_format, OF b] unfolding Let_def n [symmetric] by blast+
qed

text \<open>The digit-wise images of the three population-count steps.\<close>

lemma shift_digit:
  "(b + 256 * y) div 2 = (b div 2 + 128 * (y mod 2)) + 256 * (y div 2 :: int)"
  "(b + 256 * y) div 4 = (b div 4 + 64 * (y mod 4)) + 256 * (y div 4 :: int)"
  "(b + 256 * y) div 16 = (b div 16 + 16 * (y mod 16)) + 256 * (y div 16 :: int)"
proof -
  have "(b + 256 * y) div 2 = b div 2 + 128 * y" "(b + 256 * y) div 4 = b div 4 + 64 * y"
    "(b + 256 * y) div 16 = b div 16 + 16 * y"
    using div_mult_self2 [of 2 b "128 * y"] div_mult_self2 [of 4 b "64 * y"]
      div_mult_self2 [of 16 b "16 * y"] by simp_all
  then show "(b + 256 * y) div 2 = (b div 2 + 128 * (y mod 2)) + 256 * (y div 2)"
    "(b + 256 * y) div 4 = (b div 4 + 64 * (y mod 4)) + 256 * (y div 4)"
    "(b + 256 * y) div 16 = (b div 16 + 16 * (y mod 16)) + 256 * (y div 16)"
    using mult_div_mod_eq [of 2 y] mult_div_mod_eq [of 4 y] mult_div_mod_eq [of 16 y] by linarith+
qed

lemma val_pairs_mask:
  "digits_ok bs \<Longrightarrow> (val bs div 2) AND val (replicate (length bs) 0x55)
     = val (map (\<lambda>b. (b div 2) AND 0x55) bs)"
proof (induction bs)
  case (Cons b bs)
  let ?y = "val bs"
  have b: "0 \<le> b" "b < 256" using Cons.prems by simp_all
  have "val (b # bs) div 2 = (b div 2 + 128 * (?y mod 2)) + 256 * (?y div 2)"
    unfolding val.simps by (rule shift_digit)
  moreover have "b div 2 + 128 * (?y mod 2) < 256" "0 \<le> b div 2 + 128 * (?y mod 2)"
    using b by auto
  ultimately show ?case using Cons b by (simp add: and_digit byte_facts)
qed simp

lemma val_map_diff: "val (map f xs) - val (map g xs) = val (map (\<lambda>x. f x - g x) xs)"
  by (induction xs) auto

lemma val_map_sum: "val (map f xs) + val (map g xs) = val (map (\<lambda>x. f x + g x) xs)"
  by (induction xs) auto

lemma val_low_mask:
  "digits_ok bs \<Longrightarrow> val bs AND val (replicate (length bs) 0x33) = val (map (\<lambda>b. b AND 0x33) bs)"
  by (induction bs) (auto simp: and_digit)

lemma val_nibbles_mask:
  "digits_ok bs \<Longrightarrow> (val bs div 4) AND val (replicate (length bs) 0x33)
     = val (map (\<lambda>b. (b div 4) AND 0x33) bs)"
proof (induction bs)
  case (Cons b bs)
  let ?y = "val bs"
  have b: "0 \<le> b" "b < 256" using Cons.prems by simp_all
  have "val (b # bs) div 4 = (b div 4 + 64 * (?y mod 4)) + 256 * (?y div 4)"
    unfolding val.simps by (rule shift_digit)
  moreover have "b div 4 + 64 * (?y mod 4) < 256" "0 \<le> b div 4 + 64 * (?y mod 4)"
    using b by auto
  ultimately show ?case using Cons b by (simp add: and_digit byte_facts)
qed simp

lemma val_fold_nibbles:
  assumes "\<forall>n\<in>set ns. 0 \<le> n \<and> n mod 16 \<le> 4 \<and> n div 16 \<le> 4 \<and>
      (\<forall>c. 0 \<le> c \<and> c \<le> 4 \<longrightarrow> (n + n div 16 + 16 * c) AND 0x0F = f n)"
  shows "(val ns + val ns div 16) AND val (replicate (length ns) 0x0F) = val (map f ns)"
  using assms
proof (induction ns)
  case (Cons n ns)
  let ?y = "val ns"
  have n: "0 \<le> n" "n mod 16 \<le> 4" "n div 16 \<le> 4" using Cons.prems by simp_all
  have c: "0 \<le> ?y mod 16" "?y mod 16 \<le> 4"
    using Cons.prems mod_mult_self2 [of "hd ns" 16 "16 * val (tl ns)"] by (simp, cases ns) simp_all
  let ?x = "n + n div 16 + 16 * (?y mod 16)" and ?m = "val (replicate (length ns) 0x0F)"
  have step: "val (n # ns) + val (n # ns) div 16 = ?x + 256 * (?y + ?y div 16)"
    unfolding val.simps shift_digit(3) by simp
  have "(val (n # ns) + val (n # ns) div 16) AND val (replicate (length (n # ns)) 0x0F)
      = (?x + 256 * (?y + ?y div 16)) AND (0x0F + 256 * ?m)"
    unfolding step by simp
  also have "\<dots> = (?x AND 0x0F) + 256 * ((?y + ?y div 16) AND ?m)"
    using n c by (intro and_digit) simp_all
  finally show ?case using Cons c by simp
qed simp

definition word_pairs :: "u64 \<Rightarrow> u64" where
  "word_pairs w = w - (drop_bit 1 w AND 0x5555555555555555)"

definition word_nibbles :: "u64 \<Rightarrow> u64" where
  "word_nibbles w = (word_pairs w AND 0x3333333333333333) + (drop_bit 2 (word_pairs w) AND 0x3333333333333333)"

definition word_bytes :: "u64 \<Rightarrow> u64" where
  "word_bytes w = (word_nibbles w + drop_bit 4 (word_nibbles w)) AND 0x0F0F0F0F0F0F0F0F"

lemma uint_sub_le: "uint b \<le> uint a \<Longrightarrow> uint (a - b) = uint a - uint (b :: u64)"
  by (simp add: uint_sub_if')

lemma uint_add_small: "uint a + uint b < 2 ^ 64 \<Longrightarrow> uint (a + b) = uint a + uint (b :: u64)"
  by (simp add: uint_word_ariths)

lemma replicate_8: "replicate 8 x = [x, x, x, x, x, x, x, x]"
  by (simp add: numeral_eq_Suc)

lemma val_masks:
  "val (replicate 8 0x55) = uint (0x5555555555555555 :: u64)"
  "val (replicate 8 0x33) = uint (0x3333333333333333 :: u64)"
  "val (replicate 8 0x0F) = uint (0x0F0F0F0F0F0F0F0F :: u64)"
  "val (replicate 8 1) = uint BYTE_ONES" "val (replicate 8 128) = uint BYTE_HIGHS"
  by (simp_all add: replicate_8 BYTE_ONES_def BYTE_HIGHS_def)

lemma uint_drop_bit: "uint (drop_bit n (w :: u64)) = uint w div 2 ^ n"
  by (simp add: unsigned_drop_bit_eq bintr_uint flip: drop_bit_eq_div)

lemma uint_and: "uint (a AND b) = uint a AND uint (b :: u64)"
  by (simp add: unsigned_and_eq)

lemma uint_or: "uint (a OR b) = uint a OR uint (b :: u64)"
  by (simp add: unsigned_or_eq)

lemma uint_word_pairs:
  assumes w: "uint w = val bs" "digits_ok bs" "length bs = 8"
  shows "uint (word_pairs w) = val (map pairs8 bs)"
proof -
  have m: "uint (drop_bit 1 w AND 0x5555555555555555) = val (map (\<lambda>b. (b div 2) AND 0x55) bs)"
    using val_pairs_mask [OF w(2)] unfolding uint_and uint_drop_bit w(1) val_masks(1) [symmetric]
    by (simp add: w(3))
  have d: "val bs - val (map (\<lambda>b. (b div 2) AND 0x55) bs) = val (map pairs8 bs)"
    using val_map_diff [of id bs "\<lambda>b. (b div 2) AND 0x55"] by (simp add: pairs8_def [abs_def])
  have ok: "digits_ok (map pairs8 bs)"
    using w(2) by (auto simp: digits_ok_def pairs8_def byte_facts(1) intro: le_less_trans [rotated])
  have "val (map (\<lambda>b. (b div 2) AND 0x55) bs) \<le> val bs"
    using d val_bounds [OF ok] by linarith
  then show ?thesis unfolding word_pairs_def using m d w(1) by (simp add: uint_sub_le)
qed

lemma digits_ok_map: "digits_ok bs \<Longrightarrow> (\<And>b. 0 \<le> b \<Longrightarrow> b < 256 \<Longrightarrow> 0 \<le> f b \<and> f b < 256) \<Longrightarrow> digits_ok (map f bs)"
  by (auto simp: digits_ok_def)

lemma pairs8_digit: "0 \<le> b \<Longrightarrow> b < 256 \<Longrightarrow> 0 \<le> pairs8 b \<and> pairs8 b < 256"
proof -
  assume b: "0 \<le> b" "b < 256"
  have "0 \<le> (b div 2) AND 0x55" by simp
  then show ?thesis using byte_facts(1) [OF b] b unfolding pairs8_def by linarith
qed

lemma nibbles8_digit: "0 \<le> b \<Longrightarrow> b < 256 \<Longrightarrow> 0 \<le> nibbles8 b \<and> nibbles8 b < 256"
proof -
  assume b: "0 \<le> b" "b < 256"
  have "0 \<le> b AND 0x33" "0 \<le> (b div 4) AND 0x33" by simp_all
  then show ?thesis using byte_facts(4,5) [OF b] unfolding nibbles8_def by linarith
qed

lemma nibbles8_pairs8_le: "0 \<le> b \<Longrightarrow> b < 256 \<Longrightarrow> nibbles8 (pairs8 b) \<le> 0x44"
  using nibble_facts(2,3) [of b "nibbles8 (pairs8 b)"]
    mult_div_mod_eq [of 16 "nibbles8 (pairs8 b)"] by linarith

lemma uint_word_nibbles:
  assumes w: "uint w = val bs" "digits_ok bs" "length bs = 8"
  shows "uint (word_nibbles w) = val (map (nibbles8 \<circ> pairs8) bs)"
proof -
  let ?ps = "map pairs8 bs"
  have p: "uint (word_pairs w) = val ?ps" "digits_ok ?ps" "length ?ps = 8"
    using uint_word_pairs [OF w] w pairs8_digit by (auto intro: digits_ok_map)
  have lo: "uint (word_pairs w AND 0x3333333333333333) = val (map (\<lambda>b. b AND 0x33) ?ps)"
    using val_low_mask [OF p(2)] unfolding uint_and p(1) val_masks(2) [symmetric] p(3) .
  have hi: "uint (drop_bit 2 (word_pairs w) AND 0x3333333333333333) = val (map (\<lambda>b. (b div 4) AND 0x33) ?ps)"
    using val_nibbles_mask [OF p(2)] unfolding uint_and uint_drop_bit p(1) val_masks(2) [symmetric] p(3)
    by simp
  have sum: "val (map (\<lambda>b. b AND 0x33) ?ps) + val (map (\<lambda>b. (b div 4) AND 0x33) ?ps) = val (map nibbles8 ?ps)"
    unfolding val_map_sum nibbles8_def [abs_def] ..
  have "digits_ok (map nibbles8 ?ps)" using p(2) nibbles8_digit by (rule digits_ok_map)
  from val_bounds [OF this] have "val (map nibbles8 ?ps) < 2 ^ 64" using p(3) by simp
  then show ?thesis unfolding word_nibbles_def using lo hi sum by (simp add: uint_add_small)
qed

lemma uint_word_bytes:
  assumes w: "uint w = val bs" "digits_ok bs" "length bs = 8"
  shows "uint (word_bytes w) = val (map (int \<circ> pop8) bs)"
proof -
  let ?ns = "map (nibbles8 \<circ> pairs8) bs"
  have n: "uint (word_nibbles w) = val ?ns" by (rule uint_word_nibbles [OF w])
  have ok: "digits_ok ?ns" using w(2) pairs8_digit nibbles8_digit by (auto intro: digits_ok_map)
  have pops: "map (int \<circ> pop8) bs = map (\<lambda>n. (n + n div 16) AND 0x0F) ?ns"
    using w(2) nibble_facts(4) [of _ _ 0] by (auto simp: digits_ok_def)
  have fold: "(val ?ns + val ?ns div 16) AND val (replicate (length ?ns) 0x0F)
      = val (map (\<lambda>n. (n + n div 16) AND 0x0F) ?ns)"
  proof (rule val_fold_nibbles, intro ballI)
    fix n assume "n \<in> set ?ns"
    then obtain b where b: "0 \<le> b" "b < 256" "n = nibbles8 (pairs8 b)"
      using w(2) by (auto simp: digits_ok_def)
    show "0 \<le> n \<and> n mod 16 \<le> 4 \<and> n div 16 \<le> 4 \<and>
      (\<forall>c. 0 \<le> c \<and> c \<le> 4 \<longrightarrow> n + n div 16 + 16 * c AND 15 = n + n div 16 AND 15)"
      using nibble_facts [OF b] nibble_facts(4) [OF b, of 0] by auto
  qed
  have small: "uint (word_nibbles w) + uint (drop_bit 4 (word_nibbles w)) < 2 ^ 64"
  proof -
    have "val ?ns \<le> val (map (\<lambda>_. 0x44) bs)"
      using w(2) by (induction bs) (auto intro: add_mono nibbles8_pairs8_le)
    also have "\<dots> = val (replicate 8 0x44)" using w(3) by (simp add: map_replicate_const)
    finally show ?thesis unfolding uint_drop_bit n by (simp add: replicate_8)
  qed
  have "uint (word_bytes w) = (val ?ns + val ?ns div 16) AND val (replicate 8 0x0F)"
    unfolding word_bytes_def uint_and uint_add_small [OF small] uint_drop_bit n val_masks(3) by simp
  also have "\<dots> = val (map (int \<circ> pop8) bs)" using fold unfolding pops length_map w(3) .
  finally show ?thesis .
qed

section \<open>Prefix sums by one multiplication\<close>

definition prefix_sums :: "int list \<Rightarrow> int list" where
  "prefix_sums bs = map (\<lambda>i. sum_list (take (Suc i) bs)) [0..<length bs]"

lemma length_prefix_sums [simp]: "length (prefix_sums bs) = length bs"
  by (simp add: prefix_sums_def)

lemma prefix_sums_nth: "i < length bs \<Longrightarrow> prefix_sums bs ! i = sum_list (take (Suc i) bs)"
  by (simp add: prefix_sums_def)

lemma length_8: "length bs = 8 \<Longrightarrow> \<exists>a b c d e f g h. bs = [a, b, c, d, e, f, g, h]"
  by (auto simp: numeral_eq_Suc length_Suc_conv)

lemma ones_product:
  assumes "length bs = 8"
  shows "\<exists>t. val bs * val (replicate 8 1) = val (prefix_sums bs) + 2 ^ 64 * t"
proof -
  obtain a b c d e f g h where bs: "bs = [a, b, c, d, e, f, g, h]" using length_8 [OF assms] by blast
  show ?thesis
    by (rule exI [of _ "val [b+c+d+e+f+g+h, c+d+e+f+g+h, d+e+f+g+h, e+f+g+h, f+g+h, g+h, h]"])
      (simp add: bs prefix_sums_def replicate_8 upt_rec)
qed

lemma sum_take_le: "digits_ok bs \<Longrightarrow> sum_list (take k bs) \<le> sum_list bs"
  by (metis append_take_drop_id digits_ok_def in_set_dropD le_add_same_cancel1 sum_list_append sum_list_nonneg)

lemma sum_take_nonneg: "digits_ok bs \<Longrightarrow> 0 \<le> sum_list (take k bs)"
  by (meson digits_ok_def in_set_takeD sum_list_nonneg)

lemma prefix_sums_ok: "digits_ok bs \<Longrightarrow> sum_list bs < 256 \<Longrightarrow> digits_ok (prefix_sums bs)"
  using sum_take_le [of bs] sum_take_nonneg [of bs]
  unfolding digits_ok_def [of "prefix_sums bs"] by (auto simp: prefix_sums_def intro: le_less_trans)

lemma uint_ones_mult:
  assumes w: "uint w = val bs" "digits_ok bs" "length bs = 8" and s: "sum_list bs < 256"
  shows "uint (w * BYTE_ONES) = val (prefix_sums bs)"
proof -
  obtain t where t: "val bs * val (replicate 8 1) = val (prefix_sums bs) + 2 ^ 64 * t"
    using ones_product [OF w(3)] by blast
  have "uint (w * BYTE_ONES) = val bs * val (replicate 8 1) mod 2 ^ 64"
    unfolding val_masks(4) w(1) [symmetric] by (simp add: uint_word_ariths)
  also have "\<dots> = val (prefix_sums bs) mod 2 ^ 64" unfolding t by simp
  also have "\<dots> = val (prefix_sums bs)"
    using val_bounds [OF prefix_sums_ok [OF w(2) s]] w(3) by simp
  finally show ?thesis .
qed

lemma unat_drop_digit:
  fixes w :: u64
  assumes w: "uint w = val bs" "digits_ok bs" "length bs = 8" and k: "k < 8"
  shows "unat (drop_bit (k * 8) w AND 0xFF) = nat (bs ! k)"
proof -
  have p: "2 ^ (k * 8) = (256 :: int) ^ k" unfolding mult.commute [of k] power_mult by simp
  have "uint (drop_bit (k * 8) w AND 0xFF) = take_bit 8 (uint w div 256 ^ k)"
    unfolding uint_and uint_drop_bit take_bit_eq_mask p by (simp add: mask_eq_exp_minus_1)
  also have "\<dots> = bs ! k" unfolding w(1) take_bit_eq_mod using val_nth [OF w(2), of k] k w(3) by simp
  finally show ?thesis by (metis unat_eq_nat_uint)
qed

lemma unat_top_digit:
  fixes w :: u64
  assumes w: "uint w = val bs" "digits_ok bs" "length bs = 8"
  shows "unat (drop_bit 56 w) = nat (bs ! 7)"
proof -
  have "drop_bit 56 w AND mask 8 = drop_bit 56 w"
    by (rule bit_word_eqI) (auto simp: bit_simps dest: bit_imp_le_length)
  then have "drop_bit 56 w AND 0xFF = drop_bit 56 w" by (simp add: mask_eq_exp_minus_1)
  then show ?thesis using unat_drop_digit [OF w, of 7] by simp
qed

section \<open>The target byte\<close>

definition at_most :: "nat \<Rightarrow> int list \<Rightarrow> int list" where
  "at_most r S = map (\<lambda>s. if s \<le> int r then 1 else 0) S"

lemma val_replicate_mult: "a * val (replicate n 1) = val (replicate n a)"
  by (induction n) (auto simp: algebra_simps)

lemma val_replicate_or:
  "0 \<le> a \<Longrightarrow> a < 128 \<Longrightarrow> val (replicate n a) OR val (replicate n 128) = val (replicate n (a + 128))"
proof (induction n)
  case (Suc n)
  have "a OR 128 = a + (128 :: int)"
  proof -
    have "take_bit 7 a = a" using Suc.prems by (simp add: take_bit_eq_mod)
    then have "a AND 128 = a AND (take_bit 7 128)" by (metis take_bit_and and.left_commute and.commute take_bit_eq_mask and.assoc)
    then show ?thesis using plus_and_or [of a 128] by simp
  qed
  then show ?case using Suc by (simp add: or_digit)
qed simp

lemma val_const_diff: "length bs = n \<Longrightarrow> val (replicate n a) - val bs = val (map (\<lambda>s. a - s) bs)"
  by (induction bs arbitrary: n) (auto simp: algebra_simps)

lemma val_highs: "digits_ok bs \<Longrightarrow> val bs AND val (replicate (length bs) 128)
    = 128 * val (map (\<lambda>d. if 128 \<le> d then 1 else 0) bs)"
  by (induction bs) (auto simp: and_digit byte_facts(6))

lemma uint_at_most:
  assumes p: "uint p = val S" "digits_ok S" "length S = 8" and S: "\<forall>s\<in>set S. s \<le> 64" and r: "r < 64"
  shows "uint (drop_bit 7 (((of_nat r * BYTE_ONES OR BYTE_HIGHS) - p) AND BYTE_HIGHS)) = val (at_most r S)"
proof -
  have "uint (of_nat r :: u64) = int r"
    using r by (simp add: unsigned_of_nat take_bit_nat_eq_self)
  then have "uint (of_nat r * BYTE_ONES) = int r * val (replicate 8 1) mod 2 ^ 64"
    unfolding val_masks(4) by (simp add: uint_word_ariths)
  also have "\<dots> = val (replicate 8 (int r))"
    unfolding val_replicate_mult using r by (simp add: replicate_8)
  finally have "uint (of_nat r * BYTE_ONES OR BYTE_HIGHS) = val (replicate 8 (int r + 128))"
    unfolding uint_or val_masks(5) [symmetric] using r by (simp add: val_replicate_or)
  moreover have "val (replicate 8 (int r + 128)) - val S = val (map (\<lambda>s. int r + 128 - s) S)"
    by (rule val_const_diff [OF p(3)])
  moreover have ok: "digits_ok (map (\<lambda>s. int r + 128 - s) S)"
    using S r p(2) by (fastforce simp: digits_ok_def)
  ultimately have "uint ((of_nat r * BYTE_ONES OR BYTE_HIGHS) - p) = val (map (\<lambda>s. int r + 128 - s) S)"
    using val_bounds [OF ok] p(1) by (simp add: uint_sub_le)
  then have "uint (((of_nat r * BYTE_ONES OR BYTE_HIGHS) - p) AND BYTE_HIGHS) = 128 * val (at_most r S)"
    unfolding uint_and val_masks(5) [symmetric] using val_highs [OF ok] p(3)
    by (simp add: at_most_def comp_def cong: if_cong)
  then show ?thesis unfolding uint_drop_bit by simp
qed

lemma at_most_ok: "digits_ok (at_most r S)"
  by (auto simp: digits_ok_def at_most_def)

lemma length_at_most [simp]: "length (at_most r S) = length S"
  by (simp add: at_most_def)

lemma sum_at_most: "sum_list (at_most r S) = int (length (filter (\<lambda>s. s \<le> int r) S))"
  by (induction S) (auto simp: at_most_def)

lemma unat_byte_index:
  assumes w: "uint w = val (at_most r S)" "length S = 8"
  shows "unat (drop_bit 56 (w * BYTE_ONES)) = length (filter (\<lambda>s. s \<le> int r) S)"
proof -
  have len: "length (at_most r S) = 8" using w(2) by simp
  have s: "sum_list (at_most r S) < 256"
    using length_filter_le [of "\<lambda>s. s \<le> int r" S] w(2) by (simp add: sum_at_most)
  have "unat (drop_bit 56 (w * BYTE_ONES)) = nat (prefix_sums (at_most r S) ! 7)"
    by (rule unat_top_digit [OF uint_ones_mult [OF w(1) at_most_ok len s] prefix_sums_ok [OF at_most_ok s]])
      (simp add: w(2))
  also have "prefix_sums (at_most r S) ! 7 = sum_list (at_most r S)"
    using len by (simp add: prefix_sums_nth)
  finally show ?thesis by (simp add: sum_at_most)
qed

lemma uint_push_8:
  assumes w: "uint w = val S" "digits_ok S" "length S = 8"
  shows "uint (push_bit 8 (w :: u64)) = val (0 # butlast S)"
proof -
  obtain a b c d e f g h where S: "S = [a, b, c, d, e, f, g, h]" using length_8 [OF w(3)] by blast
  have "uint (push_bit 8 w) = 256 * val S mod 2 ^ 64"
    using w(1) by (simp add: push_bit_eq_mult uint_word_ariths mult.commute)
  also have "256 * val S = val (0 # butlast S) + 2 ^ 64 * h" by (simp add: S)
  also have "\<dots> mod 2 ^ 64 = val (0 # butlast S) mod 2 ^ 64" by simp
  also have "\<dots> = val (0 # butlast S)"
    using val_bounds [of "0 # butlast S"] w(2) by (simp add: S)
  finally show ?thesis .
qed

lemma sorted_filter_le:
  assumes "sorted S" "i < length S"
  shows "S ! i \<le> r \<longleftrightarrow> i < length (filter (\<lambda>s. s \<le> (r :: int)) S)"
  using assms
proof (induction S arbitrary: i)
  case (Cons a S)
  show ?case
  proof (cases "a \<le> r")
    case True
    then show ?thesis using Cons by (cases i) auto
  next
    case False
    then have "filter (\<lambda>s. s \<le> r) (a # S) = []" using Cons.prems(1) by (auto simp: filter_empty_conv)
    moreover have "a \<le> (a # S) ! i" using Cons.prems by (cases i) auto
    ultimately show ?thesis using False by simp
  qed
qed simp

lemma sorted_prefix_sums:
  assumes "digits_ok bs"
  shows "sorted (prefix_sums bs)"
proof (subst sorted_iff_nth_Suc, intro allI impI)
  fix i assume i: "Suc i < length (prefix_sums bs)"
  then have "sum_list (take (Suc (Suc i)) bs) = sum_list (take (Suc i) bs) + bs ! Suc i"
    by (simp add: take_Suc_conv_app_nth)
  moreover have "0 \<le> bs ! Suc i" using i assms by (simp add: digits_ok_def)
  ultimately show "prefix_sums bs ! i \<le> prefix_sums bs ! Suc i"
    using i by (simp add: prefix_sums_nth)
qed

section \<open>Select, bit by bit\<close>

lemma bit_val: "digits_ok bs \<Longrightarrow> k < length bs \<Longrightarrow> i < 8 \<Longrightarrow> bit (val bs) (8 * k + i) = bit (bs ! k) i"
  by (induction bs arbitrary: k) (auto simp: bit_digit nth_Cons split: nat.splits)

lemma filter_upt_add: "filter P [0..<m + n] = filter P [0..<m] @ map ((+) m) (filter (\<lambda>i. P (m + i)) [0..<n])"
proof -
  have "map ((+) m) [0..<n] = [m..<m + n]" using map_add_upt [of m n] by (simp add: add.commute [of m, abs_def])
  then have "[0..<m + n] = [0..<m] @ map ((+) m) [0..<n]" using upt_add_eq_append [of 0 m n] by simp
  then show ?thesis by (simp add: filter_map comp_def)
qed

lemma count_low_digits:
  "digits_ok bs \<Longrightarrow> k \<le> length bs \<Longrightarrow>
     int (length (filter (bit (val bs)) [0..<8 * k])) = sum_list (take k (map (int \<circ> pop8) bs))"
proof (induction k)
  case (Suc k)
  have "filter (\<lambda>i. bit (val bs) (8 * k + i)) [0..<8] = filter (bit (bs ! k)) [0..<8]"
    using Suc.prems by (intro filter_cong) (auto simp: bit_val)
  then show ?case
    using Suc filter_upt_add [of "bit (val bs)" "8 * k" 8]
    by (simp add: take_Suc_conv_app_nth pop8_def add.commute [of 8])
qed simp

lemma filter_upt_nth:
  "j < length (filter P [0..<n]) \<Longrightarrow> filter P [0..<n] ! j = p \<Longrightarrow>
     p < n \<and> P p \<and> length (filter P [0..<p]) = j"
proof (induction n)
  case (Suc n)
  then show ?case by (cases "j < length (filter P [0..<n])") (auto simp: nth_append less_SucI split: if_splits)
qed simp

lemma select_row_fold:
  "n \<le> 8 \<Longrightarrow>
     fold (\<lambda>b (row, k). if bit (byte :: nat) b then (row[k := b], k + 1) else (row, k)) [0..<n] (replicate 8 8, 0)
     = (let f = filter (bit byte) [0..<n] in (f @ replicate (8 - length f) 8, length f))"
proof (induction n)
  case (Suc n)
  let ?f = "filter (bit byte) [0..<n]"
  have len: "length ?f \<le> n" by (metis length_filter_le length_upt minus_nat.diff_0)
  then obtain m where m: "8 - length ?f = Suc m" using Suc.prems by (cases "8 - length ?f") auto
  then have "8 - Suc (length ?f) = m" by simp
  then show ?case using Suc m
    by (simp add: Let_def list_update_append)
qed simp

lemma select_row_nth:
  assumes "j < length (filter (bit byte) [0..<8])"
  shows "length (select_row byte) = 8" "select_row byte ! j = filter (bit byte) [0..<8] ! j"
proof -
  have r: "select_row byte = filter (bit byte) [0..<8] @ replicate (8 - length (filter (bit byte) [0..<8])) 8"
    unfolding select_row_def bit_iff_and_push_bit_not_eq_0 [symmetric] select_row_fold [OF order_refl]
    by (simp only: Let_def fst_conv)
  have "length (filter (bit byte) [0..<8]) \<le> 8" by (metis length_filter_le length_upt minus_nat.diff_0)
  then show "length (select_row byte) = 8" "select_row byte ! j = filter (bit byte) [0..<8] ! j"
    using assms unfolding r by (auto simp: nth_append)
qed

lemma bit_nat_nonneg: "0 \<le> b \<Longrightarrow> bit (nat b) = bit (b :: int)"
  by (auto simp: bit_nat_iff)

lemma select_in_byte:
  assumes "0 \<le> b" "b < 256" "j < pop8 b"
  shows "(do { row \<leftarrow> nth_opt SELECT_IN_BYTE (nat b); q \<leftarrow> nth_opt row j; Some (s + q) })
    = Some (s + filter (bit b) [0..<8] ! j)"
proof -
  have j: "j < length (filter (bit (nat b)) [0..<8])"
    using assms by (simp add: pop8_def bit_nat_nonneg del: upt_conv_Cons upt_rec_numeral)
  have "j < 8" using j length_filter_le [of "bit (nat b)" "[0..<8]"] by simp
  have "nth_opt SELECT_IN_BYTE (nat b) = Some (select_row (nat b))"
    using assms by (simp add: SELECT_IN_BYTE_def)
  then show ?thesis
    using select_row_nth [OF j] \<open>j < 8\<close> assms(1) by (simp add: bit_nat_nonneg)
qed

definition pops :: "int list \<Rightarrow> int list" where
  "pops bs = map (int \<circ> pop8) bs"

lemma pops_facts:
  assumes "length bs = 8"
  shows "digits_ok (pops bs)" "length (pops bs) = 8" "sum_list (pops bs) \<le> 64"
proof -
  have le: "pop8 b \<le> 8" for b
    unfolding pop8_def by (rule order_trans [OF length_filter_le]) simp
  then have "pop8 b < 256" for b using le [of b] by linarith
  then show "digits_ok (pops bs)" by (auto simp: digits_ok_def pops_def)
  show "length (pops bs) = 8" using assms by (simp add: pops_def)
  show "sum_list (pops bs) \<le> 64"
    using sum_list_mono [of bs "int \<circ> pop8" "\<lambda>_. 8"] le assms by (simp add: sum_list_triv pops_def comp_def)
qed

lemma select_in_word_parts:
  fixes w :: u64
  assumes w: "uint w = val bs" "digits_ok bs" "length bs = 8"
  assumes S: "S = prefix_sums (pops bs)" and k: "k = length (filter (\<lambda>s. s \<le> int r) S)"
  shows "select_in_word w r =
    (if \<not> int r < S ! 7 then None
     else if \<not> nat ((0 # butlast S) ! k) \<le> r then None
     else do { row \<leftarrow> nth_opt SELECT_IN_BYTE (nat (bs ! k));
               b \<leftarrow> nth_opt row (r - nat ((0 # butlast S) ! k));
               Some (k * 8 + b) })"
proof -
  define p where "p = word_bytes w * BYTE_ONES"
  note ps = pops_facts [OF w(3)]
  have p: "uint p = val S" unfolding p_def S
    by (rule uint_ones_mult [OF uint_word_bytes [OF w, folded pops_def] ps(1,2)]) (use ps(3) in simp)
  have SS: "digits_ok S" "length S = 8" "\<forall>s\<in>set S. s \<le> 64" "sorted S"
    unfolding S using ps prefix_sums_ok [OF ps(1)] sum_take_le [OF ps(1)] sorted_prefix_sums [OF ps(1)]
    by (auto simp: prefix_sums_def intro: order_trans)
  have S7: "unat (drop_bit 56 p) = nat (S ! 7)" "0 \<le> S ! 7" "S ! 7 \<le> 64"
    using unat_top_digit [OF p SS(1,2)] SS by (auto simp: digits_ok_def)
  show ?thesis
  proof (cases "int r < S ! 7")
    case True
    then have r: "r < 64" using S7(3) by linarith
    have k8: "k < 8"
      using sorted_filter_le [OF SS(4), of 7 "int r"] True SS(2) unfolding k by simp
    have idx: "unat (drop_bit 56 (drop_bit 7 (((of_nat r * BYTE_ONES OR BYTE_HIGHS) - p) AND BYTE_HIGHS) * BYTE_ONES)) = k"
      unfolding k by (rule unat_byte_index [OF uint_at_most [OF p SS(1,2,3) r] SS(2)])
    have before: "unat (drop_bit (k * 8) (push_bit 8 p) AND 0xFF) = nat ((0 # butlast S) ! k)"
      by (rule unat_drop_digit [OF uint_push_8 [OF p SS(1,2)] _ _ k8])
        (use SS in \<open>auto simp: digits_ok_def dest: in_set_butlastD\<close>)
    have byte: "unat (drop_bit (k * 8) w AND 0xFF) = nat (bs ! k)"
      by (rule unat_drop_digit [OF w k8])
    show ?thesis
      unfolding select_in_word_def Let_def word_pairs_def [symmetric] word_nibbles_def [symmetric]
        word_bytes_def [symmetric] p_def [symmetric] idx before byte S7(1)
      using True S7(2) by simp
  next
    case False
    then show ?thesis
      unfolding select_in_word_def Let_def word_pairs_def [symmetric] word_nibbles_def [symmetric]
        word_bytes_def [symmetric] p_def [symmetric] S7(1)
      using S7(2) by simp
  qed
qed

lemma popcount_prefix:
  assumes w: "uint (w :: u64) = val bs" "digits_ok bs" "length bs = 8" and k: "k \<le> 8"
  shows "int (length (filter (bit w) [0..<8 * k])) = sum_list (take k (pops bs))"
proof -
  have "bit w = bit (val bs)" unfolding w(1) [symmetric]
    by (rule ext) (auto simp: bit_uint_iff dest: bit_imp_le_length)
  then show ?thesis using count_low_digits [OF w(2), of k] w(3) k by (simp add: pops_def)
qed

lemma select_in_word_correct:
  "(r < popcount w \<longrightarrow> (\<exists>pos. select_in_word w r = Some pos \<and> pos < 64 \<and> bit w pos \<and>
      length (filter (bit w) [0..<pos]) = r)) \<and>
   (\<not> r < popcount w \<longrightarrow> select_in_word w r = None)"
proof -
  obtain bs where w: "uint w = val bs" "digits_ok bs" "length bs = 8" by (rule word_digits)
  define S where "S = prefix_sums (pops bs)"
  define k where "k = length (filter (\<lambda>s. s \<le> int r) S)"
  note parts = select_in_word_parts [OF w S_def k_def]
  note ps = pops_facts [OF w(3)]
  have S7: "S ! 7 = int (popcount w)"
    using popcount_prefix [OF w, of 8] ps by (simp add: S_def prefix_sums_nth popcount_def)
  show ?thesis
  proof (cases "r < popcount w")
    case False
    then show ?thesis using parts S7 by simp
  next
    case True
    have SS: "length S = 8" "sorted S" using ps sorted_prefix_sums by (simp_all add: S_def)
    have iff: "S ! i \<le> int r \<longleftrightarrow> i < k" if "i < 8" for i
      using sorted_filter_le [OF SS(2)] SS(1) that unfolding k_def by simp
    then have k8: "k < 8" using iff [of 7] True S7 by simp
    have before: "(0 # butlast S) ! k = sum_list (take k (pops bs))"
      using k8 SS(1) ps(2) by (cases k) (simp_all add: nth_butlast S_def prefix_sums_nth)
    define c where "c = length (filter (bit w) [0..<8 * k])"
    have c: "int c = sum_list (take k (pops bs))" unfolding c_def by (rule popcount_prefix [OF w]) (use k8 in simp)
    have c_le: "c \<le> r"
    proof (cases k)
      case (Suc j)
      then show ?thesis using iff [of j] k8 c ps(2) by (simp add: S_def prefix_sums_nth)
    qed (simp add: c_def)
    have "sum_list (take (Suc k) (pops bs)) > int r"
      using iff [of k] k8 ps(2) by (simp add: S_def prefix_sums_nth)
    then have j: "r - c < pop8 (bs ! k)"
      using k8 ps(2) w(3) c c_le by (simp add: take_Suc_conv_app_nth pops_def)
    have bk: "0 \<le> bs ! k" "bs ! k < 256" using w(2,3) k8 by (auto simp: digits_ok_def)
    define q where "q = filter (bit (bs ! k)) [0..<8] ! (r - c)"
    have q: "q < 8" "bit (bs ! k) q" "length (filter (bit (bs ! k)) [0..<q]) = r - c"
      using filter_upt_nth [OF j [unfolded pop8_def], of q] by (simp_all add: q_def)
    have b: "nat ((0 # butlast S) ! k) = c" using before c by simp
    have sel: "select_in_word w r = Some (8 * k + q)"
      unfolding parts b select_in_byte [OF bk j] q_def using S7 True c_le by simp
    have bits: "bit w (8 * k + i) = bit (bs ! k) i" if "i < 8" for i
      using bit_val [OF w(2), of k i] w(3) k8 that by (simp add: bit_uint_iff flip: w(1))
    have "filter (\<lambda>i. bit w (8 * k + i)) [0..<q] = filter (bit (bs ! k)) [0..<q]"
      using q(1) by (intro filter_cong) (auto simp: bits)
    then have "length (filter (bit w) [0..<8 * k + q]) = r"
      using q(3) c_le by (simp add: filter_upt_add flip: c_def)
    then show ?thesis using sel q(1) k8 q(2) bits True by auto
  qed
qed

section \<open>Property\<close>

text \<open>C4: the broadword \<open>select_in_word\<close> (byte-parallel prefix sums and the 256-row table)
  returns the position of the \<open>r\<close>-th set bit, the one set bit with exactly \<open>r\<close> set bits
  below it, for every word and every \<open>r\<close> below its population count, and panics for
  every other \<open>r\<close>.\<close>

theorem select_in_word_spec:
  "select_in_word w r = (if r < popcount w then Some (filter (bit w) [0..<64] ! r) else None)"
proof (cases "r < popcount w")
  case True
  then obtain pos where pos: "select_in_word w r = Some pos" "pos < 64" "bit w pos"
    "length (filter (bit w) [0..<pos]) = r" using select_in_word_correct [of r w] by blast
  have "filter (bit w) [0..<64] = filter (bit w) [0..<pos] @ filter (bit w) [pos..<64]"
    using upt_add_eq_append [of 0 pos "64 - pos"] pos(2) by (simp flip: filter_append)
  moreover have "filter (bit w) [pos..<64] = pos # filter (bit w) [Suc pos..<64]"
    using pos(2,3) by (simp add: upt_conv_Cons)
  ultimately have "filter (bit w) [0..<64] ! r = pos" using pos(4) by (simp add: nth_append)
  then show ?thesis using pos(1) True by simp
qed (use select_in_word_correct [of r w] in simp)

end
