(* ===== verification/RankSelect.thy ===== *)
theory RankSelect
  imports IntVec SelectWord
begin

unbundle bit_operations_syntax

text \<open>
  The succinct bitmap of the pack format (\<open>crates/rdf-core/src/ir/pack/bits.rs\<close>): the
  builder \<open>BitVec\<close>, the directory interface \<open>RankSelectDir\<close> with the rank and select
  algorithms it carries, the frozen owner \<open>RankSelect\<close> and the zero-copy reader
  \<open>RankSelectRef\<close>. The interface is a locale over the words a structure stands for; both
  implementations interpret it, so rank and select are proved once.
\<close>

section \<open>The builder\<close>

definition SUPERBLOCK_BITS :: nat where "SUPERBLOCK_BITS = 512"
definition WORDS_PER_SUPERBLOCK :: nat where "WORDS_PER_SUPERBLOCK = SUPERBLOCK_BITS div 64"

record bit_vec =
  bv_words :: "u64 list"
  bv_len :: nat

definition bv_new :: bit_vec where
  "bv_new = \<lparr>bv_words = [], bv_len = 0\<rparr>"

definition bv_push :: "bit_vec \<Rightarrow> bool \<Rightarrow> bit_vec option" where
  "bv_push v b =
     (let word_index = bv_len v div 64;
          words = (if word_index \<ge> length (bv_words v) then bv_words v @ [0] else bv_words v)
      in do {
        words \<leftarrow> (if b then do { w \<leftarrow> nth_opt words word_index;
                            Some (words[word_index := w OR push_bit (bv_len v mod 64) 1]) }
                  else Some words);
        Some \<lparr>bv_words = words, bv_len = bv_len v + 1\<rparr>
      })"

definition vec_resize :: "'a list \<Rightarrow> nat \<Rightarrow> 'a \<Rightarrow> 'a list" where
  "vec_resize xs n x = take n xs @ replicate (n - length xs) x"

definition bv_set_len :: "bit_vec \<Rightarrow> nat \<Rightarrow> bit_vec option" where
  "bv_set_len v new_len =
     (let words_needed = div_ceil new_len 64;
          words = vec_resize (bv_words v) words_needed 0
      in do {
        words \<leftarrow> (if new_len mod 64 \<noteq> 0
           then do { w \<leftarrow> nth_opt words (new_len div 64);
                     Some (words[new_len div 64 := w AND (push_bit (new_len mod 64) 1 - 1)]) }
           else Some words);
        Some \<lparr>bv_words = words, bv_len = new_len\<rparr>
      })"

section \<open>The directory interface\<close>

text \<open>
  The required methods of the trait, as the record of the functions an implementation
  supplies; the provided methods are the definitions over it.
\<close>

record rank_select_dir =
  dir_len :: nat
  dir_total_ones :: nat
  dir_words_len :: nat
  dir_word :: "nat \<Rightarrow> u64 option"
  dir_superblock_count :: nat
  dir_superblock_rank :: "nat \<Rightarrow> u64 option"
  dir_block_rank :: "nat \<Rightarrow> u64 option"

definition rank_at_word :: "rank_select_dir \<Rightarrow> nat \<Rightarrow> u64 option" where
  "rank_at_word d word_index =
     (if word_index \<ge> dir_words_len d then Some (of_nat (dir_total_ones d))
      else do {
        s \<leftarrow> dir_superblock_rank d (word_index div WORDS_PER_SUPERBLOCK);
        b \<leftarrow> dir_block_rank d word_index;
        Some (s + b)
      })"

definition rank1 :: "rank_select_dir \<Rightarrow> nat \<Rightarrow> nat option" where
  "rank1 d i =
     (if \<not> i \<le> dir_len d then None
      else do {
        r \<leftarrow> rank_at_word d (i div 64);
        r \<leftarrow> (if i mod 64 > 0 then do {
               w \<leftarrow> dir_word d (i div 64);
               Some (r + of_nat (popcount (w AND (push_bit (i mod 64) 1 - 1)))) }
             else Some r);
        Some (unat r)
      })"

definition rank0 :: "rank_select_dir \<Rightarrow> nat \<Rightarrow> nat option" where
  "rank0 d i = do { r \<leftarrow> rank1 d i; Some (usize_wrapping_sub i r) }"

text \<open>
  The binary search over superblocks and the scan over the words of one superblock,
  which \<open>select1\<close> and \<open>select0\<close> write out over their own counts.
\<close>

function superblock_search :: "(nat \<Rightarrow> u64 option) \<Rightarrow> u64 \<Rightarrow> nat \<Rightarrow> nat \<Rightarrow> nat option" where
  "superblock_search count_at k lo hi =
     (if lo < hi then
        let mid = lo + (hi - lo) div 2
        in do {
          c \<leftarrow> count_at mid;
          if c \<le> k then superblock_search count_at k (mid + 1) hi
          else superblock_search count_at k lo mid
        }
      else Some lo)"
  by auto
termination by (relation "measure (\<lambda>(_, _, lo, hi). hi - lo)") auto

declare superblock_search.simps [simp del]

function word_scan :: "(nat \<Rightarrow> u64 option) \<Rightarrow> u64 \<Rightarrow> nat \<Rightarrow> nat \<Rightarrow> nat option" where
  "word_scan count_at k w w_end =
     (if w + 1 < w_end then do {
        c \<leftarrow> count_at (w + 1);
        if c \<le> k then word_scan count_at k (w + 1) w_end else Some w
      }
      else Some w)"
  by auto
termination by (relation "measure (\<lambda>(_, _, w, w_end). w_end - w)") auto

declare word_scan.simps [simp del]

text \<open>
  The outer option is the panic, the inner one the value the code returns. With \<open>lo = 0\<close>
  (an unvalidated directory only) the index \<open>lo - 1\<close> wraps and the word read at it panics.
\<close>

definition select1 :: "rank_select_dir \<Rightarrow> nat \<Rightarrow> nat option option" where
  "select1 d k =
     (if k \<ge> dir_total_ones d then Some None
      else let k64 = of_nat k in do {
        lo \<leftarrow> superblock_search (dir_superblock_rank d) k64 0 (dir_superblock_count d);
        sb \<leftarrow> (if lo = 0 then None else Some (lo - 1));
        let w_start = sb * WORDS_PER_SUPERBLOCK;
        let w_end = min (w_start + WORDS_PER_SUPERBLOCK) (dir_words_len d);
        w \<leftarrow> word_scan (rank_at_word d) k64 w_start w_end;
        r \<leftarrow> rank_at_word d w;
        word \<leftarrow> dir_word d w;
        b \<leftarrow> select_in_word word (unat (k64 - r));
        Some (Some (w * 64 + b))
      })"

definition zeros_at_sb :: "rank_select_dir \<Rightarrow> nat \<Rightarrow> u64 option" where
  "zeros_at_sb d sb = do { r \<leftarrow> dir_superblock_rank d sb;
     Some (of_nat (sb * WORDS_PER_SUPERBLOCK) * 64 - r) }"

definition zeros_at_word :: "rank_select_dir \<Rightarrow> nat \<Rightarrow> u64 option" where
  "zeros_at_word d w = do { r \<leftarrow> rank_at_word d w; Some (of_nat w * 64 - r) }"

definition select0 :: "rank_select_dir \<Rightarrow> nat \<Rightarrow> nat option option" where
  "select0 d k =
     (if k \<ge> usize_wrapping_sub (dir_len d) (dir_total_ones d) then Some None
      else let k64 = of_nat k in do {
        lo \<leftarrow> superblock_search (zeros_at_sb d) k64 0 (dir_superblock_count d);
        sb \<leftarrow> (if lo = 0 then None else Some (lo - 1));
        let w_start = sb * WORDS_PER_SUPERBLOCK;
        let w_end = min (w_start + WORDS_PER_SUPERBLOCK) (dir_words_len d);
        w \<leftarrow> word_scan (zeros_at_word d) k64 w_start w_end;
        z \<leftarrow> zeros_at_word d w;
        word \<leftarrow> dir_word d w;
        b \<leftarrow> select_in_word (NOT word) (unat (k64 - z));
        Some (Some (w * 64 + b))
      })"

section \<open>The frozen owner\<close>

record rank_select =
  rs_len :: nat
  rs_total_ones :: nat
  rs_words :: "u64 list"
  rs_superblock_rank :: "u64 list"
  rs_block_rank :: "u16 list"

text \<open>One iteration per word; the \<open>u16::try_from\<close> that the code expects to succeed is the
  only panic besides the indexing.\<close>

fun rs_build_loop :: "u64 list \<Rightarrow> nat \<Rightarrow> u64 list \<Rightarrow> u16 list \<Rightarrow> u64 \<Rightarrow> (u64 list \<times> u16 list \<times> u64) option" where
  "rs_build_loop [] w superblock_rank block_rank running_total =
     Some (superblock_rank, block_rank, running_total)"
| "rs_build_loop (word # words) w superblock_rank block_rank running_total = do {
     superblock_rank \<leftarrow> (if w mod WORDS_PER_SUPERBLOCK = 0
        then (if w div WORDS_PER_SUPERBLOCK < length superblock_rank
              then Some (superblock_rank[w div WORDS_PER_SUPERBLOCK := running_total]) else None)
        else Some superblock_rank);
     sb_base \<leftarrow> nth_opt superblock_rank (w div WORDS_PER_SUPERBLOCK);
     rel \<leftarrow> (if unat (running_total - sb_base) < 2 ^ 16 then Some (ucast (running_total - sb_base)) else None);
     block_rank \<leftarrow> (if w < length block_rank then Some (block_rank[w := rel]) else None);
     rs_build_loop words (w + 1) superblock_rank block_rank (running_total + of_nat (popcount word))
   }"

definition rs_build :: "u64 list \<Rightarrow> nat \<Rightarrow> rank_select option" where
  "rs_build words len = do {
     (superblock_rank, block_rank, running_total) \<leftarrow>
        rs_build_loop words 0 (replicate (div_ceil (length words) WORDS_PER_SUPERBLOCK) 0)
          (replicate (length words) 0) 0;
     Some \<lparr>rs_len = len, rs_total_ones = unat running_total, rs_words = words,
           rs_superblock_rank = superblock_rank, rs_block_rank = block_rank\<rparr>
   }"

definition bv_freeze :: "bit_vec \<Rightarrow> rank_select option" where
  "bv_freeze v = rs_build (bv_words v) (bv_len v)"

definition rs_dir :: "rank_select \<Rightarrow> rank_select_dir" where
  "rs_dir r = \<lparr>dir_len = rs_len r, dir_total_ones = rs_total_ones r,
     dir_words_len = length (rs_words r), dir_word = nth_opt (rs_words r),
     dir_superblock_count = length (rs_superblock_rank r),
     dir_superblock_rank = nth_opt (rs_superblock_rank r),
     dir_block_rank = (\<lambda>i. map_option ucast (nth_opt (rs_block_rank r) i))\<rparr>"

definition rs_to_bytes :: "rank_select \<Rightarrow> bytes" where
  "rs_to_bytes r =
     le_bytes 8 (of_nat (rs_len r) :: u64) @ le_bytes 8 (of_nat (rs_total_ones r) :: u64) @
     le_bytes 8 (of_nat (length (rs_words r)) :: u64) @
     le_bytes 8 (of_nat (length (rs_superblock_rank r)) :: u64) @
     concat (map (le_bytes 8) (rs_superblock_rank r)) @
     concat (map (le_bytes 2) (rs_block_rank r)) @
     concat (map (le_bytes 8) (rs_words r))"

definition rs_serialized_len :: "rank_select \<Rightarrow> nat" where
  "rs_serialized_len r = 32 + length (rs_superblock_rank r) * 8 + length (rs_block_rank r) * 2 +
     length (rs_words r) * 8"

section \<open>The borrowed reader\<close>

record rank_select_ref =
  rsr_len :: nat
  rsr_total_ones :: nat
  rsr_words_len :: nat
  rsr_superblock_count :: nat
  rsr_superblock_bytes :: bytes
  rsr_block_bytes :: bytes
  rsr_words_bytes :: bytes

definition rsr_from_bytes :: "bytes \<Rightarrow> pack_bits_error + rank_select_ref" where
  "rsr_from_bytes bs =
     (case read_header_u64 bs 0 of Inl e \<Rightarrow> Inl e | Inr (len, pos) \<Rightarrow>
      case read_header_u64 bs pos of Inl e \<Rightarrow> Inl e | Inr (total_ones, pos) \<Rightarrow>
      case read_header_u64 bs pos of Inl e \<Rightarrow> Inl e | Inr (words_len, pos) \<Rightarrow>
      case read_header_u64 bs pos of Inl e \<Rightarrow> Inl e | Inr (superblock_count, pos) \<Rightarrow>
      let len = unat len; total_ones = unat total_ones; words_len = unat words_len;
          superblock_count = unat superblock_count
      in if total_ones > len then Inl (Malformed ''rank_select: total_ones exceeds len'')
      else if words_len \<noteq> div_ceil len 64 then
        Inl (Malformed ''rank_select: word count disagrees with len'')
      else if superblock_count \<noteq> div_ceil words_len WORDS_PER_SUPERBLOCK then
        Inl (Malformed ''rank_select: superblock count disagrees with word count'')
      else
        let sb_end = pos + superblock_count * 8;
            block_end = sb_end + words_len * 2;
            words_end = block_end + words_len * 8
        in if length bs < words_end then Inl (Truncated words_end (length bs))
           else Inr \<lparr>rsr_len = len, rsr_total_ones = total_ones, rsr_words_len = words_len,
              rsr_superblock_count = superblock_count,
              rsr_superblock_bytes = slice_range pos sb_end bs,
              rsr_block_bytes = slice_range sb_end block_end bs,
              rsr_words_bytes = slice_range block_end words_end bs\<rparr>)"

definition rsr_serialized_len :: "rank_select_ref \<Rightarrow> nat" where
  "rsr_serialized_len r = 32 + length (rsr_superblock_bytes r) + length (rsr_block_bytes r) +
     length (rsr_words_bytes r)"

definition rsr_dir :: "rank_select_ref \<Rightarrow> rank_select_dir" where
  "rsr_dir r = \<lparr>dir_len = rsr_len r, dir_total_ones = rsr_total_ones r,
     dir_words_len = rsr_words_len r, dir_word = read_u64_le (rsr_words_bytes r),
     dir_superblock_count = rsr_superblock_count r,
     dir_superblock_rank = read_u64_le (rsr_superblock_bytes r),
     dir_block_rank = (\<lambda>i. map_option ucast (read_u16_le (rsr_block_bytes r) i))\<rparr>"

definition mark_last_range :: "rank_select_ref \<Rightarrow> nat \<Rightarrow> (nat \<times> nat) option option" where
  "mark_last_range r k = do {
     start \<leftarrow> (if k = 0 then Some (Some 0)
       else map_option (map_option Suc) (select1 (rsr_dir r) (k - 1)));
     (case start of None \<Rightarrow> Some None
      | Some s \<Rightarrow> map_option (map_option (\<lambda>e. (s, e + 1))) (select1 (rsr_dir r) k))
   }"

section \<open>Counting set positions\<close>

definition count_upto :: "(nat \<Rightarrow> bool) \<Rightarrow> nat \<Rightarrow> nat" where
  "count_upto P n = length (filter P [0..<n])"

lemma count_upto_simps [simp]:
  "count_upto P 0 = 0" "count_upto P (Suc n) = count_upto P n + (if P n then 1 else 0)"
  by (simp_all add: count_upto_def)

lemma count_upto_add: "count_upto P (m + n) = count_upto P m + count_upto (\<lambda>i. P (m + i)) n"
  by (simp add: count_upto_def filter_upt_add)

lemma count_upto_mono: "m \<le> n \<Longrightarrow> count_upto P m \<le> count_upto P n"
  using count_upto_add [of P m "n - m"] by simp

lemma count_upto_le [simp]: "count_upto P n \<le> n"
  by (induction n) simp_all

lemma count_upto_diff: "m \<le> n \<Longrightarrow> count_upto P n - count_upto P m \<le> n - m"
  using count_upto_add [of P m "n - m"] by simp

lemma count_upto_cong: "(\<And>i. i < n \<Longrightarrow> P i = Q i) \<Longrightarrow> count_upto P n = count_upto Q n"
  by (induction n) simp_all

lemma count_upto_none: "(\<And>i. i < n \<Longrightarrow> \<not> P i) \<Longrightarrow> count_upto P n = 0"
  by (induction n) simp_all

lemma count_upto_not: "count_upto (\<lambda>i. \<not> P i) n = n - count_upto P n"
  by (induction n) (simp_all add: Suc_diff_le)

lemma count_upto_inj:
  assumes "P p" "P q" "count_upto P p = count_upto P q"
  shows "p = q"
proof (rule ccontr)
  assume "p \<noteq> q"
  then have "Suc p \<le> q \<or> Suc q \<le> p" by linarith
  then show False using count_upto_mono [of "Suc p" q P] count_upto_mono [of "Suc q" p P] assms by auto
qed

lemma count_upto_less_iff: "count_upto P p < count_upto P n \<Longrightarrow> p < n"
  by (metis count_upto_mono linorder_not_le)

lemma popcount_mask:
  "i < 64 \<Longrightarrow> popcount (w AND (push_bit i 1 - 1)) = count_upto (bit (w :: u64)) i"
  using popcount_take_bit [of i w]
  by (simp add: count_upto_def take_bit_eq_mask mask_eq_exp_minus_1)

lemma popcount_count: "popcount (w :: u64) = count_upto (bit w) 64"
  by (simp add: popcount_def count_upto_def)

text \<open>Bits \<open>64 w ..< 64 w + 64\<close> of the stream are the bits of word \<open>w\<close>.\<close>

lemma words_bit_word: "w < length ws \<Longrightarrow> j < 64 \<Longrightarrow> words_bit ws (64 * w + j) = bit (ws ! w) j"
  by (simp add: words_bit_def)

lemma count_upto_word:
  "w < length ws \<Longrightarrow> n \<le> 64 \<Longrightarrow>
     count_upto (words_bit ws) (64 * w + n) = count_upto (words_bit ws) (64 * w) + count_upto (bit (ws ! w)) n"
  unfolding count_upto_add by (simp add: words_bit_word cong: count_upto_cong)

lemma of_nat_le_64: "m < 2 ^ 64 \<Longrightarrow> n < 2 ^ 64 \<Longrightarrow> (of_nat m :: u64) \<le> of_nat n \<longleftrightarrow> m \<le> n"
  by (simp add: word_le_nat_alt unat_of_nat_64)

lemma of_nat_diff_64: "n \<le> m \<Longrightarrow> m < 2 ^ 64 \<Longrightarrow> unat ((of_nat m :: u64) - of_nat n) = m - n"
  by (metis of_nat_diff unat_of_nat_64 diff_le_self le_less_trans)

section \<open>The search steps\<close>

lemma superblock_search_correct:
  assumes "\<And>m. m < n \<Longrightarrow> count_at m = Some (of_nat (f m))" "\<And>m. m < n \<Longrightarrow> f m < 2 ^ 64"
    and "mono f" "k < 2 ^ 64" "lo \<le> hi" "hi \<le> n"
    and "\<And>m. m < lo \<Longrightarrow> f m \<le> k" "\<And>m. hi \<le> m \<Longrightarrow> m < n \<Longrightarrow> k < f m"
  shows "\<exists>s. superblock_search count_at (of_nat k) lo hi = Some s \<and> lo \<le> s \<and> s \<le> hi \<and>
     (\<forall>m. m < s \<longrightarrow> f m \<le> k) \<and> (\<forall>m. s \<le> m \<and> m < n \<longrightarrow> k < f m)"
  using assms(5-)
proof (induction "hi - lo" arbitrary: lo hi rule: less_induct)
  case less
  define mid where "mid = lo + (hi - lo) div 2"
  show ?case
  proof (cases "lo < hi")
    case True
    then have mid: "lo \<le> mid" "mid < hi" "mid < n" using less.prems by (auto simp: mid_def)
    have step: "superblock_search count_at (of_nat k) lo hi =
        (if f mid \<le> k then superblock_search count_at (of_nat k) (mid + 1) hi
         else superblock_search count_at (of_nat k) lo mid)"
      using True mid assms(1,2,4)
      by (subst superblock_search.simps) (simp add: mid_def [symmetric] Let_def of_nat_le_64)
    show ?thesis
    proof (cases "f mid \<le> k")
      case below: True
      have "f m \<le> k" if "m < mid + 1" for m
        using monoD [OF assms(3), of m mid] below that by simp
      with less.hyps [of hi "mid + 1"] less.prems mid below show ?thesis
        unfolding step by (auto simp: mid_def) fastforce?
    next
      case above: False
      have "k < f m" if "mid \<le> m" for m
        using monoD [OF assms(3) that] above by simp
      with less.hyps [of mid lo] less.prems mid above show ?thesis
        unfolding step by (auto simp: mid_def) fastforce?
    qed
  next
    case False
    then show ?thesis using less.prems by (subst superblock_search.simps) auto
  qed
qed

lemma word_scan_correct:
  assumes "\<And>m. m < w_end \<Longrightarrow> count_at m = Some (of_nat (g m))" "\<And>m. m < w_end \<Longrightarrow> g m < 2 ^ 64"
    and "k < 2 ^ 64" "w < w_end" "g w \<le> k"
  shows "\<exists>s. word_scan count_at (of_nat k) w w_end = Some s \<and> s < w_end \<and> w \<le> s \<and> g s \<le> k \<and>
     (s + 1 < w_end \<longrightarrow> k < g (s + 1))"
  using assms(4-)
proof (induction "w_end - w" arbitrary: w rule: less_induct)
  case less
  show ?case
  proof (cases "w + 1 < w_end \<and> g (w + 1) \<le> k")
    case True
    then have "word_scan count_at (of_nat k) w w_end = word_scan count_at (of_nat k) (w + 1) w_end"
      using assms(1-3) by (subst word_scan.simps) (simp add: of_nat_le_64)
    then show ?thesis using less.hyps [of "w + 1"] True less.prems by fastforce
  next
    case False
    then have "word_scan count_at (of_nat k) w w_end = Some w"
      using assms(1-3) by (subst word_scan.simps) (auto simp: of_nat_le_64)
    then show ?thesis using False less.prems by auto
  qed
qed

lemma mono_count_mult: "mono (\<lambda>w. count_upto P (c * w))"
  by (intro monoI count_upto_mono) simp

text \<open>
  The common course of \<open>select1\<close> and \<open>select0\<close>, for the set positions of any predicate:
  the right superblock, the right word, the right bit.
\<close>

lemma select_steps:
  assumes sbc: "\<And>m. m < div_ceil nw 8 \<Longrightarrow> sb_at m = Some (of_nat (count_upto P (512 * m)))"
    and wc: "\<And>m. m < nw \<Longrightarrow> word_at m = Some (of_nat (count_upto P (64 * m)))"
    and word: "\<And>m j. m < nw \<Longrightarrow> j < 64 \<Longrightarrow> bit (word m) j = P (64 * m + j)"
    and bound: "64 * nw < 2 ^ 64" and k: "k < count_upto P (64 * nw)"
  obtains lo w b where "superblock_search sb_at (of_nat k) 0 (div_ceil nw 8) = Some lo" "lo \<noteq> 0"
    "word_scan word_at (of_nat k) ((lo - 1) * 8) (min ((lo - 1) * 8 + 8) nw) = Some w" "w < nw"
    "count_upto P (64 * w) \<le> k" "select_in_word (word w) (k - count_upto P (64 * w)) = Some b"
    "P (w * 64 + b)" "count_upto P (w * 64 + b) = k" "b < 64"
proof -
  let ?n = "div_ceil nw 8"
  have n: "m < ?n \<longleftrightarrow> 8 * m < nw" for m
    using div_ceil_le_iff [of 8 nw m] by (simp add: mult.commute linorder_not_le [symmetric])
  have small: "count_upto P p < 2 ^ 64" if "p \<le> 64 * nw" for p
    using count_upto_le [of P p] that bound by linarith
  have k64: "k < 2 ^ 64" using k count_upto_le [of P "64 * nw"] bound by linarith
  obtain lo where lo: "superblock_search sb_at (of_nat k) 0 ?n = Some lo" "lo \<le> ?n"
    "\<forall>m. m < lo \<longrightarrow> count_upto P (512 * m) \<le> k" "\<forall>m. lo \<le> m \<and> m < ?n \<longrightarrow> k < count_upto P (512 * m)"
    using superblock_search_correct [where n = ?n and count_at = sb_at and f = "\<lambda>m. count_upto P (512 * m)"
        and k = k and lo = 0 and hi = ?n] sbc small n mono_count_mult k64 by auto
  have "0 < nw" using k by (cases nw) auto
  then have lo0: "lo \<noteq> 0" using lo(4) n [of 0] by auto
  define w0 where "w0 = (lo - 1) * 8"
  define w1 where "w1 = min (w0 + 8) nw"
  have w0: "w0 < w1" "w1 \<le> nw" "count_upto P (64 * w0) \<le> k"
    using lo0 lo(2) n [of "lo - 1"] lo(3) [rule_format, of "lo - 1"] by (auto simp: w0_def w1_def mult.commute)
  obtain w where w: "word_scan word_at (of_nat k) w0 w1 = Some w" "w < w1" "w0 \<le> w"
    "count_upto P (64 * w) \<le> k" "w + 1 < w1 \<longrightarrow> k < count_upto P (64 * (w + 1))"
    using word_scan_correct [where count_at = word_at and w_end = w1 and g = "\<lambda>m. count_upto P (64 * m)"
        and k = k and w = w0] wc small w0 k64 by auto
  have next_: "k < count_upto P (64 * (w + 1))"
  proof (cases "w + 1 < w1")
    case False
    then have "w + 1 = nw \<or> w + 1 = lo * 8 \<and> lo < ?n"
      using w(2) lo0 n [of lo] by (auto simp: w1_def w0_def min_def diff_mult_distrib split: if_splits)
    then have "64 * (w + 1) = 64 * nw \<or> 64 * (w + 1) = 512 * lo \<and> lo < ?n"
      by (elim disjE) auto
    then show ?thesis using k lo(4) [rule_format, of lo] by (metis order_refl)
  qed (use w(5) in simp)
  have wn: "w < nw" using w(2) w0(2) by simp
  define r where "r = k - count_upto P (64 * w)"
  have cnt: "count_upto P (64 * w + i) = count_upto P (64 * w) + count_upto (bit (word w)) i" if "i \<le> 64" for i
    unfolding count_upto_add using word [OF wn] that by (simp cong: count_upto_cong)
  have "r < popcount (word w)"
    using next_ cnt [of 64] w(4) by (simp add: r_def popcount_count add.commute)
  then obtain b where b: "select_in_word (word w) r = Some b" "b < 64" "bit (word w) b"
    "count_upto (bit (word w)) b = r"
    using select_in_word_correct [of r "word w"] by (auto simp: count_upto_def)
  have "P (w * 64 + b)" using word [OF wn b(2)] b(3) by (simp add: mult.commute)
  moreover have "count_upto P (w * 64 + b) = k"
    using cnt [of b] b w(4) by (simp add: r_def mult.commute)
  ultimately show ?thesis
    using that [OF lo(1) lo0 w(1) [unfolded w1_def w0_def] wn w(4)] b by (simp add: r_def)
qed

section \<open>The contract of a directory\<close>

definition ones :: "u64 list \<Rightarrow> nat \<Rightarrow> nat" where
  "ones ws = count_upto (words_bit ws)"

locale rank_directory =
  fixes dir :: "'r \<Rightarrow> rank_select_dir" and valid :: "'r \<Rightarrow> bool"
    and words :: "'r \<Rightarrow> u64 list" and nbits :: "'r \<Rightarrow> nat"
  assumes dir_len: "valid r \<Longrightarrow> dir_len (dir r) = nbits r"
    and dir_total: "valid r \<Longrightarrow> dir_total_ones (dir r) = ones (words r) (nbits r)"
    and dir_words_len: "valid r \<Longrightarrow> dir_words_len (dir r) = length (words r)"
    and bound: "valid r \<Longrightarrow> 64 * length (words r) < 2 ^ 64"
    and fits: "valid r \<Longrightarrow> nbits r \<le> 64 * length (words r)"
    and padding: "valid r \<Longrightarrow> nbits r \<le> p \<Longrightarrow> \<not> words_bit (words r) p"
    and dir_word: "valid r \<Longrightarrow> i < length (words r) \<Longrightarrow> dir_word (dir r) i = Some (words r ! i)"
    and dir_sb_count: "valid r \<Longrightarrow> dir_superblock_count (dir r) = div_ceil (length (words r)) 8"
    and dir_sb_rank: "valid r \<Longrightarrow> m < div_ceil (length (words r)) 8 \<Longrightarrow>
          dir_superblock_rank (dir r) m = Some (of_nat (ones (words r) (512 * m)))"
    and dir_block: "valid r \<Longrightarrow> i < length (words r) \<Longrightarrow>
          dir_block_rank (dir r) i = Some (of_nat (ones (words r) (64 * i) - ones (words r) (512 * (i div 8))))"
begin

lemma ones_padding:
  assumes "valid r" "nbits r \<le> n"
  shows "ones (words r) n = ones (words r) (nbits r)"
  using count_upto_add [of "words_bit (words r)" "nbits r" "n - nbits r"] assms padding [OF assms(1)]
  by (simp add: ones_def count_upto_none)

lemma rank_at_word_eq:
  assumes v: "valid r"
  shows "rank_at_word (dir r) w = Some (of_nat (ones (words r) (64 * w)))"
proof (cases "w < length (words r)")
  case True
  have "8 * (w div 8) \<le> w" by simp
  then have "w div 8 < div_ceil (length (words r)) 8"
    using True div_ceil_le_iff [of 8 "length (words r)" "w div 8"] by (simp add: linorder_not_le [symmetric])
  moreover have "ones (words r) (512 * (w div 8)) \<le> ones (words r) (64 * w)"
    unfolding ones_def by (rule count_upto_mono) simp
  ultimately show ?thesis using True v
    by (simp add: rank_at_word_def dir_words_len dir_sb_rank dir_block WORDS_PER_SUPERBLOCK_def
        SUPERBLOCK_BITS_def flip: of_nat_add)
next
  case False
  then show ?thesis using v fits [OF v]
    by (simp add: rank_at_word_def dir_words_len dir_total ones_padding [of r "64 * w"])
qed

lemma rank1_correct:
  assumes v: "valid r"
  shows "rank1 (dir r) i = (if i \<le> nbits r then Some (ones (words r) i) else None)"
proof (cases "i \<le> nbits r")
  case True
  have i: "64 * (i div 64) + i mod 64 = i" by simp
  have small: "ones (words r) i < 2 ^ 64"
    using count_upto_le [of "words_bit (words r)" i] True fits [OF v] bound [OF v] unfolding ones_def by linarith
  show ?thesis
  proof (cases "i mod 64 = 0")
    case True
    then have "64 * (i div 64) = i" using i by simp
    then show ?thesis using \<open>i \<le> nbits r\<close> v True small
      by (simp add: rank1_def dir_len rank_at_word_eq unat_of_nat_64)
  next
    case False
    have w: "i div 64 < length (words r)" using i True fits [OF v] False by linarith
    have "ones (words r) (64 * (i div 64)) + count_upto (bit (words r ! (i div 64))) (i mod 64) = ones (words r) i"
      using count_upto_word [OF w, of "i mod 64"] i by (simp add: ones_def)
    then show ?thesis using True v False w small popcount_mask [of "i mod 64"]
      by (simp add: rank1_def dir_len rank_at_word_eq dir_word unat_of_nat_64 flip: of_nat_add)
  qed
qed (use v in \<open>simp add: rank1_def dir_len\<close>)

lemma rank0_correct:
  assumes v: "valid r"
  shows "rank0 (dir r) i = (if i \<le> nbits r then Some (count_upto (\<lambda>p. \<not> words_bit (words r) p) i) else None)"
  using rank1_correct [OF v] by (simp add: rank0_def ones_def count_upto_not)

lemma select1_correct:
  assumes v: "valid r"
  shows "if k < ones (words r) (nbits r)
    then \<exists>p. select1 (dir r) k = Some (Some p) \<and> p < nbits r \<and> words_bit (words r) p \<and> ones (words r) p = k
    else select1 (dir r) k = Some None"
proof (cases "k < ones (words r) (nbits r)")
  case True
  let ?P = "words_bit (words r)" and ?nw = "length (words r)"
  have k: "k < count_upto ?P (64 * ?nw)"
    using True ones_padding [OF v fits [OF v]] by (simp add: ones_def)
  have k64: "k < 2 ^ 64" using k count_upto_le [of ?P "64 * ?nw"] bound [OF v] by linarith
  obtain lo w b where s: "superblock_search (dir_superblock_rank (dir r)) (of_nat k) 0 (div_ceil ?nw 8) = Some lo" "lo \<noteq> 0"
    "word_scan (rank_at_word (dir r)) (of_nat k) ((lo - 1) * 8) (min ((lo - 1) * 8 + 8) ?nw) = Some w" "w < ?nw"
    "count_upto ?P (64 * w) \<le> k" "select_in_word (words r ! w) (k - count_upto ?P (64 * w)) = Some b"
    "?P (w * 64 + b)" "count_upto ?P (w * 64 + b) = k" "b < 64"
    by (rule select_steps [of ?nw "dir_superblock_rank (dir r)" ?P "rank_at_word (dir r)" "(!) (words r)" k])
      (use v k bound [OF v] in \<open>simp_all add: dir_sb_rank rank_at_word_eq words_bit_word ones_def\<close>)
  have "select1 (dir r) k = Some (Some (w * 64 + b))"
    using True v s k64
    by (simp add: select1_def dir_total dir_words_len dir_sb_count Let_def WORDS_PER_SUPERBLOCK_def
        SUPERBLOCK_BITS_def rank_at_word_eq dir_word of_nat_diff_64 ones_def linorder_not_le)
  moreover have "w * 64 + b < nbits r" using padding [OF v] s(7) by (meson linorder_not_le)
  ultimately show ?thesis using True s by (simp add: ones_def)
qed (use v in \<open>simp add: select1_def dir_total\<close>)

lemma zeros_at_eq:
  assumes v: "valid r"
  shows "zeros_at_word (dir r) w = Some (of_nat (count_upto (\<lambda>p. \<not> words_bit (words r) p) (64 * w)))"
    "m < div_ceil (length (words r)) 8 \<Longrightarrow>
      zeros_at_sb (dir r) m = Some (of_nat (count_upto (\<lambda>p. \<not> words_bit (words r) p) (512 * m)))"
  using v by (simp_all add: zeros_at_word_def zeros_at_sb_def rank_at_word_eq dir_sb_rank ones_def
      count_upto_not of_nat_diff WORDS_PER_SUPERBLOCK_def SUPERBLOCK_BITS_def mult.commute)

lemma select0_correct:
  assumes v: "valid r"
  shows "if k < nbits r - ones (words r) (nbits r)
    then \<exists>p. select0 (dir r) k = Some (Some p) \<and> p < nbits r \<and> \<not> words_bit (words r) p \<and> p - ones (words r) p = k
    else select0 (dir r) k = Some None"
proof (cases "k < nbits r - ones (words r) (nbits r)")
  case True
  let ?P = "\<lambda>p. \<not> words_bit (words r) p" and ?nw = "length (words r)"
  have kn: "k < count_upto ?P (nbits r)" using True by (simp add: count_upto_not ones_def)
  then have k: "k < count_upto ?P (64 * ?nw)" using count_upto_mono [OF fits [OF v], of ?P] by simp
  have k64: "k < 2 ^ 64" using k count_upto_le [of ?P "64 * ?nw"] bound [OF v] by linarith
  obtain lo w b where s: "superblock_search (zeros_at_sb (dir r)) (of_nat k) 0 (div_ceil ?nw 8) = Some lo" "lo \<noteq> 0"
    "word_scan (zeros_at_word (dir r)) (of_nat k) ((lo - 1) * 8) (min ((lo - 1) * 8 + 8) ?nw) = Some w" "w < ?nw"
    "count_upto ?P (64 * w) \<le> k" "select_in_word (NOT (words r ! w)) (k - count_upto ?P (64 * w)) = Some b"
    "?P (w * 64 + b)" "count_upto ?P (w * 64 + b) = k" "b < 64"
    by (rule select_steps [of ?nw "zeros_at_sb (dir r)" ?P "zeros_at_word (dir r)" "\<lambda>w. NOT (words r ! w)" k])
      (use v k bound [OF v] in \<open>simp_all add: zeros_at_eq words_bit_word bit_simps\<close>)
  have ole: "ones (words r) (nbits r) \<le> nbits r" by (simp add: ones_def)
  have "select0 (dir r) k = Some (Some (w * 64 + b))"
    using True v s k64 ole
    by (simp add: select0_def dir_total dir_len dir_words_len dir_sb_count Let_def WORDS_PER_SUPERBLOCK_def
        SUPERBLOCK_BITS_def zeros_at_eq dir_word of_nat_diff_64 linorder_not_le)
  moreover have "w * 64 + b < nbits r" using kn s(8) by (metis count_upto_less_iff)
  ultimately show ?thesis using True s by (simp add: count_upto_not ones_def)
qed (use v in \<open>simp add: select0_def dir_total dir_len ones_def\<close>)

end

section \<open>Building the directory\<close>

definition sb_rank_at :: "u64 list \<Rightarrow> nat \<Rightarrow> u64" where
  "sb_rank_at ws m = of_nat (ones ws (512 * m))"

definition block_rank_at :: "u64 list \<Rightarrow> nat \<Rightarrow> u16" where
  "block_rank_at ws i = of_nat (ones ws (64 * i) - ones ws (512 * (i div 8)))"

lemma block_rank_small: "ones ws (64 * i) - ones ws (512 * (i div 8)) \<le> 512"
proof -
  have "8 * (i div 8) + i mod 8 = i" "i mod 8 < 8" by simp_all
  then have "64 * i - 512 * (i div 8) \<le> 512" "512 * (i div 8) \<le> 64 * i" by linarith+
  then show ?thesis using count_upto_diff [of "512 * (i div 8)" "64 * i" "words_bit ws"]
    by (simp add: ones_def)
qed

lemma ucast_block_rank: "ucast (block_rank_at ws i) = (of_nat (ones ws (64 * i) - ones ws (512 * (i div 8))) :: u64)"
proof -
  have "unat (block_rank_at ws i) = ones ws (64 * i) - ones ws (512 * (i div 8))"
    using block_rank_small [of ws i] by (simp add: block_rank_at_def unat_of_nat)
  then show ?thesis by (metis of_nat_unat)
qed

lemma div_ceil_gt: "i < n \<Longrightarrow> i div 8 < div_ceil n 8"
proof -
  assume "i < n"
  then have "8 * (i div 8) < n" using mult_div_mod_eq [of 8 i] by linarith
  then show ?thesis using div_ceil_le_iff [of 8 n "i div 8"] by (simp add: linorder_not_le [symmetric])
qed

lemma rs_build_loop_correct:
  assumes "rest = drop w ws" "w \<le> length ws" "64 * length ws < 2 ^ 64"
    and "length sbs = div_ceil (length ws) 8" "length blks = length ws"
    and "\<forall>m. 8 * m < w \<longrightarrow> sbs ! m = sb_rank_at ws m" "\<forall>i. i < w \<longrightarrow> blks ! i = block_rank_at ws i"
    and "tot = of_nat (ones ws (64 * w))"
  shows "rs_build_loop rest w sbs blks tot =
    Some (map (sb_rank_at ws) [0..<div_ceil (length ws) 8], map (block_rank_at ws) [0..<length ws],
          of_nat (ones ws (64 * length ws)))"
  using assms
proof (induction rest arbitrary: w sbs blks tot)
  case Nil
  then have w: "w = length ws" by simp
  have "8 * m < w" if "m < div_ceil (length ws) 8" for m
    using that div_ceil_le_iff [of 8 "length ws" m] w by (simp add: linorder_not_le [symmetric] mult.commute)
  then have "sbs = map (sb_rank_at ws) [0..<div_ceil (length ws) 8]" "blks = map (block_rank_at ws) [0..<length ws]"
    using Nil.prems w by (auto intro: nth_equalityI)
  then show ?case using Nil.prems w by simp
next
  case (Cons word words)
  have w: "w < length ws" "ws ! w = word" "words = drop (w + 1) ws"
    using Cons.prems(1) by (metis drop_eq_Nil linorder_not_le list.distinct(1), metis nth_via_drop,
        metis Suc_eq_plus1 drop_Suc list.sel(3) tl_drop)
  have q: "w div 8 < length sbs" using div_ceil_gt [OF w(1)] Cons.prems(4) by simp
  define sbs' where "sbs' = (if w mod 8 = 0 then sbs[w div 8 := tot] else sbs)"
  have small: "ones ws n < 2 ^ 64" if "n \<le> 64 * length ws" for n
    using count_upto_le [of "words_bit ws" n] that Cons.prems(3) unfolding ones_def by linarith
  have sbs': "sbs' ! m = sb_rank_at ws m" if "8 * m < w + 1" for m
  proof (cases "8 * m = w")
    case True
    then have m: "w div 8 = m" "w mod 8 = 0" by auto
    have "512 * m = 64 * w" using True by simp
    then have "ones ws (512 * m) = ones ws (64 * w)" by (rule arg_cong)
    then show ?thesis using Cons.prems(8) q m unfolding sbs'_def sb_rank_at_def by simp
  next
    case False
    then have "8 * m < w" using that by simp
    moreover have "w div 8 \<noteq> m" if "w mod 8 = 0" using False that by auto
    ultimately show ?thesis using Cons.prems(6) unfolding sbs'_def by auto
  qed
  have "8 * (w div 8) < w + 1" using mult_div_mod_eq [of 8 w] by linarith
  then have base: "sbs' ! (w div 8) = of_nat (ones ws (512 * (w div 8)))"
    using sbs' by (simp add: sb_rank_at_def)
  have le: "ones ws (512 * (w div 8)) \<le> ones ws (64 * w)"
    unfolding ones_def by (rule count_upto_mono) (use mult_div_mod_eq [of 8 w] in linarith)
  have rel: "unat (tot - sbs' ! (w div 8)) = ones ws (64 * w) - ones ws (512 * (w div 8))"
    unfolding base Cons.prems(8) using le w(1) by (intro of_nat_diff_64 small) simp_all
  then have "unat (tot - sbs' ! (w div 8)) < 2 ^ 16"
    using block_rank_small [of ws w] by simp
  moreover have "ucast (tot - sbs' ! (w div 8)) = block_rank_at ws w"
    unfolding block_rank_at_def rel [symmetric] by (simp only: of_nat_unat)
  moreover have "tot + of_nat (popcount word) = of_nat (ones ws (64 * (w + 1)))"
    using count_upto_word [OF w(1), of 64] w(2) Cons.prems(8)
    by (simp add: ones_def popcount_count add.commute)
  ultimately have step: "rs_build_loop (word # words) w sbs blks tot =
      rs_build_loop words (w + 1) sbs' (blks[w := block_rank_at ws w]) (of_nat (ones ws (64 * (w + 1))))"
    using q w(1) Cons.prems(5)
    by (cases "w mod 8 = 0") (simp_all add: WORDS_PER_SUPERBLOCK_def SUPERBLOCK_BITS_def sbs'_def)
  show ?case unfolding step
  proof (rule Cons.IH [OF w(3)])
    show "\<forall>i. i < w + 1 \<longrightarrow> blks[w := block_rank_at ws w] ! i = block_rank_at ws i"
      using Cons.prems(5,7) w(1) by (auto simp: nth_list_update less_Suc_eq)
  qed (use Cons.prems w sbs' in \<open>simp_all add: sbs'_def\<close>)
qed

definition rs_valid :: "rank_select \<Rightarrow> bool" where
  "rs_valid r \<longleftrightarrow> 64 * length (rs_words r) < 2 ^ 64 \<and> length (rs_words r) = div_ceil (rs_len r) 64 \<and>
     (\<forall>p. rs_len r \<le> p \<longrightarrow> \<not> words_bit (rs_words r) p) \<and>
     rs_total_ones r = ones (rs_words r) (rs_len r) \<and>
     rs_superblock_rank r = map (sb_rank_at (rs_words r)) [0..<div_ceil (length (rs_words r)) 8] \<and>
     rs_block_rank r = map (block_rank_at (rs_words r)) [0..<length (rs_words r)]"

lemma rs_valid_fits: "rs_valid r \<Longrightarrow> rs_len r \<le> 64 * length (rs_words r)"
  using le_div_ceil_mult [of 64 "rs_len r"] by (simp add: rs_valid_def mult.commute)

interpretation owned: rank_directory rs_dir rs_valid rs_words rs_len
  by unfold_locales
    (simp_all add: rs_valid_fits, simp_all add: rs_valid_def rs_dir_def sb_rank_at_def ucast_block_rank)

section \<open>The builder's invariant and abstract value\<close>

definition bv_inv :: "bit_vec \<Rightarrow> bool" where
  "bv_inv v \<longleftrightarrow> length (bv_words v) = div_ceil (bv_len v) 64 \<and>
     (\<forall>p. bv_len v \<le> p \<longrightarrow> \<not> words_bit (bv_words v) p)"

definition bv_bits :: "bit_vec \<Rightarrow> bool list" where
  "bv_bits v = map (words_bit (bv_words v)) [0..<bv_len v]"

lemma bv_new_correct: "bv_inv bv_new" "bv_bits bv_new = []"
  by (simp_all add: bv_inv_def bv_new_def bv_bits_def words_bit_def div_ceil_def)

lemma div_ceil_64_Suc: "div_ceil (n + 1) 64 = n div 64 + 1"
proof -
  have "n = 64 * (n div 64) + n mod 64" "n mod 64 < 64" by simp_all
  then have "div_ceil (n + 1) 64 \<le> n div 64 + 1" "\<not> div_ceil (n + 1) 64 \<le> n div 64"
    by (simp_all add: div_ceil_le_iff)
  then show ?thesis by simp
qed

lemma bv_push_correct:
  assumes inv: "bv_inv v"
  obtains v' where "bv_push v b = Some v'" "bv_inv v'" "bv_bits v' = bv_bits v @ [b]"
proof -
  define n where "n = bv_len v"
  define ws where "ws = (if length (bv_words v) \<le> n div 64 then bv_words v @ [0] else bv_words v)"
  define ws' where "ws' = (if b then ws[n div 64 := ws ! (n div 64) OR push_bit (n mod 64) 1] else ws)"
  define v' where "v' = \<lparr>bv_words = ws', bv_len = n + 1\<rparr>"
  have lw: "length (bv_words v) = n div 64 + (if n mod 64 > 0 then 1 else 0)"
    using inv by (simp add: bv_inv_def n_def div_ceil_def)
  then have len: "length ws = n div 64 + 1" by (simp add: ws_def)
  have ws: "words_bit ws p = words_bit (bv_words v) p" for p
    using words_bit_append_zeros [of "bv_words v" 1] by (simp add: ws_def)
  have one: "bit (push_bit k (1 :: u64)) j \<longleftrightarrow> j = k \<and> j < 64" for j k
    by (auto simp: bit_simps)
  have "p div 64 = n div 64 \<and> p mod 64 = n mod 64 \<longleftrightarrow> p = n" for p
    by (metis div_mult_mod_eq)
  then have bits: "words_bit ws' p \<longleftrightarrow> words_bit (bv_words v) p \<or> b \<and> p = n" for p
    using len by (auto simp: ws'_def words_bit_update_or ws one simp del: push_bit_of_1)
  have push: "bv_push v b = Some v'"
    using len by (simp add: bv_push_def n_def [symmetric] ws_def [symmetric] ws'_def v'_def Let_def)
  have out: "\<not> words_bit (bv_words v) p" if "n \<le> p" for p using inv that by (simp add: bv_inv_def n_def)
  have "bv_inv v'"
    using out len div_ceil_64_Suc [of n] by (simp add: bv_inv_def v'_def bits) (simp add: ws'_def)
  moreover have "bv_bits v' = bv_bits v @ [b]"
    using out by (simp add: bv_bits_def v'_def bits n_def [symmetric])
  ultimately show ?thesis using that [OF push] by simp
qed

lemma bv_set_len_correct:
  assumes inv: "bv_inv v"
  obtains v' where "bv_set_len v n = Some v'" "bv_inv v'"
    "bv_bits v' = vec_resize (bv_bits v) n False"
proof -
  define ws where "ws = vec_resize (bv_words v) (div_ceil n 64) 0"
  define ws' where "ws' = (if n mod 64 \<noteq> 0 then ws[n div 64 := ws ! (n div 64) AND (push_bit (n mod 64) 1 - 1)] else ws)"
  define v' where "v' = \<lparr>bv_words = ws', bv_len = n\<rparr>"
  have len: "length ws = div_ceil n 64" by (simp add: ws_def vec_resize_def)
  have room: "n div 64 < length ws" if "n mod 64 \<noteq> 0" using that by (simp add: len div_ceil_def)
  have set: "bv_set_len v n = Some v'"
    using room by (simp add: bv_set_len_def Let_def ws_def [symmetric] ws'_def v'_def del: push_bit_of_1)
  have n: "n = 64 * (n div 64) + n mod 64" by simp
  have le: "n \<le> 64 * div_ceil n 64" using le_div_ceil_mult [of 64 n] by (simp add: mult.commute)
  have ws: "words_bit ws p \<longleftrightarrow> p div 64 < div_ceil n 64 \<and> words_bit (bv_words v) p" for p
    by (auto simp: ws_def vec_resize_def words_bit_def nth_append)
  have bits: "words_bit ws' p \<longleftrightarrow> p < n \<and> words_bit (bv_words v) p" for p
  proof (cases "n mod 64 = 0")
    case True
    then have "div_ceil n 64 = n div 64" by (simp add: div_ceil_def)
    then have "p div 64 < div_ceil n 64 \<longleftrightarrow> p < n"
      using True by (metis div_less_iff_less_mult mult.commute n add.right_neutral zero_less_numeral)
    then show ?thesis using True ws by (simp add: ws'_def)
  next
    case False
    then have dc: "div_ceil n 64 = n div 64 + 1" by (simp add: div_ceil_def)
    have mask: "push_bit (n mod 64) 1 - 1 = (mask (n mod 64) :: u64)" by (simp only: mask_eq_exp_minus_1 push_bit_of_1)
    have p: "p = 64 * (p div 64) + p mod 64" by simp
    show ?thesis
    proof (cases "p div 64 = n div 64")
      case True
      then have "p < n \<longleftrightarrow> p mod 64 < n mod 64" using p n by linarith
      then show ?thesis using False room True dc ws [of p]
        by (auto simp: ws'_def words_bit_update mask bit_simps simp del: push_bit_of_1)
          (auto simp: words_bit_def)
    next
      case neq: False
      have "p div 64 < n div 64 + 1 \<longleftrightarrow> p < n"
        using p n neq mod_less_divisor [of 64 p] mod_less_divisor [of 64 n] by linarith
      then show ?thesis using False room neq dc ws by (simp add: ws'_def words_bit_update del: push_bit_of_1)
    qed
  qed
  have "bv_inv v'" using len by (simp add: bv_inv_def v'_def bits) (simp add: ws'_def)
  moreover have "bv_bits v' = vec_resize (bv_bits v) n False"
    using inv by (intro nth_equalityI) (auto simp: bv_bits_def v'_def bits vec_resize_def bv_inv_def nth_append)
  ultimately show ?thesis using that [OF set] by simp
qed

lemma bv_freeze_correct:
  assumes inv: "bv_inv v" and bound: "64 * length (bv_words v) < 2 ^ 64"
  obtains r where "bv_freeze v = Some r" "rs_valid r" "rs_words r = bv_words v" "rs_len r = bv_len v"
proof -
  let ?ws = "bv_words v"
  define r where "r = \<lparr>rs_len = bv_len v, rs_total_ones = ones ?ws (64 * length ?ws), rs_words = ?ws,
      rs_superblock_rank = map (sb_rank_at ?ws) [0..<div_ceil (length ?ws) 8],
      rs_block_rank = map (block_rank_at ?ws) [0..<length ?ws]\<rparr>"
  have small: "ones ?ws (64 * length ?ws) < 2 ^ 64"
    using count_upto_le [of "words_bit ?ws" "64 * length ?ws"] bound unfolding ones_def by linarith
  have loop: "rs_build_loop ?ws 0 (replicate (div_ceil (length ?ws) 8) 0) (replicate (length ?ws) 0) 0 =
    Some (rs_superblock_rank r, rs_block_rank r, of_nat (ones ?ws (64 * length ?ws)))"
    unfolding r_def rank_select.simps
    by (rule rs_build_loop_correct) (use bound in \<open>simp_all add: ones_def\<close>)
  then have eq: "bv_freeze v = Some r"
    using small by (simp add: bv_freeze_def rs_build_def WORDS_PER_SUPERBLOCK_def SUPERBLOCK_BITS_def
        unat_of_nat_64) (simp add: r_def)
  have "bv_len v \<le> 64 * length ?ws"
    using inv le_div_ceil_mult [of 64 "bv_len v"] by (simp add: bv_inv_def mult.commute)
  then have "ones ?ws (64 * length ?ws) = ones ?ws (bv_len v)"
    using count_upto_add [of "words_bit ?ws" "bv_len v" "64 * length ?ws - bv_len v"] inv
    by (simp add: ones_def bv_inv_def count_upto_none)
  then have "rs_valid r" using inv bound by (simp add: rs_valid_def r_def bv_inv_def)
  then show ?thesis using that [OF eq] by (simp add: r_def)
qed

section \<open>The borrowed reader\<close>

lemma length_concat_le_bytes_2: "length (concat (map (le_bytes 2) bs)) = 2 * length (bs :: u16 list)"
  by (induction bs) simp_all

lemma drop_concat_le_bytes_2:
  "drop (2 * k) (concat (map (le_bytes 2) (bs :: u16 list))) = concat (map (le_bytes 2) (drop k bs))"
proof (induction bs arbitrary: k)
  case (Cons b bs)
  then show ?case by (cases k) simp_all
qed simp

lemma read_u16_le_words:
  assumes "k < length bs"
  shows "read_u16_le (concat (map (le_bytes 2) bs)) k = Some (bs ! k)"
proof -
  have "drop (k * 2) (concat (map (le_bytes 2) bs)) =
      le_bytes 2 (bs ! k) @ concat (map (le_bytes 2) (drop (Suc k) bs))"
    using drop_concat_le_bytes_2 [of k bs] Cons_nth_drop_Suc [OF assms]
    by (metis concat.simps(2) list.simps(9) mult.commute)
  then show ?thesis using assms by (simp add: read_u16_le_def length_concat_le_bytes_2)
qed

text \<open>The owned structure a borrowed reader aliases, read entry by entry.\<close>

definition rsr_decode :: "rank_select_ref \<Rightarrow> rank_select" where
  "rsr_decode r = \<lparr>rs_len = rsr_len r, rs_total_ones = rsr_total_ones r,
     rs_words = map (the \<circ> read_u64_le (rsr_words_bytes r)) [0..<rsr_words_len r],
     rs_superblock_rank = map (the \<circ> read_u64_le (rsr_superblock_bytes r)) [0..<rsr_superblock_count r],
     rs_block_rank = map (the \<circ> read_u16_le (rsr_block_bytes r)) [0..<rsr_words_len r]\<rparr>"

definition rsr_valid :: "rank_select_ref \<Rightarrow> bool" where
  "rsr_valid r \<longleftrightarrow> rs_valid (rsr_decode r) \<and> length (rsr_words_bytes r) = 8 * rsr_words_len r \<and>
     length (rsr_superblock_bytes r) = 8 * rsr_superblock_count r \<and>
     length (rsr_block_bytes r) = 2 * rsr_words_len r"

abbreviation rsr_words :: "rank_select_ref \<Rightarrow> u64 list" where
  "rsr_words r \<equiv> rs_words (rsr_decode r)"

lemma rsr_reads:
  assumes "rsr_valid r"
  shows "i < rsr_words_len r \<Longrightarrow> read_u64_le (rsr_words_bytes r) i = Some (rsr_words r ! i)"
    "m < rsr_superblock_count r \<Longrightarrow>
      read_u64_le (rsr_superblock_bytes r) m = Some (rs_superblock_rank (rsr_decode r) ! m)"
    "i < rsr_words_len r \<Longrightarrow> read_u16_le (rsr_block_bytes r) i = Some (rs_block_rank (rsr_decode r) ! i)"
  using assms by (auto simp: rsr_valid_def rsr_decode_def read_u64_le_def bytes_read_u64_le_def read_u16_le_def)

lemma rsr_sizes:
  "rsr_valid r \<Longrightarrow> length (rsr_words r) = rsr_words_len r"
  "rsr_valid r \<Longrightarrow> rsr_superblock_count r = div_ceil (rsr_words_len r) 8"
proof -
  assume "rsr_valid r"
  then have "rs_valid (rsr_decode r)" by (simp add: rsr_valid_def)
  then have "length (rs_superblock_rank (rsr_decode r)) = div_ceil (length (rsr_words r)) 8"
    by (simp add: rs_valid_def)
  then show "length (rsr_words r) = rsr_words_len r" "rsr_superblock_count r = div_ceil (rsr_words_len r) 8"
    by (simp_all add: rsr_decode_def)
qed

lemma rsr_valid_owned: "rsr_valid r \<Longrightarrow> rs_valid (rsr_decode r)"
  by (simp add: rsr_valid_def)

lemma rsr_decode_sel [simp]: "rs_len (rsr_decode r) = rsr_len r" "rs_total_ones (rsr_decode r) = rsr_total_ones r"
  by (simp_all add: rsr_decode_def)

interpretation borrowed: rank_directory rsr_dir rsr_valid rsr_words rsr_len
proof
  fix r i p m
  assume v: "rsr_valid r"
  note o = rsr_valid_owned [OF v]
  show "rank_select_dir.dir_len (rsr_dir r) = rsr_len r"
    "dir_words_len (rsr_dir r) = length (rsr_words r)"
    "dir_superblock_count (rsr_dir r) = div_ceil (length (rsr_words r)) 8"
    using rsr_sizes [OF v] by (simp_all add: rsr_dir_def)
  show "dir_total_ones (rsr_dir r) = ones (rsr_words r) (rsr_len r)"
    using o by (simp add: rsr_dir_def rs_valid_def)
  show "64 * length (rsr_words r) < 2 ^ 64" "rsr_len r \<le> 64 * length (rsr_words r)"
    using owned.bound [OF o] owned.fits [OF o] by simp_all
  show "\<not> words_bit (rsr_words r) p" if "rsr_len r \<le> p"
    using owned.padding [OF o] that by simp
  show "rank_select_dir.dir_word (rsr_dir r) i = Some (rsr_words r ! i)" if "i < length (rsr_words r)"
    using rsr_reads(1) [OF v] rsr_sizes [OF v] that by (simp add: rsr_dir_def)
  show "dir_superblock_rank (rsr_dir r) m = Some (of_nat (ones (rsr_words r) (512 * m)))"
    if "m < div_ceil (length (rsr_words r)) 8"
    using rsr_reads(2) [OF v] rsr_sizes [OF v] owned.dir_sb_rank [OF o that] that
    by (simp add: rsr_dir_def rs_dir_def nth_opt_eq_Some)
  show "dir_block_rank (rsr_dir r) i =
      Some (of_nat (ones (rsr_words r) (64 * i) - ones (rsr_words r) (512 * (i div 8))))"
    if "i < length (rsr_words r)"
    using rsr_reads(3) [OF v] rsr_sizes [OF v] owned.dir_block [OF o that] that
    by (auto simp: rsr_dir_def rs_dir_def nth_opt_eq_Some)
qed

lemma map_read_words:
  "map (the \<circ> read_u64_le (concat (map (le_bytes 8) ws))) [0..<length ws] = ws"
  by (rule nth_equalityI) (simp_all add: read_u64_le_words)

lemma map_read_halves:
  "map (the \<circ> read_u16_le (concat (map (le_bytes 2) bs))) [0..<length bs] = bs"
  by (rule nth_equalityI) (simp_all add: read_u16_le_words)

lemma rsr_from_bytes_to_bytes:
  assumes v: "rs_valid r"
  obtains r' where "rsr_from_bytes (rs_to_bytes r @ rest) = Inr r'" "rsr_valid r'" "rsr_decode r' = r"
    "rsr_serialized_len r' = length (rs_to_bytes r)"
proof -
  define sbb where "sbb = concat (map (le_bytes 8) (rs_superblock_rank r))"
  define bb where "bb = concat (map (le_bytes 2) (rs_block_rank r))"
  define wb where "wb = concat (map (le_bytes 8) (rs_words r))"
  define n where "n = length (rs_words r)"
  have sizes: "length (rs_superblock_rank r) = div_ceil n 8" "length (rs_block_rank r) = n"
    "n = div_ceil (rs_len r) 64" "rs_total_ones r \<le> rs_len r" "rs_len r \<le> 64 * n" "64 * n < 2 ^ 64"
    using v rs_valid_fits [OF v] by (simp_all add: rs_valid_def n_def ones_def)
  have dc: "div_ceil n 8 \<le> n" by (simp add: div_ceil_le_iff)
  have lens: "length sbb = div_ceil n 8 * 8" "length bb = n * 2" "length wb = n * 8"
    using sizes by (simp_all add: sbb_def bb_def wb_def length_concat_le_bytes length_concat_le_bytes_2 n_def)
  define hdr :: "nat \<Rightarrow> u64 \<Rightarrow> bool" where
    "hdr p x \<longleftrightarrow> read_header_u64 (rs_to_bytes r @ rest) p = Inr (x, p + 8)" for p x
  have bs: "rs_to_bytes r @ rest = le_bytes 8 (of_nat (rs_len r) :: u64) @ le_bytes 8 (of_nat (rs_total_ones r) :: u64) @
     le_bytes 8 (of_nat n :: u64) @ le_bytes 8 (of_nat (div_ceil n 8) :: u64) @ sbb @ bb @ wb @ rest"
    by (simp add: rs_to_bytes_def sbb_def bb_def wb_def n_def [symmetric] sizes)
  have hdrs: "read_header_u64 (rs_to_bytes r @ rest) 0 = Inr (of_nat (rs_len r), 8)"
    "read_header_u64 (rs_to_bytes r @ rest) 8 = Inr (of_nat (rs_total_ones r), 16)"
    "read_header_u64 (rs_to_bytes r @ rest) 16 = Inr (of_nat n, 24)"
    "read_header_u64 (rs_to_bytes r @ rest) 24 = Inr (of_nat (div_ceil n 8), 32)"
    unfolding bs read_header_u64_def bytes_read_u64_le_def by simp_all
  have un: "unat (of_nat (rs_len r) :: u64) = rs_len r" "unat (of_nat (rs_total_ones r) :: u64) = rs_total_ones r"
    "unat (of_nat n :: u64) = n" "unat (of_nat (div_ceil n 8) :: u64) = div_ceil n 8"
    using sizes dc by (simp_all add: unat_of_nat_64)
  define r' where "r' = \<lparr>rsr_len = rs_len r, rsr_total_ones = rs_total_ones r, rsr_words_len = n,
      rsr_superblock_count = div_ceil n 8, rsr_superblock_bytes = sbb, rsr_block_bytes = bb,
      rsr_words_bytes = wb\<rparr>"
  define e where "e = 32 + div_ceil n 8 * 8"
  have sl: "slice_range 32 e (rs_to_bytes r @ rest) = sbb"
    "slice_range e (e + n * 2) (rs_to_bytes r @ rest) = bb"
    "slice_range (e + n * 2) (e + n * 2 + n * 8) (rs_to_bytes r @ rest) = wb"
    unfolding bs slice_range_def e_def using lens by simp_all
  have total: "length (rs_to_bytes r) = e + n * 2 + n * 8"
    using sizes by (simp add: rs_to_bytes_def length_concat_le_bytes length_concat_le_bytes_2 e_def n_def)
  have parse: "rsr_from_bytes (rs_to_bytes r @ rest) = Inr r'"
    using sizes(3,4) sl total unfolding rsr_from_bytes_def hdrs
    by (simp add: hdrs un WORDS_PER_SUPERBLOCK_def SUPERBLOCK_BITS_def Let_def e_def [symmetric] r'_def
        flip: sizes(3))
  have dec: "rsr_decode r' = r"
    using map_read_words [of "rs_words r"] map_read_words [of "rs_superblock_rank r"]
      map_read_halves [of "rs_block_rank r"] sizes(1,2)
    by (simp add: rsr_decode_def r'_def n_def [symmetric] sbb_def bb_def wb_def)
  moreover have "rsr_valid r'"
    using v lens by (simp add: rsr_valid_def dec) (simp add: r'_def)
  moreover have "rsr_serialized_len r' = length (rs_to_bytes r)"
    unfolding total using lens by (simp add: rsr_serialized_len_def r'_def e_def)
  ultimately show ?thesis using that [OF parse] by blast
qed

section \<open>Groups under the mark-last convention\<close>

lemma mark_last_range_correct:
  assumes v: "rsr_valid r"
  shows "if k < ones (rsr_words r) (rsr_len r)
    then \<exists>s e. mark_last_range r k = Some (Some (s, e)) \<and> s < e \<and> e \<le> rsr_len r \<and>
      ones (rsr_words r) s = k \<and> words_bit (rsr_words r) (e - 1) \<and> ones (rsr_words r) (e - 1) = k \<and>
      (s = 0 \<or> words_bit (rsr_words r) (s - 1))
    else mark_last_range r k = Some None"
proof (cases "k < ones (rsr_words r) (rsr_len r)")
  case True
  let ?P = "words_bit (rsr_words r)"
  obtain e where e: "select1 (rsr_dir r) k = Some (Some e)" "e < rsr_len r" "?P e" "ones (rsr_words r) e = k"
    using borrowed.select1_correct [OF v, of k] True by auto
  show ?thesis
  proof (cases k)
    case 0
    then show ?thesis using e True by (auto simp: mark_last_range_def ones_def)
  next
    case (Suc j)
    obtain s where s: "select1 (rsr_dir r) j = Some (Some s)" "s < rsr_len r" "?P s" "ones (rsr_words r) s = j"
      using borrowed.select1_correct [OF v, of j] True Suc by auto
    have "s < e" using count_upto_less_iff [of ?P s e] s(4) e(4) Suc by (simp add: ones_def)
    then show ?thesis using e s True Suc by (auto simp: mark_last_range_def ones_def)
  qed
next
  case False
  then have none: "select1 (rsr_dir r) k = Some None" using borrowed.select1_correct [OF v, of k] by simp
  have "k = 0 \<or> (\<exists>x. select1 (rsr_dir r) (k - 1) = Some x)"
    using borrowed.select1_correct [OF v, of "k - 1"] by (auto split: if_splits)
  then show ?thesis using False none by (auto simp: mark_last_range_def split: option.splits)
qed

section \<open>Properties\<close>

text \<open>C5: \<open>BitVec\<close> is a list of booleans: \<open>new\<close> is empty, \<open>push\<close> appends, \<open>set_len\<close>
  truncates or extends with zeros, none of them panics, and each keeps the invariant that
  the backing words are a clean zero-padded prefix.\<close>

theorem bit_vec_is_a_list:
  assumes "bv_inv v"
  shows "bv_inv bv_new \<and> bv_bits bv_new = [] \<and>
    (\<exists>v'. bv_push v b = Some v' \<and> bv_inv v' \<and> bv_bits v' = bv_bits v @ [b]) \<and>
    (\<exists>v'. bv_set_len v n = Some v' \<and> bv_inv v' \<and> bv_bits v' = vec_resize (bv_bits v) n False)"
  using bv_new_correct bv_push_correct [OF assms, of b] bv_set_len_correct [OF assms, of n] by metis

theorem bit_vec_is_a_list_witness:
  "\<exists>v'. bv_push bv_new True = Some v' \<and> bv_bits v' = bv_bits bv_new @ [True]"
  using bit_vec_is_a_list [OF bv_new_correct(1), of True 3] by blast

text \<open>Freezing a bit vector builds a directory under which \<open>rank1\<close> and \<open>rank0\<close> count the
  set and unset bits below any index up to the length, and panic beyond it.\<close>

lemma frozen_rank:
  assumes "bv_inv v" "64 * length (bv_words v) < 2 ^ 64"
  shows "\<exists>r. bv_freeze v = Some r \<and>
    (\<forall>i. rank1 (rs_dir r) i = (if i \<le> bv_len v then Some (length (filter id (take i (bv_bits v)))) else None) \<and>
         rank0 (rs_dir r) i = (if i \<le> bv_len v then Some (length (filter Not (take i (bv_bits v)))) else None))"
proof -
  obtain r where r: "bv_freeze v = Some r" "rs_valid r" "rs_words r = bv_words v" "rs_len r = bv_len v"
    by (rule bv_freeze_correct [OF assms])
  have "take i (bv_bits v) = map (words_bit (bv_words v)) [0..<i]" if "i \<le> bv_len v" for i
    using that by (simp add: bv_bits_def take_map)
  then show ?thesis using owned.rank1_correct [OF r(2)] owned.rank0_correct [OF r(2)] r
    by (auto simp: ones_def count_upto_def filter_map comp_def intro!: exI [of _ r])
qed

text \<open>On a frozen bit vector \<open>select1 k\<close> is the position of the \<open>k\<close>-th set bit and
  \<open>select0 k\<close> that of the \<open>k\<close>-th unset bit, \<open>None\<close> exactly when there are not that many,
  and neither panics.\<close>

lemma filter_upt_at_rank:
  assumes "P p" "p < n" "count_upto P p = k"
  shows "filter P [0..<n] ! k = p" "k < length (filter P [0..<n])"
proof -
  have "filter P [0..<n] = filter P [0..<p] @ p # filter P [Suc p..<n]"
    using assms(1,2) upt_add_eq_append [of 0 p "n - p"] by (simp add: upt_conv_Cons)
  then show "filter P [0..<n] ! k = p" "k < length (filter P [0..<n])"
    using assms(3) by (simp_all add: count_upto_def nth_append)
qed

lemma frozen_select:
  assumes "bv_inv v" "64 * length (bv_words v) < 2 ^ 64"
  shows "\<exists>r. bv_freeze v = Some r \<and>
    (\<forall>k. select1 (rs_dir r) k = Some (nth_opt (filter (\<lambda>p. bv_bits v ! p) [0..<bv_len v]) k) \<and>
         select0 (rs_dir r) k = Some (nth_opt (filter (\<lambda>p. \<not> bv_bits v ! p) [0..<bv_len v]) k))"
proof -
  obtain r where r: "bv_freeze v = Some r" "rs_valid r" "rs_words r = bv_words v" "rs_len r = bv_len v"
    by (rule bv_freeze_correct [OF assms])
  let ?P = "words_bit (bv_words v)" and ?n = "bv_len v"
  have eqs: "filter (\<lambda>p. bv_bits v ! p) [0..<?n] = filter ?P [0..<?n]"
    "filter (\<lambda>p. \<not> bv_bits v ! p) [0..<?n] = filter (\<lambda>p. \<not> ?P p) [0..<?n]"
    by (auto simp: bv_bits_def intro: filter_cong)
  have "select1 (rs_dir r) k = Some (nth_opt (filter ?P [0..<?n]) k)" for k
    using owned.select1_correct [OF r(2), of k] filter_upt_at_rank [of ?P _ ?n k] r(3,4)
    by (auto simp: ones_def nth_opt_def count_upto_def split: if_splits)
  moreover have "select0 (rs_dir r) k = Some (nth_opt (filter (\<lambda>p. \<not> ?P p) [0..<?n]) k)" for k
    using owned.select0_correct [OF r(2), of k] filter_upt_at_rank [of "\<lambda>p. \<not> ?P p" _ ?n k] r(3,4)
      count_upto_not [of ?P] by (auto simp: ones_def nth_opt_def count_upto_def split: if_splits)
  ultimately show ?thesis using r(1) unfolding eqs by blast
qed

text \<open>C6: freezing a bit vector builds a directory under which \<open>rank1\<close> and \<open>rank0\<close> count the
  set and unset bits below any index up to the length and panic beyond it, \<open>select1 k\<close> is the
  position of the \<open>k\<close>-th set bit and \<open>select0 k\<close> that of the \<open>k\<close>-th unset bit, \<open>None\<close> exactly when
  there are not that many, and neither select panics.\<close>

theorem frozen_rank_select:
  assumes "bv_inv v" "64 * length (bv_words v) < 2 ^ 64"
  shows "\<exists>r. bv_freeze v = Some r \<and>
    (\<forall>i. rank1 (rs_dir r) i = (if i \<le> bv_len v then Some (length (filter id (take i (bv_bits v)))) else None) \<and>
         rank0 (rs_dir r) i = (if i \<le> bv_len v then Some (length (filter Not (take i (bv_bits v)))) else None)) \<and>
    (\<forall>k. select1 (rs_dir r) k = Some (nth_opt (filter (\<lambda>p. bv_bits v ! p) [0..<bv_len v]) k) \<and>
         select0 (rs_dir r) k = Some (nth_opt (filter (\<lambda>p. \<not> bv_bits v ! p) [0..<bv_len v]) k))"
proof -
  obtain r where r: "bv_freeze v = Some r" by (rule bv_freeze_correct [OF assms])
  show ?thesis using frozen_rank [OF assms] frozen_select [OF assms] unfolding r by simp
qed

theorem frozen_rank_select_witness: "\<exists>r. bv_freeze bv_new = Some r \<and> rank1 (rs_dir r) 0 = Some 0 \<and> select1 (rs_dir r) 0 = Some None"
  using frozen_rank_select [OF bv_new_correct(1)] by (auto simp: bv_new_def)

text \<open>C8: a frozen bitmap written by \<open>to_bytes\<close>, followed by any bytes, opens as a reader
  whose rank, select and group ranges are those of the owner, and which reports the
  encoding's own length as consumed.\<close>

lemma same_dir:
  assumes "rsr_valid r'" "rsr_decode r' = r" "rs_valid r"
  shows "rank1 (rsr_dir r') i = rank1 (rs_dir r) i" "select1 (rsr_dir r') k = select1 (rs_dir r) k"
    "select0 (rsr_dir r') k = select0 (rs_dir r) k"
proof -
  have w: "rsr_words r' = rs_words r" "rsr_len r' = rs_len r" using assms(2) by auto
  show "rank1 (rsr_dir r') i = rank1 (rs_dir r) i"
    using borrowed.rank1_correct [OF assms(1)] owned.rank1_correct [OF assms(3)] w by simp
  show "select1 (rsr_dir r') k = select1 (rs_dir r) k"
    using borrowed.select1_correct [OF assms(1), of k] owned.select1_correct [OF assms(3), of k] w
    by (auto simp: ones_def dest: count_upto_inj split: if_splits)
  show "select0 (rsr_dir r') k = select0 (rs_dir r) k"
    using borrowed.select0_correct [OF assms(1), of k] owned.select0_correct [OF assms(3), of k] w
      count_upto_inj [where P = "\<lambda>p. \<not> words_bit (rs_words r) p"] count_upto_not [of "words_bit (rs_words r)"]
    by (auto simp: ones_def split: if_splits)
qed

theorem frozen_bytes_round_trip:
  assumes "bv_inv v" "64 * length (bv_words v) < 2 ^ 64"
  shows "\<exists>r r'. bv_freeze v = Some r \<and> rsr_from_bytes (rs_to_bytes r @ rest) = Inr r' \<and>
    rsr_serialized_len r' = length (rs_to_bytes r) \<and> rsr_len r' = bv_len v \<and>
    (\<forall>i. rank1 (rsr_dir r') i = rank1 (rs_dir r) i) \<and> (\<forall>k. select1 (rsr_dir r') k = select1 (rs_dir r) k) \<and>
    (\<forall>k. select0 (rsr_dir r') k = select0 (rs_dir r) k)"
proof -
  obtain r where r: "bv_freeze v = Some r" "rs_valid r" "rs_words r = bv_words v" "rs_len r = bv_len v"
    by (rule bv_freeze_correct [OF assms])
  obtain r' where r': "rsr_from_bytes (rs_to_bytes r @ rest) = Inr r'" "rsr_valid r'" "rsr_decode r' = r"
    "rsr_serialized_len r' = length (rs_to_bytes r)" by (rule rsr_from_bytes_to_bytes [OF r(2)])
  have "rsr_len r' = bv_len v" using r' r by auto
  then show ?thesis using r r' same_dir [OF r'(2,3) r(2)] by blast
qed

theorem frozen_bytes_round_trip_witness:
  "\<exists>r r'. bv_freeze bv_new = Some r \<and> rsr_from_bytes (rs_to_bytes r @ [7]) = Inr r' \<and> rsr_len r' = 0"
  using frozen_bytes_round_trip [OF bv_new_correct(1), of "[7]"] by (auto simp: bv_new_def)

text \<open>\<open>RankSelectRef::from_bytes\<close> checks the header counts against each other and never
  against the words: a 50-byte buffer whose header claims one set bit over an all-zero word
  opens, and \<open>select1(0)\<close>, in range by the header's own count, panics.\<close>

definition hollow_bitmap :: bytes where
  "hollow_bitmap = le_bytes 8 (1 :: u64) @ le_bytes 8 (1 :: u64) @ le_bytes 8 (1 :: u64) @ le_bytes 8 (1 :: u64) @
     replicate 18 0"

theorem unvalidated_bitmap_panics:
  "\<exists>r. rsr_from_bytes hollow_bitmap = Inr r \<and> rsr_total_ones r = 1 \<and> select1 (rsr_dir r) 0 = None"
proof -
  have "(case rsr_from_bytes hollow_bitmap of Inr r \<Rightarrow> rsr_total_ones r = 1 \<and> select1 (rsr_dir r) 0 = None
      | Inl _ \<Rightarrow> False)"
    by code_simp
  then show ?thesis by (auto split: sum.splits)
qed

end
