(* ===== verification/Sequences.thy ===== *)
theory Sequences
  imports RankSelect Varint
begin

text \<open>
  What the triple index of the pack format relies on, as interfaces: a sequence of 64-bit
  values read by index (provided by the owned and the borrowed packed vectors), with the
  binary search of \<open>crates/rdf-core/src/ir/pack/triples.rs\<close> proved over it, and a section
  codec (bytes written in front of other bytes are parsed back and their length reported),
  provided by packed vectors and bitmaps. Results that can both fail and panic are
  \<open>(error + 'a) option\<close>.
\<close>

section \<open>Fallible computations that may panic\<close>

definition bind_res :: "('e + 'a) option \<Rightarrow> ('a \<Rightarrow> ('e + 'b) option) \<Rightarrow> ('e + 'b) option" where
  "bind_res m f = (case m of None \<Rightarrow> None | Some (Inl e) \<Rightarrow> Some (Inl e) | Some (Inr x) \<Rightarrow> f x)"

lemma bind_res_simps [simp]:
  "bind_res None f = None" "bind_res (Some (Inl e)) f = Some (Inl e)" "bind_res (Some (Inr x)) f = f x"
  by (simp_all add: bind_res_def)

definition ensure_res :: "bool \<Rightarrow> 'e \<Rightarrow> ('e + 'a) option \<Rightarrow> ('e + 'a) option" where
  "ensure_res c e k = (if c then k else Some (Inl e))"

lemma ensure_res_True [simp]: "c \<Longrightarrow> ensure_res c e k = k"
  by (simp add: ensure_res_def)

section \<open>Binary search\<close>

text \<open>The loop \<open>local_lookup\<close> and \<open>binary_search_range\<close> share: the outer option is a panic
  of \<open>get\<close>, the inner one the answer.\<close>

function bsearch_loop :: "(nat \<Rightarrow> u64 option) \<Rightarrow> u64 \<Rightarrow> nat \<Rightarrow> nat \<Rightarrow> nat option option" where
  "bsearch_loop get target lo hi =
     (if lo < hi then
        let mid = lo + (hi - lo) div 2
        in do {
          v \<leftarrow> get mid;
          if v < target then bsearch_loop get target (mid + 1) hi
          else if target < v then bsearch_loop get target lo mid
          else Some (Some mid)
        }
      else Some None)"
  by auto
termination by (relation "measure (\<lambda>(_, _, lo, hi). hi - lo)") auto

declare bsearch_loop.simps [simp del]

definition local_lookup :: "int_vector_ref \<Rightarrow> u64 \<Rightarrow> u64 option option" where
  "local_lookup m unified = map_option (map_option of_nat) (bsearch_loop (ivr_get m) unified 0 (ivr_len m))"

definition binary_search_range :: "int_vector_ref \<Rightarrow> nat \<Rightarrow> nat \<Rightarrow> u64 \<Rightarrow> nat option option" where
  "binary_search_range vec start stop target = bsearch_loop (ivr_get vec) target start stop"

section \<open>Sequences read by index\<close>

locale word_sequence =
  fixes seq_len :: "'r \<Rightarrow> nat" and seq_get :: "'r \<Rightarrow> nat \<Rightarrow> u64 option"
    and valid :: "'r \<Rightarrow> bool" and vals :: "'r \<Rightarrow> u64 list"
  assumes length_vals: "valid r \<Longrightarrow> length (vals r) = seq_len r"
    and get_vals: "valid r \<Longrightarrow> i < seq_len r \<Longrightarrow> seq_get r i = Some (vals r ! i)"
begin

lemma bsearch_found:
  assumes v: "valid r" and b: "hi \<le> seq_len r"
    and asc: "\<forall>i j. lo \<le> i \<and> i < j \<and> j < hi \<longrightarrow> vals r ! i < vals r ! j"
    and k: "lo \<le> k" "k < hi" "vals r ! k = t"
  shows "bsearch_loop (seq_get r) t lo hi = Some (Some k)"
  using b asc k
proof (induction "hi - lo" arbitrary: lo hi rule: less_induct)
  case less
  define mid where "mid = lo + (hi - lo) div 2"
  have mid: "lo \<le> mid" "mid < hi" using less.prems(3,4) by (auto simp: mid_def)
  have get: "seq_get r mid = Some (vals r ! mid)" using mid less.prems(1) by (intro get_vals [OF v]) simp
  have step: "bsearch_loop (seq_get r) t lo hi =
      (if vals r ! mid < t then bsearch_loop (seq_get r) t (mid + 1) hi
       else if t < vals r ! mid then bsearch_loop (seq_get r) t lo mid else Some (Some mid))"
    using less.prems(3,4) get by (subst bsearch_loop.simps) (simp add: mid_def [symmetric] Let_def)
  consider "mid < k" | "k < mid" | "mid = k" by linarith
  then show ?case
  proof cases
    case 1
    then have "vals r ! mid < t" using less.prems mid by blast
    then show ?thesis unfolding step using less.hyps [of hi "mid + 1"] less.prems 1 mid by simp
  next
    case 2
    then have "t < vals r ! mid" using less.prems mid by blast
    then have "\<not> vals r ! mid < t" "t < vals r ! mid" by simp_all
    then show ?thesis unfolding step using less.hyps [of mid lo] less.prems 2 mid by simp
  next
    case 3
    then show ?thesis unfolding step using less.prems by simp
  qed
qed

lemma bsearch_absent:
  assumes v: "valid r" and b: "hi \<le> seq_len r"
    and no: "\<forall>i. lo \<le> i \<and> i < hi \<longrightarrow> vals r ! i \<noteq> t"
  shows "bsearch_loop (seq_get r) t lo hi = Some None"
  using b no
proof (induction "hi - lo" arbitrary: lo hi rule: less_induct)
  case less
  define mid where "mid = lo + (hi - lo) div 2"
  show ?case
  proof (cases "lo < hi")
    case True
    then have mid: "lo \<le> mid" "mid < hi" by (auto simp: mid_def)
    have get: "seq_get r mid = Some (vals r ! mid)" using mid less.prems(1) by (intro get_vals [OF v]) simp
    have "vals r ! mid \<noteq> t" using mid less.prems(2) by blast
    then have step: "bsearch_loop (seq_get r) t lo hi =
      (if vals r ! mid < t then bsearch_loop (seq_get r) t (mid + 1) hi
       else bsearch_loop (seq_get r) t lo mid)"
      using True get by (subst bsearch_loop.simps) (auto simp: mid_def [symmetric] Let_def)
    show ?thesis unfolding step using less.hyps [of hi "mid + 1"] less.hyps [of mid lo] less.prems mid by auto
  qed (subst bsearch_loop.simps, simp)
qed

lemma bsearch_total:
  assumes v: "valid r" and b: "hi \<le> seq_len r"
  shows "\<exists>x. bsearch_loop (seq_get r) t lo hi = Some x"
  using b
proof (induction "hi - lo" arbitrary: lo hi rule: less_induct)
  case less
  define mid where "mid = lo + (hi - lo) div 2"
  show ?case
  proof (cases "lo < hi")
    case True
    then have mid: "lo \<le> mid" "mid < hi" by (auto simp: mid_def)
    have get: "seq_get r mid = Some (vals r ! mid)" using mid less.prems by (intro get_vals [OF v]) simp
    show ?thesis using less.hyps [of hi "mid + 1"] less.hyps [of mid lo] less.prems mid True get
      by (subst bsearch_loop.simps) (auto simp: mid_def [symmetric] Let_def)
  qed (subst bsearch_loop.simps, simp)
qed

end

interpretation owned_seq: word_sequence iv_len iv_get iv_inv iv_values
  by unfold_locales (simp_all add: iv_get_values)

interpretation borrowed_seq: word_sequence ivr_len ivr_get ivr_inv ivr_values
  by unfold_locales (simp_all add: ivr_get_values)

text \<open>The borrowed readers the index uses, by the list they stand for.\<close>

definition reads :: "int_vector_ref \<Rightarrow> u64 list \<Rightarrow> bool" where
  "reads r xs \<longleftrightarrow> ivr_inv r \<and> ivr_values r = xs"

lemma reads_len: "reads r xs \<Longrightarrow> ivr_len r = length xs"
  by (auto simp: reads_def)

lemma reads_get: "reads r xs \<Longrightarrow> i < length xs \<Longrightarrow> ivr_get r i = Some (xs ! i)"
  by (auto simp: reads_def ivr_get_values)

lemma binary_search_range_found:
  assumes "reads r xs" "e \<le> length xs" "\<forall>i j. s \<le> i \<and> i < j \<and> j < e \<longrightarrow> xs ! i < xs ! j"
    "s \<le> k" "k < e" "xs ! k = t"
  shows "binary_search_range r s e t = Some (Some k)"
  using borrowed_seq.bsearch_found [of r e s k t] assms by (auto simp: binary_search_range_def reads_def)

lemma binary_search_range_absent:
  assumes "reads r xs" "e \<le> length xs" "\<forall>i. s \<le> i \<and> i < e \<longrightarrow> xs ! i \<noteq> t"
  shows "binary_search_range r s e t = Some None"
  using borrowed_seq.bsearch_absent [of r e s t] assms by (auto simp: binary_search_range_def reads_def)

lemma local_lookup_range:
  "reads r xs \<Longrightarrow> local_lookup r u = map_option (map_option of_nat) (binary_search_range r 0 (length xs) u)"
  by (simp add: local_lookup_def binary_search_range_def reads_len)

lemma local_lookup_found:
  assumes "reads r xs" "sorted_wrt (<) xs" "k < length xs"
  shows "local_lookup r (xs ! k) = Some (Some (of_nat k))"
proof -
  have "binary_search_range r 0 (length xs) (xs ! k) = Some (Some k)"
    using assms(2,3) by (intro binary_search_range_found [OF assms(1)]) (simp_all add: sorted_wrt_iff_nth_less)
  then show ?thesis by (simp add: local_lookup_range [OF assms(1)])
qed

lemma local_lookup_absent:
  assumes "reads r xs" "u \<notin> set xs"
  shows "local_lookup r u = Some None"
proof -
  have "binary_search_range r 0 (length xs) u = Some None"
    using assms(2) by (intro binary_search_range_absent [OF assms(1)]) auto
  then show ?thesis by (simp add: local_lookup_range [OF assms(1)])
qed

section \<open>Section codecs\<close>

locale section_codec =
  fixes ser :: "'a \<Rightarrow> bytes" and parse :: "bytes \<Rightarrow> pack_bits_error + 'r"
    and consumed :: "'r \<Rightarrow> nat" and good :: "'a \<Rightarrow> bool" and agrees :: "'a \<Rightarrow> 'r \<Rightarrow> bool"
  assumes parse_ser: "good a \<Longrightarrow> \<exists>r. parse (ser a @ rest) = Inr r \<and> consumed r = length (ser a) \<and> agrees a r"
begin

text \<open>Parsing at a cursor, as the index does section after section.\<close>

lemma parse_at:
  assumes "good a" "drop pos bs = ser a @ rest"
  shows "\<exists>r. parse (drop pos bs) = Inr r \<and> agrees a r \<and> drop (pos + consumed r) bs = rest \<and>
    consumed r = length (ser a)"
proof -
  obtain r where "parse (drop pos bs) = Inr r" "consumed r = length (ser a)" "agrees a r"
    using parse_ser [OF assms(1), of rest] assms(2) by auto
  moreover have "drop (pos + length (ser a)) bs = rest"
    using arg_cong [OF assms(2), of "drop (length (ser a))"] by (simp add: add.commute)
  ultimately show ?thesis by auto
qed

end

interpretation packed_section: section_codec iv_to_bytes ivr_from_bytes ivr_serialized_len
    "\<lambda>v. iv_inv v \<and> iv_len v < 2 ^ 64" "\<lambda>v r. reads r (iv_values v)"
proof
  fix v rest
  assume a: "iv_inv v \<and> iv_len v < 2 ^ 64"
  obtain r where "ivr_from_bytes (iv_to_bytes v @ rest) = Inr r" "ivr_inv r"
    "ivr_values r = iv_values v" "ivr_serialized_len r = length (iv_to_bytes v)"
    by (rule ivr_from_bytes_to_bytes [OF conjunct1 [OF a] conjunct2 [OF a]])
  then show "\<exists>r. ivr_from_bytes (iv_to_bytes v @ rest) = Inr r \<and> ivr_serialized_len r = length (iv_to_bytes v) \<and>
      reads r (iv_values v)" by (auto simp: reads_def)
qed

text \<open>A borrowed bitmap by the list of its bits.\<close>

definition marks :: "rank_select_ref \<Rightarrow> bool list \<Rightarrow> bool" where
  "marks r bs \<longleftrightarrow> rsr_valid r \<and> map (words_bit (rsr_words r)) [0..<rsr_len r] = bs"

definition rs_bits :: "rank_select \<Rightarrow> bool list" where
  "rs_bits r = map (words_bit (rs_words r)) [0..<rs_len r]"

interpretation bitmap_section: section_codec rs_to_bytes rsr_from_bytes rsr_serialized_len
    rs_valid "\<lambda>r r'. marks r' (rs_bits r)"
proof
  fix r rest
  assume "rs_valid r"
  then obtain r' where r': "rsr_from_bytes (rs_to_bytes r @ rest) = Inr r'" "rsr_valid r'" "rsr_decode r' = r"
    "rsr_serialized_len r' = length (rs_to_bytes r)" by (rule rsr_from_bytes_to_bytes)
  moreover have "rsr_len r' = rs_len r" "rsr_words r' = rs_words r" using r'(3) by auto
  ultimately show "\<exists>r'. rsr_from_bytes (rs_to_bytes r @ rest) = Inr r' \<and> rsr_serialized_len r' = length (rs_to_bytes r) \<and>
      marks r' (rs_bits r)" by (auto simp: marks_def rs_bits_def)
qed

end
