(* ===== verification/DictTerm.thy ===== *)
theory DictTerm
  imports Words "HOL-Library.List_Lexorder" "HOL-Library.Product_Lexorder" "HOL-Library.Option_ord"
begin

text \<open>
  RDF term values and their canonical total order (\<open>crates/rdf-core/src/ir/term.rs\<close>,
  \<open>ir/term_walk.rs\<close>): \<open>TermValue::cmp\<close> compares two terms over a work list of pairs. A
  string is its bytes, on which \<open>str::cmp\<close> is the lexicographic order. The order is shown to be
  the lexicographic order of the terms' preorder key sequences, hence linear.
\<close>

section \<open>Terms\<close>

datatype text_direction = Ltr | Rtl

instantiation text_direction :: linorder
begin

definition less_eq_text_direction :: "text_direction \<Rightarrow> text_direction \<Rightarrow> bool" where
  "less_eq_text_direction a b \<longleftrightarrow> a = Ltr \<or> b = Rtl"

definition less_text_direction :: "text_direction \<Rightarrow> text_direction \<Rightarrow> bool" where
  "less_text_direction a b \<longleftrightarrow> a = Ltr \<and> b = Rtl"

instance
proof
  fix a b c :: text_direction
  show "(a < b) = (a \<le> b \<and> \<not> b \<le> a)" "a \<le> a" "a \<le> b \<Longrightarrow> b \<le> c \<Longrightarrow> a \<le> c" "a \<le> b \<Longrightarrow> b \<le> a \<Longrightarrow> a = b" "a \<le> b \<or> b \<le> a"
    by (cases a; cases b; cases c; simp add: less_eq_text_direction_def less_text_direction_def)+
qed

end

datatype term_value =
    Iri bytes
  | Blank bytes u32
  | Literal bytes bytes "bytes option" "text_direction option"
  | Triple term_value term_value term_value

text \<open>A string of an arena, by offset and length.\<close>

type_synonym str_range = "nat \<times> nat"

definition arena_str :: "bytes \<Rightarrow> str_range \<Rightarrow> bytes" where
  "arena_str arena r = slice_range (fst r) (fst r + snd r) arena"

definition RDF_REIFIES :: bytes where
  "RDF_REIFIES = map (\<lambda>c. of_nat (of_char c)) ''http://www.w3.org/1999/02/22-rdf-syntax-ns#reifies''"

fun canonical_tag :: "term_value \<Rightarrow> u8" where
  "canonical_tag (Iri _) = 0"
| "canonical_tag (Literal _ _ _ _) = 1"
| "canonical_tag (Blank _ _) = 2"
| "canonical_tag (Triple _ _ _) = 3"

section \<open>The comparison\<close>

datatype ordering = Less | Equal | Greater

definition cmp :: "'a::linorder \<Rightarrow> 'a \<Rightarrow> ordering" where
  "cmp a b = (if a < b then Less else if a = b then Equal else Greater)"

fun then_with :: "ordering \<Rightarrow> ordering \<Rightarrow> ordering" where
  "then_with Equal o' = o'"
| "then_with o' _ = o'"

fun compare_language :: "bytes option \<Rightarrow> bytes option \<Rightarrow> ordering" where
  "compare_language None None = Equal"
| "compare_language None (Some _) = Less"
| "compare_language (Some _) None = Greater"
| "compare_language (Some a) (Some b) = cmp a b"

fun same_kind :: "term_value \<Rightarrow> term_value \<Rightarrow> ordering" where
  "same_kind (Iri a) (Iri b) = cmp a b"
| "same_kind (Literal la da ga dira) (Literal lb db gb dirb) =
     (if cmp da db \<noteq> Equal then cmp da db
      else if compare_language ga gb \<noteq> Equal then compare_language ga gb
      else if cmp la lb \<noteq> Equal then cmp la lb
      else cmp dira dirb)"
| "same_kind (Blank la sa) (Blank lb sb) = (if cmp la lb \<noteq> Equal then cmp la lb else cmp sa sb)"
| "same_kind _ _ = Equal"

definition compare_shallow :: "term_value \<Rightarrow> term_value \<Rightarrow> ordering" where
  "compare_shallow a b =
     (let tag = cmp (canonical_tag a) (canonical_tag b) in if tag \<noteq> Equal then tag else same_kind a b)"

fun push_components :: "term_value \<Rightarrow> term_value \<Rightarrow> (term_value \<times> term_value) list \<Rightarrow> (term_value \<times> term_value) list" where
  "push_components (Triple sa pa oa) (Triple sb pb ob) pending = (sa, sb) # (pa, pb) # (oa, ob) # pending"
| "push_components _ _ pending = pending"

function compare_pairs :: "(term_value \<times> term_value) list \<Rightarrow> ordering" where
  "compare_pairs [] = Equal"
| "compare_pairs ((a, b) # pending) =
     (if compare_shallow a b \<noteq> Equal then compare_shallow a b else compare_pairs (push_components a b pending))"
  by pat_completeness auto
termination
proof (relation "measure (\<lambda>pending. sum_list (map (\<lambda>(a, b). 3 * size a + 1) pending))")
  fix a b pending
  show "(push_components a b pending, (a, b) # pending) \<in> measure (\<lambda>pending. sum_list (map (\<lambda>(a, b). 3 * size a + 1) pending))"
    by (cases "(a, b, pending)" rule: push_components.cases) auto
qed simp

fun is_triple :: "term_value \<Rightarrow> bool" where
  "is_triple (Triple _ _ _) = True"
| "is_triple _ = False"

definition term_cmp :: "term_value \<Rightarrow> term_value \<Rightarrow> ordering" where
  "term_cmp a b = (if \<not> is_triple a \<or> \<not> is_triple b then compare_shallow a b else compare_pairs [(a, b)])"

section \<open>The order of key sequences\<close>

type_synonym term_key = "nat \<times> bytes \<times> bytes option \<times> bytes \<times> text_direction option \<times> u32"

fun shallow_key :: "term_value \<Rightarrow> term_key" where
  "shallow_key (Iri s) = (0, s, None, [], None, 0)"
| "shallow_key (Literal l d g r) = (1, d, g, l, r, 0)"
| "shallow_key (Blank l s) = (2, l, None, [], None, s)"
| "shallow_key (Triple _ _ _) = (3, [], None, [], None, 0)"

fun preorder_keys :: "term_value \<Rightarrow> term_key list" where
  "preorder_keys (Triple s p ob) = shallow_key (Triple s p ob) # preorder_keys s @ preorder_keys p @ preorder_keys ob"
| "preorder_keys t = [shallow_key t]"

lemma cmp_simps [simp]: "cmp a a = Equal" "cmp a b = Equal \<longleftrightarrow> a = b" "cmp a b = Less \<longleftrightarrow> a < b" "cmp a b = Greater \<longleftrightarrow> b < a"
  by (auto simp: cmp_def)

lemma cmp_nat [simp]: "(a :: nat) < b \<Longrightarrow> cmp a b = Less" "(b :: nat) < a \<Longrightarrow> cmp a b = Greater"
  by simp_all

lemma then_with_Equal [simp]: "then_with x Equal = x"
  by (cases x) auto

lemma then_with_if: "(if x \<noteq> Equal then x else y) = then_with x y"
  by (cases x) auto

lemma then_with_assoc: "then_with (then_with x y) z = then_with x (then_with y z)"
  by (cases x) auto

lemma cmp_pair: "cmp (a, b) (c, d) = then_with (cmp a c) (cmp b d)"
  by (auto simp: cmp_def)

lemma cmp_Cons: "cmp (x # xs) (y # ys) = then_with (cmp x y) (cmp xs ys)"
  by (auto simp: cmp_def)

lemma cmp_language: "compare_language a b = cmp a b"
  by (cases "(a, b)" rule: compare_language.cases) (auto simp: cmp_def)

lemma compare_shallow_key: "compare_shallow a b = cmp (shallow_key a) (shallow_key b)"
  by (cases a; cases b) (auto simp: compare_shallow_def cmp_pair then_with_if cmp_language cmp_def)

lemma preorder_cmp: "cmp (preorder_keys a @ xs) (preorder_keys b @ ys) = then_with (cmp (preorder_keys a) (preorder_keys b)) (cmp xs ys)"
proof (induction a arbitrary: b xs ys)
  case (Triple s p ob)
  note ih = Triple
  show ?case
  proof (cases b)
    case (Triple s' p' ob')
    show ?thesis
      using ih(1) [of "preorder_keys p @ preorder_keys ob @ xs" s' "preorder_keys p' @ preorder_keys ob' @ ys"]
        ih(2) [of "preorder_keys ob @ xs" p' "preorder_keys ob' @ ys"] ih(3) [of xs ob' ys]
        ih(1) [of "preorder_keys p @ preorder_keys ob" s' "preorder_keys p' @ preorder_keys ob'"] ih(2) [of "preorder_keys ob" p' "preorder_keys ob'"]
      by (simp add: Triple cmp_Cons then_with_assoc)
  qed (simp_all add: cmp_Cons cmp_pair)
qed (case_tac [!] b, simp_all add: cmp_Cons cmp_pair then_with_assoc)

lemma preorder_triple:
  "cmp (preorder_keys (Triple s p ob)) (preorder_keys (Triple s' p' ob')) =
   then_with (cmp (preorder_keys s) (preorder_keys s')) (then_with (cmp (preorder_keys p) (preorder_keys p')) (cmp (preorder_keys ob) (preorder_keys ob')))"
  by (simp add: cmp_Cons preorder_cmp)

lemma preorder_shallow: "\<not> is_triple a \<or> \<not> is_triple b \<Longrightarrow> compare_shallow a b = cmp (preorder_keys a) (preorder_keys b)"
  unfolding compare_shallow_key by (cases a; cases b) (simp_all add: cmp_Cons cmp_pair)

definition pairs_cmp :: "(term_value \<times> term_value) list \<Rightarrow> ordering" where
  "pairs_cmp pending = foldr (\<lambda>(a, b). then_with (cmp (preorder_keys a) (preorder_keys b))) pending Equal"

lemma compare_pairs_keys: "compare_pairs pending = pairs_cmp pending"
proof (induction pending rule: compare_pairs.induct)
  case (2 a b pending)
  show ?case
  proof (cases "is_triple a \<and> is_triple b")
    case True
    then obtain s p ob s' p' ob' where t: "a = Triple s p ob" "b = Triple s' p' ob'" by (cases a; cases b) auto
    have "compare_shallow a b = Equal" by (simp add: compare_shallow_key t)
    then show ?thesis using 2 by (simp add: t pairs_cmp_def preorder_triple then_with_assoc del: preorder_keys.simps)
  next
    case False
    then have "push_components a b pending = pending" by (cases a; cases b) auto
    then show ?thesis using 2 preorder_shallow [of a b] False
      by (cases "compare_shallow a b") (simp_all add: pairs_cmp_def)
  qed
qed (simp add: pairs_cmp_def)

lemma term_cmp_keys: "term_cmp a b = cmp (preorder_keys a) (preorder_keys b)"
  by (auto simp: term_cmp_def preorder_shallow compare_pairs_keys pairs_cmp_def simp del: compare_pairs.simps)

lemma preorder_inj: "preorder_keys a @ xs = preorder_keys b @ ys \<Longrightarrow> a = b \<and> xs = ys"
proof (induction a arbitrary: b xs ys)
  case (Triple s p ob)
  show ?case
  proof (cases b)
    case (Triple s' p' ob')
    then have e: "preorder_keys s @ preorder_keys p @ preorder_keys ob @ xs = preorder_keys s' @ preorder_keys p' @ preorder_keys ob' @ ys"
      using Triple.prems by simp
    from Triple.IH(1) [OF this] Triple.IH(2) Triple.IH(3) show ?thesis using Triple by blast
  qed (use Triple.prems in auto)
qed (case_tac [!] b, auto)

instantiation term_value :: linorder
begin

definition less_eq_term_value :: "term_value \<Rightarrow> term_value \<Rightarrow> bool" where
  "less_eq_term_value a b \<longleftrightarrow> term_cmp a b \<noteq> Greater"

definition less_term_value :: "term_value \<Rightarrow> term_value \<Rightarrow> bool" where
  "less_term_value a b \<longleftrightarrow> term_cmp a b = Less"

instance
proof
  fix a b c :: term_value
  note defs = less_eq_term_value_def less_term_value_def term_cmp_keys
  show "(a < b) = (a \<le> b \<and> \<not> b \<le> a)" "a \<le> a" "a \<le> b \<Longrightarrow> b \<le> c \<Longrightarrow> a \<le> c" "a \<le> b \<or> b \<le> a"
    by (auto simp: defs)
  show "a \<le> b \<Longrightarrow> b \<le> a \<Longrightarrow> a = b" using preorder_inj [of a "[]" b "[]"] by (auto simp: defs)
qed

end

lemma preorder_eq_iff [simp]: "preorder_keys a = preorder_keys b \<longleftrightarrow> a = b"
  using preorder_inj [of a "[]" b "[]"] by auto

lemma term_cmp_cmp: "term_cmp a b = cmp a b"
  by (simp add: cmp_def less_term_value_def term_cmp_keys)

lemma term_less_keys: "a < b \<longleftrightarrow> preorder_keys a < preorder_keys b"
  by (simp add: less_term_value_def term_cmp_keys)

lemma less_triple: "Triple s p ob < Triple s' p' ob' \<longleftrightarrow> (s, p, ob) < (s', p', ob')"
proof -
  have "cmp (Triple s p ob) (Triple s' p' ob') = cmp (s, p, ob) (s', p', ob')"
    by (simp add: preorder_triple term_cmp_keys cmp_pair flip: term_cmp_cmp del: preorder_keys.simps)
  then show ?thesis by (metis cmp_simps(3))
qed

lemma less_shallow: "\<not> is_triple a \<or> \<not> is_triple b \<Longrightarrow> a < b \<longleftrightarrow> shallow_key a < shallow_key b"
  using preorder_shallow [of a b] unfolding compare_shallow_key by (metis cmp_simps(3) term_less_keys)

end
