(* ===== verification/DictPrefix.thy ===== *)
theory DictPrefix
  imports Words
begin

text \<open>
  The first-mismatch index \<open>common_prefix_len\<close> (\<open>crates/deflate/src/kernels.rs\<close>), which
  the front coding of the dictionary uses: sixteen-byte words, one overlapping last word, and the
  short forms. It is the length of the longest common prefix.
\<close>

section \<open>The routine\<close>

definition trailing_zeros :: "'a::len word \<Rightarrow> nat" where
  "trailing_zeros w = length (takeWhile (\<lambda>i. \<not> bit w i) [0..<LENGTH('a)])"

definition word_diff128 :: "bytes \<Rightarrow> bytes \<Rightarrow> u128" where
  "word_diff128 a b = of_le_bytes (take 16 a) XOR of_le_bytes (take 16 b)"

definition word_diff64 :: "bytes \<Rightarrow> bytes \<Rightarrow> u64" where
  "word_diff64 a b = of_le_bytes (take 8 a) XOR of_le_bytes (take 8 b)"

function chunk_mismatch :: "nat \<Rightarrow> bytes \<Rightarrow> bytes \<Rightarrow> nat option" where
  "chunk_mismatch k a b =
     (if 16 \<le> length a \<and> 16 \<le> length b then
        (let diff = word_diff128 a b in
         if diff \<noteq> 0 then Some (k * 16 + trailing_zeros diff div 8) else chunk_mismatch (k + 1) (drop 16 a) (drop 16 b))
      else None)"
  by auto
termination by (relation "measure (\<lambda>(_, a, _). length a)") auto

declare chunk_mismatch.simps [simp del]

definition short_mismatch :: "bytes \<Rightarrow> bytes \<Rightarrow> nat" where
  "short_mismatch a b = length (takeWhile (\<lambda>(x, y). x = y) (zip a b))"

definition common_prefix_len :: "bytes \<Rightarrow> bytes \<Rightarrow> nat" where
  "common_prefix_len a b =
     (let len = min (length a) (length b); a = take len a; b = take len b in
      case chunk_mismatch 0 a b of
        Some n \<Rightarrow> n
      | None \<Rightarrow>
          if len div 16 * 16 = len then len
          else if 16 \<le> len then
            (let last = len - 16; diff = word_diff128 (drop last a) (drop last b) in
             if diff = 0 then len else last + trailing_zeros diff div 8)
          else if 8 \<le> len then
            (let diff = word_diff64 a b; last = len - 8; diff' = word_diff64 (drop last a) (drop last b) in
             if diff \<noteq> 0 then trailing_zeros diff div 8
             else if diff' \<noteq> 0 then last + trailing_zeros diff' div 8
             else len)
          else short_mismatch a b)"

section \<open>One word\<close>

lemma trailing_zeros_bit:
  assumes "(w :: 'a::len word) \<noteq> 0"
  shows "bit w (trailing_zeros w)" "i < trailing_zeros w \<Longrightarrow> \<not> bit w i"
proof -
  obtain n where n: "bit w n" using assms by (metis bit_eqI bit_0_eq bot_apply bot_bool_def)
  then have "n < LENGTH('a)" by (rule bit_imp_le_length)
  then have "takeWhile (\<lambda>i. \<not> bit w i) [0..<LENGTH('a)] \<noteq> [0..<LENGTH('a)]" using n by (auto simp: takeWhile_eq_all_conv)
  then have l: "trailing_zeros w < LENGTH('a)" unfolding trailing_zeros_def
    using length_takeWhile_le [of "\<lambda>i. \<not> bit w i" "[0..<LENGTH('a)]"] takeWhile_eq_take [of "\<lambda>i. \<not> bit w i" "[0..<LENGTH('a)]"]
    by (metis le_neq_implies_less length_upt minus_nat.diff_0 take_all order_refl)
  then show "bit w (trailing_zeros w)" unfolding trailing_zeros_def
    using nth_length_takeWhile [of "\<lambda>i. \<not> bit w i" "[0..<LENGTH('a)]"] by simp
  show "i < trailing_zeros w \<Longrightarrow> \<not> bit w i"
    using l nth_mem [of i "takeWhile (\<lambda>i. \<not> bit w i) [0..<LENGTH('a)]"] takeWhile_nth [of i "\<lambda>i. \<not> bit w i" "[0..<LENGTH('a)]"]
    by (auto simp: trailing_zeros_def dest: set_takeWhileD)
qed

lemma mismatch_unique:
  assumes "n < length a" "n < length b" "a ! n \<noteq> b ! n" "\<And>i. i < n \<Longrightarrow> a ! i = b ! i"
  shows "short_mismatch a b = n"
proof -
  have "takeWhile (\<lambda>(x, y). x = y) (zip a b) = take n (zip a b)"
    using assms by (intro takeWhile_eq_take_P_nth) auto
  then show ?thesis using assms by (simp add: short_mismatch_def)
qed

lemma mismatch_none:
  assumes "take n a = take n b" "n = min (length a) (length b)"
  shows "short_mismatch a b = n"
proof -
  have "a ! i = b ! i" if "i < n" for i using arg_cong [OF assms(1), of "\<lambda>xs. xs ! i"] that by simp
  then have "takeWhile (\<lambda>(x, y). x = y) (zip a b) = take n (zip a b)"
    using assms(2) by (intro takeWhile_eq_take_P_nth) auto
  then have "length (takeWhile (\<lambda>(x, y). x = y) (zip a b)) = n" using assms(2) by (simp only: length_take length_zip)
  then show ?thesis by (simp add: short_mismatch_def)
qed

lemma mismatch_skip:
  assumes "take n a = take n b" "n \<le> length a" "n \<le> length b"
  shows "short_mismatch a b = n + short_mismatch (drop n a) (drop n b)"
proof -
  have "zip a b = zip (take n a) (take n b) @ zip (drop n a) (drop n b)"
    using assms(2,3) zip_append [of "take n a" "take n b" "drop n a" "drop n b"] by (simp only: append_take_drop_id) simp
  moreover have "\<forall>x\<in>set (zip (take n a) (take n b)). case x of (x, y) \<Rightarrow> x = y" unfolding assms(1) by (auto simp: zip_same)
  ultimately show ?thesis using assms(2,3) by (simp add: short_mismatch_def takeWhile_append)
qed

lemma word_mismatch:
  fixes w :: "'a::len word"
  assumes w: "w = of_le_bytes (take n a) XOR of_le_bytes (take n b)" and n: "8 * n \<le> LENGTH('a)" "n \<le> length a" "n \<le> length b"
  shows "w = 0 \<longleftrightarrow> take n a = take n b" "w \<noteq> 0 \<Longrightarrow> short_mismatch a b = trailing_zeros w div 8"
proof -
  have b: "bit w i \<longleftrightarrow> bit (a ! (i div 8)) (i mod 8) \<noteq> bit (b ! (i div 8)) (i mod 8)" if "i < 8 * n" for i
    using that n unfolding w by (simp add: bit_xor_iff bit_of_le_bytes less_mult_imp_div_less mult.commute)
  have out: "\<not> bit w i" if "8 * n \<le> i" for i
    using that n unfolding w by (auto simp: bit_xor_iff bit_of_le_bytes)
  have byte: "a ! k = b ! k" if "k < n" "\<And>i. i < 8 \<Longrightarrow> \<not> bit w (8 * k + i)" for k
  proof (rule bit_eqI)
    fix i assume "possible_bit TYPE(8 word) i"
    then have i: "i < 8" by simp
    have d: "8 * k + i < 8 * n" "(8 * k + i) div 8 = k" "(8 * k + i) mod 8 = i" using that(1) i by auto
    show "bit (a ! k) i = bit (b ! k) i" using that(2) [OF i] b [OF d(1)] unfolding d(2,3) by simp
  qed
  show "w = 0 \<longleftrightarrow> take n a = take n b"
  proof
    assume "w = 0"
    then show "take n a = take n b" using byte n by (intro nth_equalityI) auto
  qed (simp add: w)
  assume nz: "w \<noteq> 0"
  let ?t = "trailing_zeros w"
  note t = trailing_zeros_bit [OF nz]
  have tn: "?t < 8 * n" using t(1) out by (meson not_less)
  show "short_mismatch a b = ?t div 8"
  proof (rule mismatch_unique)
    show "?t div 8 < length a" "?t div 8 < length b" using tn n by auto
    show "a ! (?t div 8) \<noteq> b ! (?t div 8)" using b [OF tn] t(1) by auto
    fix k assume k: "k < ?t div 8"
    have "8 * k + i < ?t" if "i < 8" for i using k that by auto
    then show "a ! k = b ! k" using k tn t(2) by (intro byte) auto
  qed
qed

lemma word_diffs:
  "16 \<le> length a \<Longrightarrow> 16 \<le> length b \<Longrightarrow> word_diff128 a b = 0 \<longleftrightarrow> take 16 a = take 16 b"
  "16 \<le> length a \<Longrightarrow> 16 \<le> length b \<Longrightarrow> word_diff128 a b \<noteq> 0 \<Longrightarrow> trailing_zeros (word_diff128 a b) div 8 = short_mismatch a b"
  "8 \<le> length a \<Longrightarrow> 8 \<le> length b \<Longrightarrow> word_diff64 a b = 0 \<longleftrightarrow> take 8 a = take 8 b"
  "8 \<le> length a \<Longrightarrow> 8 \<le> length b \<Longrightarrow> word_diff64 a b \<noteq> 0 \<Longrightarrow> trailing_zeros (word_diff64 a b) div 8 = short_mismatch a b"
  using word_mismatch [OF word_diff128_def [of a b]] word_mismatch [OF word_diff64_def [of a b]] by simp_all

section \<open>The whole\<close>

lemma chunk_mismatch_spec:
  assumes "length a = length b"
  shows "chunk_mismatch k a b = (if take (length a div 16 * 16) a = take (length a div 16 * 16) b then None else Some (k * 16 + short_mismatch a b))"
  using assms
proof (induction k a b rule: chunk_mismatch.induct)
  case (1 k a b)
  show ?case
  proof (cases "16 \<le> length a")
    case False
    then show ?thesis using 1(2) by (simp add: chunk_mismatch.simps [of k a b])
  next
    case True
    let ?m = "length a div 16 * 16"
    have m: "?m = 16 + length (drop 16 a) div 16 * 16" using True by (simp add: le_div_geq)
    have t: "take ?m a = take ?m b \<longleftrightarrow> take 16 a = take 16 b \<and> take (?m - 16) (drop 16 a) = take (?m - 16) (drop 16 b)"
      unfolding m by (simp add: take_add 1(2))
    show ?thesis
    proof (cases "word_diff128 a b = 0")
      case z: True
      then have e: "take 16 a = take 16 b" using word_diffs(1) True 1(2) by simp
      then show ?thesis using 1(1) [OF _ refl _ ] True z 1(2) t m mismatch_skip [OF e]
        by (simp add: chunk_mismatch.simps [of k a b])
    next
      case nz: False
      then show ?thesis using True 1(2) t word_diffs(1,2) [of a b]
        by (simp add: chunk_mismatch.simps [of k a b] Let_def)
    qed
  qed
qed

lemma take_overlap:
  assumes "take m xs = take m ys" "k \<le> m"
  shows "take k xs = take k ys"
  using arg_cong [OF assms(1), of "take k"] assms(2) by (simp add: min_def)

theorem common_prefix_len_eq: "common_prefix_len a b = short_mismatch a b"
proof -
  define n where "n = min (length a) (length b)"
  define a' b' where "a' = take n a" and "b' = take n b"
  have l: "length a' = n" "length b' = n" by (simp_all add: a'_def b'_def n_def)
  have z: "zip a b = zip a' b'" unfolding a'_def b'_def n_def by (simp add: take_zip [symmetric])
  then have s: "short_mismatch a b = short_mismatch a' b'" by (simp add: short_mismatch_def)
  have tail: "last + short_mismatch (drop last a') (drop last b') = short_mismatch a' b'"
    if "take m a' = take m b'" "last \<le> m" "m \<le> n" for last m
    using mismatch_skip [OF take_overlap [OF that(1,2)]] l that by simp
  have full: "short_mismatch a' b' = n" if "take n a' = take n b'" using mismatch_none [OF that] l by simp
  have join: "take n a' = take n b'" if "take m a' = take m b'" "last \<le> m" "last \<le> n" "take (n - last) (drop last a') = take (n - last) (drop last b')" for m last
    using take_overlap [OF that(1,2)] that(3,4) take_add [of last "n - last" a'] take_add [of last "n - last" b'] by simp
  let ?m = "n div 16 * 16"
  have c: "chunk_mismatch 0 a' b' = (if take ?m a' = take ?m b' then None else Some (short_mismatch a' b'))"
    using chunk_mismatch_spec [of a' b' 0] l by simp
  have o16: "n - 16 \<le> ?m" using div_mult_mod_eq [of n 16] mod_less_divisor [of 16 n] by linarith
  have w16: "(if word_diff128 (drop (n - 16) a') (drop (n - 16) b') = 0 then n else n - 16 + trailing_zeros (word_diff128 (drop (n - 16) a') (drop (n - 16) b')) div 8) = short_mismatch a' b'"
    if m: "take ?m a' = take ?m b'" and n: "16 \<le> n"
  proof (cases "word_diff128 (drop (n - 16) a') (drop (n - 16) b') = 0")
    case True
    then have "take (n - (n - 16)) (drop (n - 16) a') = take (n - (n - 16)) (drop (n - 16) b')"
      using word_diffs(1) [of "drop (n - 16) a'" "drop (n - 16) b'"] l n by simp
    from full [OF join [OF m o16 _ this]] show ?thesis using True by simp
  next
    case False
    then show ?thesis using word_diffs(2) [OF _ _ False] tail [OF m o16] l n by simp
  qed
  have w8: "(if word_diff64 a' b' \<noteq> 0 then trailing_zeros (word_diff64 a' b') div 8
      else if word_diff64 (drop (n - 8) a') (drop (n - 8) b') \<noteq> 0 then n - 8 + trailing_zeros (word_diff64 (drop (n - 8) a') (drop (n - 8) b')) div 8
      else n) = short_mismatch a' b'" if n: "8 \<le> n" "n < 16"
  proof (cases "word_diff64 a' b' = 0")
    case True
    then have e: "take 8 a' = take 8 b'" using word_diffs(3) [of a' b'] l n by simp
    have o8: "n - 8 \<le> 8" using n by simp
    show ?thesis
    proof (cases "word_diff64 (drop (n - 8) a') (drop (n - 8) b') = 0")
      case z: True
      then have "take (n - (n - 8)) (drop (n - 8) a') = take (n - (n - 8)) (drop (n - 8) b')"
        using word_diffs(3) [of "drop (n - 8) a'" "drop (n - 8) b'"] l n by simp
      from full [OF join [OF e o8 _ this]] show ?thesis using True z by simp
    next
      case nz: False
      then show ?thesis using True word_diffs(4) [OF _ _ nz] tail [OF e o8] l n by simp
    qed
  next
    case False
    then show ?thesis using word_diffs(4) [OF _ _ False] l n by simp
  qed
  have even: "short_mismatch a' b' = n" if "take ?m a' = take ?m b'" "?m = n" using full that by (simp only:)
  have unf: "common_prefix_len a b = (case chunk_mismatch 0 a' b' of Some k \<Rightarrow> k | None \<Rightarrow> if ?m = n then n
      else if 16 \<le> n then (if word_diff128 (drop (n - 16) a') (drop (n - 16) b') = 0 then n
        else n - 16 + trailing_zeros (word_diff128 (drop (n - 16) a') (drop (n - 16) b')) div 8)
      else if 8 \<le> n then (if word_diff64 a' b' \<noteq> 0 then trailing_zeros (word_diff64 a' b') div 8
        else if word_diff64 (drop (n - 8) a') (drop (n - 8) b') \<noteq> 0 then n - 8 + trailing_zeros (word_diff64 (drop (n - 8) a') (drop (n - 8) b')) div 8
        else n)
      else short_mismatch a' b')"
    by (simp only: common_prefix_len_def Let_def n_def [symmetric] a'_def [symmetric] b'_def [symmetric])
  have "common_prefix_len a b = short_mismatch a' b'"
  proof (cases "take ?m a' = take ?m b'")
    case True
    consider "?m = n" | "?m \<noteq> n" "16 \<le> n" | "?m \<noteq> n" "8 \<le> n" "n < 16" | "?m \<noteq> n" "n < 8" by linarith
    then show ?thesis using True
      by cases (simp_all only: unf c option.case if_True if_False simp_thms not_le even w16 w8 if_not_P)
  qed (simp add: unf c)
  then show ?thesis using s by simp
qed

end
