(* ===== verification/DictCodec.thy ===== *)
theory DictCodec
  imports Varint Sequences DictTerm DictPrefix
begin

text \<open>
  The dictionary section of the pack (\<open>crates/rdf-core/src/ir/pack/dict.rs\<close>): the record codec,
  the front-coded value list, the arena and its entries. A string is its bytes; a sum is a
  \<open>Result\<close>, an outer option a panic. The checks of IRIs, language tags and literal
  components belong to other crates and are the record \<open>term_checks\<close>.
\<close>

section \<open>Errors, records, entries\<close>

datatype ('l, 'i) dict_error =
    DictTruncated nat nat
  | DictMalformed string
  | LiteralComponents 'l
  | RelativeIri bytes 'i

fun dict_of_bits_error :: "pack_bits_error \<Rightarrow> ('l, 'i) dict_error" where
  "dict_of_bits_error (Truncated needed found) = DictTruncated needed found"
| "dict_of_bits_error (Malformed reason) = DictMalformed reason"

record ('l, 'i) term_checks =
  check_absolute :: "bytes \<Rightarrow> 'i option"
  validate_components :: "bytes \<Rightarrow> bytes option \<Rightarrow> text_direction option \<Rightarrow> 'l option"
  is_identity_folded :: "bytes \<Rightarrow> bool"

definition BUCKET_SIZE :: nat where "BUCKET_SIZE = 8"

datatype raw_record =
    RIri bytes
  | RBlank bytes u32
  | RLiteral bytes u64 "bytes option" u8
  | RTriple u64 u64 u64

datatype dict_entry =
    EIri str_range
  | EBlank str_range u32
  | ELiteral str_range u64 "str_range option" "text_direction option"
  | ETriple u64 u64 u64

record dictionary =
  pk_arena :: bytes
  pk_entries :: "dict_entry list"

section \<open>Encoding\<close>

definition push_text :: "bytes \<Rightarrow> bytes \<Rightarrow> bytes" where
  "push_text out s = write_varint out (of_nat (length s)) @ s"

definition direction_byte :: "text_direction option \<Rightarrow> u8" where
  "direction_byte direction = (case direction of None \<Rightarrow> 0 | Some Ltr \<Rightarrow> 1 | Some Rtl \<Rightarrow> 2)"

type_synonym value_ids = "term_value \<Rightarrow> u64 option"

fun encode_record :: "term_value \<Rightarrow> value_ids \<Rightarrow> bytes option" where
  "encode_record (Iri s) value_to_id = Some (push_text [0] s)"
| "encode_record (Blank label scope) value_to_id = Some (write_varint (push_text [1] label) (ucast scope))"
| "encode_record (Literal lexical_form datatype_iri language direction) value_to_id = do {
     datatype_id \<leftarrow> value_to_id (Iri datatype_iri);
     let out = write_varint (push_text [2] lexical_form) datatype_id;
     let out = (case language of Some lang \<Rightarrow> push_text (out @ [1]) lang | None \<Rightarrow> out @ [0]);
     Some (out @ [direction_byte direction]) }"
| "encode_record (Triple s p ob) value_to_id = do {
     sid \<leftarrow> value_to_id s;
     pid \<leftarrow> value_to_id p;
     oid \<leftarrow> value_to_id ob;
     Some (write_varint (write_varint (write_varint [3] sid) pid) oid) }"

fun encode_loop :: "value_ids \<Rightarrow> nat \<Rightarrow> bytes \<Rightarrow> bytes \<Rightarrow> u64 list \<Rightarrow> term_value list \<Rightarrow> (bytes \<times> u64 list) option" where
  "encode_loop ids i prev bucket_data offsets [] = Some (bucket_data, offsets)"
| "encode_loop ids i prev bucket_data offsets (v # vs) = do {
     record \<leftarrow> encode_record v ids;
     if i mod BUCKET_SIZE = 0
     then encode_loop ids (i + 1) record (bucket_data @ record) (offsets @ [of_nat (length bucket_data)]) vs
     else
       (let shared_len = common_prefix_len prev record; suffix = drop shared_len record in
        encode_loop ids (i + 1) record
          (write_varint (write_varint bucket_data (of_nat shared_len)) (of_nat (length suffix)) @ suffix) offsets vs) }"

definition encode_values :: "term_value list \<Rightarrow> value_ids \<Rightarrow> bytes option" where
  "encode_values vs ids = do {
     (bucket_data, offsets) \<leftarrow> encode_loop ids 0 [] [] [] vs;
     offset_vec \<leftarrow> iv_with_width (bits_for (if offsets = [] then 0 else Max (set offsets)));
     offset_vec \<leftarrow> iv_push_all offset_vec offsets;
     Some (le_bytes 8 (of_nat (length vs) :: u64) @ le_bytes 8 (of_nat (div_ceil (length vs) BUCKET_SIZE) :: u64) @
       iv_to_bytes offset_vec @ bucket_data) }"

section \<open>Decoding a record\<close>

definition bind_err :: "'e + 'a \<Rightarrow> ('a \<Rightarrow> 'e + 'b) \<Rightarrow> 'e + 'b" where
  "bind_err m f = (case m of Inl e \<Rightarrow> Inl e | Inr x \<Rightarrow> f x)"

lemma bind_err_simps [simp]: "bind_err (Inl e) f = Inl e" "bind_err (Inr x) f = f x"
  by (simp_all add: bind_err_def)

lemma bind_err_eq_Inr [simp]: "bind_err m f = Inr y \<longleftrightarrow> (\<exists>x. m = Inr x \<and> f x = Inr y)"
  by (cases m) auto

definition take_varint :: "bytes \<Rightarrow> nat \<Rightarrow> ('l, 'i) dict_error + u64 \<times> nat" where
  "take_varint bytes pos = (case read_varint bytes pos of
     (Inl e, _) \<Rightarrow> Inl (dict_of_bits_error e) | (Inr v, pos) \<Rightarrow> Inr (v, pos))"

text \<open>The sum of position and length wraps in the release build.\<close>

definition read_len_prefixed_str :: "bytes \<Rightarrow> nat \<Rightarrow> ('l, 'i) dict_error + bytes \<times> nat" where
  "read_len_prefixed_str bytes pos = bind_err (take_varint bytes pos) (\<lambda>(len, pos).
     let end_pos = (pos + unat len) mod 2 ^ 64 in
     if pos \<le> end_pos \<and> end_pos \<le> length bytes then
       (if utf8_valid (slice_range pos end_pos bytes) then Inr (slice_range pos end_pos bytes, end_pos)
        else Inl (DictMalformed ''dict: string is not valid utf-8''))
     else Inl (DictTruncated end_pos (length bytes)))"

definition take_byte :: "bytes \<Rightarrow> nat \<Rightarrow> ('l, 'i) dict_error + u8 \<times> nat" where
  "take_byte bytes pos =
     (if pos < length bytes then Inr (bytes ! pos, pos + 1) else Inl (DictTruncated (pos + 1) (length bytes)))"

definition decode_literal :: "bytes \<Rightarrow> nat \<Rightarrow> ('l, 'i) dict_error + raw_record \<times> nat" where
  "decode_literal bytes pos =
     bind_err (read_len_prefixed_str bytes pos) (\<lambda>(lexical, pos).
     bind_err (take_varint bytes pos) (\<lambda>(datatype_id, pos).
     bind_err (take_byte bytes pos) (\<lambda>(has_language, pos).
     bind_err (if has_language = 0 then Inr (None, pos)
       else if has_language = 1 then bind_err (read_len_prefixed_str bytes pos) (\<lambda>(l, pos). Inr (Some l, pos))
       else Inl (DictMalformed ''dict: bad literal language flag'')) (\<lambda>(language, pos).
     bind_err (take_byte bytes pos) (\<lambda>(direction, pos).
     if direction \<in> {0, 1, 2} then Inr (RLiteral lexical datatype_id language direction, pos)
     else Inl (DictMalformed ''dict: bad literal direction byte''))))))"

definition decode_record :: "bytes \<Rightarrow> ('l, 'i) dict_error + raw_record \<times> nat" where
  "decode_record bytes =
     (if bytes = [] then Inl (DictTruncated 1 0)
      else let tag = hd bytes; pos = 1 in
        if tag = 0 then bind_err (read_len_prefixed_str bytes pos) (\<lambda>(s, pos). Inr (RIri s, pos))
        else if tag = 1 then
          bind_err (read_len_prefixed_str bytes pos) (\<lambda>(label, pos).
          bind_err (take_varint bytes pos) (\<lambda>(scope, pos).
          if unat scope < 2 ^ 32 then Inr (RBlank label (ucast scope), pos)
          else Inl (DictMalformed ''dict: blank scope exceeds u32'')))
        else if tag = 2 then decode_literal bytes pos
        else if tag = 3 then
          bind_err (take_varint bytes pos) (\<lambda>(s, pos).
          bind_err (take_varint bytes pos) (\<lambda>(p, pos).
          bind_err (take_varint bytes pos) (\<lambda>(ob, pos). Inr (RTriple s p ob, pos))))
        else Inl (DictMalformed ''dict: unknown term tag''))"

section \<open>Filling the dictionary\<close>

definition push_str :: "dictionary \<Rightarrow> bytes \<Rightarrow> ('l, 'i) dict_error + str_range \<times> dictionary" where
  "push_str dict s =
     (let offset = length (pk_arena dict); len = length s in
      if offset \<ge> 2 ^ 32 then Inl (DictMalformed ''dict: term arena exceeds u32::MAX bytes'')
      else if len \<ge> 2 ^ 32 then Inl (DictMalformed ''dict: term string exceeds u32::MAX bytes'')
      else if offset + len \<ge> 2 ^ 32 then Inl (DictMalformed ''dict: term arena exceeds u32::MAX bytes'')
      else Inr ((offset, len), dict\<lparr>pk_arena := pk_arena dict @ s\<rparr>))"

definition direction_of :: "u8 \<Rightarrow> text_direction option" where
  "direction_of b = (if b = 1 then Some Ltr else if b = 2 then Some Rtl else None)"

fun push_language :: "dictionary \<Rightarrow> bytes option \<Rightarrow> ('l, 'i) dict_error + str_range option \<times> dictionary" where
  "push_language dict (Some l) = bind_err (push_str dict l) (\<lambda>(r, dict). Inr (Some r, dict))"
| "push_language dict None = Inr (None, dict)"

fun entry_of :: "('l, 'i) term_checks \<Rightarrow> dictionary \<Rightarrow> raw_record \<Rightarrow> ('l, 'i) dict_error + dict_entry \<times> dictionary" where
  "entry_of checks dict (RIri s) = (case check_absolute checks s of
     Some reason \<Rightarrow> Inl (RelativeIri s reason)
   | None \<Rightarrow> bind_err (push_str dict s) (\<lambda>(r, dict). Inr (EIri r, dict)))"
| "entry_of checks dict (RBlank label scope) = bind_err (push_str dict label) (\<lambda>(r, dict). Inr (EBlank r scope, dict))"
| "entry_of checks dict (RLiteral lexical datatype_id language direction) =
     bind_err (push_str dict lexical) (\<lambda>(lex, dict).
     bind_err (push_language dict language) (\<lambda>(lang, dict).
     Inr (ELiteral lex datatype_id lang (direction_of direction), dict)))"
| "entry_of checks dict (RTriple s p ob) = Inr (ETriple s p ob, dict)"

definition push_entry :: "('l, 'i) term_checks \<Rightarrow> dictionary \<Rightarrow> raw_record \<Rightarrow> ('l, 'i) dict_error + dictionary" where
  "push_entry checks dict raw = bind_err (entry_of checks dict raw) (\<lambda>(e, dict). Inr (dict\<lparr>pk_entries := pk_entries dict @ [e]\<rparr>))"

fun front_items :: "('l, 'i) term_checks \<Rightarrow> bytes \<Rightarrow> nat \<Rightarrow> nat \<Rightarrow> bytes \<Rightarrow> dictionary \<Rightarrow> ('l, 'i) dict_error + dictionary" where
  "front_items checks bucket_data 0 cursor prev dict = Inr dict"
| "front_items checks bucket_data (Suc items) cursor prev dict =
     bind_err (take_varint bucket_data cursor) (\<lambda>(shared_len, p).
     bind_err (take_varint bucket_data p) (\<lambda>(suffix_len, p).
     let suffix_end = (p + unat suffix_len) mod 2 ^ 64 in
     if \<not> (p \<le> suffix_end \<and> suffix_end \<le> length bucket_data) then Inl (DictTruncated suffix_end (length bucket_data))
     else if length prev < unat shared_len then
       Inl (DictMalformed ''dict: front-coded shared-prefix length exceeds previous record'')
     else let record = take (unat shared_len) prev @ slice_range p suffix_end bucket_data in
       bind_err (decode_record record) (\<lambda>(raw, consumed).
       if consumed \<noteq> length record then Inl (DictMalformed ''dict: front-coded record has trailing garbage'')
       else bind_err (push_entry checks dict raw) (\<lambda>dict. front_items checks bucket_data items suffix_end record dict))))"

fun decode_bucket :: "('l, 'i) term_checks \<Rightarrow> bytes \<Rightarrow> nat \<Rightarrow> nat \<Rightarrow> dictionary \<Rightarrow> ('l, 'i) dict_error + dictionary" where
  "decode_bucket checks bucket_data 0 cursor dict = Inr dict"
| "decode_bucket checks bucket_data (Suc items) cursor dict =
     (if length bucket_data < cursor then Inl (DictMalformed ''dict: bucket offset out of range'')
      else let slice = drop cursor bucket_data in
        bind_err (decode_record slice) (\<lambda>(raw, consumed).
        bind_err (push_entry checks dict raw) (\<lambda>dict.
        front_items checks bucket_data items (cursor + consumed) (take consumed slice) dict)))"

fun bucket_loop :: "('l, 'i) term_checks \<Rightarrow> int_vector_ref \<Rightarrow> bytes \<Rightarrow> u64 \<Rightarrow> nat \<Rightarrow> nat \<Rightarrow> u64 \<Rightarrow> dictionary \<Rightarrow>
    (('l, 'i) dict_error + u64 \<times> dictionary) option" where
  "bucket_loop checks offsets bucket_data term_count bucket_idx 0 term_idx dict = Some (Inr (term_idx, dict))"
| "bucket_loop checks offsets bucket_data term_count bucket_idx (Suc n) term_idx dict = do {
     bucket_start \<leftarrow> ivr_get offsets bucket_idx;
     let items = min (unat (term_count - term_idx)) BUCKET_SIZE;
     bind_res (Some (decode_bucket checks bucket_data items (unat bucket_start) dict)) (\<lambda>dict.
       bucket_loop checks offsets bucket_data term_count (bucket_idx + 1) n (term_idx + of_nat items) dict) }"

definition decode_values :: "('l, 'i) term_checks \<Rightarrow> bytes \<Rightarrow> dictionary \<Rightarrow> (('l, 'i) dict_error + u64 \<times> dictionary) option" where
  "decode_values checks bytes dict =
     (case read_header_u64 bytes 0 of Inl e \<Rightarrow> Some (Inl (dict_of_bits_error e)) | Inr (term_count, pos) \<Rightarrow>
      case read_header_u64 bytes pos of Inl e \<Rightarrow> Some (Inl (dict_of_bits_error e)) | Inr (bucket_count, pos) \<Rightarrow>
      case ivr_from_bytes (drop pos bytes) of Inl e \<Rightarrow> Some (Inl (dict_of_bits_error e)) | Inr offsets \<Rightarrow>
      if of_nat (ivr_len offsets) \<noteq> bucket_count
      then Some (Inl (DictMalformed ''dict: bucket offset count disagrees with section header''))
      else if length bytes < pos + ivr_serialized_len offsets then None
      else bucket_loop checks offsets (drop (pos + ivr_serialized_len offsets) bytes) term_count 0 (unat bucket_count) 0 dict)"

end
