(* ===== verification/DictOpen.thy ===== *)
theory DictOpen
  imports DictCodec
begin

text \<open>
  Opening a dictionary (\<open>crates/rdf-core/src/ir/pack/dict.rs\<close>): the checks of the decoded
  entries (references, nesting of triple terms, canonical order), and the queries by id. The walks
  over nested triple terms are the code's work lists; \<open>term_value\<close> of an unchecked dictionary
  may not end, so it is a partial function, whose \<open>None\<close> is also a panic.
\<close>

section \<open>Entries\<close>

definition n_terms :: "dictionary \<Rightarrow> u64" where
  "n_terms dict = of_nat (length (pk_entries dict))"

definition entry :: "dictionary \<Rightarrow> u64 \<Rightarrow> dict_entry option" where
  "entry dict tid = (if tid = 0 then None else nth_opt (pk_entries dict) (unat (tid - 1)))"

fun is_triple_entry :: "dict_entry \<Rightarrow> bool" where
  "is_triple_entry (ETriple _ _ _) = True"
| "is_triple_entry _ = False"

definition has_triple_term :: "dictionary \<Rightarrow> bool" where
  "has_triple_term dict \<longleftrightarrow> list_ex is_triple_entry (pk_entries dict)"

datatype term_ref =
    RefIri bytes
  | RefBlank bytes u32
  | RefLiteral bytes u64 "bytes option" "text_direction option"
  | RefTriple u64 u64 u64

definition resolve :: "dictionary \<Rightarrow> u64 \<Rightarrow> term_ref option" where
  "resolve dict tid = (case entry dict tid of
     None \<Rightarrow> None
   | Some (EIri r) \<Rightarrow> Some (RefIri (arena_str (pk_arena dict) r))
   | Some (EBlank label scope) \<Rightarrow> Some (RefBlank (arena_str (pk_arena dict) label) scope)
   | Some (ELiteral lexical datatype_id language direction) \<Rightarrow>
       Some (RefLiteral (arena_str (pk_arena dict) lexical) datatype_id (map_option (arena_str (pk_arena dict)) language) direction)
   | Some (ETriple s p ob) \<Rightarrow> Some (RefTriple s p ob))"

section \<open>Values of ids\<close>

datatype nested = Leaf term_value | Nested u64 u64 u64

definition enter_node :: "dictionary \<Rightarrow> u64 \<Rightarrow> nested option" where
  "enter_node dict tid = (case entry dict tid of
     None \<Rightarrow> None
   | Some (EIri r) \<Rightarrow> Some (Leaf (Iri (arena_str (pk_arena dict) r)))
   | Some (EBlank label scope) \<Rightarrow> Some (Leaf (Blank (arena_str (pk_arena dict) label) scope))
   | Some (ELiteral lexical datatype_id language direction) \<Rightarrow> (case entry dict datatype_id of
         Some (EIri r) \<Rightarrow> Some (Leaf (Literal (arena_str (pk_arena dict) lexical) (arena_str (pk_arena dict) r)
           (map_option (arena_str (pk_arena dict)) language) direction))
       | _ \<Rightarrow> None)
   | Some (ETriple s p ob) \<Rightarrow> Some (Nested s p ob))"

datatype fold_step = FEnter u64 | FAssemble

fun assemble :: "term_value list \<Rightarrow> term_value list option" where
  "assemble (ob # p # s # answers) = Some (Triple s p ob # answers)"
| "assemble _ = None"

text \<open>The answers are a stack, its top first.\<close>

partial_function (option) fold_nested :: "dictionary \<Rightarrow> fold_step list \<Rightarrow> term_value list \<Rightarrow> term_value list option" where
  "fold_nested dict steps answers = (case steps of
     [] \<Rightarrow> Some answers
   | FEnter tid # steps \<Rightarrow> (case enter_node dict tid of
       None \<Rightarrow> None
     | Some (Leaf v) \<Rightarrow> fold_nested dict steps (v # answers)
     | Some (Nested s p ob) \<Rightarrow> fold_nested dict (FEnter s # FEnter p # FEnter ob # FAssemble # steps) answers)
   | FAssemble # steps \<Rightarrow> (case assemble answers of
       None \<Rightarrow> None
     | Some answers \<Rightarrow> fold_nested dict steps answers))"

definition term_value_at :: "dictionary \<Rightarrow> u64 \<Rightarrow> term_value option" where
  "term_value_at dict tid = (case fold_nested dict [FEnter tid] [] of
     Some (v # _) \<Rightarrow> Some v | _ \<Rightarrow> None)"

section \<open>The nesting of triple terms\<close>

definition MAX_TRIPLE_TERM_DEPTH :: nat where "MAX_TRIPLE_TERM_DEPTH = 128"

datatype depth_step = Enter u64 nat | Finish nat

fun depth_weight :: "depth_step \<Rightarrow> nat" where
  "depth_weight (Enter _ budget) = 4 ^ (budget + 1)"
| "depth_weight (Finish _) = 1"

lemma depth_weight_step:
  "0 < budget \<Longrightarrow> Suc (depth_weight (Enter s (budget - Suc 0)) + (depth_weight (Enter p (budget - Suc 0)) + depth_weight (Enter ob (budget - Suc 0)))) <
    depth_weight (Enter tid budget)"
proof (cases budget)
  case (Suc b)
  have "(1 :: nat) < 4 ^ Suc b" by (rule one_less_power) simp_all
  then show ?thesis by (simp add: Suc)
qed simp

lemma depth_weight_pos: "0 < depth_weight s"
  by (cases s) simp_all

declare depth_weight.simps(1) [simp del]

text \<open>The memo table and the colouring are lists over the entries; the depths are a stack, its top
  first. The result is the depths, the memo and the colouring when the work list is empty.\<close>

type_synonym depth_state = "nat list \<times> nat option list \<times> bool list"

function depth_search :: "dict_entry list \<Rightarrow> depth_step list \<Rightarrow> depth_state \<Rightarrow> (('l, 'i) dict_error + depth_state) option" where
  "depth_search entries [] st = Some (Inr st)"
| "depth_search entries (Enter tid budget # steps) (depths, memo, on_path) =
     (let idx = unat (tid - 1) in
      if \<not> idx < length entries then None
      else case memo ! idx of
        Some d \<Rightarrow> depth_search entries steps (d # depths, memo, on_path)
      | None \<Rightarrow>
          if on_path ! idx then Some (Inl (DictMalformed ''dict: cyclic triple-term reference''))
          else (case entries ! idx of
            ETriple s p ob \<Rightarrow>
              if budget = 0 then Some (Inl (DictMalformed ''dict: triple-term nesting exceeds the depth ceiling''))
              else depth_search entries (Enter s (budget - 1) # Enter p (budget - 1) # Enter ob (budget - 1) # Finish idx # steps)
                (depths, memo, on_path[idx := True])
          | _ \<Rightarrow> depth_search entries steps (0 # depths, memo[idx := Some 0], on_path)))"
| "depth_search entries (Finish idx # steps) (depths, memo, on_path) =
     (case depths of
        dobj # dp # ds # depths \<Rightarrow>
          (let d = 1 + max (max ds dp) dobj in
           if d > MAX_TRIPLE_TERM_DEPTH
           then Some (Inl (DictMalformed ''dict: triple-term nesting exceeds the depth ceiling''))
           else depth_search entries steps (d # depths, memo[idx := Some d], on_path[idx := False]))
      | _ \<Rightarrow> None)"
  by pat_completeness auto
termination
  by (relation "measure (\<lambda>(_, steps, _). sum_list (map depth_weight steps))") (simp_all add: depth_weight_step depth_weight_pos)

definition triple_term_depth :: "dict_entry list \<Rightarrow> u64 \<Rightarrow> nat \<Rightarrow> nat option list \<Rightarrow> bool list \<Rightarrow>
    (('l, 'i) dict_error + nat \<times> nat option list \<times> bool list) option" where
  "triple_term_depth entries tid budget memo on_path =
     bind_res (depth_search entries [Enter tid budget] ([], memo, on_path)) (\<lambda>(depths, memo, on_path).
       case depths of [] \<Rightarrow> None | d # _ \<Rightarrow> Some (Inr (d, memo, on_path)))"

fun depth_roots :: "dict_entry list \<Rightarrow> nat \<Rightarrow> nat \<Rightarrow> nat option list \<Rightarrow> bool list \<Rightarrow> (('l, 'i) dict_error + unit) option" where
  "depth_roots entries root 0 memo on_path = Some (Inr ())"
| "depth_roots entries root (Suc n) memo on_path =
     bind_res (triple_term_depth entries (of_nat root) MAX_TRIPLE_TERM_DEPTH memo on_path) (\<lambda>(_, memo, on_path).
       depth_roots entries (root + 1) n memo on_path)"

definition validate_triple_terms_bounded :: "dictionary \<Rightarrow> (('l, 'i) dict_error + unit) option" where
  "validate_triple_terms_bounded dict =
     (if \<not> has_triple_term dict then Some (Inr ())
      else let n = length (pk_entries dict) in depth_roots (pk_entries dict) 1 n (replicate n None) (replicate n False))"

section \<open>References and order\<close>

definition id_in_range :: "dictionary \<Rightarrow> u64 \<Rightarrow> bool" where
  "id_in_range dict tid \<longleftrightarrow> 1 \<le> tid \<and> tid \<le> n_terms dict"

fun check_entry :: "('l, 'i) term_checks \<Rightarrow> dictionary \<Rightarrow> dict_entry \<Rightarrow> (('l, 'i) dict_error + unit) option" where
  "check_entry checks dict (ELiteral lexical datatype_id language direction) =
     (if \<not> id_in_range dict datatype_id then Some (Inl (DictMalformed ''dict: literal datatype id out of range''))
      else (case entry dict datatype_id of
        None \<Rightarrow> None
      | Some (EIri r) \<Rightarrow>
          (let lang = map_option (arena_str (pk_arena dict)) language in
           case validate_components checks (arena_str (pk_arena dict) r) lang direction of
             Some e \<Rightarrow> Some (Inl (LiteralComponents e))
           | None \<Rightarrow> if (case lang of None \<Rightarrow> False | Some tag \<Rightarrow> \<not> is_identity_folded checks tag)
               then Some (Inl (DictMalformed ''dict: language tag is not lowercase'')) else Some (Inr ()))
      | Some _ \<Rightarrow> Some (Inl (DictMalformed ''dict: literal datatype id does not reference an IRI''))))"
| "check_entry checks dict (ETriple s p ob) =
     (if \<not> id_in_range dict s \<or> \<not> id_in_range dict p \<or> \<not> id_in_range dict ob
      then Some (Inl (DictMalformed ''dict: triple component id out of range'')) else Some (Inr ()))"
| "check_entry checks dict _ = Some (Inr ())"

fun check_entries :: "('l, 'i) term_checks \<Rightarrow> dictionary \<Rightarrow> dict_entry list \<Rightarrow> (('l, 'i) dict_error + unit) option" where
  "check_entries checks dict [] = validate_triple_terms_bounded dict"
| "check_entries checks dict (e # es) = bind_res (check_entry checks dict e) (\<lambda>_. check_entries checks dict es)"

definition validate_references :: "('l, 'i) term_checks \<Rightarrow> dictionary \<Rightarrow> (('l, 'i) dict_error + unit) option" where
  "validate_references checks dict = check_entries checks dict (pk_entries dict)"

fun entry_tag :: "dict_entry \<Rightarrow> u8" where
  "entry_tag (EIri _) = 0"
| "entry_tag (ELiteral _ _ _ _) = 1"
| "entry_tag (EBlank _ _) = 2"
| "entry_tag (ETriple _ _ _) = 3"

fun compare_entries :: "bytes \<Rightarrow> dict_entry \<Rightarrow> dict_entry \<Rightarrow> ordering" where
  "compare_entries arena (EIri a) (EIri b) = cmp (arena_str arena a) (arena_str arena b)"
| "compare_entries arena (ELiteral la da ga dira) (ELiteral lb db gb dirb) =
     then_with (then_with (then_with (cmp da db)
       (cmp (map_option (arena_str arena) ga) (map_option (arena_str arena) gb)))
       (cmp (arena_str arena la) (arena_str arena lb))) (cmp dira dirb)"
| "compare_entries arena (EBlank la sa) (EBlank lb sb) = then_with (cmp (arena_str arena la) (arena_str arena lb)) (cmp sa sb)"
| "compare_entries arena (ETriple sa pa oa) (ETriple sb pb ob) = cmp (sa, pa, oa) (sb, pb, ob)"
| "compare_entries arena left right = cmp (entry_tag left) (entry_tag right)"

fun adjacent_ascending :: "bytes \<Rightarrow> dict_entry list \<Rightarrow> bool" where
  "adjacent_ascending arena (a # b # es) \<longleftrightarrow> compare_entries arena a b = Less \<and> adjacent_ascending arena (b # es)"
| "adjacent_ascending arena es \<longleftrightarrow> True"

definition validate_canonical_order :: "dictionary \<Rightarrow> ('l, 'i) dict_error + unit" where
  "validate_canonical_order dict =
     (if adjacent_ascending (pk_arena dict) (pk_entries dict) then Inr ()
      else Inl (DictMalformed ''dict: entries are not in strict canonical term order''))"

section \<open>The encoded section\<close>

record encoded_dict =
  ed_n_terms :: u64
  ed_values_bytes :: bytes

definition DICT_FORMAT_VERSION :: u8 where "DICT_FORMAT_VERSION = 1"

definition dict_to_bytes :: "encoded_dict \<Rightarrow> bytes" where
  "dict_to_bytes ed = DICT_FORMAT_VERSION # ed_values_bytes ed"

definition strip_version :: "bytes \<Rightarrow> ('l, 'i) dict_error + bytes" where
  "strip_version bytes =
     (if bytes = [] then Inl (DictTruncated 1 0)
      else if hd bytes \<noteq> DICT_FORMAT_VERSION then Inl (DictMalformed ''dict: unsupported format version'')
      else Inr (tl bytes))"

definition peek_term_count :: "bytes \<Rightarrow> ('l, 'i) dict_error + u64" where
  "peek_term_count values_bytes = (case read_header_u64 values_bytes 0 of
     Inl e \<Rightarrow> Inl (dict_of_bits_error e) | Inr (n, _) \<Rightarrow> Inr n)"

definition decode_value_list :: "('l, 'i) term_checks \<Rightarrow> bytes \<Rightarrow> u64 \<Rightarrow> (('l, 'i) dict_error + dictionary) option" where
  "decode_value_list checks values_bytes expected_terms =
     bind_res (decode_values checks values_bytes \<lparr>pk_arena = [], pk_entries = []\<rparr>) (\<lambda>(decoded, dict).
     ensure_res (decoded = expected_terms) (DictMalformed ''dict: decoded term count disagrees with the header'')
     (bind_res (validate_references checks dict) (\<lambda>_.
      bind_res (Some (validate_canonical_order dict)) (\<lambda>_. Some (Inr dict)))))"

definition encoded_from_bytes :: "bytes \<Rightarrow> ('l, 'i) dict_error + encoded_dict" where
  "encoded_from_bytes bytes = bind_err (strip_version bytes) (\<lambda>values_bytes.
     bind_err (peek_term_count values_bytes) (\<lambda>n. Inr \<lparr>ed_n_terms = n, ed_values_bytes = values_bytes\<rparr>))"

definition encoded_decode :: "('l, 'i) term_checks \<Rightarrow> encoded_dict \<Rightarrow> (('l, 'i) dict_error + dictionary) option" where
  "encoded_decode checks ed = decode_value_list checks (ed_values_bytes ed) (ed_n_terms ed)"

definition dict_open :: "('l, 'i) term_checks \<Rightarrow> bytes \<Rightarrow> (('l, 'i) dict_error + dictionary) option" where
  "dict_open checks bytes =
     bind_res (Some (strip_version bytes)) (\<lambda>values_bytes.
     bind_res (Some (peek_term_count values_bytes)) (\<lambda>n. decode_value_list checks values_bytes n))"

end
