(* ===== verification/DictDepth.thy ===== *)
theory DictDepth
  imports DictOpen
begin

text \<open>
  The depth search of a dictionary decides the nesting of its triple terms: it refuses exactly when
  some walk from term to component passes more triple terms than the ceiling, which a cycle does.
\<close>

section \<open>The reference: nesting by recursion\<close>

definition entry_index :: "u64 \<Rightarrow> nat" where
  "entry_index tid = unat (tid - 1)"

fun components :: "dict_entry \<Rightarrow> nat list" where
  "components (ETriple s p ob) = [entry_index s, entry_index p, entry_index ob]"
| "components _ = []"

fun nest :: "dict_entry list \<Rightarrow> nat \<Rightarrow> nat \<Rightarrow> nat option" where
  "nest es 0 i = (if is_triple_entry (es ! i) then None else Some 0)"
| "nest es (Suc k) i = (case es ! i of
     ETriple s p ob \<Rightarrow> do {
       a \<leftarrow> nest es k (entry_index s); b \<leftarrow> nest es k (entry_index p); c \<leftarrow> nest es k (entry_index ob);
       Some (1 + max (max a b) c) }
   | _ \<Rightarrow> Some 0)"

lemma nest_leaf: "\<not> is_triple_entry (es ! i) \<Longrightarrow> nest es k i = Some 0"
  by (cases k) (auto split: dict_entry.splits)

lemma nest_le: "nest es k i = Some d \<Longrightarrow> d \<le> k"
  by (induction k arbitrary: i d) (fastforce split: dict_entry.splits if_splits Option.bind_splits)+

lemma nest_mono: "nest es k i = Some d \<Longrightarrow> d \<le> k' \<Longrightarrow> nest es k' i = Some d"
proof (induction k arbitrary: i d k')
  case 0
  then show ?case by (auto intro: nest_leaf split: if_splits)
next
  case (Suc k)
  show ?case
  proof (cases "es ! i")
    case (ETriple s p ob)
    then obtain a b c where n: "nest es k (entry_index s) = Some a" "nest es k (entry_index p) = Some b" "nest es k (entry_index ob) = Some c"
      and d: "d = 1 + max (max a b) c" using Suc.prems(1) by (auto split: Option.bind_splits)
    obtain j where j: "k' = Suc j" using Suc.prems(2) d by (cases k') auto
    have "a \<le> j" "b \<le> j" "c \<le> j" using Suc.prems(2) d j by auto
    then show ?thesis using Suc.IH [OF n(1)] Suc.IH [OF n(2)] Suc.IH [OF n(3)] by (simp add: j ETriple d)
  qed (use Suc.prems in \<open>auto simp: nest_leaf\<close>)
qed

definition component :: "dict_entry list \<Rightarrow> (nat \<times> nat) set" where
  "component es = {(i, j). i < length es \<and> j \<in> set (components (es ! i))}"

definition components_in_range :: "dict_entry list \<Rightarrow> bool" where
  "components_in_range es \<longleftrightarrow> (\<forall>e\<in>set es. \<forall>j\<in>set (components e). j < length es)"

lemma walk_Suc:
  "i < length es \<Longrightarrow> (i, j) \<in> component es ^^ Suc k \<longleftrightarrow> (\<exists>c\<in>set (components (es ! i)). (c, j) \<in> component es ^^ k)"
  unfolding relpow.simps relpow_commute [symmetric] by (auto simp: component_def)

text \<open>Nesting beyond \<open>k\<close> is a walk of \<open>k\<close> steps that ends at a triple term.\<close>

lemma nest_None:
  assumes "components_in_range es" "i < length es"
  shows "nest es k i = None \<longleftrightarrow> (\<exists>j. (i, j) \<in> component es ^^ k \<and> is_triple_entry (es ! j))"
  using assms(2)
proof (induction k arbitrary: i)
  case (Suc k)
  show ?case
  proof (cases "es ! i")
    case (ETriple s p ob)
    have r: "j < length es" if "j \<in> set (components (es ! i))" for j
      using assms(1) Suc.prems that unfolding components_in_range_def by (meson nth_mem)
    have "nest es (Suc k) i = None \<longleftrightarrow> (\<exists>c\<in>set (components (es ! i)). nest es k c = None)"
      by (auto simp: ETriple split: Option.bind_splits)
    also have "\<dots> \<longleftrightarrow> (\<exists>c\<in>set (components (es ! i)). \<exists>j. (c, j) \<in> component es ^^ k \<and> is_triple_entry (es ! j))"
      using Suc.IH r by blast
    also have "\<dots> \<longleftrightarrow> (\<exists>j. (i, j) \<in> component es ^^ Suc k \<and> is_triple_entry (es ! j))"
      using walk_Suc [OF Suc.prems, of _ k] by blast
    finally show ?thesis .
  qed (use walk_Suc [OF Suc.prems, of _ k] in simp_all)
qed simp

section \<open>The search\<close>

abbreviation depth_of_entry :: "dict_entry list \<Rightarrow> nat \<Rightarrow> nat option" where
  "depth_of_entry es \<equiv> nest es MAX_TRIPLE_TERM_DEPTH"

definition memo_ok :: "dict_entry list \<Rightarrow> nat option list \<Rightarrow> bool" where
  "memo_ok es memo \<longleftrightarrow> length memo = length es \<and> (\<forall>i<length es. \<forall>d. memo ! i = Some d \<longrightarrow> depth_of_entry es i = Some d)"

text \<open>An entry that the search must not refuse: within the budget, and nested less deeply than everything on
  the path to it.\<close>

definition admissible :: "dict_entry list \<Rightarrow> nat \<Rightarrow> nat \<Rightarrow> bool list \<Rightarrow> bool" where
  "admissible es i budget on_path \<longleftrightarrow> (\<exists>d. depth_of_entry es i = Some d \<and> d \<le> budget \<and>
     (\<forall>j<length es. on_path ! j \<longrightarrow> (\<exists>dj. depth_of_entry es j = Some dj \<and> d < dj)))"

type_synonym ('l, 'i) depth_run = "depth_step list \<Rightarrow> depth_state \<Rightarrow> (('l, 'i) dict_error + depth_state) option"

definition searched :: "dict_entry list \<Rightarrow> (depth_step list \<Rightarrow> depth_state \<Rightarrow> ('e + depth_state) option) \<Rightarrow> u64 \<Rightarrow> nat \<Rightarrow> depth_step list \<Rightarrow> depth_state \<Rightarrow> bool" where
  "searched es run tid budget steps st \<longleftrightarrow> (case st of (depths, memo, on_path) \<Rightarrow>
     (\<exists>e. run (Enter tid budget # steps) st = Some (Inl e) \<and> \<not> admissible es (entry_index tid) budget on_path) \<or>
     (\<exists>d memo'. depth_of_entry es (entry_index tid) = Some d \<and> memo_ok es memo' \<and>
        run (Enter tid budget # steps) st = run steps (d # depths, memo', on_path)))"

lemma triple_depth:
  "es ! i = ETriple s p ob \<Longrightarrow> depth_of_entry es i = Some d \<longleftrightarrow> (\<exists>a b c. depth_of_entry es (entry_index s) = Some a \<and>
     depth_of_entry es (entry_index p) = Some b \<and> depth_of_entry es (entry_index ob) = Some c \<and> d = 1 + max (max a b) c \<and> d \<le> MAX_TRIPLE_TERM_DEPTH)"
proof -
  assume t: "es ! i = ETriple s p ob"
  define k where "k = MAX_TRIPLE_TERM_DEPTH - 1"
  have k: "MAX_TRIPLE_TERM_DEPTH = Suc k" by (simp add: k_def MAX_TRIPLE_TERM_DEPTH_def)
  have up: "nest es (Suc k) j = Some a \<longleftrightarrow> nest es k j = Some a" if "a \<le> k" for j a
    using nest_mono [of es k j a "Suc k"] nest_mono [of es "Suc k" j a k] nest_le [of es k j a] that by auto
  have le: "nest es k j = Some a \<Longrightarrow> a \<le> k" for j a by (rule nest_le)
  have "nest es (Suc k) i = Some d \<longleftrightarrow> (\<exists>a b c. nest es k (entry_index s) = Some a \<and> nest es k (entry_index p) = Some b \<and>
      nest es k (entry_index ob) = Some c \<and> d = 1 + max (max a b) c)" using t by (auto split: Option.bind_splits)
  also have "\<dots> \<longleftrightarrow> (\<exists>a b c. nest es (Suc k) (entry_index s) = Some a \<and> nest es (Suc k) (entry_index p) = Some b \<and>
      nest es (Suc k) (entry_index ob) = Some c \<and> d = 1 + max (max a b) c \<and> d \<le> Suc k)"
  proof (intro iffI; elim exE conjE)
    fix a b c assume "nest es k (entry_index s) = Some a" "nest es k (entry_index p) = Some b" "nest es k (entry_index ob) = Some c" "d = 1 + max (max a b) c"
    then show "\<exists>a b c. nest es (Suc k) (entry_index s) = Some a \<and> nest es (Suc k) (entry_index p) = Some b \<and>
      nest es (Suc k) (entry_index ob) = Some c \<and> d = 1 + max (max a b) c \<and> d \<le> Suc k"
      using up le by (intro exI [of _ a] exI [of _ b] exI [of _ c]) simp
  next
    fix a b c assume n: "nest es (Suc k) (entry_index s) = Some a" "nest es (Suc k) (entry_index p) = Some b" "nest es (Suc k) (entry_index ob) = Some c" "d = 1 + max (max a b) c" "d \<le> Suc k"
    then have "a \<le> k" "b \<le> k" "c \<le> k" by auto
    then show "\<exists>a b c. nest es k (entry_index s) = Some a \<and> nest es k (entry_index p) = Some b \<and> nest es k (entry_index ob) = Some c \<and> d = 1 + max (max a b) c"
      using n up by (intro exI [of _ a] exI [of _ b] exI [of _ c]) simp
  qed
  finally show ?thesis unfolding k .
qed

lemma memo_ok_update:
  assumes "memo_ok es memo" "depth_of_entry es i = Some d"
  shows "memo_ok es (memo[i := Some d])"
  unfolding memo_ok_def
proof (intro conjI allI impI)
  fix j x assume j: "j < length es" "memo[i := Some d] ! j = Some x"
  then show "depth_of_entry es j = Some x" using assms by (cases "j = i") (simp_all add: memo_ok_def)
qed (use assms in \<open>simp add: memo_ok_def\<close>)

lemma search_enter:
  assumes "entry_index tid < length es"
  shows "memo ! entry_index tid = Some d \<Longrightarrow> depth_search es (Enter tid b # steps) (ds, memo, p) = depth_search es steps (d # ds, memo, p)"
    "memo ! entry_index tid = None \<Longrightarrow> p ! entry_index tid \<Longrightarrow> \<exists>e. depth_search es (Enter tid b # steps) (ds, memo, p) = Some (Inl e)"
    "memo ! entry_index tid = None \<Longrightarrow> \<not> p ! entry_index tid \<Longrightarrow> \<not> is_triple_entry (es ! entry_index tid) \<Longrightarrow>
      depth_search es (Enter tid b # steps) (ds, memo, p) = depth_search es steps (0 # ds, memo[entry_index tid := Some 0], p)"
    "memo ! entry_index tid = None \<Longrightarrow> \<not> p ! entry_index tid \<Longrightarrow> is_triple_entry (es ! entry_index tid) \<Longrightarrow>
      \<exists>e. depth_search es (Enter tid 0 # steps) (ds, memo, p) = Some (Inl e)"
    "memo ! entry_index tid = None \<Longrightarrow> \<not> p ! entry_index tid \<Longrightarrow> es ! entry_index tid = ETriple s q ob \<Longrightarrow>
      depth_search es (Enter tid (Suc b) # steps) (ds, memo, p) =
      depth_search es (Enter s b # Enter q b # Enter ob b # Finish (entry_index tid) # steps) (ds, memo, p[entry_index tid := True])"
  using assms by (auto simp: entry_index_def Let_def split: dict_entry.splits)

declare depth_search.simps [simp del]

lemma search_done [simp]: "depth_search es [] st = Some (Inr st)"
  by (cases st) (simp add: depth_search.simps)

lemma search_finish:
  "depth_search es (Finish i # steps) (dobj # dp # ds # depths, memo, p) =
    (if 1 + max (max ds dp) dobj > MAX_TRIPLE_TERM_DEPTH then Some (Inl (DictMalformed ''dict: triple-term nesting exceeds the depth ceiling''))
     else depth_search es steps ((1 + max (max ds dp) dobj) # depths, memo[i := Some (1 + max (max ds dp) dobj)], p[i := False]))"
  by (simp add: depth_search.simps Let_def)

lemma searched_errI: "run (Enter tid budget # steps) (ds, memo, p) = Some (Inl e) \<Longrightarrow> \<not> admissible es (entry_index tid) budget p \<Longrightarrow>
  searched es run tid budget steps (ds, memo, p)"
  by (auto simp: searched_def)

lemmas search_errI = searched_errI [where run = "depth_search es" for es]

lemma searched_okI: "run (Enter tid budget # steps) (ds, memo, p) = run steps (d # ds, memo', p) \<Longrightarrow>
  depth_of_entry es (entry_index tid) = Some d \<Longrightarrow> memo_ok es memo' \<Longrightarrow> searched es run tid budget steps (ds, memo, p)"
  by (auto simp: searched_def)

lemma searchedE:
  assumes "searched es run tid budget steps (ds, memo, p)"
  obtains e where "run (Enter tid budget # steps) (ds, memo, p) = Some (Inl e)" "\<not> admissible es (entry_index tid) budget p"
  | d memo' where "run (Enter tid budget # steps) (ds, memo, p) = run steps (d # ds, memo', p)" "depth_of_entry es (entry_index tid) = Some d" "memo_ok es memo'"
  using assms by (auto simp: searched_def)

lemma admissible_component:
  assumes "admissible es i (Suc b) on_path" "es ! i = ETriple s p ob" "i < length es" "c \<in> set (components (es ! i))" "length on_path = length es"
  shows "admissible es c b (on_path[i := True])"
proof -
  obtain d where d: "depth_of_entry es i = Some d" "d \<le> Suc b" "\<forall>j<length es. on_path ! j \<longrightarrow> (\<exists>dj. depth_of_entry es j = Some dj \<and> d < dj)"
    using assms(1) unfolding admissible_def by blast
  obtain dc where c: "depth_of_entry es c = Some dc" "dc < d"
    using d(1) assms(4) unfolding triple_depth [OF assms(2)] assms(2) by auto
  have "\<exists>dj. depth_of_entry es j = Some dj \<and> dc < dj" if "j < length es" "on_path[i := True] ! j" for j
    using that d(1,3) c(2) assms(5) by (cases "j = i") (auto dest: less_trans)
  then show ?thesis unfolding admissible_def using c d(2) by auto
qed

lemma search_leaf:
  assumes "entry_index tid < length es" "memo_ok es memo" "memo ! entry_index tid \<noteq> None \<or> on_path ! entry_index tid \<or> \<not> is_triple_entry (es ! entry_index tid)"
  shows "searched es (depth_search es :: ('l, 'i) depth_run) tid budget steps (depths, memo, on_path)"
proof (cases "memo ! entry_index tid")
  case (Some d)
  then show ?thesis using search_enter(1) [OF assms(1)] assms(1,2) by (intro searched_okI) (auto simp: memo_ok_def)
next
  case None
  show ?thesis
  proof (cases "on_path ! entry_index tid")
    case True
    then have "\<not> admissible es (entry_index tid) budget on_path" using assms(1) unfolding admissible_def by auto
    then show ?thesis using search_enter(2) [OF assms(1) None True] search_errI by blast
  next
    case False
    then have l: "\<not> is_triple_entry (es ! entry_index tid)" using assms(3) None by simp
    then have n: "depth_of_entry es (entry_index tid) = Some 0" by (rule nest_leaf)
    show ?thesis using search_enter(3) [OF assms(1) None False l] n memo_ok_update [OF assms(2) n] by (rule searched_okI)
  qed
qed

text \<open>A triple term: its components one after the other, each from the state the one before left.\<close>

lemma search_triple:
  assumes closed: "components_in_range es" and i: "entry_index tid < length es" and t: "es ! entry_index tid = ETriple s p ob"
    and m: "memo_ok es memo" "memo ! entry_index tid = None" and pa: "\<not> on_path ! entry_index tid" "length on_path = length es"
    and ih: "\<And>c memo steps depths. entry_index c \<in> set (components (es ! entry_index tid)) \<Longrightarrow> memo_ok es memo \<Longrightarrow>
      searched es (depth_search es :: ('l, 'i) depth_run) c b steps (depths, memo, on_path[entry_index tid := True])"
  shows "searched es (depth_search es :: ('l, 'i) depth_run) tid (Suc b) steps (depths, memo, on_path)"
proof -
  let ?i = "entry_index tid" and ?run = "depth_search es :: ('l, 'i) depth_run"
  let ?path = "on_path[?i := True]" and ?rest = "Finish ?i # steps"
  have cs: "entry_index s \<in> set (components (es ! ?i))" "entry_index p \<in> set (components (es ! ?i))" "entry_index ob \<in> set (components (es ! ?i))"
    by (simp_all add: t)
  have start: "?run (Enter tid (Suc b) # steps) (depths, memo, on_path) = ?run (Enter s b # Enter p b # Enter ob b # ?rest) (depths, memo, ?path)"
    by (rule search_enter(5) [OF i m(2) pa(1) t])
  have fail: "searched es ?run tid (Suc b) steps (depths, memo, on_path)"
    if "?run (Enter tid (Suc b) # steps) (depths, memo, on_path) = Some (Inl e)" "\<not> admissible es c b ?path" "c \<in> set (components (es ! ?i))" for e c
    by (rule searched_errI [where run = ?run, OF that(1)]) (use admissible_component [OF _ t i that(3) pa(2), of b] that(2) in blast)
  from ih [OF cs(1) m(1), of "Enter p b # Enter ob b # ?rest" depths] show ?thesis
  proof (cases rule: searchedE)
    case (1 e)
    then show ?thesis using fail [OF _ _ cs(1)] start by simp
  next
    case (2 a m1)
    note a = 2
    from ih [OF cs(2) a(3), of "Enter ob b # ?rest" "a # depths"] show ?thesis
    proof (cases rule: searchedE)
      case (1 e)
      then show ?thesis using fail [OF _ _ cs(2)] start a(1) by simp
    next
      case (2 bb m2)
      note b = 2
      from ih [OF cs(3) b(3), of ?rest "bb # a # depths"] show ?thesis
      proof (cases rule: searchedE)
        case (1 e)
        then show ?thesis using fail [OF _ _ cs(3)] start a(1) b(1) by simp
      next
        case (2 c m3)
        let ?d = "1 + max (max a bb) c"
        have run: "?run (Enter tid (Suc b) # steps) (depths, memo, on_path) = ?run ?rest (c # bb # a # depths, m3, ?path)"
          using start a(1) b(1) 2(1) by simp
        show ?thesis
        proof (cases "?d > MAX_TRIPLE_TERM_DEPTH")
          case True
          then have "\<not> admissible es ?i (Suc b) on_path"
            unfolding admissible_def triple_depth [OF t] a(2) b(2) 2(2) by auto
          then show ?thesis using run True by (intro search_errI) (simp_all add: search_finish)
        next
          case False
          then have d: "depth_of_entry es ?i = Some ?d" unfolding triple_depth [OF t] a(2) b(2) 2(2) by auto
          have "?path[?i := False] = on_path" using pa i by (metis list_update_id list_update_overwrite)
          then show ?thesis using run False by (intro searched_okI [OF _ d memo_ok_update [OF 2(3) d]]) (simp add: search_finish)
        qed
      qed
    qed
  qed
qed

lemma entry_component: "components_in_range es \<Longrightarrow> i < length es \<Longrightarrow> c \<in> set (components (es ! i)) \<Longrightarrow> c < length es"
  unfolding components_in_range_def by (meson nth_mem)

lemma search_entry:
  assumes closed: "components_in_range es"
  shows "entry_index tid < length es \<Longrightarrow> memo_ok es memo \<Longrightarrow> length on_path = length es \<Longrightarrow>
    searched es (depth_search es :: ('l, 'i) depth_run) tid budget steps (depths, memo, on_path)"
proof (induction budget arbitrary: tid memo on_path steps depths)
  case (0 tid memo on_path steps depths)
  let ?i = "entry_index tid"
  show ?case
  proof (cases "memo ! ?i = None \<and> \<not> on_path ! ?i \<and> is_triple_entry (es ! ?i)")
    case True
    then have "\<not> admissible es ?i 0 on_path" by (cases "es ! ?i") (auto simp: admissible_def triple_depth)
    then show ?thesis using search_enter(4) [OF 0(1)] True search_errI by blast
  qed (use search_leaf [OF 0(1,2)] in blast)
next
  case (Suc b tid memo on_path steps depths)
  let ?i = "entry_index tid"
  show ?case
  proof (cases "memo ! ?i = None \<and> \<not> on_path ! ?i \<and> is_triple_entry (es ! ?i)")
    case True
    then obtain s p ob where t: "es ! ?i = ETriple s p ob" by (cases "es ! ?i") auto
    show ?thesis
    proof (rule search_triple [OF closed Suc.prems(1) t Suc.prems(2)])
      fix c memo steps depths assume "entry_index c \<in> set (components (es ! ?i))" "memo_ok es memo"
      then show "searched es (depth_search es :: ('l, 'i) depth_run) c b steps (depths, memo, on_path[?i := True])"
        by (intro Suc.IH entry_component [OF closed Suc.prems(1)]) (simp_all add: Suc.prems(3))
    qed (use True Suc.prems(3) in simp_all)
  qed (use search_leaf [OF Suc.prems(1,2)] in blast)
qed

section \<open>The walk over the roots\<close>

lemma admissible_root:
  "admissible es i MAX_TRIPLE_TERM_DEPTH (replicate (length es) False) \<longleftrightarrow> depth_of_entry es i \<noteq> None"
  using nest_le [of es MAX_TRIPLE_TERM_DEPTH i] by (auto simp: admissible_def)

lemma root_depth:
  assumes "components_in_range es" "entry_index tid < length es" "memo_ok es memo"
  defines "path \<equiv> replicate (length es) False"
  defines "run \<equiv> (triple_term_depth es tid MAX_TRIPLE_TERM_DEPTH memo path :: (('l, 'i) dict_error + nat \<times> nat option list \<times> bool list) option)"
  shows "depth_of_entry es (entry_index tid) = None \<Longrightarrow> \<exists>e. run = Some (Inl e)"
    and "depth_of_entry es (entry_index tid) = Some d \<Longrightarrow> \<exists>memo'. memo_ok es memo' \<and> run = Some (Inr (d, memo', path))"
proof -
  have "searched es (depth_search es :: ('l, 'i) depth_run) tid MAX_TRIPLE_TERM_DEPTH [] ([], memo, path)"
    by (rule search_entry [OF assms(1-3)]) (simp add: path_def)
  then have "(\<exists>e. run = Some (Inl e)) \<and> depth_of_entry es (entry_index tid) = None \<or>
      (\<exists>d memo'. depth_of_entry es (entry_index tid) = Some d \<and> memo_ok es memo' \<and> run = Some (Inr (d, memo', path)))"
    unfolding run_def triple_term_depth_def by (elim searchedE) (auto simp: path_def admissible_root)
  then show "depth_of_entry es (entry_index tid) = None \<Longrightarrow> \<exists>e. run = Some (Inl e)"
    "depth_of_entry es (entry_index tid) = Some d \<Longrightarrow> \<exists>memo'. memo_ok es memo' \<and> run = Some (Inr (d, memo', path))"
    by auto
qed

lemma roots_depth:
  assumes closed: "components_in_range es" and len: "length es < 2 ^ 64"
  shows "k + n \<le> length es \<Longrightarrow> memo_ok es memo \<Longrightarrow>
    (case depth_roots es (Suc k) n memo (replicate (length es) False) :: (('l, 'i) dict_error + unit) option of
       None \<Rightarrow> False
     | Some (Inl _) \<Rightarrow> \<exists>i\<in>{k..<k + n}. depth_of_entry es i = None
     | Some (Inr _) \<Rightarrow> \<forall>i\<in>{k..<k + n}. depth_of_entry es i \<noteq> None)"
proof (induction n arbitrary: k memo)
  case (Suc n)
  let ?path = "replicate (length es) False"
  have i: "entry_index (of_nat (Suc k)) = k" using Suc.prems(1) len by (simp add: entry_index_def unat_of_nat_64)
  have k: "entry_index (of_nat (Suc k)) < length es" unfolding i using Suc.prems(1) by simp
  note root = root_depth [OF closed k Suc.prems(2), unfolded i, where 'l = 'l and 'i = 'i]
  show ?case
  proof (cases "depth_of_entry es k")
    case None
    then show ?thesis using root(1) by (auto intro!: bexI [of _ k])
  next
    case (Some d)
    then obtain memo' where m: "memo_ok es memo'"
      "(triple_term_depth es (of_nat (Suc k)) MAX_TRIPLE_TERM_DEPTH memo ?path :: (('l, 'i) dict_error + _) option) = Some (Inr (d, memo', ?path))"
      using root(2) by blast
    have *: "{k..<k + Suc n} = insert k {Suc k..<Suc k + n}" by auto
    have "Suc k + n \<le> length es" using Suc.prems(1) by simp
    from Suc.IH [OF this m(1)] show ?thesis unfolding * using Some m(2) by (auto split: option.splits sum.splits)
  qed
qed simp

lemma no_triple_nest: "\<not> list_ex is_triple_entry es \<Longrightarrow> i < length es \<Longrightarrow> nest es k i = Some 0"
  by (intro nest_leaf) (auto simp: list_ex_iff)

text \<open>The nesting of every entry is within the ceiling.\<close>

definition nesting_bounded :: "dict_entry list \<Rightarrow> bool" where
  "nesting_bounded es \<longleftrightarrow> (\<forall>i<length es. depth_of_entry es i \<noteq> None)"

lemma validate_nesting:
  fixes dict :: dictionary
  assumes "components_in_range (pk_entries dict)" "length (pk_entries dict) < 2 ^ 64"
  shows "case validate_triple_terms_bounded dict :: (('l, 'i) dict_error + unit) option of
      None \<Rightarrow> False
    | Some (Inl _) \<Rightarrow> \<not> nesting_bounded (pk_entries dict)
    | Some (Inr _) \<Rightarrow> nesting_bounded (pk_entries dict)"
proof (cases "has_triple_term dict")
  case True
  have "memo_ok (pk_entries dict) (replicate (length (pk_entries dict)) None)" by (simp add: memo_ok_def)
  from roots_depth [OF assms _ this, of 0 "length (pk_entries dict)", where 'l = 'l and 'i = 'i] show ?thesis
    using True by (auto simp: validate_triple_terms_bounded_def nesting_bounded_def Let_def split: option.splits sum.splits)
next
  case False
  then show ?thesis by (simp add: validate_triple_terms_bounded_def nesting_bounded_def has_triple_term_def no_triple_nest)
qed

lemma nesting_bounded_walks:
  "components_in_range es \<Longrightarrow> nesting_bounded es \<longleftrightarrow> (\<forall>(i, j)\<in>component es ^^ MAX_TRIPLE_TERM_DEPTH. i < length es \<longrightarrow> \<not> is_triple_entry (es ! j))"
  unfolding nesting_bounded_def using nest_None [of es] by fastforce

text \<open>C34: The depth check of an untrusted dictionary decides exactly what its documentation says it
  bounds. When every component of a triple term is an id of the dictionary, the explicit-stack search
  with its memo table and colouring neither panics nor runs forever, and it accepts exactly when no
  walk of 128 steps from an entry to a component ends at a triple term; a cycle, direct or through
  any number of triple terms, has such a walk and is refused.
\<close>

theorem bounded_exact:
  assumes "components_in_range (pk_entries dict)" "length (pk_entries dict) < 2 ^ 64"
  shows "case validate_triple_terms_bounded dict :: (('l, 'i) dict_error + unit) option of
      None \<Rightarrow> False
    | Some (Inl _) \<Rightarrow> \<exists>i<length (pk_entries dict). \<exists>j. (i, j) \<in> component (pk_entries dict) ^^ 128 \<and> is_triple_entry (pk_entries dict ! j)
    | Some (Inr _) \<Rightarrow> \<forall>i<length (pk_entries dict). \<forall>j. (i, j) \<in> component (pk_entries dict) ^^ 128 \<longrightarrow> \<not> is_triple_entry (pk_entries dict ! j)"
  using validate_nesting [OF assms, where 'l = 'l and 'i = 'i] nesting_bounded_walks [OF assms(1)]
  by (fastforce simp: MAX_TRIPLE_TERM_DEPTH_def split: option.splits sum.splits)

theorem bounded_exact_witness:
  "let dict = \<lparr>pk_arena = [], pk_entries = [EIri (0, 0), ETriple 1 1 2]\<rparr> in
    case validate_triple_terms_bounded dict :: ((nat, nat) dict_error + unit) option of
      None \<Rightarrow> False
    | Some (Inl _) \<Rightarrow> \<exists>i<length (pk_entries dict). \<exists>j. (i, j) \<in> component (pk_entries dict) ^^ 128 \<and> is_triple_entry (pk_entries dict ! j)
    | Some (Inr _) \<Rightarrow> \<forall>i<length (pk_entries dict). \<forall>j. (i, j) \<in> component (pk_entries dict) ^^ 128 \<longrightarrow> \<not> is_triple_entry (pk_entries dict ! j)"
  unfolding Let_def by (rule bounded_exact) (simp_all add: components_in_range_def entry_index_def)

end
