(* ===== verification/DictOrder.thy ===== *)
theory DictOrder
  imports DictDepth
begin

text \<open>
  What the checks of an opened dictionary (\<open>crates/rdf-core/src/ir/pack/dict.rs\<close>) establish: every id
  resolves to a term, and the order of the entries by compact ids, which the code checks, is the
  order of the terms themselves. The latter is an induction on the combined nesting of two entries,
  which the depth check bounds.
\<close>

section \<open>Values by recursion\<close>

fun value_of :: "dictionary \<Rightarrow> nat \<Rightarrow> u64 \<Rightarrow> term_value option" where
  "value_of dict 0 tid = (case enter_node dict tid of Some (Leaf v) \<Rightarrow> Some v | _ \<Rightarrow> None)"
| "value_of dict (Suc k) tid = (case enter_node dict tid of
     None \<Rightarrow> None
   | Some (Leaf v) \<Rightarrow> Some v
   | Some (Nested s p ob) \<Rightarrow> do {
       a \<leftarrow> value_of dict k s; b \<leftarrow> value_of dict k p; c \<leftarrow> value_of dict k ob; Some (Triple a b c) })"

lemma fold_enter:
  "fold_nested dict (FEnter tid # steps) answers = (case enter_node dict tid of
     None \<Rightarrow> None
   | Some (Leaf v) \<Rightarrow> fold_nested dict steps (v # answers)
   | Some (Nested s p ob) \<Rightarrow> fold_nested dict (FEnter s # FEnter p # FEnter ob # FAssemble # steps) answers)"
  by (subst fold_nested.simps) (simp cong: option.case_cong nested.case_cong)

lemma fold_done [simp]: "fold_nested dict [] answers = Some answers"
  by (subst fold_nested.simps) simp

lemma fold_assemble [simp]: "fold_nested dict (FAssemble # steps) answers = (case assemble answers of
     None \<Rightarrow> None | Some answers \<Rightarrow> fold_nested dict steps answers)"
  by (rule trans [OF fold_nested.simps]) simp

lemma fold_value: "value_of dict k tid = Some v \<Longrightarrow> fold_nested dict (FEnter tid # steps) answers = fold_nested dict steps (v # answers)"
proof (induction k arbitrary: tid v steps answers)
  case 0
  then have "enter_node dict tid = Some (Leaf v)" by (auto split: option.splits nested.splits)
  then show ?case by (simp add: fold_enter)
next
  case (Suc k)
  show ?case
  proof (cases "enter_node dict tid")
    case (Some n)
    show ?thesis
    proof (cases n)
      case (Nested s p ob)
      then obtain a b c where "value_of dict k s = Some a" "value_of dict k p = Some b" "value_of dict k ob = Some c" "v = Triple a b c"
        using Suc.prems Some by (auto split: Option.bind_splits)
      then show ?thesis by (simp add: Some Nested Suc.IH fold_enter [of dict tid])
    qed (use Suc.prems Some in \<open>simp add: fold_enter\<close>)
  qed (use Suc.prems in simp)
qed

lemma term_value_at_of: "value_of dict k tid = Some v \<Longrightarrow> term_value_at dict tid = Some v"
  by (simp add: term_value_at_def fold_value)

section \<open>References\<close>

fun refs_in_range :: "dictionary \<Rightarrow> dict_entry \<Rightarrow> bool" where
  "refs_in_range dict (ELiteral _ dt _ _) \<longleftrightarrow> entry_index dt < length (pk_entries dict) \<and> (\<exists>r. pk_entries dict ! entry_index dt = EIri r)"
| "refs_in_range dict (ETriple s p ob) \<longleftrightarrow> entry_index s < length (pk_entries dict) \<and> entry_index p < length (pk_entries dict) \<and>
     entry_index ob < length (pk_entries dict)"
| "refs_in_range dict _ \<longleftrightarrow> True"

definition refs_valid :: "dictionary \<Rightarrow> bool" where
  "refs_valid dict \<longleftrightarrow> (\<forall>e\<in>set (pk_entries dict). refs_in_range dict e)"

lemma refs_components: "refs_valid dict \<Longrightarrow> components_in_range (pk_entries dict)"
  unfolding refs_valid_def components_in_range_def
proof (intro ballI)
  fix e j assume "\<forall>e\<in>set (pk_entries dict). refs_in_range dict e" "e \<in> set (pk_entries dict)" "j \<in> set (components e)"
  then show "j < length (pk_entries dict)" by (cases e) auto
qed

lemma entry_nth: "tid \<noteq> 0 \<Longrightarrow> entry_index tid < length (pk_entries dict) \<Longrightarrow> entry dict tid = Some (pk_entries dict ! entry_index tid)"
  by (simp add: entry_def entry_index_def)

lemma entry_index_0: "length es < 2 ^ 64 \<Longrightarrow> entry_index 0 < length es \<Longrightarrow> False"
  by (simp add: entry_index_def unsigned_minus_1_eq_mask mask_eq_exp_minus_1)

lemma entry_at:
  assumes "length (pk_entries dict) < 2 ^ 64" "entry_index tid < length (pk_entries dict)"
  shows "entry dict tid = Some (pk_entries dict ! entry_index tid)"
  using entry_nth [of tid dict] entry_index_0 [OF assms(1)] assms(2) by (cases "tid = 0") auto

lemma entry_index_of_nat: "i < 2 ^ 64 \<Longrightarrow> entry_index (of_nat i + 1) = i"
  by (simp add: entry_index_def unat_of_nat_64)

lemma id_in_range_index:
  assumes "length (pk_entries dict) < 2 ^ 64"
  shows "id_in_range dict tid \<longleftrightarrow> entry_index tid < length (pk_entries dict)"
proof (cases "tid = 0")
  case False
  then have "unat (tid - 1) = unat tid - 1" "0 < unat tid" by (simp_all add: unat_minus_one unat_gt_0)
  then show ?thesis using False assms
    by (auto simp: id_in_range_def n_terms_def entry_index_def word_le_nat_alt unat_of_nat_64)
qed (use entry_index_0 [OF assms] in \<open>auto simp: id_in_range_def\<close>)

text \<open>With its references checked and its nesting bounded, a dictionary resolves every id.\<close>

lemma value_nest:
  assumes "refs_valid dict" "length (pk_entries dict) < 2 ^ 64"
  shows "entry_index tid < length (pk_entries dict) \<Longrightarrow> nest (pk_entries dict) k (entry_index tid) \<noteq> None \<Longrightarrow> \<exists>v. value_of dict k tid = Some v"
proof (induction k arbitrary: tid)
  case (0 tid)
  let ?e = "pk_entries dict ! entry_index tid"
  have "refs_in_range dict ?e" using assms(1) 0(1) by (simp add: refs_valid_def)
  then show ?case using 0(2) entry_at [OF assms(2) 0(1)] entry_at [OF assms(2)]
    by (cases ?e) (auto simp: enter_node_def)
next
  case (Suc k tid)
  let ?e = "pk_entries dict ! entry_index tid"
  have r: "refs_in_range dict ?e" using assms(1) Suc.prems(1) by (simp add: refs_valid_def)
  note e = entry_at [OF assms(2) Suc.prems(1)]
  show ?case
  proof (cases ?e)
    case (ETriple s p ob)
    obtain a b c where "value_of dict k s = Some a" "value_of dict k p = Some b" "value_of dict k ob = Some c"
      using r Suc.prems(2) Suc.IH [of s] Suc.IH [of p] Suc.IH [of ob] by (auto simp: ETriple split: Option.bind_splits)
    then show ?thesis by (simp add: enter_node_def e ETriple)
  qed (use r entry_at [OF assms(2)] in \<open>auto simp: enter_node_def e\<close>)
qed

section \<open>The compact order\<close>

type_synonym compact_key = "nat \<times> (u64 \<times> u64 \<times> u64) \<times> bytes option \<times> bytes \<times> text_direction option \<times> u32"

fun compact_key :: "bytes \<Rightarrow> dict_entry \<Rightarrow> compact_key" where
  "compact_key arena (EIri r) = (0, (0, 0, 0), None, arena_str arena r, None, 0)"
| "compact_key arena (ELiteral lx dt lang dir) = (1, (dt, 0, 0), map_option (arena_str arena) lang, arena_str arena lx, dir, 0)"
| "compact_key arena (EBlank l scope) = (2, (0, 0, 0), None, arena_str arena l, None, scope)"
| "compact_key arena (ETriple s p ob) = (3, (s, p, ob), None, [], None, 0)"

lemma compare_entries_key: "compare_entries arena a b = cmp (compact_key arena a) (compact_key arena b)"
proof (cases a)
  case (ETriple s p ob)
  then show ?thesis by (cases b) (simp_all add: cmp_pair)
qed (cases b; simp add: cmp_pair then_with_assoc)+

lemma ascending_keys: "adjacent_ascending arena es \<longleftrightarrow> sorted_wrt (<) (map (compact_key arena) es)"
proof (induction arena es rule: adjacent_ascending.induct)
  case (1 arena a b es)
  then show ?case by (auto simp: compare_entries_key dest: less_trans)
qed simp_all

text \<open>What a dictionary that passed every check satisfies.\<close>

definition dict_valid :: "dictionary \<Rightarrow> bool" where
  "dict_valid dict \<longleftrightarrow> length (pk_entries dict) < 2 ^ 64 \<and> refs_valid dict \<and> nesting_bounded (pk_entries dict) \<and>
     sorted_wrt (<) (map (compact_key (pk_arena dict)) (pk_entries dict))"

abbreviation entry_value :: "dictionary \<Rightarrow> u64 \<Rightarrow> term_value" where
  "entry_value dict tid \<equiv> the (value_of dict MAX_TRIPLE_TERM_DEPTH tid)"

definition iri_text :: "dictionary \<Rightarrow> u64 \<Rightarrow> bytes" where
  "iri_text dict dt = (case pk_entries dict ! entry_index dt of EIri r \<Rightarrow> arena_str (pk_arena dict) r | _ \<Rightarrow> [])"

lemma value_of_mono:
  "value_of dict k tid = Some v \<Longrightarrow> k \<le> k' \<Longrightarrow> value_of dict k' tid = Some v"
proof (induction k arbitrary: tid v k')
  case 0
  then show ?case by (cases k') (auto split: option.splits nested.splits)
next
  case (Suc k)
  obtain j where j: "k' = Suc j" "k \<le> j" using Suc.prems(2) by (cases k') auto
  from Suc.prems(1) Suc.IH [OF _ j(2)] show ?case
    by (simp add: j(1) split: option.splits nested.splits Option.bind_splits)
qed

lemma valid_value:
  assumes "dict_valid dict" "entry_index tid < length (pk_entries dict)"
  shows "value_of dict MAX_TRIPLE_TERM_DEPTH tid = Some (entry_value dict tid)"
proof -
  have "\<exists>v. value_of dict MAX_TRIPLE_TERM_DEPTH tid = Some v"
    using assms by (intro value_nest) (auto simp: dict_valid_def nesting_bounded_def)
  then show ?thesis by auto
qed

lemma valid_entry_value:
  assumes "dict_valid dict" "entry_index tid < length (pk_entries dict)"
  shows "entry_value dict tid = (case pk_entries dict ! entry_index tid of
      EIri r \<Rightarrow> Iri (arena_str (pk_arena dict) r)
    | EBlank l scope \<Rightarrow> Blank (arena_str (pk_arena dict) l) scope
    | ELiteral lx dt lang dir \<Rightarrow> Literal (arena_str (pk_arena dict) lx) (iri_text dict dt) (map_option (arena_str (pk_arena dict)) lang) dir
    | ETriple s p ob \<Rightarrow> Triple (entry_value dict s) (entry_value dict p) (entry_value dict ob))"
proof -
  define k where "k = MAX_TRIPLE_TERM_DEPTH - 1"
  have k: "MAX_TRIPLE_TERM_DEPTH = Suc k" by (simp add: k_def MAX_TRIPLE_TERM_DEPTH_def)
  let ?e = "pk_entries dict ! entry_index tid"
  have len: "length (pk_entries dict) < 2 ^ 64" and r: "refs_in_range dict ?e" using assms by (simp_all add: dict_valid_def refs_valid_def)
  note e = entry_at [OF len assms(2)]
  show ?thesis
  proof (cases ?e)
    case (ELiteral lx dt lang dir)
    then have dt: "entry_index dt < length (pk_entries dict)" using r by simp
    then show ?thesis using r entry_at [OF len dt] by (auto simp: k enter_node_def e ELiteral iri_text_def)
  next
    case (ETriple s p ob)
    obtain a b c where v: "value_of dict k s = Some a" "value_of dict k p = Some b" "value_of dict k ob = Some c"
      using valid_value [OF assms] by (auto simp: k enter_node_def e ETriple split: Option.bind_splits)
    then show ?thesis using v [THEN value_of_mono, of "Suc k"] by (simp add: k enter_node_def e ETriple)
  qed (auto simp: k enter_node_def e)
qed

section \<open>Compact order is term order\<close>

definition depth_at :: "dictionary \<Rightarrow> u64 \<Rightarrow> nat" where
  "depth_at dict tid = the (depth_of_entry (pk_entries dict) (entry_index tid))"

lemma depth_at_component:
  assumes "dict_valid dict" "entry_index tid < length (pk_entries dict)" "pk_entries dict ! entry_index tid = ETriple s p ob"
  shows "depth_at dict s < depth_at dict tid" "depth_at dict p < depth_at dict tid" "depth_at dict ob < depth_at dict tid"
proof -
  obtain d where d: "depth_of_entry (pk_entries dict) (entry_index tid) = Some d"
    using assms(1,2) by (auto simp: dict_valid_def nesting_bounded_def)
  then show "depth_at dict s < depth_at dict tid" "depth_at dict p < depth_at dict tid" "depth_at dict ob < depth_at dict tid"
    unfolding depth_at_def using d triple_depth [OF assms(3), of d] by auto
qed

lemma key_sorted:
  assumes "dict_valid dict" "entry_index i < length (pk_entries dict)" "entry_index j < length (pk_entries dict)" "i < j"
  shows "compact_key (pk_arena dict) (pk_entries dict ! entry_index i) < compact_key (pk_arena dict) (pk_entries dict ! entry_index j)"
proof -
  have "i \<noteq> 0" using entry_index_0 [of "pk_entries dict"] assms(1,2) by (auto simp: dict_valid_def)
  then have "entry_index i < entry_index j"
    using assms(4) unat_gt_0 [of i] by (cases "j = 0") (simp_all add: entry_index_def unat_minus_one word_less_nat_alt diff_less_mono)
  then show ?thesis using assms sorted_wrt_nth_less [of "(<)" "map (compact_key (pk_arena dict)) (pk_entries dict)" "entry_index i" "entry_index j"]
    by (simp add: dict_valid_def)
qed

lemma iri_below:
  assumes "dict_valid dict" "entry_index i < length (pk_entries dict)" "entry_index j < length (pk_entries dict)" "i < j"
    "pk_entries dict ! entry_index i = EIri r" "pk_entries dict ! entry_index j = EIri r'"
  shows "arena_str (pk_arena dict) r < arena_str (pk_arena dict) r'"
  using key_sorted [OF assms(1-4)] by (simp add: assms(5,6))

lemma nonempty_index: "dict_valid dict \<Longrightarrow> entry_index i < length (pk_entries dict) \<Longrightarrow> i \<noteq> 0"
  using entry_index_0 [of "pk_entries dict"] by (auto simp: dict_valid_def)

text \<open>Ids that differ are in the order of their values, by induction on the combined nesting.\<close>

lemma value_order:
  assumes valid: "dict_valid dict"
  shows "entry_index i < length (pk_entries dict) \<Longrightarrow> entry_index j < length (pk_entries dict) \<Longrightarrow> i < j \<Longrightarrow>
    entry_value dict i < entry_value dict j"
proof (induction "depth_at dict i + depth_at dict j" arbitrary: i j rule: less_induct)
  case less
  note prems = less.prems
  let ?e = "pk_entries dict ! entry_index i" and ?e' = "pk_entries dict ! entry_index j"
  note key = key_sorted [OF valid prems]
  note vi = valid_entry_value [OF valid prems(1)] and vj = valid_entry_value [OF valid prems(2)]
  have r: "refs_in_range dict ?e" "refs_in_range dict ?e'" using valid prems(1,2) by (simp_all add: dict_valid_def refs_valid_def)
  have shallow: "\<not> is_triple_entry ?e \<or> \<not> is_triple_entry ?e' \<Longrightarrow> entry_value dict i < entry_value dict j"
  proof (cases ?e; cases ?e'; (simp; fail)?)
    fix lx dt lang dir lx' dt' lang' dir'
    assume e: "?e = ELiteral lx dt lang dir" "?e' = ELiteral lx' dt' lang' dir'"
    obtain d d' where d: "pk_entries dict ! entry_index dt = EIri d" "pk_entries dict ! entry_index dt' = EIri d'"
      and ind: "entry_index dt < length (pk_entries dict)" "entry_index dt' < length (pk_entries dict)"
      using r by (auto simp: e)
    have "dt = dt' \<or> dt < dt' \<and> arena_str (pk_arena dict) d < arena_str (pk_arena dict) d'"
      using iri_below [OF valid ind _ d] key by (auto simp: e)
    then show "entry_value dict i < entry_value dict j" using key d by (auto simp: vi vj e less_shallow iri_text_def)
  qed (use key in \<open>auto simp: vi vj less_shallow split: dict_entry.splits\<close>)
  show ?case
  proof (cases "is_triple_entry ?e \<and> is_triple_entry ?e'")
    case True
    then obtain s p ob s' p' ob' where e: "?e = ETriple s p ob" "?e' = ETriple s' p' ob'" by (cases ?e; cases ?e') auto
    note d = depth_at_component [OF valid prems(1) e(1)] depth_at_component [OF valid prems(2) e(2)]
    have "(s, p, ob) < (s', p', ob')" using key by (simp add: e)
    then consider "s < s'" | "s = s'" "p < p'" | "s = s'" "p = p'" "ob < ob'" by (auto simp: order.order_iff_strict)
    then have "(entry_value dict s, entry_value dict p, entry_value dict ob) < (entry_value dict s', entry_value dict p', entry_value dict ob')"
      using less.hyps [of s s'] less.hyps [of p p'] less.hyps [of ob ob'] d r by cases (simp_all add: e)
    then show ?thesis by (simp add: vi vj e less_triple)
  qed (use shallow in blast)
qed

section \<open>What opening checks\<close>

lemma bind_res_eq_Inr [simp]: "bind_res m f = Some (Inr y) \<longleftrightarrow> (\<exists>x. m = Some (Inr x) \<and> f x = Some (Inr y))"
  by (auto simp: bind_res_def split: option.splits sum.splits)

lemma ensure_res_eq_Inr [simp]: "ensure_res c e k = Some (Inr y) \<longleftrightarrow> c \<and> k = Some (Inr y)"
  by (simp add: ensure_res_def)

lemma entry_of_shape [simp]: "entry_of checks dict raw = Inr (e, dict') \<Longrightarrow> pk_entries dict' = pk_entries dict"
  by (cases raw) (auto simp: push_str_def Let_def bind_err_def split: if_splits option.splits sum.splits elim!: push_language.elims)

lemma push_entry_length: "push_entry checks dict raw = Inr dict' \<Longrightarrow> length (pk_entries dict') = Suc (length (pk_entries dict))"
  by (auto simp: push_entry_def)

lemma front_items_length: "front_items checks data items cursor prev dict = Inr dict' \<Longrightarrow> length (pk_entries dict') = length (pk_entries dict) + items"
  by (induction checks data items cursor prev dict rule: front_items.induct) (auto simp: Let_def push_entry_length split: if_splits)

lemma decode_bucket_length: "decode_bucket checks data items cursor dict = Inr dict' \<Longrightarrow> length (pk_entries dict') = length (pk_entries dict) + items"
  by (cases items) (auto simp: Let_def push_entry_length front_items_length split: if_splits)

lemma bucket_loop_length:
  "bucket_loop checks offsets data term_count k n idx dict = Some (Inr (idx', dict')) \<Longrightarrow> idx \<le> term_count \<Longrightarrow>
    length (pk_entries dict) = unat idx \<Longrightarrow> length (pk_entries dict') = unat idx'"
proof (induction n arbitrary: k idx dict)
  case (Suc n)
  let ?items = "min (unat (term_count - idx)) BUCKET_SIZE"
  obtain start d where d: "decode_bucket checks data ?items (unat (start :: u64)) dict = Inr d"
    and r: "bucket_loop checks offsets data term_count (k + 1) n (idx + of_nat ?items) d = Some (Inr (idx', dict'))"
    using Suc.prems(1) by (auto simp: Let_def split: Option.bind_splits)
  have le: "unat idx + ?items \<le> unat term_count" using Suc.prems(2) by (simp add: unat_sub word_le_nat_alt)
  have u: "unat (idx + of_nat ?items) = unat idx + ?items"
    using le unsigned_less [of term_count, where 'a = nat] by (simp add: unat_word_ariths(1) unat_of_nat_64)
  show ?case using Suc.IH [OF r] decode_bucket_length [OF d] Suc.prems(3) le by (simp add: u word_le_nat_alt)
qed simp

lemma decode_values_length:
  "decode_values checks bytes \<lparr>pk_arena = [], pk_entries = []\<rparr> = Some (Inr (n, dict)) \<Longrightarrow> length (pk_entries dict) = unat n"
  unfolding decode_values_def by (auto split: sum.splits if_splits prod.splits dest!: bucket_loop_length)

lemma check_entry_refs:
  "check_entry checks dict e = Some (Inr ()) \<Longrightarrow> length (pk_entries dict) < 2 ^ 64 \<Longrightarrow> refs_in_range dict e"
  by (cases e) (auto simp: id_in_range_index entry_at split: if_splits option.splits dict_entry.splits)

lemma check_entries_refs:
  "check_entries checks dict es = Some (Inr ()) \<Longrightarrow> length (pk_entries dict) < 2 ^ 64 \<Longrightarrow>
    (\<forall>e\<in>set es. refs_in_range dict e) \<and> check_entries checks dict [] = Some (Inr ())"
  by (induction es) (auto dest: check_entry_refs)

lemma checked_valid:
  fixes checks :: "('l, 'i) term_checks"
  assumes "validate_references checks dict = Some (Inr ())" "validate_canonical_order dict = (Inr () :: ('l, 'i) dict_error + unit)"
    "length (pk_entries dict) < 2 ^ 64"
  shows "dict_valid dict"
proof -
  have refs: "refs_valid dict" and b: "validate_triple_terms_bounded dict = (Some (Inr ()) :: (('l, 'i) dict_error + unit) option)"
    using check_entries_refs [OF assms(1) [unfolded validate_references_def] assms(3)] by (auto simp: refs_valid_def)
  have "nesting_bounded (pk_entries dict)"
    using validate_nesting [OF refs_components [OF refs] assms(3), where 'l = 'l and 'i = 'i] by (simp add: b)
  then show ?thesis using refs assms(2,3) by (simp add: dict_valid_def validate_canonical_order_def ascending_keys split: if_splits)
qed

lemma opened_valid:
  fixes checks :: "('l, 'i) term_checks"
  assumes "dict_open checks bytes = Some (Inr dict)"
  shows "dict_valid dict"
proof -
  obtain vb n where v: "strip_version bytes = (Inr vb :: ('l, 'i) dict_error + _)" "decode_value_list checks vb n = Some (Inr dict)"
    using assms by (auto simp: dict_open_def)
  then obtain m where m: "decode_values checks vb \<lparr>pk_arena = [], pk_entries = []\<rparr> = Some (Inr (m, dict))"
    and c: "validate_references checks dict = Some (Inr ())" "validate_canonical_order dict = (Inr () :: ('l, 'i) dict_error + unit)"
    by (auto simp: decode_value_list_def)
  have "length (pk_entries dict) < 2 ^ 64" using decode_values_length [OF m] unsigned_less [of m, where 'a = nat] by simp
  then show ?thesis by (rule checked_valid [OF c])
qed

end
