(* ===== verification/DictWrite.thy ===== *)
theory DictWrite
  imports DictOpen
begin

text \<open>
  What the dictionary encoder (\<open>crates/rdf-core/src/ir/pack/dict.rs\<close>) writes: a record decodes to the
  value it was made from, in front of any bytes; the bucket stream is the concatenation of the
  buckets of eight records, each a full record and front-coded ones, at the offsets the packed
  vector holds.
\<close>

section \<open>Records\<close>

lemma drop_past: "drop pos bs = a @ b \<Longrightarrow> drop (pos + length a) bs = b"
  by (metis append_eq_conv_conj add.commute drop_drop)

lemma drop_prefix_length: "drop pos bs = a @ b \<Longrightarrow> a \<noteq> [] \<Longrightarrow> pos + length a + length b = length bs"
  by (metis add.assoc append_is_Nil_conv diff_add_inverse drop_all length_append length_drop le_add_diff_inverse nat_le_linear)

lemma take_varint_at: "drop pos bs = varint_bytes v @ rest \<Longrightarrow> take_varint bs pos = Inr (v, pos + length (varint_bytes v))"
  by (simp add: take_varint_def read_varint_correct)

lemma take_byte_at: "drop pos bs = b # rest \<Longrightarrow> take_byte bs pos = Inr (b, pos + 1)"
  by (metis take_byte_def drop_all list.distinct(1) not_le_imp_less nth_via_drop)

definition text_bytes :: "bytes \<Rightarrow> bytes" where
  "text_bytes s = varint_bytes (of_nat (length s)) @ s"

lemma push_text_append: "push_text out s = out @ text_bytes s"
  by (simp add: push_text_def text_bytes_def write_varint_append)

lemma read_text_at:
  assumes "drop pos bs = text_bytes s @ rest" "utf8_valid s" "length bs < 2 ^ 64"
  shows "read_len_prefixed_str bs pos = Inr (s, pos + length (text_bytes s))"
proof -
  let ?n = "length (varint_bytes (of_nat (length s)))"
  have ne: "text_bytes s \<noteq> []" using varint_bytes_bounds(1) [of "of_nat (length s)"] by (auto simp: text_bytes_def)
  note len = drop_prefix_length [OF assms(1) ne]
  have d: "drop pos bs = varint_bytes (of_nat (length s)) @ s @ rest" using assms(1) by (simp add: text_bytes_def)
  note d2 = drop_past [OF d]
  have l: "pos + ?n + length s \<le> length bs" using len by (simp add: text_bytes_def)
  have u: "unat (of_nat (length s) :: u64) = length s" using l assms(3) by (intro unat_of_nat_64) linarith
  have w: "(pos + ?n + length s) mod 2 ^ 64 = pos + ?n + length s" using l assms(3) by (intro mod_less) linarith
  have s: "slice_range (pos + ?n) (pos + ?n + length s) bs = s" by (simp add: slice_range_def d2)
  show ?thesis unfolding read_len_prefixed_str_def take_varint_at [OF d] bind_err_simps prod.case u Let_def w s
    using l assms(2) by (simp add: text_bytes_def)
qed

fun raw_of :: "value_ids \<Rightarrow> term_value \<Rightarrow> raw_record" where
  "raw_of ids (Iri s) = RIri s"
| "raw_of ids (Blank l scope) = RBlank l scope"
| "raw_of ids (Literal l d g r) = RLiteral l (the (ids (Iri d))) g (direction_byte r)"
| "raw_of ids (Triple s p ob) = RTriple (the (ids s)) (the (ids p)) (the (ids ob))"

fun valid_texts :: "term_value \<Rightarrow> bool" where
  "valid_texts (Iri s) \<longleftrightarrow> utf8_valid s"
| "valid_texts (Blank l _) \<longleftrightarrow> utf8_valid l"
| "valid_texts (Literal l _ g _) \<longleftrightarrow> utf8_valid l \<and> (\<forall>t. g = Some t \<longrightarrow> utf8_valid t)"
| "valid_texts (Triple _ _ _) \<longleftrightarrow> True"

fun language_bytes :: "bytes option \<Rightarrow> bytes" where
  "language_bytes None = [0]"
| "language_bytes (Some t) = 1 # text_bytes t"

fun record_bytes :: "value_ids \<Rightarrow> term_value \<Rightarrow> bytes" where
  "record_bytes ids (Iri s) = 0 # text_bytes s"
| "record_bytes ids (Blank l scope) = 1 # text_bytes l @ varint_bytes (ucast scope)"
| "record_bytes ids (Literal l d g r) = 2 # text_bytes l @ varint_bytes (the (ids (Iri d))) @ language_bytes g @ [direction_byte r]"
| "record_bytes ids (Triple s p ob) = 3 # varint_bytes (the (ids s)) @ varint_bytes (the (ids p)) @ varint_bytes (the (ids ob))"

fun known :: "value_ids \<Rightarrow> term_value \<Rightarrow> bool" where
  "known ids (Literal _ d _ _) \<longleftrightarrow> ids (Iri d) \<noteq> None"
| "known ids (Triple s p ob) \<longleftrightarrow> ids s \<noteq> None \<and> ids p \<noteq> None \<and> ids ob \<noteq> None"
| "known ids _ \<longleftrightarrow> True"

lemma encode_record_bytes: "encode_record v ids = (if known ids v then Some (record_bytes ids v) else None)"
  by (cases v) (auto simp: push_text_append write_varint_append Let_def split: option.splits Option.bind_splits)

lemma direction_bytes [simp]: "direction_byte r = 0 \<or> direction_byte r = 1 \<or> direction_byte r = 2"
  by (auto simp: direction_byte_def split: option.splits text_direction.splits)

lemma language_at:
  assumes "drop pos bs = language_bytes g @ rest" "\<forall>t. g = Some t \<longrightarrow> utf8_valid t" "length bs < 2 ^ 64"
  shows "bind_err (take_byte bs pos) (\<lambda>(has_language, pos).
     bind_err (if has_language = 0 then Inr (None, pos)
       else if has_language = 1 then bind_err (read_len_prefixed_str bs pos) (\<lambda>(l, pos). Inr (Some l, pos))
       else Inl (DictMalformed ''dict: bad literal language flag'')) f) = f (g, pos + length (language_bytes g))"
proof (cases g)
  case (Some t)
  have d: "drop pos bs = 1 # text_bytes t @ rest" using assms(1) Some by simp
  have d': "drop (Suc pos) bs = text_bytes t @ rest" using drop_past [of pos bs "[1]"] d by simp
  show ?thesis using assms(2,3) Some by (simp add: take_byte_at [OF d] read_text_at [OF d'])
qed (use assms(1) in \<open>simp add: take_byte_at\<close>)

lemma decode_record_bytes:
  assumes ok: "valid_texts v" and len: "length (record_bytes ids v @ rest) < 2 ^ 64"
  shows "decode_record (record_bytes ids v @ rest) = Inr (raw_of ids v, length (record_bytes ids v))"
proof -
  define bs where "bs = record_bytes ids v @ rest"
  have len: "length bs < 2 ^ 64" using len by (simp add: bs_def)
  have "decode_record bs = Inr (raw_of ids v, length (record_bytes ids v))"
  proof (cases v)
    case (Iri s)
    have d: "drop 1 bs = text_bytes s @ rest" and hd: "hd bs = 0" "bs \<noteq> []" by (simp_all add: bs_def Iri)
    show ?thesis using ok by (simp add: decode_record_def hd read_text_at [OF d _ len, simplified] Iri)
  next
    case (Blank l scope)
    have d: "drop 1 bs = text_bytes l @ varint_bytes (ucast scope) @ rest" and hd: "hd bs = 1" "bs \<noteq> []" by (simp_all add: bs_def Blank)
    have "unat scope < 2 ^ 32" using unsigned_less [of scope, where 'a = nat] by simp
    then have "unat (ucast scope :: u64) < 2 ^ 32" by (simp add: unsigned_ucast_eq take_bit_nat_eq_self)
    moreover have "ucast (ucast scope :: u64) = scope" by (rule bit_eqI) (auto simp: bit_simps dest: bit_imp_le_length)
    ultimately show ?thesis using ok
      by (simp add: decode_record_def hd read_text_at [OF d _ len, simplified] take_varint_at [OF drop_past [OF d], simplified] Blank del: bind_err_eq_Inr)
  next
    case (Literal l d g r)
    let ?t = "the (ids (Iri d))"
    have d1: "drop 1 bs = text_bytes l @ varint_bytes ?t @ language_bytes g @ direction_byte r # rest" and hd: "hd bs = 2" "bs \<noteq> []"
      by (simp_all add: bs_def Literal)
    note d2 = drop_past [OF d1] note d3 = drop_past [OF d2] note d4 = drop_past [OF d3]
    have t: "utf8_valid l" "\<forall>t. g = Some t \<longrightarrow> utf8_valid t" using ok Literal by simp_all
    show ?thesis
      by (simp add: decode_record_def hd decode_literal_def read_text_at [OF d1 t(1) len, simplified] take_varint_at [OF d2, simplified]
          language_at [OF d3 t(2) len, simplified] take_byte_at [OF d4, simplified] Literal del: bind_err_eq_Inr)
  next
    case (Triple s p ob)
    have d1: "drop 1 bs = varint_bytes (the (ids s)) @ varint_bytes (the (ids p)) @ varint_bytes (the (ids ob)) @ rest"
      and hd: "hd bs = 3" "bs \<noteq> []" by (simp_all add: bs_def Triple)
    note d2 = drop_past [OF d1] note d3 = drop_past [OF d2]
    show ?thesis
      by (simp add: decode_record_def hd take_varint_at [OF d1, simplified] take_varint_at [OF d2, simplified] take_varint_at [OF d3, simplified]
          Triple del: bind_err_eq_Inr)
  qed
  then show ?thesis by (simp add: bs_def)
qed

section \<open>Buckets\<close>

definition front_bytes :: "bytes \<Rightarrow> bytes \<Rightarrow> bytes" where
  "front_bytes prev r = (let n = common_prefix_len prev r in
     varint_bytes (of_nat n) @ varint_bytes (of_nat (length r - n)) @ drop n r)"

fun front_coded :: "bytes \<Rightarrow> bytes list \<Rightarrow> bytes" where
  "front_coded prev [] = []"
| "front_coded prev (r # rs) = front_bytes prev r @ front_coded r rs"

fun bucket_bytes :: "bytes list \<Rightarrow> bytes" where
  "bucket_bytes [] = []"
| "bucket_bytes (r # rs) = r @ front_coded r rs"

fun buckets :: "'a list \<Rightarrow> 'a list list" where
  "buckets [] = []"
| "buckets (x # xs) = (x # take 7 xs) # buckets (drop 7 xs)"

fun starts :: "nat \<Rightarrow> bytes list \<Rightarrow> u64 list" where
  "starts n [] = []"
| "starts n (b # bs) = of_nat n # starts (n + length b) bs"

lemma buckets_map: "buckets (map f xs) = map (map f) (buckets xs)"
  by (induction xs rule: buckets.induct) (simp_all add: take_map drop_map)

lemma length_buckets: "length (buckets xs) = div_ceil (length xs) 8"
proof (induction xs rule: buckets.induct)
  case (2 x xs)
  show ?case
  proof (cases "length xs < 7")
    case True
    then show ?thesis by (simp add: div_ceil_def)
  next
    case False
    then have "div_ceil (length (x # xs)) 8 = Suc (div_ceil (length xs - 7) 8)" by (simp add: div_ceil_alt)
    then show ?thesis using 2 by simp
  qed
qed (simp add: div_ceil_def)

lemma length_starts [simp]: "length (starts n bs) = length bs"
  by (induction bs arbitrary: n) auto

lemma encode_loop_front:
  assumes "\<forall>v\<in>set vs. known ids v" "0 < i mod 8" "i mod 8 + length vs \<le> 8"
  shows "\<exists>prev'. encode_loop ids i prev data offs (vs @ vs') =
    encode_loop ids (i + length vs) prev' (data @ front_coded prev (map (record_bytes ids) vs)) offs vs'"
  using assms
proof (induction vs arbitrary: i prev data)
  case (Cons v vs)
  let ?r = "record_bytes ids v"
  have step: "encode_loop ids i prev data offs ((v # vs) @ vs') = encode_loop ids (i + 1) ?r (data @ front_bytes prev ?r) offs (vs @ vs')"
    using Cons.prems by (simp add: encode_record_bytes BUCKET_SIZE_def front_bytes_def Let_def write_varint_append)
  show ?case
  proof (cases "vs = []")
    case False
    then have "i mod 8 < 7" using Cons.prems(3) by (cases vs) auto
    then have "(i + 1) mod 8 = i mod 8 + 1" by (simp add: mod_Suc)
    then show ?thesis unfolding step using Cons.IH [of "i + 1" ?r "data @ front_bytes prev ?r"] Cons.prems by simp
  qed (use step in auto)
qed auto

lemma encode_loop_buckets:
  assumes "\<forall>v\<in>set vs. known ids v" "i mod 8 = 0"
  defines "bs \<equiv> map bucket_bytes (buckets (map (record_bytes ids) vs))"
  shows "encode_loop ids i prev data offs vs = Some (data @ concat bs, offs @ starts (length data) bs)"
  using assms unfolding bs_def
proof (induction vs arbitrary: i prev data offs rule: buckets.induct)
  case (2 v vs)
  let ?r = "record_bytes ids v" and ?rs = "map (record_bytes ids) (take 7 vs)"
  have "(i + 1) mod 8 = 1" using 2(3) by (simp add: mod_Suc)
  then obtain prev' where f: "encode_loop ids (i + 1) ?r (data @ ?r) (offs @ [of_nat (length data)]) (take 7 vs @ drop 7 vs) =
      encode_loop ids (i + 1 + length (take 7 vs)) prev' ((data @ ?r) @ front_coded ?r ?rs) (offs @ [of_nat (length data)]) (drop 7 vs)"
    using encode_loop_front [of "take 7 vs" ids "i + 1" ?r "data @ ?r" "offs @ [of_nat (length data)]" "drop 7 vs"] 2(2)
    by (auto dest: in_set_takeD)
  have e: "encode_loop ids i prev data offs (v # vs) =
      encode_loop ids (i + 1 + length (take 7 vs)) prev' (data @ bucket_bytes (?r # ?rs)) (offs @ [of_nat (length data)]) (drop 7 vs)"
    using 2(2,3) f by (simp add: encode_record_bytes BUCKET_SIZE_def)
  show ?case
  proof (cases "drop 7 vs")
    case Nil
    then show ?thesis unfolding e by (simp add: take_map drop_map)
  next
    case (Cons w ws)
    then have "length (take 7 vs) = 7" by (metis drop_all length_take list.distinct(1) min.absorb4 min.commute nat_le_linear order.strict_iff_order)
    then have "(i + 1 + length (take 7 vs)) mod 8 = 0" using 2(3) by (simp add: mod_Suc)
    moreover have "\<forall>v\<in>set (drop 7 vs). known ids v" using 2(2) by (auto dest: in_set_dropD)
    ultimately show ?thesis unfolding e using 2(1) by (simp add: take_map drop_map)
  qed
qed simp

section \<open>Reading the buckets\<close>

lemma varint_bytes_ne [simp]: "varint_bytes v \<noteq> []"
  using varint_bytes_bounds(1) [of v] by auto

fun push_all :: "('l, 'i) term_checks \<Rightarrow> dictionary \<Rightarrow> raw_record list \<Rightarrow> ('l, 'i) dict_error + dictionary" where
  "push_all checks dict [] = Inr dict"
| "push_all checks dict (raw # raws) = bind_err (push_entry checks dict raw) (\<lambda>dict. push_all checks dict raws)"

lemma push_all_append: "push_all checks dict (xs @ ys) = bind_err (push_all checks dict xs) (\<lambda>dict. push_all checks dict ys)"
  by (induction xs arbitrary: dict) (auto simp: bind_err_def split: sum.splits)

lemma short_mismatch_take: "take (short_mismatch a b) a = take (short_mismatch a b) b" "short_mismatch a b \<le> length a" "short_mismatch a b \<le> length b"
proof -
  have "take (short_mismatch a b) a = take (short_mismatch a b) b \<and> short_mismatch a b \<le> length a \<and> short_mismatch a b \<le> length b"
    unfolding short_mismatch_def by (induction a b rule: list_induct2') auto
  then show "take (short_mismatch a b) a = take (short_mismatch a b) b" "short_mismatch a b \<le> length a" "short_mismatch a b \<le> length b"
    by auto
qed

lemma front_bytes_splice:
  assumes "n = common_prefix_len prev r"
  shows "take n prev @ drop n r = r" "n \<le> length prev" "n \<le> length r"
  using short_mismatch_take [of prev r] assms by (simp_all add: common_prefix_len_eq)

lemma front_items_read:
  fixes checks :: "('l, 'i) term_checks"
  assumes "\<forall>v\<in>set vs. valid_texts v" "drop cursor data = front_coded prev (map (record_bytes ids) vs) @ rest"
    and "length data < 2 ^ 64" "length prev < 2 ^ 64" "\<forall>v\<in>set vs. length (record_bytes ids v) < 2 ^ 64"
  shows "front_items checks data (length vs) cursor prev dict = push_all checks dict (map (raw_of ids) vs)"
  using assms
proof (induction vs arbitrary: cursor prev dict)
  case (Cons v vs)
  define r where "r = record_bytes ids v"
  define n where "n = common_prefix_len prev r"
  define m where "m = length r - n"
  note sp = front_bytes_splice [OF n_def]
  have lm: "length r = n + m" "length (drop n r) = m" using sp(3) by (simp_all add: m_def)
  let ?a = "varint_bytes (of_nat n)" and ?b = "varint_bytes (of_nat m)"
  let ?next = "front_coded r (map (record_bytes ids) vs) @ rest"
  have d1: "drop cursor data = ?a @ ?b @ drop n r @ ?next"
    using Cons.prems(2) by (simp add: front_bytes_def Let_def flip: r_def n_def m_def)
  note d2 = drop_past [OF d1] note d3 = drop_past [OF d2] note d4 = drop_past [OF d3]
  define q where "q = cursor + length ?a + length ?b"
  have lr: "length r < 2 ^ 64" using Cons.prems(5) by (simp add: r_def)
  have u: "unat (of_nat n :: u64) = n" "unat (of_nat m :: u64) = m" by (rule unat_of_nat_64, use lr lm in simp)+
  have l: "q + m \<le> length data"
    using drop_prefix_length [of cursor data "?a @ ?b @ drop n r" ?next] d1 lm by (simp add: q_def)
  then have w: "(q + m) mod 2 ^ 64 = q + m" using Cons.prems(3) by (intro mod_less) simp
  have s: "slice_range q (q + m) data = drop n r" by (simp add: slice_range_def q_def d3 lm)
  have dec: "decode_record r = (Inr (raw_of ids v, length r) :: ('l, 'i) dict_error + _)"
    using decode_record_bytes [of v ids "[]"] Cons.prems(1) lr by (simp add: r_def)
  have ih: "front_items checks data (length vs) (q + m) r = (\<lambda>dict. push_all checks dict (map (raw_of ids) vs))"
    by (rule ext, rule Cons.IH) (use Cons.prems d4 lr lm in \<open>simp_all add: q_def\<close>)
  show ?case using l sp(2) unfolding list.size One_nat_def add_Suc_right add_0_right front_items.simps take_varint_at [OF d1] take_varint_at [OF d2]
      bind_err_simps prod.case Let_def u w sp(1) s dec ih q_def [symmetric]
    by (simp add: sp(1) dec ih)
qed simp

lemma decode_bucket_read:
  fixes checks :: "('l, 'i) term_checks"
  assumes "\<forall>v\<in>set vs. valid_texts v" "drop cursor data = bucket_bytes (map (record_bytes ids) vs) @ rest"
    and "length data < 2 ^ 64" "cursor \<le> length data" "\<forall>v\<in>set vs. length (record_bytes ids v) < 2 ^ 64"
  shows "decode_bucket checks data (length vs) cursor dict = push_all checks dict (map (raw_of ids) vs)"
proof (cases vs)
  case (Cons v vs')
  let ?r = "record_bytes ids v"
  have d: "drop cursor data = ?r @ front_coded ?r (map (record_bytes ids) vs') @ rest" using assms(2) Cons by simp
  have "length (drop cursor data) < 2 ^ 64" using assms(3) by simp
  then have dec: "decode_record (drop cursor data) = (Inr (raw_of ids v, length ?r) :: ('l, 'i) dict_error + _)"
    unfolding d using assms(1) Cons by (intro decode_record_bytes) simp_all
  have "front_items checks data (length vs') (cursor + length ?r) ?r = (\<lambda>dict. push_all checks dict (map (raw_of ids) vs'))"
    by (rule ext, rule front_items_read [OF _ drop_past [OF d]]) (use assms Cons in simp_all)
  then show ?thesis using assms(4) dec by (simp add: Cons Let_def d)
qed simp

lemma bind_err_assoc: "bind_err (bind_err m f) g = bind_err m (\<lambda>x. bind_err (f x) g)"
  by (cases m) simp_all

lemma bind_res_ok: "bind_res (Some m) (\<lambda>x. Some (f x)) = Some (bind_err m f)"
  by (cases m) simp_all

lemma bucket_loop_read:
  fixes checks :: "('l, 'i) term_checks"
  assumes "\<forall>v\<in>set vs. valid_texts v \<and> length (record_bytes ids v) < 2 ^ 64"
    and "data = pre @ concat (map bucket_bytes (buckets (map (record_bytes ids) vs)))" "length data < 2 ^ 64"
    and "\<forall>j<length (buckets vs). ivr_get offsets (k + j) = Some (starts (length pre) (map bucket_bytes (buckets (map (record_bytes ids) vs))) ! j)"
    and "unat N = unat idx + length vs"
  shows "bucket_loop checks offsets data N k (length (buckets vs)) idx dict =
    Some (bind_err (push_all checks dict (map (raw_of ids) vs)) (\<lambda>dict. Inr (N, dict)))"
  using assms
proof (induction vs arbitrary: pre k idx dict rule: buckets.induct)
  case (2 v vs)
  let ?chunk = "v # take 7 vs" and ?rec = "record_bytes ids"
  let ?b = "bucket_bytes (map ?rec ?chunk)" and ?rest = "concat (map bucket_bytes (buckets (map ?rec (drop 7 vs))))"
  have data: "data = pre @ ?b @ ?rest" using 2(3) by (simp add: take_map drop_map)
  have lc: "min (unat (N - idx)) BUCKET_SIZE = length ?chunk"
    using 2(6) by (simp add: BUCKET_SIZE_def unat_sub word_le_nat_alt)
  have s: "ivr_get offsets k = Some (of_nat (length pre))" using 2(5) by (auto simp: dest: spec [of _ 0])
  have u: "unat (of_nat (length pre) :: u64) = length pre" using 2(4) data by (intro unat_of_nat_64) simp
  have ok: "\<forall>v\<in>set ?chunk. valid_texts v \<and> length (?rec v) < 2 ^ 64" using 2(2) by (auto dest: in_set_takeD)
  have dec: "decode_bucket checks data (length ?chunk) (length pre) dict = push_all checks dict (map (raw_of ids) ?chunk)"
    by (rule decode_bucket_read) (use ok 2(4) data in auto)
  let ?idx = "idx + of_nat (length ?chunk)"
  have ui: "unat ?idx = unat idx + length ?chunk"
    using 2(6) unsigned_less [of N, where 'a = nat] by (simp add: unat_word_ariths(1) unat_of_nat_64 del: of_nat_Suc)
  have ih: "bucket_loop checks offsets data N (k + 1) (length (buckets (drop 7 vs))) ?idx d =
      Some (bind_err (push_all checks d (map (raw_of ids) (drop 7 vs))) (\<lambda>dict. Inr (N, dict)))" for d
  proof (rule 2(1) [of "pre @ ?b"])
    show "\<forall>j<length (buckets (drop 7 vs)). ivr_get offsets (k + 1 + j) =
        Some (starts (length (pre @ ?b)) (map bucket_bytes (buckets (map ?rec (drop 7 vs)))) ! j)"
    proof (intro allI impI)
      fix j assume "j < length (buckets (drop 7 vs))"
      then show "ivr_get offsets (k + 1 + j) = Some (starts (length (pre @ ?b)) (map bucket_bytes (buckets (map ?rec (drop 7 vs)))) ! j)"
        using 2(5) [rule_format, of "Suc j"] by (simp add: take_map drop_map)
    qed
    show "unat N = unat ?idx + length (drop 7 vs)" using 2(6) ui by simp
  qed (use 2(2,4) data in \<open>auto dest: in_set_dropD\<close>)
  have m: "map (raw_of ids) (v # vs) = map (raw_of ids) ?chunk @ map (raw_of ids) (drop 7 vs)"
    by (simp flip: map_append)
  have l: "length (buckets (v # vs)) = Suc (length (buckets (drop 7 vs)))" by simp
  have "bucket_loop checks offsets data N k (length (buckets (v # vs))) idx dict =
      bind_res (Some (push_all checks dict (map (raw_of ids) ?chunk))) (\<lambda>dict.
        bucket_loop checks offsets data N (k + 1) (length (buckets (drop 7 vs))) ?idx dict)"
    unfolding l bucket_loop.simps s lc u dec Let_def bind.bind_lunit by (rule refl)
  also have "\<dots> = Some (bind_err (push_all checks dict (map (raw_of ids) (v # vs))) (\<lambda>dict. Inr (N, dict)))"
    unfolding ih bind_res_ok m push_all_append bind_err_assoc by (rule refl)
  finally show ?case .
next
  case 1
  then have "idx = N" by (simp add: word_unat_eq_iff)
  then show ?case by simp
qed

section \<open>The value list\<close>

lemma encode_values_layout:
  assumes "\<forall>v\<in>set vs. known ids v"
  defines "bs \<equiv> map bucket_bytes (buckets (map (record_bytes ids) vs))"
  shows "encode_values vs ids = map_option (\<lambda>offset_vec. le_bytes 8 (of_nat (length vs) :: u64) @
    le_bytes 8 (of_nat (length (buckets vs)) :: u64) @ iv_to_bytes offset_vec @ concat bs) (iv_from_values (starts 0 bs))"
  using encode_loop_buckets [OF assms(1), of 0 "[]" "[]" "[]"]
  by (simp add: encode_values_def iv_from_values_def bs_def length_buckets BUCKET_SIZE_def map_option_case split: Option.bind_splits option.splits)

lemma decode_values_written:
  fixes checks :: "('l, 'i) term_checks"
  assumes ok: "\<forall>v\<in>set vs. known ids v \<and> valid_texts v \<and> length (record_bytes ids v) < 2 ^ 64"
    and len: "length vs < 2 ^ 58" "encode_values vs ids = Some bytes" "length bytes < 2 ^ 64"
  shows "decode_values checks bytes dict = Some (bind_err (push_all checks dict (map (raw_of ids) vs)) (\<lambda>dict. Inr (of_nat (length vs), dict)))"
    and "read_header_u64 bytes 0 = Inr (of_nat (length vs), 8)"
proof -
  let ?bs = "map bucket_bytes (buckets (map (record_bytes ids) vs))"
  have lb: "length (buckets vs) \<le> length vs" by (simp add: length_buckets div_ceil_le_iff)
  have lbs: "length ?bs = length (buckets vs)" by (simp add: length_buckets)
  obtain ov where b: "iv_from_values (starts 0 ?bs) = Some ov" and bytes: "bytes = le_bytes 8 (of_nat (length vs) :: u64) @
      le_bytes 8 (of_nat (length (buckets vs)) :: u64) @ iv_to_bytes ov @ concat ?bs"
    using len(2) ok by (auto simp: encode_values_layout)
  have "length (starts 0 ?bs) < 2 ^ 58" using lb lbs len(1) by simp
  from values_bytes_parse [OF this, of "concat ?bs"] b
  obtain r where r: "ivr_from_bytes (iv_to_bytes ov @ concat ?bs) = Inr r" "ivr_serialized_len r = length (iv_to_bytes ov)"
    "ivr_len r = length (starts 0 ?bs)" "\<forall>i<length (starts 0 ?bs). ivr_get r i = Some (starts 0 ?bs ! i)" by auto
  show h: "read_header_u64 bytes 0 = Inr (of_nat (length vs), 8)" by (simp add: bytes read_header_u64_def)
  have h2: "read_header_u64 bytes 8 = Inr (of_nat (length (buckets vs)), 16)" by (simp add: bytes read_header_u64_def)
  have d: "drop 16 bytes = iv_to_bytes ov @ concat ?bs" "drop (16 + length (iv_to_bytes ov)) bytes = concat ?bs"
    "16 + length (iv_to_bytes ov) \<le> length bytes" by (simp_all add: bytes)
  have u: "unat (of_nat (length (buckets vs)) :: u64) = length (buckets vs)" using lb len(1) by (intro unat_of_nat_64) simp
  have "bucket_loop checks r (concat ?bs) (of_nat (length vs)) 0 (length (buckets vs)) 0 dict =
      Some (bind_err (push_all checks dict (map (raw_of ids) vs)) (\<lambda>dict. Inr (of_nat (length vs), dict)))"
    by (rule bucket_loop_read [of _ _ _ "[]"]) (use ok len r(4) lbs in \<open>simp_all add: bytes unat_of_nat_64\<close>)
  then show "decode_values checks bytes dict = Some (bind_err (push_all checks dict (map (raw_of ids) vs)) (\<lambda>dict. Inr (of_nat (length vs), dict)))"
    using d(3) by (simp add: decode_values_def h h2 d(1,2) r u length_buckets [of "map _ _"] length_buckets [of vs, symmetric])
qed

end
