(* ===== verification/DictRoundTrip.thy ===== *)
theory DictRoundTrip
  imports DictOrder DictWrite
begin

text \<open>
  The dictionary round trip (\<open>crates/rdf-core/src/ir/pack/dict.rs\<close>): the values of a sorted list that
  contains its own components are written, read back into the arena and the entry table, pass every
  check, and resolve by their positions.
\<close>

section \<open>Numbering\<close>

definition value_to_id :: "term_value list \<Rightarrow> value_ids" where
  "value_to_id vs = Map.empty(vs [\<mapsto>] map (\<lambda>i. of_nat (i + 1)) [0..<length vs])"

lemma value_to_id_iff:
  assumes "distinct vs"
  shows "value_to_id vs v = Some t \<longleftrightarrow> (\<exists>i<length vs. vs ! i = v \<and> t = of_nat i + 1)"
proof -
  let ?xs = "rev (zip vs (map (\<lambda>i. of_nat (i + 1) :: u64) [0..<length vs]))"
  have "map fst ?xs = rev vs" by (simp flip: rev_map)
  then have "distinct (map fst ?xs)" using assms by simp
  from map_of_eq_Some_iff [OF this] show ?thesis
    by (auto simp: value_to_id_def map_upds_def in_set_zip add.commute)
qed

lemma value_to_id_nth: "distinct vs \<Longrightarrow> i < length vs \<Longrightarrow> value_to_id vs (vs ! i) = Some (of_nat i + 1)"
  by (auto simp: value_to_id_iff)

lemma value_to_id_Some:
  "distinct vs \<Longrightarrow> length vs < 2 ^ 64 \<Longrightarrow> value_to_id vs v = Some t \<Longrightarrow> entry_index t < length vs \<and> vs ! entry_index t = v"
  by (auto simp: value_to_id_iff entry_index_of_nat)

lemma value_to_id_known: "distinct vs \<Longrightarrow> v \<in> set vs \<Longrightarrow> value_to_id vs v \<noteq> None"
  using value_to_id_nth by (fastforce simp: in_set_conv_nth)

lemma entry_index_less: "a \<noteq> 0 \<Longrightarrow> b \<noteq> 0 \<Longrightarrow> entry_index a < entry_index b \<longleftrightarrow> a < b"
  by (simp add: entry_index_def unat_minus_one word_less_nat_alt) (metis One_nat_def Suc_pred less_Suc_eq_le not_le unat_gt_0)

section \<open>What a dictionary holds\<close>

definition text_at :: "bytes \<Rightarrow> str_range \<Rightarrow> bytes \<Rightarrow> bool" where
  "text_at arena r s \<longleftrightarrow> fst r + snd r \<le> length arena \<and> arena_str arena r = s"

lemma text_at_append: "text_at arena r s \<Longrightarrow> text_at (arena @ extra) r s"
  by (auto simp: text_at_def arena_str_def slice_range_def)

lemma text_at_new: "text_at (arena @ s @ extra) (length arena, length s) s"
  by (simp add: text_at_def arena_str_def slice_range_def)

lemma text_at_option: "rel_option (text_at arena) a b \<Longrightarrow> map_option (arena_str arena) a = b"
  by (cases a; cases b) (simp_all add: text_at_def)

fun entry_holds :: "value_ids \<Rightarrow> bytes \<Rightarrow> dict_entry \<Rightarrow> term_value \<Rightarrow> bool" where
  "entry_holds ids arena (EIri r) (Iri s) \<longleftrightarrow> text_at arena r s"
| "entry_holds ids arena (EBlank r sc) (Blank l sc') \<longleftrightarrow> text_at arena r l \<and> sc = sc'"
| "entry_holds ids arena (ELiteral r dt g dir) (Literal l d g' dir') \<longleftrightarrow>
     text_at arena r l \<and> ids (Iri d) = Some dt \<and> rel_option (text_at arena) g g' \<and> dir = dir'"
| "entry_holds ids arena (ETriple a b c) (Triple s p ob) \<longleftrightarrow> ids s = Some a \<and> ids p = Some b \<and> ids ob = Some c"
| "entry_holds _ _ _ _ \<longleftrightarrow> False"

lemma entry_holds_append: "entry_holds ids arena e v \<Longrightarrow> entry_holds ids (arena @ extra) e v"
  by (cases "(ids, arena, e, v)" rule: entry_holds.cases) (auto intro: text_at_append option.rel_mono_strong)

fun texts_of :: "term_value \<Rightarrow> bytes" where
  "texts_of (Iri s) = s"
| "texts_of (Blank l _) = l"
| "texts_of (Literal l _ None _) = l"
| "texts_of (Literal l _ (Some t) _) = l @ t"
| "texts_of (Triple _ _ _) = []"

fun term_ok :: "('l, 'i) term_checks \<Rightarrow> term_value \<Rightarrow> bool" where
  "term_ok checks (Iri s) \<longleftrightarrow> utf8_valid s \<and> check_absolute checks s = None"
| "term_ok checks (Blank l _) \<longleftrightarrow> utf8_valid l"
| "term_ok checks (Literal l d g r) \<longleftrightarrow> utf8_valid l \<and> validate_components checks d g r = None \<and>
     (\<forall>t. g = Some t \<longrightarrow> utf8_valid t \<and> is_identity_folded checks t)"
| "term_ok checks (Triple _ _ _) \<longleftrightarrow> True"

lemma term_ok_texts: "term_ok checks v \<Longrightarrow> valid_texts v"
  by (cases v) auto

lemma direction_round_trip [simp]: "direction_of (direction_byte r) = r"
  by (auto simp: direction_of_def direction_byte_def split: option.splits text_direction.splits)

lemma push_str_ok:
  "length (pk_arena dict) + length s < 2 ^ 32 \<Longrightarrow>
    push_str dict s = Inr ((length (pk_arena dict), length s), dict\<lparr>pk_arena := pk_arena dict @ s\<rparr>)"
  by (simp add: push_str_def Let_def)

lemma dict_update:
  "dict\<lparr>pk_arena := a, pk_entries := es\<rparr> = \<lparr>pk_arena = a, pk_entries = es\<rparr>" "dict\<lparr>pk_entries := es\<rparr> = \<lparr>pk_arena = pk_arena dict, pk_entries = es\<rparr>"
  for dict :: dictionary by (cases dict; simp)+

lemma push_entry_holds:
  assumes "term_ok checks v" "known ids v" "length (pk_arena dict) + length (texts_of v) < 2 ^ 32"
  shows "\<exists>e. push_entry checks dict (raw_of ids v) = Inr \<lparr>pk_arena = pk_arena dict @ texts_of v, pk_entries = pk_entries dict @ [e]\<rparr> \<and>
    entry_holds ids (pk_arena dict @ texts_of v) e v"
proof (cases v)
  case (Literal l d g r)
  then show ?thesis using assms text_at_new [of "pk_arena dict" l] text_at_new [of "pk_arena dict" l "[]"] text_at_new [of "pk_arena dict @ l" _ "[]"]
    by (cases g) (auto simp: push_entry_def push_str_ok dict_update)
qed (use assms text_at_new [of "pk_arena dict" _ "[]"] in \<open>auto simp: push_entry_def push_str_ok dict_update\<close>)

lemma push_all_holds:
  "\<forall>v\<in>set vs. term_ok checks v \<and> known ids v \<Longrightarrow> length (pk_arena dict) + length (concat (map texts_of vs)) < 2 ^ 32 \<Longrightarrow>
    \<exists>es. push_all checks dict (map (raw_of ids) vs) =
      Inr \<lparr>pk_arena = pk_arena dict @ concat (map texts_of vs), pk_entries = pk_entries dict @ es\<rparr> \<and>
      list_all2 (entry_holds ids (pk_arena dict @ concat (map texts_of vs))) es vs"
proof (induction vs arbitrary: dict)
  case (Cons v vs)
  obtain e where e: "push_entry checks dict (raw_of ids v) = Inr \<lparr>pk_arena = pk_arena dict @ texts_of v, pk_entries = pk_entries dict @ [e]\<rparr>"
    "entry_holds ids (pk_arena dict @ texts_of v) e v" using push_entry_holds [of checks v ids dict] Cons.prems by auto
  from Cons.IH [of "\<lparr>pk_arena = pk_arena dict @ texts_of v, pk_entries = pk_entries dict @ [e]\<rparr>"] Cons.prems
  obtain es where "push_all checks \<lparr>pk_arena = pk_arena dict @ texts_of v, pk_entries = pk_entries dict @ [e]\<rparr> (map (raw_of ids) vs) =
      Inr \<lparr>pk_arena = (pk_arena dict @ texts_of v) @ concat (map texts_of vs), pk_entries = (pk_entries dict @ [e]) @ es\<rparr>"
    "list_all2 (entry_holds ids ((pk_arena dict @ texts_of v) @ concat (map texts_of vs))) es vs" by auto
  then show ?case using e entry_holds_append [OF e(2), of "concat (map texts_of vs)"] by (intro exI [of _ "e # es"]) simp
qed (cases dict, simp)

section \<open>The checks pass\<close>

fun parts :: "term_value \<Rightarrow> term_value list" where
  "parts (Literal _ d _ _) = [Iri d]"
| "parts (Triple s p ob) = [s, p, ob]"
| "parts _ = []"

fun nesting :: "term_value \<Rightarrow> nat" where
  "nesting (Triple s p ob) = 1 + max (max (nesting s) (nesting p)) (nesting ob)"
| "nesting _ = 0"

text \<open>A value list the encoder may be given: sorted, closed under parts, of terms the decoder admits, within
  the nesting ceiling and the size of an arena.\<close>

definition encodable :: "('l, 'i) term_checks \<Rightarrow> term_value list \<Rightarrow> bool" where
  "encodable checks vs \<longleftrightarrow> sorted_wrt (<) vs \<and> length vs < 2 ^ 58 \<and> (\<forall>v\<in>set vs. set (parts v) \<subseteq> set vs) \<and>
     (\<forall>v\<in>set vs. term_ok checks v \<and> nesting v \<le> MAX_TRIPLE_TERM_DEPTH) \<and> length (concat (map texts_of vs)) < 2 ^ 32"

lemma encodable_distinct: "encodable checks vs \<Longrightarrow> distinct vs"
  by (simp add: encodable_def strict_sorted_iff)

lemma encodable_known: "encodable checks vs \<Longrightarrow> v \<in> set vs \<Longrightarrow> known (value_to_id vs) v"
  using value_to_id_known [OF encodable_distinct, of checks vs] by (cases v) (fastforce simp: encodable_def)+

text \<open>A dictionary that holds such a list, entry by entry.\<close>

definition holds_list :: "('l, 'i) term_checks \<Rightarrow> dictionary \<Rightarrow> term_value list \<Rightarrow> bool" where
  "holds_list checks dict vs \<longleftrightarrow> encodable checks vs \<and> list_all2 (entry_holds (value_to_id vs) (pk_arena dict)) (pk_entries dict) vs"

lemma holds_nth: "holds_list checks dict vs \<Longrightarrow> i < length vs \<Longrightarrow> entry_holds (value_to_id vs) (pk_arena dict) (pk_entries dict ! i) (vs ! i)"
  by (simp add: holds_list_def list_all2_nthD2)

lemma holds_length: "holds_list checks dict vs \<Longrightarrow> length (pk_entries dict) = length vs"
  by (auto simp: holds_list_def dest: list_all2_lengthD)

lemma holds_bound: "holds_list checks dict vs \<Longrightarrow> length vs < 2 ^ 64"
  by (simp add: holds_list_def encodable_def)

lemma holds_index:
  assumes "holds_list checks dict vs" "value_to_id vs v = Some t"
  shows "entry_index t < length (pk_entries dict)" "vs ! entry_index t = v" "t \<noteq> 0"
    "entry_holds (value_to_id vs) (pk_arena dict) (pk_entries dict ! entry_index t) v" "entry dict t = Some (pk_entries dict ! entry_index t)"
proof -
  have d: "distinct vs" using assms(1) encodable_distinct [of checks vs] by (simp add: holds_list_def)
  note i = value_to_id_Some [OF d holds_bound [OF assms(1)] assms(2)]
  show a: "entry_index t < length (pk_entries dict)" "vs ! entry_index t = v" using i holds_length [OF assms(1)] by auto
  show "entry_holds (value_to_id vs) (pk_arena dict) (pk_entries dict ! entry_index t) v" using holds_nth [OF assms(1), of "entry_index t"] i by simp
  show "t \<noteq> 0" using entry_index_0 [of "pk_entries dict"] a(1) holds_bound [OF assms(1)] holds_length [OF assms(1)] by auto
  show "entry dict t = Some (pk_entries dict ! entry_index t)" using a(1) holds_bound [OF assms(1)] holds_length [OF assms(1)] by (intro entry_at) simp_all
qed

lemma holds_ids_order:
  assumes "holds_list checks dict vs" "value_to_id vs v = Some a" "value_to_id vs w = Some b"
  shows "a < b \<longleftrightarrow> v < w" "a = b \<longleftrightarrow> v = w"
proof -
  note i = holds_index [OF assms(1,2)] and j = holds_index [OF assms(1,3)]
  have s: "sorted_wrt (<) vs" using assms(1) by (simp add: holds_list_def encodable_def)
  have l: "entry_index a < length vs" "entry_index b < length vs" using i(1) j(1) holds_length [OF assms(1)] by simp_all
  have "entry_index a < entry_index b \<longleftrightarrow> v < w"
  proof (cases "entry_index a" "entry_index b" rule: linorder_cases)
    case less
    then show ?thesis using sorted_wrt_nth_less [OF s less l(2)] i(2) j(2) by simp
  next
    case greater
    then show ?thesis using sorted_wrt_nth_less [OF s greater l(1)] i(2) j(2) by simp
  qed (use i(2) j(2) in simp)
  then show "a < b \<longleftrightarrow> v < w" using entry_index_less [OF i(3) j(3)] by simp
  show "a = b \<longleftrightarrow> v = w"
  proof
    show "v = w" if "a = b" using i(2) j(2) that by simp
    show "a = b" if "v = w" using assms(2,3) that by simp
  qed
qed

lemma holds_value: "holds_list checks dict vs \<Longrightarrow> value_to_id vs v = Some t \<Longrightarrow> nesting v \<le> k \<Longrightarrow> value_of dict k t = Some v"
proof (induction v arbitrary: k t)
  case (Literal l d g r)
  note i = holds_index [OF Literal.prems(1,2)]
  obtain lx dt g' dir where e: "pk_entries dict ! entry_index t = ELiteral lx dt g' dir" "value_to_id vs (Iri d) = Some dt"
    "text_at (pk_arena dict) lx l" "rel_option (text_at (pk_arena dict)) g' g" "dir = r"
    using i(4) by (cases "pk_entries dict ! entry_index t") auto
  note j = holds_index [OF Literal.prems(1) e(2)]
  obtain q where "pk_entries dict ! entry_index dt = EIri q" "text_at (pk_arena dict) q d"
    using j(4) by (cases "pk_entries dict ! entry_index dt") auto
  moreover have "map_option (arena_str (pk_arena dict)) g' = g" using e(4) by (rule text_at_option)
  ultimately have "enter_node dict t = Some (Leaf (Literal l d g r))" using e i(5) j(5) by (simp add: enter_node_def text_at_def)
  then show ?case by (cases k) simp_all
next
  case (Triple s p ob)
  note i = holds_index [OF Triple.prems(1,2)]
  obtain a b c where e: "pk_entries dict ! entry_index t = ETriple a b c" and ids: "value_to_id vs s = Some a" "value_to_id vs p = Some b" "value_to_id vs ob = Some c"
    using i(4) by (cases "pk_entries dict ! entry_index t") auto
  obtain j where k: "k = Suc j" using Triple.prems(3) by (cases k) auto
  have "value_of dict j a = Some s" "value_of dict j b = Some p" "value_of dict j c = Some ob"
    using Triple.IH(1) [OF Triple.prems(1) ids(1)] Triple.IH(2) [OF Triple.prems(1) ids(2)] Triple.IH(3) [OF Triple.prems(1) ids(3)] Triple.prems(3)
    by (simp_all add: k)
  then show ?case using i(5) e by (simp add: k enter_node_def)
next
  case (Iri s)
  note i = holds_index [OF Iri.prems(1,2)]
  have "enter_node dict t = Some (Leaf (Iri s))" using i(4,5) by (cases "pk_entries dict ! entry_index t") (auto simp: enter_node_def text_at_def)
  then show ?case by (cases k) simp_all
next
  case (Blank l sc)
  note i = holds_index [OF Blank.prems(1,2)]
  have "enter_node dict t = Some (Leaf (Blank l sc))" using i(4,5) by (cases "pk_entries dict ! entry_index t") (auto simp: enter_node_def text_at_def)
  then show ?case by (cases k) simp_all
qed

lemma holds_nesting:
  "holds_list checks dict vs \<Longrightarrow> value_to_id vs v = Some t \<Longrightarrow> nesting v \<le> k \<Longrightarrow> nest (pk_entries dict) k (entry_index t) = Some (nesting v)"
proof (induction v arbitrary: k t)
  case (Triple s p ob)
  note i = holds_index [OF Triple.prems(1,2)]
  obtain a b c where e: "pk_entries dict ! entry_index t = ETriple a b c" and ids: "value_to_id vs s = Some a" "value_to_id vs p = Some b" "value_to_id vs ob = Some c"
    using i(4) by (cases "pk_entries dict ! entry_index t") auto
  obtain j where k: "k = Suc j" using Triple.prems(3) by (cases k) auto
  show ?case
    using Triple.IH(1) [OF Triple.prems(1) ids(1), of j] Triple.IH(2) [OF Triple.prems(1) ids(2), of j] Triple.IH(3) [OF Triple.prems(1) ids(3), of j] Triple.prems(3)
    by (simp add: k e)
next
  case (Iri s)
  show ?case using holds_index(4) [OF Iri.prems(1,2)] by (cases "pk_entries dict ! entry_index t") (auto simp: nest_leaf)
next
  case (Blank l sc)
  show ?case using holds_index(4) [OF Blank.prems(1,2)] by (cases "pk_entries dict ! entry_index t") (auto simp: nest_leaf)
next
  case (Literal l d g r)
  show ?case using holds_index(4) [OF Literal.prems(1,2)] by (cases "pk_entries dict ! entry_index t") (auto simp: nest_leaf)
qed

lemma holds_nth_id:
  assumes "holds_list checks dict vs" "i < length vs"
  shows "value_to_id vs (vs ! i) = Some (of_nat i + 1)" "entry_index (of_nat i + 1) = i"
  using assms value_to_id_nth [of vs i] encodable_distinct [of checks vs] holds_bound [OF assms(1)] entry_index_of_nat [of i]
  by (simp_all add: holds_list_def)

lemma holds_bounded: "holds_list checks dict vs \<Longrightarrow> nesting_bounded (pk_entries dict)"
  unfolding nesting_bounded_def
proof (intro allI impI)
  fix i assume h: "holds_list checks dict vs" and i: "i < length (pk_entries dict)"
  have il: "i < length vs" using i holds_length [OF h] by simp
  have "nesting (vs ! i) \<le> MAX_TRIPLE_TERM_DEPTH" using h il by (simp add: holds_list_def encodable_def)
  from holds_nesting [OF h holds_nth_id(1) [OF h il] this] show "depth_of_entry (pk_entries dict) i \<noteq> None" by (simp add: holds_nth_id(2) [OF h il])
qed

lemma holds_sorted: "holds_list checks dict vs \<Longrightarrow> sorted_wrt (<) (map (compact_key (pk_arena dict)) (pk_entries dict))"
  unfolding sorted_wrt_iff_nth_less length_map
proof (intro allI impI)
  fix i j assume h: "holds_list checks dict vs" and ij: "i < j" "j < length (pk_entries dict)"
  have l: "i < length vs" "j < length vs" using ij holds_length [OF h] by simp_all
  let ?key = "compact_key (pk_arena dict)" and ?e = "pk_entries dict ! i" and ?e' = "pk_entries dict ! j"
  have vs: "vs ! i < vs ! j" using h ij(1) l(2) sorted_wrt_nth_less [of "(<)" vs i j] by (simp add: holds_list_def encodable_def)
  note e = holds_nth [OF h l(1)] and e' = holds_nth [OF h l(2)]
  have "?key ?e < ?key ?e'"
  proof (cases "vs ! i"; cases "vs ! j")
    fix lx d g r lx' d' g' r'
    assume t: "vs ! i = Literal lx d g r" "vs ! j = Literal lx' d' g' r'"
    obtain a q qg where a: "?e = ELiteral q a qg r" "value_to_id vs (Iri d) = Some a" "text_at (pk_arena dict) q lx" "rel_option (text_at (pk_arena dict)) qg g"
      using e by (cases ?e) (auto simp: t)
    obtain a' q' qg' where a': "?e' = ELiteral q' a' qg' r'" "value_to_id vs (Iri d') = Some a'" "text_at (pk_arena dict) q' lx'" "rel_option (text_at (pk_arena dict)) qg' g'"
      using e' by (cases ?e') (auto simp: t)
    have k: "?key ?e = (1, (a, 0, 0), g, lx, r, 0)" "?key ?e' = (1, (a', 0, 0), g', lx', r', 0)"
      using text_at_option [OF a(4)] text_at_option [OF a'(4)] a(1,3) a'(1,3) by (simp_all add: text_at_def)
    have o: "a < a' \<longleftrightarrow> d < d'" "a = a' \<longleftrightarrow> d = d'" using holds_ids_order [OF h a(2) a'(2)] by (simp_all add: less_shallow)
    have "(1 :: nat, d, g, lx, r, 0 :: u32) < (1, d', g', lx', r', 0)" using vs by (simp add: t less_shallow)
    then consider "a < a'" | "a = a'" "d = d'" "(g, lx, r, 0 :: u32) < (g', lx', r', 0)" using o by (auto simp: order.order_iff_strict)
    then show ?thesis unfolding k by cases simp_all
  next
    fix s p ob s' p' ob'
    assume t: "vs ! i = Triple s p ob" "vs ! j = Triple s' p' ob'"
    obtain a b c where a: "?e = ETriple a b c" "value_to_id vs s = Some a" "value_to_id vs p = Some b" "value_to_id vs ob = Some c"
      using e by (cases ?e) (auto simp: t)
    obtain a' b' c' where a': "?e' = ETriple a' b' c'" "value_to_id vs s' = Some a'" "value_to_id vs p' = Some b'" "value_to_id vs ob' = Some c'"
      using e' by (cases ?e') (auto simp: t)
    note o = holds_ids_order [OF h a(2) a'(2)] holds_ids_order [OF h a(3) a'(3)] holds_ids_order [OF h a(4) a'(4)]
    show ?thesis using vs unfolding t less_triple by (auto simp: a a' order.order_iff_strict o)
  qed (use vs e e' in \<open>cases ?e; cases ?e'; auto simp: less_shallow text_at_def\<close>)+
  then show "map ?key (pk_entries dict) ! i < map ?key (pk_entries dict) ! j" using ij by simp
qed

lemma holds_check_entry:
  assumes h: "holds_list checks dict vs" and i: "i < length vs"
  shows "check_entry checks dict (pk_entries dict ! i) = Some (Inr ())"
proof -
  note e = holds_nth [OF h i]
  have ok: "term_ok checks (vs ! i)" using h i by (simp add: holds_list_def encodable_def)
  have len: "length (pk_entries dict) < 2 ^ 64" using holds_bound [OF h] holds_length [OF h] by simp
  have in_range: "id_in_range dict t" if "value_to_id vs v = Some t" for v t
    using holds_index(1) [OF h that] by (simp add: id_in_range_index [OF len])
  show ?thesis
  proof (cases "vs ! i")
    case (Literal l d g r)
    obtain q a qg where a: "pk_entries dict ! i = ELiteral q a qg r" "value_to_id vs (Iri d) = Some a" "rel_option (text_at (pk_arena dict)) qg g"
      using e by (cases "pk_entries dict ! i") (auto simp: Literal)
    note j = holds_index [OF h a(2)]
    obtain qd where "pk_entries dict ! entry_index a = EIri qd" "arena_str (pk_arena dict) qd = d"
      using j(4) by (cases "pk_entries dict ! entry_index a") (auto simp: text_at_def)
    then show ?thesis using ok in_range [OF a(2)] j(5) by (simp add: a(1) Literal text_at_option [OF a(3)] Let_def split: option.splits)
  next
    case (Triple s p ob)
    then show ?thesis using e in_range by (cases "pk_entries dict ! i") auto
  qed (use e in \<open>cases "pk_entries dict ! i"; simp\<close>)+
qed

lemma check_entries_ok:
  "\<forall>e\<in>set es. check_entry checks dict e = Some (Inr ()) \<Longrightarrow> check_entries checks dict es = check_entries checks dict []"
  by (induction es) auto

lemma holds_checks:
  fixes checks :: "('l, 'i) term_checks"
  assumes h: "holds_list checks dict vs"
  shows "validate_references checks dict = Some (Inr ())" "validate_canonical_order dict = (Inr () :: ('l, 'i) dict_error + unit)"
proof -
  have len: "length (pk_entries dict) < 2 ^ 64" using holds_bound [OF h] holds_length [OF h] by simp
  have entries: "\<forall>e\<in>set (pk_entries dict). check_entry checks dict e = Some (Inr ())"
    using holds_check_entry [OF h] holds_length [OF h] by (auto simp: in_set_conv_nth)
  have "refs_valid dict" unfolding refs_valid_def using entries check_entry_refs [OF _ len] by blast
  from validate_nesting [OF refs_components [OF this] len, where 'l = 'l and 'i = 'i] holds_bounded [OF h]
  have "validate_triple_terms_bounded dict = (Some (Inr ()) :: (('l, 'i) dict_error + unit) option)"
    by (auto split: option.splits sum.splits)
  then show "validate_references checks dict = Some (Inr ())"
    by (simp add: validate_references_def check_entries_ok [OF entries])
  show "validate_canonical_order dict = (Inr () :: ('l, 'i) dict_error + unit)"
    using holds_sorted [OF h] by (simp add: validate_canonical_order_def ascending_keys)
qed

section \<open>Writing and opening\<close>

lemma length_text_bytes: "length (text_bytes s) \<le> 10 + length s"
  using varint_bytes_bounds(2) [of "of_nat (length s)"] by (simp add: text_bytes_def)

lemma length_record_bytes: "length (record_bytes ids v) \<le> 60 + length (texts_of v)"
proof (cases v)
  case (Literal l d g r)
  then show ?thesis using length_text_bytes [of l] length_text_bytes [of "the g"] varint_bytes_bounds(2) [of "the (ids (Iri d))"]
    by (cases g) auto
next
  case (Triple s p ob)
  then show ?thesis using varint_bytes_bounds(2) [of "the (ids s)"] varint_bytes_bounds(2) [of "the (ids p)"] varint_bytes_bounds(2) [of "the (ids ob)"] by simp
next
  case (Blank l sc)
  then show ?thesis using length_text_bytes [of l] varint_bytes_bounds(2) [of "ucast sc"] by simp
next
  case (Iri s)
  then show ?thesis using length_text_bytes [of s] by simp
qed

lemma encodable_record:
  assumes "encodable checks vs" "v \<in> set vs"
  shows "known (value_to_id vs) v \<and> valid_texts v \<and> length (record_bytes (value_to_id vs) v) < 2 ^ 64"
proof -
  have "length (texts_of v) \<le> length (concat (map texts_of vs))"
    using assms(2) by (simp add: length_concat member_le_sum_list)
  then have "length (texts_of v) < 2 ^ 32" using assms(1) by (simp add: encodable_def)
  then show ?thesis using length_record_bytes [of "value_to_id vs" v] encodable_known [OF assms] assms term_ok_texts [of checks v]
    by (simp add: encodable_def)
qed

text \<open>The one dictionary that opening the encoding of a list returns.\<close>

lemma encoded_opens:
  fixes checks :: "('l, 'i) term_checks"
  assumes enc: "encodable checks vs" and bytes: "encode_values vs (value_to_id vs) = Some bytes" "length bytes < 2 ^ 64"
  obtains dict where "decode_value_list checks bytes (of_nat (length vs)) = Some (Inr dict)" "holds_list checks dict vs"
    "peek_term_count bytes = (Inr (of_nat (length vs)) :: ('l, 'i) dict_error + u64)"
proof -
  let ?ids = "value_to_id vs"
  have ok: "\<forall>v\<in>set vs. known ?ids v \<and> valid_texts v \<and> length (record_bytes ?ids v) < 2 ^ 64"
    using encodable_record [OF enc] by blast
  have len: "length vs < 2 ^ 58" using enc by (simp add: encodable_def)
  note w = decode_values_written(1) [OF ok len bytes, where checks = checks and dict = "\<lparr>pk_arena = [], pk_entries = []\<rparr>"]
    decode_values_written(2) [OF ok len bytes]
  obtain es where es: "push_all checks \<lparr>pk_arena = [], pk_entries = []\<rparr> (map (raw_of ?ids) vs) =
      Inr \<lparr>pk_arena = concat (map texts_of vs), pk_entries = es\<rparr>" "list_all2 (entry_holds ?ids (concat (map texts_of vs))) es vs"
    using push_all_holds [of vs checks ?ids "\<lparr>pk_arena = [], pk_entries = []\<rparr>"] enc encodable_known [OF enc] by (auto simp: encodable_def)
  define dict where "dict = \<lparr>pk_arena = concat (map texts_of vs), pk_entries = es\<rparr>"
  have h: "holds_list checks dict vs" using es(2) enc by (simp add: holds_list_def dict_def)
  have "decode_value_list checks bytes (of_nat (length vs)) = Some (Inr dict)"
    using holds_checks [OF h] by (simp add: decode_value_list_def w(1) es(1) dict_def)
  moreover have "peek_term_count bytes = (Inr (of_nat (length vs)) :: ('l, 'i) dict_error + u64)"
    by (simp add: peek_term_count_def w(2))
  ultimately show ?thesis using that h by blast
qed

lemma holds_term_value:
  assumes "holds_list checks dict vs" "i < length vs"
  shows "term_value_at dict (of_nat i + 1) = Some (vs ! i)"
proof -
  have "nesting (vs ! i) \<le> MAX_TRIPLE_TERM_DEPTH" using assms by (simp add: holds_list_def encodable_def)
  from term_value_at_of [OF holds_value [OF assms(1) holds_nth_id(1) [OF assms] this]] show ?thesis .
qed

end
