(* ===== verification/MarkGroups.thy ===== *)
theory MarkGroups
  imports Sequences
begin

text \<open>
  The mark-last reading of a flat array (\<open>crates/rdf-core/src/ir/pack/triples.rs\<close>): a list
  whose equal neighbours form groups, the bitmap that marks the last position of each group,
  and what \<open>rank1\<close> and \<open>mark_last_range\<close> answer on that bitmap. Then the lists of positions
  the index stores and visits.
\<close>

section \<open>Groups of equal neighbours\<close>

definition mark_at :: "'a list \<Rightarrow> nat \<Rightarrow> bool" where
  "mark_at xs i \<longleftrightarrow> Suc i = length xs \<or> xs ! i \<noteq> xs ! Suc i"

definition mark_bits :: "'a list \<Rightarrow> bool list" where
  "mark_bits xs = map (mark_at xs) [0..<length xs]"

definition group_of :: "'a list \<Rightarrow> nat \<Rightarrow> nat" where
  "group_of xs = count_upto (mark_at xs)"

lemma count_upto_Suc_shift: "count_upto P (Suc n) = (if P 0 then 1 else 0) + count_upto (\<lambda>i. P (Suc i)) n"
  using count_upto_add [of P 1 n] by simp

lemma mark_at_Cons: "mark_at (x # xs) (Suc i) = mark_at xs i"
  "mark_at (x # xs) 0 \<longleftrightarrow> xs = [] \<or> x \<noteq> hd xs"
  by (auto simp: mark_at_def hd_conv_nth)

lemma group_of_Cons: "group_of (x # xs) (Suc i) = (if xs = [] \<or> x \<noteq> hd xs then 1 else 0) + group_of xs i"
  unfolding group_of_def count_upto_Suc_shift mark_at_Cons ..

lemma group_of_0 [simp]: "group_of xs 0 = 0"
  by (simp add: group_of_def)

lemma group_of_Suc: "group_of xs (Suc i) = group_of xs i + (if mark_at xs i then 1 else 0)"
  by (simp add: group_of_def)

lemma group_of_mono: "i \<le> j \<Longrightarrow> group_of xs i \<le> group_of xs j"
  by (simp add: group_of_def count_upto_mono)

lemma remdups_adj_hd: "xs \<noteq> [] \<Longrightarrow> remdups_adj xs \<noteq> [] \<and> hd (remdups_adj xs) = hd xs"
  by (induction xs rule: remdups_adj.induct) auto

lemma remdups_adj_Cons_eq: "remdups_adj (x # xs) = (if xs = [] \<or> x \<noteq> hd xs then x # remdups_adj xs else remdups_adj xs)"
  by (cases xs) auto

lemma group_of_length: "group_of xs (length xs) = length (remdups_adj xs)"
  by (induction xs) (auto simp: group_of_Cons remdups_adj_Cons_eq)

lemma remdups_adj_group: "i < length xs \<Longrightarrow> remdups_adj xs ! group_of xs i = xs ! i"
proof (induction xs arbitrary: i)
  case (Cons x xs)
  show ?case
  proof (cases i)
    case 0
    have "remdups_adj (x # xs) ! 0 = hd (remdups_adj (x # xs))"
      by (metis hd_conv_nth list.distinct(1) remdups_adj_hd)
    then show ?thesis using 0 remdups_adj_hd [of "x # xs"] by simp
  next
    case (Suc j)
    then show ?thesis using Cons by (auto simp: group_of_Cons remdups_adj_Cons_eq)
  qed
qed simp

lemma group_of_less: "i < length xs \<Longrightarrow> group_of xs i < length (remdups_adj xs)"
proof (induction xs arbitrary: i)
  case (Cons x xs)
  have "remdups_adj (x # xs) \<noteq> []" using remdups_adj_hd [of "x # xs"] by simp
  then show ?case
    using Cons by (cases i) (auto simp: group_of_Cons remdups_adj_Cons_eq split: if_splits)
qed simp

lemma strict_nth_eq: "sorted_wrt (<) xs \<Longrightarrow> i < length xs \<Longrightarrow> j < length xs \<Longrightarrow> xs ! i = xs ! j \<longleftrightarrow> i = (j::nat)"
  for xs :: "'a::linorder list"
  using strict_sorted_imp_sorted [of xs] strict_sorted_iff [of xs] nth_eq_iff_index_eq by blast

text \<open>In a sorted list the groups are the values.\<close>

lemma group_of_eq_iff:
  fixes xs :: "'a::linorder list"
  assumes "sorted xs" "i < length xs" "k < length (remdups_adj xs)"
  shows "group_of xs i = k \<longleftrightarrow> xs ! i = remdups_adj xs ! k"
  using strict_nth_eq [OF strict_remdups_adj [OF assms(1)] group_of_less [OF assms(2)] assms(3)]
    remdups_adj_group [OF assms(2)] by simp

section \<open>The bitmap of group ends\<close>

lemma marks_facts:
  assumes "marks r (mark_bits xs)"
  shows "rsr_valid r" "rsr_len r = length xs" "\<And>i. i \<le> length xs \<Longrightarrow> ones (rsr_words r) i = group_of xs i"
    "\<And>i. i < length xs \<Longrightarrow> words_bit (rsr_words r) i = mark_at xs i"
proof -
  show v: "rsr_valid r" using assms by (simp add: marks_def)
  have eq: "map (words_bit (rsr_words r)) [0..<rsr_len r] = map (mark_at xs) [0..<length xs]"
    using assms by (simp add: marks_def mark_bits_def)
  show l: "rsr_len r = length xs" using arg_cong [OF eq, of length] by simp
  show b: "words_bit (rsr_words r) i = mark_at xs i" if "i < length xs" for i
    using arg_cong [OF eq, of "\<lambda>l. l ! i"] that l by simp
  show "ones (rsr_words r) i = group_of xs i" if "i \<le> length xs" for i
    unfolding ones_def group_of_def using that b by (intro count_upto_cong) simp
qed

lemma rank1_marks:
  "marks r (mark_bits xs) \<Longrightarrow> i \<le> length xs \<Longrightarrow> rank1 (rsr_dir r) i = Some (group_of xs i)"
  using borrowed.rank1_correct [of r i] marks_facts [of r xs] by simp

lemma filter_between_aux: "filter (\<lambda>i. s \<le> i \<and> i < n) [0..<n] = [s..<n]"
proof (induction n)
  case (Suc n)
  have "filter (\<lambda>i. s \<le> i \<and> i < Suc n) [0..<n] = filter (\<lambda>i. s \<le> i \<and> i < n) [0..<n]"
    by (intro filter_cong) auto
  then show ?case using Suc by auto
qed simp

lemma filter_between: "e \<le> n \<Longrightarrow> filter (\<lambda>i. s \<le> i \<and> i < e) [0..<n] = [s..<e]"
proof (induction n)
  case (Suc n)
  show ?case
  proof (cases "e = Suc n")
    case True
    have "filter (\<lambda>i. s \<le> i \<and> i < Suc n) [0..<n] = filter (\<lambda>i. s \<le> i \<and> i < n) [0..<n]"
      by (intro filter_cong) auto
    then show ?thesis using True filter_between_aux [of s n] by auto
  qed (use Suc in auto)
qed auto

lemma mark_range:
  assumes m: "marks r (mark_bits xs)" and k: "k < length (remdups_adj xs)"
  obtains s e where "mark_last_range r k = Some (Some (s, e))" "s < e" "e \<le> length xs"
    "[s..<e] = filter (\<lambda>i. group_of xs i = k) [0..<length xs]"
    "\<And>i. i < length xs \<Longrightarrow> group_of xs i = k \<longleftrightarrow> s \<le> i \<and> i < e"
proof -
  note f = marks_facts [OF m]
  have "k < ones (rsr_words r) (rsr_len r)" using k f(2,3) by (simp add: group_of_length)
  then obtain s e where r: "mark_last_range r k = Some (Some (s, e))" and b: "s < e" "e \<le> length xs"
    and g: "group_of xs s = k" "mark_at xs (e - 1)" "group_of xs (e - 1) = k" "s = 0 \<or> mark_at xs (s - 1)"
    using mark_last_range_correct [OF f(1), of k] f(2-4) by auto
  have in_range: "group_of xs i = k \<longleftrightarrow> s \<le> i \<and> i < e" if "i < length xs" for i
  proof
    assume i: "s \<le> i \<and> i < e"
    then show "group_of xs i = k"
      using group_of_mono [of s i xs] group_of_mono [of i "e - 1" xs] g(1,3) b(1) by auto
  next
    assume k: "group_of xs i = k"
    have "s \<le> i"
    proof (rule ccontr)
      assume "\<not> s \<le> i"
      then have "i \<le> s - 1" "s \<noteq> 0" "Suc (s - 1) = s" by auto
      then show False
        using group_of_mono [of i "s - 1" xs] group_of_Suc [of xs "s - 1"] g(1,4) k by simp
    qed
    moreover have "i < e"
    proof (rule ccontr)
      assume "\<not> i < e"
      then show False
        using group_of_mono [of e i xs] group_of_Suc [of xs "e - 1"] g(2,3) k b(1) by simp
    qed
    ultimately show "s \<le> i \<and> i < e" by simp
  qed
  have "[s..<e] = filter (\<lambda>i. group_of xs i = k) [0..<length xs]"
    unfolding filter_between [OF b(2), symmetric] by (intro filter_cong) (auto simp: in_range)
  then show ?thesis using that r b in_range by blast
qed

section \<open>Visiting positions group by group\<close>

lemma filter_split_mono:
  assumes "\<And>i j. i \<le> j \<Longrightarrow> j < n \<Longrightarrow> f i \<le> (f j :: nat)"
  shows "filter (\<lambda>i. f i < Suc m) [0..<n] = filter (\<lambda>i. f i < m) [0..<n] @ filter (\<lambda>i. f i = m) [0..<n]"
  using assms
proof (induction n)
  case (Suc n)
  then have IH: "filter (\<lambda>i. f i < Suc m) [0..<n] = filter (\<lambda>i. f i < m) [0..<n] @ filter (\<lambda>i. f i = m) [0..<n]"
    by simp
  have "filter (\<lambda>i. f i = m) [0..<n] = []" if "f n < m"
    using Suc.prems [of _ n] that by (auto simp: filter_empty_conv) (meson less_imp_le_nat linorder_not_le)
  then show ?case using IH by auto
qed simp

lemma concat_groups:
  assumes "\<And>i j. i \<le> j \<Longrightarrow> j < n \<Longrightarrow> f i \<le> (f j :: nat)"
  shows "concat (map (\<lambda>k. filter (\<lambda>i. f i = k) [0..<n]) [0..<m]) = filter (\<lambda>i. f i < m) [0..<n]"
  using filter_split_mono [of n f, OF assms] by (induction m) simp_all

lemma concat_groups_filter:
  assumes mono: "\<And>i j. i \<le> j \<Longrightarrow> j < n \<Longrightarrow> f i \<le> (f j :: nat)" and m: "\<And>i. i < n \<Longrightarrow> f i < m"
  shows "concat (map (\<lambda>k. filter (\<lambda>i. f i = k) [0..<n]) (filter R [0..<m])) = filter (\<lambda>i. R (f i)) [0..<n]"
proof -
  have all: "filter (\<lambda>i. f i < m) [0..<n] = [0..<n]" using m by (auto simp: filter_id_conv)
  have "concat (map (\<lambda>k. filter (\<lambda>i. f i = k) [0..<n]) (filter R ks)) =
      filter (\<lambda>i. R (f i)) (concat (map (\<lambda>k. filter (\<lambda>i. f i = k) [0..<n]) ks))" for ks
  proof (induction ks)
    case (Cons k ks)
    have "filter (\<lambda>i. R (f i)) (filter (\<lambda>i. f i = k) [0..<n]) = (if R k then filter (\<lambda>i. f i = k) [0..<n] else [])"
      by (auto simp: filter_empty_conv intro: filter_cong)
    then show ?case using Cons by simp
  qed simp
  then show ?thesis by (simp only: concat_groups [of n f, OF mono] all)
qed

lemma filter_positions: "filter Q xs = map ((!) xs) (filter (\<lambda>i. Q (xs ! i)) [0..<length xs])"
proof -
  have "filter Q (map ((!) xs) [0..<length xs]) = map ((!) xs) (filter (\<lambda>i. Q (xs ! i)) [0..<length xs])"
    by (simp add: filter_map comp_def)
  then show ?thesis by (simp add: map_nth)
qed

text \<open>Two strictly ascending lists of positions with the same members are equal.\<close>

lemma positions_eqI:
  assumes "sorted_wrt (<) xs" "sorted_wrt (<) ys" "set xs = set (ys :: nat list)"
  shows "xs = ys"
  using assms strict_sorted_equal by blast

lemma strict_filter_upt: "sorted_wrt (<) (filter R [0..<n])"
  by (simp add: sorted_wrt_filter)

lemma strict_map_positions:
  assumes "\<And>i j. i < j \<Longrightarrow> j < n \<Longrightarrow> R i \<Longrightarrow> R j \<Longrightarrow> f i < (f j :: nat)"
  shows "sorted_wrt (<) (map f (filter R [0..<n]))"
  using assms by (induction n) (auto simp: sorted_wrt_append)

end
