(* ===== verification/TriplesEncode.thy ===== *)
theory TriplesEncode
  imports MarkGroups "HOL-Library.Product_Lexorder"
begin

text \<open>
  Encoding one graph partition of the triple index
  (\<open>encode_partition\<close> in \<open>crates/rdf-core/src/ir/pack/triples.rs\<close>): local numbering, the
  two-level adjacency \<open>Sp\<close>/\<open>Bp\<close>/\<open>So\<close>/\<open>Bo\<close> and the predicate and object position lists.
  The nested loops over \<open>i\<close>, \<open>j\<close> and \<open>k\<close> run on the suffix of the sorted list each index
  points at. The lemmas say which lists the sections hold.
\<close>

section \<open>The code\<close>

type_synonym triple = "u64 \<times> u64 \<times> u64"

text \<open>\<open>slice::binary_search\<close> on a sorted slice, \<open>Vec::push\<close> at an indexed entry, and the
  length-framed field of \<open>crates/hash/src/frame.rs\<close>.\<close>

definition std_binary_search :: "'a::linorder list \<Rightarrow> 'a \<Rightarrow> nat option" where
  "std_binary_search xs x =
     (let i = length (takeWhile (\<lambda>y. y < x) xs) in if i < length xs \<and> xs ! i = x then Some i else None)"

definition push_at :: "'a list list \<Rightarrow> nat \<Rightarrow> 'a \<Rightarrow> 'a list list option" where
  "push_at xs i x = (if i < length xs then Some (xs[i := xs ! i @ [x]]) else None)"

definition incr_at :: "u64 list \<Rightarrow> nat \<Rightarrow> u64 list option" where
  "incr_at xs i = (if i < length xs then Some (xs[i := xs ! i + 1]) else None)"

definition frame_le :: "bytes \<Rightarrow> bytes \<Rightarrow> bytes" where
  "frame_le out bs = out @ le_bytes 8 (of_nat (length bs) :: u64) @ bs"

definition local_triples :: "u64 list \<Rightarrow> u64 list \<Rightarrow> u64 list \<Rightarrow> triple list \<Rightarrow> triple list option" where
  "local_triples s_set p_set o_set triples =
     those (map (\<lambda>(s, p, ob). do {
       a \<leftarrow> std_binary_search s_set s;
       b \<leftarrow> std_binary_search p_set p;
       c \<leftarrow> std_binary_search o_set ob;
       Some (of_nat a, of_nat b, of_nat c)
     }) triples)"

record enc =
  e_sp :: int_vector
  e_bp :: bit_vec
  e_so :: int_vector
  e_bo :: bit_vec
  e_pred_positions :: "u64 list list"
  e_pred_totals :: "u64 list"
  e_obj_positions :: "u64 list list"

text \<open>The innermost loop, over the objects of one \<open>(s, p)\<close> pair.\<close>

fun enc_objects :: "u64 \<Rightarrow> u64 \<Rightarrow> u64 \<Rightarrow> enc \<Rightarrow> triple list \<Rightarrow> (enc \<times> triple list) option" where
  "enc_objects s p sp_pos e [] = Some (e, [])"
| "enc_objects s p sp_pos e ((s', p', ob) # rest) =
     (if s' = s \<and> p' = p then do {
        so \<leftarrow> iv_push (e_so e) ob;
        objs \<leftarrow> push_at (e_obj_positions e) (unat ob) sp_pos;
        totals \<leftarrow> incr_at (e_pred_totals e) (unat p);
        bo \<leftarrow> bv_push (e_bo e) (rest = [] \<or> fst (hd rest) \<noteq> s \<or> fst (snd (hd rest)) \<noteq> p);
        enc_objects s p sp_pos
          (e\<lparr>e_so := so, e_obj_positions := objs, e_pred_totals := totals, e_bo := bo\<rparr>) rest
      }
      else Some (e, (s', p', ob) # rest))"

lemma enc_objects_length: "enc_objects s p pos e xs = Some (e', rest) \<Longrightarrow> length rest \<le> length xs"
  by (induction s p pos e xs rule: enc_objects.induct)
    (auto split: if_splits option.splits Option.bind_splits intro: le_SucI)

lemma enc_objects_progress:
  "enc_objects s p pos e ((s, p, ob) # xs) = Some (e', rest) \<Longrightarrow> length rest \<le> length xs"
  by (auto split: Option.bind_splits dest: enc_objects_length)

text \<open>The middle loop, over the pairs of one subject.\<close>

function enc_preds :: "u64 \<Rightarrow> enc \<Rightarrow> triple list \<Rightarrow> (enc \<times> triple list) option" where
  "enc_preds s e suffix =
     (case suffix of
        [] \<Rightarrow> Some (e, [])
      | (s', p, ob) # _ \<Rightarrow>
        if s' \<noteq> s then Some (e, suffix)
        else
          let sp_pos = of_nat (iv_len (e_sp e))
          in do {
            sp \<leftarrow> iv_push (e_sp e) p;
            preds \<leftarrow> push_at (e_pred_positions e) (unat p) sp_pos;
            (case enc_objects s p sp_pos (e\<lparr>e_sp := sp, e_pred_positions := preds\<rparr>) suffix of
               None \<Rightarrow> None
             | Some (e, rest) \<Rightarrow> do {
                 bp \<leftarrow> bv_push (e_bp e) (rest = [] \<or> fst (hd rest) \<noteq> s);
                 enc_preds s (e\<lparr>e_bp := bp\<rparr>) rest
               })
          })"
  by auto
termination
  by (relation "measure (\<lambda>(_, _, xs). length xs)") (auto dest: enc_objects_progress)

declare enc_preds.simps [simp del]

lemma enc_preds_length: "enc_preds s e xs = Some (e', rest) \<Longrightarrow> length rest \<le> length xs"
proof (induction s e xs rule: enc_preds.induct)
  case (1 s e xs)
  show ?case
  proof (cases xs)
    case Nil
    then show ?thesis using 1(2) by (simp add: enc_preds.simps)
  next
    case (Cons x ys)
    obtain s' p ob where x: "x = (s', p, ob)" by (cases x)
    show ?thesis
    proof (cases "s' = s")
      case False
      then show ?thesis using 1(2) Cons x by (simp add: enc_preds.simps)
    next
      case True
      define pos where "pos = (of_nat (iv_len (e_sp e)) :: u64)"
      obtain sp preds e1 r1 bp where s: "iv_push (e_sp e) p = Some sp"
        "push_at (e_pred_positions e) (unat p) pos = Some preds"
        "enc_objects s p pos (e\<lparr>e_sp := sp, e_pred_positions := preds\<rparr>) xs = Some (e1, r1)"
        "bv_push (e_bp e1) (r1 = [] \<or> fst (hd r1) \<noteq> s) = Some bp"
        "enc_preds s (e1\<lparr>e_bp := bp\<rparr>) r1 = Some (e', rest)"
        using 1(2) Cons x True
        by (subst (asm) enc_preds.simps) (auto simp: pos_def Let_def split: Option.bind_splits option.splits)
      have "length rest \<le> length r1"
        using 1(1) [OF Cons x [symmetric] refl _ pos_def s(1,2,3) refl s(4,5)] True by simp
      also have "length r1 \<le> length xs" by (rule enc_objects_length [OF s(3)])
      finally show ?thesis .
    qed
  qed
qed

lemma enc_preds_progress:
  assumes "enc_preds s e ((s, p, ob) # xs) = Some (e', rest)"
  shows "length rest \<le> length xs"
  using assms
  by (subst (asm) enc_preds.simps)
    (auto simp: Let_def simp del: enc_objects.simps split: Option.bind_splits option.splits
      dest!: enc_preds_length enc_objects_progress)

text \<open>The outermost loop, over the subjects.\<close>

function enc_subjects :: "enc \<Rightarrow> triple list \<Rightarrow> enc option" where
  "enc_subjects e suffix =
     (case suffix of
        [] \<Rightarrow> Some e
      | (s, p, ob) # _ \<Rightarrow>
        (case enc_preds s e suffix of None \<Rightarrow> None | Some (e, rest) \<Rightarrow> enc_subjects e rest))"
  by auto
termination
  by (relation "measure (\<lambda>(_, xs). length xs)") (auto dest: enc_preds_progress)

declare enc_subjects.simps [simp del]

text \<open>The loop that concatenates one index's delta lists.\<close>

fun index_data :: "u64 list list \<Rightarrow> bytes \<Rightarrow> u64 list \<Rightarrow> u64 list \<Rightarrow> bytes \<times> u64 list \<times> u64 list" where
  "index_data [] dat offsets counts = (dat, offsets, counts)"
| "index_data (positions # tl_positions) dat offsets counts =
     index_data tl_positions (write_delta_list dat positions) (offsets @ [of_nat (length dat)])
       (counts @ [of_nat (length positions)])"

text \<open>The adjacency of the sorted local triples, and the byte block of a partition.\<close>

definition enc_adjacency :: "nat \<Rightarrow> nat \<Rightarrow> triple list \<Rightarrow> enc option" where
  "enc_adjacency n_p n_o rows = do {
     sp \<leftarrow> iv_with_width (bits_for (of_nat (n_p - 1)));
     so \<leftarrow> iv_with_width (bits_for (of_nat (n_o - 1)));
     enc_subjects \<lparr>e_sp = sp, e_bp = bv_new, e_so = so, e_bo = bv_new,
        e_pred_positions = replicate n_p [], e_pred_totals = replicate n_p 0,
        e_obj_positions = replicate n_o []\<rparr> rows
   }"

definition encode_partition :: "u64 option \<Rightarrow> triple list \<Rightarrow> bytes option" where
  "encode_partition graph_id triples =
     (let s_set = remdups_adj (sort (map fst triples));
          p_set = remdups_adj (sort (map (fst \<circ> snd) triples));
          o_set = remdups_adj (sort (map (snd \<circ> snd) triples))
      in do {
       locals \<leftarrow> local_triples s_set p_set o_set triples;
       let rows = remdups_adj (sort locals);
       e \<leftarrow> enc_adjacency (length p_set) (length o_set) rows;
       local_s \<leftarrow> iv_from_values s_set;
       local_p \<leftarrow> iv_from_values p_set;
       local_o \<leftarrow> iv_from_values o_set;
       (case index_data (e_pred_positions e) [] [] [] of (pred_index_data, pred_offsets, pred_counts) \<Rightarrow>
        case index_data (e_obj_positions e) [] [] [] of (obj_index_data, obj_offsets, obj_counts) \<Rightarrow> do {
          bp \<leftarrow> bv_freeze (e_bp e);
          bo \<leftarrow> bv_freeze (e_bo e);
          po \<leftarrow> iv_from_values pred_offsets;
          pc \<leftarrow> iv_from_values pred_counts;
          pt \<leftarrow> iv_from_values (e_pred_totals e);
          oo \<leftarrow> iv_from_values obj_offsets;
          oc \<leftarrow> iv_from_values obj_counts;
          Some (frame_le (frame_le
            (le_bytes 8 (case graph_id of None \<Rightarrow> 0 | Some g \<Rightarrow> g) @
             le_bytes 8 (of_nat (length rows) :: u64) @ iv_to_bytes local_s @ iv_to_bytes local_p @
             iv_to_bytes local_o @ iv_to_bytes (e_sp e) @ rs_to_bytes bp @ iv_to_bytes (e_so e) @
             rs_to_bytes bo @ iv_to_bytes po @ iv_to_bytes pc @ iv_to_bytes pt)
            pred_index_data @ iv_to_bytes oo @ iv_to_bytes oc) obj_index_data)
        })
     })"

end
