(* ===== verification/TriplesBuild.thy ===== *)
theory TriplesBuild
  imports TriplesEncode
begin

text \<open>
  What the encoder of a partition builds (\<open>encode_partition\<close> in
  \<open>crates/rdf-core/src/ir/pack/triples.rs\<close>): after the nested loops, \<open>Sp\<close> and \<open>So\<close> are the
  predicates of the pairs and the objects of the rows, the two bitmaps mark the last position
  of each subject and of each pair, and the position lists are the occurrences of each
  predicate and object. The loops are proved by one invariant indexed by the rows and the
  pairs done so far.
\<close>

section \<open>The lists a partition stands for\<close>

abbreviation pair_of :: "triple \<Rightarrow> u64 \<times> u64" where "pair_of t \<equiv> (fst t, fst (snd t))"
abbreviation obj_of :: "triple \<Rightarrow> u64" where "obj_of t \<equiv> snd (snd t)"

definition pairs :: "triple list \<Rightarrow> (u64 \<times> u64) list" where "pairs T = map pair_of T"
definition pair_list :: "triple list \<Rightarrow> (u64 \<times> u64) list" where "pair_list T = remdups_adj (pairs T)"
definition subj_list :: "triple list \<Rightarrow> u64 list" where "subj_list T = map fst (pair_list T)"
definition sp_list :: "triple list \<Rightarrow> u64 list" where "sp_list T = map snd (pair_list T)"

definition pred_positions :: "triple list \<Rightarrow> nat \<Rightarrow> u64 \<Rightarrow> u64 list" where
  "pred_positions T j p = map of_nat (filter (\<lambda>i. sp_list T ! i = p) [0..<j])"

definition obj_positions :: "triple list \<Rightarrow> nat \<Rightarrow> u64 \<Rightarrow> u64 list" where
  "obj_positions T k ob = map (of_nat \<circ> group_of (pairs T)) (filter (\<lambda>i. obj_of (T ! i) = ob) [0..<k])"

definition pred_total :: "triple list \<Rightarrow> nat \<Rightarrow> u64 \<Rightarrow> u64" where
  "pred_total T k p = of_nat (length (filter (\<lambda>i. fst (snd (T ! i)) = p) [0..<k]))"

lemma lengths [simp]: "length (pairs T) = length T" "length (subj_list T) = length (pair_list T)"
  "length (sp_list T) = length (pair_list T)"
  by (simp_all add: pairs_def subj_list_def sp_list_def)

lemma pairs_nth [simp]: "i < length T \<Longrightarrow> pairs T ! i = pair_of (T ! i)"
  by (simp add: pairs_def)

text \<open>The rows fit the tables, and the sizes stay far below the wrap.\<close>

definition rows_fit :: "triple list \<Rightarrow> nat \<Rightarrow> nat \<Rightarrow> bool" where
  "rows_fit T n_p n_o \<longleftrightarrow> length T < 2 ^ 57 \<and> n_p \<le> 2 ^ 57 \<and> n_o \<le> 2 ^ 57 \<and>
     (\<forall>t\<in>set T. unat (fst (snd t)) < n_p \<and> unat (snd (snd t)) < n_o)"

lemma length_remdups_adj_le: "length (remdups_adj xs) \<le> length xs"
  by (induction xs rule: remdups_adj.induct) auto

lemma pair_list_le: "length (pair_list T) \<le> length T"
  using length_remdups_adj_le [of "pairs T"] by (simp add: pair_list_def)

lemma pair_list_nth: "k < length T \<Longrightarrow> pair_list T ! group_of (pairs T) k = pair_of (T ! k)"
  using remdups_adj_group [of k "pairs T"] by (simp add: pair_list_def)

lemma group_less: "k < length T \<Longrightarrow> group_of (pairs T) k < length (pair_list T)"
  using group_of_less [of k "pairs T"] by (simp add: pair_list_def)

section \<open>Pushing into the stores\<close>

lemma push_fits:
  assumes inv: "iv_inv v" and w: "iv_width v = bits_for (of_nat (n - 1))" and x: "unat x < n"
    and n: "n \<le> 2 ^ 57" and len: "iv_len v < 2 ^ 57"
  obtains v' where "iv_push v x = Some v'" "iv_inv v'" "iv_width v' = iv_width v" "iv_values v' = iv_values v @ [x]"
proof -
  have "unat (of_nat (n - 1) :: u64) = n - 1" using n by (simp add: unat_of_nat_64)
  then have "x \<le> of_nat (n - 1)" using x by (simp add: word_le_nat_alt)
  then have fit: "\<forall>j\<ge>iv_width v. \<not> bit x j" unfolding w by (auto dest: bits_for_fits)
  have "(iv_len v + 1) * iv_width v \<le> 2 ^ 57 * 64"
    using len inv by (intro mult_le_mono) (auto simp: iv_inv_def)
  then have "(iv_len v + 1) * iv_width v < 2 ^ 64" by simp
  from iv_push_correct [OF inv fit this] that show ?thesis by blast
qed

lemma map_update_upt:
  "i < n \<Longrightarrow> (map f [0..<n])[i := y] = map (\<lambda>q. if q = i then y else f q) [0..<n]"
  by (auto intro!: nth_equalityI simp: nth_list_update)

lemma of_nat_eq_iff_unat: "q \<le> 2 ^ 57 \<Longrightarrow> of_nat q = (x :: u64) \<longleftrightarrow> q = unat x"
proof -
  assume "q \<le> 2 ^ 57"
  then have "q < 2 ^ 64" by simp
  then have "unat (of_nat q :: u64) = q" by (rule unat_of_nat_64)
  then show "of_nat q = x \<longleftrightarrow> q = unat x" by auto
qed

definition enc_inv :: "triple list \<Rightarrow> nat \<Rightarrow> nat \<Rightarrow> nat \<Rightarrow> nat \<Rightarrow> nat \<Rightarrow> enc \<Rightarrow> bool" where
  "enc_inv T n_p n_o k j b e \<longleftrightarrow>
     (iv_inv (e_sp e) \<and> iv_width (e_sp e) = bits_for (of_nat (n_p - 1)) \<and> iv_values (e_sp e) = take j (sp_list T)) \<and>
     (bv_inv (e_bp e) \<and> bv_bits (e_bp e) = map (mark_at (subj_list T)) [0..<b]) \<and>
     (iv_inv (e_so e) \<and> iv_width (e_so e) = bits_for (of_nat (n_o - 1)) \<and> iv_values (e_so e) = map obj_of (take k T)) \<and>
     (bv_inv (e_bo e) \<and> bv_bits (e_bo e) = map (mark_at (pairs T)) [0..<k]) \<and>
     e_pred_positions e = map (\<lambda>p. pred_positions T j (of_nat p)) [0..<n_p] \<and>
     e_pred_totals e = map (\<lambda>p. pred_total T k (of_nat p)) [0..<n_p] \<and>
     e_obj_positions e = map (\<lambda>ob. obj_positions T k (of_nat ob)) [0..<n_o]"

lemma mark_at_drop:
  assumes "drop k T = t # rest" "t = (s, p, ob)"
  shows "mark_at (pairs T) k \<longleftrightarrow> rest = [] \<or> fst (hd rest) \<noteq> s \<or> fst (snd (hd rest)) \<noteq> p"
proof -
  have k: "k < length T" "T ! k = t" "drop (Suc k) T = rest"
    using assms(1) by (metis drop_eq_Nil linorder_not_le list.distinct(1), metis nth_via_drop,
        metis drop_Suc list.sel(3) tl_drop)
  have "Suc k = length T \<longleftrightarrow> rest = []" using k by (metis Suc_leI drop_eq_Nil le_antisym order_refl)
  moreover have "T ! Suc k = hd rest" if "rest \<noteq> []"
    using that k(3) by (metis drop_eq_Nil hd_drop_conv_nth linorder_not_le)
  moreover have "Suc k < length T" if "rest \<noteq> []" using that k(3) by (metis drop_eq_Nil linorder_not_le)
  ultimately show ?thesis using k assms(2) by (auto simp: mark_at_def)
qed

lemma enc_object_step:
  assumes inv: "enc_inv T n_p n_o k j b e" and fit: "rows_fit T n_p n_o"
    and d: "drop k T = (s, p, ob) # rest" and pos: "sp_pos = of_nat (group_of (pairs T) k)"
  obtains e' where "enc_objects s p sp_pos e ((s, p, ob) # rest) = enc_objects s p sp_pos e' rest"
    "enc_inv T n_p n_o (Suc k) j b e'"
proof -
  have k: "k < length T" "T ! k = (s, p, ob)"
    using d by (metis drop_eq_Nil linorder_not_le list.distinct(1), metis nth_via_drop)
  have in_set: "unat p < n_p" "unat ob < n_o" "n_p \<le> 2 ^ 57" "n_o \<le> 2 ^ 57" "length T < 2 ^ 57"
    using fit k nth_mem [OF k(1)] by (auto simp: rows_fit_def)
  note I = inv [unfolded enc_inv_def]
  have "iv_len (e_so e) = length (iv_values (e_so e))" by simp
  also have "\<dots> = k" using I k(1) by simp
  finally have len: "iv_len (e_so e) = k" .
  obtain so where so: "iv_push (e_so e) ob = Some so" "iv_inv so" "iv_width so = iv_width (e_so e)"
    "iv_values so = iv_values (e_so e) @ [ob]"
    by (rule push_fits [of "e_so e" n_o ob]) (use I in_set len k(1) in auto)
  obtain bo where bo: "bv_push (e_bo e) (mark_at (pairs T) k) = Some bo" "bv_inv bo"
    "bv_bits bo = bv_bits (e_bo e) @ [mark_at (pairs T) k]"
    using bv_push_correct [of "e_bo e" "mark_at (pairs T) k"] I by blast
  define e' where "e' = e\<lparr>e_so := so,
     e_obj_positions := (e_obj_positions e)[unat ob := e_obj_positions e ! unat ob @ [sp_pos]],
     e_pred_totals := (e_pred_totals e)[unat p := e_pred_totals e ! unat p + 1], e_bo := bo\<rparr>"
  have "enc_objects s p sp_pos e ((s, p, ob) # rest) = enc_objects s p sp_pos e' rest"
    using I in_set so(1) bo(1) mark_at_drop [OF d refl]
    by (simp add: e'_def push_at_def incr_at_def)
  moreover have "enc_inv T n_p n_o (Suc k) j b e'"
  proof -
    have "iv_values so = map obj_of (take (Suc k) T)" using so(4) I k by (simp add: take_Suc_conv_app_nth)
    moreover have "bv_bits bo = map (mark_at (pairs T)) [0..<Suc k]" using bo(3) I by simp
    moreover have "(e_pred_totals e)[unat p := e_pred_totals e ! unat p + 1] =
        map (\<lambda>p. pred_total T (Suc k) (of_nat p)) [0..<n_p]"
      using I in_set k by (simp add: map_update_upt) (auto simp: pred_total_def of_nat_eq_iff_unat unat_of_nat_64)
    moreover have "(e_obj_positions e)[unat ob := e_obj_positions e ! unat ob @ [sp_pos]] =
        map (\<lambda>ob. obj_positions T (Suc k) (of_nat ob)) [0..<n_o]"
      using I in_set k pos by (simp add: map_update_upt) (auto simp: obj_positions_def of_nat_eq_iff_unat unat_of_nat_64)
    ultimately show ?thesis using I so bo unfolding enc_inv_def e'_def by simp
  qed
  ultimately show ?thesis by (rule that)
qed

section \<open>The loops\<close>

text \<open>All rows of the pair that position \<open>k\<close> opens are consumed, and no others.\<close>

lemma enc_objects_inv:
  assumes "enc_inv T n_p n_o k j b e" "rows_fit T n_p n_o" "k < length T"
    and "pair_of (T ! k) = (s, p)" "pos = of_nat (group_of (pairs T) k)"
  shows "\<exists>e' k'. enc_objects s p pos e (drop k T) = Some (e', drop k' T) \<and> enc_inv T n_p n_o k' j b e' \<and>
    k < k' \<and> k' \<le> length T \<and> group_of (pairs T) k' = Suc (group_of (pairs T) k) \<and>
    (k' < length T \<longrightarrow> pair_of (T ! k') \<noteq> (s, p))"
  using assms
proof (induction "length T - k" arbitrary: k e rule: less_induct)
  case less
  obtain ob where tk: "T ! k = (s, p, ob)" using less.prems(4) by (metis prod.collapse fst_conv snd_conv)
  have d: "drop k T = (s, p, ob) # drop (Suc k) T" using less.prems(3) tk by (metis Cons_nth_drop_Suc)
  obtain e1 where e1: "enc_objects s p pos e (drop k T) = enc_objects s p pos e1 (drop (Suc k) T)"
    "enc_inv T n_p n_o (Suc k) j b e1"
    using enc_object_step [OF less.prems(1,2) d less.prems(5)] d by metis
  show ?case
  proof (cases "mark_at (pairs T) k")
    case True
    then have end_: "Suc k = length T \<or> Suc k < length T \<and> pair_of (T ! Suc k) \<noteq> (s, p)"
      using less.prems(3) tk by (auto simp: mark_at_def)
    have "enc_objects s p pos e1 (drop (Suc k) T) = Some (e1, drop (Suc k) T)"
    proof (cases "Suc k = length T")
      case False
      then have sk: "Suc k < length T" "pair_of (T ! Suc k) \<noteq> (s, p)" using end_ by auto
      obtain a c x where "T ! Suc k = (a, c, x)" by (cases "T ! Suc k")
      moreover have "drop (Suc k) T = T ! Suc k # drop (Suc (Suc k)) T" using sk(1) by (simp add: Cons_nth_drop_Suc)
      ultimately show ?thesis using sk(2) by auto
    qed simp
    then show ?thesis using e1 True less.prems(3) end_
      by (intro exI [of _ e1] exI [of _ "Suc k"]) (auto simp: group_of_Suc)
  next
    case False
    then have sk: "Suc k < length T" "pair_of (T ! Suc k) = (s, p)" "group_of (pairs T) (Suc k) = group_of (pairs T) k"
      using less.prems(3) tk by (auto simp: mark_at_def group_of_Suc)
    obtain e' k' where "enc_objects s p pos e1 (drop (Suc k) T) = Some (e', drop k' T)"
      "enc_inv T n_p n_o k' j b e'" "Suc k < k'" "k' \<le> length T"
      "group_of (pairs T) k' = Suc (group_of (pairs T) (Suc k))" "k' < length T \<longrightarrow> pair_of (T ! k') \<noteq> (s, p)"
      using less.hyps [OF _ e1(2) less.prems(2) sk(1,2)] less.prems(3,5) sk(3)
      by (metis diff_less_mono2 lessI)
    then show ?thesis using e1(1) sk(3) by (intro exI [of _ e'] exI [of _ k']) auto
  qed
qed

text \<open>At the first row of a pair: the pair's predicate is pushed, then its rows, then the
  subject mark.\<close>

definition at_pair :: "triple list \<Rightarrow> nat \<Rightarrow> bool" where
  "at_pair T k \<longleftrightarrow> k \<le> length T \<and> (k = length T \<or> k = 0 \<or> mark_at (pairs T) (k - 1))"

abbreviation enc_at :: "triple list \<Rightarrow> nat \<Rightarrow> nat \<Rightarrow> nat \<Rightarrow> enc \<Rightarrow> bool" where
  "enc_at T n_p n_o k e \<equiv> enc_inv T n_p n_o k (group_of (pairs T) k) (group_of (pairs T) k) e"

lemma enc_pair_step:
  assumes inv: "enc_at T n_p n_o k e" and fit: "rows_fit T n_p n_o" and k: "k < length T"
    and tk: "pair_of (T ! k) = (s, p)"
  obtains e' k' where "enc_preds s e (drop k T) = enc_preds s e' (drop k' T)" "enc_at T n_p n_o k' e'"
    "k < k'" "k' \<le> length T"
proof -
  define j where "j = group_of (pairs T) k"
  have j: "j < length (pair_list T)" "pair_list T ! j = (s, p)"
    using group_less [OF k] pair_list_nth [OF k] tk by (simp_all add: j_def)
  note I = inv [unfolded enc_inv_def, folded j_def]
  have fits: "unat p < n_p" "n_p \<le> 2 ^ 57" "length T < 2 ^ 57"
    using fit k nth_mem [OF k] tk by (auto simp: rows_fit_def)
  have "iv_len (e_sp e) = length (iv_values (e_sp e))" by simp
  also have "\<dots> = j" using I j(1) by simp
  finally have len: "iv_len (e_sp e) = j" .
  obtain sp where sp: "iv_push (e_sp e) p = Some sp" "iv_inv sp" "iv_width sp = iv_width (e_sp e)"
    "iv_values sp = iv_values (e_sp e) @ [p]"
    by (rule push_fits [of "e_sp e" n_p p]) (use I fits len j(1) pair_list_le [of T] in auto)
  define preds where "preds = (e_pred_positions e)[unat p := e_pred_positions e ! unat p @ [of_nat j]]"
  define e0 where "e0 = e\<lparr>e_sp := sp, e_pred_positions := preds\<rparr>"
  have "iv_values sp = take (Suc j) (sp_list T)"
    using sp(4) I j by (simp add: take_Suc_conv_app_nth sp_list_def)
  moreover have "preds = map (\<lambda>p. pred_positions T (Suc j) (of_nat p)) [0..<n_p]"
    using I fits j unfolding preds_def
    by (simp add: map_update_upt) (auto simp: pred_positions_def of_nat_eq_iff_unat unat_of_nat_64 sp_list_def)
  ultimately have inv0: "enc_inv T n_p n_o k (Suc j) j e0"
    using I sp unfolding enc_inv_def e0_def by simp
  obtain e1 k' where e1: "enc_objects s p (of_nat j) e0 (drop k T) = Some (e1, drop k' T)"
    "enc_inv T n_p n_o k' (Suc j) j e1" "k < k'" "k' \<le> length T" "group_of (pairs T) k' = Suc j"
    using enc_objects_inv [OF inv0 fit k tk, of "of_nat j"] by (auto simp: j_def)
  have mark: "mark_at (subj_list T) j \<longleftrightarrow> drop k' T = [] \<or> fst (hd (drop k' T)) \<noteq> s"
  proof (cases "k' = length T")
    case True
    then have "Suc j = length (subj_list T)" using e1(5) group_of_length [of "pairs T"] by (simp add: pair_list_def)
    then show ?thesis using True by (simp add: mark_at_def)
  next
    case False
    then have k': "k' < length T" using e1(4) by simp
    have "Suc j < length (pair_list T)" "pair_list T ! Suc j = pair_of (T ! k')"
      using group_less [OF k'] pair_list_nth [OF k'] e1(5) by simp_all
    then show ?thesis using k' j by (auto simp: mark_at_def subj_list_def hd_drop_conv_nth)
  qed
  obtain bp where bp: "bv_push (e_bp e1) (mark_at (subj_list T) j) = Some bp" "bv_inv bp"
    "bv_bits bp = bv_bits (e_bp e1) @ [mark_at (subj_list T) j]"
    using bv_push_correct [of "e_bp e1" "mark_at (subj_list T) j"] e1(2) by (auto simp: enc_inv_def)
  define e' where "e' = e1\<lparr>e_bp := bp\<rparr>"
  have "bv_bits bp = map (mark_at (subj_list T)) [0..<Suc j]" using bp(3) e1(2) by (simp add: enc_inv_def)
  then have "enc_at T n_p n_o k' e'"
    using e1(2,5) bp unfolding enc_inv_def e'_def by simp
  moreover have "enc_preds s e (drop k T) = enc_preds s e' (drop k' T)"
  proof -
    obtain ob where "drop k T = (s, p, ob) # drop (Suc k) T"
      using k tk by (metis Cons_nth_drop_Suc prod.collapse fst_conv snd_conv)
    moreover have "push_at (e_pred_positions e) (unat p) (of_nat j) = Some preds"
      using I fits by (simp add: push_at_def preds_def)
    ultimately show ?thesis using sp(1) e1(1) bp(1) [unfolded mark] len
      by (subst enc_preds.simps) (simp add: Let_def e0_def e'_def del: enc_objects.simps drop_eq_Nil)
  qed
  ultimately show ?thesis using that e1(3,4) by blast
qed

lemma enc_preds_inv:
  assumes "enc_at T n_p n_o k e" "rows_fit T n_p n_o" "k \<le> length T"
  shows "\<exists>e' k'. enc_preds s e (drop k T) = Some (e', drop k' T) \<and> enc_at T n_p n_o k' e' \<and>
    k \<le> k' \<and> k' \<le> length T \<and> (k < length T \<and> fst (T ! k) = s \<longrightarrow> k < k')"
  using assms
proof (induction "length T - k" arbitrary: k e rule: less_induct)
  case less
  show ?case
  proof (cases "k < length T \<and> fst (T ! k) = s")
    case True
    then have "pair_of (T ! k) = (s, fst (snd (T ! k)))" by simp
    then obtain e1 k1 where e1: "enc_preds s e (drop k T) = enc_preds s e1 (drop k1 T)" "enc_at T n_p n_o k1 e1"
      "k < k1" "k1 \<le> length T" using enc_pair_step [OF less.prems(1,2)] True by metis
    obtain e' k' where "enc_preds s e1 (drop k1 T) = Some (e', drop k' T)" "enc_at T n_p n_o k' e'"
      "k1 \<le> k'" "k' \<le> length T"
      using less.hyps [OF _ e1(2) less.prems(2) e1(4)] e1(3) True by (metis diff_less_mono2)
    then show ?thesis using e1 by (intro exI [of _ e'] exI [of _ k']) auto
  next
    case False
    have "enc_preds s e (drop k T) = Some (e, drop k T)"
    proof (cases "k < length T")
      case True
      then have "fst (T ! k) \<noteq> s" using False by simp
      moreover have "drop k T = T ! k # drop (Suc k) T" using True by (simp add: Cons_nth_drop_Suc)
      ultimately show ?thesis by (subst enc_preds.simps) (auto split: prod.splits)
    qed (subst enc_preds.simps, simp)
    then show ?thesis using False less.prems by (intro exI [of _ e] exI [of _ k]) auto
  qed
qed

lemma enc_subjects_inv:
  assumes "enc_at T n_p n_o k e" "rows_fit T n_p n_o" "k \<le> length T"
  shows "\<exists>e'. enc_subjects e (drop k T) = Some e' \<and> enc_at T n_p n_o (length T) e'"
  using assms
proof (induction "length T - k" arbitrary: k e rule: less_induct)
  case less
  show ?case
  proof (cases "k < length T")
    case True
    obtain s p ob where t: "T ! k = (s, p, ob)" by (cases "T ! k")
    have d: "drop k T = (s, p, ob) # drop (Suc k) T" using True t by (metis Cons_nth_drop_Suc)
    obtain e1 k1 where e1: "enc_preds s e (drop k T) = Some (e1, drop k1 T)" "enc_at T n_p n_o k1 e1"
      "k < k1" "k1 \<le> length T" using enc_preds_inv [OF less.prems, of s] True t by auto
    then have "enc_subjects e (drop k T) = enc_subjects e1 (drop k1 T)"
      unfolding d by (subst enc_subjects.simps) simp
    then show ?thesis using less.hyps [of k1 e1] e1 True less.prems(2) by simp
  next
    case False
    then show ?thesis using less.prems by (subst enc_subjects.simps) auto
  qed
qed

text \<open>The finished adjacency.\<close>

lemma enc_adjacency_correct:
  assumes fit: "rows_fit T n_p n_o"
  obtains e where "enc_adjacency n_p n_o T = Some e"
    "enc_inv T n_p n_o (length T) (length (pair_list T)) (length (pair_list T)) e"
proof -
  obtain sp where sp: "iv_with_width (bits_for (of_nat (n_p - 1))) = Some sp" "iv_inv sp"
    "iv_width sp = bits_for (of_nat (n_p - 1))" "iv_values sp = []"
    using iv_with_width_inv [of "bits_for (of_nat (n_p - 1))"] by (auto simp: bits_for_def)
  obtain so where so: "iv_with_width (bits_for (of_nat (n_o - 1))) = Some so" "iv_inv so"
    "iv_width so = bits_for (of_nat (n_o - 1))" "iv_values so = []"
    using iv_with_width_inv [of "bits_for (of_nat (n_o - 1))"] by (auto simp: bits_for_def)
  define e0 where "e0 = \<lparr>e_sp = sp, e_bp = bv_new, e_so = so, e_bo = bv_new,
     e_pred_positions = replicate n_p [], e_pred_totals = replicate n_p 0, e_obj_positions = replicate n_o []\<rparr>"
  have "enc_at T n_p n_o 0 e0"
    unfolding enc_inv_def e0_def using sp so bv_new_correct
    by (simp add: pred_positions_def pred_total_def obj_positions_def map_replicate_const)
  from enc_subjects_inv [OF this fit]
  obtain e where "enc_subjects e0 T = Some e" "enc_at T n_p n_o (length T) e" by auto
  then show ?thesis using that sp(1) so(1) group_of_length [of "pairs T"]
    by (simp add: enc_adjacency_def e0_def pair_list_def)
qed

end
