(* ===== verification/TriplesNumber.thy ===== *)
theory TriplesNumber
  imports TriplesBuild
begin

text \<open>
  Local numbering of a partition and the whole byte block
  (\<open>encode_partition\<close> in \<open>crates/rdf-core/src/ir/pack/triples.rs\<close>): the local rows are an
  order-preserving renaming of the distinct input triples, so reading them back through the
  three tables gives exactly those triples, in order; the block is the concatenation of
  sections that hold the lists of \<open>TriplesBuild\<close>.
\<close>

section \<open>Order-preserving numbering\<close>

definition value_set :: "u64 list \<Rightarrow> u64 list" where
  "value_set xs = remdups_adj (sort xs)"

lemma value_set_strict: "sorted_wrt (<) (value_set xs)"
  by (simp add: value_set_def strict_remdups_adj)

lemma set_value_set [simp]: "set (value_set xs) = set xs"
  by (simp add: value_set_def)

lemma length_value_set_le: "length (value_set xs) \<le> length xs"
  using length_remdups_adj_le [of "sort xs"] by (simp add: value_set_def)

lemma takeWhile_less_nth:
  fixes xs :: "'a::linorder list"
  assumes "sorted_wrt (<) xs" "i < length xs"
  shows "length (takeWhile (\<lambda>y. y < xs ! i) xs) = i"
  using assms
proof (induction xs arbitrary: i)
  case (Cons x xs)
  then show ?case by (cases i) auto
qed simp

lemma std_binary_search_nth:
  "sorted_wrt (<) xs \<Longrightarrow> i < length xs \<Longrightarrow> std_binary_search xs (xs ! i) = Some i"
  by (simp add: std_binary_search_def Let_def takeWhile_less_nth)

definition local_id :: "u64 list \<Rightarrow> u64 \<Rightarrow> u64" where
  "local_id xs x = of_nat (the (std_binary_search xs x))"

lemma std_binary_search_mem:
  assumes "sorted_wrt (<) xs" "x \<in> set xs" "length xs \<le> 2 ^ 57"
  shows "std_binary_search xs x = Some (unat (local_id xs x))" "unat (local_id xs x) < length xs"
    "xs ! unat (local_id xs x) = x"
proof -
  obtain i where i: "i < length xs" "xs ! i = x" using assms(2) by (metis in_set_conv_nth)
  then have s: "std_binary_search xs x = Some i" using std_binary_search_nth [OF assms(1)] by blast
  then have "unat (local_id xs x) = i" using i(1) assms(3) by (simp add: local_id_def unat_of_nat_64)
  then show "std_binary_search xs x = Some (unat (local_id xs x))" "unat (local_id xs x) < length xs"
    "xs ! unat (local_id xs x) = x" using s i by simp_all
qed

lemma local_id_mono:
  assumes "sorted_wrt (<) xs" "x \<in> set xs" "y \<in> set xs" "length xs \<le> 2 ^ 57"
  shows "local_id xs x < local_id xs y \<longleftrightarrow> x < y"
proof -
  note f = std_binary_search_mem [OF assms(1) _ assms(4)]
  have "unat (local_id xs x) < unat (local_id xs y) \<longleftrightarrow> x < y"
    using f(2,3) [OF assms(2)] f(2,3) [OF assms(3)] sorted_wrt_nth_less [OF assms(1)]
    by (metis linorder_neqE_nat not_less_iff_gr_or_eq)
  then show ?thesis by (simp add: word_less_nat_alt)
qed

definition tables :: "triple list \<Rightarrow> u64 list \<times> u64 list \<times> u64 list" where
  "tables ts = (value_set (map fst ts), value_set (map (fst \<circ> snd) ts), value_set (map (snd \<circ> snd) ts))"

definition localise :: "u64 list \<Rightarrow> u64 list \<Rightarrow> u64 list \<Rightarrow> triple \<Rightarrow> triple" where
  "localise us up uo t = (local_id us (fst t), local_id up (fst (snd t)), local_id uo (snd (snd t)))"

definition unify :: "u64 list \<Rightarrow> u64 list \<Rightarrow> u64 list \<Rightarrow> triple \<Rightarrow> triple" where
  "unify us up uo t = (us ! unat (fst t), up ! unat (fst (snd t)), uo ! unat (snd (snd t)))"

definition local_rows :: "triple list \<Rightarrow> triple list" where
  "local_rows ts = (let (us, up, uo) = tables ts in remdups_adj (sort (map (localise us up uo) ts)))"

text \<open>What the numbering guarantees, as one predicate on the rows and the tables.\<close>

definition numbered :: "triple list \<Rightarrow> u64 list \<Rightarrow> u64 list \<Rightarrow> u64 list \<Rightarrow> bool" where
  "numbered T us up uo \<longleftrightarrow> sorted_wrt (<) T \<and> sorted_wrt (<) us \<and> sorted_wrt (<) up \<and> sorted_wrt (<) uo \<and>
     length us \<le> 2 ^ 57 \<and> rows_fit T (length up) (length uo) \<and>
     (\<forall>t\<in>set T. unat (fst t) < length us) \<and> (\<forall>k<length us. \<exists>t\<in>set T. fst t = of_nat k)"

lemma those_map_Some: "(\<And>x. x \<in> set xs \<Longrightarrow> f x = Some (g x)) \<Longrightarrow> those (map f xs) = Some (map g xs)"
  by (induction xs) auto

definition numbers :: "triple list \<Rightarrow> u64 list \<Rightarrow> u64 list \<Rightarrow> u64 list \<Rightarrow> bool" where
  "numbers ts us up uo \<longleftrightarrow> tables ts = (us, up, uo) \<and> length ts < 2 ^ 57"


lemma table_facts:
  assumes N: "numbers ts us up uo"
  shows
  "sorted_wrt (<) us" "sorted_wrt (<) up" "sorted_wrt (<) uo"
  "set us = fst ` set ts" "set up = (fst \<circ> snd) ` set ts" "set uo = (snd \<circ> snd) ` set ts"
  "length us \<le> 2 ^ 57" "length up \<le> 2 ^ 57" "length uo \<le> 2 ^ 57"
proof -
  have t: "us = value_set (map fst ts)" "up = value_set (map (fst \<circ> snd) ts)" "uo = value_set (map (snd \<circ> snd) ts)"
    using N by (simp_all add: tables_def numbers_def)
  show "sorted_wrt (<) us" "sorted_wrt (<) up" "sorted_wrt (<) uo" by (simp_all add: t value_set_strict)
  show "set us = fst ` set ts" "set up = (fst \<circ> snd) ` set ts" "set uo = (snd \<circ> snd) ` set ts"
    by (simp_all add: t)
  show "length us \<le> 2 ^ 57" "length up \<le> 2 ^ 57" "length uo \<le> 2 ^ 57"
    using length_value_set_le [of "map fst ts"] length_value_set_le [of "map (fst \<circ> snd) ts"]
      length_value_set_le [of "map (snd \<circ> snd) ts"] N by (simp_all add: t numbers_def)
qed

lemma member_tables:
  assumes N: "numbers ts us up uo" and t: "t \<in> set ts"
  shows "fst t \<in> set us" "fst (snd t) \<in> set up" "snd (snd t) \<in> set uo"
  using t by (auto simp: table_facts [OF N])

lemma local_id_tables:
  assumes N: "numbers ts us up uo" and t: "t \<in> set ts"
  shows "std_binary_search us (fst t) = Some (unat (local_id us (fst t)))" "unat (local_id us (fst t)) < length us"
      "us ! unat (local_id us (fst t)) = fst t"
    "std_binary_search up (fst (snd t)) = Some (unat (local_id up (fst (snd t))))"
      "unat (local_id up (fst (snd t))) < length up" "up ! unat (local_id up (fst (snd t))) = fst (snd t)"
    "std_binary_search uo (snd (snd t)) = Some (unat (local_id uo (snd (snd t))))"
      "unat (local_id uo (snd (snd t))) < length uo" "uo ! unat (local_id uo (snd (snd t))) = snd (snd t)"
  by (rule std_binary_search_mem; fact table_facts [OF N] member_tables [OF N t])+

lemma local_triples_eq:
  assumes N: "numbers ts us up uo"
  shows "local_triples us up uo ts = Some (map (localise us up uo) ts)"
  unfolding local_triples_def
proof (rule those_map_Some)
  fix t assume "t \<in> set ts"
  from local_id_tables [OF N this]
  show "(case t of (s, p, ob) \<Rightarrow> do {
      a \<leftarrow> std_binary_search us s; b \<leftarrow> std_binary_search up p; c \<leftarrow> std_binary_search uo ob;
      Some (of_nat a, of_nat b, of_nat c)}) = Some (localise us up uo t)"
    by (cases t) (simp add: localise_def)
qed

lemma unify_localise:
  assumes N: "numbers ts us up uo" and t: "t \<in> set ts"
  shows "unify us up uo (localise us up uo t) = t"
  using local_id_tables [OF N t] by (simp add: unify_def localise_def)

lemma localise_mono:
  assumes N: "numbers ts us up uo" and t: "t \<in> set ts" "u \<in> set ts"
  shows "localise us up uo t < localise us up uo u \<longleftrightarrow> t < u"
proof -
  note f = table_facts [OF N] and mt = member_tables [OF N t(1)] and mu = member_tables [OF N t(2)]
  have m: "local_id us (fst t) < local_id us (fst u) \<longleftrightarrow> fst t < fst u"
    "local_id us (fst u) < local_id us (fst t) \<longleftrightarrow> fst u < fst t"
    "local_id up (fst (snd t)) < local_id up (fst (snd u)) \<longleftrightarrow> fst (snd t) < fst (snd u)"
    "local_id up (fst (snd u)) < local_id up (fst (snd t)) \<longleftrightarrow> fst (snd u) < fst (snd t)"
    "local_id uo (snd (snd t)) < local_id uo (snd (snd u)) \<longleftrightarrow> snd (snd t) < snd (snd u)"
    by (rule local_id_mono; fact f mt mu)+
  have e: "local_id us (fst t) = local_id us (fst u) \<longleftrightarrow> fst t = fst u"
    "local_id up (fst (snd t)) = local_id up (fst (snd u)) \<longleftrightarrow> fst (snd t) = fst (snd u)"
    using local_id_tables(3,6) [OF N t(1)] local_id_tables(3,6) [OF N t(2)] by metis+
  show ?thesis
    unfolding less_prod_def' localise_def fst_conv snd_conv m e ..
qed

lemma local_rows_eq:
  "numbers ts us up uo \<Longrightarrow> local_rows ts = remdups_adj (sort (map (localise us up uo) ts))"
  by (simp add: local_rows_def numbers_def)

lemma set_local_rows: "numbers ts us up uo \<Longrightarrow> set (local_rows ts) = localise us up uo ` set ts"
  by (simp add: local_rows_eq)

lemma numbered_local_rows:
  assumes N: "numbers ts us up uo"
  shows "numbered (local_rows ts) us up uo"
proof -
  note f = table_facts [OF N]
  have "length (local_rows ts) < 2 ^ 57"
    using length_remdups_adj_le [of "sort (map (localise us up uo) ts)"] N by (simp add: local_rows_eq [OF N] numbers_def)
  moreover have "unat (fst t) < length us \<and> unat (fst (snd t)) < length up \<and> unat (snd (snd t)) < length uo"
    if "t \<in> set (local_rows ts)" for t
    using that local_id_tables [OF N] unfolding set_local_rows [OF N] by (auto simp: localise_def)
  moreover have "\<exists>t\<in>set (local_rows ts). fst t = of_nat k" if k: "k < length us" for k
  proof -
    obtain t where t: "t \<in> set ts" "fst t = us ! k" using f(4) nth_mem [OF k] by auto
    have "std_binary_search us (us ! k) = Some k" by (rule std_binary_search_nth [OF f(1) k])
    then have "fst (localise us up uo t) = of_nat k" using t by (simp add: localise_def local_id_def)
    then show ?thesis using t unfolding set_local_rows [OF N] by blast
  qed
  ultimately show ?thesis using f
    by (auto simp: numbered_def rows_fit_def local_rows_eq [OF N] strict_remdups_adj)
qed

text \<open>Read through the tables, the rows are the distinct input triples in order.\<close>

lemma unify_local_rows:
  assumes N: "numbers ts us up uo"
  shows "map (unify us up uo) (local_rows ts) = remdups_adj (sort ts)"
proof (rule strict_sorted_equal)
  show "sorted_wrt (<) (remdups_adj (sort ts))" by (simp add: strict_remdups_adj)
  have "unify us up uo t < unify us up uo u" if tu: "t \<in> set (local_rows ts)" "u \<in> set (local_rows ts)" "t < u" for t u
  proof -
    obtain t' u' where "t' \<in> set ts" "u' \<in> set ts" "t = localise us up uo t'" "u = localise us up uo u'"
      using tu(1,2) unfolding set_local_rows [OF N] by blast
    then show ?thesis using tu(3) unify_localise [OF N] localise_mono [OF N] by metis
  qed
  moreover have "sorted_wrt (<) (local_rows ts)" by (simp add: local_rows_eq [OF N] strict_remdups_adj)
  ultimately show "sorted_wrt (<) (map (unify us up uo) (local_rows ts))"
    unfolding sorted_wrt_map by (rule sorted_wrt_mono_rel)
  show "set (map (unify us up uo) (local_rows ts)) = set (remdups_adj (sort ts))"
    unfolding set_map set_local_rows [OF N] image_image using unify_localise [OF N]
    by (simp cong: image_cong)
qed

section \<open>The index data\<close>

definition delta_bytes :: "u64 list \<Rightarrow> bytes" where
  "delta_bytes ps = write_delta_list [] ps"

definition index_offsets :: "u64 list list \<Rightarrow> u64 list" where
  "index_offsets ls = map (\<lambda>i. of_nat (length (concat (map delta_bytes (take i ls))))) [0..<length ls]"

lemma write_delta_list_append: "write_delta_list out ps = out @ delta_bytes ps"
  using write_delta_loop_append [of out 0 ps] by (simp add: write_delta_list_def delta_bytes_def)

lemma index_data_append:
  "index_data ls dat offs cnts =
     (dat @ concat (map delta_bytes ls),
      offs @ map (\<lambda>i. of_nat (length dat + length (concat (map delta_bytes (take i ls))))) [0..<length ls],
      cnts @ map (of_nat \<circ> length) ls)"
proof (induction ls arbitrary: dat offs cnts)
  case (Cons l ls)
  have "[0..<Suc (length ls)] = 0 # map Suc [0..<length ls]" by (simp add: map_Suc_upt upt_conv_Cons del: upt_Suc)
  then show ?case using Cons by (simp add: write_delta_list_append comp_def add.assoc del: upt_Suc)
qed simp

lemma index_data_eq:
  "index_data ls [] [] [] = (concat (map delta_bytes ls), index_offsets ls, map (of_nat \<circ> length) ls)"
  using index_data_append [of ls "[]" "[]" "[]"] by (simp add: index_offsets_def)

lemma length_delta_loop: "length (write_delta_loop [] p ps) \<le> 10 * length ps"
proof (induction ps arbitrary: p)
  case (Cons x ps)
  have "length (write_delta_loop [] p (x # ps)) = length (varint_bytes (x - p)) + length (write_delta_loop [] x ps)"
    using write_delta_loop_append [of "varint_bytes (x - p)" x ps] by (simp add: write_varint_append)
  then show ?case using Cons [of x] varint_bytes_bounds(2) [of "x - p"] by (simp del: write_delta_loop.simps)
qed simp

lemma length_delta_bytes: "length (delta_bytes ps) \<le> 10 * length ps"
  by (simp add: delta_bytes_def write_delta_list_def length_delta_loop)

lemma length_concat_delta: "length (concat (map delta_bytes ls)) \<le> 10 * sum_list (map length ls)"
proof (induction ls)
  case (Cons l ls)
  then show ?case using length_delta_bytes [of l] by simp
qed simp

text \<open>Each row and each pair is listed once, so the lists of an index are small in total.\<close>

lemma sum_filter_le:
  assumes "distinct vs"
  shows "sum_list (map (\<lambda>v. length (filter (\<lambda>i. f i = v) is)) vs) \<le> length is"
proof (induction "is")
  case (Cons i js)
  have "(\<Sum>v\<leftarrow>vs. length (filter (\<lambda>i. f i = v) (i # js))) =
      (\<Sum>v\<leftarrow>vs. (if f i = v then 1 else 0) + length (filter (\<lambda>i. f i = v) js))"
    by (intro arg_cong [of _ _ sum_list] map_cong) auto
  also have "\<dots> = (\<Sum>v\<leftarrow>vs. if f i = v then 1 else 0) + (\<Sum>v\<leftarrow>vs. length (filter (\<lambda>i. f i = v) js))"
    by (rule sum_list_addf)
  also have "(\<Sum>v\<leftarrow>vs. if f i = v then 1 else 0) \<le> (1 :: nat)"
    using assms by (induction vs) auto
  finally show ?case using Cons by simp
qed simp

definition pred_lists :: "triple list \<Rightarrow> u64 list \<Rightarrow> u64 list list" where
  "pred_lists T up = map (\<lambda>p. pred_positions T (length (pair_list T)) (of_nat p)) [0..<length up]"

definition obj_lists :: "triple list \<Rightarrow> u64 list \<Rightarrow> u64 list list" where
  "obj_lists T uo = map (\<lambda>ob. obj_positions T (length T) (of_nat ob)) [0..<length uo]"

lemma distinct_of_nats: "n \<le> 2 ^ 57 \<Longrightarrow> distinct (map (of_nat :: nat \<Rightarrow> u64) [0..<n])"
  by (auto simp: distinct_map inj_on_def of_nat_eq_iff_unat unat_of_nat_64)

lemma index_sizes:
  assumes "numbered T us up uo"
  shows "sum_list (map length (pred_lists T up)) < 2 ^ 57" "sum_list (map length (obj_lists T uo)) < 2 ^ 57"
proof -
  have n: "length T < 2 ^ 57" "length up \<le> 2 ^ 57" "length uo \<le> 2 ^ 57"
    using assms by (auto simp: numbered_def rows_fit_def)
  have "sum_list (map length (pred_lists T up)) \<le> length [0..<length (pair_list T)]"
    using sum_filter_le [OF distinct_of_nats [OF n(2)], of "\<lambda>i. sp_list T ! i" "[0..<length (pair_list T)]"]
    by (simp add: pred_lists_def pred_positions_def comp_def)
  then show "sum_list (map length (pred_lists T up)) < 2 ^ 57" using pair_list_le [of T] n(1) by simp
  have "sum_list (map length (obj_lists T uo)) \<le> length [0..<length T]"
    using sum_filter_le [OF distinct_of_nats [OF n(3)], of "\<lambda>i. obj_of (T ! i)" "[0..<length T]"]
    by (simp add: obj_lists_def obj_positions_def comp_def)
  then show "sum_list (map length (obj_lists T uo)) < 2 ^ 57" using n(1) by simp
qed

section \<open>The byte block\<close>

definition holds :: "int_vector \<Rightarrow> u64 list \<Rightarrow> bool" where
  "holds v xs \<longleftrightarrow> iv_inv v \<and> iv_values v = xs \<and> length xs < 2 ^ 64"

lemma holds_good: "holds v xs \<Longrightarrow> iv_inv v \<and> iv_len v < 2 ^ 64"
  by (auto simp: holds_def)

lemma from_values_holds:
  assumes "length xs \<le> 2 ^ 57"
  obtains v where "iv_from_values xs = Some v" "holds v xs"
proof -
  let ?w = "bits_for (if xs = [] then 0 else Max (set xs))"
  have "length xs * ?w \<le> 2 ^ 57 * 64" using assms by (intro mult_le_mono) (simp_all add: bits_for_def)
  then have "length xs * ?w < 2 ^ 64" by simp
  from iv_from_values_correct [OF this] obtain v where v: "iv_from_values xs = Some v" "iv_inv v" "iv_values v = xs"
    by blast
  then have "holds v xs" using assms by (simp add: holds_def)
  then show ?thesis using that v(1) by blast
qed

lemma freeze_marks:
  assumes "bv_inv v" "bv_bits v = mark_bits xs" "length xs < 2 ^ 57"
  obtains r where "bv_freeze v = Some r" "rs_valid r" "rs_bits r = mark_bits xs"
proof -
  have "bv_len v = length xs" using arg_cong [OF assms(2), of length] by (simp add: bv_bits_def mark_bits_def)
  then have "length (bv_words v) \<le> 2 ^ 57" using assms(1,3) by (simp add: bv_inv_def div_ceil_le_iff)
  then have "64 * length (bv_words v) < 2 ^ 64" by simp
  from bv_freeze_correct [OF assms(1) this]
  obtain r where "bv_freeze v = Some r" "rs_valid r" "rs_words r = bv_words v" "rs_len r = bv_len v" by blast
  then show ?thesis using that assms(2) by (simp add: rs_bits_def bv_bits_def)
qed

record sections =
  s_s :: int_vector
  s_p :: int_vector
  s_o :: int_vector
  s_sp :: int_vector
  s_bp :: rank_select
  s_so :: int_vector
  s_bo :: rank_select
  s_po :: int_vector
  s_pc :: int_vector
  s_pt :: int_vector
  s_oo :: int_vector
  s_oc :: int_vector

definition sections_ok :: "triple list \<Rightarrow> u64 list \<Rightarrow> u64 list \<Rightarrow> u64 list \<Rightarrow> sections \<Rightarrow> bool" where
  "sections_ok T us up uo c \<longleftrightarrow>
     holds (s_s c) us \<and> holds (s_p c) up \<and> holds (s_o c) uo \<and> holds (s_sp c) (sp_list T) \<and>
     rs_valid (s_bp c) \<and> rs_bits (s_bp c) = mark_bits (subj_list T) \<and> holds (s_so c) (map obj_of T) \<and>
     rs_valid (s_bo c) \<and> rs_bits (s_bo c) = mark_bits (pairs T) \<and>
     holds (s_po c) (index_offsets (pred_lists T up)) \<and> holds (s_pc c) (map (of_nat \<circ> length) (pred_lists T up)) \<and>
     holds (s_pt c) (map (\<lambda>p. pred_total T (length T) (of_nat p)) [0..<length up]) \<and>
     holds (s_oo c) (index_offsets (obj_lists T uo)) \<and> holds (s_oc c) (map (of_nat \<circ> length) (obj_lists T uo))"

definition block_bytes :: "u64 option \<Rightarrow> triple list \<Rightarrow> u64 list \<Rightarrow> u64 list \<Rightarrow> sections \<Rightarrow> bytes" where
  "block_bytes g T up uo c = (
     let pd = concat (map delta_bytes (pred_lists T up)); od = concat (map delta_bytes (obj_lists T uo))
     in le_bytes 8 (case g of None \<Rightarrow> 0 | Some x \<Rightarrow> x) @ le_bytes 8 (of_nat (length T) :: u64) @
     iv_to_bytes (s_s c) @ iv_to_bytes (s_p c) @ iv_to_bytes (s_o c) @ iv_to_bytes (s_sp c) @
     rs_to_bytes (s_bp c) @ iv_to_bytes (s_so c) @ rs_to_bytes (s_bo c) @ iv_to_bytes (s_po c) @
     iv_to_bytes (s_pc c) @ iv_to_bytes (s_pt c) @ le_bytes 8 (of_nat (length pd) :: u64) @ pd @
     iv_to_bytes (s_oo c) @ iv_to_bytes (s_oc c) @ le_bytes 8 (of_nat (length od) :: u64) @ od)"

lemma encode_partition_sections:
  assumes N: "numbers ts us up uo" and T: "T = local_rows ts"
  obtains c where "encode_partition g ts = Some (block_bytes g T up uo c)" "sections_ok T us up uo c"
proof -
  have num: "numbered T us up uo" unfolding T by (rule numbered_local_rows [OF N])
  then have fit: "rows_fit T (length up) (length uo)" by (simp add: numbered_def)
  have n: "length T < 2 ^ 57" "length us \<le> 2 ^ 57" "length up \<le> 2 ^ 57" "length uo \<le> 2 ^ 57"
    using num by (auto simp: numbered_def rows_fit_def)
  have tab: "remdups_adj (sort (map fst ts)) = us" "remdups_adj (sort (map (fst \<circ> snd) ts)) = up"
    "remdups_adj (sort (map (snd \<circ> snd) ts)) = uo"
    using N by (auto simp: numbers_def tables_def value_set_def)
  have rows: "local_triples us up uo ts = Some (map (localise us up uo) ts)"
    "remdups_adj (sort (map (localise us up uo) ts)) = T"
    using local_triples_eq [OF N] local_rows_eq [OF N] T by simp_all
  obtain e where e: "enc_adjacency (length up) (length uo) T = Some e"
    and inv: "enc_inv T (length up) (length uo) (length T) (length (pair_list T)) (length (pair_list T)) e"
    by (rule enc_adjacency_correct [OF fit])
  note I = inv [unfolded enc_inv_def]
  have P: "length (pair_list T) < 2 ^ 57" using pair_list_le [of T] n(1) by simp
  have lists: "e_pred_positions e = pred_lists T up" "e_obj_positions e = obj_lists T uo"
    "e_pred_totals e = map (\<lambda>p. pred_total T (length T) (of_nat p)) [0..<length up]"
    using I by (simp_all add: pred_lists_def obj_lists_def)
  have lens: "length (index_offsets (pred_lists T up)) \<le> 2 ^ 57" "length (index_offsets (obj_lists T uo)) \<le> 2 ^ 57"
    "length (map (of_nat \<circ> length) (pred_lists T up) :: u64 list) \<le> 2 ^ 57"
    "length (map (of_nat \<circ> length) (obj_lists T uo) :: u64 list) \<le> 2 ^ 57"
    "length (map (\<lambda>p. pred_total T (length T) (of_nat p)) [0..<length up]) \<le> 2 ^ 57"
    using n by (simp_all add: index_offsets_def pred_lists_def obj_lists_def)
  have bits: "bv_bits (e_bp e) = mark_bits (subj_list T)" "bv_bits (e_bo e) = mark_bits (pairs T)"
    "length (subj_list T) < 2 ^ 57" "length (pairs T) < 2 ^ 57"
    using I P n by (simp_all add: mark_bits_def)
  obtain vs where vs: "iv_from_values us = Some vs" "holds vs us" by (rule from_values_holds [OF n(2)])
  obtain vp where vp: "iv_from_values up = Some vp" "holds vp up" by (rule from_values_holds [OF n(3)])
  obtain vo where vo: "iv_from_values uo = Some vo" "holds vo uo" by (rule from_values_holds [OF n(4)])
  obtain po where po: "iv_from_values (index_offsets (pred_lists T up)) = Some po"
    "holds po (index_offsets (pred_lists T up))" by (rule from_values_holds [OF lens(1)])
  obtain oo where oo: "iv_from_values (index_offsets (obj_lists T uo)) = Some oo"
    "holds oo (index_offsets (obj_lists T uo))" by (rule from_values_holds [OF lens(2)])
  obtain pc where pc: "iv_from_values (map (of_nat \<circ> length) (pred_lists T up)) = Some pc"
    "holds pc (map (of_nat \<circ> length) (pred_lists T up))" by (rule from_values_holds [OF lens(3)])
  obtain oc where oc: "iv_from_values (map (of_nat \<circ> length) (obj_lists T uo)) = Some oc"
    "holds oc (map (of_nat \<circ> length) (obj_lists T uo))" by (rule from_values_holds [OF lens(4)])
  obtain pt where pt: "iv_from_values (map (\<lambda>p. pred_total T (length T) (of_nat p)) [0..<length up]) = Some pt"
    "holds pt (map (\<lambda>p. pred_total T (length T) (of_nat p)) [0..<length up])" by (rule from_values_holds [OF lens(5)])
  obtain bp where bp: "bv_freeze (e_bp e) = Some bp" "rs_valid bp" "rs_bits bp = mark_bits (subj_list T)"
    using freeze_marks [of "e_bp e" "subj_list T"] bits I by blast
  obtain bo where bo: "bv_freeze (e_bo e) = Some bo" "rs_valid bo" "rs_bits bo = mark_bits (pairs T)"
    using freeze_marks [of "e_bo e" "pairs T"] bits I by blast
  define c where "c = \<lparr>s_s = vs, s_p = vp, s_o = vo, s_sp = e_sp e, s_bp = bp, s_so = e_so e, s_bo = bo,
    s_po = po, s_pc = pc, s_pt = pt, s_oo = oo, s_oc = oc\<rparr>"
  have "encode_partition g ts = Some (block_bytes g T up uo c)"
    unfolding encode_partition_def tab Let_def rows(1)
    by (simp add: rows(2) e vs vp vo lists index_data_eq bp bo po pc pt oo oc frame_le_def
        block_bytes_def Let_def c_def)
  moreover have "sections_ok T us up uo c"
    unfolding sections_ok_def c_def sections.simps
    using vs vp vo po pc pt oo oc bp bo I n P by (simp add: holds_def)
  ultimately show ?thesis by (rule that)
qed

end
