(* ===== verification/TriplesParse.thy ===== *)
theory TriplesParse
  imports TriplesNumber
begin

unbundle bit_operations_syntax

text \<open>
  Opening a triple buffer (\<open>PartitionRef::from_bytes\<close>, \<open>TriplesRef::from_bytes\<close> and their
  checks in \<open>crates/rdf-core/src/ir/pack/triples.rs\<close>). A slice or an indexed read out of
  range panics (\<open>None\<close>); every refusal is \<open>Some (Inl _)\<close>. Sums of \<open>usize\<close> offsets taken
  from the buffer wrap, as in the release build.
\<close>

section \<open>The code: reading sections\<close>

definition usize_wrapping_add :: "nat \<Rightarrow> nat \<Rightarrow> nat" where
  "usize_wrapping_add a b = (a + b) mod 2 ^ 64"

definition iv_section :: "bytes \<Rightarrow> nat \<Rightarrow> (pack_bits_error + int_vector_ref \<times> nat) option" where
  "iv_section bs pos =
     (if pos \<le> length bs then
        Some (case ivr_from_bytes (drop pos bs) of Inl e \<Rightarrow> Inl e | Inr r \<Rightarrow> Inr (r, pos + ivr_serialized_len r))
      else None)"

definition rs_section :: "bytes \<Rightarrow> nat \<Rightarrow> (pack_bits_error + rank_select_ref \<times> nat) option" where
  "rs_section bs pos =
     (if pos \<le> length bs then
        Some (case rsr_from_bytes (drop pos bs) of Inl e \<Rightarrow> Inl e | Inr r \<Rightarrow> Inr (r, pos + rsr_serialized_len r))
      else None)"

text \<open>\<open>bytes.get(pos..pos + len)\<close>, or the truncation error.\<close>

definition data_section :: "bytes \<Rightarrow> nat \<Rightarrow> nat \<Rightarrow> (pack_bits_error + bytes \<times> nat) option" where
  "data_section bs pos len =
     (let stop = usize_wrapping_add pos len
      in Some (if pos \<le> stop \<and> stop \<le> length bs then Inr (slice_range pos stop bs, stop)
               else Inl (Truncated stop (length bs))))"

record partition_ref =
  pr_graph_id :: "u64 option"
  pr_n_triples :: u64
  pr_local_s :: int_vector_ref
  pr_local_p :: int_vector_ref
  pr_local_o :: int_vector_ref
  pr_sp :: int_vector_ref
  pr_bp :: rank_select_ref
  pr_so :: int_vector_ref
  pr_bo :: rank_select_ref
  pr_pred_offsets :: int_vector_ref
  pr_pred_counts :: int_vector_ref
  pr_pred_totals :: int_vector_ref
  pr_pred_index_data :: bytes
  pr_obj_offsets :: int_vector_ref
  pr_obj_counts :: int_vector_ref
  pr_obj_index_data :: bytes

definition parse_sections :: "bytes \<Rightarrow> (pack_bits_error + partition_ref \<times> nat) option" where
  "parse_sections bs =
     bind_res (Some (read_header_u64 bs 0)) (\<lambda>(g, pos).
     bind_res (Some (read_header_u64 bs pos)) (\<lambda>(n, pos).
     bind_res (iv_section bs pos) (\<lambda>(local_s, pos).
     bind_res (iv_section bs pos) (\<lambda>(local_p, pos).
     bind_res (iv_section bs pos) (\<lambda>(local_o, pos).
     bind_res (iv_section bs pos) (\<lambda>(sp, pos).
     bind_res (rs_section bs pos) (\<lambda>(bp, pos).
     bind_res (iv_section bs pos) (\<lambda>(so, pos).
     bind_res (rs_section bs pos) (\<lambda>(bo, pos).
     bind_res (iv_section bs pos) (\<lambda>(pred_offsets, pos).
     bind_res (iv_section bs pos) (\<lambda>(pred_counts, pos).
     bind_res (iv_section bs pos) (\<lambda>(pred_totals, pos).
     bind_res (Some (read_header_u64 bs pos)) (\<lambda>(pred_len, pos).
     bind_res (data_section bs pos (unat pred_len)) (\<lambda>(pred_data, pos).
     bind_res (iv_section bs pos) (\<lambda>(obj_offsets, pos).
     bind_res (iv_section bs pos) (\<lambda>(obj_counts, pos).
     bind_res (Some (read_header_u64 bs pos)) (\<lambda>(obj_len, pos).
     bind_res (data_section bs pos (unat obj_len)) (\<lambda>(obj_data, pos).
       Some (Inr (\<lparr>pr_graph_id = (if g = 0 then None else Some g), pr_n_triples = n,
         pr_local_s = local_s, pr_local_p = local_p, pr_local_o = local_o, pr_sp = sp, pr_bp = bp,
         pr_so = so, pr_bo = bo, pr_pred_offsets = pred_offsets, pr_pred_counts = pred_counts,
         pr_pred_totals = pred_totals, pr_pred_index_data = pred_data, pr_obj_offsets = obj_offsets,
         pr_obj_counts = obj_counts, pr_obj_index_data = obj_data\<rparr>, pos))))))))))))))))))))"

section \<open>The code: structural validation\<close>

fun asc_loop :: "(nat \<Rightarrow> u64 option) \<Rightarrow> string \<Rightarrow> u64 option \<Rightarrow> nat list \<Rightarrow> (pack_bits_error + unit) option" where
  "asc_loop get what prev [] = Some (Inr ())"
| "asc_loop get what prev (i # is) =
     (case get i of None \<Rightarrow> None
      | Some cur \<Rightarrow>
        if (case prev of Some p \<Rightarrow> cur \<le> p | None \<Rightarrow> False) then Some (Inl (Malformed what))
        else asc_loop get what (Some cur) is)"

definition assert_strictly_ascending :: "int_vector_ref \<Rightarrow> string \<Rightarrow> (pack_bits_error + unit) option" where
  "assert_strictly_ascending m what = asc_loop (ivr_get m) what None [0..<ivr_len m]"

fun range_loop :: "(nat \<Rightarrow> u64 option) \<Rightarrow> nat \<Rightarrow> string \<Rightarrow> nat list \<Rightarrow> (pack_bits_error + unit) option" where
  "range_loop get bound what [] = Some (Inr ())"
| "range_loop get bound what (i # is) =
     (case get i of None \<Rightarrow> None
      | Some v \<Rightarrow> if unat v \<ge> bound then Some (Inl (Malformed what)) else range_loop get bound what is)"

definition assert_in_range :: "int_vector_ref \<Rightarrow> nat \<Rightarrow> string \<Rightarrow> (pack_bits_error + unit) option" where
  "assert_in_range vec bound what = range_loop (ivr_get vec) bound what [0..<ivr_len vec]"

fun sum_loop :: "(nat \<Rightarrow> u64 option) \<Rightarrow> u64 \<Rightarrow> nat list \<Rightarrow> u64 option option" where
  "sum_loop get acc [] = Some (Some acc)"
| "sum_loop get acc (i # is) =
     (case get i of None \<Rightarrow> None
      | Some v \<Rightarrow> (case checked_add_u64 acc v of None \<Rightarrow> Some None | Some acc \<Rightarrow> sum_loop get acc is))"

definition sum_int_vector :: "int_vector_ref \<Rightarrow> u64 option option" where
  "sum_int_vector vec = sum_loop (ivr_get vec) 0 [0..<ivr_len vec]"

text \<open>Draining one delta list with its checks; the result is the iterator's final state.\<close>

function delta_items_loop :: "u64 \<Rightarrow> u64 option \<Rightarrow> delta_list_ref \<Rightarrow> pack_bits_error + delta_list_ref" where
  "delta_items_loop position_bound lst d =
     (case dl_next d of
        (None, d') \<Rightarrow> Inr d'
      | (Some (Inl e), d') \<Rightarrow> Inl e
      | (Some (Inr v), d') \<Rightarrow>
          if (case lst of Some l \<Rightarrow> v < l | None \<Rightarrow> False) then
            Inl (Malformed ''triples: foq index positions are not ascending'')
          else if v \<ge> position_bound then Inl (Malformed ''triples: foq index position out of range'')
          else delta_items_loop position_bound (Some v) d')"
  by pat_completeness auto
termination by (relation "measure (\<lambda>(_, _, d). dl_remaining d)") (auto intro: dl_next_remaining [OF sym])

declare delta_items_loop.simps [simp del]

fun delta_index_loop :: "bytes \<Rightarrow> (nat \<Rightarrow> u64 option) \<Rightarrow> (nat \<Rightarrow> u64 option) \<Rightarrow> u64 \<Rightarrow> nat \<Rightarrow> u64 \<Rightarrow> nat list \<Rightarrow>
    (pack_bits_error + unit) option" where
  "delta_index_loop dat offs cnts bound n prev_offset [] = Some (Inr ())"
| "delta_index_loop dat offs cnts bound n prev_offset (i # is) =
     (case offs i of None \<Rightarrow> None | Some offset \<Rightarrow>
      if i > 0 \<and> offset < prev_offset then
        Some (Inl (Malformed ''triples: foq index offsets are not ascending''))
      else (case cnts i of None \<Rightarrow> None | Some count \<Rightarrow>
        if unat offset > length dat then Some (Inl (Malformed ''triples: foq index offset out of range''))
        else (case delta_items_loop bound None (dl_new (drop (unat offset) dat) (unat count)) of
          Inl e \<Rightarrow> Some (Inl e)
        | Inr d \<Rightarrow>
          (case (if i + 1 < n then offs (i + 1) else Some (of_nat (length dat))) of None \<Rightarrow> None
           | Some next_boundary \<Rightarrow>
             if unat offset + dl_pos d \<noteq> unat next_boundary then
               Some (Inl (Malformed ''triples: foq index list length disagrees with the next offset''))
             else delta_index_loop dat offs cnts bound n offset is))))"

definition validate_delta_index ::
    "bytes \<Rightarrow> int_vector_ref \<Rightarrow> int_vector_ref \<Rightarrow> u64 \<Rightarrow> (pack_bits_error + unit) option" where
  "validate_delta_index dat offsets counts bound =
     delta_index_loop dat (ivr_get offsets) (ivr_get counts) bound (ivr_len offsets) 0 [0..<ivr_len offsets]"

definition ensure_sum :: "int_vector_ref \<Rightarrow> u64 \<Rightarrow> string \<Rightarrow> (pack_bits_error + unit) option" where
  "ensure_sum vec expected what =
     (case sum_int_vector vec of None \<Rightarrow> None
      | Some s \<Rightarrow> if s \<noteq> Some expected then Some (Inl (Malformed what)) else Some (Inr ()))"

definition validate_partition :: "partition_ref \<Rightarrow> (pack_bits_error + unit) option" where
  "validate_partition part =
     bind_res (assert_strictly_ascending (pr_local_s part) ''triples: local_s map is not strictly ascending'') (\<lambda>_.
     bind_res (assert_strictly_ascending (pr_local_p part) ''triples: local_p map is not strictly ascending'') (\<lambda>_.
     bind_res (assert_strictly_ascending (pr_local_o part) ''triples: local_o map is not strictly ascending'') (\<lambda>_.
     ensure_res (rsr_len (pr_bp part) = ivr_len (pr_sp part))
       (Malformed ''triples: bp length disagrees with sp'') (
     ensure_res (rsr_len (pr_bo part) = ivr_len (pr_so part))
       (Malformed ''triples: bo length disagrees with so'') (
     ensure_res (of_nat (ivr_len (pr_so part)) = pr_n_triples part)
       (Malformed ''triples: so length disagrees with n_triples'') (
     ensure_res (rsr_total_ones (pr_bp part) = ivr_len (pr_local_s part))
       (Malformed ''triples: bp popcount disagrees with the subject count'') (
     ensure_res (rsr_total_ones (pr_bo part) = ivr_len (pr_sp part))
       (Malformed ''triples: bo popcount disagrees with the (s,p)-pair count'') (
     bind_res (assert_in_range (pr_sp part) (ivr_len (pr_local_p part))
       ''triples: sp entry addresses no local predicate'') (\<lambda>_.
     bind_res (assert_in_range (pr_so part) (ivr_len (pr_local_o part))
       ''triples: so entry addresses no local object'') (\<lambda>_.
     ensure_res (ivr_len (pr_pred_offsets part) = ivr_len (pr_local_p part) \<and>
         ivr_len (pr_pred_counts part) = ivr_len (pr_local_p part) \<and>
         ivr_len (pr_pred_totals part) = ivr_len (pr_local_p part))
       (Malformed ''triples: predicate index length disagrees with local_p'') (
     ensure_res (ivr_len (pr_obj_offsets part) = ivr_len (pr_local_o part) \<and>
         ivr_len (pr_obj_counts part) = ivr_len (pr_local_o part))
       (Malformed ''triples: object index length disagrees with local_o'') (
     bind_res (ensure_sum (pr_pred_counts part) (of_nat (ivr_len (pr_sp part)))
       ''triples: predicate index counts do not sum to sp.len()'') (\<lambda>_.
     bind_res (ensure_sum (pr_pred_totals part) (pr_n_triples part)
       ''triples: predicate index totals do not sum to n_triples'') (\<lambda>_.
     bind_res (ensure_sum (pr_obj_counts part) (of_nat (ivr_len (pr_so part)))
       ''triples: object index counts do not sum to so.len()'') (\<lambda>_.
     bind_res (validate_delta_index (pr_pred_index_data part) (pr_pred_offsets part) (pr_pred_counts part)
       (of_nat (ivr_len (pr_sp part)))) (\<lambda>_.
     validate_delta_index (pr_obj_index_data part) (pr_obj_offsets part) (pr_obj_counts part)
       (of_nat (ivr_len (pr_sp part)))))))))))))))))))"

definition partition_from_bytes :: "bytes \<Rightarrow> (pack_bits_error + partition_ref \<times> nat) option" where
  "partition_from_bytes bs =
     bind_res (parse_sections bs) (\<lambda>(part, pos).
     bind_res (validate_partition part) (\<lambda>_. Some (Inr (part, pos))))"

section \<open>Parsing the sections of an encoded block\<close>

lemma drop_at:
  assumes "drop pos bs = x @ rest" "pos \<le> length bs"
  shows "pos + length x \<le> length bs" "drop (pos + length x) bs = rest"
proof -
  have "length bs - pos = length x + length rest" using arg_cong [OF assms(1), of length] by simp
  then show "pos + length x \<le> length bs" using assms(2) by simp
  show "drop (pos + length x) bs = rest"
    using arg_cong [OF assms(1), of "drop (length x)"] by (simp add: add.commute)
qed

text \<open>\<open>at bs pos rest\<close>: the cursor \<open>pos\<close> is inside the buffer and \<open>rest\<close> is what is left.\<close>

definition at :: "bytes \<Rightarrow> nat \<Rightarrow> bytes \<Rightarrow> bool" where
  "at bs pos rest \<longleftrightarrow> pos \<le> length bs \<and> drop pos bs = rest"

lemma header_section:
  assumes "at bs pos (le_bytes 8 (w :: u64) @ rest)"
  obtains pos' where "read_header_u64 bs pos = Inr (w, pos')" "at bs pos' rest"
proof -
  have "read_header_u64 bs pos = Inr (w, pos + 8)"
    using assms by (simp add: at_def read_header_u64_def bytes_read_u64_le_def)
  then show ?thesis using that drop_at [of pos bs "le_bytes 8 w" rest] assms by (simp add: at_def)
qed

lemma iv_section:
  assumes "at bs pos (iv_to_bytes v @ rest)" "holds v xs"
  obtains r pos' where "iv_section bs pos = Some (Inr (r, pos'))" "at bs pos' rest" "reads r xs"
proof -
  have d: "drop pos bs = iv_to_bytes v @ rest" "pos \<le> length bs" using assms(1) by (simp_all add: at_def)
  from packed_section.parse_at [OF holds_good [OF assms(2)] d(1)]
  obtain r where r: "ivr_from_bytes (drop pos bs) = Inr r" "reads r (iv_values v)"
    "drop (pos + ivr_serialized_len r) bs = rest" "ivr_serialized_len r = length (iv_to_bytes v)" by blast
  show ?thesis
    by (rule that [of r "pos + ivr_serialized_len r"])
      (use r d drop_at [OF d] assms(2) in \<open>simp_all add: iv_section_def at_def holds_def\<close>)
qed

lemma rs_section:
  assumes "at bs pos (rs_to_bytes v @ rest)" "rs_valid v" "rs_bits v = bits"
  obtains r pos' where "rs_section bs pos = Some (Inr (r, pos'))" "at bs pos' rest" "marks r bits"
proof -
  have d: "drop pos bs = rs_to_bytes v @ rest" "pos \<le> length bs" using assms(1) by (simp_all add: at_def)
  from bitmap_section.parse_at [OF assms(2) d(1)]
  obtain r where r: "rsr_from_bytes (drop pos bs) = Inr r" "marks r (rs_bits v)"
    "drop (pos + rsr_serialized_len r) bs = rest" "rsr_serialized_len r = length (rs_to_bytes v)" by blast
  show ?thesis
    by (rule that [of r "pos + rsr_serialized_len r"])
      (use r d drop_at [OF d] assms(3) in \<open>simp_all add: rs_section_def at_def\<close>)
qed

lemma data_section:
  assumes "at bs pos (x @ rest)" "length x = n" "length bs < 2 ^ 64"
  obtains pos' where "data_section bs pos n = Some (Inr (x, pos'))" "at bs pos' rest"
proof -
  have d: "drop pos bs = x @ rest" "pos \<le> length bs" using assms(1) by (simp_all add: at_def)
  have "usize_wrapping_add pos n = pos + n"
    using drop_at [OF d] assms(2,3) by (simp add: usize_wrapping_add_def)
  moreover have "slice_range pos (pos + n) bs = x" using d(1) assms(2) by (simp add: slice_range_def)
  ultimately show ?thesis
    by (intro that [of "pos + n"]) (use drop_at [OF d] assms(2) in \<open>simp_all add: at_def data_section_def Let_def\<close>)
qed

text \<open>A partition reader that stands for the rows \<open>T\<close> under the three tables.\<close>

definition part_view :: "partition_ref \<Rightarrow> u64 option \<Rightarrow> triple list \<Rightarrow> u64 list \<Rightarrow> u64 list \<Rightarrow> u64 list \<Rightarrow> bool" where
  "part_view part g T us up uo \<longleftrightarrow> numbered T us up uo \<and>
     pr_graph_id part = g \<and> pr_n_triples part = of_nat (length T) \<and>
     reads (pr_local_s part) us \<and> reads (pr_local_p part) up \<and> reads (pr_local_o part) uo \<and>
     reads (pr_sp part) (sp_list T) \<and> marks (pr_bp part) (mark_bits (subj_list T)) \<and>
     reads (pr_so part) (map obj_of T) \<and> marks (pr_bo part) (mark_bits (pairs T)) \<and>
     reads (pr_pred_offsets part) (index_offsets (pred_lists T up)) \<and>
     reads (pr_pred_counts part) (map (of_nat \<circ> length) (pred_lists T up)) \<and>
     reads (pr_pred_totals part) (map (\<lambda>p. pred_total T (length T) (of_nat p)) [0..<length up]) \<and>
     pr_pred_index_data part = concat (map delta_bytes (pred_lists T up)) \<and>
     reads (pr_obj_offsets part) (index_offsets (obj_lists T uo)) \<and>
     reads (pr_obj_counts part) (map (of_nat \<circ> length) (obj_lists T uo)) \<and>
     pr_obj_index_data part = concat (map delta_bytes (obj_lists T uo))"

lemma index_data_small:
  assumes "numbered T us up uo"
  shows "unat (of_nat (length (concat (map delta_bytes (pred_lists T up)))) :: u64) = length (concat (map delta_bytes (pred_lists T up)))"
    "unat (of_nat (length (concat (map delta_bytes (obj_lists T uo)))) :: u64) = length (concat (map delta_bytes (obj_lists T uo)))"
proof -
  have "length (concat (map delta_bytes (pred_lists T up))) < 2 ^ 64"
    by (rule le_less_trans [OF length_concat_delta]) (use index_sizes(1) [OF assms] in simp)
  moreover have "length (concat (map delta_bytes (obj_lists T uo))) < 2 ^ 64"
    by (rule le_less_trans [OF length_concat_delta]) (use index_sizes(2) [OF assms] in simp)
  ultimately show "unat (of_nat (length (concat (map delta_bytes (pred_lists T up)))) :: u64) = length (concat (map delta_bytes (pred_lists T up)))"
    "unat (of_nat (length (concat (map delta_bytes (obj_lists T uo)))) :: u64) = length (concat (map delta_bytes (obj_lists T uo)))"
    by (simp_all only: unat_of_nat_64)
qed

lemma parse_sections_block:
  assumes num: "numbered T us up uo" and ok: "sections_ok T us up uo c" and g: "g \<noteq> Some 0"
    and len: "length (block_bytes g T up uo c) < 2 ^ 64"
  obtains part where "parse_sections (block_bytes g T up uo c) = Some (Inr (part, length (block_bytes g T up uo c)))"
    "part_view part g T us up uo"
proof -
  note C = ok [unfolded sections_ok_def]
  define bs where "bs = block_bytes g T up uo c"
  define pd od where "pd = concat (map delta_bytes (pred_lists T up))" and "od = concat (map delta_bytes (obj_lists T uo))"
  note small = index_data_small [OF num, folded pd_def od_def]
  have lb: "length bs < 2 ^ 64" using len by (simp add: bs_def)
  let ?t18 = "[]" let ?t17 = "od @ ?t18" let ?t16 = "le_bytes 8 (of_nat (length od) :: u64) @ ?t17"
  let ?t15 = "iv_to_bytes (s_oc c) @ ?t16" let ?t14 = "iv_to_bytes (s_oo c) @ ?t15" let ?t13 = "pd @ ?t14"
  let ?t12 = "le_bytes 8 (of_nat (length pd) :: u64) @ ?t13" let ?t11 = "iv_to_bytes (s_pt c) @ ?t12"
  let ?t10 = "iv_to_bytes (s_pc c) @ ?t11" let ?t9 = "iv_to_bytes (s_po c) @ ?t10" let ?t8 = "rs_to_bytes (s_bo c) @ ?t9"
  let ?t7 = "iv_to_bytes (s_so c) @ ?t8" let ?t6 = "rs_to_bytes (s_bp c) @ ?t7" let ?t5 = "iv_to_bytes (s_sp c) @ ?t6"
  let ?t4 = "iv_to_bytes (s_o c) @ ?t5" let ?t3 = "iv_to_bytes (s_p c) @ ?t4" let ?t2 = "iv_to_bytes (s_s c) @ ?t3"
  let ?t1 = "le_bytes 8 (of_nat (length T) :: u64) @ ?t2"
  have a0: "at bs 0 (le_bytes 8 (case g of None \<Rightarrow> 0 | Some x \<Rightarrow> x) @ ?t1)"
    by (simp add: at_def bs_def block_bytes_def Let_def pd_def od_def)
  obtain p1 where e1: "read_header_u64 bs 0 = Inr (case g of None \<Rightarrow> 0 | Some x \<Rightarrow> x, p1)" and a1: "at bs p1 ?t1"
    by (rule header_section [OF a0])
  obtain p2 where e2: "read_header_u64 bs p1 = Inr (of_nat (length T), p2)" and a2: "at bs p2 ?t2"
    by (rule header_section [OF a1])
  obtain r3 p3 where e3: "iv_section bs p2 = Some (Inr (r3, p3))" and a3: "at bs p3 ?t3" and v3: "reads r3 us"
    by (rule iv_section [OF a2]) (use C in auto)
  obtain r4 p4 where e4: "iv_section bs p3 = Some (Inr (r4, p4))" and a4: "at bs p4 ?t4" and v4: "reads r4 up"
    by (rule iv_section [OF a3]) (use C in auto)
  obtain r5 p5 where e5: "iv_section bs p4 = Some (Inr (r5, p5))" and a5: "at bs p5 ?t5" and v5: "reads r5 uo"
    by (rule iv_section [OF a4]) (use C in auto)
  obtain r6 p6 where e6: "iv_section bs p5 = Some (Inr (r6, p6))" and a6: "at bs p6 ?t6" and v6: "reads r6 (sp_list T)"
    by (rule iv_section [OF a5]) (use C in auto)
  obtain r7 p7 where e7: "rs_section bs p6 = Some (Inr (r7, p7))" and a7: "at bs p7 ?t7"
    and v7: "marks r7 (mark_bits (subj_list T))"
    by (rule rs_section [OF a6]) (use C in auto)
  obtain r8 p8 where e8: "iv_section bs p7 = Some (Inr (r8, p8))" and a8: "at bs p8 ?t8" and v8: "reads r8 (map obj_of T)"
    by (rule iv_section [OF a7]) (use C in auto)
  obtain r9 p9 where e9: "rs_section bs p8 = Some (Inr (r9, p9))" and a9: "at bs p9 ?t9"
    and v9: "marks r9 (mark_bits (pairs T))"
    by (rule rs_section [OF a8]) (use C in auto)
  obtain r10 p10 where e10: "iv_section bs p9 = Some (Inr (r10, p10))" and a10: "at bs p10 ?t10"
    and v10: "reads r10 (index_offsets (pred_lists T up))"
    by (rule iv_section [OF a9]) (use C in auto)
  obtain r11 p11 where e11: "iv_section bs p10 = Some (Inr (r11, p11))" and a11: "at bs p11 ?t11"
    and v11: "reads r11 (map (of_nat \<circ> length) (pred_lists T up))"
    by (rule iv_section [OF a10]) (use C in auto)
  obtain r12 p12 where e12: "iv_section bs p11 = Some (Inr (r12, p12))" and a12: "at bs p12 ?t12"
    and v12: "reads r12 (map (\<lambda>p. pred_total T (length T) (of_nat p)) [0..<length up])"
    by (rule iv_section [OF a11]) (use C in auto)
  obtain p13 where e13: "read_header_u64 bs p12 = Inr (of_nat (length pd), p13)" and a13: "at bs p13 ?t13"
    by (rule header_section [OF a12])
  obtain p14 where e14: "data_section bs p13 (length pd) = Some (Inr (pd, p14))" and a14: "at bs p14 ?t14"
    by (rule data_section [OF a13 refl lb])
  obtain r15 p15 where e15: "iv_section bs p14 = Some (Inr (r15, p15))" and a15: "at bs p15 ?t15"
    and v15: "reads r15 (index_offsets (obj_lists T uo))"
    by (rule iv_section [OF a14]) (use C in auto)
  obtain r16 p16 where e16: "iv_section bs p15 = Some (Inr (r16, p16))" and a16: "at bs p16 ?t16"
    and v16: "reads r16 (map (of_nat \<circ> length) (obj_lists T uo))"
    by (rule iv_section [OF a15]) (use C in auto)
  obtain p17 where e17: "read_header_u64 bs p16 = Inr (of_nat (length od), p17)" and a17: "at bs p17 ?t17"
    by (rule header_section [OF a16])
  obtain p18 where e18: "data_section bs p17 (length od) = Some (Inr (od, p18))" and a18: "at bs p18 []"
    by (rule data_section [OF a17 refl lb])
  have end_pos: "p18 = length bs" using a18 by (simp add: at_def)
  define part where "part = \<lparr>pr_graph_id = g, pr_n_triples = of_nat (length T),
         pr_local_s = r3, pr_local_p = r4, pr_local_o = r5, pr_sp = r6, pr_bp = r7,
         pr_so = r8, pr_bo = r9, pr_pred_offsets = r10, pr_pred_counts = r11,
         pr_pred_totals = r12, pr_pred_index_data = pd, pr_obj_offsets = r15,
         pr_obj_counts = r16, pr_obj_index_data = od\<rparr>"
  have gid: "(if (case g of None \<Rightarrow> 0 | Some x \<Rightarrow> x) = 0 then None else Some (case g of None \<Rightarrow> 0 | Some x \<Rightarrow> x)) = g"
    using g by (cases g) auto
  have "parse_sections bs = Some (Inr (part, length bs))"
    by (simp only: parse_sections_def e1 e2 e3 e4 e5 e6 e7 e8 e9 e10 e11 e12 e13 e14 e15 e16 e17 e18 small
        bind_res_simps prod.case gid part_def end_pos)
  moreover have "part_view part g T us up uo"
    using num v3 v4 v5 v6 v7 v8 v9 v10 v11 v12 v15 v16
    unfolding part_view_def part_def partition_ref.simps pd_def od_def by blast
  ultimately show ?thesis using that by (simp add: bs_def)
qed

end
