(* ===== verification/TriplesValid.thy ===== *)
theory TriplesValid
  imports TriplesParse
begin

text \<open>
  A block written by the encoder opens: the sections parse to a reader of the same rows and
  every structural check of \<open>PartitionRef::from_bytes\<close>
  (\<open>crates/rdf-core/src/ir/pack/triples.rs\<close>) passes.
\<close>

section \<open>The checks, one by one\<close>

lemma asc_loop_ok:
  assumes r: "reads r xs" and s: "sorted_wrt (<) xs"
  shows "i \<le> length xs \<Longrightarrow> (case prev of None \<Rightarrow> True | Some p \<Rightarrow> 0 < i \<and> p = xs ! (i - 1)) \<Longrightarrow>
     asc_loop (ivr_get r) what prev [i..<length xs] = Some (Inr ())"
proof (induction "length xs - i" arbitrary: i prev)
  case (Suc n)
  then have i: "i < length xs" by simp
  have u: "[i..<length xs] = i # [Suc i..<length xs]" using i by (simp add: upt_conv_Cons)
  have "\<not> (case prev of Some p \<Rightarrow> xs ! i \<le> p | None \<Rightarrow> False)"
    using Suc.prems i sorted_wrt_nth_less [OF s, of "i - 1" i] by (auto split: option.splits)
  then show ?case unfolding u using reads_get [OF r i] Suc.hyps(1) [of "Suc i" "Some (xs ! i)"] Suc.hyps(2) i by simp
qed simp

lemma assert_strictly_ascending_ok:
  "reads r xs \<Longrightarrow> sorted_wrt (<) xs \<Longrightarrow> assert_strictly_ascending r what = Some (Inr ())"
  using asc_loop_ok [of r xs 0 None what] by (simp add: assert_strictly_ascending_def reads_len)

lemma range_loop_ok:
  assumes r: "reads r xs"
  shows "\<forall>i\<in>set is. i < length xs \<and> unat (xs ! i) < b \<Longrightarrow> range_loop (ivr_get r) b what is = Some (Inr ())"
  by (induction "is") (auto simp: reads_get [OF r])

lemma assert_in_range_ok:
  "reads r xs \<Longrightarrow> \<forall>x\<in>set xs. unat x < b \<Longrightarrow> assert_in_range r b what = Some (Inr ())"
  using range_loop_ok [of r xs "[0..<length xs]" b what] by (auto simp: assert_in_range_def reads_len)

lemma sum_loop_ok:
  assumes r: "reads r xs"
  shows "i \<le> length xs \<Longrightarrow> unat acc + sum_list (map unat (drop i xs)) < 2 ^ 64 \<Longrightarrow>
     sum_loop (ivr_get r) acc [i..<length xs] = Some (Some (of_nat (unat acc + sum_list (map unat (drop i xs)))))"
proof (induction "length xs - i" arbitrary: i acc)
  case (Suc n)
  then have i: "i < length xs" by simp
  have u: "[i..<length xs] = i # [Suc i..<length xs]" using i by (simp add: upt_conv_Cons)
  have d: "drop i xs = xs ! i # drop (Suc i) xs" using i by (simp add: Cons_nth_drop_Suc)
  have lt: "unat acc + unat (xs ! i) < 2 ^ 64" using Suc.prems(2) unfolding d by simp
  then have un: "unat (acc + xs ! i) = unat acc + unat (xs ! i)" by (simp add: iffD1 [OF unat_add_lem])
  have "sum_loop (ivr_get r) (acc + xs ! i) [Suc i..<length xs] =
      Some (Some (of_nat (unat (acc + xs ! i) + sum_list (map unat (drop (Suc i) xs)))))"
    by (rule Suc.hyps(1)) (use Suc i in \<open>auto simp: un d\<close>)
  then show ?case unfolding u using lt by (simp add: reads_get [OF r i] checked_add_u64_def un d add.assoc)
qed simp

lemma ensure_sum_ok:
  assumes "reads r xs" "sum_list (map unat xs) = n" "n < 2 ^ 64"
  shows "ensure_sum r (of_nat n) what = Some (Inr ())"
  using sum_loop_ok [OF assms(1), of 0 0] assms by (simp add: ensure_sum_def sum_int_vector_def reads_len)

section \<open>Counting occurrences\<close>

lemma sum_filter_eq:
  assumes "distinct vs" "\<forall>i\<in>set is. f i \<in> set vs"
  shows "sum_list (map (\<lambda>v. length (filter (\<lambda>i. f i = v) is)) vs) = length is"
  using assms(2)
proof (induction "is")
  case (Cons i js)
  have "(\<Sum>v\<leftarrow>vs. length (filter (\<lambda>i. f i = v) (i # js))) =
      (\<Sum>v\<leftarrow>vs. (if f i = v then 1 else 0) + length (filter (\<lambda>i. f i = v) js))"
    by (intro arg_cong [of _ _ sum_list] map_cong) auto
  also have "\<dots> = (\<Sum>v\<leftarrow>vs. if f i = v then 1 else 0) + (\<Sum>v\<leftarrow>vs. length (filter (\<lambda>i. f i = v) js))"
    by (rule sum_list_addf)
  also have "(\<Sum>v\<leftarrow>vs. if f i = v then 1 else 0) = (1 :: nat)"
  proof -
    have "(\<Sum>v\<leftarrow>vs. if x = v then 1 else 0) = (if x \<in> set vs then 1 else 0 :: nat)" for x
      using assms(1) by (induction vs) auto
    then show ?thesis using Cons.prems by simp
  qed
  finally show ?case using Cons by simp
qed simp

lemma in_of_nats: "unat x < n \<Longrightarrow> (x :: u64) \<in> set (map of_nat [0..<n])"
proof -
  assume "unat x < n"
  then have "of_nat (unat x) \<in> set (map of_nat [0..<n] :: u64 list)" by (simp del: of_nat_unat)
  then show ?thesis by simp
qed

lemma in_of_nats': "unat x < n \<Longrightarrow> (x :: u64) \<in> of_nat ` {0..<n}"
  using in_of_nats [of x n] by simp

lemma numbered_bounds:
  assumes "numbered T us up uo"
  shows "length T < 2 ^ 57" "length us \<le> 2 ^ 57" "length up \<le> 2 ^ 57" "length uo \<le> 2 ^ 57"
    "length (pair_list T) < 2 ^ 57" "\<And>t. t \<in> set T \<Longrightarrow> unat (fst t) < length us"
    "\<And>t. t \<in> set T \<Longrightarrow> unat (fst (snd t)) < length up" "\<And>t. t \<in> set T \<Longrightarrow> unat (snd (snd t)) < length uo"
  using assms pair_list_le [of T] by (auto simp: numbered_def rows_fit_def)

lemma sp_in_table: "numbered T us up uo \<Longrightarrow> j < length (pair_list T) \<Longrightarrow> unat (sp_list T ! j) < length up"
proof -
  assume n: "numbered T us up uo" and j: "j < length (pair_list T)"
  have "pair_list T ! j \<in> set (pairs T)" using nth_mem [OF j] by (simp add: pair_list_def)
  then obtain t where "t \<in> set T" "pair_list T ! j = pair_of t" by (auto simp: pairs_def)
  then show ?thesis using numbered_bounds(7) [OF n] j by (simp add: sp_list_def)
qed

lemma index_counts:
  assumes n: "numbered T us up uo"
  shows "sum_list (map unat (map (of_nat \<circ> length) (pred_lists T up) :: u64 list)) = length (pair_list T)"
    "sum_list (map unat (map (of_nat \<circ> length) (obj_lists T uo) :: u64 list)) = length T"
    "sum_list (map unat (map (\<lambda>p. pred_total T (length T) (of_nat p)) [0..<length up])) = length T"
proof -
  note b = numbered_bounds [OF n]
  have un: "unat (of_nat (length (filter P [0..<k])) :: u64) = length (filter P [0..<k])" if "k < 2 ^ 57" for P k
    using length_filter_le [of P "[0..<k]"] that by (intro unat_of_nat_64) simp
  have "sum_list (map (\<lambda>v. length (filter (\<lambda>i. sp_list T ! i = v) [0..<length (pair_list T)])) (map of_nat [0..<length up]))
      = length [0..<length (pair_list T)]"
    using sp_in_table [OF n] in_of_nats' by (intro sum_filter_eq distinct_of_nats b) auto
  then show "sum_list (map unat (map (of_nat \<circ> length) (pred_lists T up) :: u64 list)) = length (pair_list T)"
    by (simp add: pred_lists_def pred_positions_def comp_def un [OF b(5)])
  have "sum_list (map (\<lambda>v. length (filter (\<lambda>i. obj_of (T ! i) = v) [0..<length T])) (map of_nat [0..<length uo]))
      = length [0..<length T]"
    using b(8) in_of_nats' by (intro sum_filter_eq distinct_of_nats b) auto
  then show "sum_list (map unat (map (of_nat \<circ> length) (obj_lists T uo) :: u64 list)) = length T"
    by (simp add: obj_lists_def obj_positions_def comp_def un [OF b(1)])
  have "sum_list (map (\<lambda>v. length (filter (\<lambda>i. fst (snd (T ! i)) = v) [0..<length T])) (map of_nat [0..<length up]))
      = length [0..<length T]"
    using b(7) in_of_nats' by (intro sum_filter_eq distinct_of_nats b) auto
  then show "sum_list (map unat (map (\<lambda>p. pred_total T (length T) (of_nat p)) [0..<length up])) = length T"
    by (simp add: pred_total_def comp_def un [OF b(1)])
qed

text \<open>The subjects of the pairs are the dense local ids.\<close>

lemma sorted_pairs: "sorted_wrt (<) T \<Longrightarrow> sorted (pairs T)"
proof -
  assume "sorted_wrt (<) T"
  then show ?thesis unfolding pairs_def sorted_map
    by (rule sorted_wrt_mono_rel [rotated]) (auto simp: less_prod_def' less_eq_prod_def less_le)
qed

lemma strict_pair_list: "sorted_wrt (<) T \<Longrightarrow> sorted_wrt (<) (pair_list T)"
  by (simp add: pair_list_def strict_remdups_adj sorted_pairs)

lemma sorted_subj_list: "sorted_wrt (<) T \<Longrightarrow> sorted (subj_list T)"
  unfolding subj_list_def sorted_map
  by (rule sorted_wrt_mono_rel [OF _ strict_pair_list]) (auto simp: less_prod_def' less_le)

lemma of_nats_strict: "n \<le> 2 ^ 57 \<Longrightarrow> sorted_wrt (<) (map (of_nat :: nat \<Rightarrow> u64) [0..<n])"
proof -
  assume n: "n \<le> 2 ^ 57"
  have "(of_nat i :: u64) < of_nat j" if "i < j" "j < n" for i j
    using that n by (simp add: word_less_nat_alt unat_of_nat_64)
  then show ?thesis by (simp add: sorted_wrt_iff_nth_less)
qed

lemma subjects_dense:
  assumes n: "numbered T us up uo"
  shows "remdups_adj (subj_list T) = map of_nat [0..<length us]"
proof (rule strict_sorted_equal)
  have s: "sorted_wrt (<) T" using n by (simp add: numbered_def)
  show "sorted_wrt (<) (map (of_nat :: nat \<Rightarrow> u64) [0..<length us])"
    by (rule of_nats_strict [OF numbered_bounds(2) [OF n]])
  show "sorted_wrt (<) (remdups_adj (subj_list T))" by (rule strict_remdups_adj [OF sorted_subj_list [OF s]])
  have "set (subj_list T) = fst ` set T"
    by (auto simp: subj_list_def pair_list_def pairs_def image_image)
  also have "\<dots> = set (map of_nat [0..<length us])"
  proof
    show "fst ` set T \<subseteq> set (map of_nat [0..<length us])"
      using numbered_bounds(6) [OF n] in_of_nats by blast
    show "set (map of_nat [0..<length us]) \<subseteq> fst ` set T" using n by (force simp: numbered_def)
  qed
  finally show "set (remdups_adj (subj_list T)) = set (map of_nat [0..<length us])" by simp
qed

section \<open>The delta lists of an index\<close>

lemma delta_items_ok:
  assumes "drop (dl_pos d) (dl_bytes d) = write_delta_loop [] (dl_prev d) vs @ rest"
    and "dl_remaining d = length vs" "sorted (dl_prev d # vs)" "\<forall>v\<in>set vs. v < bound"
    and "case lst of None \<Rightarrow> True | Some l \<Rightarrow> \<forall>v\<in>set vs. l \<le> v"
  shows "\<exists>d'. delta_items_loop bound lst d = Inr d' \<and> dl_pos d' = dl_pos d + length (write_delta_loop [] (dl_prev d) vs)"
  using assms
proof (induction vs arbitrary: d lst)
  case Nil
  then have "dl_next d = (None, d)" by (simp add: dl_next_def)
  then show ?case by (subst delta_items_loop.simps) simp
next
  case (Cons v vs)
  obtain d' where d': "dl_next d = (Some (Inr v), d')" "dl_remaining d' = length vs" "dl_prev d' = v"
    "drop (dl_pos d') (dl_bytes d') = write_delta_loop [] v vs @ rest"
    "dl_pos d' + length (write_delta_loop [] v vs) = dl_pos d + length (write_delta_loop [] (dl_prev d) (v # vs))"
    using dl_next_step [OF Cons.prems(1-3)] by blast
  have "\<not> (case lst of Some l \<Rightarrow> v < l | None \<Rightarrow> False)" "\<not> bound \<le> v"
    using Cons.prems(4,5) by (auto split: option.splits simp: not_less)
  then have step: "delta_items_loop bound lst d = delta_items_loop bound (Some v) d'"
    by (subst delta_items_loop.simps) (simp add: d'(1))
  show ?case unfolding step using Cons.IH [of d' "Some v"] d' Cons.prems(3,4) by auto
qed

lemma concat_take_Suc:
  "i < length ls \<Longrightarrow> concat (map f (take (Suc i) ls)) = concat (map f (take i ls)) @ f (ls ! i)"
  by (simp add: take_Suc_conv_app_nth)

lemma drop_concat_take:
  "drop (length (concat (map f (take i ls)))) (concat (map f ls)) = concat (map f (drop i ls))"
proof -
  have "concat (map f ls) = concat (map f (take i ls)) @ concat (map f (drop i ls))"
    by (simp flip: concat_append map_append)
  then show ?thesis by simp
qed

lemma length_concat_take_le: "length (concat (map f (take i ls))) \<le> length (concat (map f ls))"
proof -
  have "concat (map f ls) = concat (map f (take i ls)) @ concat (map f (drop i ls))"
    by (simp flip: concat_append map_append)
  then show ?thesis by simp
qed

lemma index_lengths [simp]:
  "length (index_offsets ls) = length ls" "length (pred_lists T up) = length up" "length (obj_lists T uo) = length uo"
  by (simp_all add: index_offsets_def pred_lists_def obj_lists_def)

text \<open>The offsets of an index whose data stays below the wrap.\<close>

lemma offset_nat:
  assumes "length (concat (map delta_bytes ls)) < 2 ^ 64" "i < length ls"
  shows "unat (index_offsets ls ! i) = length (concat (map delta_bytes (take i ls)))"
proof -
  have "length (concat (map delta_bytes (take i ls))) < 2 ^ 64"
    by (rule le_less_trans [OF length_concat_take_le assms(1)])
  then show ?thesis using assms(2) by (simp only: index_offsets_def nth_map_upt add_0 diff_zero unat_of_nat_64)
qed

lemma delta_index_loop_ok:
  assumes data: "dat = concat (map delta_bytes ls)" "length dat < 2 ^ 64"
    and offs: "\<And>i. i < length ls \<Longrightarrow> offs i = Some (index_offsets ls ! i)"
    and cnts: "\<And>i. i < length ls \<Longrightarrow> cnts i = Some (of_nat (length (ls ! i)))"
    and ok: "\<And>i. i < length ls \<Longrightarrow> sorted (ls ! i) \<and> (\<forall>v\<in>set (ls ! i). v < bound) \<and> length (ls ! i) < 2 ^ 64"
  shows "i \<le> length ls \<Longrightarrow> (0 < i \<Longrightarrow> prev = index_offsets ls ! (i - 1)) \<Longrightarrow>
     delta_index_loop dat offs cnts bound (length ls) prev [i..<length ls] = Some (Inr ())"
proof (induction "length ls - i" arbitrary: i prev)
  case (Suc n)
  then have i: "i < length ls" by simp
  have u: "[i..<length ls] = i # [Suc i..<length ls]" using i by (simp add: upt_conv_Cons)
  note off = offset_nat [OF data(2) [unfolded data(1)]]
  let ?pre = "\<lambda>i. length (concat (map delta_bytes (take i ls)))"
  have step: "?pre (Suc i) = ?pre i + length (delta_bytes (ls ! i))" by (simp only: concat_take_Suc [OF i] length_append)
  have top: "?pre (Suc i) \<le> length dat" unfolding data(1) by (rule length_concat_take_le)
  have asc: "\<not> (i > 0 \<and> index_offsets ls ! i < prev)"
  proof
    assume a: "i > 0 \<and> index_offsets ls ! i < prev"
    have "?pre (i - 1) \<le> ?pre i"
      using length_concat_take_le [of delta_bytes "i - 1" "take i ls"] unfolding take_take by (simp only: min_def diff_le_self if_True)
    moreover have "i - 1 < length ls" using i by simp
    ultimately have "unat (index_offsets ls ! (i - 1)) \<le> unat (index_offsets ls ! i)"
      using off [of "i - 1"] off [OF i] by (simp only:)
    then show False using a Suc.prems(2) by (metis not_le word_le_nat_alt)
  qed
  have bytes: "drop (?pre i) dat = delta_bytes (ls ! i) @ concat (map delta_bytes (drop (Suc i) ls))"
    unfolding data(1) drop_concat_take Cons_nth_drop_Suc [OF i, symmetric] by (simp only: list.map concat.simps)
  define D where "D = dl_new (drop (?pre i) dat) (length (ls ! i))"
  have D: "dl_pos D = 0" "dl_bytes D = drop (?pre i) dat" "dl_prev D = 0" "dl_remaining D = length (ls ! i)"
    by (simp_all add: D_def dl_new_def)
  have "drop (dl_pos D) (dl_bytes D) = write_delta_loop [] (dl_prev D) (ls ! i) @ concat (map delta_bytes (drop (Suc i) ls))"
    unfolding D bytes by (simp only: delta_bytes_def write_delta_list_def drop_0)
  from delta_items_ok [OF this D(4), of bound None]
  obtain d' where d': "delta_items_loop bound None D = Inr d'" "dl_pos d' = length (delta_bytes (ls ! i))"
    using ok [OF i] D by (auto simp: delta_bytes_def write_delta_list_def)
  obtain nb where nb: "(if i + 1 < length ls then offs (i + 1) else Some (of_nat (length dat))) = Some nb"
    and nb': "unat nb = ?pre (Suc i)"
  proof (cases "i + 1 < length ls")
    case True
    show ?thesis
      by (rule that [of "index_offsets ls ! (i + 1)"]) (use True offs [OF True] off [OF True] in simp_all)
  next
    case False
    then have "take (Suc i) ls = ls" by simp
    then have "length dat = ?pre (Suc i)" by (simp only: data(1))
    then show ?thesis
      by (intro that [of "of_nat (length dat)"]) (use False data(2) in \<open>simp_all only: if_False unat_of_nat_64\<close>)
  qed
  have IH: "delta_index_loop dat offs cnts bound (length ls) (index_offsets ls ! i) [Suc i..<length ls] = Some (Inr ())"
    by (rule Suc.hyps(1)) (use Suc i in auto)
  have cn: "unat (of_nat (length (ls ! i)) :: u64) = length (ls ! i)" using ok [OF i] by (simp add: unat_of_nat_64)
  show ?case unfolding u
    using asc top step IH by (simp only: delta_index_loop.simps offs [OF i] cnts [OF i] option.case off [OF i] cn nb nb' d' sum.case D_def [symmetric]) simp
qed simp

lemma validate_delta_index_ok:
  assumes "reads offsets (index_offsets ls)" "reads counts (map (of_nat \<circ> length) ls)"
    and "length (concat (map delta_bytes ls)) < 2 ^ 64"
    and "\<And>i. i < length ls \<Longrightarrow> sorted (ls ! i) \<and> (\<forall>v\<in>set (ls ! i). v < bound) \<and> length (ls ! i) < 2 ^ 64"
  shows "validate_delta_index (concat (map delta_bytes ls)) offsets counts bound = Some (Inr ())"
proof -
  have l: "ivr_len offsets = length ls" "length (index_offsets ls) = length ls"
    using reads_len [OF assms(1)] by (simp_all add: index_offsets_def)
  have "delta_index_loop (concat (map delta_bytes ls)) (ivr_get offsets) (ivr_get counts) bound (length ls) 0 [0..<length ls] = Some (Inr ())"
    by (rule delta_index_loop_ok [OF refl assms(3) _ _ assms(4)])
      (use reads_get [OF assms(1)] reads_get [OF assms(2)] l in simp_all)
  then show ?thesis by (simp add: validate_delta_index_def l)
qed

section \<open>An encoded block opens\<close>

lemma sorted_map_of_nat:
  assumes "sorted (map f is)" "\<forall>i\<in>set is. f i < 2 ^ 64"
  shows "sorted (map (\<lambda>i. of_nat (f i) :: u64) is)"
  using assms by (induction "is") (auto simp: of_nat_le_64)

lemma index_lists_ok:
  assumes n: "numbered T us up uo"
  shows "i < length up \<Longrightarrow> sorted (pred_lists T up ! i) \<and> (\<forall>v\<in>set (pred_lists T up ! i). v < of_nat (length (pair_list T))) \<and>
      length (pred_lists T up ! i) < 2 ^ 64"
    "i < length uo \<Longrightarrow> sorted (obj_lists T uo ! i) \<and> (\<forall>v\<in>set (obj_lists T uo ! i). v < of_nat (length (pair_list T))) \<and>
      length (obj_lists T uo ! i) < 2 ^ 64"
proof -
  note b = numbered_bounds [OF n]
  have lt: "(of_nat j :: u64) < of_nat (length (pair_list T))" if "j < length (pair_list T)" for j
    using that b(5) by (simp add: word_less_nat_alt unat_of_nat_64)
  have fl: "length (filter P [0..<k]) < 2 ^ 64" if "k < 2 ^ 57" for P k
    using length_filter_le [of P "[0..<k]"] that by simp
  have s1: "sorted (map (\<lambda>i. of_nat i :: u64) (filter P [0..<length (pair_list T)]))" for P
    by (rule sorted_map_of_nat) (use b(5) in \<open>auto simp: sorted_wrt_filter\<close>)
  have "sorted (map (group_of (pairs T)) (filter P [0..<length T]))" for P
    by (simp add: sorted_map sorted_wrt_filter) (rule sorted_wrt_filter, simp add: sorted_wrt_iff_nth_less group_of_mono)
  then have s2: "sorted (map (\<lambda>i. of_nat (group_of (pairs T) i) :: u64) (filter P [0..<length T]))" for P
    by (rule sorted_map_of_nat) (use b(5) group_less in force)
  show "i < length up \<Longrightarrow> sorted (pred_lists T up ! i) \<and> (\<forall>v\<in>set (pred_lists T up ! i). v < of_nat (length (pair_list T))) \<and>
      length (pred_lists T up ! i) < 2 ^ 64"
    using s1 lt fl [OF b(5)] by (auto simp: pred_lists_def pred_positions_def)
  show "i < length uo \<Longrightarrow> sorted (obj_lists T uo ! i) \<and> (\<forall>v\<in>set (obj_lists T uo ! i). v < of_nat (length (pair_list T))) \<and>
      length (obj_lists T uo ! i) < 2 ^ 64"
    using s2 lt group_less fl [OF b(1)] by (auto simp: obj_lists_def obj_positions_def comp_def)
qed

lemma marks_total:
  assumes "marks r (mark_bits xs)"
  shows "rsr_total_ones r = length (remdups_adj xs)"
  using borrowed.dir_total [OF marks_facts(1) [OF assms]] marks_facts(2,3) [OF assms]
  by (simp add: rsr_dir_def group_of_length)

lemma validate_partition_ok:
  assumes v: "part_view part g T us up uo"
  shows "validate_partition part = Some (Inr ())"
proof -
  note V = v [unfolded part_view_def]
  have n: "numbered T us up uo" using V by blast
  note b = numbered_bounds [OF n]
  have s: "sorted_wrt (<) us" "sorted_wrt (<) up" "sorted_wrt (<) uo" using n by (simp_all add: numbered_def)
  have l: "ivr_len (pr_local_s part) = length us" "ivr_len (pr_local_p part) = length up"
    "ivr_len (pr_local_o part) = length uo" "ivr_len (pr_sp part) = length (pair_list T)" "ivr_len (pr_so part) = length T"
    "ivr_len (pr_pred_offsets part) = length up" "ivr_len (pr_pred_counts part) = length up"
    "ivr_len (pr_pred_totals part) = length up" "ivr_len (pr_obj_offsets part) = length uo"
    "ivr_len (pr_obj_counts part) = length uo"
    using V by (auto dest!: reads_len)
  have m: "rsr_len (pr_bp part) = length (pair_list T)" "rsr_len (pr_bo part) = length T"
    "rsr_total_ones (pr_bp part) = length us" "rsr_total_ones (pr_bo part) = length (pair_list T)"
  proof -
    have bp: "marks (pr_bp part) (mark_bits (subj_list T))" and bo: "marks (pr_bo part) (mark_bits (pairs T))"
      using V by blast+
    show "rsr_len (pr_bp part) = length (pair_list T)" "rsr_len (pr_bo part) = length T"
      using marks_facts(2) [OF bp] marks_facts(2) [OF bo] by simp_all
    show "rsr_total_ones (pr_bp part) = length us" "rsr_total_ones (pr_bo part) = length (pair_list T)"
      using marks_total [OF bp] marks_total [OF bo] subjects_dense [OF n] by (simp_all add: pair_list_def)
  qed
  have asc: "assert_strictly_ascending (pr_local_s part) w = Some (Inr ())"
    "assert_strictly_ascending (pr_local_p part) w = Some (Inr ())"
    "assert_strictly_ascending (pr_local_o part) w = Some (Inr ())" for w
    using V s by (auto intro: assert_strictly_ascending_ok)
  have rng: "assert_in_range (pr_sp part) (length up) w = Some (Inr ())"
    "assert_in_range (pr_so part) (length uo) w = Some (Inr ())" for w
  proof -
    have sp: "reads (pr_sp part) (sp_list T)" and so: "reads (pr_so part) (map obj_of T)" using V by blast+
    show "assert_in_range (pr_sp part) (length up) w = Some (Inr ())"
      by (rule assert_in_range_ok [OF sp]) (use sp_in_table [OF n] in \<open>auto simp: in_set_conv_nth\<close>)
    show "assert_in_range (pr_so part) (length uo) w = Some (Inr ())"
      by (rule assert_in_range_ok [OF so]) (use b(8) in auto)
  qed
  have sums: "ensure_sum (pr_pred_counts part) (of_nat (length (pair_list T))) w = Some (Inr ())"
    "ensure_sum (pr_pred_totals part) (of_nat (length T)) w = Some (Inr ())"
    "ensure_sum (pr_obj_counts part) (of_nat (length T)) w = Some (Inr ())" for w
  proof -
    have r: "reads (pr_pred_counts part) (map (of_nat \<circ> length) (pred_lists T up))"
      "reads (pr_pred_totals part) (map (\<lambda>p. pred_total T (length T) (of_nat p)) [0..<length up])"
      "reads (pr_obj_counts part) (map (of_nat \<circ> length) (obj_lists T uo))" using V by blast+
    show "ensure_sum (pr_pred_counts part) (of_nat (length (pair_list T))) w = Some (Inr ())"
      by (rule ensure_sum_ok [OF r(1) index_counts(1) [OF n]]) (use b(5) in simp)
    show "ensure_sum (pr_pred_totals part) (of_nat (length T)) w = Some (Inr ())"
      by (rule ensure_sum_ok [OF r(2) index_counts(3) [OF n]]) (use b(1) in simp)
    show "ensure_sum (pr_obj_counts part) (of_nat (length T)) w = Some (Inr ())"
      by (rule ensure_sum_ok [OF r(3) index_counts(2) [OF n]]) (use b(1) in simp)
  qed
  have small: "length (concat (map delta_bytes (pred_lists T up))) < 2 ^ 64"
    "length (concat (map delta_bytes (obj_lists T uo))) < 2 ^ 64"
    by (rule le_less_trans [OF length_concat_delta], use index_sizes(1) [OF n] in simp)
      (rule le_less_trans [OF length_concat_delta], use index_sizes(2) [OF n] in simp)
  have pl: "pr_pred_index_data part = concat (map delta_bytes (pred_lists T up))"
    "pr_obj_index_data part = concat (map delta_bytes (obj_lists T uo))" "pr_n_triples part = of_nat (length T)"
    using V by blast+
  have idx: "validate_delta_index (pr_pred_index_data part) (pr_pred_offsets part) (pr_pred_counts part)
      (of_nat (length (pair_list T))) = Some (Inr ())"
    unfolding pl by (rule validate_delta_index_ok [OF _ _ small(1)])
      (use V index_lists_ok(1) [OF n] in \<open>auto simp: pred_lists_def\<close>)
  have idx': "validate_delta_index (pr_obj_index_data part) (pr_obj_offsets part) (pr_obj_counts part)
      (of_nat (length (pair_list T))) = Some (Inr ())"
    unfolding pl by (rule validate_delta_index_ok [OF _ _ small(2)])
      (use V index_lists_ok(2) [OF n] in \<open>auto simp: obj_lists_def\<close>)
  show ?thesis
    by (simp add: validate_partition_def asc l m pl(3) rng sums idx idx' ensure_res_def)
qed

lemma partition_from_bytes_block:
  assumes "numbered T us up uo" "sections_ok T us up uo c" "g \<noteq> Some 0"
    "length (block_bytes g T up uo c) < 2 ^ 64"
  obtains part where "partition_from_bytes (block_bytes g T up uo c) = Some (Inr (part, length (block_bytes g T up uo c)))"
    "part_view part g T us up uo"
proof -
  obtain part where p: "parse_sections (block_bytes g T up uo c) = Some (Inr (part, length (block_bytes g T up uo c)))"
    "part_view part g T us up uo" by (rule parse_sections_block [OF assms])
  then show ?thesis using that validate_partition_ok [OF p(2)] by (simp add: partition_from_bytes_def)
qed

end
