(* ===== verification/TriplesQuery.thy ===== *)
theory TriplesQuery
  imports TriplesValid
begin

text \<open>
  Partition-local queries (\<open>crates/rdf-core/src/ir/pack/triples.rs\<close>): the eight access
  paths of \<open>partition_rows\<close> and the size bound \<open>partition_upper_bound\<close>. A lazy iterator is
  the list of the rows it yields, \<open>None\<close> when producing one of them panics. Every shape is
  proved to yield exactly the matching rows, in row order.
\<close>

section \<open>The code\<close>

definition expect :: "'a option option \<Rightarrow> 'a option" where
  "expect x = (case x of Some (Some v) \<Rightarrow> Some v | _ \<Rightarrow> None)"

definition subject_slice :: "partition_ref \<Rightarrow> u64 \<Rightarrow> (nat \<times> nat) option" where
  "subject_slice part ls = expect (mark_last_range (pr_bp part) (unat ls))"

definition sp_pair_slice :: "partition_ref \<Rightarrow> nat \<Rightarrow> (nat \<times> nat) option" where
  "sp_pair_slice part sp_pos = expect (mark_last_range (pr_bo part) sp_pos)"

definition subject_of :: "partition_ref \<Rightarrow> nat \<Rightarrow> u64 option" where
  "subject_of part sp_pos = map_option of_nat (rank1 (rsr_dir (pr_bp part)) sp_pos)"

definition subject_triple_count :: "partition_ref \<Rightarrow> u64 \<Rightarrow> nat option" where
  "subject_triple_count part ls = do {
     (start, stop) \<leftarrow> subject_slice part ls;
     if start = stop then Some 0
     else do {
       (o_first_start, _) \<leftarrow> sp_pair_slice part start;
       (_, o_last_end) \<leftarrow> sp_pair_slice part (usize_wrapping_sub stop 1);
       Some (usize_wrapping_sub o_last_end o_first_start)
     }
   }"

definition drop_opt :: "nat \<Rightarrow> 'a list \<Rightarrow> 'a list option" where
  "drop_opt n xs = (if n \<le> length xs then Some (drop n xs) else None)"

definition foq_list :: "bytes \<Rightarrow> int_vector_ref \<Rightarrow> int_vector_ref \<Rightarrow> u64 \<Rightarrow> u64 list option" where
  "foq_list dat offsets counts lid = do {
     count \<leftarrow> ivr_get counts (unat lid);
     offset \<leftarrow> ivr_get offsets (unat lid);
     rng \<leftarrow> drop_opt (unat offset) dat;
     those (map (\<lambda>r. case r of Inr v \<Rightarrow> Some v | Inl _ \<Rightarrow> None) (fst (dl_drain (dl_new rng (unat count)))))
   }"

definition flat_opt :: "('a \<Rightarrow> 'b list option) \<Rightarrow> 'a list \<Rightarrow> 'b list option" where
  "flat_opt f xs = map_option concat (those (map f xs))"

text \<open>One pair position: its predicate with every object of its rng.\<close>

definition pair_rows :: "partition_ref \<Rightarrow> u64 \<Rightarrow> u64 \<Rightarrow> nat \<times> nat \<Rightarrow> triple list option" where
  "pair_rows part ls lp rng =
     those (map (\<lambda>oi. map_option (\<lambda>ob. (ls, lp, ob)) (ivr_get (pr_so part) oi)) [fst rng..<snd rng])"

definition position_rows :: "partition_ref \<Rightarrow> u64 \<Rightarrow> nat \<Rightarrow> triple list option" where
  "position_rows part ls i = do {
     p \<leftarrow> ivr_get (pr_sp part) i;
     rng \<leftarrow> sp_pair_slice part i;
     pair_rows part ls p rng
   }"

definition holds_object :: "partition_ref \<Rightarrow> nat \<Rightarrow> u64 \<Rightarrow> bool option" where
  "holds_object part i lo = do {
     (ostart, oend) \<leftarrow> sp_pair_slice part i;
     found \<leftarrow> binary_search_range (pr_so part) ostart oend lo;
     Some (found \<noteq> None)
   }"

definition rows_spo :: "partition_ref \<Rightarrow> u64 \<Rightarrow> u64 \<Rightarrow> u64 \<Rightarrow> triple list option" where
  "rows_spo part ls lp lo = do {
     (start, stop) \<leftarrow> subject_slice part ls;
     found \<leftarrow> binary_search_range (pr_sp part) start stop lp;
     (case found of None \<Rightarrow> Some []
      | Some i \<Rightarrow> map_option (\<lambda>b. if b then [(ls, lp, lo)] else []) (holds_object part i lo))
   }"

definition rows_sp :: "partition_ref \<Rightarrow> u64 \<Rightarrow> u64 \<Rightarrow> triple list option" where
  "rows_sp part ls lp = do {
     (start, stop) \<leftarrow> subject_slice part ls;
     found \<leftarrow> binary_search_range (pr_sp part) start stop lp;
     rng \<leftarrow> (case found of None \<Rightarrow> Some (0, 0) | Some i \<Rightarrow> sp_pair_slice part i);
     pair_rows part ls lp rng
   }"

definition rows_so :: "partition_ref \<Rightarrow> u64 \<Rightarrow> u64 \<Rightarrow> triple list option" where
  "rows_so part ls lo = do {
     (start, stop) \<leftarrow> subject_slice part ls;
     flat_opt (\<lambda>i. do {
       p \<leftarrow> ivr_get (pr_sp part) i;
       b \<leftarrow> holds_object part i lo;
       Some (if b then [(ls, p, lo)] else [])
     }) [start..<stop]
   }"

definition rows_s :: "partition_ref \<Rightarrow> u64 \<Rightarrow> triple list option" where
  "rows_s part ls = do {
     (start, stop) \<leftarrow> subject_slice part ls;
     flat_opt (position_rows part ls) [start..<stop]
   }"

definition rows_po :: "partition_ref \<Rightarrow> u64 \<Rightarrow> u64 \<Rightarrow> triple list option" where
  "rows_po part lp lo = do {
     p_count \<leftarrow> ivr_get (pr_pred_counts part) (unat lp);
     o_count \<leftarrow> ivr_get (pr_obj_counts part) (unat lo);
     if o_count \<le> p_count then do {
       positions \<leftarrow> foq_list (pr_obj_index_data part) (pr_obj_offsets part) (pr_obj_counts part) lo;
       flat_opt (\<lambda>pos. do {
         p \<leftarrow> ivr_get (pr_sp part) (unat pos);
         if p = lp then map_option (\<lambda>s. [(s, lp, lo)]) (subject_of part (unat pos)) else Some []
       }) positions
     } else do {
       positions \<leftarrow> foq_list (pr_pred_index_data part) (pr_pred_offsets part) (pr_pred_counts part) lp;
       flat_opt (\<lambda>pos. do {
         b \<leftarrow> holds_object part (unat pos) lo;
         if b then map_option (\<lambda>s. [(s, lp, lo)]) (subject_of part (unat pos)) else Some []
       }) positions
     }
   }"

definition rows_p :: "partition_ref \<Rightarrow> u64 \<Rightarrow> triple list option" where
  "rows_p part lp = do {
     positions \<leftarrow> foq_list (pr_pred_index_data part) (pr_pred_offsets part) (pr_pred_counts part) lp;
     flat_opt (\<lambda>pos. do {
       ls \<leftarrow> subject_of part (unat pos);
       rng \<leftarrow> sp_pair_slice part (unat pos);
       pair_rows part ls lp rng
     }) positions
   }"

definition rows_o :: "partition_ref \<Rightarrow> u64 \<Rightarrow> triple list option" where
  "rows_o part lo = do {
     positions \<leftarrow> foq_list (pr_obj_index_data part) (pr_obj_offsets part) (pr_obj_counts part) lo;
     those (map (\<lambda>pos. do {
       ls \<leftarrow> subject_of part (unat pos);
       lp \<leftarrow> ivr_get (pr_sp part) (unat pos);
       Some (ls, lp, lo)
     }) positions)
   }"

definition rows_all :: "partition_ref \<Rightarrow> triple list option" where
  "rows_all part = flat_opt (\<lambda>ls. rows_s part (of_nat ls)) [0..<ivr_len (pr_local_s part)]"

definition dispatch_rows :: "partition_ref \<Rightarrow> u64 option \<Rightarrow> u64 option \<Rightarrow> u64 option \<Rightarrow> triple list option" where
  "dispatch_rows part ls lp lo = (case (ls, lp, lo) of
     (Some ls, Some lp, Some lo) \<Rightarrow> rows_spo part ls lp lo
   | (Some ls, Some lp, None) \<Rightarrow> rows_sp part ls lp
   | (Some ls, None, Some lo) \<Rightarrow> rows_so part ls lo
   | (Some ls, None, None) \<Rightarrow> rows_s part ls
   | (None, Some lp, Some lo) \<Rightarrow> rows_po part lp lo
   | (None, Some lp, None) \<Rightarrow> rows_p part lp
   | (None, None, Some lo) \<Rightarrow> rows_o part lo
   | (None, None, None) \<Rightarrow> rows_all part)"

text \<open>A bound axis is looked up first; \<open>Some None\<close> is an axis absent from the partition.\<close>

definition axis_lookup :: "int_vector_ref \<Rightarrow> u64 option \<Rightarrow> u64 option option option" where
  "axis_lookup m axis = (case axis of None \<Rightarrow> Some (Some None)
     | Some u \<Rightarrow> map_option (map_option Some) (local_lookup m u))"

definition partition_rows ::
    "partition_ref \<Rightarrow> u64 option \<Rightarrow> u64 option \<Rightarrow> u64 option \<Rightarrow> triple list option" where
  "partition_rows part s p ob = do {
     ls \<leftarrow> axis_lookup (pr_local_s part) s;
     (case ls of None \<Rightarrow> Some [] | Some ls \<Rightarrow> do {
       lp \<leftarrow> axis_lookup (pr_local_p part) p;
       (case lp of None \<Rightarrow> Some [] | Some lp \<Rightarrow> do {
         lo \<leftarrow> axis_lookup (pr_local_o part) ob;
         (case lo of None \<Rightarrow> Some [] | Some lo \<Rightarrow> dispatch_rows part ls lp lo)
       })
     })
   }"

definition bound_dispatch :: "partition_ref \<Rightarrow> u64 option \<Rightarrow> u64 option \<Rightarrow> u64 option \<Rightarrow> nat option" where
  "bound_dispatch part ls lp lo = (case (ls, lp, lo) of
     (Some ls, Some lp, Some _) \<Rightarrow> do {
       (start, stop) \<leftarrow> subject_slice part ls;
       found \<leftarrow> binary_search_range (pr_sp part) start stop lp;
       Some (if found = None then 0 else 1)
     }
   | (Some ls, Some lp, None) \<Rightarrow> do {
       (start, stop) \<leftarrow> subject_slice part ls;
       found \<leftarrow> binary_search_range (pr_sp part) start stop lp;
       (case found of None \<Rightarrow> Some 0 | Some i \<Rightarrow> map_option (\<lambda>(os, oe). usize_wrapping_sub oe os) (sp_pair_slice part i))
     }
   | (Some ls, None, Some _) \<Rightarrow> map_option (\<lambda>(start, stop). usize_wrapping_sub stop start) (subject_slice part ls)
   | (Some ls, None, None) \<Rightarrow> subject_triple_count part ls
   | (None, Some lp, Some lo) \<Rightarrow> do {
       pred_groups \<leftarrow> ivr_get (pr_pred_counts part) (unat lp);
       obj_triples \<leftarrow> ivr_get (pr_obj_counts part) (unat lo);
       Some (min (unat pred_groups) (unat obj_triples))
     }
   | (None, Some lp, None) \<Rightarrow> map_option unat (ivr_get (pr_pred_totals part) (unat lp))
   | (None, None, Some lo) \<Rightarrow> map_option unat (ivr_get (pr_obj_counts part) (unat lo))
   | (None, None, None) \<Rightarrow> Some (unat (pr_n_triples part)))"

definition partition_upper_bound ::
    "partition_ref \<Rightarrow> u64 option \<Rightarrow> u64 option \<Rightarrow> u64 option \<Rightarrow> nat option" where
  "partition_upper_bound part s p ob = do {
     ls \<leftarrow> axis_lookup (pr_local_s part) s;
     lp \<leftarrow> axis_lookup (pr_local_p part) p;
     lo \<leftarrow> axis_lookup (pr_local_o part) ob;
     (case (ls, lp, lo) of
        (Some ls, Some lp, Some lo) \<Rightarrow> bound_dispatch part ls lp lo
      | _ \<Rightarrow> Some 0)
   }"

section \<open>Positions of a partition\<close>

lemma those_SomeI: "(\<And>x. x \<in> set xs \<Longrightarrow> f x = Some (g x)) \<Longrightarrow> those (map f xs) = Some (map g xs)"
  by (rule those_map_Some)

lemma flat_optI: "(\<And>x. x \<in> set xs \<Longrightarrow> f x = Some (g x)) \<Longrightarrow> flat_opt f xs = Some (concat (map g xs))"
  by (simp add: flat_opt_def those_SomeI)

text \<open>The rows whose pair position satisfies \<open>R\<close>, in row order.\<close>

definition rows_where :: "triple list \<Rightarrow> (nat \<Rightarrow> bool) \<Rightarrow> triple list" where
  "rows_where T R = map ((!) T) (filter (\<lambda>i. R (group_of (pairs T) i)) [0..<length T])"

abbreviation pos_of :: "triple list \<Rightarrow> nat \<Rightarrow> nat" where "pos_of T \<equiv> group_of (pairs T)"

lemma rows_where_groups:
  "concat (map (\<lambda>j. rows_where T (\<lambda>k. k = j)) (filter R [0..<length (pair_list T)])) = rows_where T R"
proof -
  have "concat (map (\<lambda>k. filter (\<lambda>i. pos_of T i = k) [0..<length T]) (filter R [0..<length (pair_list T)])) =
      filter (\<lambda>i. R (pos_of T i)) [0..<length T]"
    using group_less [of _ T] by (intro concat_groups_filter group_of_mono) simp_all
  from arg_cong [OF this, of "map ((!) T)"] show ?thesis unfolding rows_where_def by (simp add: map_concat comp_def)
qed

section \<open>What the readers of a partition answer\<close>

lemma view_numbered: "part_view part g T us up uo \<Longrightarrow> numbered T us up uo"
  by (simp add: part_view_def)

lemma view_strict: "part_view part g T us up uo \<Longrightarrow> sorted_wrt (<) T"
  by (simp add: part_view_def numbered_def)

lemma view_sp: "part_view part g T us up uo \<Longrightarrow> j < length (pair_list T) \<Longrightarrow>
    ivr_get (pr_sp part) j = Some (snd (pair_list T ! j))"
  using reads_get [of "pr_sp part" "sp_list T" j] by (simp add: part_view_def sp_list_def)

lemma view_so: "part_view part g T us up uo \<Longrightarrow> i < length T \<Longrightarrow> ivr_get (pr_so part) i = Some (obj_of (T ! i))"
  using reads_get [of "pr_so part" "map obj_of T" i] by (simp add: part_view_def)

lemma view_subject_slice:
  assumes V: "part_view part g T us up uo" and k: "unat ls < length us"
  obtains s e where "subject_slice part ls = Some (s, e)" "s < e" "e \<le> length (pair_list T)"
    "[s..<e] = filter (\<lambda>j. fst (pair_list T ! j) = ls) [0..<length (pair_list T)]"
    "\<And>j. j < length (pair_list T) \<Longrightarrow> fst (pair_list T ! j) = ls \<longleftrightarrow> s \<le> j \<and> j < e"
proof -
  have m: "marks (pr_bp part) (mark_bits (subj_list T))" using V by (simp add: part_view_def)
  note dense = subjects_dense [OF view_numbered [OF V]]
  have k': "unat ls < length (remdups_adj (subj_list T))" using k by (simp add: dense)
  obtain s e where r: "mark_last_range (pr_bp part) (unat ls) = Some (Some (s, e))" "s < e" "e \<le> length (subj_list T)"
    "[s..<e] = filter (\<lambda>j. group_of (subj_list T) j = unat ls) [0..<length (subj_list T)]"
    "\<And>j. j < length (subj_list T) \<Longrightarrow> group_of (subj_list T) j = unat ls \<longleftrightarrow> s \<le> j \<and> j < e"
    by (rule mark_range [OF m k']) blast
  have g: "group_of (subj_list T) j = unat ls \<longleftrightarrow> fst (pair_list T ! j) = ls" if "j < length (pair_list T)" for j
    using group_of_eq_iff [OF sorted_subj_list [OF view_strict [OF V]] _ k', of j] that k dense by (simp add: subj_list_def)
  have "[s..<e] = filter (\<lambda>j. fst (pair_list T ! j) = ls) [0..<length (pair_list T)]"
    unfolding r(4) using g by (auto intro: filter_cong)
  then show ?thesis using that [of s e] r g by (simp add: subject_slice_def expect_def)
qed

lemma view_pair_slice:
  assumes V: "part_view part g T us up uo" and j: "j < length (pair_list T)"
  obtains s e where "sp_pair_slice part j = Some (s, e)" "s < e" "e \<le> length T"
    "[s..<e] = filter (\<lambda>i. pos_of T i = j) [0..<length T]"
    "\<And>i. i < length T \<Longrightarrow> pos_of T i = j \<longleftrightarrow> s \<le> i \<and> i < e"
proof -
  have m: "marks (pr_bo part) (mark_bits (pairs T))" using V by (simp add: part_view_def)
  have j': "j < length (remdups_adj (pairs T))" using j by (simp add: pair_list_def)
  obtain s e where r: "mark_last_range (pr_bo part) j = Some (Some (s, e))" "s < e" "e \<le> length (pairs T)"
    "[s..<e] = filter (\<lambda>i. pos_of T i = j) [0..<length (pairs T)]"
    "\<And>i. i < length (pairs T) \<Longrightarrow> pos_of T i = j \<longleftrightarrow> s \<le> i \<and> i < e"
    by (rule mark_range [OF m j']) blast
  then show ?thesis using that [of s e] by (simp add: sp_pair_slice_def expect_def)
qed

lemma view_subject_of:
  assumes V: "part_view part g T us up uo" and j: "j < length (pair_list T)"
  shows "subject_of part j = Some (fst (pair_list T ! j))"
proof -
  have m: "marks (pr_bp part) (mark_bits (subj_list T))" using V by (simp add: part_view_def)
  have j': "j < length (subj_list T)" using j by simp
  note dense = subjects_dense [OF view_numbered [OF V]]
  have "map of_nat [0..<length us] ! group_of (subj_list T) j = subj_list T ! j"
    using remdups_adj_group [OF j'] by (simp only: dense)
  then have "of_nat (group_of (subj_list T) j) = subj_list T ! j"
    using group_of_less [OF j'] by (simp add: dense)
  then show ?thesis using rank1_marks [OF m, of j] j by (simp add: subject_of_def subj_list_def)
qed

lemma pair_strict:
  assumes V: "part_view part g T us up uo" and j: "j < length (pair_list T)" "k < length (pair_list T)"
  shows "pair_list T ! j = pair_list T ! k \<longleftrightarrow> j = k"
  by (rule strict_nth_eq [OF strict_pair_list [OF view_strict [OF V]] j])

lemma object_strict:
  assumes V: "part_view part g T us up uo" and i: "i < i'" "i' < length T" and p: "pos_of T i = pos_of T i'"
  shows "obj_of (T ! i) < obj_of (T ! i')"
proof -
  have "T ! i < T ! i'" using sorted_wrt_nth_less [OF view_strict [OF V]] i by simp
  moreover have "pair_of (T ! i) = pair_of (T ! i')"
    using pair_list_nth [of i T] pair_list_nth [of i' T] i p by simp
  ultimately show ?thesis by (auto simp: less_prod_def')
qed

lemma view_holds_object:
  assumes V: "part_view part g T us up uo" and j: "j < length (pair_list T)"
  shows "holds_object part j lo = Some (\<exists>i<length T. pos_of T i = j \<and> obj_of (T ! i) = lo)"
proof -
  have so: "reads (pr_so part) (map obj_of T)" using V by (simp add: part_view_def)
  obtain s e where r: "sp_pair_slice part j = Some (s, e)" "s < e" "e \<le> length T"
    "\<And>i. i < length T \<Longrightarrow> pos_of T i = j \<longleftrightarrow> s \<le> i \<and> i < e"
    by (rule view_pair_slice [OF V j]) blast
  have asc: "\<forall>i i'. s \<le> i \<and> i < i' \<and> i' < e \<longrightarrow> map obj_of T ! i < map obj_of T ! i'"
  proof (intro allI impI)
    fix i i' assume a: "s \<le> i \<and> i < i' \<and> i' < e"
    then have l: "i < length T" "i' < length T" using r(3) by auto
    then have "pos_of T i = pos_of T i'" using r(4) [of i] r(4) [of i'] a by simp
    then show "map obj_of T ! i < map obj_of T ! i'" using object_strict [OF V, of i i'] a l by simp
  qed
  show ?thesis
  proof (cases "\<exists>i<length T. pos_of T i = j \<and> obj_of (T ! i) = lo")
    case True
    then obtain i where i: "i < length T" "pos_of T i = j" "obj_of (T ! i) = lo" by blast
    then have "binary_search_range (pr_so part) s e lo = Some (Some i)"
      using r(3) r(4) [OF i(1)] by (intro binary_search_range_found [OF so _ asc]) simp_all
    then show ?thesis using r(1) True by (simp add: holds_object_def)
  next
    case False
    then have "\<forall>i. s \<le> i \<and> i < e \<longrightarrow> map obj_of T ! i \<noteq> lo" using r(3,4) by auto
    then have "binary_search_range (pr_so part) s e lo = Some None"
      using r(3) by (intro binary_search_range_absent [OF so]) simp_all
    then show ?thesis using r(1) False by (simp add: holds_object_def)
  qed
qed

lemma view_pair_rows:
  assumes V: "part_view part g T us up uo" and j: "j < length (pair_list T)"
  shows "\<exists>rng. sp_pair_slice part j = Some rng \<and>
    pair_rows part (fst (pair_list T ! j)) (snd (pair_list T ! j)) rng = Some (rows_where T (\<lambda>k. k = j))"
proof -
  obtain s e where r: "sp_pair_slice part j = Some (s, e)" "e \<le> length T"
    "[s..<e] = filter (\<lambda>i. pos_of T i = j) [0..<length T]"
    "\<And>i. i < length T \<Longrightarrow> pos_of T i = j \<longleftrightarrow> s \<le> i \<and> i < e"
    by (rule view_pair_slice [OF V j]) blast
  have "map_option (\<lambda>ob. (fst (pair_list T ! j), snd (pair_list T ! j), ob)) (ivr_get (pr_so part) i) = Some (T ! i)"
    if "i \<in> set [s..<e]" for i
  proof -
    have i: "i < length T" "pos_of T i = j" using that r(2) r(4) [of i] by auto
    then have "pair_list T ! j = pair_of (T ! i)" using pair_list_nth [OF i(1)] by simp
    then show ?thesis using view_so [OF V i(1)] by (simp add: prod_eq_iff)
  qed
  then have "pair_rows part (fst (pair_list T ! j)) (snd (pair_list T ! j)) (s, e) = Some (map ((!) T) [s..<e])"
    unfolding pair_rows_def fst_conv snd_conv by (rule those_SomeI)
  then show ?thesis using r(1,3) by (simp add: rows_where_def)
qed

lemma view_position_rows:
  assumes V: "part_view part g T us up uo" and j: "j < length (pair_list T)" "fst (pair_list T ! j) = ls"
  shows "position_rows part ls j = Some (rows_where T (\<lambda>k. k = j))"
  using view_pair_rows [OF V j(1)] view_sp [OF V j(1)] j(2) by (auto simp: position_rows_def)

text \<open>A stored position list decodes to itself.\<close>

lemma foq_list_eq:
  assumes offs: "reads offsets (index_offsets ls)" and cnts: "reads counts (map (of_nat \<circ> length) ls)"
    and small: "length (concat (map delta_bytes ls)) < 2 ^ 64"
    and k: "unat x < length ls" and ok: "sorted (ls ! unat x)" "length (ls ! unat x) < 2 ^ 64"
  shows "foq_list (concat (map delta_bytes ls)) offsets counts x = Some (ls ! unat x)"
proof -
  let ?i = "unat x"
  have o: "ivr_get offsets ?i = Some (index_offsets ls ! ?i)" "ivr_get counts ?i = Some (of_nat (length (ls ! ?i)))"
    using reads_get [OF offs, of ?i] reads_get [OF cnts, of ?i] k by simp_all
  have "drop_opt (unat (index_offsets ls ! ?i)) (concat (map delta_bytes ls)) =
      Some (delta_bytes (ls ! ?i) @ concat (map delta_bytes (drop (Suc ?i) ls)))"
    unfolding offset_nat [OF small k] drop_opt_def drop_concat_take Cons_nth_drop_Suc [OF k, symmetric]
    using length_concat_take_le [of delta_bytes ?i ls] by (simp only: if_True list.map concat.simps)
  moreover obtain d where "dl_drain (dl_new (delta_bytes (ls ! ?i) @ concat (map delta_bytes (drop (Suc ?i) ls)))
      (length (ls ! ?i))) = (map Inr (ls ! ?i), d)"
    using delta_list_round_trip [OF ok(1)] unfolding delta_bytes_def by blast
  moreover have "those (map (\<lambda>r. case r of Inr v \<Rightarrow> Some v | Inl _ \<Rightarrow> None) (map Inr (ls ! ?i))) = Some (ls ! ?i)"
    using those_SomeI [of "ls ! ?i" Some id] by (simp add: comp_def)
  ultimately show ?thesis using o ok(2) by (simp add: foq_list_def unat_of_nat_64)
qed

lemma index_bytes_small:
  assumes n: "numbered T us up uo"
  shows "length (concat (map delta_bytes (pred_lists T up))) < 2 ^ 64"
    "length (concat (map delta_bytes (obj_lists T uo))) < 2 ^ 64"
  by (rule le_less_trans [OF length_concat_delta], use index_sizes(1) [OF n] in simp)
    (rule le_less_trans [OF length_concat_delta], use index_sizes(2) [OF n] in simp)

lemma view_pred_list:
  assumes V: "part_view part g T us up uo" and k: "unat lp < length up"
  shows "foq_list (pr_pred_index_data part) (pr_pred_offsets part) (pr_pred_counts part) lp =
    Some (map of_nat (filter (\<lambda>j. snd (pair_list T ! j) = lp) [0..<length (pair_list T)]))"
proof -
  note n = view_numbered [OF V]
  have r: "pr_pred_index_data part = concat (map delta_bytes (pred_lists T up))"
    "reads (pr_pred_offsets part) (index_offsets (pred_lists T up))"
    "reads (pr_pred_counts part) (map (of_nat \<circ> length) (pred_lists T up))" using V by (simp_all add: part_view_def)
  have "foq_list (pr_pred_index_data part) (pr_pred_offsets part) (pr_pred_counts part) lp = Some (pred_lists T up ! unat lp)"
    unfolding r(1) by (rule foq_list_eq [OF r(2,3) index_bytes_small(1) [OF n]])
      (use k index_lists_ok(1) [OF n k] in simp_all)
  also have "filter (\<lambda>j. sp_list T ! j = lp) [0..<length (pair_list T)] =
      filter (\<lambda>j. snd (pair_list T ! j) = lp) [0..<length (pair_list T)]"
    by (intro filter_cong) (auto simp: sp_list_def)
  then have "pred_lists T up ! unat lp = map of_nat (filter (\<lambda>j. snd (pair_list T ! j) = lp) [0..<length (pair_list T)])"
    using k by (simp add: pred_lists_def pred_positions_def)
  finally show ?thesis .
qed

lemma view_obj_list:
  assumes V: "part_view part g T us up uo" and k: "unat lo < length uo"
  shows "foq_list (pr_obj_index_data part) (pr_obj_offsets part) (pr_obj_counts part) lo =
    Some (map (\<lambda>i. of_nat (pos_of T i)) (filter (\<lambda>i. obj_of (T ! i) = lo) [0..<length T]))"
proof -
  note n = view_numbered [OF V]
  have r: "pr_obj_index_data part = concat (map delta_bytes (obj_lists T uo))"
    "reads (pr_obj_offsets part) (index_offsets (obj_lists T uo))"
    "reads (pr_obj_counts part) (map (of_nat \<circ> length) (obj_lists T uo))" using V by (simp_all add: part_view_def)
  have "foq_list (pr_obj_index_data part) (pr_obj_offsets part) (pr_obj_counts part) lo = Some (obj_lists T uo ! unat lo)"
    unfolding r(1) by (rule foq_list_eq [OF r(2,3) index_bytes_small(2) [OF n]])
      (use k index_lists_ok(2) [OF n k] in simp_all)
  then show ?thesis using k by (simp add: obj_lists_def obj_positions_def comp_def)
qed

lemma position_word: "part_view part g T us up uo \<Longrightarrow> j < length (pair_list T) \<Longrightarrow> unat (of_nat j :: u64) = j"
  using numbered_bounds(5) [OF view_numbered] by (intro unat_of_nat_64) fastforce

end
