(* ===== verification/TriplesRows.thy ===== *)
theory TriplesRows
  imports TriplesQuery
begin

text \<open>
  The eight access paths of \<open>partition_rows\<close> (\<open>crates/rdf-core/src/ir/pack/triples.rs\<close>) on a
  partition that views a row list: each shape yields exactly the matching rows, in row order.
\<close>

section \<open>The rows of each shape\<close>

text \<open>The positions at which some row of the pair has object \<open>lo\<close>.\<close>

definition has_object :: "triple list \<Rightarrow> u64 \<Rightarrow> nat \<Rightarrow> bool" where
  "has_object T lo j \<longleftrightarrow> (\<exists>i<length T. pos_of T i = j \<and> obj_of (T ! i) = lo)"

definition pair_row :: "triple list \<Rightarrow> u64 \<Rightarrow> nat \<Rightarrow> triple" where
  "pair_row T lo j = (fst (pair_list T ! j), snd (pair_list T ! j), lo)"

lemma filter_pairs: "filter (\<lambda>t. S (pair_of t)) T = rows_where T (\<lambda>j. S (pair_list T ! j))"
  unfolding rows_where_def filter_positions [of _ T]
  by (intro arg_cong [of _ _ "map ((!) T)"] filter_cong) (simp_all add: pair_list_nth)

lemma filter_object_positions:
  "filter (\<lambda>t. S (pair_of t) \<and> obj_of t = lo) T =
    map (pair_row T lo) (map (pos_of T) (filter (\<lambda>i. S (pair_list T ! pos_of T i) \<and> obj_of (T ! i) = lo) [0..<length T]))"
proof -
  have "filter (\<lambda>t. S (pair_of t) \<and> obj_of t = lo) T =
      map ((!) T) (filter (\<lambda>i. S (pair_list T ! pos_of T i) \<and> obj_of (T ! i) = lo) [0..<length T])"
    unfolding filter_positions [of _ T]
    by (intro arg_cong [of _ _ "map ((!) T)"] filter_cong) (simp_all add: pair_list_nth)
  also have "\<dots> = map (pair_row T lo \<circ> pos_of T) (filter (\<lambda>i. S (pair_list T ! pos_of T i) \<and> obj_of (T ! i) = lo) [0..<length T])"
    by (intro map_cong refl) (auto simp: pair_row_def pair_list_nth prod_eq_iff)
  finally show ?thesis by simp
qed

lemma object_positions:
  assumes V: "part_view part g T us up uo"
  shows "map (pos_of T) (filter (\<lambda>i. R (pos_of T i) \<and> obj_of (T ! i) = lo) [0..<length T]) =
    filter (\<lambda>j. R j \<and> has_object T lo j) [0..<length (pair_list T)]"
proof (rule positions_eqI)
  show "sorted_wrt (<) (map (pos_of T) (filter (\<lambda>i. R (pos_of T i) \<and> obj_of (T ! i) = lo) [0..<length T]))"
  proof (rule strict_map_positions)
    fix i i' assume a: "i < i'" "i' < length T" "R (pos_of T i) \<and> obj_of (T ! i) = lo" "R (pos_of T i') \<and> obj_of (T ! i') = lo"
    then have "pos_of T i \<noteq> pos_of T i'" using object_strict [OF V, of i i'] by auto
    then show "pos_of T i < pos_of T i'" using group_of_mono [of i i' "pairs T"] a(1) by simp
  qed
  show "set (map (pos_of T) (filter (\<lambda>i. R (pos_of T i) \<and> obj_of (T ! i) = lo) [0..<length T])) =
    set (filter (\<lambda>j. R j \<and> has_object T lo j) [0..<length (pair_list T)])"
    using group_less [of _ T] by (auto simp: has_object_def)
qed (rule strict_filter_upt)

lemma filter_object:
  assumes V: "part_view part g T us up uo"
  shows "filter (\<lambda>t. S (pair_of t) \<and> obj_of t = lo) T =
    map (pair_row T lo) (filter (\<lambda>j. S (pair_list T ! j) \<and> has_object T lo j) [0..<length (pair_list T)])"
  unfolding filter_object_positions object_positions [OF V, of "\<lambda>j. S (pair_list T ! j)"] ..

lemma concat_singletons: "concat (map (\<lambda>x. if B x then [h x] else []) xs) = map h (filter B xs)"
  by (induction xs) auto

lemma filter_one: "j < m \<Longrightarrow> filter (\<lambda>k. k = j \<and> B k) [0..<m] = (if B j then [j] else [])"
  by (induction m) (auto simp: less_Suc_eq filter_empty_conv)

text \<open>The pair \<open>(ls, lp)\<close> in the slice of \<open>ls\<close>.\<close>

lemma find_pair:
  assumes V: "part_view part g T us up uo" and ls: "unat ls < length us"
  obtains start stop found where "subject_slice part ls = Some (start, stop)"
    "binary_search_range (pr_sp part) start stop lp = Some found"
    "case found of None \<Rightarrow> \<forall>j<length (pair_list T). pair_list T ! j \<noteq> (ls, lp)
     | Some j \<Rightarrow> j < length (pair_list T) \<and> pair_list T ! j = (ls, lp)"
proof -
  have sp: "reads (pr_sp part) (sp_list T)" using V by (simp add: part_view_def)
  obtain s e where r: "subject_slice part ls = Some (s, e)" "e \<le> length (pair_list T)"
    "\<And>j. j < length (pair_list T) \<Longrightarrow> fst (pair_list T ! j) = ls \<longleftrightarrow> s \<le> j \<and> j < e"
    by (rule view_subject_slice [OF V ls]) blast
  have asc: "\<forall>i j. s \<le> i \<and> i < j \<and> j < e \<longrightarrow> sp_list T ! i < sp_list T ! j"
  proof (intro allI impI)
    fix i j assume a: "s \<le> i \<and> i < j \<and> j < e"
    then have l: "i < length (pair_list T)" "j < length (pair_list T)" using r(2) by auto
    then have "fst (pair_list T ! i) = fst (pair_list T ! j)" using r(3) [of i] r(3) [of j] a by simp
    moreover have "pair_list T ! i < pair_list T ! j"
      using sorted_wrt_nth_less [OF strict_pair_list [OF view_strict [OF V]]] a l by simp
    ultimately show "sp_list T ! i < sp_list T ! j" using l by (auto simp: sp_list_def less_prod_def')
  qed
  show ?thesis
  proof (cases "\<exists>j<length (pair_list T). pair_list T ! j = (ls, lp)")
    case True
    then obtain j where j: "j < length (pair_list T)" "pair_list T ! j = (ls, lp)" by blast
    then have "binary_search_range (pr_sp part) s e lp = Some (Some j)"
      using r(2) r(3) [OF j(1)] by (intro binary_search_range_found [OF sp _ asc]) (simp_all add: sp_list_def)
    then show ?thesis using that [OF r(1)] j by simp
  next
    case False
    have "sp_list T ! i \<noteq> lp" if "s \<le> i" "i < e" for i
      using False r(2) r(3) [of i] that by (force simp: sp_list_def prod_eq_iff)
    then have "binary_search_range (pr_sp part) s e lp = Some None"
      using r(2) by (intro binary_search_range_absent [OF sp]) simp_all
    then show ?thesis using that [OF r(1)] False by simp
  qed
qed

lemma rows_s_eq:
  assumes V: "part_view part g T us up uo" and ls: "unat ls < length us"
  shows "rows_s part ls = Some (filter (\<lambda>t. fst t = ls) T)"
proof -
  obtain s e where r: "subject_slice part ls = Some (s, e)" "e \<le> length (pair_list T)"
    "[s..<e] = filter (\<lambda>j. fst (pair_list T ! j) = ls) [0..<length (pair_list T)]"
    "\<And>j. j < length (pair_list T) \<Longrightarrow> fst (pair_list T ! j) = ls \<longleftrightarrow> s \<le> j \<and> j < e"
    by (rule view_subject_slice [OF V ls]) blast
  have "flat_opt (position_rows part ls) [s..<e] = Some (concat (map (\<lambda>j. rows_where T (\<lambda>k. k = j)) [s..<e]))"
    by (rule flat_optI, rule view_position_rows [OF V]) (use r(2,4) in auto)
  also have "concat (map (\<lambda>j. rows_where T (\<lambda>k. k = j)) [s..<e]) = filter (\<lambda>t. fst t = ls) T"
    unfolding r(3) rows_where_groups using filter_pairs [of "\<lambda>q. fst q = ls" T] by simp
  finally show ?thesis using r(1) by (simp add: rows_s_def)
qed

lemma rows_sp_eq:
  assumes V: "part_view part g T us up uo" and ls: "unat ls < length us"
  shows "rows_sp part ls lp = Some (filter (\<lambda>t. pair_of t = (ls, lp)) T)"
proof -
  obtain start stop found where f: "subject_slice part ls = Some (start, stop)"
    "binary_search_range (pr_sp part) start stop lp = Some found"
    "case found of None \<Rightarrow> \<forall>j<length (pair_list T). pair_list T ! j \<noteq> (ls, lp)
     | Some j \<Rightarrow> j < length (pair_list T) \<and> pair_list T ! j = (ls, lp)" by (rule find_pair [OF V ls])
  have eq: "filter (\<lambda>t. pair_of t = (ls, lp)) T = rows_where T (\<lambda>j. pair_list T ! j = (ls, lp))"
    by (rule filter_pairs)
  show ?thesis
  proof (cases found)
    case None
    then have "rows_where T (\<lambda>j. pair_list T ! j = (ls, lp)) = []"
      using f(3) group_less [of _ T] by (auto simp: rows_where_def filter_empty_conv)
    then show ?thesis unfolding eq using f None by (simp add: rows_sp_def pair_rows_def)
  next
    case (Some j)
    then have j: "j < length (pair_list T)" "pair_list T ! j = (ls, lp)" using f(3) by simp_all
    have "rows_where T (\<lambda>k. pair_list T ! k = (ls, lp)) = rows_where T (\<lambda>k. k = j)"
      unfolding rows_where_def using pair_strict [OF V _ j(1)] group_less [of _ T] j(2)
      by (intro arg_cong [of _ _ "map ((!) T)"] filter_cong) auto
    then show ?thesis unfolding eq using view_pair_rows [OF V j(1)] f Some j(2) by (auto simp: rows_sp_def)
  qed
qed

lemma rows_spo_eq:
  assumes V: "part_view part g T us up uo" and ls: "unat ls < length us"
  shows "rows_spo part ls lp lo = Some (filter (\<lambda>t. pair_of t = (ls, lp) \<and> obj_of t = lo) T)"
proof -
  obtain start stop found where f: "subject_slice part ls = Some (start, stop)"
    "binary_search_range (pr_sp part) start stop lp = Some found"
    "case found of None \<Rightarrow> \<forall>j<length (pair_list T). pair_list T ! j \<noteq> (ls, lp)
     | Some j \<Rightarrow> j < length (pair_list T) \<and> pair_list T ! j = (ls, lp)" by (rule find_pair [OF V ls])
  note eq = filter_object [OF V, of "\<lambda>q. q = (ls, lp)" lo]
  show ?thesis
  proof (cases found)
    case None
    then have "filter (\<lambda>j. pair_list T ! j = (ls, lp) \<and> has_object T lo j) [0..<length (pair_list T)] = []"
      using f(3) by (auto simp: filter_empty_conv)
    then show ?thesis unfolding eq using f None by (simp add: rows_spo_def)
  next
    case (Some j)
    then have j: "j < length (pair_list T)" "pair_list T ! j = (ls, lp)" using f(3) by simp_all
    have "filter (\<lambda>k. pair_list T ! k = (ls, lp) \<and> has_object T lo k) [0..<length (pair_list T)] =
        filter (\<lambda>k. k = j \<and> has_object T lo k) [0..<length (pair_list T)]"
      using pair_strict [OF V _ j(1)] j(2) by (intro filter_cong) auto
    then show ?thesis unfolding eq using f Some view_holds_object [OF V j(1), of lo, folded has_object_def] j
      by (simp add: rows_spo_def filter_one pair_row_def)
  qed
qed

lemma rows_so_eq:
  assumes V: "part_view part g T us up uo" and ls: "unat ls < length us"
  shows "rows_so part ls lo = Some (filter (\<lambda>t. fst t = ls \<and> obj_of t = lo) T)"
proof -
  obtain s e where r: "subject_slice part ls = Some (s, e)" "e \<le> length (pair_list T)"
    "[s..<e] = filter (\<lambda>j. fst (pair_list T ! j) = ls) [0..<length (pair_list T)]"
    "\<And>j. j < length (pair_list T) \<Longrightarrow> fst (pair_list T ! j) = ls \<longleftrightarrow> s \<le> j \<and> j < e"
    by (rule view_subject_slice [OF V ls]) blast
  have step: "(do { p \<leftarrow> ivr_get (pr_sp part) j; b \<leftarrow> holds_object part j lo; Some (if b then [(ls, p, lo)] else []) })
      = Some (if has_object T lo j then [pair_row T lo j] else [])" if "j \<in> set [s..<e]" for j
  proof -
    have j: "j < length (pair_list T)" "fst (pair_list T ! j) = ls" using that r(2) r(4) [of j] by auto
    show ?thesis using view_sp [OF V j(1)] view_holds_object [OF V j(1), of lo, folded has_object_def] j(2)
      by (simp add: pair_row_def)
  qed
  have "rows_so part ls lo = Some (concat (map (\<lambda>j. if has_object T lo j then [pair_row T lo j] else []) [s..<e]))"
    unfolding rows_so_def r(1) bind.bind_lunit prod.case by (rule flat_optI) (rule step)
  also have "\<dots> = Some (filter (\<lambda>t. fst t = ls \<and> obj_of t = lo) T)"
    unfolding concat_singletons r(3) using filter_object [OF V, of "\<lambda>q. fst q = ls" lo] by (simp add: conj_commute)
  finally show ?thesis .
qed

lemma rows_p_eq:
  assumes V: "part_view part g T us up uo" and lp: "unat lp < length up"
  shows "rows_p part lp = Some (filter (\<lambda>t. fst (snd t) = lp) T)"
proof -
  let ?J = "filter (\<lambda>j. snd (pair_list T ! j) = lp) [0..<length (pair_list T)]"
  let ?f = "\<lambda>pos. do { ls \<leftarrow> subject_of part (unat pos); rng \<leftarrow> sp_pair_slice part (unat pos); pair_rows part ls lp rng }"
  have step: "?f (of_nat j :: u64) = Some (rows_where T (\<lambda>k. k = j))" if "j \<in> set ?J" for j
  proof -
    have j: "j < length (pair_list T)" "snd (pair_list T ! j) = lp" using that by auto
    show ?thesis using view_subject_of [OF V j(1)] view_pair_rows [OF V j(1)] j(2) position_word [OF V j(1)] by auto
  qed
  have "flat_opt ?f (map of_nat ?J :: u64 list) = flat_opt (\<lambda>j. ?f (of_nat j :: u64)) ?J" by (simp add: flat_opt_def comp_def)
  also have "\<dots> = Some (concat (map (\<lambda>j. rows_where T (\<lambda>k. k = j)) ?J))" by (rule flat_optI) (rule step)
  also have "\<dots> = Some (filter (\<lambda>t. fst (snd t) = lp) T)"
    unfolding rows_where_groups using filter_pairs [of "\<lambda>q. snd q = lp" T] by simp
  finally show ?thesis unfolding rows_p_def view_pred_list [OF V lp] by simp
qed

lemma rows_o_eq:
  assumes V: "part_view part g T us up uo" and lo: "unat lo < length uo"
  shows "rows_o part lo = Some (filter (\<lambda>t. obj_of t = lo) T)"
proof -
  let ?I = "filter (\<lambda>i. obj_of (T ! i) = lo) [0..<length T]"
  let ?f = "\<lambda>pos. do { ls \<leftarrow> subject_of part (unat pos); lp \<leftarrow> ivr_get (pr_sp part) (unat pos); Some (ls, lp, lo) }"
  have step: "?f (of_nat (pos_of T i) :: u64) = Some (T ! i)" if "i \<in> set ?I" for i
  proof -
    have i: "i < length T" "obj_of (T ! i) = lo" using that by auto
    note j = group_less [OF i(1)]
    show ?thesis using view_subject_of [OF V j] view_sp [OF V j] position_word [OF V j] pair_list_nth [OF i(1)] i(2)
      by (simp add: prod_eq_iff)
  qed
  have "those (map ?f (map (\<lambda>i. of_nat (pos_of T i) :: u64) ?I)) = those (map (\<lambda>i. ?f (of_nat (pos_of T i) :: u64)) ?I)"
    by (simp add: comp_def)
  also have "\<dots> = Some (map ((!) T) ?I)" by (rule those_SomeI) (rule step)
  also have "\<dots> = Some (filter (\<lambda>t. obj_of t = lo) T)" by (simp add: filter_positions [of _ T])
  finally show ?thesis unfolding rows_o_def view_obj_list [OF V lo] by simp
qed

lemma rows_po_eq:
  assumes V: "part_view part g T us up uo" and lp: "unat lp < length up" and lo: "unat lo < length uo"
  shows "rows_po part lp lo = Some (filter (\<lambda>t. fst (snd t) = lp \<and> obj_of t = lo) T)"
proof -
  have counts: "\<exists>x. ivr_get (pr_pred_counts part) (unat lp) = Some x" "\<exists>x. ivr_get (pr_obj_counts part) (unat lo) = Some x"
    using V lp lo by (auto simp: part_view_def intro!: exI reads_get)
  let ?I = "filter (\<lambda>i. obj_of (T ! i) = lo) [0..<length T]"
  let ?J = "filter (\<lambda>j. snd (pair_list T ! j) = lp) [0..<length (pair_list T)]"
  let ?f = "\<lambda>pos. do { p \<leftarrow> ivr_get (pr_sp part) (unat pos);
         if p = lp then map_option (\<lambda>s. [(s, lp, lo)]) (subject_of part (unat pos)) else Some [] }"
  let ?g = "\<lambda>pos. do { b \<leftarrow> holds_object part (unat pos) lo;
         if b then map_option (\<lambda>s. [(s, lp, lo)]) (subject_of part (unat pos)) else Some [] }"
  have f: "?f (of_nat (pos_of T i) :: u64) =
      Some (if snd (pair_list T ! pos_of T i) = lp then [(pair_row T lo \<circ> pos_of T) i] else [])" if "i \<in> set ?I" for i
  proof -
    have j: "pos_of T i < length (pair_list T)" using that by (auto intro: group_less)
    show ?thesis using view_subject_of [OF V j] view_sp [OF V j] position_word [OF V j] by (simp add: pair_row_def)
  qed
  have g: "?g (of_nat j :: u64) = Some (if has_object T lo j then [pair_row T lo j] else [])" if "j \<in> set ?J" for j
  proof -
    have j: "j < length (pair_list T)" "snd (pair_list T ! j) = lp" using that by auto
    show ?thesis using view_subject_of [OF V j(1)] view_holds_object [OF V j(1), of lo, folded has_object_def]
        position_word [OF V j(1)] j(2) by (simp add: pair_row_def)
  qed
  have "flat_opt ?f (map (\<lambda>i. of_nat (pos_of T i) :: u64) ?I) = flat_opt (\<lambda>i. ?f (of_nat (pos_of T i) :: u64)) ?I"
    by (simp add: flat_opt_def comp_def)
  also have "\<dots> = Some (map (pair_row T lo \<circ> pos_of T) (filter (\<lambda>i. snd (pair_list T ! pos_of T i) = lp) ?I))"
    by (rule flat_optI [THEN trans], rule f, assumption) (simp only: concat_singletons)
  also have "\<dots> = Some (filter (\<lambda>t. fst (snd t) = lp \<and> obj_of t = lo) T)"
    using filter_object_positions [of "\<lambda>q. snd q = lp" lo T] by (simp add: conj_commute)
  finally have obj: "flat_opt ?f (map (\<lambda>i. of_nat (pos_of T i) :: u64) ?I) = Some (filter (\<lambda>t. fst (snd t) = lp \<and> obj_of t = lo) T)" .
  have "flat_opt ?g (map of_nat ?J :: u64 list) = flat_opt (\<lambda>j. ?g (of_nat j :: u64)) ?J" by (simp add: flat_opt_def comp_def)
  also have "\<dots> = Some (map (pair_row T lo) (filter (has_object T lo) ?J))"
    by (rule flat_optI [THEN trans], rule g, assumption) (simp only: concat_singletons)
  also have "\<dots> = Some (filter (\<lambda>t. fst (snd t) = lp \<and> obj_of t = lo) T)"
    using filter_object [OF V, of "\<lambda>q. snd q = lp" lo] by (simp add: conj_commute)
  finally have pred: "flat_opt ?g (map of_nat ?J :: u64 list) = Some (filter (\<lambda>t. fst (snd t) = lp \<and> obj_of t = lo) T)" .
  show ?thesis using counts unfolding rows_po_def view_obj_list [OF V lo] view_pred_list [OF V lp] by (auto simp: obj pred)
qed

lemma rows_all_eq:
  assumes V: "part_view part g T us up uo"
  shows "rows_all part = Some T"
proof -
  note n = view_numbered [OF V] and b = numbered_bounds [OF view_numbered [OF V]]
  have "reads (pr_local_s part) us" using V by (simp add: part_view_def)
  then have l: "ivr_len (pr_local_s part) = length us" by (rule reads_len)
  have k: "unat (of_nat k :: u64) = k" if "k < length us" for k
    using that b(2) by (intro unat_of_nat_64) simp
  have row: "filter (\<lambda>t. fst t = of_nat k) T = map ((!) T) (filter (\<lambda>i. unat (fst (T ! i)) = k) [0..<length T])"
    if "k < length us" for k
    unfolding filter_positions [of _ T]
    using k [OF that] by (intro arg_cong [of _ _ "map ((!) T)"] filter_cong) auto
  have mono: "unat (fst (T ! i)) \<le> unat (fst (T ! j))" if "i \<le> j" "j < length T" for i j
  proof (cases "i = j")
    case False
    then have "T ! i < T ! j" using sorted_wrt_nth_less [OF view_strict [OF V]] that by simp
    then show ?thesis by (auto simp: less_prod_def' word_less_nat_alt)
  qed simp
  have "rows_all part = Some (concat (map (\<lambda>k. filter (\<lambda>t. fst t = of_nat k) T) [0..<length us]))"
    unfolding rows_all_def l by (rule flat_optI) (use rows_s_eq [OF V] k in simp)
  also have "concat (map (\<lambda>k. filter (\<lambda>t. fst t = of_nat k) T) [0..<length us]) =
      map ((!) T) (concat (map (\<lambda>k. filter (\<lambda>i. unat (fst (T ! i)) = k) [0..<length T]) [0..<length us]))"
  proof -
    have "map (\<lambda>k. filter (\<lambda>t. fst t = of_nat k) T) [0..<length us] =
        map (map ((!) T)) (map (\<lambda>k. filter (\<lambda>i. unat (fst (T ! i)) = k) [0..<length T]) [0..<length us])"
      using row by simp
    then show ?thesis by (simp only: map_concat)
  qed
  also have "\<dots> = map ((!) T) (filter (\<lambda>i. unat (fst (T ! i)) < length us) [0..<length T])"
    by (subst concat_groups) (use mono in simp_all)
  also have "filter (\<lambda>i. unat (fst (T ! i)) < length us) [0..<length T] = [0..<length T]"
    using b(6) by (auto simp: filter_id_conv)
  finally show ?thesis by (simp add: map_nth)
qed

end
