(* ===== verification/TriplesMatch.thy ===== *)
theory TriplesMatch
  imports TriplesRows
begin

text \<open>
  The specification of a pattern query on one partition: the rows whose components agree with
  every bound axis. \<open>partition_rows\<close> of an encoded partition is proved to return them, and
  \<open>partition_upper_bound\<close> never to undershoot their number.
\<close>

definition axis_ok :: "u64 option \<Rightarrow> u64 \<Rightarrow> bool" where
  "axis_ok a v = (case a of None \<Rightarrow> True | Some u \<Rightarrow> v = u)"

definition row_matches :: "u64 option \<Rightarrow> u64 option \<Rightarrow> u64 option \<Rightarrow> triple \<Rightarrow> bool" where
  "row_matches s p ob t = (axis_ok s (fst t) \<and> axis_ok p (fst (snd t)) \<and> axis_ok ob (snd (snd t)))"

lemma axis_ok_simps [simp]: "axis_ok None v" "axis_ok (Some u) v \<longleftrightarrow> v = u"
  by (simp_all add: axis_ok_def)

text \<open>A local axis names an entry of its table.\<close>

definition in_table :: "u64 option \<Rightarrow> u64 list \<Rightarrow> bool" where
  "in_table a xs = (case a of None \<Rightarrow> True | Some x \<Rightarrow> unat x < length xs)"

lemma in_table_simps [simp]: "in_table None xs" "in_table (Some x) xs \<longleftrightarrow> unat x < length xs"
  by (simp_all add: in_table_def)

section \<open>Local dispatch\<close>

lemma dispatch_rows_eq:
  assumes V: "part_view part g T us up uo" and "in_table ls us" "in_table lp up" "in_table lo uo"
  shows "dispatch_rows part ls lp lo = Some (filter (row_matches ls lp lo) T)"
proof -
  have ids: "ls = Some x \<Longrightarrow> unat x < length us" "lp = Some y \<Longrightarrow> unat y < length up"
    "lo = Some z \<Longrightarrow> unat z < length uo" for x y z using assms by simp_all
  note shapes = rows_spo_eq [OF V ids(1)] rows_sp_eq [OF V ids(1)] rows_so_eq [OF V ids(1)] rows_s_eq [OF V ids(1)]
    rows_po_eq [OF V ids(2,3)] rows_p_eq [OF V ids(2)] rows_o_eq [OF V ids(3)] rows_all_eq [OF V]
  have f: "filter (row_matches ls lp lo) T =
      filter (\<lambda>t. axis_ok ls (fst t) \<and> axis_ok lp (fst (snd t)) \<and> axis_ok lo (snd (snd t))) T"
    by (simp add: row_matches_def [abs_def])
  show ?thesis unfolding f
    by (cases ls; cases lp; cases lo) (simp_all add: dispatch_rows_def shapes conj_assoc)
qed

section \<open>Unified axes\<close>

lemma axis_lookup_eq:
  assumes r: "reads m xs" and s: "sorted_wrt (<) xs" and n: "length xs \<le> 2 ^ 57"
  shows "axis_lookup m a = Some (case a of None \<Rightarrow> Some None
    | Some u \<Rightarrow> if u \<in> set xs then Some (Some (local_id xs u)) else None)"
proof (cases a)
  case (Some u)
  show ?thesis
  proof (cases "u \<in> set xs")
    case True
    note f = std_binary_search_mem [OF s True n]
    show ?thesis using local_lookup_found [OF r s f(2)] Some True f(3) by (simp add: axis_lookup_def)
  next
    case False
    then show ?thesis using local_lookup_absent [OF r False] Some by (simp add: axis_lookup_def)
  qed
qed (simp add: axis_lookup_def)

lemma axis_local:
  assumes s: "sorted_wrt (<) xs" and n: "length xs \<le> 2 ^ 57" and x: "unat x < length xs"
  shows "axis_ok (Some u) (xs ! unat x) \<longleftrightarrow> u \<in> set xs \<and> axis_ok (Some (local_id xs u)) x"
proof (cases "u \<in> set xs")
  case True
  note f = std_binary_search_mem [OF s True n]
  show ?thesis using strict_nth_eq [OF s x f(2)] True by (simp add: f(3) word_unat_eq_iff)
next
  case False
  then show ?thesis using x by auto
qed

text \<open>The local axes of a unified pattern, \<open>None\<close> when one of them is absent.\<close>

definition local_axis :: "u64 list \<Rightarrow> u64 option \<Rightarrow> u64 option option" where
  "local_axis xs a = (case a of None \<Rightarrow> Some None
    | Some u \<Rightarrow> if u \<in> set xs then Some (Some (local_id xs u)) else None)"

lemma local_axis_cases:
  assumes s: "sorted_wrt (<) xs" and n: "length xs \<le> 2 ^ 57"
  shows "case local_axis xs a of
      None \<Rightarrow> \<forall>x::u64. unat x < length xs \<longrightarrow> \<not> axis_ok a (xs ! unat x)
    | Some l \<Rightarrow> in_table l xs \<and> (\<forall>x::u64. unat x < length xs \<longrightarrow> axis_ok a (xs ! unat x) = axis_ok l x)"
proof (cases a)
  case (Some u)
  show ?thesis
  proof (cases "u \<in> set xs")
    case True
    then show ?thesis using axis_local [OF s n, of _ u] std_binary_search_mem(2) [OF s True n] Some
      by (simp add: local_axis_def)
  next
    case False
    then show ?thesis using axis_local [OF s n, of _ u] Some by (simp add: local_axis_def)
  qed
qed (simp add: local_axis_def)

lemma view_axes:
  assumes V: "part_view part g T us up uo"
  shows "axis_lookup (pr_local_s part) s = Some (local_axis us s)"
    "axis_lookup (pr_local_p part) p = Some (local_axis up p)"
    "axis_lookup (pr_local_o part) ob = Some (local_axis uo ob)"
  using V by (auto simp: part_view_def numbered_def rows_fit_def local_axis_def intro!: axis_lookup_eq)

lemma row_in_tables:
  assumes V: "part_view part g T us up uo" and t: "t \<in> set T"
  shows "unat (fst t) < length us" "unat (fst (snd t)) < length up" "unat (snd (snd t)) < length uo"
  using numbered_bounds(6-8) [OF view_numbered [OF V] t] by simp_all

lemma table_order:
  assumes V: "part_view part g T us up uo"
  shows "sorted_wrt (<) us" "sorted_wrt (<) up" "sorted_wrt (<) uo"
    "length us \<le> 2 ^ 57" "length up \<le> 2 ^ 57" "length uo \<le> 2 ^ 57"
  using V by (auto simp: part_view_def numbered_def rows_fit_def)

text \<open>The rows a pattern selects, in local ids.\<close>

definition selected_rows :: "u64 list \<Rightarrow> u64 list \<Rightarrow> u64 list \<Rightarrow> triple list \<Rightarrow>
    u64 option \<Rightarrow> u64 option \<Rightarrow> u64 option \<Rightarrow> triple list" where
  "selected_rows us up uo T s p ob = filter (\<lambda>t. row_matches s p ob (unify us up uo t)) T"

lemma selected_rows_local:
  assumes V: "part_view part g T us up uo"
  shows "selected_rows us up uo T s p ob = (case (local_axis us s, local_axis up p, local_axis uo ob) of
     (Some ls, Some lp, Some lo) \<Rightarrow> filter (row_matches ls lp lo) T | _ \<Rightarrow> [])"
    "local_axis us s = Some ls \<Longrightarrow> in_table ls us" "local_axis up p = Some lp \<Longrightarrow> in_table lp up"
    "local_axis uo ob = Some lo \<Longrightarrow> in_table lo uo"
proof -
  note o = table_order [OF V] and r = row_in_tables [OF V]
  note cs = local_axis_cases [OF o(1,4), of s] and cp = local_axis_cases [OF o(2,5), of p]
    and co = local_axis_cases [OF o(3,6), of ob]
  show "selected_rows us up uo T s p ob = (case (local_axis us s, local_axis up p, local_axis uo ob) of
     (Some ls, Some lp, Some lo) \<Rightarrow> filter (row_matches ls lp lo) T | _ \<Rightarrow> [])"
    using cs cp co r
    by (auto simp: selected_rows_def row_matches_def unify_def filter_empty_conv
        split: option.splits intro!: filter_cong)
  show "local_axis us s = Some ls \<Longrightarrow> in_table ls us" using cs by simp
  show "local_axis up p = Some lp \<Longrightarrow> in_table lp up" using cp by simp
  show "local_axis uo ob = Some lo \<Longrightarrow> in_table lo uo" using co by simp
qed

lemma partition_rows_eq:
  assumes V: "part_view part g T us up uo"
  shows "partition_rows part s p ob = Some (selected_rows us up uo T s p ob)"
  using selected_rows_local(2-4) [OF V]
  by (auto simp: partition_rows_def view_axes [OF V] selected_rows_local(1) [OF V] dispatch_rows_eq [OF V]
      split: option.split)

lemma selected_rows_unified:
  "map (unify us up uo) (selected_rows us up uo T s p ob) = filter (row_matches s p ob) (map (unify us up uo) T)"
  by (simp add: selected_rows_def filter_map comp_def)

section \<open>The size bound\<close>

lemma found_rows:
  assumes V: "part_view part g T us up uo"
    and f: "case found of None \<Rightarrow> \<forall>j<length (pair_list T). pair_list T ! j \<noteq> (ls, lp)
     | Some j \<Rightarrow> j < length (pair_list T) \<and> pair_list T ! j = (ls, lp)"
  shows "filter (\<lambda>t. pair_of t = (ls, lp)) T = (case found of None \<Rightarrow> [] | Some j \<Rightarrow> rows_where T (\<lambda>k. k = j))"
proof -
  have eq: "filter (\<lambda>t. pair_of t = (ls, lp)) T = rows_where T (\<lambda>j. pair_list T ! j = (ls, lp))"
    by (rule filter_pairs)
  show ?thesis
  proof (cases found)
    case None
    then show ?thesis unfolding eq using f group_less [of _ T] by (auto simp: rows_where_def filter_empty_conv)
  next
    case (Some j)
    then have j: "j < length (pair_list T)" "pair_list T ! j = (ls, lp)" using f by simp_all
    show ?thesis unfolding eq rows_where_def Some option.case using pair_strict [OF V _ j(1)] group_less [of _ T] j(2)
      by (intro arg_cong [of _ _ "map ((!) T)"] filter_cong) auto
  qed
qed

lemma slice_count:
  assumes V: "part_view part g T us up uo" and j: "j < length (pair_list T)"
  obtains a b where "sp_pair_slice part j = Some (a, b)" "usize_wrapping_sub b a = length (rows_where T (\<lambda>k. k = j))"
proof -
  obtain a b where r: "sp_pair_slice part j = Some (a, b)" "a < b" "[a..<b] = filter (\<lambda>i. pos_of T i = j) [0..<length T]"
    by (rule view_pair_slice [OF V j]) blast
  have "usize_wrapping_sub b a = length (filter (\<lambda>i. pos_of T i = j) [0..<length T])"
    using arg_cong [OF r(3), of length] r(2) by simp
  then show ?thesis using that [OF r(1)] by (simp add: rows_where_def)
qed

lemma subject_count:
  assumes V: "part_view part g T us up uo" and ls: "unat ls < length us"
  shows "subject_triple_count part ls = Some (length (filter (\<lambda>t. fst t = ls) T))"
proof -
  obtain s e where r: "subject_slice part ls = Some (s, e)" "s < e" "e \<le> length (pair_list T)"
    "\<And>j. j < length (pair_list T) \<Longrightarrow> fst (pair_list T ! j) = ls \<longleftrightarrow> s \<le> j \<and> j < e"
    by (rule view_subject_slice [OF V ls]) blast
  have je: "s < length (pair_list T)" "e - 1 < length (pair_list T)" using r by simp_all
  obtain a a' where A: "sp_pair_slice part s = Some (a, a')" "a < a'" "a' \<le> length T"
    "\<And>i. i < length T \<Longrightarrow> pos_of T i = s \<longleftrightarrow> a \<le> i \<and> i < a'" by (rule view_pair_slice [OF V je(1)]) blast
  obtain b' b where B: "sp_pair_slice part (e - 1) = Some (b', b)" "b' < b" "b \<le> length T"
    "\<And>i. i < length T \<Longrightarrow> pos_of T i = e - 1 \<longleftrightarrow> b' \<le> i \<and> i < b" by (rule view_pair_slice [OF V je(2)]) blast
  have "s \<le> pos_of T i \<and> pos_of T i < e \<longleftrightarrow> a \<le> i \<and> i < b" if i: "i < length T" for i
  proof -
    have at: "pos_of T a = s" "pos_of T (b - 1) = e - 1" using A(2,3) B(2,3) A(4) [of a] B(4) [of "b - 1"] by auto
    have "s \<le> pos_of T i \<longleftrightarrow> a \<le> i"
      using group_of_mono [of a i "pairs T"] group_of_mono [of i a "pairs T"] at(1) A(4) [OF i]
      by (cases "a \<le> i") auto
    moreover have "pos_of T i < e \<longleftrightarrow> i < b"
    proof (cases "i < b")
      case True
      then have "pos_of T i \<le> e - 1" using group_of_mono [of i "b - 1" "pairs T"] at(2) by simp
      then show ?thesis using True r(2) by simp
    next
      case False
      then have "e - 1 \<le> pos_of T i" "pos_of T i \<noteq> e - 1"
        using group_of_mono [of "b - 1" i "pairs T"] at(2) B(4) [OF i] by auto
      then show ?thesis using False by simp
    qed
    ultimately show ?thesis by simp
  qed
  then have "filter (\<lambda>i. s \<le> pos_of T i \<and> pos_of T i < e) [0..<length T] = filter (\<lambda>i. a \<le> i \<and> i < b) [0..<length T]"
    by (intro filter_cong) auto
  moreover have "filter (\<lambda>t. fst t = ls) T = rows_where T (\<lambda>j. fst (pair_list T ! j) = ls)"
    using filter_pairs [of "\<lambda>q. fst q = ls" T] by simp
  moreover have "rows_where T (\<lambda>j. fst (pair_list T ! j) = ls) = rows_where T (\<lambda>j. s \<le> j \<and> j < e)"
    unfolding rows_where_def using r(4) group_less [of _ T]
    by (intro arg_cong [of _ _ "map ((!) T)"] filter_cong) auto
  ultimately have "length (filter (\<lambda>t. fst t = ls) T) = b - a"
    using filter_between [OF B(3), of a] by (simp add: rows_where_def)
  moreover have "a < b"
  proof (rule ccontr)
    assume "\<not> a < b"
    then have "pos_of T (b - 1) \<le> pos_of T a" by (intro group_of_mono) simp
    moreover have at: "pos_of T a = s" "pos_of T (b - 1) = e - 1" using A(2,3) B(2,3) A(4) [of a] B(4) [of "b - 1"] by auto
    ultimately have "pos_of T (b - 1) = s" using r(2) by simp
    moreover have "b - 1 < length T" using B(2,3) by simp
    ultimately show False using A(4) [of "b - 1"] B(2) \<open>\<not> a < b\<close> by linarith
  qed
  ultimately show ?thesis using r A B by (simp add: subject_triple_count_def)
qed

lemma pred_count:
  assumes V: "part_view part g T us up uo" and lp: "unat lp < length up"
  shows "ivr_get (pr_pred_counts part) (unat lp) =
      Some (of_nat (length (filter (\<lambda>j. snd (pair_list T ! j) = lp) [0..<length (pair_list T)])))"
    "map_option unat (ivr_get (pr_pred_totals part) (unat lp)) = Some (length (filter (\<lambda>t. fst (snd t) = lp) T))"
proof -
  note n = view_numbered [OF V]
  have r: "reads (pr_pred_counts part) (map (of_nat \<circ> length) (pred_lists T up))"
    "reads (pr_pred_totals part) (map (\<lambda>p. pred_total T (length T) (of_nat p)) [0..<length up])"
    using V by (simp_all add: part_view_def)
  have "filter (\<lambda>j. sp_list T ! j = lp) [0..<length (pair_list T)] =
      filter (\<lambda>j. snd (pair_list T ! j) = lp) [0..<length (pair_list T)]"
    by (intro filter_cong) (auto simp: sp_list_def)
  then show "ivr_get (pr_pred_counts part) (unat lp) =
      Some (of_nat (length (filter (\<lambda>j. snd (pair_list T ! j) = lp) [0..<length (pair_list T)])))"
    using reads_get [OF r(1), of "unat lp"] lp by (simp add: pred_lists_def pred_positions_def)
  have "length (filter (\<lambda>t. fst (snd t) = lp) T) = length (filter (\<lambda>i. fst (snd (T ! i)) = lp) [0..<length T])"
    by (simp add: filter_positions [of _ T])
  moreover have "length (filter (\<lambda>i. fst (snd (T ! i)) = lp) [0..<length T]) < 2 ^ 64"
    using length_filter_le [of "\<lambda>i. fst (snd (T ! i)) = lp" "[0..<length T]"] numbered_bounds(1) [OF n] by simp
  ultimately show "map_option unat (ivr_get (pr_pred_totals part) (unat lp)) = Some (length (filter (\<lambda>t. fst (snd t) = lp) T))"
    using reads_get [OF r(2), of "unat lp"] lp by (simp add: pred_total_def unat_of_nat_64)
qed

lemma obj_count:
  assumes V: "part_view part g T us up uo" and lo: "unat lo < length uo"
  shows "ivr_get (pr_obj_counts part) (unat lo) = Some (of_nat (length (filter (\<lambda>t. obj_of t = lo) T)))"
proof -
  have r: "reads (pr_obj_counts part) (map (of_nat \<circ> length) (obj_lists T uo))" using V by (simp add: part_view_def)
  show ?thesis using reads_get [OF r, of "unat lo"] lo
    by (simp add: obj_lists_def obj_positions_def filter_positions [of _ T])
qed

lemma filter_nat_64:
  assumes "part_view part g T us up uo"
  shows "unat (of_nat (length (filter P T)) :: u64) = length (filter P T)"
    "unat (of_nat (length (filter R [0..<length (pair_list T)])) :: u64) = length (filter R [0..<length (pair_list T)])"
  using numbered_bounds(1,5) [OF view_numbered [OF assms]] le_less_trans [OF length_filter_le [of P T]]
    length_filter_le [of R "[0..<length (pair_list T)]"]
  by (auto intro!: unat_of_nat_64)

text \<open>The shapes whose bound is the exact row count.\<close>

definition exact_shape :: "'a option \<Rightarrow> 'a option \<Rightarrow> 'a option \<Rightarrow> bool" where
  "exact_shape s p ob \<longleftrightarrow> ob = None \<or> s = None \<and> p = None"

definition bounded :: "partition_ref \<Rightarrow> triple list \<Rightarrow> u64 option \<Rightarrow> u64 option \<Rightarrow> u64 option \<Rightarrow> bool" where
  "bounded part T ls lp lo \<longleftrightarrow> (\<exists>n. bound_dispatch part ls lp lo = Some n \<and>
     length (filter (row_matches ls lp lo) T) \<le> n \<and> n \<le> length T \<and>
     (exact_shape ls lp lo \<longrightarrow> n = length (filter (row_matches ls lp lo) T)))"

lemmas matched = row_matches_def [abs_def]

lemma bounded_sp:
  assumes V: "part_view part g T us up uo" and x: "unat x < length us"
  shows "bounded part T (Some x) (Some y) None"
proof -
  obtain start stop found where r: "subject_slice part x = Some (start, stop)"
    "binary_search_range (pr_sp part) start stop y = Some found"
    "case found of None \<Rightarrow> \<forall>j<length (pair_list T). pair_list T ! j \<noteq> (x, y)
     | Some j \<Rightarrow> j < length (pair_list T) \<and> pair_list T ! j = (x, y)" by (rule find_pair [OF V x])
  note F = found_rows [OF V r(3)]
  have "bound_dispatch part (Some x) (Some y) None = Some (length (filter (\<lambda>t. pair_of t = (x, y)) T))"
  proof (cases found)
    case (Some j)
    then have j: "j < length (pair_list T)" using r(3) by simp
    obtain a b where "sp_pair_slice part j = Some (a, b)" "usize_wrapping_sub b a = length (rows_where T (\<lambda>k. k = j))"
      by (rule slice_count [OF V j])
    then show ?thesis unfolding F using r Some by (simp add: bound_dispatch_def)
  qed (unfold F, use r in \<open>simp add: bound_dispatch_def\<close>)
  then show ?thesis by (simp add: bounded_def matched)
qed

lemma bounded_spo:
  assumes V: "part_view part g T us up uo" and x: "unat x < length us"
  shows "bounded part T (Some x) (Some y) (Some z)"
proof -
  obtain start stop found where r: "subject_slice part x = Some (start, stop)"
    "binary_search_range (pr_sp part) start stop y = Some found"
    "case found of None \<Rightarrow> \<forall>j<length (pair_list T). pair_list T ! j \<noteq> (x, y)
     | Some j \<Rightarrow> j < length (pair_list T) \<and> pair_list T ! j = (x, y)" by (rule find_pair [OF V x])
  have one: "filter (row_matches (Some x) (Some y) (Some z)) T = filter (\<lambda>t. t = (x, y, z)) T"
    by (intro filter_cong) (auto simp: row_matches_def prod_eq_iff)
  have "card ({t. t = (x, y, z)} \<inter> set T) \<le> card {(x, y, z)}" by (rule card_mono) auto
  then have "length (filter (\<lambda>t. t = (x, y, z)) T) \<le> 1"
    using view_strict [OF V] strict_sorted_iff [of T] distinct_length_filter [of T "\<lambda>t. t = (x, y, z)"] by simp
  moreover have "filter (\<lambda>t. t = (x, y, z)) T = []" if "found = None"
    using found_rows [OF V r(3)] that by (auto simp: filter_empty_conv)
  moreover have "1 \<le> length T" if "found \<noteq> None"
    using r(3) that pair_list_le [of T] by (cases found) auto
  ultimately show ?thesis using r unfolding bounded_def one by (auto simp: bound_dispatch_def exact_shape_def)
qed

lemma bounded_so:
  assumes V: "part_view part g T us up uo" and x: "unat x < length us"
  shows "bounded part T (Some x) None (Some z)"
proof -
  obtain s e where r: "subject_slice part x = Some (s, e)" "e \<le> length (pair_list T)" "s < e"
    "[s..<e] = filter (\<lambda>j. fst (pair_list T ! j) = x) [0..<length (pair_list T)]"
    by (rule view_subject_slice [OF V x]) blast
  have "length (filter (\<lambda>t. fst t = x \<and> obj_of t = z) T) = length (filter (has_object T z) [s..<e])"
    unfolding r(4) using filter_object [OF V, of "\<lambda>q. fst q = x" z] by (simp add: conj_commute)
  also have "\<dots> \<le> e - s" using length_filter_le [of "has_object T z" "[s..<e]"] by simp
  finally have "length (filter (\<lambda>t. fst t = x \<and> obj_of t = z) T) \<le> e - s" .
  moreover have "e - s \<le> length T" using r(2) pair_list_le [of T] by simp
  ultimately show ?thesis using r(1,3) by (simp add: bounded_def bound_dispatch_def matched exact_shape_def)
qed

lemma bounded_po:
  assumes V: "part_view part g T us up uo" and y: "unat y < length up" and z: "unat z < length uo"
  shows "bounded part T None (Some y) (Some z)"
proof -
  let ?J = "filter (\<lambda>j. snd (pair_list T ! j) = y) [0..<length (pair_list T)]"
  let ?R = "filter (\<lambda>t. fst (snd t) = y \<and> obj_of t = z) T"
  have "length ?R = length (filter (has_object T z) ?J)"
    using filter_object [OF V, of "\<lambda>q. snd q = y" z] by (simp add: conj_commute)
  then have "length ?R \<le> length ?J" by (simp only: length_filter_le)
  moreover have "length ?R \<le> length (filter (\<lambda>t. obj_of t = z) T)"
    using length_filter_le [of "\<lambda>t. fst (snd t) = y" "filter (\<lambda>t. obj_of t = z) T"] by (simp add: conj_commute)
  ultimately show ?thesis
    using pred_count(1) [OF V y] obj_count [OF V z] filter_nat_64 [OF V] length_filter_le [of "\<lambda>t. obj_of t = z" T]
    by (simp add: min_le_iff_disj bounded_def bound_dispatch_def matched exact_shape_def)
qed

lemma bound_dispatch_eq:
  assumes V: "part_view part g T us up uo" and "in_table ls us" "in_table lp up" "in_table lo uo"
  shows "bounded part T ls lp lo"
proof -
  have ids: "ls = Some x \<Longrightarrow> unat x < length us" "lp = Some y \<Longrightarrow> unat y < length up"
    "lo = Some z \<Longrightarrow> unat z < length uo" for x y z using assms by simp_all
  have s: "bounded part T (Some x) None None" if "unat x < length us" for x
    using subject_count [OF V that] by (simp add: bounded_def bound_dispatch_def matched)
  have p: "bounded part T None (Some y) None" if "unat y < length up" for y
    using pred_count(2) [OF V that] by (auto simp: bounded_def bound_dispatch_def matched)
  have ob: "bounded part T None None (Some z)" if "unat z < length uo" for z
    using obj_count [OF V that] filter_nat_64(1) [OF V] by (simp add: bounded_def bound_dispatch_def matched)
  have "pr_n_triples part = of_nat (length T)" using V by (simp add: part_view_def)
  then have a: "bounded part T None None None"
    using filter_nat_64(1) [OF V, of "\<lambda>_. True"] by (simp add: bounded_def bound_dispatch_def matched)
  show ?thesis
    using ids bounded_spo [OF V] bounded_sp [OF V] bounded_so [OF V] bounded_po [OF V] s p ob a
    by (cases ls; cases lp; cases lo) simp_all
qed

lemma partition_bound_eq:
  assumes V: "part_view part g T us up uo"
  obtains n where "partition_upper_bound part s p ob = Some n" "length (selected_rows us up uo T s p ob) \<le> n" "n \<le> length T"
    "exact_shape s p ob \<Longrightarrow> n = length (selected_rows us up uo T s p ob)"
proof (cases "(local_axis us s, local_axis up p, local_axis uo ob)")
  case (fields a b c)
  have none: "local_axis xs v = Some l \<Longrightarrow> l = None \<longleftrightarrow> v = None" for xs v l
    by (auto simp: local_axis_def split: option.splits if_splits)
  note L = selected_rows_local(1) [OF V, of s p ob] selected_rows_local(2-4) [OF V]
  show ?thesis
  proof (cases "\<exists>ls lp lo. a = Some ls \<and> b = Some lp \<and> c = Some lo")
    case True
    then obtain ls lp lo where eq: "local_axis us s = Some ls" "local_axis up p = Some lp" "local_axis uo ob = Some lo"
      using fields by auto
    have "exact_shape ls lp lo = exact_shape s p ob" using none eq by (auto simp: exact_shape_def)
    then show ?thesis using bound_dispatch_eq [OF V L(2) [OF eq(1)] L(3) [OF eq(2)] L(4) [OF eq(3)]] that L(1) eq
      by (auto simp: partition_upper_bound_def view_axes [OF V] bounded_def)
  next
    case False
    then have "selected_rows us up uo T s p ob = []" using L(1) fields by (auto split: option.split)
    moreover have "partition_upper_bound part s p ob = Some 0" using False fields
      by (auto simp: partition_upper_bound_def view_axes [OF V] split: option.split)
    ultimately show ?thesis using that by simp
  qed
qed

end
