(* ===== verification/TriplesStore.thy ===== *)
theory TriplesStore
  imports TriplesMatch
begin

text \<open>
  The whole graph-partitioned structure of \<open>crates/rdf-core/src/ir/pack/triples.rs\<close>:
  \<open>Triples::try_encode\<close> collects a dataset view's quads per graph and writes one block per
  graph. The dataset view is the record of what its trait methods answer; the dictionary is
  its two accessors, with \<open>PackDict::id_by_value\<close> (\<open>dict.rs\<close>) modelled over them.
\<close>

section \<open>The dataset view and the dictionary\<close>

datatype 'e term_lookup_error = ForeignId | ReadFailed 'e

type_synonym 'id quad_ids = "'id \<times> 'id \<times> 'id \<times> 'id option"

record ('id, 'v, 'e) dataset_view =
  dv_error_before :: "'e option"
  dv_error_after :: "'e option"
  dv_term_value :: "'id \<Rightarrow> 'e term_lookup_error + 'v"
  dv_quads :: "'id quad_ids list"
  dv_named_graphs :: "'id list"
  dv_reifier_quads :: "'id quad_ids list"
  dv_annotation_quads :: "'id quad_ids list"

definition checked_read :: "('id, 'v, 'e) dataset_view \<Rightarrow> 'a option \<Rightarrow> ('e + 'a) option" where
  "checked_read view result = (case dv_error_before view of Some e \<Rightarrow> Some (Inl e)
     | None \<Rightarrow> map_option (\<lambda>r. case dv_error_after view of Some e \<Rightarrow> Inl e | None \<Rightarrow> Inr r) result)"

record 'v pack_dict =
  pd_n_terms :: u64
  pd_term_value :: "u64 \<Rightarrow> 'v"

lemma midpoint_word:
  assumes "lo < (hi :: u64)"
  shows "unat (lo + (hi - lo) div 2) = unat lo + (unat hi - unat lo) div 2"
    "unat (lo + (hi - lo) div 2 + 1) = Suc (unat lo + (unat hi - unat lo) div 2)"
proof -
  have l: "unat lo < unat hi" "unat hi < 2 ^ 64" using assms unsigned_less [of hi] by (simp_all add: word_less_nat_alt)
  have d: "unat ((hi - lo) div 2) = (unat hi - unat lo) div 2"
    using assms by (simp add: unat_div unat_sub)
  have s: "unat lo + (unat hi - unat lo) div 2 < unat hi" using l by linarith
  show a: "unat (lo + (hi - lo) div 2) = unat lo + (unat hi - unat lo) div 2"
    unfolding unat_word_ariths(1) d using less_trans [OF s l(2)] by simp
  show "unat (lo + (hi - lo) div 2 + 1) = Suc (unat lo + (unat hi - unat lo) div 2)"
    using s l by (simp add: unat_word_ariths(1) [of _ 1] a)
qed

function id_search :: "(u64 \<Rightarrow> 'v::linorder) \<Rightarrow> 'v \<Rightarrow> u64 \<Rightarrow> u64 \<Rightarrow> u64 option" where
  "id_search term_value v lo hi =
     (if lo < hi then
        let mid = lo + (hi - lo) div 2; tid = mid + 1
        in if term_value tid < v then id_search term_value v (mid + 1) hi
           else if v < term_value tid then id_search term_value v lo mid
           else Some tid
      else None)"
  by auto

termination
proof (relation "measure (\<lambda>(_, _, lo, hi). unat hi - unat lo)")
  fix lo hi x :: u64
  assume lt: "lo < hi" and x: "x = lo + (hi - lo) div 2"
  have l: "unat lo < unat hi" using lt by (simp add: word_less_nat_alt)
  have u: "unat x = unat lo + (unat hi - unat lo) div 2" "unat (x + 1) = Suc (unat lo + (unat hi - unat lo) div 2)"
    using midpoint_word [OF lt] by (simp_all only: x)
  fix term_value :: "u64 \<Rightarrow> 'v::linorder" and v
  show "((term_value, v, x + 1, hi), term_value, v, lo, hi) \<in> measure (\<lambda>(_, _, lo, hi). unat hi - unat lo)"
    using l u(2) by simp
  show "((term_value, v, lo, x), term_value, v, lo, hi) \<in> measure (\<lambda>(_, _, lo, hi). unat hi - unat lo)"
    using l u(1) by simp
qed simp

declare id_search.simps [simp del]

definition id_by_value :: "'v::linorder pack_dict \<Rightarrow> 'v \<Rightarrow> u64 option" where
  "id_by_value dict v = id_search (pd_term_value dict) v 0 (pd_n_terms dict)"

section \<open>Ordered maps\<close>

text \<open>A \<open>BTreeMap\<close> is its strictly ascending entry list; \<open>entry(k).or_default()\<close> with an
  update is \<open>bt_update\<close>.\<close>

fun bt_update :: "'k::linorder \<Rightarrow> 'v \<Rightarrow> ('v \<Rightarrow> 'v) \<Rightarrow> ('k \<times> 'v) list \<Rightarrow> ('k \<times> 'v) list" where
  "bt_update k d f [] = [(k, f d)]"
| "bt_update k d f ((k', v) # m) =
     (if k < k' then (k, f d) # (k', v) # m
      else if k = k' then (k', f v) # m
      else (k', v) # bt_update k d f m)"

section \<open>Encoding a view\<close>

type_synonym 'id cache = "'id \<rightharpoonup> u64"

definition resolve_unified :: "('id, 'v::linorder, 'e) dataset_view \<Rightarrow> 'v pack_dict \<Rightarrow> 'id cache \<Rightarrow> 'id \<Rightarrow>
    ('e term_lookup_error + u64 \<times> 'id cache) option" where
  "resolve_unified view dict cache x = (case cache x of
     Some u \<Rightarrow> Some (Inr (u, cache))
   | None \<Rightarrow> (case dv_term_value view x of
       Inl e \<Rightarrow> Some (Inl e)
     | Inr v \<Rightarrow> (case id_by_value dict v of
         None \<Rightarrow> None
       | Some u \<Rightarrow> Some (Inr (u, cache(x \<mapsto> u))))))"

type_synonym graph_map = "(u64 \<times> triple list) list"

fun collect_quads :: "('id, 'v::linorder, 'e) dataset_view \<Rightarrow> 'v pack_dict \<Rightarrow> 'id cache \<Rightarrow> triple list \<Rightarrow> graph_map \<Rightarrow>
    'id quad_ids list \<Rightarrow> ('e term_lookup_error + 'id cache \<times> triple list \<times> graph_map) option" where
  "collect_quads view dict cache default_triples named [] = Some (Inr (cache, default_triples, named))"
| "collect_quads view dict cache default_triples named ((s, p, ob, g) # quads) =
     bind_res (resolve_unified view dict cache s) (\<lambda>(s_uni, cache).
     bind_res (resolve_unified view dict cache p) (\<lambda>(p_uni, cache).
     bind_res (resolve_unified view dict cache ob) (\<lambda>(o_uni, cache).
     (case g of
        None \<Rightarrow> collect_quads view dict cache (default_triples @ [(s_uni, p_uni, o_uni)]) named quads
      | Some g \<Rightarrow> bind_res (resolve_unified view dict cache g) (\<lambda>(g_uni, cache).
          collect_quads view dict cache default_triples
            (bt_update g_uni [] (\<lambda>ts. ts @ [(s_uni, p_uni, o_uni)]) named) quads)))))"

fun collect_declared :: "('id, 'v::linorder, 'e) dataset_view \<Rightarrow> 'v pack_dict \<Rightarrow> 'id cache \<Rightarrow> graph_map \<Rightarrow> u64 list \<Rightarrow>
    'id list \<Rightarrow> ('e term_lookup_error + 'id cache \<times> u64 list) option" where
  "collect_declared view dict cache named declared [] = Some (Inr (cache, declared))"
| "collect_declared view dict cache named declared (g # gs) =
     bind_res (resolve_unified view dict cache g) (\<lambda>(g_uni, cache).
     collect_declared view dict cache named
       (if map_of named g_uni = None then declared @ [g_uni] else declared) gs)"

fun collect_sides :: "('id, 'v::linorder, 'e) dataset_view \<Rightarrow> 'v pack_dict \<Rightarrow> 'id cache \<Rightarrow> u64 set \<Rightarrow>
    'id list \<Rightarrow> ('e term_lookup_error + u64 set) option" where
  "collect_sides view dict cache sides [] = Some (Inr sides)"
| "collect_sides view dict cache sides (g # gs) =
     bind_res (resolve_unified view dict cache g) (\<lambda>(g_uni, cache).
     collect_sides view dict cache (insert g_uni sides) gs)"

definition quad_graphs :: "'id quad_ids list \<Rightarrow> 'id list" where
  "quad_graphs qs = List.map_filter (\<lambda>(s, p, ob, g). g) qs"

definition add_declared :: "u64 set \<Rightarrow> u64 list \<Rightarrow> graph_map \<Rightarrow> graph_map" where
  "add_declared sides declared named =
     fold (\<lambda>g m. if g \<notin> sides then bt_update g [] (\<lambda>ts. ts) m else m) declared named"

definition collect_graphs :: "('id, 'v::linorder, 'e) dataset_view \<Rightarrow> 'v pack_dict \<Rightarrow>
    ('e term_lookup_error + triple list \<times> graph_map) option" where
  "collect_graphs view dict =
     bind_res (collect_quads view dict Map.empty [] [] (dv_quads view)) (\<lambda>(cache, default_triples, named).
     bind_res (collect_declared view dict cache named [] (dv_named_graphs view)) (\<lambda>(cache, declared).
     if declared = [] then Some (Inr (default_triples, named))
     else bind_res (collect_sides view dict cache {}
         (quad_graphs (dv_reifier_quads view) @ quad_graphs (dv_annotation_quads view)))
       (\<lambda>side_graphs. Some (Inr (default_triples, add_declared side_graphs declared named)))))"

definition TRIPLES_FORMAT_VERSION :: u8 where "TRIPLES_FORMAT_VERSION = 1"

fun write_partitions :: "bytes \<Rightarrow> graph_map \<Rightarrow> bytes option" where
  "write_partitions out [] = Some out"
| "write_partitions out ((g_uni, triples) # named) = do {
     bs \<leftarrow> encode_partition (Some g_uni) triples;
     write_partitions (frame_le out bs) named
   }"

definition write_triples :: "triple list \<Rightarrow> graph_map \<Rightarrow> bytes option" where
  "write_triples default_triples named =
     (let out = TRIPLES_FORMAT_VERSION # le_bytes 8 (1 + of_nat (length named) :: u64)
      in do {
        default_bytes \<leftarrow> encode_partition None default_triples;
        write_partitions (frame_le out default_bytes) named
      })"

definition try_encode :: "'v::linorder pack_dict \<Rightarrow> ('id, 'v, 'e) dataset_view \<Rightarrow> ('e term_lookup_error + bytes) option" where
  "try_encode dict view =
     (case checked_read view (bind_res (collect_graphs view dict)
          (\<lambda>(default_triples, named). map_option Inr (write_triples default_triples named))) of
        None \<Rightarrow> None
      | Some (Inl e) \<Rightarrow> Some (Inl (ReadFailed e))
      | Some (Inr r) \<Rightarrow> Some r)"

definition encode_view :: "'v::linorder pack_dict \<Rightarrow> ('id, 'v, 'e) dataset_view \<Rightarrow> bytes option" where
  "encode_view dict view = (case try_encode dict view of Some (Inr bs) \<Rightarrow> Some bs | _ \<Rightarrow> None)"

section \<open>The dictionary search\<close>

lemma id_search_sound:
  "id_search tv v lo hi = Some u \<Longrightarrow> unat lo < unat u \<and> unat u \<le> unat hi \<and> \<not> tv u < v \<and> \<not> v < tv u"
proof (induction tv v lo hi rule: id_search.induct)
  case (1 tv v lo hi)
  let ?mid = "lo + (hi - lo) div 2"
  show ?case
  proof (cases "lo < hi")
    case True
    note m = midpoint_word [OF True]
    have l: "unat lo < unat hi" using True by (simp add: word_less_nat_alt)
    consider "tv (?mid + 1) < v" | "\<not> tv (?mid + 1) < v" "v < tv (?mid + 1)"
      | "\<not> tv (?mid + 1) < v" "\<not> v < tv (?mid + 1)" by blast
    then show ?thesis
    proof cases
      case 1
      then have "id_search tv v (?mid + 1) hi = Some u" using "1.prems" True by (simp add: id_search.simps [of tv v lo hi] Let_def)
      from "1.IH"(1) [OF True refl refl 1 this] show ?thesis using m by linarith
    next
      case 2
      then have "id_search tv v lo ?mid = Some u" using "1.prems" True by (simp add: id_search.simps [of tv v lo hi] Let_def)
      from "1.IH"(2) [OF True refl refl 2 this] show ?thesis using m l by linarith
    next
      case 3
      then have "u = ?mid + 1" using "1.prems" True by (simp add: id_search.simps [of tv v lo hi] Let_def)
      then show ?thesis using 3 m l by simp
    qed
  qed (use "1.prems" in \<open>simp add: id_search.simps [of tv v lo hi]\<close>)
qed

definition dict_sorted :: "'v::linorder pack_dict \<Rightarrow> bool" where
  "dict_sorted dict \<longleftrightarrow> (\<forall>a b. 1 \<le> a \<and> a < b \<and> b \<le> pd_n_terms dict \<longrightarrow> pd_term_value dict a < pd_term_value dict b)"

lemma id_by_value_sound:
  assumes "id_by_value dict v = Some u"
  shows "1 \<le> u" "u \<le> pd_n_terms dict" "pd_term_value dict u = v"
  using id_search_sound [OF assms [unfolded id_by_value_def]]
  by (simp_all add: word_le_nat_alt not_less antisym)

lemma id_search_complete:
  "(\<And>a b. unat lo < unat a \<Longrightarrow> unat a < unat b \<Longrightarrow> unat b \<le> unat hi \<Longrightarrow> tv a < tv b) \<Longrightarrow>
    unat lo < unat u \<Longrightarrow> unat u \<le> unat hi \<Longrightarrow> id_search tv (tv u) lo hi = Some u"
proof (induction tv "tv u" lo hi rule: id_search.induct)
  case (1 tv lo hi)
  let ?mid = "lo + (hi - lo) div 2"
  have lt: "lo < hi" using "1.prems" by (simp add: word_less_nat_alt)
  note m = midpoint_word [OF lt]
  have l: "unat lo < unat hi" using lt by (simp add: word_less_nat_alt)
  note mono = "1.prems"(1)
  consider "unat (?mid + 1) < unat u" | "unat u < unat (?mid + 1)" | "unat u = unat (?mid + 1)" by linarith
  then show ?case
  proof cases
    case 1
    then have t: "tv (?mid + 1) < tv u" using mono [of "?mid + 1" u] m "1.prems" by linarith
    have "id_search tv (tv u) (?mid + 1) hi = Some u"
      by (rule "1.hyps"(1) [OF lt refl refl t]) (use 1 m "1.prems" in \<open>auto intro!: mono\<close>)
    then show ?thesis using lt t by (simp add: id_search.simps [of tv _ lo hi] Let_def)
  next
    case 2
    have b: "unat (?mid + 1) \<le> unat hi" using m l by linarith
    have t: "tv u < tv (?mid + 1)" by (rule mono) (use 2 b "1.prems" in auto)
    then have nt: "\<not> tv (?mid + 1) < tv u" by simp
    have "id_search tv (tv u) lo ?mid = Some u"
      by (rule "1.hyps"(2) [OF lt refl refl nt t]) (use 2 m l "1.prems" in \<open>auto intro!: mono\<close>)
    then show ?thesis using lt t nt by (simp add: id_search.simps [of tv _ lo hi] Let_def)
  next
    case 3
    then have "u = ?mid + 1" by (simp add: word_unat_eq_iff)
    then show ?thesis using lt by (simp add: id_search.simps [of tv _ lo hi] Let_def)
  qed
qed

lemma id_by_value_complete:
  assumes "dict_sorted dict" "1 \<le> u" "u \<le> pd_n_terms dict"
  shows "id_by_value dict (pd_term_value dict u) = Some u"
  unfolding id_by_value_def
  by (rule id_search_complete) (use assms in \<open>auto simp: dict_sorted_def word_le_nat_alt word_less_nat_alt\<close>)

section \<open>Ordered maps\<close>

lemma bt_update_keys: "fst ` set (bt_update k d f m) = insert k (fst ` set m)"
  by (induction k d f m rule: bt_update.induct) auto

lemma bt_update_sorted: "sorted_wrt (<) (map fst m) \<Longrightarrow> sorted_wrt (<) (map fst (bt_update k d f m))"
proof (induction k d f m rule: bt_update.induct)
  case (2 k d f k' v m)
  have "\<forall>y\<in>fst ` set (bt_update k d f m). k' < y" if "k' < k"
    using 2(2) that by (auto simp: bt_update_keys)
  then show ?case using 2 by auto
qed simp

lemma bt_update_map_of: "sorted_wrt (<) (map fst m) \<Longrightarrow>
    map_of (bt_update k d f m) = (map_of m)(k \<mapsto> f (case map_of m k of None \<Rightarrow> d | Some v \<Rightarrow> v))"
proof (induction k d f m rule: bt_update.induct)
  case (2 k d f k' v m)
  have "map_of m k = None" if "k < k'" using 2(2) that by (force simp: map_of_eq_None_iff)
  then show ?case using 2 by (auto simp: fun_eq_iff)
qed simp

lemma assoc_eq:
  fixes m :: "('k::linorder \<times> 'v) list"
  shows "sorted_wrt (<) (map fst m) \<Longrightarrow> m = map (\<lambda>k. (k, the (map_of m k))) (map fst m)"
proof -
  assume "sorted_wrt (<) (map fst m)"
  then have "distinct (map fst m)" using strict_sorted_iff [of "map fst m"] by simp
  then have "the (map_of m (fst q)) = snd q" if "q \<in> set m" for q using that by (cases q) simp
  then have "map (\<lambda>q. (fst q, the (map_of m (fst q)))) m = map (\<lambda>q. q) m" by (intro map_cong) simp_all
  then show ?thesis by (simp add: comp_def)
qed

section \<open>What a view stores\<close>

text \<open>The unified id of a view-local id, and the view's quads over unified ids.\<close>

definition unified :: "('id, 'v::linorder, 'e) dataset_view \<Rightarrow> 'v pack_dict \<Rightarrow> 'id \<Rightarrow> u64 option" where
  "unified view dict x = (case dv_term_value view x of Inl _ \<Rightarrow> None | Inr v \<Rightarrow> id_by_value dict v)"

definition uid :: "('id, 'v::linorder, 'e) dataset_view \<Rightarrow> 'v pack_dict \<Rightarrow> 'id \<Rightarrow> u64" where
  "uid view dict x = the (unified view dict x)"

type_synonym uquad = "triple \<times> u64 option"

fun uquad :: "('id \<Rightarrow> u64) \<Rightarrow> 'id quad_ids \<Rightarrow> uquad" where
  "uquad f (s, p, ob, g) = ((f s, f p, f ob), map_option f g)"

fun quad_ids :: "'id quad_ids \<Rightarrow> 'id set" where
  "quad_ids (s, p, ob, g) = {s, p, ob} \<union> set_option g"

definition view_ids :: "('id, 'v, 'e) dataset_view \<Rightarrow> 'id set" where
  "view_ids view = (\<Union>q\<in>set (dv_quads view). quad_ids q) \<union> set (dv_named_graphs view) \<union>
     set (quad_graphs (dv_reifier_quads view)) \<union> set (quad_graphs (dv_annotation_quads view))"

text \<open>Every term the encoder touches resolves, and the read session reports no failure.\<close>

definition readable :: "('id, 'v::linorder, 'e) dataset_view \<Rightarrow> 'v pack_dict \<Rightarrow> bool" where
  "readable view dict \<longleftrightarrow> dv_error_before view = None \<and> dv_error_after view = None \<and>
     (\<forall>x\<in>view_ids view. unified view dict x \<noteq> None)"

definition unified_quads :: "('id, 'v::linorder, 'e) dataset_view \<Rightarrow> 'v pack_dict \<Rightarrow> uquad list" where
  "unified_quads view dict = map (uquad (uid view dict)) (dv_quads view)"

definition graph_rows :: "uquad list \<Rightarrow> u64 option \<Rightarrow> triple list" where
  "graph_rows Q g = map fst (filter (\<lambda>q. snd q = g) Q)"

text \<open>The named graphs that get a partition: those that own a quad, and those only declared.\<close>

definition stored_graphs :: "('id, 'v::linorder, 'e) dataset_view \<Rightarrow> 'v pack_dict \<Rightarrow> u64 list" where
  "stored_graphs view dict = (let f = uid view dict;
       sides = map f (quad_graphs (dv_reifier_quads view) @ quad_graphs (dv_annotation_quads view))
     in value_set (List.map_filter snd (unified_quads view dict) @
          filter (\<lambda>g. g \<notin> set sides) (map f (dv_named_graphs view))))"

section \<open>Collecting the quads\<close>

definition cache_ok :: "('id, 'v::linorder, 'e) dataset_view \<Rightarrow> 'v pack_dict \<Rightarrow> 'id cache \<Rightarrow> bool" where
  "cache_ok view dict cache \<longleftrightarrow> (\<forall>x u. cache x = Some u \<longrightarrow> unified view dict x = Some u)"

lemma resolve_unified_ok:
  assumes c: "cache_ok view dict cache" and x: "unified view dict x \<noteq> None"
  obtains cache' where "resolve_unified view dict cache x = Some (Inr (uid view dict x, cache'))" "cache_ok view dict cache'"
proof (cases "cache x")
  case None
  obtain v u where "dv_term_value view x = Inr v" "id_by_value dict v = Some u" "unified view dict x = Some u"
    using x by (auto simp: unified_def split: sum.splits)
  then show ?thesis using that [of "cache(x \<mapsto> u)"] c None
    by (simp add: resolve_unified_def uid_def cache_ok_def)
next
  case (Some u)
  then have "unified view dict x = Some u" using c by (simp add: cache_ok_def)
  then show ?thesis using that [of cache] c Some by (simp add: resolve_unified_def uid_def)
qed

definition add_quad :: "uquad \<Rightarrow> graph_map \<Rightarrow> graph_map" where
  "add_quad q m = (case snd q of None \<Rightarrow> m | Some g \<Rightarrow> bt_update g [] (\<lambda>ts. ts @ [fst q]) m)"

lemma collect_quads_ok:
  assumes "cache_ok view dict cache" "\<forall>q\<in>set qs. \<forall>x\<in>quad_ids q. unified view dict x \<noteq> None"
  shows "\<exists>cache'. cache_ok view dict cache' \<and> collect_quads view dict cache d named qs =
    Some (Inr (cache', d @ graph_rows (map (uquad (uid view dict)) qs) None, fold add_quad (map (uquad (uid view dict)) qs) named))"
  using assms
proof (induction qs arbitrary: cache d named)
  case (Cons q qs)
  obtain s p ob g where q: "q = (s, p, ob, g)" by (cases q)
  have r: "unified view dict s \<noteq> None" "unified view dict p \<noteq> None" "unified view dict ob \<noteq> None"
    using Cons.prems(2) by (simp_all add: q)
  obtain c1 where c1: "resolve_unified view dict cache s = Some (Inr (uid view dict s, c1))" "cache_ok view dict c1"
    by (rule resolve_unified_ok [OF Cons.prems(1) r(1)])
  obtain c2 where c2: "resolve_unified view dict c1 p = Some (Inr (uid view dict p, c2))" "cache_ok view dict c2"
    by (rule resolve_unified_ok [OF c1(2) r(2)])
  obtain c3 where c3: "resolve_unified view dict c2 ob = Some (Inr (uid view dict ob, c3))" "cache_ok view dict c3"
    by (rule resolve_unified_ok [OF c2(2) r(3)])
  have rest: "\<forall>q\<in>set qs. \<forall>x\<in>quad_ids q. unified view dict x \<noteq> None" using Cons.prems(2) by simp
  show ?case
  proof (cases g)
    case None
    then show ?thesis using Cons.IH [OF c3(2) rest, of "d @ [(uid view dict s, uid view dict p, uid view dict ob)]" named] c1 c2 c3 q by (simp add: graph_rows_def add_quad_def)
  next
    case (Some g')
    then have "unified view dict g' \<noteq> None" using Cons.prems(2) by (simp add: q)
    then obtain c4 where c4: "resolve_unified view dict c3 g' = Some (Inr (uid view dict g', c4))" "cache_ok view dict c4"
      by (rule resolve_unified_ok [OF c3(2)])
    then show ?thesis using Cons.IH [OF c4(2) rest, of d "add_quad (uquad (uid view dict) q) named"] c1 c2 c3 q Some by (simp add: graph_rows_def add_quad_def)
  qed
qed (simp add: graph_rows_def)

lemma collect_declared_ok:
  assumes "cache_ok view dict cache" "\<forall>x\<in>set gs. unified view dict x \<noteq> None"
  shows "\<exists>cache'. cache_ok view dict cache' \<and> collect_declared view dict cache named declared gs =
    Some (Inr (cache', declared @ filter (\<lambda>g. map_of named g = None) (map (uid view dict) gs)))"
  using assms
proof (induction gs arbitrary: cache declared)
  case (Cons g gs)
  then have "unified view dict g \<noteq> None" by simp
  then obtain c where "resolve_unified view dict cache g = Some (Inr (uid view dict g, c))" "cache_ok view dict c"
    by (rule resolve_unified_ok [OF Cons.prems(1)])
  then show ?case using Cons.IH [of c "declared @ [uid view dict g]"] Cons.IH [of c declared] Cons.prems(2) by simp
qed simp

lemma collect_sides_ok:
  assumes "cache_ok view dict cache" "\<forall>x\<in>set gs. unified view dict x \<noteq> None"
  shows "collect_sides view dict cache sides gs = Some (Inr (sides \<union> uid view dict ` set gs))"
  using assms
proof (induction gs arbitrary: cache sides)
  case (Cons g gs)
  then have "unified view dict g \<noteq> None" by simp
  then obtain c where "resolve_unified view dict cache g = Some (Inr (uid view dict g, c))" "cache_ok view dict c"
    by (rule resolve_unified_ok [OF Cons.prems(1)])
  then show ?case using Cons.IH [of c] Cons.prems(2) by simp
qed simp

text \<open>A graph map built from quads: ascending keys, each with its graph's rows in order.\<close>

definition stores :: "graph_map \<Rightarrow> uquad list \<Rightarrow> u64 set \<Rightarrow> bool" where
  "stores m Q K \<longleftrightarrow> sorted_wrt (<) (map fst m) \<and> fst ` set m = K \<and> (\<forall>k\<in>K. map_of m k = Some (graph_rows Q (Some k)))"

lemma stores_None: "stores m Q K \<Longrightarrow> map_of m k = None \<longleftrightarrow> k \<notin> K"
  by (auto simp: stores_def map_of_eq_None_iff)

lemma stores_add_quad:
  assumes "stores m Q K" "\<And>g. g \<notin> K \<Longrightarrow> graph_rows Q (Some g) = []"
  shows "stores (add_quad q m) (Q @ [q]) (K \<union> set_option (snd q))"
proof (cases "snd q")
  case None
  then show ?thesis using assms(1) by (simp add: stores_def add_quad_def graph_rows_def)
next
  case (Some g)
  have "map_of m g = (if g \<in> K then Some (graph_rows Q (Some g)) else None)"
    using assms(1) stores_None [OF assms(1)] by (auto simp: stores_def)
  then show ?thesis using assms Some
    by (auto simp: stores_def add_quad_def bt_update_keys bt_update_sorted bt_update_map_of graph_rows_def)
qed

lemma set_map_filter_snd: "set (List.map_filter snd Q) = {g. Some g \<in> snd ` set Q}"
proof (induction Q)
  case (Cons q Q)
  then show ?case by (cases "snd q") (auto simp: map_filter_def)
qed (simp add: map_filter_def)

lemma fold_add_quad:
  "stores (fold add_quad Q []) Q (set (List.map_filter snd Q))"
proof (induction Q rule: rev_induct)
  case (snoc q Q)
  have e: "graph_rows Q (Some g) = []" if "g \<notin> set (List.map_filter snd Q)" for g
    using that unfolding graph_rows_def set_map_filter_snd by (auto simp: filter_empty_conv image_iff)
  have "set (List.map_filter snd (Q @ [q])) = set (List.map_filter snd Q) \<union> set_option (snd q)"
    by (cases "snd q") (auto simp: map_filter_def)
  then show ?case using stores_add_quad [OF snoc e] by simp
qed (simp add: stores_def map_filter_def)

lemma stores_add_empty:
  assumes "stores m Q K" "\<And>g. g \<notin> K \<Longrightarrow> graph_rows Q (Some g) = []"
  shows "stores (bt_update g [] (\<lambda>ts. ts) m) Q (insert g K)"
proof -
  have "map_of m g = (if g \<in> K then Some (graph_rows Q (Some g)) else None)"
    using assms(1) stores_None [OF assms(1)] by (auto simp: stores_def)
  then show ?thesis using assms
    by (auto simp: stores_def bt_update_keys bt_update_sorted bt_update_map_of)
qed

lemma stores_add_declared:
  assumes "stores m Q K" "\<And>g. g \<notin> K \<Longrightarrow> graph_rows Q (Some g) = []"
  shows "stores (add_declared sides ds m) Q (K \<union> {g \<in> set ds. g \<notin> sides})"
  using assms
proof (induction ds arbitrary: m K)
  case (Cons g ds)
  show ?case
  proof (cases "g \<in> sides")
    case True
    have "K \<union> {h \<in> set (g # ds). h \<notin> sides} = K \<union> {h \<in> set ds. h \<notin> sides}" using True by auto
    then show ?thesis using Cons.IH [OF Cons.prems] True by (simp add: add_declared_def)
  next
    case False
    have "K \<union> {h \<in> set (g # ds). h \<notin> sides} = insert g K \<union> {h \<in> set ds. h \<notin> sides}" using False by auto
    moreover have "stores (add_declared sides ds (bt_update g [] (\<lambda>ts. ts) m)) Q (insert g K \<union> {h \<in> set ds. h \<notin> sides})"
      by (rule Cons.IH [OF stores_add_empty [OF Cons.prems]]) (simp_all add: Cons.prems(2))
    ultimately show ?thesis using False by (simp add: add_declared_def)
  qed
qed (simp add: add_declared_def)

lemma stores_list:
  assumes "stores m Q (set ks)" "sorted_wrt (<) ks"
  shows "m = map (\<lambda>g. (g, graph_rows Q (Some g))) ks"
proof -
  have k: "map fst m = ks"
    by (rule strict_sorted_equal) (use assms in \<open>simp_all add: stores_def\<close>)
  have "m = map (\<lambda>k. (k, the (map_of m k))) ks" using assoc_eq [of m] assms k by simp
  also have "\<dots> = map (\<lambda>g. (g, graph_rows Q (Some g))) ks" using assms(1) by (simp add: stores_def)
  finally show ?thesis .
qed

lemma collect_graphs_ok:
  assumes R: "readable view dict" and Q: "Q = unified_quads view dict"
  shows "collect_graphs view dict =
    Some (Inr (graph_rows Q None, map (\<lambda>g. (g, graph_rows Q (Some g))) (stored_graphs view dict)))"
proof -
  let ?f = "uid view dict"
  let ?sides = "quad_graphs (dv_reifier_quads view) @ quad_graphs (dv_annotation_quads view)"
  let ?m = "fold add_quad Q []" and ?K = "set (List.map_filter snd Q)"
  have ok: "\<forall>q\<in>set (dv_quads view). \<forall>x\<in>quad_ids q. unified view dict x \<noteq> None"
    "\<forall>x\<in>set (dv_named_graphs view). unified view dict x \<noteq> None" "\<forall>x\<in>set ?sides. unified view dict x \<noteq> None"
    using R by (auto simp: readable_def view_ids_def)
  have c0: "cache_ok view dict Map.empty" by (simp add: cache_ok_def)
  obtain c1 where c1: "cache_ok view dict c1"
    "collect_quads view dict Map.empty [] [] (dv_quads view) = Some (Inr (c1, graph_rows Q None, ?m))"
    using collect_quads_ok [OF c0 ok(1), of "[]" "[]"] by (auto simp: Q unified_quads_def)
  define ds where "ds = filter (\<lambda>g. map_of ?m g = None) (map ?f (dv_named_graphs view))"
  obtain c2 where c2: "cache_ok view dict c2"
    "collect_declared view dict c1 ?m [] (dv_named_graphs view) = Some (Inr (c2, ds))"
    using collect_declared_ok [OF c1(1) ok(2), of ?m "[]"] by (auto simp: ds_def)
  have sides: "collect_sides view dict c2 {} ?sides = Some (Inr (?f ` set ?sides))"
    using collect_sides_ok [OF c2(1) ok(3), of "{}"] by simp
  have st: "stores ?m Q ?K" by (rule fold_add_quad)
  have e: "graph_rows Q (Some g) = []" if "g \<notin> ?K" for g
    using that unfolding graph_rows_def set_map_filter_snd by (auto simp: filter_empty_conv image_iff)
  have ks: "?K \<union> {g \<in> set ds. g \<notin> ?f ` set ?sides} = set (stored_graphs view dict)"
    using stores_None [OF st] by (auto simp: ds_def stored_graphs_def Let_def Q)
  have sorted: "sorted_wrt (<) (stored_graphs view dict)" by (simp add: stored_graphs_def Let_def value_set_strict)
  have "add_declared (?f ` set ?sides) ds ?m = map (\<lambda>g. (g, graph_rows Q (Some g))) (stored_graphs view dict)"
  proof (rule stores_list [OF _ sorted])
    show "stores (add_declared (?f ` set ?sides) ds ?m) Q (set (stored_graphs view dict))"
      unfolding ks [symmetric] by (rule stores_add_declared [OF st]) (rule e)
  qed
  moreover have "ds = [] \<Longrightarrow> add_declared (?f ` set ?sides) ds ?m = ?m" by (simp add: add_declared_def)
  ultimately have "(if ds = [] then ?m else add_declared (?f ` set ?sides) ds ?m) =
      map (\<lambda>g. (g, graph_rows Q (Some g))) (stored_graphs view dict)" by (cases "ds = []") simp_all
  then show ?thesis unfolding collect_graphs_def using c1(2) c2(2) sides by auto
qed

end
