(* ===== verification/DictLookup.thy ===== *)
theory DictLookup
  imports DictRoundTrip TriplesStore
begin

text \<open>
  The dictionary as its users see it: the value search of \<open>PackDict::id_by_value\<close> over an opened
  dictionary, and the properties of opening and of the round trip.
\<close>

definition packed_dict :: "dictionary \<Rightarrow> term_value pack_dict" where
  "packed_dict dict = \<lparr>pd_n_terms = n_terms dict, pd_term_value = (\<lambda>tid. the (term_value_at dict tid))\<rparr>"

lemma valid_term_value:
  assumes "dict_valid dict" "id_in_range dict tid"
  shows "term_value_at dict tid = Some (entry_value dict tid)" "entry_index tid < length (pk_entries dict)"
proof -
  have len: "length (pk_entries dict) < 2 ^ 64" using assms(1) by (simp add: dict_valid_def)
  show i: "entry_index tid < length (pk_entries dict)" using assms(2) by (simp add: id_in_range_index [OF len])
  show "term_value_at dict tid = Some (entry_value dict tid)" by (rule term_value_at_of [OF valid_value [OF assms(1) i]])
qed

lemma valid_ascending:
  "dict_valid dict \<Longrightarrow> id_in_range dict a \<Longrightarrow> id_in_range dict b \<Longrightarrow> a < b \<Longrightarrow> the (term_value_at dict a) < the (term_value_at dict b)"
  using value_order valid_term_value by simp

lemma packed_dict_sorted: "dict_valid dict \<Longrightarrow> dict_sorted (packed_dict dict)"
  unfolding dict_sorted_def packed_dict_def pack_dict.select_convs
proof (intro allI impI)
  fix a b assume "dict_valid dict" "1 \<le> a \<and> a < b \<and> b \<le> n_terms dict"
  then show "the (term_value_at dict a) < the (term_value_at dict b)"
    by (intro valid_ascending) (auto simp: id_in_range_def intro: order_trans [OF _ less_imp_le])
qed

lemma packed_lookup:
  assumes "dict_valid dict"
  shows "id_by_value (packed_dict dict) v = Some tid \<longleftrightarrow> id_in_range dict tid \<and> term_value_at dict tid = Some v"
proof
  assume "id_by_value (packed_dict dict) v = Some tid"
  from id_by_value_sound [OF this] have "id_in_range dict tid" "the (term_value_at dict tid) = v"
    by (simp_all add: packed_dict_def id_in_range_def)
  then show "id_in_range dict tid \<and> term_value_at dict tid = Some v" using valid_term_value(1) [OF assms] by simp
next
  assume t: "id_in_range dict tid \<and> term_value_at dict tid = Some v"
  have "id_by_value (packed_dict dict) (pd_term_value (packed_dict dict) tid) = Some tid"
    by (rule id_by_value_complete [OF packed_dict_sorted [OF assms]]) (use t in \<open>simp_all add: packed_dict_def id_in_range_def\<close>)
  then show "id_by_value (packed_dict dict) v = Some tid" using t by (simp add: packed_dict_def)
qed

text \<open>C35: Whatever bytes a dictionary is opened from, once every check has passed its queries are total
  and exact: resolving any id of its range ends and gives a term (no missing datatype, no cycle), the
  terms are strictly ascending in the id although the check only compared ids, and the binary search
  by value returns an id exactly for the terms present, that is, the id that resolves to the term.\<close>

theorem opened_dictionary:
  assumes "dict_open checks bytes = Some (Inr dict)"
  shows "(\<forall>tid. id_in_range dict tid \<longrightarrow> term_value_at dict tid \<noteq> None) \<and>
    (\<forall>a b. id_in_range dict a \<and> id_in_range dict b \<and> a < b \<longrightarrow> the (term_value_at dict a) < the (term_value_at dict b)) \<and>
    (\<forall>v tid. id_by_value (packed_dict dict) v = Some tid \<longleftrightarrow> id_in_range dict tid \<and> term_value_at dict tid = Some v)"
  using opened_valid [OF assms] valid_term_value(1) valid_ascending packed_lookup by simp

lemma written_opens:
  fixes checks :: "('l, 'i) term_checks"
  assumes enc: "encodable checks vs"
  shows "\<exists>bytes. encode_values vs (value_to_id vs) = Some bytes \<and>
    (length bytes < 2 ^ 64 \<longrightarrow> (\<exists>dict. dict_open checks (dict_to_bytes \<lparr>ed_n_terms = of_nat (length vs), ed_values_bytes = bytes\<rparr>) = Some (Inr dict) \<and>
      holds_list checks dict vs))"
proof -
  let ?bs = "map bucket_bytes (buckets (map (record_bytes (value_to_id vs)) vs))"
  have "length (starts 0 ?bs) < 2 ^ 58"
    using enc div_ceil_le_iff [of 8 "length vs" "length vs"] by (simp add: length_buckets encodable_def)
  from values_bytes_parse [OF this] obtain ov where "iv_from_values (starts 0 ?bs) = Some ov" by blast
  then obtain bytes where b: "encode_values vs (value_to_id vs) = Some bytes"
    using encode_values_layout [of vs "value_to_id vs"] encodable_known [OF enc] by auto
  have "\<exists>dict. dict_open checks (dict_to_bytes \<lparr>ed_n_terms = of_nat (length vs), ed_values_bytes = bytes\<rparr>) = Some (Inr dict) \<and> holds_list checks dict vs"
    if l: "length bytes < 2 ^ 64"
    by (rule encoded_opens [OF enc b l]) (auto simp: dict_open_def dict_to_bytes_def strip_version_def)
  then show ?thesis using b by blast
qed

text \<open>C36: The dictionary round trip. For a strictly ascending list of terms that contains the datatype of
  each of its literals and the components of each of its triple terms, whose strings are valid for
  the decoder, within the nesting ceiling and the arena's 4 GiB, the encoder does not panic, and the
  bytes it writes open to a dictionary that has exactly these terms under the ids \<open>1\<close> to \<open>n\<close>.\<close>

theorem dictionary_round_trip:
  fixes checks :: "('l, 'i) term_checks"
  assumes "encodable checks vs"
  shows "\<exists>bytes. encode_values vs (value_to_id vs) = Some bytes \<and>
    (length bytes < 2 ^ 64 \<longrightarrow> (\<exists>dict. dict_open checks (dict_to_bytes \<lparr>ed_n_terms = of_nat (length vs), ed_values_bytes = bytes\<rparr>) = Some (Inr dict) \<and>
      n_terms dict = of_nat (length vs) \<and> (\<forall>i<length vs. term_value_at dict (of_nat i + 1) = Some (vs ! i))))"
  using written_opens [OF assms] holds_term_value [of checks] holds_length [of checks] by (fastforce simp: n_terms_def)

section \<open>A small dictionary\<close>

definition lax_checks :: "(nat, nat) term_checks" where
  "lax_checks = \<lparr>check_absolute = (\<lambda>_. None), validate_components = (\<lambda>_ _ _. None), is_identity_folded = (\<lambda>_. True)\<rparr>"

definition three_terms :: "term_value list" where
  "three_terms = [Iri [97], Literal [98] [97] None None, Triple (Iri [97]) (Iri [97]) (Literal [98] [97] None None)]"

lemma three_terms_encodable: "encodable lax_checks three_terms"
proof -
  have "utf8_valid [97]" "utf8_valid [98]" by code_simp+
  then show ?thesis by (simp add: encodable_def three_terms_def lax_checks_def less_shallow MAX_TRIPLE_TERM_DEPTH_def)
qed

definition three_bytes :: bytes where
  "three_bytes = [3, 0, 0, 0, 0, 0, 0, 0, 1, 0, 0, 0, 0, 0, 0, 0, 1, 0, 0, 0, 0, 0, 0, 0, 0, 0, 0, 0,
     0, 1, 97, 0, 6, 2, 1, 98, 1, 0, 0, 0, 4, 3, 1, 1, 2]"

lemma three_terms_bytes: "encode_values three_terms (value_to_id three_terms) = Some three_bytes"
  by code_simp

lemma three_opens: "\<exists>dict. dict_open lax_checks (1 # three_bytes) = Some (Inr dict) \<and> holds_list lax_checks dict three_terms"
proof -
  have "length three_bytes < 2 ^ 64" by (simp add: three_bytes_def)
  then show ?thesis using written_opens [OF three_terms_encodable]
    by (simp add: three_terms_bytes dict_to_bytes_def DICT_FORMAT_VERSION_def)
qed

theorem dictionary_round_trip_witness:
  "\<exists>dict. dict_open lax_checks (1 # three_bytes) = Some (Inr dict) \<and> n_terms dict = 3 \<and>
    term_value_at dict 2 = Some (Literal [98] [97] None None)"
proof -
  have l: "length three_terms = 3" "three_terms ! 1 = Literal [98] [97] None None" "length three_bytes < 2 ^ 64"
    by (simp_all add: three_terms_def three_bytes_def)
  obtain dict where d: "dict_open lax_checks (1 # three_bytes) = Some (Inr dict)" "n_terms dict = 3"
    "\<forall>i<length three_terms. term_value_at dict (of_nat i + 1) = Some (three_terms ! i)"
    using dictionary_round_trip [OF three_terms_encodable] l(3)
    by (auto simp: three_terms_bytes l(1) dict_to_bytes_def DICT_FORMAT_VERSION_def)
  then show ?thesis using d(3) [rule_format, of 1] l by (intro exI [of _ dict]) simp
qed

theorem opened_dictionary_witness:
  "\<exists>dict. dict_open lax_checks (1 # three_bytes) = Some (Inr dict) \<and> term_value_at dict 3 \<noteq> None \<and>
    the (term_value_at dict 1) < the (term_value_at dict 2)"
proof -
  obtain dict where d: "dict_open lax_checks (1 # three_bytes) = Some (Inr dict)" "holds_list lax_checks dict three_terms"
    using three_opens by blast
  have "n_terms dict = 3" using holds_length [OF d(2)] by (simp add: n_terms_def three_terms_def)
  then show ?thesis using opened_dictionary [OF d(1)] d(1) by (auto simp: id_in_range_def)
qed

section \<open>A hostile header\<close>

text \<open>One claimed term, \<open>2 ^ 62\<close> claimed buckets, and the offset vector whose size wraps to nothing.\<close>

definition hostile_section :: bytes where
  "hostile_section = [1] @ [1, 0, 0, 0, 0, 0, 0, 0] @ [0, 0, 0, 0, 0, 0, 0, 0x40] @ overflow_header"

text \<open>Opening panics on a 29-byte section, whatever the checks: the offset vector's header multiplies its
  length and width to zero payload bytes, the bucket count agrees with the length, and the first
  bucket's offset is read past the end of the buffer. The refusal promised for malformed bytes
  never comes.\<close>

theorem open_panics_on_wrapped_offsets:
  fixes checks :: "('l, 'i) term_checks"
  shows "length hostile_section = 29 \<and> dict_open checks hostile_section = None"
proof -
  obtain r where r: "ivr_from_bytes overflow_header = Inr r" "ivr_len r = 2 ^ 62" "ivr_width r = 4" "ivr_words r = []" "ivr_get r 0 = None"
    using overflow_header_parses by blast
  let ?vb = "tl hostile_section"
  have h: "read_header_u64 ?vb 0 = Inr (1, 8)" "read_header_u64 ?vb 8 = Inr (0x4000000000000000, 16)" by code_simp+
  have d: "drop 16 ?vb = overflow_header" "length ?vb = 28" "length overflow_header = 12"
    by (simp_all add: hostile_section_def overflow_header_def)
  have l: "ivr_serialized_len r = 12" by (simp add: ivr_serialized_len_def r(4))
  have u: "unat (0x4000000000000000 :: u64) = Suc (2 ^ 62 - 1)" by simp
  have "(of_nat (2 ^ 62) :: u64) = 0x4000000000000000" by simp
  then have "decode_values checks ?vb \<lparr>pk_arena = [], pk_entries = []\<rparr> = None"
    unfolding decode_values_def h(1) sum.case prod.case h(2) d r(1,2) l u bucket_loop.simps r(5) by simp
  then have "decode_value_list checks ?vb 1 = None" by (simp add: decode_value_list_def)
  moreover have "strip_version hostile_section = (Inr ?vb :: ('l, 'i) dict_error + _)" by (simp add: strip_version_def hostile_section_def DICT_FORMAT_VERSION_def)
  moreover have "length hostile_section = 29" by (simp add: hostile_section_def overflow_header_def)
  ultimately show ?thesis by (simp add: dict_open_def peek_term_count_def h(1))
qed

end
