(* ===== verification/TriplesRef.thy ===== *)
theory TriplesRef
  imports TriplesStore
begin

text \<open>
  The reader of the whole structure (\<open>TriplesRef\<close> in
  \<open>crates/rdf-core/src/ir/pack/triples.rs\<close>): opening a buffer, selecting partitions,
  pattern queries and size bounds; and the proof that a buffer written by \<open>try_encode\<close>
  opens and answers every pattern with exactly the matching quads of the view.

  \<open>Vec::with_capacity\<close> panics when the requested bytes exceed \<open>isize::MAX\<close>; the size of one
  partition reader is the compiler's choice and is the parameter \<open>psize\<close>.
\<close>

section \<open>The code\<close>

datatype graph_match = AnyGraph | DefaultGraph | NamedGraph u64

record triples_ref =
  tr_partitions :: "partition_ref list"
  tr_graph_index :: "(u64 \<times> nat) list"

definition vec_capacity_ok :: "nat \<Rightarrow> nat \<Rightarrow> bool" where
  "vec_capacity_ok psize n \<longleftrightarrow> n * psize \<le> 2 ^ 63 - 1"

definition ensure_slot :: "nat \<Rightarrow> u64 option \<Rightarrow> (pack_bits_error + 'a) option \<Rightarrow> (pack_bits_error + 'a) option" where
  "ensure_slot idx graph_id k =
     (if idx = 0 then ensure_res (graph_id = None) (Malformed ''triples: partition 0 must be the default graph'') k
      else ensure_res (graph_id \<noteq> None) (Malformed ''triples: only partition 0 may be the default graph'') k)"

fun parts_loop :: "bytes \<Rightarrow> nat \<Rightarrow> nat \<Rightarrow> nat \<Rightarrow> partition_ref list \<Rightarrow> (pack_bits_error + partition_ref list) option" where
  "parts_loop bs 0 idx pos partitions = Some (Inr partitions)"
| "parts_loop bs (Suc n) idx pos partitions =
     bind_res (Some (read_header_u64 bs pos)) (\<lambda>(plen, pos).
     bind_res (data_section bs pos (unat plen)) (\<lambda>(pbytes, stop).
     bind_res (partition_from_bytes pbytes) (\<lambda>(part, consumed).
     ensure_res (consumed = length pbytes) (Malformed ''triples: partition block has trailing garbage'')
       (ensure_slot idx (pr_graph_id part) (parts_loop bs n (idx + 1) stop (partitions @ [part]))))))"

fun index_loop :: "u64 option \<Rightarrow> nat \<Rightarrow> partition_ref list \<Rightarrow> (u64 \<times> nat) list \<Rightarrow> (pack_bits_error + (u64 \<times> nat) list) option" where
  "index_loop prev_g i [] graph_index = Some (Inr graph_index)"
| "index_loop prev_g i (part # parts) graph_index = (case pr_graph_id part of
     None \<Rightarrow> None
   | Some g \<Rightarrow> ensure_res (case prev_g of None \<Rightarrow> True | Some p \<Rightarrow> \<not> g \<le> p)
       (Malformed ''triples: named-graph partitions are not strictly ascending by graph id'')
       (index_loop (Some g) (i + 1) parts (bt_update g i (\<lambda>_. i) graph_index)))"

definition triples_from_bytes :: "nat \<Rightarrow> bytes \<Rightarrow> (pack_bits_error + triples_ref) option" where
  "triples_from_bytes psize bs = (case bs of
     [] \<Rightarrow> Some (Inl (Truncated 1 0))
   | version # _ \<Rightarrow>
       ensure_res (version = TRIPLES_FORMAT_VERSION) (Malformed ''triples: unsupported format version'')
       (bind_res (Some (read_header_u64 bs 1)) (\<lambda>(partition_count, pos).
        ensure_res (unat partition_count \<noteq> 0) (Malformed ''triples: missing the mandatory default-graph partition'')
        (if vec_capacity_ok psize (unat partition_count) then
           bind_res (parts_loop bs (unat partition_count) 0 pos []) (\<lambda>partitions.
           bind_res (index_loop None 1 (drop 1 partitions) []) (\<lambda>graph_index.
           Some (Inr \<lparr>tr_partitions = partitions, tr_graph_index = graph_index\<rparr>)))
         else None))))"

definition selected_partitions :: "triples_ref \<Rightarrow> graph_match \<Rightarrow> partition_ref list option" where
  "selected_partitions tr g = (case g of
     DefaultGraph \<Rightarrow> map_option (\<lambda>p. [p]) (nth_opt (tr_partitions tr) 0)
   | NamedGraph gid \<Rightarrow> (case map_of (tr_graph_index tr) gid of
       None \<Rightarrow> Some [] | Some idx \<Rightarrow> map_option (\<lambda>p. [p]) (nth_opt (tr_partitions tr) idx))
   | AnyGraph \<Rightarrow> Some (tr_partitions tr))"

type_synonym quad = "u64 \<times> u64 \<times> u64 \<times> u64 option"

definition unify_row :: "partition_ref \<Rightarrow> triple \<Rightarrow> quad option" where
  "unify_row part row = do {
     s \<leftarrow> ivr_get (pr_local_s part) (unat (fst row));
     p \<leftarrow> ivr_get (pr_local_p part) (unat (fst (snd row)));
     ob \<leftarrow> ivr_get (pr_local_o part) (unat (snd (snd row)));
     Some (s, p, ob, pr_graph_id part)
   }"

definition partition_quads :: "partition_ref \<Rightarrow> u64 option \<Rightarrow> u64 option \<Rightarrow> u64 option \<Rightarrow> quad list option" where
  "partition_quads part s p ob = do {
     rows \<leftarrow> partition_rows part s p ob;
     those (map (unify_row part) rows)
   }"

definition pattern :: "triples_ref \<Rightarrow> u64 option \<Rightarrow> u64 option \<Rightarrow> u64 option \<Rightarrow> graph_match \<Rightarrow> quad list option" where
  "pattern tr s p ob g = do {
     parts \<leftarrow> selected_partitions tr g;
     flat_opt (\<lambda>part. partition_quads part s p ob) parts
   }"

definition all_quads :: "triples_ref \<Rightarrow> quad list option" where
  "all_quads tr = pattern tr None None None AnyGraph"

definition named_graph_ids :: "triples_ref \<Rightarrow> u64 list" where
  "named_graph_ids tr = map fst (tr_graph_index tr)"

definition has_named_graph :: "triples_ref \<Rightarrow> u64 \<Rightarrow> bool" where
  "has_named_graph tr g \<longleftrightarrow> map_of (tr_graph_index tr) g \<noteq> None"

definition cardinality_upper_bound ::
    "triples_ref \<Rightarrow> u64 option \<Rightarrow> u64 option \<Rightarrow> u64 option \<Rightarrow> graph_match \<Rightarrow> nat option" where
  "cardinality_upper_bound tr s p ob g = do {
     parts \<leftarrow> selected_partitions tr g;
     bounds \<leftarrow> those (map (\<lambda>part. partition_upper_bound part s p ob) parts);
     Some (foldl usize_wrapping_add 0 bounds)
   }"

section \<open>The written buffer\<close>

type_synonym graph_part = "u64 option \<times> triple list"

definition block_for :: "graph_part \<Rightarrow> bytes \<Rightarrow> bool" where
  "block_for P b \<longleftrightarrow> (\<exists>us up uo c. numbers (snd P) us up uo \<and> sections_ok (local_rows (snd P)) us up uo c \<and>
     b = block_bytes (fst P) (local_rows (snd P)) up uo c)"

definition framed :: "bytes \<Rightarrow> bytes" where
  "framed b = le_bytes 8 (of_nat (length b) :: u64) @ b"

lemma frame_le_framed: "frame_le out b = out @ framed b"
  by (simp add: frame_le_def framed_def)

lemma encode_block:
  assumes "length ts < 2 ^ 57"
  obtains b where "encode_partition g ts = Some b" "block_for (g, ts) b"
proof -
  obtain us up uo where "tables ts = (us, up, uo)" by (cases "tables ts")
  then have N: "numbers ts us up uo" using assms by (simp add: numbers_def)
  obtain c where "encode_partition g ts = Some (block_bytes g (local_rows ts) up uo c)" "sections_ok (local_rows ts) us up uo c"
    by (rule encode_partition_sections [OF N refl])
  then show ?thesis using that N by (auto simp: block_for_def)
qed

lemma write_partitions_ok:
  assumes "\<forall>(g, ts)\<in>set named. length ts < 2 ^ 57"
  shows "\<exists>blocks. write_partitions out named = Some (out @ concat (map framed blocks)) \<and>
    list_all2 block_for (map (\<lambda>(g, ts). (Some g, ts)) named) blocks"
  using assms
proof (induction named arbitrary: out)
  case (Cons x named)
  obtain g ts where x: "x = (g, ts)" by (cases x)
  obtain b where b: "encode_partition (Some g) ts = Some b" "block_for (Some g, ts) b"
    using Cons.prems by (auto simp: x intro: encode_block [of ts "Some g"])
  obtain blocks where "write_partitions (frame_le out b) named = Some (frame_le out b @ concat (map framed blocks))"
    "list_all2 block_for (map (\<lambda>(g, ts). (Some g, ts)) named) blocks"
    using Cons.IH [of "frame_le out b"] Cons.prems by auto
  then show ?case using b x by (intro exI [of _ "b # blocks"]) (simp add: frame_le_framed)
qed simp

text \<open>The partitions of a view: the default graph first, then the stored graphs ascending.\<close>

definition view_parts :: "('id, 'v::linorder, 'e) dataset_view \<Rightarrow> 'v pack_dict \<Rightarrow> graph_part list" where
  "view_parts view dict = (let Q = unified_quads view dict in
     (None, graph_rows Q None) # map (\<lambda>g. (Some g, graph_rows Q (Some g))) (stored_graphs view dict))"

definition buffer_for :: "graph_part list \<Rightarrow> bytes list \<Rightarrow> bytes" where
  "buffer_for P blocks = TRIPLES_FORMAT_VERSION # le_bytes 8 (of_nat (length P) :: u64) @ concat (map framed blocks)"

lemma graph_rows_length: "length (graph_rows Q g) \<le> length Q"
  by (simp add: graph_rows_def)

lemma try_encode_ok:
  assumes R: "readable view dict" and n: "length (dv_quads view) < 2 ^ 57"
  obtains blocks where "try_encode dict view = Some (Inr (buffer_for (view_parts view dict) blocks))"
    "list_all2 block_for (view_parts view dict) blocks"
proof -
  let ?Q = "unified_quads view dict"
  let ?named = "map (\<lambda>g. (g, graph_rows ?Q (Some g))) (stored_graphs view dict)"
  have short: "length (graph_rows ?Q g) < 2 ^ 57" for g
    using graph_rows_length [of ?Q g] n by (simp add: unified_quads_def)
  obtain b where b: "encode_partition None (graph_rows ?Q None) = Some b" "block_for (None, graph_rows ?Q None) b"
    by (rule encode_block [OF short])
  let ?out = "frame_le (TRIPLES_FORMAT_VERSION # le_bytes 8 (1 + of_nat (length ?named) :: u64)) b"
  obtain blocks where w: "write_partitions ?out ?named = Some (?out @ concat (map framed blocks))"
    "list_all2 block_for (map (\<lambda>(g, ts). (Some g, ts)) ?named) blocks"
    using write_partitions_ok [of ?named ?out] short by auto
  have "write_triples (graph_rows ?Q None) ?named = Some (buffer_for (view_parts view dict) (b # blocks))"
    using b(1) w(1) by (simp add: write_triples_def buffer_for_def view_parts_def Let_def frame_le_framed)
  then have "try_encode dict view = Some (Inr (buffer_for (view_parts view dict) (b # blocks)))"
    using collect_graphs_ok [OF R refl] R by (simp add: try_encode_def checked_read_def readable_def)
  moreover have "list_all2 block_for (view_parts view dict) (b # blocks)"
    using b(2) w(2) by (simp add: view_parts_def Let_def comp_def)
  ultimately show ?thesis by (rule that)
qed

section \<open>Opening the buffer\<close>

definition part_for :: "graph_part \<Rightarrow> partition_ref \<Rightarrow> bool" where
  "part_for P part \<longleftrightarrow> (\<exists>us up uo. numbers (snd P) us up uo \<and> part_view part (fst P) (local_rows (snd P)) us up uo)"

lemma part_for_graph: "part_for P part \<Longrightarrow> pr_graph_id part = fst P"
  by (auto simp: part_for_def part_view_def)

lemma block_opens:
  assumes "block_for P b" "fst P \<noteq> Some 0" "length b < 2 ^ 64"
  obtains part where "partition_from_bytes b = Some (Inr (part, length b))" "part_for P part"
proof -
  obtain us up uo c where B: "numbers (snd P) us up uo" "sections_ok (local_rows (snd P)) us up uo c"
    "b = block_bytes (fst P) (local_rows (snd P)) up uo c" using assms(1) by (auto simp: block_for_def)
  obtain part where "partition_from_bytes b = Some (Inr (part, length b))"
    "part_view part (fst P) (local_rows (snd P)) us up uo"
    using partition_from_bytes_block [OF numbered_local_rows [OF B(1)] B(2) assms(2)] assms(3) B(3) by metis
  then show ?thesis using that B(1) by (auto simp: part_for_def)
qed

text \<open>The slots of a well-formed partition list: the default graph at position 0 only.\<close>

definition slots_ok :: "nat \<Rightarrow> graph_part list \<Rightarrow> bool" where
  "slots_ok idx Ps \<longleftrightarrow> (\<forall>i<length Ps. (fst (Ps ! i) = None) = (idx + i = 0) \<and> fst (Ps ! i) \<noteq> Some 0)"

lemma slots_ok_Cons: "slots_ok idx (P # Ps) \<longleftrightarrow> (fst P = None) = (idx = 0) \<and> fst P \<noteq> Some 0 \<and> slots_ok (Suc idx) Ps"
  unfolding slots_ok_def by (auto simp: less_Suc_eq_0_disj)

lemma parts_loop_ok:
  assumes "list_all2 block_for Ps blocks" "at bs pos (concat (map framed blocks))" "length bs < 2 ^ 64" "slots_ok idx Ps"
  shows "\<exists>parts. parts_loop bs (length Ps) idx pos acc = Some (Inr (acc @ parts)) \<and> list_all2 part_for Ps parts"
  using assms
proof (induction Ps blocks arbitrary: pos idx acc rule: list_all2_induct)
  case (Cons P Ps b blocks)
  have a: "at bs pos (le_bytes 8 (of_nat (length b) :: u64) @ (b @ concat (map framed blocks)))"
    using Cons.prems(1) by (simp add: framed_def [of b])
  have len: "length b < 2 ^ 64"
  proof -
    have "length (drop pos bs) = 8 + length b + length (concat (map framed blocks))"
      using a by (simp add: at_def)
    then show ?thesis using Cons.prems(2) by simp
  qed
  obtain pos1 where h: "read_header_u64 bs pos = Inr (of_nat (length b), pos1)" "at bs pos1 (b @ concat (map framed blocks))"
    by (rule header_section [OF a])
  obtain pos2 where d: "data_section bs pos1 (length b) = Some (Inr (b, pos2))" "at bs pos2 (concat (map framed blocks))"
    by (rule data_section [OF h(2) refl Cons.prems(2)])
  have sl: "(fst P = None) = (idx = 0)" "fst P \<noteq> Some 0" "slots_ok (Suc idx) Ps"
    using Cons.prems(3) by (simp_all add: slots_ok_Cons)
  obtain part where p: "partition_from_bytes b = Some (Inr (part, length b))" "part_for P part"
    by (rule block_opens [OF Cons.hyps(1) sl(2) len])
  obtain parts where "parts_loop bs (length Ps) (Suc idx) pos2 (acc @ [part]) = Some (Inr ((acc @ [part]) @ parts))"
    "list_all2 part_for Ps parts" using Cons.IH [OF d(2) Cons.prems(2) sl(3), of "acc @ [part]"] by blast
  then show ?case using h(1) d(1) p sl(1) len part_for_graph [OF p(2)]
    by (intro exI [of _ "part # parts"]) (cases "idx = 0"; simp add: ensure_slot_def unat_of_nat_64)
qed simp

lemma bt_update_last:
  "\<forall>k\<in>fst ` set m. k < g \<Longrightarrow> bt_update g d f m = m @ [(g, f d)]"
  by (induction g d f m rule: bt_update.induct) auto

lemma index_loop_ok:
  assumes "list_all2 part_for (map (\<lambda>g. (Some g, h g)) gs) parts" "sorted_wrt (<) gs"
    "\<forall>k\<in>fst ` set acc. \<forall>g\<in>set gs. k < g" "prev_g = None \<or> (\<exists>q. prev_g = Some q \<and> (\<forall>g\<in>set gs. q < g))"
  shows "index_loop prev_g i parts acc = Some (Inr (acc @ zip gs [i..<i + length gs]))"
  using assms
proof (induction gs arbitrary: prev_g i parts acc)
  case (Cons g gs)
  obtain part ps where parts: "parts = part # ps" "part_for (Some g, h g) part"
    "list_all2 part_for (map (\<lambda>g. (Some g, h g)) gs) ps" using Cons.prems(1) by (auto simp: list_all2_Cons1)
  have g: "pr_graph_id part = Some g" using part_for_graph [OF parts(2)] by simp
  have bt: "bt_update g i (\<lambda>_. i) acc = acc @ [(g, i)]" by (rule bt_update_last) (use Cons.prems(3) in auto)
  have "index_loop (Some g) (Suc i) ps (acc @ [(g, i)]) = Some (Inr ((acc @ [(g, i)]) @ zip gs [Suc i..<Suc i + length gs]))"
    by (rule Cons.IH [OF parts(3)]) (use Cons.prems in auto)
  moreover have "zip (g # gs) [i..<i + length (g # gs)] = (g, i) # zip gs [Suc i..<Suc i + length gs]"
    by (simp add: upt_conv_Cons del: upt_Suc)
  moreover have "i + 1 = Suc i" by simp
  ultimately show ?case using Cons.prems(4) parts(1) g bt by (auto simp: not_le simp del: upt_Suc list.size(4))
qed simp

lemma list_all2_drop1: "list_all2 R (x # xs) ys \<Longrightarrow> list_all2 R xs (drop 1 ys)"
  by (cases ys) simp_all

definition opened :: "graph_part list \<Rightarrow> triples_ref \<Rightarrow> bool" where
  "opened Ps tr \<longleftrightarrow> list_all2 part_for Ps (tr_partitions tr) \<and>
     (\<exists>ts gs h. Ps = (None, ts) # map (\<lambda>g. (Some g, h g)) gs \<and> sorted_wrt (<) gs \<and>
       tr_graph_index tr = zip gs [1..<Suc (length gs)])"

lemma triples_from_bytes_step:
  assumes "read_header_u64 (TRIPLES_FORMAT_VERSION # r) 1 = Inr (w, pos)" "unat w = n" "0 < n" "vec_capacity_ok psize n"
    "parts_loop (TRIPLES_FORMAT_VERSION # r) n 0 pos [] = Some (Inr parts)"
    "index_loop None 1 (drop 1 parts) [] = Some (Inr gi)"
  shows "triples_from_bytes psize (TRIPLES_FORMAT_VERSION # r) = Some (Inr \<lparr>tr_partitions = parts, tr_graph_index = gi\<rparr>)"
  using assms by (simp add: triples_from_bytes_def)

lemma open_buffer:
  assumes Ps: "Ps = (None, ts) # map (\<lambda>g. (Some g, h g)) gs" and gs: "sorted_wrt (<) gs" "0 \<notin> set gs"
    and B: "list_all2 block_for Ps blocks" and len: "length (buffer_for Ps blocks) < 2 ^ 64"
    and cap: "vec_capacity_ok psize (length Ps)"
  obtains tr where "triples_from_bytes psize (buffer_for Ps blocks) = Some (Inr tr)" "opened Ps tr"
proof -
  let ?bs = "buffer_for Ps blocks"
  have "length blocks \<le> length (concat (map framed blocks))"
    by (induction blocks) (simp_all add: framed_def)
  then have n: "length Ps < 2 ^ 64" using len list_all2_lengthD [OF B] by (simp add: buffer_for_def)
  have "at ?bs 1 (le_bytes 8 (of_nat (length Ps) :: u64) @ concat (map framed blocks))" by (simp add: at_def buffer_for_def)
  then obtain pos where h: "read_header_u64 ?bs 1 = Inr (of_nat (length Ps), pos)" "at ?bs pos (concat (map framed blocks))"
    by (rule header_section)
  have slots: "slots_ok 0 Ps" unfolding Ps slots_ok_Cons using gs(2) by (auto simp: slots_ok_def in_set_conv_nth)
  obtain parts where p: "parts_loop ?bs (length Ps) 0 pos [] = Some (Inr parts)" "list_all2 part_for Ps parts"
    using parts_loop_ok [OF B h(2) len slots, of "[]"] by auto
  have "index_loop None 1 (drop 1 parts) [] = Some (Inr (zip gs [1..<Suc (length gs)]))"
    using index_loop_ok [OF list_all2_drop1 [OF p(2) [unfolded Ps]] gs(1), of "[]" None 1] by simp
  moreover have "unat (of_nat (length Ps) :: u64) = length Ps" "0 < length Ps" using n unat_of_nat_64 [OF n] by (simp, simp add: Ps)
  ultimately have "triples_from_bytes psize ?bs = Some (Inr \<lparr>tr_partitions = parts, tr_graph_index = zip gs [1..<Suc (length gs)]\<rparr>)"
    using h(1) p(1) cap unfolding buffer_for_def by (intro triples_from_bytes_step)
  moreover have "opened Ps \<lparr>tr_partitions = parts, tr_graph_index = zip gs [1..<Suc (length gs)]\<rparr>"
    using p(2) gs(1) by (auto simp: opened_def Ps)
  ultimately show ?thesis by (rule that)
qed

section \<open>Queries on the opened structure\<close>

text \<open>The specification: the distinct rows of each selected graph, in row order, that match.\<close>

definition part_answer :: "u64 option \<Rightarrow> u64 option \<Rightarrow> u64 option \<Rightarrow> graph_part \<Rightarrow> quad list" where
  "part_answer s p ob P = map (\<lambda>t. (fst t, fst (snd t), snd (snd t), fst P))
     (filter (row_matches s p ob) (remdups_adj (sort (snd P))))"

definition selected :: "graph_match \<Rightarrow> graph_part list \<Rightarrow> graph_part list" where
  "selected g Ps = (case g of AnyGraph \<Rightarrow> Ps | DefaultGraph \<Rightarrow> take 1 Ps
     | NamedGraph gid \<Rightarrow> filter (\<lambda>P. fst P = Some gid) Ps)"

lemma partition_quads_eq:
  assumes "part_for P part"
  shows "partition_quads part s p ob = Some (part_answer s p ob P)"
proof -
  obtain us up uo where N: "numbers (snd P) us up uo" and V: "part_view part (fst P) (local_rows (snd P)) us up uo"
    using assms by (auto simp: part_for_def)
  let ?T = "local_rows (snd P)"
  have r: "reads (pr_local_s part) us" "reads (pr_local_p part) up" "reads (pr_local_o part) uo" "pr_graph_id part = fst P"
    using V by (simp_all add: part_view_def)
  have row: "unify_row part t = Some (fst (unify us up uo t), fst (snd (unify us up uo t)), snd (snd (unify us up uo t)), fst P)"
    if "t \<in> set (selected_rows us up uo ?T s p ob)" for t
  proof -
    have "t \<in> set ?T" using that by (simp add: selected_rows_def)
    from row_in_tables [OF V this] show ?thesis
      using reads_get [OF r(1)] reads_get [OF r(2)] reads_get [OF r(3)] r(4) by (simp add: unify_row_def unify_def)
  qed
  have "map (\<lambda>t. (fst (unify us up uo t), fst (snd (unify us up uo t)), snd (snd (unify us up uo t)), fst P))
      (selected_rows us up uo ?T s p ob) =
    map (\<lambda>t. (fst t, fst (snd t), snd (snd t), fst P)) (map (unify us up uo) (selected_rows us up uo ?T s p ob))"
    by simp
  also have "\<dots> = part_answer s p ob P"
    by (simp only: selected_rows_unified unify_local_rows [OF N] part_answer_def)
  finally show ?thesis
    using those_SomeI [of "selected_rows us up uo ?T s p ob", OF row]
    by (simp add: partition_quads_def partition_rows_eq [OF V])
qed

lemma zip_upt_map_of: "distinct gs \<Longrightarrow> i < length gs \<Longrightarrow> map_of (zip gs [k..<k + length gs]) (gs ! i) = Some (k + i)"
proof -
  assume a: "distinct gs" "i < length gs"
  have "zip gs [k..<k + length gs] ! i = (gs ! i, k + i)" using a by simp
  then have "(gs ! i, k + i) \<in> set (zip gs [k..<k + length gs])"
    using a(2) by (metis length_upt length_zip min.idem add_diff_cancel_left' nth_mem)
  then show ?thesis using a(1) by simp
qed

lemma filter_graph:
  "distinct gs \<Longrightarrow> filter (\<lambda>P. fst P = Some x) (map (\<lambda>g. (Some g, h g)) gs) = (if x \<in> set gs then [(Some x, h x)] else [])"
  by (induction gs) auto

lemma selected_partitions_ok:
  assumes "opened Ps tr"
  obtains parts where "selected_partitions tr g = Some parts" "list_all2 part_for (selected g Ps) parts"
proof -
  obtain ts gs h where O: "list_all2 part_for Ps (tr_partitions tr)" "Ps = (None, ts) # map (\<lambda>g. (Some g, h g)) gs"
    "sorted_wrt (<) gs" "tr_graph_index tr = zip gs [1..<Suc (length gs)]"
    using assms by (auto simp: opened_def)
  have len: "length (tr_partitions tr) = Suc (length gs)"
    using list_all2_lengthD [OF O(1)] by (simp add: O(2))
  have d: "distinct gs" using O(3) strict_sorted_iff [of gs] by simp
  have nth: "part_for (Ps ! i) (tr_partitions tr ! i)" if "i < Suc (length gs)" for i
    using list_all2_nthD2 [OF O(1)] that len by simp
  show ?thesis
  proof (cases g)
    case AnyGraph
    then show ?thesis using that O(1) by (simp add: selected_partitions_def selected_def)
  next
    case DefaultGraph
    have "take 1 Ps = [Ps ! 0]" by (simp add: O(2))
    then show ?thesis using that [of "[tr_partitions tr ! 0]"] DefaultGraph nth [of 0] len
      by (simp add: selected_partitions_def selected_def)
  next
    case (NamedGraph x)
    have f: "filter (\<lambda>P. fst P = Some x) Ps = (if x \<in> set gs then [(Some x, h x)] else [])"
      using filter_graph [OF d, of x h] by (simp add: O(2))
    show ?thesis
    proof (cases "x \<in> set gs")
      case True
      then obtain i where i: "i < length gs" "gs ! i = x" by (auto simp: in_set_conv_nth)
      have m: "map_of (tr_graph_index tr) x = Some (Suc i)"
        using zip_upt_map_of [OF d i(1), of 1] i(2) O(4) by simp
      have "Ps ! Suc i = (Some x, h x)" using i by (simp add: O(2))
      then show ?thesis using that [of "[tr_partitions tr ! Suc i]"] NamedGraph nth [of "Suc i"] i len m f True
        by (simp add: selected_partitions_def selected_def)
    next
      case False
      have "map_of (tr_graph_index tr) x = None" using False O(4) by (auto simp: map_of_eq_None_iff dest: set_zip_leftD)
      then show ?thesis using that [of "[]"] NamedGraph f False by (simp add: selected_partitions_def selected_def)
    qed
  qed
qed

lemma pattern_eq:
  assumes "opened Ps tr"
  shows "pattern tr s p ob g = Some (concat (map (part_answer s p ob) (selected g Ps)))"
proof -
  obtain parts where S: "selected_partitions tr g = Some parts" "list_all2 part_for (selected g Ps) parts"
    by (rule selected_partitions_ok [OF assms])
  have "those (map (\<lambda>part. partition_quads part s p ob) parts) = Some (map (part_answer s p ob) (selected g Ps))"
    using S(2) by (induction rule: list_all2_induct) (simp_all add: partition_quads_eq)
  then show ?thesis using S(1) by (simp add: pattern_def flat_opt_def)
qed

end
