(* ===== verification/TripleIndex.thy ===== *)
theory TripleIndex
  imports TriplesRef
begin

text \<open>
  The properties of the triple index: one partition and the whole structure read back what
  was encoded, every query shape returns exactly the matching quads, the size bounds hold,
  and the panics an untrusted buffer can still cause.
\<close>

section \<open>The size of a block\<close>

lemma length_le_concat: "length (concat (map (le_bytes k) ws)) = k * length ws"
  by (induction ws) simp_all

lemma iv_size: "holds v xs \<Longrightarrow> length (iv_to_bytes v) \<le> 12 + 8 * length xs"
proof -
  assume h: "holds v xs"
  then have "iv_len v = length xs" "iv_inv v" by (auto simp: holds_def dest: arg_cong [of _ _ length])
  then have "length (iv_words v) \<le> length xs"
    by (simp add: iv_inv_def div_ceil_le_iff mult.commute)
  then show ?thesis by (simp add: iv_to_bytes_def iv_packed_bytes_def length_le_concat)
qed

lemma rs_size: "rs_valid r \<Longrightarrow> length (rs_to_bytes r) \<le> 32 + 18 * length (rs_bits r)"
proof -
  assume r: "rs_valid r"
  have w: "length (rs_words r) \<le> rs_len r" using r by (simp add: rs_valid_def div_ceil_le_iff)
  have "div_ceil (length (rs_words r)) 8 \<le> length (rs_words r)" by (simp add: div_ceil_le_iff)
  then show ?thesis using r w
    by (simp add: rs_to_bytes_def length_le_concat rs_bits_def) (simp add: rs_valid_def)
qed

lemma table_sizes:
  assumes "numbers ts us up uo"
  shows "length us \<le> length ts" "length up \<le> length ts" "length uo \<le> length ts" "length (local_rows ts) \<le> length ts"
  using assms length_value_set_le [of "map fst ts"] length_value_set_le [of "map (fst \<circ> snd) ts"]
    length_value_set_le [of "map (snd \<circ> snd) ts"] length_remdups_adj_le [of "sort (map (localise us up uo) ts)"]
  by (auto simp: numbers_def tables_def local_rows_def)

lemma index_sizes_le:
  assumes "numbered T us up uo"
  shows "sum_list (map length (pred_lists T up)) \<le> length T" "sum_list (map length (obj_lists T uo)) \<le> length T"
proof -
  have n: "length up \<le> 2 ^ 57" "length uo \<le> 2 ^ 57" using assms by (auto simp: numbered_def rows_fit_def)
  have "sum_list (map length (pred_lists T up)) \<le> length [0..<length (pair_list T)]"
    using sum_filter_le [OF distinct_of_nats [OF n(1)], of "\<lambda>i. sp_list T ! i" "[0..<length (pair_list T)]"]
    by (simp add: pred_lists_def pred_positions_def comp_def)
  then show "sum_list (map length (pred_lists T up)) \<le> length T" using pair_list_le [of T] by simp
  have "sum_list (map length (obj_lists T uo)) \<le> length [0..<length T]"
    using sum_filter_le [OF distinct_of_nats [OF n(2)], of "\<lambda>i. obj_of (T ! i)" "[0..<length T]"]
    by (simp add: obj_lists_def obj_positions_def comp_def)
  then show "sum_list (map length (obj_lists T uo)) \<le> length T" by simp
qed

lemma block_size:
  assumes N: "numbers ts us up uo" and c: "sections_ok (local_rows ts) us up uo c"
  shows "length (block_bytes g (local_rows ts) up uo c) \<le> 216 + 136 * length ts"
proof -
  let ?T = "local_rows ts" and ?n = "length ts"
  note t = table_sizes [OF N] and n = numbered_local_rows [OF N]
  have P: "length (pair_list ?T) \<le> ?n" using pair_list_le [of ?T] t(4) by simp
  have iv: "length (iv_to_bytes v) \<le> 12 + 8 * ?n" if "holds v xs" "length xs \<le> ?n" for v xs
    using iv_size [OF that(1)] that(2) by simp
  have "length (iv_to_bytes (s_s c)) \<le> 12 + 8 * ?n" "length (iv_to_bytes (s_p c)) \<le> 12 + 8 * ?n"
    "length (iv_to_bytes (s_o c)) \<le> 12 + 8 * ?n" "length (iv_to_bytes (s_sp c)) \<le> 12 + 8 * ?n"
    "length (iv_to_bytes (s_so c)) \<le> 12 + 8 * ?n"
    using c t P by (auto simp: sections_ok_def intro: iv)
  moreover have "length (iv_to_bytes (s_po c)) \<le> 12 + 8 * ?n" "length (iv_to_bytes (s_pc c)) \<le> 12 + 8 * ?n"
    "length (iv_to_bytes (s_pt c)) \<le> 12 + 8 * ?n" "length (iv_to_bytes (s_oo c)) \<le> 12 + 8 * ?n"
    "length (iv_to_bytes (s_oc c)) \<le> 12 + 8 * ?n"
    using c t by (auto simp: sections_ok_def intro: iv)
  moreover have "length (rs_to_bytes (s_bp c)) \<le> 32 + 18 * ?n" "length (rs_to_bytes (s_bo c)) \<le> 32 + 18 * ?n"
    using c t(4) P rs_size [of "s_bp c"] rs_size [of "s_bo c"] by (auto simp: sections_ok_def mark_bits_def)
  moreover have "length (concat (map delta_bytes (pred_lists ?T up))) \<le> 10 * ?n"
    "length (concat (map delta_bytes (obj_lists ?T uo))) \<le> 10 * ?n"
    using length_concat_delta [of "pred_lists ?T up"] length_concat_delta [of "obj_lists ?T uo"]
      index_sizes_le [OF n] t(4) by linarith+
  ultimately show ?thesis unfolding block_bytes_def Let_def length_append length_le_bytes by linarith
qed

lemma block_for_size: "block_for P b \<Longrightarrow> length b \<le> 216 + 136 * length (snd P)"
  using block_size by (auto simp: block_for_def)

lemma buffer_size:
  assumes "list_all2 block_for Ps blocks"
  shows "length (buffer_for Ps blocks) \<le> 9 + 224 * length Ps + 136 * sum_list (map (length \<circ> snd) Ps)"
proof -
  have "length (concat (map framed blocks)) \<le> 224 * length Ps + 136 * sum_list (map (length \<circ> snd) Ps)"
    using assms
  proof (induction rule: list_all2_induct)
    case (Cons P Ps b blocks)
    have "length (framed b) = 8 + length b" by (simp add: framed_def)
    then show ?case using block_for_size [OF Cons(1)] Cons.IH by simp
  qed simp
  then show ?thesis by (simp add: buffer_for_def)
qed

lemma sum_upto_graphs:
  "distinct gs \<Longrightarrow> sum_list (map (\<lambda>g. length (graph_rows Q (Some g))) gs) + length (graph_rows Q None) \<le> length Q"
proof (induction Q)
  case (Cons q Q)
  have "sum_list (map (\<lambda>g. length (graph_rows (q # Q) (Some g))) gs) =
      sum_list (map (\<lambda>g. length (graph_rows Q (Some g))) gs) + sum_list (map (\<lambda>g. if snd q = Some g then 1 else 0) gs)"
    by (simp add: graph_rows_def flip: sum_list_addf) (intro arg_cong [of _ _ sum_list] map_cong, auto)
  moreover have "sum_list (map (\<lambda>g. if snd q = Some g then 1 else 0) gs) \<le> (if snd q = None then 0 else 1 :: nat)"
    using Cons.prems by (induction gs) auto
  moreover have "length (graph_rows (q # Q) None) = length (graph_rows Q None) + (if snd q = None then 1 else 0)"
    by (simp add: graph_rows_def)
  ultimately show ?case using Cons.IH [OF Cons.prems] by (cases "snd q") simp_all
qed (simp add: graph_rows_def)

lemma stored_graphs_facts:
  shows "sorted_wrt (<) (stored_graphs view dict)" "distinct (stored_graphs view dict)"
    "length (stored_graphs view dict) \<le> length (dv_quads view) + length (dv_named_graphs view)"
proof -
  show s: "sorted_wrt (<) (stored_graphs view dict)" by (simp add: stored_graphs_def Let_def value_set_strict)
  show "distinct (stored_graphs view dict)" using s strict_sorted_iff [of "stored_graphs view dict"] by simp
  let ?f = "uid view dict"
  let ?d = "filter (\<lambda>g. g \<notin> ?f ` set (quad_graphs (dv_reifier_quads view) @ quad_graphs (dv_annotation_quads view))) (map ?f (dv_named_graphs view))"
  have "length (List.map_filter snd Q) \<le> length Q" for Q :: "uquad list"
    by (simp add: map_filter_def le_trans [OF length_filter_le])
  then have "length (List.map_filter snd (unified_quads view dict)) \<le> length (dv_quads view)"
    by (metis unified_quads_def length_map)
  moreover have "length ?d \<le> length (dv_named_graphs view)" by (rule order_trans [OF length_filter_le]) simp
  moreover have "length (stored_graphs view dict) \<le> length (List.map_filter snd (unified_quads view dict) @ ?d)"
    unfolding stored_graphs_def Let_def set_map using length_value_set_le by blast
  ultimately show "length (stored_graphs view dict) \<le> length (dv_quads view) + length (dv_named_graphs view)"
    unfolding length_append by linarith
qed

lemma stored_graphs_positive:
  assumes R: "readable view dict"
  shows "0 \<notin> set (stored_graphs view dict)"
proof
  assume "0 \<in> set (stored_graphs view dict)"
  then obtain x where x: "x \<in> view_ids view" "uid view dict x = 0"
  proof (cases "0 \<in> set (List.map_filter snd (unified_quads view dict))")
    case True
    then obtain q where "q \<in> set (dv_quads view)" "snd (uquad (uid view dict) q) = Some 0"
      unfolding set_map_filter_snd unified_quads_def by force
    moreover obtain s p ob g where q: "q = (s, p, ob, g)" by (cases q)
    ultimately obtain x where "g = Some x" "uid view dict x = 0" by auto
    with q \<open>q \<in> set (dv_quads view)\<close> show ?thesis using that [of x] by (force simp: view_ids_def)
  next
    case False
    with \<open>0 \<in> set (stored_graphs view dict)\<close> have "\<exists>y\<in>set (dv_named_graphs view). uid view dict y = 0"
      by (auto simp: stored_graphs_def Let_def image_iff)
    then obtain y where "y \<in> set (dv_named_graphs view)" "uid view dict y = 0" by blast
    then show ?thesis using that [of y] by (simp add: view_ids_def)
  qed
  then obtain u where "unified view dict x = Some u" "u = 0" using R by (auto simp: readable_def uid_def)
  then show False using id_by_value_sound(1) [of dict _ u] by (auto simp: unified_def split: sum.splits)
qed

section \<open>Opening an encoded view\<close>

text \<open>The bounds of the results below: a view of fewer than \<open>2 ^ 48\<close> quads and graph names,
  whose buffer then has fewer than \<open>2 ^ 64\<close> bytes.\<close>

definition view_fits :: "nat \<Rightarrow> ('id, 'v, 'e) dataset_view \<Rightarrow> bool" where
  "view_fits psize view \<longleftrightarrow> length (dv_quads view) < 2 ^ 48 \<and> length (dv_named_graphs view) < 2 ^ 48 \<and> psize \<le> 2 ^ 13"

lemma view_opens:
  assumes R: "readable view dict" and F: "view_fits psize view"
  obtains bs tr where "try_encode dict view = Some (Inr bs)" "triples_from_bytes psize bs = Some (Inr tr)"
    "opened (view_parts view dict) tr" "length bs < 2 ^ 61"
proof -
  let ?P = "view_parts view dict" and ?gs = "stored_graphs view dict" and ?Q = "unified_quads view dict"
  have n: "length (dv_quads view) < 2 ^ 48" "length ?gs < 2 ^ 49"
    using F stored_graphs_facts(3) [of view dict] by (simp_all add: view_fits_def)
  obtain blocks where b: "try_encode dict view = Some (Inr (buffer_for ?P blocks))" "list_all2 block_for ?P blocks"
    by (rule try_encode_ok [OF R]) (use n in simp)
  have len: "length ?P = Suc (length ?gs)" by (simp add: view_parts_def Let_def)
  have "sum_list (map (length \<circ> snd) ?P) \<le> length ?Q"
    using sum_upto_graphs [OF stored_graphs_facts(2), of ?Q view dict] by (simp add: view_parts_def Let_def comp_def)
  then have short: "length (buffer_for ?P blocks) < 2 ^ 61"
    using buffer_size [OF b(2)] n by (simp add: len unified_quads_def)
  then have small: "length (buffer_for ?P blocks) < 2 ^ 64" by simp
  have cap: "vec_capacity_ok psize (length ?P)"
  proof -
    have "length ?P * psize \<le> 2 ^ 49 * 2 ^ 13" by (rule mult_le_mono) (use F n len in \<open>simp_all add: view_fits_def\<close>)
    then show ?thesis by (simp add: vec_capacity_ok_def)
  qed
  have P: "?P = (None, graph_rows ?Q None) # map (\<lambda>g. (Some g, graph_rows ?Q (Some g))) ?gs"
    by (simp add: view_parts_def Let_def)
  obtain tr where "triples_from_bytes psize (buffer_for ?P blocks) = Some (Inr tr)" "opened ?P tr"
    by (rule open_buffer [OF P stored_graphs_facts(1) stored_graphs_positive [OF R] b(2) small cap])
  then show ?thesis using that b(1) short by blast
qed

section \<open>The answers as sets of quads\<close>

definition graph_sel :: "graph_match \<Rightarrow> u64 option \<Rightarrow> bool" where
  "graph_sel g h = (case g of AnyGraph \<Rightarrow> True | DefaultGraph \<Rightarrow> h = None | NamedGraph x \<Rightarrow> h = Some x)"

lemma selected_view_parts: "selected g (view_parts view dict) = filter (\<lambda>P. graph_sel g (fst P)) (view_parts view dict)"
  by (cases g) (simp_all add: selected_def graph_sel_def view_parts_def Let_def filter_empty_conv)

lemma set_part_answer: "set (part_answer s p ob P) = {(a, b, c, h). (a, b, c) \<in> set (snd P) \<and> row_matches s p ob (a, b, c) \<and> h = fst P}"
  by (force simp: part_answer_def)

lemma distinct_part_answer: "distinct (part_answer s p ob P)"
proof -
  have "distinct (remdups_adj (sort (snd P)))"
    using strict_remdups_adj [of "sort (snd P)"] strict_sorted_iff [of "remdups_adj (sort (snd P))"] by simp
  then show ?thesis by (auto simp: part_answer_def distinct_map inj_on_def prod_eq_iff)
qed

lemma distinct_answers: "distinct (map fst Ps) \<Longrightarrow> distinct (concat (map (part_answer s p ob) Ps))"
proof (induction Ps)
  case (Cons P Ps)
  have "set (part_answer s p ob P) \<inter> set (concat (map (part_answer s p ob) Ps)) = {}"
    using Cons.prems by (auto simp: set_part_answer image_iff)
  then show ?case using Cons distinct_part_answer by auto
qed simp

lemma distinct_view_parts: "distinct (map fst (view_parts view dict))"
  using stored_graphs_facts(2) by (auto simp: view_parts_def Let_def comp_def distinct_map inj_on_def)

lemma view_parts_rows:
  "(h, ts) \<in> set (view_parts view dict) \<Longrightarrow> ts = graph_rows (unified_quads view dict) h"
  "q \<in> set (unified_quads view dict) \<Longrightarrow> (snd q, graph_rows (unified_quads view dict) (snd q)) \<in> set (view_parts view dict)"
proof -
  show "(h, ts) \<in> set (view_parts view dict) \<Longrightarrow> ts = graph_rows (unified_quads view dict) h"
    by (auto simp: view_parts_def Let_def)
  assume q: "q \<in> set (unified_quads view dict)"
  have "x \<in> set (stored_graphs view dict)" if "snd q = Some x" for x
    using q that by (force simp: stored_graphs_def Let_def set_map_filter_snd)
  then show "(snd q, graph_rows (unified_quads view dict) (snd q)) \<in> set (view_parts view dict)"
    by (cases "snd q") (auto simp: view_parts_def Let_def)
qed

lemma set_answers:
  "set (concat (map (part_answer s p ob) (selected g (view_parts view dict)))) =
    {(a, b, c, h). ((a, b, c), h) \<in> set (unified_quads view dict) \<and> row_matches s p ob (a, b, c) \<and> graph_sel g h}"
proof (intro set_eqI iffI)
  fix x assume "x \<in> set (concat (map (part_answer s p ob) (selected g (view_parts view dict))))"
  then obtain h ts where P: "(h, ts) \<in> set (view_parts view dict)" "graph_sel g h" "x \<in> set (part_answer s p ob (h, ts))"
    by (auto simp: selected_view_parts)
  show "x \<in> {(a, b, c, h). ((a, b, c), h) \<in> set (unified_quads view dict) \<and> row_matches s p ob (a, b, c) \<and> graph_sel g h}"
    using P(2,3) view_parts_rows(1) [OF P(1)] by (auto simp: set_part_answer graph_rows_def)
next
  fix x assume "x \<in> {(a, b, c, h). ((a, b, c), h) \<in> set (unified_quads view dict) \<and> row_matches s p ob (a, b, c) \<and> graph_sel g h}"
  then obtain a b c h where q: "x = (a, b, c, h)" "((a, b, c), h) \<in> set (unified_quads view dict)"
    "row_matches s p ob (a, b, c)" "graph_sel g h" by auto
  have "x \<in> set (part_answer s p ob (h, graph_rows (unified_quads view dict) h))"
    using q by (force simp: set_part_answer graph_rows_def)
  then show "x \<in> set (concat (map (part_answer s p ob) (selected g (view_parts view dict))))"
    using view_parts_rows(2) [OF q(2)] q(4) by (auto simp: selected_view_parts)
qed

section \<open>Size bounds of the opened structure\<close>

lemma part_bound:
  assumes "part_for P part"
  obtains n where "partition_upper_bound part s p ob = Some n" "length (part_answer s p ob P) \<le> n" "n \<le> length (snd P)"
    "exact_shape s p ob \<Longrightarrow> n = length (part_answer s p ob P)"
proof -
  obtain us up uo where N: "numbers (snd P) us up uo" and V: "part_view part (fst P) (local_rows (snd P)) us up uo"
    using assms by (auto simp: part_for_def)
  have l: "length (selected_rows us up uo (local_rows (snd P)) s p ob) = length (part_answer s p ob P)"
    using arg_cong [OF selected_rows_unified [of us up uo "local_rows (snd P)" s p ob], of length]
    by (simp add: unify_local_rows [OF N] part_answer_def)
  show ?thesis
    by (rule partition_bound_eq [OF V, of s p ob]) (use that l table_sizes(4) [OF N] in \<open>force dest: order_trans\<close>)
qed

lemma foldl_usize_add: "a + sum_list ns < 2 ^ 64 \<Longrightarrow> foldl usize_wrapping_add a ns = a + sum_list ns"
  by (induction ns arbitrary: a) (simp_all add: usize_wrapping_add_def)

lemma bounds_ok:
  assumes "list_all2 part_for Ps parts"
  shows "\<exists>ns. those (map (\<lambda>part. partition_upper_bound part s p ob) parts) = Some ns \<and>
    length (concat (map (part_answer s p ob) Ps)) \<le> sum_list ns \<and> sum_list ns \<le> sum_list (map (length \<circ> snd) Ps) \<and>
    (exact_shape s p ob \<longrightarrow> sum_list ns = length (concat (map (part_answer s p ob) Ps)))"
  using assms
proof (induction rule: list_all2_induct)
  case (Cons P Ps part parts)
  obtain ns where ns: "those (map (\<lambda>part. partition_upper_bound part s p ob) parts) = Some ns"
    "length (concat (map (part_answer s p ob) Ps)) \<le> sum_list ns" "sum_list ns \<le> sum_list (map (length \<circ> snd) Ps)"
    "exact_shape s p ob \<longrightarrow> sum_list ns = length (concat (map (part_answer s p ob) Ps))" using Cons.IH by blast
  obtain n where "partition_upper_bound part s p ob = Some n" "length (part_answer s p ob P) \<le> n" "n \<le> length (snd P)"
    "exact_shape s p ob \<Longrightarrow> n = length (part_answer s p ob P)" by (rule part_bound [OF Cons.hyps(1)]) blast
  then show ?case using ns by (intro exI [of _ "n # ns"]) (simp add: add_mono comp_def)
qed simp

lemma sum_selected: "sum_list (map (length \<circ> snd) (selected g (view_parts view dict))) \<le> length (dv_quads view)"
proof -
  have le: "sum_list (map (length \<circ> snd) (filter R xs)) \<le> sum_list (map (length \<circ> snd) xs)" for R and xs :: "graph_part list"
    by (induction xs) auto
  have "sum_list (map (length \<circ> snd) (view_parts view dict)) \<le> length (unified_quads view dict)"
    using sum_upto_graphs [OF stored_graphs_facts(2), of "unified_quads view dict" view dict]
    by (simp add: view_parts_def Let_def comp_def)
  then show ?thesis using le [of "\<lambda>P. graph_sel g (fst P)" "view_parts view dict"]
    by (simp add: selected_view_parts unified_quads_def)
qed

lemma opened_bound:
  assumes O: "opened (view_parts view dict) tr" and F: "view_fits psize view"
  shows "\<exists>n. cardinality_upper_bound tr s p ob g = Some n \<and>
    length (concat (map (part_answer s p ob) (selected g (view_parts view dict)))) \<le> n \<and> n \<le> length (dv_quads view) \<and>
    (exact_shape s p ob \<longrightarrow> n = length (concat (map (part_answer s p ob) (selected g (view_parts view dict)))))"
proof -
  obtain parts where S: "selected_partitions tr g = Some parts" "list_all2 part_for (selected g (view_parts view dict)) parts"
    by (rule selected_partitions_ok [OF O])
  obtain ns where ns: "those (map (\<lambda>part. partition_upper_bound part s p ob) parts) = Some ns"
    "length (concat (map (part_answer s p ob) (selected g (view_parts view dict)))) \<le> sum_list ns"
    "sum_list ns \<le> sum_list (map (length \<circ> snd) (selected g (view_parts view dict)))"
    "exact_shape s p ob \<longrightarrow> sum_list ns = length (concat (map (part_answer s p ob) (selected g (view_parts view dict))))"
    using bounds_ok [OF S(2)] by blast
  have "sum_list ns \<le> length (dv_quads view)" using ns(3) sum_selected [of g view dict] by linarith
  moreover from this F have "foldl usize_wrapping_add 0 ns = sum_list ns"
    by (subst foldl_usize_add) (simp_all add: view_fits_def)
  ultimately show ?thesis using S(1) ns by (simp add: cardinality_upper_bound_def)
qed

lemma opened_graph_ids:
  assumes "opened (view_parts view dict) tr"
  shows "named_graph_ids tr = stored_graphs view dict"
proof -
  obtain ts gs h where g: "view_parts view dict = (None, ts) # map (\<lambda>g. (Some g, h g)) gs"
    "tr_graph_index tr = zip gs [1..<Suc (length gs)]" using assms by (auto simp: opened_def)
  have "map (the \<circ> fst) (drop 1 (view_parts view dict)) = gs" by (simp add: g(1) comp_def)
  moreover have "map (the \<circ> fst) (drop 1 (view_parts view dict)) = stored_graphs view dict"
    by (simp add: view_parts_def Let_def comp_def)
  ultimately show ?thesis using g(2) by (simp add: named_graph_ids_def del: upt_Suc)
qed

section \<open>Properties\<close>

text \<open>C13: Encoding one partition never panics, the block parses and validates with nothing left
  over, and all eight pattern shapes on the parsed partition return exactly the distinct matching
  input triples, ascending, without a panic.\<close>

theorem partition_reads_back:
  assumes "length ts < 2 ^ 56" "g \<noteq> Some 0"
  shows "\<exists>b part. encode_partition g ts = Some b \<and> partition_from_bytes b = Some (Inr (part, length b)) \<and>
    (\<forall>s p ob. partition_quads part s p ob = Some (map (\<lambda>(x, y, z). (x, y, z, g))
       (filter (row_matches s p ob) (remdups_adj (sort ts)))))"
proof -
  obtain b where b: "encode_partition g ts = Some b" "block_for (g, ts) b"
    by (rule encode_block [OF less_trans [OF assms(1)]]) simp_all
  have "length b < 2 ^ 64" using block_for_size [OF b(2)] assms(1) by simp
  then obtain part where p: "partition_from_bytes b = Some (Inr (part, length b))" "part_for (g, ts) part"
    using block_opens [OF b(2)] assms(2) by auto
  then show ?thesis using b(1) partition_quads_eq [OF p(2)]
    by (auto simp: part_answer_def case_prod_unfold)
qed

lemma partition_reads_back_witness:
  "\<exists>b part. encode_partition (Some 5) [(7, 2, 9), (7, 2, 3)] = Some b \<and>
    partition_from_bytes b = Some (Inr (part, length b)) \<and>
    partition_quads part (Some 7) None None = Some [(7, 2, 3, Some 5), (7, 2, 9, Some 5)] \<and>
    partition_quads part None None (Some 9) = Some [(7, 2, 9, Some 5)]"
proof -
  have "\<exists>b part. encode_partition (Some 5) [(7, 2, 9), (7, 2, 3)] = Some b \<and> partition_from_bytes b = Some (Inr (part, length b)) \<and>
    (\<forall>s p ob. partition_quads part s p ob = Some (map (\<lambda>(x, y, z). (x, y, z, Some 5))
       (filter (row_matches s p ob) (remdups_adj (sort [(7, 2, 9), (7, 2, 3)])))))"
    by (rule partition_reads_back) simp_all
  then show ?thesis by (auto simp: row_matches_def)
qed

text \<open>C14: A readable view encodes without error or panic, its buffer opens, and every pattern
  query on the opened structure returns, without a panic, the matching distinct rows of each
  selected graph in the documented order: the default graph first, then the named graphs
  ascending; the named graph ids are those of the graphs that own a quad or are only declared.\<close>

theorem view_reads_back:
  assumes "readable view dict" "view_fits psize view"
  shows "\<exists>bs tr. try_encode dict view = Some (Inr bs) \<and> triples_from_bytes psize bs = Some (Inr tr) \<and>
    (\<forall>s p ob g. pattern tr s p ob g = Some (concat (map (part_answer s p ob) (selected g (view_parts view dict))))) \<and>
    named_graph_ids tr = stored_graphs view dict"
proof -
  obtain bs tr where o: "try_encode dict view = Some (Inr bs)" "triples_from_bytes psize bs = Some (Inr tr)"
    "opened (view_parts view dict) tr" by (rule view_opens [OF assms])
  then show ?thesis using pattern_eq [OF o(3)] opened_graph_ids [OF o(3)] by blast
qed

text \<open>A small dataset: three terms 1 to 3, one quad in the default graph, one in graph 3.\<close>

definition tiny_dict :: "nat pack_dict" where
  "tiny_dict = \<lparr>pd_n_terms = 3, pd_term_value = unat\<rparr>"

definition tiny_view :: "(nat, nat, unit) dataset_view" where
  "tiny_view = \<lparr>dv_error_before = None, dv_error_after = None, dv_term_value = (\<lambda>x. Inr x),
     dv_quads = [(1, 2, 3, Some 3), (1, 2, 1, None)], dv_named_graphs = [3], dv_reifier_quads = [], dv_annotation_quads = []\<rparr>"

lemma tiny_ids: "id_by_value tiny_dict 1 = Some 1" "id_by_value tiny_dict 2 = Some 2" "id_by_value tiny_dict 3 = Some 3"
proof -
  have d: "dict_sorted tiny_dict" by (simp add: dict_sorted_def tiny_dict_def word_less_nat_alt)
  have n: "pd_n_terms tiny_dict = 3" "pd_term_value tiny_dict = unat" by (simp_all add: tiny_dict_def)
  show "id_by_value tiny_dict 1 = Some 1" "id_by_value tiny_dict 2 = Some 2" "id_by_value tiny_dict 3 = Some 3"
    using id_by_value_complete [OF d, of 1] id_by_value_complete [OF d, of 2] id_by_value_complete [OF d, of 3]
    by (simp_all add: n)
qed

lemma tiny_readable: "readable tiny_view tiny_dict" "view_fits 400 tiny_view"
  using tiny_ids by (auto simp: readable_def tiny_view_def view_ids_def unified_def quad_graphs_def view_fits_def map_filter_def)

lemma tiny_quads: "unified_quads tiny_view tiny_dict = [((1, 2, 3), Some 3), ((1, 2, 1), None)]"
  using tiny_ids by (simp add: unified_quads_def tiny_view_def uid_def unified_def)

lemma tiny_graphs: "stored_graphs tiny_view tiny_dict = [3]"
  using tiny_ids tiny_quads
  by (simp add: stored_graphs_def map_filter_def value_set_def)
    (simp add: tiny_view_def uid_def unified_def quad_graphs_def map_filter_def)

lemma view_reads_back_witness:
  "\<exists>bs tr. try_encode tiny_dict tiny_view = Some (Inr bs) \<and> triples_from_bytes 400 bs = Some (Inr tr) \<and>
    pattern tr (Some 1) None None AnyGraph = Some [(1, 2, 1, None), (1, 2, 3, Some 3)] \<and>
    named_graph_ids tr = [3]"
  using view_reads_back [OF tiny_readable]
  by (auto simp: selected_def view_parts_def Let_def tiny_quads tiny_graphs graph_rows_def part_answer_def row_matches_def)

text \<open>C15: On the opened structure a pattern query yields each matching quad of the view exactly
  once: the answer is a list without duplicates whose elements are the view's quads that agree
  with every bound component and lie in the selected graphs.\<close>

theorem pattern_answers_exactly:
  assumes "readable view dict" "view_fits psize view"
    "try_encode dict view = Some (Inr bs)" "triples_from_bytes psize bs = Some (Inr tr)"
  shows "\<exists>ans. pattern tr s p ob g = Some ans \<and> distinct ans \<and>
    set ans = {(a, b, c, h). ((a, b, c), h) \<in> set (unified_quads view dict) \<and> row_matches s p ob (a, b, c) \<and> graph_sel g h}"
proof -
  obtain bs' tr' where "try_encode dict view = Some (Inr bs')" "triples_from_bytes psize bs' = Some (Inr tr')"
    "opened (view_parts view dict) tr'" by (rule view_opens [OF assms(1,2)])
  then have o: "opened (view_parts view dict) tr" using assms(3,4) by simp
  have "distinct (map fst (selected g (view_parts view dict)))"
    unfolding selected_view_parts using distinct_view_parts by (rule distinct_map_filter)
  from distinct_answers [OF this] show ?thesis
    by (intro exI conjI) (rule pattern_eq [OF o], assumption, rule set_answers)
qed

lemma pattern_answers_exactly_witness:
  "\<exists>tr bs ans. try_encode tiny_dict tiny_view = Some (Inr bs) \<and> triples_from_bytes 400 bs = Some (Inr tr) \<and>
    pattern tr None (Some 2) None (NamedGraph 3) = Some ans \<and> set ans = {(1, 2, 3, Some 3)}"
proof -
  obtain bs tr where o: "try_encode tiny_dict tiny_view = Some (Inr bs)" "triples_from_bytes 400 bs = Some (Inr tr)"
    by (rule view_opens [OF tiny_readable])
  have "{(a, b, c, h). ((a, b, c), h) \<in> set (unified_quads tiny_view tiny_dict) \<and> row_matches None (Some 2) None (a, b, c) \<and>
      graph_sel (NamedGraph 3) h} = {(1, 2, 3, Some 3)}"
    by (auto simp: tiny_quads row_matches_def graph_sel_def)
  then show ?thesis using o pattern_answers_exactly [OF tiny_readable o, of None "Some 2" None "NamedGraph 3"] by auto
qed

text \<open>C16: The cardinality bound of an opened structure never panics and never undershoots the row
  count of the query with the same arguments, and it is that count for the shapes that leave the
  object free or bind nothing but the object.\<close>

theorem cardinality_bounds_pattern:
  assumes "readable view dict" "view_fits psize view"
    "try_encode dict view = Some (Inr bs)" "triples_from_bytes psize bs = Some (Inr tr)"
  shows "\<exists>n ans. cardinality_upper_bound tr s p ob g = Some n \<and> pattern tr s p ob g = Some ans \<and>
    length ans \<le> n \<and> n \<le> length (dv_quads view) \<and> (ob = None \<or> s = None \<and> p = None \<longrightarrow> n = length ans)"
proof -
  obtain bs' tr' where "try_encode dict view = Some (Inr bs')" "triples_from_bytes psize bs' = Some (Inr tr')"
    "opened (view_parts view dict) tr'" by (rule view_opens [OF assms(1,2)])
  then have o: "opened (view_parts view dict) tr" using assms(3,4) by simp
  show ?thesis using opened_bound [OF o assms(2), of s p ob g] pattern_eq [OF o, of s p ob g]
    by (auto simp: exact_shape_def)
qed

lemma cardinality_bounds_pattern_witness:
  "\<exists>tr bs ans. try_encode tiny_dict tiny_view = Some (Inr bs) \<and> triples_from_bytes 400 bs = Some (Inr tr) \<and>
    pattern tr (Some 1) None None AnyGraph = Some ans \<and> cardinality_upper_bound tr (Some 1) None None AnyGraph = Some (length ans)"
proof -
  obtain bs tr where o: "try_encode tiny_dict tiny_view = Some (Inr bs)" "triples_from_bytes 400 bs = Some (Inr tr)"
    by (rule view_opens [OF tiny_readable])
  show ?thesis using o cardinality_bounds_pattern [OF tiny_readable o, of "Some 1" None None AnyGraph] by auto
qed

text \<open>The dictionary search over ids 1 to n returns exactly the id of the value: every id it
  returns is in range and names that value, and on a dictionary in ascending value order it finds
  every stored value.\<close>

theorem id_by_value_exact:
  assumes "dict_sorted dict"
  shows "id_by_value dict v = Some u \<longleftrightarrow> 1 \<le> u \<and> u \<le> pd_n_terms dict \<and> pd_term_value dict u = v"
  using id_by_value_complete [OF assms, of u] id_by_value_sound [of dict v u] by blast

lemma id_by_value_exact_witness:
  "id_by_value \<lparr>pd_n_terms = 2, pd_term_value = (\<lambda>u. 10 * unat u)\<rparr> (20 :: nat) = Some 2"
  by (subst id_by_value_exact) (simp_all add: dict_sorted_def word_less_nat_alt)

text \<open>A nine-byte buffer (format version 1 and a partition count of \<open>2 ^ 64 - 1\<close>) makes
  opening panic in the vector allocation, whatever the size of a partition reader, although
  it should be refused as truncated.\<close>

theorem open_panics_on_count:
  "triples_from_bytes (Suc k) [1, 255, 255, 255, 255, 255, 255, 255, 255] = None"
proof -
  have r: "read_header_u64 [1, 255, 255, 255, 255, 255, 255, 255, 255] 1 = Inr (0xFFFFFFFFFFFFFFFF, 9)" by code_simp
  show ?thesis using r by (simp add: triples_from_bytes_def TRIPLES_FORMAT_VERSION_def vec_capacity_ok_def)
qed

end
