(* ===== verification/DictClosure.thy ===== *)
theory DictClosure
  imports DictLookup TripleIndex
begin

text \<open>
  Building the dictionary of a dataset view (\<open>PackDict::try_encode\<close> in
  \<open>crates/rdf-core/src/ir/pack/dict.rs\<close>): the scan of every term the view references, the closure over
  datatypes and components by a work list, and the numbering in term order. The iteration order of
  the hash set of base ids is the parameter \<open>iter\<close>; \<open>sort\<close> and \<open>dedup\<close> remove it from the result.
\<close>

section \<open>The code\<close>

fun term_values :: "('id, 'v, 'e) dataset_view \<Rightarrow> 'id list \<Rightarrow> 'e term_lookup_error + 'v list" where
  "term_values view [] = Inr []"
| "term_values view (x # xs) =
     bind_err (dv_term_value view x) (\<lambda>v. bind_err (term_values view xs) (\<lambda>vs. Inr (v # vs)))"

definition base_ids :: "'id quad_ids list \<Rightarrow> 'id set" where
  "base_ids quads = fold (\<lambda>(s, p, ob, g) ids.
     (case g of None \<Rightarrow> insert ob (insert p (insert s ids)) | Some g \<Rightarrow> insert g (insert ob (insert p (insert s ids))))) quads {}"

fun reifier_ids :: "'id quad_ids list \<Rightarrow> 'id list" where
  "reifier_ids [] = []"
| "reifier_ids ((s, p, ob, g) # quads) = [s, ob] @ (case g of None \<Rightarrow> [] | Some g \<Rightarrow> [g]) @ reifier_ids quads"

fun annotation_ids :: "'id quad_ids list \<Rightarrow> 'id list" where
  "annotation_ids [] = []"
| "annotation_ids ((s, p, ob, g) # quads) = [s, p, ob] @ (case g of None \<Rightarrow> [] | Some g \<Rightarrow> [g]) @ annotation_ids quads"

definition root_values :: "('id set \<Rightarrow> 'id list) \<Rightarrow> ('id, term_value, 'e) dataset_view \<Rightarrow> 'e term_lookup_error + term_value list" where
  "root_values iter view = (let base = base_ids (dv_quads view) in
     bind_err (term_values view (iter base)) (\<lambda>base_values.
     bind_err (term_values view (reifier_ids (dv_reifier_quads view))) (\<lambda>reifiers.
     bind_err (term_values view (annotation_ids (dv_annotation_quads view))) (\<lambda>annotations.
     let reifies = (if dv_reifier_quads view \<noteq> [] then [Iri RDF_REIFIES] else []) in
     bind_err (term_values view (filter (\<lambda>g. g \<notin> base) (dv_named_graphs view))) (\<lambda>declared.
     Inr (base_values @ reifiers @ annotations @ reifies @ declared))))))"

fun candidates :: "term_value set \<Rightarrow> term_value \<Rightarrow> term_value list" where
  "candidates present (Literal _ d _ _) = [Iri d]"
| "candidates present (Triple s p ob) = filter (\<lambda>c. c \<notin> present) [s, p, ob]"
| "candidates present _ = []"

fun enqueue :: "term_value list \<Rightarrow> term_value set \<times> term_value list \<Rightarrow> term_value set \<times> term_value list" where
  "enqueue [] st = st"
| "enqueue (c # cs) (present, added) = enqueue cs (if c \<in> present then (present, added) else (insert c present, added @ [c]))"

fun term_weight :: "term_value \<Rightarrow> nat" where
  "term_weight (Triple s p ob) = 1 + term_weight s + term_weight p + term_weight ob"
| "term_weight (Literal _ _ _ _) = 2"
| "term_weight _ = 1"

lemma enqueue_weight:
  "sum_list (map term_weight (snd (enqueue cs (present, added)))) \<le> sum_list (map term_weight added) + sum_list (map term_weight cs)"
proof (induction cs arbitrary: present added)
  case (Cons c cs)
  show ?case using Cons [of present added] Cons [of "insert c present" "added @ [c]"] by simp
qed simp

lemma candidates_weight: "sum_list (map term_weight (candidates present v)) < term_weight v"
  by (cases v) (auto simp: le_imp_less_Suc)

function close_loop :: "term_value set \<Rightarrow> term_value list \<Rightarrow> term_value list \<Rightarrow> term_value list" where
  "close_loop present extra [] = extra"
| "close_loop present extra (v # queue) =
     (let (present', added) = enqueue (candidates present v) (present, []) in close_loop present' (extra @ added) (queue @ added))"
  by pat_completeness auto
termination
proof (relation "measure (\<lambda>(_, _, queue). sum_list (map term_weight queue))")
  fix present extra v queue x present' added
  assume "x = enqueue (candidates present v) (present, [])" "(present', added) = x"
  then have "added = snd (enqueue (candidates present v) (present, []))" by (metis snd_conv)
  then have "sum_list (map term_weight added) < term_weight v"
    using enqueue_weight [of "candidates present v" present "[]"] candidates_weight [of present v] by simp
  then show "((present', extra @ added, queue @ added), present, extra, v # queue) \<in> measure (\<lambda>(_, _, queue). sum_list (map term_weight queue))"
    by simp
qed simp

definition dict_values :: "('id set \<Rightarrow> 'id list) \<Rightarrow> ('id, term_value, 'e) dataset_view \<Rightarrow> 'e term_lookup_error + term_value list" where
  "dict_values iter view = bind_err (root_values iter view) (\<lambda>vs.
     let vs = remdups_adj (sort vs); extra = close_loop (set vs) [] vs
     in Inr (remdups_adj (sort (vs @ extra))))"

definition dict_try_encode :: "('id set \<Rightarrow> 'id list) \<Rightarrow> ('id, term_value, 'e) dataset_view \<Rightarrow> ('e term_lookup_error + encoded_dict) option" where
  "dict_try_encode iter view =
     (case checked_read view (bind_res (Some (dict_values iter view)) (\<lambda>vs.
          map_option (\<lambda>bytes. Inr \<lparr>ed_n_terms = of_nat (length vs), ed_values_bytes = bytes\<rparr>) (encode_values vs (value_to_id vs)))) of
        None \<Rightarrow> None
      | Some (Inl e) \<Rightarrow> Some (Inl (ReadFailed e))
      | Some (Inr r) \<Rightarrow> Some r)"

definition dict_encode :: "('id set \<Rightarrow> 'id list) \<Rightarrow> ('id, term_value, 'e) dataset_view \<Rightarrow> encoded_dict option" where
  "dict_encode iter view = (case dict_try_encode iter view of Some (Inr ed) \<Rightarrow> Some ed | _ \<Rightarrow> None)"

section \<open>The terms of a view\<close>

fun subterms :: "term_value \<Rightarrow> term_value set" where
  "subterms (Literal l d g r) = {Literal l d g r, Iri d}"
| "subterms (Triple s p ob) = insert (Triple s p ob) (subterms s \<union> subterms p \<union> subterms ob)"
| "subterms v = {v}"

lemma subterms_refl [simp]: "v \<in> subterms v"
  by (cases v) auto

lemma subterms_parts: "w \<in> subterms v \<Longrightarrow> set (parts w) \<subseteq> subterms v"
  by (induction v) auto

lemma subterms_least: "v \<in> S \<Longrightarrow> (\<forall>w\<in>S. set (parts w) \<subseteq> S) \<Longrightarrow> subterms v \<subseteq> S"
proof (induction v)
  case (Triple s p ob)
  then have "set (parts (Triple s p ob)) \<subseteq> S" by blast
  then show ?case using Triple by auto
next
  case (Literal l d g r)
  then have "set (parts (Literal l d g r)) \<subseteq> S" by blast
  then show ?case using Literal by auto
qed auto

lemma finite_subterms [simp]: "finite (subterms v)"
  by (induction v) auto

lemma enqueue_sets:
  "fst (enqueue cs (present, added)) = present \<union> set cs \<and> set (snd (enqueue cs (present, added))) = set added \<union> (set cs - present)"
proof (induction cs arbitrary: present added)
  case (Cons c cs)
  then show ?case by (auto simp: insert_absorb)
qed simp

lemma candidates_parts: "present \<union> set (candidates present v) = present \<union> set (parts v)"
  by (cases v) auto

lemma close_loop_closed:
  assumes "set queue \<subseteq> present" "present = V \<union> set extra" "\<forall>v\<in>present - set queue. set (parts v) \<subseteq> present"
    and "present \<subseteq> U" "\<forall>w\<in>U. set (parts w) \<subseteq> U"
  shows "(\<forall>v\<in>V \<union> set (close_loop present extra queue). set (parts v) \<subseteq> V \<union> set (close_loop present extra queue)) \<and>
    V \<union> set (close_loop present extra queue) \<subseteq> U"
  using assms
proof (induction present extra queue rule: close_loop.induct)
  case (2 present extra v queue)
  obtain present' added where e: "enqueue (candidates present v) (present, []) = (present', added)" by fastforce
  have p: "present' = present \<union> set (parts v)" and a: "set added = set (candidates present v) - present"
    using enqueue_sets [of "candidates present v" present "[]"] candidates_parts [of present v] by (auto simp: e)
  have pa: "present' = present \<union> set added" using p a candidates_parts [of present v] by blast
  have v: "set (parts v) \<subseteq> U" using 2(2,5,6) by auto
  have "(\<forall>v\<in>V \<union> set (close_loop present' (extra @ added) (queue @ added)). set (parts v) \<subseteq> V \<union> set (close_loop present' (extra @ added) (queue @ added))) \<and>
    V \<union> set (close_loop present' (extra @ added) (queue @ added)) \<subseteq> U"
  proof (rule 2(1) [OF e [symmetric] refl])
    show "\<forall>w\<in>present' - set (queue @ added). set (parts w) \<subseteq> present'" using 2(4) p pa by auto
    show "present' \<subseteq> U" using p v 2(5) by blast
  qed (use 2(2,3,6) pa in auto)
  then show ?case by (simp add: e)
qed auto

section \<open>What the scan collects\<close>

definition referenced_ids :: "('id, 'v, 'e) dataset_view \<Rightarrow> 'id set" where
  "referenced_ids view = base_ids (dv_quads view) \<union> set (reifier_ids (dv_reifier_quads view)) \<union>
     set (annotation_ids (dv_annotation_quads view)) \<union> set (dv_named_graphs view)"

definition root_terms :: "('id, term_value, 'e) dataset_view \<Rightarrow> term_value set" where
  "root_terms view = {v. \<exists>x\<in>referenced_ids view. dv_term_value view x = Inr v} \<union>
     (if dv_reifier_quads view \<noteq> [] then {Iri RDF_REIFIES} else {})"

definition view_terms :: "('id, term_value, 'e) dataset_view \<Rightarrow> term_value set" where
  "view_terms view = (\<Union>v\<in>root_terms view. subterms v)"

lemma base_ids_fold: "fold (\<lambda>(s, p, ob, g) ids.
     (case g of None \<Rightarrow> insert ob (insert p (insert s ids)) | Some g \<Rightarrow> insert g (insert ob (insert p (insert s ids))))) quads S =
   S \<union> (\<Union>q\<in>set quads. quad_ids q)"
  by (induction quads arbitrary: S) (auto split: option.splits)

lemma base_ids_eq: "base_ids quads = (\<Union>q\<in>set quads. quad_ids q)"
  by (simp add: base_ids_def base_ids_fold)

lemma finite_quad_ids [simp]: "finite (quad_ids q)"
  by (cases q) (auto split: option.splits)

lemma finite_base_ids [simp]: "finite (base_ids quads)"
  by (simp add: base_ids_eq)

lemma quad_graphs_reifiers: "set (quad_graphs quads) \<subseteq> set (reifier_ids quads)"
  by (induction quads rule: reifier_ids.induct) (auto simp: quad_graphs_def map_filter_simps split: option.splits)

lemma quad_graphs_annotations: "set (quad_graphs quads) \<subseteq> set (annotation_ids quads)"
  by (induction quads rule: annotation_ids.induct) (auto simp: quad_graphs_def map_filter_simps split: option.splits)

lemma view_ids_referenced: "view_ids view \<subseteq> referenced_ids view"
  using quad_graphs_reifiers [of "dv_reifier_quads view"] quad_graphs_annotations [of "dv_annotation_quads view"]
  by (auto simp: view_ids_def referenced_ids_def base_ids_eq)

lemma term_values_ok:
  "\<forall>x\<in>set xs. \<exists>v. dv_term_value view x = Inr v \<Longrightarrow> \<exists>vs. term_values view xs = Inr vs \<and> set vs = {v. \<exists>x\<in>set xs. dv_term_value view x = Inr v}"
  by (induction xs) fastforce+

lemma root_values_ok:
  assumes order: "\<forall>S. finite S \<longrightarrow> set (iter S) = S" and ok: "\<forall>x\<in>referenced_ids view. \<exists>v. dv_term_value view x = Inr v"
  obtains vs where "root_values iter view = Inr vs" "set vs = root_terms view"
proof -
  let ?base = "base_ids (dv_quads view)" and ?ok = "\<lambda>xs vs. term_values view xs = Inr vs \<and> set vs = {v. \<exists>x\<in>set xs. dv_term_value view x = Inr v}"
  have base: "set (iter ?base) = ?base" using order by simp
  have sub: "\<exists>vs. ?ok xs vs" if "set xs \<subseteq> referenced_ids view" for xs using term_values_ok [of xs view] ok that by blast
  obtain a where a: "?ok (iter ?base) a" using sub [of "iter ?base"] unfolding base referenced_ids_def by blast
  obtain b where b: "?ok (reifier_ids (dv_reifier_quads view)) b" using sub [of "reifier_ids (dv_reifier_quads view)"] unfolding referenced_ids_def by blast
  obtain c where c: "?ok (annotation_ids (dv_annotation_quads view)) c" using sub [of "annotation_ids (dv_annotation_quads view)"] unfolding referenced_ids_def by blast
  have "set (filter (\<lambda>g. g \<notin> ?base) (dv_named_graphs view)) \<subseteq> referenced_ids view" by (auto simp: referenced_ids_def)
  from sub [OF this] obtain d where d: "?ok (filter (\<lambda>g. g \<notin> ?base) (dv_named_graphs view)) d" by blast
  note v = a b c d
  let ?r = "if dv_reifier_quads view \<noteq> [] then [Iri RDF_REIFIES] else []"
  have "root_values iter view = Inr (a @ b @ c @ ?r @ d)" using v by (simp add: root_values_def Let_def)
  moreover have "set (a @ b @ c @ ?r @ d) = root_terms view" using v base by (auto simp: root_terms_def referenced_ids_def)
  ultimately show ?thesis by (rule that)
qed

text \<open>The values are exactly the terms of the view, ascending.\<close>

lemma dict_values_ok:
  assumes "\<forall>S. finite S \<longrightarrow> set (iter S) = S" "\<forall>x\<in>referenced_ids view. \<exists>v. dv_term_value view x = Inr v"
  obtains vs where "dict_values iter view = Inr vs" "sorted_wrt (<) vs" "set vs = view_terms view"
proof -
  obtain rs where r: "root_values iter view = Inr rs" "set rs = root_terms view" by (rule root_values_ok [OF assms])
  define vs where "vs = remdups_adj (sort rs)"
  define out where "out = set vs \<union> set (close_loop (set vs) [] vs)"
  have s: "set vs = root_terms view" using r(2) by (simp add: vs_def)
  have "(\<forall>v\<in>out. set (parts v) \<subseteq> out) \<and> out \<subseteq> view_terms view"
    unfolding out_def
  proof (rule close_loop_closed)
    show "\<forall>w\<in>view_terms view. set (parts w) \<subseteq> view_terms view" using subterms_parts by (fastforce simp: view_terms_def)
    show "set vs \<subseteq> view_terms view" unfolding s view_terms_def by (auto intro: subterms_refl)
  qed simp_all
  moreover have "view_terms view \<subseteq> out" if "\<forall>v\<in>out. set (parts v) \<subseteq> out"
    unfolding view_terms_def using subterms_least [OF _ that] s by (auto simp: out_def)
  ultimately have "out = view_terms view" by blast
  then have "set (remdups_adj (sort (vs @ close_loop (set vs) [] vs))) = view_terms view" by (simp add: out_def)
  moreover have "dict_values iter view = Inr (remdups_adj (sort (vs @ close_loop (set vs) [] vs)))"
    by (simp only: dict_values_def r(1) bind_err_simps Let_def vs_def)
  ultimately show ?thesis using that strict_remdups_adj [of "sort (vs @ close_loop (set vs) [] vs)"] by simp
qed

lemma view_terms_parts: "v \<in> view_terms view \<Longrightarrow> set (parts v) \<subseteq> view_terms view"
  using subterms_parts by (fastforce simp: view_terms_def)

lemma sorted_texts: "sorted_wrt (<) vs \<Longrightarrow> length (concat (map texts_of vs)) = (\<Sum>v\<in>set vs. length (texts_of v))"
  by (simp add: length_concat o_def sum_list_distinct_conv_sum_set strict_sorted_iff)

definition view_encodable :: "('l, 'i) term_checks \<Rightarrow> ('id, term_value, 'e) dataset_view \<Rightarrow> bool" where
  "view_encodable checks view \<longleftrightarrow> dv_error_before view = None \<and> dv_error_after view = None \<and>
     (\<forall>x\<in>referenced_ids view. \<exists>v. dv_term_value view x = Inr v) \<and>
     (\<forall>v\<in>view_terms view. term_ok checks v \<and> nesting v \<le> MAX_TRIPLE_TERM_DEPTH) \<and>
     card (view_terms view) < 2 ^ 58 \<and> (\<Sum>v\<in>view_terms view. length (texts_of v)) < 2 ^ 32"

lemma view_dictionary:
  fixes checks :: "('l, 'i) term_checks"
  assumes order: "\<forall>S. finite S \<longrightarrow> set (iter S) = S" and ok: "view_encodable checks view"
  shows "\<exists>ed vs. dict_try_encode iter view = Some (Inr ed) \<and> ed_n_terms ed = of_nat (length vs) \<and>
    encode_values vs (value_to_id vs) = Some (ed_values_bytes ed) \<and> set vs = view_terms view \<and> encodable checks vs \<and>
    (length (ed_values_bytes ed) < 2 ^ 64 \<longrightarrow> (\<exists>dict. dict_open checks (dict_to_bytes ed) = Some (Inr dict) \<and> holds_list checks dict vs))"
proof -
  have read: "\<forall>x\<in>referenced_ids view. \<exists>v. dv_term_value view x = Inr v" using ok by (simp add: view_encodable_def)
  obtain vs where vs: "dict_values iter view = Inr vs" "sorted_wrt (<) vs" "set vs = view_terms view"
    by (rule dict_values_ok [OF order read])
  have "length vs = card (view_terms view)" using vs(2,3) distinct_card [of vs] by (simp add: strict_sorted_iff)
  moreover have "\<forall>v\<in>view_terms view. set (parts v) \<subseteq> view_terms view" using view_terms_parts by blast
  ultimately have enc: "encodable checks vs" using ok vs(2,3) sorted_texts [OF vs(2)]
    by (simp add: encodable_def view_encodable_def)
  obtain bytes where b: "encode_values vs (value_to_id vs) = Some bytes" "length bytes < 2 ^ 64 \<longrightarrow> (\<exists>dict.
      dict_open checks (dict_to_bytes \<lparr>ed_n_terms = of_nat (length vs), ed_values_bytes = bytes\<rparr>) = Some (Inr dict) \<and> holds_list checks dict vs)"
    using written_opens [OF enc] by blast
  have "dict_try_encode iter view = Some (Inr \<lparr>ed_n_terms = of_nat (length vs), ed_values_bytes = bytes\<rparr>)"
    using ok by (simp add: dict_try_encode_def vs(1) b(1) checked_read_def view_encodable_def)
  then show ?thesis using vs(3) enc b
    by (intro exI [of _ "\<lparr>ed_n_terms = of_nat (length vs), ed_values_bytes = bytes\<rparr>"] exI [of _ vs]) simp
qed

lemma holds_lookup:
  assumes "holds_list checks dict vs" "dict_valid dict" "v \<in> set vs"
  shows "\<exists>tid. id_by_value (packed_dict dict) v = Some tid \<and> term_value_at dict tid = Some v"
proof -
  obtain i where i: "i < length vs" "vs ! i = v" using assms(3) by (auto simp: in_set_conv_nth)
  have len: "length (pk_entries dict) < 2 ^ 64" using assms(2) by (simp add: dict_valid_def)
  have "id_in_range dict (of_nat i + 1)" using holds_nth_id(2) [OF assms(1) i(1)] holds_length [OF assms(1)] i(1)
    by (simp add: id_in_range_index [OF len])
  then show ?thesis using packed_lookup [OF assms(2), of v "of_nat i + 1"] holds_term_value [OF assms(1) i(1)] i(2) by auto
qed

lemma holds_found:
  assumes "holds_list checks dict vs" "dict_valid dict" "id_by_value (packed_dict dict) v = Some tid"
  shows "v \<in> set vs"
proof -
  have t: "id_in_range dict tid" "term_value_at dict tid = Some v" using packed_lookup [OF assms(2)] assms(3) by simp_all
  note i = valid_term_value(2) [OF assms(2) t(1)]
  have "of_nat (entry_index tid) + 1 = tid" by (simp add: entry_index_def)
  then show ?thesis using holds_term_value [OF assms(1), of "entry_index tid"] i holds_length [OF assms(1)] t(2) by simp
qed

text \<open>Over the opened dictionary every id of the view translates to the id of its term.\<close>

lemma view_ids_resolve:
  assumes "view_encodable checks' view" "holds_list checks dict vs" "dict_valid dict" "set vs = view_terms view" "x \<in> referenced_ids view"
  shows "\<exists>v tid. dv_term_value view x = Inr v \<and> unified view (packed_dict dict) x = Some tid \<and> term_value_at dict tid = Some v"
proof -
  obtain v where v: "dv_term_value view x = Inr v" using assms(1,5) by (auto simp: view_encodable_def)
  then have "v \<in> set vs" using assms(5) unfolding assms(4) view_terms_def root_terms_def by (auto intro!: bexI [of _ v])
  then show ?thesis using holds_lookup [OF assms(2,3)] v by (simp add: unified_def)
qed

section \<open>A small view\<close>

text \<open>A quad whose object is a literal, and a reifier of the same triple.\<close>

definition small_view :: "(nat, term_value, unit) dataset_view" where
  "small_view = \<lparr>dv_error_before = None, dv_error_after = None, dv_term_value = (\<lambda>x. Inr (three_terms ! x)),
     dv_quads = [(0, 0, 1, None)], dv_named_graphs = [], dv_reifier_quads = [(0, 0, 2, None)], dv_annotation_quads = []\<rparr>"

lemma sum_set_le: "(\<Sum>v\<in>set xs. f v) \<le> sum_list (map f xs)" for f :: "'a \<Rightarrow> nat"
  by (induction xs) (auto simp: sum.insert_if)

lemma reifies_bytes: "RDF_REIFIES = [104, 116, 116, 112, 58, 47, 47, 119, 119, 119, 46, 119, 51, 46, 111, 114, 103, 47, 49, 57, 57, 57,
     47, 48, 50, 47, 50, 50, 45, 114, 100, 102, 45, 115, 121, 110, 116, 97, 120, 45, 110, 115, 35, 114,
     101, 105, 102, 105, 101, 115]"
  by (simp add: RDF_REIFIES_def)

lemma small_view_terms: "view_terms small_view = set (Iri RDF_REIFIES # three_terms)"
proof -
  have ids: "referenced_ids small_view = {0, 1, 2}" by (auto simp: referenced_ids_def small_view_def base_ids_def)
  have roots: "root_terms small_view = {three_terms ! 0, three_terms ! 1, three_terms ! 2, Iri RDF_REIFIES}"
    unfolding root_terms_def ids by (auto simp: small_view_def)
  show ?thesis unfolding view_terms_def roots by (simp add: three_terms_def) blast
qed

lemma small_view_encodable: "view_encodable lax_checks small_view"
proof -
  let ?l = "Iri RDF_REIFIES # three_terms"
  have utf: "utf8_valid RDF_REIFIES" "utf8_valid [97]" "utf8_valid [98]" unfolding reifies_bytes by code_simp+
  have "length RDF_REIFIES = 50" by (simp add: RDF_REIFIES_def)
  then have "(\<Sum>v\<in>set ?l. length (texts_of v)) < 2 ^ 32" "card (set ?l) < 2 ^ 58"
    using sum_set_le [of "\<lambda>v. length (texts_of v)" ?l] card_length [of ?l] by (simp_all add: three_terms_def)
  moreover have "\<forall>v\<in>set ?l. term_ok lax_checks v \<and> nesting v \<le> MAX_TRIPLE_TERM_DEPTH"
    by (simp add: three_terms_def lax_checks_def utf MAX_TRIPLE_TERM_DEPTH_def)
  ultimately show ?thesis unfolding view_encodable_def small_view_terms by (simp add: small_view_def)
qed

lemma small_view_fits: "view_fits 400 small_view"
  by (simp add: view_fits_def small_view_def)

text \<open>C38: The dictionary and the triple index of a view fit together. For a readable view whose terms the
  decoder admits, the dictionary encoder succeeds and its section opens; it has one id for every term
  the view references in any position, for their datatypes and components, and for nothing else but
  \<open>rdf:reifies\<close>; over the opened dictionary the index encoder succeeds without a panic, every id of
  the view is translated to the id that resolves to its term, and the opened index answers every
  pattern with the matching rows.\<close>

theorem view_packs:
  fixes checks :: "('l, 'i) term_checks"
  assumes "\<forall>S. finite S \<longrightarrow> set (iter S) = S" "view_encodable checks view" "view_fits psize view"
  shows "\<exists>ed. dict_try_encode iter view = Some (Inr ed) \<and> (length (ed_values_bytes ed) < 2 ^ 64 \<longrightarrow> (\<exists>dict bs tr.
    dict_open checks (dict_to_bytes ed) = Some (Inr dict) \<and>
    (\<forall>v. (\<exists>tid. id_by_value (packed_dict dict) v = Some tid) \<longleftrightarrow> v \<in> view_terms view) \<and>
    (\<forall>x\<in>referenced_ids view. \<exists>v tid. dv_term_value view x = Inr v \<and> unified view (packed_dict dict) x = Some tid \<and> term_value_at dict tid = Some v) \<and>
    try_encode (packed_dict dict) view = Some (Inr bs) \<and> triples_from_bytes psize bs = Some (Inr tr) \<and>
    (\<forall>s p ob g. pattern tr s p ob g = Some (concat (map (part_answer s p ob) (selected g (view_parts view (packed_dict dict))))))))"
proof -
  obtain ed vs where ed: "dict_try_encode iter view = Some (Inr ed)" "set vs = view_terms view"
    and opens: "length (ed_values_bytes ed) < 2 ^ 64 \<Longrightarrow> \<exists>dict. dict_open checks (dict_to_bytes ed) = Some (Inr dict) \<and> holds_list checks dict vs"
    using view_dictionary [OF assms(1,2)] by blast
  have "?thesis" if l: "length (ed_values_bytes ed) < 2 ^ 64"
  proof -
    obtain dict where d: "dict_open checks (dict_to_bytes ed) = Some (Inr dict)" "holds_list checks dict vs" using opens [OF l] by blast
    have valid: "dict_valid dict" by (rule opened_valid [OF d(1)])
    have known: "(\<exists>tid. id_by_value (packed_dict dict) v = Some tid) \<longleftrightarrow> v \<in> view_terms view" for v
      using holds_lookup [OF d(2) valid, of v] holds_found [OF d(2) valid, of v] ed(2) by auto
    note ids = view_ids_resolve [OF assms(2) d(2) valid ed(2)]
    have "readable view (packed_dict dict)"
      using assms(2) ids view_ids_referenced [of view] unfolding readable_def view_encodable_def by fastforce
    from view_opens [OF this assms(3)] obtain bs tr where bs: "try_encode (packed_dict dict) view = Some (Inr bs)"
      "triples_from_bytes psize bs = Some (Inr tr)" "opened (view_parts view (packed_dict dict)) tr" by blast
    show ?thesis using ed(1) d(1) known ids bs pattern_eq [OF bs(3)] by blast
  qed
  then show ?thesis using ed(1) by blast
qed

theorem view_packs_witness:
  "\<exists>ed. dict_try_encode sorted_list_of_set small_view = Some (Inr ed) \<and> (length (ed_values_bytes ed) < 2 ^ 64 \<longrightarrow> (\<exists>dict bs tr.
    dict_open lax_checks (dict_to_bytes ed) = Some (Inr dict) \<and> try_encode (packed_dict dict) small_view = Some (Inr bs) \<and>
    triples_from_bytes 400 bs = Some (Inr tr)))"
proof -
  have "\<forall>S. finite S \<longrightarrow> set (sorted_list_of_set S) = (S :: nat set)" by simp
  from view_packs [OF this small_view_encodable small_view_fits] show ?thesis by blast
qed

end
