(* ===== verification/SideTables.thy ===== *)
theory SideTables
  imports DictClosure
begin

text \<open>
  The side tables of a pack (\<open>crates/rdf-core/src/ir/pack/side.rs\<close>): reifier and annotation rows over
  the dictionary's ids, in packed columns. This theory holds the code: encoding a dataset view,
  opening a buffer with its checks, the queries, and the capability flags.
\<close>

section \<open>Resolving terms\<close>

definition resolve_any :: "'v::linorder pack_dict \<Rightarrow> 'v \<Rightarrow> u64 option" where
  "resolve_any dict value = id_by_value dict value"

definition resolve_id :: "('id, 'v::linorder, 'e) dataset_view \<Rightarrow> 'v pack_dict \<Rightarrow> 'id \<Rightarrow> ('e term_lookup_error + u64) option" where
  "resolve_id view dict x = (case dv_term_value view x of Inl e \<Rightarrow> Some (Inl e) | Inr v \<Rightarrow> map_option Inr (resolve_any dict v))"

definition graph_id_or_zero :: "('id, 'v::linorder, 'e) dataset_view \<Rightarrow> 'v pack_dict \<Rightarrow> 'id option \<Rightarrow> ('e term_lookup_error + u64) option" where
  "graph_id_or_zero view dict g = (case g of None \<Rightarrow> Some (Inr 0) | Some x \<Rightarrow> resolve_id view dict x)"

fun reifier_rows :: "('id, 'v::linorder, 'e) dataset_view \<Rightarrow> 'v pack_dict \<Rightarrow> 'id quad_ids list \<Rightarrow>
    ('e term_lookup_error + (u64 \<times> u64 \<times> u64) list) option" where
  "reifier_rows view dict [] = Some (Inr [])"
| "reifier_rows view dict ((s, p, ob, g) # quads) =
     bind_res (resolve_id view dict s) (\<lambda>r.
     bind_res (resolve_id view dict ob) (\<lambda>t.
     bind_res (graph_id_or_zero view dict g) (\<lambda>g.
     bind_res (reifier_rows view dict quads) (\<lambda>rows. Some (Inr ((r, t, g) # rows))))))"

fun annotation_rows :: "('id, 'v::linorder, 'e) dataset_view \<Rightarrow> 'v pack_dict \<Rightarrow> 'id quad_ids list \<Rightarrow>
    ('e term_lookup_error + (u64 \<times> u64 \<times> u64 \<times> u64) list) option" where
  "annotation_rows view dict [] = Some (Inr [])"
| "annotation_rows view dict ((s, p, ob, g) # quads) =
     bind_res (resolve_id view dict s) (\<lambda>r.
     bind_res (resolve_id view dict p) (\<lambda>p.
     bind_res (resolve_id view dict ob) (\<lambda>ob.
     bind_res (graph_id_or_zero view dict g) (\<lambda>g.
     bind_res (annotation_rows view dict quads) (\<lambda>rows. Some (Inr ((r, p, ob, g) # rows)))))))"

section \<open>Writing the tables\<close>

text \<open>The pass over the sorted annotation rows: for each reifier its first row and its row count.\<close>

function annotation_groups :: "nat \<Rightarrow> (u64 \<times> 'a) list \<Rightarrow> (u64 \<times> nat \<times> nat) list" where
  "annotation_groups i [] = []"
| "annotation_groups i (row # rows) =
     (let r = fst row; n = length (takeWhile (\<lambda>row. fst row = r) (row # rows))
      in (r, i, n) # annotation_groups (i + n) (drop n (row # rows)))"
  by pat_completeness auto
termination by (relation "measure (\<lambda>(_, rows). length rows)") auto

definition packed_column :: "u64 list \<Rightarrow> bytes option" where
  "packed_column xs = map_option iv_to_bytes (iv_from_values xs)"

definition SIDE_FORMAT_VERSION :: u8 where "SIDE_FORMAT_VERSION = 1"

definition write_side :: "u64 \<Rightarrow> (u64 \<times> u64 \<times> u64) list \<Rightarrow> (u64 \<times> u64 \<times> u64 \<times> u64) list \<Rightarrow> bytes option" where
  "write_side reifies_predicate reifiers annotations =
     (let groups = annotation_groups 0 annotations
      in do {
        reifier_reifier \<leftarrow> packed_column (map fst reifiers);
        reifier_triple \<leftarrow> packed_column (map (fst \<circ> snd) reifiers);
        reifier_graph \<leftarrow> packed_column (map (snd \<circ> snd) reifiers);
        local_reifier \<leftarrow> packed_column (map fst groups);
        offsets \<leftarrow> packed_column (map (of_nat \<circ> fst \<circ> snd) groups);
        counts \<leftarrow> packed_column (map (of_nat \<circ> snd \<circ> snd) groups);
        annotation_pred \<leftarrow> packed_column (map (fst \<circ> snd) annotations);
        annotation_obj \<leftarrow> packed_column (map (fst \<circ> snd \<circ> snd) annotations);
        annotation_graph \<leftarrow> packed_column (map (snd \<circ> snd \<circ> snd) annotations);
        Some ([SIDE_FORMAT_VERSION] @ le_bytes 8 reifies_predicate @ reifier_reifier @ reifier_triple @ reifier_graph @
          local_reifier @ offsets @ counts @ annotation_pred @ annotation_obj @ annotation_graph)
      })"

definition side_try_encode :: "term_value pack_dict \<Rightarrow> ('id, term_value, 'e) dataset_view \<Rightarrow> ('e term_lookup_error + bytes) option" where
  "side_try_encode dict view =
     (case checked_read view
        (bind_res (reifier_rows view dict (dv_reifier_quads view)) (\<lambda>reifiers.
         let reifiers = remdups_adj (sort reifiers) in
         bind_res (annotation_rows view dict (dv_annotation_quads view)) (\<lambda>annotations.
         let annotations = remdups_adj (sort annotations) in
         bind_res (if reifiers = [] then Some (Inr 0) else map_option Inr (resolve_any dict (Iri RDF_REIFIES))) (\<lambda>reifies_predicate.
         map_option Inr (write_side reifies_predicate reifiers annotations))))) of
        None \<Rightarrow> None
      | Some (Inl e) \<Rightarrow> Some (Inl (ReadFailed e))
      | Some (Inr r) \<Rightarrow> Some r)"

definition side_encode :: "term_value pack_dict \<Rightarrow> ('id, term_value, 'e) dataset_view \<Rightarrow> bytes option" where
  "side_encode dict view = (case side_try_encode dict view of Some (Inr bs) \<Rightarrow> Some bs | _ \<Rightarrow> None)"

section \<open>Opening a buffer\<close>

record side_tables_ref =
  st_reifies_predicate :: u64
  st_reifier_reifier :: int_vector_ref
  st_reifier_triple :: int_vector_ref
  st_reifier_graph :: int_vector_ref
  st_local_reifier :: int_vector_ref
  st_annotation_offsets :: int_vector_ref
  st_annotation_counts :: int_vector_ref
  st_annotation_pred :: int_vector_ref
  st_annotation_obj :: int_vector_ref
  st_annotation_graph :: int_vector_ref

definition parse_side :: "bytes \<Rightarrow> (pack_bits_error + side_tables_ref) option" where
  "parse_side bs =
     bind_res (Some (read_header_u64 bs 1)) (\<lambda>(reifies, pos).
     bind_res (iv_section bs pos) (\<lambda>(reifier_reifier, pos).
     bind_res (iv_section bs pos) (\<lambda>(reifier_triple, pos).
     bind_res (iv_section bs pos) (\<lambda>(reifier_graph, pos).
     bind_res (iv_section bs pos) (\<lambda>(local_reifier, pos).
     bind_res (iv_section bs pos) (\<lambda>(offsets, pos).
     bind_res (iv_section bs pos) (\<lambda>(counts, pos).
     bind_res (iv_section bs pos) (\<lambda>(annotation_pred, pos).
     bind_res (iv_section bs pos) (\<lambda>(annotation_obj, pos).
     bind_res (iv_section bs pos) (\<lambda>(annotation_graph, pos).
       Some (Inr \<lparr>st_reifies_predicate = reifies, st_reifier_reifier = reifier_reifier,
         st_reifier_triple = reifier_triple, st_reifier_graph = reifier_graph, st_local_reifier = local_reifier,
         st_annotation_offsets = offsets, st_annotation_counts = counts, st_annotation_pred = annotation_pred,
         st_annotation_obj = annotation_obj, st_annotation_graph = annotation_graph\<rparr>)))))))))))"

fun ascending_loop :: "(nat \<Rightarrow> u64 option) \<Rightarrow> string \<Rightarrow> u64 option \<Rightarrow> nat list \<Rightarrow> (pack_bits_error + unit) option" where
  "ascending_loop get what prev [] = Some (Inr ())"
| "ascending_loop get what prev (i # is) =
     (case get i of None \<Rightarrow> None
      | Some cur \<Rightarrow>
        if (case prev of Some p \<Rightarrow> cur < p | None \<Rightarrow> False) then Some (Inl (Malformed what))
        else ascending_loop get what (Some cur) is)"

definition assert_ascending :: "int_vector_ref \<Rightarrow> string \<Rightarrow> (pack_bits_error + unit) option" where
  "assert_ascending column what = ascending_loop (ivr_get column) what None [0..<ivr_len column]"

fun nonzero_loop :: "(nat \<Rightarrow> u64 option) \<Rightarrow> string \<Rightarrow> nat list \<Rightarrow> (pack_bits_error + unit) option" where
  "nonzero_loop get what [] = Some (Inr ())"
| "nonzero_loop get what (i # is) =
     (case get i of None \<Rightarrow> None
      | Some v \<Rightarrow> if v = 0 then Some (Inl (Malformed what)) else nonzero_loop get what is)"

definition assert_nonzero :: "int_vector_ref \<Rightarrow> string \<Rightarrow> (pack_bits_error + unit) option" where
  "assert_nonzero vec what = nonzero_loop (ivr_get vec) what [0..<ivr_len vec]"

fun prefix_loop :: "(nat \<Rightarrow> u64 option) \<Rightarrow> (nat \<Rightarrow> u64 option) \<Rightarrow> u64 \<Rightarrow> nat list \<Rightarrow> (pack_bits_error + u64) option" where
  "prefix_loop offs cnts running [] = Some (Inr running)"
| "prefix_loop offs cnts running (i # is) =
     (case offs i of None \<Rightarrow> None
      | Some offset \<Rightarrow>
        if offset \<noteq> running then Some (Inl (Malformed ''side: annotation offsets are not a correct prefix sum of the counts''))
        else (case cnts i of None \<Rightarrow> None
          | Some count \<Rightarrow> (case checked_add_u64 running count of
              None \<Rightarrow> Some (Inl (Malformed ''side: annotation offset overflows u64''))
            | Some running \<Rightarrow> prefix_loop offs cnts running is)))"

definition check_side :: "side_tables_ref \<Rightarrow> (pack_bits_error + unit) option" where
  "check_side st =
     ensure_res (ivr_len (st_reifier_triple st) = ivr_len (st_reifier_reifier st) \<and>
         ivr_len (st_reifier_graph st) = ivr_len (st_reifier_reifier st)) (Malformed ''side: reifier column lengths disagree'')
     (ensure_res (ivr_len (st_annotation_offsets st) = ivr_len (st_local_reifier st) \<and>
         ivr_len (st_annotation_counts st) = ivr_len (st_local_reifier st))
       (Malformed ''side: annotation index length disagrees with local_reifier'')
     (ensure_res (ivr_len (st_annotation_obj st) = ivr_len (st_annotation_pred st) \<and>
         ivr_len (st_annotation_graph st) = ivr_len (st_annotation_pred st)) (Malformed ''side: annotation column lengths disagree'')
     (bind_res (assert_strictly_ascending (st_local_reifier st) ''side: local_reifier map is not strictly ascending'') (\<lambda>_.
      bind_res (assert_ascending (st_reifier_reifier st) ''side: reifier column is not ascending by reifier id'') (\<lambda>_.
      bind_res (assert_nonzero (st_reifier_reifier st) ''side: reifier id is zero'') (\<lambda>_.
      bind_res (assert_nonzero (st_reifier_triple st) ''side: reifier triple-term id is zero'') (\<lambda>_.
      bind_res (assert_nonzero (st_local_reifier st) ''side: local_reifier id is zero'') (\<lambda>_.
      bind_res (assert_nonzero (st_annotation_pred st) ''side: annotation predicate id is zero'') (\<lambda>_.
      bind_res (assert_nonzero (st_annotation_obj st) ''side: annotation object id is zero'') (\<lambda>_.
      ensure_res (\<not> (st_reifies_predicate st = 0 \<and> ivr_len (st_reifier_reifier st) \<noteq> 0))
        (Malformed ''side: reifies-predicate id missing despite a non-empty reifier table'')
      (ensure_res (\<not> (st_reifies_predicate st \<noteq> 0 \<and> ivr_len (st_reifier_reifier st) = 0))
        (Malformed ''side: reifies-predicate id present despite an empty reifier table'')
      (bind_res (prefix_loop (ivr_get (st_annotation_offsets st)) (ivr_get (st_annotation_counts st)) 0 [0..<ivr_len (st_local_reifier st)]) (\<lambda>running.
       ensure_res (running = of_nat (ivr_len (st_annotation_pred st)))
         (Malformed ''side: annotation counts do not sum to the annotation row count'')
       (Some (Inr ())))))))))))))))"

definition side_from_bytes :: "bytes \<Rightarrow> (pack_bits_error + side_tables_ref) option" where
  "side_from_bytes bs = (case bs of
     [] \<Rightarrow> Some (Inl (Truncated 1 0))
   | version # _ \<Rightarrow>
       ensure_res (version = SIDE_FORMAT_VERSION) (Malformed ''side: unsupported format version'')
       (bind_res (parse_side bs) (\<lambda>st. bind_res (check_side st) (\<lambda>_. Some (Inr st)))))"

section \<open>Queries\<close>

function lower_bound_loop :: "(nat \<Rightarrow> u64 option) \<Rightarrow> u64 \<Rightarrow> nat \<Rightarrow> nat \<Rightarrow> nat option" where
  "lower_bound_loop get target lo hi =
     (if lo < hi then
        let mid = lo + (hi - lo) div 2
        in do {
          v \<leftarrow> get mid;
          if v < target then lower_bound_loop get target (mid + 1) hi
          else lower_bound_loop get target lo mid
        }
      else Some lo)"
  by auto
termination by (relation "measure (\<lambda>(_, _, lo, hi). hi - lo)") auto

declare lower_bound_loop.simps [simp del]

definition lower_bound :: "int_vector_ref \<Rightarrow> u64 \<Rightarrow> nat option" where
  "lower_bound column target = lower_bound_loop (ivr_get column) target 0 (ivr_len column)"

definition decode_graph :: "u64 \<Rightarrow> u64 option" where
  "decode_graph raw = (if raw = 0 then None else Some raw)"

definition reifier_row :: "side_tables_ref \<Rightarrow> nat \<Rightarrow> quad option" where
  "reifier_row st i = do {
     r \<leftarrow> ivr_get (st_reifier_reifier st) i;
     t \<leftarrow> ivr_get (st_reifier_triple st) i;
     g \<leftarrow> ivr_get (st_reifier_graph st) i;
     Some (r, st_reifies_predicate st, t, decode_graph g)
   }"

definition reifier_quads :: "side_tables_ref \<Rightarrow> quad list option" where
  "reifier_quads st = those (map (reifier_row st) [0..<ivr_len (st_reifier_reifier st)])"

definition saturating_add_u64 :: "u64 \<Rightarrow> u64 \<Rightarrow> u64" where
  "saturating_add_u64 a b = (case checked_add_u64 a b of None \<Rightarrow> - 1 | Some c \<Rightarrow> c)"

definition reifier_quads_of :: "side_tables_ref \<Rightarrow> u64 \<Rightarrow> quad list option" where
  "reifier_quads_of st reifier = do {
     start \<leftarrow> lower_bound (st_reifier_reifier st) reifier;
     stop \<leftarrow> lower_bound (st_reifier_reifier st) (saturating_add_u64 reifier 1);
     those (map (reifier_row st) [start..<stop])
   }"

text \<open>The iterator \<open>AnnotationRows\<close>: a row cursor and a group cursor. The sum of an offset and a
  count is taken in \<open>u64\<close>.\<close>

function skip_groups :: "side_tables_ref \<Rightarrow> nat \<Rightarrow> nat \<Rightarrow> nat option" where
  "skip_groups st row grp =
     (if grp + 1 < ivr_len (st_local_reifier st) then do {
        offset \<leftarrow> ivr_get (st_annotation_offsets st) grp;
        count \<leftarrow> ivr_get (st_annotation_counts st) grp;
        if unat (offset + count) \<le> row then skip_groups st row (grp + 1) else Some grp
      }
      else Some grp)"
  by auto
termination by (relation "measure (\<lambda>(st, _, grp). ivr_len (st_local_reifier st) - grp)") auto

declare skip_groups.simps [simp del]

definition annotation_next :: "side_tables_ref \<Rightarrow> nat \<times> nat \<Rightarrow> (quad option \<times> nat \<times> nat) option" where
  "annotation_next st cursor = (case cursor of (row, grp) \<Rightarrow>
     if ivr_len (st_annotation_pred st) \<le> row then Some (None, row, grp)
     else do {
       grp \<leftarrow> skip_groups st row grp;
       reifier \<leftarrow> ivr_get (st_local_reifier st) grp;
       p \<leftarrow> ivr_get (st_annotation_pred st) row;
       ob \<leftarrow> ivr_get (st_annotation_obj st) row;
       g \<leftarrow> ivr_get (st_annotation_graph st) row;
       Some (Some (reifier, p, ob, decode_graph g), row + 1, grp)
     })"

definition annotation_size_hint :: "side_tables_ref \<Rightarrow> nat \<times> nat \<Rightarrow> nat \<times> nat option" where
  "annotation_size_hint st cursor = (let remaining = ivr_len (st_annotation_pred st) - fst cursor in (remaining, Some remaining))"

lemma annotation_next_row:
  "annotation_next st (row, grp) = Some (Some q, row', grp') \<Longrightarrow> row < ivr_len (st_annotation_pred st) \<and> row' = Suc row"
  by (auto simp: annotation_next_def split: if_splits Option.bind_splits)

function annotation_drain :: "side_tables_ref \<Rightarrow> nat \<times> nat \<Rightarrow> quad list option" where
  "annotation_drain st cursor = (case annotation_next st cursor of
     None \<Rightarrow> None
   | Some (None, _) \<Rightarrow> Some []
   | Some (Some q, cursor) \<Rightarrow> map_option ((#) q) (annotation_drain st cursor))"
  by auto
termination
  by (relation "measure (\<lambda>(st, row, _). ivr_len (st_annotation_pred st) - row)") (auto dest!: annotation_next_row)

declare annotation_drain.simps [simp del]

definition annotation_quads :: "side_tables_ref \<Rightarrow> quad list option" where
  "annotation_quads st = annotation_drain st (0, 0)"

definition annotation_row :: "side_tables_ref \<Rightarrow> nat \<Rightarrow> (u64 \<times> u64 \<times> u64 option) option" where
  "annotation_row st i = do {
     p \<leftarrow> ivr_get (st_annotation_pred st) i;
     ob \<leftarrow> ivr_get (st_annotation_obj st) i;
     g \<leftarrow> ivr_get (st_annotation_graph st) i;
     Some (p, ob, decode_graph g)
   }"

definition annotations_of_with_graph :: "side_tables_ref \<Rightarrow> u64 \<Rightarrow> (u64 \<times> u64 \<times> u64 option) list option" where
  "annotations_of_with_graph st reifier = do {
     found \<leftarrow> local_lookup (st_local_reifier st) reifier;
     case found of
       None \<Rightarrow> Some []
     | Some g \<Rightarrow> do {
         start \<leftarrow> ivr_get (st_annotation_offsets st) (unat g);
         count \<leftarrow> ivr_get (st_annotation_counts st) (unat g);
         those (map (annotation_row st) [unat start..<usize_wrapping_add (unat start) (unat count)])
       }
   }"

text \<open>The graphs the rows name: the whole sequence, and whether there is one (read until found).\<close>

fun graph_column :: "(nat \<Rightarrow> u64 option) \<Rightarrow> nat list \<Rightarrow> u64 list option" where
  "graph_column get [] = Some []"
| "graph_column get (i # is) = do {
     raw \<leftarrow> get i;
     gs \<leftarrow> graph_column get is;
     Some (case decode_graph raw of None \<Rightarrow> gs | Some g \<Rightarrow> g # gs)
   }"

definition graph_references :: "side_tables_ref \<Rightarrow> u64 list option" where
  "graph_references st = do {
     a \<leftarrow> graph_column (ivr_get (st_reifier_graph st)) [0..<ivr_len (st_reifier_graph st)];
     b \<leftarrow> graph_column (ivr_get (st_annotation_graph st)) [0..<ivr_len (st_annotation_graph st)];
     Some (a @ b)
   }"

fun names_graph :: "(nat \<Rightarrow> u64 option) \<Rightarrow> nat list \<Rightarrow> bool option" where
  "names_graph get [] = Some False"
| "names_graph get (i # is) = do { raw \<leftarrow> get i; if decode_graph raw \<noteq> None then Some True else names_graph get is }"

definition has_graph_reference :: "side_tables_ref \<Rightarrow> bool option" where
  "has_graph_reference st = do {
     a \<leftarrow> names_graph (ivr_get (st_reifier_graph st)) [0..<ivr_len (st_reifier_graph st)];
     if a then Some True
     else names_graph (ivr_get (st_annotation_graph st)) [0..<ivr_len (st_annotation_graph st)]
   }"

section \<open>Capabilities\<close>

record rdf_store_capabilities =
  cap_named_graphs :: bool
  cap_quoted_triples :: bool
  cap_reifiers :: bool
  cap_annotations :: bool
  cap_source_locations :: bool
  cap_loss_records :: bool
  cap_lookaside :: bool

definition capabilities :: "dictionary \<Rightarrow> side_tables_ref \<Rightarrow> bool \<Rightarrow> rdf_store_capabilities option" where
  "capabilities dict st base_named_graphs = do {
     named \<leftarrow> (if base_named_graphs then Some True else has_graph_reference st);
     Some \<lparr>cap_named_graphs = named, cap_quoted_triples = has_triple_term dict,
       cap_reifiers = (0 < ivr_len (st_reifier_reifier st)), cap_annotations = (0 < ivr_len (st_annotation_pred st)),
       cap_source_locations = False, cap_loss_records = False, cap_lookaside = False\<rparr>
   }"

end
