(* ===== verification/SideOpened.thy ===== *)
theory SideOpened
  imports SideTables
begin

text \<open>
  What the checks of \<open>SideTablesRef::from_bytes\<close> (\<open>crates/rdf-core/src/ir/pack/side.rs\<close>) buy: on every
  buffer that opens, the queries neither panic nor disagree with each other.
\<close>

section \<open>Lower bounds\<close>

context word_sequence
begin

lemma lower_bound_spec:
  assumes v: "valid r" and b: "lo \<le> hi" "hi \<le> seq_len r" and s: "sorted (vals r)"
  shows "\<exists>k. lower_bound_loop (seq_get r) t lo hi = Some k \<and> lo \<le> k \<and> k \<le> hi \<and>
    (\<forall>i. lo \<le> i \<and> i < k \<longrightarrow> vals r ! i < t) \<and> (\<forall>i. k \<le> i \<and> i < hi \<longrightarrow> t \<le> vals r ! i)"
  using b
proof (induction "hi - lo" arbitrary: lo hi rule: less_induct)
  case less
  define mid where "mid = lo + (hi - lo) div 2"
  show ?case
  proof (cases "lo < hi")
    case True
    then have mid: "lo \<le> mid" "mid < hi" by (auto simp: mid_def)
    have get: "seq_get r mid = Some (vals r ! mid)" using mid less.prems by (intro get_vals [OF v]) simp
    have mono: "vals r ! i \<le> vals r ! j" if "i \<le> j" "j < hi" for i j
      using sorted_nth_mono [OF s that(1)] that less.prems length_vals [OF v] by simp
    have step: "lower_bound_loop (seq_get r) t lo hi =
        (if vals r ! mid < t then lower_bound_loop (seq_get r) t (mid + 1) hi else lower_bound_loop (seq_get r) t lo mid)"
      using True get by (subst lower_bound_loop.simps) (simp add: mid_def [symmetric] Let_def)
    show ?thesis
    proof (cases "vals r ! mid < t")
      case lt: True
      obtain k where k: "lower_bound_loop (seq_get r) t (mid + 1) hi = Some k" "mid + 1 \<le> k" "k \<le> hi"
        "\<forall>i. mid + 1 \<le> i \<and> i < k \<longrightarrow> vals r ! i < t" "\<forall>i. k \<le> i \<and> i < hi \<longrightarrow> t \<le> vals r ! i"
        using less.hyps [of hi "mid + 1", OF diff_less_mono2 _ less.prems(2)] mid by auto
      have "vals r ! i < t" if "i < k" for i
        using k(3,4) that lt mono [of i mid] mid by (cases "i \<le> mid") (auto intro: le_less_trans)
      then show ?thesis using k mid lt by (intro exI [of _ k]) (simp add: step)
    next
      case ge: False
      obtain k where k: "lower_bound_loop (seq_get r) t lo mid = Some k" "lo \<le> k" "k \<le> mid"
        "\<forall>i. lo \<le> i \<and> i < k \<longrightarrow> vals r ! i < t" "\<forall>i. k \<le> i \<and> i < mid \<longrightarrow> t \<le> vals r ! i"
        using less.hyps [of mid lo, OF diff_less_mono [OF mid(2,1)] mid(1)] less.prems mid by auto
      have "t \<le> vals r ! i" if "k \<le> i" "i < hi" for i
        using k(5) that ge mono [of mid i] by (cases "i < mid") (auto intro: order_trans)
      then show ?thesis using k mid ge by (intro exI [of _ k]) (simp add: step)
    qed
  qed (use less.prems in \<open>subst lower_bound_loop.simps, auto\<close>)
qed

end

lemma reads_get_values: "ivr_inv r \<Longrightarrow> i < ivr_len r \<Longrightarrow> ivr_get r i = Some (ivr_values r ! i)"
  by (rule ivr_get_values)

section \<open>Parsed columns\<close>

definition parsed_ref :: "int_vector_ref \<Rightarrow> nat \<Rightarrow> bool" where
  "parsed_ref r n \<longleftrightarrow> ivr_width r \<le> 64 \<and> length (ivr_words r) = 8 * div_ceil (ivr_len r * ivr_width r mod 2 ^ 64) 64 \<and>
     length (ivr_words r) \<le> n"

lemma from_bytes_parsed: "ivr_from_bytes bs = Inr r \<Longrightarrow> parsed_ref r (length bs)"
  by (auto simp: ivr_from_bytes_def parsed_ref_def Let_def split: sum.splits if_splits)

lemma iv_section_parsed: "iv_section bs pos = Some (Inr (r, pos')) \<Longrightarrow> parsed_ref r (length bs)"
  using from_bytes_parsed [of "drop pos bs" r] by (auto simp: iv_section_def parsed_ref_def split: if_splits sum.splits)

lemma parsed_inv:
  assumes "parsed_ref r n" "ivr_len r < 2 ^ 58"
  shows "ivr_inv r"
proof -
  have "ivr_len r * ivr_width r \<le> ivr_len r * 64" using assms(1) by (intro mult_le_mono2) (simp add: parsed_ref_def)
  also have "\<dots> < 2 ^ 64" using assms(2) by simp
  finally have w: "ivr_len r * ivr_width r < 2 ^ 64" .
  then show ?thesis using assms(1) by (simp only: ivr_inv_def parsed_ref_def mod_less)
qed

text \<open>A column whose entries are all nonzero and readable cannot have a wrapped size: reading entry
  \<open>2 ^ 58 - 1\<close> would need \<open>2 ^ 55\<close> bytes.\<close>

lemma parsed_short:
  assumes p: "parsed_ref r n" and n: "n < 2 ^ 55" and get: "\<forall>i<ivr_len r. \<exists>v. ivr_get r i = Some v \<and> v \<noteq> 0"
  shows "ivr_len r < 2 ^ 58"
proof (rule ccontr)
  let ?i = "2 ^ 58 - 1 :: nat"
  assume "\<not> ivr_len r < 2 ^ 58"
  then have i: "?i < ivr_len r" by simp
  then obtain v where v: "ivr_get r ?i = Some v" "v \<noteq> 0" using get by blast
  have "ivr_get r ?i = Some 0" if "ivr_width r = 0" using i that by (simp add: ivr_get_def packed_get_def)
  then have w: "ivr_width r \<noteq> 0" "ivr_width r \<le> 64" using v p by (auto simp: parsed_ref_def)
  have "?i * ivr_width r \<le> ?i * 64" using w by (intro mult_le_mono2)
  then have m: "?i * ivr_width r mod 2 ^ 64 = ?i * ivr_width r" by (intro mod_less) simp
  have "?i * 1 \<le> ?i * ivr_width r" using w by (intro mult_le_mono2) simp
  then have "?i div 64 \<le> ?i * ivr_width r div 64" by (intro div_le_mono) simp
  then have k: "2 ^ 52 - 1 \<le> ?i * ivr_width r div 64" by simp
  obtain w' where "read_u64_le (ivr_words r) (?i * ivr_width r div 64) = Some w'"
    using v w i m by (auto simp: ivr_get_def packed_get_def Let_def split: Option.bind_splits if_splits)
  then have "8 * (?i * ivr_width r div 64) + 8 \<le> length (ivr_words r)"
    by (auto simp: read_u64_le_def bytes_read_u64_le_def split: if_splits)
  then show False using k p n by (simp add: parsed_ref_def)
qed

section \<open>What the check loops establish\<close>

lemma nonzero_loop_iff: "nonzero_loop get what is = Some (Inr ()) \<longleftrightarrow> (\<forall>i\<in>set is. \<exists>v. get i = Some v \<and> v \<noteq> 0)"
  by (induction "is") (auto split: option.splits)

lemma assert_nonzero_iff: "assert_nonzero r what = Some (Inr ()) \<longleftrightarrow> (\<forall>i<ivr_len r. \<exists>v. ivr_get r i = Some v \<and> v \<noteq> 0)"
  by (auto simp: assert_nonzero_def nonzero_loop_iff)

lemma asc_loop_iff:
  "\<forall>i\<in>set is. get i = Some (f i) \<Longrightarrow> asc_loop get what prev is = Some (Inr ()) \<longleftrightarrow>
     sorted_wrt (<) ((case prev of None \<Rightarrow> [] | Some p \<Rightarrow> [p]) @ map f is)"
proof (induction "is" arbitrary: prev)
  case (Cons i "is")
  then have "asc_loop get what (Some (f i)) is = Some (Inr ()) \<longleftrightarrow> sorted_wrt (<) (f i # map f is)" by simp
  then show ?case using Cons.prems by (cases prev) (auto simp: not_le intro: order.strict_trans)
qed (simp split: option.splits)

lemma ascending_loop_iff:
  "\<forall>i\<in>set is. get i = Some (f i) \<Longrightarrow> ascending_loop get what prev is = Some (Inr ()) \<longleftrightarrow>
     sorted ((case prev of None \<Rightarrow> [] | Some p \<Rightarrow> [p]) @ map f is)"
proof (induction "is" arbitrary: prev)
  case (Cons i "is")
  then have "ascending_loop get what (Some (f i)) is = Some (Inr ()) \<longleftrightarrow> sorted (f i # map f is)" by simp
  then show ?case using Cons.prems by (cases prev) (auto simp: not_less intro: order_trans)
qed (simp split: option.splits)

lemma values_map: "map (\<lambda>i. ivr_values r ! i) [0..<ivr_len r] = ivr_values r"
  using map_nth [of "ivr_values r"] by simp

lemma assert_strictly_ascending_iff:
  "ivr_inv r \<Longrightarrow> assert_strictly_ascending r what = Some (Inr ()) \<longleftrightarrow> sorted_wrt (<) (ivr_values r)"
  using asc_loop_iff [of "[0..<ivr_len r]" "ivr_get r" "\<lambda>i. ivr_values r ! i" what None]
  by (simp add: assert_strictly_ascending_def ivr_get_values values_map)

lemma assert_ascending_iff:
  "ivr_inv r \<Longrightarrow> assert_ascending r what = Some (Inr ()) \<longleftrightarrow> sorted (ivr_values r)"
  using ascending_loop_iff [of "[0..<ivr_len r]" "ivr_get r" "\<lambda>i. ivr_values r ! i" what None]
  by (simp add: assert_ascending_def ivr_get_values values_map)

text \<open>The prefix sums: when the loop ends well, each offset is the sum of the counts before it.\<close>

lemma prefix_loop_sums:
  "\<forall>i\<in>set is. offs i = Some (f i) \<and> cnts i = Some (c i) \<Longrightarrow> prefix_loop offs cnts running is = Some (Inr tot) \<Longrightarrow>
     unat tot = unat running + sum_list (map (unat \<circ> c) is) \<and>
     (\<forall>k<length is. unat (f (is ! k)) = unat running + sum_list (map (unat \<circ> c) (take k is)))"
proof (induction "is" arbitrary: running)
  case (Cons i "is")
  then have g: "offs i = Some (f i)" "cnts i = Some (c i)" and rest: "\<forall>i\<in>set is. offs i = Some (f i) \<and> cnts i = Some (c i)" by simp_all
  have f: "f i = running" and s: "unat running + unat (c i) < 2 ^ 64"
    and p: "prefix_loop offs cnts (running + c i) is = Some (Inr tot)"
    using Cons.prems(2) g by (auto simp: checked_add_u64_def split: if_splits)
  have u: "unat (running + c i) = unat running + unat (c i)" using s by (simp add: iffD1 [OF unat_add_lem])
  have "unat (f ((i # is) ! k)) = unat running + sum_list (map (unat \<circ> c) (take k (i # is)))" if "k < length (i # is)" for k
    using Cons.IH [OF rest p] that f u by (cases k) (simp_all add: comp_def)
  then show ?case using Cons.IH [OF rest p] u by (simp add: comp_def)
qed simp

section \<open>Valid tables\<close>

definition side_columns :: "side_tables_ref \<Rightarrow> int_vector_ref list" where
  "side_columns st = [st_reifier_reifier st, st_reifier_triple st, st_reifier_graph st, st_local_reifier st,
     st_annotation_offsets st, st_annotation_counts st, st_annotation_pred st, st_annotation_obj st, st_annotation_graph st]"

definition side_valid :: "side_tables_ref \<Rightarrow> bool" where
  "side_valid st \<longleftrightarrow> (\<forall>c\<in>set (side_columns st). ivr_inv c \<and> ivr_len c < 2 ^ 58) \<and>
     ivr_len (st_reifier_triple st) = ivr_len (st_reifier_reifier st) \<and> ivr_len (st_reifier_graph st) = ivr_len (st_reifier_reifier st) \<and>
     ivr_len (st_annotation_offsets st) = ivr_len (st_local_reifier st) \<and> ivr_len (st_annotation_counts st) = ivr_len (st_local_reifier st) \<and>
     ivr_len (st_annotation_obj st) = ivr_len (st_annotation_pred st) \<and> ivr_len (st_annotation_graph st) = ivr_len (st_annotation_pred st) \<and>
     sorted (ivr_values (st_reifier_reifier st)) \<and> sorted_wrt (<) (ivr_values (st_local_reifier st)) \<and>
     (\<forall>k<ivr_len (st_local_reifier st). unat (ivr_values (st_annotation_offsets st) ! k) =
        sum_list (map unat (take k (ivr_values (st_annotation_counts st))))) \<and>
     sum_list (map unat (ivr_values (st_annotation_counts st))) = ivr_len (st_annotation_pred st)"

lemma bind_res_unit: "bind_res m (\<lambda>_. k) = Some (Inr x) \<longleftrightarrow> m = Some (Inr ()) \<and> k = Some (Inr x)"
  for m :: "('e + unit) option"
  by (cases m) (auto simp: bind_res_def split: sum.splits)

lemma parse_side_parsed:
  "parse_side bs = Some (Inr st) \<Longrightarrow> \<forall>c\<in>set (side_columns st). parsed_ref c (length bs)"
  by (auto simp: parse_side_def bind_res_eq_Inr side_columns_def dest!: iv_section_parsed)

lemma opened_side_valid:
  assumes "side_from_bytes bs = Some (Inr st)" "length bs < 2 ^ 55"
  shows "side_valid st"
proof -
  have p: "parse_side bs = Some (Inr st)" and c: "check_side st = Some (Inr ())"
    using assms(1) by (auto simp: side_from_bytes_def bind_res_eq_Inr ensure_res_eq_Inr split: list.splits)
  note c' = c [unfolded check_side_def ensure_res_eq_Inr bind_res_unit]
  have parsed: "\<forall>c\<in>set (side_columns st). parsed_ref c (length bs)" by (rule parse_side_parsed [OF p])
  have short: "ivr_len r < 2 ^ 58" if "r \<in> set (side_columns st)" "assert_nonzero r what = Some (Inr ())" for r what
    using parsed_short [OF _ assms(2)] parsed that by (simp add: assert_nonzero_iff)
  have lens: "ivr_len (st_reifier_reifier st) < 2 ^ 58" "ivr_len (st_local_reifier st) < 2 ^ 58" "ivr_len (st_annotation_pred st) < 2 ^ 58"
    by (rule short, simp add: side_columns_def, use c' in blast)+
  have small: "\<forall>c\<in>set (side_columns st). ivr_len c < 2 ^ 58" using c' lens by (simp add: side_columns_def)
  have inv: "\<forall>c\<in>set (side_columns st). ivr_inv c" using parsed small parsed_inv by blast
  have i: "ivr_inv (st_annotation_offsets st)" "ivr_inv (st_annotation_counts st)" "ivr_inv (st_local_reifier st)" "ivr_inv (st_reifier_reifier st)"
    using inv by (simp_all add: side_columns_def)
  obtain running where r: "prefix_loop (ivr_get (st_annotation_offsets st)) (ivr_get (st_annotation_counts st)) 0 [0..<ivr_len (st_local_reifier st)] = Some (Inr running)"
    "running = of_nat (ivr_len (st_annotation_pred st))" using c' by (auto simp: bind_res_eq_Inr ensure_res_eq_Inr)
  let ?O = "ivr_values (st_annotation_offsets st)" and ?C = "ivr_values (st_annotation_counts st)" and ?m = "ivr_len (st_local_reifier st)"
  have m: "ivr_len (st_annotation_offsets st) = ?m" "ivr_len (st_annotation_counts st) = ?m" using c' by simp_all
  have "unat running = unat (0 :: u64) + sum_list (map (unat \<circ> (!) ?C) [0..<?m]) \<and>
     (\<forall>k<length [0..<?m]. unat (?O ! ([0..<?m] ! k)) = unat (0 :: u64) + sum_list (map (unat \<circ> (!) ?C) (take k [0..<?m])))"
    by (rule prefix_loop_sums [OF _ r(1)]) (simp add: ivr_get_values i m)
  moreover have "map (unat \<circ> (!) ?C) [0..<k] = map unat (take k ?C)" if "k \<le> ?m" for k
    using that m(2) by (simp add: list_eq_iff_nth_eq)
  moreover have "take ?m ?C = ?C" using m(2) by simp
  moreover have "unat running = ivr_len (st_annotation_pred st)" using lens(3) by (simp add: r(2) unat_of_nat_64)
  ultimately show ?thesis using c' inv small i by (simp add: side_valid_def assert_strictly_ascending_iff assert_ascending_iff)
qed

end
