(* ===== verification/SideQuery.thy ===== *)
theory SideQuery
  imports SideOpened
begin

text \<open>
  The queries of valid side tables (\<open>crates/rdf-core/src/ir/pack/side.rs\<close>): the rows they return and
  that the searches select exactly the rows of one reifier.
\<close>

section \<open>The rows of valid tables\<close>

definition reifier_entry :: "side_tables_ref \<Rightarrow> nat \<Rightarrow> quad" where
  "reifier_entry st i = (ivr_values (st_reifier_reifier st) ! i, st_reifies_predicate st,
     ivr_values (st_reifier_triple st) ! i, decode_graph (ivr_values (st_reifier_graph st) ! i))"

definition reifier_entries :: "side_tables_ref \<Rightarrow> quad list" where
  "reifier_entries st = map (reifier_entry st) [0..<ivr_len (st_reifier_reifier st)]"

definition annotation_entry :: "side_tables_ref \<Rightarrow> nat \<Rightarrow> u64 \<times> u64 \<times> u64 option" where
  "annotation_entry st i = (ivr_values (st_annotation_pred st) ! i, ivr_values (st_annotation_obj st) ! i,
     decode_graph (ivr_values (st_annotation_graph st) ! i))"

definition group_start :: "side_tables_ref \<Rightarrow> nat \<Rightarrow> nat" where
  "group_start st k = sum_list (map unat (take k (ivr_values (st_annotation_counts st))))"

definition group_entries :: "side_tables_ref \<Rightarrow> nat \<Rightarrow> quad list" where
  "group_entries st k = map (\<lambda>i. (ivr_values (st_local_reifier st) ! k, annotation_entry st i)) [group_start st k..<group_start st (Suc k)]"

definition annotation_entries :: "side_tables_ref \<Rightarrow> quad list" where
  "annotation_entries st = concat (map (group_entries st) [0..<ivr_len (st_local_reifier st)])"

lemma valid_columns:
  assumes "side_valid st" "c \<in> set (side_columns st)"
  shows "ivr_inv c" "ivr_len c < 2 ^ 58" "i < ivr_len c \<Longrightarrow> ivr_get c i = Some (ivr_values c ! i)"
  using assms ivr_get_values [of c i] by (auto simp: side_valid_def)

lemma reifier_row_entry:
  assumes v: "side_valid st" and i: "i < ivr_len (st_reifier_reifier st)"
  shows "reifier_row st i = Some (reifier_entry st i)"
proof -
  have "ivr_get c i = Some (ivr_values c ! i)" if "c \<in> {st_reifier_reifier st, st_reifier_triple st, st_reifier_graph st}" for c
    by (rule valid_columns(3) [OF v]) (use that i v in \<open>auto simp: side_columns_def side_valid_def\<close>)
  then show ?thesis by (simp add: reifier_row_def reifier_entry_def)
qed

lemma annotation_row_entry:
  assumes v: "side_valid st" and i: "i < ivr_len (st_annotation_pred st)"
  shows "annotation_row st i = Some (annotation_entry st i)"
proof -
  have "ivr_get c i = Some (ivr_values c ! i)" if "c \<in> {st_annotation_pred st, st_annotation_obj st, st_annotation_graph st}" for c
    by (rule valid_columns(3) [OF v]) (use that i v in \<open>auto simp: side_columns_def side_valid_def\<close>)
  then show ?thesis by (simp add: annotation_row_def annotation_entry_def)
qed

section \<open>Reifier rows\<close>

lemma reifier_quads_entries: "side_valid st \<Longrightarrow> reifier_quads st = Some (reifier_entries st)"
  unfolding reifier_quads_def reifier_entries_def by (rule those_map_Some) (simp add: reifier_row_entry)

lemma lower_bound_column:
  assumes "ivr_inv r" "sorted (ivr_values r)"
  obtains k where "lower_bound r t = Some k" "k \<le> ivr_len r"
    "\<And>i. i < ivr_len r \<Longrightarrow> i < k \<longleftrightarrow> ivr_values r ! i < t"
proof -
  obtain k where k: "lower_bound_loop (ivr_get r) t 0 (ivr_len r) = Some k" "k \<le> ivr_len r"
    "\<forall>i. i < k \<longrightarrow> ivr_values r ! i < t" "\<forall>i. k \<le> i \<and> i < ivr_len r \<longrightarrow> t \<le> ivr_values r ! i"
    using borrowed_seq.lower_bound_spec [OF assms(1) _ order_refl assms(2), of 0 t] by auto
  have "i < k \<longleftrightarrow> ivr_values r ! i < t" if "i < ivr_len r" for i
    using k(3,4) that by (meson linorder_not_less)
  then show ?thesis using that k by (simp add: lower_bound_def)
qed

lemma unat_max_word: "unat (- 1 :: u64) = 2 ^ 64 - 1"
  by (simp add: unsigned_minus_1_eq_mask mask_eq_exp_minus_1)

lemma not_max_word:
  assumes "r \<noteq> (- 1 :: u64)"
  shows "unat r + unat (1 :: u64) < 2 ^ 64" "unat (r + 1) = Suc (unat r)"
proof -
  have "unat r \<noteq> unat (- 1 :: u64)" using assms by (metis word_unat_eq_iff)
  then have "unat r \<noteq> 2 ^ 64 - 1" unfolding unat_max_word .
  then show l: "unat r + unat (1 :: u64) < 2 ^ 64" using unsigned_less [of r, where 'a = nat] by simp
  then show "unat (r + 1) = Suc (unat r)" by (simp add: iffD1 [OF unat_add_lem])
qed

lemma word_less_succ: "r \<noteq> - 1 \<Longrightarrow> x < r + 1 \<longleftrightarrow> x \<le> r" for x :: u64
  using not_max_word(2) [of r] by (simp add: word_less_nat_alt word_le_nat_alt less_Suc_eq_le)

lemma saturating_add_one: "saturating_add_u64 r 1 = (if r = - 1 then - 1 else r + 1)"
proof (cases "r = - 1")
  case False
  then show ?thesis using not_max_word(1) [OF False] by (simp add: saturating_add_u64_def checked_add_u64_def)
qed (simp add: saturating_add_u64_def checked_add_u64_def unat_max_word)

lemma reifier_quads_of_entries:
  assumes v: "side_valid st"
  shows "reifier_quads_of st r = Some (if r = - 1 then [] else filter (\<lambda>q. fst q = r) (reifier_entries st))"
proof -
  let ?c = "st_reifier_reifier st" and ?n = "ivr_len (st_reifier_reifier st)"
  have c: "ivr_inv ?c" "sorted (ivr_values ?c)" using v by (auto simp: side_valid_def side_columns_def)
  obtain a where a: "lower_bound ?c r = Some a" "a \<le> ?n" "\<And>i. i < ?n \<Longrightarrow> i < a \<longleftrightarrow> ivr_values ?c ! i < r"
    by (rule lower_bound_column [OF c]) blast
  obtain b where b: "lower_bound ?c (saturating_add_u64 r 1) = Some b" "b \<le> ?n"
    "\<And>i. i < ?n \<Longrightarrow> i < b \<longleftrightarrow> ivr_values ?c ! i < saturating_add_u64 r 1" by (rule lower_bound_column [OF c]) blast
  have "those (map (reifier_row st) [a..<b]) = Some (map (reifier_entry st) [a..<b])"
    using b(2) by (intro those_map_Some) (simp add: reifier_row_entry [OF v])
  then have q: "reifier_quads_of st r = Some (map (reifier_entry st) [a..<b])" by (simp add: reifier_quads_of_def a(1) b(1))
  show ?thesis
  proof (cases "r = - 1")
    case True
    then show ?thesis using a(1) b(1) q by (simp add: saturating_add_one)
  next
    case False
    have "ivr_values ?c ! i = r \<longleftrightarrow> a \<le> i \<and> i < b" if "i < ?n" for i
      using a(3) [OF that] b(3) [OF that] False by (auto simp: saturating_add_one word_less_succ not_less)
    then have "filter (\<lambda>i. ivr_values ?c ! i = r) [0..<?n] = filter (\<lambda>i. a \<le> i \<and> i < b) [0..<?n]" by (intro filter_cong) auto
    then have "filter (\<lambda>q. fst q = r) (reifier_entries st) = map (reifier_entry st) [a..<b]"
      by (simp add: reifier_entries_def filter_map comp_def reifier_entry_def filter_between [OF b(2)])
    then show ?thesis using q False by simp
  qed
qed

section \<open>Annotation rows\<close>

lemma group_bounds:
  assumes v: "side_valid st"
  shows "group_start st 0 = 0" "group_start st (ivr_len (st_local_reifier st)) = ivr_len (st_annotation_pred st)"
    "k < ivr_len (st_local_reifier st) \<Longrightarrow> group_start st (Suc k) = group_start st k + unat (ivr_values (st_annotation_counts st) ! k)"
    "k \<le> l \<Longrightarrow> group_start st k \<le> group_start st l"
proof -
  have len: "length (ivr_values (st_annotation_counts st)) = ivr_len (st_local_reifier st)" using v by (simp add: side_valid_def)
  show "group_start st 0 = 0" by (simp add: group_start_def)
  show "group_start st (ivr_len (st_local_reifier st)) = ivr_len (st_annotation_pred st)"
    using v len by (simp add: group_start_def side_valid_def)
  show "k < ivr_len (st_local_reifier st) \<Longrightarrow> group_start st (Suc k) = group_start st k + unat (ivr_values (st_annotation_counts st) ! k)"
    using len by (simp add: group_start_def take_Suc_conv_app_nth)
  show "k \<le> l \<Longrightarrow> group_start st k \<le> group_start st l"
    unfolding group_start_def by (metis le_add1 le_add_diff_inverse take_add sum_list_append map_append)
qed

lemma group_index:
  assumes v: "side_valid st" and k: "k < ivr_len (st_local_reifier st)"
  obtains off cnt where "ivr_get (st_annotation_offsets st) k = Some off" "ivr_get (st_annotation_counts st) k = Some cnt"
    "unat off = group_start st k" "group_start st (Suc k) = unat off + unat cnt" "unat (off + cnt) = group_start st (Suc k)"
    "group_start st (Suc k) \<le> ivr_len (st_annotation_pred st)" "group_start st (Suc k) < 2 ^ 64"
proof -
  have l: "ivr_len (st_annotation_offsets st) = ivr_len (st_local_reifier st)" "ivr_len (st_annotation_counts st) = ivr_len (st_local_reifier st)"
    using v by (simp_all add: side_valid_def)
  define off where "off = ivr_values (st_annotation_offsets st) ! k"
  define cnt where "cnt = ivr_values (st_annotation_counts st) ! k"
  have "ivr_get (st_annotation_offsets st) k = Some off" "ivr_get (st_annotation_counts st) k = Some cnt"
    unfolding off_def cnt_def by (rule valid_columns(3) [OF v]; simp add: side_columns_def l k)+
  moreover have o: "unat off = group_start st k" using v k by (simp add: off_def side_valid_def group_start_def)
  moreover have s: "group_start st (Suc k) = unat off + unat cnt" using group_bounds(3) [OF v k] o by (simp add: cnt_def)
  moreover have e: "group_start st (Suc k) \<le> ivr_len (st_annotation_pred st)"
    using group_bounds(4) [OF v, of "Suc k" "ivr_len (st_local_reifier st)"] k by (simp add: group_bounds(2) [OF v])
  moreover have "ivr_len (st_annotation_pred st) < 2 ^ 58" by (rule valid_columns(2) [OF v]) (simp add: side_columns_def)
  moreover from this e have b: "group_start st (Suc k) < 2 ^ 64" by simp
  moreover have "unat (off + cnt) = group_start st (Suc k)" using b s by (simp add: iffD1 [OF unat_add_lem])
  ultimately show ?thesis using that by blast
qed

lemma skip_groups_stays:
  assumes "side_valid st" "k < ivr_len (st_local_reifier st)" "row < group_start st (Suc k)"
  shows "skip_groups st row k = Some k"
proof -
  obtain off cnt where "ivr_get (st_annotation_offsets st) k = Some off" "ivr_get (st_annotation_counts st) k = Some cnt"
    "unat (off + cnt) = group_start st (Suc k)" by (rule group_index [OF assms(1,2)]) blast
  then show ?thesis using assms(3) by (subst skip_groups.simps) simp
qed

lemma skip_groups_moves:
  assumes "side_valid st" "Suc k < ivr_len (st_local_reifier st)" "group_start st (Suc k) \<le> row"
  shows "skip_groups st row k = skip_groups st row (Suc k)"
proof -
  obtain off cnt where "ivr_get (st_annotation_offsets st) k = Some off" "ivr_get (st_annotation_counts st) k = Some cnt"
    "unat (off + cnt) = group_start st (Suc k)" by (rule group_index [OF assms(1) Suc_lessD [OF assms(2)]]) blast
  then show ?thesis using assms(2,3) by (subst skip_groups.simps) simp
qed

text \<open>The walk from a row of group \<open>k\<close> yields the rest of the group, then the later groups.\<close>

lemma annotation_drain_groups:
  assumes v: "side_valid st"
  shows "k < ivr_len (st_local_reifier st) \<Longrightarrow> group_start st k \<le> row \<Longrightarrow> row \<le> group_start st (Suc k) \<Longrightarrow>
    annotation_drain st (row, k) = Some (map (\<lambda>i. (ivr_values (st_local_reifier st) ! k, annotation_entry st i)) [row..<group_start st (Suc k)] @
      concat (map (group_entries st) [Suc k..<ivr_len (st_local_reifier st)]))"
proof (induction "(ivr_len (st_annotation_pred st) - row) + (ivr_len (st_local_reifier st) - k)" arbitrary: row k rule: less_induct)
  case less
  let ?m = "ivr_len (st_local_reifier st)" and ?n = "ivr_len (st_annotation_pred st)"
  have top: "group_start st (Suc k) \<le> ?n" by (rule group_index [OF v less.prems(1)])
  consider "row < group_start st (Suc k)" | "row = group_start st (Suc k)" "Suc k = ?m" | "row = group_start st (Suc k)" "Suc k < ?m"
    using less.prems by linarith
  then show ?case
  proof cases
    case 1
    then have row: "row < ?n" using top by simp
    have loc: "ivr_get (st_local_reifier st) k = Some (ivr_values (st_local_reifier st) ! k)"
      by (rule valid_columns(3) [OF v]) (simp_all add: side_columns_def less.prems(1))
    have "annotation_next st (row, k) = Some (Some (ivr_values (st_local_reifier st) ! k, annotation_entry st row), row + 1, k)"
      using row loc skip_groups_stays [OF v less.prems(1) 1] annotation_row_entry [OF v row]
      by (auto simp: annotation_next_def annotation_row_def split: Option.bind_splits)
    moreover have "annotation_drain st (row + 1, k) = Some (map (\<lambda>i. (ivr_values (st_local_reifier st) ! k, annotation_entry st i)) [row + 1..<group_start st (Suc k)] @
      concat (map (group_entries st) [Suc k..<?m]))" by (rule less.hyps) (use less.prems 1 row in simp_all)
    ultimately show ?thesis using 1 by (subst annotation_drain.simps) (simp add: upt_conv_Cons)
  next
    case 2
    then have "row = ?n" using group_bounds(2) [OF v] by simp
    then show ?thesis using 2 by (subst annotation_drain.simps) (simp add: annotation_next_def)
  next
    case 3
    have "annotation_next st (row, k) = (if ?n \<le> row then Some (None, row, k) else annotation_next st (row, Suc k))"
      using skip_groups_moves [OF v 3(2), of row] 3(1) by (simp add: annotation_next_def)
    then have "annotation_drain st (row, k) = annotation_drain st (row, Suc k)"
      by (subst (1 2) annotation_drain.simps) (simp add: annotation_next_def)
    moreover have "annotation_drain st (row, Suc k) = Some (map (\<lambda>i. (ivr_values (st_local_reifier st) ! Suc k, annotation_entry st i)) [row..<group_start st (Suc (Suc k))] @
      concat (map (group_entries st) [Suc (Suc k)..<?m]))"
      by (rule less.hyps) (use 3 less.prems group_bounds(4) [OF v, of "Suc k" "Suc (Suc k)"] in simp_all)
    ultimately show ?thesis using 3 by (simp add: upt_conv_Cons group_entries_def)
  qed
qed

lemma annotation_quads_entries:
  assumes v: "side_valid st"
  shows "annotation_quads st = Some (annotation_entries st)"
proof (cases "ivr_len (st_local_reifier st) = 0")
  case True
  then have "ivr_len (st_annotation_pred st) = 0" using group_bounds(1,2) [OF v] by simp
  then show ?thesis using True by (simp add: annotation_quads_def annotation_drain.simps [of st "(0, 0)"] annotation_next_def annotation_entries_def)
next
  case False
  then show ?thesis using annotation_drain_groups [OF v, of 0 0] group_bounds(1) [OF v]
    by (simp add: annotation_quads_def annotation_entries_def upt_conv_Cons group_entries_def)
qed

section \<open>The annotations of one reifier\<close>

lemma filter_concat_one:
  assumes "k < m" "\<And>j. j < m \<Longrightarrow> (\<forall>q\<in>set (f j). P q \<longleftrightarrow> j = k)"
  shows "filter P (concat (map f [0..<m])) = f k"
proof -
  have one: "filter P (f j) = (if j = k then f k else [])" if "j < m" for j
    using assms(2) [OF that] by (auto simp: filter_empty_conv filter_id_conv)
  have "[0..<m] = [0..<k] @ k # [Suc k..<m]" using assms(1) upt_add_eq_append [of 0 k "m - k"] by (simp add: upt_conv_Cons)
  moreover have "concat (map (\<lambda>j. filter P (f j)) [0..<k]) = []" "concat (map (\<lambda>j. filter P (f j)) [Suc k..<m]) = []"
    using one assms(1) by auto
  ultimately show ?thesis using one [OF assms(1)] by (simp add: filter_concat comp_def del: concat_eq_Nil_conv)
qed

lemma annotations_of_entries:
  assumes v: "side_valid st"
  shows "annotations_of_with_graph st r = Some (map snd (filter (\<lambda>q. fst q = r) (annotation_entries st)))"
proof -
  let ?c = "st_local_reifier st" and ?m = "ivr_len (st_local_reifier st)"
  have c: "reads ?c (ivr_values ?c)" "sorted_wrt (<) (ivr_values ?c)" "?m < 2 ^ 58"
    using v by (auto simp: side_valid_def side_columns_def reads_def)
  show ?thesis
  proof (cases "r \<in> set (ivr_values ?c)")
    case False
    then have "filter (\<lambda>q. fst q = r) (annotation_entries st) = []"
      by (auto simp: filter_empty_conv annotation_entries_def group_entries_def in_set_conv_nth)
    then show ?thesis using local_lookup_absent [OF c(1) False] by (simp add: annotations_of_with_graph_def)
  next
    case True
    then obtain k where k: "k < ?m" "ivr_values ?c ! k = r" by (auto simp: in_set_conv_nth)
    have look: "local_lookup ?c r = Some (Some (of_nat k))" using local_lookup_found [OF c(1,2), of k] k by simp
    obtain off cnt where o: "ivr_get (st_annotation_offsets st) k = Some off" "ivr_get (st_annotation_counts st) k = Some cnt"
      "unat off = group_start st k" "group_start st (Suc k) = unat off + unat cnt"
      "group_start st (Suc k) \<le> ivr_len (st_annotation_pred st)" "group_start st (Suc k) < 2 ^ 64" by (rule group_index [OF v k(1)])
    have u: "unat (of_nat k :: u64) = k" using k(1) c(3) by (intro unat_of_nat_64) simp
    have e: "usize_wrapping_add (unat off) (unat cnt) = group_start st (Suc k)"
      using o(4,6) by (simp add: usize_wrapping_add_def)
    have rows: "those (map (annotation_row st) [group_start st k..<group_start st (Suc k)]) =
        Some (map (annotation_entry st) [group_start st k..<group_start st (Suc k)])"
      using o(5) by (intro those_map_Some) (simp add: annotation_row_entry [OF v])
    have "filter (\<lambda>q. fst q = r) (annotation_entries st) = group_entries st k" unfolding annotation_entries_def
      by (rule filter_concat_one [OF k(1)]) (use strict_nth_eq [OF c(2)] k in \<open>auto simp: group_entries_def\<close>)
    then show ?thesis using rows by (simp add: annotations_of_with_graph_def look u o(1,2) e group_entries_def comp_def) (simp add: o(3))
  qed
qed

section \<open>Graph references\<close>

lemma graph_column_total:
  "\<forall>i\<in>set is. get i = Some (f i) \<Longrightarrow> graph_column get is = Some (List.map_filter (\<lambda>i. decode_graph (f i)) is)"
  by (induction "is") (auto simp: map_filter_simps split: option.splits)

lemma names_graph_total:
  "\<forall>i\<in>set is. get i = Some (f i) \<Longrightarrow> names_graph get is = Some (List.map_filter (\<lambda>i. decode_graph (f i)) is \<noteq> [])"
  by (induction "is") (auto simp: map_filter_simps split: option.splits)

definition graph_entries :: "side_tables_ref \<Rightarrow> u64 list" where
  "graph_entries st = List.map_filter (\<lambda>(r, p, t, g). g) (reifier_entries st) @ List.map_filter (\<lambda>(r, p, ob, g). g) (annotation_entries st)"

lemma map_filter_map: "List.map_filter f (map g xs) = List.map_filter (f \<circ> g) xs"
  by (induction xs) (simp_all add: map_filter_simps split: option.splits)

lemma map_filter_append: "List.map_filter f (xs @ ys) = List.map_filter f xs @ List.map_filter f ys"
  by (induction xs) (simp_all add: map_filter_simps split: option.splits)

lemma annotation_graphs:
  assumes v: "side_valid st"
  shows "k \<le> ivr_len (st_local_reifier st) \<Longrightarrow> List.map_filter (\<lambda>(r, p, ob, g). g) (concat (map (group_entries st) [0..<k])) =
    List.map_filter (\<lambda>i. decode_graph (ivr_values (st_annotation_graph st) ! i)) [0..<group_start st k]"
proof (induction k)
  case (Suc k)
  have "List.map_filter (\<lambda>(r, p, ob, g). g) (group_entries st k) =
      List.map_filter (\<lambda>i. decode_graph (ivr_values (st_annotation_graph st) ! i)) [group_start st k..<group_start st (Suc k)]"
    by (simp add: group_entries_def map_filter_map comp_def annotation_entry_def)
  moreover have "[0..<group_start st (Suc k)] = [0..<group_start st k] @ [group_start st k..<group_start st (Suc k)]"
    using group_bounds(4) [OF v, of k "Suc k"] by (metis le_SucI order_refl le_add_diff_inverse upt_add_eq_append zero_le)
  ultimately show ?case using Suc by (simp add: map_filter_append)
qed (simp add: group_bounds(1) [OF v] map_filter_simps)

lemma graph_references_entries:
  assumes v: "side_valid st"
  shows "graph_references st = Some (graph_entries st)" "has_graph_reference st = Some (graph_entries st \<noteq> [])"
proof -
  let ?R = "st_reifier_graph st" and ?A = "st_annotation_graph st"
  have l: "ivr_len ?R = ivr_len (st_reifier_reifier st)" "ivr_len ?A = ivr_len (st_annotation_pred st)"
    using v by (simp_all add: side_valid_def)
  have g: "\<forall>i\<in>set [0..<ivr_len c]. ivr_get c i = Some (ivr_values c ! i)" if "c \<in> {?R, ?A}" for c
    using valid_columns(3) [OF v, of c] that by (auto simp: side_columns_def)
  have r: "List.map_filter (\<lambda>i. decode_graph (ivr_values ?R ! i)) [0..<ivr_len ?R] = List.map_filter (\<lambda>(r, p, t, g). g) (reifier_entries st)"
    by (simp add: l reifier_entries_def map_filter_map comp_def reifier_entry_def)
  have a: "List.map_filter (\<lambda>i. decode_graph (ivr_values ?A ! i)) [0..<ivr_len ?A] = List.map_filter (\<lambda>(r, p, ob, g). g) (annotation_entries st)"
    using annotation_graphs [OF v order_refl] by (simp add: l annotation_entries_def group_bounds(2) [OF v])
  show "graph_references st = Some (graph_entries st)"
    using graph_column_total [OF g [of ?R]] graph_column_total [OF g [of ?A]] r a by (simp add: graph_references_def graph_entries_def)
  show "has_graph_reference st = Some (graph_entries st \<noteq> [])"
    using names_graph_total [OF g [of ?R]] names_graph_total [OF g [of ?A]] r a by (simp add: has_graph_reference_def graph_entries_def)
qed

end
