(* ===== verification/SideWrite.thy ===== *)
theory SideWrite
  imports SideQuery
begin

text \<open>
  Written side tables open again (\<open>crates/rdf-core/src/ir/pack/side.rs\<close>): the buffer that
  \<open>SideTables::try_encode\<close> writes for sorted rows passes every check and its queries return the rows.
\<close>

section \<open>The groups of the annotation rows\<close>

abbreviation group_counts :: "(u64 \<times> nat \<times> nat) list \<Rightarrow> nat list" where
  "group_counts G \<equiv> map (snd \<circ> snd) G"

lemma annotation_groups_step:
  fixes rows :: "(u64 \<times> 'a) list"
  defines "n \<equiv> \<lambda>row. length (takeWhile (\<lambda>x. fst x = fst row) (row # rows))"
  shows "annotation_groups i (row # rows) = (fst row, i, n row) # annotation_groups (i + n row) (drop (n row) (row # rows))"
    "0 < n row" "n row \<le> length (row # rows)" "j < n row \<Longrightarrow> fst ((row # rows) ! j) = fst row"
    "remdups_adj (map fst (row # rows)) = fst row # remdups_adj (map fst (drop (n row) (row # rows)))"
proof -
  show "annotation_groups i (row # rows) = (fst row, i, n row) # annotation_groups (i + n row) (drop (n row) (row # rows))"
    by (simp add: n_def Let_def)
  show "0 < n row" by (simp add: n_def)
  show "n row \<le> length (row # rows)" unfolding n_def by (rule length_takeWhile_le)
  show "fst ((row # rows) ! j) = fst row" if "j < n row"
  proof -
    have j: "j < length (takeWhile (\<lambda>x. fst x = fst row) (row # rows))" using that by (simp only: n_def)
    show ?thesis using conjunct2 [OF set_takeWhileD [OF nth_mem [OF j]]] unfolding takeWhile_nth [OF j] .
  qed
  have d: "drop (n row) (row # rows) = dropWhile (\<lambda>x. fst x = fst row) rows"
    by (simp add: n_def dropWhile_eq_drop [of _ rows])
  show "remdups_adj (map fst (row # rows)) = fst row # remdups_adj (map fst (drop (n row) (row # rows)))"
    by (simp add: d remdups_adj_Cons' dropWhile_map comp_def)
qed

declare annotation_groups.simps(2) [simp del]

lemma annotation_groups_facts:
  "map fst (annotation_groups s rows) = remdups_adj (map fst rows) \<and>
   sum_list (group_counts (annotation_groups s rows)) = length rows \<and>
   (\<forall>k<length (annotation_groups s rows). fst (snd (annotation_groups s rows ! k)) = s + sum_list (take k (group_counts (annotation_groups s rows))) \<and>
     (\<forall>i. sum_list (take k (group_counts (annotation_groups s rows))) \<le> i \<and> i < sum_list (take (Suc k) (group_counts (annotation_groups s rows))) \<longrightarrow>
        fst (rows ! i) = fst (annotation_groups s rows ! k)))"
proof (induction "length rows" arbitrary: s rows rule: less_induct)
  case less
  show ?case
  proof (cases rows)
    case (Cons row rest)
    define n where "n = length (takeWhile (\<lambda>x. fst x = fst row) (row # rest))"
    note step = annotation_groups_step [where row = row and rows = rest, folded n_def]
    define G where "G = annotation_groups (s + n) (drop n rows)"
    have g: "annotation_groups s rows = (fst row, s, n) # G" using step(1) by (simp only: Cons G_def)
    have IH: "map fst G = remdups_adj (map fst (drop n rows))" "sum_list (group_counts G) = length (drop n rows)"
      "\<forall>k<length G. fst (snd (G ! k)) = s + n + sum_list (take k (group_counts G)) \<and>
         (\<forall>i. sum_list (take k (group_counts G)) \<le> i \<and> i < sum_list (take (Suc k) (group_counts G)) \<longrightarrow> fst (drop n rows ! i) = fst (G ! k))"
      using less [of "drop n rows" "s + n"] step(2,3) unfolding G_def Cons by auto
    have keys: "map fst (annotation_groups s rows) = remdups_adj (map fst rows)"
      unfolding g unfolding Cons step(5) using IH(1) [unfolded Cons] by simp
    have cnt: "sum_list (group_counts (annotation_groups s rows)) = length rows" unfolding g using IH(2) step(3) by (simp add: Cons)
    have "fst (snd (annotation_groups s rows ! k)) = s + sum_list (take k (group_counts (annotation_groups s rows))) \<and>
     (\<forall>i. sum_list (take k (group_counts (annotation_groups s rows))) \<le> i \<and> i < sum_list (take (Suc k) (group_counts (annotation_groups s rows))) \<longrightarrow>
        fst (rows ! i) = fst (annotation_groups s rows ! k))" if k: "k < length (annotation_groups s rows)" for k
    proof (cases k)
      case 0
      show ?thesis using step(4) unfolding 0 g by (simp add: Cons)
    next
      case (Suc l)
      then have l: "l < length G" using k by (simp add: g)
      have "fst (rows ! i) = fst (G ! l)" if "n + sum_list (take l (group_counts G)) \<le> i" "i < n + sum_list (take (Suc l) (group_counts G))" for i
      proof -
        have "sum_list (take l (group_counts G)) \<le> i - n" "i - n < sum_list (take (Suc l) (group_counts G))" using that by linarith+
        then have "fst (drop n rows ! (i - n)) = fst (G ! l)" using IH(3) l by blast
        moreover have "n + (i - n) = i" using that(1) by simp
        moreover have "n \<le> length rows" using step(3) by (simp add: Cons)
        ultimately show ?thesis by simp
      qed
      then show ?thesis using IH(3) l by (simp add: g Suc)
    qed
    then show ?thesis using keys cnt by blast
  qed simp
qed

section \<open>The checks on written tables\<close>

lemma prefix_loop_ok:
  "\<forall>i\<in>set is. offs i = Some (of_nat (f i)) \<and> cnts i = Some (of_nat (c i)) \<Longrightarrow> r + sum_list (map c is) < 2 ^ 64 \<Longrightarrow>
     \<forall>k<length is. f (is ! k) = r + sum_list (map c (take k is)) \<Longrightarrow>
     prefix_loop offs cnts (of_nat r) is = Some (Inr (of_nat (r + sum_list (map c is))))"
proof (induction "is" arbitrary: r)
  case (Cons i "is")
  have f: "f i = r" using Cons.prems(3) by fastforce
  have g: "offs i = Some (of_nat r)" "cnts i = Some (of_nat (c i))" using Cons.prems(1) f by simp_all
  have s: "r + c i < 2 ^ 64" using Cons.prems(2) by simp
  have u: "unat (of_nat r :: u64) + unat (of_nat (c i) :: u64) = r + c i"
    using s by (simp add: unat_of_nat_64)
  have "\<forall>k<length is. f (is ! k) = r + c i + sum_list (map c (take k is))" using Cons.prems(3) by fastforce
  then have "prefix_loop offs cnts (of_nat (r + c i)) is = Some (Inr (of_nat (r + c i + sum_list (map c is))))"
    using Cons.prems(1,2) by (intro Cons.IH) (simp_all add: add.assoc)
  moreover have "checked_add_u64 (of_nat r) (of_nat (c i)) = Some (of_nat (r + c i))"
    using s by (simp add: checked_add_u64_def u)
  ultimately show ?case using g by (simp add: add.assoc)
qed simp

lemma assert_nonzero_ok: "reads r xs \<Longrightarrow> 0 \<notin> set xs \<Longrightarrow> assert_nonzero r what = Some (Inr ())"
  by (auto simp: assert_nonzero_iff reads_get reads_len) (metis nth_mem)

lemma assert_ascending_ok: "reads r xs \<Longrightarrow> sorted xs \<Longrightarrow> assert_ascending r what = Some (Inr ())"
  by (simp add: reads_def assert_ascending_iff)

lemma packed_column_ok:
  assumes "length xs \<le> 2 ^ 57"
  obtains v where "packed_column xs = Some (iv_to_bytes v)" "holds v xs"
  using from_values_holds [OF assms] by (metis packed_column_def option.simps(9))

section \<open>Opening written tables\<close>

type_synonym reifier_cols = "u64 \<times> u64 \<times> u64"
type_synonym annotation_cols = "u64 \<times> u64 \<times> u64 \<times> u64"

definition rows_ok :: "u64 \<Rightarrow> reifier_cols list \<Rightarrow> annotation_cols list \<Rightarrow> bool" where
  "rows_ok reifies rr ar \<longleftrightarrow> sorted (map fst rr) \<and> (\<forall>(r, t, g)\<in>set rr. r \<noteq> 0 \<and> t \<noteq> 0) \<and> (reifies = 0 \<longleftrightarrow> rr = []) \<and>
     sorted (map fst ar) \<and> (\<forall>(r, p, ob, g)\<in>set ar. r \<noteq> 0 \<and> p \<noteq> 0 \<and> ob \<noteq> 0) \<and> length rr < 2 ^ 48 \<and> length ar < 2 ^ 48"

text \<open>Tables whose columns are those of the rows.\<close>

definition side_view :: "side_tables_ref \<Rightarrow> u64 \<Rightarrow> reifier_cols list \<Rightarrow> annotation_cols list \<Rightarrow> bool" where
  "side_view st reifies rr ar \<longleftrightarrow> (let G = annotation_groups 0 ar in st_reifies_predicate st = reifies \<and>
     reads (st_reifier_reifier st) (map fst rr) \<and> reads (st_reifier_triple st) (map (fst \<circ> snd) rr) \<and> reads (st_reifier_graph st) (map (snd \<circ> snd) rr) \<and>
     reads (st_local_reifier st) (map fst G) \<and> reads (st_annotation_offsets st) (map (of_nat \<circ> fst \<circ> snd) G) \<and>
     reads (st_annotation_counts st) (map (of_nat \<circ> snd \<circ> snd) G) \<and> reads (st_annotation_pred st) (map (fst \<circ> snd) ar) \<and>
     reads (st_annotation_obj st) (map (fst \<circ> snd \<circ> snd) ar) \<and> reads (st_annotation_graph st) (map (snd \<circ> snd \<circ> snd) ar))"

lemma groups_le: "length (annotation_groups s rows) \<le> length rows"
  using annotation_groups_facts [of s rows] by (metis length_map remdups_adj_length)

lemma written_side_parses:
  assumes ok: "rows_ok reifies rr ar"
  obtains bs st where "write_side reifies rr ar = Some bs" "parse_side bs = Some (Inr st)" "side_view st reifies rr ar"
    "length bs \<le> 117 + 24 * length rr + 48 * length ar" "\<exists>rest. bs = SIDE_FORMAT_VERSION # rest"
proof -
  define G where "G = annotation_groups 0 ar"
  have l: "length rr \<le> 2 ^ 57" "length ar \<le> 2 ^ 57" "length G \<le> length ar" "length G \<le> 2 ^ 57"
    using ok groups_le [of 0 ar] by (auto simp: rows_ok_def G_def)
  obtain v1 where v1: "packed_column (map fst rr) = Some (iv_to_bytes v1)" "holds v1 (map fst rr)" by (rule packed_column_ok [of "map fst rr"]) (use l in simp)
  obtain v2 where v2: "packed_column (map (fst \<circ> snd) rr) = Some (iv_to_bytes v2)" "holds v2 (map (fst \<circ> snd) rr)" by (rule packed_column_ok [of "map (fst \<circ> snd) rr"]) (use l in simp)
  obtain v3 where v3: "packed_column (map (snd \<circ> snd) rr) = Some (iv_to_bytes v3)" "holds v3 (map (snd \<circ> snd) rr)" by (rule packed_column_ok [of "map (snd \<circ> snd) rr"]) (use l in simp)
  obtain v4 where v4: "packed_column (map fst G) = Some (iv_to_bytes v4)" "holds v4 (map fst G)" by (rule packed_column_ok [of "map fst G"]) (use l in simp)
  obtain v5 where v5: "packed_column (map (of_nat \<circ> fst \<circ> snd) G) = Some (iv_to_bytes v5)" "holds v5 (map (of_nat \<circ> fst \<circ> snd) G)"
    by (rule packed_column_ok [of "map (of_nat \<circ> fst \<circ> snd) G"]) (use l in simp)
  obtain v6 where v6: "packed_column (map (of_nat \<circ> snd \<circ> snd) G) = Some (iv_to_bytes v6)" "holds v6 (map (of_nat \<circ> snd \<circ> snd) G)"
    by (rule packed_column_ok [of "map (of_nat \<circ> snd \<circ> snd) G"]) (use l in simp)
  obtain v7 where v7: "packed_column (map (fst \<circ> snd) ar) = Some (iv_to_bytes v7)" "holds v7 (map (fst \<circ> snd) ar)" by (rule packed_column_ok [of "map (fst \<circ> snd) ar"]) (use l in simp)
  obtain v8 where v8: "packed_column (map (fst \<circ> snd \<circ> snd) ar) = Some (iv_to_bytes v8)" "holds v8 (map (fst \<circ> snd \<circ> snd) ar)"
    by (rule packed_column_ok [of "map (fst \<circ> snd \<circ> snd) ar"]) (use l in simp)
  obtain v9 where v9: "packed_column (map (snd \<circ> snd \<circ> snd) ar) = Some (iv_to_bytes v9)" "holds v9 (map (snd \<circ> snd \<circ> snd) ar)"
    by (rule packed_column_ok [of "map (snd \<circ> snd \<circ> snd) ar"]) (use l in simp)
  let ?t9 = "iv_to_bytes v9 @ []" let ?t8 = "iv_to_bytes v8 @ ?t9" let ?t7 = "iv_to_bytes v7 @ ?t8" let ?t6 = "iv_to_bytes v6 @ ?t7"
  let ?t5 = "iv_to_bytes v5 @ ?t6" let ?t4 = "iv_to_bytes v4 @ ?t5" let ?t3 = "iv_to_bytes v3 @ ?t4" let ?t2 = "iv_to_bytes v2 @ ?t3"
  let ?t1 = "iv_to_bytes v1 @ ?t2"
  define bs where "bs = SIDE_FORMAT_VERSION # le_bytes 8 reifies @ ?t1"
  have w: "write_side reifies rr ar = Some bs"
    by (simp add: write_side_def G_def [symmetric] v1(1) v2(1) v3(1) v4(1) v5(1) v6(1) v7(1) v8(1) v9(1) bs_def)
  have a: "at bs 1 (le_bytes 8 reifies @ ?t1)" by (simp add: at_def bs_def)
  obtain p0 where e0: "read_header_u64 bs 1 = Inr (reifies, p0)" and a0: "at bs p0 ?t1" by (rule header_section [OF a])
  obtain r1 p1 where e1: "iv_section bs p0 = Some (Inr (r1, p1))" and a1: "at bs p1 ?t2" and w1: "reads r1 (map fst rr)" by (rule iv_section [OF a0 v1(2)])
  obtain r2 p2 where e2: "iv_section bs p1 = Some (Inr (r2, p2))" and a2: "at bs p2 ?t3" and w2: "reads r2 (map (fst \<circ> snd) rr)" by (rule iv_section [OF a1 v2(2)])
  obtain r3 p3 where e3: "iv_section bs p2 = Some (Inr (r3, p3))" and a3: "at bs p3 ?t4" and w3: "reads r3 (map (snd \<circ> snd) rr)" by (rule iv_section [OF a2 v3(2)])
  obtain r4 p4 where e4: "iv_section bs p3 = Some (Inr (r4, p4))" and a4: "at bs p4 ?t5" and w4: "reads r4 (map fst G)" by (rule iv_section [OF a3 v4(2)])
  obtain r5 p5 where e5: "iv_section bs p4 = Some (Inr (r5, p5))" and a5: "at bs p5 ?t6" and w5: "reads r5 (map (of_nat \<circ> fst \<circ> snd) G)" by (rule iv_section [OF a4 v5(2)])
  obtain r6 p6 where e6: "iv_section bs p5 = Some (Inr (r6, p6))" and a6: "at bs p6 ?t7" and w6: "reads r6 (map (of_nat \<circ> snd \<circ> snd) G)" by (rule iv_section [OF a5 v6(2)])
  obtain r7 p7 where e7: "iv_section bs p6 = Some (Inr (r7, p7))" and a7: "at bs p7 ?t8" and w7: "reads r7 (map (fst \<circ> snd) ar)" by (rule iv_section [OF a6 v7(2)])
  obtain r8 p8 where e8: "iv_section bs p7 = Some (Inr (r8, p8))" and a8: "at bs p8 ?t9" and w8: "reads r8 (map (fst \<circ> snd \<circ> snd) ar)" by (rule iv_section [OF a7 v8(2)])
  obtain r9 p9 where e9: "iv_section bs p8 = Some (Inr (r9, p9))" and w9: "reads r9 (map (snd \<circ> snd \<circ> snd) ar)" by (rule iv_section [OF a8 v9(2)])
  have "parse_side bs = Some (Inr \<lparr>st_reifies_predicate = reifies, st_reifier_reifier = r1, st_reifier_triple = r2, st_reifier_graph = r3,
      st_local_reifier = r4, st_annotation_offsets = r5, st_annotation_counts = r6, st_annotation_pred = r7, st_annotation_obj = r8, st_annotation_graph = r9\<rparr>)"
    by (simp only: parse_side_def e0 e1 e2 e3 e4 e5 e6 e7 e8 e9 bind_res_simps prod.case)
  moreover have "length bs \<le> 117 + 24 * length rr + 48 * length ar"
    using iv_size [OF v1(2)] iv_size [OF v2(2)] iv_size [OF v3(2)] iv_size [OF v4(2)] iv_size [OF v5(2)] iv_size [OF v6(2)]
      iv_size [OF v7(2)] iv_size [OF v8(2)] iv_size [OF v9(2)] l(3) by (simp add: bs_def)
  ultimately show ?thesis using that [OF w] w1 w2 w3 w4 w5 w6 w7 w8 w9 by (simp add: side_view_def G_def bs_def)
qed

text \<open>The tables pass the checks.\<close>

lemma written_side_checks:
  assumes ok: "rows_ok reifies rr ar" and v: "side_view st reifies rr ar"
  shows "check_side st = Some (Inr ())"
proof -
  define G where "G = annotation_groups 0 ar"
  note v' = v [unfolded side_view_def Let_def, folded G_def]
  have facts: "map fst G = remdups_adj (map fst ar)" "sum_list (group_counts G) = length ar"
    "\<And>k. k < length G \<Longrightarrow> fst (snd (G ! k)) = sum_list (take k (group_counts G))"
    using annotation_groups_facts [of 0 ar] by (simp_all add: G_def)
  have len: "ivr_len (st_reifier_reifier st) = length rr" "ivr_len (st_reifier_triple st) = length rr" "ivr_len (st_reifier_graph st) = length rr"
    "ivr_len (st_local_reifier st) = length G" "ivr_len (st_annotation_offsets st) = length G" "ivr_len (st_annotation_counts st) = length G"
    "ivr_len (st_annotation_pred st) = length ar" "ivr_len (st_annotation_obj st) = length ar" "ivr_len (st_annotation_graph st) = length ar"
    using v' by (auto dest: reads_len)
  have asc: "sorted_wrt (<) (map fst G)" using ok by (simp add: facts(1) rows_ok_def strict_remdups_adj)
  have nz: "0 \<notin> set (map fst rr)" "0 \<notin> set (map (fst \<circ> snd) rr)" "0 \<notin> set (map (fst \<circ> snd) ar)" "0 \<notin> set (map (fst \<circ> snd \<circ> snd) ar)"
    "0 \<notin> set (map fst ar)" using ok by (force simp: rows_ok_def)+
  have nzl: "0 \<notin> set (map fst G)" using nz(5) by (metis facts(1) remdups_adj_set)
  have pre: "prefix_loop (ivr_get (st_annotation_offsets st)) (ivr_get (st_annotation_counts st)) (of_nat 0) [0..<length G] =
      Some (Inr (of_nat (0 + sum_list (map (\<lambda>k. snd (snd (G ! k))) [0..<length G]))))"
  proof (rule prefix_loop_ok [where f = "\<lambda>k. fst (snd (G ! k))"])
    show "\<forall>i\<in>set [0..<length G]. ivr_get (st_annotation_offsets st) i = Some (of_nat (fst (snd (G ! i)))) \<and>
        ivr_get (st_annotation_counts st) i = Some (of_nat (snd (snd (G ! i))))" using v' by (auto simp: reads_get)
    have c: "map (\<lambda>k. snd (snd (G ! k))) [0..<k] = take k (group_counts G)" if "k \<le> length G" for k
      using that by (intro nth_equalityI) simp_all
    show "0 + sum_list (map (\<lambda>k. snd (snd (G ! k))) [0..<length G]) < 2 ^ 64"
      using c [of "length G"] facts(2) ok by (simp add: rows_ok_def)
    show "\<forall>k<length [0..<length G]. fst (snd (G ! ([0..<length G] ! k))) = 0 + sum_list (map (\<lambda>k. snd (snd (G ! k))) (take k [0..<length G]))"
      using facts(3) c by simp
  qed
  have "map (\<lambda>k. snd (snd (G ! k))) [0..<length G] = group_counts G" by (intro nth_equalityI) simp_all
  then have tot: "0 + sum_list (map (\<lambda>k. snd (snd (G ! k))) [0..<length G]) = length ar" using facts(2) by simp
  have "assert_strictly_ascending (st_local_reifier st) w = Some (Inr ())" "assert_ascending (st_reifier_reifier st) w = Some (Inr ())"
    "assert_nonzero (st_reifier_reifier st) w = Some (Inr ())" "assert_nonzero (st_reifier_triple st) w = Some (Inr ())"
    "assert_nonzero (st_local_reifier st) w = Some (Inr ())" "assert_nonzero (st_annotation_pred st) w = Some (Inr ())"
    "assert_nonzero (st_annotation_obj st) w = Some (Inr ())" for w
    using v' asc ok nz nzl by (auto intro: assert_strictly_ascending_ok assert_ascending_ok assert_nonzero_ok simp: rows_ok_def)
  moreover have "st_reifies_predicate st = 0 \<longleftrightarrow> rr = []" using v' ok by (simp add: rows_ok_def)
  ultimately show ?thesis using pre unfolding tot by (simp add: check_side_def len)
qed

text \<open>The rows the reader returns.\<close>

definition reifier_quad :: "u64 \<Rightarrow> reifier_cols \<Rightarrow> quad" where
  "reifier_quad reifies = (\<lambda>(r, t, g). (r, reifies, t, decode_graph g))"

definition annotation_quad :: "annotation_cols \<Rightarrow> quad" where
  "annotation_quad = (\<lambda>(r, p, ob, g). (r, p, ob, decode_graph g))"

lemma view_reifier_entries:
  assumes "side_view st reifies rr ar"
  shows "reifier_entries st = map (reifier_quad reifies) rr"
proof -
  have r: "reads (st_reifier_reifier st) (map fst rr)" "reads (st_reifier_triple st) (map (fst \<circ> snd) rr)"
    "reads (st_reifier_graph st) (map (snd \<circ> snd) rr)" "st_reifies_predicate st = reifies" using assms by (simp_all add: side_view_def Let_def)
  have v: "ivr_values (st_reifier_reifier st) = map fst rr" "ivr_values (st_reifier_triple st) = map (fst \<circ> snd) rr"
    "ivr_values (st_reifier_graph st) = map (snd \<circ> snd) rr" using r(1-3) by (simp_all add: reads_def)
  have "reifier_entry st i = reifier_quad reifies (rr ! i)" if "i < length rr" for i
    using that by (simp add: reifier_entry_def v r(4) reifier_quad_def case_prod_unfold)
  then have "map (reifier_entry st) [0..<length rr] = map (reifier_quad reifies) rr" by (intro nth_equalityI) simp_all
  then show ?thesis using reads_len [OF r(1)] by (simp add: reifier_entries_def)
qed

lemma view_annotation_entries:
  assumes ok: "rows_ok reifies rr ar" and v: "side_view st reifies rr ar" and valid: "side_valid st"
  shows "annotation_entries st = map annotation_quad ar"
proof -
  define G where "G = annotation_groups 0 ar"
  have f: "sum_list (group_counts G) = length ar" "\<And>k i. k < length G \<Longrightarrow> sum_list (take k (group_counts G)) \<le> i \<Longrightarrow>
      i < sum_list (take (Suc k) (group_counts G)) \<Longrightarrow> fst (ar ! i) = fst (G ! k)"
    using annotation_groups_facts [of 0 ar] by (simp_all add: G_def)
  have r: "reads (st_local_reifier st) (map fst G)" "reads (st_annotation_counts st) (map (of_nat \<circ> snd \<circ> snd) G)"
    "reads (st_annotation_pred st) (map (fst \<circ> snd) ar)" "reads (st_annotation_obj st) (map (fst \<circ> snd \<circ> snd) ar)"
    "reads (st_annotation_graph st) (map (snd \<circ> snd \<circ> snd) ar)" using v by (simp_all add: side_view_def Let_def G_def)
  have c: "ivr_values (st_local_reifier st) = map fst G" "ivr_values (st_annotation_counts st) = map (of_nat \<circ> snd \<circ> snd) G"
    "ivr_values (st_annotation_pred st) = map (fst \<circ> snd) ar" "ivr_values (st_annotation_obj st) = map (fst \<circ> snd \<circ> snd) ar"
    "ivr_values (st_annotation_graph st) = map (snd \<circ> snd \<circ> snd) ar" using r by (simp_all add: reads_def)
  have m: "ivr_len (st_local_reifier st) = length G" using reads_len [OF r(1)] by simp
  have le: "snd (snd q) \<le> length ar" if "q \<in> set G" for q using member_le_sum_list [of "snd (snd q)" "group_counts G"] that f(1) by auto
  have small: "length ar < 2 ^ 64" using ok by (simp add: rows_ok_def)
  have "unat (of_nat (snd (snd q)) :: u64) = snd (snd q)" if "q \<in> set G" for q
    by (rule unat_of_nat_64, rule le_less_trans [OF le [OF that] small])
  then have "map (\<lambda>q. unat (of_nat (snd (snd q)) :: u64)) G = map (\<lambda>q. snd (snd q)) G" by (intro map_cong refl) blast
  then have "map unat (ivr_values (st_annotation_counts st)) = group_counts G" by (simp only: c map_map comp_def)
  then have start: "group_start st k = sum_list (take k (group_counts G))" for k by (simp add: group_start_def flip: take_map)
  have row: "(fst (ar ! i), annotation_entry st i) = annotation_quad (ar ! i)" if "i < length ar" for i
    using that by (simp add: annotation_entry_def c annotation_quad_def case_prod_unfold)
  have "concat (map (group_entries st) [0..<k]) = map (\<lambda>i. annotation_quad (ar ! i)) [0..<group_start st k]" if "k \<le> length G" for k
    using that
  proof (induction k)
    case (Suc k)
    have top: "group_start st (Suc k) \<le> length ar" using group_bounds(4) [OF valid, of "Suc k" "length G"] Suc.prems f(1) by (simp add: start)
    have "group_entries st k = map (\<lambda>i. annotation_quad (ar ! i)) [group_start st k..<group_start st (Suc k)]"
      unfolding group_entries_def using Suc.prems f(2) [of k] top by (auto simp: c start simp flip: row)
    moreover have "[0..<group_start st (Suc k)] = [0..<group_start st k] @ [group_start st k..<group_start st (Suc k)]"
      using group_bounds(4) [OF valid, of k "Suc k"] by (metis le_SucI order_refl le_add_diff_inverse upt_add_eq_append zero_le)
    ultimately show ?case using Suc by simp
  qed (simp add: start)
  from this [of "length G"] have "annotation_entries st = map (\<lambda>i. annotation_quad (ar ! i)) [0..<length ar]"
    using f(1) by (simp add: annotation_entries_def m start)
  also have "\<dots> = map annotation_quad ar" by (intro nth_equalityI) simp_all
  finally show ?thesis .
qed

text \<open>Writing sorted rows and opening the buffer gives them back.\<close>

lemma written_side_opens:
  assumes ok: "rows_ok reifies rr ar"
  obtains bs st where "write_side reifies rr ar = Some bs" "side_from_bytes bs = Some (Inr st)" "side_valid st"
    "reifier_entries st = map (reifier_quad reifies) rr" "annotation_entries st = map annotation_quad ar"
    "length bs \<le> 117 + 24 * length rr + 48 * length ar"
proof -
  obtain bs st rest where w: "write_side reifies rr ar = Some bs" "parse_side bs = Some (Inr st)" "side_view st reifies rr ar"
    "length bs \<le> 117 + 24 * length rr + 48 * length ar" "bs = SIDE_FORMAT_VERSION # rest"
    using written_side_parses [OF ok] by metis
  have opens: "side_from_bytes bs = Some (Inr st)"
    using w(2) written_side_checks [OF ok w(3)] by (simp add: side_from_bytes_def w(5))
  have "length bs < 2 ^ 55" using w(4) ok by (simp add: rows_ok_def)
  then have valid: "side_valid st" by (rule opened_side_valid [OF opens])
  show ?thesis by (rule that [OF w(1) opens valid view_reifier_entries [OF w(3)] view_annotation_entries [OF ok w(3) valid] w(4)])
qed

end
