(* ===== verification/SideIndex.thy ===== *)
theory SideIndex
  imports SideWrite
begin

text \<open>
  The side tables of a dataset view (\<open>SideTables::try_encode\<close> in
  \<open>crates/rdf-core/src/ir/pack/side.rs\<close>): over a dictionary that knows the view's terms the encoder
  succeeds and its buffer holds exactly the view's reifier and annotation rows. Then the property of
  opened tables.
\<close>

section \<open>The rows of a view\<close>

definition graph_number :: "('id \<Rightarrow> u64) \<Rightarrow> 'id option \<Rightarrow> u64" where
  "graph_number f g = (case g of None \<Rightarrow> 0 | Some x \<Rightarrow> f x)"

definition reifier_numbers :: "('id \<Rightarrow> u64) \<Rightarrow> 'id quad_ids \<Rightarrow> reifier_cols" where
  "reifier_numbers f = (\<lambda>(s, p, ob, g). (f s, f ob, graph_number f g))"

definition annotation_numbers :: "('id \<Rightarrow> u64) \<Rightarrow> 'id quad_ids \<Rightarrow> annotation_cols" where
  "annotation_numbers f = (\<lambda>(s, p, ob, g). (f s, f p, f ob, graph_number f g))"

definition side_readable :: "('id, term_value, 'e) dataset_view \<Rightarrow> term_value pack_dict \<Rightarrow> bool" where
  "side_readable view dict \<longleftrightarrow> dv_error_before view = None \<and> dv_error_after view = None \<and>
     (\<forall>x\<in>set (reifier_ids (dv_reifier_quads view)) \<union> set (annotation_ids (dv_annotation_quads view)). unified view dict x \<noteq> None) \<and>
     (dv_reifier_quads view \<noteq> [] \<longrightarrow> id_by_value dict (Iri RDF_REIFIES) \<noteq> None) \<and>
     length (dv_reifier_quads view) < 2 ^ 48 \<and> length (dv_annotation_quads view) < 2 ^ 48"

lemma resolve_id_ok: "unified view dict x \<noteq> None \<Longrightarrow> resolve_id view dict x = Some (Inr (uid view dict x))"
  by (auto simp: unified_def resolve_id_def resolve_any_def uid_def split: sum.splits)

lemma uid_positive: "unified view dict x \<noteq> None \<Longrightarrow> uid view dict x \<noteq> 0"
  using id_by_value_sound(1) [of dict] by (auto simp: unified_def uid_def split: sum.splits) fastforce

lemma graph_id_ok:
  "\<forall>x\<in>set_option g. unified view dict x \<noteq> None \<Longrightarrow> graph_id_or_zero view dict g = Some (Inr (graph_number (uid view dict) g))"
  by (cases g) (simp_all add: graph_id_or_zero_def graph_number_def resolve_id_ok)

lemma reifier_rows_ok:
  "\<forall>x\<in>set (reifier_ids quads). unified view dict x \<noteq> None \<Longrightarrow>
     reifier_rows view dict quads = Some (Inr (map (reifier_numbers (uid view dict)) quads))"
proof (induction quads rule: reifier_ids.induct)
  case (2 s p ob g quads)
  then show ?case by (cases g) (simp_all add: resolve_id_ok graph_id_ok reifier_numbers_def)
qed simp

lemma annotation_rows_ok:
  "\<forall>x\<in>set (annotation_ids quads). unified view dict x \<noteq> None \<Longrightarrow>
     annotation_rows view dict quads = Some (Inr (map (annotation_numbers (uid view dict)) quads))"
proof (induction quads rule: annotation_ids.induct)
  case (2 s p ob g quads)
  then show ?case by (cases g) (simp_all add: resolve_id_ok graph_id_ok annotation_numbers_def)
qed simp

lemma sorted_fst: "sorted xs \<Longrightarrow> sorted (map fst (xs :: ('a::linorder \<times> 'b::linorder) list))"
  unfolding sorted_wrt_map by (rule sorted_wrt_mono_rel) (auto simp: less_eq_prod_def)

lemma dedup_rows:
  fixes xs :: "('a::linorder \<times> 'b::linorder) list"
  shows "sorted (map fst (remdups_adj (sort xs)))" "distinct (remdups_adj (sort xs))" "set (remdups_adj (sort xs)) = set xs"
    "length (remdups_adj (sort xs)) \<le> length xs"
  using strict_remdups_adj [of "sort xs"] remdups_adj_length [of "sort xs"]
  by (simp_all add: strict_sorted_iff sorted_fst)

section \<open>The tables of a view\<close>

definition reifies_id :: "('id, term_value, 'e) dataset_view \<Rightarrow> term_value pack_dict \<Rightarrow> u64" where
  "reifies_id view dict = (if dv_reifier_quads view = [] then 0 else the (id_by_value dict (Iri RDF_REIFIES)))"

text \<open>The rows of a view as quads over the dictionary's ids.\<close>

definition side_reifiers :: "('id, term_value, 'e) dataset_view \<Rightarrow> term_value pack_dict \<Rightarrow> quad set" where
  "side_reifiers view dict = (\<lambda>(s, p, ob, g). (uid view dict s, reifies_id view dict, uid view dict ob, map_option (uid view dict) g)) ` set (dv_reifier_quads view)"

definition side_annotations :: "('id, term_value, 'e) dataset_view \<Rightarrow> term_value pack_dict \<Rightarrow> quad set" where
  "side_annotations view dict = (\<lambda>(s, p, ob, g). (uid view dict s, uid view dict p, uid view dict ob, map_option (uid view dict) g)) ` set (dv_annotation_quads view)"

lemma decode_graph_number: "\<forall>x\<in>set_option g. f x \<noteq> 0 \<Longrightarrow> decode_graph (graph_number f g) = map_option f g"
  by (cases g) (simp_all add: decode_graph_def graph_number_def)

lemma decode_graph_inj: "decode_graph a = decode_graph b \<longleftrightarrow> a = b"
  by (auto simp: decode_graph_def split: if_splits)

lemma inj_quads: "inj_on (reifier_quad reifies) A" "inj_on annotation_quad B"
  by (auto simp: inj_on_def reifier_quad_def annotation_quad_def decode_graph_inj)

lemma reifier_ids_mem: "(s, p, ob, g) \<in> set quads \<Longrightarrow> {s, ob} \<union> set_option g \<subseteq> set (reifier_ids quads)"
  by (induction quads rule: reifier_ids.induct) auto

lemma annotation_ids_mem: "(s, p, ob, g) \<in> set quads \<Longrightarrow> {s, p, ob} \<union> set_option g \<subseteq> set (annotation_ids quads)"
  by (induction quads rule: annotation_ids.induct) auto

lemma view_side_opens:
  fixes view :: "('id, term_value, 'e) dataset_view"
  assumes R: "side_readable view dict"
  obtains bs st where "side_try_encode dict view = Some (Inr bs)" "side_from_bytes bs = Some (Inr st)" "side_valid st"
    "set (reifier_entries st) = side_reifiers view dict" "distinct (reifier_entries st)"
    "set (annotation_entries st) = side_annotations view dict" "distinct (annotation_entries st)"
    "length bs \<le> 117 + 24 * length (dv_reifier_quads view) + 48 * length (dv_annotation_quads view)"
proof -
  let ?f = "uid view dict" and ?rq = "dv_reifier_quads view" and ?aq = "dv_annotation_quads view"
  define rr where "rr = remdups_adj (sort (map (reifier_numbers ?f) ?rq))"
  define ar where "ar = remdups_adj (sort (map (annotation_numbers ?f) ?aq))"
  note rd = dedup_rows [of "map (reifier_numbers ?f) ?rq", folded rr_def] and ad = dedup_rows [of "map (annotation_numbers ?f) ?aq", folded ar_def]
  have ids: "\<forall>x\<in>set (reifier_ids ?rq). unified view dict x \<noteq> None" "\<forall>x\<in>set (annotation_ids ?aq). unified view dict x \<noteq> None"
    using R by (auto simp: side_readable_def)
  have rnz: "?f s \<noteq> 0 \<and> ?f ob \<noteq> 0 \<and> (\<forall>x\<in>set_option g. ?f x \<noteq> 0)" if "(s, p, ob, g) \<in> set ?rq" for s p ob g
    using reifier_ids_mem [OF that] ids(1) uid_positive [of view dict] by auto
  have anz: "?f s \<noteq> 0 \<and> ?f p \<noteq> 0 \<and> ?f ob \<noteq> 0 \<and> (\<forall>x\<in>set_option g. ?f x \<noteq> 0)" if "(s, p, ob, g) \<in> set ?aq" for s p ob g
    using annotation_ids_mem [OF that] ids(2) uid_positive [of view dict] by auto
  have e: "rr = [] \<longleftrightarrow> ?rq = []" using rd(3) by (metis map_is_Nil_conv set_empty)
  have rf: "reifies_id view dict = 0 \<longleftrightarrow> rr = []"
  proof -
    have "the (id_by_value dict (Iri RDF_REIFIES)) \<noteq> 0" if q: "?rq \<noteq> []"
    proof -
      obtain u where u: "id_by_value dict (Iri RDF_REIFIES) = Some u" using R q by (auto simp: side_readable_def)
      show ?thesis using id_by_value_sound(1) [OF u] by (auto simp: u)
    qed
    then show ?thesis unfolding e by (auto simp: reifies_id_def)
  qed
  have ok: "rows_ok (reifies_id view dict) rr ar"
    unfolding rows_ok_def using R rd ad rf
    by (auto simp: side_readable_def reifier_numbers_def annotation_numbers_def dest!: rnz anz)
  obtain bs st where w: "write_side (reifies_id view dict) rr ar = Some bs" "side_from_bytes bs = Some (Inr st)" "side_valid st"
    "reifier_entries st = map (reifier_quad (reifies_id view dict)) rr" "annotation_entries st = map annotation_quad ar"
    "length bs \<le> 117 + 24 * length rr + 48 * length ar" by (rule written_side_opens [OF ok])
  have pred: "(if rr = [] then Some (Inr 0) else map_option Inr (resolve_any dict (Iri RDF_REIFIES))) =
      (Some (Inr (reifies_id view dict)) :: ('e term_lookup_error + u64) option)"
    using R by (auto simp: e reifies_id_def resolve_any_def side_readable_def)
  have "side_try_encode dict view = Some (Inr bs)"
    unfolding side_try_encode_def reifier_rows_ok [OF ids(1)] annotation_rows_ok [OF ids(2)] bind_res_simps Let_def
      rr_def [symmetric] ar_def [symmetric] pred w(1)
    using R by (simp add: checked_read_def side_readable_def)
  moreover have "set (reifier_entries st) = side_reifiers view dict"
    unfolding w(4) set_map rd(3) side_reifiers_def image_image
    by (intro image_cong) (auto simp: reifier_quad_def reifier_numbers_def decode_graph_number dest!: rnz)
  moreover have "set (annotation_entries st) = side_annotations view dict"
    unfolding w(5) set_map ad(3) side_annotations_def image_image
    by (intro image_cong) (auto simp: annotation_quad_def annotation_numbers_def decode_graph_number dest!: anz)
  moreover have "distinct (reifier_entries st)" "distinct (annotation_entries st)"
    using rd(2) ad(2) inj_quads by (auto simp: w(4,5) distinct_map)
  moreover have "length bs \<le> 117 + 24 * length ?rq + 48 * length ?aq" using w(6) rd(4) ad(4) by simp
  ultimately show ?thesis using that w(2,3) by blast
qed

section \<open>Properties\<close>

text \<open>C39: Whatever bytes side tables are opened from (shorter than \<open>2 ^ 55\<close>), once the checks have passed no
  query panics and the searches agree with the full walks: the binary search for a reifier selects
  exactly its rows of the whole table (none for the id \<open>2 ^ 64 - 1\<close>, which the saturated bound cannot
  reach), the group lookup selects exactly its annotations, although groups may be empty, and the
  graph references are those of the two walks.\<close>

theorem opened_side_tables:
  assumes "side_from_bytes bs = Some (Inr st)" "length bs < 2 ^ 55"
  shows "\<exists>rows notes. reifier_quads st = Some rows \<and> annotation_quads st = Some notes \<and>
    (\<forall>r. reifier_quads_of st r = Some (if r = - 1 then [] else filter (\<lambda>q. fst q = r) rows)) \<and>
    (\<forall>r. annotations_of_with_graph st r = Some (map snd (filter (\<lambda>q. fst q = r) notes))) \<and>
    graph_references st = Some (List.map_filter (\<lambda>(s, p, ob, g). g) (rows @ notes)) \<and>
    has_graph_reference st = Some (\<exists>q\<in>set (rows @ notes). snd (snd (snd q)) \<noteq> None)"
proof -
  have v: "side_valid st" by (rule opened_side_valid [OF assms])
  have "List.map_filter (\<lambda>(s, p, ob, g). g) qs \<noteq> [] \<longleftrightarrow> (\<exists>q\<in>set qs. snd (snd (snd q)) \<noteq> None)" for qs :: "quad list"
    by (induction qs) (auto simp: map_filter_simps split: option.splits)
  then show ?thesis using reifier_quads_entries [OF v] annotation_quads_entries [OF v] reifier_quads_of_entries [OF v]
      annotations_of_entries [OF v] graph_references_entries [OF v] by (simp add: graph_entries_def flip: map_filter_append)
qed

text \<open>Two rows of reifier 5, one in graph 9, and two annotations of it.\<close>

theorem opened_side_tables_witness:
  "\<exists>bs st. write_side 2 [(5, 7, 0), (5, 7, 9), (6, 8, 0)] [(5, 3, 4, 0), (5, 3, 4, 9)] = Some bs \<and> side_from_bytes bs = Some (Inr st) \<and>
    reifier_quads_of st 5 = Some [(5, 2, 7, None), (5, 2, 7, Some 9)] \<and>
    annotations_of_with_graph st 5 = Some [(3, 4, None), (3, 4, Some 9)] \<and> graph_references st = Some [9, 9]"
proof -
  let ?rr = "[(5, 7, 0), (5, 7, 9), (6, 8, 0)] :: reifier_cols list" and ?ar = "[(5, 3, 4, 0), (5, 3, 4, 9)] :: annotation_cols list"
  have "rows_ok 2 ?rr ?ar" by (simp add: rows_ok_def)
  then obtain bs st where w: "write_side 2 ?rr ?ar = Some bs" "side_from_bytes bs = Some (Inr st)" "side_valid st"
    "reifier_entries st = map (reifier_quad 2) ?rr" "annotation_entries st = map annotation_quad ?ar"
    "length bs \<le> 117 + 24 * length ?rr + 48 * length ?ar" by (rule written_side_opens)
  have "length bs < 2 ^ 55" using w(6) by simp
  from opened_side_tables [OF w(2) this] show ?thesis
    using w(1,2,4,5) reifier_quads_entries [OF w(3)] annotation_quads_entries [OF w(3)]
    by (auto simp: reifier_quad_def annotation_quad_def decode_graph_def map_filter_simps)
qed

end
