(* ===== verification/Pack.thy ===== *)
theory Pack
  imports SideIndex
begin

unbundle bit_operations_syntax

text \<open>
  The pack container (\<open>crates/rdf-core/src/ir/pack/container.rs\<close>) and its certificate check
  (\<open>certify.rs\<close>): the header, the directory of the three sections with their digests, the writer and
  the reader. SHA-256 (the external \<open>sha2\<close> crate) is the parameter \<open>sha\<close>; the BLAKE3 snapshot identity, the
  canonical digest of a view and the reconstruction of a dataset are parameters too, as their code
  is not modelled. \<open>checks\<close>, \<open>iter\<close> and \<open>psize\<close> are those of the sections.
\<close>

section \<open>Layout\<close>

definition MAGIC :: bytes where "MAGIC = [0x50, 0x55, 0x52, 0x52, 0x50, 0x43, 0x4B, 0x31]"

definition FORMAT_VERSION :: u32 where "FORMAT_VERSION = 1"
definition SECTION_COUNT :: nat where "SECTION_COUNT = 3"
definition SECTION_KINDS :: "u32 list" where "SECTION_KINDS = [1, 2, 3]"
definition HEADER_LEN :: nat where "HEADER_LEN = 64"
definition ENTRY_LEN :: nat where "ENTRY_LEN = 4 + 8 + 8 + 32"

definition capabilities_to_flags :: "rdf_store_capabilities \<Rightarrow> u32" where
  "capabilities_to_flags caps =
     (let flags = 0;
          flags = (if cap_named_graphs caps then flags OR push_bit 0 1 else flags);
          flags = (if cap_quoted_triples caps then flags OR push_bit 1 1 else flags);
          flags = (if cap_reifiers caps then flags OR push_bit 2 1 else flags);
          flags = (if cap_annotations caps then flags OR push_bit 3 1 else flags);
          flags = (if cap_source_locations caps then flags OR push_bit 4 1 else flags);
          flags = (if cap_loss_records caps then flags OR push_bit 5 1 else flags);
          flags = (if cap_lookaside caps then flags OR push_bit 6 1 else flags)
      in flags)"

definition flags_to_capabilities :: "u32 \<Rightarrow> rdf_store_capabilities" where
  "flags_to_capabilities flags =
     \<lparr>cap_named_graphs = (flags AND push_bit 0 1 \<noteq> 0), cap_quoted_triples = (flags AND push_bit 1 1 \<noteq> 0),
      cap_reifiers = (flags AND push_bit 2 1 \<noteq> 0), cap_annotations = (flags AND push_bit 3 1 \<noteq> 0),
      cap_source_locations = (flags AND push_bit 4 1 \<noteq> 0), cap_loss_records = (flags AND push_bit 5 1 \<noteq> 0),
      cap_lookaside = (flags AND push_bit 6 1 \<noteq> 0)\<rparr>"

section \<open>Errors\<close>

datatype drain_checkpoint = DrainBefore | DrainAfter
datatype pack_checkpoint = BeforeRows | AfterRows

fun pack_checkpoint_of :: "drain_checkpoint \<Rightarrow> pack_checkpoint" where
  "pack_checkpoint_of DrainBefore = BeforeRows"
| "pack_checkpoint_of DrainAfter = AfterRows"

datatype ('e, 'c, 'm, 'l, 'i) pack_error =
    BadMagic
  | UnsupportedVersion u32
  | PackTruncated
  | PackMalformed string
  | SectionDigestMismatch u32
  | CanonRefused 'c
  | Materialization 'm
  | RdfcDigestMismatch bytes bytes
  | ViewNotReady pack_checkpoint "'e term_lookup_error"
  | PackDictFailed "('l, 'i) dict_error"
  | PackTriplesFailed pack_bits_error
  | PackSideFailed pack_bits_error

definition map_err :: "('e \<Rightarrow> 'f) \<Rightarrow> ('e + 'a) option \<Rightarrow> ('f + 'a) option" where
  "map_err f m = (case m of None \<Rightarrow> None | Some (Inl e) \<Rightarrow> Some (Inl (f e)) | Some (Inr x) \<Rightarrow> Some (Inr x))"

lemma map_err_simps [simp]:
  "map_err f None = None" "map_err f (Some (Inl e)) = Some (Inl (f e))" "map_err f (Some (Inr x)) = Some (Inr x)"
  by (simp_all add: map_err_def)

lemma map_err_eq_Inr [simp]: "map_err f m = Some (Inr x) \<longleftrightarrow> m = Some (Inr x)"
  by (auto simp: map_err_def split: option.splits sum.splits)

definition source_read_error :: "'e term_lookup_error \<Rightarrow> ('e, 'c, 'm, 'l, 'i) pack_error" where
  "source_read_error e = ViewNotReady AfterRows e"

definition checkpointed_drain :: "'e option \<Rightarrow> 'e option \<Rightarrow> 'a option \<Rightarrow> (drain_checkpoint \<times> 'e + 'a) option" where
  "checkpointed_drain before after out = (case before of Some e \<Rightarrow> Some (Inl (DrainBefore, e))
     | None \<Rightarrow> map_option (\<lambda>r. case after of Some e \<Rightarrow> Inl (DrainAfter, e) | None \<Rightarrow> Inr r) out)"

section \<open>Writing\<close>

definition checked_next_multiple_of_8 :: "u64 \<Rightarrow> u64 option" where
  "checked_next_multiple_of_8 n = (if n mod 8 = 0 then Some n else checked_add_u64 n (8 - n mod 8))"

text \<open>The offsets of the sections and the final cursor; the last section is not padded.\<close>

fun section_offsets :: "u64 \<Rightarrow> bytes list \<Rightarrow> (u64 list \<times> u64) option" where
  "section_offsets cursor [] = Some ([], cursor)"
| "section_offsets cursor (b # bs) =
     (let next = cursor + of_nat (length b)
      in do {
        next \<leftarrow> (if bs = [] then Some next else checked_next_multiple_of_8 next);
        (offsets, stop) \<leftarrow> section_offsets next bs;
        Some (cursor # offsets, stop)
      })"

definition pack_header :: "u64 \<Rightarrow> rdf_store_capabilities \<Rightarrow> bytes \<Rightarrow> bytes" where
  "pack_header n caps rdfc_digest = MAGIC @ le_bytes 4 FORMAT_VERSION @ le_bytes 4 (capabilities_to_flags caps) @
     le_bytes 8 n @ le_bytes 4 (of_nat SECTION_COUNT :: u32) @ le_bytes 4 (0 :: u32) @ rdfc_digest"

definition directory_entry :: "(bytes \<Rightarrow> bytes) \<Rightarrow> u32 \<times> u64 \<times> bytes \<Rightarrow> bytes" where
  "directory_entry sha = (\<lambda>(kind, offset, b). le_bytes 4 kind @ le_bytes 8 offset @ le_bytes 8 (of_nat (length b) :: u64) @ sha b)"

fun place_sections :: "bytes \<Rightarrow> (u64 \<times> bytes) list \<Rightarrow> bytes" where
  "place_sections out [] = out"
| "place_sections out ((offset, b) # rest) = place_sections (out @ replicate (unat offset - length out) 0 @ b) rest"

definition assemble_pack :: "(bytes \<Rightarrow> bytes) \<Rightarrow> u64 \<Rightarrow> rdf_store_capabilities \<Rightarrow> bytes \<Rightarrow> bytes list \<Rightarrow> bytes option" where
  "assemble_pack sha n caps rdfc_digest sections = do {
     cursor \<leftarrow> checked_next_multiple_of_8 (of_nat (HEADER_LEN + SECTION_COUNT * ENTRY_LEN));
     (offsets, stop) \<leftarrow> section_offsets cursor sections;
     if vec_capacity_ok 1 (unat stop) then
       Some (place_sections (pack_header n caps rdfc_digest @
           concat (map (directory_entry sha) (zip SECTION_KINDS (zip offsets sections)))) (zip offsets sections))
     else None
   }"

section \<open>Reading\<close>

record pack_view =
  pv_snapshot_identity :: bytes
  pv_dict :: dictionary
  pv_triples :: triples_ref
  pv_side :: side_tables_ref
  pv_capabilities :: rdf_store_capabilities
  pv_rdfc_digest :: bytes

definition ok_or :: "'a option \<Rightarrow> 'e \<Rightarrow> ('e + 'a) option" where
  "ok_or m e = (case m of None \<Rightarrow> Some (Inl e) | Some x \<Rightarrow> Some (Inr x))"

text \<open>\<open>bytes[at..].first_chunk::<32>()\<close>: the slice panics past the end, a short rest is the error.\<close>

definition digest_at :: "bytes \<Rightarrow> nat \<Rightarrow> (('e, 'c, 'm, 'l, 'i) pack_error + bytes) option" where
  "digest_at bs pos = (if length bs < pos then None
     else ok_or (if 32 \<le> length (drop pos bs) then Some (take 32 (drop pos bs)) else None) PackTruncated)"

definition read_section :: "(bytes \<Rightarrow> bytes) \<Rightarrow> bytes \<Rightarrow> nat \<Rightarrow> u32 \<Rightarrow> (('e, 'c, 'm, 'l, 'i) pack_error + bytes) option" where
  "read_section sha bs i expected_kind =
     (let entry = HEADER_LEN + i * ENTRY_LEN in
     bind_res (ok_or (bytes_read_u32_le bs entry) PackTruncated) (\<lambda>kind.
     bind_res (ok_or (bytes_read_u64_le bs (entry + 4)) PackTruncated) (\<lambda>offset.
     bind_res (ok_or (bytes_read_u64_le bs (entry + 12)) PackTruncated) (\<lambda>len.
     bind_res (digest_at bs (entry + 20)) (\<lambda>stored_digest.
     ensure_res (kind = expected_kind) (PackMalformed ''container: section directory tag out of fixed order'')
     (let stop = unat offset + unat len in
      ensure_res (stop < 2 ^ 64) (PackMalformed ''container: section span overflows'')
      (ensure_res (stop \<le> length bs) PackTruncated
       (let slice = slice_range (unat offset) stop bs in
        ensure_res (sha slice = stored_digest) (SectionDigestMismatch kind) (Some (Inr slice))))))))))"

fun read_sections :: "(bytes \<Rightarrow> bytes) \<Rightarrow> bytes \<Rightarrow> nat \<Rightarrow> u32 list \<Rightarrow> (('e, 'c, 'm, 'l, 'i) pack_error + bytes list) option" where
  "read_sections sha bs i [] = Some (Inr [])"
| "read_sections sha bs i (kind # kinds) =
     bind_res (read_section sha bs i kind) (\<lambda>b. bind_res (read_sections sha bs (i + 1) kinds) (\<lambda>rest. Some (Inr (b # rest))))"

text \<open>Opening the three sections, and the capabilities they show.\<close>

definition open_sections :: "('l, 'i) term_checks \<Rightarrow> nat \<Rightarrow> bytes \<Rightarrow> bytes \<Rightarrow> bytes \<Rightarrow>
    (('e, 'c, 'm, 'l, 'i) pack_error + dictionary \<times> triples_ref \<times> side_tables_ref \<times> rdf_store_capabilities) option" where
  "open_sections checks psize dict_bytes triples_bytes side_bytes =
     bind_res (map_err PackDictFailed (dict_open checks dict_bytes)) (\<lambda>dict.
     bind_res (map_err PackTriplesFailed (triples_from_bytes psize triples_bytes)) (\<lambda>triples.
     bind_res (map_err PackSideFailed (side_from_bytes side_bytes)) (\<lambda>side.
     map_option (\<lambda>caps. Inr (dict, triples, side, caps)) (capabilities dict side (named_graph_ids triples \<noteq> [])))))"

definition pack_from_bytes :: "(bytes \<Rightarrow> bytes) \<Rightarrow> (bytes \<Rightarrow> bytes) \<Rightarrow> ('l, 'i) term_checks \<Rightarrow> nat \<Rightarrow> bytes \<Rightarrow>
    (('e, 'c, 'm, 'l, 'i) pack_error + pack_view) option" where
  "pack_from_bytes sha blake3 checks psize bs =
     ensure_res (HEADER_LEN \<le> length bs) PackTruncated
     (ensure_res (take 8 bs = MAGIC) BadMagic
     (bind_res (ok_or (bytes_read_u32_le bs 8) PackTruncated) (\<lambda>version.
     ensure_res (version = FORMAT_VERSION) (UnsupportedVersion version)
     (bind_res (ok_or (bytes_read_u32_le bs 12) PackTruncated) (\<lambda>flags.
     bind_res (ok_or (bytes_read_u64_le bs 16) PackTruncated) (\<lambda>n.
     bind_res (ok_or (bytes_read_u32_le bs 24) PackTruncated) (\<lambda>section_count.
     bind_res (digest_at bs 32) (\<lambda>rdfc_digest.
     ensure_res (unat section_count = SECTION_COUNT) (PackMalformed ''container: unexpected section count in header'')
     (ensure_res (HEADER_LEN + SECTION_COUNT * ENTRY_LEN \<le> length bs) PackTruncated
     (bind_res (read_sections sha bs 0 SECTION_KINDS) (\<lambda>sections.
     bind_res (open_sections checks psize (sections ! 0) (sections ! 1) (sections ! 2)) (\<lambda>(dict, triples, side, caps).
     ensure_res (flags_to_capabilities flags = caps)
       (PackMalformed ''container: header capability flags disagree with the recomputed capabilities'')
     (ensure_res (n = n_terms dict) (PackMalformed ''container: header n_terms disagrees with the decoded dictionary'')
      (Some (Inr \<lparr>pv_snapshot_identity = blake3 bs, pv_dict = dict, pv_triples = triples, pv_side = side,
        pv_capabilities = caps, pv_rdfc_digest = rdfc_digest\<rparr>)))))))))))))))"

section \<open>Building\<close>

definition pack_encode_view :: "(bytes \<Rightarrow> bytes) \<Rightarrow> ('l, 'i) term_checks \<Rightarrow> nat \<Rightarrow> ('id set \<Rightarrow> 'id list) \<Rightarrow>
    (('id, term_value, 'e) dataset_view \<Rightarrow> 'c + bytes) \<Rightarrow> ('id, term_value, 'e) dataset_view \<Rightarrow>
    (('e, 'c, 'm, 'l, 'i) pack_error + bytes) option" where
  "pack_encode_view sha checks psize iter canon view =
     bind_res (map_err source_read_error (dict_try_encode iter view)) (\<lambda>encoded_dict.
     let dict_bytes = dict_to_bytes encoded_dict in
     bind_res (map_err PackDictFailed (dict_open checks dict_bytes)) (\<lambda>dict.
     bind_res (map_err source_read_error (try_encode (packed_dict dict) view)) (\<lambda>triples_bytes.
     bind_res (map_err PackTriplesFailed (triples_from_bytes psize triples_bytes)) (\<lambda>triples_ref.
     bind_res (map_err source_read_error (side_try_encode (packed_dict dict) view)) (\<lambda>side_bytes.
     bind_res (map_err PackSideFailed (side_from_bytes side_bytes)) (\<lambda>side_ref.
     bind_res (map_option Inr (capabilities dict side_ref (named_graph_ids triples_ref \<noteq> []))) (\<lambda>caps.
     bind_res (map_err CanonRefused (Some (canon view))) (\<lambda>rdfc_digest.
     map_option Inr (assemble_pack sha (ed_n_terms encoded_dict) caps rdfc_digest [dict_bytes, triples_bytes, side_bytes])))))))))"

text \<open>The operational status of the view is sampled before and after.\<close>

definition build_view_bytes :: "(bytes \<Rightarrow> bytes) \<Rightarrow> ('l, 'i) term_checks \<Rightarrow> nat \<Rightarrow> ('id set \<Rightarrow> 'id list) \<Rightarrow>
    (('id, term_value, 'e) dataset_view \<Rightarrow> 'c + bytes) \<Rightarrow> 'e option \<Rightarrow> 'e option \<Rightarrow> ('id, term_value, 'e) dataset_view \<Rightarrow>
    (('e, 'c, 'm, 'l, 'i) pack_error + bytes) option" where
  "build_view_bytes sha checks psize iter canon before after view =
     (case checkpointed_drain before after (pack_encode_view sha checks psize iter canon view) of
        None \<Rightarrow> None
      | Some (Inr result) \<Rightarrow> Some result
      | Some (Inl (checkpoint, e)) \<Rightarrow> Some (Inl (ViewNotReady (pack_checkpoint_of checkpoint) (ReadFailed e))))"

definition build_bytes :: "(bytes \<Rightarrow> bytes) \<Rightarrow> ('l, 'i) term_checks \<Rightarrow> nat \<Rightarrow> ('id set \<Rightarrow> 'id list) \<Rightarrow>
    (('id, term_value, 'e) dataset_view \<Rightarrow> 'c + bytes) \<Rightarrow> ('id, term_value, 'e) dataset_view \<Rightarrow>
    (('e, 'c, 'm, 'l, 'i) pack_error + bytes) option" where
  "build_bytes sha checks psize iter canon dataset = build_view_bytes sha checks psize iter canon None None dataset"

section \<open>Certification\<close>

definition verify_pack :: "(bytes \<Rightarrow> bytes) \<Rightarrow> (bytes \<Rightarrow> bytes) \<Rightarrow> ('l, 'i) term_checks \<Rightarrow> nat \<Rightarrow> (pack_view \<Rightarrow> 'm + 'd) \<Rightarrow>
    ('d \<Rightarrow> 'c + bytes) \<Rightarrow> bytes \<Rightarrow> (('e, 'c, 'm, 'l, 'i) pack_error + bytes) option" where
  "verify_pack sha blake3 checks psize dataset_from_view canon bs =
     bind_res (pack_from_bytes sha blake3 checks psize bs) (\<lambda>view.
     bind_res (map_err Materialization (Some (dataset_from_view view))) (\<lambda>reconstructed.
     bind_res (map_err CanonRefused (Some (canon reconstructed))) (\<lambda>computed.
     let expected = pv_rdfc_digest view in
     ensure_res (computed = expected) (RdfcDigestMismatch expected computed) (Some (Inr expected)))))"

definition pack_digest :: "(bytes \<Rightarrow> bytes) \<Rightarrow> (bytes \<Rightarrow> bytes) \<Rightarrow> ('l, 'i) term_checks \<Rightarrow> nat \<Rightarrow> bytes \<Rightarrow>
    (('e, 'c, 'm, 'l, 'i) pack_error + bytes) option" where
  "pack_digest sha blake3 checks psize bs = bind_res (pack_from_bytes sha blake3 checks psize bs) (\<lambda>view. Some (Inr (pv_rdfc_digest view)))"

definition restore_pack :: "(bytes \<Rightarrow> bytes) \<Rightarrow> (bytes \<Rightarrow> bytes) \<Rightarrow> ('l, 'i) term_checks \<Rightarrow> nat \<Rightarrow> (pack_view \<Rightarrow> 'm + 'd) \<Rightarrow>
    bytes \<Rightarrow> (('e, 'c, 'm, 'l, 'i) pack_error + 'd) option" where
  "restore_pack sha blake3 checks psize dataset_from_view bs =
     bind_res (pack_from_bytes sha blake3 checks psize bs) (\<lambda>view. map_err Materialization (Some (dataset_from_view view)))"

record verified_pack =
  vp_bytes :: bytes
  vp_exact_digest :: bytes
  vp_rdf_digest :: bytes

definition verify_pack_bytes :: "(bytes \<Rightarrow> bytes) \<Rightarrow> (bytes \<Rightarrow> bytes) \<Rightarrow> ('l, 'i) term_checks \<Rightarrow> nat \<Rightarrow> (pack_view \<Rightarrow> 'm + 'd) \<Rightarrow>
    ('d \<Rightarrow> 'c + bytes) \<Rightarrow> bytes \<Rightarrow> (('e, 'c, 'm, 'l, 'i) pack_error + verified_pack) option" where
  "verify_pack_bytes sha blake3 checks psize dataset_from_view canon bs =
     bind_res (verify_pack sha blake3 checks psize dataset_from_view canon bs) (\<lambda>rdf_digest.
       Some (Inr \<lparr>vp_bytes = bs, vp_exact_digest = sha bs, vp_rdf_digest = rdf_digest\<rparr>))"

end
