(* ===== verification/PackFrame.thy ===== *)
theory PackFrame
  imports Pack
begin

text \<open>
  The framing of a pack (\<open>assemble\<close> and the directory reads of
  \<open>crates/rdf-core/src/ir/pack/container.rs\<close>): assembled sections are found again by the reader, and
  a directory entry pins the bytes of its section.
\<close>

section \<open>Fixed-width reads\<close>

lemma read_u64_at: "at bs pos (le_bytes 8 (w :: u64) @ rest) \<Longrightarrow> bytes_read_u64_le bs pos = Some w"
  by (simp add: at_def bytes_read_u64_le_def)

lemma read_u32_at: "at bs pos (le_bytes 4 (w :: u32) @ rest) \<Longrightarrow> bytes_read_u32_le bs pos = Some w"
  by (simp add: at_def bytes_read_u32_le_def)

lemma digest_at_read: "at bs pos (d @ rest) \<Longrightarrow> length d = 32 \<Longrightarrow> digest_at bs pos = Some (Inr d)"
  by (simp add: at_def digest_at_def ok_or_def)

lemma at_skip: "at bs pos (x @ rest) \<Longrightarrow> n = pos + length x \<Longrightarrow> at bs n rest"
  using drop_at [of pos bs x rest] by (simp add: at_def)

section \<open>Offsets\<close>

definition up8 :: "nat \<Rightarrow> nat" where
  "up8 n = (if n mod 8 = 0 then n else n + (8 - n mod 8))"

lemma up8_bounds: "n \<le> up8 n" "up8 n \<le> n + 7" "up8 n mod 8 = 0"
proof -
  have "n mod 8 < 8" by simp
  then show "n \<le> up8 n" "up8 n \<le> n + 7" by (auto simp: up8_def simp del: mod_less_divisor)
  have "n + (8 - n mod 8) = 8 * (n div 8 + 1)" using mod_less_divisor [of 8 n] by (simp add: mult.commute) presburger
  then show "up8 n mod 8 = 0" by (simp add: up8_def)
qed

lemma next_multiple_ok:
  assumes "n + 8 < 2 ^ 64"
  shows "checked_next_multiple_of_8 (of_nat n) = Some (of_nat (up8 n))"
proof -
  have n: "unat (of_nat n :: u64) = n" using assms by (intro unat_of_nat_64) simp
  have m: "unat ((of_nat n :: u64) mod 8) = n mod 8" by (simp add: unat_mod n)
  show ?thesis
  proof (cases "n mod 8 = 0")
    case True
    then have "(of_nat n :: u64) mod 8 = 0" using m by (simp add: unat_eq_zero)
    then show ?thesis using True by (simp add: checked_next_multiple_of_8_def up8_def)
  next
    case False
    then have nz: "(of_nat n :: u64) mod 8 \<noteq> 0" using m by (metis unat_0)
    have "8 - (of_nat n :: u64) mod 8 = of_nat (8 - n mod 8)"
    proof -
      have "(of_nat n :: u64) mod 8 = of_nat (n mod 8)" by (simp add: word_unat_eq_iff m unat_of_nat_64 less_trans [OF mod_less_divisor])
      then show ?thesis by (simp add: of_nat_diff)
    qed
    moreover have "unat (of_nat (8 - n mod 8) :: u64) = 8 - n mod 8" by (intro unat_of_nat_64) (simp add: less_imp_diff_less)
    ultimately show ?thesis using nz False assms n by (simp add: checked_next_multiple_of_8_def up8_def checked_add_u64_def)
  qed
qed

section \<open>One directory entry\<close>

lemma read_section_entry:
  assumes a: "at bs (HEADER_LEN + i * ENTRY_LEN) (directory_entry sha (kind, of_nat off, b) @ rest)" and d: "length (sha b) = 32"
    and l: "off + length b < 2 ^ 64" "off + length b \<le> length bs" and s: "slice_range off (off + length b) bs = b"
  shows "read_section sha bs i kind = Some (Inr b)"
proof -
  let ?e = "HEADER_LEN + i * ENTRY_LEN"
  have a0: "at bs ?e (le_bytes 4 kind @ le_bytes 8 (of_nat off :: u64) @ le_bytes 8 (of_nat (length b) :: u64) @ sha b @ rest)"
    using a by (simp add: directory_entry_def)
  have a1: "at bs (?e + 4) (le_bytes 8 (of_nat off :: u64) @ le_bytes 8 (of_nat (length b) :: u64) @ sha b @ rest)" by (rule at_skip [OF a0]) simp
  have a2: "at bs (?e + 12) (le_bytes 8 (of_nat (length b) :: u64) @ sha b @ rest)" by (rule at_skip [OF a1]) simp
  have a3: "at bs (?e + 20) (sha b @ rest)" by (rule at_skip [OF a2]) simp
  have u: "unat (of_nat off :: u64) = off" "unat (of_nat (length b) :: u64) = length b"
    using l(1) by (simp_all add: unat_of_nat_64)
  show ?thesis
    by (simp only: read_section_def Let_def read_u32_at [OF a0] read_u64_at [OF a1] read_u64_at [OF a2] digest_at_read [OF a3 d]
        ok_or_def option.case bind_res_simps ensure_res_True u s l refl)
qed

section \<open>The assembled file\<close>

lemma assembled_reads:
  assumes sha: "\<forall>b. length (sha b) = 32" and rd: "length rdfc = 32" and len: "length d + length t + length s < 2 ^ 62"
  obtains bs where "assemble_pack sha n caps rdfc [d, t, s] = Some bs" "take 8 bs = MAGIC" "HEADER_LEN + SECTION_COUNT * ENTRY_LEN \<le> length bs"
    "bytes_read_u32_le bs 8 = Some FORMAT_VERSION" "bytes_read_u32_le bs 12 = Some (capabilities_to_flags caps)"
    "bytes_read_u64_le bs 16 = Some n" "bytes_read_u32_le bs 24 = Some (of_nat SECTION_COUNT)" "digest_at bs 32 = Some (Inr rdfc)"
    "read_sections sha bs 0 SECTION_KINDS = Some (Inr [d, t, s])"
    "length bs \<le> 240 + (length d + length t + length s)"
proof -
  define o2 where "o2 = up8 (224 + length d)"
  define o3 where "o3 = up8 (o2 + length t)"
  have o: "224 + length d \<le> o2" "o2 \<le> 231 + length d" "o2 + length t \<le> o3" "o3 \<le> 7 + o2 + length t"
    using up8_bounds [of "224 + length d"] up8_bounds [of "o2 + length t"] by (simp_all add: o2_def o3_def)
  define fin where "fin = o3 + length s"
  have small: "224 + length d + 8 < 2 ^ 64" "o2 + length t + 8 < 2 ^ 64" "fin < 2 ^ 63" "fin \<le> 240 + (length d + length t + length s)"
    using o len by (simp_all add: fin_def)
  have first: "checked_next_multiple_of_8 (of_nat (HEADER_LEN + SECTION_COUNT * ENTRY_LEN)) = Some (of_nat 224)"
    using next_multiple_ok [of 220] by (simp add: HEADER_LEN_def SECTION_COUNT_def ENTRY_LEN_def up8_def)
  have offs: "section_offsets (of_nat 224) [d, t, s] = Some ([of_nat 224, of_nat o2, of_nat o3], of_nat fin)"
    unfolding section_offsets.simps Let_def of_nat_add [symmetric] next_multiple_ok [OF small(1)] next_multiple_ok [OF small(2)] fin_def
    by (simp add: next_multiple_ok [OF small(1)] o2_def [symmetric] next_multiple_ok [OF small(2)] o3_def [symmetric] flip: of_nat_add)
  have u: "unat (of_nat fin :: u64) = fin" "unat (of_nat o2 :: u64) = o2" "unat (of_nat o3 :: u64) = o3"
  proof -
    have "fin < 2 ^ 64" using small(3) by simp
    moreover from this have "o3 < 2 ^ 64" "o2 < 2 ^ 64" using o by (simp_all add: fin_def)
    ultimately show "unat (of_nat fin :: u64) = fin" "unat (of_nat o2 :: u64) = o2" "unat (of_nat o3 :: u64) = o3" by (simp_all only: unat_of_nat_64)
  qed
  have cap: "vec_capacity_ok 1 fin" using small(3) by (simp add: vec_capacity_ok_def)
  define H where "H = pack_header n caps rdfc"
  define E where "E = (\<lambda>k off b. directory_entry sha (k, of_nat off, b))"
  have lenH: "length H = 64" by (simp add: H_def pack_header_def MAGIC_def rd)
  have lenD: "length (directory_entry sha x) = 52" for x using sha by (cases x) (simp add: directory_entry_def)
  have lenE: "length (E k off b) = 52" for k off b by (simp add: E_def lenD)
  define z2 where "z2 = o2 - (224 + length d)"
  define z3 where "z3 = o3 - (o2 + length t)"
  let ?s = "s" let ?t = "t @ replicate z3 0 @ ?s" let ?d = "d @ replicate z2 0 @ ?t" let ?b = "replicate 4 0 @ ?d"
  let ?e3 = "E 3 o3 s @ ?b" let ?e2 = "E 2 o2 t @ ?e3" let ?e1 = "E 1 224 d @ ?e2"
  define bs where "bs = H @ ?e1"
  have a: "assemble_pack sha n caps rdfc [d, t, s] = Some bs"
    unfolding assemble_pack_def first offs bind.bind_lunit prod.case u(1) using cap o
    by (simp add: SECTION_KINDS_def u H_def [symmetric] E_def lenH lenD bs_def z2_def z3_def)
  have e1: "at bs (HEADER_LEN + 0 * ENTRY_LEN) ?e1" by (simp add: at_def bs_def lenH HEADER_LEN_def)
  have e2: "at bs (HEADER_LEN + 1 * ENTRY_LEN) ?e2" by (rule at_skip [OF e1]) (simp add: lenE ENTRY_LEN_def)
  have e3: "at bs (HEADER_LEN + 2 * ENTRY_LEN) ?e3" by (rule at_skip [OF e2]) (simp add: lenE ENTRY_LEN_def)
  have lb: "length bs = fin" using o by (simp add: bs_def lenH lenE fin_def z2_def z3_def)
  have sl: "slice_range 224 (224 + length d) bs = d" "slice_range o2 (o2 + length t) bs = t" "slice_range o3 (o3 + length s) bs = s"
  proof -
    show "slice_range 224 (224 + length d) bs = d" by (simp add: bs_def slice_range_def lenH lenE)
    have "drop o2 bs = ?t" "drop o3 bs = s" using o by (simp_all add: bs_def lenH lenE z2_def z3_def)
    then show "slice_range o2 (o2 + length t) bs = t" "slice_range o3 (o3 + length s) bs = s" by (simp_all add: slice_range_def)
  qed
  have r1: "read_section sha bs 0 1 = Some (Inr d)"
    by (rule read_section_entry [OF e1 [unfolded E_def]]) (use sha sl(1) small o in \<open>simp_all add: lb fin_def\<close>)
  have r2: "read_section sha bs 1 2 = Some (Inr t)"
    by (rule read_section_entry [OF e2 [unfolded E_def]]) (use sha sl(2) small o in \<open>simp_all add: lb fin_def\<close>)
  have r3: "read_section sha bs 2 3 = Some (Inr s)"
    by (rule read_section_entry [OF e3 [unfolded E_def]]) (use sha sl(3) small o in \<open>simp_all add: lb fin_def\<close>)
  have "read_sections sha bs 0 SECTION_KINDS = Some (Inr [d, t, s])"
    using r1 r2 r3 by (simp add: SECTION_KINDS_def numeral_2_eq_2)
  moreover have "take 8 bs = MAGIC" by (simp add: bs_def H_def pack_header_def MAGIC_def)
  moreover have "HEADER_LEN + SECTION_COUNT * ENTRY_LEN \<le> length bs" by (simp add: bs_def lenH lenE HEADER_LEN_def SECTION_COUNT_def ENTRY_LEN_def)
  moreover have h0: "at bs 0 (MAGIC @ le_bytes 4 FORMAT_VERSION @ le_bytes 4 (capabilities_to_flags caps) @ le_bytes 8 n @
      le_bytes 4 (of_nat SECTION_COUNT :: u32) @ le_bytes 4 (0 :: u32) @ rdfc @ ?e1)" by (simp add: at_def bs_def H_def pack_header_def)
  note h1 = at_skip [OF h0, of 8] note h2 = at_skip [OF h1, of 12] note h3 = at_skip [OF h2, of 16] note h4 = at_skip [OF h3, of 24]
  note h5 = at_skip [OF h4, of 28] note h6 = at_skip [OF h5, of 32]
  have "bytes_read_u32_le bs 8 = Some FORMAT_VERSION" "bytes_read_u32_le bs 12 = Some (capabilities_to_flags caps)"
    "bytes_read_u64_le bs 16 = Some n" "bytes_read_u32_le bs 24 = Some (of_nat SECTION_COUNT)" "digest_at bs 32 = Some (Inr rdfc)"
    using read_u32_at [OF h1] read_u32_at [OF h2] read_u64_at [OF h3] read_u32_at [OF h4] digest_at_read [OF h6 rd] by (simp_all add: MAGIC_def)
  ultimately show ?thesis using that [OF a] small(4) lb by simp
qed

end
