(* ===== verification/PackQuery.thy ===== *)
theory PackQuery
  imports PackFrame
begin

text \<open>
  The dataset view of an opened pack (\<open>crates/rdf-core/src/ir/pack/view.rs\<close>): every query is answered
  from the three sections, with the ids wrapped as non-zero numbers (\<open>PackId\<close>). Wrapping a zero
  panics (\<open>None\<close>).
\<close>

section \<open>Ids and rows\<close>

definition pack_id_new :: "u64 \<Rightarrow> u64 option" where
  "pack_id_new tid = (if tid = 0 then None else Some tid)"

definition from_unified :: "u64 \<Rightarrow> u64 option" where
  "from_unified tid = pack_id_new tid"

fun graph_from_unified :: "u64 option \<Rightarrow> u64 option option" where
  "graph_from_unified None = Some None"
| "graph_from_unified (Some g) = map_option Some (from_unified g)"

fun map_quad :: "quad \<Rightarrow> quad option" where
  "map_quad (s, p, ob, g) = do {
     s \<leftarrow> from_unified s;
     p \<leftarrow> from_unified p;
     ob \<leftarrow> from_unified ob;
     g \<leftarrow> graph_from_unified g;
     Some (s, p, ob, g)
   }"

definition map_quads :: "quad list option \<Rightarrow> quad list option" where
  "map_quads qs = Option.bind qs (\<lambda>qs. those (map map_quad qs))"

fun map_term_ref :: "term_ref \<Rightarrow> term_ref option" where
  "map_term_ref (RefLiteral lexical d language direction) = map_option (\<lambda>d. RefLiteral lexical d language direction) (from_unified d)"
| "map_term_ref (RefTriple s p ob) = do {
     s \<leftarrow> from_unified s; p \<leftarrow> from_unified p; ob \<leftarrow> from_unified ob; Some (RefTriple s p ob)
   }"
| "map_term_ref r = Some r"

section \<open>The queries\<close>

definition pv_quads :: "pack_view \<Rightarrow> quad list option" where
  "pv_quads pv = map_quads (all_quads (pv_triples pv))"

definition pv_resolve :: "pack_view \<Rightarrow> u64 \<Rightarrow> term_ref option" where
  "pv_resolve pv tid = Option.bind (resolve (pv_dict pv) tid) map_term_ref"

definition pv_quads_for_pattern :: "pack_view \<Rightarrow> u64 option \<Rightarrow> u64 option \<Rightarrow> u64 option \<Rightarrow> graph_match \<Rightarrow> quad list option" where
  "pv_quads_for_pattern pv s p ob g = map_quads (pattern (pv_triples pv) s p ob g)"

definition pv_term_id_by_value :: "pack_view \<Rightarrow> term_value \<Rightarrow> u64 option" where
  "pv_term_id_by_value pv v = Option.bind (id_by_value (packed_dict (pv_dict pv)) v) pack_id_new"

definition pv_len_hint :: "pack_view \<Rightarrow> nat option" where
  "pv_len_hint pv = cardinality_upper_bound (pv_triples pv) None None None AnyGraph"

definition pv_cardinality_estimate :: "pack_view \<Rightarrow> u64 option \<Rightarrow> u64 option \<Rightarrow> u64 option \<Rightarrow> graph_match \<Rightarrow> nat option" where
  "pv_cardinality_estimate pv s p ob g = cardinality_upper_bound (pv_triples pv) s p ob g"

definition pv_term_count :: "pack_view \<Rightarrow> u64" where
  "pv_term_count pv = n_terms (pv_dict pv)"

definition pv_term_bytes_hint :: "pack_view \<Rightarrow> nat" where
  "pv_term_bytes_hint pv = length (pk_arena (pv_dict pv))"

definition pv_triple_term_nesting_bound :: "pack_view \<Rightarrow> nat option" where
  "pv_triple_term_nesting_bound pv = Some MAX_TRIPLE_TERM_DEPTH"

definition pv_reifier_quads :: "pack_view \<Rightarrow> quad list option" where
  "pv_reifier_quads pv = map_quads (reifier_quads (pv_side pv))"

definition pv_reifier_quads_of :: "pack_view \<Rightarrow> u64 \<Rightarrow> quad list option" where
  "pv_reifier_quads_of pv r = map_quads (reifier_quads_of (pv_side pv) r)"

definition pv_annotation_quads :: "pack_view \<Rightarrow> quad list option" where
  "pv_annotation_quads pv = map_quads (annotation_quads (pv_side pv))"

definition pv_annotations_of_with_graph :: "pack_view \<Rightarrow> u64 \<Rightarrow> (u64 \<times> u64 \<times> u64 option) list option" where
  "pv_annotations_of_with_graph pv r = Option.bind (annotations_of_with_graph (pv_side pv) r) (\<lambda>rows.
     those (map (\<lambda>(p, ob, g). do { p \<leftarrow> from_unified p; ob \<leftarrow> from_unified ob; g \<leftarrow> graph_from_unified g; Some (p, ob, g) }) rows))"

text \<open>The merge of the partitions' graphs with those of the side tables, both ascending.\<close>

fun merge_graphs :: "u64 list \<Rightarrow> u64 list \<Rightarrow> u64 list" where
  "merge_graphs (p # ps) (s # ss) =
     (if s < p then s # merge_graphs (p # ps) ss
      else if s = p then p # merge_graphs ps ss
      else p # merge_graphs ps (s # ss))"
| "merge_graphs (p # ps) [] = p # merge_graphs ps []"
| "merge_graphs [] ss = ss"

definition pv_named_graphs :: "pack_view \<Rightarrow> u64 list option" where
  "pv_named_graphs pv = do {
     side \<leftarrow> graph_references (pv_side pv);
     those (map from_unified (merge_graphs (named_graph_ids (pv_triples pv)) (remdups_adj (sort side))))
   }"

definition pv_has_named_graph :: "pack_view \<Rightarrow> u64 \<Rightarrow> bool" where
  "pv_has_named_graph pv g \<longleftrightarrow> has_named_graph (pv_triples pv) g"

section \<open>Rows without zeros\<close>

definition nonzero_quad :: "quad \<Rightarrow> bool" where
  "nonzero_quad q \<longleftrightarrow> (case q of (s, p, ob, g) \<Rightarrow> s \<noteq> 0 \<and> p \<noteq> 0 \<and> ob \<noteq> 0 \<and> g \<noteq> Some 0)"

lemma map_quad_id: "nonzero_quad q \<Longrightarrow> map_quad q = Some q"
  by (cases q; cases "snd (snd (snd q))") (auto simp: nonzero_quad_def from_unified_def pack_id_new_def)

lemma map_quads_id: "qs = Some rows \<Longrightarrow> \<forall>q\<in>set rows. nonzero_quad q \<Longrightarrow> map_quads qs = Some rows"
  using those_map_Some [of rows map_quad "\<lambda>q. q"] map_quad_id by (simp add: map_quads_def)

lemma merge_graphs_set: "set (merge_graphs ps ss) = set ps \<union> set ss"
  by (induction ps ss rule: merge_graphs.induct) auto

lemma merge_graphs_sorted: "sorted_wrt (<) ps \<Longrightarrow> sorted_wrt (<) ss \<Longrightarrow> sorted_wrt (<) (merge_graphs ps ss)"
  by (induction ps ss rule: merge_graphs.induct) (auto simp: merge_graphs_set not_less intro: less_trans)

lemma named_graphs_merge:
  assumes refs: "graph_references (pv_side pv) = Some side" and asc: "sorted_wrt (<) (named_graph_ids (pv_triples pv))"
    and nz: "0 \<notin> set (named_graph_ids (pv_triples pv)) \<union> set side"
  shows "\<exists>gs. pv_named_graphs pv = Some gs \<and> sorted_wrt (<) gs \<and> set gs = set (named_graph_ids (pv_triples pv)) \<union> set side"
proof -
  let ?gs = "merge_graphs (named_graph_ids (pv_triples pv)) (remdups_adj (sort side))"
  have s: "set ?gs = set (named_graph_ids (pv_triples pv)) \<union> set side" by (simp add: merge_graphs_set)
  then have "\<forall>g\<in>set ?gs. from_unified g = Some g" using nz by (auto simp: from_unified_def pack_id_new_def)
  then have "those (map from_unified ?gs) = Some ?gs" using those_map_Some [of ?gs from_unified "\<lambda>g. g"] by simp
  moreover have "sorted_wrt (<) ?gs" using asc by (intro merge_graphs_sorted strict_remdups_adj) simp_all
  ultimately show ?thesis using s refs by (simp add: pv_named_graphs_def)
qed

section \<open>Capability flags\<close>

lemma capability_flags_round_trip: "flags_to_capabilities (capabilities_to_flags caps) = caps"
proof -
  have "flags_to_capabilities (capabilities_to_flags \<lparr>cap_named_graphs = a, cap_quoted_triples = b, cap_reifiers = c, cap_annotations = d,
      cap_source_locations = e, cap_loss_records = f, cap_lookaside = g\<rparr>) = \<lparr>cap_named_graphs = a, cap_quoted_triples = b, cap_reifiers = c,
      cap_annotations = d, cap_source_locations = e, cap_loss_records = f, cap_lookaside = g\<rparr>" for a b c d e f g
    by (cases a; cases b; cases c; cases d; cases e; cases f; cases g) (simp_all add: flags_to_capabilities_def capabilities_to_flags_def Let_def)
  then show ?thesis by (cases caps) simp
qed

end
