(* ===== verification/PackIndex.thy ===== *)
theory PackIndex
  imports PackQuery
begin

text \<open>
  The composition of the pack: the bytes that \<open>PackBuilder::build_view_bytes\<close> writes for a dataset view
  open with \<open>PackView::from_bytes\<close> and show the same dataset (\<open>crates/rdf-core/src/ir/pack\<close>:
  \<open>container.rs\<close>, \<open>dict.rs\<close>, \<open>triples.rs\<close>, \<open>side.rs\<close>, \<open>view.rs\<close>).
\<close>

section \<open>The size of a dictionary\<close>

lemma length_front_coded: "length (front_coded p rs) \<le> sum_list (map (\<lambda>r. 20 + length r) rs)"
proof (induction rs arbitrary: p)
  case (Cons r rs)
  have "length (front_bytes p r) \<le> 20 + length r"
    using varint_bytes_bounds(2) [of "of_nat (common_prefix_len p r)"] varint_bytes_bounds(2) [of "of_nat (length r - common_prefix_len p r)"]
    by (simp add: front_bytes_def Let_def)
  then show ?case using Cons [of r] by simp
qed simp

lemma length_buckets_bytes: "length (concat (map bucket_bytes (buckets rs))) \<le> sum_list (map (\<lambda>r. 20 + length r) rs)"
proof (induction rs rule: buckets.induct)
  case (2 r rs)
  have "length (bucket_bytes (r # take 7 rs)) \<le> 20 + length r + sum_list (map (\<lambda>r. 20 + length r) (take 7 rs))"
    using length_front_coded [of r "take 7 rs"] by simp
  moreover have "sum_list (map (\<lambda>r. 20 + length r) (take 7 rs)) + sum_list (map (\<lambda>r. 20 + length r) (drop 7 rs)) = sum_list (map (\<lambda>r. 20 + length r) rs)"
    by (metis append_take_drop_id map_append sum_list_append)
  ultimately show ?case using 2 by simp
qed simp

lemma sum_records: "sum_list (map (\<lambda>v. 20 + length (record_bytes ids v)) vs) \<le> 80 * length vs + length (concat (map texts_of vs))"
proof (induction vs)
  case (Cons v vs)
  then show ?case using length_record_bytes [of ids v] by simp
qed simp

lemma encoded_size:
  assumes enc: "encodable checks vs" and bytes: "encode_values vs (value_to_id vs) = Some bytes" and n: "length vs < 2 ^ 50"
  shows "length bytes < 2 ^ 58"
proof -
  let ?rs = "map (record_bytes (value_to_id vs)) vs"
  let ?bs = "map bucket_bytes (buckets ?rs)"
  have known: "\<forall>v\<in>set vs. known (value_to_id vs) v" using encodable_known [OF enc] by blast
  have lb: "length ?bs \<le> length vs" using div_ceil_le_iff [of 8 "length vs" "length vs"] by (simp add: length_buckets)
  then have "length (starts 0 ?bs) \<le> 2 ^ 57" using n by (simp add: length_starts)
  then obtain ov where ov: "iv_from_values (starts 0 ?bs) = Some ov" "holds ov (starts 0 ?bs)" by (rule from_values_holds)
  then have "bytes = le_bytes 8 (of_nat (length vs) :: u64) @ le_bytes 8 (of_nat (length (buckets vs)) :: u64) @ iv_to_bytes ov @ concat ?bs"
    using encode_values_layout [OF known] bytes by simp
  then have "length bytes \<le> 28 + 8 * length vs + length (concat ?bs)" using iv_size [OF ov(2)] lb by (simp add: length_starts)
  moreover have "length (concat ?bs) \<le> 80 * length vs + length (concat (map texts_of vs))"
    using length_buckets_bytes [of ?rs] sum_records [of "value_to_id vs" vs] by (simp add: comp_def)
  ultimately show ?thesis using n enc by (simp add: encodable_def)
qed

section \<open>The sections of a view\<close>

definition pack_fits :: "('l, 'i) term_checks \<Rightarrow> nat \<Rightarrow> ('id, term_value, 'e) dataset_view \<Rightarrow> bool" where
  "pack_fits checks psize view \<longleftrightarrow> view_encodable checks view \<and> view_fits psize view \<and> card (view_terms view) < 2 ^ 50 \<and>
     length (dv_reifier_quads view) < 2 ^ 48 \<and> length (dv_annotation_quads view) < 2 ^ 48"

lemma reifies_known:
  assumes "holds_list checks dict vs" "dict_valid dict" "set vs = view_terms view" "dv_reifier_quads view \<noteq> []"
  shows "\<exists>tid. id_by_value (packed_dict dict) (Iri RDF_REIFIES) = Some tid \<and> tid \<noteq> 0 \<and> term_value_at dict tid = Some (Iri RDF_REIFIES)"
proof -
  have "Iri RDF_REIFIES \<in> set vs" unfolding assms(3) view_terms_def root_terms_def using assms(4) by (auto intro!: bexI [of _ "Iri RDF_REIFIES"])
  from holds_lookup [OF assms(1,2) this] obtain tid where t: "id_by_value (packed_dict dict) (Iri RDF_REIFIES) = Some tid"
    "term_value_at dict tid = Some (Iri RDF_REIFIES)" by blast
  then show ?thesis using id_by_value_sound(1) [OF t(1)] by (auto intro!: exI [of _ tid])
qed

definition translates :: "('id, term_value, 'e) dataset_view \<Rightarrow> dictionary \<Rightarrow> bool" where
  "translates view dict \<longleftrightarrow> (\<forall>x\<in>referenced_ids view. \<exists>v. dv_term_value view x = Inr v \<and> unified view (packed_dict dict) x \<noteq> None \<and>
     term_value_at dict (uid view (packed_dict dict) x) = Some v) \<and>
     (dv_reifier_quads view \<noteq> [] \<longrightarrow> reifies_id view (packed_dict dict) \<noteq> 0 \<and> term_value_at dict (reifies_id view (packed_dict dict)) = Some (Iri RDF_REIFIES))"

lemma view_sections:
  fixes checks :: "('l, 'i) term_checks" and view :: "('id, term_value, 'e) dataset_view"
  assumes order: "\<forall>S. finite S \<longrightarrow> set (iter S) = S" and fits: "pack_fits checks psize view"
  shows "\<exists>ed dict bs tr sb st. dict_try_encode iter view = Some (Inr ed) \<and>
    dict_open checks (dict_to_bytes ed) = Some (Inr dict) \<and> n_terms dict = ed_n_terms ed \<and> translates view dict \<and>
    try_encode (packed_dict dict) view = Some (Inr bs) \<and> triples_from_bytes psize bs = Some (Inr tr) \<and>
    opened (view_parts view (packed_dict dict)) tr \<and> readable view (packed_dict dict) \<and>
    side_try_encode (packed_dict dict) view = Some (Inr sb) \<and> side_from_bytes sb = Some (Inr st) \<and> side_valid st \<and>
    set (reifier_entries st) = side_reifiers view (packed_dict dict) \<and> distinct (reifier_entries st) \<and>
    set (annotation_entries st) = side_annotations view (packed_dict dict) \<and> distinct (annotation_entries st) \<and>
    length (dict_to_bytes ed) + length bs + length sb < 2 ^ 62"
proof -
  have enc: "view_encodable checks view" and vf: "view_fits psize view" using fits by (simp_all add: pack_fits_def)
  obtain ed vs where ed: "dict_try_encode iter view = Some (Inr ed)" "ed_n_terms ed = of_nat (length vs)" "set vs = view_terms view"
    and e: "encodable checks vs" "encode_values vs (value_to_id vs) = Some (ed_values_bytes ed)"
    and opens: "length (ed_values_bytes ed) < 2 ^ 64 \<Longrightarrow> \<exists>dict. dict_open checks (dict_to_bytes ed) = Some (Inr dict) \<and> holds_list checks dict vs"
    using view_dictionary [OF order enc] by blast
  have "length vs = card (view_terms view)" using encodable_distinct [OF e(1)] by (simp add: distinct_card flip: ed(3))
  then have l: "length (ed_values_bytes ed) < 2 ^ 58" using encoded_size [OF e] fits by (simp add: pack_fits_def)
  then have "length (ed_values_bytes ed) < 2 ^ 64" by simp
  then obtain dict where d: "dict_open checks (dict_to_bytes ed) = Some (Inr dict)" "holds_list checks dict vs" using opens by blast
  let ?D = "packed_dict dict"
  have valid: "dict_valid dict" by (rule opened_valid [OF d(1)])
  have ids: "\<exists>v tid. dv_term_value view x = Inr v \<and> unified view ?D x = Some tid \<and> term_value_at dict tid = Some v"
    if "x \<in> referenced_ids view" for x by (rule view_ids_resolve [OF enc d(2) valid ed(3) that])
  have n: "n_terms dict = ed_n_terms ed" using holds_length [OF d(2)] by (simp add: n_terms_def ed(2))
  have reif: "\<exists>tid. id_by_value ?D (Iri RDF_REIFIES) = Some tid \<and> tid \<noteq> 0 \<and> term_value_at dict tid = Some (Iri RDF_REIFIES)"
    if "dv_reifier_quads view \<noteq> []" by (rule reifies_known [OF d(2) valid ed(3) that])
  have tr: "translates view dict"
    unfolding translates_def reifies_id_def using ids reif by (fastforce simp: uid_def)
  have R: "readable view ?D"
    using enc ids view_ids_referenced [of view] unfolding readable_def view_encodable_def by fastforce
  have SR: "side_readable view ?D"
    using enc fits ids reif unfolding side_readable_def view_encodable_def pack_fits_def referenced_ids_def by fastforce
  obtain bs tr where b: "try_encode ?D view = Some (Inr bs)" "triples_from_bytes psize bs = Some (Inr tr)"
    "opened (view_parts view ?D) tr" "length bs < 2 ^ 61" by (rule view_opens [OF R vf])
  obtain sb st where s: "side_try_encode ?D view = Some (Inr sb)" "side_from_bytes sb = Some (Inr st)" "side_valid st"
    "set (reifier_entries st) = side_reifiers view ?D" "distinct (reifier_entries st)"
    "set (annotation_entries st) = side_annotations view ?D" "distinct (annotation_entries st)"
    "length sb \<le> 117 + 24 * length (dv_reifier_quads view) + 48 * length (dv_annotation_quads view)"
    by (rule view_side_opens [OF SR])
  have "length (dict_to_bytes ed) + length bs + length sb < 2 ^ 62"
    using l b(4) s(8) fits by (simp add: pack_fits_def dict_to_bytes_def)
  then show ?thesis using ed(1) d(1) n tr b(1-3) R s(1-7) by blast
qed

section \<open>Building and opening\<close>

lemma capabilities_total:
  assumes "side_valid st"
  obtains caps where "capabilities dict st named = Some caps"
  using graph_references_entries(2) [OF assms] by (cases named) (auto simp: capabilities_def)

lemma pack_opens:
  fixes checks :: "('l, 'i) term_checks" and view :: "('id, term_value, 'e) dataset_view"
  assumes order: "\<forall>S. finite S \<longrightarrow> set (iter S) = S" and fits: "pack_fits checks psize view"
    and sha: "\<forall>b. length (sha b) = 32" and canon: "canon view = Inr digest" "length digest = 32"
  shows "\<exists>bytes pv.
    (build_view_bytes sha checks psize iter canon None None view :: (('e, 'c, 'm, 'l, 'i) pack_error + bytes) option) = Some (Inr bytes) \<and>
    (pack_from_bytes sha blake3 checks psize bytes :: (('e, 'c, 'm, 'l, 'i) pack_error + pack_view) option) = Some (Inr pv) \<and> pv_rdfc_digest pv = digest \<and>
    translates view (pv_dict pv) \<and> readable view (packed_dict (pv_dict pv)) \<and> opened (view_parts view (packed_dict (pv_dict pv))) (pv_triples pv) \<and> side_valid (pv_side pv) \<and>
    set (reifier_entries (pv_side pv)) = side_reifiers view (packed_dict (pv_dict pv)) \<and> distinct (reifier_entries (pv_side pv)) \<and>
    set (annotation_entries (pv_side pv)) = side_annotations view (packed_dict (pv_dict pv)) \<and> distinct (annotation_entries (pv_side pv))"
proof -
  obtain ed dict bs tr sb st where ed: "dict_try_encode iter view = Some (Inr ed)"
    and d: "dict_open checks (dict_to_bytes ed) = Some (Inr dict)" "n_terms dict = ed_n_terms ed" "translates view dict"
    and b: "try_encode (packed_dict dict) view = Some (Inr bs)" "triples_from_bytes psize bs = Some (Inr tr)"
      "opened (view_parts view (packed_dict dict)) tr" "readable view (packed_dict dict)"
    and s: "side_try_encode (packed_dict dict) view = Some (Inr sb)" "side_from_bytes sb = Some (Inr st)" "side_valid st"
      "set (reifier_entries st) = side_reifiers view (packed_dict dict)" "distinct (reifier_entries st)"
      "set (annotation_entries st) = side_annotations view (packed_dict dict)" "distinct (annotation_entries st)"
    and len: "length (dict_to_bytes ed) + length bs + length sb < 2 ^ 62" using view_sections [OF order fits] by (elim exE conjE)
  obtain caps where caps: "capabilities dict st (named_graph_ids tr \<noteq> []) = Some caps" by (rule capabilities_total [OF s(3)])
  obtain bytes where a: "assemble_pack sha (ed_n_terms ed) caps digest [dict_to_bytes ed, bs, sb] = Some bytes" "take 8 bytes = MAGIC"
    "HEADER_LEN + SECTION_COUNT * ENTRY_LEN \<le> length bytes"
    and r: "bytes_read_u32_le bytes 8 = Some FORMAT_VERSION" "bytes_read_u32_le bytes 12 = Some (capabilities_to_flags caps)"
    "bytes_read_u64_le bytes 16 = Some (ed_n_terms ed)" "bytes_read_u32_le bytes 24 = Some (of_nat SECTION_COUNT)"
    and g: "digest_at bytes 32 = (Some (Inr digest) :: (('e, 'c, 'm, 'l, 'i) pack_error + bytes) option)"
    and q: "read_sections sha bytes 0 SECTION_KINDS = (Some (Inr [dict_to_bytes ed, bs, sb]) :: (('e, 'c, 'm, 'l, 'i) pack_error + bytes list) option)"
    by (rule assembled_reads [OF sha canon(2) len])
  have "(build_view_bytes sha checks psize iter canon None None view :: (('e, 'c, 'm, 'l, 'i) pack_error + bytes) option) = Some (Inr bytes)"
    by (simp add: build_view_bytes_def checkpointed_drain_def pack_encode_view_def ed d(1) b(1,2) s(1,2) caps canon(1) a(1) Let_def)
  moreover define pv where "pv = \<lparr>pv_snapshot_identity = blake3 bytes, pv_dict = dict, pv_triples = tr, pv_side = st, pv_capabilities = caps, pv_rdfc_digest = digest\<rparr>"
  have hl: "HEADER_LEN \<le> length bytes" using a(3) by simp
  have "(open_sections checks psize (dict_to_bytes ed) bs sb :: (('e, 'c, 'm, 'l, 'i) pack_error + _) option) = Some (Inr (dict, tr, st, caps))"
    by (simp add: open_sections_def d(1) b(2) s(2) caps)
  then have "(pack_from_bytes sha blake3 checks psize bytes :: (('e, 'c, 'm, 'l, 'i) pack_error + pack_view) option) = Some (Inr pv)"
    using hl a(2,3) by (simp add: pack_from_bytes_def r g q ok_or_def capability_flags_round_trip d(2) pv_def SECTION_COUNT_def)
  moreover have "pv_dict pv = dict" "pv_triples pv = tr" "pv_side pv = st" "pv_rdfc_digest pv = digest" by (simp_all add: pv_def)
  ultimately show ?thesis using d(3) b(3,4) s(3-7) by (intro exI [of _ bytes] exI [of _ pv] conjI) simp_all
qed

end
