(* ===== verification/PackRoundTrip.thy ===== *)
theory PackRoundTrip
  imports PackIndex
begin

text \<open>
  The pack as a store: what the dataset view of an opened pack (\<open>view.rs\<close>) answers, compared with the
  dataset view it was built from, and a query that disagrees with the listing it belongs to.
\<close>

section \<open>The rows an opened pack shows\<close>

definition translate_quad :: "('id \<Rightarrow> u64) \<Rightarrow> 'id quad_ids \<Rightarrow> quad" where
  "translate_quad f = (\<lambda>(s, p, ob, g). (f s, f p, f ob, map_option f g))"

lemma translates_uid: "translates view dict \<Longrightarrow> x \<in> referenced_ids view \<Longrightarrow> uid view (packed_dict dict) x \<noteq> 0"
  using uid_positive [of view "packed_dict dict" x] by (auto simp: translates_def)

lemma base_ids_mem: "(s, p, ob, g) \<in> set (dv_quads view) \<Longrightarrow> {s, p, ob} \<union> set_option g \<subseteq> referenced_ids view"
  by (force simp: referenced_ids_def base_ids_eq)

lemma pack_quads:
  assumes o: "opened (view_parts view (packed_dict dict)) tr" and t: "translates view dict"
  shows "\<exists>qs. map_quads (all_quads tr) = Some qs \<and> distinct qs \<and> set qs = translate_quad (uid view (packed_dict dict)) ` set (dv_quads view)"
proof -
  let ?f = "uid view (packed_dict dict)"
  define qs where "qs = concat (map (part_answer None None None) (selected AnyGraph (view_parts view (packed_dict dict))))"
  have a: "all_quads tr = Some qs" using pattern_eq [OF o] by (simp add: all_quads_def qs_def)
  have d: "distinct qs" unfolding qs_def selected_view_parts
    by (rule distinct_answers) (rule distinct_map_filter, rule distinct_view_parts)
  have "set qs = {(a, b, c, h). ((a, b, c), h) \<in> set (unified_quads view (packed_dict dict))}"
    unfolding qs_def set_answers by (simp add: row_matches_def graph_sel_def)
  also have "\<dots> = translate_quad ?f ` set (dv_quads view)"
    unfolding unified_quads_def set_map by (force simp: translate_quad_def)
  finally have s: "set qs = translate_quad ?f ` set (dv_quads view)" .
  have "nonzero_quad (translate_quad ?f q)" if "q \<in> set (dv_quads view)" for q
  proof -
    obtain s p ob g where q: "q = (s, p, ob, g)" by (cases q)
    show ?thesis using base_ids_mem [of s p ob g view] that translates_uid [OF t] by (auto simp: q translate_quad_def nonzero_quad_def)
  qed
  then have "map_quads (all_quads tr) = Some qs" using a s by (intro map_quads_id) auto
  then show ?thesis using d s by blast
qed

lemma side_reifiers_translate:
  "side_reifiers view D = (\<lambda>(s, p, ob, g). (uid view D s, reifies_id view D, uid view D ob, map_option (uid view D) g)) ` set (dv_reifier_quads view)"
  "side_annotations view D = translate_quad (uid view D) ` set (dv_annotation_quads view)"
  by (simp_all add: side_reifiers_def side_annotations_def translate_quad_def)

lemma side_rows_nonzero:
  assumes t: "translates view dict"
  shows "\<forall>q\<in>side_reifiers view (packed_dict dict). nonzero_quad q" "\<forall>q\<in>side_annotations view (packed_dict dict). nonzero_quad q"
proof -
  have nz: "uid view (packed_dict dict) x \<noteq> 0" if "x \<in> referenced_ids view" for x by (rule translates_uid [OF t that])
  have "reifies_id view (packed_dict dict) \<noteq> 0" if "dv_reifier_quads view \<noteq> []" using t that by (simp add: translates_def)
  moreover have "dv_reifier_quads view \<noteq> []" if "q \<in> set (dv_reifier_quads view)" for q using that by auto
  ultimately have r: "reifies_id view (packed_dict dict) \<noteq> 0" if "q \<in> set (dv_reifier_quads view)" for q using that by blast
  show "\<forall>q\<in>side_reifiers view (packed_dict dict). nonzero_quad q"
    using reifier_ids_mem [of _ _ _ _ "dv_reifier_quads view"] nz r by (fastforce simp: side_reifiers_def nonzero_quad_def referenced_ids_def)
  show "\<forall>q\<in>side_annotations view (packed_dict dict). nonzero_quad q"
    using annotation_ids_mem [of _ _ _ _ "dv_annotation_quads view"] nz by (fastforce simp: side_annotations_def nonzero_quad_def referenced_ids_def)
qed

section \<open>The named graphs\<close>

definition side_graphs :: "('id, 'v, 'e) dataset_view \<Rightarrow> 'id set" where
  "side_graphs view = set (quad_graphs (dv_reifier_quads view)) \<union> set (quad_graphs (dv_annotation_quads view))"

lemma set_map_filter: "set (List.map_filter f xs) = {y. \<exists>x\<in>set xs. f x = Some y}"
  by (induction xs) (auto simp: map_filter_simps split: option.splits)

lemma graph_entries_set:
  assumes "set (reifier_entries st) = side_reifiers view D" "set (annotation_entries st) = side_annotations view D"
  shows "set (graph_entries st) = uid view D ` side_graphs view"
  unfolding graph_entries_def set_append set_map_filter assms side_reifiers_def side_annotations_def side_graphs_def quad_graphs_def
  by (force simp: map_option_case split: option.splits)

lemma stored_graphs_set:
  "set (stored_graphs view D) = uid view D ` set (quad_graphs (dv_quads view)) \<union>
     {g \<in> uid view D ` set (dv_named_graphs view). g \<notin> uid view D ` side_graphs view}"
proof -
  have "set (List.map_filter snd (unified_quads view D)) = uid view D ` set (quad_graphs (dv_quads view))"
    unfolding set_map_filter unified_quads_def quad_graphs_def by (force simp: map_option_case split: option.splits)
  then show ?thesis by (auto simp: stored_graphs_def Let_def side_graphs_def)
qed

lemma pack_graphs:
  assumes o: "opened (view_parts view (packed_dict (pv_dict pv))) (pv_triples pv)" and r: "readable view (packed_dict (pv_dict pv))"
    and v: "side_valid (pv_side pv)" and s: "set (reifier_entries (pv_side pv)) = side_reifiers view (packed_dict (pv_dict pv))"
      "set (annotation_entries (pv_side pv)) = side_annotations view (packed_dict (pv_dict pv))"
    and t: "translates view (pv_dict pv)"
  shows "\<exists>gs. pv_named_graphs pv = Some gs \<and> sorted_wrt (<) gs \<and> set gs = uid view (packed_dict (pv_dict pv)) `
    (set (quad_graphs (dv_quads view)) \<union> set (dv_named_graphs view) \<union> side_graphs view)"
proof -
  let ?D = "packed_dict (pv_dict pv)"
  note ids = opened_graph_ids [OF o]
  have asc: "sorted_wrt (<) (named_graph_ids (pv_triples pv))" unfolding ids by (rule stored_graphs_facts(1))
  have g: "set (graph_entries (pv_side pv)) = uid view ?D ` side_graphs view" by (rule graph_entries_set [OF s])
  have "side_graphs view \<subseteq> referenced_ids view"
    using quad_graphs_reifiers [of "dv_reifier_quads view"] quad_graphs_annotations [of "dv_annotation_quads view"]
    by (auto simp: side_graphs_def referenced_ids_def)
  then have "0 \<notin> set (graph_entries (pv_side pv))" unfolding g using translates_uid [OF t] by (auto simp: image_iff)
  then have nz: "0 \<notin> set (named_graph_ids (pv_triples pv)) \<union> set (graph_entries (pv_side pv))"
    using stored_graphs_positive [OF r] by (simp add: ids)
  obtain gs where gs: "pv_named_graphs pv = Some gs" "sorted_wrt (<) gs"
    "set gs = set (named_graph_ids (pv_triples pv)) \<union> set (graph_entries (pv_side pv))"
    using named_graphs_merge [OF graph_references_entries(1) [OF v] asc nz] by blast
  have "set gs = uid view ?D ` (set (quad_graphs (dv_quads view)) \<union> set (dv_named_graphs view) \<union> side_graphs view)"
    unfolding gs(3) ids g stored_graphs_set by auto
  then show ?thesis using gs(1,2) by blast
qed

lemma has_named_graph_stored:
  assumes "opened (view_parts view D) tr"
  shows "has_named_graph tr g \<longleftrightarrow> g \<in> set (stored_graphs view D)"
  unfolding opened_graph_ids [OF assms, symmetric] by (simp add: has_named_graph_def named_graph_ids_def map_of_eq_None_iff)

lemma quad_graphs_base: "set (quad_graphs quads) \<subseteq> base_ids quads"
  by (force simp: base_ids_eq quad_graphs_def set_map_filter)

lemma side_graph_unstored:
  assumes t: "translates view dict" and g: "g \<in> side_graphs view"
    and other: "\<forall>h\<in>set (quad_graphs (dv_quads view)). dv_term_value view h \<noteq> dv_term_value view g"
  shows "uid view (packed_dict dict) g \<notin> set (stored_graphs view (packed_dict dict))"
proof -
  let ?f = "uid view (packed_dict dict)"
  have refs: "set (quad_graphs (dv_quads view)) \<subseteq> referenced_ids view" "g \<in> referenced_ids view"
    using g quad_graphs_base [of "dv_quads view"] quad_graphs_reifiers [of "dv_reifier_quads view"]
      quad_graphs_annotations [of "dv_annotation_quads view"] by (auto simp: side_graphs_def referenced_ids_def)
  have "?f g \<noteq> ?f h" if h: "h \<in> set (quad_graphs (dv_quads view))" for h
  proof -
    have val: "\<exists>v. dv_term_value view x = Inr v \<and> term_value_at dict (?f x) = Some v" if "x \<in> referenced_ids view" for x
      using t that unfolding translates_def by blast
    obtain v w where "dv_term_value view g = Inr v" "term_value_at dict (?f g) = Some v"
      "dv_term_value view h = Inr w" "term_value_at dict (?f h) = Some w"
      using val [of g] val [of h] refs h by blast
    then show ?thesis using other h by auto
  qed
  then show ?thesis using g unfolding stored_graphs_set by fastforce
qed

text \<open>A small view with one quad in the default graph and one reifier in a graph of its own.\<close>

definition reifier_graph_view :: "(nat, term_value, unit) dataset_view" where
  "reifier_graph_view = \<lparr>dv_error_before = None, dv_error_after = None, dv_term_value = (\<lambda>x. Inr (three_terms ! x)),
     dv_quads = [(0, 0, 1, None)], dv_named_graphs = [], dv_reifier_quads = [(0, 0, 2, Some 0)], dv_annotation_quads = []\<rparr>"

lemma reifier_graph_view_fits: "pack_fits lax_checks 400 reifier_graph_view"
proof -
  have ids: "referenced_ids reifier_graph_view = referenced_ids small_view" by (auto simp: referenced_ids_def small_view_def reifier_graph_view_def base_ids_def)
  have terms: "view_terms reifier_graph_view = view_terms small_view"
    unfolding view_terms_def root_terms_def ids by (simp add: small_view_def reifier_graph_view_def)
  have "view_terms small_view = set (Iri RDF_REIFIES # three_terms)" by (rule small_view_terms)
  then have "card (view_terms small_view) \<le> 4" using card_length [of "Iri RDF_REIFIES # three_terms"] by (simp add: three_terms_def)
  moreover have "view_encodable lax_checks reifier_graph_view"
    using small_view_encodable unfolding view_encodable_def terms ids by (simp add: small_view_def reifier_graph_view_def)
  moreover have "view_fits 400 reifier_graph_view" "length (dv_reifier_quads reifier_graph_view) < 2 ^ 48"
    "length (dv_annotation_quads reifier_graph_view) < 2 ^ 48" by (simp_all add: view_fits_def reifier_graph_view_def)
  ultimately show ?thesis by (simp add: pack_fits_def terms)
qed

definition zero_digest :: bytes where "zero_digest = replicate 32 0"
definition zero_sha :: "bytes \<Rightarrow> bytes" where "zero_sha b = zero_digest"
definition fixed_canon :: "(nat, term_value, unit) dataset_view \<Rightarrow> unit + bytes" where "fixed_canon view = Inr zero_digest"

lemma instance_facts: "\<forall>S. finite S \<longrightarrow> set (sorted_list_of_set S) = (S :: nat set)" "\<forall>b. length (zero_sha b) = 32"
  "fixed_canon reifier_graph_view = Inr zero_digest" "length zero_digest = 32"
  by (simp_all add: zero_sha_def zero_digest_def fixed_canon_def)

section \<open>Properties\<close>

text \<open>C40: The round trip of the whole pack. For a dataset view without read failures whose terms the
  dictionary admits and whose canonical digest is computed, the builder neither fails nor panics,
  and the file it writes opens. Under a translation \<open>f\<close> of the view's ids to the pack's ids, each of
  which resolves to the same term, the opened pack lists exactly the view's quads, its reifier
  bindings (under the id of \<open>rdf:reifies\<close>) and its annotations, each once, and exactly its named
  graphs, ascending: those of quads, the declared ones, and those only side rows name.\<close>

theorem pack_round_trip:
  fixes checks :: "('l, 'i) term_checks" and view :: "('id, term_value, 'e) dataset_view" and canon :: "('id, term_value, 'e) dataset_view \<Rightarrow> 'c + bytes"
  assumes "\<forall>S. finite S \<longrightarrow> set (iter S) = S" "pack_fits checks psize view" "\<forall>b. length (sha b) = 32"
    and "canon view = Inr digest" "length digest = 32"
  shows "\<exists>bytes pv f reifies.
    (build_view_bytes sha checks psize iter canon None None view :: (('e, 'c, 'm, 'l, 'i) pack_error + bytes) option) = Some (Inr bytes) \<and>
    (pack_from_bytes sha blake3 checks psize bytes :: (('e, 'c, 'm, 'l, 'i) pack_error + pack_view) option) = Some (Inr pv) \<and>
    pv_rdfc_digest pv = digest \<and>
    (\<forall>x\<in>referenced_ids view. \<exists>v. dv_term_value view x = Inr v \<and> term_value_at (pv_dict pv) (f x) = Some v) \<and>
    (dv_reifier_quads view \<noteq> [] \<longrightarrow> term_value_at (pv_dict pv) reifies = Some (Iri RDF_REIFIES)) \<and>
    (\<exists>qs. pv_quads pv = Some qs \<and> distinct qs \<and> set qs = translate_quad f ` set (dv_quads view)) \<and>
    (\<exists>rs. pv_reifier_quads pv = Some rs \<and> distinct rs \<and>
      set rs = (\<lambda>(s, p, ob, g). (f s, reifies, f ob, map_option f g)) ` set (dv_reifier_quads view)) \<and>
    (\<exists>as. pv_annotation_quads pv = Some as \<and> distinct as \<and> set as = translate_quad f ` set (dv_annotation_quads view)) \<and>
    (\<exists>gs. pv_named_graphs pv = Some gs \<and> sorted_wrt (<) gs \<and>
      set gs = f ` (set (quad_graphs (dv_quads view)) \<union> set (dv_named_graphs view) \<union> side_graphs view))"
proof -
  obtain bytes pv where b: "(build_view_bytes sha checks psize iter canon None None view :: (('e, 'c, 'm, 'l, 'i) pack_error + bytes) option) = Some (Inr bytes)"
    "(pack_from_bytes sha blake3 checks psize bytes :: (('e, 'c, 'm, 'l, 'i) pack_error + pack_view) option) = Some (Inr pv)" "pv_rdfc_digest pv = digest"
    and t: "translates view (pv_dict pv)" and r: "readable view (packed_dict (pv_dict pv))"
    and o: "opened (view_parts view (packed_dict (pv_dict pv))) (pv_triples pv)" and v: "side_valid (pv_side pv)"
    and s: "set (reifier_entries (pv_side pv)) = side_reifiers view (packed_dict (pv_dict pv))" "distinct (reifier_entries (pv_side pv))"
      "set (annotation_entries (pv_side pv)) = side_annotations view (packed_dict (pv_dict pv))" "distinct (annotation_entries (pv_side pv))"
    using pack_opens [where ?blake3.0 = blake3 and canon = canon and view = view and digest = digest, OF assms] by (elim exE conjE)
  have q: "\<exists>qs. pv_quads pv = Some qs \<and> distinct qs \<and> set qs = translate_quad (uid view (packed_dict (pv_dict pv))) ` set (dv_quads view)"
    unfolding pv_quads_def by (rule pack_quads [OF o t])
  have rs: "pv_reifier_quads pv = Some (reifier_entries (pv_side pv))" "pv_annotation_quads pv = Some (annotation_entries (pv_side pv))"
    unfolding pv_reifier_quads_def pv_annotation_quads_def
    using side_rows_nonzero [OF t] s(1,3) map_quads_id [OF reifier_quads_entries [OF v]] map_quads_id [OF annotation_quads_entries [OF v]] by simp_all
  show ?thesis
  proof (intro exI [of _ bytes] exI [of _ pv] exI [of _ "uid view (packed_dict (pv_dict pv))"] exI [of _ "reifies_id view (packed_dict (pv_dict pv))"] conjI)
    show "\<exists>gs. pv_named_graphs pv = Some gs \<and> sorted_wrt (<) gs \<and> set gs = uid view (packed_dict (pv_dict pv)) `
        (set (quad_graphs (dv_quads view)) \<union> set (dv_named_graphs view) \<union> side_graphs view)"
      by (rule pack_graphs [OF o r v s(1,3) t])
  qed (use b q rs s t in \<open>auto simp: translates_def side_reifiers_translate\<close>)
qed

lemma pack_round_trip_witness:
  "\<exists>bytes pv. (build_view_bytes zero_sha lax_checks 400 sorted_list_of_set fixed_canon None None reifier_graph_view
      :: ((unit, unit, unit, nat, nat) pack_error + bytes) option) = Some (Inr bytes) \<and>
    (pack_from_bytes zero_sha zero_sha lax_checks 400 bytes :: ((unit, unit, unit, nat, nat) pack_error + pack_view) option) = Some (Inr pv) \<and>
    (\<exists>qs. pv_quads pv = Some qs \<and> length qs = 1)"
proof -
  obtain bytes pv f qs where b: "(build_view_bytes zero_sha lax_checks 400 sorted_list_of_set fixed_canon None None reifier_graph_view
      :: ((unit, unit, unit, nat, nat) pack_error + bytes) option) = Some (Inr bytes)"
    "(pack_from_bytes zero_sha zero_sha lax_checks 400 bytes :: ((unit, unit, unit, nat, nat) pack_error + pack_view) option) = Some (Inr pv)"
    and q: "pv_quads pv = Some qs" "distinct qs" "set qs = translate_quad f ` set (dv_quads reifier_graph_view)"
    using pack_round_trip [where canon = fixed_canon and ?blake3.0 = zero_sha, OF instance_facts(1) reifier_graph_view_fits instance_facts(2-4)]
    by (elim exE conjE)
  have "card (set qs) = 1" unfolding q(3) by (simp add: reifier_graph_view_def)
  then show ?thesis using b q(1,2) distinct_card [of qs] by auto
qed

text \<open>C17: A pack can contradict its own list of named graphs. A graph that only side rows name, and no
  quad is in, is listed by the opened pack and yet not a member of it, although the membership test
  is documented as membership in that list.\<close>

theorem side_only_graph_not_a_member:
  fixes checks :: "('l, 'i) term_checks" and view :: "('id, term_value, 'e) dataset_view" and canon :: "('id, term_value, 'e) dataset_view \<Rightarrow> 'c + bytes"
  assumes "\<forall>S. finite S \<longrightarrow> set (iter S) = S" "pack_fits checks psize view" "\<forall>b. length (sha b) = 32"
    and "canon view = Inr digest" "length digest = 32"
    and "g \<in> side_graphs view" "\<forall>h\<in>set (quad_graphs (dv_quads view)). dv_term_value view h \<noteq> dv_term_value view g"
  shows "\<exists>bytes pv gs tid.
    (build_view_bytes sha checks psize iter canon None None view :: (('e, 'c, 'm, 'l, 'i) pack_error + bytes) option) = Some (Inr bytes) \<and>
    (pack_from_bytes sha blake3 checks psize bytes :: (('e, 'c, 'm, 'l, 'i) pack_error + pack_view) option) = Some (Inr pv) \<and>
    (\<exists>v. dv_term_value view g = Inr v \<and> term_value_at (pv_dict pv) tid = Some v) \<and>
    pv_named_graphs pv = Some gs \<and> tid \<in> set gs \<and> \<not> pv_has_named_graph pv tid"
proof -
  obtain bytes pv where b: "(build_view_bytes sha checks psize iter canon None None view :: (('e, 'c, 'm, 'l, 'i) pack_error + bytes) option) = Some (Inr bytes)"
    "(pack_from_bytes sha blake3 checks psize bytes :: (('e, 'c, 'm, 'l, 'i) pack_error + pack_view) option) = Some (Inr pv)"
    and t: "translates view (pv_dict pv)" and r: "readable view (packed_dict (pv_dict pv))"
    and o: "opened (view_parts view (packed_dict (pv_dict pv))) (pv_triples pv)" and v: "side_valid (pv_side pv)"
    and s: "set (reifier_entries (pv_side pv)) = side_reifiers view (packed_dict (pv_dict pv))"
      "set (annotation_entries (pv_side pv)) = side_annotations view (packed_dict (pv_dict pv))"
    using pack_opens [where ?blake3.0 = blake3 and canon = canon and view = view and digest = digest, OF assms(1-5)] by (elim exE conjE)
  have "g \<in> referenced_ids view" using assms(6) quad_graphs_reifiers [of "dv_reifier_quads view"] quad_graphs_annotations [of "dv_annotation_quads view"]
    by (auto simp: side_graphs_def referenced_ids_def)
  then have val: "\<exists>v. dv_term_value view g = Inr v \<and> term_value_at (pv_dict pv) (uid view (packed_dict (pv_dict pv)) g) = Some v"
    using t by (auto simp: translates_def)
  obtain gs where gs: "pv_named_graphs pv = Some gs" "uid view (packed_dict (pv_dict pv)) g \<in> set gs"
    using pack_graphs [OF o r v s t] assms(6) by blast
  have "\<not> pv_has_named_graph pv (uid view (packed_dict (pv_dict pv)) g)"
    unfolding pv_has_named_graph_def has_named_graph_stored [OF o] by (rule side_graph_unstored [OF t assms(6,7)])
  then show ?thesis using b val gs by blast
qed

lemma side_only_graph_not_a_member_witness:
  "\<exists>bytes pv gs tid. (build_view_bytes zero_sha lax_checks 400 sorted_list_of_set fixed_canon None None reifier_graph_view
      :: ((unit, unit, unit, nat, nat) pack_error + bytes) option) = Some (Inr bytes) \<and>
    (pack_from_bytes zero_sha zero_sha lax_checks 400 bytes :: ((unit, unit, unit, nat, nat) pack_error + pack_view) option) = Some (Inr pv) \<and>
    term_value_at (pv_dict pv) tid = Some (Iri [97]) \<and> pv_named_graphs pv = Some gs \<and> tid \<in> set gs \<and> \<not> pv_has_named_graph pv tid"
proof -
  have "0 \<in> side_graphs reifier_graph_view" "\<forall>h\<in>set (quad_graphs (dv_quads reifier_graph_view)). dv_term_value reifier_graph_view h \<noteq> dv_term_value reifier_graph_view 0"
    by (simp_all add: side_graphs_def quad_graphs_def reifier_graph_view_def map_filter_simps)
  from side_only_graph_not_a_member [where canon = fixed_canon and ?blake3.0 = zero_sha, OF instance_facts(1) reifier_graph_view_fits instance_facts(2-4) this]
  have r: "\<exists>bytes pv gs tid. (build_view_bytes zero_sha lax_checks 400 sorted_list_of_set fixed_canon None None reifier_graph_view
      :: ((unit, unit, unit, nat, nat) pack_error + bytes) option) = Some (Inr bytes) \<and>
    (pack_from_bytes zero_sha zero_sha lax_checks 400 bytes :: ((unit, unit, unit, nat, nat) pack_error + pack_view) option) = Some (Inr pv) \<and>
    (\<exists>v. dv_term_value reifier_graph_view 0 = Inr v \<and> term_value_at (pv_dict pv) tid = Some v) \<and>
    pv_named_graphs pv = Some gs \<and> tid \<in> set gs \<and> \<not> pv_has_named_graph pv tid" .
  have "dv_term_value reifier_graph_view 0 = Inr (Iri [97])" by (simp add: reifier_graph_view_def three_terms_def)
  with r show ?thesis by simp
qed

end
