(* ===== verification/CborHead.thy ===== *)
theory CborHead
  imports Words
begin

text \<open>
  The CBOR data-item head (\<open>crates/lex/src/cbor/head.rs\<close>): the shortest-form writer, the
  borrowed readers of heads, byte strings and text strings, and the UTF-8 test of
  \<open>core::str::from_utf8\<close> that \<open>read_text\<close> uses. A writer is the list of bytes it is given.
\<close>

section \<open>The code\<close>

definition UNSIGNED :: u8 where "UNSIGNED = 0"
definition NEGATIVE :: u8 where "NEGATIVE = 1"
definition BYTES :: u8 where "BYTES = 2"
definition TEXT :: u8 where "TEXT = 3"
definition ARRAY :: u8 where "ARRAY = 4"
definition MAP :: u8 where "MAP = 5"
definition TAG :: u8 where "TAG = 6"
definition SIMPLE :: u8 where "SIMPLE = 7"

lemmas majors = UNSIGNED_def NEGATIVE_def BYTES_def TEXT_def ARRAY_def MAP_def TAG_def SIMPLE_def

text \<open>The nine-byte buffer and the number of its bytes in use.\<close>

definition head_encode :: "u8 \<Rightarrow> u64 \<Rightarrow> bytes \<times> nat" where
  "head_encode major argument =
     (let prefix = push_bit 5 major; be = be_bytes 8 argument in
      if argument < 24 then ((prefix OR ucast argument) # replicate 8 0, 1)
      else if argument \<le> 0xff then ((prefix OR 0x18) # ucast argument # replicate 7 0, 2)
      else if argument \<le> 0xffff then ((prefix OR 0x19) # [be ! 6, be ! 7] @ replicate 6 0, 3)
      else if argument \<le> 0xffffffff then ((prefix OR 0x1a) # [be ! 4, be ! 5, be ! 6, be ! 7] @ replicate 4 0, 5)
      else ((prefix OR 0x1b) # map (\<lambda>k. be ! k) [0..<8], 9))"

definition head_len :: "u64 \<Rightarrow> nat" where
  "head_len argument = snd (head_encode 0 argument)"

definition push_head :: "bytes \<Rightarrow> u8 \<Rightarrow> u64 \<Rightarrow> bytes" where
  "push_head out major argument = (case head_encode major argument of (bs, n) \<Rightarrow> out @ take n bs)"

definition write_head :: "bytes \<Rightarrow> u8 \<Rightarrow> u64 \<Rightarrow> bytes" where
  "write_head writer major argument = (case head_encode major argument of (bs, n) \<Rightarrow> writer @ take n bs)"

definition write_text :: "bytes \<Rightarrow> bytes \<Rightarrow> bytes" where
  "write_text writer text = write_head writer TEXT (of_nat (length text)) @ text"

definition write_bytes :: "bytes \<Rightarrow> bytes \<Rightarrow> bytes" where
  "write_bytes writer bs = write_head writer BYTES (of_nat (length bs)) @ bs"

text \<open>The width of the argument that follows, from the additional information.\<close>

definition info_width :: "u8 \<Rightarrow> nat option" where
  "info_width info = (if info = 24 then Some 1 else if info = 25 then Some 2 else if info = 26 then Some 4
     else if info = 27 then Some 8 else None)"

definition read_argument :: "bytes \<Rightarrow> u8 \<Rightarrow> (u64 \<times> bytes) option" where
  "read_argument input major = (case input of
     [] \<Rightarrow> None
   | initial # tail \<Rightarrow>
       if drop_bit 5 initial \<noteq> major then None
       else (let info = initial AND 31 in
         if info \<le> 23 then Some (ucast info, tail)
         else (case info_width info of
             None \<Rightarrow> None
           | Some width \<Rightarrow>
               if width \<le> length tail
               then Some (foldl (\<lambda>value b. push_bit 8 value OR ucast b) 0 (take width tail), drop width tail)
               else None)))"

definition read_bytes :: "bytes \<Rightarrow> (bytes \<times> bytes) option" where
  "read_bytes input = (case read_argument input BYTES of
     None \<Rightarrow> None
   | Some (argument, rest) \<Rightarrow>
       if unat argument \<le> length rest then Some (take (unat argument) rest, drop (unat argument) rest) else None)"

definition read_text :: "bytes \<Rightarrow> (bytes \<times> bytes) option" where
  "read_text input = (case read_argument input TEXT of
     None \<Rightarrow> None
   | Some (argument, rest) \<Rightarrow>
       if unat argument \<le> length rest then
         (let text = take (unat argument) rest in
          if utf8_valid text then Some (text, drop (unat argument) rest) else None)
       else None)"

section \<open>Big-endian arguments\<close>

lemma fold_be: "foldl (\<lambda>value b. push_bit 8 value OR ucast b) 0 bs = (of_be_bytes bs :: u64)"
  by (induction bs rule: rev_induct) (simp_all add: of_be_bytes_def ac_simps)

lemma be_bytes_drop: "k \<le> n \<Longrightarrow> drop (n - k) (be_bytes n w) = be_bytes k w"
  by (simp add: be_bytes_def drop_rev) (simp add: le_bytes_def take_map)

lemma bit_below: "unat (w :: 'a::len word) < 2 ^ k \<Longrightarrow> bit w n \<Longrightarrow> n < k"
proof (rule ccontr)
  assume a: "unat w < 2 ^ k" "bit w n" "\<not> n < k"
  have "n < LENGTH('a)" using a(2) by (rule bit_imp_le_length)
  then have "bit (unat w) n" using a(2) by (simp add: bit_unsigned_iff)
  moreover have "take_bit k (unat w) = unat w" using a(1) by (simp add: take_bit_nat_eq_self_iff)
  ultimately show False using a(3) by (metis bit_take_bit_iff)
qed

lemma of_be_bytes_trunc:
  fixes w :: "'a::len word"
  assumes "unat w < 256 ^ k"
  shows "of_be_bytes (be_bytes k w) = w"
proof (rule bit_eqI)
  fix n assume "possible_bit TYPE('a word) n"
  then have n: "n < LENGTH('a)" by simp
  have "bit w n \<Longrightarrow> n < 8 * k" using bit_below [of w "8 * k" n] assms by (simp add: power_mult)
  then show "bit (of_be_bytes (be_bytes k w) :: 'a word) n = bit w n"
    using n by (cases "n div 8 < k") (auto simp: of_be_bytes_def be_bytes_def bit_of_le_bytes bit_simps not_less div_less_iff_less_mult)
qed

section \<open>Heads read back\<close>

text \<open>The length of the shortest head, and the bytes the encoder writes.\<close>

definition head_bytes :: "u8 \<Rightarrow> u64 \<Rightarrow> bytes" where
  "head_bytes major argument = (case head_encode major argument of (bs, n) \<Rightarrow> take n bs)"

lemma write_head_bytes: "write_head w major a = w @ head_bytes major a" "push_head w major a = w @ head_bytes major a"
  by (simp_all add: write_head_def push_head_def head_bytes_def split: prod.split)

lemma map_nth_8: "length be = 8 \<Longrightarrow> map ((!) be) [0..<8] = be"
  by (metis map_nth)

lemma head_bytes_cases:
  "head_bytes major a =
     (if unat a < 24 then [push_bit 5 major OR ucast a]
      else if unat a < 2 ^ 8 then (push_bit 5 major OR 24) # be_bytes 1 a
      else if unat a < 2 ^ 16 then (push_bit 5 major OR 25) # be_bytes 2 a
      else if unat a < 2 ^ 32 then (push_bit 5 major OR 26) # be_bytes 4 a
      else (push_bit 5 major OR 27) # be_bytes 8 a)"
proof -
  have l: "a < 24 \<longleftrightarrow> unat a < 24" "a \<le> 0xff \<longleftrightarrow> unat a < 2 ^ 8" "a \<le> 0xffff \<longleftrightarrow> unat a < 2 ^ 16"
    "a \<le> 0xffffffff \<longleftrightarrow> unat a < 2 ^ 32"
    by (auto simp: word_less_nat_alt word_le_nat_alt)
  have "be_bytes 8 a = map ((!) (be_bytes 8 a)) [0..<8]" by (rule map_nth_8 [symmetric]) simp
  then have e: "be_bytes 8 a = [be_bytes 8 a ! 0, be_bytes 8 a ! 1, be_bytes 8 a ! 2, be_bytes 8 a ! 3,
      be_bytes 8 a ! 4, be_bytes 8 a ! 5, be_bytes 8 a ! 6, be_bytes 8 a ! 7]" by (simp add: upt_rec numeral_eq_Suc)
  have d: "be_bytes 2 a = drop 6 (be_bytes 8 a)" "be_bytes 4 a = drop 4 (be_bytes 8 a)"
    using be_bytes_drop [of 2 8 a] be_bytes_drop [of 4 8 a] by simp_all
  have "be_bytes 2 a = [be_bytes 8 a ! 6, be_bytes 8 a ! 7]" unfolding d by (subst e) simp
  moreover have "be_bytes 4 a = [be_bytes 8 a ! 4, be_bytes 8 a ! 5, be_bytes 8 a ! 6, be_bytes 8 a ! 7]"
    unfolding d by (subst e) simp
  moreover have "be_bytes 1 a = [ucast a]" by (simp add: be_bytes_def le_bytes_def)
  moreover have "map (\<lambda>k. be_bytes 8 a ! k) [0..<8] = be_bytes 8 a" by (rule map_nth_8) simp
  ultimately show ?thesis by (simp add: head_bytes_def head_encode_def Let_def l)
qed

lemma length_head_bytes: "length (head_bytes major a) = head_len a"
  by (simp add: head_bytes_def head_len_def head_encode_def Let_def)

lemma head_len_eq:
  "head_len a = (if unat a < 24 then 1 else if unat a < 2 ^ 8 then 2 else if unat a < 2 ^ 16 then 3
     else if unat a < 2 ^ 32 then 5 else 9)"
  unfolding length_head_bytes [of 0, symmetric] head_bytes_cases by simp

text \<open>The initial byte splits into the major type and the additional information.\<close>

lemma initial_byte:
  assumes "major < 8" "info < (32 :: u8)"
  shows "drop_bit 5 (push_bit 5 major OR info) = major" "(push_bit 5 major OR info) AND 31 = info"
proof -
  have m: "bit major n \<Longrightarrow> n < 3" for n
    using bit_below [of major 3 n] assms(1) by (auto simp: word_less_nat_alt)
  have i: "bit info n \<Longrightarrow> n < 5" for n
    using bit_below [of info 5 n] assms(2) by (auto simp: word_less_nat_alt)
  have m31: "(31 :: u8) = mask 5" by (simp add: mask_eq_exp_minus_1)
  show "drop_bit 5 (push_bit 5 major OR info) = major"
    by (rule bit_eqI) (use m i [of "5 + _"] in \<open>auto simp: bit_simps\<close>)
  show "(push_bit 5 major OR info) AND 31 = info"
    unfolding m31 by (rule bit_eqI) (use i in \<open>auto simp: bit_simps\<close>)
qed

lemma read_argument_head:
  assumes "major < 8"
  shows "read_argument (head_bytes major a @ rest) major = Some (a, rest)"
proof -
  have small: "(ucast a :: u8) < 32 \<and> (ucast a :: u8) \<le> 23 \<and> (ucast (ucast a :: u8) :: u64) = a" if "unat a < 24"
    using that by (simp add: word_less_nat_alt word_le_nat_alt unsigned_ucast_eq unsigned_take_bit_eq take_bit_nat_eq_self word_unat_eq_iff)
  have step: "read_argument (((push_bit 5 major OR info) # be_bytes k a) @ rest) major = Some (a, rest)"
    if "info_width info = Some k" "info < 32" "\<not> info \<le> 23" "unat a < 256 ^ k" for info k
    using initial_byte [OF assms that(2)] that(1,3) of_be_bytes_trunc [OF that(4)]
    by (simp add: read_argument_def fold_be Let_def)
  show ?thesis
  proof (cases "unat a < 24")
    case True
    then show ?thesis using small initial_byte [OF assms, of "ucast a"]
      by (simp add: head_bytes_cases read_argument_def Let_def)
  next
    case False
    consider "unat a < 2 ^ 8" | "\<not> unat a < 2 ^ 8" "unat a < 2 ^ 16" | "\<not> unat a < 2 ^ 16" "unat a < 2 ^ 32" | "\<not> unat a < 2 ^ 32"
      by blast
    then show ?thesis
      using step [of 24 1] step [of 25 2] step [of 26 4] step [of 27 8] False unsigned_less [of a]
      by cases (simp_all add: head_bytes_cases info_width_def)
  qed
qed

lemma read_argument_other: "major < 8 \<Longrightarrow> other \<noteq> major \<Longrightarrow> read_argument (head_bytes major a @ rest) other = None"
proof -
  assume m: "major < 8" "other \<noteq> major"
  obtain info tail where h: "head_bytes major a = (push_bit 5 major OR info) # tail" "info < 32"
  proof (cases "unat a < 24")
    case True
    then have "(ucast a :: u8) < 32"
      by (simp add: word_less_nat_alt unsigned_ucast_eq unsigned_take_bit_eq take_bit_nat_eq_self)
    then show ?thesis using that [of "ucast a" "[]"] True by (simp add: head_bytes_cases)
  next
    case False
    have "\<exists>info tail. head_bytes major a = (push_bit 5 major OR info) # tail \<and> info < 32"
      by (simp add: head_bytes_cases False) (intro conjI impI exI, auto)
    then show ?thesis using that by blast
  qed
  then show ?thesis using initial_byte(1) [OF m(1) h(2)] m(2) by (simp add: read_argument_def)
qed

text \<open>A spelling the reader accepts is at least as long as the one the writer picks.\<close>

lemma of_be_bytes_less: "length bs \<le> k \<Longrightarrow> k < 8 \<Longrightarrow> unat (of_be_bytes bs :: u64) < 256 ^ k"
proof -
  assume k: "length bs \<le> k" "k < 8"
  have "take_bit (8 * k) (of_be_bytes bs :: u64) = of_be_bytes bs"
    by (rule bit_eqI) (use k in \<open>auto simp: bit_simps of_be_bytes_def bit_of_le_bytes\<close>)
  then have "unat (of_be_bytes bs :: u64) = take_bit (8 * k) (unat (of_be_bytes bs :: u64))"
    by (metis unsigned_take_bit_eq)
  also have "\<dots> < 2 ^ (8 * k)" by simp
  finally show ?thesis by (simp add: power_mult)
qed

lemma info_le_23: "(info :: u8) \<le> 23 \<Longrightarrow> unat (ucast info :: u64) < 24"
  by (simp add: word_le_nat_alt unsigned_ucast_eq take_bit_nat_eq_self)

lemma read_argument_shortest:
  assumes "read_argument input major = Some (a, rest)"
  shows "\<exists>pre. input = pre @ rest \<and> head_len a \<le> length pre \<and> length pre \<le> 9"
proof -
  obtain initial tail where i: "input = initial # tail" using assms by (cases input) (auto simp: read_argument_def)
  let ?info = "initial AND 31"
  show ?thesis
  proof (cases "?info \<le> 23")
    case True
    then have "a = ucast ?info" "rest = tail" using assms by (auto simp: i read_argument_def Let_def split: if_splits)
    then show ?thesis using info_le_23 [OF True] by (intro exI [of _ "[initial]"]) (simp add: i head_len_eq)
  next
    case False
    then obtain k where k: "info_width ?info = Some k" "k \<le> length tail" "a = of_be_bytes (take k tail)" "rest = drop k tail"
      using assms by (auto simp: i read_argument_def Let_def fold_be split: if_splits option.splits)
    have "unat a < 256 ^ k" if "k < 8" using of_be_bytes_less [of "take k tail" k] that k(3) by simp
    then have "head_len a \<le> Suc k" "k \<le> 8"
      using k(1) by (auto simp: info_width_def head_len_eq split: if_splits)
    then show ?thesis using k(2,4) by (intro exI [of _ "initial # take k tail"]) (simp add: i)
  qed
qed

section \<open>Properties\<close>

text \<open>Writing the head of any major type and argument and reading it back in front of any bytes
  returns the argument and those bytes; a reader expecting another major type refuses; and the
  written form is the shortest: every spelling the reader accepts for an argument takes at least
  as many bytes, and at most nine.\<close>

theorem head_round_trip:
  assumes "major < 8"
  shows "read_argument (push_head [] major a @ rest) major = Some (a, rest) \<and>
    length (push_head [] major a) = head_len a \<and>
    (\<forall>other. other \<noteq> major \<longrightarrow> read_argument (push_head [] major a @ rest) other = None) \<and>
    (\<forall>input m rest. read_argument input m = Some (a, rest) \<longrightarrow>
       (\<exists>pre. input = pre @ rest \<and> length (push_head [] major a) \<le> length pre \<and> length pre \<le> 9))"
  using read_argument_head [OF assms] read_argument_other [OF assms] read_argument_shortest [of _ _ a]
  by (simp add: write_head_bytes length_head_bytes)

lemma head_round_trip_witness: "read_argument (push_head [] TEXT 256 @ [7]) TEXT = Some (256, [7])"
  using head_round_trip [of TEXT 256 "[7]"] by (simp add: TEXT_def)

text \<open>A byte string written with its head is read back exactly, with the bytes after it; a text
  string is read back exactly when its bytes are well-formed UTF-8 and refused otherwise.\<close>

theorem strings_round_trip:
  assumes "length bs < 2 ^ 64"
  shows "read_bytes (write_bytes [] bs @ rest) = Some (bs, rest) \<and>
    read_text (write_text [] bs @ rest) = (if utf8_valid bs then Some (bs, rest) else None)"
proof -
  have n: "unat (of_nat (length bs) :: u64) = length bs"
    using assms by (simp add: unsigned_of_nat take_bit_nat_eq_self)
  have r: "read_argument (head_bytes BYTES (of_nat (length bs)) @ bs @ rest) BYTES = Some (of_nat (length bs), bs @ rest)"
    "read_argument (head_bytes TEXT (of_nat (length bs)) @ bs @ rest) TEXT = Some (of_nat (length bs), bs @ rest)"
    by (rule read_argument_head, simp add: majors)+
  show ?thesis using r n
    by (simp add: read_bytes_def write_bytes_def read_text_def write_text_def write_head_bytes Let_def)
qed

lemma strings_round_trip_witness:
  "read_bytes (write_bytes [] [1, 2] @ [9]) = Some ([1, 2], [9]) \<and> read_text (write_text [] [0xC3, 0xA9] @ []) = Some ([0xC3, 0xA9], [])"
  using strings_round_trip [of "[1, 2]" "[9]"] strings_round_trip [of "[0xC3, 0xA9]" "[]"]
  by (simp add: cont_byte_def)

end
