(* ===== verification/Mmr.thy ===== *)
theory Mmr
  imports CborHead
begin

text \<open>
  Merkle-Mountain-Range commitments (\<open>crates/gts/src/mmr.rs\<close>): the incremental frontier
  \<open>MmrPeaks\<close>, the tree builder, inclusion proofs and their verification. The digest
  (BLAKE3-256, \<open>crates/hash\<close>) is the parameter \<open>H\<close>, a function from the streamed preimage to
  its digest; the preimages are the bytes the code streams. The detached JSON form and the
  file walk are not modelled.
\<close>

section \<open>Preimages\<close>

definition ascii :: "string \<Rightarrow> bytes" where
  "ascii s = map (\<lambda>c. of_nat (of_char c)) s"

definition LEAF_DOMAIN :: bytes where "LEAF_DOMAIN = ascii ''gts-mmr-leaf-v1''"
definition PARENT_DOMAIN :: bytes where "PARENT_DOMAIN = ascii ''gts-mmr-parent-v1''"
definition ROOT_DOMAIN :: bytes where "ROOT_DOMAIN = ascii ''gts-mmr-root-v1''"

record mmr_peak =
  pk_height :: nat
  pk_hash :: bytes

type_synonym digest = "bytes \<Rightarrow> bytes"

definition node_hasher :: "bytes \<Rightarrow> u64 \<Rightarrow> u64 \<Rightarrow> bytes" where
  "node_hasher domain arity coordinate =
     write_head (write_text (write_head [] ARRAY arity) domain) UNSIGNED coordinate"

definition leaf_preimage :: "u64 \<Rightarrow> bytes \<Rightarrow> bytes" where
  "leaf_preimage index frame_id = write_bytes (node_hasher LEAF_DOMAIN 3 index) frame_id"

definition leaf_hash :: "digest \<Rightarrow> u64 \<Rightarrow> bytes \<Rightarrow> bytes" where
  "leaf_hash H index frame_id = H (leaf_preimage index frame_id)"

definition parent_preimage :: "nat \<Rightarrow> bytes \<Rightarrow> bytes \<Rightarrow> bytes" where
  "parent_preimage parent_height left right =
     write_bytes (write_bytes (node_hasher PARENT_DOMAIN 4 (of_nat parent_height)) left) right"

definition parent_hash :: "digest \<Rightarrow> nat \<Rightarrow> bytes \<Rightarrow> bytes \<Rightarrow> bytes" where
  "parent_hash H parent_height left right = H (parent_preimage parent_height left right)"

definition write_peak :: "mmr_peak \<Rightarrow> bytes \<Rightarrow> bytes" where
  "write_peak peak w =
     write_bytes (write_head (write_head w ARRAY 2) UNSIGNED (of_nat (pk_height peak))) (pk_hash peak)"

definition root_preimage :: "u64 \<Rightarrow> mmr_peak list \<Rightarrow> bytes" where
  "root_preimage count peaks =
     fold write_peak peaks (write_head (node_hasher ROOT_DOMAIN 3 count) ARRAY (of_nat (length peaks)))"

definition root_hash :: "digest \<Rightarrow> u64 \<Rightarrow> mmr_peak list \<Rightarrow> bytes" where
  "root_hash H count peaks = H (root_preimage count peaks)"

section \<open>The frontier\<close>

datatype mmr_state_error =
    PeakCount u64 nat nat
  | PeakHeightAt nat nat nat
  | PeakHashLength nat nat
  | CountOverflow

record mmr_peaks =
  mp_count :: u64
  mp_peaks :: "mmr_peak list"

definition mmr_default :: mmr_peaks where
  "mmr_default = \<lparr>mp_count = 0, mp_peaks = []\<rparr>"

lemma unat_exp_64: "h < 64 \<Longrightarrow> unat (2 ^ h :: u64) = 2 ^ h"
  using unsigned_of_nat [of "2 ^ h", where 'b = 64 and 'a = nat] by (simp add: take_bit_nat_eq_self)

lemma unat_sub_top:
  assumes "(w :: u64) \<noteq> 0"
  shows "unat (w - 2 ^ (64 - 1 - leading_zeros w)) = unat w - 2 ^ (64 - 1 - leading_zeros w)"
  using top_bit [OF assms] by (simp add: unat_sub word_le_nat_alt unat_exp_64)

function expected_peak_heights :: "u64 \<Rightarrow> nat list" where
  "expected_peak_heights remaining =
     (if remaining > 0 then
        let height = 64 - 1 - leading_zeros remaining
        in height # expected_peak_heights (remaining - push_bit height 1)
      else [])"
  by auto
termination
proof (relation "measure unat")
  fix remaining :: u64 and height
  assume r: "remaining > 0" "height = 64 - 1 - leading_zeros remaining"
  have "remaining \<noteq> 0" using r(1) by simp
  from unat_sub_top [OF this, folded r(2)] top_bit [OF this, folded r(2)]
  have "unat (remaining - 2 ^ height) < unat remaining" by simp
  then show "(remaining - push_bit height 1, remaining) \<in> measure unat" by (simp add: push_bit_of_1)
qed simp

declare expected_peak_heights.simps [simp del]

fun check_peaks :: "nat \<Rightarrow> mmr_peak list \<Rightarrow> nat list \<Rightarrow> mmr_state_error option" where
  "check_peaks index (peak # peaks) (height # heights) =
     (if pk_height peak \<noteq> height then Some (PeakHeightAt index height (pk_height peak))
      else if length (pk_hash peak) \<noteq> 32 then Some (PeakHashLength index (length (pk_hash peak)))
      else check_peaks (index + 1) peaks heights)"
| "check_peaks index _ _ = None"

definition mmr_from_parts :: "u64 \<Rightarrow> mmr_peak list \<Rightarrow> mmr_state_error + mmr_peaks" where
  "mmr_from_parts count peaks =
     (let expected = expected_peak_heights count in
      if length peaks \<noteq> length expected then Inl (PeakCount count (length expected) (length peaks))
      else (case check_peaks 0 peaks expected of
          Some e \<Rightarrow> Inl e
        | None \<Rightarrow> Inr \<lparr>mp_count = count, mp_peaks = peaks\<rparr>))"

function push_loop :: "digest \<Rightarrow> mmr_peak list \<Rightarrow> nat \<Rightarrow> bytes \<Rightarrow> mmr_peak list \<times> nat \<times> bytes" where
  "push_loop H peaks height hash =
     (if peaks \<noteq> [] \<and> pk_height (last peaks) = height
      then push_loop H (butlast peaks) (height + 1) (parent_hash H (height + 1) (pk_hash (last peaks)) hash)
      else (peaks, height, hash))"
  by auto
termination by (relation "measure (\<lambda>(_, peaks, _, _). length peaks)") auto

declare push_loop.simps [simp del]

definition mmr_push :: "digest \<Rightarrow> bytes \<Rightarrow> mmr_peaks \<Rightarrow> mmr_state_error + mmr_peaks" where
  "mmr_push H frame_id self =
     (if mp_count self = - 1 then Inl CountOverflow
      else (case push_loop H (mp_peaks self) 0 (leaf_hash H (mp_count self) frame_id) of
        (peaks, height, hash) \<Rightarrow>
          Inr \<lparr>mp_count = mp_count self + 1, mp_peaks = peaks @ [\<lparr>pk_height = height, pk_hash = hash\<rparr>]\<rparr>))"

definition mmr_root :: "digest \<Rightarrow> mmr_peaks \<Rightarrow> bytes" where
  "mmr_root H self = root_hash H (mp_count self) (mp_peaks self)"

text \<open>\<open>peak_fold\<close>: \<open>None\<close> is the panic of its \<open>expect\<close>.\<close>

fun fold_push :: "digest \<Rightarrow> mmr_peaks \<Rightarrow> bytes list \<Rightarrow> mmr_peaks option" where
  "fold_push H frontier [] = Some frontier"
| "fold_push H frontier (frame_id # frame_ids) = (case mmr_push H frame_id frontier of
     Inl _ \<Rightarrow> None | Inr frontier \<Rightarrow> fold_push H frontier frame_ids)"

definition peak_fold :: "digest \<Rightarrow> bytes list \<Rightarrow> mmr_peak list option" where
  "peak_fold H frame_ids = map_option mp_peaks (fold_push H mmr_default frame_ids)"

definition root :: "digest \<Rightarrow> bytes list \<Rightarrow> bytes option" where
  "root H frame_ids = map_option (root_hash H (of_nat (length frame_ids))) (peak_fold H frame_ids)"

section \<open>The tree and proofs\<close>

datatype mmr_node = Node (n_height: nat) (n_start: nat) (n_end: nat) (n_hash: bytes)
  (n_left: "mmr_node option") (n_right: "mmr_node option")

definition merge_nodes :: "digest \<Rightarrow> mmr_node \<Rightarrow> mmr_node \<Rightarrow> mmr_node" where
  "merge_nodes H left right =
     (let height = n_height left + 1
      in Node height (n_start left) (n_end right) (parent_hash H height (n_hash left) (n_hash right)) (Some left) (Some right))"

function merge_loop :: "digest \<Rightarrow> mmr_node list \<Rightarrow> mmr_node list" where
  "merge_loop H peaks =
     (if length peaks \<ge> 2 then
        let right = last peaks; left = last (butlast peaks) in
        if n_height left \<noteq> n_height right then peaks
        else merge_loop H (butlast (butlast peaks) @ [merge_nodes H left right])
      else peaks)"
  by auto
termination by (relation "measure (\<lambda>(_, peaks). length peaks)") auto

declare merge_loop.simps [simp del]

fun build_loop :: "digest \<Rightarrow> mmr_node list \<Rightarrow> nat \<Rightarrow> bytes list \<Rightarrow> mmr_node list" where
  "build_loop H peaks index [] = peaks"
| "build_loop H peaks index (frame_id # frame_ids) =
     build_loop H (merge_loop H (peaks @ [Node 0 index (index + 1) (leaf_hash H (of_nat index) frame_id) None None]))
       (index + 1) frame_ids"

definition build_nodes :: "digest \<Rightarrow> bytes list \<Rightarrow> mmr_node list" where
  "build_nodes H frame_ids = build_loop H [] 0 frame_ids"

definition peak_list :: "mmr_node list \<Rightarrow> mmr_peak list" where
  "peak_list nodes = map (\<lambda>node. \<lparr>pk_height = n_height node, pk_hash = n_hash node\<rparr>) nodes"

datatype proof_side = LeftSide | RightSide

record proof_step =
  ps_parent_height :: nat
  ps_side :: proof_side
  ps_hash :: bytes

record mmr_proof =
  pf_count :: nat
  pf_leaf_index :: nat
  pf_frame_id :: bytes
  pf_root :: bytes
  pf_peak_index :: nat
  pf_peaks :: "mmr_peak list"
  pf_path :: "proof_step list"

fun append_path :: "mmr_node \<Rightarrow> nat \<Rightarrow> proof_step list \<Rightarrow> bool \<times> proof_step list" where
  "append_path (Node height start stop hash left right) target path =
     (if height = 0 then (start = target, path)
      else (case (left, right) of
        (Some left, Some right) \<Rightarrow>
          if target < n_end left then
            (case append_path left target path of
               (True, path) \<Rightarrow> (True, path @ [\<lparr>ps_parent_height = height, ps_side = RightSide, ps_hash = n_hash right\<rparr>])
             | (False, path) \<Rightarrow> (False, path))
          else
            (case append_path right target path of
               (True, path) \<Rightarrow> (True, path @ [\<lparr>ps_parent_height = height, ps_side = LeftSide, ps_hash = n_hash left\<rparr>])
             | (False, path) \<Rightarrow> (False, path))
      | _ \<Rightarrow> (False, path)))"

fun position :: "('a \<Rightarrow> bool) \<Rightarrow> 'a list \<Rightarrow> nat option" where
  "position P [] = None"
| "position P (x # xs) = (if P x then Some 0 else map_option Suc (position P xs))"

definition prove :: "digest \<Rightarrow> bytes list \<Rightarrow> nat \<Rightarrow> mmr_proof option" where
  "prove H frame_ids target_index =
     (if target_index \<ge> length frame_ids then None
      else (let nodes = build_nodes H frame_ids; peaks = peak_list nodes in
        (case position (\<lambda>node. target_index \<ge> n_start node \<and> target_index < n_end node) nodes of
          None \<Rightarrow> None
        | Some peak_index \<Rightarrow>
            (case append_path (nodes ! peak_index) target_index [] of
              (False, _) \<Rightarrow> None
            | (True, path) \<Rightarrow> Some \<lparr>pf_count = length frame_ids, pf_leaf_index = target_index,
                pf_frame_id = frame_ids ! target_index, pf_root = root_hash H (of_nat (length frame_ids)) peaks,
                pf_peak_index = peak_index, pf_peaks = peaks, pf_path = path\<rparr>))))"

section \<open>Verification\<close>

datatype proof_error =
    DigestLength string nat
  | PeakHeight nat
  | LeafRange nat nat
  | PeakRangeOverflow nat nat
  | Uncovered nat nat
  | PeakIndex nat nat
  | PeakHeights "nat list" nat
  | LeafPeak nat nat nat
  | ParentHeight nat nat
  | PathHeight nat nat
  | PeakMismatch bytes bytes
  | RootMismatch bytes bytes

definition peak_width :: "nat \<Rightarrow> proof_error + nat" where
  "peak_width height =
     (if height \<ge> 2 ^ 32 then Inl (PeakHeight height)
      else if height < 64 then Inr (2 ^ height) else Inl (PeakHeight height))"

fun peak_index_loop :: "nat \<Rightarrow> nat \<Rightarrow> nat \<Rightarrow> nat \<Rightarrow> nat list \<Rightarrow> proof_error + nat" where
  "peak_index_loop count leaf_index start index [] = Inl (Uncovered leaf_index count)"
| "peak_index_loop count leaf_index start index (height # heights) = (case peak_width height of
     Inl e \<Rightarrow> Inl e
   | Inr width \<Rightarrow>
       if start + width \<ge> 2 ^ 64 then Inl (PeakRangeOverflow start width)
       else if leaf_index \<ge> start \<and> leaf_index < start + width then Inr index
       else peak_index_loop count leaf_index (start + width) (index + 1) heights)"

definition peak_index_for_leaf :: "nat \<Rightarrow> nat list \<Rightarrow> nat \<Rightarrow> proof_error + nat" where
  "peak_index_for_leaf count heights leaf_index =
     (if leaf_index \<ge> count then Inl (LeafRange leaf_index count)
      else peak_index_loop count leaf_index 0 0 heights)"

fun check_peak_hashes :: "mmr_peak list \<Rightarrow> proof_error option" where
  "check_peak_hashes [] = None"
| "check_peak_hashes (peak # peaks) =
     (if length (pk_hash peak) \<noteq> 32 then Some (DigestLength ''peak hash'' (length (pk_hash peak)))
      else check_peak_hashes peaks)"

definition step_hash :: "digest \<Rightarrow> proof_step \<Rightarrow> bytes \<Rightarrow> bytes" where
  "step_hash H step carried = (case ps_side step of
     LeftSide \<Rightarrow> parent_hash H (ps_parent_height step) (ps_hash step) carried
   | RightSide \<Rightarrow> parent_hash H (ps_parent_height step) carried (ps_hash step))"

fun path_loop :: "digest \<Rightarrow> bytes \<Rightarrow> nat \<Rightarrow> proof_step list \<Rightarrow> proof_error + bytes \<times> nat" where
  "path_loop H carried height [] = Inr (carried, height)"
| "path_loop H carried height (step # path) =
     (if length (ps_hash step) \<noteq> 32 then Inl (DigestLength ''path hash'' (length (ps_hash step)))
      else if ps_parent_height step \<noteq> height + 1 then Inl (ParentHeight (ps_parent_height step) height)
      else path_loop H (step_hash H step carried) (ps_parent_height step) path)"

definition verify_root :: "digest \<Rightarrow> mmr_proof \<Rightarrow> proof_error + unit" where
  "verify_root H p =
     (case path_loop H (leaf_hash H (of_nat (pf_leaf_index p)) (pf_frame_id p)) 0 (pf_path p) of
        Inl e \<Rightarrow> Inl e
      | Inr (carried, height) \<Rightarrow>
          (let peak = pf_peaks p ! pf_peak_index p; computed_root = root_hash H (of_nat (pf_count p)) (pf_peaks p) in
           if height \<noteq> pk_height peak then Inl (PathHeight height (pk_height peak))
           else if carried \<noteq> pk_hash peak then Inl (PeakMismatch carried (pk_hash peak))
           else if computed_root \<noteq> pf_root p then Inl (RootMismatch computed_root (pf_root p))
           else Inr ()))"

definition verify_proof :: "digest \<Rightarrow> mmr_proof \<Rightarrow> proof_error + unit" where
  "verify_proof H p =
     (if length (pf_frame_id p) \<noteq> 32 then Inl (DigestLength ''frame_id'' (length (pf_frame_id p)))
      else if length (pf_root p) \<noteq> 32 then Inl (DigestLength ''root'' (length (pf_root p)))
      else if pf_leaf_index p \<ge> pf_count p then Inl (LeafRange (pf_leaf_index p) (pf_count p))
      else if pf_peak_index p \<ge> length (pf_peaks p) then Inl (PeakIndex (pf_peak_index p) (length (pf_peaks p)))
      else (let actual_heights = map pk_height (pf_peaks p) in
        if actual_heights \<noteq> expected_peak_heights (of_nat (pf_count p)) then Inl (PeakHeights actual_heights (pf_count p))
        else (case peak_index_for_leaf (pf_count p) actual_heights (pf_leaf_index p) of
            Inl e \<Rightarrow> Inl e
          | Inr computed_peak_index \<Rightarrow>
              if computed_peak_index \<noteq> pf_peak_index p
              then Inl (LeafPeak (pf_leaf_index p) computed_peak_index (pf_peak_index p))
              else (case check_peak_hashes (pf_peaks p) of
                  Some e \<Rightarrow> Inl e
                | None \<Rightarrow> verify_root H p))))"

end
