(* ===== verification/MmrTree.thy ===== *)
theory MmrTree
  imports Mmr
begin

text \<open>
  What the frontier and the tree builder of \<open>crates/gts/src/mmr.rs\<close> compute: the perfect binary
  trees over the committed frame ids, one per set bit of the count, from the highest bit down.
\<close>

section \<open>Descending heights\<close>

definition widths :: "nat list \<Rightarrow> nat" where
  "widths hs = sum_list (map (\<lambda>h. 2 ^ h) hs)"

abbreviation descending :: "nat list \<Rightarrow> bool" where
  "descending \<equiv> sorted_wrt (>)"

lemma widths_simps [simp]: "widths [] = 0" "widths (h # hs) = 2 ^ h + widths hs" "widths (hs @ hs') = widths hs + widths hs'"
  by (simp_all add: widths_def)

lemma widths_less: "descending hs \<Longrightarrow> \<forall>h\<in>set hs. h < k \<Longrightarrow> widths hs < 2 ^ k"
proof (induction hs arbitrary: k)
  case (Cons h hs)
  then have "widths hs < 2 ^ h" by simp
  then have "widths (h # hs) < 2 ^ Suc h" by simp
  also have "\<dots> \<le> 2 ^ k" using Cons.prems by (intro power_increasing) auto
  finally show ?case .
qed simp

lemma widths_head: "descending (h # hs) \<Longrightarrow> 2 ^ h \<le> widths (h # hs) \<and> widths (h # hs) < 2 ^ Suc h"
  using widths_less [of "h # hs" "Suc h"] by fastforce

lemma widths_elem: "h \<in> set hs \<Longrightarrow> 2 ^ h \<le> widths hs"
  by (induction hs) auto

lemma widths_unique: "descending hs \<Longrightarrow> descending hs' \<Longrightarrow> widths hs = widths hs' \<Longrightarrow> hs = hs'"
proof (induction hs arbitrary: hs')
  case Nil
  then show ?case by (cases hs') auto
next
  case (Cons h hs)
  then obtain h' hs'' where e: "hs' = h' # hs''" by (cases hs') auto
  have "h = h'"
    using widths_head [OF Cons.prems(1)] widths_head [OF Cons.prems(2) [unfolded e]] Cons.prems(3) e
    by (intro power_bracket [of h "widths hs'" h']) auto
  then show ?case using Cons e by auto
qed

lemma expected_peak_heights_spec:
  "descending (expected_peak_heights c) \<and> widths (expected_peak_heights c) = unat c"
proof (induction c rule: expected_peak_heights.induct)
  case (1 c)
  show ?case
  proof (cases "c = 0")
    case False
    define h where "h = 64 - 1 - leading_zeros c"
    let ?r = "expected_peak_heights (c - push_bit h 1)"
    have e: "expected_peak_heights c = h # ?r" using False word_neq_0_conv [of c]
      by (simp add: expected_peak_heights.simps [of c] h_def Let_def)
    have t: "2 ^ h \<le> unat c" "unat c < 2 ^ Suc h" using top_bit [OF False] by (simp_all add: h_def)
    have r: "unat (c - push_bit h 1) = unat c - 2 ^ h"
      using unat_sub_top [OF False] by (simp add: h_def push_bit_of_1)
    have ih: "descending ?r \<and> widths ?r = unat (c - push_bit h 1)"
      using 1 [of h] False word_neq_0_conv [of c] by (simp add: h_def)
    have "k < h" if "k \<in> set ?r" for k
    proof -
      have "(2::nat) ^ k < 2 ^ h" using widths_elem [OF that] ih r t by (simp del: power_strict_increasing_iff)
      then show ?thesis by simp
    qed
    then show ?thesis using ih r t by (simp add: e)
  qed (simp add: expected_peak_heights.simps)
qed

lemma expected_peak_heights_eq:
  "descending hs \<Longrightarrow> widths hs = unat c \<Longrightarrow> expected_peak_heights c = hs"
  using expected_peak_heights_spec [of c] by (intro widths_unique) auto

lemma widths_bits: "widths (rev (filter (bit n) [0..<k])) = take_bit k (n :: nat)"
  by (induction k) (simp_all add: take_bit_Suc_from_most)

lemma descending_bits: "descending (rev (filter P [0..<k]))"
  by (induction k) (auto simp: sorted_wrt_append)

lemma expected_peak_heights_bits: "expected_peak_heights c = rev (filter (bit c) [0..<64])"
proof -
  have "filter (bit c) [0..<64] = filter (bit (unat c)) [0..<64]"
    by (intro filter_cong) (auto simp: bit_unsigned_iff)
  then show ?thesis using unsigned_less [of c, where 'a = nat]
    by (intro expected_peak_heights_eq) (simp_all add: descending_bits widths_bits take_bit_nat_eq_self)
qed

lemma expected_peak_heights_less: "h \<in> set (expected_peak_heights c) \<Longrightarrow> h < 64"
  by (simp add: expected_peak_heights_bits)

section \<open>The frontier's shape\<close>

abbreviation heights :: "mmr_peak list \<Rightarrow> nat list" where
  "heights \<equiv> map pk_height"

definition frontier_ok :: "mmr_peaks \<Rightarrow> bool" where
  "frontier_ok self \<longleftrightarrow> heights (mp_peaks self) = rev (filter (bit (mp_count self)) [0..<64]) \<and>
     (\<forall>peak\<in>set (mp_peaks self). length (pk_hash peak) = 32)"

lemma check_peaks_None:
  "length peaks = length hs \<Longrightarrow>
   check_peaks i peaks hs = None \<longleftrightarrow> heights peaks = hs \<and> (\<forall>peak\<in>set peaks. length (pk_hash peak) = 32)"
  by (induction i peaks hs rule: check_peaks.induct) auto

lemma mmr_from_parts_iff:
  "mmr_from_parts c ps = Inr self \<longleftrightarrow> self = \<lparr>mp_count = c, mp_peaks = ps\<rparr> \<and> frontier_ok self"
proof (cases "length ps = length (expected_peak_heights c)")
  case True
  then show ?thesis using check_peaks_None [OF True, of 0]
    by (auto simp: mmr_from_parts_def frontier_ok_def expected_peak_heights_bits Let_def split: option.splits)
next
  case False
  then have "heights ps \<noteq> expected_peak_heights c" by (metis length_map)
  then show ?thesis using False
    by (auto simp: mmr_from_parts_def frontier_ok_def expected_peak_heights_bits Let_def)
qed

lemma push_loop_heights:
  "push_loop H peaks height hash = (peaks', height', hash') \<Longrightarrow>
   descending (heights peaks) \<Longrightarrow> \<forall>h\<in>set (heights peaks). height \<le> h \<Longrightarrow>
   descending (heights peaks' @ [height']) \<and> widths (heights peaks') + 2 ^ height' = widths (heights peaks) + 2 ^ height \<and>
   set peaks' \<subseteq> set peaks \<and> (hash' = hash \<or> (\<exists>x. hash' = H x))"
proof (induction peaks arbitrary: height hash rule: rev_induct)
  case Nil
  then show ?case by (simp add: push_loop.simps)
next
  case (snoc p peaks)
  show ?case
  proof (cases "pk_height p = height")
    case True
    have "push_loop H (peaks @ [p]) height hash =
        push_loop H peaks (height + 1) (parent_hash H (height + 1) (pk_hash p) hash)"
      using True by (simp add: push_loop.simps [of H "peaks @ [p]"])
    moreover have "\<forall>h\<in>set (heights peaks). height + 1 \<le> h"
      using snoc.prems(2) True by (auto simp: sorted_wrt_append)
    ultimately show ?thesis using snoc.IH [of "height + 1"] snoc.prems True
      by (auto simp: sorted_wrt_append parent_hash_def)
  next
    case False
    then have e: "peaks' = peaks @ [p]" "height' = height" "hash' = hash"
      using snoc.prems(1) by (simp_all add: push_loop.simps [of H "peaks @ [p]"])
    have "\<forall>h\<in>set (heights (peaks @ [p])). height < h"
      using snoc.prems(2,3) False by (auto simp: sorted_wrt_append)
    then show ?thesis using snoc.prems(2) by (auto simp: e sorted_wrt_append)
  qed
qed

lemma frontier_ok_heights:
  "frontier_ok self \<longleftrightarrow> descending (heights (mp_peaks self)) \<and> widths (heights (mp_peaks self)) = unat (mp_count self) \<and>
     (\<forall>peak\<in>set (mp_peaks self). length (pk_hash peak) = 32)"
  using expected_peak_heights_spec [of "mp_count self"] expected_peak_heights_eq [of "heights (mp_peaks self)" "mp_count self"]
  unfolding frontier_ok_def expected_peak_heights_bits [symmetric] by metis

lemma unat_plus_1: "(w :: u64) \<noteq> - 1 \<Longrightarrow> unat (w + 1) = unat w + 1"
  using unatSuc [of w] by (simp add: add.commute eq_neg_iff_add_eq_0)

lemma frontier_ok_default: "frontier_ok mmr_default"
  by (simp add: frontier_ok_def mmr_default_def)

lemma frontier_ok_push:
  assumes "frontier_ok self" "\<forall>x. length (H x) = 32" "mmr_push H frame_id self = Inr self'"
  shows "frontier_ok self' \<and> unat (mp_count self') = unat (mp_count self) + 1"
proof -
  obtain peaks height hash where
    l: "push_loop H (mp_peaks self) 0 (leaf_hash H (mp_count self) frame_id) = (peaks, height, hash)"
    by (cases "push_loop H (mp_peaks self) 0 (leaf_hash H (mp_count self) frame_id)")
  then have s: "mp_count self \<noteq> - 1"
    "self' = \<lparr>mp_count = mp_count self + 1, mp_peaks = peaks @ [\<lparr>pk_height = height, pk_hash = hash\<rparr>]\<rparr>"
    using assms(3) by (auto simp: mmr_push_def split: if_splits)
  have "length hash = 32" using push_loop_heights [OF l] assms(1,2) by (auto simp: frontier_ok_heights leaf_hash_def)
  then show ?thesis using push_loop_heights [OF l] assms(1) unat_plus_1 [OF s(1)]
    by (auto simp: frontier_ok_heights s(2) subset_iff)
qed

section \<open>The reference: perfect trees over the frame ids\<close>

fun tree_hash :: "digest \<Rightarrow> nat \<Rightarrow> nat \<Rightarrow> bytes list \<Rightarrow> bytes" where
  "tree_hash H 0 off ids = leaf_hash H (of_nat off) (ids ! off)"
| "tree_hash H (Suc h) off ids = parent_hash H (Suc h) (tree_hash H h off ids) (tree_hash H h (off + 2 ^ h) ids)"

fun spec_node :: "digest \<Rightarrow> nat \<Rightarrow> nat \<Rightarrow> bytes list \<Rightarrow> mmr_node" where
  "spec_node H 0 off ids = Node 0 off (off + 1) (leaf_hash H (of_nat off) (ids ! off)) None None"
| "spec_node H (Suc h) off ids = merge_nodes H (spec_node H h off ids) (spec_node H h (off + 2 ^ h) ids)"

fun spec_nodes :: "digest \<Rightarrow> nat list \<Rightarrow> nat \<Rightarrow> bytes list \<Rightarrow> mmr_node list" where
  "spec_nodes H [] off ids = []"
| "spec_nodes H (h # hs) off ids = spec_node H h off ids # spec_nodes H hs (off + 2 ^ h) ids"

fun spec_peaks :: "digest \<Rightarrow> nat list \<Rightarrow> nat \<Rightarrow> bytes list \<Rightarrow> mmr_peak list" where
  "spec_peaks H [] off ids = []"
| "spec_peaks H (h # hs) off ids = \<lparr>pk_height = h, pk_hash = tree_hash H h off ids\<rparr> # spec_peaks H hs (off + 2 ^ h) ids"

lemma spec_node_fields [simp]:
  "n_height (spec_node H h off ids) = h" "n_start (spec_node H h off ids) = off"
  "n_end (spec_node H h off ids) = off + 2 ^ h" "n_hash (spec_node H h off ids) = tree_hash H h off ids"
proof -
  have "n_height (spec_node H h off ids) = h \<and> n_start (spec_node H h off ids) = off \<and>
      n_end (spec_node H h off ids) = off + 2 ^ h \<and> n_hash (spec_node H h off ids) = tree_hash H h off ids"
    by (induction h arbitrary: off) (simp_all add: merge_nodes_def Let_def)
  then show "n_height (spec_node H h off ids) = h" "n_start (spec_node H h off ids) = off"
    "n_end (spec_node H h off ids) = off + 2 ^ h" "n_hash (spec_node H h off ids) = tree_hash H h off ids" by blast+
qed

lemma tree_hash_append: "off + 2 ^ h \<le> length ids \<Longrightarrow> tree_hash H h off (ids @ xs) = tree_hash H h off ids"
  by (induction h arbitrary: off) (simp_all add: nth_append)

lemma spec_node_append: "off + 2 ^ h \<le> length ids \<Longrightarrow> spec_node H h off (ids @ xs) = spec_node H h off ids"
  by (induction h arbitrary: off) (simp_all add: nth_append)

lemma spec_nodes_append: "off + widths hs \<le> length ids \<Longrightarrow> spec_nodes H hs off (ids @ xs) = spec_nodes H hs off ids"
  by (induction hs arbitrary: off) (simp_all add: spec_node_append)

lemma spec_nodes_snoc: "spec_nodes H (hs @ [h]) off ids = spec_nodes H hs off ids @ [spec_node H h (off + widths hs) ids]"
  by (induction hs arbitrary: off) (simp_all add: ac_simps)

lemma peak_list_spec [simp]: "peak_list (spec_nodes H hs off ids) = spec_peaks H hs off ids"
  by (induction hs arbitrary: off) (simp_all add: peak_list_def)

lemma spec_peaks_snoc:
  "spec_peaks H (hs @ [h]) off ids = spec_peaks H hs off ids @ [\<lparr>pk_height = h, pk_hash = tree_hash H h (off + widths hs) ids\<rparr>]"
  by (induction hs arbitrary: off) (simp_all add: ac_simps)

lemma spec_peaks_append: "off + widths hs \<le> length ids \<Longrightarrow> spec_peaks H hs off (ids @ xs) = spec_peaks H hs off ids"
  by (induction hs arbitrary: off) (simp_all add: tree_hash_append)

lemma heights_spec_peaks [simp]: "heights (spec_peaks H hs off ids) = hs"
  by (induction hs arbitrary: off) simp_all

lemma length_spec [simp]: "length (spec_peaks H hs off ids) = length hs" "length (spec_nodes H hs off ids) = length hs"
  by (induction hs arbitrary: off) simp_all

section \<open>Pushing and building follow the reference\<close>

text \<open>Carrying one more leaf: a tree of the given height after trees at least as high.\<close>

lemma push_loop_spec:
  "push_loop H (spec_peaks H hs 0 ids) height (tree_hash H height (widths hs) ids) = (peaks', height', hash') \<Longrightarrow>
   \<exists>hs'. peaks' = spec_peaks H hs' 0 ids \<and> hash' = tree_hash H height' (widths hs') ids"
proof (induction hs arbitrary: height rule: rev_induct)
  case Nil
  then show ?case by (auto simp: push_loop.simps intro: exI [of _ "[]"])
next
  case (snoc h hs)
  show ?case
  proof (cases "h = height")
    case True
    then have "push_loop H (spec_peaks H hs 0 ids) (Suc height) (tree_hash H (Suc height) (widths hs) ids) = (peaks', height', hash')"
      using snoc.prems by (simp add: spec_peaks_snoc push_loop.simps [of H "spec_peaks H hs 0 ids @ _"])
    then show ?thesis by (rule snoc.IH)
  next
    case False
    then show ?thesis using snoc.prems
      by (auto simp: spec_peaks_snoc push_loop.simps [of H "spec_peaks H hs 0 ids @ _"] intro!: exI [of _ "hs @ [h]"])
  qed
qed

lemma merge_loop_spec:
  "descending hs \<Longrightarrow> \<forall>h\<in>set hs. height \<le> h \<Longrightarrow>
   \<exists>hs'. merge_loop H (spec_nodes H hs 0 ids @ [spec_node H height (widths hs) ids]) = spec_nodes H hs' 0 ids \<and>
     descending hs' \<and> widths hs' = widths hs + 2 ^ height"
proof (induction hs arbitrary: height rule: rev_induct)
  case Nil
  then show ?case by (auto simp: merge_loop.simps intro!: exI [of _ "[height]"])
next
  case (snoc h hs)
  let ?ns = "spec_nodes H hs 0 ids @ [spec_node H h (widths hs) ids, spec_node H height (widths (hs @ [h])) ids]"
  show ?case
  proof (cases "h = height")
    case True
    have "merge_loop H ?ns = merge_loop H (spec_nodes H hs 0 ids @ [spec_node H (Suc height) (widths hs) ids])"
      unfolding True by (subst merge_loop.simps) (simp add: butlast_append Let_def)
    moreover have "\<forall>h\<in>set hs. Suc height \<le> h" using snoc.prems(1) True by (auto simp: sorted_wrt_append)
    moreover have "descending hs" using snoc.prems(1) by (simp add: sorted_wrt_append)
    ultimately show ?thesis using snoc.IH [of "Suc height"] True by (simp add: spec_nodes_snoc mult_2 ac_simps)
  next
    case False
    then have "merge_loop H ?ns = ?ns" by (subst merge_loop.simps) (simp add: butlast_append Let_def)
    then show ?thesis using snoc.prems False
      by (intro exI [of _ "hs @ [h, height]"]) (fastforce simp: spec_nodes_snoc [of H "hs @ [h]", simplified] spec_nodes_snoc sorted_wrt_append)
  qed
qed

lemma build_loop_spec:
  "descending hs \<Longrightarrow> widths hs = length done \<Longrightarrow>
   \<exists>hs'. build_loop H (spec_nodes H hs 0 done) (length done) ids = spec_nodes H hs' 0 (done @ ids) \<and>
     descending hs' \<and> widths hs' = length (done @ ids)"
proof (induction ids arbitrary: hs "done")
  case Nil
  then show ?case by auto
next
  case (Cons x ids)
  have s: "spec_nodes H hs 0 done = spec_nodes H hs 0 (done @ [x])"
    using Cons.prems(2) by (simp add: spec_nodes_append)
  have l: "Node 0 (length done) (Suc (length done)) (leaf_hash H (of_nat (length done)) x) None None =
      spec_node H 0 (length done) (done @ [x])" by simp
  obtain hs' where m: "merge_loop H (spec_nodes H hs 0 (done @ [x]) @ [spec_node H 0 (length done) (done @ [x])]) =
      spec_nodes H hs' 0 (done @ [x])" "descending hs'" "widths hs' = widths hs + 1"
    using merge_loop_spec [OF Cons.prems(1), of 0 H "done @ [x]"] Cons.prems(2) by auto
  show ?case using Cons.IH [OF m(2), of "done @ [x]"] m(3) Cons.prems(2) by (simp add: s l m(1) del: spec_node.simps)
qed

lemma expected_of_nat:
  assumes "n < 2 ^ 64"
  shows "descending (expected_peak_heights (of_nat n))" "widths (expected_peak_heights (of_nat n)) = n"
  using expected_peak_heights_spec [of "of_nat n"] assms by (simp_all add: unsigned_of_nat take_bit_nat_eq_self)

abbreviation mmr_heights :: "bytes list \<Rightarrow> nat list" where
  "mmr_heights ids \<equiv> expected_peak_heights (of_nat (length ids))"

lemma expected_of_nat_eq: "descending hs \<Longrightarrow> widths hs = n \<Longrightarrow> n < 2 ^ 64 \<Longrightarrow> hs = expected_peak_heights (of_nat n)"
  by (rule expected_peak_heights_eq [symmetric]) (simp_all add: unsigned_of_nat take_bit_nat_eq_self)

lemma build_nodes_spec:
  assumes "length ids < 2 ^ 64"
  shows "build_nodes H ids = spec_nodes H (mmr_heights ids) 0 ids"
  using build_loop_spec [of "[]" "[]" H ids] expected_of_nat_eq [OF _ _ assms] by (auto simp: build_nodes_def)

lemma fold_push_spec:
  "mp_count self = of_nat (length done) \<Longrightarrow> mp_peaks self = spec_peaks H (mmr_heights done) 0 done \<Longrightarrow>
   length (done @ ids) < 2 ^ 64 \<Longrightarrow>
   fold_push H self ids = Some \<lparr>mp_count = of_nat (length (done @ ids)), mp_peaks = spec_peaks H (mmr_heights (done @ ids)) 0 (done @ ids)\<rparr>"
proof (induction ids arbitrary: self "done")
  case Nil
  then show ?case by simp
next
  case (Cons x ids)
  let ?hs = "mmr_heights done" and ?d = "done @ [x]"
  have n: "descending ?hs" "widths ?hs = length done" using expected_of_nat [of "length done"] Cons.prems(3) by simp_all
  have c: "unat (mp_count self) = length done" "mp_count self \<noteq> - 1"
  proof -
    show u: "unat (mp_count self) = length done"
      using Cons.prems by (simp add: unsigned_of_nat take_bit_nat_eq_self)
    show "mp_count self \<noteq> - 1" using u Cons.prems(3) by (auto simp: unsigned_minus_1_eq_mask mask_eq_exp_minus_1)
  qed
  have start: "spec_peaks H ?hs 0 done = spec_peaks H ?hs 0 ?d" "leaf_hash H (of_nat (length done)) x = tree_hash H 0 (widths ?hs) ?d"
    using n(2) by (simp_all add: spec_peaks_append nth_append)
  obtain peaks height hash where
    l: "push_loop H (spec_peaks H ?hs 0 ?d) 0 (tree_hash H 0 (widths ?hs) ?d) = (peaks, height, hash)"
    by (cases "push_loop H (spec_peaks H ?hs 0 ?d) 0 (tree_hash H 0 (widths ?hs) ?d)")
  obtain hs' where s: "peaks = spec_peaks H hs' 0 ?d" "hash = tree_hash H height (widths hs') ?d"
    using push_loop_spec [OF l] by blast
  have "hs' @ [height] = mmr_heights ?d"
    using push_loop_heights [OF l] n Cons.prems(3) by (intro expected_of_nat_eq) (simp_all add: s(1))
  then have "mmr_push H x self = Inr \<lparr>mp_count = of_nat (length ?d), mp_peaks = spec_peaks H (mmr_heights ?d) 0 ?d\<rparr>"
    using spec_peaks_snoc [of H hs' height 0 ?d] c(2) Cons.prems(1,2)
    by (simp add: mmr_push_def start l s ac_simps del: tree_hash.simps)
  then show ?case using Cons.IH [of "\<lparr>mp_count = of_nat (length ?d), mp_peaks = spec_peaks H (mmr_heights ?d) 0 ?d\<rparr>" ?d] Cons.prems(3)
    by simp
qed

lemma peak_fold_spec: "length ids < 2 ^ 64 \<Longrightarrow> peak_fold H ids = Some (spec_peaks H (mmr_heights ids) 0 ids)"
  using fold_push_spec [of mmr_default "[]" H ids] by (simp add: peak_fold_def mmr_default_def expected_peak_heights_bits)

end
