(* ===== verification/MmrProof.thy ===== *)
theory MmrProof
  imports MmrTree
begin

text \<open>
  Inclusion proofs of \<open>crates/gts/src/mmr.rs\<close>: what \<open>prove\<close> returns over the reference trees of
  MmrTree, the injectivity of the preimages, and the exactness of \<open>verify_proof\<close>.
\<close>

section \<open>Preimages are injective\<close>

lemma head_inj:
  assumes "m < 8" "head_bytes m a @ r = head_bytes m b @ r'"
  shows "a = b \<and> r = r'"
proof -
  have "read_argument (head_bytes m a @ r) m = read_argument (head_bytes m b @ r') m" by (simp only: assms(2))
  then show ?thesis by (simp add: read_argument_head [OF assms(1)])
qed

lemma bytes_item_inj:
  assumes "head_bytes BYTES (of_nat (length x)) @ x @ r = head_bytes BYTES (of_nat (length y)) @ y @ r'"
    "length x < 2 ^ 64" "length y < 2 ^ 64"
  shows "x = y \<and> r = r'"
proof -
  have "(of_nat (length x) :: u64) = of_nat (length y)" and e: "x @ r = y @ r'"
    using head_inj [OF _ assms(1)] by (simp_all add: BYTES_def)
  then have "unat (of_nat (length x) :: u64) = unat (of_nat (length y) :: u64)" by simp
  then have "length x = length y" using assms(2,3) by (simp add: unsigned_of_nat take_bit_nat_eq_self)
  then show ?thesis using e by simp
qed

lemmas preimage_defs = write_bytes_def write_text_def node_hasher_def write_head_bytes

lemma leaf_preimage_inj:
  assumes "leaf_preimage i x = leaf_preimage j y" "length x < 2 ^ 64" "length y < 2 ^ 64"
  shows "i = j \<and> x = y"
proof -
  have e: "head_bytes UNSIGNED i @ head_bytes BYTES (of_nat (length x)) @ x =
      head_bytes UNSIGNED j @ head_bytes BYTES (of_nat (length y)) @ y"
    using assms(1) by (simp add: leaf_preimage_def preimage_defs)
  then have "i = j" "head_bytes BYTES (of_nat (length x)) @ x @ [] = head_bytes BYTES (of_nat (length y)) @ y @ []"
    using head_inj [OF _ e] by (simp_all add: UNSIGNED_def)
  then show ?thesis using bytes_item_inj [of x "[]" y "[]"] assms(2,3) by blast
qed

lemma parent_preimage_inj:
  assumes "parent_preimage h l r = parent_preimage h' l' r'"
    "length l < 2 ^ 64" "length l' < 2 ^ 64" "length r < 2 ^ 64" "length r' < 2 ^ 64"
  shows "l = l' \<and> r = r'"
proof -
  have e: "head_bytes UNSIGNED (of_nat h) @ head_bytes BYTES (of_nat (length l)) @ l @ head_bytes BYTES (of_nat (length r)) @ r =
      head_bytes UNSIGNED (of_nat h') @ head_bytes BYTES (of_nat (length l')) @ l' @ head_bytes BYTES (of_nat (length r')) @ r'"
    using assms(1) by (simp add: parent_preimage_def preimage_defs)
  have l: "head_bytes BYTES (of_nat (length l)) @ l @ head_bytes BYTES (of_nat (length r)) @ r =
      head_bytes BYTES (of_nat (length l')) @ l' @ head_bytes BYTES (of_nat (length r')) @ r'"
    using head_inj [OF _ e] by (simp add: UNSIGNED_def)
  have "l = l'" and "head_bytes BYTES (of_nat (length r)) @ r @ [] = head_bytes BYTES (of_nat (length r')) @ r' @ []"
    using bytes_item_inj [OF l] assms(2,3) by simp_all
  then show ?thesis using bytes_item_inj [of r "[]" r' "[]"] assms(4,5) by blast
qed

definition peak_bytes :: "mmr_peak \<Rightarrow> bytes" where
  "peak_bytes peak = write_peak peak []"

lemma write_peak_bytes: "write_peak peak w = w @ peak_bytes peak"
  by (simp add: peak_bytes_def write_peak_def preimage_defs)

lemma fold_write_peak: "fold write_peak peaks w = w @ concat (map peak_bytes peaks)"
  by (induction peaks arbitrary: w) (simp_all add: write_peak_bytes)

definition small_peak :: "mmr_peak \<Rightarrow> bool" where
  "small_peak peak \<longleftrightarrow> pk_height peak < 64 \<and> length (pk_hash peak) = 32"

lemma peak_bytes_inj:
  assumes "peak_bytes p @ r = peak_bytes q @ r'" "small_peak p" "small_peak q"
  shows "p = q \<and> r = r'"
proof -
  have e: "head_bytes UNSIGNED (of_nat (pk_height p)) @ head_bytes BYTES (of_nat (length (pk_hash p))) @ pk_hash p @ r =
      head_bytes UNSIGNED (of_nat (pk_height q)) @ head_bytes BYTES (of_nat (length (pk_hash q))) @ pk_hash q @ r'"
    using assms(1) by (simp add: peak_bytes_def write_peak_def preimage_defs)
  have h: "(of_nat (pk_height p) :: u64) = of_nat (pk_height q)"
    and b: "head_bytes BYTES (of_nat (length (pk_hash p))) @ pk_hash p @ r = head_bytes BYTES (of_nat (length (pk_hash q))) @ pk_hash q @ r'"
    using head_inj [OF _ e] by (simp_all add: UNSIGNED_def)
  have "unat (of_nat (pk_height p) :: u64) = unat (of_nat (pk_height q) :: u64)" using h by simp
  then have "pk_height p = pk_height q"
    using assms(2,3) by (simp add: small_peak_def unsigned_of_nat take_bit_nat_eq_self)
  moreover have "pk_hash p = pk_hash q \<and> r = r'"
    using bytes_item_inj [OF b] assms(2,3) by (simp add: small_peak_def)
  ultimately show ?thesis by simp
qed

lemma concat_peaks_inj:
  "concat (map peak_bytes ps) = concat (map peak_bytes qs) \<Longrightarrow> length ps = length qs \<Longrightarrow>
   \<forall>p\<in>set ps. small_peak p \<Longrightarrow> \<forall>q\<in>set qs. small_peak q \<Longrightarrow> ps = qs"
proof (induction ps arbitrary: qs)
  case (Cons p ps)
  then obtain q qs' where q: "qs = q # qs'" by (cases qs) auto
  then show ?case using Cons peak_bytes_inj [of p "concat (map peak_bytes ps)" q "concat (map peak_bytes qs')"] by simp
qed simp

lemma root_preimage_inj:
  assumes "root_preimage c ps = root_preimage d qs" "length ps \<le> 64" "length qs \<le> 64"
    "\<forall>p\<in>set ps. small_peak p" "\<forall>q\<in>set qs. small_peak q"
  shows "c = d \<and> ps = qs"
proof -
  have e: "head_bytes UNSIGNED c @ head_bytes ARRAY (of_nat (length ps)) @ concat (map peak_bytes ps) =
      head_bytes UNSIGNED d @ head_bytes ARRAY (of_nat (length qs)) @ concat (map peak_bytes qs)"
    using assms(1) by (simp add: root_preimage_def fold_write_peak preimage_defs)
  have c: "c = d" and a: "head_bytes ARRAY (of_nat (length ps)) @ concat (map peak_bytes ps) = head_bytes ARRAY (of_nat (length qs)) @ concat (map peak_bytes qs)"
    using head_inj [OF _ e] by (simp_all add: UNSIGNED_def)
  have n: "(of_nat (length ps) :: u64) = of_nat (length qs)" and t: "concat (map peak_bytes ps) = concat (map peak_bytes qs)"
    using head_inj [OF _ a] by (simp_all add: ARRAY_def)
  have "unat (of_nat (length ps) :: u64) = unat (of_nat (length qs) :: u64)" using n by simp
  then have "length ps = length qs" using assms(2,3) by (simp add: unsigned_of_nat take_bit_nat_eq_self)
  then show ?thesis using concat_peaks_inj [OF t] assms(4,5) c by simp
qed

section \<open>The path the prover returns\<close>

fun spec_path :: "digest \<Rightarrow> nat \<Rightarrow> nat \<Rightarrow> bytes list \<Rightarrow> nat \<Rightarrow> proof_step list" where
  "spec_path H 0 off ids target = []"
| "spec_path H (Suc h) off ids target =
     (if target < off + 2 ^ h
      then spec_path H h off ids target @ [\<lparr>ps_parent_height = Suc h, ps_side = RightSide, ps_hash = tree_hash H h (off + 2 ^ h) ids\<rparr>]
      else spec_path H h (off + 2 ^ h) ids target @ [\<lparr>ps_parent_height = Suc h, ps_side = LeftSide, ps_hash = tree_hash H h off ids\<rparr>])"

lemma append_path_spec:
  "off \<le> target \<Longrightarrow> target < off + 2 ^ h \<Longrightarrow>
   append_path (spec_node H h off ids) target path = (True, path @ spec_path H h off ids target)"
proof (induction h arbitrary: off path)
  case (Suc h)
  then show ?case by (simp add: merge_nodes_def Let_def)
qed simp

lemma path_loop_append:
  "path_loop H carried height (path @ path') = (case path_loop H carried height path of
     Inl e \<Rightarrow> Inl e | Inr (carried, height) \<Rightarrow> path_loop H carried height path')"
  by (induction path arbitrary: carried height) simp_all

lemma length_tree_hash: "\<forall>x. length (H x) = 32 \<Longrightarrow> length (tree_hash H h off ids) = 32"
  by (cases h) (simp_all add: leaf_hash_def parent_hash_def)

lemma path_loop_spec:
  assumes "\<forall>x. length (H x) = 32" "off \<le> target" "target < off + 2 ^ h"
  shows "path_loop H (leaf_hash H (of_nat target) (ids ! target)) 0 (spec_path H h off ids target) = Inr (tree_hash H h off ids, h)"
  using assms(2,3)
proof (induction h arbitrary: off)
  case (Suc h)
  then show ?case using length_tree_hash [OF assms(1)]
    by (simp add: path_loop_append step_hash_def)
qed (auto simp: less_Suc_eq_le dest: le_antisym)

section \<open>The peak over a leaf\<close>

fun covering :: "nat list \<Rightarrow> nat \<Rightarrow> nat \<Rightarrow> nat option" where
  "covering [] off target = None"
| "covering (h # hs) off target =
     (if off \<le> target \<and> target < off + 2 ^ h then Some 0 else map_option Suc (covering hs (off + 2 ^ h) target))"

lemma position_covering:
  "position (\<lambda>node. target \<ge> n_start node \<and> target < n_end node) (spec_nodes H hs off ids) = covering hs off target"
  by (induction hs arbitrary: off) simp_all

lemma covering_some:
  "off \<le> target \<Longrightarrow> target < off + widths hs \<Longrightarrow>
   \<exists>k. covering hs off target = Some k \<and> k < length hs \<and>
     off + widths (take k hs) \<le> target \<and> target < off + widths (take k hs) + 2 ^ (hs ! k)"
proof (induction hs arbitrary: off)
  case (Cons h hs)
  show ?case
  proof (cases "target < off + 2 ^ h")
    case False
    then obtain k where "covering hs (off + 2 ^ h) target = Some k" "k < length hs"
      "off + 2 ^ h + widths (take k hs) \<le> target" "target < off + 2 ^ h + widths (take k hs) + 2 ^ (hs ! k)"
      using Cons.IH [of "off + 2 ^ h"] Cons.prems by auto
    then show ?thesis using False by (intro exI [of _ "Suc k"]) (simp add: ac_simps)
  qed (use Cons.prems in simp)
qed simp

lemma peak_index_loop_covering:
  "off + widths hs < 2 ^ 64 \<Longrightarrow> \<forall>h\<in>set hs. h < 64 \<Longrightarrow> covering hs off target = Some k \<Longrightarrow>
   peak_index_loop count target off i hs = Inr (i + k)"
proof (induction hs arbitrary: off i k)
  case (Cons h hs)
  have "h < 2 ^ 32" using Cons.prems(2) by (simp add: less_le_trans)
  then have w: "peak_width h = Inr (2 ^ h)" "off + 2 ^ h < 2 ^ 64" using Cons.prems by (simp_all add: peak_width_def)
  show ?case
  proof (cases "off \<le> target \<and> target < off + 2 ^ h")
    case False
    then obtain j where "covering hs (off + 2 ^ h) target = Some j" "k = Suc j" using Cons.prems(3) by auto
    then show ?thesis using Cons.IH [of "off + 2 ^ h" j "i + 1"] Cons.prems False w by (simp add: ac_simps)
  qed (use Cons.prems w in auto)
qed simp

lemma spec_nth:
  "k < length hs \<Longrightarrow> spec_nodes H hs off ids ! k = spec_node H (hs ! k) (off + widths (take k hs)) ids"
  "k < length hs \<Longrightarrow> spec_peaks H hs off ids ! k = \<lparr>pk_height = hs ! k, pk_hash = tree_hash H (hs ! k) (off + widths (take k hs)) ids\<rparr>"
  by (induction hs arbitrary: off k; auto simp: less_Suc_eq_0_disj add.assoc)+

text \<open>The proof \<open>prove\<close> returns, field by field.\<close>

lemma prove_spec:
  assumes "length ids < 2 ^ 64" "target < length ids"
  defines "hs \<equiv> mmr_heights ids"
  obtains k where "k < length hs" "widths (take k hs) \<le> target" "target < widths (take k hs) + 2 ^ (hs ! k)"
    "\<And>count. peak_index_loop count target 0 0 hs = Inr k"
    "prove H ids target = Some \<lparr>pf_count = length ids, pf_leaf_index = target, pf_frame_id = ids ! target,
       pf_root = root_hash H (of_nat (length ids)) (spec_peaks H hs 0 ids), pf_peak_index = k,
       pf_peaks = spec_peaks H hs 0 ids, pf_path = spec_path H (hs ! k) (widths (take k hs)) ids target\<rparr>"
proof -
  have w: "widths hs = length ids" using expected_of_nat [OF assms(1)] by (simp add: hs_def)
  obtain k where k: "covering hs 0 target = Some k" "k < length hs" "widths (take k hs) \<le> target"
      "target < widths (take k hs) + 2 ^ (hs ! k)"
    using covering_some [of 0 target hs] w assms(2) by auto
  have l: "peak_index_loop count target 0 0 hs = Inr k" for count
    using peak_index_loop_covering [OF _ _ k(1), of count 0] w assms(1) expected_peak_heights_less by (auto simp: hs_def)
  show ?thesis
    by (rule that [OF k(2-4) l])
      (use k assms(1,2) in \<open>simp add: prove_def build_nodes_spec Let_def hs_def [symmetric] position_covering spec_nth append_path_spec\<close>)
qed

lemma prove_none: "length ids \<le> target \<Longrightarrow> prove H ids target = None"
  by (simp add: prove_def)

section \<open>Descending an accepted path\<close>

definition step_preimage :: "proof_step \<Rightarrow> bytes \<Rightarrow> bytes" where
  "step_preimage step carried = (case ps_side step of
     LeftSide \<Rightarrow> parent_preimage (ps_parent_height step) (ps_hash step) carried
   | RightSide \<Rightarrow> parent_preimage (ps_parent_height step) carried (ps_hash step))"

fun path_preimages :: "digest \<Rightarrow> bytes \<Rightarrow> proof_step list \<Rightarrow> bytes list" where
  "path_preimages H carried [] = []"
| "path_preimages H carried (step # path) = step_preimage step carried # path_preimages H (step_hash H step carried) path"

text \<open>Every preimage the verifier hashes, and every preimage the builder hashes.\<close>

definition verifier_preimages :: "digest \<Rightarrow> mmr_proof \<Rightarrow> bytes list" where
  "verifier_preimages H p =
     root_preimage (of_nat (pf_count p)) (pf_peaks p) # leaf_preimage (of_nat (pf_leaf_index p)) (pf_frame_id p) #
     path_preimages H (leaf_hash H (of_nat (pf_leaf_index p)) (pf_frame_id p)) (pf_path p)"

fun tree_preimages :: "digest \<Rightarrow> nat \<Rightarrow> nat \<Rightarrow> bytes list \<Rightarrow> bytes list" where
  "tree_preimages H 0 off ids = [leaf_preimage (of_nat off) (ids ! off)]"
| "tree_preimages H (Suc h) off ids =
     parent_preimage (Suc h) (tree_hash H h off ids) (tree_hash H h (off + 2 ^ h) ids) #
     tree_preimages H h off ids @ tree_preimages H h (off + 2 ^ h) ids"

fun forest_preimages :: "digest \<Rightarrow> nat list \<Rightarrow> nat \<Rightarrow> bytes list \<Rightarrow> bytes list" where
  "forest_preimages H [] off ids = []"
| "forest_preimages H (h # hs) off ids = tree_preimages H h off ids @ forest_preimages H hs (off + 2 ^ h) ids"

definition builder_preimages :: "digest \<Rightarrow> bytes list \<Rightarrow> bytes list" where
  "builder_preimages H ids =
     root_preimage (of_nat (length ids)) (spec_peaks H (mmr_heights ids) 0 ids) # forest_preimages H (mmr_heights ids) 0 ids"

definition collision_free :: "digest \<Rightarrow> bytes list \<Rightarrow> bytes list \<Rightarrow> bool" where
  "collision_free H xs ys \<longleftrightarrow> list_all (\<lambda>x. list_all (\<lambda>y. H x = H y \<longrightarrow> x = y) ys) xs"

lemma collision_freeD: "collision_free H xs ys \<Longrightarrow> H x = H y \<Longrightarrow> x \<in> set xs \<Longrightarrow> y \<in> set ys \<Longrightarrow> x = y"
  by (auto simp: collision_free_def list_all_iff)

lemma collision_free_subset: "collision_free H xs ys \<Longrightarrow> set xs' \<subseteq> set xs \<Longrightarrow> set ys' \<subseteq> set ys \<Longrightarrow> collision_free H xs' ys'"
  by (auto simp: collision_free_def list_all_iff)

lemma path_preimages_snoc:
  "path_loop H c h path = Inr (c', h') \<Longrightarrow> path_preimages H c (path @ [s]) = path_preimages H c path @ [step_preimage s c']"
  by (induction path arbitrary: c h) (auto split: if_splits)

lemma path_loop_height: "path_loop H c h path = Inr (c', h') \<Longrightarrow> h' = h + length path"
  by (induction path arbitrary: c h) (fastforce split: if_splits)+

lemma path_loop_digest:
  "path_loop H c h path = Inr (c', h') \<Longrightarrow> length c = 32 \<Longrightarrow> \<forall>x. length (H x) = 32 \<Longrightarrow> length c' = 32"
  by (induction path arbitrary: c h) (auto simp: step_hash_def parent_hash_def split: if_splits proof_side.splits)

lemma step_hash_preimage: "step_hash H step carried = H (step_preimage step carried)"
  by (simp add: step_hash_def step_preimage_def parent_hash_def split: proof_side.split)

lemma path_sound:
  assumes "\<forall>x. length (H x) = 32" "\<forall>i\<in>set ids. length i = 32" "length ids < 2 ^ 64" "target < 2 ^ 64" "length frame_id = 32"
  shows "path_loop H (leaf_hash H (of_nat target) frame_id) 0 path = Inr (tree_hash H h off ids, h) \<Longrightarrow>
     off + 2 ^ h \<le> length ids \<Longrightarrow>
     collision_free H (leaf_preimage (of_nat target) frame_id # path_preimages H (leaf_hash H (of_nat target) frame_id) path)
       (tree_preimages H h off ids) \<Longrightarrow>
     frame_id = ids ! target \<and> off \<le> target \<and> target < off + 2 ^ h \<and> path = spec_path H h off ids target"
proof (induction h arbitrary: off path)
  case 0
  have p: "path = []" using path_loop_height [OF 0(1)] by simp
  then have "leaf_preimage (of_nat target) frame_id = leaf_preimage (of_nat off) (ids ! off)"
    using 0(1,3) by (auto simp: leaf_hash_def collision_free_def list_all_iff)
  moreover have "length (ids ! off) = 32" using 0(2) assms(2) by simp
  ultimately have i: "(of_nat target :: u64) = of_nat off" "frame_id = ids ! off"
    using leaf_preimage_inj assms(5) by auto
  have "unat (of_nat target :: u64) = unat (of_nat off :: u64)" using i(1) by simp
  then have "target = off" using 0(2) assms(3,4) by (simp add: unsigned_of_nat take_bit_nat_eq_self)
  then show ?case using p i by simp
next
  case (Suc h)
  let ?c = "leaf_hash H (of_nat target) frame_id"
  obtain path' s where p: "path = path' @ [s]"
    using path_loop_height [OF Suc.prems(1)] by (cases path rule: rev_cases) auto
  obtain c where l: "path_loop H ?c 0 path' = Inr (c, h)" and s: "ps_parent_height s = Suc h" "length (ps_hash s) = 32"
      "step_hash H s c = tree_hash H (Suc h) off ids"
    using Suc.prems(1) by (auto simp: p path_loop_append split: sum.splits if_splits)
  have c: "length c = 32" using path_loop_digest [OF l _ assms(1)] assms(1) by (simp add: leaf_hash_def)
  have pre: "path_preimages H ?c path = path_preimages H ?c path' @ [step_preimage s c]"
    using path_preimages_snoc [OF l] by (simp add: p)
  have e: "step_preimage s c = parent_preimage (Suc h) (tree_hash H h off ids) (tree_hash H h (off + 2 ^ h) ids)"
    using collision_freeD [OF Suc.prems(3), of "step_preimage s c" "parent_preimage (Suc h) (tree_hash H h off ids) (tree_hash H h (off + 2 ^ h) ids)"] s(3)
    by (simp add: pre step_hash_preimage parent_hash_def)
  have cf: "collision_free H (leaf_preimage (of_nat target) frame_id # path_preimages H ?c path') (tree_preimages H h o' ids)"
    if "o' = off \<or> o' = off + 2 ^ h" for o'
    by (rule collision_free_subset [OF Suc.prems(3)]) (use that in \<open>auto simp: pre\<close>)
  note len = length_tree_hash [OF assms(1)]
  show ?case
  proof (cases "ps_side s")
    case LeftSide
    then have "ps_hash s = tree_hash H h off ids" "c = tree_hash H h (off + 2 ^ h) ids"
      using parent_preimage_inj [OF e [unfolded step_preimage_def LeftSide, simplified]] s(2) c len by auto
    then show ?thesis using Suc.IH [of path' "off + 2 ^ h"] l cf Suc.prems(2) s(1) LeftSide
      by (auto simp: p mult_2 add.assoc)
  next
    case RightSide
    then have "ps_hash s = tree_hash H h (off + 2 ^ h) ids" "c = tree_hash H h off ids"
      using parent_preimage_inj [OF e [unfolded step_preimage_def RightSide, simplified]] s(2) c len by auto
    then show ?thesis using Suc.IH [of path' off] l cf Suc.prems(2) s(1) RightSide by (auto simp: p)
  qed
qed

lemma tree_preimages_forest:
  "k < length hs \<Longrightarrow> set (tree_preimages H (hs ! k) (off + widths (take k hs)) ids) \<subseteq> set (forest_preimages H hs off ids)"
proof (induction hs arbitrary: off k)
  case (Cons h hs)
  show ?case
  proof (cases k)
    case (Suc j)
    then show ?thesis using Cons.IH [of j "off + 2 ^ h"] Cons.prems by (auto simp: add.assoc)
  qed simp
qed simp

lemma widths_take_nth: "k < length hs \<Longrightarrow> widths (take k hs) + 2 ^ (hs ! k) \<le> widths hs"
proof -
  assume "k < length hs"
  then have "hs = take k hs @ hs ! k # drop (Suc k) hs" by (rule id_take_nth_drop)
  then have "widths hs = widths (take k hs) + (2 ^ (hs ! k) + widths (drop (Suc k) hs))" by (metis widths_simps(2,3))
  then show ?thesis by simp
qed

lemma check_peak_hashes_None: "check_peak_hashes peaks = None \<longleftrightarrow> (\<forall>peak\<in>set peaks. length (pk_hash peak) = 32)"
  by (induction peaks) auto

lemma root_spec: "length ids < 2 ^ 64 \<Longrightarrow> root H ids = Some (root_hash H (of_nat (length ids)) (spec_peaks H (mmr_heights ids) 0 ids))"
  by (simp add: root_def peak_fold_spec)

lemma spec_peaks_digest: "\<forall>x. length (H x) = 32 \<Longrightarrow> peak \<in> set (spec_peaks H hs off ids) \<Longrightarrow> length (pk_hash peak) = 32"
  by (induction hs arbitrary: off) (auto simp: length_tree_hash)

lemma length_expected: "length (expected_peak_heights c) \<le> 64"
  using length_filter_le [of "bit c" "[0..<64]"] by (simp add: expected_peak_heights_bits)

lemma small_peaks:
  assumes "heights ps = expected_peak_heights c" "\<forall>p\<in>set ps. length (pk_hash p) = 32"
  shows "length ps \<le> 64 \<and> (\<forall>p\<in>set ps. small_peak p)"
proof -
  have "pk_height p < 64" if "p \<in> set ps" for p
    using expected_peak_heights_less [of "pk_height p" c] that unfolding assms(1) [symmetric] by simp
  moreover have "length ps = length (expected_peak_heights c)" by (metis assms(1) length_map)
  ultimately show ?thesis using assms(2) length_expected [of c] by (simp add: small_peak_def)
qed

lemma verify_accepts:
  "verify_proof H p = Inr () \<longleftrightarrow>
     length (pf_frame_id p) = 32 \<and> length (pf_root p) = 32 \<and> pf_leaf_index p < pf_count p \<and>
     pf_peak_index p < length (pf_peaks p) \<and> heights (pf_peaks p) = expected_peak_heights (of_nat (pf_count p)) \<and>
     peak_index_loop (pf_count p) (pf_leaf_index p) 0 0 (heights (pf_peaks p)) = Inr (pf_peak_index p) \<and>
     (\<forall>peak\<in>set (pf_peaks p). length (pk_hash peak) = 32) \<and>
     path_loop H (leaf_hash H (of_nat (pf_leaf_index p)) (pf_frame_id p)) 0 (pf_path p) =
       Inr (pk_hash (pf_peaks p ! pf_peak_index p), pk_height (pf_peaks p ! pf_peak_index p)) \<and>
     root_hash H (of_nat (pf_count p)) (pf_peaks p) = pf_root p"
  by (auto simp: verify_proof_def verify_root_def peak_index_for_leaf_def Let_def check_peak_hashes_None [symmetric]
      split: sum.splits option.splits if_splits)

lemma prove_verifies:
  assumes "\<forall>x. length (H x) = 32" "\<forall>i\<in>set ids. length i = 32" "length ids < 2 ^ 64" "prove H ids target = Some p"
  shows "verify_proof H p = Inr () \<and> root H ids = Some (pf_root p) \<and> pf_count p = length ids \<and>
    pf_leaf_index p = target \<and> pf_frame_id p = ids ! target \<and> target < length ids \<and> length (pf_path p) < 64"
proof -
  have t: "target < length ids" using assms(4) by (cases "target < length ids") (auto simp: prove_none)
  obtain k where k: "k < length (mmr_heights ids)" "widths (take k (mmr_heights ids)) \<le> target"
     "target < widths (take k (mmr_heights ids)) + 2 ^ (mmr_heights ids ! k)"
     "\<And>count. peak_index_loop count target 0 0 (mmr_heights ids) = Inr k"
     and p: "prove H ids target = Some \<lparr>pf_count = length ids, pf_leaf_index = target, pf_frame_id = ids ! target,
       pf_root = root_hash H (of_nat (length ids)) (spec_peaks H (mmr_heights ids) 0 ids), pf_peak_index = k,
       pf_peaks = spec_peaks H (mmr_heights ids) 0 ids,
       pf_path = spec_path H (mmr_heights ids ! k) (widths (take k (mmr_heights ids))) ids target\<rparr>"
    using prove_spec [OF assms(3) t, where H = H] by metis
  have l: "path_loop H (leaf_hash H (of_nat target) (ids ! target)) 0
      (spec_path H (mmr_heights ids ! k) (widths (take k (mmr_heights ids))) ids target) =
      Inr (tree_hash H (mmr_heights ids ! k) (widths (take k (mmr_heights ids))) ids, mmr_heights ids ! k)"
    by (rule path_loop_spec [OF assms(1) k(2,3)])
  have "mmr_heights ids ! k < 64" using k(1) by (intro expected_peak_heights_less) (rule nth_mem)
  then show ?thesis using assms t k l p path_loop_height [OF l] spec_peaks_digest [OF assms(1)]
    by (auto simp: verify_accepts root_spec spec_nth root_hash_def)
qed

lemma verified_proves:
  assumes H: "\<forall>x. length (H x) = 32" "\<forall>i\<in>set ids. length i = 32" "length ids < 2 ^ 64" "pf_count p < 2 ^ 64"
    and r: "root H ids = Some (pf_root p)" and cf: "collision_free H (verifier_preimages H p) (builder_preimages H ids)"
    and v: "verify_proof H p = Inr ()"
  shows "prove H ids (pf_leaf_index p) = Some p"
proof -
  let ?hs = "mmr_heights ids" and ?t = "pf_leaf_index p"
  note v = v [unfolded verify_accepts]
  let ?ps = "spec_peaks H ?hs 0 ids"
  have "H (root_preimage (of_nat (pf_count p)) (pf_peaks p)) = H (root_preimage (of_nat (length ids)) ?ps)"
    using r v by (simp add: root_spec [OF H(3)] root_hash_def)
  then have "root_preimage (of_nat (pf_count p)) (pf_peaks p) = root_preimage (of_nat (length ids)) ?ps"
    by (rule collision_freeD [OF cf]) (simp_all add: verifier_preimages_def builder_preimages_def)
  then have c: "(of_nat (pf_count p) :: u64) = of_nat (length ids)" and ps: "pf_peaks p = ?ps"
    using root_preimage_inj small_peaks [of "pf_peaks p"] small_peaks [of ?ps] v spec_peaks_digest [OF H(1)] by auto
  have "unat (of_nat (pf_count p) :: u64) = unat (of_nat (length ids) :: u64)" using c by simp
  then have count: "pf_count p = length ids" using H(3,4) by (simp add: unsigned_of_nat take_bit_nat_eq_self)
  then have t: "?t < length ids" using v by simp
  obtain k where k: "k < length ?hs" "\<And>count. peak_index_loop count ?t 0 0 ?hs = Inr k"
     and p: "prove H ids ?t = Some \<lparr>pf_count = length ids, pf_leaf_index = ?t, pf_frame_id = ids ! ?t,
       pf_root = root_hash H (of_nat (length ids)) ?ps, pf_peak_index = k, pf_peaks = ?ps,
       pf_path = spec_path H (?hs ! k) (widths (take k ?hs)) ids ?t\<rparr>"
    using prove_spec [OF H(3) t, where H = H] by metis
  have pk: "pf_peak_index p = k" using v k by (simp add: ps)
  have "widths (take k ?hs) + 2 ^ (?hs ! k) \<le> length ids"
    using widths_take_nth [OF k(1)] expected_of_nat(2) [OF H(3)] by simp
  moreover have "path_loop H (leaf_hash H (of_nat ?t) (pf_frame_id p)) 0 (pf_path p) = Inr (tree_hash H (?hs ! k) (widths (take k ?hs)) ids, ?hs ! k)"
    using v k(1) by (simp add: ps pk spec_nth)
  moreover have "collision_free H (leaf_preimage (of_nat ?t) (pf_frame_id p) # path_preimages H (leaf_hash H (of_nat ?t) (pf_frame_id p)) (pf_path p))
       (tree_preimages H (?hs ! k) (widths (take k ?hs)) ids)"
    using tree_preimages_forest [OF k(1), of H 0 ids]
    by (intro collision_free_subset [OF cf]) (auto simp: verifier_preimages_def builder_preimages_def)
  ultimately have "pf_frame_id p = ids ! ?t \<and> pf_path p = spec_path H (?hs ! k) (widths (take k ?hs)) ids ?t"
    using path_sound [OF H(1,2,3), of ?t "pf_frame_id p" "pf_path p" "?hs ! k" "widths (take k ?hs)"] t v H(3) by auto
  then show ?thesis using v by (simp add: p count ps pk root_hash_def)
qed

text \<open>A proof the prover made asks the verifier for preimages the builder hashed.\<close>

lemma spec_path_preimages:
  assumes "\<forall>x. length (H x) = 32" "off \<le> target" "target < off + 2 ^ h"
  shows "set (leaf_preimage (of_nat target) (ids ! target) # path_preimages H (leaf_hash H (of_nat target) (ids ! target)) (spec_path H h off ids target))
    \<subseteq> set (tree_preimages H h off ids)"
  using assms(2,3)
proof (induction h arbitrary: off)
  case (Suc h)
  show ?case
  proof (cases "target < off + 2 ^ h")
    case True
    then show ?thesis using Suc.IH [OF Suc.prems(1) True] path_preimages_snoc [OF path_loop_spec [OF assms(1) Suc.prems(1) True]]
      by (auto simp: step_preimage_def)
  next
    case False
    then have t: "off + 2 ^ h \<le> target" "target < off + 2 ^ h + 2 ^ h" using Suc.prems by simp_all
    then show ?thesis using Suc.IH [OF t] path_preimages_snoc [OF path_loop_spec [OF assms(1) t]] False
      by (auto simp: step_preimage_def)
  qed
qed (auto simp: less_Suc_eq_le dest: le_antisym)

lemma prove_preimages:
  assumes "\<forall>x. length (H x) = 32" "length ids < 2 ^ 64" "prove H ids target = Some p"
  shows "set (verifier_preimages H p) \<subseteq> set (builder_preimages H ids)"
proof -
  let ?hs = "mmr_heights ids"
  have t: "target < length ids" using assms(3) by (cases "target < length ids") (auto simp: prove_none)
  obtain k where k: "k < length ?hs" "widths (take k ?hs) \<le> target" "target < widths (take k ?hs) + 2 ^ (?hs ! k)"
     and p: "p = \<lparr>pf_count = length ids, pf_leaf_index = target, pf_frame_id = ids ! target,
       pf_root = root_hash H (of_nat (length ids)) (spec_peaks H ?hs 0 ids), pf_peak_index = k, pf_peaks = spec_peaks H ?hs 0 ids,
       pf_path = spec_path H (?hs ! k) (widths (take k ?hs)) ids target\<rparr>"
    using prove_spec [OF assms(2) t, where H = H] assms(3) by (metis option.inject)
  show ?thesis using spec_path_preimages [OF assms(1) k(2,3), of ids] tree_preimages_forest [OF k(1), of H 0 ids]
    by (auto simp: p verifier_preimages_def builder_preimages_def)
qed

lemma collision_free_distinct: "distinct (map H ys) \<Longrightarrow> set xs \<subseteq> set ys \<Longrightarrow> collision_free H xs ys"
  by (auto simp: collision_free_def list_all_iff distinct_map inj_on_def)

section \<open>Properties\<close>

text \<open>C21: Restoring a persisted frontier accepts exactly the well-formed ones: the peak heights are the
  positions of the set bits of the count, from the highest down, and every hash has 32 bytes. The
  restored value holds the given parts.\<close>

theorem from_parts_exact:
  "mmr_from_parts c ps = Inr self \<longleftrightarrow>
     self = \<lparr>mp_count = c, mp_peaks = ps\<rparr> \<and> heights ps = rev (filter (bit c) [0..<64]) \<and>
     list_all (\<lambda>peak. length (pk_hash peak) = 32) ps"
  by (cases "self = \<lparr>mp_count = c, mp_peaks = ps\<rparr>") (simp_all add: mmr_from_parts_iff frontier_ok_def list_all_iff)

text \<open>Appending to any frontier a restore accepts refuses exactly at the largest count, and
  otherwise returns the count plus one and peaks that a restore accepts again: the well-formedness
  of the frontier is an invariant of every operation, also where the count passes a power of two.\<close>

theorem push_keeps_frontier:
  assumes "\<forall>x. length (H x) = 32" "mmr_from_parts c ps = Inr self"
  shows "(mmr_push H frame_id self = Inl CountOverflow \<longleftrightarrow> unat c = 2 ^ 64 - 1) \<and>
    (unat c < 2 ^ 64 - 1 \<longrightarrow> (\<exists>self'. mmr_push H frame_id self = Inr self' \<and> unat (mp_count self') = unat c + 1 \<and>
       mmr_from_parts (mp_count self') (mp_peaks self') = Inr self'))"
proof -
  have m: "c = - 1 \<longleftrightarrow> unat c = 2 ^ 64 - 1" by (simp add: word_unat_eq_iff unsigned_minus_1_eq_mask mask_eq_exp_minus_1)
  have f: "frontier_ok self" "mp_count self = c" using assms(2) by (auto simp: mmr_from_parts_iff)
  show ?thesis
  proof (cases "c = - 1")
    case False
    then obtain self' where s: "mmr_push H frame_id self = Inr self'" by (fastforce simp: mmr_push_def f(2) split: prod.split)
    then show ?thesis using frontier_ok_push [OF f(1) assms(1) s] False m f(2) by (simp add: mmr_from_parts_iff)
  qed (use m f(2) in \<open>simp add: mmr_push_def\<close>)
qed

lemma push_keeps_frontier_witness:
  "\<exists>self'. mmr_push (\<lambda>x. replicate 32 0) [1] \<lparr>mp_count = 1, mp_peaks = [\<lparr>pk_height = 0, pk_hash = replicate 32 7\<rparr>]\<rparr> = Inr self' \<and>
     unat (mp_count self') = 2 \<and> mmr_from_parts (mp_count self') (mp_peaks self') = Inr self'"
proof -
  have "mmr_from_parts 1 [\<lparr>pk_height = 0, pk_hash = replicate 32 7\<rparr>] = Inr \<lparr>mp_count = 1, mp_peaks = [\<lparr>pk_height = 0, pk_hash = replicate 32 7\<rparr>]\<rparr>"
    by (simp add: mmr_from_parts_iff frontier_ok_def bit_1_iff) code_simp
  moreover have "\<forall>x::bytes. length (replicate 32 (0::u8)) = 32" by simp
  moreover have "unat (1 :: u64) < 2 ^ 64 - 1" "unat (1 :: u64) + 1 = 2" by simp_all
  ultimately show ?thesis using push_keeps_frontier [of "\<lambda>x. replicate 32 0" 1 _ _ "[1]"] by metis
qed

lemma bit_of_nat_64: "n < 64 \<Longrightarrow> bit (of_nat k :: u64) n \<longleftrightarrow> bit k n"
proof -
  assume n: "n < 64"
  have "bit (of_nat k :: u64) n \<longleftrightarrow> bit (unat (of_nat k :: u64)) n" using n by (simp add: bit_unsigned_iff)
  also have "\<dots> \<longleftrightarrow> bit k n" using n by (simp add: unsigned_of_nat bit_take_bit_iff)
  finally show ?thesis .
qed

text \<open>C23: The incremental frontier, the batch root and the tree builder agree with one reference: folding
  \<open>push\<close> over the frame ids never panics and yields, for each set bit of the count from the
  highest down, the hash of the perfect binary tree over the next stretch of ids; the tree
  builder's peaks are the same list, and \<open>root\<close> is the root hash of that list.\<close>

theorem frontier_batch_tree_agree:
  assumes "length ids < 2 ^ 64"
  shows "fold_push H mmr_default ids = Some \<lparr>mp_count = of_nat (length ids), mp_peaks = spec_peaks H (rev (filter (bit (length ids)) [0..<64])) 0 ids\<rparr> \<and>
    peak_fold H ids = Some (peak_list (build_nodes H ids)) \<and>
    root H ids = map_option (mmr_root H) (fold_push H mmr_default ids) \<and>
    root H ids = Some (root_hash H (of_nat (length ids)) (peak_list (build_nodes H ids)))"
proof -
  have "mmr_heights ids = rev (filter (bit (length ids)) [0..<64])"
    unfolding expected_peak_heights_bits by (intro arg_cong [of _ _ rev] filter_cong) (auto simp: bit_of_nat_64)
  then show ?thesis
    using fold_push_spec [of mmr_default "[]" H ids] assms
    by (simp add: mmr_default_def expected_peak_heights_bits root_spec peak_fold_spec build_nodes_spec mmr_root_def)
qed

lemma frontier_batch_tree_agree_witness:
  "peak_fold rev [[1], [2], [3]] = Some (peak_list (build_nodes rev [[1], [2], [3]])) \<and>
     root rev [[1], [2], [3]] = Some (root_hash rev 3 (peak_list (build_nodes rev [[1], [2], [3]])))"
proof -
  have "length [[1], [2], [3 :: u8]] < 2 ^ 64" "of_nat (length [[1], [2], [3 :: u8]]) = (3 :: u64)" by simp_all
  then show ?thesis using frontier_batch_tree_agree [of "[[1], [2], [3]]" rev] by argo
qed

text \<open>C24: Every leaf has a proof, and the verifier accepts it: for a digest of 32 bytes and 32-byte frame
  ids, \<open>prove\<close> returns a proof exactly for the indices in range; it names the leaf and the
  root of the ids, its path has fewer than 64 steps, and \<open>verify_proof\<close> returns without error.\<close>

theorem proofs_verify:
  assumes "\<forall>x. length (H x) = 32" "\<forall>i\<in>set ids. length i = 32" "length ids < 2 ^ 64"
  shows "(target < length ids \<longrightarrow> (\<exists>p. prove H ids target = Some p \<and> verify_proof H p = Inr () \<and> root H ids = Some (pf_root p) \<and>
      pf_count p = length ids \<and> pf_leaf_index p = target \<and> pf_frame_id p = ids ! target \<and> length (pf_path p) < 64)) \<and>
    (length ids \<le> target \<longrightarrow> prove H ids target = None)"
proof (cases "target < length ids")
  case True
  then obtain p where "prove H ids target = Some p" using prove_spec [OF assms(3) True, where H = H] by metis
  then show ?thesis using prove_verifies [OF assms, of target p] True by auto
qed (simp add: prove_none)

lemma proofs_verify_witness:
  "\<exists>p. prove (\<lambda>x. replicate 32 0) [replicate 32 1, replicate 32 2, replicate 32 3] 1 = Some p \<and> verify_proof (\<lambda>x. replicate 32 0) p = Inr ()"
  using proofs_verify [of "\<lambda>x. replicate 32 0" "[replicate 32 1, replicate 32 2, replicate 32 3]" 1] by auto

text \<open>C25: Soundness of verification: against the root of known frame ids, the verifier accepts exactly the
  proof the prover makes for the claimed index, field for field. So an accepted proof names the
  true frame id, count, peaks and path, unless two different preimages among those the verifier and
  the builder hash (two finite lists, computed here) have one digest.\<close>

theorem verification_exact:
  assumes "\<forall>x. length (H x) = 32" "\<forall>i\<in>set ids. length i = 32" "length ids < 2 ^ 64" "pf_count p < 2 ^ 64"
    "root H ids = Some (pf_root p)" "collision_free H (verifier_preimages H p) (builder_preimages H ids)"
  shows "verify_proof H p = Inr () \<longleftrightarrow> prove H ids (pf_leaf_index p) = Some p"
  using verified_proves [OF assms] prove_verifies [OF assms(1-3)] by blast

definition toy_digest :: digest where
  "toy_digest x = replicate 32 (x ! 17 + of_nat (length x))"

definition toy_ids :: "bytes list" where
  "toy_ids = [replicate 32 1, replicate 32 2]"

definition toy_proof :: mmr_proof where
  "toy_proof = the (prove toy_digest toy_ids 1)"

lemma verification_exact_witness:
  "prove toy_digest toy_ids 1 = Some toy_proof \<and> verify_proof toy_digest toy_proof = Inr ()"
proof -
  have l: "\<forall>x. length (toy_digest x) = 32" by (simp add: toy_digest_def)
  have i: "\<forall>i\<in>set toy_ids. length i = 32" "length toy_ids < 2 ^ 64" by (simp_all add: toy_ids_def)
  have "1 < length toy_ids" by (simp add: toy_ids_def)
  then obtain p where p: "prove toy_digest toy_ids 1 = Some p"
    using prove_spec [OF i(2), of 1, where H = toy_digest] by metis
  note pv = prove_verifies [OF l i p]
  then have c: "pf_count p < 2 ^ 64" "root toy_digest toy_ids = Some (pf_root p)" using i(2) by simp_all
  have "distinct (map hd (map toy_digest (builder_preimages toy_digest toy_ids)))" by code_simp
  then have "distinct (map toy_digest (builder_preimages toy_digest toy_ids))" by (rule distinct_map [THEN iffD1, THEN conjunct1])
  then have cf: "collision_free toy_digest (verifier_preimages toy_digest p) (builder_preimages toy_digest toy_ids)"
    by (rule collision_free_distinct) (rule prove_preimages [OF l i(2) p])
  show ?thesis using verification_exact [OF l i c cf] p pv toy_proof_def by simp
qed

end
