(* ===== verification/CborFloat.thy ===== *)
theory CborFloat
  imports CborHead
begin

text \<open>
  The float items of \<open>crates/lex/src/cbor\<close>: the narrowing to binary16 and binary32 of
  \<open>encode.rs\<close> and the widening of \<open>decode.rs\<close>. An \<open>f64\<close> is its bit pattern
  (\<open>to_bits\<close>, \<open>from_bits\<close>); \<open>f64::from(f32)\<close> is the IEEE 754 conversion of the
  hardware, which sets the quiet bit of a NaN.
\<close>

section \<open>The code\<close>

definition f16_bits :: "u64 \<Rightarrow> u16 option" where
  "f16_bits bits =
     (let sign = push_bit 15 (ucast (drop_bit 63 bits)); exponent = uint (drop_bit 52 bits AND 0x7ff);
          mantissa = bits AND (push_bit 52 1 - 1) in
      if exponent = 0x7ff then
        (if mantissa AND (push_bit 42 1 - 1) = 0 then Some (sign OR 0x7c00 OR ucast (drop_bit 42 mantissa)) else None)
      else if exponent = 0 then (if mantissa = 0 then Some sign else None)
      else (let unbiased = exponent - 1023 in
        if -14 \<le> unbiased \<and> unbiased \<le> 15 then
          (if mantissa AND (push_bit 42 1 - 1) = 0
           then Some (sign OR push_bit 10 (of_int (unbiased + 15)) OR ucast (drop_bit 42 mantissa)) else None)
        else if -24 \<le> unbiased \<and> unbiased < -14 then
          (let significand = push_bit 52 1 OR mantissa; shift = nat (52 - (unbiased + 24)) in
           if significand AND (push_bit shift 1 - 1) = 0 then Some (sign OR ucast (drop_bit shift significand)) else None)
        else None))"

definition f32_bits :: "u64 \<Rightarrow> u32 option" where
  "f32_bits bits =
     (let sign = push_bit 31 (ucast (drop_bit 63 bits)); exponent = uint (drop_bit 52 bits AND 0x7ff);
          mantissa = bits AND (push_bit 52 1 - 1) in
      if exponent = 0x7ff then
        (if mantissa AND (push_bit 29 1 - 1) = 0 then Some (sign OR 0x7f800000 OR ucast (drop_bit 29 mantissa)) else None)
      else if exponent = 0 then (if mantissa = 0 then Some sign else None)
      else (let unbiased = exponent - 1023 in
        if -126 \<le> unbiased \<and> unbiased \<le> 127 then
          (if mantissa AND (push_bit 29 1 - 1) = 0
           then Some (sign OR push_bit 23 (of_int (unbiased + 127)) OR ucast (drop_bit 29 mantissa)) else None)
        else if -149 \<le> unbiased \<and> unbiased < -126 then
          (let significand = push_bit 52 1 OR mantissa; shift = nat (52 - (unbiased + 149)) in
           if significand AND (push_bit shift 1 - 1) = 0 then Some (sign OR ucast (drop_bit shift significand)) else None)
        else None))"

text \<open>The nine-byte buffer and the number of its bytes in use.\<close>

definition float_item :: "u64 \<Rightarrow> bytes \<times> nat" where
  "float_item bits =
     (case f16_bits bits of
        Some half \<Rightarrow> (0xf9 # be_bytes 2 half @ replicate 6 0, 3)
      | None \<Rightarrow> (case f32_bits bits of
          Some single \<Rightarrow> (0xfa # be_bytes 4 single @ replicate 4 0, 5)
        | None \<Rightarrow> (0xfb # be_bytes 8 bits, 9)))"

definition f16_to_f64 :: "u16 \<Rightarrow> u64" where
  "f16_to_f64 half =
     (let sign = push_bit 63 (ucast (drop_bit 15 half)); exponent = ucast (drop_bit 10 half AND 0x1f) :: u64;
          mantissa = ucast (half AND 0x3ff) in
      if exponent = 0 then
        (if mantissa = 0 then sign
         else (let shift = leading_zeros mantissa - 53; normalized = push_bit shift mantissa AND 0x3ff in
           sign OR push_bit 52 (1023 - 15 + 1 - of_nat shift) OR push_bit 42 normalized))
      else if exponent = 31 then sign OR push_bit 52 0x7ff OR push_bit 42 mantissa
      else sign OR push_bit 52 (exponent + 1023 - 15) OR push_bit 42 mantissa)"

definition f32_to_f64 :: "u32 \<Rightarrow> u64" where
  "f32_to_f64 single =
     (let sign = push_bit 63 (ucast (drop_bit 31 single)); exponent = ucast (drop_bit 23 single AND 0xff) :: u64;
          mantissa = ucast (single AND 0x7fffff) in
      if exponent = 0 then
        (if mantissa = 0 then sign
         else (let shift = leading_zeros mantissa - 40; normalized = push_bit shift mantissa AND 0x7fffff in
           sign OR push_bit 52 (1023 - 127 + 1 - of_nat shift) OR push_bit 29 normalized))
      else if exponent = 255 then
        sign OR push_bit 52 0x7ff OR push_bit 29 (if mantissa = 0 then 0 else mantissa OR push_bit 22 1)
      else sign OR push_bit 52 (exponent + 1023 - 127) OR push_bit 29 mantissa)"

section \<open>Fields as numbers\<close>

lemma unat_or_push:
  fixes a b :: "'a::len word"
  assumes "unat b < 2 ^ k" "k \<le> LENGTH('a)" "unat a < 2 ^ (LENGTH('a) - k)"
  shows "unat (push_bit k a OR b) = unat a * 2 ^ k + unat b"
proof -
  have "unat (push_bit k a) = take_bit LENGTH('a) (push_bit k (unat a))" by (simp add: unsigned_push_bit_eq)
  also have "\<dots> = push_bit k (take_bit (LENGTH('a) - k) (unat a))" using assms(2) by (simp add: take_bit_push_bit)
  also have "\<dots> = unat a * 2 ^ k" using assms(3) by (simp add: take_bit_nat_eq_self push_bit_eq_mult)
  finally have p: "unat (push_bit k a) = unat a * 2 ^ k" .
  have "unat (push_bit k a OR b) = unat (push_bit k a) OR unat b" by (simp add: unsigned_or_eq)
  also have "\<dots> = unat (push_bit k a) + unat b"
  proof (rule disjunctive_add [symmetric])
    show "\<not> bit (unat (push_bit k a)) n \<or> \<not> bit (unat b) n" for n
    proof (cases "n < k")
      case True
      then show ?thesis by (auto simp: bit_unsigned_iff bit_push_bit_iff)
    next
      case False
      then show ?thesis using bit_below [OF assms(1), of n] by (auto simp: bit_unsigned_iff)
    qed
  qed
  finally show ?thesis by (simp add: p)
qed

lemma unat_drop: "unat (drop_bit k (w :: 'a::len word)) = unat w div 2 ^ k"
proof -
  have "unat (drop_bit k w) = drop_bit k (take_bit LENGTH('a) (unat w))" by (rule unsigned_drop_bit_eq)
  also have "\<dots> = drop_bit k (unat w)" using unsigned_less [of w, where 'a = nat] by (simp add: take_bit_nat_eq_self)
  finally show ?thesis by (simp add: drop_bit_eq_div)
qed

lemma unat_and_mask: "k < LENGTH('a) \<Longrightarrow> unat (w AND (push_bit k 1 - 1) :: 'a::len word) = unat w mod 2 ^ k"
  by (simp only: mask_shift take_bit_eq_mask [symmetric] unsigned_take_bit_eq) (simp add: take_bit_eq_mod)

lemma unat_and_low: "(c :: 'a::len word) = push_bit k 1 - 1 \<Longrightarrow> k < LENGTH('a) \<Longrightarrow> unat (w AND c) = unat w mod 2 ^ k"
  by (simp only: unat_and_mask)

section \<open>Narrowing and widening of fields\<close>

text \<open>Over the exponent and mantissa as numbers, for a mantissa of \<open>p\<close> bits and a bias \<open>B\<close>.\<close>

definition narrow :: "nat \<Rightarrow> nat \<Rightarrow> nat \<Rightarrow> nat \<Rightarrow> (nat \<times> nat) option" where
  "narrow p B e m =
     (if e = 2047 then (if m mod 2 ^ (52 - p) = 0 then Some (2 * B + 1, m div 2 ^ (52 - p)) else None)
      else if e = 0 then (if m = 0 then Some (0, 0) else None)
      else if 1024 \<le> e + B \<and> e \<le> 1023 + B
      then (if m mod 2 ^ (52 - p) = 0 then Some (e + B - 1023, m div 2 ^ (52 - p)) else None)
      else if 1024 \<le> e + B + p \<and> e + B < 1024
      then (if (2 ^ 52 + m) mod 2 ^ (1076 - (e + B + p)) = 0 then Some (0, (2 ^ 52 + m) div 2 ^ (1076 - (e + B + p))) else None)
      else None)"

text \<open>Widening, \<open>k\<close> being the position of the top bit of the mantissa.\<close>

definition widens :: "nat \<Rightarrow> nat \<Rightarrow> nat \<Rightarrow> nat \<Rightarrow> nat \<Rightarrow> nat \<Rightarrow> bool" where
  "widens p B E M e m \<longleftrightarrow>
     (if E = 0 then
        (if M = 0 then e = 0 \<and> m = 0
         else \<exists>k. 2 ^ k \<le> M \<and> M < 2 ^ Suc k \<and> e = 1024 + k - B - p \<and> m = (M - 2 ^ k) * 2 ^ (52 - k))
      else if E = 2 * B + 1 then e = 2047 \<and> m = M * 2 ^ (52 - p)
      else e = E + 1023 - B \<and> m = M * 2 ^ (52 - p))"

lemma power_split: "a \<le> b \<Longrightarrow> (2::nat) ^ a * 2 ^ (b - a) = 2 ^ b"
  by (simp flip: power_add)

lemma narrow_widens:
  assumes "widens p B E M e m" "E \<le> 2 * B + 1" "M < 2 ^ p" "1 \<le> B" "B + p < 1024" "p \<le> 52" "B < 1023"
  shows "narrow p B e m = Some (E, M)"
proof (cases "E = 0 \<and> M \<noteq> 0")
  case True
  then obtain k where k: "2 ^ k \<le> M" "M < 2 ^ Suc k" "e = 1024 + k - B - p" "m = (M - 2 ^ k) * 2 ^ (52 - k)"
    using assms(1) by (auto simp: widens_def)
  have "(2::nat) ^ k < 2 ^ p" using k(1) assms(3) by (rule le_less_trans)
  then have kp: "k < p" by simp
  have "2 ^ 52 + m = M * 2 ^ (52 - k)"
    using power_split [of k 52] kp assms(6) mult_le_mono1 [OF k(1), of "2 ^ (52 - k)"] by (simp add: k(4) diff_mult_distrib)
  moreover have "1076 - (e + B + p) = 52 - k" "1024 \<le> e + B + p" "e + B < 1024" "e \<noteq> 0" "e \<noteq> 2047"
    using k(3) assms(5,6) kp by auto
  ultimately show ?thesis using True by (simp add: narrow_def)
next
  case False
  consider "E = 0" "M = 0" | "E \<noteq> 0" "E = 2 * B + 1" | "E \<noteq> 0" "E \<noteq> 2 * B + 1" using False by (cases "E = 0") auto
  then show ?thesis
  proof cases
    case 1
    then show ?thesis using assms(1) by (simp add: widens_def narrow_def)
  next
    case 2
    then show ?thesis using assms(1) by (simp add: widens_def narrow_def)
  next
    case 3
    then have "e = E + 1023 - B" "m = M * 2 ^ (52 - p)" using assms(1) by (simp_all add: widens_def)
    moreover have "e \<noteq> 2047" "e \<noteq> 0" "1024 \<le> e + B" "e \<le> 1023 + B" "e + B - 1023 = E"
      using calculation(1) 3 assms(2,4,7) by linarith+
    ultimately show ?thesis by (simp add: narrow_def)
  qed
qed

lemma div_exact_less: "m mod d = 0 \<Longrightarrow> m < q * d \<Longrightarrow> m div d < (q::nat) \<and> m div d * d = m"
  by (metis div_mult_mod_eq add.right_neutral less_mult_imp_div_less)

lemma widens_narrow:
  assumes "narrow p B e m = Some (E, M)" "m < 2 ^ 52" "1 \<le> B" "B + p < 1024" "p \<le> 52" "B < 1023"
  shows "E \<le> 2 * B + 1 \<and> M < 2 ^ p \<and> widens p B E M e m"
proof -
  have d: "m < 2 ^ p * 2 ^ (52 - p)" using power_split [OF assms(5)] assms(2) by simp
  show ?thesis
  proof (cases "e = 2047 \<or> e = 0 \<or> (1024 \<le> e + B \<and> e \<le> 1023 + B)")
    case True
    then show ?thesis using assms div_exact_less [OF _ d]
      by (auto simp: narrow_def widens_def split: if_splits)
  next
    case False
    define k where "k = e + B + p - 1024"
    have s: "(2 ^ 52 + m) mod 2 ^ (52 - k) = 0" "E = 0" "M = (2 ^ 52 + m) div 2 ^ (52 - k)" "1024 \<le> e + B + p" "e + B < 1024"
      using False assms(1) by (auto simp: narrow_def k_def split: if_splits)
    have k: "k < p" "e = 1024 + k - B - p" using s(4,5) by (simp_all add: k_def)
    have "2 ^ 52 + m < 2 ^ Suc k * 2 ^ (52 - k)" using power_split [of k 52] k assms(2,5) by simp
    from div_exact_less [OF s(1) this] have M: "M < 2 ^ Suc k" "M * 2 ^ (52 - k) = 2 ^ 52 + m" by (simp_all add: s(3))
    have ge: "2 ^ k \<le> M"
    proof (rule ccontr)
      assume "\<not> 2 ^ k \<le> M"
      then have "M * 2 ^ (52 - k) < 2 ^ k * 2 ^ (52 - k)" by simp
      then show False using M(2) power_split [of k 52] k assms(5) by simp
    qed
    have "m = (M - 2 ^ k) * 2 ^ (52 - k)" using M(2) power_split [of k 52] k assms(5) by (simp add: diff_mult_distrib)
    moreover have "(2::nat) ^ Suc k \<le> 2 ^ p" using k by (intro power_increasing) auto
    moreover have "M \<noteq> 0" using ge by (metis not_le zero_less_numeral zero_less_power)
    ultimately show ?thesis using M(1) ge k(2) s(2) by (auto simp: widens_def intro!: exI [of _ k])
  qed
qed

section \<open>The words hold the fields\<close>

lemma pack_fields:
  fixes a b c :: "'a::len word"
  assumes "LENGTH('a) = p + w + 1" "unat a < 2" "unat b < 2 ^ w" "unat c < 2 ^ p"
  shows "unat (push_bit (p + w) a OR push_bit p b OR c) = unat a * 2 ^ (p + w) + unat b * 2 ^ p + unat c"
proof -
  have bp: "unat b < 2 ^ (LENGTH('a) - p)"
    using assms(1,3) by (intro less_le_trans [OF assms(3)] power_increasing) auto
  have bc: "unat (push_bit p b OR c) = unat b * 2 ^ p + unat c"
    using assms by (intro unat_or_push bp) auto
  have "unat b * 2 ^ p + unat c < (unat b + 1) * 2 ^ p" using assms(4) by simp
  also have "\<dots> \<le> 2 ^ w * 2 ^ p" using assms(3) by (intro mult_le_mono1) simp
  finally have "unat (push_bit p b OR c) < 2 ^ (p + w)" by (simp add: bc power_add mult.commute)
  then have "unat (push_bit (p + w) a OR (push_bit p b OR c)) = unat a * 2 ^ (p + w) + unat (push_bit p b OR c)"
    using assms(1,2) by (intro unat_or_push) auto
  then show ?thesis by (simp add: bc)
qed

lemma unat_ucast_fits: "unat (w :: 'a::len word) < 2 ^ LENGTH('b) \<Longrightarrow> unat (ucast w :: 'b::len word) = unat w"
  by (simp add: unsigned_ucast_eq unsigned_take_bit_eq take_bit_nat_eq_self)

lemma unat_eqI: "unat w = n \<Longrightarrow> w = of_nat n"
  by (metis of_nat_unat ucast_id)

lemma pack_eq:
  fixes a b c :: "'a::len word"
  assumes "LENGTH('a) = p + w + 1" "unat a = s" "unat b = E" "unat c = M" "s < 2" "E < 2 ^ w" "M < 2 ^ p"
  shows "push_bit (LENGTH('a) - 1) a OR push_bit p b OR c = of_nat (s * 2 ^ (p + w) + E * 2 ^ p + M)"
  using pack_fields [of p w a b c] assms by (intro unat_eqI) simp

text \<open>The three fields of a binary64.\<close>

abbreviation f64_sign :: "u64 \<Rightarrow> nat" where "f64_sign x \<equiv> unat x div 2 ^ 63"
abbreviation f64_exp :: "u64 \<Rightarrow> nat" where "f64_exp x \<equiv> unat x div 2 ^ 52 mod 2048"
abbreviation f64_mant :: "u64 \<Rightarrow> nat" where "f64_mant x \<equiv> unat x mod 2 ^ 52"

lemma f64_fields:
  "unat (drop_bit 63 x) = f64_sign x" "uint (drop_bit 52 x AND 0x7ff) = int (f64_exp x)"
  "unat (x AND (push_bit 52 1 - 1)) = f64_mant x" "f64_sign (x :: u64) < 2" "f64_exp x < 2048" "f64_mant x < 2 ^ 52"
proof -
  show "unat (drop_bit 63 x) = f64_sign x" by (rule unat_drop)
  have "unat (drop_bit 52 x AND 0x7ff) = f64_exp x"
    using unat_and_low [of "0x7ff" 11 "drop_bit 52 x"] by (simp add: unat_drop)
  then show "uint (drop_bit 52 x AND 0x7ff) = int (f64_exp x)" by (simp only: uint_nat)
  show "unat (x AND (push_bit 52 1 - 1)) = f64_mant x" by (rule unat_and_mask) simp
  show "f64_sign x < 2" using unsigned_less [of x, where 'a = nat] by (simp add: less_mult_imp_div_less)
qed simp_all

text \<open>The two narrowings, with their widths as parameters.\<close>

definition narrow_word :: "nat \<Rightarrow> nat \<Rightarrow> u64 \<Rightarrow> 'a::len word option" where
  "narrow_word p B bits =
     (let sign = push_bit (LENGTH('a) - 1) (ucast (drop_bit 63 bits)); exponent = uint (drop_bit 52 bits AND 0x7ff);
          mantissa = bits AND (push_bit 52 1 - 1) in
      if exponent = 0x7ff then
        (if mantissa AND (push_bit (52 - p) 1 - 1) = 0 then Some (sign OR push_bit p (of_nat (2 * B + 1)) OR ucast (drop_bit (52 - p) mantissa)) else None)
      else if exponent = 0 then (if mantissa = 0 then Some sign else None)
      else (let unbiased = exponent - 1023 in
        if 1 - int B \<le> unbiased \<and> unbiased \<le> int B then
          (if mantissa AND (push_bit (52 - p) 1 - 1) = 0
           then Some (sign OR push_bit p (of_int (unbiased + int B)) OR ucast (drop_bit (52 - p) mantissa)) else None)
        else if 1 - int B - int p \<le> unbiased \<and> unbiased < 1 - int B then
          (let significand = push_bit 52 1 OR mantissa; shift = nat (52 - (unbiased + (int B + int p - 1))) in
           if significand AND (push_bit shift 1 - 1) = 0 then Some (sign OR ucast (drop_bit shift significand)) else None)
        else None))"

lemma f16_bits_word: "f16_bits = narrow_word 10 15"
  by (rule ext) (simp add: f16_bits_def narrow_word_def Let_def)

lemma f32_bits_word: "f32_bits = narrow_word 23 127"
  by (rule ext) (simp add: f32_bits_def narrow_word_def Let_def)

lemma narrow_word_narrow:
  assumes len: "LENGTH('a) = p + w + 1" "2 * B + 1 < 2 ^ w" "p \<le> 52" "B < 1023" "B + p < 1024" "1 \<le> B" "p + w < 64"
  shows "(narrow_word p B x :: 'a::len word option) =
    map_option (\<lambda>(E, M). of_nat (f64_sign x * 2 ^ (p + w) + E * 2 ^ p + M)) (narrow p B (f64_exp x) (f64_mant x))"
proof -
  define e m where "e = f64_exp x" and "m = x AND (push_bit 52 1 - 1)"
  define mm ss where "mm = f64_mant x" and "ss = f64_sign x"
  define sg where "sg = (ucast (drop_bit 63 x) :: 'a word)"
  have m: "unat m = mm" "mm < 2 ^ 52" using f64_fields [of x] by (simp_all add: m_def mm_def)
  have "(2::nat) ^ 1 \<le> 2 ^ LENGTH('a)" by (intro power_increasing) (simp_all add: len(1))
  then have s: "unat sg = ss" "ss < 2"
    using f64_fields(1,4) [of x] unat_ucast_fits [of "drop_bit 63 x", where 'b = 'a] by (simp_all add: sg_def ss_def)
  have z: "v AND (push_bit k 1 - 1) = 0 \<longleftrightarrow> unat v mod 2 ^ k = 0" if "k < 64" for k and v :: u64
    using unat_and_mask [of k v] that by (simp add: word_unat_eq_iff)
  have d: "unat (ucast (drop_bit k v) :: 'a word) = unat v div 2 ^ k" if "unat v div 2 ^ k < 2 ^ p" for k and v :: u64
  proof -
    have "unat v div 2 ^ k < 2 ^ LENGTH('a)" using len(1) by (intro less_le_trans [OF that] power_increasing) auto
    then show ?thesis using unat_ucast_fits [of "drop_bit k v", where 'b = 'a] by (simp add: unat_drop)
  qed
  have n: "unat (of_nat k :: 'a word) = k" if "k < 2 ^ w" for k
  proof -
    have "k < 2 ^ LENGTH('a)" using len(1) by (intro less_le_trans [OF that] power_increasing) auto
    then show ?thesis by (simp add: unsigned_of_nat take_bit_nat_eq_self)
  qed
  have top: "mm div 2 ^ (52 - p) < 2 ^ p"
    using power_split [OF len(3)] m(2) by (simp add: less_mult_imp_div_less)
  have p52: "52 - p < 64" by simp
  have pk: "push_bit (LENGTH('a) - 1) sg OR push_bit p (of_nat E) OR c = of_nat (ss * 2 ^ (p + w) + E * 2 ^ p + unat c)"
    if "E < 2 ^ w" "unat c < 2 ^ p" for E and c :: "'a word"
    using that by (intro pack_eq [OF len(1) s(1) n [OF that(1)] refl s(2)]) simp_all
  have ex: "uint (drop_bit 52 x AND 0x7ff) = int e" using f64_fields(2) [of x] by (simp add: e_def)
  define sig where "sig = push_bit 52 1 OR m"
  have w: "(narrow_word p B x :: 'a word option) =
     (if e = 2047 then (if unat m mod 2 ^ (52 - p) = 0 then Some (push_bit (LENGTH('a) - 1) sg OR push_bit p (of_nat (2 * B + 1)) OR ucast (drop_bit (52 - p) m)) else None)
      else if e = 0 then (if m = 0 then Some (push_bit (LENGTH('a) - 1) sg) else None)
      else if 1024 \<le> e + B \<and> e \<le> 1023 + B then
        (if unat m mod 2 ^ (52 - p) = 0 then Some (push_bit (LENGTH('a) - 1) sg OR push_bit p (of_nat (e + B - 1023)) OR ucast (drop_bit (52 - p) m)) else None)
      else if 1024 \<le> e + B + p \<and> e + B < 1024 then
        (if unat (sig) mod 2 ^ (1076 - (e + B + p)) = 0
         then Some (push_bit (LENGTH('a) - 1) sg OR ucast (drop_bit (1076 - (e + B + p)) (sig))) else None)
      else None)"
  proof -
    have c: "int e = 0x7ff \<longleftrightarrow> e = 2047" "int e = 0 \<longleftrightarrow> e = 0"
      "1 - int B \<le> int e - 1023 \<and> int e - 1023 \<le> int B \<longleftrightarrow> 1024 \<le> e + B \<and> e \<le> 1023 + B"
      "1 - int B - int p \<le> int e - 1023 \<and> int e - 1023 < 1 - int B \<longleftrightarrow> 1024 \<le> e + B + p \<and> e + B < 1024" by linarith+
    have v: "int e - 1023 + int B = int (e + B - 1023)" if "1024 \<le> e + B" using that by simp
    have v2: "nat (52 - (int e - 1023 + (int B + int p - 1))) = 1076 - (e + B + p)" by simp
    have sh: "1076 - (e + B + p) < 64" if "1024 \<le> e + B + p" using that by simp
    show ?thesis
      unfolding narrow_word_def Let_def ex c v2 m_def [symmetric] sig_def [symmetric] sg_def [symmetric] z [OF p52]
      by (simp only: v z [OF sh] of_int_of_nat_eq cong: if_cong conj_cong)
  qed
  consider "e = 2047" | "e \<noteq> 2047" "e = 0" | "e \<noteq> 2047" "e \<noteq> 0" "1024 \<le> e + B \<and> e \<le> 1023 + B"
    | "e \<noteq> 2047" "e \<noteq> 0" "\<not> (1024 \<le> e + B \<and> e \<le> 1023 + B)" "1024 \<le> e + B + p \<and> e + B < 1024"
    | "e \<noteq> 2047" "e \<noteq> 0" "\<not> (1024 \<le> e + B \<and> e \<le> 1023 + B)" "\<not> (1024 \<le> e + B + p \<and> e + B < 1024)" by blast
  then have "narrow_word p B x = map_option (\<lambda>(E, M). of_nat (ss * 2 ^ (p + w) + E * 2 ^ p + M) :: 'a word) (narrow p B e mm)"
  proof cases
    case 1
    then show ?thesis using pk [OF len(2), of "ucast (drop_bit (52 - p) m)"] d [of m "52 - p"] top
      by (simp add: w narrow_def m(1) distrib_right)
  next
    case 2
    have "m = 0 \<longleftrightarrow> mm = 0" using m(1) by (simp add: word_unat_eq_iff)
    then show ?thesis using 2 pk [of 0 0] by (simp add: w narrow_def)
  next
    case 3
    then have "e + B - 1023 < 2 ^ w" using len(2) by linarith
    then show ?thesis using 3 pk [of "e + B - 1023" "ucast (drop_bit (52 - p) m)"] d [of m "52 - p"] top
      by (simp add: w narrow_def m(1))
  next
    case 4
    define k where "k = e + B + p - 1024"
    define q where "q = 2 ^ 52 + mm"
    have sig: "unat sig = q" using unat_or_push [of m 52 1] m unfolding sig_def q_def by simp
    have k: "1076 - (e + B + p) = 52 - k" "k < p" using 4 len(3) by (auto simp: k_def)
    have "q < 2 ^ Suc k * 2 ^ (52 - k)" using power_split [of k 52] k(2) len(3) m(2) by (simp add: q_def)
    then have "q div 2 ^ (52 - k) < 2 ^ Suc k" by (rule less_mult_imp_div_less)
    also have "\<dots> \<le> 2 ^ p" using k(2) by (intro power_increasing) auto
    finally have sm: "unat (ucast (drop_bit (52 - k) sig) :: 'a word) = q div 2 ^ (52 - k)" "q div 2 ^ (52 - k) < 2 ^ p"
      using d [of sig "52 - k"] by (simp_all add: sig)
    have "narrow_word p B x = (if q mod 2 ^ (52 - k) = 0 then Some (push_bit (LENGTH('a) - 1) sg OR ucast (drop_bit (52 - k) sig) :: 'a word) else None)"
      using 4 by (simp only: w sig k(1) if_False if_True conj_commute simp_thms)
    moreover have "narrow p B e mm = (if q mod 2 ^ (52 - k) = 0 then Some (0, q div 2 ^ (52 - k)) else None)"
      using 4 by (simp only: narrow_def k(1) q_def if_False if_True simp_thms)
    moreover have "push_bit (LENGTH('a) - 1) sg OR ucast (drop_bit (52 - k) sig) = (of_nat (ss * 2 ^ (p + w) + 0 * 2 ^ p + q div 2 ^ (52 - k)) :: 'a word)"
      using pk [of 0 "ucast (drop_bit (52 - k) sig)"] sm by simp
    ultimately show ?thesis by (cases "q mod 2 ^ (52 - k) = 0") (simp_all only: option.map prod.case simp_thms if_True if_False)
  next
    case 5
    then show ?thesis by (simp only: w narrow_def if_False option.map)
  qed
  then show ?thesis by (simp only: e_def mm_def ss_def)
qed

text \<open>The widenings, likewise.\<close>

definition widen_word :: "nat \<Rightarrow> nat \<Rightarrow> nat \<Rightarrow> 'a::len word \<Rightarrow> u64" where
  "widen_word p w B h =
     (let sign = push_bit 63 (ucast (drop_bit (p + w) h)); exponent = ucast (drop_bit p h AND (push_bit w 1 - 1)) :: u64;
          mantissa = ucast (h AND (push_bit p 1 - 1)) in
      if exponent = 0 then
        (if mantissa = 0 then sign
         else (let shift = leading_zeros mantissa - (63 - p); normalized = push_bit shift mantissa AND (push_bit p 1 - 1) in
           sign OR push_bit 52 (1023 - of_nat B + 1 - of_nat shift) OR push_bit (52 - p) normalized))
      else if exponent = of_nat (2 * B + 1) then sign OR push_bit 52 0x7ff OR push_bit (52 - p) mantissa
      else sign OR push_bit 52 (exponent + 1023 - of_nat B) OR push_bit (52 - p) mantissa)"

lemma f16_to_f64_word: "f16_to_f64 = widen_word 10 5 15"
  by (rule ext) (simp add: f16_to_f64_def widen_word_def Let_def)

definition quieten :: "u32 \<Rightarrow> u32" where
  "quieten x = (if drop_bit 23 x AND 0xff = 255 \<and> x AND 0x7fffff \<noteq> 0 then x OR push_bit 22 1 else x)"

lemma f64_unpack:
  assumes "s < 2" "e < 2048" "m < 2 ^ 52" "unat (x :: u64) = s * 2 ^ 63 + e * 2 ^ 52 + m"
  shows "f64_sign x = s" "f64_exp x = e" "f64_mant x = m"
proof -
  have "e * 2 ^ 52 + m < 2 ^ 63" using assms(2,3) by simp
  then have "(s * 2 ^ 63 + (e * 2 ^ 52 + m)) div 2 ^ 63 = s" by simp
  then show "f64_sign x = s" by (simp add: assms(4) add.assoc)
  have d: "(s * 2 ^ 63 + e * 2 ^ 52 + m) = (s * 2048 + e) * 2 ^ 52 + m" by simp
  have "((s * 2048 + e) * 2 ^ 52 + m) div 2 ^ 52 = s * 2048 + e" "((s * 2048 + e) * 2 ^ 52 + m) mod 2 ^ 52 = m"
    using assms(3) by (simp_all only: div_mult_add mod_mult_add mult.commute [of _ "2 ^ 52"])
  then show "f64_exp x = e" "f64_mant x = m" using assms(2) by (simp_all only: assms(4) d) simp
qed

lemma widens_fun: "widens p B E M e m \<Longrightarrow> widens p B E M e' m' \<Longrightarrow> e = e' \<and> m = m'"
proof (cases "E = 0 \<and> M \<noteq> 0")
  case True
  assume "widens p B E M e m" "widens p B E M e' m'"
  then obtain k k' where k: "2 ^ k \<le> M" "M < 2 ^ Suc k" "e = 1024 + k - B - p" "m = (M - 2 ^ k) * 2 ^ (52 - k)"
      "2 ^ k' \<le> M" "M < 2 ^ Suc k'" "e' = 1024 + k' - B - p" "m' = (M - 2 ^ k') * 2 ^ (52 - k')"
    using True by (auto simp: widens_def)
  have "k = k'" by (rule power_bracket [OF k(1,2,5,6)])
  then show ?thesis using k by simp
qed (auto simp: widens_def split: if_splits)

lemma widen_word_widens:
  fixes h :: "'a::len word"
  assumes len: "LENGTH('a) = p + w + 1" "2 * B + 1 < 2 ^ w" "2 ^ w \<le> 2 * B + 2" "p \<le> 52" "B < 1023" "B + p < 1024" "1 \<le> B" "p + w < 64" "1 \<le> w"
  shows "\<exists>e m. unat (widen_word p w B h) = unat h div 2 ^ (p + w) * 2 ^ 63 + e * 2 ^ 52 + m \<and> e < 2048 \<and> m < 2 ^ 52 \<and>
    unat h div 2 ^ (p + w) < 2 \<and> widens p B (unat h div 2 ^ p mod 2 ^ w) (unat h mod 2 ^ p) e m"
proof -
  define S E M where "S = unat h div 2 ^ (p + w)" and "E = unat h div 2 ^ p mod 2 ^ w" and "M = unat h mod 2 ^ p"
  define sg where "sg = (ucast (drop_bit (p + w) h) :: u64)"
  define ex where "ex = (ucast (drop_bit p h AND (push_bit w 1 - 1)) :: u64)"
  define mt where "mt = (ucast (h AND (push_bit p 1 - 1)) :: u64)"
  have b: "S < 2" "E < 2 ^ w" "M < 2 ^ p"
  proof -
    have "unat h < 2 * 2 ^ (p + w)" using unsigned_less [of h, where 'a = nat] len(1) by simp
    then show "S < 2" unfolding S_def by (rule less_mult_imp_div_less)
  qed (simp_all add: E_def M_def)
  have pow: "(2::nat) ^ w \<le> 2 ^ 63" "(2::nat) ^ p \<le> 2 ^ 52" using len(4,8) by (intro power_increasing; simp)+
  have lt: "E < 2 ^ 64" "M < 2 ^ 64" using b pow by simp_all
  have sg: "unat sg = S" using unat_ucast_fits [of "drop_bit (p + w) h", where 'b = 64] b(1) by (simp add: sg_def S_def unat_drop)
  have ex: "unat ex = E"
    using unat_ucast_fits [of "drop_bit p h AND (push_bit w 1 - 1)", where 'b = 64] unat_and_mask [of w "drop_bit p h"] lt(1) len(1)
    by (simp add: ex_def E_def unat_drop)
  have mt: "unat mt = M"
    using unat_ucast_fits [of "h AND (push_bit p 1 - 1)", where 'b = 64] unat_and_mask [of p h] lt(2) len(1)
    by (simp add: mt_def M_def)
  have c: "ex = 0 \<longleftrightarrow> E = 0" "mt = 0 \<longleftrightarrow> M = 0" "ex = of_nat (2 * B + 1) \<longleftrightarrow> E = 2 * B + 1"
  proof -
    have "unat (of_nat (2 * B + 1) :: u64) = 2 * B + 1" using len(5) by (intro unat_of_nat_64) simp
    then show "ex = 0 \<longleftrightarrow> E = 0" "mt = 0 \<longleftrightarrow> M = 0" "ex = of_nat (2 * B + 1) \<longleftrightarrow> E = 2 * B + 1"
      using ex mt by (simp_all only: word_unat_eq_iff unsigned_0)
  qed
  have pk: "unat (push_bit 63 sg OR push_bit 52 e' OR m') = S * 2 ^ 63 + e * 2 ^ 52 + m"
    if "unat e' = e" "unat m' = m" "e < 2048" "m < 2 ^ 52" for e' m' e m
    using pack_fields [of 52 11 sg e' m'] that b(1) sg by simp
  have push: "unat (push_bit k v) = unat v * 2 ^ k" if "unat v * 2 ^ k < 2 ^ 64" "k < 64" for k and v :: u64
  proof -
    have "unat v * 2 ^ k < 2 ^ (64 - k) * 2 ^ k" using that power_split [of k 64] by (simp add: mult.commute)
    then show ?thesis using unat_or_push [of 0 k v] that(2) by simp
  qed
  have wide: "unat (push_bit (52 - p) v) = unat v * 2 ^ (52 - p) \<and> unat v * 2 ^ (52 - p) < 2 ^ 52" if "unat v < 2 ^ p" for v :: u64
  proof -
    have "unat v * 2 ^ (52 - p) < 2 ^ p * 2 ^ (52 - p)" using that by simp
    then have "unat v * 2 ^ (52 - p) < 2 ^ 52" using power_split [OF len(4)] by simp
    then show ?thesis by (simp add: push)
  qed
  have W: "widen_word p w B h =
     (if E = 0 then
        (if M = 0 then push_bit 63 sg
         else push_bit 63 sg OR push_bit 52 (1023 - of_nat B + 1 - of_nat (leading_zeros mt - (63 - p))) OR
           push_bit (52 - p) (push_bit (leading_zeros mt - (63 - p)) mt AND (push_bit p 1 - 1)))
      else if E = 2 * B + 1 then push_bit 63 sg OR push_bit 52 0x7ff OR push_bit (52 - p) mt
      else push_bit 63 sg OR push_bit 52 (ex + 1023 - of_nat B) OR push_bit (52 - p) mt)"
    unfolding widen_word_def Let_def sg_def [symmetric] ex_def [symmetric] mt_def [symmetric] c ..
  have goal: ?thesis if "unat (widen_word p w B h) = S * 2 ^ 63 + e * 2 ^ 52 + m" "e < 2048" "m < 2 ^ 52" "widens p B E M e m" for e m
    using that b(1) unfolding S_def E_def M_def by blast
  consider "E = 0" "M = 0" | "E = 0" "M \<noteq> 0" | "E = 2 * B + 1" | "E \<noteq> 0" "E \<noteq> 2 * B + 1" by (cases "E = 0") auto
  then show ?thesis
  proof cases
    case 1
    then show ?thesis using pk [of 0 0 0 0] by (intro goal [of 0 0]) (simp_all add: W widens_def)
  next
    case 2
    define k where "k = 64 - 1 - leading_zeros mt"
    have "mt \<noteq> 0" using 2 c by simp
    then have k: "2 ^ k \<le> M" "M < 2 ^ Suc k" "leading_zeros mt = 63 - k" "k < 64"
      using top_bit [of mt] leading_zeros_lt [of mt] by (simp_all add: k_def mt)
    have "(2::nat) ^ k < 2 ^ p" using k(1) b(3) by (rule le_less_trans)
    then have kp: "k < p" by simp
    have sh: "leading_zeros mt - (63 - p) = p - k" using k(3,4) kp len(4) by simp
    let ?n = "push_bit (p - k) mt AND (push_bit p 1 - 1)"
    have kk: "(2::nat) ^ k * 2 ^ (p - k) = 2 ^ p" using power_split [of k p] kp by simp
    have "M * 2 ^ (p - k) < 2 ^ Suc k * 2 ^ (p - k)" using k(2) by (rule mult_less_mono1) simp
    also have "2 ^ Suc k * 2 ^ (p - k) = 2 * (2::nat) ^ p" using kk by (simp add: mult.assoc)
    finally have lt2: "M * 2 ^ (p - k) < 2 * 2 ^ p" .
    then have "unat (push_bit (p - k) mt) = M * 2 ^ (p - k)" using pow(2) kp len(4) by (subst push) (simp_all add: mt)
    then have n0: "unat ?n = M * 2 ^ (p - k) mod 2 ^ p" using unat_and_mask [of p "push_bit (p - k) mt"] len(4) by simp
    have ge: "2 ^ p \<le> M * 2 ^ (p - k)" using mult_le_mono1 [OF k(1), of "2 ^ (p - k)"] kk by simp
    have "M * 2 ^ (p - k) mod 2 ^ p = (M * 2 ^ (p - k) - 2 ^ p) mod 2 ^ p" using ge by (rule le_mod_geq)
    also have "\<dots> = M * 2 ^ (p - k) - 2 ^ p" using lt2 by (intro mod_less) linarith
    also have "\<dots> = (M - 2 ^ k) * 2 ^ (p - k)" using kk by (simp add: diff_mult_distrib)
    finally have n: "unat ?n = (M - 2 ^ k) * 2 ^ (p - k)" by (simp only: n0)
    have nb: "unat ?n < 2 ^ p" by (simp only: n0 mod_less_divisor zero_less_power zero_less_numeral)
    have ew: "unat (1023 - of_nat B + 1 - of_nat (p - k) :: u64) = 1024 + k - B - p"
    proof -
      have "(1023 - of_nat B + 1 - of_nat (p - k) :: u64) = of_nat (1024 - B - (p - k))" using len(5,6) by (simp add: of_nat_diff)
      moreover have "1024 - B - (p - k) = 1024 + k - B - p" using kp by simp
      moreover have "1024 + k - B - p < 2 ^ 64" using k(4) by simp
      ultimately show ?thesis by (simp only: unat_of_nat_64)
    qed
    have "(M - 2 ^ k) * 2 ^ (p - k) * 2 ^ (52 - p) = (M - 2 ^ k) * 2 ^ (52 - k)"
      using kp len(4) by (simp add: mult.assoc flip: power_add)
    then have m': "unat (push_bit (52 - p) ?n) = (M - 2 ^ k) * 2 ^ (52 - k)" "(M - 2 ^ k) * 2 ^ (52 - k) < 2 ^ 52"
      using wide [OF nb] by (simp_all only: n)
    have e': "1024 + k - B - p < 2048" using kp by linarith
    have "widen_word p w B h = push_bit 63 sg OR push_bit 52 (1023 - of_nat B + 1 - of_nat (p - k)) OR push_bit (52 - p) ?n"
      using 2 by (simp only: W sh if_True if_False simp_thms)
    then have "unat (widen_word p w B h) = S * 2 ^ 63 + (1024 + k - B - p) * 2 ^ 52 + (M - 2 ^ k) * 2 ^ (52 - k)"
      by (simp only: pk [OF ew m'(1) e' m'(2)])
    moreover have "widens p B E M (1024 + k - B - p) ((M - 2 ^ k) * 2 ^ (52 - k))"
      unfolding widens_def using 2 k(1,2) by auto
    ultimately show ?thesis by (rule goal [OF _ e' m'(2)])
  next
    case 3
    then show ?thesis using pk [of "0x7ff" 2047 "push_bit (52 - p) mt" "M * 2 ^ (52 - p)"] wide [of mt] b(3)
      by (intro goal [of 2047 "M * 2 ^ (52 - p)"]) (simp_all add: W widens_def mt)
  next
    case 4
    have "ex + 1023 - of_nat B = of_nat (E + 1023 - B)" using len(5) ex unat_eqI [OF ex] by (simp add: of_nat_diff)
    moreover have "E + 1023 - B < 2048" using b(2) len(3,5) 4(2) by linarith
    moreover have "E + 1023 - B < 2 ^ 64" using calculation(2) by simp
    ultimately have "unat (ex + 1023 - of_nat B) = E + 1023 - B" "E + 1023 - B < 2048" by (simp_all only: unat_of_nat_64)
    then show ?thesis using 4 pk [of "ex + 1023 - of_nat B" "E + 1023 - B" "push_bit (52 - p) mt" "M * 2 ^ (52 - p)"] wide [of mt] b(3)
      by (intro goal [of "E + 1023 - B" "M * 2 ^ (52 - p)"]) (simp_all add: W widens_def mt)
  qed
qed

text \<open>The fields of the narrow words.\<close>

lemma narrow_fields:
  fixes h :: "'a::len word"
  assumes "LENGTH('a) = p + w + 1" "unat h = S * 2 ^ (p + w) + E * 2 ^ p + M" "S < 2" "E < 2 ^ w" "M < 2 ^ p"
  shows "unat h div 2 ^ (p + w) = S \<and> unat h div 2 ^ p mod 2 ^ w = E \<and> unat h mod 2 ^ p = M"
proof -
  have e: "unat h = (S * 2 ^ w + E) * 2 ^ p + M" by (simp add: assms(2) power_add distrib_right)
  then have d: "unat h div 2 ^ p = S * 2 ^ w + E" "unat h mod 2 ^ p = M" using assms(5) by simp_all
  have "unat h div 2 ^ (p + w) = unat h div 2 ^ p div 2 ^ w" by (simp add: power_add div_mult2_eq)
  then show ?thesis using d assms(4) by simp
qed

lemma fields_sum: "u div 2 ^ (p + w) * 2 ^ (p + w) + u div 2 ^ p mod 2 ^ w * 2 ^ p + u mod 2 ^ p = (u :: nat)"
proof -
  define q where "q = u div 2 ^ p"
  have "u div 2 ^ (p + w) = q div 2 ^ w" by (simp add: q_def power_add div_mult2_eq)
  moreover have "q div 2 ^ w * 2 ^ (p + w) + q mod 2 ^ w * 2 ^ p = (q div 2 ^ w * 2 ^ w + q mod 2 ^ w) * 2 ^ p"
    by (simp only: power_add distrib_right mult.assoc mult.commute [of "2 ^ p" "2 ^ w"])
  ultimately show ?thesis by (simp only: q_def [symmetric] div_mult_mod_eq) (simp only: q_def div_mult_mod_eq)
qed

lemma word_of_fields:
  fixes h :: "'a::len word"
  shows "of_nat (unat h div 2 ^ (p + w) * 2 ^ (p + w) + unat h div 2 ^ p mod 2 ^ w * 2 ^ p + unat h mod 2 ^ p) = h"
  unfolding fields_sum by simp

lemma narrow_widen_word:
  fixes h :: "'a::len word"
  assumes len: "LENGTH('a) = p + w + 1" "2 * B + 1 < 2 ^ w" "2 ^ w \<le> 2 * B + 2" "p \<le> 52" "B < 1023" "B + p < 1024" "1 \<le> B" "p + w < 64" "1 \<le> w"
  shows "narrow_word p B (widen_word p w B h) = Some h"
proof -
  obtain e m where u: "unat (widen_word p w B h) = unat h div 2 ^ (p + w) * 2 ^ 63 + e * 2 ^ 52 + m" "e < 2048" "m < 2 ^ 52"
      "unat h div 2 ^ (p + w) < 2" "widens p B (unat h div 2 ^ p mod 2 ^ w) (unat h mod 2 ^ p) e m"
    using widen_word_widens [OF len, of h] by blast
  have "unat h div 2 ^ p mod 2 ^ w < 2 ^ w" by simp
  then have b: "unat h div 2 ^ p mod 2 ^ w \<le> 2 * B + 1" using len(3) by linarith
  show ?thesis
    using narrow_widens [OF u(5) b _ len(7,6,4,5)] word_of_fields [of h p w]
    by (simp only: narrow_word_narrow [OF len(1,2,4,5,6,7,8)] f64_unpack [OF u(4,2,3,1)]) simp
qed

lemma widen_narrow_word:
  fixes h :: "'a::len word"
  assumes len: "LENGTH('a) = p + w + 1" "2 * B + 1 < 2 ^ w" "2 ^ w \<le> 2 * B + 2" "p \<le> 52" "B < 1023" "B + p < 1024" "1 \<le> B" "p + w < 64" "1 \<le> w"
    and h: "narrow_word p B x = Some h"
  shows "widen_word p w B h = x"
proof -
  obtain E M where n: "narrow p B (f64_exp x) (f64_mant x) = Some (E, M)" and hh: "h = of_nat (f64_sign x * 2 ^ (p + w) + E * 2 ^ p + M)"
    using h by (auto simp: narrow_word_narrow [OF len(1,2,4,5,6,7,8)])
  have g: "E \<le> 2 * B + 1" "M < 2 ^ p" "widens p B E M (f64_exp x) (f64_mant x)"
    using widens_narrow [OF n f64_fields(6) len(7,6,4,5)] by blast+
  have "f64_sign x * 2 ^ (p + w) + E * 2 ^ p + M < 2 ^ LENGTH('a)"
  proof -
    have "E * 2 ^ p + M < (E + 1) * 2 ^ p" using g(2) by simp
    also have "\<dots> \<le> 2 ^ w * 2 ^ p" using g(1) len(2) by (intro mult_le_mono1) simp
    finally have "E * 2 ^ p + M < 2 ^ (p + w)" by (simp add: power_add mult.commute)
    moreover have "f64_sign x * 2 ^ (p + w) \<le> 1 * 2 ^ (p + w)" using f64_fields(4) [of x] by (intro mult_le_mono1) simp
    ultimately have "f64_sign x * 2 ^ (p + w) + E * 2 ^ p + M < 2 * 2 ^ (p + w)" by linarith
    then show ?thesis by (simp only: len(1) power_add power_one_right mult.commute)
  qed
  then have "unat h = f64_sign x * 2 ^ (p + w) + E * 2 ^ p + M" by (simp only: hh unsigned_of_nat take_bit_nat_eq_self of_nat_id)
  then have f: "unat h div 2 ^ (p + w) = f64_sign x" "unat h div 2 ^ p mod 2 ^ w = E" "unat h mod 2 ^ p = M"
    using narrow_fields [OF len(1), of h "f64_sign x" E M] f64_fields(4) [of x] g len(2) by auto
  obtain e m where u: "unat (widen_word p w B h) = f64_sign x * 2 ^ 63 + e * 2 ^ 52 + m" "e < 2048" "m < 2 ^ 52" "widens p B E M e m"
    using widen_word_widens [OF len, of h] by (simp only: f) blast
  have "e = f64_exp x" "m = f64_mant x" using widens_fun [OF u(4) g(3)] by simp_all
  then have "unat (widen_word p w B h) = unat x" using fields_sum [of "unat x" 52 11] u(1) by simp
  then show ?thesis by (simp add: word_unat_eq_iff)
qed

section \<open>The code's conversions\<close>

lemma f16_round: "f16_bits x = Some h \<Longrightarrow> f16_to_f64 h = x" "f16_bits (f16_to_f64 h) = Some h"
  using widen_narrow_word [of 10 5 15 x h] narrow_widen_word [of 10 5 15 h] by (simp_all add: f16_bits_word f16_to_f64_word)

lemma quiet_bit_aux:
  fixes x q :: u32 and r :: u64
  assumes "\<And>n. bit q n \<longleftrightarrow> n = 22" "\<And>n. bit r n \<longleftrightarrow> n = 22"
  shows "drop_bit 31 (x OR q) = drop_bit 31 x" "drop_bit 23 (x OR q) AND 0xff = drop_bit 23 x AND 0xff"
    "(ucast ((x OR q) AND 0x7fffff) :: u64) = ucast (x AND 0x7fffff) OR r"
proof -
  have m: "(0xff :: u32) = mask 8" "(0x7fffff :: u32) = mask 23" by (simp_all add: mask_eq_exp_minus_1)
  show "drop_bit 31 (x OR q) = drop_bit 31 x" by (rule bit_eqI) (auto simp: bit_simps assms)
  show "drop_bit 23 (x OR q) AND 0xff = drop_bit 23 x AND 0xff"
    unfolding m by (rule bit_eqI) (auto simp: bit_simps assms)
  show "(ucast ((x OR q) AND 0x7fffff) :: u64) = ucast (x AND 0x7fffff) OR r"
    unfolding m by (rule bit_eqI) (auto simp: bit_simps assms)
qed

lemma bit_22: "22 < LENGTH('a) \<Longrightarrow> bit (push_bit 22 1 :: 'a::len word) n \<longleftrightarrow> n = 22"
  by (auto simp: bit_push_bit_iff bit_1_iff simp del: push_bit_of_1)

lemma quiet_bit:
  fixes x :: u32
  shows "drop_bit 31 (x OR push_bit 22 1) = drop_bit 31 x" "drop_bit 23 (x OR push_bit 22 1) AND 0xff = drop_bit 23 x AND 0xff"
    "(ucast ((x OR push_bit 22 1) AND 0x7fffff) :: u64) = ucast (x AND 0x7fffff) OR push_bit 22 1"
  by (rule quiet_bit_aux; rule bit_22; simp)+

lemma ucast_eq_iff_64: "(ucast (a :: u32) :: u64) = ucast b \<longleftrightarrow> a = b"
  using unat_ucast_fits [of a, where 'b = 64] unat_ucast_fits [of b, where 'b = 64] unsigned_less [of a, where 'a = nat] unsigned_less [of b, where 'a = nat]
  by (simp add: word_unat_eq_iff)

lemma f32_to_f64_word: "f32_to_f64 x = widen_word 23 8 127 (quieten x)"
proof -
  have e: "(ucast (drop_bit 23 x AND 0xff) :: u64) = 255 \<longleftrightarrow> drop_bit 23 x AND 0xff = 255"
    "(ucast (x AND 0x7fffff) :: u64) = 0 \<longleftrightarrow> x AND 0x7fffff = 0"
    using ucast_eq_iff_64 [of "drop_bit 23 x AND 0xff" 255] ucast_eq_iff_64 [of "x AND 0x7fffff" 0] by simp_all
  have w: "widen_word 23 8 127 y = (let sign = push_bit 63 (ucast (drop_bit 31 y)); exponent = ucast (drop_bit 23 y AND 0xff) :: u64;
          mantissa = ucast (y AND 0x7fffff) in
      if exponent = 0 then
        (if mantissa = 0 then sign
         else (let shift = leading_zeros mantissa - 40; normalized = push_bit shift mantissa AND 0x7fffff in
           sign OR push_bit 52 (1023 - 127 + 1 - of_nat shift) OR push_bit 29 normalized))
      else if exponent = 255 then sign OR push_bit 52 0x7ff OR push_bit 29 mantissa
      else sign OR push_bit 52 (exponent + 1023 - 127) OR push_bit 29 mantissa)" for y :: u32
    by (simp add: widen_word_def Let_def)
  show ?thesis
  proof (cases "drop_bit 23 x AND 0xff = 255 \<and> x AND 0x7fffff \<noteq> 0")
    case True
    then have q: "quieten x = x OR push_bit 22 1" by (simp only: quieten_def if_True simp_thms)
    have e2: "(ucast (drop_bit 23 x AND 0xff) :: u64) = 255" "(ucast (x AND 0x7fffff) :: u64) \<noteq> 0" using e True by blast+
    have n: "(255 :: u64) \<noteq> 0" by simp
    show ?thesis unfolding q w f32_to_f64_def Let_def quiet_bit e2(1) using e2(2) n by (simp only: if_True if_False simp_thms)
  next
    case False
    then have q: "quieten x = x" by (simp only: quieten_def if_False)
    show ?thesis unfolding q w f32_to_f64_def Let_def using False e by (simp cong: if_cong)
  qed
qed

definition signalling32 :: "u32 \<Rightarrow> bool" where
  "signalling32 x \<longleftrightarrow> quieten x \<noteq> x"

lemma f32_round:
  "f32_bits x = Some s \<Longrightarrow> \<not> signalling32 s \<Longrightarrow> f32_to_f64 s = x"
  "\<not> signalling32 s \<Longrightarrow> f32_bits (f32_to_f64 s) = Some s"
  using widen_narrow_word [of 23 8 127 x s] narrow_widen_word [of 23 8 127 s]
  by (simp_all add: f32_bits_word f32_to_f64_word signalling32_def)

definition float_bytes :: "u64 \<Rightarrow> bytes" where
  "float_bytes x = (case float_item x of (bs, n) \<Rightarrow> take n bs)"

lemma float_bytes_cases:
  "float_bytes x = (case f16_bits x of Some half \<Rightarrow> 0xf9 # be_bytes 2 half
     | None \<Rightarrow> (case f32_bits x of Some single \<Rightarrow> 0xfa # be_bytes 4 single | None \<Rightarrow> 0xfb # be_bytes 8 x))"
  by (simp add: float_bytes_def float_item_def split: option.split)

text \<open>The widening of a binary32 that keeps every payload bit; off the signalling NaNs it is the conversion.\<close>

definition widen32 :: "u32 \<Rightarrow> u64" where
  "widen32 = widen_word 23 8 127"

lemma widen32_quiet: "\<not> signalling32 s \<Longrightarrow> f32_to_f64 s = widen32 s"
  by (simp add: f32_to_f64_word signalling32_def widen32_def)

lemma widen32_round: "f32_bits x = Some s \<longleftrightarrow> widen32 s = x"
  using widen_narrow_word [of 23 8 127 x s] narrow_widen_word [of 23 8 127 s] by (auto simp: f32_bits_word widen32_def)

lemma f16_exact: "f16_bits x = Some h \<longleftrightarrow> f16_to_f64 h = x"
  using f16_round by blast

text \<open>C26: The encoder writes a binary64 in the shortest float that keeps every bit of it (subnormals,
  infinities, NaN payloads and signed zeros included): as the binary16 that widens to it when there is one,
  else as the binary32 that does, else in full, with the head byte and the length of that width. The
  widening of a binary32 is the conversion back for every pattern but the signalling NaNs, which that
  conversion quietens.\<close>

theorem floats_narrow_exactly:
  "(\<forall>h. f16_to_f64 h = x \<longrightarrow> float_item x = (0xf9 # be_bytes 2 h @ replicate 6 0, 3)) \<and>
   ((\<forall>h. f16_to_f64 h \<noteq> x) \<longrightarrow> (\<forall>s. widen32 s = x \<longrightarrow> float_item x = (0xfa # be_bytes 4 s @ replicate 4 0, 5))) \<and>
   ((\<forall>h. f16_to_f64 h \<noteq> x) \<and> (\<forall>s. widen32 s \<noteq> x) \<longrightarrow> float_item x = (0xfb # be_bytes 8 x, 9)) \<and>
   (\<forall>s. \<not> signalling32 s \<longrightarrow> f32_to_f64 s = widen32 s)"
proof -
  have none: "f16_bits x = None \<longleftrightarrow> (\<forall>h. f16_to_f64 h \<noteq> x)" "f32_bits x = None \<longleftrightarrow> (\<forall>s. widen32 s \<noteq> x)"
    using f16_exact [of x] widen32_round [of x] by (metis option.exhaust option.distinct(1))+
  have half: "float_item x = (0xf9 # be_bytes 2 h @ replicate 6 0, 3)" if "f16_to_f64 h = x" for h
    using that by (simp add: float_item_def flip: f16_exact)
  have single: "float_item x = (0xfa # be_bytes 4 s @ replicate 4 0, 5)" if "f16_bits x = None" "widen32 s = x" for s
    using that by (simp add: float_item_def flip: widen32_round)
  have "float_item x = (0xfb # be_bytes 8 x, 9)" if "f16_bits x = None" "f32_bits x = None"
    using that by (simp add: float_item_def)
  then show ?thesis using half single widen32_quiet unfolding none by blast
qed

lemma floats_narrow_exactly_witness:
  "float_item 0x3ff8000000000000 = ([0xf9, 0x3e, 0, 0, 0, 0, 0, 0, 0], 3) \<and>
   float_item 0x3ff8000020000000 = ([0xfa, 0x3f, 0xc0, 0, 1, 0, 0, 0, 0], 5) \<and>
   float_item 0x3ff8000000000001 = ([0xfb, 0x3f, 0xf8, 0, 0, 0, 0, 0, 1], 9)"
proof -
  have half: "f16_to_f64 0x3e00 = 0x3ff8000000000000" by code_simp
  have "f16_bits 0x3ff8000020000000 = None" "f16_bits 0x3ff8000000000001 = None" "f32_bits 0x3ff8000000000001 = None"
    "f32_bits 0x3ff8000020000000 = Some 0x3fc00001" by code_simp+
  then have no: "\<forall>h. f16_to_f64 h \<noteq> 0x3ff8000020000000" "\<forall>h. f16_to_f64 h \<noteq> 0x3ff8000000000001" "\<forall>s. widen32 s \<noteq> 0x3ff8000000000001"
    and single: "widen32 0x3fc00001 = 0x3ff8000020000000"
    using f16_exact widen32_round by (metis option.distinct(1))+
  have "be_bytes 2 (0x3e00 :: u16) = [0x3e, 0]" "be_bytes 4 (0x3fc00001 :: u32) = [0x3f, 0xc0, 0, 1]"
    "be_bytes 8 (0x3ff8000000000001 :: u64) = [0x3f, 0xf8, 0, 0, 0, 0, 0, 1]" by code_simp+
  then show ?thesis
    using floats_narrow_exactly [of "0x3ff8000000000000"] floats_narrow_exactly [of "0x3ff8000020000000"] floats_narrow_exactly [of "0x3ff8000000000001"]
      half no single by (simp add: numeral_eq_Suc)
qed

end
