(* ===== verification/CborEncode.thy ===== *)
theory CborEncode
  imports CborFloat "HOL-Library.List_Lexorder" "HOL-Library.Multiset"
begin

text \<open>
  The CBOR data model (\<open>crates/lex/src/cbor/value.rs\<close>) and the encoders
  (\<open>crates/lex/src/cbor/encode.rs\<close>) over owned values: the streaming work list \<open>run\<close>, the
  bottom-up machine for container keys, and their public entry points. A writer is the list of
  bytes it is given and never fails; \<open>None\<close> is a panic (\<open>expect\<close>, \<open>unreachable!\<close>, an index
  out of range). A float is its bit pattern, a text string its bytes.
\<close>

section \<open>Values\<close>

datatype cvalue =
    VInteger int
  | VBytes bytes
  | VFloat u64
  | VText bytes
  | VBool bool
  | VNull
  | VSimple u8
  | VTag u64 cvalue
  | VArray "cvalue list"
  | VMap "(cvalue \<times> cvalue) list"

definition integer_head :: "int \<Rightarrow> u8 \<times> u64" where
  "integer_head i = (if i \<ge> 0 then (0, of_int i) else (1, of_int (- 1 - i)))"

fun write_scalar :: "cvalue \<Rightarrow> bytes \<Rightarrow> bool \<times> bytes" where
  "write_scalar (VInteger integer) out = (case integer_head integer of (major, argument) \<Rightarrow> (True, write_head out major argument))"
| "write_scalar (VBytes bs) out = (True, write_head out BYTES (of_nat (length bs)) @ bs)"
| "write_scalar (VText text) out = (True, write_head out TEXT (of_nat (length text)) @ text)"
| "write_scalar (VFloat float) out = (case float_item float of (bs, len) \<Rightarrow> (True, out @ take len bs))"
| "write_scalar (VBool False) out = (True, out @ [0xf4])"
| "write_scalar (VBool True) out = (True, out @ [0xf5])"
| "write_scalar VNull out = (True, out @ [0xf6])"
| "write_scalar (VSimple simple) out = (True, write_head out SIMPLE (ucast simple))"
| "write_scalar (VTag _ _) out = (False, out)"
| "write_scalar (VArray _) out = (False, out)"
| "write_scalar (VMap _) out = (False, out)"

fun excluded_key :: "cvalue \<Rightarrow> bytes list \<Rightarrow> bool" where
  "excluded_key (VText text) excluded = (text \<in> set excluded)"
| "excluded_key _ excluded = False"

text \<open>The number of items, on which the work lists terminate.\<close>

fun nodes :: "cvalue \<Rightarrow> nat" where
  "nodes (VTag _ item) = 1 + nodes item"
| "nodes (VArray items) = 1 + sum_list (map nodes items)"
| "nodes (VMap entries) = 1 + sum_list (map (\<lambda>e. nodes (fst e) + nodes (snd e)) entries)"
| "nodes _ = 1"

lemma nodes_pos [simp]: "0 < nodes v"
  by (cases v) auto

section \<open>The bottom-up machine\<close>

datatype step = SEnter cvalue | SExit cvalue

fun enter_children :: "cvalue \<Rightarrow> step list option" where
  "enter_children (VTag _ item) = Some [SEnter item]"
| "enter_children (VArray items) = Some (map SEnter items)"
| "enter_children (VMap entries) = Some (concat (map (\<lambda>(key, value). [SEnter key, SEnter value]) entries))"
| "enter_children _ = None"

fun pair_up :: "bytes list \<Rightarrow> (bytes \<times> bytes) list option" where
  "pair_up [] = Some []"
| "pair_up [key] = None"
| "pair_up (key # value # rest) = map_option (Cons (key, value)) (pair_up rest)"

text \<open>Assembling a container from the encodings of its children, the last ones done.\<close>

definition drain_last :: "nat \<Rightarrow> 'a list \<Rightarrow> ('a list \<times> 'a list) option" where
  "drain_last n xs = (if n \<le> length xs then Some (take (length xs - n) xs, drop (length xs - n) xs) else None)"

fun exit_container :: "cvalue \<Rightarrow> bytes list \<Rightarrow> bytes list option" where
  "exit_container (VTag tag _) finished = do {
     (finished, items) \<leftarrow> drain_last 1 finished;
     Some (finished @ [push_head [] TAG tag @ concat items]) }"
| "exit_container (VArray items) finished = do {
     (finished, items) \<leftarrow> drain_last (length items) finished;
     Some (finished @ [push_head [] ARRAY (of_nat (length items)) @ concat items]) }"
| "exit_container (VMap entries) finished = do {
     (finished, children) \<leftarrow> drain_last (2 * length entries) finished;
     pairs \<leftarrow> pair_up children;
     Some (finished @ [push_head [] MAP (of_nat (length entries)) @
       concat (map (\<lambda>(key, value). key @ value) (sort_key fst pairs))]) }"
| "exit_container _ finished = None"

fun step_weight :: "step \<Rightarrow> nat" where
  "step_weight (SEnter v) = 2 * nodes v"
| "step_weight (SExit v) = 1"

lemma enter_children_weight:
  "enter_children v = Some ss \<Longrightarrow> Suc (sum_list (map step_weight ss)) < 2 * nodes v"
proof -
  assume e: "enter_children v = Some ss"
  have a: "sum_list (map (\<lambda>x. 2 * nodes x) vs) = 2 * sum_list (map nodes vs)" for vs
    by (induction vs) auto
  have m: "sum_list (map step_weight (concat (map (\<lambda>(key, value). [SEnter key, SEnter value]) es))) =
      2 * sum_list (map (\<lambda>e. nodes (fst e) + nodes (snd e)) es)" for es
    by (induction es) auto
  show ?thesis using e by (cases v) (auto simp: comp_def a m)
qed

function bottom_up :: "step list \<Rightarrow> bytes list \<Rightarrow> bytes list option" where
  "bottom_up [] finished = Some finished"
| "bottom_up (SEnter value # steps) finished =
     (case write_scalar value [] of
        (True, bs) \<Rightarrow> bottom_up steps (finished @ [bs])
      | (False, _) \<Rightarrow> (case enter_children value of
          None \<Rightarrow> None
        | Some children \<Rightarrow> bottom_up (children @ SExit value # steps) finished))"
| "bottom_up (SExit value # steps) finished =
     (case exit_container value finished of
        None \<Rightarrow> None
      | Some finished \<Rightarrow> bottom_up steps finished)"
  by pat_completeness auto
termination
  by (relation "measure (\<lambda>(steps, _). sum_list (map step_weight steps))") (auto dest: enter_children_weight)

definition canonical_bottom_up :: "cvalue \<Rightarrow> bytes option" where
  "canonical_bottom_up root = do {
     finished \<leftarrow> bottom_up [SEnter root] [];
     if finished = [] then None else Some (last finished) }"

section \<open>The streaming work list\<close>

definition canonical_key :: "cvalue \<Rightarrow> bytes option" where
  "canonical_key key = (case write_scalar key [] of (True, bs) \<Rightarrow> Some bs | (False, _) \<Rightarrow> canonical_bottom_up key)"

fun keyed_entries :: "(cvalue \<times> cvalue) list \<Rightarrow> bytes list \<Rightarrow> (bytes \<times> cvalue) list option" where
  "keyed_entries [] excluded = Some []"
| "keyed_entries ((key, value) # entries) excluded =
     (if excluded \<noteq> [] \<and> excluded_key key excluded then keyed_entries entries excluded
      else do {
        bs \<leftarrow> canonical_key key;
        keyed \<leftarrow> keyed_entries entries excluded;
        Some ((bs, value) # keyed) })"

definition sorted_entries :: "(cvalue \<times> cvalue) list \<Rightarrow> bytes list \<Rightarrow> (bytes \<times> cvalue) list option" where
  "sorted_entries entries excluded = map_option (sort_key fst) (keyed_entries entries excluded)"

datatype job =
    JValue cvalue
  | JArray "cvalue list"
  | JMap "(cvalue \<times> cvalue) list"
  | JEncoded bytes

fun next_value :: "job \<Rightarrow> job list \<Rightarrow> bytes \<Rightarrow> cvalue option \<times> job list \<times> bytes" where
  "next_value (JEncoded bs) jobs out = (None, jobs, out @ bs)"
| "next_value (JValue value) jobs out = (Some value, jobs, out)"
| "next_value (JArray []) jobs out = (None, jobs, out)"
| "next_value (JArray (value # items)) jobs out = (Some value, if items \<noteq> [] then JArray items # jobs else jobs, out)"
| "next_value (JMap []) jobs out = (None, jobs, out)"
| "next_value (JMap ((key, value) # entries)) jobs out = (Some key, JValue value # JMap entries # jobs, out)"

definition push_sorted :: "(bytes \<times> cvalue) list \<Rightarrow> job list \<Rightarrow> job list" where
  "push_sorted sorted_list jobs = concat (map (\<lambda>(key, value). [JEncoded key, JValue value]) sorted_list) @ jobs"

fun open_value :: "bool \<Rightarrow> cvalue \<Rightarrow> job list \<Rightarrow> bytes \<Rightarrow> (job list \<times> bytes) option" where
  "open_value canonical (VTag tag item) jobs out = Some (JValue item # jobs, write_head out TAG tag)"
| "open_value canonical (VArray items) jobs out =
     Some (if items \<noteq> [] then JArray items # jobs else jobs, write_head out ARRAY (of_nat (length items)))"
| "open_value canonical (VMap entries) jobs out =
     (let out = write_head out MAP (of_nat (length entries)) in
      if canonical then map_option (\<lambda>keyed. (push_sorted keyed jobs, out)) (sorted_entries entries [])
      else Some (if entries \<noteq> [] then JMap entries # jobs else jobs, out))"
| "open_value canonical _ jobs out = None"

fun job_weight :: "job \<Rightarrow> nat" where
  "job_weight (JValue v) = 2 * nodes v"
| "job_weight (JArray vs) = 1 + 2 * sum_list (map nodes vs)"
| "job_weight (JMap es) = 1 + 2 * sum_list (map (\<lambda>e. nodes (fst e) + nodes (snd e)) es)"
| "job_weight (JEncoded _) = 1"

abbreviation jobs_weight :: "job list \<Rightarrow> nat" where
  "jobs_weight jobs \<equiv> sum_list (map job_weight jobs)"

lemma next_value_weight:
  "next_value job jobs out = (None, jobs', out') \<Longrightarrow> jobs_weight jobs' < jobs_weight (job # jobs)"
  "next_value job jobs out = (Some v, jobs', out') \<Longrightarrow> 2 * nodes v + jobs_weight jobs' \<le> jobs_weight (job # jobs)"
  by (cases "(job, jobs, out)" rule: next_value.cases; auto split: if_splits)+

lemma keyed_entries_weight:
  "keyed_entries es ex = Some keyed \<Longrightarrow>
   jobs_weight (push_sorted keyed jobs) \<le> 2 * sum_list (map (\<lambda>e. nodes (fst e) + nodes (snd e)) es) + jobs_weight jobs"
proof (induction es ex arbitrary: keyed rule: keyed_entries.induct)
  case (2 key v entries excluded)
  have "Suc 0 \<le> nodes key" by (rule Suc_leI) simp
  then show ?case using 2 by (fastforce simp: push_sorted_def split: if_splits Option.bind_splits)
qed (simp add: push_sorted_def)

lemma sum_list_sort: "sum_list (map f (sort_key g xs)) = (sum_list (map f xs) :: nat)"
  by (metis mset_map mset_sort sum_mset_sum_list)

lemma push_sorted_weight: "jobs_weight (push_sorted (sort_key fst keyed) jobs) = jobs_weight (push_sorted keyed jobs)"
proof -
  have w: "jobs_weight (push_sorted ks jobs) = sum_list (map (\<lambda>e. 1 + 2 * nodes (snd e)) ks) + jobs_weight jobs" for ks
    by (induction ks) (auto simp: push_sorted_def)
  show ?thesis unfolding w sum_list_sort ..
qed

lemma open_value_weight:
  "open_value c v jobs out = Some (jobs', out') \<Longrightarrow> jobs_weight jobs' < 2 * nodes v + jobs_weight jobs"
  by (cases "(c, v, jobs, out)" rule: open_value.cases)
    (auto simp: Let_def sorted_entries_def push_sorted_weight dest!: keyed_entries_weight [of _ _ _ jobs] split: if_splits)

lemma run_weights:
  "(None, jobs', out') = next_value job jobs out \<Longrightarrow> jobs_weight jobs' < job_weight job + jobs_weight jobs"
  "(Some v, jobs', out') = next_value job jobs out \<Longrightarrow> jobs_weight jobs' < job_weight job + jobs_weight jobs"
  "(Some v, jobs', out') = next_value job jobs out \<Longrightarrow> open_value c v jobs' out2 = Some (jobs2, out3) \<Longrightarrow>
    jobs_weight jobs2 < job_weight job + jobs_weight jobs"
proof -
  show "(None, jobs', out') = next_value job jobs out \<Longrightarrow> jobs_weight jobs' < job_weight job + jobs_weight jobs"
    using next_value_weight(1) [of job jobs out jobs' out'] by simp
  assume "(Some v, jobs', out') = next_value job jobs out"
  then have n: "2 * nodes v + jobs_weight jobs' \<le> job_weight job + jobs_weight jobs"
    using next_value_weight(2) [of job jobs out v jobs' out'] by simp
  then show "jobs_weight jobs' < job_weight job + jobs_weight jobs" using nodes_pos [of v] by linarith
  assume "open_value c v jobs' out2 = Some (jobs2, out3)"
  from open_value_weight [OF this] n show "jobs_weight jobs2 < job_weight job + jobs_weight jobs" by linarith
qed

function run :: "bool \<Rightarrow> job list \<Rightarrow> bytes \<Rightarrow> bytes option" where
  "run canonical [] out = Some out"
| "run canonical (job # jobs) out =
     (case next_value job jobs out of
        (None, jobs, out) \<Rightarrow> run canonical jobs out
      | (Some value, jobs, out) \<Rightarrow> (case write_scalar value out of
          (True, out) \<Rightarrow> run canonical jobs out
        | (False, out) \<Rightarrow> (case open_value canonical value jobs out of
            None \<Rightarrow> None
          | Some (jobs, out) \<Rightarrow> run canonical jobs out)))"
  by pat_completeness auto
termination
  by (relation "measure (\<lambda>(_, jobs, _). jobs_weight jobs)") (auto dest: run_weights)

definition write_value :: "cvalue \<Rightarrow> bytes \<Rightarrow> bytes option" where
  "write_value v out = run False [JValue v] out"

definition encode :: "cvalue \<Rightarrow> bytes option" where
  "encode v = write_value v []"

definition encode_into :: "cvalue \<Rightarrow> bytes \<Rightarrow> bytes option" where
  "encode_into v out = write_value v out"

definition write_canonical :: "cvalue \<Rightarrow> bytes \<Rightarrow> bytes option" where
  "write_canonical v out = run True [JValue v] out"

definition canonical :: "cvalue \<Rightarrow> bytes option" where
  "canonical v = write_canonical v []"

definition canonical_into :: "cvalue \<Rightarrow> bytes \<Rightarrow> bytes option" where
  "canonical_into v out = write_canonical v out"

definition write_map :: "(cvalue \<times> cvalue) list \<Rightarrow> bytes list \<Rightarrow> bytes \<Rightarrow> bytes option" where
  "write_map entries excluded out = do {
     keyed \<leftarrow> sorted_entries entries excluded;
     run True (push_sorted keyed []) (write_head out MAP (of_nat (length keyed))) }"

definition write_canonical_map :: "(cvalue \<times> cvalue) list \<Rightarrow> bytes list \<Rightarrow> bytes \<Rightarrow> bytes option" where
  "write_canonical_map entries excluded out = write_map entries excluded out"

definition encoded_len :: "cvalue \<Rightarrow> nat option" where
  "encoded_len v = map_option length (write_value v [])"

section \<open>The reference encoding\<close>

text \<open>RFC 8949: shortest heads, shortest exact floats, definite lengths; in the deterministic form, map
  entries in the bytewise order of their encoded keys.\<close>

lemma nodes_children [simp]:
  "v \<in> set vs \<Longrightarrow> nodes v < Suc (sum_list (map nodes vs))"
  "e \<in> set es \<Longrightarrow> nodes (fst e) < Suc (\<Sum>e\<leftarrow>es. nodes (fst e) + nodes (snd e))"
  "e \<in> set es \<Longrightarrow> nodes (snd e) < Suc (\<Sum>e\<leftarrow>es. nodes (fst e) + nodes (snd e))"
proof -
  show "v \<in> set vs \<Longrightarrow> nodes v < Suc (sum_list (map nodes vs))"
    using member_le_sum_list [of "nodes v" "map nodes vs"] by simp
  have m: "e \<in> set es \<Longrightarrow> nodes (fst e) + nodes (snd e) \<le> (\<Sum>e\<leftarrow>es. nodes (fst e) + nodes (snd e))"
    by (induction es) auto
  show "e \<in> set es \<Longrightarrow> nodes (fst e) < Suc (\<Sum>e\<leftarrow>es. nodes (fst e) + nodes (snd e))"
    "e \<in> set es \<Longrightarrow> nodes (snd e) < Suc (\<Sum>e\<leftarrow>es. nodes (fst e) + nodes (snd e))" using m by simp_all
qed

function enc :: "bool \<Rightarrow> cvalue \<Rightarrow> bytes" where
  "enc c (VTag tag item) = head_bytes TAG tag @ enc c item"
| "enc c (VArray items) = head_bytes ARRAY (of_nat (length items)) @ concat (map (enc c) items)"
| "enc c (VMap entries) = head_bytes MAP (of_nat (length entries)) @
     concat (map (\<lambda>(key, value). key @ value)
       ((if c then sort_key fst else id) (map (\<lambda>e. (enc c (fst e), enc c (snd e))) entries)))"
| "enc c (VInteger i) = (case integer_head i of (major, argument) \<Rightarrow> head_bytes major argument)"
| "enc c (VBytes bs) = head_bytes BYTES (of_nat (length bs)) @ bs"
| "enc c (VText text) = head_bytes TEXT (of_nat (length text)) @ text"
| "enc c (VFloat float) = float_bytes float"
| "enc c (VBool b) = [if b then 0xf5 else 0xf4]"
| "enc c VNull = [0xf6]"
| "enc c (VSimple simple) = head_bytes SIMPLE (ucast simple)"
  by pat_completeness auto
termination by (relation "measure (\<lambda>(_, v). nodes v)") auto

fun is_scalar :: "cvalue \<Rightarrow> bool" where
  "is_scalar (VTag _ _) = False"
| "is_scalar (VArray _) = False"
| "is_scalar (VMap _) = False"
| "is_scalar _ = True"

lemma write_scalar_enc: "write_scalar v out = (is_scalar v, if is_scalar v then out @ enc c v else out)"
  by (cases "(v, out)" rule: write_scalar.cases) (auto simp: write_head_bytes float_bytes_def split: prod.split)

lemmas write_scalar_simps = write_scalar_enc [where c = True]

text \<open>The bottom-up machine finishes one value at a time.\<close>

lemma pair_up_flat: "pair_up (concat (map (\<lambda>e. [f (fst e), g (snd e)]) es)) = Some (map (\<lambda>e. (f (fst e), g (snd e))) es)"
  by (induction es) auto

lemma length_flat: "length (concat (map (\<lambda>e. [f (fst e), g (snd e)]) es)) = 2 * length es"
  by (induction es) auto

lemma bottom_up_list:
  "(\<And>v steps finished. v \<in> set vs \<Longrightarrow> bottom_up (SEnter v # steps) finished = bottom_up steps (finished @ [enc True v])) \<Longrightarrow>
   bottom_up (map SEnter vs @ steps) finished = bottom_up steps (finished @ map (enc True) vs)"
  by (induction vs arbitrary: finished) auto

lemma bottom_up_entries:
  "(\<And>e v steps finished. e \<in> set es \<Longrightarrow> v = fst e \<or> v = snd e \<Longrightarrow> bottom_up (SEnter v # steps) finished = bottom_up steps (finished @ [enc True v])) \<Longrightarrow>
   bottom_up (concat (map (\<lambda>(key, value). [SEnter key, SEnter value]) es) @ steps) finished =
   bottom_up steps (finished @ concat (map (\<lambda>e. [enc True (fst e), enc True (snd e)]) es))"
proof (induction es arbitrary: finished)
  case (Cons e es)
  have s: "bottom_up (SEnter (fst e) # steps) finished = bottom_up steps (finished @ [enc True (fst e)])"
    "bottom_up (SEnter (snd e) # steps) finished = bottom_up steps (finished @ [enc True (snd e)])" for steps finished
    using Cons.prems [of e] by simp_all
  have "bottom_up (concat (map (\<lambda>(key, value). [SEnter key, SEnter value]) es) @ steps) finished =
      bottom_up steps (finished @ concat (map (\<lambda>e. [enc True (fst e), enc True (snd e)]) es))" for finished
    by (rule Cons.IH, rule Cons.prems) auto
  then show ?case using s by (cases e) (simp del: bottom_up.simps)
qed simp

lemma bottom_up_enter: "bottom_up (SEnter v # steps) finished = bottom_up steps (finished @ [enc True v])"
proof (induction v arbitrary: steps finished rule: measure_induct_rule [where f = nodes])
  case (less v)
  show ?case
  proof (cases v)
    case (VTag tag item)
    then have "bottom_up (SEnter item # steps) finished = bottom_up steps (finished @ [enc True item])" for steps finished
      using less by simp
    then show ?thesis by (simp add: VTag write_scalar_simps drain_last_def write_head_bytes del: bottom_up.simps(2)) (simp add: drain_last_def write_head_bytes)
  next
    case (VArray items)
    have "bottom_up (map SEnter items @ steps) finished = bottom_up steps (finished @ map (enc True) items)" for steps finished
      by (rule bottom_up_list) (use less VArray in simp)
    then show ?thesis by (simp add: VArray drain_last_def write_head_bytes)
  next
    case (VMap entries)
    have "bottom_up (concat (map (\<lambda>(key, value). [SEnter key, SEnter value]) entries) @ steps) finished =
      bottom_up steps (finished @ concat (map (\<lambda>e. [enc True (fst e), enc True (snd e)]) entries))" for steps finished
      by (rule bottom_up_entries, rule less, elim disjE) (simp_all add: VMap)
    then show ?thesis by (simp add: VMap drain_last_def write_head_bytes length_flat pair_up_flat case_prod_beta)
  qed (simp_all add: write_scalar_simps)
qed

lemma canonical_bottom_up_enc: "canonical_bottom_up v = Some (enc True v)"
  by (simp add: canonical_bottom_up_def bottom_up_enter del: bottom_up.simps(2))

lemma canonical_key_enc: "canonical_key k = Some (enc True k)"
  by (simp add: canonical_key_def write_scalar_simps canonical_bottom_up_enc)

section \<open>The work list follows the reference\<close>

lemma keyed_entries_enc:
  "keyed_entries es excluded = Some (map (\<lambda>e. (enc True (fst e), snd e)) (filter (\<lambda>e. excluded = [] \<or> \<not> excluded_key (fst e) excluded) es))"
  by (induction es excluded rule: keyed_entries.induct) (auto simp: canonical_key_enc)

lemma excluded_nil [simp]: "\<not> excluded_key k []"
  by (cases k) simp_all

lemma sorted_entries_enc:
  "sorted_entries es excluded = Some (sort_key fst (map (\<lambda>e. (enc True (fst e), snd e)) (filter (\<lambda>e. \<not> excluded_key (fst e) excluded) es)))"
proof -
  have "filter (\<lambda>e. excluded = [] \<or> \<not> excluded_key (fst e) excluded) es = filter (\<lambda>e. \<not> excluded_key (fst e) excluded) es"
    by (intro filter_cong) auto
  then show ?thesis by (simp add: sorted_entries_def keyed_entries_enc)
qed

lemma run_scalar: "is_scalar v \<Longrightarrow> run c (JValue v # jobs) out = run c jobs (out @ enc c v)"
  by (simp add: write_scalar_enc [where c = c])

text \<open>A value met through a job is written, then the rest of the job follows.\<close>

lemma run_array:
  "(\<And>v jobs out. v \<in> set vs \<Longrightarrow> run c (JValue v # jobs) out = run c jobs (out @ enc c v)) \<Longrightarrow>
   run c (JArray vs # jobs) out = run c jobs (out @ concat (map (enc c) vs))"
proof (induction vs arbitrary: out)
  case (Cons v vs)
  have "run c (JArray (v # vs) # jobs) out = run c (JValue v # (if vs \<noteq> [] then JArray vs # jobs else jobs)) out" by simp
  also have "\<dots> = run c (if vs \<noteq> [] then JArray vs # jobs else jobs) (out @ enc c v)" by (rule Cons.prems) simp
  also have "\<dots> = run c jobs (out @ enc c v @ concat (map (enc c) vs))"
    using Cons.IH [of "out @ enc c v"] Cons.prems by (cases "vs = []") simp_all
  finally show ?case by simp
qed simp

lemma run_map:
  "(\<And>e v jobs out. e \<in> set es \<Longrightarrow> v = fst e \<or> v = snd e \<Longrightarrow> run c (JValue v # jobs) out = run c jobs (out @ enc c v)) \<Longrightarrow>
   run c (JMap es # jobs) out = run c jobs (out @ concat (map (\<lambda>e. enc c (fst e) @ enc c (snd e)) es))"
proof (induction es arbitrary: out)
  case (Cons e es)
  have s: "run c (JValue (fst e) # jobs) out = run c jobs (out @ enc c (fst e))"
    "run c (JValue (snd e) # jobs) out = run c jobs (out @ enc c (snd e))" for jobs out using Cons.prems [of e] by simp_all
  have "run c (JMap (e # es) # jobs) out = run c (JValue (fst e) # JValue (snd e) # JMap es # jobs) out" by (cases e) simp
  also have "\<dots> = run c (JMap es # jobs) (out @ enc c (fst e) @ enc c (snd e))" by (simp only: s append_assoc)
  also have "\<dots> = run c jobs ((out @ enc c (fst e) @ enc c (snd e)) @ concat (map (\<lambda>e. enc c (fst e) @ enc c (snd e)) es))"
    by (rule Cons.IH, rule Cons.prems) auto
  finally show ?case by simp
qed simp

lemma run_sorted:
  "(\<And>e jobs out. e \<in> set keyed \<Longrightarrow> run c (JValue (snd e) # jobs) out = run c jobs (out @ enc c (snd e))) \<Longrightarrow>
   run c (push_sorted keyed jobs) out = run c jobs (out @ concat (map (\<lambda>e. fst e @ enc c (snd e)) keyed))"
proof (induction keyed arbitrary: out)
  case (Cons e keyed)
  have "run c (push_sorted (e # keyed) jobs) out = run c (JValue (snd e) # push_sorted keyed jobs) (out @ fst e)"
    by (cases e) (simp add: push_sorted_def)
  also have "\<dots> = run c (push_sorted keyed jobs) (out @ fst e @ enc c (snd e))" using Cons.prems [of e] by simp
  also have "\<dots> = run c jobs ((out @ fst e @ enc c (snd e)) @ concat (map (\<lambda>e. fst e @ enc c (snd e)) keyed))"
    by (rule Cons.IH, rule Cons.prems) simp
  finally show ?case by simp
qed (simp add: push_sorted_def)

lemma sort_key_map: "sort_key fst (map (\<lambda>e. (f e, g (h e))) es) = map (\<lambda>p. (fst p, g (snd p))) (sort_key fst (map (\<lambda>e. (f e, h e)) es))"
proof -
  have i: "insort_key fst (a, g b) (map (\<lambda>p. (fst p, g (snd p))) ps) = map (\<lambda>p. (fst p, g (snd p))) (insort_key fst (a, b) ps)" for a b ps
    by (induction ps) auto
  show ?thesis by (induction es) (simp_all add: i)
qed

lemma enc_map_sorted:
  "enc True (VMap es) = head_bytes MAP (of_nat (length es)) @
     concat (map (\<lambda>p. fst p @ enc True (snd p)) (sort_key fst (map (\<lambda>e. (enc True (fst e), snd e)) es)))"
  using sort_key_map [of "\<lambda>e. enc True (fst e)" "enc True" snd es] by (simp add: comp_def case_prod_beta)

lemma run_value: "run c (JValue v # jobs) out = run c jobs (out @ enc c v)"
proof (induction v arbitrary: jobs out rule: measure_induct_rule [where f = nodes])
  case (less v)
  show ?case
  proof (cases v)
    case (VTag tag item)
    have "run c (JValue v # jobs) out = run c (JValue item # jobs) (write_head out TAG tag)" by (simp add: VTag)
    also have "\<dots> = run c jobs (write_head out TAG tag @ enc c item)" by (rule less) (simp add: VTag)
    finally show ?thesis by (simp add: VTag write_head_bytes)
  next
    case (VArray items)
    have "run c (JArray items # jobs) out = run c jobs (out @ concat (map (enc c) items))" for out
      by (rule run_array, rule less) (simp add: VArray)
    then show ?thesis by (cases "items = []") (simp_all add: VArray write_head_bytes)
  next
    case (VMap entries)
    show ?thesis
    proof (cases c)
      case True
      let ?ks = "sort_key fst (map (\<lambda>e. (enc True (fst e), snd e)) entries)"
      have "run c (push_sorted ?ks jobs) out = run c jobs (out @ concat (map (\<lambda>e. fst e @ enc c (snd e)) ?ks))" for out
        by (rule run_sorted, rule less) (auto simp: VMap dest: nodes_children(3))
      then show ?thesis using True enc_map_sorted [of entries]
        by (simp add: VMap sorted_entries_enc write_head_bytes del: enc.simps)
    next
      case False
      have "run c (JMap entries # jobs) out = run c jobs (out @ concat (map (\<lambda>e. enc c (fst e) @ enc c (snd e)) entries))" for out
        by (rule run_map, rule less, elim disjE) (simp_all add: VMap)
      then show ?thesis using False by (cases "entries = []") (simp_all add: VMap write_head_bytes comp_def)
    qed
  qed (simp_all add: run_scalar del: run.simps enc.simps)
qed

lemma length_enc_sort:
  fixes ps :: "(bytes \<times> bytes) list"
  shows "length (concat (map (\<lambda>(key, value). key @ value) (sort_key fst ps))) = length (concat (map (\<lambda>(key, value). key @ value) ps))"
proof -
  have l: "length (concat (map (\<lambda>(key, value). key @ value) qs)) = sum_list (map (\<lambda>p. length (fst p) + length (snd p)) qs)" for qs :: "(bytes \<times> bytes) list"
    by (induction qs) auto
  show ?thesis unfolding l sum_list_sort ..
qed

lemma length_enc: "length (enc True v) = length (enc False v)"
proof (induction v rule: measure_induct_rule [where f = nodes])
  case (less v)
  show ?case
  proof (cases v)
    case (VArray items)
    have "length (concat (map (enc True) vs)) = length (concat (map (enc False) vs))" if "set vs \<subseteq> set items" for vs
      using that less by (induction vs) (auto simp: VArray)
    then show ?thesis by (simp add: VArray)
  next
    case (VMap entries)
    have "length (concat (map (\<lambda>e. enc True (fst e) @ enc True (snd e)) es)) = length (concat (map (\<lambda>e. enc False (fst e) @ enc False (snd e)) es))"
      if "set es \<subseteq> set entries" for es
      using that
    proof (induction es)
      case (Cons e es)
      then have "length (enc True (fst e)) = length (enc False (fst e))" "length (enc True (snd e)) = length (enc False (snd e))"
        using less by (simp_all add: VMap)
      then show ?case using Cons by simp
    qed simp
    then show ?thesis using length_enc_sort by (simp add: VMap comp_def)
  qed (use less in simp_all)
qed

text \<open>C27: The encoders follow RFC 8949 on every value and never panic: the streaming work list writes the
  as-is form and the core deterministic form, the bottom-up machine for container keys writes the
  same deterministic form, a map minus excluded keys is written as the map of its other entries,
  and \<open>encoded_len\<close> is the length of both forms.\<close>

theorem encoders_follow_reference:
  "encode v = Some (enc False v) \<and> canonical v = Some (enc True v) \<and> canonical_bottom_up v = Some (enc True v) \<and>
   write_canonical_map es excluded [] = Some (enc True (VMap (filter (\<lambda>e. \<not> excluded_key (fst e) excluded) es))) \<and>
   encoded_len v = Some (length (enc False v)) \<and> encoded_len v = Some (length (enc True v))"
proof -
  have "write_canonical_map es excluded [] = Some (enc True (VMap (filter (\<lambda>e. \<not> excluded_key (fst e) excluded) es)))"
    unfolding enc_map_sorted
    by (simp add: write_canonical_map_def write_map_def sorted_entries_enc run_sorted [OF run_value] write_head_bytes)
  then show ?thesis
    by (simp add: encode_def write_value_def canonical_def write_canonical_def run_value canonical_bottom_up_enc encoded_len_def length_enc del: run.simps(2))
qed

end
