(* ===== verification/CborDecode.thy ===== *)
theory CborDecode
  imports CborEncode
begin

text \<open>
  The CBOR decoders over a slice (\<open>crates/lex/src/cbor/decode.rs\<close>): heads, definite and
  indefinite strings, simple values and floats, the stack of open arrays, maps and tags, and the
  entry points \<open>decode_prefix\<close>, \<open>decode\<close>, \<open>decode_deterministic\<close> and the sequence
  decoders, with the owned output. The stack is a list whose head is the innermost open item.
  The reader source, the span outputs and the replay storage are not modelled.
\<close>

section \<open>Errors and the slice source\<close>

datatype decode_error_kind =
    Truncated
  | Malformed string
  | InvalidUtf8
  | Depth nat
  | TooLong
  | NotDeterministic string
  | Trailing

record decode_error =
  de_kind :: decode_error_kind
  de_offset :: nat

definition decode_fail :: "decode_error_kind \<Rightarrow> nat \<Rightarrow> decode_error" where
  "decode_fail kind offset = \<lparr>de_kind = kind, de_offset = offset\<rparr>"

definition DEFAULT_DEPTH :: nat where "DEFAULT_DEPTH = 256"

definition slice_byte :: "bytes \<Rightarrow> nat \<Rightarrow> decode_error + u8 \<times> nat" where
  "slice_byte bytes pos =
     (if pos < length bytes then Inr (bytes ! pos, pos + 1) else Inl (decode_fail Truncated pos))"

definition slice_take :: "bytes \<Rightarrow> nat \<Rightarrow> u64 \<Rightarrow> decode_error + bytes \<times> nat" where
  "slice_take bytes pos len =
     (if unat len \<le> length bytes - pos then Inr (take (unat len) (drop pos bytes), pos + unat len)
      else Inl (decode_fail Truncated (length bytes)))"

text \<open>\<open>usize::try_from(u64)\<close>, which never fails on a 64-bit target.\<close>

definition usize_from :: "u64 \<Rightarrow> nat option" where
  "usize_from n = Some (unat n)"

section \<open>Heads, strings, simple values\<close>

fun argument_loop :: "bytes \<Rightarrow> nat \<Rightarrow> nat \<Rightarrow> u64 \<Rightarrow> decode_error + u64 \<times> nat" where
  "argument_loop bytes pos 0 v = Inr (v, pos)"
| "argument_loop bytes pos (Suc width) v = (case slice_byte bytes pos of
     Inl e \<Rightarrow> Inl e
   | Inr (b, pos) \<Rightarrow> argument_loop bytes pos width (push_bit 8 v OR ucast b))"

definition argument :: "bytes \<Rightarrow> nat \<Rightarrow> u8 \<Rightarrow> nat \<Rightarrow> bool \<Rightarrow> decode_error + u64 option \<times> nat" where
  "argument bytes pos initial start deterministic =
     (let info = initial AND 31 in
      if info \<le> 23 then Inr (Some (ucast info), pos)
      else if info = 31 then Inr (None, pos)
      else (case info_width info of
          None \<Rightarrow> Inl (decode_fail (Malformed ''additional information 28 to 30 is reserved'') start)
        | Some width \<Rightarrow> (case argument_loop bytes pos width 0 of
            Inl e \<Rightarrow> Inl e
          | Inr (v, pos) \<Rightarrow>
              if deterministic \<and> drop_bit 5 initial \<noteq> 7 \<and>
                \<not> (if width = 1 then v \<ge> 24 else if width = 2 then v > 0xff
                   else if width = 4 then v > 0xffff else v > 0xffffffff)
              then Inl (decode_fail (NotDeterministic ''an argument must use its shortest form'') start)
              else Inr (Some v, pos))))"

definition next_string_chunk :: "bytes \<Rightarrow> nat \<Rightarrow> u8 \<Rightarrow> decode_error + (u64 \<times> nat) option \<times> nat" where
  "next_string_chunk bytes pos major = (case slice_byte bytes pos of
     Inl e \<Rightarrow> Inl e
   | Inr (initial, pos1) \<Rightarrow>
       if initial = 0xff then Inr (None, pos1)
       else if drop_bit 5 initial \<noteq> major
       then Inl (decode_fail (Malformed ''an indefinite string's chunks must be strings of its own type'') pos)
       else (case argument bytes pos1 initial pos False of
           Inl e \<Rightarrow> Inl e
         | Inr (None, pos2) \<Rightarrow> Inl (decode_fail (Malformed ''an indefinite string's chunks must be definite'') pos)
         | Inr (Some len, pos2) \<Rightarrow> Inr (Some (len, pos), pos2)))"

lemma slice_byte_pos: "slice_byte bytes pos = Inr (b, pos') \<Longrightarrow> pos' = Suc pos \<and> pos < length bytes \<and> b = bytes ! pos"
  by (auto simp: slice_byte_def split: if_splits)

lemma argument_loop_pos: "argument_loop bytes pos width v = Inr (v', pos') \<Longrightarrow> pos' = pos + width \<and> (width = 0 \<or> pos' \<le> length bytes)"
  by (induction bytes pos width v rule: argument_loop.induct) (fastforce split: sum.splits dest: slice_byte_pos)+

lemma argument_pos: "argument bytes pos initial start det = Inr (a, pos') \<Longrightarrow> pos \<le> pos' \<and> (pos \<le> length bytes \<longrightarrow> pos' \<le> length bytes)"
  by (auto simp: argument_def Let_def split: if_splits option.splits sum.splits dest!: argument_loop_pos)

lemma next_string_chunk_pos:
  "next_string_chunk bytes pos major = Inr (c, pos') \<Longrightarrow> pos < pos' \<and> pos < length bytes \<and> pos' \<le> length bytes"
  by (auto simp: next_string_chunk_def split: sum.splits if_splits option.splits dest!: slice_byte_pos argument_pos)

lemma slice_take_pos: "slice_take bytes pos len = Inr (bs, pos') \<Longrightarrow> pos' = pos + unat len \<and> (pos \<le> length bytes \<longrightarrow> pos' \<le> length bytes)"
  by (auto simp: slice_take_def split: if_splits)

text \<open>One chunk: its bytes, tested on their own in an indefinite text string.\<close>

definition string_chunk :: "bytes \<Rightarrow> nat \<Rightarrow> u8 \<Rightarrow> bool \<Rightarrow> u64 \<Rightarrow> nat \<Rightarrow> decode_error + bytes \<times> nat" where
  "string_chunk bytes pos major indefinite len chunk_at = (case slice_take bytes pos len of
     Inl e \<Rightarrow> Inl e
   | Inr (chunk, pos) \<Rightarrow>
       if indefinite \<and> major = 3 \<and> \<not> utf8_valid chunk then Inl (decode_fail InvalidUtf8 chunk_at) else Inr (chunk, pos))"

lemma string_chunk_pos: "string_chunk bytes pos major ind len chunk_at = Inr (bs, pos') \<Longrightarrow> pos \<le> pos' \<and> (pos \<le> length bytes \<longrightarrow> pos' \<le> length bytes)"
  by (auto simp: string_chunk_def split: sum.splits if_splits dest!: slice_take_pos)

function chunk_loop :: "bytes \<Rightarrow> nat \<Rightarrow> u8 \<Rightarrow> bytes \<Rightarrow> decode_error + bytes \<times> nat" where
  "chunk_loop bytes pos major acc = (case next_string_chunk bytes pos major of
     Inl e \<Rightarrow> Inl e
   | Inr (None, pos) \<Rightarrow> Inr (acc, pos)
   | Inr (Some (len, chunk_at), pos1) \<Rightarrow> (case string_chunk bytes pos1 major True len chunk_at of
       Inl e \<Rightarrow> Inl e
     | Inr (chunk, pos2) \<Rightarrow> chunk_loop bytes pos2 major (acc @ chunk)))"
  by auto
termination
  by (relation "measure (\<lambda>(bytes, pos, _). length bytes - pos)")
    (auto dest!: next_string_chunk_pos string_chunk_pos)

declare chunk_loop.simps [simp del]

definition string_bytes :: "bytes \<Rightarrow> nat \<Rightarrow> u8 \<Rightarrow> u64 option \<Rightarrow> bool \<Rightarrow> nat \<Rightarrow> decode_error + bytes \<times> nat" where
  "string_bytes bytes pos major len deterministic start = (case len of
     None \<Rightarrow>
       if deterministic then Inl (decode_fail (NotDeterministic ''a length must be definite'') start)
       else chunk_loop bytes pos major []
   | Some len \<Rightarrow>
       if usize_from len = None then Inl (decode_fail TooLong start)
       else string_chunk bytes pos major False len start)"

definition string_value :: "bytes \<Rightarrow> nat \<Rightarrow> u8 \<Rightarrow> u64 option \<Rightarrow> bool \<Rightarrow> nat \<Rightarrow> decode_error + cvalue \<times> nat" where
  "string_value bytes pos major len deterministic start = (case string_bytes bytes pos major len deterministic start of
     Inl e \<Rightarrow> Inl e
   | Inr (bs, pos) \<Rightarrow>
       if major = 2 then Inr (VBytes bs, pos)
       else if utf8_valid bs then Inr (VText bs, pos)
       else Inl (decode_fail InvalidUtf8 start))"

definition simple_or_float :: "u8 \<Rightarrow> u64 \<Rightarrow> nat \<Rightarrow> bool \<Rightarrow> decode_error + cvalue" where
  "simple_or_float initial arg start deterministic =
     (let info = initial AND 31 in
      if info = 20 then Inr (VBool False)
      else if info = 21 then Inr (VBool True)
      else if info = 22 then Inr VNull
      else if info \<le> 19 \<or> info = 23 then Inr (VSimple info)
      else if info = 24 then
        (if arg < 32 then Inl (decode_fail (Malformed ''a two-byte simple value must be at least 32'') start)
         else Inr (VSimple (ucast arg)))
      else (let float = if info = 25 then f16_to_f64 (ucast arg) else if info = 26 then f32_to_f64 (ucast arg) else arg;
                width = if info = 25 then 3 else if info = 26 then 5 else 9 in
        if deterministic \<and> width \<noteq> snd (float_item float)
        then Inl (decode_fail (NotDeterministic ''a float must use its shortest exact form'') start)
        else Inr (VFloat float)))"

section \<open>Open items\<close>

datatype open_item =
    OArray nat "u64 option" "cvalue list"
  | OMap nat "u64 option" "(cvalue \<times> cvalue) list" "cvalue option" "(nat \<times> nat) option"
  | OTag nat u64

text \<open>Attaching a completed item: the completed value and its start climb the stack until an open
  item needs more. \<open>Inl\<close> is the finished root, \<open>Inr\<close> the stack to go on with.\<close>

fun attach :: "bytes \<Rightarrow> nat \<Rightarrow> bool \<Rightarrow> open_item list \<Rightarrow> cvalue \<Rightarrow> nat \<Rightarrow> decode_error + (cvalue + open_item list)" where
  "attach bytes pos deterministic [] item start = Inr (Inl item)"
| "attach bytes pos deterministic (OTag tag_start tag # opened) item start =
     attach bytes pos deterministic opened (VTag tag item) tag_start"
| "attach bytes pos deterministic (OArray array_start remaining items # opened) item start = (case remaining of
     Some n \<Rightarrow>
       if n - 1 = 0 then attach bytes pos deterministic opened (VArray (items @ [item])) array_start
       else Inr (Inr (OArray array_start (Some (n - 1)) (items @ [item]) # opened))
   | None \<Rightarrow> Inr (Inr (OArray array_start None (items @ [item]) # opened)))"
| "attach bytes pos deterministic (OMap map_start remaining entries key last_key # opened) item start = (case key of
     Some pending \<Rightarrow> (case remaining of
         Some n \<Rightarrow>
           if n - 1 = 0 then attach bytes pos deterministic opened (VMap (entries @ [(pending, item)])) map_start
           else Inr (Inr (OMap map_start (Some (n - 1)) (entries @ [(pending, item)]) None last_key # opened))
       | None \<Rightarrow> Inr (Inr (OMap map_start None (entries @ [(pending, item)]) None last_key # opened)))
   | None \<Rightarrow>
       if deterministic \<and> (case last_key of None \<Rightarrow> False | Some (f, t) \<Rightarrow> slice_range f t bytes \<ge> slice_range start pos bytes)
       then Inl (decode_fail (NotDeterministic ''map keys must be in strictly ascending bytewise order'') start)
       else Inr (Inr (OMap map_start remaining entries (Some item) (if deterministic then Some (start, pos) else last_key) # opened)))"

definition finish :: "bytes \<Rightarrow> nat \<Rightarrow> bool \<Rightarrow> open_item list \<Rightarrow> cvalue \<Rightarrow> nat \<Rightarrow> decode_error + nat \<times> (cvalue + open_item list)" where
  "finish bytes pos deterministic opened item start = (case attach bytes pos deterministic opened item start of
     Inl e \<Rightarrow> Inl e | Inr r \<Rightarrow> Inr (pos, r))"

text \<open>The break byte closes an indefinite array or map.\<close>

fun close_break :: "open_item list \<Rightarrow> nat \<Rightarrow> decode_error + cvalue \<times> nat \<times> open_item list" where
  "close_break (OArray start None items # opened) pos = Inr (VArray items, start, opened)"
| "close_break (OMap start None entries None last_key # opened) pos = Inr (VMap entries, start, opened)"
| "close_break opened pos = Inl (decode_fail (Malformed ''a break outside an indefinite array or map'') pos)"

text \<open>One item head, by major type and argument.\<close>

definition decode_head :: "bytes \<Rightarrow> nat \<Rightarrow> bool \<Rightarrow> nat \<Rightarrow> open_item list \<Rightarrow> u8 \<Rightarrow> u64 option \<Rightarrow> nat \<Rightarrow> decode_error + nat \<times> (cvalue + open_item list)" where
  "decode_head bytes max_depth deterministic start opened initial arg pos =
     (let major = drop_bit 5 initial; value_at = (\<lambda>v pos. finish bytes pos deterministic opened v start) in
      if major = 0 \<and> arg \<noteq> None then value_at (VInteger (uint (the arg))) pos
      else if major = 1 \<and> arg \<noteq> None then value_at (VInteger (- 1 - uint (the arg))) pos
      else if major = 2 \<or> major = 3 then
        (case string_value bytes pos major arg deterministic start of Inl e \<Rightarrow> Inl e | Inr (v, pos) \<Rightarrow> value_at v pos)
      else if 4 \<le> major \<and> major \<le> 6 \<and> length opened \<ge> max_depth then Inl (decode_fail (Depth max_depth) start)
      else if (major = 4 \<or> major = 5) \<and> arg = None \<and> deterministic
      then Inl (decode_fail (NotDeterministic ''a length must be definite'') start)
      else if major = 4 \<and> arg = Some 0 then value_at (VArray []) pos
      else if major = 5 \<and> arg = Some 0 then value_at (VMap []) pos
      else if major = 4 then
        (if arg \<noteq> None \<and> usize_from (the arg) = None then Inl (decode_fail TooLong start)
         else Inr (pos, Inr (OArray start arg [] # opened)))
      else if major = 5 then
        (if arg \<noteq> None \<and> usize_from (the arg) = None then Inl (decode_fail TooLong start)
         else Inr (pos, Inr (OMap start arg [] None None # opened)))
      else if major = 6 \<and> arg \<noteq> None then Inr (pos, Inr (OTag start (the arg) # opened))
      else if major = 7 \<and> arg \<noteq> None then
        (case simple_or_float initial (the arg) start deterministic of Inl e \<Rightarrow> Inl e | Inr v \<Rightarrow> value_at v pos)
      else Inl (decode_fail (Malformed ''only strings, arrays and maps have an indefinite length'') start))"

definition decode_step :: "bytes \<Rightarrow> nat \<Rightarrow> bool \<Rightarrow> nat \<Rightarrow> open_item list \<Rightarrow> decode_error + nat \<times> (cvalue + open_item list)" where
  "decode_step bytes max_depth deterministic start opened = (case slice_byte bytes start of
     Inl e \<Rightarrow> Inl e
   | Inr (initial, pos) \<Rightarrow>
       if initial = 0xff then
         (case close_break opened start of
            Inl e \<Rightarrow> Inl e
          | Inr (v, item_start, opened) \<Rightarrow> finish bytes pos deterministic opened v item_start)
       else (case argument bytes pos initial start deterministic of
           Inl e \<Rightarrow> Inl e
         | Inr (arg, pos) \<Rightarrow> decode_head bytes max_depth deterministic start opened initial arg pos))"

section \<open>The loop\<close>

lemma chunk_loop_pos: "chunk_loop bytes pos major acc = Inr (bs, pos') \<Longrightarrow> pos \<le> pos' \<and> (pos \<le> length bytes \<longrightarrow> pos' \<le> length bytes)"
proof (induction bytes pos major acc rule: chunk_loop.induct)
  case (1 bytes pos major acc)
  show ?case
  proof (cases "next_string_chunk bytes pos major")
    case (Inr np)
    then obtain c pos1 where n: "next_string_chunk bytes pos major = Inr (c, pos1)" by (cases np) auto
    note next_string_chunk_pos [OF n]
    then show ?thesis using 1 n
      by (cases c) (fastforce simp: chunk_loop.simps [of bytes pos] split: sum.splits prod.splits dest!: string_chunk_pos)+
  qed (use 1(2) in \<open>simp add: chunk_loop.simps\<close>)
qed

lemma string_bytes_pos: "string_bytes bytes pos major len det start = Inr (bs, pos') \<Longrightarrow> pos \<le> pos' \<and> (pos \<le> length bytes \<longrightarrow> pos' \<le> length bytes)"
  by (auto simp: string_bytes_def split: option.splits if_splits dest!: string_chunk_pos chunk_loop_pos)

lemma string_value_pos: "string_value bytes pos major len det start = Inr (v, pos') \<Longrightarrow> pos \<le> pos' \<and> (pos \<le> length bytes \<longrightarrow> pos' \<le> length bytes)"
  by (auto simp: string_value_def split: sum.splits if_splits dest!: string_bytes_pos)

lemma finish_pos: "finish bytes pos det opened v start = Inr (pos', r) \<Longrightarrow> pos' = pos"
  by (auto simp: finish_def split: sum.splits)

lemma decode_head_pos:
  "decode_head bytes d det start opened initial arg pos = Inr (pos', r) \<Longrightarrow> pos \<le> pos' \<and> (pos \<le> length bytes \<longrightarrow> pos' \<le> length bytes)"
  by (auto simp: decode_head_def Let_def split: if_splits sum.splits option.splits dest!: finish_pos string_value_pos)

lemma decode_step_pos:
  "decode_step bytes d det start opened = Inr (pos', r) \<Longrightarrow> start < pos' \<and> start < length bytes \<and> pos' \<le> length bytes"
  by (auto simp: decode_step_def split: sum.splits if_splits dest!: slice_byte_pos argument_pos decode_head_pos finish_pos)

function decode_loop :: "bytes \<Rightarrow> nat \<Rightarrow> bool \<Rightarrow> nat \<Rightarrow> open_item list \<Rightarrow> decode_error + cvalue \<times> nat" where
  "decode_loop bytes max_depth deterministic start opened =
     (case decode_step bytes max_depth deterministic start opened of
        Inl e \<Rightarrow> Inl e
      | Inr (pos, Inl v) \<Rightarrow> Inr (v, pos)
      | Inr (pos, Inr opened) \<Rightarrow> decode_loop bytes max_depth deterministic pos opened)"
  by auto
termination
  by (relation "measure (\<lambda>(bytes, _, _, pos, _). length bytes - pos)") (auto dest!: decode_step_pos)

declare decode_loop.simps [simp del]

definition decode_item :: "bytes \<Rightarrow> nat \<Rightarrow> bool \<Rightarrow> decode_error + cvalue \<times> nat" where
  "decode_item bytes max_depth deterministic = decode_loop bytes max_depth deterministic 0 []"

definition decode_prefix :: "bytes \<Rightarrow> nat \<Rightarrow> decode_error + cvalue \<times> nat" where
  "decode_prefix bytes max_depth = decode_item bytes max_depth False"

definition decode_all :: "bytes \<Rightarrow> nat \<Rightarrow> decode_error + cvalue" where
  "decode_all bytes max_depth = (case decode_prefix bytes max_depth of
     Inl e \<Rightarrow> Inl e
   | Inr (v, used) \<Rightarrow> if used \<noteq> length bytes then Inl (decode_fail Trailing used) else Inr v)"

definition decode_deterministic :: "bytes \<Rightarrow> nat \<Rightarrow> decode_error + cvalue" where
  "decode_deterministic bytes max_depth = (case decode_item bytes max_depth True of
     Inl e \<Rightarrow> Inl e
   | Inr (v, pos) \<Rightarrow> if pos \<noteq> length bytes then Inl (decode_fail Trailing pos) else Inr v)"

lemma decode_loop_pos: "decode_loop bytes d det start opened = Inr (v, pos') \<Longrightarrow> start < pos' \<and> pos' \<le> length bytes"
proof (induction bytes d det start opened rule: decode_loop.induct)
  case (1 bytes d det start opened)
  then show ?case
    by (subst (asm) (2) decode_loop.simps) (fastforce split: sum.splits prod.splits dest: decode_step_pos)
qed

section \<open>Sequences\<close>

function sequence_loop :: "bytes \<Rightarrow> nat \<Rightarrow> nat \<Rightarrow> (nat \<times> cvalue) list \<Rightarrow> (nat \<times> cvalue) list \<times> (nat \<times> decode_error) option" where
  "sequence_loop bytes max_depth pos items =
     (if pos < length bytes then
        (case decode_prefix (drop pos bytes) max_depth of
           Inr (v, used) \<Rightarrow> sequence_loop bytes max_depth (pos + used) (items @ [(pos, v)])
         | Inl cause \<Rightarrow> (items, Some (pos, cause)))
      else (items, None))"
  by auto
termination
  by (relation "measure (\<lambda>(bytes, _, pos, _). length bytes - pos)")
    (auto simp: decode_prefix_def decode_item_def dest!: decode_loop_pos)

declare sequence_loop.simps [simp del]

definition decode_sequence_with :: "bytes \<Rightarrow> nat \<Rightarrow> (nat \<Rightarrow> decode_error \<Rightarrow> 'e) \<Rightarrow> (nat \<times> cvalue) list \<times> 'e option" where
  "decode_sequence_with bytes max_depth refuse = (case sequence_loop bytes max_depth 0 [] of
     (items, failure) \<Rightarrow> (items, map_option (\<lambda>(pos, cause). refuse pos cause) failure))"

definition decode_sequence :: "bytes \<Rightarrow> nat \<Rightarrow> (nat \<times> cvalue) list \<times> nat option" where
  "decode_sequence bytes max_depth = decode_sequence_with bytes max_depth (\<lambda>offset _. offset)"

record sequence_error =
  se_offset :: nat
  se_cause :: decode_error

record decoded_sequence =
  ds_items :: "(nat \<times> cvalue) list"
  ds_failure :: "sequence_error option"

definition decode_sequence_checked :: "bytes \<Rightarrow> nat \<Rightarrow> decoded_sequence" where
  "decode_sequence_checked bytes max_depth =
     (case decode_sequence_with bytes max_depth (\<lambda>offset cause. \<lparr>se_offset = offset, se_cause = cause\<rparr>) of
        (items, failure) \<Rightarrow> \<lparr>ds_items = items, ds_failure = failure\<rparr>)"

end
