(* ===== verification/CborRoundTrip.thy ===== *)
theory CborRoundTrip
  imports CborDecode
begin

text \<open>
  Decoding what was encoded: the well-formed values, the depth of a value, the order of map keys,
  and the simulation that takes the decoder's stack machine over an encoded value in one step.
\<close>

section \<open>Values that can be encoded\<close>

definition quiet_float :: "u64 \<Rightarrow> bool" where
  "quiet_float x \<longleftrightarrow> (case f16_bits x of Some _ \<Rightarrow> True
     | None \<Rightarrow> (case f32_bits x of Some s \<Rightarrow> \<not> signalling32 s | None \<Rightarrow> True))"

function value_ok :: "cvalue \<Rightarrow> bool" where
  "value_ok (VInteger i) \<longleftrightarrow> - (2 ^ 64) \<le> i \<and> i < 2 ^ 64"
| "value_ok (VBytes bs) \<longleftrightarrow> length bs < 2 ^ 64"
| "value_ok (VFloat x) \<longleftrightarrow> quiet_float x"
| "value_ok (VText text) \<longleftrightarrow> length text < 2 ^ 64 \<and> utf8_valid text"
| "value_ok (VBool b) \<longleftrightarrow> True"
| "value_ok VNull \<longleftrightarrow> True"
| "value_ok (VSimple n) \<longleftrightarrow> n \<le> 19 \<or> n = 23 \<or> 32 \<le> n"
| "value_ok (VTag tag item) \<longleftrightarrow> value_ok item"
| "value_ok (VArray items) \<longleftrightarrow> length items < 2 ^ 64 \<and> list_all value_ok items"
| "value_ok (VMap entries) \<longleftrightarrow> length entries < 2 ^ 64 \<and> list_all (\<lambda>e. value_ok (fst e) \<and> value_ok (snd e)) entries"
  by pat_completeness auto
termination by (relation "measure nodes") auto

function depth_of :: "cvalue \<Rightarrow> nat" where
  "depth_of (VTag tag item) = Suc (depth_of item)"
| "depth_of (VArray items) = Suc (foldr max (map depth_of items) 0)"
| "depth_of (VMap entries) = Suc (foldr max (map (\<lambda>e. max (depth_of (fst e)) (depth_of (snd e))) entries) 0)"
| "depth_of (VInteger i) = 0"
| "depth_of (VBytes bs) = 0"
| "depth_of (VFloat x) = 0"
| "depth_of (VText text) = 0"
| "depth_of (VBool b) = 0"
| "depth_of VNull = 0"
| "depth_of (VSimple n) = 0"
  by pat_completeness auto
termination by (relation "measure nodes") auto

text \<open>Every map's entries in strictly ascending order of their encoded keys.\<close>

function keys_sorted :: "cvalue \<Rightarrow> bool" where
  "keys_sorted (VTag tag item) \<longleftrightarrow> keys_sorted item"
| "keys_sorted (VArray items) \<longleftrightarrow> list_all keys_sorted items"
| "keys_sorted (VMap entries) \<longleftrightarrow> sorted_wrt (<) (map (\<lambda>e. enc False (fst e)) entries) \<and>
     list_all (\<lambda>e. keys_sorted (fst e) \<and> keys_sorted (snd e)) entries"
| "keys_sorted (VInteger i) \<longleftrightarrow> True"
| "keys_sorted (VBytes bs) \<longleftrightarrow> True"
| "keys_sorted (VFloat x) \<longleftrightarrow> True"
| "keys_sorted (VText text) \<longleftrightarrow> True"
| "keys_sorted (VBool b) \<longleftrightarrow> True"
| "keys_sorted VNull \<longleftrightarrow> True"
| "keys_sorted (VSimple n) \<longleftrightarrow> True"
  by pat_completeness auto
termination by (relation "measure nodes") auto

lemma foldr_max: "x \<in> set xs \<Longrightarrow> (x :: nat) \<le> foldr max xs 0"
  by (induction xs) auto


section \<open>Heads in the decoder\<close>

definition info_of :: "u64 \<Rightarrow> u8" where
  "info_of a = (if unat a < 24 then ucast a else if unat a < 2 ^ 8 then 24 else if unat a < 2 ^ 16 then 25
     else if unat a < 2 ^ 32 then 26 else 27)"

lemma argument_loop_fold:
  "pos + width \<le> length bytes \<Longrightarrow>
   argument_loop bytes pos width v = Inr (foldl (\<lambda>v b. push_bit 8 v OR ucast b) v (take width (drop pos bytes)), pos + width)"
proof (induction width arbitrary: pos v)
  case (Suc width)
  then have "drop pos bytes = bytes ! pos # drop (Suc pos) bytes" by (simp add: Cons_nth_drop_Suc)
  then show ?case using Suc by (simp add: slice_byte_def)
qed simp

lemma drop_nth: "drop pos bytes = b # rest \<Longrightarrow> pos < length bytes \<and> bytes ! pos = b \<and> drop (Suc pos) bytes = rest"
proof -
  assume d: "drop pos bytes = b # rest"
  then have p: "pos < length bytes" by (metis drop_all list.distinct(1) not_le)
  then show ?thesis using d by (simp add: Cons_nth_drop_Suc [symmetric])
qed

lemma info_small: "unat (a :: u64) < 24 \<Longrightarrow> unat (ucast a :: u8) = unat a"
  by (rule unat_ucast_fits) simp

lemma argument_head:
  assumes d: "drop pos bytes = head_bytes major a @ rest" and m: "major < 8"
  obtains initial where "slice_byte bytes pos = Inr (initial, pos + 1)" "drop_bit 5 initial = major"
    "initial AND 31 = info_of a" "initial \<noteq> 0xff" "\<And>start det. argument bytes (pos + 1) initial start det = Inr (Some a, pos + head_len a)"
proof -
  note result = that
  have step: thesis
    if h: "head_bytes major a = (push_bit 5 major OR info) # be_bytes k a" and i: "info_width info = Some k" "info = info_of a"
      "info < 31" "\<not> info \<le> 23" "unat a < 256 ^ k" "head_len a = k + 1"
      "if k = 1 then a \<ge> 24 else if k = 2 then a > 0xff else if k = 4 then a > 0xffff else a > 0xffffffff" for info k
  proof -
    define initial where "initial = push_bit 5 major OR info"
    have "info < 32" using i(3) by (simp add: word_less_nat_alt)
    from initial_byte [OF m this] have b: "drop_bit 5 initial = major" "initial AND 31 = info" by (simp_all add: initial_def)
    note n = drop_nth [of pos bytes initial "be_bytes k a @ rest"]
    have n: "pos < length bytes" "bytes ! pos = initial" "drop (Suc pos) bytes = be_bytes k a @ rest"
      using n d h by (simp_all add: initial_def)
    have "length (drop (Suc pos) bytes) = k + length rest" by (simp add: n(3))
    then have "Suc pos + k \<le> length bytes" using n(1) by simp
    then have "argument_loop bytes (Suc pos) k 0 = Inr (a, Suc pos + k)"
      using argument_loop_fold [of "Suc pos" k bytes 0] of_be_bytes_trunc [OF i(5)] by (simp add: n(3) fold_be)
    moreover have "info \<noteq> 31" using i(3) by auto
    ultimately have "argument bytes (pos + 1) initial start det = Inr (Some a, pos + head_len a)" for start det
      using i b by (simp add: argument_def Let_def)
    moreover have "initial \<noteq> 0xff" using b(2) \<open>info \<noteq> 31\<close> by auto
    ultimately show ?thesis using n b i(2) by (intro result [of initial]) (simp_all add: slice_byte_def)
  qed
  show ?thesis
  proof (cases "unat a < 24")
    case True
    define initial where "initial = push_bit 5 major OR ucast a"
    have "(ucast a :: u8) < 32" "(ucast a :: u8) \<le> 23" using info_small [OF True] True by (simp_all add: word_less_nat_alt word_le_nat_alt)
    note b = initial_byte [OF m this(1), folded initial_def] this(2)
    have n: "pos < length bytes" "bytes ! pos = initial"
      using drop_nth [of pos bytes initial rest] d True by (simp_all add: head_bytes_cases initial_def)
    have "(ucast (ucast a :: u8) :: u64) = a" using info_small [OF True] unat_ucast_fits [of "ucast a :: u8", where 'b = 64] True by (simp add: word_unat_eq_iff)
    then have "argument bytes (pos + 1) initial start det = Inr (Some a, pos + head_len a)" for start det
      using b True by (simp add: argument_def Let_def head_len_eq)
    moreover have "initial \<noteq> 0xff" using b(2,3) by auto
    ultimately show ?thesis using n b True by (intro result [of initial]) (simp_all add: slice_byte_def info_of_def)
  next
    case False
    consider "unat a < 2 ^ 8" | "\<not> unat a < 2 ^ 8" "unat a < 2 ^ 16" | "\<not> unat a < 2 ^ 16" "unat a < 2 ^ 32" | "\<not> unat a < 2 ^ 32"
      by blast
    then show ?thesis
      using step [of 24 1] step [of 25 2] step [of 26 4] step [of 27 8] False unsigned_less [of a]
      by cases (simp_all add: head_bytes_cases info_width_def info_of_def head_len_eq word_less_nat_alt word_le_nat_alt)
  qed
qed

section \<open>The decoder over one encoded value\<close>

definition proceed :: "bytes \<Rightarrow> nat \<Rightarrow> bool \<Rightarrow> decode_error + nat \<times> (cvalue + open_item list) \<Rightarrow> decode_error + cvalue \<times> nat" where
  "proceed bytes lim det r = (case r of
     Inl e \<Rightarrow> Inl e
   | Inr (pos, Inl v) \<Rightarrow> Inr (v, pos)
   | Inr (pos, Inr opened) \<Rightarrow> decode_loop bytes lim det pos opened)"

lemma decode_loop_proceed: "decode_loop bytes lim det pos opened = proceed bytes lim det (decode_step bytes lim det pos opened)"
  by (simp add: proceed_def decode_loop.simps [of bytes])

lemma proceed_open [simp]: "proceed bytes lim det (Inr (pos, Inr opened)) = decode_loop bytes lim det pos opened"
  by (simp add: proceed_def)

lemma decode_step_head:
  assumes "drop pos bytes = head_bytes major a @ rest" "major < 8"
  shows "\<exists>initial. drop_bit 5 initial = major \<and> initial AND 31 = info_of a \<and>
    decode_step bytes lim det pos opened = decode_head bytes lim det pos opened initial (Some a) (pos + head_len a)"
proof -
  obtain initial where "slice_byte bytes pos = Inr (initial, pos + 1)" "drop_bit 5 initial = major"
    "initial AND 31 = info_of a" "initial \<noteq> 0xff" "\<And>start det. argument bytes (pos + 1) initial start det = Inr (Some a, pos + head_len a)"
    using argument_head [OF assms] by blast
  then show ?thesis by (auto simp: decode_step_def)
qed

lemma of_nat_length: "n < 2 ^ 64 \<Longrightarrow> unat (of_nat n :: u64) = n"
  by (rule unat_of_nat_64)

lemma uint_of_int_64: "0 \<le> i \<Longrightarrow> i < 2 ^ 64 \<Longrightarrow> uint (of_int i :: u64) = i"
  by (simp add: unsigned_of_int take_bit_int_eq_self)

lemma length_heads: "length (head_bytes m a) = head_len a"
  by (rule length_head_bytes)

text \<open>Scalars.\<close>

lemma step_integer:
  assumes "drop pos bytes = enc c (VInteger i) @ rest" "- (2 ^ 64) \<le> i" "i < 2 ^ 64"
  shows "decode_step bytes lim det pos opened = finish bytes (pos + length (enc c (VInteger i))) det opened (VInteger i) pos"
proof -
  obtain major a where h: "integer_head i = (major, a)" by fastforce
  then have m: "major < 8" by (auto simp: integer_head_def split: if_splits)
  obtain initial where s: "drop_bit 5 initial = major"
     "decode_step bytes lim det pos opened = decode_head bytes lim det pos opened initial (Some a) (pos + head_len a)"
    using decode_step_head [OF _ m, of pos bytes a rest lim det opened] assms(1) h by auto
  have "major = 0 \<and> uint a = i \<or> major = 1 \<and> - 1 - uint a = i"
    using h assms(2,3) uint_of_int_64 [of i] uint_of_int_64 [of "- 1 - i"] by (auto simp: integer_head_def split: if_splits)
  then show ?thesis using s h by (auto simp: decode_head_def Let_def length_heads)
qed

lemma string_chunk_at:
  assumes "drop p bytes = bs @ rest" "length bs < 2 ^ 64" "p \<le> length bytes"
  shows "string_chunk bytes p major False (of_nat (length bs)) start = Inr (bs, p + length bs)"
proof -
  have "length bytes - p = length bs + length rest" using arg_cong [OF assms(1), of length] by simp
  then show ?thesis using assms(1,2) by (simp add: string_chunk_def slice_take_def of_nat_length)
qed

lemma drop_append_head:
  assumes "drop pos bytes = head @ rest"
  shows "drop (pos + length head) bytes = rest" "pos + length head \<le> length bytes \<or> rest = [] \<and> head = []"
proof -
  have "drop (pos + length head) bytes = drop (length head) (drop pos bytes)" by (simp add: add.commute)
  then show "drop (pos + length head) bytes = rest" using assms by simp
  show "pos + length head \<le> length bytes \<or> rest = [] \<and> head = []"
    using arg_cong [OF assms, of length] by (cases "pos \<le> length bytes") auto
qed

lemma step_string:
  assumes d: "drop pos bytes = head_bytes major (of_nat (length bs)) @ bs @ rest" and m: "major = 2 \<or> major = 3"
    and l: "length bs < 2 ^ 64" "major = 3 \<longrightarrow> utf8_valid bs"
  shows "decode_step bytes lim det pos opened =
    finish bytes (pos + (head_len (of_nat (length bs)) + length bs)) det opened (if major = 2 then VBytes bs else VText bs) pos"
proof -
  have m8: "major < 8" using m by auto
  obtain initial where s: "drop_bit 5 initial = major"
     "decode_step bytes lim det pos opened = decode_head bytes lim det pos opened initial (Some (of_nat (length bs))) (pos + head_len (of_nat (length bs)))"
    using decode_step_head [OF d m8, of lim det opened] by auto
  have "drop (pos + head_len (of_nat (length bs))) bytes = bs @ rest" "pos + head_len (of_nat (length bs)) \<le> length bytes"
    using drop_append_head [OF d] length_heads [of major "of_nat (length bs)"] by (auto simp: head_len_eq split: if_splits)
  from string_chunk_at [OF this(1) l(1) this(2)]
  have "string_value bytes (pos + head_len (of_nat (length bs))) major (Some (of_nat (length bs))) det pos =
     Inr (if major = 2 then VBytes bs else VText bs, pos + head_len (of_nat (length bs)) + length bs)"
    using m l(2) by (auto simp: string_value_def string_bytes_def usize_from_def)
  then show ?thesis using m s by (auto simp: decode_head_def Let_def add.assoc)
qed

lemma unat_small_ucast: "unat (ucast (n :: u8) :: u64) = unat n"
  using unat_ucast_fits [of n, where 'b = 64] unsigned_less [of n, where 'a = nat] by simp

lemma step_simple_head:
  assumes "drop pos bytes = head_bytes 7 a @ rest"
    "\<And>initial. initial AND 31 = info_of a \<Longrightarrow> simple_or_float initial a pos det = Inr v"
  shows "decode_step bytes lim det pos opened = finish bytes (pos + head_len a) det opened v pos"
  using decode_step_head [OF assms(1), of lim det opened] assms(2) by (auto simp: decode_head_def Let_def)

lemma step_simple:
  assumes d: "drop pos bytes = head_bytes SIMPLE (ucast n) @ rest" and n: "n \<le> 19 \<or> n = 23 \<or> 32 \<le> n"
  shows "decode_step bytes lim det pos opened = finish bytes (pos + head_len (ucast n)) det opened (VSimple n) pos"
proof (rule step_simple_head [OF d [unfolded SIMPLE_def]])
  fix initial :: u8
  assume i: "initial AND 31 = info_of (ucast n)"
  have u: "unat n < 2 ^ 8" using unsigned_less [of n, where 'a = nat] by simp
  show "simple_or_float initial (ucast n) pos det = Inr (VSimple n)"
  proof (cases "unat n < 24")
    case True
    have "(ucast (ucast n :: u64) :: u8) = n"
      using unat_ucast_fits [of "ucast n :: u64", where 'b = 8] u by (simp add: word_unat_eq_iff unat_small_ucast)
    moreover have "n \<le> 19 \<or> n = 23" using n True by (auto simp: word_le_nat_alt word_unat_eq_iff)
    moreover from this have "n \<noteq> 20" "n \<noteq> 21" "n \<noteq> 22" by auto
    ultimately show ?thesis using i True by (auto simp: simple_or_float_def Let_def info_of_def unat_small_ucast)
  next
    case False
    then have "32 \<le> n" using n by (auto simp: word_le_nat_alt)
    moreover have "(ucast (ucast n :: u64) :: u8) = n"
      using unat_ucast_fits [of "ucast n :: u64", where 'b = 8] u by (simp add: word_unat_eq_iff unat_small_ucast)
    ultimately show ?thesis using i False u
      by (simp add: simple_or_float_def Let_def info_of_def unat_small_ucast word_less_nat_alt word_le_nat_alt)
  qed
qed

lemma step_constant:
  "drop pos bytes = 0xf4 # rest \<Longrightarrow> decode_step bytes lim det pos opened = finish bytes (pos + 1) det opened (VBool False) pos"
  "drop pos bytes = 0xf5 # rest \<Longrightarrow> decode_step bytes lim det pos opened = finish bytes (pos + 1) det opened (VBool True) pos"
  "drop pos bytes = 0xf6 # rest \<Longrightarrow> decode_step bytes lim det pos opened = finish bytes (pos + 1) det opened VNull pos"
  using step_simple_head [of pos bytes 20 rest det "VBool False" lim opened]
    step_simple_head [of pos bytes 21 rest det "VBool True" lim opened] step_simple_head [of pos bytes 22 rest det VNull lim opened]
  by (simp_all add: head_bytes_cases simple_or_float_def Let_def info_of_def head_len_eq)

text \<open>Floats: the three widths.\<close>

lemma be_bytes_ucast: "8 * k \<le> LENGTH('a) \<Longrightarrow> LENGTH('a) \<le> LENGTH('b) \<Longrightarrow> be_bytes k (ucast (w :: 'a::len word) :: 'b::len word) = be_bytes k w"
proof -
  assume l: "8 * k \<le> LENGTH('a)" "LENGTH('a) \<le> LENGTH('b)"
  have "(ucast (drop_bit (8 * i) (ucast w :: 'b word)) :: u8) = ucast (drop_bit (8 * i) w)" if "i < k" for i
  proof -
    have "8 * i + 8 \<le> 8 * k" using that by simp
    then show ?thesis using l by (intro bit_eqI) (auto simp: bit_simps)
  qed
  then show ?thesis by (simp add: be_bytes_def le_bytes_def)
qed

lemma step_float_width:
  assumes d: "drop pos bytes = initial # be_bytes k a @ rest"
    and i: "initial \<noteq> 0xff" "drop_bit 5 initial = 7" "info_width (initial AND 31) = Some k" "\<not> initial AND 31 \<le> 23" "initial AND 31 \<noteq> 31"
    and a: "unat a < 256 ^ k" "simple_or_float initial a pos det = Inr v"
  shows "decode_step bytes lim det pos opened = finish bytes (pos + (1 + k)) det opened v pos"
proof -
  note n = drop_nth [OF d]
  have "length bytes - Suc pos = k + length rest" using arg_cong [OF n [THEN conjunct2, THEN conjunct2], of length] by simp
  then have "Suc pos + k \<le> length bytes" using n by linarith
  then have "argument_loop bytes (Suc pos) k 0 = Inr (a, Suc pos + k)"
    using argument_loop_fold [of "Suc pos" k bytes 0] of_be_bytes_trunc [OF a(1)] n by (simp add: fold_be)
  then have "argument bytes (Suc pos) initial pos det = Inr (Some a, Suc pos + k)"
    using i by (simp add: argument_def Let_def)
  then show ?thesis using n i a(2) by (simp add: decode_step_def slice_byte_def decode_head_def Let_def)
qed

lemma step_float:
  assumes d: "drop pos bytes = float_bytes x @ rest" and q: "quiet_float x"
  shows "decode_step bytes lim det pos opened = finish bytes (pos + length (float_bytes x)) det opened (VFloat x) pos"
proof -
  have width: ?thesis if f: "float_bytes x = initial # be_bytes k a" "drop_bit 5 initial = 7" "info_width (initial AND 31) = Some k"
      "\<not> initial AND 31 \<le> 23" "initial AND 31 \<noteq> 31" "unat a < 256 ^ k" "simple_or_float initial a pos det = Inr (VFloat x)" for initial k a
  proof -
    have "initial \<noteq> 0xff" using f(5) by auto
    from step_float_width [OF _ this f(2-7), of bytes rest lim opened] d show ?thesis by (simp add: f(1))
  qed
  show ?thesis
  proof (cases "f16_bits x")
    case (Some h)
    have "unat (ucast h :: u64) < 256 ^ 2" using unat_ucast_fits [of h, where 'b = 64] unsigned_less [of h, where 'a = nat] by simp
    moreover have "be_bytes 2 h = be_bytes 2 (ucast h :: u64)" by (rule be_bytes_ucast [symmetric]) simp_all
    moreover have "(ucast (ucast h :: u64) :: u16) = h" by (rule bit_eqI) (auto simp: bit_simps)
    ultimately show ?thesis using f16_round(1) [OF Some] Some
      by (intro width [of "0xf9" 2 "ucast h"]) (simp_all add: float_bytes_cases info_width_def simple_or_float_def float_item_def)
  next
    case None
    show ?thesis
    proof (cases "f32_bits x")
      case (Some s)
      have "unat (ucast s :: u64) < 256 ^ 4" using unat_ucast_fits [of s, where 'b = 64] unsigned_less [of s, where 'a = nat] by simp
      moreover have "be_bytes 4 s = be_bytes 4 (ucast s :: u64)" by (rule be_bytes_ucast [symmetric]) simp_all
      moreover have "(ucast (ucast s :: u64) :: u32) = s" by (rule bit_eqI) (auto simp: bit_simps)
      moreover have "f32_to_f64 s = x" using f32_round(1) [OF Some] q None Some by (simp add: quiet_float_def)
      ultimately show ?thesis using None Some
        by (intro width [of "0xfa" 4 "ucast s"]) (simp_all add: float_bytes_cases info_width_def simple_or_float_def float_item_def)
    next
      case N2: None
      have "unat x < 256 ^ 8" using unsigned_less [of x, where 'a = nat] by simp
      then show ?thesis using None N2
        by (intro width [of "0xfb" 8 x]) (simp_all add: float_bytes_cases info_width_def simple_or_float_def float_item_def)
    qed
  qed
qed

text \<open>Containers open and take their children one by one.\<close>

lemma step_tag:
  "drop pos bytes = head_bytes TAG t @ rest \<Longrightarrow> length opened < lim \<Longrightarrow>
   decode_step bytes lim det pos opened = Inr (pos + head_len t, Inr (OTag pos t # opened))"
  using decode_step_head [of pos bytes TAG t rest lim det opened] by (auto simp: decode_head_def Let_def TAG_def)

lemma step_array:
  "drop pos bytes = head_bytes ARRAY n @ rest \<Longrightarrow> length opened < lim \<Longrightarrow>
   decode_step bytes lim det pos opened =
     (if n = 0 then finish bytes (pos + head_len n) det opened (VArray []) pos
      else Inr (pos + head_len n, Inr (OArray pos (Some n) [] # opened)))"
  using decode_step_head [of pos bytes ARRAY n rest lim det opened] by (auto simp: decode_head_def Let_def ARRAY_def usize_from_def)

lemma step_map:
  "drop pos bytes = head_bytes MAP n @ rest \<Longrightarrow> length opened < lim \<Longrightarrow>
   decode_step bytes lim det pos opened =
     (if n = 0 then finish bytes (pos + head_len n) det opened (VMap []) pos
      else Inr (pos + head_len n, Inr (OMap pos (Some n) [] None None # opened)))"
  using decode_step_head [of pos bytes MAP n rest lim det opened] by (auto simp: decode_head_def Let_def MAP_def usize_from_def)

lemma finish_tag: "finish bytes p det (OTag s t # opened) v st = finish bytes p det opened (VTag t v) s"
  by (simp add: finish_def)

lemma finish_array:
  "m < 2 ^ 64 \<Longrightarrow> finish bytes p det (OArray s (Some (of_nat (Suc m))) its # opened) v st =
     (if m = 0 then finish bytes p det opened (VArray (its @ [v])) s
      else Inr (p, Inr (OArray s (Some (of_nat m)) (its @ [v]) # opened)))"
  using of_nat_length [of m] by (auto simp: finish_def word_unat_eq_iff)

lemma finish_map_value:
  "m < 2 ^ 64 \<Longrightarrow> finish bytes p det (OMap s (Some (of_nat (Suc m))) es (Some k) last_key # opened) v st =
     (if m = 0 then finish bytes p det opened (VMap (es @ [(k, v)])) s
      else Inr (p, Inr (OMap s (Some (of_nat m)) (es @ [(k, v)]) None last_key # opened)))"
  using of_nat_length [of m] by (auto simp: finish_def word_unat_eq_iff)

lemma finish_map_key:
  "\<not> (det \<and> (case last_key of None \<Rightarrow> False | Some (f, t) \<Rightarrow> slice_range st p bytes \<le> slice_range f t bytes)) \<Longrightarrow>
   finish bytes p det (OMap s n es None last_key # opened) v st =
     Inr (p, Inr (OMap s n es (Some v) (if det then Some (st, p) else last_key) # opened))"
  by (simp add: finish_def)

text \<open>The decoder crosses one encoded value.\<close>

definition crosses :: "bytes \<Rightarrow> nat \<Rightarrow> bool \<Rightarrow> cvalue \<Rightarrow> bool" where
  "crosses bytes lim det v \<longleftrightarrow> (\<forall>pos opened rest. drop pos bytes = enc False v @ rest \<longrightarrow> length opened + depth_of v \<le> lim \<longrightarrow>
     decode_loop bytes lim det pos opened = proceed bytes lim det (finish bytes (pos + length (enc False v)) det opened v pos))"

lemma crossesD:
  "crosses bytes lim det v \<Longrightarrow> drop pos bytes = enc False v @ rest \<Longrightarrow> length opened + depth_of v \<le> lim \<Longrightarrow>
   decode_loop bytes lim det pos opened = proceed bytes lim det (finish bytes (pos + length (enc False v)) det opened v pos)"
  unfolding crosses_def by blast

lemma drop_after: "drop pos bytes = xs @ ys \<Longrightarrow> drop (pos + length xs) bytes = ys"
  by (metis add.commute append_eq_conv_conj drop_drop)

lemma array_items:
  assumes "todo \<noteq> []" "length todo < 2 ^ 64" "drop pos bytes = concat (map (enc False) todo) @ rest"
    "\<forall>v\<in>set todo. crosses bytes lim det v \<and> Suc (length opened) + depth_of v \<le> lim"
  shows "decode_loop bytes lim det pos (OArray s (Some (of_nat (length todo))) before # opened) =
    proceed bytes lim det (finish bytes (pos + length (concat (map (enc False) todo))) det opened (VArray (before @ todo)) s)"
  using assms
proof (induction todo arbitrary: pos before)
  case (Cons v todo)
  let ?p = "pos + length (enc False v)" and ?o = "OArray s (Some (of_nat (Suc (length todo)))) before # opened"
  have d: "drop pos bytes = enc False v @ concat (map (enc False) todo) @ rest" using Cons.prems(3) by simp
  have "decode_loop bytes lim det pos ?o = proceed bytes lim det (finish bytes ?p det ?o v pos)"
    using Cons.prems(4) by (intro crossesD [OF _ d]) simp_all
  also have "\<dots> = proceed bytes lim det (finish bytes (pos + length (concat (map (enc False) (v # todo)))) det opened (VArray (before @ v # todo)) s)"
  proof (cases "todo = []")
    case True
    then show ?thesis using finish_array [of 0 bytes ?p det s before opened v pos] by simp
  next
    case False
    have "length todo < 2 ^ 64" "\<forall>v\<in>set todo. crosses bytes lim det v \<and> Suc (length opened) + depth_of v \<le> lim"
      using Cons.prems(2,4) by simp_all
    from Cons.IH [OF False this(1) drop_after [OF d] this(2), of "before @ [v]"] show ?thesis
      using finish_array [of "length todo" bytes ?p det s before opened v pos] False Cons.prems(2)
      by (simp add: add.assoc)
  qed
  finally show ?case by simp
qed simp

definition key_above :: "bytes \<Rightarrow> (nat \<times> nat) option \<Rightarrow> bytes \<Rightarrow> bool" where
  "key_above bytes last_key k \<longleftrightarrow> (case last_key of None \<Rightarrow> True | Some (f, t) \<Rightarrow> slice_range f t bytes < k)"

lemma map_entries:
  assumes "todo \<noteq> []" "length todo < 2 ^ 64" "drop pos bytes = concat (map (\<lambda>e. enc False (fst e) @ enc False (snd e)) todo) @ rest"
    "\<forall>e\<in>set todo. crosses bytes lim det (fst e) \<and> crosses bytes lim det (snd e) \<and>
      Suc (length opened) + depth_of (fst e) \<le> lim \<and> Suc (length opened) + depth_of (snd e) \<le> lim"
    "det \<longrightarrow> sorted_wrt (<) (map (\<lambda>e. enc False (fst e)) todo) \<and> (\<forall>e\<in>set todo. key_above bytes last_key (enc False (fst e)))"
  shows "decode_loop bytes lim det pos (OMap s (Some (of_nat (length todo))) before None last_key # opened) =
    proceed bytes lim det (finish bytes (pos + length (concat (map (\<lambda>e. enc False (fst e) @ enc False (snd e)) todo))) det opened (VMap (before @ todo)) s)"
  using assms
proof (induction todo arbitrary: pos before last_key)
  case (Cons e todo)
  obtain k v where e: "e = (k, v)" by fastforce
  let ?rest = "concat (map (\<lambda>e. enc False (fst e) @ enc False (snd e)) todo)"
  let ?p = "pos + length (enc False k)" and ?n = "Some (of_nat (Suc (length todo))) :: u64 option"
  let ?q = "?p + length (enc False v)" and ?lk = "if det then Some (pos, ?p) else last_key"
  have d: "drop pos bytes = enc False k @ enc False v @ ?rest @ rest" using Cons.prems(3) by (simp add: e)
  have sl: "slice_range pos ?p bytes = enc False k" by (simp add: slice_range_def d)
  have ka: "\<not> (det \<and> (case last_key of None \<Rightarrow> False | Some (f, t) \<Rightarrow> slice_range pos ?p bytes \<le> slice_range f t bytes))"
    using Cons.prems(5) by (auto simp: sl e key_above_def not_le split: option.splits)
  have c: "crosses bytes lim det k" "crosses bytes lim det v" "Suc (length opened) + depth_of k \<le> lim" "Suc (length opened) + depth_of v \<le> lim"
    using Cons.prems(4) by (simp_all add: e)
  have "decode_loop bytes lim det pos (OMap s ?n before None last_key # opened) =
      proceed bytes lim det (finish bytes ?p det (OMap s ?n before None last_key # opened) k pos)"
    using c(3) by (intro crossesD [OF c(1) d]) simp
  also have "\<dots> = decode_loop bytes lim det ?p (OMap s ?n before (Some k) ?lk # opened)"
    by (simp only: finish_map_key [OF ka] proceed_open)
  also have "\<dots> = proceed bytes lim det (finish bytes ?q det (OMap s ?n before (Some k) ?lk # opened) v ?p)"
    using c(4) by (intro crossesD [OF c(2) drop_after [OF d]]) simp
  also have "\<dots> = proceed bytes lim det (finish bytes (?q + length ?rest) det opened (VMap (before @ e # todo)) s)"
  proof (cases "todo = []")
    case True
    then show ?thesis using finish_map_value [of 0 bytes ?q det s before k ?lk opened v ?p] by (simp add: e)
  next
    case False
    have *: "length todo < 2 ^ 64" "\<forall>e\<in>set todo. crosses bytes lim det (fst e) \<and> crosses bytes lim det (snd e) \<and>
      Suc (length opened) + depth_of (fst e) \<le> lim \<and> Suc (length opened) + depth_of (snd e) \<le> lim"
      using Cons.prems(2,4) by simp_all
    have **: "det \<longrightarrow> sorted_wrt (<) (map (\<lambda>e. enc False (fst e)) todo) \<and> (\<forall>e\<in>set todo. key_above bytes ?lk (enc False (fst e)))"
      using Cons.prems(5) by (simp add: key_above_def sl e)
    from Cons.IH [OF False *(1) _ *(2) **, of ?q "before @ [e]"] show ?thesis
      using finish_map_value [of "length todo" bytes ?q det s before k ?lk opened v ?p] False Cons.prems(2)
        drop_after [OF drop_after [OF d]]
      by (simp add: e)
  qed
  finally show ?case by (simp add: e add.assoc)
qed simp

lemma value_crosses: "value_ok v \<Longrightarrow> (det \<longrightarrow> keys_sorted v) \<Longrightarrow> crosses bytes lim det v"
proof (induction v rule: measure_induct_rule [where f = nodes])
  case (less v)
  show ?case unfolding crosses_def
  proof (intro allI impI)
    fix pos rest and opened :: "open_item list"
    assume d: "drop pos bytes = enc False v @ rest" and l: "length opened + depth_of v \<le> lim"
    have scalar: "decode_loop bytes lim det pos opened = proceed bytes lim det (finish bytes (pos + length (enc False v)) det opened v pos)"
      if "decode_step bytes lim det pos opened = finish bytes (pos + length (enc False v)) det opened v pos"
      using that by (simp add: decode_loop_proceed [of bytes lim det pos])
    show "decode_loop bytes lim det pos opened = proceed bytes lim det (finish bytes (pos + length (enc False v)) det opened v pos)"
    proof (cases v)
      case (VInteger i)
      show ?thesis by (rule scalar) (use step_integer [of pos bytes False i rest lim det opened] d less.prems(1) in \<open>simp add: VInteger\<close>)
    next
      case (VBytes bs)
      show ?thesis by (rule scalar) (use step_string [of pos bytes 2 bs rest lim det opened] d less.prems(1) in \<open>simp add: VBytes BYTES_def length_heads\<close>)
    next
      case (VText str)
      show ?thesis by (rule scalar) (use step_string [of pos bytes 3 str rest lim det opened] d less.prems(1) in \<open>simp add: VText TEXT_def length_heads\<close>)
    next
      case (VFloat x)
      show ?thesis by (rule scalar) (use step_float [of pos bytes x rest lim det opened] d less.prems(1) in \<open>simp add: VFloat\<close>)
    next
      case (VBool b)
      show ?thesis by (rule scalar) (use step_constant(1,2) [of pos bytes rest lim det opened] d in \<open>cases b; simp add: VBool\<close>)
    next
      case VNull
      show ?thesis by (rule scalar) (use step_constant(3) [of pos bytes rest lim det opened] d in \<open>simp add: VNull\<close>)
    next
      case (VSimple n)
      show ?thesis by (rule scalar) (use step_simple [of pos bytes n rest lim det opened] d less.prems(1) in \<open>simp add: VSimple length_heads\<close>)
    next
      case (VTag t item)
      have h: "drop pos bytes = head_bytes TAG t @ enc False item @ rest" using d by (simp add: VTag)
      have "crosses bytes lim det item" using less.prems by (intro less.IH) (simp_all add: VTag)
      from crossesD [OF this, of "pos + head_len t" rest "OTag pos t # opened"] l drop_after [OF h]
      show ?thesis using step_tag [OF h, of opened lim det]
        by (simp add: decode_loop_proceed [of bytes lim det pos] VTag finish_tag length_heads add.assoc)
    next
      case (VArray items)
      have h: "drop pos bytes = head_bytes ARRAY (of_nat (length items)) @ concat (map (enc False) items) @ rest" using d by (simp add: VArray)
      have n: "length items < 2 ^ 64" using less.prems(1) by (simp add: VArray)
      have "\<forall>v\<in>set items. crosses bytes lim det v \<and> Suc (length opened) + depth_of v \<le> lim"
      proof
        fix v' assume v': "v' \<in> set items"
        have "crosses bytes lim det v'" using v' less.prems by (intro less.IH) (auto simp: VArray list_all_iff)
        moreover have "depth_of v' \<le> foldr max (map depth_of items) 0" using v' by (intro foldr_max) simp
        ultimately show "crosses bytes lim det v' \<and> Suc (length opened) + depth_of v' \<le> lim" using l by (simp add: VArray)
      qed
      from array_items [OF _ n _ this, of "pos + head_len (of_nat (length items))" rest pos "[]"] drop_after [OF h]
      show ?thesis using step_array [OF h, of opened lim det] l n of_nat_length [OF n]
        by (cases "items = []") (simp_all add: decode_loop_proceed [of bytes lim det pos] VArray length_heads add.assoc word_unat_eq_iff)
    next
      case (VMap entries)
      let ?body = "concat (map (\<lambda>e. enc False (fst e) @ enc False (snd e)) entries)"
      have en: "enc False v = head_bytes MAP (of_nat (length entries)) @ ?body" by (simp add: VMap comp_def)
      have h: "drop pos bytes = head_bytes MAP (of_nat (length entries)) @ ?body @ rest" using d by (simp add: en)
      have n: "length entries < 2 ^ 64" using less.prems(1) by (simp add: VMap)
      have c: "\<forall>e\<in>set entries. crosses bytes lim det (fst e) \<and> crosses bytes lim det (snd e) \<and>
        Suc (length opened) + depth_of (fst e) \<le> lim \<and> Suc (length opened) + depth_of (snd e) \<le> lim"
      proof
        fix e assume e: "e \<in> set entries"
        have "crosses bytes lim det (fst e)" "crosses bytes lim det (snd e)"
          using e less.prems by (intro less.IH; auto simp: VMap list_all_iff dest: nodes_children)+
        moreover have "max (depth_of (fst e)) (depth_of (snd e)) \<le> foldr max (map (\<lambda>e. max (depth_of (fst e)) (depth_of (snd e))) entries) 0"
          using e by (intro foldr_max) auto
        ultimately show "crosses bytes lim det (fst e) \<and> crosses bytes lim det (snd e) \<and>
          Suc (length opened) + depth_of (fst e) \<le> lim \<and> Suc (length opened) + depth_of (snd e) \<le> lim" using l by (simp add: VMap)
      qed
      have k: "det \<longrightarrow> sorted_wrt (<) (map (\<lambda>e. enc False (fst e)) entries) \<and> (\<forall>e\<in>set entries. key_above bytes None (enc False (fst e)))"
        using less.prems(2) by (simp add: VMap key_above_def)
      from map_entries [OF _ n _ c k, of "pos + head_len (of_nat (length entries))" rest pos "[]"] drop_after [OF h]
      have "entries \<noteq> [] \<Longrightarrow> decode_loop bytes lim det (pos + head_len (of_nat (length entries))) (OMap pos (Some (of_nat (length entries))) [] None None # opened) =
        proceed bytes lim det (finish bytes (pos + length (enc False v)) det opened v pos)"
        unfolding en by (simp add: VMap length_heads add.assoc)
      then show ?thesis using step_map [OF h, of opened lim det] l n of_nat_length [OF n]
        by (cases "entries = []") (simp_all add: decode_loop_proceed [of bytes lim det pos] VMap length_heads word_unat_eq_iff)
    qed
  qed
qed

lemma decode_loop_root:
  assumes "value_ok v" "det \<longrightarrow> keys_sorted v" "depth_of v \<le> lim"
  shows "decode_loop (enc False v @ rest) lim det 0 [] = Inr (v, length (enc False v))"
  using crossesD [OF value_crosses [OF assms(1,2)], of 0 "enc False v @ rest" rest "[]" lim] assms(3)
  by (simp add: finish_def proceed_def)

section \<open>Sorting the maps of a value\<close>

text \<open>The value that a deterministic encoding stands for: every map in the order of its encoded keys.\<close>

function sort_maps :: "cvalue \<Rightarrow> cvalue" where
  "sort_maps (VTag tag item) = VTag tag (sort_maps item)"
| "sort_maps (VArray items) = VArray (map sort_maps items)"
| "sort_maps (VMap entries) = VMap (sort_key (\<lambda>e. enc False (fst e)) (map (\<lambda>e. (sort_maps (fst e), sort_maps (snd e))) entries))"
| "sort_maps (VInteger i) = VInteger i"
| "sort_maps (VBytes bs) = VBytes bs"
| "sort_maps (VFloat x) = VFloat x"
| "sort_maps (VText str) = VText str"
| "sort_maps (VBool b) = VBool b"
| "sort_maps VNull = VNull"
| "sort_maps (VSimple n) = VSimple n"
  by pat_completeness auto
termination by (relation "measure nodes") auto









lemma sort_maps_id: "keys_sorted v \<Longrightarrow> sort_maps v = v"
proof (induction v rule: measure_induct_rule [where f = nodes])
  case (less v)
  show ?case
  proof (cases v)
    case (VArray items)
    then show ?thesis using less by (simp add: list_all_iff map_idI)
  next
    case (VMap entries)
    have "map (\<lambda>e. (sort_maps (fst e), sort_maps (snd e))) entries = entries"
      using less by (intro map_idI) (auto simp: VMap list_all_iff dest: nodes_children)
    moreover have "sorted (map (\<lambda>e. enc False (fst e)) entries)" using less.prems by (simp add: VMap strict_sorted_iff)
    ultimately show ?thesis by (simp add: VMap sorted_sort_id sort_key_id_if_sorted)
  qed (use less in simp_all)
qed

section \<open>Properties\<close>

text \<open>C28: Encoding as-is and decoding is the identity on every well-formed value, in front of any bytes:
  \<open>decode_prefix\<close> returns the value and exactly the number of bytes \<open>encode\<close> wrote, and
  \<open>decode\<close> accepts the encoding. The depth cap is met by the value's own nesting depth.\<close>

theorem encode_decode:
  assumes "value_ok v" "depth_of v \<le> lim"
  shows "\<exists>bs. encode v = Some bs \<and> decode_prefix (bs @ rest) lim = Inr (v, length bs) \<and> decode_all bs lim = Inr v"
  using decode_loop_root [OF assms(1) _ assms(2), of False] decode_loop_root [OF assms(1) _ assms(2), of False "[]"]
  by (simp add: encode_def write_value_def run_value decode_prefix_def decode_item_def decode_all_def del: run.simps(2))

lemma encode_decode_witness:
  "\<exists>bs. encode (VArray [VInteger (- 1), VText [0x61], VFloat 0x3ff8000000000000]) = Some bs \<and>
     decode_all bs DEFAULT_DEPTH = Inr (VArray [VInteger (- 1), VText [0x61], VFloat 0x3ff8000000000000])"
proof -
  have "f16_bits 0x3ff8000000000000 = Some 0x3e00" by code_simp
  then show ?thesis using encode_decode [of "VArray [VInteger (- 1), VText [0x61], VFloat 0x3ff8000000000000]" DEFAULT_DEPTH "[]"]
    by (auto simp: quiet_float_def DEFAULT_DEPTH_def)
qed



end
