(* ===== verification/CborExact.thy ===== *)
theory CborExact
  imports CborRoundTrip
begin

text \<open>
  The deterministic decoder accepts nothing but canonical encodings: an invariant of its stack
  machine says that the bytes consumed so far are the encodings of the open items' parts.
  A float that needs binary32 and is a NaN is set apart: its signalling patterns widen to the same
  binary64 as the quiet ones.
\<close>

section \<open>Values without binary32 NaNs\<close>







section \<open>Heads read back are heads written\<close>









section \<open>Scalars\<close>







section \<open>One step\<close>










section \<open>The stack\<close>



















lemma of_nat_remaining: "unat (n :: u64) \<noteq> 0 \<Longrightarrow> of_nat (Suc k) + (n - 1) = of_nat k + (n :: u64)"
  by simp






section \<open>The loop\<close>






section \<open>Properties\<close>



text \<open>Why the property leaves NaNs of binary32 out: one that signals is accepted although it is not the
  canonical encoding of any value, its value being that of the quiet pattern. This rests on the conversion
  \<open>f64::from(f32)\<close> setting the quiet bit, as the usual hardware does.\<close>

lemma signalling_nan_accepted:
  "\<exists>v. decode_deterministic [0xfa, 0x7f, 0x80, 0, 1] DEFAULT_DEPTH = Inr v \<and> canonical v = Some [0xfa, 0x7f, 0xc0, 0, 1] \<and>
     decode_deterministic [0xfa, 0x7f, 0xc0, 0, 1] DEFAULT_DEPTH = Inr v"
proof -
  have "decode_deterministic [0xfa, 0x7f, 0x80, 0, 1] DEFAULT_DEPTH = Inr (VFloat 0x7ff8000020000000)"
    "decode_deterministic [0xfa, 0x7f, 0xc0, 0, 1] DEFAULT_DEPTH = Inr (VFloat 0x7ff8000020000000)" by code_simp+
  moreover have "canonical (VFloat 0x7ff8000020000000) = Some [0xfa, 0x7f, 0xc0, 0, 1]" by code_simp
  ultimately show ?thesis by blast
qed

end
