(* ===== verification/CborSequence.thy ===== *)
theory CborSequence
  imports CborRoundTrip
begin

text \<open>
  Items in front of other bytes: what the decoder reads does not depend on the bytes after it, and
  an input that ends inside an item is reported as truncated. With the round trip this gives the
  behaviour of the sequence decoders on intact and on torn sequences.
\<close>

section \<open>Two inputs, one a prefix of the other\<close>

definition truncated :: "decode_error + 'a \<Rightarrow> bool" where
  "truncated r \<longleftrightarrow> (\<exists>e. r = Inl e \<and> de_kind e = Truncated)"

text \<open>The result on the prefix of length \<open>n\<close> is the result on the whole, or it is a truncation and the
  whole was not read within the prefix.\<close>

definition agrees :: "('a \<Rightarrow> nat) \<Rightarrow> nat \<Rightarrow> decode_error + 'a \<Rightarrow> decode_error + 'a \<Rightarrow> bool" where
  "agrees at n r1 r2 \<longleftrightarrow> r1 = r2 \<or> truncated r1 \<and> (\<forall>x. r2 = Inr x \<longrightarrow> n < at x)"

lemma truncated_simps [simp]: "truncated (Inl e) \<longleftrightarrow> de_kind e = Truncated" "\<not> truncated (Inr x)"
  by (simp_all add: truncated_def)

lemma decode_fail_kind [simp]: "de_kind (decode_fail k off) = k"
  by (simp add: decode_fail_def)

lemma agrees_refl [simp]: "agrees at n r r"
  by (simp add: agrees_def)

lemma agreesD: "agrees at n r1 r2 \<Longrightarrow> r2 = Inr x \<Longrightarrow> at x \<le> n \<Longrightarrow> r1 = Inr x"
  by (auto simp: agrees_def)

lemma agrees_bind:
  assumes "agrees snd n m1 m2" "\<And>x p. m1 = Inr (x, p) \<Longrightarrow> p \<le> n"
    "\<And>x p. m2 = Inr (x, p) \<Longrightarrow> p \<le> n \<Longrightarrow> agrees at n (k1 x p) (k2 x p)"
    "\<And>x p y. m2 = Inr (x, p) \<Longrightarrow> k2 x p = Inr y \<Longrightarrow> p \<le> at y"
  shows "agrees at n (case m1 of Inl e \<Rightarrow> Inl e | Inr (x, p) \<Rightarrow> k1 x p) (case m2 of Inl e \<Rightarrow> Inl e | Inr (x, p) \<Rightarrow> k2 x p)"
proof (cases "m1 = m2")
  case True
  then show ?thesis using assms(2,3) by (auto split: sum.splits)
next
  case False
  then obtain e where e: "m1 = Inl e" "de_kind e = Truncated" "\<And>x p. m2 = Inr (x, p) \<Longrightarrow> n < p"
    using assms(1) by (auto simp: agrees_def truncated_def)
  have "n < at y" if "(case m2 of Inl e \<Rightarrow> Inl e | Inr (x, p) \<Rightarrow> k2 x p) = Inr y" for y
  proof -
    obtain x p where m: "m2 = Inr (x, p)" "k2 x p = Inr y" using \<open>_ = Inr y\<close> by (auto split: sum.splits)
    show ?thesis using e(3) [OF m(1)] assms(4) [OF m] by simp
  qed
  then show ?thesis using e by (simp add: agrees_def)
qed

lemma slice_byte_agrees: "pos \<le> length bytes \<Longrightarrow> agrees snd (length bytes) (slice_byte bytes pos) (slice_byte (bytes @ rest) pos)"
  by (auto simp: slice_byte_def agrees_def nth_append)

lemma slice_take_agrees: "pos \<le> length bytes \<Longrightarrow> agrees snd (length bytes) (slice_take bytes pos len) (slice_take (bytes @ rest) pos len)"
  by (auto simp: slice_take_def agrees_def)

lemma argument_loop_agrees:
  "pos \<le> length bytes \<Longrightarrow> agrees snd (length bytes) (argument_loop bytes pos width v) (argument_loop (bytes @ rest) pos width v)"
proof (induction bytes pos width v rule: argument_loop.induct)
  case (2 bytes pos width v)
  show ?case unfolding argument_loop.simps(2)
  proof (rule agrees_bind [OF slice_byte_agrees [OF 2(2)]])
    fix b p assume "slice_byte (bytes @ rest) pos = Inr (b, p)" "p \<le> length bytes"
    then show "agrees snd (length bytes) (argument_loop bytes p width (push_bit 8 v OR ucast b)) (argument_loop (bytes @ rest) p width (push_bit 8 v OR ucast b))"
      using 2(1) [of "(b, p)" b p] by (auto simp: slice_byte_def nth_append split: if_splits)
  qed (auto dest: slice_byte_pos argument_loop_pos)
qed simp

lemma argument_agrees:
  assumes "pos \<le> length bytes"
  shows "agrees snd (length bytes) (argument bytes pos initial start det) (argument (bytes @ rest) pos initial start det)"
proof -
  have "agrees snd (length bytes)
     (case argument_loop bytes pos width 0 of Inl e \<Rightarrow> Inl e | Inr (v, pos) \<Rightarrow> if P width v then Inl e1 else Inr (Some v, pos))
     (case argument_loop (bytes @ rest) pos width 0 of Inl e \<Rightarrow> Inl e | Inr (v, pos) \<Rightarrow> if P width v then Inl e1 else Inr (Some v, pos))" for P width e1
    by (rule agrees_bind [OF argument_loop_agrees [OF assms]]) (use assms in \<open>auto dest: argument_loop_pos split: if_splits\<close>)
  then show ?thesis by (auto simp: argument_def Let_def split: option.splits)
qed

lemma next_string_chunk_agrees:
  assumes "pos \<le> length bytes"
  shows "agrees snd (length bytes) (next_string_chunk bytes pos major) (next_string_chunk (bytes @ rest) pos major)"
  unfolding next_string_chunk_def
proof (rule agrees_bind [OF slice_byte_agrees [OF assms]], goal_cases)
  case (2 b p)
  have "agrees snd (length bytes)
     (case argument bytes p b pos False of Inl e \<Rightarrow> Inl e | Inr (a, q) \<Rightarrow> (case a of None \<Rightarrow> Inl e1 | Some len \<Rightarrow> Inr (Some (len, pos), q)))
     (case argument (bytes @ rest) p b pos False of Inl e \<Rightarrow> Inl e | Inr (a, q) \<Rightarrow> (case a of None \<Rightarrow> Inl e1 | Some len \<Rightarrow> Inr (Some (len, pos), q)))" for e1
    by (rule agrees_bind [OF argument_agrees [OF 2(2)]]) (use 2 in \<open>auto dest: argument_pos split: option.splits\<close>)
  moreover have "(case r of Inl e \<Rightarrow> Inl e | Inr (a, q) \<Rightarrow> (case a of None \<Rightarrow> Inl e1 | Some len \<Rightarrow> Inr (Some (len, pos), q))) =
    (case r of Inl e \<Rightarrow> Inl e | Inr (None, q) \<Rightarrow> Inl e1 | Inr (Some len, q) \<Rightarrow> Inr (Some (len, pos), q))" for r e1
    by (auto split: sum.splits option.splits)
  ultimately show ?case by simp
qed (auto dest: slice_byte_pos argument_pos split: if_splits sum.splits option.splits)

lemma string_chunk_agrees:
  assumes "pos \<le> length bytes"
  shows "agrees snd (length bytes) (string_chunk bytes pos major ind len at) (string_chunk (bytes @ rest) pos major ind len at)"
  unfolding string_chunk_def
  by (rule agrees_bind [OF slice_take_agrees [OF assms]]) (use assms in \<open>auto dest: slice_take_pos split: if_splits\<close>)

lemma chunk_step_pos:
  "string_chunk bytes p major True len at = Inr (chunk, q) \<Longrightarrow> chunk_loop bytes q major acc = Inr (x, r) \<Longrightarrow> p \<le> r"
  using string_chunk_pos [of bytes p major True len at chunk q] chunk_loop_pos [of bytes q major acc x r] by simp

lemma chunk_loop_agrees:
  "pos \<le> length bytes \<Longrightarrow> agrees snd (length bytes) (chunk_loop bytes pos major acc) (chunk_loop (bytes @ rest) pos major acc)"
proof (induction bytes pos major acc rule: chunk_loop.induct)
  case (1 bytes pos major acc)
  have flat: "chunk_loop bs pos major acc = (case next_string_chunk bs pos major of Inl e \<Rightarrow> Inl e
    | Inr (c, p) \<Rightarrow> (case c of None \<Rightarrow> Inr (acc, p) | Some (len, at) \<Rightarrow> (case string_chunk bs p major True len at of Inl e \<Rightarrow> Inl e
       | Inr (chunk, q) \<Rightarrow> chunk_loop bs q major (acc @ chunk))))" for bs
    by (subst chunk_loop.simps) (auto split: sum.splits option.splits)
  show ?case unfolding flat
  proof (rule agrees_bind [OF next_string_chunk_agrees [OF 1(2)]], goal_cases)
    case (2 c p)
    note p = 2(2)
    show ?case
    proof (cases c)
      case (Some la)
      obtain len at where c: "c = Some (len, at)" using Some by (cases la) auto
      have n: "next_string_chunk bytes pos major = Inr (c, p)" 
        by (rule agreesD [OF next_string_chunk_agrees [OF 1(2)] 2(1)]) (simp add: 2(2))
      have "agrees snd (length bytes)
        (case string_chunk bytes p major True len at of Inl e \<Rightarrow> Inl e | Inr (chunk, q) \<Rightarrow> chunk_loop bytes q major (acc @ chunk))
        (case string_chunk (bytes @ rest) p major True len at of Inl e \<Rightarrow> Inl e | Inr (chunk, q) \<Rightarrow> chunk_loop (bytes @ rest) q major (acc @ chunk))"
      proof (rule agrees_bind [OF string_chunk_agrees [OF 2(2)]], goal_cases)
        case (2 chunk q)
        have "string_chunk bytes p major True len at = Inr (chunk, q)"
          by (rule agreesD [OF string_chunk_agrees [OF p] 2(1)]) (simp add: 2(2))
        from 1(1) [OF n _ c _ this] 2 show ?case by simp
      qed (use 2 in \<open>auto dest: string_chunk_pos chunk_loop_pos\<close>)
      then show ?thesis by (simp add: c)
    qed simp
  qed (use 1(2) in \<open>auto dest: next_string_chunk_pos chunk_step_pos split: option.splits sum.splits\<close>)
qed

lemma string_bytes_agrees:
  assumes "pos \<le> length bytes"
  shows "agrees snd (length bytes) (string_bytes bytes pos major len det start) (string_bytes (bytes @ rest) pos major len det start)"
  by (simp add: string_bytes_def chunk_loop_agrees string_chunk_agrees assms split: option.splits)

lemma string_value_agrees:
  assumes "pos \<le> length bytes"
  shows "agrees snd (length bytes) (string_value bytes pos major len det start) (string_value (bytes @ rest) pos major len det start)"
  unfolding string_value_def
  by (rule agrees_bind [OF string_bytes_agrees [OF assms]]) (use assms in \<open>auto dest: string_bytes_pos split: if_splits\<close>)

text \<open>Attaching reads nothing outside the deterministic form.\<close>

lemma attach_plain: "attach bytes pos False opened v start = attach bytes' pos False opened v start"
  by (induction bytes pos False opened v start rule: attach.induct) (auto split: option.splits)

lemma finish_plain: "finish bytes pos False opened v start = finish bytes' pos False opened v start"
  by (simp add: finish_def attach_plain [of bytes pos opened v start bytes'])

lemma decode_head_agrees:
  assumes "pos \<le> length bytes"
  shows "agrees fst (length bytes) (decode_head bytes lim False start opened initial arg pos) (decode_head (bytes @ rest) lim False start opened initial arg pos)"
proof (cases "drop_bit 5 initial = 2 \<or> drop_bit 5 initial = 3")
  case True
  then have "decode_head bs lim False start opened initial arg pos =
      (case string_value bs pos (drop_bit 5 initial) arg False start of Inl e \<Rightarrow> Inl e | Inr (v, pos) \<Rightarrow> finish bs pos False opened v start)" for bs
    by (auto simp: decode_head_def Let_def)
  moreover have "agrees fst (length bytes)
    (case string_value bytes pos major arg False start of Inl e \<Rightarrow> Inl e | Inr (v, pos) \<Rightarrow> finish bytes pos False opened v start)
    (case string_value (bytes @ rest) pos major arg False start of Inl e \<Rightarrow> Inl e | Inr (v, pos) \<Rightarrow> finish (bytes @ rest) pos False opened v start)" for major
    by (rule agrees_bind [OF string_value_agrees [OF assms]])
      (use assms finish_plain [of bytes _ opened _ start "bytes @ rest"] in \<open>auto dest: string_value_pos finish_pos\<close>)
  ultimately show ?thesis by simp
next
  case False
  then have "decode_head bytes lim False start opened initial arg pos = decode_head (bytes @ rest) lim False start opened initial arg pos"
    unfolding decode_head_def Let_def finish_plain [of bytes _ opened _ start "bytes @ rest"] by (simp only: if_False)
  then show ?thesis by simp
qed

lemma decode_step_agrees:
  assumes "start \<le> length bytes"
  shows "agrees fst (length bytes) (decode_step bytes lim False start opened) (decode_step (bytes @ rest) lim False start opened)"
  unfolding decode_step_def
proof (rule agrees_bind [OF slice_byte_agrees [OF assms]], goal_cases)
  case (2 initial pos)
  have "agrees fst (length bytes)
    (case argument bytes pos initial start False of Inl e \<Rightarrow> Inl e | Inr (arg, pos) \<Rightarrow> decode_head bytes lim False start opened initial arg pos)
    (case argument (bytes @ rest) pos initial start False of Inl e \<Rightarrow> Inl e | Inr (arg, pos) \<Rightarrow> decode_head (bytes @ rest) lim False start opened initial arg pos)"
    by (rule agrees_bind [OF argument_agrees [OF 2(2)]]) (use 2 in \<open>auto dest: argument_pos decode_head_pos intro: decode_head_agrees\<close>)
  then show ?case using finish_plain [of bytes pos _ _ _ "bytes @ rest"] by (auto split: sum.splits)
qed (fastforce dest!: slice_byte_pos argument_pos decode_head_pos finish_pos split: if_splits sum.splits)+

lemma decode_loop_agrees:
  "start \<le> length bytes \<Longrightarrow> agrees snd (length bytes) (decode_loop bytes lim False start opened) (decode_loop (bytes @ rest) lim False start opened)"
proof (induction bytes lim False start opened rule: decode_loop.induct)
  case (1 bytes lim start opened)
  have flat: "decode_loop bs lim False start opened = (case decode_step bs lim False start opened of Inl e \<Rightarrow> Inl e
    | Inr (p, r) \<Rightarrow> (case r of Inl v \<Rightarrow> Inr (v, p) | Inr opened \<Rightarrow> decode_loop bs lim False p opened))" for bs
    by (subst decode_loop.simps) (auto split: sum.splits)
  note step = decode_step_agrees [OF 1(2), of lim opened rest]
  show ?case
  proof (cases "decode_step (bytes @ rest) lim False start opened")
    case (Inl e)
    then show ?thesis using step unfolding flat by (auto simp: agrees_def truncated_def)
  next
    case (Inr pr)
    obtain p r where pr: "pr = (p, r)" by (cases pr)
    show ?thesis
    proof (cases "p \<le> length bytes")
      case True
      then have s: "decode_step bytes lim False start opened = Inr (p, r)" using agreesD [OF step Inr] pr by simp
      then show ?thesis unfolding flat Inr pr using 1(1) [OF s refl] True by (auto split: sum.splits)
    next
      case False
      then have "truncated (decode_step bytes lim False start opened)"
        using step Inr pr decode_step_pos [of bytes lim False start opened p r] by (auto simp: agrees_def)
      moreover have "p \<le> q" if "decode_loop (bytes @ rest) lim False start opened = Inr (v, q)" for v q
        using that decode_loop_pos [of "bytes @ rest" lim False p _ v q] unfolding flat Inr pr by (fastforce split: sum.splits)
      ultimately show ?thesis using False unfolding flat [of bytes] by (fastforce simp: agrees_def truncated_def)
    qed
  qed
qed

section \<open>Prefixes and sequences\<close>

lemma decode_prefix_agrees: "agrees snd (length bytes) (decode_prefix bytes lim) (decode_prefix (bytes @ rest) lim)"
  by (simp add: decode_prefix_def decode_item_def decode_loop_agrees)

lemma decode_prefix_pos: "decode_prefix bytes lim = Inr (v, used) \<Longrightarrow> 0 < used \<and> used \<le> length bytes"
  unfolding decode_prefix_def decode_item_def by (rule decode_loop_pos)

fun items_at :: "nat \<Rightarrow> cvalue list \<Rightarrow> (nat \<times> cvalue) list" where
  "items_at pos [] = []"
| "items_at pos (v # vs) = (pos, v) # items_at (pos + length (enc False v)) vs"

lemma encode_enc: "encode v = Some (enc False v)"
  by (simp add: encode_def write_value_def run_value del: run.simps(2))

lemma decode_prefix_enc: "value_ok v \<Longrightarrow> depth_of v \<le> lim \<Longrightarrow> decode_prefix (enc False v @ rest) lim = Inr (v, length (enc False v))"
  by (simp add: decode_prefix_def decode_item_def decode_loop_root)

lemma decode_prefix_truncated:
  assumes "decode_prefix bytes lim = Inr (v, used)" "k < used"
  shows "truncated (decode_prefix (take k bytes) lim)"
proof -
  have k: "length (take k bytes) < used" using decode_prefix_pos [OF assms(1)] assms(2) by simp
  have "agrees snd (length (take k bytes)) (decode_prefix (take k bytes) lim) (decode_prefix bytes lim)"
    using decode_prefix_agrees [of "take k bytes" lim "drop k bytes"] by simp
  then show ?thesis using assms(1) k decode_prefix_pos [of "take k bytes" lim v used] by (auto simp: agrees_def)
qed

lemma decode_prefix_front:
  assumes "decode_prefix bytes lim = Inr (v, used)"
  shows "decode_prefix (take used bytes @ rest) lim = Inr (v, used)"
proof -
  have u: "used \<le> length bytes" using decode_prefix_pos [OF assms] by simp
  then have "decode_prefix (take used bytes) lim = Inr (v, used)"
    using agreesD [OF decode_prefix_agrees [of "take used bytes" lim "drop used bytes"], of "(v, used)"] assms by simp
  then show ?thesis using decode_prefix_agrees [of "take used bytes" lim rest] by (auto simp: agrees_def)
qed

lemma sequence_loop_items:
  "\<forall>v\<in>set vs. value_ok v \<and> depth_of v \<le> lim \<Longrightarrow> drop pos bytes = concat (map (enc False) vs) @ tail \<Longrightarrow>
   sequence_loop bytes lim pos items = sequence_loop bytes lim (pos + length (concat (map (enc False) vs))) (items @ items_at pos vs)"
proof (induction vs arbitrary: pos items)
  case (Cons v vs)
  have d: "drop pos bytes = enc False v @ concat (map (enc False) vs) @ tail" using Cons.prems(2) by simp
  have p: "decode_prefix (drop pos bytes) lim = Inr (v, length (enc False v))" using Cons.prems(1) by (simp add: d decode_prefix_enc)
  have "0 < length bytes - pos" using decode_prefix_pos [OF p] unfolding length_drop by linarith
  then have "pos < length bytes" by simp
  then have "sequence_loop bytes lim pos items = sequence_loop bytes lim (pos + length (enc False v)) (items @ [(pos, v)])"
    by (subst sequence_loop.simps) (simp add: p)
  also have "\<dots> = sequence_loop bytes lim (pos + length (enc False v) + length (concat (map (enc False) vs))) ((items @ [(pos, v)]) @ items_at (pos + length (enc False v)) vs)"
    by (rule Cons.IH) (use Cons.prems(1) drop_after [OF d] in auto)
  finally show ?case by (simp add: add.assoc)
qed simp

abbreviation sequence_bytes :: "cvalue list \<Rightarrow> bytes" where
  "sequence_bytes vs \<equiv> concat (map (enc False) vs)"

lemma sequence_loop_end:
  assumes "\<forall>v\<in>set vs. value_ok v \<and> depth_of v \<le> lim"
  shows "sequence_loop (sequence_bytes vs) lim 0 [] = (items_at 0 vs, None)"
    "tail \<noteq> [] \<Longrightarrow> decode_prefix tail lim = Inl e \<Longrightarrow>
     sequence_loop (sequence_bytes vs @ tail) lim 0 [] = (items_at 0 vs, Some (length (sequence_bytes vs), e))"
proof -
  have s: "sequence_loop (sequence_bytes vs @ tail) lim 0 [] =
      sequence_loop (sequence_bytes vs @ tail) lim (length (sequence_bytes vs)) (items_at 0 vs)" for tail
    using sequence_loop_items [OF assms, of 0 "sequence_bytes vs @ tail" tail "[]"] by simp
  show "sequence_loop (sequence_bytes vs) lim 0 [] = (items_at 0 vs, None)"
    using s [of "[]"] by (simp add: sequence_loop.simps [of _ _ "length (sequence_bytes vs)"] del: length_concat)
  show "tail \<noteq> [] \<Longrightarrow> decode_prefix tail lim = Inl e \<Longrightarrow>
     sequence_loop (sequence_bytes vs @ tail) lim 0 [] = (items_at 0 vs, Some (length (sequence_bytes vs), e))"
    unfolding s by (subst sequence_loop.simps) simp
qed

section \<open>Properties\<close>

text \<open>C32: Items are self-delimiting: an item decoded at the front of some bytes is decoded, with the same
  length, in front of any other bytes, and every proper prefix of it is refused as truncated.\<close>

theorem items_self_delimiting:
  assumes "decode_prefix bytes lim = Inr (v, used)"
  shows "0 < used \<and> used \<le> length bytes \<and> decode_prefix (take used bytes @ rest) lim = Inr (v, used) \<and>
    (\<forall>k<used. \<exists>e. decode_prefix (take k bytes) lim = Inl e \<and> de_kind e = Truncated)"
  using decode_prefix_pos [OF assms] decode_prefix_front [OF assms] decode_prefix_truncated [OF assms]
  by (auto simp: truncated_def)

lemma items_self_delimiting_witness:
  "decode_prefix ([0x82, 0, 0x41, 7] @ [0xff]) 1 = Inr (VArray [VInteger 0, VBytes [7]], 4) \<and>
   (\<exists>e. decode_prefix [0x82, 0] 1 = Inl e \<and> de_kind e = Truncated)"
proof -
  have "decode_prefix [0x82, 0, 0x41, 7, 1] 1 = Inr (VArray [VInteger 0, VBytes [7]], 4)" by code_simp
  from items_self_delimiting [OF this, of "[0xff]"] show ?thesis by (auto dest: spec [of _ 2])
qed

text \<open>C33: Sequences: the concatenated encodings of well-formed values decode to all of them with their
  offsets and no failure. When a last item is cut anywhere, the intact items are still returned and
  the failure names the offset where the cut item starts, with a truncation as its cause; a tail
  that is malformed in any other way is reported with its own error.\<close>

theorem sequences_recover:
  assumes "\<forall>v\<in>set vs. value_ok v \<and> depth_of v \<le> lim" "those (map encode vs) = Some encs"
  shows "decode_sequence_checked (concat encs) lim = \<lparr>ds_items = items_at 0 vs, ds_failure = None\<rparr> \<and>
    (decode_prefix tail lim = Inl e \<and> tail \<noteq> [] \<longrightarrow>
      decode_sequence_checked (concat encs @ tail) lim = \<lparr>ds_items = items_at 0 vs, ds_failure = Some \<lparr>se_offset = length (concat encs), se_cause = e\<rparr>\<rparr> \<and>
      decode_sequence (concat encs @ tail) lim = (items_at 0 vs, Some (length (concat encs)))) \<and>
    (value_ok w \<and> depth_of w \<le> lim \<and> encode w = Some bs \<and> 0 < k \<and> k < length bs \<longrightarrow>
      decode_sequence (concat encs @ take k bs) lim = (items_at 0 vs, Some (length (concat encs))) \<and>
      (\<exists>e. decode_prefix (take k bs) lim = Inl e \<and> de_kind e = Truncated))"
proof (intro conjI impI; (elim conjE)?)
  have e: "concat encs = sequence_bytes vs"
    using assms(2) by (induction vs arbitrary: encs) (auto simp: encode_enc)
  note ends = sequence_loop_end [OF assms(1)]
  note defs = decode_sequence_checked_def decode_sequence_def decode_sequence_with_def e
  show "decode_sequence_checked (concat encs) lim = \<lparr>ds_items = items_at 0 vs, ds_failure = None\<rparr>"
    by (simp add: defs ends(1) del: length_concat)
  show "decode_sequence_checked (concat encs @ tail) lim = \<lparr>ds_items = items_at 0 vs, ds_failure = Some \<lparr>se_offset = length (concat encs), se_cause = e\<rparr>\<rparr>"
    "decode_sequence (concat encs @ tail) lim = (items_at 0 vs, Some (length (concat encs)))"
    if "decode_prefix tail lim = Inl e" "tail \<noteq> []"
    by (simp_all add: defs ends(2) [OF that(2,1)] del: length_concat)
  assume w: "value_ok w" "depth_of w \<le> lim" "encode w = Some bs" "0 < k" "k < length bs"
  then have "decode_prefix bs lim = Inr (w, length bs)" using decode_prefix_enc [of w lim "[]"] by (simp add: encode_enc)
  from decode_prefix_truncated [OF this w(5)] obtain e where t: "decode_prefix (take k bs) lim = Inl e" "de_kind e = Truncated"
    by (auto simp: truncated_def)
  have "take k bs \<noteq> []" using w(4,5) by auto
  then show "decode_sequence (concat encs @ take k bs) lim = (items_at 0 vs, Some (length (concat encs)))"
    "\<exists>e. decode_prefix (take k bs) lim = Inl e \<and> de_kind e = Truncated"
    using t by (simp_all add: defs ends(2) del: length_concat)
qed

lemma sequences_recover_witness:
  "decode_sequence ([0x01, 0x81, 0x20] @ take 2 [0x42, 7, 8]) 1 = ([(0, VInteger 1), (1, VArray [VInteger (- 1)])], Some 3)"
proof -
  have e: "those (map encode [VInteger 1, VArray [VInteger (- 1)]]) = Some [[0x01], [0x81, 0x20]]"
    "encode (VBytes [7, 8]) = Some [0x42, 7, 8]" "items_at 0 [VInteger 1, VArray [VInteger (- 1)]] = [(0, VInteger 1), (1, VArray [VInteger (- 1)])]"
    by code_simp+
  then show ?thesis
    using sequences_recover [OF _ e(1), of 1 "[]" undefined "VBytes [7, 8]" "[0x42, 7, 8]" 2] by simp
qed

end
