(* ===== verification/ByteScan.thy ===== *)
theory ByteScan
  imports DictPrefix
begin

unbundle bit_operations_syntax

text \<open>
  The byte scanners of \<open>crates/lex/src/scan.rs\<close>: a class of bytes as a table and as runs, and the
  searches for the first member, which test sixteen bytes at a time in lanes and the last few bytes one
  by one. Every search is the position of the first member.
\<close>

section \<open>Classes of bytes\<close>

fun position :: "('a \<Rightarrow> bool) \<Rightarrow> 'a list \<Rightarrow> nat option" where
  "position P [] = None"
| "position P (x # xs) = (if P x then Some 0 else map_option Suc (position P xs))"

definition needle_table :: "bytes \<Rightarrow> bytes" where
  "needle_table needles = foldl (\<lambda>table n. table[unat n := 1]) (replicate 256 0) needles"

definition count_runs :: "bytes \<Rightarrow> nat" where
  "count_runs table = foldl (\<lambda>count i. if table ! i \<noteq> 0 \<and> (i = 0 \<or> table ! (i - 1) = 0) then count + 1 else count)
     0 [0..<length table]"

function run_end :: "bytes \<Rightarrow> nat \<Rightarrow> nat" where
  "run_end table e = (if e + 1 < length table \<and> table ! (e + 1) \<noteq> 0 then run_end table (e + 1) else e)"
  by auto
termination by (relation "measure (\<lambda>(table, e). length table - e)") auto

declare run_end.simps [simp del]

lemma run_end_ge: "e \<le> run_end table e"
  by (induction table e rule: run_end.induct) (subst run_end.simps, auto)

function byte_runs :: "bytes \<Rightarrow> nat \<Rightarrow> (u8 \<times> u8) list" where
  "byte_runs table i =
     (if i < length table then
        if table ! i \<noteq> 0 \<and> (i = 0 \<or> table ! (i - 1) = 0) then
          let e = run_end table i in (of_nat i, of_nat e) # byte_runs table (e + 1)
        else byte_runs table (i + 1)
      else [])"
  by auto
termination
  by (relation "measure (\<lambda>(table, i). length table - i)") (use run_end_ge in \<open>auto intro: diff_less_mono2 le_imp_less_Suc\<close>)

declare byte_runs.simps [simp del]

definition in_runs :: "u8 \<Rightarrow> (u8 \<times> u8) list \<Rightarrow> bool" where
  "in_runs b runs = foldl (\<lambda>hit (lo, hi). hit \<or> b - lo \<le> hi - lo) False runs"

record byte_class =
  bc_table :: bytes
  bc_runs :: "(u8 \<times> u8) list"

definition from_table :: "bytes \<Rightarrow> byte_class" where
  "from_table table = \<lparr>bc_table = table, bc_runs = byte_runs table 0\<rparr>"

definition class_contains :: "byte_class \<Rightarrow> u8 \<Rightarrow> bool" where
  "class_contains c b \<longleftrightarrow> bc_table c ! unat b \<noteq> 0"

section \<open>The searches\<close>

definition SCAN_CHUNK :: nat where "SCAN_CHUNK = 16"

definition lane_of :: "bool \<Rightarrow> u8" where
  "lane_of hit = - (if hit then 1 else 0)"

definition chunk_lanes :: "bytes \<Rightarrow> (u8 \<times> u8) list \<Rightarrow> u8 \<Rightarrow> bytes" where
  "chunk_lanes chunk runs flip = map (\<lambda>b. lane_of (in_runs b runs) XOR flip) chunk"

function find_first_from :: "nat \<Rightarrow> bytes \<Rightarrow> (u8 \<times> u8) list \<Rightarrow> bytes \<Rightarrow> bool \<Rightarrow> nat option" where
  "find_first_from k bs runs table want =
     (if SCAN_CHUNK \<le> length bs then
        let lanes = chunk_lanes (take SCAN_CHUNK bs) runs (if want then 0 else - 1)
        in if foldl (OR) 0 lanes \<noteq> 0 then Some (k * SCAN_CHUNK + trailing_zeros (of_le_bytes lanes :: u128) div 8)
           else find_first_from (k + 1) (drop SCAN_CHUNK bs) runs table want
      else map_option (\<lambda>i. k * SCAN_CHUNK + i) (position (\<lambda>b. (table ! unat b \<noteq> 0) = want) bs))"
  by auto
termination by (relation "measure (\<lambda>(_, bs, _). length bs)") (auto simp: SCAN_CHUNK_def)

declare find_first_from.simps [simp del]

function find_first_in_one_run :: "nat \<Rightarrow> bytes \<Rightarrow> (u8 \<times> u8) list \<Rightarrow> bytes \<Rightarrow> nat option" where
  "find_first_in_one_run k bs runs table =
     (if SCAN_CHUNK \<le> length bs then
        let lanes = chunk_lanes (take SCAN_CHUNK bs) runs 0
        in if foldl max 0 lanes \<noteq> 0 then map_option (\<lambda>first. k * SCAN_CHUNK + first) (position (\<lambda>b. in_runs b runs) (take SCAN_CHUNK bs))
           else find_first_in_one_run (k + 1) (drop SCAN_CHUNK bs) runs table
      else map_option (\<lambda>i. k * SCAN_CHUNK + i) (position (\<lambda>b. table ! unat b \<noteq> 0) bs))"
  by auto
termination by (relation "measure (\<lambda>(_, bs, _). length bs)") (auto simp: SCAN_CHUNK_def)

declare find_first_in_one_run.simps [simp del]

definition class_find_first :: "byte_class \<Rightarrow> bytes \<Rightarrow> nat option" where
  "class_find_first c bs =
     (if length (bc_runs c) = 1 then find_first_in_one_run 0 bs (bc_runs c) (bc_table c)
      else find_first_from 0 bs (bc_runs c) (bc_table c) True)"

definition needle_lanes :: "bytes \<Rightarrow> bytes \<Rightarrow> bytes" where
  "needle_lanes chunk needles = map (\<lambda>b. - foldl (\<lambda>hit n. hit OR (if b = n then 1 else 0)) 0 needles) chunk"

definition merge_lanes :: "bytes list \<Rightarrow> bytes" where
  "merge_lanes parts = foldl (\<lambda>lanes part. map2 (OR) lanes part) (replicate SCAN_CHUNK 0) parts"

definition any_lane :: "bytes \<Rightarrow> bool" where
  "any_lane lanes \<longleftrightarrow> (of_le_bytes lanes :: u128) \<noteq> 0"

function find_needles_in_chunks :: "nat \<Rightarrow> bytes \<Rightarrow> bytes \<Rightarrow> nat option" where
  "find_needles_in_chunks k bs needles =
     (if SCAN_CHUNK \<le> length bs then
        let lanes = map (\<lambda>b. lane_of (foldl (\<lambda>hit n. hit \<or> b = n) False needles)) (take SCAN_CHUNK bs)
        in if foldl max 0 lanes \<noteq> 0 then map_option (\<lambda>first. k * SCAN_CHUNK + first) (position (\<lambda>b. b \<in> set needles) (take SCAN_CHUNK bs))
           else find_needles_in_chunks (k + 1) (drop SCAN_CHUNK bs) needles
      else map_option (\<lambda>i. k * SCAN_CHUNK + i) (position (\<lambda>b. b \<in> set needles) bs))"
  by auto
termination by (relation "measure (\<lambda>(_, bs, _). length bs)") (auto simp: SCAN_CHUNK_def)

declare find_needles_in_chunks.simps [simp del]

text \<open>The blocks of four chunks without a needle; the search then starts after them.\<close>

function skip_blocks :: "nat \<Rightarrow> bytes \<Rightarrow> bytes \<Rightarrow> nat" where
  "skip_blocks skipped bs needles =
     (if 4 * SCAN_CHUNK \<le> length bs then
        let lanes = merge_lanes (map (\<lambda>j. needle_lanes (take SCAN_CHUNK (drop (j * SCAN_CHUNK) bs)) needles) [0, 1, 2, 3])
        in if any_lane lanes then skipped else skip_blocks (skipped + 4 * SCAN_CHUNK) (drop (4 * SCAN_CHUNK) bs) needles
      else skipped)"
  by auto
termination by (relation "measure (\<lambda>(_, bs, _). length bs)") (auto simp: SCAN_CHUNK_def)

declare skip_blocks.simps [simp del]

definition find_needles :: "bytes \<Rightarrow> bytes \<Rightarrow> nat option" where
  "find_needles bs needles =
     (let skipped = skip_blocks 0 bs needles
      in map_option (\<lambda>i. skipped + i) (find_needles_in_chunks 0 (drop skipped bs) needles))"

definition find_byte :: "bytes \<Rightarrow> u8 \<Rightarrow> nat option" where
  "find_byte bs needle = find_needles bs [needle]"

definition find_byte2 :: "bytes \<Rightarrow> u8 \<Rightarrow> u8 \<Rightarrow> nat option" where
  "find_byte2 bs first second = find_needles bs [first, second]"

section \<open>Positions\<close>

lemma position_eq_None: "position P xs = None \<longleftrightarrow> (\<forall>x\<in>set xs. \<not> P x)"
  by (induction xs) auto

lemma position_eq_Some: "position P xs = Some n \<longleftrightarrow> n < length xs \<and> P (xs ! n) \<and> (\<forall>i<n. \<not> P (xs ! i))"
proof (induction xs arbitrary: n)
  case (Cons x xs)
  then show ?case by (cases n) (auto simp: All_less_Suc2)
qed simp

lemma position_cong: "(\<And>x. x \<in> set xs \<Longrightarrow> P x = Q x) \<Longrightarrow> position P xs = position Q xs"
  by (induction xs) auto

lemma position_append: "position P (xs @ ys) =
    (case position P xs of Some i \<Rightarrow> Some i | None \<Rightarrow> map_option (\<lambda>i. length xs + i) (position P ys))"
  by (induction xs) (simp_all add: option.map_comp o_def map_option_case split: option.splits)

lemma position_split: "position P xs =
    (case position P (take k xs) of Some i \<Rightarrow> Some i | None \<Rightarrow> map_option (\<lambda>i. min k (length xs) + i) (position P (drop k xs)))"
  using position_append [of P "take k xs" "drop k xs"] by (simp only: append_take_drop_id length_take min.commute)

lemma position_skip:
  assumes "\<forall>x\<in>set (take k xs). \<not> P x" "k \<le> length xs"
  shows "position P xs = map_option (\<lambda>i. k + i) (position P (drop k xs))"
  using assms position_split [of P xs k] by (simp add: position_eq_None [THEN iffD2])

section \<open>Lanes\<close>

lemma lane_of_simps [simp]: "lane_of True = - 1" "lane_of False = 0" "lane_of hit = 0 \<longleftrightarrow> \<not> hit" "lane_of hit XOR - 1 = lane_of (\<not> hit)"
  by (cases hit; simp add: lane_of_def)+

lemma lane_not: "NOT (lane_of hit) = lane_of (\<not> hit)"
  by (cases hit) simp_all

lemma or_lanes: "foldl (OR) (z :: u8) lanes = 0 \<longleftrightarrow> z = 0 \<and> (\<forall>l\<in>set lanes. l = 0)"
  by (induction lanes arbitrary: z) (auto simp: or_eq_0_iff)

lemma max_lanes: "foldl max (z :: u8) lanes = 0 \<longleftrightarrow> z = 0 \<and> (\<forall>l\<in>set lanes. l = 0)"
  by (induction lanes arbitrary: z) (auto simp: max_def)

lemma of_le_bytes_eq_0:
  assumes len: "8 * length xs \<le> LENGTH('a::len)"
  shows "(of_le_bytes xs :: 'a word) = 0 \<longleftrightarrow> (\<forall>x\<in>set xs. x = 0)"
proof
  assume z: "(of_le_bytes xs :: 'a word) = 0"
  have "xs ! k = 0" if k: "k < length xs" for k
  proof (rule bit_eqI)
    fix i assume "possible_bit TYPE(8 word) i"
    then have i: "i < 8" by simp
    have "\<not> bit (of_le_bytes xs :: 'a word) (8 * k + i)" using z by simp
    then show "bit (xs ! k) i = bit 0 i" using k i len by (simp add: bit_of_le_bytes)
  qed
  then show "\<forall>x\<in>set xs. x = 0" by (auto simp: in_set_conv_nth)
next
  assume "\<forall>x\<in>set xs. x = 0"
  then show "(of_le_bytes xs :: 'a word) = 0" by (induction xs) auto
qed

lemma first_lane:
  assumes len: "8 * length xs \<le> LENGTH('a::len)" and x: "x \<in> set xs" "x \<noteq> 0"
  shows "position (\<lambda>x. x \<noteq> 0) xs = Some (trailing_zeros (of_le_bytes xs :: 'a word) div 8)"
proof -
  let ?w = "of_le_bytes xs :: 'a word" and ?t = "trailing_zeros (of_le_bytes xs :: 'a word)"
  have b: "bit ?w n \<longleftrightarrow> n div 8 < length xs \<and> bit (xs ! (n div 8)) (n mod 8)" for n
    using len by (auto simp: bit_of_le_bytes)
  have nz: "?w \<noteq> 0" using x of_le_bytes_eq_0 [OF len] by blast
  note t = trailing_zeros_bit [OF nz]
  have "xs ! (?t div 8) \<noteq> 0" using t(1) by (auto simp: b)
  moreover have "xs ! j = 0" if j: "j < ?t div 8" for j
  proof (rule bit_eqI)
    fix i assume "possible_bit TYPE(8 word) i"
    then have "8 * j + i < ?t" "i < 8" using j by auto
    moreover have "j < length xs" using j t(1) b by fastforce
    ultimately show "bit (xs ! j) i = bit 0 i" using t(2) b [of "8 * j + i"] by simp
  qed
  ultimately show ?thesis using t(1) by (simp add: position_eq_Some b)
qed

lemma position_map: "position P (map f xs) = position (\<lambda>x. P (f x)) xs"
  by (induction xs) auto

lemma chunk_lanes_want: "chunk_lanes chunk runs (if want then 0 else - 1) = map (\<lambda>b. lane_of (in_runs b runs = want)) chunk"
  by (cases want) (simp_all add: chunk_lanes_def lane_not)

section \<open>Runs of a table\<close>

definition in_run :: "u8 \<Rightarrow> u8 \<times> u8 \<Rightarrow> bool" where
  "in_run b = (\<lambda>(lo, hi). b - lo \<le> hi - lo)"

lemma in_runs_iff: "in_runs b runs \<longleftrightarrow> (\<exists>r\<in>set runs. in_run b r)"
proof -
  have "foldl (\<lambda>hit (lo, hi). hit \<or> b - lo \<le> hi - lo) h runs \<longleftrightarrow> h \<or> (\<exists>r\<in>set runs. in_run b r)" for h
    by (induction runs arbitrary: h) (auto simp: in_run_def)
  then show ?thesis by (simp add: in_runs_def)
qed

lemma in_run_between:
  assumes "i \<le> e" "e < 256"
  shows "in_run b (of_nat i, of_nat e) \<longleftrightarrow> i \<le> unat b \<and> unat b \<le> e"
proof -
  have u: "unat (of_nat i :: u8) = i" "unat (of_nat e :: u8) = e" "unat (of_nat e - of_nat i :: u8) = e - i"
    using assms by (simp_all add: unsigned_of_nat take_bit_nat_eq_self unat_sub_if')
  have "b - of_nat i \<le> (of_nat e - of_nat i :: u8) \<longleftrightarrow> unat (b - of_nat i) \<le> e - i"
    by (simp add: word_le_nat_alt u(3))
  also have "\<dots> \<longleftrightarrow> i \<le> unat b \<and> unat b \<le> e"
  proof (cases "i \<le> unat b")
    case True
    then show ?thesis using u(1) assms by (simp add: unat_sub_if') arith
  next
    case False
    then have "unat (b - of_nat i) = unat b + 256 - i" using u(1) by (simp add: unat_sub_if')
    then show ?thesis using False assms by simp
  qed
  finally show ?thesis by (simp add: in_run_def)
qed

lemma run_end_spec:
  assumes "e < length table" "table ! e \<noteq> 0"
  shows "run_end table e < length table" "\<forall>k. e \<le> k \<and> k \<le> run_end table e \<longrightarrow> table ! k \<noteq> 0"
    "run_end table e + 1 < length table \<longrightarrow> table ! (run_end table e + 1) = 0"
proof -
  have "run_end table e < length table \<and> (\<forall>k. e \<le> k \<and> k \<le> run_end table e \<longrightarrow> table ! k \<noteq> 0) \<and>
      (run_end table e + 1 < length table \<longrightarrow> table ! (run_end table e + 1) = 0)"
    using assms
  proof (induction table e rule: run_end.induct)
    case (1 table e)
    then show ?case
    proof (cases "e + 1 < length table \<and> table ! (e + 1) \<noteq> 0")
      case True
      then have r: "run_end table e = run_end table (e + 1)" by (subst run_end.simps) simp
      have "table ! k \<noteq> 0" if "e \<le> k" "k \<le> run_end table (e + 1)" for k
        using 1 True that by (cases "k = e") auto
      then show ?thesis using 1(1) [OF True] True unfolding r by auto
    next
      case False
      then have r: "run_end table e = e" by (subst run_end.simps) auto
      then show ?thesis using 1(2,3) False unfolding r by (metis le_antisym)
    qed
  qed
  then show "run_end table e < length table" "\<forall>k. e \<le> k \<and> k \<le> run_end table e \<longrightarrow> table ! k \<noteq> 0"
    "run_end table e + 1 < length table \<longrightarrow> table ! (run_end table e + 1) = 0" by blast+
qed

lemma byte_runs_from:
  assumes "length table = 256" "i \<le> 256" "i = 0 \<or> i = 256 \<or> table ! i = 0 \<or> table ! (i - 1) = 0"
  shows "in_runs b (byte_runs table i) \<longleftrightarrow> i \<le> unat b \<and> table ! unat b \<noteq> 0"
  using assms
proof (induction table i rule: byte_runs.induct)
  case (1 table i)
  have ub: "unat b < 256" using unsigned_less [of b] by simp
  show ?case
  proof (cases "i < 256")
    case False
    then show ?thesis using ub by (subst byte_runs.simps) (simp add: in_runs_iff 1(3))
  next
    case i: True
    show ?thesis
    proof (cases "table ! i \<noteq> 0 \<and> (i = 0 \<or> table ! (i - 1) = 0)")
      case True
      let ?e = "run_end table i"
      have e: "i \<le> ?e" "?e < 256" "\<forall>k. i \<le> k \<and> k \<le> ?e \<longrightarrow> table ! k \<noteq> 0" "?e + 1 < 256 \<longrightarrow> table ! (?e + 1) = 0"
        using run_end_spec [of i table] run_end_ge [of i table] i True 1(3) by auto
      have "byte_runs table i = (of_nat i, of_nat ?e) # byte_runs table (?e + 1)"
        using True i 1(3) by (subst byte_runs.simps) (simp add: Let_def)
      moreover have "in_runs b (byte_runs table (?e + 1)) \<longleftrightarrow> ?e + 1 \<le> unat b \<and> table ! unat b \<noteq> 0"
        by (rule 1(1) [OF _ True refl 1(3)]) (use e i 1(3) in auto)
      ultimately show ?thesis using e(1,3) in_run_between [OF e(1,2), of b] by (auto simp: in_runs_iff not_less_eq_eq)
    next
      case False
      then have "byte_runs table i = byte_runs table (i + 1)" using i 1(3) by (subst byte_runs.simps) (simp only: False if_False if_True)
      moreover have z: "table ! i = 0" using False 1(5) i by auto
      then have "in_runs b (byte_runs table (i + 1)) \<longleftrightarrow> i + 1 \<le> unat b \<and> table ! unat b \<noteq> 0"
        by (intro 1(2) [OF _ False 1(3)]) (use i 1(3) in auto)
      ultimately show ?thesis using z by (metis Suc_eq_plus1 le_antisym not_less_eq_eq le_SucI)
    qed
  qed
qed

lemma in_runs_table: "length table = 256 \<Longrightarrow> in_runs b (byte_runs table 0) \<longleftrightarrow> table ! unat b \<noteq> 0"
  by (simp add: byte_runs_from)

section \<open>The searches find the first member\<close>

lemma find_first_from_spec:
  assumes "length table = 256" "runs = byte_runs table 0"
  shows "find_first_from k bs runs table want = map_option (\<lambda>i. k * SCAN_CHUNK + i) (position (\<lambda>b. (table ! unat b \<noteq> 0) = want) bs)"
  using assms
proof (induction k bs runs table want rule: find_first_from.induct)
  case (1 k bs runs table want)
  let ?P = "\<lambda>b. (table ! unat b \<noteq> 0) = want" and ?c = "take SCAN_CHUNK bs"
  let ?lanes = "chunk_lanes ?c runs (if want then 0 else - 1)"
  have lanes: "?lanes = map (\<lambda>b. lane_of (?P b)) ?c" unfolding chunk_lanes_want 1(3) in_runs_table [OF 1(2)] ..
  show ?case
  proof (cases "SCAN_CHUNK \<le> length bs")
    case False
    then show ?thesis by (subst find_first_from.simps) simp
  next
    case len: True
    show ?thesis
    proof (cases "\<exists>b\<in>set ?c. ?P b")
      case False
      then have "foldl (OR) 0 ?lanes = 0" unfolding lanes or_lanes by auto
      then show ?thesis using 1(1) [OF len refl _ 1(2,3)] len position_skip [of SCAN_CHUNK bs ?P] False
        by (subst find_first_from.simps) (simp add: option.map_comp o_def algebra_simps)
    next
      case True
      then obtain b where b: "b \<in> set ?c" "?P b" by blast
      have "position (\<lambda>l. l \<noteq> 0) ?lanes = Some (trailing_zeros (of_le_bytes ?lanes :: u128) div 8)"
        unfolding lanes
      proof (rule first_lane)
        show "lane_of (?P b) \<in> set (map (\<lambda>b. lane_of (?P b)) ?c)" by (simp only: set_map) (rule imageI [OF b(1)])
      qed (use b(2) len in \<open>simp_all add: SCAN_CHUNK_def\<close>)
      then have pos: "position ?P ?c = Some (trailing_zeros (of_le_bytes ?lanes :: u128) div 8)"
        by (subst (asm) lanes) (simp only: position_map lane_of_simps not_not)
      have "foldl (OR) 0 ?lanes \<noteq> 0" unfolding lanes or_lanes using b by auto
      then show ?thesis using len position_split [of ?P bs SCAN_CHUNK] pos by (subst find_first_from.simps) (simp add: Let_def)
    qed
  qed
qed

lemma find_first_in_one_run_spec:
  assumes "length table = 256" "runs = byte_runs table 0"
  shows "find_first_in_one_run k bs runs table = map_option (\<lambda>i. k * SCAN_CHUNK + i) (position (\<lambda>b. table ! unat b \<noteq> 0) bs)"
  using assms
proof (induction k bs runs table rule: find_first_in_one_run.induct)
  case (1 k bs runs table)
  let ?P = "\<lambda>b. table ! unat b \<noteq> 0" and ?c = "take SCAN_CHUNK bs"
  have lanes: "chunk_lanes ?c runs 0 = map (\<lambda>b. lane_of (?P b)) ?c"
    using chunk_lanes_want [of ?c runs True] by (simp add: 1(3) in_runs_table [OF 1(2)])
  have runs: "in_runs b runs \<longleftrightarrow> ?P b" for b by (simp add: 1(3) in_runs_table [OF 1(2)])
  have z: "foldl max 0 (chunk_lanes ?c runs 0) = 0 \<longleftrightarrow> (\<forall>b\<in>set ?c. \<not> ?P b)" unfolding lanes max_lanes by auto
  show ?case
  proof (cases "SCAN_CHUNK \<le> length bs \<and> (\<forall>b\<in>set ?c. \<not> ?P b)")
    case True
    then show ?thesis using 1(1) [OF _ refl _ 1(2,3)] z position_skip [of SCAN_CHUNK bs ?P]
      by (subst find_first_in_one_run.simps) (simp add: option.map_comp o_def algebra_simps)
  next
    case False
    then show ?thesis using z position_split [of ?P bs SCAN_CHUNK] position_eq_None [of ?P ?c]
      by (subst find_first_in_one_run.simps) (auto simp: Let_def runs split: option.splits)
  qed
qed

lemma needle_hit: "foldl (\<lambda>hit n. hit \<or> b = n) h needles \<longleftrightarrow> h \<or> b \<in> set needles"
  by (induction needles arbitrary: h) auto

lemma find_needles_in_chunks_spec:
  "find_needles_in_chunks k bs needles = map_option (\<lambda>i. k * SCAN_CHUNK + i) (position (\<lambda>b. b \<in> set needles) bs)"
proof (induction k bs needles rule: find_needles_in_chunks.induct)
  case (1 k bs needles)
  let ?P = "\<lambda>b. b \<in> set needles" and ?c = "take SCAN_CHUNK bs"
  have z: "foldl max 0 (map (\<lambda>b. lane_of (foldl (\<lambda>hit n. hit \<or> b = n) False needles)) ?c) = 0 \<longleftrightarrow> (\<forall>b\<in>set ?c. \<not> ?P b)"
    unfolding max_lanes needle_hit by auto
  show ?case
  proof (cases "SCAN_CHUNK \<le> length bs \<and> (\<forall>b\<in>set ?c. \<not> ?P b)")
    case True
    then show ?thesis using 1(1) [OF _ refl] z position_skip [of SCAN_CHUNK bs ?P]
      by (subst find_needles_in_chunks.simps) (simp add: option.map_comp o_def algebra_simps)
  next
    case False
    then show ?thesis using z position_split [of ?P bs SCAN_CHUNK] position_eq_None [of ?P ?c]
      by (subst find_needles_in_chunks.simps) (auto simp: Let_def split: option.splits)
  qed
qed

lemma needle_bit: "foldl (\<lambda>hit n. hit OR (if b = n then 1 else 0)) (h :: u8) needles = 0 \<longleftrightarrow> h = 0 \<and> b \<notin> set needles"
  by (induction needles arbitrary: h) (auto simp: or_eq_0_iff)

lemma needle_lanes_clear: "(\<forall>l\<in>set (needle_lanes chunk needles). l = 0) \<longleftrightarrow> (\<forall>b\<in>set chunk. b \<notin> set needles)"
  by (simp add: needle_lanes_def needle_bit)

lemma or_zip_clear: "length (a :: bytes) = length b \<Longrightarrow> (\<forall>l\<in>set (map2 (OR) a b). l = 0) \<longleftrightarrow> (\<forall>l\<in>set a. l = 0) \<and> (\<forall>l\<in>set b. l = 0)"
  by (induction a b rule: list_induct2) (auto simp: or_eq_0_iff)

lemma merge_lanes_clear:
  assumes "\<forall>p\<in>set parts. length p = SCAN_CHUNK"
  shows "length (merge_lanes parts) = SCAN_CHUNK" "(\<forall>l\<in>set (merge_lanes parts). l = 0) \<longleftrightarrow> (\<forall>p\<in>set parts. \<forall>l\<in>set p. l = 0)"
proof -
  have "length (foldl (map2 (OR)) z parts) = SCAN_CHUNK \<and> ((\<forall>l\<in>set (foldl (map2 (OR)) z parts). l = 0) \<longleftrightarrow> (\<forall>l\<in>set z. l = 0) \<and> (\<forall>p\<in>set parts. \<forall>l\<in>set p. l = 0))"
    if "length z = SCAN_CHUNK" for z :: bytes
    using assms that
  proof (induction parts arbitrary: z)
    case (Cons p parts)
    then have "length (map2 (OR) z p) = SCAN_CHUNK" "length z = length p" by simp_all
    then show ?case using Cons.IH [of "map2 (OR) z p"] Cons.prems(1) or_zip_clear [of z p] by simp
  qed simp
  then show "length (merge_lanes parts) = SCAN_CHUNK" "(\<forall>l\<in>set (merge_lanes parts). l = 0) \<longleftrightarrow> (\<forall>p\<in>set parts. \<forall>l\<in>set p. l = 0)"
    by (simp_all add: merge_lanes_def)
qed

lemma four_chunks: "take (4 * SCAN_CHUNK) bs = concat (map (\<lambda>j. take SCAN_CHUNK (drop (j * SCAN_CHUNK) bs)) [0, 1, 2, 3])"
  using take_add [of 16 16 bs] take_add [of 32 16 bs] take_add [of 48 16 bs] by (simp add: SCAN_CHUNK_def)

lemma block_clear:
  assumes "4 * SCAN_CHUNK \<le> length bs"
    and "\<not> any_lane (merge_lanes (map (\<lambda>j. needle_lanes (take SCAN_CHUNK (drop (j * SCAN_CHUNK) bs)) needles) [0, 1, 2, 3]))"
  shows "\<forall>b\<in>set (take (4 * SCAN_CHUNK) bs). b \<notin> set needles"
proof -
  let ?parts = "map (\<lambda>j. needle_lanes (take SCAN_CHUNK (drop (j * SCAN_CHUNK) bs)) needles) [0, 1, 2, 3]"
  have len: "\<forall>p\<in>set ?parts. length p = SCAN_CHUNK" using assms(1) by (simp add: needle_lanes_def SCAN_CHUNK_def)
  have "\<forall>l\<in>set (merge_lanes ?parts). l = 0"
    using assms(2) of_le_bytes_eq_0 [of "merge_lanes ?parts", where 'a = 128] merge_lanes_clear(1) [OF len]
    unfolding any_lane_def by (simp add: SCAN_CHUNK_def)
  then have "\<forall>p\<in>set ?parts. \<forall>l\<in>set p. l = 0" unfolding merge_lanes_clear(2) [OF len] .
  then show ?thesis unfolding four_chunks by (simp add: needle_lanes_clear ball_Un)
qed

lemma skip_blocks_spec:
  "\<exists>m. skip_blocks skipped bs needles = skipped + m \<and> m \<le> length bs \<and> (\<forall>b\<in>set (take m bs). b \<notin> set needles)"
proof (induction skipped bs needles rule: skip_blocks.induct)
  case (1 skipped bs needles)
  let ?lanes = "merge_lanes (map (\<lambda>j. needle_lanes (take SCAN_CHUNK (drop (j * SCAN_CHUNK) bs)) needles) [0, 1, 2, 3])"
  show ?case
  proof (cases "4 * SCAN_CHUNK \<le> length bs \<and> \<not> any_lane ?lanes")
    case True
    then have r: "skip_blocks skipped bs needles = skip_blocks (skipped + 4 * SCAN_CHUNK) (drop (4 * SCAN_CHUNK) bs) needles"
      by (subst skip_blocks.simps) (simp only: Let_def if_True if_False simp_thms)
    obtain m where m: "skip_blocks (skipped + 4 * SCAN_CHUNK) (drop (4 * SCAN_CHUNK) bs) needles = skipped + 4 * SCAN_CHUNK + m"
      "m \<le> length (drop (4 * SCAN_CHUNK) bs)" "\<forall>b\<in>set (take m (drop (4 * SCAN_CHUNK) bs)). b \<notin> set needles"
      using 1 [OF _ refl] True by blast
    have "\<forall>b\<in>set (take (4 * SCAN_CHUNK) bs). b \<notin> set needles" using block_clear True by blast
    then show ?thesis using m True by (intro exI [of _ "4 * SCAN_CHUNK + m"]) (auto simp: r take_add)
  next
    case False
    then have "skip_blocks skipped bs needles = skipped" by (subst skip_blocks.simps) (auto simp: Let_def)
    then show ?thesis by (intro exI [of _ 0]) simp
  qed
qed

lemma find_needles_spec: "find_needles bs needles = position (\<lambda>b. b \<in> set needles) bs"
proof -
  obtain m where m: "skip_blocks 0 bs needles = m" "m \<le> length bs" "\<forall>b\<in>set (take m bs). b \<notin> set needles"
    using skip_blocks_spec [of 0 bs needles] by auto
  show ?thesis unfolding find_needles_def m(1) using position_skip [OF m(3,2)]
    by (simp add: find_needles_in_chunks_spec option.map_comp o_def option.map_ident)
qed

lemma class_find_first_spec:
  assumes "length table = 256"
  shows "class_find_first (from_table table) bs = position (\<lambda>b. table ! unat b \<noteq> 0) bs"
  using find_first_in_one_run_spec [OF assms refl, of 0 bs] find_first_from_spec [OF assms refl, of 0 bs True]
  by (simp add: class_find_first_def from_table_def option.map_ident)

lemma needle_table_from:
  "length t = 256 \<Longrightarrow> length (foldl (\<lambda>table n. table[unat n := 1]) t needles) = 256 \<and>
    (foldl (\<lambda>table n. table[unat n := 1]) t needles ! unat b \<noteq> 0 \<longleftrightarrow> t ! unat b \<noteq> 0 \<or> b \<in> set needles)"
  for t :: bytes and b :: u8
proof (induction needles arbitrary: t)
  case (Cons a needles)
  have u: "unat b < length t" using unsigned_less [of b] Cons.prems by simp
  have "t[unat a := 1] ! unat b \<noteq> 0 \<longleftrightarrow> t ! unat b \<noteq> 0 \<or> b = a"
    using u by (cases "b = a") (simp_all add: nth_list_update word_unat_eq_iff)
  moreover have "length (t[unat a := 1]) = 256" using Cons.prems by simp
  ultimately show ?case using Cons.IH [of "t[unat a := 1]"] by auto
qed simp

lemma needle_table_facts:
  "length (needle_table needles) = 256" "needle_table needles ! unat b \<noteq> 0 \<longleftrightarrow> b \<in> set needles"
proof -
  have "replicate 256 (0 :: u8) ! unat b = 0" using unsigned_less [of b] by (intro nth_replicate) simp
  then show "length (needle_table needles) = 256" "needle_table needles ! unat b \<noteq> 0 \<longleftrightarrow> b \<in> set needles"
    using needle_table_from [of "replicate 256 0" needles b] unfolding needle_table_def by (simp_all only: length_replicate simp_thms)
qed

lemma from_table_contains: "class_contains (from_table table) = (\<lambda>b. table ! unat b \<noteq> 0)"
  by (rule ext) (simp add: class_contains_def from_table_def)

lemma find_bytes_spec: "find_byte bs n = position (\<lambda>b. b = n) bs" "find_byte2 bs n n' = position (\<lambda>b. b = n \<or> b = n') bs"
  by (simp_all only: find_byte_def find_byte2_def find_needles_spec list.set insert_iff empty_iff simp_thms)

section \<open>Property\<close>

text \<open>C11: The chunked scanners find the first member. For any class table the run comparison decides
  membership, and the scan over sixteen-byte lanes returns the position of the first member of the
  class, or nothing when there is none; so does the scan for one or two needles, which first skips
  blocks of sixty-four bytes, at every length of the input.\<close>

theorem scanners_find_first:
  assumes "length table = 256"
  shows "in_runs b (byte_runs table 0) = class_contains (from_table table) b \<and>
    class_find_first (from_table table) bs = position (class_contains (from_table table)) bs \<and>
    find_byte bs n = position (\<lambda>b. b = n) bs \<and> find_byte2 bs n n' = position (\<lambda>b. b = n \<or> b = n') bs"
  using in_runs_table [OF assms, of b] class_find_first_spec [OF assms, of bs] find_bytes_spec [of bs] by (simp only: from_table_contains)

lemma scanners_find_first_witness:
  "class_find_first (from_table (needle_table [0x2F, 0x3F, 0x23])) (replicate 20 0x61 @ [0x3F]) = Some 20"
proof -
  let ?bs = "replicate 20 0x61 @ [0x3F] :: bytes"
  have none: "position (\<lambda>b. b \<in> set [0x2F, 0x3F, 0x23]) (replicate 20 (0x61 :: u8)) = None" by (simp add: position_eq_None)
  have "class_find_first (from_table (needle_table [0x2F, 0x3F, 0x23])) ?bs = position (\<lambda>b. b \<in> set [0x2F, 0x3F, 0x23]) ?bs"
    using scanners_find_first [OF needle_table_facts(1), of 0 "[0x2F, 0x3F, 0x23]" ?bs 0 0] by (simp only: from_table_contains needle_table_facts)
  then show ?thesis unfolding position_append none by simp
qed

end
