(* ===== verification/IriChars.thy ===== *)
theory IriChars
  imports ByteScan
begin

unbundle bit_operations_syntax

text \<open>
  The characters of an IRI (\<open>crates/iri/src/parse.rs\<close>, \<open>host.rs\<close>): the class table of the ASCII grammar,
  the ranges IRIs add, the component validator with its eight-byte precheck, and hex digits
  (\<open>crates/hash/src/hex.rs\<close>). The precheck changes no verdict, error or offset.
\<close>

section \<open>Errors and modes\<close>

datatype mode = ModeIri | ModeUri

datatype authority_error = TrailingIpLiteral | UnterminatedIpLiteral | IpvFutureVersion nat | IpvFutureEmpty nat | InvalidIpv6 nat bytes

datatype base_origin = OriginCaller | OriginDirective u64 u32 | OriginEnclosing
datatype base_in_scope = BaseAbsent | BaseInForce bytes base_origin

text \<open>A character is its code point.\<close>

datatype iri_error = IriEmpty | MissingScheme | BadScheme bytes | BadPercentEncoding nat | DisallowedChar nat nat
  | BadAuthority authority_error | NonAbsoluteBase bytes | NoBase bytes | NotAbsoluteByGrammar bytes base_in_scope

section \<open>ASCII and hex digits\<close>

definition is_ascii_digit :: "u8 \<Rightarrow> bool" where "is_ascii_digit b \<longleftrightarrow> 0x30 \<le> b \<and> b \<le> 0x39"
definition is_ascii_alphabetic :: "u8 \<Rightarrow> bool" where "is_ascii_alphabetic b \<longleftrightarrow> 0x41 \<le> b \<and> b \<le> 0x5A \<or> 0x61 \<le> b \<and> b \<le> 0x7A"
definition is_ascii_alphanumeric :: "u8 \<Rightarrow> bool" where "is_ascii_alphanumeric b \<longleftrightarrow> is_ascii_alphabetic b \<or> is_ascii_digit b"
definition is_ascii_hexdigit :: "u8 \<Rightarrow> bool" where
  "is_ascii_hexdigit b \<longleftrightarrow> is_ascii_digit b \<or> 0x41 \<le> b \<and> b \<le> 0x46 \<or> 0x61 \<le> b \<and> b \<le> 0x66"
definition to_ascii_lowercase :: "u8 \<Rightarrow> u8" where "to_ascii_lowercase b = (if 0x41 \<le> b \<and> b \<le> 0x5A then b + 32 else b)"

definition nibble :: "u8 \<Rightarrow> u8 option" where
  "nibble b =
     (let decimal = b - 0x30; letter = (b OR 0x20) - 0x61; is_decimal = lane_of (decimal < 10); is_letter = lane_of (letter < 6);
          value = (decimal AND is_decimal) OR ((letter + 10) AND is_letter)
      in if NOT (is_decimal OR is_letter) = 0 then Some value else None)"

definition upper_digit :: "u8 \<Rightarrow> u8" where
  "upper_digit n = n + 0x30 + (if 9 < n then 7 else 0)"

section \<open>The class table\<close>

definition UNRESERVED :: u8 where "UNRESERVED = 1"
definition SUB_DELIMS :: u8 where "SUB_DELIMS = 2"
definition COLON :: u8 where "COLON = 4"
definition AT_SIGN :: u8 where "AT_SIGN = 8"
definition SLASH :: u8 where "SLASH = 16"
definition QUESTION :: u8 where "QUESTION = 32"
definition SCHEME_TAIL :: u8 where "SCHEME_TAIL = 64"

definition is_unreserved :: "u8 \<Rightarrow> bool" where
  "is_unreserved b \<longleftrightarrow> is_ascii_alphanumeric b \<or> b \<in> {0x2D, 0x2E, 0x5F, 0x7E}"

definition is_sub_delim :: "u8 \<Rightarrow> bool" where
  "is_sub_delim b \<longleftrightarrow> b \<in> {0x21, 0x24, 0x26, 0x27, 0x28, 0x29, 0x2A, 0x2B, 0x2C, 0x3B, 0x3D}"

definition class_entry :: "u8 \<Rightarrow> u8" where
  "class_entry b = (if is_unreserved b then UNRESERVED else 0) OR (if is_sub_delim b then SUB_DELIMS else 0) OR
     (if b = 0x3A then COLON else 0) OR (if b = 0x40 then AT_SIGN else 0) OR (if b = 0x2F then SLASH else 0) OR
     (if b = 0x3F then QUESTION else 0) OR (if is_ascii_alphanumeric b \<or> b \<in> {0x2B, 0x2D, 0x2E} then SCHEME_TAIL else 0)"

definition class_table :: bytes where
  "class_table = map (\<lambda>i. class_entry (of_nat i)) [0..<128]"

definition ascii_class :: "u8 \<Rightarrow> u8 \<Rightarrow> bool" where
  "ascii_class b cls \<longleftrightarrow> b < 0x80 \<and> class_table ! unat b AND cls \<noteq> 0"

definition class_members :: "u8 \<Rightarrow> bytes" where
  "class_members cls = map (\<lambda>i. if i < length class_table \<and> class_table ! i AND cls \<noteq> 0 then 1 else 0) [0..<256]"

definition sole_member :: "u8 \<Rightarrow> u8" where
  "sole_member cls = of_nat (hd (filter (\<lambda>i. class_table ! i AND cls \<noteq> 0) [0..<length class_table]))"

definition component_base_runs :: "(u8 \<times> u8) list" where
  "component_base_runs = byte_runs (class_members (UNRESERVED OR SUB_DELIMS)) 0"

section \<open>Characters beyond ASCII\<close>

definition is_ucschar :: "nat \<Rightarrow> bool" where
  "is_ucschar u \<longleftrightarrow> (0xA0 \<le> u \<and> u \<le> 0xD7FF) \<or> (0xF900 \<le> u \<and> u \<le> 0xFDCF) \<or> (0xFDF0 \<le> u \<and> u \<le> 0xFFEF) \<or>
     (\<exists>plane\<in>set [1..<0xE]. plane * 0x10000 \<le> u \<and> u \<le> plane * 0x10000 + 0xFFFD) \<or> (0xE1000 \<le> u \<and> u \<le> 0xEFFFD)"

definition is_iprivate :: "nat \<Rightarrow> bool" where
  "is_iprivate u \<longleftrightarrow> (0xE000 \<le> u \<and> u \<le> 0xF8FF) \<or> (0xF0000 \<le> u \<and> u \<le> 0xFFFFD) \<or> (0x100000 \<le> u \<and> u \<le> 0x10FFFD)"

definition iri_extra_ok :: "nat \<Rightarrow> bool \<Rightarrow> mode \<Rightarrow> bool" where
  "iri_extra_ok c allow_iprivate mode \<longleftrightarrow> mode \<noteq> ModeUri \<and> (is_ucschar c \<or> allow_iprivate \<and> is_iprivate c)"

text \<open>The character that starts at the front of well-formed text, and its length in bytes.\<close>

definition front_char :: "bytes \<Rightarrow> nat \<times> nat" where
  "front_char bs =
     (let b = (\<lambda>i. unat (bs ! i)) in
      if b 0 < 0x80 then (b 0, 1)
      else if b 0 < 0xE0 then (b 0 mod 32 * 64 + b 1 mod 64, 2)
      else if b 0 < 0xF0 then (b 0 mod 16 * 4096 + b 1 mod 64 * 64 + b 2 mod 64, 3)
      else (b 0 mod 8 * 262144 + b 1 mod 64 * 4096 + b 2 mod 64 * 64 + b 3 mod 64, 4))"

lemma front_char_length: "0 < snd (front_char bs)"
  by (simp add: front_char_def Let_def)

section \<open>The component validator\<close>

definition trailing_ones :: "'a::len word \<Rightarrow> nat" where
  "trailing_ones w = length (takeWhile (bit w) [0..<LENGTH('a)])"

definition CLEAN_WORD :: nat where "CLEAN_WORD = 8"

definition clean_prefix_len :: "bytes \<Rightarrow> u8 \<Rightarrow> nat" where
  "clean_prefix_len word extra_mask =
     (let colon = (extra_mask AND COLON \<noteq> 0); at = (extra_mask AND AT_SIGN \<noteq> 0);
          slash = (extra_mask AND SLASH \<noteq> 0); question = (extra_mask AND QUESTION \<noteq> 0);
          lanes = map (\<lambda>b. lane_of (in_runs b component_base_runs \<or> (colon \<and> b = sole_member COLON) \<or> (at \<and> b = sole_member AT_SIGN) \<or>
            (slash \<and> b = sole_member SLASH) \<or> (question \<and> b = sole_member QUESTION))) word
      in trailing_ones (of_le_bytes lanes :: u64) div 8)"

text \<open>One turn of the loop without the precheck: done, an error, or the number of bytes accepted.\<close>

definition component_step :: "bytes \<Rightarrow> nat \<Rightarrow> u8 \<Rightarrow> bool \<Rightarrow> mode \<Rightarrow> nat \<Rightarrow> iri_error + nat" where
  "component_step bs base_off allowed allow_iprivate mode i =
     (let b = bs ! i in
      if b = 0x25 then
        if length bs < i + 3 \<or> \<not> is_ascii_hexdigit (bs ! (i + 1)) \<or> \<not> is_ascii_hexdigit (bs ! (i + 2))
        then Inl (BadPercentEncoding (base_off + i)) else Inr (i + 3)
      else if b < 0x80 then
        if ascii_class b allowed then Inr (i + 1) else Inl (DisallowedChar (unat b) (base_off + i))
      else (case front_char (drop i bs) of (c, len) \<Rightarrow>
        if iri_extra_ok c allow_iprivate mode then Inr (i + len) else Inl (DisallowedChar c (base_off + i))))"

lemma component_step_forward: "component_step bs base_off allowed priv mode i = Inr j \<Longrightarrow> i < j"
  using front_char_length [of "drop i bs"] by (auto simp: component_step_def Let_def split: if_splits prod.splits)

function validate_from :: "bytes \<Rightarrow> nat \<Rightarrow> u8 \<Rightarrow> bool \<Rightarrow> mode \<Rightarrow> nat \<Rightarrow> iri_error + unit" where
  "validate_from bs base_off extra_mask allow_iprivate mode i =
     (if i < length bs then
        let run = (if i + CLEAN_WORD \<le> length bs then clean_prefix_len (take CLEAN_WORD (drop i bs)) extra_mask else 0)
        in if run = CLEAN_WORD then validate_from bs base_off extra_mask allow_iprivate mode (i + run)
           else (case component_step bs base_off (UNRESERVED OR SUB_DELIMS OR extra_mask) allow_iprivate mode (i + run) of
               Inl e \<Rightarrow> Inl e
             | Inr j \<Rightarrow> validate_from bs base_off extra_mask allow_iprivate mode j)
      else Inr ())"
  by auto
termination
  by (relation "measure (\<lambda>(bs, _, _, _, _, i). length bs - i)") (auto simp: CLEAN_WORD_def dest!: component_step_forward)

declare validate_from.simps [simp del]

definition validate_component :: "bytes \<Rightarrow> nat \<Rightarrow> u8 \<Rightarrow> bool \<Rightarrow> mode \<Rightarrow> iri_error + unit" where
  "validate_component bs base_off extra_mask allow_iprivate mode = validate_from bs base_off extra_mask allow_iprivate mode 0"

section \<open>Classes as predicates\<close>

lemma length_class_table [simp]: "length class_table = 128"
  by (simp add: class_table_def)

lemma class_table_nth: "b < 0x80 \<Longrightarrow> class_table ! unat b = class_entry b" for b :: u8
  by (simp add: class_table_def word_less_nat_alt)

lemma ascii_class_iff: "ascii_class b m \<longleftrightarrow> b < 0x80 \<and>
    (is_unreserved b \<and> UNRESERVED AND m \<noteq> 0 \<or> is_sub_delim b \<and> SUB_DELIMS AND m \<noteq> 0 \<or> b = 0x3A \<and> COLON AND m \<noteq> 0 \<or>
     b = 0x40 \<and> AT_SIGN AND m \<noteq> 0 \<or> b = 0x2F \<and> SLASH AND m \<noteq> 0 \<or> b = 0x3F \<and> QUESTION AND m \<noteq> 0 \<or>
     (is_ascii_alphanumeric b \<or> b \<in> {0x2B, 0x2D, 0x2E}) \<and> SCHEME_TAIL AND m \<noteq> 0)"
proof -
  have split: "(x OR y) AND m \<noteq> 0 \<longleftrightarrow> x AND m \<noteq> 0 \<or> y AND m \<noteq> 0" for x y :: u8
    by (simp add: bit.conj_disj_distrib2 or_eq_0_iff)
  have guard: "(if P then x else 0) AND m \<noteq> 0 \<longleftrightarrow> P \<and> x AND m \<noteq> 0" for P and x :: u8 by simp
  show ?thesis
    unfolding ascii_class_def by (rule conj_cong [OF refl]) (simp only: class_table_nth class_entry_def split guard disj_assoc)
qed

definition COMPONENT_EXTRAS :: u8 where "COMPONENT_EXTRAS = COLON OR AT_SIGN OR SLASH OR QUESTION"

lemmas class_bits = UNRESERVED_def SUB_DELIMS_def COLON_def AT_SIGN_def SLASH_def QUESTION_def SCHEME_TAIL_def COMPONENT_EXTRAS_def

lemma class_bit_ands:
  "UNRESERVED AND (UNRESERVED OR SUB_DELIMS OR m) = UNRESERVED" "SUB_DELIMS AND (UNRESERVED OR SUB_DELIMS OR m) = SUB_DELIMS"
  "COLON AND (UNRESERVED OR SUB_DELIMS OR m) = COLON AND m" "AT_SIGN AND (UNRESERVED OR SUB_DELIMS OR m) = AT_SIGN AND m"
  "SLASH AND (UNRESERVED OR SUB_DELIMS OR m) = SLASH AND m" "QUESTION AND (UNRESERVED OR SUB_DELIMS OR m) = QUESTION AND m"
  "SCHEME_TAIL AND (UNRESERVED OR SUB_DELIMS OR m) = SCHEME_TAIL AND m"
  "UNRESERVED \<noteq> 0" "SUB_DELIMS \<noteq> 0"
  by (simp_all add: class_bits bit.conj_disj_distrib or_eq_0_iff)

lemma extras_no_tail: "m AND NOT COMPONENT_EXTRAS = 0 \<Longrightarrow> SCHEME_TAIL AND m = 0"
proof -
  assume "m AND NOT COMPONENT_EXTRAS = 0"
  then have "SCHEME_TAIL AND (m AND NOT COMPONENT_EXTRAS) = 0" by simp
  moreover have "SCHEME_TAIL AND NOT COMPONENT_EXTRAS = SCHEME_TAIL" by (simp add: class_bits)
  ultimately show ?thesis by (metis and.assoc and.commute)
qed

text \<open>The bytes a component admits without escaping.\<close>

definition component_char :: "u8 \<Rightarrow> u8 \<Rightarrow> bool" where
  "component_char m b \<longleftrightarrow> is_unreserved b \<or> is_sub_delim b \<or> b = 0x3A \<and> m AND COLON \<noteq> 0 \<or> b = 0x40 \<and> m AND AT_SIGN \<noteq> 0 \<or>
     b = 0x2F \<and> m AND SLASH \<noteq> 0 \<or> b = 0x3F \<and> m AND QUESTION \<noteq> 0"

lemma unreserved_small: "is_unreserved b \<Longrightarrow> b < 0x80" "is_sub_delim b \<Longrightarrow> b < 0x80"
  by (auto simp: is_unreserved_def is_sub_delim_def is_ascii_alphanumeric_def is_ascii_alphabetic_def is_ascii_digit_def intro: le_less_trans)

lemma component_class:
  assumes "m AND NOT COMPONENT_EXTRAS = 0"
  shows "ascii_class b (UNRESERVED OR SUB_DELIMS OR m) \<longleftrightarrow> component_char m b"
  unfolding ascii_class_iff component_char_def class_bit_ands extras_no_tail [OF assms] and.commute [of m]
  using unreserved_small [of b] class_bit_ands(8,9) by auto

lemma component_char_not_percent: "component_char m b \<Longrightarrow> b \<noteq> 0x25" "component_char m b \<Longrightarrow> b < 0x80"
  using unreserved_small [of b]
  by (auto simp: component_char_def is_unreserved_def is_sub_delim_def is_ascii_alphanumeric_def is_ascii_alphabetic_def is_ascii_digit_def)

section \<open>The precheck\<close>

lemma base_runs: "in_runs b component_base_runs \<longleftrightarrow> is_unreserved b \<or> is_sub_delim b"
proof -
  have u: "unat b < 256" using unsigned_less [of b] by simp
  have "in_runs b component_base_runs \<longleftrightarrow> class_members (UNRESERVED OR SUB_DELIMS) ! unat b \<noteq> 0"
    unfolding component_base_runs_def by (rule in_runs_table) (simp add: class_members_def)
  also have "\<dots> \<longleftrightarrow> ascii_class b (UNRESERVED OR SUB_DELIMS)"
    using u by (simp add: class_members_def ascii_class_def word_less_nat_alt)
  also have "\<dots> \<longleftrightarrow> is_unreserved b \<or> is_sub_delim b"
    using component_class [of 0 b] by (simp add: component_char_def)
  finally show ?thesis .
qed

lemma sole_member_is:
  assumes "k < 128" "\<And>b. ascii_class b cls \<longleftrightarrow> b = of_nat k"
  shows "sole_member cls = of_nat k"
proof -
  have "class_table ! i AND cls \<noteq> 0 \<longleftrightarrow> i = k" if "i < 128" for i
  proof -
    have u: "unat (of_nat i :: u8) = i" "unat (of_nat k :: u8) = k" using that assms(1) by (simp_all add: unsigned_of_nat take_bit_nat_eq_self)
    have "class_table ! i AND cls \<noteq> 0 \<longleftrightarrow> ascii_class (of_nat i) cls" using that by (simp add: ascii_class_def word_less_nat_alt u(1))
    also have "\<dots> \<longleftrightarrow> i = k" unfolding assms(2) word_unat_eq_iff u ..
    finally show ?thesis .
  qed
  then have "filter (\<lambda>i. class_table ! i AND cls \<noteq> 0) [0..<128] = filter (\<lambda>i. i = k) [0..<128]" by (intro filter_cong) auto
  moreover have "set (filter (\<lambda>i. i = k) [0..<128]) = {k}" using assms(1) by auto
  then have "hd (filter (\<lambda>i. i = k) [0..<128]) = k" by (metis hd_in_set empty_set insert_not_empty singletonD)
  ultimately show ?thesis by (simp add: sole_member_def)
qed

lemma sole_members: "sole_member COLON = 0x3A" "sole_member AT_SIGN = 0x40" "sole_member SLASH = 0x2F" "sole_member QUESTION = 0x3F"
  using sole_member_is [where k = 58 and cls = COLON] sole_member_is [where k = 64 and cls = AT_SIGN] sole_member_is [where k = 47 and cls = SLASH] sole_member_is [where k = 63 and cls = QUESTION]
  by (simp_all add: ascii_class_iff class_bits conj_commute cong: conj_cong)

lemma bit_lane_of: "bit (lane_of h) k \<longleftrightarrow> h \<and> k < 8"
  by (cases h) (simp_all add: bit_simps)

lemma takeWhile_octets: "length (takeWhile (\<lambda>n. f (n div 8)) [0..<8 * m]) = 8 * length (takeWhile f [0..<m])"
proof (induction m)
  case (Suc m)
  have up: "[0..<8 * Suc m] = [0..<8 * m] @ [8 * m..<8 * m + 8]" using upt_add_eq_append [of 0 "8 * m" 8] by (simp add: add.commute)
  have d: "n div 8 = m" if "n \<in> set [8 * m..<8 * m + 8]" for n using that by auto
  show ?case
  proof (cases "\<forall>k\<in>set [0..<m]. f k")
    case True
    then have all: "\<forall>n\<in>set [0..<8 * m]. f (n div 8)" by auto
    have "takeWhile (\<lambda>n. f (n div 8)) [8 * m..<8 * m + 8] = (if f m then [8 * m..<8 * m + 8] else [])"
      using d by (cases "f m") (auto simp: takeWhile_eq_all_conv takeWhile_eq_Nil_iff)
    then have "takeWhile (\<lambda>n. f (n div 8)) [0..<8 * Suc m] = [0..<8 * m] @ (if f m then [8 * m..<8 * m + 8] else [])"
      unfolding up using all by (simp only: takeWhile_append2)
    moreover have "takeWhile f [0..<Suc m] = [0..<m] @ (if f m then [m] else [])" using True by (simp add: takeWhile_append)
    ultimately show ?thesis by simp
  next
    case False
    then obtain k where k: "k < m" "\<not> f k" by auto
    then have "takeWhile (\<lambda>n. f (n div 8)) [0..<8 * Suc m] = takeWhile (\<lambda>n. f (n div 8)) [0..<8 * m]"
      unfolding up by (intro takeWhile_append1 [of "8 * k"]) auto
    moreover have "takeWhile f [0..<Suc m] = takeWhile f [0..<m]"
      using k by (simp add: takeWhile_append1 [of k])
    ultimately show ?thesis using Suc.IH by simp
  qed
qed simp

lemma lane_ones:
  assumes "length hs = 8"
  shows "trailing_ones (of_le_bytes (map lane_of hs) :: u64) div 8 = length (takeWhile id hs)"
proof -
  have bit: "bit (of_le_bytes (map lane_of hs) :: u64) n \<longleftrightarrow> hs ! (n div 8)" if "n < 64" for n
    using that assms by (simp add: bit_of_le_bytes bit_lane_of less_mult_imp_div_less)
  have "takeWhile (bit (of_le_bytes (map lane_of hs) :: u64)) [0..<8 * 8] = takeWhile (\<lambda>n. hs ! (n div 8)) [0..<8 * 8]"
    by (rule takeWhile_cong [OF refl]) (simp add: bit)
  then have "trailing_ones (of_le_bytes (map lane_of hs) :: u64) = 8 * length (takeWhile ((!) hs) [0..<8])"
    using takeWhile_octets [of "(!) hs" 8] by (simp add: trailing_ones_def)
  moreover have "map ((!) hs) [0..<8] = hs" using assms by (intro nth_equalityI) simp_all
  then have "length (takeWhile ((!) hs) [0..<8]) = length (takeWhile id hs)"
    by (metis length_map takeWhile_map comp_id id_comp o_id)
  ultimately show ?thesis by simp
qed

lemma clean_prefix_spec:
  assumes "length word = CLEAN_WORD" "m AND NOT COMPONENT_EXTRAS = 0"
  shows "clean_prefix_len word m = length (takeWhile (component_char m) word)"
proof -
  have "clean_prefix_len word m = trailing_ones (of_le_bytes (map lane_of (map (component_char m) word)) :: u64) div 8"
    unfolding clean_prefix_len_def Let_def base_runs sole_members
    by (rule arg_cong [where f = "\<lambda>ls. trailing_ones (of_le_bytes ls :: u64) div 8"]) (auto simp: component_char_def intro!: arg_cong [where f = lane_of])
  also have "\<dots> = length (takeWhile id (map (component_char m) word))"
    by (rule lane_ones) (use assms(1) in \<open>simp add: CLEAN_WORD_def\<close>)
  finally show ?thesis by (simp add: takeWhile_map o_def)
qed

section \<open>The validator without its precheck\<close>

function plain_from :: "bytes \<Rightarrow> nat \<Rightarrow> u8 \<Rightarrow> bool \<Rightarrow> mode \<Rightarrow> nat \<Rightarrow> iri_error + unit" where
  "plain_from bs base_off extra_mask allow_iprivate mode i =
     (if i < length bs then
        (case component_step bs base_off (UNRESERVED OR SUB_DELIMS OR extra_mask) allow_iprivate mode i of
           Inl e \<Rightarrow> Inl e
         | Inr j \<Rightarrow> plain_from bs base_off extra_mask allow_iprivate mode j)
      else Inr ())"
  by auto
termination
  by (relation "measure (\<lambda>(bs, _, _, _, _, i). length bs - i)") (auto dest!: component_step_forward)

declare plain_from.simps [simp del]

lemma step_char:
  assumes "component_char m (bs ! i)" "m AND NOT COMPONENT_EXTRAS = 0"
  shows "component_step bs base_off (UNRESERVED OR SUB_DELIMS OR m) priv mode i = Inr (i + 1)"
  using component_char_not_percent [OF assms(1)] assms(1) component_class [OF assms(2)] by (simp add: component_step_def)

lemma plain_skip:
  assumes "m AND NOT COMPONENT_EXTRAS = 0"
  shows "i + r \<le> length bs \<Longrightarrow> \<forall>k<r. component_char m (bs ! (i + k)) \<Longrightarrow>
    plain_from bs base_off m priv mode i = plain_from bs base_off m priv mode (i + r)"
proof (induction r arbitrary: i)
  case (Suc r)
  have "component_char m (bs ! i)" using Suc.prems(2) by force
  then have "plain_from bs base_off m priv mode i = plain_from bs base_off m priv mode (i + 1)"
    using Suc.prems(1) step_char [OF _ assms] by (subst plain_from.simps) simp
  also have "\<dots> = plain_from bs base_off m priv mode (i + 1 + r)"
    using Suc.prems by (intro Suc.IH) (simp, metis add_Suc_shift Suc_eq_plus1 Suc_less_eq)
  finally show ?case by simp
qed simp

lemma clean_run:
  assumes "i + CLEAN_WORD \<le> length bs" "m AND NOT COMPONENT_EXTRAS = 0"
  defines "r \<equiv> clean_prefix_len (take CLEAN_WORD (drop i bs)) m"
  shows "r \<le> CLEAN_WORD" "\<forall>k<r. component_char m (bs ! (i + k))"
proof -
  let ?w = "take CLEAN_WORD (drop i bs)"
  have r: "r = length (takeWhile (component_char m) ?w)" unfolding r_def by (rule clean_prefix_spec) (use assms in auto)
  have l: "length (takeWhile (component_char m) ?w) \<le> length ?w" by (rule length_takeWhile_le)
  then show "r \<le> CLEAN_WORD" using assms(1) by (simp add: r)
  show "\<forall>k<r. component_char m (bs ! (i + k))"
  proof (intro allI impI)
    fix k assume k: "k < r"
    then have "takeWhile (component_char m) ?w ! k = ?w ! k" unfolding r by (rule takeWhile_nth)
    moreover have "component_char m (takeWhile (component_char m) ?w ! k)" using k unfolding r by (meson nth_mem set_takeWhileD)
    moreover have "k < length ?w" using k l r by linarith
    ultimately show "component_char m (bs ! (i + k))" using assms(1) by simp
  qed
qed

lemma validate_from_plain:
  assumes "m AND NOT COMPONENT_EXTRAS = 0"
  shows "validate_from bs base_off m priv mode i = plain_from bs base_off m priv mode i"
proof (induction "length bs - i" arbitrary: i rule: less_induct)
  case less
  define r where "r = (if i + CLEAN_WORD \<le> length bs then clean_prefix_len (take CLEAN_WORD (drop i bs)) m else 0)"
  let ?step = "component_step bs base_off (UNRESERVED OR SUB_DELIMS OR m) priv mode (i + r)"
  show ?case
  proof (cases "i < length bs")
    case False
    then show ?thesis by (simp add: validate_from.simps [of bs] plain_from.simps [of bs])
  next
    case True
    have r: "r \<le> CLEAN_WORD" "i + r \<le> length bs" "r = CLEAN_WORD \<or> i + r < length bs" "\<forall>k<r. component_char m (bs ! (i + k))"
    proof -
      show "r \<le> CLEAN_WORD" "\<forall>k<r. component_char m (bs ! (i + k))" unfolding r_def using clean_run [OF _ assms] by simp_all
      moreover have "r = 0 \<or> i + CLEAN_WORD \<le> length bs" by (simp add: r_def)
      ultimately show "i + r \<le> length bs" "r = CLEAN_WORD \<or> i + r < length bs" using True by linarith+
    qed
    have skip: "plain_from bs base_off m priv mode i = plain_from bs base_off m priv mode (i + r)"
      by (rule plain_skip [OF assms r(2,4)])
    have v: "validate_from bs base_off m priv mode i = (if r = CLEAN_WORD then validate_from bs base_off m priv mode (i + r)
        else case ?step of Inl e \<Rightarrow> Inl e | Inr j \<Rightarrow> validate_from bs base_off m priv mode j)"
      using True by (subst validate_from.simps) (simp add: r_def Let_def)
    show ?thesis
    proof (cases "r = CLEAN_WORD")
      case c: True
      then show ?thesis using less [of "i + r"] True r(2) unfolding v skip by (simp add: CLEAN_WORD_def)
    next
      case c: False
      then have "plain_from bs base_off m priv mode (i + r) = (case ?step of Inl e \<Rightarrow> Inl e | Inr j \<Rightarrow> plain_from bs base_off m priv mode j)"
        using r(3) by (subst plain_from.simps) simp
      moreover have "validate_from bs base_off m priv mode j = plain_from bs base_off m priv mode j" if "?step = Inr j" for j
        using less [of j] component_step_forward [OF that] True by simp
      ultimately show ?thesis using c unfolding v skip by (auto split: sum.splits)
    qed
  qed
qed

end
