(* ===== verification/IriParse.thy ===== *)
theory IriParse
  imports IriChars
begin

unbundle bit_operations_syntax

text \<open>
  The IRI parser (\<open>crates/iri/src/parse.rs\<close>, \<open>host.rs\<close>): the split of a reference into spans, the
  authority with its host and port, and the accessors. Diagnostics are those of the resident entry
  points; a span always begins and ends at an ASCII delimiter, so slicing text there never panics. The
  parser of IPv6 addresses is that of the Rust standard library.
\<close>

definition and_then :: "'e + 'a \<Rightarrow> ('a \<Rightarrow> 'e + 'b) \<Rightarrow> 'e + 'b" where
  "and_then m f = (case m of Inl e \<Rightarrow> Inl e | Inr x \<Rightarrow> f x)"

lemma and_then_simps [simp]: "and_then (Inl e) f = Inl e" "and_then (Inr x) f = f x"
  by (simp_all add: and_then_def)

lemma and_then_eq_Inr: "and_then m f = Inr y \<longleftrightarrow> (\<exists>x. m = Inr x \<and> f x = Inr y)"
  by (cases m) simp_all

section \<open>IPv6 addresses\<close>

text \<open>Each reader returns the rest of the input. A number is one to \<open>max_digits\<close> digits; an octet of an
  IPv4 address has no leading zero and fits a byte.\<close>

definition read_hextet :: "bytes \<Rightarrow> bytes option" where
  "read_hextet bs = (let n = length (takeWhile is_ascii_hexdigit bs) in if n = 0 \<or> 4 < n then None else Some (drop n bs))"

definition read_octet :: "bytes \<Rightarrow> bytes option" where
  "read_octet bs =
     (let digits = takeWhile is_ascii_digit bs; n = length digits;
          v = foldl (\<lambda>v d. v * 10 + (unat d - 0x30)) 0 digits
      in if n = 0 \<or> 3 < n \<or> (digits ! 0 = 0x30 \<and> 1 < n) \<or> 255 < v then None else Some (drop n bs))"

definition read_given :: "u8 \<Rightarrow> bytes \<Rightarrow> bytes option" where
  "read_given c bs = (case bs of b # rest \<Rightarrow> if b = c then Some rest else None | [] \<Rightarrow> None)"

definition read_separator :: "u8 \<Rightarrow> nat \<Rightarrow> (bytes \<Rightarrow> bytes option) \<Rightarrow> bytes \<Rightarrow> bytes option" where
  "read_separator sep index inner bs = (if 0 < index then Option.bind (read_given sep bs) inner else inner bs)"

definition read_ipv4_addr :: "bytes \<Rightarrow> bytes option" where
  "read_ipv4_addr bs = do {
     bs \<leftarrow> read_separator 0x2E 0 read_octet bs;
     bs \<leftarrow> read_separator 0x2E 1 read_octet bs;
     bs \<leftarrow> read_separator 0x2E 2 read_octet bs;
     read_separator 0x2E 3 read_octet bs
   }"

text \<open>The number of groups read, whether the last two are an IPv4 address, and the rest.\<close>

function read_groups :: "nat \<Rightarrow> nat \<Rightarrow> bytes \<Rightarrow> nat \<times> bool \<times> bytes" where
  "read_groups limit i bs =
     (if i < limit then
        (case (if i < limit - 1 then read_separator 0x3A i read_ipv4_addr bs else None) of
           Some rest \<Rightarrow> (i + 2, True, rest)
         | None \<Rightarrow>
             (case read_separator 0x3A i read_hextet bs of
                Some rest \<Rightarrow> read_groups limit (i + 1) rest
              | None \<Rightarrow> (i, False, bs)))
      else (limit, False, bs))"
  by auto
termination by (relation "measure (\<lambda>(limit, i, _). limit - i)") auto

declare read_groups.simps [simp del]

definition is_ipv6_address :: "bytes \<Rightarrow> bool" where
  "is_ipv6_address bs \<longleftrightarrow>
     (case read_groups 8 0 bs of (head_size, head_ipv4, rest) \<Rightarrow>
        if head_size = 8 then rest = []
        else if head_ipv4 then False
        else (case Option.bind (read_given 0x3A rest) (read_given 0x3A) of
            None \<Rightarrow> False
          | Some rest \<Rightarrow> (case read_groups (8 - (head_size + 1)) 0 rest of (_, _, rest) \<Rightarrow> rest = [])))"

section \<open>Host and authority\<close>

definition is_ipvfuture_address_char :: "u8 \<Rightarrow> bool" where
  "is_ipvfuture_address_char b \<longleftrightarrow> b = 0x21 \<or> b = 0x24 \<or> 0x26 \<le> b \<and> b \<le> 0x2E \<or> 0x30 \<le> b \<and> b \<le> 0x3B \<or> b = 0x3D \<or>
     0x41 \<le> b \<and> b \<le> 0x5A \<or> b = 0x5F \<or> 0x61 \<le> b \<and> b \<le> 0x7A \<or> b = 0x7E"

text \<open>A loop over the characters that refuses the first one outside an ASCII class. All characters
  before it are single bytes, so its index is its byte offset.\<close>

definition check_ascii :: "(u8 \<Rightarrow> bool) \<Rightarrow> nat \<Rightarrow> bytes \<Rightarrow> iri_error + unit" where
  "check_ascii ok off bs = (case position (\<lambda>b. \<not> ok b) bs of
     None \<Rightarrow> Inr ()
   | Some at \<Rightarrow> Inl (DisallowedChar (fst (front_char (drop at bs))) (off + at)))"

definition validate_ip_literal :: "bytes \<Rightarrow> nat \<Rightarrow> iri_error + unit" where
  "validate_ip_literal inner base_off =
     (if inner \<noteq> [] \<and> inner ! 0 \<in> {0x76, 0x56} then
        (case position (\<lambda>b. b = 0x2E) (drop 1 inner) of
           None \<Rightarrow> Inl (BadAuthority (IpvFutureVersion base_off))
         | Some dot \<Rightarrow>
             (let version = slice_range 1 (dot + 1) inner; address = drop (dot + 2) inner in
              if version = [] \<or> address = [] then Inl (BadAuthority (IpvFutureEmpty base_off))
              else and_then (check_ascii is_ascii_hexdigit (base_off + 1) version) (\<lambda>_.
                check_ascii is_ipvfuture_address_char (base_off + length version + 2) address)))
      else if is_ipv6_address inner then Inr ()
      else Inl (BadAuthority (InvalidIpv6 base_off inner)))"

text \<open>The content of a bracketed literal.\<close>

definition strip_brackets :: "bytes \<Rightarrow> bytes option" where
  "strip_brackets bs = (case bs of b # rest \<Rightarrow> if b = 0x5B \<and> rest \<noteq> [] \<and> last rest = 0x5D then Some (butlast rest) else None | [] \<Rightarrow> None)"

definition validate_host :: "bytes \<Rightarrow> nat \<Rightarrow> mode \<Rightarrow> iri_error + unit" where
  "validate_host s base_off mode = (case strip_brackets s of
     Some inner \<Rightarrow> validate_ip_literal inner (base_off + 1)
   | None \<Rightarrow> validate_component s base_off 0 False mode)"

definition rposition :: "('a \<Rightarrow> bool) \<Rightarrow> 'a list \<Rightarrow> nat option" where
  "rposition P xs = map_option (\<lambda>i. length xs - 1 - i) (position P (rev xs))"

text \<open>Host, and the port with its offset.\<close>

definition split_host :: "bytes \<Rightarrow> nat \<Rightarrow> iri_error + bytes \<times> (nat \<times> bytes) option" where
  "split_host rest host_off =
     (if rest \<noteq> [] \<and> rest ! 0 = 0x5B then
        (case find_byte rest 0x5D of
           None \<Rightarrow> Inl (BadAuthority UnterminatedIpLiteral)
         | Some close \<Rightarrow>
             (let host = take (close + 1) rest; after = drop (close + 1) rest in
              if after = [] then Inr (host, None)
              else if after ! 0 = 0x3A then Inr (host, Some (host_off + close + 2, drop 1 after))
              else Inl (BadAuthority TrailingIpLiteral)))
      else
        (case rposition (\<lambda>b. b = 0x3A) rest of
           Some colon \<Rightarrow> Inr (take colon rest, Some (host_off + colon + 1, drop (colon + 1) rest))
         | None \<Rightarrow> Inr (rest, None)))"

definition split_userinfo :: "bytes \<Rightarrow> nat \<Rightarrow> bytes option \<times> bytes \<times> nat" where
  "split_userinfo s base_off = (case find_byte s 0x40 of
     Some at \<Rightarrow> (Some (take at s), drop (at + 1) s, base_off + at + 1)
   | None \<Rightarrow> (None, s, base_off))"

definition validate_authority :: "bytes \<Rightarrow> nat \<Rightarrow> mode \<Rightarrow> iri_error + unit" where
  "validate_authority s base_off mode =
     (case split_userinfo s base_off of (userinfo, rest, host_off) \<Rightarrow>
        and_then (case userinfo of Some ui \<Rightarrow> validate_component ui base_off COLON False mode | None \<Rightarrow> Inr ()) (\<lambda>_.
        and_then (split_host rest host_off) (\<lambda>(host, port).
        and_then (validate_host host host_off mode) (\<lambda>_.
        (case port of Some (poff, p) \<Rightarrow> check_ascii is_ascii_digit poff p | None \<Rightarrow> Inr ())))))"

section \<open>Splitting a reference\<close>

record iri_spans =
  sp_scheme :: "(nat \<times> nat) option"
  sp_authority :: "(nat \<times> nat) option"
  sp_path :: "nat \<times> nat"
  sp_query :: "(nat \<times> nat) option"
  sp_fragment :: "(nat \<times> nat) option"

definition find_authority_end :: "bytes \<Rightarrow> nat option" where
  "find_authority_end bs = class_find_first (from_table (needle_table [0x2F, 0x3F, 0x23])) bs"

definition find_scheme_end :: "bytes \<Rightarrow> nat option" where
  "find_scheme_end bs = class_find_first (from_table (needle_table [0x3A, 0x2F, 0x3F, 0x23])) bs"

definition validate_scheme :: "bytes \<Rightarrow> iri_error + unit" where
  "validate_scheme s = (case s of
     [] \<Rightarrow> Inl MissingScheme
   | b # bs \<Rightarrow> if \<not> is_ascii_alphabetic b then Inl (BadScheme s)
       else if \<exists>c\<in>set bs. \<not> ascii_class c SCHEME_TAIL then Inl (BadScheme s) else Inr ())"

definition scan_scheme :: "bytes \<Rightarrow> iri_error + (nat \<times> nat) option \<times> nat" where
  "scan_scheme s =
     (case (if s \<noteq> [] \<and> is_ascii_alphabetic (s ! 0)
            then (case find_scheme_end s of Some at \<Rightarrow> if s ! at = 0x3A then Some at else None | None \<Rightarrow> None) else None) of
        Some colon \<Rightarrow> and_then (validate_scheme (take colon s)) (\<lambda>_. Inr (Some (0, colon), colon + 1))
      | None \<Rightarrow> Inr (None, 0))"

definition scan_authority :: "bytes \<Rightarrow> mode \<Rightarrow> nat \<Rightarrow> iri_error + (nat \<times> nat) option \<times> nat" where
  "scan_authority s mode idx =
     (if take 2 (drop idx s) = [0x2F, 0x2F] then
        (let astart = idx + 2;
             aend = astart + (case find_authority_end (drop astart s) of Some n \<Rightarrow> n | None \<Rightarrow> length s - astart)
         in and_then (validate_authority (slice_range astart aend s) astart mode) (\<lambda>_. Inr (Some (astart, aend), aend)))
      else Inr (None, idx))"

definition scan_path :: "bytes \<Rightarrow> mode \<Rightarrow> bool \<Rightarrow> nat \<Rightarrow> iri_error + (nat \<times> nat)" where
  "scan_path s mode rootless pstart =
     (let pend = pstart + (case find_byte2 (drop pstart s) 0x3F 0x23 of Some n \<Rightarrow> n | None \<Rightarrow> length s - pstart);
          path = slice_range pstart pend s
      in and_then (validate_component path pstart (COLON OR AT_SIGN OR SLASH) False mode) (\<lambda>_.
         if rootless then
           (let stop = (case find_byte path 0x2F of Some n \<Rightarrow> n | None \<Rightarrow> length path)
            in case find_byte (take stop path) 0x3A of
                 Some rel \<Rightarrow> Inl (DisallowedChar 0x3A (pstart + rel))
               | None \<Rightarrow> Inr (pstart, pend))
         else Inr (pstart, pend)))"

definition scan_query :: "bytes \<Rightarrow> mode \<Rightarrow> nat \<Rightarrow> iri_error + (nat \<times> nat) option \<times> nat" where
  "scan_query s mode idx =
     (if idx < length s \<and> s ! idx = 0x3F then
        (let qstart = idx + 1;
             qend = qstart + (case find_byte (drop qstart s) 0x23 of Some n \<Rightarrow> n | None \<Rightarrow> length s - qstart)
         in and_then (validate_component (slice_range qstart qend s) qstart (COLON OR AT_SIGN OR SLASH OR QUESTION) True mode) (\<lambda>_.
            Inr (Some (qstart, qend), qend)))
      else Inr (None, idx))"

definition scan_fragment :: "bytes \<Rightarrow> mode \<Rightarrow> nat \<Rightarrow> iri_error + (nat \<times> nat) option" where
  "scan_fragment s mode idx =
     (if idx < length s \<and> s ! idx = 0x23 then
        and_then (validate_component (drop (idx + 1) s) (idx + 1) (COLON OR AT_SIGN OR SLASH OR QUESTION) False mode) (\<lambda>_.
          Inr (Some (idx + 1, length s)))
      else Inr None)"

definition scan_iri :: "bytes \<Rightarrow> mode \<Rightarrow> iri_error + iri_spans" where
  "scan_iri s mode =
     (if s = [] then Inl IriEmpty
      else and_then (scan_scheme s) (\<lambda>(scheme, idx).
           and_then (scan_authority s mode idx) (\<lambda>(authority, idx).
           and_then (scan_path s mode (scheme = None \<and> authority = None) idx) (\<lambda>path.
           and_then (scan_query s mode (snd path)) (\<lambda>(query, idx).
           and_then (scan_fragment s mode idx) (\<lambda>fragment.
             Inr \<lparr>sp_scheme = scheme, sp_authority = authority, sp_path = path, sp_query = query, sp_fragment = fragment\<rparr>))))))"

section \<open>The parsed reference\<close>

record iri =
  iri_text :: bytes
  iri_spans :: iri_spans

definition iri_part :: "iri \<Rightarrow> (nat \<times> nat) option \<Rightarrow> bytes option" where
  "iri_part x r = map_option (\<lambda>(i, j). slice_range i j (iri_text x)) r"

definition iri_scheme :: "iri \<Rightarrow> bytes option" where "iri_scheme x = iri_part x (sp_scheme (iri_spans x))"
definition iri_authority :: "iri \<Rightarrow> bytes option" where "iri_authority x = iri_part x (sp_authority (iri_spans x))"
definition iri_path :: "iri \<Rightarrow> bytes" where "iri_path x = (case sp_path (iri_spans x) of (i, j) \<Rightarrow> slice_range i j (iri_text x))"
definition iri_query :: "iri \<Rightarrow> bytes option" where "iri_query x = iri_part x (sp_query (iri_spans x))"
definition iri_fragment :: "iri \<Rightarrow> bytes option" where "iri_fragment x = iri_part x (sp_fragment (iri_spans x))"
definition has_scheme :: "iri \<Rightarrow> bool" where "has_scheme x \<longleftrightarrow> sp_scheme (iri_spans x) \<noteq> None"

definition parse_inner :: "bytes \<Rightarrow> mode \<Rightarrow> iri_error + iri" where
  "parse_inner s mode = and_then (scan_iri s mode) (\<lambda>spans. Inr \<lparr>iri_text = s, iri_spans = spans\<rparr>)"

definition parse_iri :: "bytes \<Rightarrow> iri_error + iri" where "parse_iri s = parse_inner s ModeIri"
definition parse_uri :: "bytes \<Rightarrow> iri_error + iri" where "parse_uri s = parse_inner s ModeUri"

datatype iri_form = FormAbsolute | FormRelative

definition classify_iri :: "bytes \<Rightarrow> iri_error + iri_form" where
  "classify_iri s = and_then (scan_iri s ModeIri) (\<lambda>spans. Inr (if sp_scheme spans \<noteq> None then FormAbsolute else FormRelative))"

definition is_absolute :: "bytes \<Rightarrow> iri_error + bool" where
  "is_absolute s = and_then (classify_iri s) (\<lambda>form. Inr (form = FormAbsolute))"

definition absolute_verdict :: "bytes \<Rightarrow> bool option" where
  "absolute_verdict s = (case scan_iri s ModeIri of Inl _ \<Rightarrow> None | Inr spans \<Rightarrow> Some (sp_scheme spans \<noteq> None))"

end
