(* ===== verification/Percent.thy ===== *)
theory Percent
  imports IriChars
begin

unbundle bit_operations_syntax

text \<open>
  Percent-encoding (\<open>crates/lex/src/percent.rs\<close>): encoding over a set of escaped bytes, decoding, and
  the normalization of triplets. A set is a byte class whose members are escaped.
\<close>

section \<open>The code\<close>

definition is_gen_delim :: "u8 \<Rightarrow> bool" where
  "is_gen_delim b \<longleftrightarrow> b \<in> {0x3A, 0x2F, 0x3F, 0x23, 0x5B, 0x5D, 0x40}"

definition encode_table :: "(u8 \<Rightarrow> bool) \<Rightarrow> bytes" where
  "encode_table keep = map (\<lambda>i. if keep (of_nat i) then 0 else 1) [0..<256]"

definition encode_set :: "(u8 \<Rightarrow> bool) \<Rightarrow> byte_class" where
  "encode_set keep = from_table (encode_table keep)"

definition SET_UNRESERVED :: byte_class where "SET_UNRESERVED = encode_set is_unreserved"
definition SET_UNRESERVED_SLASH :: byte_class where "SET_UNRESERVED_SLASH = encode_set (\<lambda>b. is_unreserved b \<or> b = 0x2F)"
definition SET_REG_NAME :: byte_class where "SET_REG_NAME = encode_set (\<lambda>b. is_unreserved b \<or> is_sub_delim b)"
definition SET_PATH :: byte_class where "SET_PATH = encode_set (\<lambda>b. is_unreserved b \<or> is_sub_delim b \<or> b \<in> {0x3A, 0x40, 0x2F})"
definition SET_FRAGMENT :: byte_class where
  "SET_FRAGMENT = encode_set (\<lambda>b. is_unreserved b \<or> is_sub_delim b \<or> b \<in> {0x3A, 0x40, 0x2F, 0x3F})"
definition SET_URI_TEMPLATE_RESERVED :: byte_class where
  "SET_URI_TEMPLATE_RESERVED = encode_set (\<lambda>b. is_unreserved b \<or> is_sub_delim b \<or> is_gen_delim b \<or> b = 0x25)"
definition SET_NON_ASCII :: byte_class where "SET_NON_ASCII = encode_set (\<lambda>b. b < 0x80)"

definition push_triplet :: "u8 \<Rightarrow> bytes" where
  "push_triplet b = [0x25, upper_digit (drop_bit 4 b), upper_digit (b AND 0x0F)]"

text \<open>A slice of a text panics unless it begins and ends between characters.\<close>

definition char_boundary :: "bytes \<Rightarrow> nat \<Rightarrow> bool" where
  "char_boundary text i \<longleftrightarrow> i = 0 \<or> i = length text \<or> i < length text \<and> \<not> cont_byte (text ! i)"

definition str_slice :: "nat \<Rightarrow> nat \<Rightarrow> bytes \<Rightarrow> bytes option" where
  "str_slice i j text = (if i \<le> j \<and> j \<le> length text \<and> char_boundary text i \<and> char_boundary text j then Some (slice_range i j text) else None)"

text \<open>From a hit on; indexing past the end would panic.\<close>

function push_encoded_from :: "bytes \<Rightarrow> bytes \<Rightarrow> byte_class \<Rightarrow> nat \<Rightarrow> nat \<Rightarrow> bytes option" where
  "push_encoded_from out text escapes run_start hit =
     (if hit < length text then do {
        out \<leftarrow> (if run_start < hit then map_option ((@) out) (str_slice run_start hit text) else Some out);
        let out = out @ push_triplet (text ! hit);
        let run_start = hit + 1;
        case class_find_first escapes (drop run_start text) of
          Some offset \<Rightarrow> push_encoded_from out text escapes run_start (run_start + offset)
        | None \<Rightarrow> map_option ((@) out) (str_slice run_start (length text) text)
      } else None)"
  by auto
termination by (relation "measure (\<lambda>(_, text, _, _, hit). length text - hit)") auto

declare push_encoded_from.simps [simp del]

definition push_encoded :: "bytes \<Rightarrow> bytes \<Rightarrow> byte_class \<Rightarrow> bytes option" where
  "push_encoded out text escapes = (case class_find_first escapes text of
     Some first \<Rightarrow> push_encoded_from out text escapes 0 first
   | None \<Rightarrow> Some (out @ text))"

definition pct_encode :: "bytes \<Rightarrow> byte_class \<Rightarrow> bytes option" where
  "pct_encode text escapes = (case class_find_first escapes text of
     None \<Rightarrow> Some text
   | Some first \<Rightarrow> push_encoded_from [] text escapes 0 first)"

datatype percent_error = PercentMalformed nat | PercentNotUtf8 nat

text \<open>The octet of the triplet whose percent sign is at a position.\<close>

definition triplet_at :: "bytes \<Rightarrow> nat \<Rightarrow> u8 option" where
  "triplet_at bs at =
     (if at + 2 < length bs then do { h \<leftarrow> nibble (bs ! (at + 1)); l \<leftarrow> nibble (bs ! (at + 2)); Some (push_bit 4 h OR l) } else None)"

text \<open>The in-place decoder: what it has written is the result.\<close>

function decode_bytes :: "bytes \<Rightarrow> bool \<Rightarrow> nat \<Rightarrow> bytes \<Rightarrow> percent_error + bytes" where
  "decode_bytes bs plus_is_space at written =
     (if at < length bs then
        if bs ! at = 0x25 then
          (case triplet_at bs at of
             None \<Rightarrow> Inl (PercentMalformed at)
           | Some octet \<Rightarrow> decode_bytes bs plus_is_space (at + 3) (written @ [octet]))
        else if bs ! at = 0x2B \<and> plus_is_space then decode_bytes bs plus_is_space (at + 1) (written @ [0x20])
        else decode_bytes bs plus_is_space (at + 1) (written @ [bs ! at])
      else Inr written)"
  by auto
termination by (relation "measure (\<lambda>(bs, _, at, _). length bs - at)") auto

declare decode_bytes.simps [simp del]

definition utf8_valid_up_to :: "bytes \<Rightarrow> nat" where
  "utf8_valid_up_to bs = last (filter (\<lambda>n. utf8_valid (take n bs)) [0..<length bs + 1])"

definition decode_with :: "bytes \<Rightarrow> bool \<Rightarrow> percent_error + bytes" where
  "decode_with text plus_is_space =
     (if \<not> (\<exists>b\<in>set text. b = 0x25 \<or> (plus_is_space \<and> b = 0x2B)) then Inr text
      else (case decode_bytes text plus_is_space 0 [] of
          Inl e \<Rightarrow> Inl e
        | Inr out \<Rightarrow> if utf8_valid out then Inr out else Inl (PercentNotUtf8 (utf8_valid_up_to out))))"

definition pct_decode :: "bytes \<Rightarrow> percent_error + bytes" where "pct_decode text = decode_with text False"
definition pct_decode_form :: "bytes \<Rightarrow> percent_error + bytes" where "pct_decode_form text = decode_with text True"

function pct_loop :: "bytes \<Rightarrow> nat \<Rightarrow> nat \<Rightarrow> bytes \<Rightarrow> bytes" where
  "pct_loop bs copied at out =
     (if at < length bs then
        (case (if bs ! at = 0x25 then triplet_at bs at else None) of
           Some octet \<Rightarrow>
             (let out = out @ slice_range copied at bs;
                  out = (if is_unreserved octet then out @ [octet] else out @ push_triplet octet)
              in pct_loop bs (at + 3) (at + 3) out)
         | None \<Rightarrow> pct_loop bs copied (at + 1) out)
      else out @ drop copied bs)"
  by auto
termination by (relation "measure (\<lambda>(bs, _, at, _). length bs - at)") auto

declare pct_loop.simps [simp del]

definition pct_normalize :: "bytes \<Rightarrow> bytes" where
  "pct_normalize text = (case position (\<lambda>b. b = 0x25) text of
     None \<Rightarrow> text
   | Some first \<Rightarrow> pct_loop text first first (take first text))"

section \<open>Triplets\<close>

lemma digit_table: "\<forall>n\<in>set [0..<16]. nibble (upper_digit (of_nat n)) = Some (of_nat n)"
  by code_simp

lemma nibble_digit: "n < 16 \<Longrightarrow> nibble (upper_digit n) = Some n"
proof -
  assume "n < 16"
  then have "unat n \<in> set [0..<16]" by (simp add: word_less_nat_alt)
  then show ?thesis using digit_table by (metis of_nat_unat ucast_id)
qed

lemma nibbles_of_byte: "drop_bit 4 b < 16" "b AND 0x0F < 16" "push_bit 4 (drop_bit 4 b) OR (b AND 0x0F) = b" for b :: u8
proof -
  show "drop_bit 4 b < 16" proof -
    have "unat b < 256" using unsigned_less [of b] by simp
    then show ?thesis by (simp add: word_less_nat_alt unat_div less_mult_imp_div_less drop_bit_eq_div)
  qed
  have m: "b AND 0x0F = take_bit 4 b" by (simp add: take_bit_eq_mask mask_eq_exp_minus_1)
  have "unat (take_bit 4 b) < 2 ^ 4" by (simp only: unsigned_take_bit_eq take_bit_nat_less_exp)
  then show "b AND 0x0F < 16" "push_bit 4 (drop_bit 4 b) OR (b AND 0x0F) = b"
    unfolding m by (simp add: word_less_nat_alt, intro bit_word_eqI) (auto simp: bit_simps)
qed

lemma triplet_push: "triplet_at (push_triplet b @ rest) 0 = Some b"
  by (simp add: triplet_at_def push_triplet_def nibble_digit nibbles_of_byte)

lemma triplet_at_drop: "at \<le> length bs \<Longrightarrow> triplet_at (drop at bs) 0 = triplet_at bs at"
  by (auto simp: triplet_at_def)

lemma triplet_at_length: "triplet_at bs at = Some b \<Longrightarrow> at + 2 < length bs"
  by (simp add: triplet_at_def split: if_splits)

section \<open>Reference definitions\<close>

text \<open>The octets a text stands for, and its normal form: triplets of unreserved characters decoded,
  the others with upper-case digits.\<close>

function octets :: "bytes \<Rightarrow> bytes option" where
  "octets [] = Some []"
| "octets (b # bs) = Option.bind (if b = 0x25 then triplet_at (b # bs) 0 else Some b)
     (\<lambda>c. map_option ((#) c) (octets (drop (if b = 0x25 then 2 else 0) bs)))"
  by pat_completeness auto
termination by (relation "measure length") auto

definition triplet_form :: "u8 \<Rightarrow> bytes" where
  "triplet_form b = (if is_unreserved b then [b] else push_triplet b)"

function normal_form :: "bytes \<Rightarrow> bytes" where
  "normal_form [] = []"
| "normal_form (b # bs) = (case (if b = 0x25 then triplet_at (b # bs) 0 else None) of
     Some c \<Rightarrow> triplet_form c @ normal_form (drop 2 bs)
   | None \<Rightarrow> b # normal_form bs)"
  by pat_completeness auto
termination by (relation "measure length") auto

lemma octets_percent: "octets (push_triplet b @ rest) = map_option ((#) b) (octets rest)"
  using triplet_push [of b rest] by (simp add: push_triplet_def)

lemma octets_plain: "b \<noteq> 0x25 \<Longrightarrow> octets (b # bs) = map_option ((#) b) (octets bs)"
  by simp

lemma octets_skip: "\<forall>b\<in>set bs. b \<noteq> 0x25 \<Longrightarrow> octets (bs @ rest) = map_option ((@) bs) (octets rest)"
  by (induction bs) (auto simp: option.map_comp o_def map_option_case split: option.splits)

lemma normal_form_skip: "\<forall>b\<in>set bs. b \<noteq> 0x25 \<Longrightarrow> normal_form (bs @ rest) = bs @ normal_form rest"
  by (induction bs) simp_all

lemma unreserved_not_percent: "is_unreserved b \<Longrightarrow> b \<noteq> 0x25"
  by (auto simp: is_unreserved_def is_ascii_alphanumeric_def is_ascii_alphabetic_def is_ascii_digit_def)

lemma octets_form: "octets (triplet_form b @ rest) = map_option ((#) b) (octets rest)"
  using unreserved_not_percent [of b] octets_percent [of b rest] by (simp add: triplet_form_def)

lemma normal_form_form: "normal_form (triplet_form b @ rest) = triplet_form b @ normal_form rest"
  using unreserved_not_percent [of b] triplet_push [of b rest] by (simp add: triplet_form_def push_triplet_def)

lemma normal_form_octets: "octets bs = Some out \<Longrightarrow>
    octets (normal_form bs) = Some out \<and> normal_form (normal_form bs) = normal_form bs"
proof (induction bs arbitrary: out rule: octets.induct)
  case (2 b bs)
  show ?case
  proof (cases "b = 0x25")
    case True
    then obtain c r where c: "triplet_at (b # bs) 0 = Some c" "octets (drop 2 bs) = Some r" "out = c # r"
      using 2(2) by (auto simp: bind_eq_Some_conv)
    have "normal_form (b # bs) = triplet_form c @ normal_form (drop 2 bs)" using True c(1) by simp
    then show ?thesis using 2(1) [of c r] c True by (simp only: octets_form normal_form_form) simp
  next
    case False
    then obtain r where r: "octets bs = Some r" "out = b # r" using 2(2) by auto
    then have "octets (normal_form bs) = Some r \<and> normal_form (normal_form bs) = normal_form bs"
      using 2(1) [of b r] False by simp
    then show ?thesis using False r by simp
  qed
qed simp

text \<open>The first percent sign from a position on that opens no triplet.\<close>

function malformed_at :: "bytes \<Rightarrow> nat \<Rightarrow> nat" where
  "malformed_at bs at =
     (if at < length bs then
        if bs ! at = 0x25 then (if triplet_at bs at = None then at else malformed_at bs (at + 3)) else malformed_at bs (at + 1)
      else at)"
  by auto
termination by (relation "measure (\<lambda>(bs, at). length bs - at)") auto

declare malformed_at.simps [simp del]

section \<open>The code follows the references\<close>

lemma slice_range_snoc: "i \<le> j \<Longrightarrow> j < length bs \<Longrightarrow> slice_range i (j + 1) bs = slice_range i j bs @ [bs ! j]"
  by (simp add: slice_range_def Suc_diff_le take_Suc_conv_app_nth)

lemma pct_loop_normal: "copied \<le> at \<Longrightarrow> pct_loop bs copied at out = out @ slice_range copied at bs @ normal_form (drop at bs)"
proof (induction bs copied at out rule: pct_loop.induct)
  case (1 bs copied at out)
  show ?case
  proof (cases "at < length bs")
    case False
    then show ?thesis by (subst pct_loop.simps) (simp add: slice_range_def)
  next
    case True
    have d: "drop at bs = bs ! at # drop (at + 1) bs" using True Cons_nth_drop_Suc by fastforce
    have t: "triplet_at (bs ! at # drop (at + 1) bs) 0 = triplet_at bs at"
      using triplet_at_drop [of at bs] True d by simp
    show ?thesis
    proof (cases "if bs ! at = 0x25 then triplet_at bs at else None")
      case None
      have "slice_range copied (at + 1) bs = slice_range copied at bs @ [bs ! at]"
        using True slice_range_snoc [OF 1(3)] by simp
      then show ?thesis using True None 1(1) [OF True None] 1(3) d t
        by (subst pct_loop.simps) (simp split: if_splits)
    next
      case (Some c)
      have "drop 2 (drop (at + 1) bs) = drop (at + 3) bs" by (simp add: numeral_3_eq_3)
      moreover have "slice_range (at + 3) (at + 3) bs = []" by (simp add: slice_range_def)
      ultimately show ?thesis using True Some 1(2) [OF True Some refl refl] d t
        by (subst pct_loop.simps) (simp add: triplet_form_def split: if_splits)
    qed
  qed
qed

lemma pct_normalize_normal: "pct_normalize bs = normal_form bs"
proof (cases "position (\<lambda>b. b = 0x25) bs")
  case None
  then have "\<forall>b\<in>set bs. b \<noteq> 0x25" by (simp add: position_eq_None)
  then show ?thesis using normal_form_skip [of bs "[]"] None by (simp add: pct_normalize_def)
next
  case (Some first)
  have "\<forall>b\<in>set (take first bs). b \<noteq> 0x25" using Some by (auto simp: position_eq_Some in_set_conv_nth)
  then have "normal_form bs = take first bs @ normal_form (drop first bs)"
    using normal_form_skip [of "take first bs" "drop first bs"] by simp
  then show ?thesis using Some by (simp add: pct_normalize_def pct_loop_normal slice_range_def)
qed

lemma decode_bytes_octets: "decode_bytes bs False at written =
    (case octets (drop at bs) of Some out \<Rightarrow> Inr (written @ out)
     | None \<Rightarrow> Inl (PercentMalformed (malformed_at bs at)))"
proof (induction bs False at written rule: decode_bytes.induct)
  case (1 bs at written)
  show ?case
  proof (cases "at < length bs")
    case False
    then show ?thesis by (subst decode_bytes.simps) simp
  next
    case True
    have d: "drop at bs = bs ! at # drop (at + 1) bs" using True Cons_nth_drop_Suc by fastforce
    have t: "triplet_at (bs ! at # drop (at + 1) bs) 0 = triplet_at bs at"
      using triplet_at_drop [of at bs] True d by simp
    have e: "drop 2 (drop (at + 1) bs) = drop (at + 3) bs" by (simp add: numeral_3_eq_3)
    show ?thesis
    proof (cases "bs ! at = 0x25")
      case False
      then show ?thesis using 1(3) [OF True False] True d malformed_at.simps [of bs at]
        by (subst decode_bytes.simps) (auto split: option.splits)
    next
      case p: True
      then have o: "octets (drop at bs) = Option.bind (triplet_at bs at) (\<lambda>c. map_option ((#) c) (octets (drop (at + 3) bs)))"
        unfolding d using t e by simp
      show ?thesis using True p o 1(1) [OF True p] malformed_at.simps [of bs at]
        by (subst decode_bytes.simps) (auto split: option.splits)
    qed
  qed
qed

text \<open>Encoding escapes byte by byte.\<close>

definition encode_form :: "(u8 \<Rightarrow> bool) \<Rightarrow> bytes \<Rightarrow> bytes" where
  "encode_form keep bs = concat (map (\<lambda>b. if keep b then [b] else push_triplet b) bs)"

lemma encode_form_simps [simp]:
  "encode_form keep [] = []" "encode_form keep (xs @ ys) = encode_form keep xs @ encode_form keep ys"
  "encode_form keep (b # bs) = (if keep b then [b] else push_triplet b) @ encode_form keep bs"
  by (simp_all add: encode_form_def)

lemma encode_form_kept: "\<forall>b\<in>set bs. keep b \<Longrightarrow> encode_form keep bs = bs"
  by (induction bs) auto

lemma encode_table_facts: "length (encode_table keep) = 256" "encode_table keep ! unat b \<noteq> 0 \<longleftrightarrow> \<not> keep b"
proof -
  have "unat b < 256" using unsigned_less [of b] by simp
  then show "length (encode_table keep) = 256" "encode_table keep ! unat b \<noteq> 0 \<longleftrightarrow> \<not> keep b"
    by (simp_all add: encode_table_def)
qed

lemma encode_set_find: "class_find_first (encode_set keep) bs = position (\<lambda>b. \<not> keep b) bs"
  unfolding encode_set_def class_find_first_spec [OF encode_table_facts(1)] encode_table_facts(2) ..

lemma slice_kept: "\<forall>k. i \<le> k \<and> k < j \<longrightarrow> keep (bs ! k) \<Longrightarrow> j \<le> length bs \<Longrightarrow> encode_form keep (slice_range i j bs) = slice_range i j bs"
  by (rule encode_form_kept) (auto simp: slice_range_def in_set_conv_nth)

text \<open>In a text, the byte after an ASCII byte begins a character; a kept run is made of ASCII bytes.\<close>

lemma cont_byte_high: "cont_byte b \<Longrightarrow> \<not> b \<le> 0x7F"
  by (auto simp: cont_byte_def word_le_nat_alt)

lemma utf8_front: "utf8_valid (b # bs) \<Longrightarrow> \<not> cont_byte b"
  by (auto simp: cont_byte_def word_le_nat_alt split: if_splits)

lemma utf8_after_ascii: "utf8_valid bs \<Longrightarrow> bs ! k \<le> 0x7F \<Longrightarrow> k + 1 < length bs \<Longrightarrow> \<not> cont_byte (bs ! (k + 1))"
proof (induction bs arbitrary: k rule: utf8_valid.induct)
  case (2 a bs)
  show ?case
  proof (cases "a \<le> 0x7F")
    case True
    then have tail: "utf8_valid bs" using 2(5) by simp
    show ?thesis
    proof (cases k)
      case 0
      then obtain b cs where "bs = b # cs" using 2(7) by (cases bs) auto
      then show ?thesis using 0 utf8_front tail by (simp del: utf8_valid.simps)
    next
      case (Suc n)
      then show ?thesis using 2(1) [OF True tail, of n] 2(6,7) by simp
    qed
  next
    case False
    show ?thesis
      using 2(2-7) False cont_byte_high
      by (cases k; cases "k - 1"; cases "k - 2"; cases "k - 3") (auto split: if_splits list.splits dest: utf8_front)
  qed
qed simp

lemma kept_slice:
  assumes "\<forall>b. keep b \<longrightarrow> b < 0x80" "utf8_valid bs" "\<forall>k. i \<le> k \<and> k < j \<longrightarrow> keep (bs ! k)" "j \<le> length bs" "i < j"
  shows "str_slice i j bs = Some (slice_range i j bs)"
proof -
  have ascii: "bs ! k \<le> 0x7F" if "i \<le> k" "k < j" for k using assms(1,3) that by (force simp: word_less_nat_alt word_le_nat_alt)
  have "char_boundary bs i" using ascii [of i] cont_byte_high assms(4,5) by (auto simp: char_boundary_def)
  moreover have "i \<le> j - 1" "j - 1 < j" using assms(5) by linarith+
  then have "char_boundary bs j" using utf8_after_ascii [OF assms(2) ascii [of "j - 1"]] assms(4,5) by (auto simp: char_boundary_def)
  ultimately show ?thesis using assms(4,5) by (simp add: str_slice_def)
qed

lemma push_encoded_from_spec:
  assumes "\<forall>b. keep b \<longrightarrow> b < 0x80" "utf8_valid bs"
  shows "run_start \<le> hit \<Longrightarrow> hit < length bs \<Longrightarrow> \<not> keep (bs ! hit) \<Longrightarrow> \<forall>k. run_start \<le> k \<and> k < hit \<longrightarrow> keep (bs ! k) \<Longrightarrow>
    push_encoded_from out bs (encode_set keep) run_start hit = Some (out @ encode_form keep (drop run_start bs))"
  using assms(2)
proof (induction out bs "encode_set keep" run_start hit rule: push_encoded_from.induct)
  case (1 out bs run_start hit)
  note slice = kept_slice [OF assms(1) 1(6)]
  let ?out = "out @ slice_range run_start hit bs @ push_triplet (bs ! hit)"
  have split: "drop run_start bs = slice_range run_start hit bs @ bs ! hit # drop (hit + 1) bs"
    using 1(2,3) by (simp add: slice_range_def Cons_nth_drop_Suc) (metis append_take_drop_id drop_drop le_add_diff_inverse2)
  have form: "encode_form keep (drop run_start bs) = slice_range run_start hit bs @ push_triplet (bs ! hit) @ encode_form keep (drop (hit + 1) bs)"
    unfolding split using slice_kept [of run_start hit keep bs] 1(3,4,5) by simp
  have run: "(if run_start < hit then map_option ((@) out) (str_slice run_start hit bs) else Some out) = Some (out @ slice_range run_start hit bs)"
    using slice [OF 1(5)] 1(2,3) by (simp add: slice_range_def)
  show ?case
  proof (cases "position (\<lambda>b. \<not> keep b) (drop (hit + 1) bs)")
    case None
    then have kept: "\<forall>b\<in>set (drop (hit + 1) bs). keep b" by (simp add: position_eq_None)
    then have "encode_form keep (drop (hit + 1) bs) = drop (hit + 1) bs" by (rule encode_form_kept)
    moreover have "str_slice (hit + 1) (length bs) bs = Some (drop (hit + 1) bs)"
    proof (cases "hit + 1 < length bs")
      case True
      have "keep (bs ! k)" if "hit + 1 \<le> k" "k < length bs" for k
        using kept nth_mem [of "k - (hit + 1)" "drop (hit + 1) bs"] that by simp
      then show ?thesis using slice [of "hit + 1" "length bs"] True by (simp add: slice_range_def)
    qed (use 1(3) in \<open>simp add: str_slice_def char_boundary_def slice_range_def\<close>)
    ultimately show ?thesis using 1(3) None run by (subst push_encoded_from.simps) (simp add: encode_set_find form Let_def)
  next
    case (Some n)
    then have n: "n < length (drop (hit + 1) bs)" "\<not> keep (bs ! (hit + 1 + n))" "\<forall>k<n. keep (bs ! (hit + 1 + k))"
      by (auto simp: position_eq_Some)
    have "push_encoded_from ?out bs (encode_set keep) (hit + 1) (hit + 1 + n) = Some (?out @ encode_form keep (drop (hit + 1) bs))"
    proof (rule 1(1) [OF 1(3) run])
      show "class_find_first (encode_set keep) (drop (hit + 1) bs) = Some n" unfolding encode_set_find by (rule Some)
      show "\<forall>k. hit + 1 \<le> k \<and> k < hit + 1 + n \<longrightarrow> keep (bs ! k)"
        using n(3) by (metis add_less_cancel_left le_add_diff_inverse)
    qed (use n 1(6) in simp_all)
    then show ?thesis using 1(3) Some run by (subst push_encoded_from.simps) (simp add: encode_set_find form Let_def)
  qed
qed

lemma pct_encode_form:
  assumes "\<forall>b. keep b \<longrightarrow> b < 0x80" "utf8_valid bs"
  shows "pct_encode bs (encode_set keep) = Some (encode_form keep bs)"
proof (cases "position (\<lambda>b. \<not> keep b) bs")
  case None
  then show ?thesis using encode_form_kept [of bs keep] by (simp add: pct_encode_def encode_set_find) (simp add: position_eq_None)
next
  case (Some n)
  then show ?thesis using push_encoded_from_spec [OF assms, of 0 n "[]"]
    by (simp add: pct_encode_def encode_set_find) (simp add: position_eq_Some)
qed

lemma octets_encode_form: "\<not> keep 0x25 \<Longrightarrow> octets (encode_form keep bs) = Some bs"
  by (induction bs) (auto simp: octets_percent simp del: octets.simps(2), auto)

lemma hex_digits: "\<forall>n\<in>set [0..<16]. is_ascii_hexdigit (upper_digit (of_nat n))"
  by code_simp

lemma push_triplet_bytes: "c \<in> set (push_triplet b) \<Longrightarrow> c = 0x25 \<or> is_ascii_hexdigit c"
proof -
  have "is_ascii_hexdigit (upper_digit n)" if "n < 16" for n
  proof -
    have "unat n \<in> set [0..<16]" using that by (simp add: word_less_nat_alt)
    then show ?thesis using hex_digits by (metis of_nat_unat ucast_id)
  qed
  then show "c \<in> set (push_triplet b) \<Longrightarrow> c = 0x25 \<or> is_ascii_hexdigit c"
    using nibbles_of_byte by (auto simp: push_triplet_def)
qed

lemma encode_form_bytes: "c \<in> set (encode_form keep bs) \<Longrightarrow> keep c \<or> c = 0x25 \<or> is_ascii_hexdigit c"
  using push_triplet_bytes by (auto simp: encode_form_def split: if_splits)

lemma decode_bytes_from_start: "decode_bytes bs False 0 [] = Inr out \<longleftrightarrow> octets bs = Some out"
  using decode_bytes_octets [of bs 0 "[]"] by (auto split: option.splits)

lemma pct_decode_octets: "octets bs = Some out \<Longrightarrow> utf8_valid out \<Longrightarrow> pct_decode bs = Inr out"
  using decode_bytes_from_start [of bs out] octets_skip [of bs "[]"] by (auto simp: pct_decode_def decode_with_def)

section \<open>Properties\<close>

text \<open>C22: Normalizing percent triplets changes the spelling of a text and not what it stands for. When
  every percent sign opens a triplet, the normalized text decodes to the same octets, and normalizing
  it again changes nothing.\<close>

theorem normalize_keeps_octets:
  assumes "decode_bytes bs False 0 [] = Inr out"
  shows "decode_bytes (pct_normalize bs) False 0 [] = Inr out \<and> pct_normalize (pct_normalize bs) = pct_normalize bs"
  using normal_form_octets [of bs out] assms by (simp add: decode_bytes_from_start pct_normalize_normal)

lemma normalize_keeps_octets_witness:
  "decode_bytes (pct_normalize [0x25, 0x37, 0x65, 0x25, 0x32, 0x66, 0x61]) False 0 [] = Inr [0x7E, 0x2F, 0x61]"
proof -
  have "decode_bytes [0x25, 0x37, 0x65, 0x25, 0x32, 0x66, 0x61] False 0 [] = Inr [0x7E, 0x2F, 0x61]" by code_simp
  then show ?thesis using normalize_keeps_octets by blast
qed

text \<open>C37: Percent-encoding under any set that keeps ASCII bytes only never panics, writes kept bytes and
  triplets only, and when the percent sign itself is escaped, decoding gives the text back.\<close>

theorem percent_round_trip:
  assumes "\<forall>b. keep b \<longrightarrow> b < 0x80" "\<not> keep 0x25" "utf8_valid bs"
  shows "\<exists>e. pct_encode bs (encode_set keep) = Some e \<and> (\<forall>b\<in>set e. keep b \<or> b = 0x25 \<or> is_ascii_hexdigit b) \<and> pct_decode e = Inr bs"
  using pct_encode_form [OF assms(1,3)] encode_form_bytes pct_decode_octets [OF octets_encode_form [of keep, OF assms(2)] assms(3)] by blast

lemma percent_round_trip_witness:
  "\<exists>e. pct_encode [0x61, 0x20, 0xC3, 0xA9] SET_UNRESERVED = Some e \<and> pct_decode e = Inr [0x61, 0x20, 0xC3, 0xA9]"
proof -
  have "\<not> is_unreserved 0x25" "utf8_valid [0x61, 0x20, 0xC3, 0xA9]" by code_simp+
  then show ?thesis using percent_round_trip [of is_unreserved] unreserved_small(1) unfolding SET_UNRESERVED_def by blast
qed

end
