(* ===== verification/IriResolve.thy ===== *)
theory IriResolve
  imports IriParse Percent
begin

unbundle bit_operations_syntax

text \<open>
  Reference resolution (\<open>crates/iri/src/resolve.rs\<close>) and syntax normalization
  (\<open>crates/iri/src/normalize.rs\<close>). Reserving memory has no counterpart here.
\<close>

section \<open>Components\<close>

record iri_parts =
  pt_scheme :: "bytes option"
  pt_authority :: "bytes option"
  pt_path :: bytes
  pt_query :: "bytes option"
  pt_fragment :: "bytes option"

definition parts_of :: "iri \<Rightarrow> iri_parts" where
  "parts_of x = \<lparr>pt_scheme = iri_scheme x, pt_authority = iri_authority x, pt_path = iri_path x, pt_query = iri_query x, pt_fragment = iri_fragment x\<rparr>"

definition same_document :: iri_parts where
  "same_document = \<lparr>pt_scheme = None, pt_authority = None, pt_path = [], pt_query = None, pt_fragment = None\<rparr>"

definition recompose :: "iri_parts \<Rightarrow> bytes" where
  "recompose p =
     (let out = [];
          out = (case pt_scheme p of Some s \<Rightarrow> out @ s @ [0x3A] | None \<Rightarrow> out);
          out = (case pt_authority p of Some a \<Rightarrow> out @ [0x2F, 0x2F] @ a | None \<Rightarrow> out);
          out = out @ pt_path p;
          out = (case pt_query p of Some q \<Rightarrow> out @ [0x3F] @ q | None \<Rightarrow> out)
      in (case pt_fragment p of Some f \<Rightarrow> out @ [0x23] @ f | None \<Rightarrow> out))"

section \<open>Dot segments\<close>

definition pop_last_segment :: "bytes \<Rightarrow> bytes" where
  "pop_last_segment out = (case rposition (\<lambda>b. b = 0x2F) out of Some slash \<Rightarrow> take slash out | None \<Rightarrow> [])"

definition first_segment_end :: "bytes \<Rightarrow> nat" where
  "first_segment_end input =
     (let start = (if input \<noteq> [] \<and> input ! 0 = 0x2F then 1 else 0)
      in (case position (\<lambda>b. b = 0x2F) (drop start input) of Some i \<Rightarrow> start + i | None \<Rightarrow> length input))"

lemma first_segment_end_pos: "input \<noteq> [] \<Longrightarrow> 0 < first_segment_end input"
  by (cases input) (auto simp: first_segment_end_def Let_def split: option.splits)

function dot_loop :: "bytes \<Rightarrow> bytes \<Rightarrow> bytes" where
  "dot_loop input out =
     (if input = [] then out
      else if take 3 input = [0x2E, 0x2E, 0x2F] then dot_loop (drop 3 input) out
      else if take 2 input = [0x2E, 0x2F] then dot_loop (drop 2 input) out
      else if take 3 input = [0x2F, 0x2E, 0x2F] then dot_loop (drop 2 input) out
      else if input = [0x2F, 0x2E] then dot_loop [0x2F] out
      else if take 4 input = [0x2F, 0x2E, 0x2E, 0x2F] then dot_loop (drop 3 input) (pop_last_segment out)
      else if input = [0x2F, 0x2E, 0x2E] then dot_loop [0x2F] (pop_last_segment out)
      else if input = [0x2E] \<or> input = [0x2E, 0x2E] then dot_loop [] out
      else (let n = first_segment_end input in dot_loop (drop n input) (out @ take n input)))"
  by auto
termination
  by (relation "measure (\<lambda>(input, _). length input)") (auto simp: first_segment_end_pos)

declare dot_loop.simps [simp del]

definition remove_dot_segments :: "bytes \<Rightarrow> bytes" where
  "remove_dot_segments path = dot_loop path []"

section \<open>Transform references\<close>

definition merge_paths :: "iri_parts \<Rightarrow> bytes \<Rightarrow> bytes" where
  "merge_paths base ref_path =
     (if pt_authority base \<noteq> None \<and> pt_path base = [] then [0x2F] @ ref_path
      else (case rposition (\<lambda>b. b = 0x2F) (pt_path base) of
          Some slash \<Rightarrow> take (slash + 1) (pt_path base) @ ref_path
        | None \<Rightarrow> ref_path))"

definition transform :: "iri_parts \<Rightarrow> iri_parts \<Rightarrow> iri_parts" where
  "transform base r =
     (if pt_scheme r \<noteq> None then r\<lparr>pt_path := remove_dot_segments (pt_path r)\<rparr>
      else if pt_authority r \<noteq> None then r\<lparr>pt_scheme := pt_scheme base, pt_path := remove_dot_segments (pt_path r)\<rparr>
      else
        (let (path, query) =
           (if pt_path r = [] then (pt_path base, if pt_query r \<noteq> None then pt_query r else pt_query base)
            else if pt_path r ! 0 = 0x2F then (remove_dot_segments (pt_path r), pt_query r)
            else (remove_dot_segments (merge_paths base (pt_path r)), pt_query r))
         in \<lparr>pt_scheme = pt_scheme base, pt_authority = pt_authority base, pt_path = path, pt_query = query, pt_fragment = pt_fragment r\<rparr>))"

definition transform_and_reparse :: "iri \<Rightarrow> iri_parts \<Rightarrow> iri_error + iri" where
  "transform_and_reparse base r = parse_iri (recompose (transform (parts_of base) r))"

definition resolve_iri :: "iri \<Rightarrow> iri \<Rightarrow> iri_error + iri" where
  "resolve_iri base r = (if \<not> has_scheme base then Inl (NonAbsoluteBase (iri_text base)) else transform_and_reparse base (parts_of r))"

definition resolve_ref :: "iri \<Rightarrow> bytes \<Rightarrow> iri_error + iri" where
  "resolve_ref base reference =
     (if \<not> has_scheme base then Inl (NonAbsoluteBase (iri_text base))
      else if reference = [] then transform_and_reparse base same_document
      else and_then (parse_iri reference) (resolve_iri base))"

section \<open>Normalization\<close>

definition normalize_authority :: "bytes \<Rightarrow> bytes" where
  "normalize_authority auth = (case position (\<lambda>b. b = 0x40) auth of
     Some at \<Rightarrow> pct_normalize (take at auth) @ [0x40] @ pct_normalize (map to_ascii_lowercase (drop (at + 1) auth))
   | None \<Rightarrow> pct_normalize (map to_ascii_lowercase auth))"

definition normalized_text :: "iri \<Rightarrow> bytes" where
  "normalized_text x = recompose
     \<lparr>pt_scheme = map_option (map to_ascii_lowercase) (iri_scheme x), pt_authority = map_option normalize_authority (iri_authority x),
      pt_path = remove_dot_segments (pct_normalize (iri_path x)),
      pt_query = map_option pct_normalize (iri_query x), pt_fragment = map_option pct_normalize (iri_fragment x)\<rparr>"

definition normalize_iri :: "iri \<Rightarrow> iri option" where
  "normalize_iri x = (case parse_iri (normalized_text x) of Inr y \<Rightarrow> Some y | Inl _ \<Rightarrow> None)"

end
