(* ===== verification/IriSplit.thy ===== *)
theory IriSplit
  imports IriResolve
begin

unbundle bit_operations_syntax

text \<open>
  What the IRI parser accepts: a reference definition splits a text at its first delimiters, and the
  scanner of \<open>IriParse\<close> succeeds exactly when the parts are valid, with the spans of these parts.
  Offsets passed to the validators only name the place of an error.
\<close>

section \<open>Offsets only name errors\<close>

lemma component_step_offset:
  "component_step bs off allowed priv mode i = Inr j \<longleftrightarrow> component_step bs 0 allowed priv mode i = Inr j"
  by (auto simp: component_step_def Let_def split: prod.splits)

lemma plain_from_offset: "plain_from bs off m priv mode i = Inr () \<longleftrightarrow> plain_from bs 0 m priv mode i = Inr ()"
proof (induction bs off m priv mode i rule: plain_from.induct)
  case (1 bs off m priv mode i)
  let ?step = "\<lambda>off. component_step bs off (UNRESERVED OR SUB_DELIMS OR m) priv mode i"
  show ?case
  proof (cases "i < length bs")
    case True
    show ?thesis
    proof (cases "?step 0")
      case (Inl e)
      then obtain e' where "?step off = Inl e'" using component_step_offset [of bs off] by (cases "?step off") auto
      then show ?thesis using Inl True by (simp add: plain_from.simps [of bs])
    next
      case (Inr j)
      then have "?step off = Inr j" using component_step_offset [of bs off] by simp
      then show ?thesis using Inr True 1 by (simp add: plain_from.simps [of bs])
    qed
  qed (simp add: plain_from.simps [of bs])
qed

lemma validate_component_offset:
  assumes "m AND NOT COMPONENT_EXTRAS = 0"
  shows "validate_component bs off m priv mode = Inr () \<longleftrightarrow> validate_component bs 0 m priv mode = Inr ()"
  unfolding validate_component_def validate_from_plain [OF assms] by (rule plain_from_offset)

lemma extra_masks: "0 AND NOT COMPONENT_EXTRAS = 0" "COLON AND NOT COMPONENT_EXTRAS = 0"
  "(COLON OR AT_SIGN OR SLASH) AND NOT COMPONENT_EXTRAS = 0" "(COLON OR AT_SIGN OR SLASH OR QUESTION) AND NOT COMPONENT_EXTRAS = 0"
  by (simp_all add: class_bits)

lemmas component_offset = extra_masks [THEN validate_component_offset]

lemma check_ascii_offset: "check_ascii ok off bs = Inr () \<longleftrightarrow> (\<forall>b\<in>set bs. ok b)"
  using position_eq_None [of "\<lambda>b. \<not> ok b" bs] by (auto simp: check_ascii_def split: option.splits)

lemma validate_ip_literal_offset: "validate_ip_literal bs off = Inr () \<longleftrightarrow> validate_ip_literal bs 0 = Inr ()"
  by (auto simp: validate_ip_literal_def and_then_eq_Inr check_ascii_offset Let_def split: option.splits)

lemma validate_host_offset: "validate_host bs off mode = Inr () \<longleftrightarrow> validate_host bs 0 mode = Inr ()"
  using validate_ip_literal_offset [of _ "off + 1"] validate_ip_literal_offset [of _ 1] component_offset(1) [of bs off]
  by (auto simp: validate_host_def split: option.splits)

lemma split_host_offset: "split_host bs off = (case split_host bs 0 of Inl e \<Rightarrow> Inl e
    | Inr (host, port) \<Rightarrow> Inr (host, map_option (\<lambda>(i, p). (off + i, p)) port))"
  by (auto simp: split_host_def Let_def split: option.splits)

lemma and_then_unit: "and_then m f = Inr y \<longleftrightarrow> m = Inr () \<and> f () = Inr y"
  by (cases m) simp_all

lemma validate_authority_offset: "validate_authority bs off mode = Inr () \<longleftrightarrow> validate_authority bs 0 mode = Inr ()"
proof -
  have u: "split_userinfo bs off = (case split_userinfo bs 0 of (ui, rest, i) \<Rightarrow> (ui, rest, off + i))"
    by (simp add: split_userinfo_def split: option.splits)
  obtain ui rest i where s: "split_userinfo bs 0 = (ui, rest, i)" by (cases "split_userinfo bs 0") blast
  let ?ui = "\<lambda>k. case ui of Some b \<Rightarrow> validate_component b k COLON False mode | None \<Rightarrow> Inr ()"
  let ?rest = "\<lambda>k. and_then (split_host rest k) (\<lambda>(host, port). and_then (validate_host host k mode)
      (\<lambda>_. case port of Some (poff, p) \<Rightarrow> check_ascii is_ascii_digit poff p | None \<Rightarrow> Inr ()))"
  have ui: "?ui k = Inr () \<longleftrightarrow> ?ui 0 = Inr ()" for k
    using component_offset(2) [of _ k] by (simp split: option.split)
  have rest: "?rest k = Inr () \<longleftrightarrow>
      (case split_host rest 0 of Inl _ \<Rightarrow> False | Inr (host, port) \<Rightarrow> validate_host host 0 mode = Inr () \<and>
        (case port of Some (_, p) \<Rightarrow> \<forall>b\<in>set p. is_ascii_digit b | None \<Rightarrow> True))" for k
  proof (cases "split_host rest 0")
    case (Inr v)
    obtain host port where v: "v = (host, port)" by (cases v) blast
    show ?thesis unfolding split_host_offset [of rest k] Inr v using validate_host_offset [of host k mode]
      by (cases port) (auto simp: and_then_eq_Inr check_ascii_offset)
  qed (simp add: split_host_offset [of rest k])
  have "validate_authority bs off mode = and_then (?ui off) (\<lambda>_. ?rest (off + i))"
    "validate_authority bs 0 mode = and_then (?ui 0) (\<lambda>_. ?rest i)"
    by (simp_all only: validate_authority_def u s prod.case)
  then show ?thesis using rest [of "off + i"] rest [of i] ui [of off] and_then_unit [of _ "\<lambda>_. ?rest (off + i)"] and_then_unit [of _ "\<lambda>_. ?rest i"]
    by (simp only:)
qed


section \<open>Splitting by delimiters\<close>

text \<open>The reference splits a text at its first delimiters, one component after the other.\<close>

definition until :: "u8 set \<Rightarrow> bytes \<Rightarrow> bytes" where "until D bs = takeWhile (\<lambda>b. b \<notin> D) bs"
definition since :: "u8 set \<Rightarrow> bytes \<Rightarrow> bytes" where "since D bs = dropWhile (\<lambda>b. b \<notin> D) bs"

lemma until_since [simp]: "until D bs @ since D bs = bs"
  by (simp add: until_def since_def)

lemma until_append: "set a \<inter> D = {} \<Longrightarrow> rest = [] \<or> hd rest \<in> D \<Longrightarrow> until D (a @ rest) = a \<and> since D (a @ rest) = rest"
  by (induction a) (cases rest; simp add: until_def since_def)+

lemma until_disjoint: "set (until D bs) \<inter> D = {}"
  by (auto simp: until_def dest: set_takeWhileD)

lemma since_hd: "since D bs = [] \<or> hd (since D bs) \<in> D"
  using hd_dropWhile [of "\<lambda>b. b \<notin> D" bs] by (auto simp: since_def)

lemma position_until: "(case position (\<lambda>b. b \<in> D) bs of Some n \<Rightarrow> n | None \<Rightarrow> length bs) = length (until D bs)"
  by (induction bs) (auto simp: until_def split: option.splits)

lemma position_within: "position (\<lambda>b. b \<in> D) bs = (if since D bs = [] then None else Some (length (until D bs)))"
  by (induction bs) (auto simp: until_def since_def)

definition split_scheme :: "bytes \<Rightarrow> bytes option \<times> bytes" where
  "split_scheme s =
     (if s \<noteq> [] \<and> is_ascii_alphabetic (hd s) \<and> take 1 (since {0x3A, 0x2F, 0x3F, 0x23} s) = [0x3A]
      then (Some (until {0x3A, 0x2F, 0x3F, 0x23} s), tl (since {0x3A, 0x2F, 0x3F, 0x23} s)) else (None, s))"

definition split_authority :: "bytes \<Rightarrow> bytes option \<times> bytes" where
  "split_authority t =
     (if take 2 t = [0x2F, 0x2F] then (Some (until {0x2F, 0x3F, 0x23} (drop 2 t)), since {0x2F, 0x3F, 0x23} (drop 2 t)) else (None, t))"

definition split_query :: "bytes \<Rightarrow> bytes option \<times> bytes" where
  "split_query t = (if take 1 t = [0x3F] then (Some (until {0x23} (tl t)), since {0x23} (tl t)) else (None, t))"

definition split_fragment :: "bytes \<Rightarrow> bytes option" where
  "split_fragment t = (if take 1 t = [0x23] then Some (tl t) else None)"

definition split_text :: "bytes \<Rightarrow> iri_parts" where
  "split_text s =
     (let (scheme, t) = split_scheme s; (authority, t) = split_authority t; path = until {0x3F, 0x23} t;
          (query, t) = split_query (since {0x3F, 0x23} t)
      in \<lparr>pt_scheme = scheme, pt_authority = authority, pt_path = path, pt_query = query, pt_fragment = split_fragment t\<rparr>)"

text \<open>Which parts are those of a valid reference.\<close>

definition valid_option :: "(bytes \<Rightarrow> bool) \<Rightarrow> bytes option \<Rightarrow> bool" where
  "valid_option P p \<longleftrightarrow> (case p of Some bs \<Rightarrow> P bs | None \<Rightarrow> True)"

definition relative_path :: "bytes \<Rightarrow> bool" where
  "relative_path path \<longleftrightarrow> 0x3A \<notin> set (until {0x2F} path)"

definition parts_valid :: "mode \<Rightarrow> iri_parts \<Rightarrow> bool" where
  "parts_valid mode p \<longleftrightarrow>
     valid_option (\<lambda>s. validate_scheme s = Inr ()) (pt_scheme p) \<and>
     valid_option (\<lambda>a. validate_authority a 0 mode = Inr ()) (pt_authority p) \<and>
     validate_component (pt_path p) 0 (COLON OR AT_SIGN OR SLASH) False mode = Inr () \<and>
     (pt_scheme p = None \<and> pt_authority p = None \<longrightarrow> relative_path (pt_path p)) \<and>
     valid_option (\<lambda>q. validate_component q 0 (COLON OR AT_SIGN OR SLASH OR QUESTION) True mode = Inr ()) (pt_query p) \<and>
     valid_option (\<lambda>f. validate_component f 0 (COLON OR AT_SIGN OR SLASH OR QUESTION) False mode = Inr ()) (pt_fragment p)"

text \<open>Which parts are told apart by their delimiters.\<close>

definition parts_delimited :: "iri_parts \<Rightarrow> bool" where
  "parts_delimited p \<longleftrightarrow>
     valid_option (\<lambda>s. s \<noteq> [] \<and> is_ascii_alphabetic (hd s) \<and> set s \<inter> {0x3A, 0x2F, 0x3F, 0x23} = {}) (pt_scheme p) \<and>
     valid_option (\<lambda>a. set a \<inter> {0x2F, 0x3F, 0x23} = {}) (pt_authority p) \<and>
     set (pt_path p) \<inter> {0x3F, 0x23} = {} \<and>
     (if pt_authority p = None then take 2 (pt_path p) \<noteq> [0x2F, 0x2F] else pt_path p = [] \<or> hd (pt_path p) = 0x2F) \<and>
     (pt_scheme p = None \<and> pt_authority p = None \<longrightarrow> relative_path (pt_path p)) \<and>
     valid_option (\<lambda>q. 0x23 \<notin> set q) (pt_query p)"

definition with_lead :: "bytes \<Rightarrow> bytes option \<Rightarrow> bytes" where
  "with_lead c p = (case p of Some bs \<Rightarrow> c @ bs | None \<Rightarrow> [])"

definition scheme_lead :: "bytes option \<Rightarrow> bytes" where
  "scheme_lead p = (case p of Some bs \<Rightarrow> bs @ [0x3A] | None \<Rightarrow> [])"

lemma recompose_leads: "recompose p = scheme_lead (pt_scheme p) @ with_lead [0x2F, 0x2F] (pt_authority p) @ pt_path p @
    with_lead [0x3F] (pt_query p) @ with_lead [0x23] (pt_fragment p)"
  by (simp add: recompose_def scheme_lead_def with_lead_def Let_def split: option.split)

lemma take1: "take (Suc 0) t = [c] \<longleftrightarrow> (\<exists>r. t = c # r)" "take 2 t = [c, d] \<longleftrightarrow> (\<exists>r. t = c # d # r)"
  by (cases t; cases "tl t"; force)+

lemma split_scheme_text: "split_scheme s = (sc, t) \<Longrightarrow> scheme_lead sc @ t = s"
  using until_since [of "{0x3A, 0x2F, 0x3F, 0x23}" s]
  by (auto simp: split_scheme_def scheme_lead_def take1 simp del: until_since split: if_splits)

lemma split_authority_text: "split_authority s = (a, t) \<Longrightarrow> with_lead [0x2F, 0x2F] a @ t = s"
  by (auto simp: split_authority_def with_lead_def take1 split: if_splits)

lemma split_query_text: "split_query s = (q, t) \<Longrightarrow> with_lead [0x3F] q @ t = s"
  by (auto simp: split_query_def with_lead_def take1 split: if_splits)

lemma split_query_hd: "split_query t = (q, u) \<Longrightarrow> t = [] \<or> hd t \<in> {0x3F, 0x23} \<Longrightarrow> u = [] \<or> hd u = 0x23"
  using since_hd [of "{0x23}" "tl t"] by (cases t) (auto simp: split_query_def split: if_splits)

lemma split_fragment_text: "t = [] \<or> hd t = 0x23 \<Longrightarrow> with_lead [0x23] (split_fragment t) = t"
  by (cases t) (auto simp: split_fragment_def with_lead_def)

lemma recompose_split_text: "recompose (split_text s) = s"
proof -
  obtain sc t1 where 1: "split_scheme s = (sc, t1)" by (cases "split_scheme s") blast
  obtain a t2 where 2: "split_authority t1 = (a, t2)" by (cases "split_authority t1") blast
  obtain q t3 where 3: "split_query (since {0x3F, 0x23} t2) = (q, t3)" by (cases "split_query (since {0x3F, 0x23} t2)") blast
  have "recompose (split_text s) = scheme_lead sc @ with_lead [0x2F, 0x2F] a @ until {0x3F, 0x23} t2 @ with_lead [0x3F] q @ t3"
    using 1 2 3 split_fragment_text [OF split_query_hd [OF 3 since_hd]] by (simp add: split_text_def recompose_leads)
  then show ?thesis
    by (simp only: split_query_text [OF 3] until_since split_authority_text [OF 2] split_scheme_text [OF 1])
qed


lemma split_scheme_recompose:
  assumes "valid_option (\<lambda>s. s \<noteq> [] \<and> is_ascii_alphabetic (hd s) \<and> set s \<inter> {0x3A, 0x2F, 0x3F, 0x23} = {}) sc"
    and "sc = None \<Longrightarrow> take (Suc 0) (since {0x3A, 0x2F, 0x3F, 0x23} t) = [0x3A] \<Longrightarrow> t \<noteq> [] \<Longrightarrow> \<not> is_ascii_alphabetic (hd t)"
  shows "split_scheme (scheme_lead sc @ t) = (sc, t)"
proof (cases sc)
  case (Some c)
  then have "until {0x3A, 0x2F, 0x3F, 0x23} (c @ 0x3A # t) = c \<and> since {0x3A, 0x2F, 0x3F, 0x23} (c @ 0x3A # t) = 0x3A # t"
    using assms(1) by (intro until_append) (auto simp: valid_option_def)
  then show ?thesis using assms(1) Some by (simp add: split_scheme_def scheme_lead_def valid_option_def)
qed (use assms(2) in \<open>auto simp: split_scheme_def scheme_lead_def\<close>)

lemma with_lead_hd: "c \<noteq> [] \<Longrightarrow> with_lead c p = [] \<or> hd (with_lead c p) = hd c"
  by (auto simp: with_lead_def split: option.split)

lemma tail_hd: "with_lead [0x3F] q @ with_lead [0x23] f = [] \<or> hd (with_lead [0x3F] q @ with_lead [0x23] f) \<in> {0x3F, 0x23}"
  by (auto simp: with_lead_def split: option.split)

lemma split_tail:
  assumes "set path \<inter> {0x3F, 0x23} = {}" "valid_option (\<lambda>q. 0x23 \<notin> set q) q"
  shows "until {0x3F, 0x23} (path @ with_lead [0x3F] q @ with_lead [0x23] f) = path"
    "split_query (since {0x3F, 0x23} (path @ with_lead [0x3F] q @ with_lead [0x23] f)) = (q, with_lead [0x23] f)"
    "split_fragment (with_lead [0x23] f) = f"
proof -
  show "until {0x3F, 0x23} (path @ with_lead [0x3F] q @ with_lead [0x23] f) = path"
    using until_append [OF assms(1) tail_hd] by blast
  have q: "until {0x23} (b @ with_lead [0x23] f) = b \<and> since {0x23} (b @ with_lead [0x23] f) = with_lead [0x23] f" if "0x23 \<notin> set b" for b
    using that by (intro until_append) (auto simp: with_lead_def split: option.split)
  show "split_query (since {0x3F, 0x23} (path @ with_lead [0x3F] q @ with_lead [0x23] f)) = (q, with_lead [0x23] f)"
    using until_append [OF assms(1) tail_hd] assms(2) q by (auto simp: with_lead_def split_query_def valid_option_def split: option.split)
  show "split_fragment (with_lead [0x23] f) = f"
    by (simp add: with_lead_def split_fragment_def split: option.split)
qed

lemma split_authority_recompose:
  assumes "valid_option (\<lambda>a. set a \<inter> {0x2F, 0x3F, 0x23} = {}) a"
    and "if a = None then take 2 t \<noteq> [0x2F, 0x2F] else t = [] \<or> hd t \<in> {0x2F, 0x3F, 0x23}"
  shows "split_authority (with_lead [0x2F, 0x2F] a @ t) = (a, t)"
proof (cases a)
  case (Some b)
  then have "until {0x2F, 0x3F, 0x23} (b @ t) = b \<and> since {0x2F, 0x3F, 0x23} (b @ t) = t"
    using assms by (intro until_append) (auto simp: valid_option_def)
  then show ?thesis using Some by (simp add: split_authority_def with_lead_def)
qed (use assms(2) in \<open>simp add: split_authority_def with_lead_def\<close>)

lemma relative_no_scheme:
  assumes "relative_path path" "set path \<inter> {0x3F, 0x23} = {}" "t = [] \<or> hd t \<in> {0x3F, 0x23}"
  shows "take (Suc 0) (since {0x3A, 0x2F, 0x3F, 0x23} (path @ t)) \<noteq> [0x3A]"
  using assms by (induction path) (cases t; auto simp: relative_path_def until_def since_def)+

lemma split_text_recompose:
  assumes "parts_delimited p"
  shows "split_text (recompose p) = p"
proof -
  let ?tail = "with_lead [0x3F] (pt_query p) @ with_lead [0x23] (pt_fragment p)"
  let ?auth = "with_lead [0x2F, 0x2F] (pt_authority p)"
  have path: "set (pt_path p) \<inter> {0x3F, 0x23} = {}" and q: "valid_option (\<lambda>q. 0x23 \<notin> set q) (pt_query p)"
    using assms by (simp_all add: parts_delimited_def)
  have "take 2 (pt_path p @ ?tail) \<noteq> [0x2F, 0x2F]" if "take 2 (pt_path p) \<noteq> [0x2F, 0x2F]"
    using that tail_hd [of "pt_query p" "pt_fragment p"] by (cases "pt_path p"; cases "tl (pt_path p)"; cases ?tail) auto
  then have a: "split_authority (?auth @ pt_path p @ ?tail) = (pt_authority p, pt_path p @ ?tail)"
    using assms tail_hd [of "pt_query p" "pt_fragment p"]
    by (intro split_authority_recompose) (auto simp: parts_delimited_def hd_append)
  have s: "split_scheme (scheme_lead (pt_scheme p) @ ?auth @ pt_path p @ ?tail) = (pt_scheme p, ?auth @ pt_path p @ ?tail)"
  proof (rule split_scheme_recompose)
    assume none: "pt_scheme p = None" and colon: "take (Suc 0) (since {0x3A, 0x2F, 0x3F, 0x23} (?auth @ pt_path p @ ?tail)) = [0x3A]"
    show "\<not> is_ascii_alphabetic (hd (?auth @ pt_path p @ ?tail))"
    proof (cases "pt_authority p")
      case None
      then show ?thesis using assms none colon relative_no_scheme [OF _ path tail_hd] by (simp add: parts_delimited_def with_lead_def)
    qed (simp add: with_lead_def is_ascii_alphabetic_def)
  qed (use assms in \<open>simp add: parts_delimited_def\<close>)
  show ?thesis
    unfolding recompose_leads split_text_def s using a split_tail [OF path q, of "pt_fragment p"] by (simp add: Let_def)
qed

lemma validate_scheme_iff: "validate_scheme s = Inr () \<longleftrightarrow> s \<noteq> [] \<and> is_ascii_alphabetic (hd s) \<and> (\<forall>c\<in>set (tl s). ascii_class c SCHEME_TAIL)"
  by (cases s) (simp_all add: validate_scheme_def)

lemma split_text_delimited: "parts_valid mode (split_text s) \<Longrightarrow> parts_delimited (split_text s)"
proof -
  obtain sc t1 where 1: "split_scheme s = (sc, t1)" by (cases "split_scheme s") blast
  obtain a t2 where 2: "split_authority t1 = (a, t2)" by (cases "split_authority t1") blast
  obtain q t3 where 3: "split_query (since {0x3F, 0x23} t2) = (q, t3)" by (cases "split_query (since {0x3F, 0x23} t2)") blast
  have p: "split_text s = \<lparr>pt_scheme = sc, pt_authority = a, pt_path = until {0x3F, 0x23} t2, pt_query = q, pt_fragment = split_fragment t3\<rparr>"
    using 1 2 3 by (simp add: split_text_def)
  assume v: "parts_valid mode (split_text s)"
  have sc: "valid_option (\<lambda>s. s \<noteq> [] \<and> is_ascii_alphabetic (hd s) \<and> set s \<inter> {0x3A, 0x2F, 0x3F, 0x23} = {}) sc"
    using 1 v until_disjoint [of "{0x3A, 0x2F, 0x3F, 0x23}" s] unfolding p parts_valid_def
    by (auto simp: split_scheme_def valid_option_def validate_scheme_iff split: if_splits)
  have au: "valid_option (\<lambda>a. set a \<inter> {0x2F, 0x3F, 0x23} = {}) a"
    using 2 until_disjoint [of "{0x2F, 0x3F, 0x23}" "drop 2 t1"] by (auto simp: split_authority_def valid_option_def split: if_splits)
  have pa: "if a = None then take 2 (until {0x3F, 0x23} t2) \<noteq> [0x2F, 0x2F] else until {0x3F, 0x23} t2 = [] \<or> hd (until {0x3F, 0x23} t2) = 0x2F"
  proof (cases "a = None")
    case True
    then have "take 2 t2 \<noteq> [0x2F, 0x2F]" using 2 by (auto simp: split_authority_def split: if_splits)
    then show ?thesis using True by (cases t2; cases "tl t2") (auto simp: until_def)
  next
    case False
    then have "t2 = [] \<or> hd t2 \<in> {0x2F, 0x3F, 0x23}" using 2 since_hd [of "{0x2F, 0x3F, 0x23}" "drop 2 t1"]
      by (auto simp: split_authority_def split: if_splits)
    then show ?thesis using False by (cases t2) (auto simp: until_def)
  qed
  have qu: "valid_option (\<lambda>q. 0x23 \<notin> set q) q"
    using 3 until_disjoint [of "{0x23}"] by (auto simp: split_query_def valid_option_def split: if_splits)
  show ?thesis using sc au pa qu v until_disjoint [of "{0x3F, 0x23}" t2] unfolding p by (simp add: parts_delimited_def parts_valid_def)
qed


section \<open>The scanner follows the split\<close>

lemma needle_position: "class_find_first (from_table (needle_table D)) bs = position (\<lambda>b. b \<in> set D) bs"
  unfolding class_find_first_spec [OF needle_table_facts(1)] needle_table_facts(2) ..

lemma find_ends:
  "find_scheme_end bs = position (\<lambda>b. b \<in> {0x3A, 0x2F, 0x3F, 0x23}) bs" "find_authority_end bs = position (\<lambda>b. b \<in> {0x2F, 0x3F, 0x23}) bs"
  "find_byte2 bs 0x3F 0x23 = position (\<lambda>b. b \<in> {0x3F, 0x23}) bs" "find_byte bs n = position (\<lambda>b. b \<in> {n}) bs"
  unfolding find_scheme_end_def find_authority_end_def needle_position find_bytes_spec by simp_all

lemma nth_until: "since D bs \<noteq> [] \<Longrightarrow> bs ! length (until D bs) = hd (since D bs)"
  by (metis until_since nth_append_length hd_Cons_tl)

lemma take1_hd: "take (Suc 0) t = [c] \<longleftrightarrow> t \<noteq> [] \<and> hd t = c"
  by (cases t) auto

lemma scan_scheme_iff:
  assumes "split_scheme s = (sc, t)" "s \<noteq> []"
  shows "scan_scheme s = Inr r \<longleftrightarrow> valid_option (\<lambda>c. validate_scheme c = Inr ()) sc \<and>
    r = (map_option (\<lambda>c. (0, length c)) sc, length (scheme_lead sc))"
proof -
  let ?D = "{0x3A, 0x2F, 0x3F, 0x23} :: u8 set"
  have colon: "(if s \<noteq> [] \<and> is_ascii_alphabetic (s ! 0)
            then (case find_scheme_end s of Some at \<Rightarrow> if s ! at = 0x3A then Some at else None | None \<Rightarrow> None) else None) =
      map_option length sc"
    using assms position_within [of ?D s] nth_until [of ?D s] unfolding find_ends
    by (auto simp: split_scheme_def hd_conv_nth take1_hd split: if_splits option.split)
  have "take (length c) s = c" if "sc = Some c" for c
    using split_scheme_text [OF assms(1)] that by (auto simp: scheme_lead_def)
  then show ?thesis unfolding scan_scheme_def colon
    by (cases sc) (auto simp: and_then_unit valid_option_def scheme_lead_def)
qed

lemma scan_authority_iff:
  assumes "split_authority t = (a, t')"
  shows "scan_authority (pre @ t) mode (length pre) = Inr r \<longleftrightarrow> valid_option (\<lambda>a. validate_authority a 0 mode = Inr ()) a \<and>
    r = (map_option (\<lambda>a. (length pre + 2, length pre + 2 + length a)) a, length pre + length (with_lead [0x2F, 0x2F] a))"
proof (cases "take 2 t = [0x2F, 0x2F]")
  case True
  then obtain u where u: "t = [0x2F, 0x2F] @ u" by (auto simp: take1)
  let ?a = "until {0x2F, 0x3F, 0x23} u"
  have a: "a = Some ?a" using assms u by (simp add: split_authority_def)
  have d: "drop (length pre + 2) (pre @ t) = u" by (simp add: u)
  have l: "length (pre @ t) - (length pre + 2) = length u" by (simp add: u)
  have "slice_range (length pre + 2) (length pre + 2 + length ?a) (pre @ t) = ?a"
    using until_since [of "{0x2F, 0x3F, 0x23}" u] unfolding slice_range_def d by (metis add_diff_cancel_left' append_eq_conv_conj)
  then show ?thesis
    using True position_until [where D = "{0x2F, 0x3F, 0x23}" and bs = u] validate_authority_offset [of ?a "length pre + 2" mode]
    unfolding scan_authority_def Let_def d l find_ends a
    by (auto simp: and_then_unit valid_option_def with_lead_def)
next
  case False
  then show ?thesis using assms by (auto simp: scan_authority_def split_authority_def valid_option_def with_lead_def)
qed

lemma scan_path_iff:
  "scan_path (pre @ t) mode rootless (length pre) = Inr r \<longleftrightarrow>
    validate_component (until {0x3F, 0x23} t) 0 (COLON OR AT_SIGN OR SLASH) False mode = Inr () \<and>
    (rootless \<longrightarrow> relative_path (until {0x3F, 0x23} t)) \<and> r = (length pre, length pre + length (until {0x3F, 0x23} t))"
proof -
  let ?p = "until {0x3F, 0x23} t"
  have d: "drop (length pre) (pre @ t) = t" and l: "length (pre @ t) - length pre = length t" by simp_all
  have s: "slice_range (length pre) (length pre + length ?p) (pre @ t) = ?p"
    using until_since [of "{0x3F, 0x23}" t] unfolding slice_range_def d by (metis add_diff_cancel_left' append_eq_conv_conj)
  have "take (length (until {0x2F} ?p)) ?p = until {0x2F} ?p"
    using until_since [of "{0x2F}" ?p] by (metis append_eq_conv_conj)
  then have rel: "position (\<lambda>b. b \<in> {0x3A}) (take (length (until {0x2F} ?p)) ?p) = None \<longleftrightarrow> relative_path ?p"
    by (auto simp: position_eq_None relative_path_def)
  show ?thesis
    unfolding scan_path_def Let_def d l find_ends position_until s and_then_unit component_offset(3) [of _ "length pre"] using rel
    by (auto split: option.split)
qed

lemma scan_query_iff:
  assumes "split_query t = (q, t')"
  shows "scan_query (pre @ t) mode (length pre) = Inr r \<longleftrightarrow>
    valid_option (\<lambda>q. validate_component q 0 (COLON OR AT_SIGN OR SLASH OR QUESTION) True mode = Inr ()) q \<and>
    r = (map_option (\<lambda>q. (length pre + 1, length pre + 1 + length q)) q, length pre + length (with_lead [0x3F] q))"
proof (cases "take 1 t = [0x3F]")
  case True
  then obtain u where u: "t = 0x3F # u" by (auto simp: take1)
  let ?q = "until {0x23} u"
  have q: "q = Some ?q" using assms u by (simp add: split_query_def)
  have d: "drop (length pre + 1) (pre @ t) = u" and l: "length (pre @ t) - (length pre + 1) = length u" by (simp_all add: u)
  have "slice_range (length pre + 1) (length pre + 1 + length ?q) (pre @ t) = ?q"
    using until_since [of "{0x23}" u] unfolding slice_range_def d by (metis add_diff_cancel_left' append_eq_conv_conj)
  then show ?thesis
    using position_until [where D = "{0x23}" and bs = u] component_offset(4) [of ?q "length pre + 1" True mode] u
    unfolding scan_query_def Let_def d l find_ends q
    by (auto simp: and_then_unit valid_option_def with_lead_def)
next
  case False
  then show ?thesis using assms by (cases t) (auto simp: scan_query_def split_query_def valid_option_def with_lead_def)
qed

lemma scan_fragment_iff:
  "scan_fragment (pre @ t) mode (length pre) = Inr r \<longleftrightarrow>
    valid_option (\<lambda>f. validate_component f 0 (COLON OR AT_SIGN OR SLASH OR QUESTION) False mode = Inr ()) (split_fragment t) \<and>
    r = map_option (\<lambda>f. (length pre + 1, length pre + 1 + length f)) (split_fragment t)"
  using component_offset(4) [of "tl t" "length pre + 1" False mode]
  by (cases t) (auto simp: scan_fragment_def split_fragment_def valid_option_def and_then_unit)


text \<open>The spans of the parts in the recomposed text.\<close>

definition spans_of :: "iri_parts \<Rightarrow> iri_spans" where
  "spans_of p =
     (let i = length (scheme_lead (pt_scheme p)); j = i + length (with_lead [0x2F, 0x2F] (pt_authority p));
          k = j + length (pt_path p); l = k + length (with_lead [0x3F] (pt_query p))
      in \<lparr>sp_scheme = map_option (\<lambda>c. (0, length c)) (pt_scheme p),
          sp_authority = map_option (\<lambda>a. (i + 2, i + 2 + length a)) (pt_authority p), sp_path = (j, k),
          sp_query = map_option (\<lambda>q. (k + 1, k + 1 + length q)) (pt_query p),
          sp_fragment = map_option (\<lambda>f. (l + 1, l + 1 + length f)) (pt_fragment p)\<rparr>)"

lemma scan_iri_iff: "scan_iri s mode = Inr sp \<longleftrightarrow> s \<noteq> [] \<and> parts_valid mode (split_text s) \<and> sp = spans_of (split_text s)"
proof (cases "s = []")
  case False
  obtain sc t1 where 1: "split_scheme s = (sc, t1)" by (cases "split_scheme s") blast
  obtain a t2 where 2: "split_authority t1 = (a, t2)" by (cases "split_authority t1") blast
  obtain q t3 where 3: "split_query (since {0x3F, 0x23} t2) = (q, t3)" by (cases "split_query (since {0x3F, 0x23} t2)") blast
  let ?path = "until {0x3F, 0x23} t2"
  have p: "split_text s = \<lparr>pt_scheme = sc, pt_authority = a, pt_path = ?path, pt_query = q, pt_fragment = split_fragment t3\<rparr>"
    using 1 2 3 by (simp add: split_text_def)
  let ?p1 = "scheme_lead sc" and ?p2 = "scheme_lead sc @ with_lead [0x2F, 0x2F] a"
  let ?p3 = "?p2 @ ?path" and ?p4 = "?p2 @ ?path @ with_lead [0x3F] q"
  have e1: "s = ?p1 @ t1" and e2: "s = ?p2 @ t2" and e3: "s = ?p3 @ since {0x3F, 0x23} t2" and e4: "s = ?p4 @ t3"
    using split_scheme_text [OF 1] split_authority_text [OF 2] split_query_text [OF 3] by simp_all
  have s1: "scan_scheme s = Inr r \<longleftrightarrow> valid_option (\<lambda>c. validate_scheme c = Inr ()) sc \<and> r = (map_option (\<lambda>c. (0, length c)) sc, length ?p1)" for r
    by (rule scan_scheme_iff [OF 1 False])
  note s2 = scan_authority_iff [OF 2, of ?p1 mode, folded e1] and s3 = scan_path_iff [of ?p2 t2 mode, folded e2]
    and s4 = scan_query_iff [OF 3, of ?p3 mode, folded e3] and s5 = scan_fragment_iff [of ?p4 t3 mode, folded e4]
  show ?thesis
    unfolding scan_iri_def p using False s1 s2 s3 s4 s5
    by (auto simp: and_then_eq_Inr parts_valid_def spans_of_def Let_def add.assoc)
qed (simp add: scan_iri_def)

lemma slice_at: "i = length pre \<Longrightarrow> j = i + length mid \<Longrightarrow> slice_range i j (pre @ mid @ post) = mid"
  by (simp add: slice_range_def)

lemma parts_of_spans: "parts_of \<lparr>iri_text = recompose p, iri_spans = spans_of p\<rparr> = p"
proof -
  let ?s = "scheme_lead (pt_scheme p)" and ?a = "with_lead [0x2F, 0x2F] (pt_authority p)"
  let ?q = "with_lead [0x3F] (pt_query p)" and ?f = "with_lead [0x23] (pt_fragment p)" and ?x = "\<lparr>iri_text = recompose p, iri_spans = spans_of p\<rparr>"
  have "iri_scheme ?x = pt_scheme p"
    by (cases "pt_scheme p") (simp_all add: iri_scheme_def iri_part_def spans_of_def Let_def recompose_leads scheme_lead_def slice_range_def)
  moreover have "iri_authority ?x = pt_authority p"
    using slice_at [of _ "?s @ [0x2F, 0x2F]" _ _ "pt_path p @ ?q @ ?f"]
    by (cases "pt_authority p") (simp_all add: iri_authority_def iri_part_def spans_of_def Let_def recompose_leads with_lead_def)
  moreover have "iri_path ?x = pt_path p"
    using slice_at [of _ "?s @ ?a" _ "pt_path p" "?q @ ?f"] by (simp add: iri_path_def spans_of_def Let_def recompose_leads)
  moreover have "iri_query ?x = pt_query p"
    using slice_at [of _ "?s @ ?a @ pt_path p @ [0x3F]" _ _ ?f]
    by (cases "pt_query p") (simp_all add: iri_query_def iri_part_def spans_of_def Let_def recompose_leads with_lead_def add.assoc)
  moreover have "iri_fragment ?x = pt_fragment p"
    using slice_at [of _ "?s @ ?a @ pt_path p @ ?q @ [0x23]" _ _ "[]"]
    by (cases "pt_fragment p") (simp_all add: iri_fragment_def iri_part_def spans_of_def Let_def recompose_leads with_lead_def add.assoc)
  ultimately show ?thesis by (simp add: parts_of_def)
qed

lemma parse_split: "parse_inner s mode = Inr x \<longleftrightarrow>
    s \<noteq> [] \<and> parts_valid mode (split_text s) \<and> x = \<lparr>iri_text = s, iri_spans = spans_of (split_text s)\<rparr>"
  by (auto simp: parse_inner_def and_then_eq_Inr scan_iri_iff)

lemma parts_of_parse: "parse_inner s mode = Inr x \<Longrightarrow> parts_of x = split_text s"
  using parts_of_spans [of "split_text s"] by (auto simp: parse_split recompose_split_text)

section \<open>Components without escapes\<close>

lemma component_clean:
  assumes "m AND NOT COMPONENT_EXTRAS = 0" "\<forall>b\<in>set bs. component_char m b"
  shows "validate_component bs off m priv mode = Inr ()"
proof -
  have "plain_from bs off m priv mode 0 = plain_from bs off m priv mode (0 + length bs)"
    by (rule plain_skip [OF assms(1)]) (use assms(2) in simp_all)
  then show ?thesis unfolding validate_component_def validate_from_plain [OF assms(1)] by (subst (asm) (2) plain_from.simps) simp
qed

lemma reg_name_clean:
  assumes "\<forall>b\<in>set a. is_unreserved b"
  shows "validate_authority a off mode = Inr ()"
proof -
  have no: "position (\<lambda>b. b = c) a = None" "position (\<lambda>b. b = c) (rev a) = None" if "\<not> is_unreserved c" for c
    using assms that by (auto simp: position_eq_None)
  have "\<not> is_unreserved 0x40" "\<not> is_unreserved 0x3A" "\<not> is_unreserved 0x5B" by code_simp+
  moreover have "\<not> (a \<noteq> [] \<and> a ! 0 = 0x5B)" using assms calculation(3) nth_mem [of 0 a] by fastforce
  ultimately have "split_userinfo a off = (None, a, off)" "split_host a off = Inr (a, None)" "strip_brackets a = None"
    using no assms by (auto simp: split_userinfo_def split_host_def strip_brackets_def find_bytes_spec rposition_def split: list.split)
  then show ?thesis
    using component_clean [OF extra_masks(1), of a off False mode] assms
    by (simp add: validate_authority_def validate_host_def component_char_def)
qed


text \<open>Parts whose bytes need no escape are valid.\<close>

definition parts_clean :: "iri_parts \<Rightarrow> bool" where
  "parts_clean p \<longleftrightarrow> valid_option (\<lambda>s. s \<noteq> [] \<and> (\<forall>b\<in>set s. is_ascii_alphabetic b)) (pt_scheme p) \<and>
     valid_option (\<lambda>a. \<forall>b\<in>set a. is_unreserved b) (pt_authority p) \<and> (\<forall>b\<in>set (pt_path p). is_unreserved b \<or> b = 0x2F \<or> b = 0x3A) \<and>
     (pt_scheme p = None \<and> pt_authority p = None \<longrightarrow> relative_path (pt_path p)) \<and> pt_query p = None \<and>
     valid_option (\<lambda>f. \<forall>b\<in>set f. is_unreserved b) (pt_fragment p)"

lemma alphabetic_tail: "is_ascii_alphabetic b \<Longrightarrow> ascii_class b SCHEME_TAIL"
  by (auto simp: ascii_class_iff class_bits is_ascii_alphanumeric_def is_ascii_alphabetic_def intro: le_less_trans)

lemma parts_clean_valid: "parts_clean p \<Longrightarrow> parts_valid mode p"
proof -
  assume p: "parts_clean p"
  have "validate_component (pt_path p) 0 (COLON OR AT_SIGN OR SLASH) False mode = Inr ()"
    by (rule component_clean [OF extra_masks(3)]) (use p in \<open>auto simp: parts_clean_def component_char_def class_bits\<close>)
  moreover have "validate_component f 0 (COLON OR AT_SIGN OR SLASH OR QUESTION) False mode = Inr ()" if "\<forall>b\<in>set f. is_unreserved b" for f
    by (rule component_clean [OF extra_masks(4)]) (use that in \<open>simp add: component_char_def\<close>)
  moreover have "validate_scheme s = Inr ()" if "s \<noteq> []" "\<forall>b\<in>set s. is_ascii_alphabetic b" for s
    using that alphabetic_tail by (simp add: validate_scheme_iff list.set_sel(2))
  ultimately show ?thesis using p reg_name_clean
    by (auto simp: parts_clean_def parts_valid_def valid_option_def split: option.splits)
qed

lemma parse_clean: "s \<noteq> [] \<Longrightarrow> parts_clean (split_text s) \<Longrightarrow> parse_iri s = Inr \<lparr>iri_text = s, iri_spans = spans_of (split_text s)\<rparr>"
  using parts_clean_valid by (simp add: parse_iri_def parse_split)

lemma clean_absolute: "s \<noteq> [] \<Longrightarrow> parts_clean (split_text s) \<Longrightarrow> pt_scheme (split_text s) \<noteq> None \<Longrightarrow> is_absolute s = Inr True"
  using parts_clean_valid by (simp add: is_absolute_def classify_iri_def and_then_eq_Inr scan_iri_iff spans_of_def Let_def)

section \<open>Property\<close>

text \<open>C12: The parser accepts exactly the references of the grammar and takes them apart. It returns given
  parts for a text if and only if the text is not empty, is the recomposition of these parts, the parts
  satisfy the rules of their components and no delimiter of a later part occurs in an earlier one; the
  result keeps the text.\<close>

theorem parse_exact:
  "(\<exists>x. parse_inner s mode = Inr x \<and> parts_of x = p \<and> iri_text x = s) \<longleftrightarrow>
    s \<noteq> [] \<and> s = recompose p \<and> parts_valid mode p \<and> parts_delimited p"
  using parts_of_parse [of s mode] split_text_recompose [of p] split_text_delimited [of mode s] recompose_split_text [of s]
  by (auto simp: parse_split)

end
