(* ===== verification/DotSegments.thy ===== *)
theory DotSegments
  imports IriSplit
begin

unbundle bit_operations_syntax

text \<open>
  The loop over dot segments of \<open>IriResolve\<close> against a stack of segments, for paths that begin with a
  slash.
\<close>

section \<open>Segments\<close>

text \<open>The segments of a path that begins with a slash, and the path of a list of segments.\<close>

function segments :: "bytes \<Rightarrow> bytes list" where
  "segments [] = []"
| "segments (b # bs) = until {0x2F} bs # segments (since {0x2F} bs)"
  by pat_completeness auto
termination by (relation "measure length") (auto simp: since_def length_dropWhile_le less_Suc_eq_le)

definition joined :: "bytes list \<Rightarrow> bytes" where
  "joined ss = concat (map ((#) 0x2F) ss)"

lemma joined_simps [simp]: "joined [] = []" "joined (s # ss) = 0x2F # s @ joined ss" "joined (ss @ ss') = joined ss @ joined ss'"
  by (simp_all add: joined_def)

lemma joined_hd: "joined ss = [] \<or> hd (joined ss) = 0x2F"
  by (cases ss) simp_all

lemma joined_segments: "path = [] \<or> hd path = 0x2F \<Longrightarrow> joined (segments path) = path"
proof (induction path rule: segments.induct)
  case (2 b bs)
  then show ?case using since_hd [of "{0x2F}" bs] by simp
qed simp

lemma segments_joined: "\<forall>s\<in>set ss. 0x2F \<notin> set s \<Longrightarrow> segments (joined ss) = ss"
proof (induction ss)
  case (Cons s ss)
  have "until {0x2F} (s @ joined ss) = s \<and> since {0x2F} (s @ joined ss) = joined ss"
    by (rule until_append) (use Cons.prems joined_hd [of ss] in auto)
  then show ?case using Cons by simp
qed simp

lemma segments_slash_free: "s \<in> set (segments path) \<Longrightarrow> 0x2F \<notin> set s"
proof (induction path rule: segments.induct)
  case (2 b bs)
  then show ?case using until_disjoint [of "{0x2F}" bs] by auto
qed simp

section \<open>Dot segments on a stack\<close>

text \<open>A single dot is skipped, a double dot drops the last segment kept, and either at the end leaves
  an empty segment.\<close>

definition dot_keep :: "bytes list \<Rightarrow> bytes \<Rightarrow> bytes list" where
  "dot_keep st s = (if s = [0x2E] then st else if s = [0x2E, 0x2E] then butlast st else st @ [s])"

definition dot_stack :: "bytes list \<Rightarrow> bytes list" where
  "dot_stack ss = foldl dot_keep [] ss @ (if ss \<noteq> [] \<and> last ss \<in> {[0x2E], [0x2E, 0x2E]} then [[]] else [])"

lemma rposition_snoc: "0x2F \<notin> set s \<Longrightarrow> rposition (\<lambda>b. b = 0x2F) (xs @ 0x2F # s) = Some (length xs)"
proof -
  assume "0x2F \<notin> set s"
  then have "position (\<lambda>b. b = 0x2F) (rev s) = None" by (auto simp: position_eq_None)
  then show ?thesis by (simp add: rposition_def position_append)
qed

lemma pop_joined: "\<forall>s\<in>set st. 0x2F \<notin> set s \<Longrightarrow> pop_last_segment (joined st) = joined (butlast st)"
  by (cases st rule: rev_cases) (simp_all add: pop_last_segment_def rposition_snoc, simp add: rposition_def)

lemma first_segment_joined: "0x2F \<notin> set s \<Longrightarrow> first_segment_end (0x2F # s @ joined ss) = 1 + length s"
proof -
  assume "0x2F \<notin> set s"
  then have "position (\<lambda>b. b = 0x2F) s = None" by (auto simp: position_eq_None)
  then show ?thesis by (cases ss) (simp_all add: first_segment_end_def position_append)
qed

lemma dot_loop_plain:
  assumes "0x2F \<notin> set s" "s \<notin> {[0x2E], [0x2E, 0x2E]}"
  shows "dot_loop (0x2F # s @ joined ss) out = dot_loop (joined ss) (out @ 0x2F # s)"
proof -
  let ?in = "0x2F # s @ joined ss"
  have "take 3 ?in \<noteq> [0x2F, 0x2E, 0x2F] \<and> ?in \<noteq> [0x2F, 0x2E] \<and> take 4 ?in \<noteq> [0x2F, 0x2E, 0x2E, 0x2F] \<and> ?in \<noteq> [0x2F, 0x2E, 0x2E]"
  proof -
    consider "s = []" | c where "s = [c]" | c d where "s = [c, d]" | c d e r where "s = c # d # e # r"
      by (cases s; cases "tl s"; cases "tl (tl s)") auto
    then show ?thesis using assms by cases (cases ss; simp)+
  qed
  then show ?thesis using first_segment_joined [OF assms(1), of ss] by (subst dot_loop.simps) (simp add: Let_def)
qed

lemma dot_loop_dot: "dot_loop (0x2F # [0x2E] @ joined ss) out = (if ss = [] then dot_loop [0x2F] out else dot_loop (joined ss) out)"
  by (subst dot_loop.simps) (cases ss; simp)

lemma dot_loop_dots: "dot_loop (0x2F # [0x2E, 0x2E] @ joined ss) out =
    (if ss = [] then dot_loop [0x2F] (pop_last_segment out) else dot_loop (joined ss) (pop_last_segment out))"
  by (subst dot_loop.simps) (cases ss; simp)

lemma set_dot_keep: "t \<in> set (dot_keep st s) \<Longrightarrow> t \<in> set st \<or> t = s \<and> s \<notin> {[0x2E], [0x2E, 0x2E]}"
  by (auto simp: dot_keep_def dest: in_set_butlastD split: if_splits)

lemma set_dot_keeps: "t \<in> set (foldl dot_keep st ss) \<Longrightarrow> t \<in> set st \<or> t \<in> set ss \<and> t \<notin> {[0x2E], [0x2E, 0x2E]}"
  by (induction ss arbitrary: st) (simp, fastforce dest: set_dot_keep)

lemma dot_loop_stack:
  assumes "\<forall>s\<in>set ss. 0x2F \<notin> set s" "\<forall>s\<in>set st. 0x2F \<notin> set s"
  shows "dot_loop (joined ss) (joined st) = joined (foldl dot_keep st ss @ (if ss \<noteq> [] \<and> last ss \<in> {[0x2E], [0x2E, 0x2E]} then [[]] else []))"
  using assms
proof (induction ss arbitrary: st)
  case Nil
  then show ?case by (subst dot_loop.simps) simp
next
  case (Cons s ss)
  have slash: "dot_loop [0x2F] out = out @ [0x2F]" for out
    using dot_loop_plain [of "[]" "[]" out] dot_loop.simps [of "[]"] by simp
  have keep: "\<forall>t\<in>set (dot_keep st s). 0x2F \<notin> set t" using Cons.prems set_dot_keep [of _ st s] by fastforce
  have IH: "dot_loop (joined ss) (joined (dot_keep st s)) =
      joined (foldl dot_keep (dot_keep st s) ss @ (if ss \<noteq> [] \<and> last ss \<in> {[0x2E], [0x2E, 0x2E]} then [[]] else []))"
    by (rule Cons.IH) (use Cons.prems keep in auto)
  consider "s = [0x2E]" | "s = [0x2E, 0x2E]" | "s \<notin> {[0x2E], [0x2E, 0x2E]}" by blast
  then show ?case
  proof cases
    case 1
    then have "dot_keep st s = st" by (simp add: dot_keep_def)
    then show ?thesis using 1 IH dot_loop_dot [of ss "joined st"] by (cases "ss = []") (simp_all add: slash)
  next
    case 2
    then have "dot_keep st s = butlast st" by (simp add: dot_keep_def)
    then show ?thesis using 2 IH dot_loop_dots [of ss "joined st"] pop_joined [OF Cons.prems(2)]
      by (cases "ss = []") (simp_all add: slash)
  next
    case 3
    then have "dot_keep st s = st @ [s]" by (simp add: dot_keep_def)
    then show ?thesis using 3 IH dot_loop_plain [of s ss "joined st"] Cons.prems
      by (cases "ss = []") simp_all
  qed
qed

lemma dot_stack_clean: "\<forall>s\<in>set (dot_stack ss). s \<notin> {[0x2E], [0x2E, 0x2E]}"
  using set_dot_keeps [of _ "[]" ss] by (fastforce simp: dot_stack_def split: if_splits)

lemma dot_stack_subset: "s \<in> set (dot_stack ss) \<Longrightarrow> s = [] \<or> s \<in> set ss"
  using set_dot_keeps [of s "[]" ss] by (auto simp: dot_stack_def split: if_splits)

lemma dot_stack_id: "\<forall>s\<in>set ss. s \<notin> {[0x2E], [0x2E, 0x2E]} \<Longrightarrow> dot_stack ss = ss"
proof -
  assume clean: "\<forall>s\<in>set ss. s \<notin> {[0x2E], [0x2E, 0x2E]}"
  then have "foldl dot_keep st ss = st @ ss" for st by (induction ss arbitrary: st) (simp_all add: dot_keep_def)
  then show ?thesis using clean last_in_set [of ss] by (auto simp: dot_stack_def)
qed

lemma remove_dot_segments_stack:
  "\<forall>s\<in>set ss. 0x2F \<notin> set s \<Longrightarrow> remove_dot_segments (joined ss) = joined (dot_stack ss)"
  using dot_loop_stack [of ss "[]"] by (simp add: remove_dot_segments_def dot_stack_def)

section \<open>Paths without a leading slash\<close>

text \<open>The reference for any path, over its list of segments: leading dot segments go with their slash; a
  first segment that stays is the bottom of the stack, and a double dot that drops it leaves a rooted path.\<close>

fun rooted_keep :: "bytes \<times> bytes list \<Rightarrow> bytes \<Rightarrow> bytes \<times> bytes list" where
  "rooted_keep (root, st) s =
     (if s = [0x2E] then (root, st)
      else if s = [0x2E, 0x2E] then (if st = [] then ([], []) else (root, butlast st))
      else (root, st @ [s]))"

fun undotted :: "bytes list \<Rightarrow> bytes" where
  "undotted [] = []"
| "undotted (s # ss) =
     (if s \<in> {[0x2E], [0x2E, 0x2E]} then undotted ss
      else case foldl rooted_keep (s, []) ss of
        (root, st) \<Rightarrow> root @ joined (st @ (if ss \<noteq> [] \<and> last ss \<in> {[0x2E], [0x2E, 0x2E]} then [[]] else [])))"

definition without_dots :: "bytes \<Rightarrow> bytes" where
  "without_dots path = undotted (until {0x2F} path # segments (since {0x2F} path))"

lemma pop_rooted: "0x2F \<notin> set root \<Longrightarrow> \<forall>s\<in>set st. 0x2F \<notin> set s \<Longrightarrow>
    pop_last_segment (root @ joined st) = (if st = [] then [] else root @ joined (butlast st))"
proof (cases st rule: rev_cases)
  case (snoc st' s)
  assume "\<forall>s\<in>set st. 0x2F \<notin> set s"
  then show ?thesis using snoc rposition_snoc [of s "root @ joined st'"] by (simp add: pop_last_segment_def)
next
  case Nil
  assume "0x2F \<notin> set root"
  then have "position (\<lambda>b. b = 0x2F) (rev root) = None" by (auto simp: position_eq_None)
  then show ?thesis using Nil by (simp add: pop_last_segment_def rposition_def)
qed

lemma rooted_keep_free: "0x2F \<notin> set root \<Longrightarrow> \<forall>t\<in>set st. 0x2F \<notin> set t \<Longrightarrow> 0x2F \<notin> set s \<Longrightarrow> rooted_keep (root, st) s = (root', st') \<Longrightarrow>
    0x2F \<notin> set root' \<and> (\<forall>t\<in>set st'. 0x2F \<notin> set t)"
  by (auto dest: in_set_butlastD split: if_splits)

lemma dot_loop_slash: "dot_loop [0x2F] out = out @ [0x2F]"
  using dot_loop_plain [of "[]" "[]" out] dot_loop.simps [of "[]"] by simp

lemma dot_loop_rooted:
  assumes "\<forall>s\<in>set ss. 0x2F \<notin> set s" "\<forall>s\<in>set st. 0x2F \<notin> set s" "0x2F \<notin> set root"
  shows "dot_loop (joined ss) (root @ joined st) = (case foldl rooted_keep (root, st) ss of
     (root, st) \<Rightarrow> root @ joined (st @ (if ss \<noteq> [] \<and> last ss \<in> {[0x2E], [0x2E, 0x2E]} then [[]] else [])))"
  using assms
proof (induction ss arbitrary: root st)
  case Nil
  then show ?case by (subst dot_loop.simps) simp
next
  case (Cons s ss)
  obtain root' st' where keep: "rooted_keep (root, st) s = (root', st')" by fastforce
  have free: "0x2F \<notin> set root'" "\<forall>t\<in>set st'. 0x2F \<notin> set t" using rooted_keep_free [OF Cons.prems(3,2) _ keep] Cons.prems(1) by auto
  have IH: "dot_loop (joined ss) (root' @ joined st') = (case foldl rooted_keep (root', st') ss of
     (root, st) \<Rightarrow> root @ joined (st @ (if ss \<noteq> [] \<and> last ss \<in> {[0x2E], [0x2E, 0x2E]} then [[]] else [])))"
    by (rule Cons.IH) (use Cons.prems free in auto)
  have pop: "pop_last_segment (root @ joined st) = (if st = [] then [] else root @ joined (butlast st))"
    by (rule pop_rooted [OF Cons.prems(3,2)])
  consider "s = [0x2E]" | "s = [0x2E, 0x2E]" | "s \<notin> {[0x2E], [0x2E, 0x2E]}" by blast
  then show ?case
  proof cases
    case 1
    then have "root' = root" "st' = st" using keep by simp_all
    then show ?thesis using 1 IH dot_loop_dot [of ss "root @ joined st"] by (cases "ss = []") (simp_all add: dot_loop_slash)
  next
    case 2
    then have "root' @ joined st' = pop_last_segment (root @ joined st)" using keep pop by (auto split: if_splits)
    then show ?thesis using 2 IH keep dot_loop_dots [of ss "root @ joined st"]
      by (cases "ss = []") (simp_all add: dot_loop_slash del: rooted_keep.simps)
  next
    case 3
    then have "root' = root" "st' = st @ [s]" using keep by auto
    then show ?thesis using 3 IH dot_loop_plain [of s ss "root @ joined st"] Cons.prems by (cases "ss = []") simp_all
  qed
qed

lemma dot_loop_lead: "dot_loop ([0x2E] @ joined ss) [] = (case ss of [] \<Rightarrow> [] | t # ts \<Rightarrow> dot_loop (t @ joined ts) [])"
  "dot_loop ([0x2E, 0x2E] @ joined ss) [] = (case ss of [] \<Rightarrow> [] | t # ts \<Rightarrow> dot_loop (t @ joined ts) [])"
  by (cases ss; subst dot_loop.simps; simp add: dot_loop.simps [of "[]"])+

lemma dot_loop_first:
  assumes "0x2F \<notin> set s" "s \<noteq> []" "s \<notin> {[0x2E], [0x2E, 0x2E]}"
  shows "dot_loop (s @ joined ss) [] = dot_loop (joined ss) s"
proof -
  let ?in = "s @ joined ss"
  have first: "first_segment_end ?in = length s"
  proof -
    have "position (\<lambda>b. b = 0x2F) s = None" using assms(1) by (auto simp: position_eq_None)
    then have "position (\<lambda>b. b = 0x2F) ?in = (if ss = [] then None else Some (length s))" by (cases ss) (simp_all add: position_append)
    moreover have "?in ! 0 \<noteq> 0x2F" using assms(1,2) by (cases s) auto
    ultimately show ?thesis by (simp add: first_segment_end_def)
  qed
  have "take 3 ?in \<noteq> [0x2E, 0x2E, 0x2F] \<and> take 2 ?in \<noteq> [0x2E, 0x2F] \<and> take 3 ?in \<noteq> [0x2F, 0x2E, 0x2F] \<and> ?in \<noteq> [0x2F, 0x2E] \<and>
      take 4 ?in \<noteq> [0x2F, 0x2E, 0x2E, 0x2F] \<and> ?in \<noteq> [0x2F, 0x2E, 0x2E] \<and> ?in \<noteq> [0x2E] \<and> ?in \<noteq> [0x2E, 0x2E]"
  proof -
    consider c where "s = [c]" | c d where "s = [c, d]" | c d e r where "s = c # d # e # r"
      using assms(2) by (cases s; cases "tl s"; cases "tl (tl s)") auto
    then show ?thesis using assms by cases (cases ss; auto)+
  qed
  then show ?thesis using first assms(2) by (subst dot_loop.simps) (simp add: Let_def)
qed

lemma dot_loop_undotted: "\<forall>s\<in>set (s # ss). 0x2F \<notin> set s \<Longrightarrow> dot_loop (s @ joined ss) [] = undotted (s # ss)"
proof (induction ss arbitrary: s)
  case Nil
  then show ?case using dot_loop_first [of s "[]"] dot_loop_lead [of "[]"] dot_loop.simps [of "[]"] by (cases "s = []") auto
next
  case (Cons t ts)
  show ?case
  proof (cases "s \<in> {[0x2E], [0x2E, 0x2E]}")
    case True
    then show ?thesis using Cons.IH [of t] Cons.prems dot_loop_lead [of "t # ts"] by auto
  next
    case False
    have "dot_loop (s @ joined (t # ts)) [] = dot_loop (joined (t # ts)) (s @ joined [])"
      using dot_loop_first [of s "t # ts"] False Cons.prems by (cases "s = []") simp_all
    then show ?thesis using False dot_loop_rooted [of "t # ts" "[]" s] Cons.prems by (simp del: rooted_keep.simps foldl_Cons)
  qed
qed

lemma remove_dot_segments_exact: "remove_dot_segments path = without_dots path"
proof -
  have "path = until {0x2F} path @ joined (segments (since {0x2F} path))"
    using joined_segments [of "since {0x2F} path"] since_hd [of "{0x2F}" path] by auto
  moreover have "\<forall>s\<in>set (until {0x2F} path # segments (since {0x2F} path)). 0x2F \<notin> set s"
    using until_disjoint [of "{0x2F}" path] segments_slash_free by auto
  ultimately show ?thesis unfolding remove_dot_segments_def without_dots_def by (metis dot_loop_undotted)
qed

section \<open>Property\<close>

text \<open>C20: Removing dot segments from a path that begins with a slash computes the segment stack: a
  single dot is skipped and a double dot drops the segment before it. The result has no dot segment,
  and removing dot segments again changes nothing.\<close>

theorem dot_segments_removed:
  assumes "hd path = 0x2F"
  shows "segments (remove_dot_segments path) = dot_stack (segments path) \<and>
    set (segments (remove_dot_segments path)) \<inter> {[0x2E], [0x2E, 0x2E]} = {} \<and>
    remove_dot_segments (remove_dot_segments path) = remove_dot_segments path"
proof -
  let ?ss = "segments path"
  have free: "\<forall>s\<in>set ?ss. 0x2F \<notin> set s" using segments_slash_free by blast
  have free': "\<forall>s\<in>set (dot_stack ?ss). 0x2F \<notin> set s" using free dot_stack_subset [of _ ?ss] by fastforce
  have r: "remove_dot_segments path = joined (dot_stack ?ss)"
    using remove_dot_segments_stack [OF free] joined_segments [of path] assms by simp
  have "remove_dot_segments (joined (dot_stack ?ss)) = joined (dot_stack ?ss)"
    using remove_dot_segments_stack [OF free'] dot_stack_id [OF dot_stack_clean] by simp
  then show ?thesis using r segments_joined [OF free'] dot_stack_clean [of ?ss] by auto
qed

lemma dot_segments_removed_witness:
  "segments (remove_dot_segments [0x2F, 0x61, 0x2F, 0x62, 0x2F, 0x2E, 0x2E, 0x2F, 0x2E]) = [[0x61], []]"
proof -
  have "dot_stack (segments [0x2F, 0x61, 0x2F, 0x62, 0x2F, 0x2E, 0x2E, 0x2F, 0x2E]) = [[0x61], []]" by code_simp
  then show ?thesis using dot_segments_removed [of "[0x2F, 0x61, 0x2F, 0x62, 0x2F, 0x2E, 0x2E, 0x2F, 0x2E]"] by simp
qed

end
