(* ===== verification/Resolution.thy ===== *)
theory Resolution
  imports DotSegments
begin

unbundle bit_operations_syntax

text \<open>
  Resolving a reference, against the rules of RFC 3986, 5.2.2, stated as a relation on split texts: they
  give exactly one target and the code computes it. Through the exactness of the parser, the parts of
  a target keep their delimiters apart, so recomposing and parsing them returns them. Then two texts
  on which normalization fails.
\<close>

section \<open>Bytes of a resolved path\<close>

lemma set_slice: "set (take n xs) \<subseteq> set xs" "set (drop n xs) \<subseteq> set xs"
  by (rule set_take_subset, rule set_drop_subset)

lemma set_pop_last: "set (pop_last_segment out) \<subseteq> set out"
  using set_take_subset [of _ out] by (auto simp: pop_last_segment_def split: option.splits)

lemma dot_step:
  assumes "input \<noteq> []"
  obtains i w where "dot_loop input out = dot_loop i w" "length i < length input" "set i \<subseteq> set input \<union> {0x2F}" "set w \<subseteq> set input \<union> set out"
proof -
  let ?n = "first_segment_end input"
  have n: "length (drop ?n input) < length input" using first_segment_end_pos [OF assms] assms by simp
  have sub: "set (drop n input) \<subseteq> set input" "set (take n input) \<subseteq> set input" for n
    by (rule set_drop_subset, rule set_take_subset)
  have shorter: "length (drop 3 input) < length input" "length (drop 2 input) < length input" using assms by (simp_all add: diff_less)
  consider "dot_loop input out = dot_loop (drop 3 input) out" | "dot_loop input out = dot_loop (drop 2 input) out"
    | "dot_loop input out = dot_loop [0x2F] out" "1 < length input" | "dot_loop input out = dot_loop (drop 3 input) (pop_last_segment out)"
    | "dot_loop input out = dot_loop [0x2F] (pop_last_segment out)" "1 < length input" | "dot_loop input out = dot_loop [] out"
    | "dot_loop input out = dot_loop (drop ?n input) (out @ take ?n input)"
    using dot_loop.simps [of input out] assms by (auto simp: Let_def split: if_splits)
  then show thesis
    by cases (erule that; use n sub shorter assms set_pop_last [of out] in \<open>auto dest: set_mp\<close>)+
qed

lemma set_dot_loop: "set (dot_loop input out) \<subseteq> set input \<union> set out \<union> {0x2F}"
proof (induction "length input" arbitrary: input out rule: less_induct)
  case less
  show ?case
  proof (cases "input = []")
    case True
    then show ?thesis by (auto simp: dot_loop.simps [of "[]"])
  next
    case False
    then obtain i w where "dot_loop input out = dot_loop i w" "length i < length input" "set i \<subseteq> set input \<union> {0x2F}" "set w \<subseteq> set input \<union> set out"
      by (rule dot_step)
    then show ?thesis using less [of i w] by auto
  qed
qed

lemma set_remove_dot_segments: "set (remove_dot_segments path) \<subseteq> set path \<union> {0x2F}"
  using set_dot_loop [of path "[]"] by (simp add: remove_dot_segments_def)

lemma remove_dot_segments_rooted: "path = [] \<or> hd path = 0x2F \<Longrightarrow> remove_dot_segments path = [] \<or> hd (remove_dot_segments path) = 0x2F"
  using remove_dot_segments_stack [of "segments path"] segments_slash_free [of _ path] joined_segments [of path] joined_hd [of "dot_stack (segments path)"]
  by auto

lemma set_merge_paths: "set (merge_paths base ref_path) \<subseteq> set (pt_path base) \<union> set ref_path \<union> {0x2F}"
  using set_take_subset [of _ "pt_path base"] by (auto simp: merge_paths_def split: option.splits)

lemma rposition_hit: "rposition P xs = Some i \<Longrightarrow> i < length xs \<and> P (xs ! i)"
  by (auto simp: rposition_def position_eq_Some rev_nth)

lemma merge_paths_rooted:
  assumes "pt_authority base \<noteq> None" "pt_path base = [] \<or> hd (pt_path base) = 0x2F"
  shows "hd (merge_paths base ref_path) = 0x2F"
proof (cases "pt_path base")
  case (Cons b bs)
  then have "rposition (\<lambda>b. b = 0x2F) (pt_path base) \<noteq> None"
    using assms(2) by (auto simp: rposition_def position_eq_None)
  then show ?thesis using assms Cons by (auto simp: merge_paths_def)
qed (use assms(1) in \<open>simp add: merge_paths_def\<close>)

section \<open>Resolution\<close>

definition path_fits :: "bytes option \<Rightarrow> bytes \<Rightarrow> bool" where
  "path_fits a path \<longleftrightarrow> set path \<inter> {0x3F, 0x23} = {} \<and> (a \<noteq> None \<longrightarrow> path = [] \<or> hd path = 0x2F)"

lemma path_fits_parts: "parts_delimited p \<Longrightarrow> path_fits (pt_authority p) (pt_path p)"
  by (auto simp: path_fits_def parts_delimited_def)

lemma path_fits_remove: "path_fits a path \<Longrightarrow> path_fits a (remove_dot_segments path)"
  using set_remove_dot_segments [of path] remove_dot_segments_rooted [of path] by (auto simp: path_fits_def)

lemma path_fits_merge: "parts_delimited base \<Longrightarrow> set path \<inter> {0x3F, 0x23} = {} \<Longrightarrow> path_fits (pt_authority base) (merge_paths base path)"
  using path_fits_parts [of base] merge_paths_rooted [of base path] set_merge_paths [of base path] by (auto simp: path_fits_def)

lemma transform_fields:
  assumes "parts_delimited base" "parts_delimited r"
  defines "t \<equiv> transform base r"
  shows "path_fits (pt_authority t) (pt_path t)" "pt_scheme t = (if pt_scheme r \<noteq> None then pt_scheme r else pt_scheme base)"
    "pt_authority t \<in> {pt_authority r, pt_authority base}" "pt_query t \<in> {pt_query r, pt_query base}"
proof -
  have r: "path_fits (pt_authority r) (pt_path r)" and b: "path_fits (pt_authority base) (pt_path base)"
    using path_fits_parts assms(1,2) by blast+
  have plain: "set (pt_path r) \<inter> {0x3F, 0x23} = {}" using r by (simp add: path_fits_def)
  have "path_fits (pt_authority base) (pt_path r)" if "pt_path r \<noteq> []" "pt_path r ! 0 = 0x2F"
    using that plain by (simp add: path_fits_def hd_conv_nth)
  then show "path_fits (pt_authority t) (pt_path t)"
    using r b path_fits_remove path_fits_merge [OF assms(1) plain] unfolding t_def transform_def by (simp add: Let_def)
qed (simp_all add: t_def transform_def Let_def)

lemma transform_delimited:
  assumes "parts_delimited base" "parts_delimited r" "pt_scheme base \<noteq> None"
    and "pt_authority (transform base r) = None \<Longrightarrow> take 2 (pt_path (transform base r)) \<noteq> [0x2F, 0x2F]"
  shows "parts_delimited (transform base r)"
proof -
  note f = transform_fields [OF assms(1,2)]
  have "valid_option (\<lambda>q. 0x23 \<notin> set q) (pt_query (transform base r))"
    "valid_option (\<lambda>a. set a \<inter> {0x2F, 0x3F, 0x23} = {}) (pt_authority (transform base r))"
    "valid_option (\<lambda>s. s \<noteq> [] \<and> is_ascii_alphabetic (hd s) \<and> set s \<inter> {0x3A, 0x2F, 0x3F, 0x23} = {}) (pt_scheme (transform base r))"
    using f(2-4) assms(1,2) by (auto simp: parts_delimited_def)
  then show ?thesis using f(1,2) assms(3,4) by (auto simp: parts_delimited_def path_fits_def)
qed

lemma parse_delimited: "parse_iri s = Inr x \<Longrightarrow> parts_delimited (parts_of x)"
  using parts_of_parse [of s ModeIri x] split_text_delimited [of ModeIri s] by (simp add: parse_iri_def parse_split)

lemma parse_iri_text: "parse_iri s = Inr x \<Longrightarrow> iri_text x = s"
  by (auto simp: parse_iri_def parse_split)

lemma has_scheme_parts: "has_scheme x \<longleftrightarrow> pt_scheme (parts_of x) \<noteq> None"
  by (simp add: has_scheme_def parts_of_def iri_scheme_def iri_part_def)

lemma split_text_Nil: "split_text [] = same_document"
  by (simp add: split_text_def split_scheme_def split_authority_def split_query_def split_fragment_def until_def since_def same_document_def)

section \<open>The reference\<close>

text \<open>The transformation of references of RFC 3986, 5.2.2, one rule per case, with the path rules of
  \<open>without_dots\<close> and the merge as all of the base path up to its last slash.\<close>

definition base_directory :: "bytes \<Rightarrow> bytes" where
  "base_directory path = rev (dropWhile (\<lambda>b. b \<noteq> 0x2F) (rev path))"

inductive target_of :: "iri_parts \<Rightarrow> iri_parts \<Rightarrow> iri_parts \<Rightarrow> bool" for base r where
  own_scheme: "pt_scheme r = Some sch \<Longrightarrow>
    target_of base r \<lparr>pt_scheme = Some sch, pt_authority = pt_authority r, pt_path = without_dots (pt_path r), pt_query = pt_query r, pt_fragment = pt_fragment r\<rparr>"
| own_authority: "pt_scheme r = None \<Longrightarrow> pt_authority r = Some a \<Longrightarrow>
    target_of base r \<lparr>pt_scheme = pt_scheme base, pt_authority = Some a, pt_path = without_dots (pt_path r), pt_query = pt_query r, pt_fragment = pt_fragment r\<rparr>"
| own_query: "pt_scheme r = None \<Longrightarrow> pt_authority r = None \<Longrightarrow> pt_path r = [] \<Longrightarrow> pt_query r = Some q \<Longrightarrow>
    target_of base r \<lparr>pt_scheme = pt_scheme base, pt_authority = pt_authority base, pt_path = pt_path base, pt_query = Some q, pt_fragment = pt_fragment r\<rparr>"
| base_query: "pt_scheme r = None \<Longrightarrow> pt_authority r = None \<Longrightarrow> pt_path r = [] \<Longrightarrow> pt_query r = None \<Longrightarrow>
    target_of base r \<lparr>pt_scheme = pt_scheme base, pt_authority = pt_authority base, pt_path = pt_path base, pt_query = pt_query base, pt_fragment = pt_fragment r\<rparr>"
| rooted_path: "pt_scheme r = None \<Longrightarrow> pt_authority r = None \<Longrightarrow> pt_path r = 0x2F # p \<Longrightarrow>
    target_of base r \<lparr>pt_scheme = pt_scheme base, pt_authority = pt_authority base, pt_path = without_dots (pt_path r), pt_query = pt_query r, pt_fragment = pt_fragment r\<rparr>"
| merged_at_authority: "pt_scheme r = None \<Longrightarrow> pt_authority r = None \<Longrightarrow> pt_path r = b # p \<Longrightarrow> b \<noteq> 0x2F \<Longrightarrow> pt_authority base = Some a \<Longrightarrow> pt_path base = [] \<Longrightarrow>
    target_of base r \<lparr>pt_scheme = pt_scheme base, pt_authority = Some a, pt_path = without_dots (0x2F # pt_path r), pt_query = pt_query r, pt_fragment = pt_fragment r\<rparr>"
| merged_path: "pt_scheme r = None \<Longrightarrow> pt_authority r = None \<Longrightarrow> pt_path r = b # p \<Longrightarrow> b \<noteq> 0x2F \<Longrightarrow> pt_authority base = None \<or> pt_path base \<noteq> [] \<Longrightarrow>
    target_of base r \<lparr>pt_scheme = pt_scheme base, pt_authority = pt_authority base, pt_path = without_dots (base_directory (pt_path base) @ pt_path r),
      pt_query = pt_query r, pt_fragment = pt_fragment r\<rparr>"

lemma base_directory_slash: "(case rposition (\<lambda>b. b = 0x2F) path of Some slash \<Rightarrow> take (slash + 1) path | None \<Rightarrow> []) = base_directory path"
proof (induction path rule: rev_induct)
  case (snoc x xs)
  show ?case
  proof (cases "x = 0x2F")
    case False
    then have "rposition (\<lambda>b. b = 0x2F) (xs @ [x]) = rposition (\<lambda>b. b = 0x2F) xs"
      by (cases "position (\<lambda>b. b = 0x2F) (rev xs)") (auto simp: rposition_def)
    then show ?thesis using snoc False rposition_hit [of "\<lambda>b. b = 0x2F" xs] by (auto simp: base_directory_def split: option.splits)
  qed (simp add: rposition_def base_directory_def)
qed (simp add: rposition_def base_directory_def)

lemma merge_paths_spec: "merge_paths base p = (if pt_authority base \<noteq> None \<and> pt_path base = [] then 0x2F # p else base_directory (pt_path base) @ p)"
  using base_directory_slash [of "pt_path base"] by (auto simp: merge_paths_def split: option.splits)

text \<open>The transformation of the code gives the target, and no other parts are.\<close>

lemma update_path: "r\<lparr>pt_path := p\<rparr> = \<lparr>pt_scheme = pt_scheme r, pt_authority = pt_authority r, pt_path = p, pt_query = pt_query r, pt_fragment = pt_fragment r\<rparr>"
  "r\<lparr>pt_scheme := sch, pt_path := p\<rparr> = \<lparr>pt_scheme = sch, pt_authority = pt_authority r, pt_path = p, pt_query = pt_query r, pt_fragment = pt_fragment r\<rparr>"
  by simp_all

lemma transform_target: "target_of base r (transform base r)"
proof -
  note path = remove_dot_segments_exact
  consider sch where "pt_scheme r = Some sch" | a where "pt_scheme r = None" "pt_authority r = Some a"
    | q where "pt_scheme r = None" "pt_authority r = None" "pt_path r = []" "pt_query r = Some q"
    | "pt_scheme r = None" "pt_authority r = None" "pt_path r = []" "pt_query r = None"
    | p where "pt_scheme r = None" "pt_authority r = None" "pt_path r = 0x2F # p"
    | b p a where "pt_scheme r = None" "pt_authority r = None" "pt_path r = b # p" "b \<noteq> 0x2F" "pt_authority base = Some a" "pt_path base = []"
    | b p where "pt_scheme r = None" "pt_authority r = None" "pt_path r = b # p" "b \<noteq> 0x2F" "pt_authority base = None \<or> pt_path base \<noteq> []"
    by (cases "pt_scheme r"; cases "pt_authority r"; cases "pt_path r"; cases "pt_query r"; cases "pt_authority base") auto
  then show ?thesis
  proof cases
    case 1
    from own_scheme [OF 1] show ?thesis using 1 by (simp add: transform_def path update_path)
  next
    case 2
    from own_authority [OF 2] show ?thesis using 2 by (simp add: transform_def path update_path)
  next
    case 3
    from own_query [OF 3] show ?thesis using 3 by (simp add: transform_def)
  next
    case 4
    from base_query [OF 4] show ?thesis using 4 by (simp add: transform_def)
  next
    case 5
    from rooted_path [OF 5] show ?thesis using 5 by (simp add: transform_def path)
  next
    case 6
    from merged_at_authority [OF 6] show ?thesis using 6 by (simp add: transform_def path merge_paths_spec)
  next
    case 7
    from merged_path [OF 7] show ?thesis using 7 by (auto simp: transform_def path merge_paths_spec)
  qed
qed

lemma target_unique: "target_of base r t \<Longrightarrow> target_of base r t' \<Longrightarrow> t = t'"
  by (elim target_of.cases) simp_all

lemma resolve_ref_reparse:
  assumes "parse_iri b = Inr base" "has_scheme base" "s = [] \<or> parse_iri s = Inr x"
  shows "resolve_ref base s = parse_iri (recompose (transform (split_text b) (split_text s)))"
proof -
  have b: "parts_of base = split_text b" using assms(1) parts_of_parse [of b ModeIri] by (simp add: parse_iri_def)
  show ?thesis
  proof (cases "s = []")
    case False
    then have x: "parse_iri s = Inr x" using assms(3) by blast
    then have "parts_of x = split_text s" using parts_of_parse [of s ModeIri] by (simp add: parse_iri_def)
    then show ?thesis using x False assms(2) b by (simp add: resolve_ref_def resolve_iri_def transform_and_reparse_def)
  qed (use assms(2) b in \<open>simp add: resolve_ref_def transform_and_reparse_def split_text_Nil\<close>)
qed

lemma reference_delimited: "s = [] \<or> parse_iri s = Inr x \<Longrightarrow> parts_delimited (split_text s)"
proof (cases "s = []")
  case True
  then show ?thesis by (simp add: split_text_Nil) (simp add: parts_delimited_def same_document_def valid_option_def relative_path_def until_def)
next
  case False
  assume "s = [] \<or> parse_iri s = Inr x"
  then show ?thesis using False parse_delimited [of s x] parts_of_parse [of s ModeIri x] by (simp add: parse_iri_def)
qed

lemma resolution_target:
  assumes "parse_iri b = Inr base" "has_scheme base" "s = [] \<or> parse_iri s = Inr x"
  shows "\<exists>t. target_of (split_text b) (split_text s) t \<and> (\<forall>t'. target_of (split_text b) (split_text s) t' \<longrightarrow> t' = t) \<and>
        resolve_ref base s = parse_iri (recompose t) \<and>
        (\<forall>y. resolve_ref base s = Inr y \<longrightarrow> iri_text y = recompose t \<and>
          (pt_authority t = None \<and> take 2 (pt_path t) = [0x2F, 0x2F] \<or> parts_of y = t))"
proof -
  let ?t = "transform (split_text b) (split_text s)"
  note run = resolve_ref_reparse [OF assms]
  have base: "parts_of base = split_text b" using assms(1) parts_of_parse [of b ModeIri] by (simp add: parse_iri_def)
  have "parts_delimited ?t" if "\<not> (pt_authority ?t = None \<and> take 2 (pt_path ?t) = [0x2F, 0x2F])"
    by (rule transform_delimited) (use that parse_delimited [OF assms(1)] reference_delimited [OF assms(3)] assms(2) base in \<open>simp_all add: has_scheme_parts\<close>)
  then have "parts_of y = ?t" if "resolve_ref base s = Inr y" "\<not> (pt_authority ?t = None \<and> take 2 (pt_path ?t) = [0x2F, 0x2F])" for y
    using that run parts_of_parse [of "recompose ?t" ModeIri y] split_text_recompose by (simp add: parse_iri_def)
  moreover have "iri_text y = recompose ?t" if "resolve_ref base s = Inr y" for y using that run parse_iri_text by simp
  moreover have "\<forall>t'. target_of (split_text b) (split_text s) t' \<longrightarrow> t' = ?t" using transform_target target_unique by blast
  ultimately show ?thesis using run transform_target by blast
qed

section \<open>Properties\<close>

text \<open>C18: Resolving a reference against a base. A base without a scheme is refused, and an invalid
  reference with its own error. Otherwise the rules of RFC 3986, 5.2.2, give exactly one target for the
  split texts, and the resolution is the parse of its recomposed text. Whenever that parses, the result has
  the target's scheme, authority, path, query and fragment, so recomposing and parsing again loses nothing;
  the one exception is a target without an authority whose path begins with two slashes.\<close>

theorem resolution_transforms:
  assumes "parse_iri b = Inr base"
  shows "(\<not> has_scheme base \<longrightarrow> resolve_ref base s = Inl (NonAbsoluteBase b)) \<and>
    (\<forall>e. has_scheme base \<and> s \<noteq> [] \<and> parse_iri s = Inl e \<longrightarrow> resolve_ref base s = Inl e) \<and>
    (has_scheme base \<and> (s = [] \<or> (\<exists>x. parse_iri s = Inr x)) \<longrightarrow>
      (\<exists>t. target_of (split_text b) (split_text s) t \<and> (\<forall>t'. target_of (split_text b) (split_text s) t' \<longrightarrow> t' = t) \<and>
        resolve_ref base s = parse_iri (recompose t) \<and>
        (\<forall>y. resolve_ref base s = Inr y \<longrightarrow> iri_text y = recompose t \<and>
          (pt_authority t = None \<and> take 2 (pt_path t) = [0x2F, 0x2F] \<or> parts_of y = t))))"
proof (intro conjI impI allI)
  assume "\<not> has_scheme base"
  then show "resolve_ref base s = Inl (NonAbsoluteBase b)" using parse_iri_text [OF assms] by (simp add: resolve_ref_def)
next
  fix e assume "has_scheme base \<and> s \<noteq> [] \<and> parse_iri s = Inl e"
  then show "resolve_ref base s = Inl e" by (simp add: resolve_ref_def)
qed (use resolution_target [OF assms] in blast)

lemma resolution_transforms_witness:
  "\<exists>base y. parse_iri [0x68, 0x3A, 0x2F, 0x2F, 0x61, 0x2F, 0x62, 0x2F, 0x63] = Inr base \<and>
    resolve_ref base [0x2E, 0x2E, 0x2F, 0x64] = Inr y \<and> pt_path (parts_of y) = [0x2F, 0x64]"
proof -
  let ?b = "[0x68, 0x3A, 0x2F, 0x2F, 0x61, 0x2F, 0x62, 0x2F, 0x63] :: bytes" and ?s = "[0x2E, 0x2E, 0x2F, 0x64] :: bytes"
  let ?t = "[0x68, 0x3A, 0x2F, 0x2F, 0x61, 0x2F, 0x64] :: bytes" and ?target = "transform (split_text ?b) (split_text ?s)"
  have c: "parts_clean (split_text ?b)" "parts_clean (split_text ?s)" "parts_clean (split_text ?t)" by code_simp+
  obtain base x y where p: "parse_iri ?b = Inr base" "parse_iri ?s = Inr x" "parse_iri ?t = Inr y"
    using c [THEN parse_clean [rotated]] by blast
  have target: "recompose ?target = ?t" "pt_scheme (split_text ?b) = Some [0x68]" "pt_authority ?target = Some [0x61]" "pt_path ?target = [0x2F, 0x64]"
    by code_simp+
  have "parts_of base = split_text ?b" using parts_of_parse p(1) unfolding parse_iri_def by blast
  then have "has_scheme base" by (simp add: has_scheme_parts target(2))
  then obtain t where t: "\<forall>t'. target_of (split_text ?b) (split_text ?s) t' \<longrightarrow> t' = t" "resolve_ref base ?s = parse_iri (recompose t)"
    "\<And>z. resolve_ref base ?s = Inr z \<Longrightarrow> pt_authority t = None \<and> take 2 (pt_path t) = [0x2F, 0x2F] \<or> parts_of z = t"
    using resolution_transforms [OF p(1), of ?s] p(2) by blast
  have "?target = t" using t(1) transform_target by blast
  then show ?thesis using p(1,3) t(2,3) target by (metis option.distinct(1))
qed

text \<open>Normalization re-parses its result and expects that to succeed. The path \<open>/.//a:b\<close> without an
  authority becomes \<open>//a:b\<close>, which reads as an authority with the port \<open>b\<close>: the method panics. With
  \<open>/.//A\<close> it returns an authority the text did not have, and normalizing again gives another text.\<close>

lemma normalize_panics:
  "\<exists>x. parse_iri [0x75, 0x3A, 0x2F, 0x2E, 0x2F, 0x2F, 0x61, 0x3A, 0x62] = Inr x \<and> normalize_iri x = None"
proof -
  let ?s = "[0x75, 0x3A, 0x2F, 0x2E, 0x2F, 0x2F, 0x61, 0x3A, 0x62] :: bytes"
  let ?t = "[0x75, 0x3A, 0x2F, 0x2F, 0x61, 0x3A, 0x62] :: bytes"
  have "parts_clean (split_text ?s)" by code_simp
  then obtain x where x: "parse_iri ?s = Inr x" using parse_clean by blast
  have p: "parts_of x = split_text ?s" using parts_of_parse x unfolding parse_iri_def by blast
  have "normalized_text x = ?t"
  proof -
    have "normalized_text x = (let p = split_text ?s in recompose
     \<lparr>pt_scheme = map_option (map to_ascii_lowercase) (pt_scheme p), pt_authority = map_option normalize_authority (pt_authority p),
      pt_path = remove_dot_segments (pct_normalize (pt_path p)),
      pt_query = map_option pct_normalize (pt_query p), pt_fragment = map_option pct_normalize (pt_fragment p)\<rparr>)"
      unfolding normalized_text_def Let_def p [symmetric] by (simp add: parts_of_def)
    also have "\<dots> = ?t" by code_simp
    finally show ?thesis .
  qed
  moreover have "\<not> (\<exists>y. parse_iri ?t = Inr y)"
  proof -
    have a: "pt_authority (split_text ?t) = Some [0x61, 0x3A, 0x62]" by code_simp
    have "split_userinfo [0x61, 0x3A, 0x62] 0 = (None, [0x61, 0x3A, 0x62], 0)"
      "split_host [0x61, 0x3A, 0x62] 0 = Inr ([0x61], Some (2, [0x62]))"
      unfolding split_userinfo_def split_host_def find_bytes_spec by code_simp+
    then have "validate_authority [0x61, 0x3A, 0x62] 0 ModeIri \<noteq> Inr ()"
      by (simp add: validate_authority_def and_then_unit check_ascii_offset is_ascii_digit_def)
    then show ?thesis unfolding parse_iri_def parse_split by (simp add: parts_valid_def a valid_option_def)
  qed
  ultimately show ?thesis using x by (intro exI [of _ x]) (simp add: normalize_iri_def split: sum.split)
qed

end
