(* ===== verification/Glob.thy ===== *)
theory Glob
  imports IriParse "HOL-Library.Product_Lexorder"
begin

text \<open>
  Compiled globs (\<open>crates/glob/src/compile.rs\<close>, \<open>execute.rs\<close>, \<open>set.rs\<close>, \<open>lib.rs\<close>): the pattern parser,
  the normalized class tables, the matcher with its two checkpoints and its work meter, and ordered
  pattern sets. A text is the list of its characters, and a position the byte offset reached with the
  characters left. Compilation parses twice, to count and to write; both passes are the same parse.
\<close>

section \<open>Characters and positions\<close>

type_synonym scalar = nat
type_synonym pos = "nat \<times> scalar list"
type_synonym scalar_range = "nat \<times> nat"

definition len_utf8 :: "scalar \<Rightarrow> nat" where
  "len_utf8 c = (if c < 0x80 then 1 else if c < 0x800 then 2 else if c < 0x10000 then 3 else 4)"

definition peek :: "pos \<Rightarrow> scalar option" where
  "peek p = (case snd p of [] \<Rightarrow> None | c # _ \<Rightarrow> Some c)"

definition advance :: "pos \<Rightarrow> pos" where
  "advance p = (case snd p of [] \<Rightarrow> p | c # cs \<Rightarrow> (fst p + len_utf8 c, cs))"

text \<open>The position at a byte offset.\<close>

fun position_at :: "nat \<Rightarrow> scalar list \<Rightarrow> nat \<Rightarrow> pos" where
  "position_at off [] _ = (off, [])"
| "position_at off (c # cs) bytes = (if bytes = 0 then (off, c # cs) else position_at (off + len_utf8 c) cs (bytes - len_utf8 c))"

lemma advance_shorter: "snd p \<noteq> [] \<Longrightarrow> length (snd (advance p)) < length (snd p)"
  by (cases "snd p") (simp_all add: advance_def)

lemma advance_length: "length (snd (advance p)) \<le> length (snd p)"
  by (cases "snd p") (simp_all add: advance_def)

lemma peek_shorter: "peek p = Some c \<Longrightarrow> length (snd (advance p)) < length (snd p)"
  by (rule advance_shorter) (auto simp: peek_def)

section \<open>Tokens\<close>

datatype glob_mode = TextMode | PathMode

datatype syntax_reason = TrailingEscape | UnclosedClass | EmptyClass | ReversedRange | BraceAlternative | NamedClass

datatype compile_error = SyntaxError nat syntax_reason

datatype glob_token = GLiteral scalar | GSeparator | GAny | GStar | GDirectories | GTail | GClass nat nat bool

record glob =
  gl_tokens :: "glob_token list"
  gl_ranges :: "scalar_range list"
  gl_mode :: glob_mode

section \<open>The pattern parser\<close>

definition parse_scalar :: "pos \<Rightarrow> compile_error + scalar \<times> pos" where
  "parse_scalar p = (case peek p of
     None \<Rightarrow> Inl (SyntaxError (fst p) UnclosedClass)
   | Some ch \<Rightarrow>
       if ch = 0x5C then
         (case peek (advance p) of
            None \<Rightarrow> Inl (SyntaxError (fst p) TrailingEscape)
          | Some c \<Rightarrow> Inr (c, advance (advance p)))
       else Inr (ch, advance p))"

lemma parse_scalar_shorter: "parse_scalar p = Inr (c, q) \<Longrightarrow> length (snd q) < length (snd p)"
  using advance_shorter [of p] advance_length [of "advance p"]
  by (auto simp: parse_scalar_def peek_def split: list.splits if_splits)

text \<open>The last scalar of a member.\<close>

definition parse_last :: "nat \<Rightarrow> nat \<Rightarrow> scalar \<Rightarrow> pos \<Rightarrow> compile_error + scalar \<times> pos" where
  "parse_last first_member first_at first p =
     (if \<not> (first = 0x2D \<and> first_at = first_member) \<and> peek p = Some 0x2D \<and> take 1 (tl (snd p)) \<noteq> [0x5D]
      then parse_scalar (advance p) else Inr (first, p))"

lemma parse_last_length: "parse_last first_member first_at first p = Inr (c, q) \<Longrightarrow> length (snd q) \<le> length (snd p)"
  using parse_scalar_shorter [of "advance p" c q] advance_length [of p] by (auto simp: parse_last_def split: if_splits)

function parse_class :: "nat \<Rightarrow> nat \<Rightarrow> pos \<Rightarrow> scalar_range list \<Rightarrow> compile_error + pos \<times> scalar_range list" where
  "parse_class at first_member p ranges =
     (case peek p of
        None \<Rightarrow> Inl (SyntaxError at UnclosedClass)
      | Some c \<Rightarrow>
          if c = 0x5D then Inr (advance p, ranges)
          else if take 2 (snd p) = [0x5B, 0x3A] then Inl (SyntaxError (fst p) NamedClass)
          else (case parse_scalar p of
              Inl e \<Rightarrow> Inl e
            | Inr (first, q) \<Rightarrow> (case parse_last first_member (fst p) first q of
                Inl e \<Rightarrow> Inl e
              | Inr (final, r) \<Rightarrow>
                  if final < first then Inl (SyntaxError (fst p) ReversedRange)
                  else parse_class at first_member r (ranges @ [(first, final)]))))"
  by auto
termination
  by (relation "measure (\<lambda>(_, _, p, _). length (snd p))") (auto dest!: parse_scalar_shorter parse_last_length)

declare parse_class.simps [simp del]

lemma parse_class_length: "parse_class at first_member p ranges = Inr (q, ranges') \<Longrightarrow> length (snd q) \<le> length (snd p)"
proof (induction at first_member p ranges rule: parse_class.induct)
  case (1 at first_member p ranges)
  have "\<exists>first q' final r. parse_scalar p = Inr (first, q') \<and> parse_last first_member (fst p) first q' = Inr (final, r) \<and>
      \<not> final < first \<and> parse_class at first_member r (ranges @ [(first, final)]) = Inr (q, ranges')" if "q \<noteq> advance p"
    using 1(2) that by (subst (asm) parse_class.simps) (auto split: option.splits if_splits sum.splits prod.splits)
  moreover obtain c where "peek p = Some c" "c = 0x5D \<longrightarrow> q = advance p" "take 2 (snd p) \<noteq> [0x5B, 0x3A] \<or> c = 0x5D"
    using 1(2) by (subst (asm) parse_class.simps) (auto split: option.splits if_splits)
  ultimately show ?case
    using 1(1) advance_length [of p] parse_scalar_shorter [of p] parse_last_length [of first_member "fst p"]
    by (cases "q = advance p") (simp, fastforce)
qed

text \<open>A run of further stars.\<close>

definition take_stars :: "pos \<Rightarrow> nat \<times> pos" where
  "take_stars p = (let k = length (takeWhile (\<lambda>c. c = 0x2A) (snd p)) in (1 + k, (fst p + k, drop k (snd p))))"

lemma take_stars_length: "take_stars p = (stars, q) \<Longrightarrow> length (snd q) \<le> length (snd p)"
  by (auto simp: take_stars_def Let_def)

text \<open>One turn of the parser's loop: the position after it, whether a component starts there, the token,
  and the ranges.\<close>

definition parse_piece :: "glob_mode \<Rightarrow> pos \<Rightarrow> bool \<Rightarrow> scalar_range list \<Rightarrow> compile_error + pos \<times> bool \<times> glob_token \<times> scalar_range list" where
  "parse_piece mode p component_start ranges =
     (case snd p of
        [] \<Rightarrow> Inl (SyntaxError (fst p) TrailingEscape)
      | ch # _ \<Rightarrow>
          let at = fst p; q = advance p in
          if ch = 0x5C then
            (case peek q of
               None \<Rightarrow> Inl (SyntaxError at TrailingEscape)
             | Some literal \<Rightarrow>
                 if mode = PathMode \<and> literal = 0x2F then Inr (advance q, True, GSeparator, ranges)
                 else Inr (advance q, False, GLiteral literal, ranges))
          else if ch = 0x2F \<and> mode = PathMode then Inr (q, True, GSeparator, ranges)
          else if ch = 0x2A then
            (case take_stars q of (stars, r) \<Rightarrow>
               if mode = PathMode \<and> stars = 2 \<and> component_start \<and> (snd r = [] \<or> peek r = Some 0x2F \<or> take 2 (snd r) = [0x5C, 0x2F]) then
                 if snd r \<noteq> [] then Inr (if peek r = Some 0x5C then advance (advance r) else advance r, True, GDirectories, ranges)
                 else Inr (r, False, GTail, ranges)
               else Inr (r, False, GStar, ranges))
          else if ch = 0x3F then Inr (q, False, GAny, ranges)
          else if ch = 0x5B then
            (let negated = (peek q = Some 0x21 \<or> peek q = Some 0x5E); r = (if negated then advance q else q) in
             (case parse_class at (fst r) r ranges of
                Inl e \<Rightarrow> Inl e
              | Inr (t, ranges') \<Rightarrow>
                  if length ranges = length ranges' then Inl (SyntaxError at EmptyClass)
                  else Inr (t, False, GClass (length ranges) (length ranges') negated, ranges')))
          else if ch = 0x7B \<or> ch = 0x7D then Inl (SyntaxError at BraceAlternative)
          else Inr (q, False, GLiteral ch, ranges))"

lemma parse_piece_shorter: "parse_piece mode p component_start ranges = Inr (q, start', token, ranges') \<Longrightarrow> length (snd q) < length (snd p)"
proof -
  assume r: "parse_piece mode p component_start ranges = Inr (q, start', token, ranges')"
  then have a: "length (snd (advance p)) < length (snd p)"
    by (intro advance_shorter) (auto simp: parse_piece_def split: list.splits)
  have "length (snd q) \<le> length (snd (advance p))"
    using r advance_length [of "advance p"] advance_length [of "snd (take_stars (advance p))"]
      advance_length [of "advance (snd (take_stars (advance p)))"] take_stars_length [of "advance p"]
      parse_class_length [of "fst p" "fst (advance p)" "advance p" ranges q ranges']
      parse_class_length [of "fst p" "fst (advance (advance p))" "advance (advance p)" ranges q ranges']
    by (auto simp: parse_piece_def Let_def split: list.splits option.splits if_splits prod.splits sum.splits)
  with a show ?thesis by simp
qed

function parse_glob :: "glob_mode \<Rightarrow> pos \<Rightarrow> bool \<Rightarrow> glob_token list \<Rightarrow> scalar_range list \<Rightarrow> compile_error + glob_token list \<times> scalar_range list" where
  "parse_glob mode p component_start tokens ranges =
     (if peek p = None then Inr (tokens, ranges)
      else (case parse_piece mode p component_start ranges of
          Inl e \<Rightarrow> Inl e
        | Inr (q, start', token, ranges') \<Rightarrow> parse_glob mode q start' (tokens @ [token]) ranges'))"
  by auto
termination
  by (relation "measure (\<lambda>(_, p, _). length (snd p))") (auto dest: parse_piece_shorter)

declare parse_glob.simps [simp del]

section \<open>Normalized classes\<close>

text \<open>The merge walks the sorted ranges and writes the kept ones over the front of the same slice.\<close>

definition merge_step :: "scalar_range list \<times> nat \<Rightarrow> nat \<Rightarrow> scalar_range list \<times> nat" where
  "merge_step = (\<lambda>(cls, kept) index. case cls ! index of (first, final) \<Rightarrow>
     if 0 < kept \<and> first \<le> min (snd (cls ! (kept - 1)) + 1) (2 ^ 32 - 1)
     then (cls[kept - 1 := (fst (cls ! (kept - 1)), max (snd (cls ! (kept - 1))) final)], kept)
     else (cls[kept := (first, final)], kept + 1))"

definition normalize_class :: "scalar_range list \<Rightarrow> scalar_range list \<times> nat" where
  "normalize_class cls = foldl merge_step (sort cls, 0) [0..<length cls]"

fun normalize_tokens :: "glob_token list \<Rightarrow> scalar_range list \<Rightarrow> glob_token list \<times> scalar_range list" where
  "normalize_tokens [] ranges = ([], ranges)"
| "normalize_tokens (GClass start stop negated # tokens) ranges =
     (case normalize_class (slice_range start stop ranges) of (cls, kept) \<Rightarrow>
      case normalize_tokens tokens (take start ranges @ cls @ drop stop ranges) of (tokens, ranges) \<Rightarrow>
        (GClass start (start + kept) negated # tokens, ranges))"
| "normalize_tokens (token # tokens) ranges = (case normalize_tokens tokens ranges of (tokens, ranges) \<Rightarrow> (token # tokens, ranges))"

definition compile_glob :: "scalar list \<Rightarrow> glob_mode \<Rightarrow> compile_error + glob" where
  "compile_glob source mode = (case parse_glob mode (0, source) True [] [] of
     Inl e \<Rightarrow> Inl e
   | Inr (tokens, ranges) \<Rightarrow> (case normalize_tokens tokens ranges of (tokens, ranges) \<Rightarrow>
       Inr \<lparr>gl_tokens = tokens, gl_ranges = ranges, gl_mode = mode\<rparr>))"

text \<open>The binary search of \<open>terminals.rs\<close>.\<close>

function in_ranges_loop :: "scalar \<Rightarrow> scalar_range list \<Rightarrow> nat \<Rightarrow> nat \<Rightarrow> bool" where
  "in_ranges_loop cp ranges lo hi =
     (if lo < hi then
        (let mid = lo + (hi - lo) div 2 in
         if cp < fst (ranges ! mid) then in_ranges_loop cp ranges lo mid
         else if snd (ranges ! mid) < cp then in_ranges_loop cp ranges (mid + 1) hi
         else True)
      else False)"
  by auto
termination by (relation "measure (\<lambda>(_, _, lo, hi). hi - lo)") auto

declare in_ranges_loop.simps [simp del]

definition in_ranges :: "scalar \<Rightarrow> scalar_range list \<Rightarrow> bool" where
  "in_ranges cp ranges = in_ranges_loop cp ranges 0 (length ranges)"

section \<open>The matcher\<close>

datatype match_error = WorkExceeded u64 u64 nat

definition tick :: "u64 \<Rightarrow> u64 \<Rightarrow> nat \<Rightarrow> match_error + u64" where
  "tick limit work offset = (if work = limit then Inl (WorkExceeded work limit offset) else Inr (work + 1))"

record retry =
  rt_token :: nat
  rt_input :: pos

record glob_prefix =
  gp_tokens :: nat
  gp_bytes :: nat

record glob_state =
  gs_work :: u64
  gs_token :: nat
  gs_at :: pos
  gs_leading :: bool
  gs_prefix :: glob_prefix
  gs_star :: "retry option"
  gs_dirs :: "retry option"

text \<open>Whether a wildcard may take a character.\<close>

definition takes :: "glob_mode \<Rightarrow> scalar \<Rightarrow> bool" where
  "takes mode ch \<longleftrightarrow> mode = TextMode \<or> ch \<noteq> 0x2F"

text \<open>The verdict of a token that takes one character, after the work it costs; no token accepts nothing.\<close>

definition accepts :: "scalar_range list \<Rightarrow> glob_mode \<Rightarrow> u64 \<Rightarrow> u64 \<Rightarrow> pos \<Rightarrow> glob_token option \<Rightarrow> match_error + u64 \<times> bool" where
  "accepts ranges mode limit work at token = (case token of
     Some (GLiteral expected) \<Rightarrow> Inr (work, peek at = Some expected)
   | Some GSeparator \<Rightarrow> Inr (work, peek at = Some 0x2F)
   | Some GAny \<Rightarrow> Inr (work, case peek at of Some ch \<Rightarrow> takes mode ch | None \<Rightarrow> False)
   | Some (GClass start stop negated) \<Rightarrow>
       (case peek at of
          Some ch \<Rightarrow>
            if takes mode ch then
              (case tick limit work (fst at) of Inl e \<Rightarrow> Inl e | Inr work \<Rightarrow> Inr (work, in_ranges ch (slice_range start stop ranges) \<noteq> negated))
            else Inr (work, False)
        | None \<Rightarrow> Inr (work, False))
   | _ \<Rightarrow> Inr (work, False))"

text \<open>The scan for the end of the next directory.\<close>

fun next_boundary :: "u64 \<Rightarrow> u64 \<Rightarrow> nat \<Rightarrow> scalar list \<Rightarrow> match_error + u64 \<times> pos option" where
  "next_boundary limit work off [] = Inr (work, None)"
| "next_boundary limit work off (ch # cs) = (case tick limit work off of
     Inl e \<Rightarrow> Inl e
   | Inr work \<Rightarrow> if ch = 0x2F then Inr (work, Some (off + len_utf8 ch, cs)) else next_boundary limit work (off + len_utf8 ch) cs)"

text \<open>A state to go on with, or the decision with the state it was made in.\<close>

datatype 's outcome = Go 's | Decided bool 's

definition retry_directories :: "u64 \<Rightarrow> glob_state \<Rightarrow> match_error + glob_state outcome" where
  "retry_directories limit s = (case gs_dirs s of
     None \<Rightarrow> Inr (Decided False s)
   | Some retry \<Rightarrow> (case next_boundary limit (gs_work s) (fst (rt_input retry)) (snd (rt_input retry)) of
       Inl e \<Rightarrow> Inl e
     | Inr (work, None) \<Rightarrow> Inr (Decided False (s\<lparr>gs_work := work\<rparr>))
     | Inr (work, Some p) \<Rightarrow>
         Inr (Go (s\<lparr>gs_work := work, gs_dirs := Some (retry\<lparr>rt_input := p\<rparr>), gs_at := p, gs_token := rt_token retry, gs_star := None\<rparr>))))"

definition retry_star :: "glob_mode \<Rightarrow> u64 \<Rightarrow> glob_state \<Rightarrow> match_error + glob_state outcome" where
  "retry_star mode limit s = (case gs_star s of
     None \<Rightarrow> retry_directories limit s
   | Some retry \<Rightarrow> (case peek (rt_input retry) of
       None \<Rightarrow> retry_directories limit s
     | Some ch \<Rightarrow>
         if takes mode ch then
           (case tick limit (gs_work s) (fst (rt_input retry)) of
              Inl e \<Rightarrow> Inl e
            | Inr work \<Rightarrow> let p = advance (rt_input retry) in
                Inr (Go (s\<lparr>gs_work := work, gs_star := Some (retry\<lparr>rt_input := p\<rparr>), gs_token := rt_token retry, gs_at := p\<rparr>)))
         else retry_directories limit s))"

definition accept_token :: "glob_token list \<Rightarrow> glob_state \<Rightarrow> glob_state" where
  "accept_token tokens s =
     (let s = (if tokens ! gs_token s = GSeparator then s\<lparr>gs_star := None\<rparr> else s);
          s = s\<lparr>gs_token := gs_token s + 1, gs_at := advance (gs_at s)\<rparr>
      in if gs_leading s then s\<lparr>gs_prefix := \<lparr>gp_tokens = gs_token s, gp_bytes = fst (gs_at s)\<rparr>\<rparr> else s)"

definition glob_step :: "glob_token list \<Rightarrow> scalar_range list \<Rightarrow> glob_mode \<Rightarrow> u64 \<Rightarrow> glob_state \<Rightarrow> match_error + glob_state outcome" where
  "glob_step tokens ranges mode limit s = (case tick limit (gs_work s) (fst (gs_at s)) of
     Inl e \<Rightarrow> Inl e
   | Inr work \<Rightarrow>
      (let token = nth_opt tokens (gs_token s);
           leading = (gs_leading s \<and> (case token of Some (GLiteral _) \<Rightarrow> True | Some GSeparator \<Rightarrow> True | _ \<Rightarrow> False));
           s = s\<lparr>gs_work := work, gs_leading := leading\<rparr>
       in if token = None \<and> peek (gs_at s) = None \<or> token = Some GTail then Inr (Decided True s)
          else if token = Some GDirectories then
            Inr (Go (s\<lparr>gs_token := gs_token s + 1, gs_dirs := Some \<lparr>rt_token = gs_token s + 1, rt_input = gs_at s\<rparr>, gs_star := None\<rparr>))
          else if token = Some GStar then
            Inr (Go (s\<lparr>gs_token := gs_token s + 1, gs_star := Some \<lparr>rt_token = gs_token s + 1, rt_input = gs_at s\<rparr>\<rparr>))
          else (case accepts ranges mode limit work (gs_at s) token of
              Inl e \<Rightarrow> Inl e
            | Inr (work, accepted) \<Rightarrow>
                if accepted then Inr (Go (accept_token tokens (s\<lparr>gs_work := work\<rparr>))) else retry_star mode limit (s\<lparr>gs_work := work\<rparr>))))"

text \<open>Work left.\<close>

definition spare :: "u64 \<Rightarrow> u64 \<Rightarrow> nat" where "spare limit work = unat (limit - work)"

lemma tick_spare: "tick limit work off = Inr work' \<Longrightarrow> spare limit work = spare limit work' + 1"
proof -
  assume t: "tick limit work off = Inr work'"
  then have "limit - work \<noteq> 0" and e: "limit - work' = limit - work - 1" by (auto simp: tick_def split: if_splits)
  then show ?thesis using unat_minus_one [of "limit - work"] unat_gt_0 [of "limit - work"] unfolding spare_def e by linarith
qed

lemma tick_refuses: "tick limit work off = Inl e \<longleftrightarrow> spare limit work = 0 \<and> e = WorkExceeded limit limit off"
  by (auto simp: tick_def spare_def unat_eq_0)

lemma next_boundary_spare: "next_boundary limit work off cs = Inr (work', p) \<Longrightarrow> spare limit work' \<le> spare limit work"
  by (induction limit work off cs rule: next_boundary.induct) (auto split: sum.splits if_splits dest!: tick_spare)

lemma retry_directories_spare: "retry_directories limit s = Inr (Go s') \<Longrightarrow> spare limit (gs_work s') \<le> spare limit (gs_work s)"
  by (auto simp: retry_directories_def split: option.splits sum.splits prod.splits dest!: next_boundary_spare)

lemma retry_star_spare: "retry_star mode limit s = Inr (Go s') \<Longrightarrow> spare limit (gs_work s') \<le> spare limit (gs_work s)"
  by (auto simp: retry_star_def Let_def split: option.splits sum.splits if_splits dest!: tick_spare retry_directories_spare)

lemma accepts_spare: "accepts ranges mode limit work at token = Inr (work', b) \<Longrightarrow> spare limit work' \<le> spare limit work"
  by (auto simp: accepts_def split: option.splits glob_token.splits sum.splits if_splits dest!: tick_spare)

lemma accept_token_work: "gs_work (accept_token tokens s) = gs_work s"
  by (simp add: accept_token_def Let_def)

lemma glob_step_spare: "glob_step tokens ranges mode limit s = Inr (Go s') \<Longrightarrow> spare limit (gs_work s') < spare limit (gs_work s)"
  by (auto simp: glob_step_def Let_def accept_token_work split: sum.splits if_splits prod.splits
      dest!: tick_spare retry_star_spare accepts_spare)

function glob_loop :: "glob_token list \<Rightarrow> scalar_range list \<Rightarrow> glob_mode \<Rightarrow> u64 \<Rightarrow> glob_state \<Rightarrow> match_error + bool \<times> glob_state" where
  "glob_loop tokens ranges mode limit s = (case glob_step tokens ranges mode limit s of
     Inl e \<Rightarrow> Inl e
   | Inr (Decided matched s) \<Rightarrow> Inr (matched, s)
   | Inr (Go s) \<Rightarrow> glob_loop tokens ranges mode limit s)"
  by auto
termination
  by (relation "measure (\<lambda>(_, _, _, limit, s). spare limit (gs_work s))") (auto dest: glob_step_spare)

declare glob_loop.simps [simp del]

definition start_state :: "scalar list \<Rightarrow> glob_prefix \<Rightarrow> u64 \<Rightarrow> glob_state" where
  "start_state input prefix work =
     \<lparr>gs_work = work, gs_token = gp_tokens prefix, gs_at = position_at 0 input (gp_bytes prefix), gs_leading = True, gs_prefix = prefix,
      gs_star = None, gs_dirs = None\<rparr>"

text \<open>The decision, the prefix and the work so far.\<close>

definition resume_metered :: "glob_token list \<Rightarrow> scalar_range list \<Rightarrow> glob_mode \<Rightarrow> scalar list \<Rightarrow> glob_prefix \<Rightarrow> u64 \<Rightarrow> u64 \<Rightarrow>
    match_error + bool \<times> glob_prefix \<times> u64" where
  "resume_metered tokens ranges mode input prefix limit work = (case glob_loop tokens ranges mode limit (start_state input prefix work) of
     Inl e \<Rightarrow> Inl e
   | Inr (matched, s) \<Rightarrow> Inr (matched, gs_prefix s, gs_work s))"

definition no_prefix :: glob_prefix where "no_prefix = \<lparr>gp_tokens = 0, gp_bytes = 0\<rparr>"

record match_report =
  mr_matched :: bool
  mr_work :: u64

definition match_literal :: "glob \<Rightarrow> scalar list \<Rightarrow> u64 \<Rightarrow> match_error + match_report" where
  "match_literal g lexical max_work =
     (case resume_metered (gl_tokens g) (gl_ranges g) (gl_mode g) lexical no_prefix max_work 0 of
        Inl e \<Rightarrow> Inl e
      | Inr (matched, _, work) \<Rightarrow> Inr \<lparr>mr_matched = matched, mr_work = work\<rparr>)"

section \<open>IRI surfaces\<close>

text \<open>The characters of UTF-8 text.\<close>

function chars_of :: "bytes \<Rightarrow> scalar list" where
  "chars_of bs = (if bs = [] then [] else (case front_char bs of (c, n) \<Rightarrow> c # chars_of (drop n bs)))"
  by auto
termination
proof (relation "measure length")
  fix bs :: bytes and c n assume "bs \<noteq> []" "(c, n) = front_char bs"
  then show "(drop n bs, bs) \<in> measure length" using front_char_length [of bs] by (cases "front_char bs") simp
qed simp

declare chars_of.simps [simp del]

datatype iri_component = CLexical | CScheme | CAuthority | CPath | CQuery | CFragment

definition iri_surface :: "iri \<Rightarrow> iri_component \<Rightarrow> scalar list option" where
  "iri_surface x component = map_option chars_of (case component of
     CLexical \<Rightarrow> Some (iri_text x)
   | CScheme \<Rightarrow> iri_scheme x
   | CAuthority \<Rightarrow> iri_authority x
   | CPath \<Rightarrow> Some (iri_path x)
   | CQuery \<Rightarrow> iri_query x
   | CFragment \<Rightarrow> iri_fragment x)"

definition match_iri :: "glob \<Rightarrow> iri \<Rightarrow> iri_component \<Rightarrow> u64 \<Rightarrow> match_error + match_report" where
  "match_iri g x component max_work = (case iri_surface x component of
     Some chars \<Rightarrow> match_literal g chars max_work
   | None \<Rightarrow> (case tick max_work 0 0 of Inl e \<Rightarrow> Inl e | Inr work \<Rightarrow> Inr \<lparr>mr_matched = False, mr_work = work\<rparr>))"

section \<open>Ordered sets\<close>

record program =
  pr_end :: nat
  pr_shared :: glob_prefix

record glob_set =
  st_tokens :: "glob_token list"
  st_ranges :: "scalar_range list"
  st_programs :: "program list"
  st_mode :: glob_mode

fun common_prefix :: "glob_prefix \<Rightarrow> glob_token list \<Rightarrow> glob_token list \<Rightarrow> glob_prefix" where
  "common_prefix shared (GLiteral left # previous) (GLiteral right # current) =
     (if left = right then common_prefix \<lparr>gp_tokens = gp_tokens shared + 1, gp_bytes = gp_bytes shared + len_utf8 left\<rparr> previous current else shared)"
| "common_prefix shared (GSeparator # previous) (GSeparator # current) =
     common_prefix \<lparr>gp_tokens = gp_tokens shared + 1, gp_bytes = gp_bytes shared + len_utf8 0x2F\<rparr> previous current"
| "common_prefix shared _ _ = shared"

datatype set_compile_error = PatternRefused nat compile_error

fun compile_programs :: "nat \<Rightarrow> scalar list list \<Rightarrow> glob_mode \<Rightarrow> nat \<Rightarrow> glob_token list \<Rightarrow> scalar_range list \<Rightarrow> program list \<Rightarrow>
    set_compile_error + glob_token list \<times> scalar_range list \<times> program list" where
  "compile_programs index [] mode previous_start tokens ranges programs = Inr (tokens, ranges, programs)"
| "compile_programs index (source # sources) mode previous_start tokens ranges programs =
     (case parse_glob mode (0, source) True tokens ranges of
        Inl cause \<Rightarrow> Inl (PatternRefused index cause)
      | Inr (tokens', ranges') \<Rightarrow>
          let start = length tokens;
              shared = common_prefix no_prefix (slice_range previous_start start tokens') (drop start tokens')
          in compile_programs (index + 1) sources mode start tokens' ranges' (programs @ [\<lparr>pr_end = length tokens', pr_shared = shared\<rparr>]))"

definition compile_set :: "scalar list list \<Rightarrow> glob_mode \<Rightarrow> set_compile_error + glob_set" where
  "compile_set sources mode = (case compile_programs 0 sources mode 0 [] [] [] of
     Inl e \<Rightarrow> Inl e
   | Inr (tokens, ranges, programs) \<Rightarrow> (case normalize_tokens tokens ranges of (tokens, ranges) \<Rightarrow>
       Inr \<lparr>st_tokens = tokens, st_ranges = ranges, st_programs = programs, st_mode = mode\<rparr>))"

datatype set_match_error = Workspace nat nat | PatternExceeded nat match_error

text \<open>One program: its decision, the prefix kept for the next one, and the work.\<close>

definition run_program :: "glob_set \<Rightarrow> scalar list \<Rightarrow> u64 \<Rightarrow> nat \<Rightarrow> program \<Rightarrow> glob_prefix \<Rightarrow> u64 \<Rightarrow> match_error + bool \<times> glob_prefix \<times> u64" where
  "run_program g input limit start program previous work =
     (let shared = pr_shared program in
      case (if gp_tokens shared \<noteq> 0 then
              if gp_tokens previous < gp_tokens shared then map_sum id (\<lambda>work. (False, work)) (tick limit work (gp_bytes previous))
              else map_sum id (\<lambda>work. (True, work)) (tick limit work (gp_bytes shared))
            else Inr (True, work)) of
        Inl e \<Rightarrow> Inl e
      | Inr (False, work) \<Rightarrow> Inr (False, previous, work)
      | Inr (True, work) \<Rightarrow> resume_metered (slice_range start (pr_end program) (st_tokens g)) (st_ranges g) (st_mode g) input shared limit work)"

fun run_programs :: "glob_set \<Rightarrow> scalar list option \<Rightarrow> u64 \<Rightarrow> nat \<Rightarrow> nat \<Rightarrow> program list \<Rightarrow> glob_prefix \<Rightarrow> u64 \<Rightarrow> nat list \<Rightarrow>
    set_match_error + nat list \<times> u64" where
  "run_programs g lexical limit index start [] previous work matched = Inr (matched, work)"
| "run_programs g lexical limit index start (program # programs) previous work matched =
     (case (case lexical of
              Some input \<Rightarrow> run_program g input limit start program previous work
            | None \<Rightarrow> map_sum id (\<lambda>work. (False, previous, work)) (tick limit work 0)) of
        Inl cause \<Rightarrow> Inl (PatternExceeded index cause)
      | Inr (result, previous, work) \<Rightarrow>
          run_programs g lexical limit (index + 1) (pr_end program) programs previous work (if result then matched @ [index] else matched))"

definition match_set :: "glob_set \<Rightarrow> scalar list option \<Rightarrow> u64 \<Rightarrow> nat \<Rightarrow> set_match_error + nat list \<times> u64" where
  "match_set g lexical max_work workspace =
     (if workspace < length (st_programs g) then Inl (Workspace (length (st_programs g)) workspace)
      else run_programs g lexical max_work 0 0 (st_programs g) no_prefix 0 [])"

end
