(* ===== verification/GlobLang.thy ===== *)
theory GlobLang
  imports Glob
begin

text \<open>
  The language of a compiled glob, and that the matcher of \<open>Glob\<close> decides it: its two checkpoints are
  enough, because the earliest place where a star or a directory token is reached is the best one.
\<close>

section \<open>The language\<close>

text \<open>Class membership is a parameter, so that the language can be read over the ranges as written and
  over the normalized ones.\<close>

definition token_takes :: "(nat \<Rightarrow> nat \<Rightarrow> scalar \<Rightarrow> bool) \<Rightarrow> glob_mode \<Rightarrow> glob_token \<Rightarrow> scalar \<Rightarrow> bool" where
  "token_takes member mode token c = (case token of
     GLiteral e \<Rightarrow> c = e
   | GSeparator \<Rightarrow> c = 0x2F
   | GAny \<Rightarrow> takes mode c
   | GClass start stop negated \<Rightarrow> takes mode c \<and> member start stop c \<noteq> negated
   | _ \<Rightarrow> False)"

fun glob_lang :: "(nat \<Rightarrow> nat \<Rightarrow> scalar \<Rightarrow> bool) \<Rightarrow> glob_mode \<Rightarrow> glob_token list \<Rightarrow> scalar list \<Rightarrow> bool" where
  "glob_lang member mode [] cs \<longleftrightarrow> cs = []"
| "glob_lang member mode (token # tokens) cs \<longleftrightarrow> (case token of
     GTail \<Rightarrow> True
   | GStar \<Rightarrow> \<exists>k\<in>{0..length cs}. (\<forall>c\<in>set (take k cs). takes mode c) \<and> glob_lang member mode tokens (drop k cs)
   | GDirectories \<Rightarrow> \<exists>k\<in>{0..length cs}. (k = 0 \<or> cs ! (k - 1) = 0x2F) \<and> glob_lang member mode tokens (drop k cs)
   | _ \<Rightarrow> cs \<noteq> [] \<and> token_takes member mode token (hd cs) \<and> glob_lang member mode tokens (tl cs))"

definition single :: "glob_token \<Rightarrow> bool" where
  "single token \<longleftrightarrow> (case token of GLiteral _ \<Rightarrow> True | GAny \<Rightarrow> True | GClass _ _ _ \<Rightarrow> True | _ \<Rightarrow> False)"

text \<open>What the compiler establishes: a recursive token starts a component, and in path mode a slash is a
  separator token; text mode has neither.\<close>

definition glob_wf :: "glob_mode \<Rightarrow> glob_token list \<Rightarrow> bool" where
  "glob_wf mode tokens \<longleftrightarrow>
     (case mode of
        TextMode \<Rightarrow> \<forall>token\<in>set tokens. token \<notin> {GSeparator, GDirectories, GTail}
      | PathMode \<Rightarrow> GLiteral 0x2F \<notin> set tokens \<and>
          (\<forall>i<length tokens. tokens ! i = GDirectories \<longrightarrow> i = 0 \<or> tokens ! (i - 1) \<in> {GSeparator, GDirectories}))"

section \<open>Consuming parts of a pattern\<close>

lemma star_split: "glob_lang member mode (GStar # tokens) cs \<longleftrightarrow> glob_lang member mode tokens cs \<or>
    (\<exists>k. 0 < k \<and> k \<le> length cs \<and> (\<forall>c\<in>set (take k cs). takes mode c) \<and> glob_lang member mode tokens (drop k cs))"
  by (auto simp: Bex_def) (metis drop0 gr_zeroI)

lemma star_extend:
  assumes "k \<le> length cs" "\<forall>c\<in>set (take k cs). takes mode c" "glob_lang member mode (GStar # tokens) (drop k cs)"
  shows "glob_lang member mode (GStar # tokens) cs"
proof -
  obtain j where j: "j \<le> length (drop k cs)" "\<forall>c\<in>set (take j (drop k cs)). takes mode c" "glob_lang member mode tokens (drop j (drop k cs))"
    using assms(3) by auto
  have "\<forall>c\<in>set (take (k + j) cs). takes mode c" using assms(2) j(2) by (auto simp: take_add)
  then show ?thesis using j assms(1) by (auto simp: add.commute intro!: bexI [of _ "k + j"])
qed

lemma dirs_split: "glob_lang member mode (GDirectories # tokens) cs \<longleftrightarrow> glob_lang member mode tokens cs \<or>
    (\<exists>k. 0 < k \<and> k \<le> length cs \<and> cs ! (k - 1) = 0x2F \<and> glob_lang member mode tokens (drop k cs))"
  by (auto simp: Bex_def) (metis drop0 gr_zeroI)

lemma lang_single: "single token \<or> token = GSeparator \<Longrightarrow>
    glob_lang member mode (token # tokens) cs \<longleftrightarrow> cs \<noteq> [] \<and> token_takes member mode token (hd cs) \<and> glob_lang member mode tokens (tl cs)"
  by (cases token) (simp_all add: single_def)

lemma single_takes: "single token \<Longrightarrow> token_takes member mode token c \<Longrightarrow> mode = PathMode \<longrightarrow> token \<noteq> GLiteral 0x2F \<Longrightarrow> takes mode c"
  by (cases token) (auto simp: single_def token_takes_def takes_def intro: glob_mode.exhaust)

lemma singles_consume:
  assumes "\<forall>t\<in>set us. single t \<and> (mode = PathMode \<longrightarrow> t \<noteq> GLiteral 0x2F)" "glob_lang member mode (us @ vs) x"
  shows "length us \<le> length x" "\<forall>c\<in>set (take (length us) x). takes mode c" "glob_lang member mode vs (drop (length us) x)"
  using assms
proof (induction us arbitrary: x)
  case (Cons u us)
  {
    case 1
    then show ?case using Cons.IH(1) [of "tl x"] lang_single [of u] by (cases x) auto
  next
    case 2
    then show ?case using Cons.IH(2) [of "tl x"] lang_single [of u] single_takes [of u] by (cases x) auto
  next
    case 3
    then show ?case using Cons.IH(3) [of "tl x"] lang_single [of u] by (cases x) auto
  }
qed simp_all

definition slashes :: "scalar list \<Rightarrow> nat" where "slashes cs = length (filter (\<lambda>c. c = 0x2F) cs)"
definition separators :: "glob_token list \<Rightarrow> nat" where "separators us = length (filter (\<lambda>t. t = GSeparator) us)"

lemma slashes_simps [simp]: "slashes [] = 0" "slashes (c # cs) = (if c = 0x2F then 1 else 0) + slashes cs" "slashes (a @ b) = slashes a + slashes b"
  by (simp_all add: slashes_def)

lemma separators_simps [simp]: "separators [] = 0" "separators (t # us) = (if t = GSeparator then 1 else 0) + separators us"
    "separators (us @ vs) = separators us + separators vs"
  by (simp_all add: separators_def)

lemma slashes_prefix: "i \<le> j \<Longrightarrow> slashes (take i cs) \<le> slashes (take j cs)"
  using take_add [of i "j - i" cs] by simp

lemma slashes_takes: "\<forall>c\<in>set cs. takes PathMode c \<Longrightarrow> slashes cs = 0"
  by (induction cs) (auto simp: takes_def)

lemma region_consume:
  assumes "\<forall>t\<in>set us. t \<notin> {GDirectories, GTail, GLiteral 0x2F}" "glob_lang member PathMode (us @ vs) x"
  shows "\<exists>j\<le>length x. glob_lang member PathMode vs (drop j x) \<and> slashes (take j x) = separators us \<and>
    (us \<noteq> [] \<and> last us = GSeparator \<longrightarrow> 0 < j \<and> x ! (j - 1) = 0x2F)"
  using assms
proof (induction us arbitrary: x)
  case (Cons u us)
  show ?case
  proof (cases "u = GStar")
    case True
    then obtain k where k: "k \<le> length x" "\<forall>c\<in>set (take k x). takes PathMode c" "glob_lang member PathMode (us @ vs) (drop k x)"
      using Cons.prems(2) by auto
    then obtain j where j: "j \<le> length (drop k x)" "glob_lang member PathMode vs (drop j (drop k x))" "slashes (take j (drop k x)) = separators us"
      "us \<noteq> [] \<and> last us = GSeparator \<longrightarrow> 0 < j \<and> drop k x ! (j - 1) = 0x2F"
      using Cons.IH [of "drop k x"] Cons.prems(1) by auto
    have "slashes (take (k + j) x) = separators (u # us)" using j(3) slashes_takes [OF k(2)] True unfolding take_add by simp
    moreover have "0 < k + j \<and> x ! (k + j - 1) = 0x2F" if "last (u # us) = GSeparator"
    proof -
      have "us \<noteq> [] \<and> last us = GSeparator" using that True by (cases us) auto
      then have "0 < j" "drop k x ! (j - 1) = 0x2F" using j(4) by blast+
      then show ?thesis using k(1) by simp
    qed
    moreover have "k + j \<le> length x" "glob_lang member PathMode vs (drop (k + j) x)" using k(1) j(1,2) by (simp_all add: add.commute)
    ultimately show ?thesis by blast
  next
    case False
    then have u: "single u \<or> u = GSeparator" using Cons.prems(1) by (cases u) (auto simp: single_def)
    then obtain c y where x: "x = c # y" "token_takes member PathMode u c" "glob_lang member PathMode (us @ vs) y"
      using Cons.prems(2) lang_single [OF u] by (cases x) auto
    have s: "u \<noteq> GSeparator \<Longrightarrow> c \<noteq> 0x2F" using u single_takes [of u member PathMode c] x(2) Cons.prems(1) by (auto simp: takes_def)
    have c: "u = GSeparator \<Longrightarrow> c = 0x2F" using x(2) by (simp add: token_takes_def)
    obtain j where j: "j \<le> length y" "glob_lang member PathMode vs (drop j y)" "slashes (take j y) = separators us"
      "us \<noteq> [] \<and> last us = GSeparator \<longrightarrow> 0 < j \<and> y ! (j - 1) = 0x2F" "us = [] \<longrightarrow> j = 0"
    proof (cases "us = []")
      case True
      then show ?thesis using x(3) by (intro that [of 0]) auto
    next
      case False
      then show ?thesis using Cons.IH [OF _ x(3)] Cons.prems(1) that by auto
    qed
    have "(x ! j = 0x2F)" if "last (u # us) = GSeparator"
      using that j(4,5) x(1) c by (cases "us = []") (auto simp: nth_Cons')
    then show ?thesis using x(1) j s c by (intro exI [of _ "j + 1"]) auto
  qed
qed auto

lemma dirs_extend:
  assumes "0 < k" "k \<le> length cs" "cs ! (k - 1) = 0x2F" "glob_lang member mode (GDirectories # tokens) (drop k cs)"
  shows "glob_lang member mode (GDirectories # tokens) cs"
proof -
  obtain j where j: "j \<le> length (drop k cs)" "j = 0 \<or> drop k cs ! (j - 1) = 0x2F" "glob_lang member mode tokens (drop j (drop k cs))"
    using assms(4) by auto
  have "cs ! (k + j - 1) = 0x2F" using j(1,2) assms(1-3) by (cases "j = 0") auto
  then show ?thesis using j(1,3) assms(2) by (auto simp: add.commute intro!: bexI [of _ "k + j"])
qed

section \<open>The invariant of the matcher\<close>

text \<open>The tokens from a number on match a text.\<close>

definition lang_from :: "(nat \<Rightarrow> nat \<Rightarrow> scalar \<Rightarrow> bool) \<Rightarrow> glob_mode \<Rightarrow> glob_token list \<Rightarrow> nat \<Rightarrow> scalar list \<Rightarrow> bool" where
  "lang_from member mode tokens t cs \<longleftrightarrow> glob_lang member mode (drop t tokens) cs"

text \<open>The matches a checkpoint still stands for: the star takes more characters, or a later directory is
  tried.\<close>

definition star_more :: "(nat \<Rightarrow> nat \<Rightarrow> scalar \<Rightarrow> bool) \<Rightarrow> glob_mode \<Rightarrow> glob_token list \<Rightarrow> retry option \<Rightarrow> bool" where
  "star_more member mode tokens star \<longleftrightarrow> (case star of None \<Rightarrow> False | Some r \<Rightarrow> let cs = snd (rt_input r) in
     \<exists>k. 0 < k \<and> k \<le> length cs \<and> (\<forall>c\<in>set (take k cs). takes mode c) \<and> lang_from member mode tokens (rt_token r) (drop k cs))"

definition dirs_more :: "(nat \<Rightarrow> nat \<Rightarrow> scalar \<Rightarrow> bool) \<Rightarrow> glob_mode \<Rightarrow> glob_token list \<Rightarrow> retry option \<Rightarrow> bool" where
  "dirs_more member mode tokens dirs \<longleftrightarrow> (case dirs of None \<Rightarrow> False | Some r \<Rightarrow> let cs = snd (rt_input r) in
     \<exists>k. 0 < k \<and> k \<le> length cs \<and> cs ! (k - 1) = 0x2F \<and> lang_from member mode tokens (rt_token r) (drop k cs))"

definition can_match :: "(nat \<Rightarrow> nat \<Rightarrow> scalar \<Rightarrow> bool) \<Rightarrow> glob_mode \<Rightarrow> glob_token list \<Rightarrow> glob_state \<Rightarrow> bool" where
  "can_match member mode tokens s \<longleftrightarrow> lang_from member mode tokens (gs_token s) (snd (gs_at s)) \<or>
     star_more member mode tokens (gs_star s) \<or> dirs_more member mode tokens (gs_dirs s)"

text \<open>Since its checkpoint the star has passed single tokens only, one character each.\<close>

definition star_run :: "glob_token list \<Rightarrow> retry option \<Rightarrow> nat \<Rightarrow> scalar list \<Rightarrow> bool" where
  "star_run tokens star t at \<longleftrightarrow> (case star of None \<Rightarrow> True | Some r \<Rightarrow> \<exists>us.
     drop (rt_token r) tokens = us @ drop t tokens \<and> (\<forall>u\<in>set us. single u) \<and> rt_token r + length us = t \<and> t \<le> length tokens \<and>
     0 < rt_token r \<and> tokens ! (rt_token r - 1) = GStar \<and>
     length us \<le> length (snd (rt_input r)) \<and> at = drop (length us) (snd (rt_input r)))"

text \<open>Since its checkpoint the directory token has passed as many slashes as separators, and neither a
  directory token nor a tail.\<close>

definition dirs_run :: "glob_token list \<Rightarrow> retry option \<Rightarrow> nat \<Rightarrow> scalar list \<Rightarrow> bool" where
  "dirs_run tokens dirs t at \<longleftrightarrow> (case dirs of None \<Rightarrow> True | Some r \<Rightarrow> \<exists>us m.
     drop (rt_token r) tokens = us @ drop t tokens \<and> (\<forall>u\<in>set us. u \<notin> {GDirectories, GTail}) \<and> rt_token r + length us = t \<and> t \<le> length tokens \<and>
     m \<le> length (snd (rt_input r)) \<and> at = drop m (snd (rt_input r)) \<and> slashes (take m (snd (rt_input r))) = separators us)"

definition state_ok :: "glob_mode \<Rightarrow> glob_token list \<Rightarrow> glob_state \<Rightarrow> bool" where
  "state_ok mode tokens s \<longleftrightarrow> gs_token s \<le> length tokens \<and> (mode = TextMode \<longrightarrow> gs_dirs s = None) \<and>
     star_run tokens (gs_star s) (gs_token s) (snd (gs_at s)) \<and> dirs_run tokens (gs_dirs s) (gs_token s) (snd (gs_at s)) \<and>
     (case gs_star s of None \<Rightarrow> True | Some r \<Rightarrow> dirs_run tokens (gs_dirs s) (rt_token r) (snd (rt_input r)))"

lemma lang_from_Cons: "t < length tokens \<Longrightarrow> lang_from member mode tokens t cs \<longleftrightarrow> glob_lang member mode (tokens ! t # drop (t + 1) tokens) cs"
  by (simp add: lang_from_def Cons_nth_drop_Suc)

lemma wf_literal: "glob_wf mode tokens \<Longrightarrow> mode = PathMode \<Longrightarrow> u \<in> set tokens \<Longrightarrow> u \<noteq> GLiteral 0x2F"
  by (auto simp: glob_wf_def)

lemma run_subset: "drop n tokens = us @ rest \<Longrightarrow> set us \<subseteq> set tokens"
  by (metis le_supE set_append set_drop_subset)

text \<open>A star reached again takes over from the star before it.\<close>

lemma star_absorbed:
  assumes "glob_wf mode tokens" "star_run tokens star t at" "t < length tokens" "tokens ! t = GStar" "star_more member mode tokens star"
  shows "lang_from member mode tokens t at"
proof -
  obtain r us where r: "star = Some r" "drop (rt_token r) tokens = us @ drop t tokens" "\<forall>u\<in>set us. single u"
    "length us \<le> length (snd (rt_input r))" "at = drop (length us) (snd (rt_input r))"
    using assms(2,5) by (auto simp: star_run_def star_more_def split: option.splits)
  let ?cs = "snd (rt_input r)" and ?n = "length us"
  obtain k where k: "0 < k" "k \<le> length ?cs" "\<forall>c\<in>set (take k ?cs). takes mode c" "glob_lang member mode (us @ drop t tokens) (drop k ?cs)"
    using assms(5) r(1,2) by (auto simp: star_more_def lang_from_def Let_def)
  have us: "\<forall>u\<in>set us. single u \<and> (mode = PathMode \<longrightarrow> u \<noteq> GLiteral 0x2F)"
    using r(3) run_subset [OF r(2)] wf_literal [OF assms(1)] by blast
  note c = singles_consume [OF us k(4)]
  have "\<forall>c\<in>set (take (k + ?n) ?cs). takes mode c" using k(3) c(2) by (auto simp: take_add)
  then have "\<forall>c\<in>set (take k at). takes mode c"
    unfolding r(5) by (metis add.commute in_set_dropD take_drop)
  moreover have "glob_lang member mode (GStar # drop (t + 1) tokens) (drop k at)"
    using c(3) assms(3,4) Cons_nth_drop_Suc [OF assms(3)] unfolding r(5) by (simp add: add.commute)
  moreover have "k \<le> length at" using c(1) k(2) unfolding r(5) by simp
  ultimately have "glob_lang member mode (GStar # drop (t + 1) tokens) at" using star_extend by blast
  then show ?thesis unfolding lang_from_Cons [OF assms(3)] assms(4) .
qed

text \<open>A separator accepted where the star could only have gone on without a slash refutes it.\<close>

lemma star_refuted:
  assumes "glob_wf mode tokens" "star_run tokens star t at" "t < length tokens" "tokens ! t = GSeparator" "at \<noteq> []" "hd at = 0x2F" "mode = PathMode"
  shows "\<not> star_more member mode tokens star"
proof
  assume more: "star_more member mode tokens star"
  obtain r us where r: "star = Some r" "drop (rt_token r) tokens = us @ drop t tokens" "\<forall>u\<in>set us. single u"
    "length us \<le> length (snd (rt_input r))" "at = drop (length us) (snd (rt_input r))"
    using assms(2) more by (auto simp: star_run_def star_more_def split: option.splits)
  let ?cs = "snd (rt_input r)" and ?n = "length us"
  obtain k where k: "0 < k" "k \<le> length ?cs" "\<forall>c\<in>set (take k ?cs). takes mode c" "glob_lang member mode (us @ drop t tokens) (drop k ?cs)"
    using more r(1,2) by (auto simp: star_more_def lang_from_def Let_def)
  have us: "\<forall>u\<in>set us. single u \<and> (mode = PathMode \<longrightarrow> u \<noteq> GLiteral 0x2F)"
    using r(3) run_subset [OF r(2)] wf_literal [OF assms(1)] by blast
  note c = singles_consume [OF us k(4)]
  have all: "\<forall>c\<in>set (take (k + ?n) ?cs). takes mode c" using k(3) c(2) by (auto simp: take_add)
  have "k + ?n \<le> length ?cs" using c(1) k(2) by simp
  then have "?cs ! ?n \<in> set (take (k + ?n) ?cs)" using k(1) nth_mem [of ?n "take (k + ?n) ?cs"] by simp
  moreover have "?cs ! ?n = 0x2F" using assms(5,6) r(5) by (simp add: hd_drop_conv_nth)
  ultimately show False using all assms(7) by (auto simp: takes_def)
qed

text \<open>A directory token reached again takes over from the one before it.\<close>

lemma dirs_absorbed:
  assumes "glob_wf PathMode tokens" "dirs_run tokens dirs t at" "t < length tokens" "tokens ! t = GDirectories" "dirs_more member PathMode tokens dirs"
  shows "lang_from member PathMode tokens t at"
proof -
  obtain r us m where r: "dirs = Some r" "drop (rt_token r) tokens = us @ drop t tokens" "\<forall>u\<in>set us. u \<notin> {GDirectories, GTail}" "rt_token r + length us = t"
    "m \<le> length (snd (rt_input r))" "at = drop m (snd (rt_input r))" "slashes (take m (snd (rt_input r))) = separators us"
    using assms(2,5) by (auto simp: dirs_run_def dirs_more_def split: option.splits)
  let ?cs = "snd (rt_input r)"
  obtain k where k: "0 < k" "k \<le> length ?cs" "?cs ! (k - 1) = 0x2F" "glob_lang member PathMode (us @ drop t tokens) (drop k ?cs)"
    using assms(5) r(1,2) by (auto simp: dirs_more_def lang_from_def Let_def)
  have us: "\<forall>u\<in>set us. u \<notin> {GDirectories, GTail, GLiteral 0x2F}"
    using r(3) run_subset [OF r(2)] wf_literal [OF assms(1)] by blast
  obtain j where j: "j \<le> length (drop k ?cs)" "glob_lang member PathMode (drop t tokens) (drop j (drop k ?cs))" "slashes (take j (drop k ?cs)) = separators us"
    "us \<noteq> [] \<and> last us = GSeparator \<longrightarrow> 0 < j \<and> drop k ?cs ! (j - 1) = 0x2F" "us = [] \<longrightarrow> j = 0"
    using region_consume [OF us k(4)] k(4) by (cases "us = []") (auto intro: that [of 0])
  have last: "last us = GSeparator" if "us \<noteq> []"
  proof -
    have "tokens ! (t - 1) = last us"
    proof -
      have "tokens ! (t - 1) = drop (rt_token r) tokens ! (length us - 1)" using that r(4) assms(3) by (cases us) auto
      also have "\<dots> = last us" using that unfolding r(2) by (simp add: nth_append last_conv_nth)
      finally show ?thesis .
    qed
    moreover have "t \<noteq> 0" using that r(4) by auto
    ultimately have "last us \<in> {GSeparator, GDirectories}" using assms(1,3,4) by (auto simp: glob_wf_def)
    then show ?thesis using r(3) that by auto
  qed
  have "slashes (take k ?cs) \<noteq> 0"
    using k(1-3) nth_mem [of "k - 1" "take k ?cs"] by (auto simp: slashes_def filter_empty_conv)
  then have "separators us < slashes (take (k + j) ?cs)" using j(3) by (simp add: take_add)
  then have "m < k + j" using r(7) slashes_prefix [of "k + j" m ?cs] by linarith
  then have at: "drop (k + j) ?cs = drop (k + j - m) at" by (simp add: r(6))
  have "at ! (k + j - m - 1) = 0x2F"
  proof -
    have "?cs ! (k + j - 1) = 0x2F"
      using j(4,5) last k(1-3) by (cases "us = []") auto
    then show ?thesis using \<open>m < k + j\<close> j(1) k(2) r(5) by (simp add: r(6))
  qed
  moreover have "k + j - m \<le> length at" using j(1) k(2) by (simp add: r(6))
  moreover have "glob_lang member PathMode (GDirectories # drop (t + 1) tokens) (drop (k + j - m) at)"
  proof -
    have "drop (k + j - m) at = drop j (drop k ?cs)" unfolding at [symmetric] by (simp add: add.commute)
    moreover have "GDirectories # drop (t + 1) tokens = drop t tokens" using Cons_nth_drop_Suc [OF assms(3)] assms(4) by simp
    ultimately show ?thesis using j(2) by simp
  qed
  moreover have "0 < k + j - m" using \<open>m < k + j\<close> by simp
  ultimately have "glob_lang member PathMode (GDirectories # drop (t + 1) tokens) at" using dirs_extend by blast
  then show ?thesis unfolding lang_from_Cons [OF assms(3)] assms(4) .
qed

section \<open>Each step keeps what can match\<close>

definition class_member :: "scalar_range list \<Rightarrow> nat \<Rightarrow> nat \<Rightarrow> scalar \<Rightarrow> bool" where
  "class_member ranges start stop c = in_ranges c (slice_range start stop ranges)"

lemma peek_eq: "peek p = (if snd p = [] then None else Some (hd (snd p)))" "snd p \<noteq> [] \<Longrightarrow> snd (advance p) = tl (snd p)"
  by (cases "snd p"; simp add: peek_def advance_def)+

lemma accepts_iff:
  assumes "accepts ranges mode limit work at token = Inr (w, b)"
  shows "b \<longleftrightarrow> (\<exists>t. token = Some t \<and> (single t \<or> t = GSeparator) \<and> snd at \<noteq> [] \<and> token_takes (class_member ranges) mode t (hd (snd at)))"
proof (cases token)
  case (Some t)
  then show ?thesis using assms
    by (cases t; cases "snd at") (auto simp: accepts_def peek_eq single_def token_takes_def class_member_def split: if_splits sum.splits)
qed (use assms in \<open>simp add: accepts_def\<close>)

lemma star_run_next:
  assumes "star_run tokens star t at" "t < length tokens" "single (tokens ! t)" "at \<noteq> []"
  shows "star_run tokens star (t + 1) (tl at)"
proof (cases star)
  case (Some r)
  then obtain us where us: "drop (rt_token r) tokens = us @ drop t tokens" "\<forall>u\<in>set us. single u" "rt_token r + length us = t" "0 < rt_token r"
    "tokens ! (rt_token r - 1) = GStar" "length us \<le> length (snd (rt_input r))" "at = drop (length us) (snd (rt_input r))"
    using assms(1) by (auto simp: star_run_def)
  have "drop (rt_token r) tokens = (us @ [tokens ! t]) @ drop (t + 1) tokens" using us(1) Cons_nth_drop_Suc [OF assms(2)] by simp
  moreover have "tl at = drop (length (us @ [tokens ! t])) (snd (rt_input r))" by (simp add: us(7) tl_drop drop_Suc)
  moreover have "length (us @ [tokens ! t]) \<le> length (snd (rt_input r))" using assms(4) us(7) by simp
  ultimately show ?thesis using us assms(2,3) Some unfolding star_run_def
    by (simp only: option.case) (intro exI [of _ "us @ [tokens ! t]"], auto)
qed (simp add: star_run_def)

lemma dirs_run_next:
  assumes "dirs_run tokens dirs t at" "t < length tokens" "tokens ! t \<notin> {GDirectories, GTail}" "at \<noteq> []" "hd at = 0x2F \<longleftrightarrow> tokens ! t = GSeparator"
  shows "dirs_run tokens dirs (t + 1) (tl at)"
proof (cases dirs)
  case (Some r)
  then obtain us m where us: "drop (rt_token r) tokens = us @ drop t tokens" "\<forall>u\<in>set us. u \<notin> {GDirectories, GTail}" "rt_token r + length us = t"
    "m \<le> length (snd (rt_input r))" "at = drop m (snd (rt_input r))" "slashes (take m (snd (rt_input r))) = separators us"
    using assms(1) by (auto simp: dirs_run_def)
  have m: "m < length (snd (rt_input r))" using assms(4) us(4,5) by (cases "m = length (snd (rt_input r))") auto
  have "take (m + 1) (snd (rt_input r)) = take m (snd (rt_input r)) @ [hd at]" using m us(5) by (simp add: take_Suc_conv_app_nth hd_drop_conv_nth)
  then have "slashes (take (m + 1) (snd (rt_input r))) = separators (us @ [tokens ! t])" using us(6) assms(5) by simp
  moreover have "drop (rt_token r) tokens = (us @ [tokens ! t]) @ drop (t + 1) tokens" using us(1) Cons_nth_drop_Suc [OF assms(2)] by simp
  moreover have "tl at = drop (m + 1) (snd (rt_input r))" by (simp add: us(5) tl_drop drop_Suc)
  ultimately show ?thesis using us assms(2,3) Some m unfolding dirs_run_def
    by (simp only: option.case) (intro exI [of _ "us @ [tokens ! t]"] exI [of _ "m + 1"], auto)
qed (simp add: dirs_run_def)

lemma dirs_run_star:
  assumes "dirs_run tokens dirs t at" "t < length tokens" "tokens ! t = GStar"
  shows "dirs_run tokens dirs (t + 1) at"
proof (cases dirs)
  case (Some r)
  then obtain us m where us: "drop (rt_token r) tokens = us @ drop t tokens" "\<forall>u\<in>set us. u \<notin> {GDirectories, GTail}" "rt_token r + length us = t"
    "m \<le> length (snd (rt_input r))" "at = drop m (snd (rt_input r))" "slashes (take m (snd (rt_input r))) = separators us"
    using assms(1) by (auto simp: dirs_run_def)
  have "drop (rt_token r) tokens = (us @ [GStar]) @ drop (t + 1) tokens" using us(1) Cons_nth_drop_Suc [OF assms(2)] assms(3) by simp
  then show ?thesis using us assms(2) Some unfolding dirs_run_def
    by (simp only: option.case) (intro exI [of _ "us @ [GStar]"] exI [of _ m], auto)
qed (simp add: dirs_run_def)

lemma dirs_run_more:
  assumes "dirs_run tokens dirs t at" "at \<noteq> []" "hd at \<noteq> 0x2F"
  shows "dirs_run tokens dirs t (tl at)"
proof (cases dirs)
  case (Some r)
  then obtain us m where us: "drop (rt_token r) tokens = us @ drop t tokens" "\<forall>u\<in>set us. u \<notin> {GDirectories, GTail}" "rt_token r + length us = t" "t \<le> length tokens"
    "m \<le> length (snd (rt_input r))" "at = drop m (snd (rt_input r))" "slashes (take m (snd (rt_input r))) = separators us"
    using assms(1) by (auto simp: dirs_run_def)
  have m: "m < length (snd (rt_input r))" using assms(2) us(5,6) by (cases "m = length (snd (rt_input r))") auto
  have "take (m + 1) (snd (rt_input r)) = take m (snd (rt_input r)) @ [hd at]" using m us(6) by (simp add: take_Suc_conv_app_nth hd_drop_conv_nth)
  then have "slashes (take (m + 1) (snd (rt_input r))) = separators us" using us(7) assms(3) by simp
  moreover have "tl at = drop (m + 1) (snd (rt_input r))" by (simp add: us(6) tl_drop drop_Suc)
  ultimately show ?thesis using us Some m unfolding dirs_run_def
    by (simp only: option.case) (intro exI [of _ us] exI [of _ "m + 1"], auto)
qed (simp add: dirs_run_def)

lemma fresh_runs:
  "t \<le> length tokens \<Longrightarrow> dirs_run tokens (Some \<lparr>rt_token = t, rt_input = p\<rparr>) t (snd p)"
  "t < length tokens \<Longrightarrow> tokens ! t = GStar \<Longrightarrow> star_run tokens (Some \<lparr>rt_token = t + 1, rt_input = p\<rparr>) (t + 1) (snd p)"
  by (auto simp: dirs_run_def star_run_def intro!: exI [of _ "[]"] exI [of _ 0])

lemma no_star_at_dirs:
  assumes "glob_wf PathMode tokens" "star_run tokens star t at" "t < length tokens" "tokens ! t = GDirectories"
  shows "star = None"
proof (rule ccontr)
  assume "star \<noteq> None"
  then obtain r where "star = Some r" by auto
  then obtain us where us: "drop (rt_token r) tokens = us @ drop t tokens" "\<forall>u\<in>set us. single u" "rt_token r + length us = t" "0 < rt_token r"
    "tokens ! (rt_token r - 1) = GStar"
    using assms(2) by (auto simp: star_run_def)
  have prev: "tokens ! (t - 1) \<in> {GSeparator, GDirectories}" using assms(1,3,4) us(3,4) by (auto simp: glob_wf_def)
  show False
  proof (cases us rule: rev_cases)
    case Nil
    then show False using us(3,5) prev by simp
  next
    case (snoc vs u)
    have "tokens ! (t - 1) = drop (rt_token r) tokens ! length vs" using snoc us(3) assms(3) by auto
    also have "\<dots> = u" unfolding us(1) snoc by (simp add: nth_append)
    finally show False using prev us(2) snoc by (auto simp: single_def)
  qed
qed

lemma star_more_Cons: "star_more member mode tokens (Some \<lparr>rt_token = t, rt_input = p\<rparr>) \<longleftrightarrow>
    snd p \<noteq> [] \<and> takes mode (hd (snd p)) \<and>
    (lang_from member mode tokens t (tl (snd p)) \<or> star_more member mode tokens (Some \<lparr>rt_token = t, rt_input = advance p\<rparr>))"
proof (cases "snd p")
  case (Cons c cs)
  have "(\<exists>k. 0 < k \<and> k \<le> length (c # cs) \<and> (\<forall>x\<in>set (take k (c # cs)). takes mode x) \<and> lang_from member mode tokens t (drop k (c # cs))) \<longleftrightarrow>
      takes mode c \<and> (\<exists>k\<le>length cs. (\<forall>x\<in>set (take k cs). takes mode x) \<and> lang_from member mode tokens t (drop k cs))"
  proof (intro iffI; elim exE conjE)
    fix k assume "0 < k" "k \<le> length (c # cs)" "\<forall>x\<in>set (take k (c # cs)). takes mode x" "lang_from member mode tokens t (drop k (c # cs))"
    then show "takes mode c \<and> (\<exists>k\<le>length cs. (\<forall>x\<in>set (take k cs). takes mode x) \<and> lang_from member mode tokens t (drop k cs))"
      by (cases k) auto
  next
    fix k assume "takes mode c" "k \<le> length cs" "\<forall>x\<in>set (take k cs). takes mode x" "lang_from member mode tokens t (drop k cs)"
    then show "\<exists>k. 0 < k \<and> k \<le> length (c # cs) \<and> (\<forall>x\<in>set (take k (c # cs)). takes mode x) \<and> lang_from member mode tokens t (drop k (c # cs))"
      by (intro exI [of _ "Suc k"]) auto
  qed
  also have "\<dots> \<longleftrightarrow> takes mode c \<and> (lang_from member mode tokens t cs \<or>
      (\<exists>k. 0 < k \<and> k \<le> length cs \<and> (\<forall>x\<in>set (take k cs). takes mode x) \<and> lang_from member mode tokens t (drop k cs)))"
    by (metis drop0 empty_iff empty_set gr0I le0 take0)
  finally show ?thesis using Cons by (simp add: star_more_def advance_def)
qed (simp add: star_more_def)

lemma dirs_more_skip:
  assumes "0x2F \<notin> set pre" "snd p = pre @ 0x2F # rest"
  shows "dirs_more member mode tokens (Some \<lparr>rt_token = t, rt_input = p\<rparr>) \<longleftrightarrow>
    lang_from member mode tokens t rest \<or> dirs_more member mode tokens (Some \<lparr>rt_token = t, rt_input = (off, rest)\<rparr>)"
proof -
  let ?cs = "pre @ 0x2F # rest" and ?n = "length pre"
  have nth: "?cs ! (k - 1) \<noteq> 0x2F" if "0 < k" "k \<le> ?n" for k
  proof -
    have l: "k - 1 < ?n" using that by linarith
    then have "?cs ! (k - 1) = pre ! (k - 1)" by (simp add: nth_append)
    then show ?thesis using assms(1) nth_mem [OF l] by metis
  qed
  have shift: "k \<le> length ?cs \<and> ?cs ! (k - 1) = 0x2F \<and> lang_from member mode tokens t (drop k ?cs) \<longleftrightarrow>
      (j = 0 \<or> j \<le> length rest \<and> rest ! (j - 1) = 0x2F) \<and> lang_from member mode tokens t (drop j rest)" if "k = ?n + 1 + j" for k j
    using that by (cases j) (auto simp: nth_append)
  have "(\<exists>k. 0 < k \<and> k \<le> length ?cs \<and> ?cs ! (k - 1) = 0x2F \<and> lang_from member mode tokens t (drop k ?cs)) \<longleftrightarrow>
      (\<exists>j. (j = 0 \<or> j \<le> length rest \<and> rest ! (j - 1) = 0x2F) \<and> lang_from member mode tokens t (drop j rest))" (is "?l \<longleftrightarrow> ?r")
  proof
    assume ?l
    then obtain k where k: "0 < k" "k \<le> length ?cs \<and> ?cs ! (k - 1) = 0x2F \<and> lang_from member mode tokens t (drop k ?cs)" by blast
    have "?n < k" using nth [OF k(1)] k(2) by (cases "k \<le> ?n") auto
    then have "k = ?n + 1 + (k - ?n - 1)" by simp
    from shift [OF this] k(2) show ?r by blast
  next
    assume ?r
    then obtain j where "(j = 0 \<or> j \<le> length rest \<and> rest ! (j - 1) = 0x2F) \<and> lang_from member mode tokens t (drop j rest)" by blast
    with shift [OF refl, of j] show ?l by (intro exI [of _ "?n + 1 + j"]) auto
  qed
  also have "\<dots> \<longleftrightarrow> lang_from member mode tokens t rest \<or>
      (\<exists>k. 0 < k \<and> k \<le> length rest \<and> rest ! (k - 1) = 0x2F \<and> lang_from member mode tokens t (drop k rest))"
    by (metis drop0 gr0I)
  finally show ?thesis using assms(2) by (simp add: dirs_more_def)
qed

lemma next_boundary_split: "next_boundary limit work off cs = Inr (work', r) \<Longrightarrow>
    (case r of None \<Rightarrow> 0x2F \<notin> set cs | Some p \<Rightarrow> \<exists>pre. 0x2F \<notin> set pre \<and> cs = pre @ 0x2F # snd p)"
proof (induction limit work off cs rule: next_boundary.induct)
  case (2 limit work off ch cs)
  then obtain w where w: "tick limit work off = Inr w" by (auto split: sum.splits)
  show ?case
  proof (cases "ch = 0x2F")
    case True
    then show ?thesis using 2(2) w by (auto intro: exI [of _ "[]"])
  next
    case False
    then have IH: "case r of None \<Rightarrow> 0x2F \<notin> set cs | Some p \<Rightarrow> \<exists>pre. 0x2F \<notin> set pre \<and> cs = pre @ 0x2F # snd p"
      using 2(1) [OF w False] 2(2) w by simp
    then show ?thesis
    proof (cases r)
      case (Some p)
      then obtain pre where "0x2F \<notin> set pre" "cs = pre @ 0x2F # snd p" using IH by auto
      then show ?thesis using Some False by (auto intro!: exI [of _ "ch # pre"])
    qed (use False in auto)
  qed
qed auto

text \<open>What a retry has to preserve.\<close>

definition keeps :: "(nat \<Rightarrow> nat \<Rightarrow> scalar \<Rightarrow> bool) \<Rightarrow> glob_mode \<Rightarrow> glob_token list \<Rightarrow> bool \<Rightarrow> glob_state outcome \<Rightarrow> bool" where
  "keeps member mode tokens truth result \<longleftrightarrow> (case result of
     Go s \<Rightarrow> state_ok mode tokens s \<and> (can_match member mode tokens s \<longleftrightarrow> truth)
   | Decided b _ \<Rightarrow> b = truth)"

lemma retry_directories_keeps:
  assumes "state_ok mode tokens s" "retry_directories limit s = Inr result"
  shows "keeps member mode tokens (dirs_more member mode tokens (gs_dirs s)) result"
proof (cases "gs_dirs s")
  case None
  then show ?thesis using assms(2) by (auto simp: retry_directories_def keeps_def dirs_more_def)
next
  case (Some r)
  obtain w p where n: "next_boundary limit (gs_work s) (fst (rt_input r)) (snd (rt_input r)) = Inr (w, p)"
    using assms(2) Some by (auto simp: retry_directories_def split: sum.splits)
  have r: "Some r = Some \<lparr>rt_token = rt_token r, rt_input = rt_input r\<rparr>" by simp
  have t: "rt_token r \<le> length tokens" using assms(1) Some by (auto simp: state_ok_def dirs_run_def)
  show ?thesis
  proof (cases p)
    case None
    then have "0x2F \<notin> set (snd (rt_input r))" using next_boundary_split [OF n] by simp
    then have "\<not> dirs_more member mode tokens (gs_dirs s)"
      using Some by (auto simp: dirs_more_def Let_def) (metis Suc_pred Suc_le_eq nth_mem)
    then show ?thesis using assms(2) Some n None by (auto simp: retry_directories_def keeps_def)
  next
    case q: (Some q)
    then obtain pre where pre: "0x2F \<notin> set pre" "snd (rt_input r) = pre @ 0x2F # snd q" using next_boundary_split [OF n] by auto
    have d: "dirs_more member mode tokens (gs_dirs s) \<longleftrightarrow> lang_from member mode tokens (rt_token r) (snd q) \<or>
        dirs_more member mode tokens (Some (r\<lparr>rt_input := q\<rparr>))"
      unfolding Some using dirs_more_skip [OF pre, where off = "fst q" and t = "rt_token r"] by (cases r) simp
    have "dirs_run tokens (Some (r\<lparr>rt_input := q\<rparr>)) (rt_token r) (snd q)"
      using fresh_runs(1) [OF t, of q] by (cases r) simp
    then show ?thesis using assms Some n q d t
      by (auto simp: retry_directories_def keeps_def state_ok_def can_match_def star_more_def star_run_def)
  qed
qed

lemma retry_star_keeps:
  assumes "state_ok mode tokens s" "retry_star mode limit s = Inr result"
  shows "keeps member mode tokens (star_more member mode tokens (gs_star s) \<or> dirs_more member mode tokens (gs_dirs s)) result"
proof (cases "\<exists>r. gs_star s = Some r \<and> snd (rt_input r) \<noteq> [] \<and> takes mode (hd (snd (rt_input r)))")
  case False
  then have "\<not> star_more member mode tokens (gs_star s)"
    using star_more_Cons [of member mode tokens] by (cases "gs_star s") (simp add: star_more_def, metis retry.cases retry.select_convs(2))
  moreover have "retry_directories limit s = Inr result"
    using False assms(2) by (auto simp: retry_star_def peek_eq split: option.splits if_splits)
  ultimately show ?thesis using retry_directories_keeps [OF assms(1)] by simp
next
  case True
  then obtain r where r: "gs_star s = Some r" "snd (rt_input r) \<noteq> []" "takes mode (hd (snd (rt_input r)))" by blast
  let ?p = "advance (rt_input r)" and ?r = "r\<lparr>rt_input := advance (rt_input r)\<rparr>"
  have rr: "r = \<lparr>rt_token = rt_token r, rt_input = rt_input r\<rparr>" "?r = \<lparr>rt_token = rt_token r, rt_input = ?p\<rparr>" by (cases r; simp)+
  obtain w where res: "result = Go (s\<lparr>gs_work := w, gs_star := Some ?r, gs_token := rt_token r, gs_at := ?p\<rparr>)"
    using assms(2) r by (auto simp: retry_star_def peek_eq Let_def split: sum.splits)
  have tl: "snd ?p = tl (snd (rt_input r))" using r(2) by (simp add: peek_eq)
  have s: "rt_token r \<le> length tokens" "0 < rt_token r" "tokens ! (rt_token r - 1) = GStar"
    "dirs_run tokens (gs_dirs s) (rt_token r) (snd (rt_input r))" "mode = TextMode \<longrightarrow> gs_dirs s = None"
    using assms(1) r(1) by (auto simp: state_ok_def star_run_def)
  have d: "dirs_run tokens (gs_dirs s) (rt_token r) (snd ?p)"
    using dirs_run_more [OF s(4) r(2)] r(3) s(5) unfolding tl by (cases mode) (auto simp: takes_def dirs_run_def)
  have sr: "star_run tokens (Some ?r) (rt_token r) (snd ?p)"
    unfolding rr(2) using fresh_runs(2) [of "rt_token r - 1" tokens ?p] s(1-3) by simp
  have "star_more member mode tokens (gs_star s) \<longleftrightarrow> lang_from member mode tokens (rt_token r) (snd ?p) \<or> star_more member mode tokens (Some ?r)"
    unfolding rr(2) r(1) using star_more_Cons [of member mode tokens "rt_token r" "rt_input r", folded rr(1)] r(2,3) tl by simp
  then show ?thesis using s d sr unfolding res keeps_def by (simp add: state_ok_def can_match_def disj_assoc)
qed

lemma accept_token_fields:
  "gs_token (accept_token tokens s) = gs_token s + 1" "gs_at (accept_token tokens s) = advance (gs_at s)" "gs_dirs (accept_token tokens s) = gs_dirs s"
  "gs_star (accept_token tokens s) = (if tokens ! gs_token s = GSeparator then None else gs_star s)"
  by (simp_all add: accept_token_def Let_def)

lemma accept_keeps:
  assumes "glob_wf mode tokens" "state_ok mode tokens s" "gs_token s < length tokens" "single (tokens ! gs_token s) \<or> tokens ! gs_token s = GSeparator"
    "snd (gs_at s) \<noteq> []" "token_takes member mode (tokens ! gs_token s) (hd (snd (gs_at s)))"
  shows "state_ok mode tokens (accept_token tokens s) \<and> can_match member mode tokens (accept_token tokens s) = can_match member mode tokens s"
proof -
  let ?t = "gs_token s" and ?at = "snd (gs_at s)"
  have at: "snd (advance (gs_at s)) = tl ?at" using assms(5) by (simp add: peek_eq)
  have here: "lang_from member mode tokens ?t ?at \<longleftrightarrow> lang_from member mode tokens (?t + 1) (tl ?at)"
    unfolding lang_from_Cons [OF assms(3)] lang_single [OF assms(4)] using assms(5,6) by (simp add: lang_from_def)
  have slash: "hd ?at = 0x2F \<longleftrightarrow> tokens ! ?t = GSeparator" if "mode = PathMode"
    using assms(4,6) single_takes [of "tokens ! ?t" member mode "hd ?at"] wf_literal [OF assms(1) that, of "tokens ! ?t"] assms(3) that
    by (auto simp: token_takes_def takes_def single_def)
  have text_mode: "tokens ! ?t \<noteq> GSeparator" if "mode = TextMode" using assms(1,3) that by (auto simp: glob_wf_def)
  have d: "dirs_run tokens (gs_dirs s) (?t + 1) (tl ?at)"
  proof (cases mode)
    case TextMode
    then show ?thesis using assms(2) by (simp add: state_ok_def dirs_run_def)
  next
    case PathMode
    have "tokens ! ?t \<notin> {GDirectories, GTail}" using assms(4) by (auto simp: single_def)
    then show ?thesis using dirs_run_next [OF _ assms(3) _ assms(5) slash] assms(2) PathMode by (auto simp: state_ok_def)
  qed
  show ?thesis
  proof (cases "tokens ! ?t = GSeparator")
    case True
    then have "mode = PathMode" using text_mode by (cases mode) auto
    then have "\<not> star_more member mode tokens (gs_star s)"
      using star_refuted [OF assms(1) _ assms(3) True assms(5)] slash True assms(2) by (auto simp: state_ok_def)
    then show ?thesis using True d here assms(2,3) at
      by (simp add: state_ok_def can_match_def accept_token_fields star_run_def star_more_def)
  next
    case False
    then have "star_run tokens (gs_star s) (?t + 1) (tl ?at)"
      using star_run_next [OF _ assms(3) _ assms(5)] assms(2,4) by (simp add: state_ok_def)
    then show ?thesis using False d here assms(2,3) at
      by (cases "gs_star s") (simp_all add: state_ok_def can_match_def accept_token_fields)
  qed
qed

lemma glob_step_keeps:
  assumes "glob_wf mode tokens" "state_ok mode tokens s" "glob_step tokens ranges mode limit s = Inr result"
  shows "keeps (class_member ranges) mode tokens (can_match (class_member ranges) mode tokens s) result"
proof -
  let ?t = "gs_token s" and ?at = "snd (gs_at s)" and ?m = "class_member ranges" and ?token = "nth_opt tokens (gs_token s)"
  obtain work where w: "tick limit (gs_work s) (fst (gs_at s)) = Inr work" using assms(3) by (auto simp: glob_step_def split: sum.splits)
  define leading where "leading = (gs_leading s \<and> (case ?token of Some (GLiteral _) \<Rightarrow> True | Some GSeparator \<Rightarrow> True | _ \<Rightarrow> False))"
  let ?s = "s\<lparr>gs_work := work, gs_leading := leading\<rparr>"
  have st: "state_ok mode tokens (?s\<lparr>gs_work := v\<rparr>)" "can_match ?m mode tokens (?s\<lparr>gs_work := v\<rparr>) = can_match ?m mode tokens s" for v
    using assms(2) by (cases "gs_star s"; simp add: state_ok_def can_match_def)+
  note step = assms(3) [unfolded glob_step_def w sum.case Let_def, folded leading_def]
  have le: "?t \<le> length tokens" using assms(2) by (simp add: state_ok_def)
  consider (won) "?token = None \<and> peek (gs_at s) = None \<or> ?token = Some GTail" | (dirs) "?token = Some GDirectories" | (star) "?token = Some GStar"
    | (other) "\<not> (?token = None \<and> peek (gs_at s) = None \<or> ?token = Some GTail)" "?token \<noteq> Some GDirectories" "?token \<noteq> Some GStar" by blast
  then show ?thesis
  proof cases
    case won
    then have "lang_from ?m mode tokens ?t ?at"
      using lang_from_Cons [of ?t tokens ?m mode ?at] by (auto simp: lang_from_def nth_opt_def peek_eq split: if_splits)
    then show ?thesis using won step by (auto simp: keeps_def can_match_def)
  next
    case dirs
    then have t: "?t < length tokens" "tokens ! ?t = GDirectories" by (auto simp: nth_opt_def split: if_splits)
    then have mode: "mode = PathMode" using assms(1) nth_mem [of ?t tokens] by (cases mode) (auto simp: glob_wf_def)
    have none: "gs_star s = None" using no_star_at_dirs [OF _ _ t] assms(1,2) mode by (auto simp: state_ok_def)
    let ?r = "\<lparr>rt_token = ?t + 1, rt_input = gs_at s\<rparr>"
    have res: "result = Go (?s\<lparr>gs_token := ?t + 1, gs_dirs := Some ?r, gs_star := None\<rparr>)" using dirs step by simp
    have "lang_from ?m mode tokens ?t ?at \<longleftrightarrow> lang_from ?m mode tokens (?t + 1) ?at \<or> dirs_more ?m mode tokens (Some ?r)"
      unfolding lang_from_Cons [OF t(1)] t(2) dirs_split by (simp add: lang_from_def dirs_more_def Let_def)
    moreover have "dirs_more ?m mode tokens (gs_dirs s) \<longrightarrow> lang_from ?m mode tokens ?t ?at"
      using dirs_absorbed [OF _ _ t] assms(1,2) mode by (auto simp: state_ok_def)
    ultimately show ?thesis using fresh_runs(1) [of "?t + 1" tokens "gs_at s"] t(1) mode none unfolding res keeps_def
      by (auto simp: state_ok_def can_match_def star_run_def star_more_def)
  next
    case star
    then have t: "?t < length tokens" "tokens ! ?t = GStar" by (auto simp: nth_opt_def split: if_splits)
    let ?r = "\<lparr>rt_token = ?t + 1, rt_input = gs_at s\<rparr>"
    have res: "result = Go (?s\<lparr>gs_token := ?t + 1, gs_star := Some ?r\<rparr>)" using star step by simp
    have "lang_from ?m mode tokens ?t ?at \<longleftrightarrow> lang_from ?m mode tokens (?t + 1) ?at \<or> star_more ?m mode tokens (Some ?r)"
      unfolding lang_from_Cons [OF t(1)] t(2) star_split by (simp add: lang_from_def star_more_def Let_def)
    moreover have "star_more ?m mode tokens (gs_star s) \<longrightarrow> lang_from ?m mode tokens ?t ?at"
      using star_absorbed [OF assms(1) _ t] assms(2) by (auto simp: state_ok_def)
    ultimately show ?thesis
      using fresh_runs(2) [OF t, of "gs_at s"] dirs_run_star [OF _ t, of "gs_dirs s" ?at] t(1) assms(2) unfolding res keeps_def
      by (auto simp: state_ok_def can_match_def)
  next
    case other
    obtain v b where a: "accepts ranges mode limit work (gs_at s) ?token = Inr (v, b)"
      using step other by (cases "accepts ranges mode limit work (gs_at s) ?token") auto
    note b = accepts_iff [OF a]
    show ?thesis
    proof (cases b)
      case True
      then have t: "?t < length tokens" "single (tokens ! ?t) \<or> tokens ! ?t = GSeparator" "?at \<noteq> []" "token_takes ?m mode (tokens ! ?t) (hd ?at)"
        using b by (auto simp: nth_opt_def split: if_splits)
      have "result = Go (accept_token tokens (?s\<lparr>gs_work := v\<rparr>))" using step other a True by simp
      then show ?thesis using accept_keeps [OF assms(1) st(1), of v ?m] t st(2) unfolding keeps_def by simp
    next
      case False
      have "\<not> lang_from ?m mode tokens ?t ?at"
      proof (cases "?t < length tokens")
        case t: True
        then have sg: "single (tokens ! ?t) \<or> tokens ! ?t = GSeparator" using other by (cases "tokens ! ?t") (auto simp: single_def nth_opt_def)
        then show ?thesis using False b t unfolding lang_from_Cons [OF t] lang_single [OF sg] by (auto simp: nth_opt_def)
      qed (use other le in \<open>auto simp: lang_from_def nth_opt_def peek_eq\<close>)
      then have truth: "can_match ?m mode tokens s \<longleftrightarrow> star_more ?m mode tokens (gs_star s) \<or> dirs_more ?m mode tokens (gs_dirs s)"
        by (simp add: can_match_def)
      have "retry_star mode limit (?s\<lparr>gs_work := v\<rparr>) = Inr result" using step other a False by simp
      then show ?thesis using retry_star_keeps [OF st(1), of limit v result ?m] truth by simp
    qed
  qed
qed

lemma glob_loop_decides:
  assumes "glob_wf mode tokens" "state_ok mode tokens s" "glob_loop tokens ranges mode limit s = Inr (b, s')"
  shows "b = can_match (class_member ranges) mode tokens s"
  using assms
proof (induction tokens ranges mode limit s rule: glob_loop.induct)
  case (1 tokens ranges mode limit s)
  obtain result where r: "glob_step tokens ranges mode limit s = Inr result" using 1(4) by (subst (asm) glob_loop.simps) (auto split: sum.splits)
  note k = glob_step_keeps [OF 1(2,3) r]
  show ?case
  proof (cases result)
    case (Go u)
    then have "glob_loop tokens ranges mode limit u = Inr (b, s')" using 1(4) r by (subst (asm) glob_loop.simps) simp
    then show ?thesis using 1(1) [OF r Go 1(2)] k Go by (simp add: keeps_def)
  next
    case (Decided c u)
    then show ?thesis using 1(4) r k by (subst (asm) glob_loop.simps) (simp add: keeps_def)
  qed
qed

end
