(* ===== verification/GlobCompile.thy ===== *)
theory GlobCompile
  imports GlobLang
begin

text \<open>
  What the compiler of \<open>Glob\<close> establishes: the tokens are well-formed, the class tables lie one after the
  other, and the normalized tables decide membership in the ranges of the pattern by binary search.
\<close>

section \<open>Binary search over separated ranges\<close>

definition covers :: "scalar_range list \<Rightarrow> scalar \<Rightarrow> bool" where
  "covers ranges c \<longleftrightarrow> (\<exists>r\<in>set ranges. fst r \<le> c \<and> c \<le> snd r)"

definition separated :: "scalar_range list \<Rightarrow> bool" where
  "separated ranges \<longleftrightarrow> (\<forall>r\<in>set ranges. fst r \<le> snd r) \<and> sorted_wrt (\<lambda>a b. snd a + 1 < fst b) ranges"

lemma in_ranges_loop_spec:
  assumes "separated ranges" "hi \<le> length ranges"
  shows "in_ranges_loop c ranges lo hi \<longleftrightarrow> (\<exists>i. lo \<le> i \<and> i < hi \<and> fst (ranges ! i) \<le> c \<and> c \<le> snd (ranges ! i))"
  using assms
proof (induction c ranges lo hi rule: in_ranges_loop.induct)
  case (1 c ranges lo hi)
  let ?mid = "lo + (hi - lo) div 2"
  show ?case
  proof (cases "lo < hi")
    case True
    then have mid: "lo \<le> ?mid" "?mid < hi" by linarith+
    have order: "snd (ranges ! i) < fst (ranges ! j)" if "i < j" "j < hi" for i j
      using that 1(3,4) sorted_wrt_nth_less [of "\<lambda>a b. snd a + 1 < fst b" ranges i j] by (simp add: separated_def)
    have ord: "fst (ranges ! i) \<le> snd (ranges ! i)" if "i < hi" for i using that 1(3,4) by (simp add: separated_def)
    consider "c < fst (ranges ! ?mid)" | "\<not> c < fst (ranges ! ?mid)" "snd (ranges ! ?mid) < c" | "fst (ranges ! ?mid) \<le> c" "c \<le> snd (ranges ! ?mid)" by linarith
    then show ?thesis
    proof cases
      case c: 1
      have "(\<exists>i. lo \<le> i \<and> i < hi \<and> fst (ranges ! i) \<le> c \<and> c \<le> snd (ranges ! i)) \<longleftrightarrow>
          (\<exists>i. lo \<le> i \<and> i < ?mid \<and> fst (ranges ! i) \<le> c \<and> c \<le> snd (ranges ! i))"
      proof (intro iffI; elim exE conjE)
        fix i assume i: "lo \<le> i" "i < hi" "fst (ranges ! i) \<le> c" "c \<le> snd (ranges ! i)"
        have "\<not> ?mid < i" using order [of ?mid i] ord [of ?mid] mid c i(2,3) by linarith
        moreover have "i \<noteq> ?mid" using c i(3) by auto
        ultimately show "\<exists>i. lo \<le> i \<and> i < ?mid \<and> fst (ranges ! i) \<le> c \<and> c \<le> snd (ranges ! i)" using i by (intro exI [of _ i]) linarith
      next
        fix i assume "lo \<le> i" "i < ?mid" "fst (ranges ! i) \<le> c" "c \<le> snd (ranges ! i)"
        then show "\<exists>i. lo \<le> i \<and> i < hi \<and> fst (ranges ! i) \<le> c \<and> c \<le> snd (ranges ! i)" using mid by (intro exI [of _ i]) linarith
      qed
      then show ?thesis using 1(1) [OF True refl c 1(3)] 1(4) mid True c by (subst in_ranges_loop.simps) (simp add: Let_def)
    next
      case c: 2
      have "(\<exists>i. lo \<le> i \<and> i < hi \<and> fst (ranges ! i) \<le> c \<and> c \<le> snd (ranges ! i)) \<longleftrightarrow>
          (\<exists>i. ?mid + 1 \<le> i \<and> i < hi \<and> fst (ranges ! i) \<le> c \<and> c \<le> snd (ranges ! i))"
      proof (intro iffI; elim exE conjE)
        fix i assume i: "lo \<le> i" "i < hi" "fst (ranges ! i) \<le> c" "c \<le> snd (ranges ! i)"
        have "\<not> i < ?mid" using order [of i ?mid] ord [of ?mid] mid c i(4) by auto
        moreover have "i \<noteq> ?mid" using c i(4) by auto
        ultimately show "\<exists>i. ?mid + 1 \<le> i \<and> i < hi \<and> fst (ranges ! i) \<le> c \<and> c \<le> snd (ranges ! i)" using i by (intro exI [of _ i]) linarith
      next
        fix i assume "?mid + 1 \<le> i" "i < hi" "fst (ranges ! i) \<le> c" "c \<le> snd (ranges ! i)"
        then show "\<exists>i. lo \<le> i \<and> i < hi \<and> fst (ranges ! i) \<le> c \<and> c \<le> snd (ranges ! i)" using mid by (intro exI [of _ i]) linarith
      qed
      then show ?thesis using 1(2) [OF True refl c 1(3,4)] True c by (subst in_ranges_loop.simps) (simp add: Let_def)
    next
      case c: 3
      then show ?thesis using mid True by (subst in_ranges_loop.simps) (auto simp: Let_def intro!: exI [of _ ?mid])
    qed
  qed (subst in_ranges_loop.simps, simp)
qed

lemma in_ranges_covers: "separated ranges \<Longrightarrow> in_ranges c ranges \<longleftrightarrow> covers ranges c"
  using in_ranges_loop_spec [of ranges "length ranges" c 0] by (simp add: in_ranges_def covers_def) (metis in_set_conv_nth)

section \<open>Merging sorted ranges\<close>

text \<open>One range added to the kept ones.\<close>

definition merge_into :: "scalar_range list \<Rightarrow> scalar_range \<Rightarrow> scalar_range list" where
  "merge_into kept r =
     (if kept \<noteq> [] \<and> fst r \<le> snd (last kept) + 1 then butlast kept @ [(fst (last kept), max (snd (last kept)) (snd r))] else kept @ [r])"

definition range_ok :: "scalar_range \<Rightarrow> bool" where
  "range_ok r \<longleftrightarrow> fst r \<le> snd r \<and> snd r < 2 ^ 32 - 1"

lemma merge_into_spec:
  assumes "separated kept" "\<forall>k\<in>set kept. range_ok k \<and> fst k \<le> fst r" "range_ok r"
  shows "separated (merge_into kept r)" "\<forall>k\<in>set (merge_into kept r). range_ok k \<and> fst k \<le> fst r"
    "covers (merge_into kept r) c \<longleftrightarrow> covers kept c \<or> fst r \<le> c \<and> c \<le> snd r"
proof -
  have "separated (merge_into kept r) \<and> (\<forall>k\<in>set (merge_into kept r). range_ok k \<and> fst k \<le> fst r) \<and>
      (covers (merge_into kept r) c \<longleftrightarrow> covers kept c \<or> fst r \<le> c \<and> c \<le> snd r)"
  proof (cases kept rule: rev_cases)
    case Nil
    then show ?thesis using assms(3) by (simp add: merge_into_def separated_def covers_def range_ok_def)
  next
    case (snoc ks k)
    have k: "range_ok k" "fst k \<le> fst r" using assms(2) snoc by auto
    show ?thesis
    proof (cases "fst r \<le> snd k + 1")
      case True
      have m: "merge_into kept r = ks @ [(fst k, max (snd k) (snd r))]" using True snoc by (simp add: merge_into_def)
      have "(fst k \<le> c \<and> c \<le> max (snd k) (snd r)) \<longleftrightarrow> (fst k \<le> c \<and> c \<le> snd k) \<or> (fst r \<le> c \<and> c \<le> snd r)"
        using True k assms(3) by (auto simp: range_ok_def max_def)
      then show ?thesis using assms snoc k unfolding m
        by (auto simp: separated_def covers_def range_ok_def sorted_wrt_append)
    next
      case False
      then have m: "merge_into kept r = kept @ [r]" using snoc by (simp add: merge_into_def)
      have "snd a + 1 < fst r" if "a \<in> set kept" for a
        using that assms(1) snoc k False by (auto simp: separated_def sorted_wrt_append range_ok_def)
      then show ?thesis using assms unfolding m by (auto simp: separated_def covers_def sorted_wrt_append range_ok_def)
    qed
  qed
  then show "separated (merge_into kept r)" "\<forall>k\<in>set (merge_into kept r). range_ok k \<and> fst k \<le> fst r"
    "covers (merge_into kept r) c \<longleftrightarrow> covers kept c \<or> fst r \<le> c \<and> c \<le> snd r" by blast+
qed

lemma merge_all_spec:
  assumes "sorted rs" "\<forall>r\<in>set rs. range_ok r"
  shows "separated (foldl merge_into [] rs) \<and> (\<forall>k\<in>set (foldl merge_into [] rs). range_ok k \<and> (rs = [] \<or> fst k \<le> fst (last rs))) \<and>
    (\<forall>c. covers (foldl merge_into [] rs) c \<longleftrightarrow> covers rs c)"
  using assms
proof (induction rs rule: rev_induct)
  case (snoc r rs)
  let ?k = "foldl merge_into [] rs"
  have IH: "separated ?k" "\<forall>k\<in>set ?k. range_ok k \<and> (rs = [] \<or> fst k \<le> fst (last rs))" "\<forall>c. covers ?k c \<longleftrightarrow> covers rs c"
    using snoc by (auto simp: sorted_append)
  have "fst (last rs) \<le> fst r" if "rs \<noteq> []"
  proof -
    have "last rs \<le> r" using snoc.prems(1) that by (simp add: sorted_append)
    then show ?thesis by (auto simp: less_eq_prod_def)
  qed
  then have "\<forall>k\<in>set ?k. range_ok k \<and> fst k \<le> fst r" using IH(2) by (cases "rs = []") force+
  from merge_into_spec [OF IH(1) this] show ?case using snoc.prems(2) IH(3) by (auto simp: covers_def)
qed (simp add: separated_def covers_def)

lemma merge_steps:
  assumes "sorted xs" "\<forall>r\<in>set xs. range_ok r" "i \<le> length xs"
  shows "\<exists>cls. foldl merge_step (xs, 0) [0..<i] = (cls, length (foldl merge_into [] (take i xs))) \<and> length cls = length xs \<and>
    length (foldl merge_into [] (take i xs)) \<le> i \<and> take (length (foldl merge_into [] (take i xs))) cls = foldl merge_into [] (take i xs) \<and>
    drop i cls = drop i xs"
  using assms(3)
proof (induction i)
  case (Suc i)
  let ?k = "foldl merge_into [] (take i xs)" and ?k' = "foldl merge_into [] (take (Suc i) xs)" and ?r = "xs ! i"
  obtain cls where IH: "foldl merge_step (xs, 0) [0..<i] = (cls, length ?k)" "length cls = length xs" "length ?k \<le> i" "take (length ?k) cls = ?k" "drop i cls = drop i xs"
    using Suc by auto
  have i: "i < length xs" using Suc.prems by simp
  have at: "cls ! i = ?r" using IH(2,5) i by (metis nth_via_drop Cons_nth_drop_Suc)
  have k': "?k' = merge_into ?k ?r" using i by (simp add: take_Suc_conv_app_nth)
  have rest: "drop (Suc i) cls = drop (Suc i) xs" using IH(5) by (metis drop_Suc tl_drop)
  have ok: "\<forall>k\<in>set ?k. range_ok k"
    using merge_all_spec [of "take i xs"] assms(1,2) by (auto simp: sorted_wrt_take dest: in_set_takeD)
  have last: "cls ! (length ?k - 1) = last ?k" if "?k \<noteq> []"
  proof -
    have "cls ! (length ?k - 1) = take (length ?k) cls ! (length ?k - 1)" using that by simp
    also have "\<dots> = last ?k" unfolding IH(4) using that by (simp add: last_conv_nth)
    finally show ?thesis .
  qed
  have min: "min (snd (last ?k) + 1) (2 ^ 32 - 1) = snd (last ?k) + 1" if "?k \<noteq> []"
  proof -
    have "range_ok (last ?k)" using ok last_in_set [OF that] by blast
    then show ?thesis by (simp add: range_ok_def min_def)
  qed
  have step: "foldl merge_step (xs, 0) [0..<Suc i] = merge_step (cls, length ?k) i" using IH(1) by simp
  show ?case
  proof (cases "?k \<noteq> [] \<and> fst ?r \<le> snd (last ?k) + 1")
    case True
    let ?new = "(fst (last ?k), max (snd (last ?k)) (snd ?r))"
    have m: "?k' = butlast ?k @ [?new]" unfolding k' using True by (subst merge_into_def, subst if_P) auto
    have ms: "merge_step (cls, length ?k) i = (cls[length ?k - 1 := ?new], length ?k)"
      unfolding merge_step_def prod.case at using True last min by (cases ?r) simp
    have l: "length ?k' = length ?k" using True unfolding m by (cases ?k rule: rev_cases) auto
    have "take (length ?k) (cls[length ?k - 1 := ?new]) = ?k[length ?k - 1 := ?new]" unfolding take_update_swap IH(4) ..
    also have "\<dots> = ?k'" unfolding m using True by (cases ?k rule: rev_cases) auto
    finally show ?thesis using IH(2,3) rest l True unfolding step ms
      by (intro exI [of _ "cls[length ?k - 1 := ?new]"]) (auto simp: drop_update_cancel)
  next
    case False
    have m: "?k' = ?k @ [?r]" unfolding k' using False by (subst merge_into_def, subst if_not_P) auto
    have ms: "merge_step (cls, length ?k) i = (cls[length ?k := ?r], length ?k + 1)"
      unfolding merge_step_def prod.case at using False last min by (cases ?r) auto
    have "take (length ?k + 1) (cls[length ?k := ?r]) = ?k'"
      using IH(2,3,4) i unfolding m by (simp add: take_Suc_conv_app_nth take_update_swap)
    then show ?thesis using IH(2,3) rest m unfolding step ms
      by (intro exI [of _ "cls[length ?k := ?r]"]) (auto simp: drop_update_cancel)
  qed
qed simp

lemma normalize_class_spec:
  assumes "\<forall>r\<in>set cls. range_ok r" "normalize_class cls = (cls', kept)"
  shows "length cls' = length cls" "kept \<le> length cls" "separated (take kept cls')" "covers (take kept cls') c \<longleftrightarrow> covers cls c"
proof -
  have ok: "\<forall>r\<in>set (sort cls). range_ok r" using assms(1) by simp
  have s: "foldl merge_step (sort cls, 0) [0..<length (sort cls)] = (cls', kept)" using assms(2) by (simp add: normalize_class_def)
  from merge_steps [OF sorted_sort ok order_refl] s
  have k: "kept = length (foldl merge_into [] (sort cls))" "length cls' = length (sort cls)" "kept \<le> length (sort cls)" "take kept cls' = foldl merge_into [] (sort cls)"
    by auto
  then show "length cls' = length cls" "kept \<le> length cls" by simp_all
  show "separated (take kept cls')" "covers (take kept cls') c \<longleftrightarrow> covers cls c"
    unfolding k(4) using merge_all_spec [OF sorted_sort ok] by (auto simp: covers_def)
qed

section \<open>All class tables\<close>

definition raw_member :: "scalar_range list \<Rightarrow> nat \<Rightarrow> nat \<Rightarrow> scalar \<Rightarrow> bool" where
  "raw_member ranges start stop c = covers (slice_range start stop ranges) c"

text \<open>The class tables lie one after the other.\<close>

fun laid :: "nat \<Rightarrow> glob_token list \<Rightarrow> nat \<Rightarrow> bool" where
  "laid from [] len \<longleftrightarrow> from \<le> len"
| "laid from (GClass start stop negated # tokens) len \<longleftrightarrow> from \<le> start \<and> start \<le> stop \<and> laid stop tokens len"
| "laid from (_ # tokens) len \<longleftrightarrow> laid from tokens len"

definition alike :: "(nat \<Rightarrow> nat \<Rightarrow> scalar \<Rightarrow> bool) \<Rightarrow> (nat \<Rightarrow> nat \<Rightarrow> scalar \<Rightarrow> bool) \<Rightarrow> glob_token \<Rightarrow> glob_token \<Rightarrow> bool" where
  "alike m m' t t' \<longleftrightarrow> (case (t, t') of
     (GClass i j b, GClass i' j' b') \<Rightarrow> m i j = m' i' j' \<and> b = b'
   | (GClass _ _ _, _) \<Rightarrow> False
   | (_, GClass _ _ _) \<Rightarrow> False
   | _ \<Rightarrow> t = t')"

lemma alike_class: "alike m m' (GClass i j b) (GClass i' j' b') \<longleftrightarrow> m i j = m' i' j' \<and> b = b'"
  by (simp add: alike_def)

lemma alike_takes: "alike m m' t t' \<Longrightarrow> token_takes m mode t = token_takes m' mode t'"
  by (rule ext) (auto simp: alike_def token_takes_def split: glob_token.splits)

lemma alike_lang: "list_all2 (alike m m') tokens tokens' \<Longrightarrow> glob_lang m mode tokens cs = glob_lang m' mode tokens' cs"
proof (induction tokens tokens' arbitrary: cs rule: list_all2_induct)
  case (Cons t ts t' ts')
  then show ?case using alike_takes [OF Cons.hyps(1)]
    by (cases t; cases t') (auto simp: alike_def)
qed simp

lemma alike_other: "alike m m' t t' \<Longrightarrow> (\<And>i j b. u \<noteq> GClass i j b) \<Longrightarrow> t = u \<longleftrightarrow> t' = u"
  by (cases t; cases t') (auto simp: alike_def)

lemma alike_wf:
  assumes "list_all2 (alike m m') tokens tokens'"
  shows "glob_wf mode tokens = glob_wf mode tokens'"
proof -
  have len: "length tokens = length tokens'" using assms by (rule list_all2_lengthD)
  have nth: "alike m m' (tokens ! i) (tokens' ! i)" if "i < length tokens" for i using assms that by (rule list_all2_nthD)
  have set: "u \<in> set tokens \<longleftrightarrow> u \<in> set tokens'" if "\<And>i j b. u \<noteq> GClass i j b" for u
    using nth len alike_other [OF _ that] by (metis in_set_conv_nth)
  have text_mode: "(\<forall>t\<in>set tokens. t \<notin> {GSeparator, GDirectories, GTail}) = (\<forall>t\<in>set tokens'. t \<notin> {GSeparator, GDirectories, GTail})"
    using set [of GSeparator] set [of GDirectories] set [of GTail] by auto
  have path_mode: "(tokens ! i = GDirectories \<longrightarrow> i = 0 \<or> tokens ! (i - 1) \<in> {GSeparator, GDirectories}) =
      (tokens' ! i = GDirectories \<longrightarrow> i = 0 \<or> tokens' ! (i - 1) \<in> {GSeparator, GDirectories})" if "i < length tokens" for i
  proof -
    have "tokens ! i = GDirectories \<longleftrightarrow> tokens' ! i = GDirectories" using alike_other [OF nth [OF that]] by blast
    moreover have "tokens ! (i - 1) = u \<longleftrightarrow> tokens' ! (i - 1) = u" if "u \<in> {GSeparator, GDirectories}" for u
      using alike_other [OF nth [of "i - 1"], of u] that \<open>i < length tokens\<close> by auto
    ultimately show ?thesis by blast
  qed
  show ?thesis unfolding glob_wf_def using text_mode set [of "GLiteral 0x2F"] path_mode len by (cases mode) auto
qed

lemma laid_bound: "laid from tokens len \<Longrightarrow> from \<le> len"
  by (induction "from" tokens len rule: laid.induct) auto

lemma slice_from: "drop from xs = drop from ys \<Longrightarrow> from \<le> i \<Longrightarrow> slice_range i j xs = slice_range i j ys"
proof -
  assume "drop from xs = drop from ys" "from \<le> i"
  then have "drop (i - from) (drop from xs) = drop (i - from) (drop from ys)" "i - from + from = i" by simp_all
  then show ?thesis by (simp add: slice_range_def)
qed

lemma slice_to: "take to xs = take to ys \<Longrightarrow> j \<le> to \<Longrightarrow> slice_range i j xs = slice_range i j ys"
proof -
  assume a: "take to xs = take to ys" "j \<le> to"
  then have "take j (take to xs) = take j (take to ys)" by simp
  then have "take j xs = take j ys" using a(2) by (simp add: min_absorb1)
  then show ?thesis by (simp add: slice_range_def take_drop) (cases "i \<le> j"; simp)
qed

lemma normalize_tokens_spec:
  assumes "normalize_tokens tokens ranges = (tokens', ranges')" "laid from tokens (length ranges)" "\<forall>r\<in>set (drop from ranges). range_ok r"
    "drop from ranges0 = drop from ranges"
  shows "length ranges' = length ranges \<and> take from ranges' = take from ranges \<and> list_all2 (alike (raw_member ranges0) (class_member ranges')) tokens tokens'"
  using assms
proof (induction tokens ranges arbitrary: "from" tokens' ranges' ranges0 rule: normalize_tokens.induct)
  case (2 start stop negated tokens ranges)
  obtain cls kept where n: "normalize_class (slice_range start stop ranges) = (cls, kept)" by fastforce
  let ?ranges = "take start ranges @ cls @ drop stop ranges"
  obtain tokens1 where r: "normalize_tokens tokens ?ranges = (tokens1, ranges')" "tokens' = GClass start (start + kept) negated # tokens1"
    using 2(2) n by (auto split: prod.splits)
  have l: "from \<le> start" "start \<le> stop" "laid stop tokens (length ranges)" "stop \<le> length ranges" using 2(3) laid_bound by auto
  have slice: "length (slice_range start stop ranges) = stop - start" using l by simp
  have ok: "\<forall>r\<in>set (slice_range start stop ranges). range_ok r"
    using 2(4) l(1) set_drop_subset_set_drop [OF l(1), of ranges] by (auto simp: slice_range_def dest!: in_set_takeD)
  note c = normalize_class_spec [OF ok n, unfolded slice]
  have len: "length ?ranges = length ranges" using c(1) l by simp
  have rest: "drop stop ?ranges = drop stop ranges" using c(1) l by simp
  have later: "drop stop ranges0 = drop stop ranges"
    using arg_cong [OF 2(5), of "drop (stop - from)"] l(1,2) by simp
  have ok': "\<forall>r\<in>set (drop stop ranges). range_ok r" using 2(4) set_drop_subset_set_drop [of "from" stop ranges] l(1,2) by auto
  have IH: "length ranges' = length ?ranges" "take stop ranges' = take stop ?ranges" "list_all2 (alike (raw_member ranges0) (class_member ranges')) tokens tokens1"
    using 2(1) [OF n [symmetric] r(1), of stop ranges0] l(3) ok' later unfolding len rest by auto
  have "slice_range start (start + kept) ranges' = slice_range start (start + kept) ?ranges"
    by (rule slice_to [OF IH(2)]) (use c(2) l(2) in simp)
  also have "\<dots> = take kept cls" using c(1,2) l by (simp add: slice_range_def)
  finally have "class_member ranges' start (start + kept) = raw_member ranges0 start stop"
    using in_ranges_covers [OF c(3)] c(4) slice_from [OF 2(5) l(1)] by (auto simp: class_member_def raw_member_def)
  moreover have "take from ranges' = take from ranges"
    using arg_cong [OF IH(2), of "take from"] l c(1) by (simp add: min_absorb1)
  ultimately show ?case using IH(1,3) len r(2) by (simp add: alike_class)
qed (auto simp: alike_def split: prod.splits)

section \<open>What the parser emits\<close>

definition scalars :: "scalar list \<Rightarrow> bool" where
  "scalars cs \<longleftrightarrow> (\<forall>c\<in>set cs. c < 0x110000)"

lemma scalars_advance: "scalars (snd p) \<Longrightarrow> scalars (snd (advance p))"
  by (cases "snd p") (simp_all add: advance_def scalars_def)

lemma peek_scalar: "peek p = Some c \<Longrightarrow> scalars (snd p) \<Longrightarrow> c < 0x110000"
  by (cases "snd p") (simp_all add: peek_def scalars_def)

lemma parse_scalar_ok: "parse_scalar p = Inr (c, q) \<Longrightarrow> scalars (snd p) \<Longrightarrow> c < 0x110000 \<and> scalars (snd q)"
  by (auto simp: parse_scalar_def intro: peek_scalar scalars_advance split: option.splits if_splits)

lemma parse_last_ok: "parse_last m at first p = Inr (c, q) \<Longrightarrow> first < 0x110000 \<Longrightarrow> scalars (snd p) \<Longrightarrow> c < 0x110000 \<and> scalars (snd q)"
  using parse_scalar_ok [of "advance p" c q] scalars_advance [of p] by (auto simp: parse_last_def split: if_splits)

definition extends :: "scalar_range list \<Rightarrow> scalar_range list \<Rightarrow> bool" where
  "extends ranges ranges' \<longleftrightarrow> (\<exists>new. ranges' = ranges @ new \<and> (\<forall>r\<in>set new. range_ok r))"

lemma extends_refl [simp]: "extends ranges ranges"
  by (simp add: extends_def)

lemma extends_trans: "extends a b \<Longrightarrow> extends b c \<Longrightarrow> extends a c"
  by (auto simp: extends_def)

lemma extends_length: "extends a b \<Longrightarrow> length a \<le> length b"
  by (auto simp: extends_def)

lemma parse_class_ok: "parse_class at m p ranges = Inr (q, ranges') \<Longrightarrow> scalars (snd p) \<Longrightarrow> extends ranges ranges' \<and> scalars (snd q)"
proof (induction at m p ranges rule: parse_class.induct)
  case (1 at m p ranges)
  obtain c where c: "peek p = Some c" using 1(2) by (subst (asm) parse_class.simps) (auto split: option.splits)
  show ?case
  proof (cases "c = 0x5D")
    case True
    then show ?thesis using 1(2,3) c scalars_advance [of p] by (subst (asm) parse_class.simps) auto
  next
    case False
    then obtain first r1 final r2 where r: "take 2 (snd p) \<noteq> [0x5B, 0x3A]" "parse_scalar p = Inr (first, r1)" "parse_last m (fst p) first r1 = Inr (final, r2)"
      "\<not> final < first" "parse_class at m r2 (ranges @ [(first, final)]) = Inr (q, ranges')"
      using 1(2) c by (subst (asm) parse_class.simps) (auto split: if_splits sum.splits prod.splits)
    have s: "first < 0x110000" "scalars (snd r1)" using parse_scalar_ok [OF r(2) 1(3)] by auto
    have f: "final < 0x110000" "scalars (snd r2)" using parse_last_ok [OF r(3) s] by auto
    have "extends ranges (ranges @ [(first, final)])" using r(4) f(1) by (simp add: extends_def range_ok_def)
    then show ?thesis using 1(1) [OF c False r(1,2) refl r(3) refl r(4,5) f(2)] extends_trans by blast
  qed
qed

text \<open>A token fits where it is emitted.\<close>

definition piece_ok :: "glob_mode \<Rightarrow> bool \<Rightarrow> scalar_range list \<Rightarrow> bool \<Rightarrow> glob_token \<Rightarrow> scalar_range list \<Rightarrow> bool" where
  "piece_ok mode component_start ranges start' token ranges' \<longleftrightarrow>
     extends ranges ranges' \<and> start' = (token \<in> {GSeparator, GDirectories}) \<and>
     (token \<in> {GSeparator, GDirectories, GTail} \<longrightarrow> mode = PathMode) \<and> (token = GDirectories \<longrightarrow> component_start) \<and>
     (mode = PathMode \<longrightarrow> token \<noteq> GLiteral 0x2F) \<and>
     (case token of GClass i j _ \<Rightarrow> i = length ranges \<and> j = length ranges' | _ \<Rightarrow> ranges' = ranges)"

lemma parse_piece_ok:
  assumes "parse_piece mode p component_start ranges = Inr (q, start', token, ranges')" "scalars (snd p)"
  shows "piece_ok mode component_start ranges start' token ranges' \<and> scalars (snd q)"
proof -
  obtain ch rest where p: "snd p = ch # rest" using assms(1) by (cases "snd p") (simp_all add: parse_piece_def)
  let ?q = "advance p"
  have s: "scalars (snd ?q)" "scalars (snd (advance ?q))" using assms(2) by (simp_all add: scalars_advance)
  have star: "scalars (snd (snd (take_stars ?q)))" using s(1) by (auto simp: take_stars_def Let_def scalars_def dest: in_set_dropD)
  note r = assms(1) [unfolded parse_piece_def p list.case Let_def]
  show ?thesis
  proof (cases "ch = 0x5B")
    case True
    let ?n = "peek ?q = Some 0x21 \<or> peek ?q = Some 0x5E"
    let ?r = "if ?n then advance ?q else ?q"
    from r True obtain t where t: "parse_class (fst p) (fst ?r) ?r ranges = Inr (t, ranges')" "length ranges \<noteq> length ranges'"
      "q = t" "start' = False" "token = GClass (length ranges) (length ranges') ?n"
      by (auto split: sum.splits if_splits)
    have "scalars (snd ?r)" using s by simp
    from parse_class_ok [OF t(1) this] show ?thesis using t by (simp add: piece_ok_def)
  next
    case False
    show ?thesis
    proof (cases "ch = 0x2A")
      case True
      obtain stars r2 where st: "take_stars ?q = (stars, r2)" by (cases "take_stars ?q")
      then have "scalars (snd r2)" using star by simp
      then show ?thesis using r True st by (auto simp: piece_ok_def scalars_advance split: if_splits)
    next
      case star: False
      then show ?thesis using r False s by (auto simp: piece_ok_def scalars_advance split: if_splits option.splits)
    qed
  qed
qed

lemma laid_snoc:
  assumes "laid from tokens len" "len \<le> len'" "\<And>i j b. token = GClass i j b \<Longrightarrow> len \<le> i \<and> i \<le> j \<and> j \<le> len'"
  shows "laid from (tokens @ [token]) len'"
  using assms by (induction "from" tokens len rule: laid.induct) (cases token; auto)+

lemma wf_snoc:
  assumes "glob_wf mode tokens" "piece_ok mode component_start ranges start' token ranges'"
    "component_start \<Longrightarrow> mode = PathMode \<Longrightarrow> tokens = [] \<or> last tokens \<in> {GSeparator, GDirectories}"
  shows "glob_wf mode (tokens @ [token])"
  using assms by (cases mode) (auto simp: glob_wf_def piece_ok_def nth_append last_conv_nth less_Suc_eq)

lemma parse_glob_ok:
  assumes "parse_glob mode p component_start (base @ tokens) ranges = Inr (all, ranges')" "scalars (snd p)"
    "glob_wf mode tokens" "component_start \<Longrightarrow> mode = PathMode \<Longrightarrow> tokens = [] \<or> last tokens \<in> {GSeparator, GDirectories}"
    "laid from tokens (length ranges)"
  shows "\<exists>tokens'. all = base @ tokens' \<and> glob_wf mode tokens' \<and> laid from tokens' (length ranges') \<and> extends ranges ranges'"
  using assms
proof (induction mode p component_start "base @ tokens" ranges arbitrary: tokens rule: parse_glob.induct)
  case (1 mode p component_start ranges)
  show ?case
  proof (cases "peek p = None")
    case True
    then show ?thesis using 1(2-) by (subst (asm) parse_glob.simps) auto
  next
    case False
    then obtain q start' token ranges1 where r: "parse_piece mode p component_start ranges = Inr (q, start', token, ranges1)"
      "parse_glob mode q start' (base @ tokens @ [token]) ranges1 = Inr (all, ranges')"
      using 1(2) by (subst (asm) parse_glob.simps) (auto split: sum.splits)
    note ok = parse_piece_ok [OF r(1) 1(3)]
    have e: "extends ranges ranges1" using ok by (simp add: piece_ok_def)
    have wf: "glob_wf mode (tokens @ [token])" using wf_snoc [OF 1(4)] ok 1(5) by blast
    have l: "laid from (tokens @ [token]) (length ranges1)"
      by (rule laid_snoc [OF 1(6) extends_length [OF e]]) (use ok extends_length [OF e] in \<open>auto simp: piece_ok_def\<close>)
    have "\<exists>tokens'. all = base @ tokens' \<and> glob_wf mode tokens' \<and> laid from tokens' (length ranges') \<and> extends ranges1 ranges'"
      by (rule 1(1) [OF False r(1) refl refl refl]) (use r(2) ok wf l in \<open>auto simp: piece_ok_def\<close>)
    then show ?thesis using extends_trans [OF e] by blast
  qed
qed

end
