(* ===== verification/GlobWork.thy ===== *)
theory GlobWork
  imports GlobLang
begin

text \<open>
  The work of the matcher of \<open>Glob\<close>: a potential of its state falls at every step, so a large enough
  allowance is never exceeded.
\<close>

section \<open>Progress\<close>

text \<open>How far a checkpoint has come: characters passed and token number.\<close>

definition progress :: "nat \<Rightarrow> retry \<Rightarrow> nat" where
  "progress n r = (n - length (snd (rt_input r))) + rt_token r"

definition dirs_progress :: "nat \<Rightarrow> glob_state \<Rightarrow> nat" where
  "dirs_progress n s = (case gs_dirs s of None \<Rightarrow> 0 | Some r \<Rightarrow> progress n r)"

definition star_progress :: "nat \<Rightarrow> glob_state \<Rightarrow> nat" where
  "star_progress n s = (case gs_star s of None \<Rightarrow> (n - length (snd (gs_at s))) + gs_token s | Some r \<Rightarrow> progress n r)"

definition potential :: "nat \<Rightarrow> nat \<Rightarrow> glob_state \<Rightarrow> nat" where
  "potential n k s = (n + k + 1 - dirs_progress n s) * ((n + k + 2) * (k + 1)) + (n + k + 1 - star_progress n s) * (k + 1) + (k - gs_token s)"

definition within :: "nat \<Rightarrow> glob_token list \<Rightarrow> glob_state \<Rightarrow> bool" where
  "within n tokens s \<longleftrightarrow> length (snd (gs_at s)) \<le> n \<and>
     (case gs_star s of None \<Rightarrow> True | Some r \<Rightarrow> length (snd (rt_input r)) \<le> n) \<and>
     (case gs_dirs s of None \<Rightarrow> True | Some r \<Rightarrow> length (snd (rt_input r)) \<le> n)"

lemma star_run_progress: "star_run tokens (Some r) t at \<Longrightarrow> length (snd (rt_input r)) \<le> n \<Longrightarrow>
    progress n r \<le> (n - length at) + t \<and> rt_token r \<le> length tokens"
  by (auto simp: star_run_def progress_def)

lemma dirs_run_progress: "dirs_run tokens (Some r) t at \<Longrightarrow> length (snd (rt_input r)) \<le> n \<Longrightarrow>
    progress n r \<le> (n - length at) + t \<and> rt_token r \<le> length tokens"
  by (auto simp: dirs_run_def progress_def)

lemma progress_bounds:
  assumes "state_ok mode tokens s" "within n tokens s"
  shows "dirs_progress n s \<le> n + length tokens" "star_progress n s \<le> n + length tokens"
    "star_progress n s \<le> (n - length (snd (gs_at s))) + gs_token s" "dirs_progress n s \<le> (n - length (snd (gs_at s))) + gs_token s"
proof -
  have t: "gs_token s \<le> length tokens" using assms(1) by (simp add: state_ok_def)
  show s: "star_progress n s \<le> (n - length (snd (gs_at s))) + gs_token s"
  proof (cases "gs_star s")
    case (Some r)
    then have "progress n r \<le> (n - length (snd (gs_at s))) + gs_token s"
      using assms star_run_progress [of tokens r "gs_token s" "snd (gs_at s)" n] by (simp add: state_ok_def within_def)
    then show ?thesis by (simp only: star_progress_def Some option.case)
  qed (simp add: star_progress_def)
  show d: "dirs_progress n s \<le> (n - length (snd (gs_at s))) + gs_token s"
  proof (cases "gs_dirs s")
    case (Some r)
    then have "progress n r \<le> (n - length (snd (gs_at s))) + gs_token s"
      using assms dirs_run_progress [of tokens r "gs_token s" "snd (gs_at s)" n] by (simp add: state_ok_def within_def)
    then show ?thesis by (simp only: dirs_progress_def Some option.case)
  qed (simp add: dirs_progress_def)
  show "dirs_progress n s \<le> n + length tokens" "star_progress n s \<le> n + length tokens" using s d t by linarith+
qed

lemma step_mult: "a + 1 \<le> b \<Longrightarrow> a * m + m \<le> b * m" for a b m :: nat
  using mult_le_mono1 [of "a + 1" b m] by simp

lemma potential_falls:
  assumes "dirs_progress n s \<le> n + k" "star_progress n s \<le> n + k" "gs_token s' \<le> k"
    and "dirs_progress n s < dirs_progress n s' \<or>
      dirs_progress n s = dirs_progress n s' \<and> (star_progress n s < star_progress n s' \<or> star_progress n s = star_progress n s' \<and> gs_token s < gs_token s')"
  shows "potential n k s' < potential n k s"
proof -
  let ?a = "n + k + 1 - dirs_progress n s" and ?b = "n + k + 1 - star_progress n s" and ?a' = "n + k + 1 - dirs_progress n s'" and ?b' = "n + k + 1 - star_progress n s'"
  let ?m = "(n + k + 2) * (k + 1)"
  consider "?a' + 1 \<le> ?a" | "?a' = ?a" "?b' + 1 \<le> ?b" | "?a' = ?a" "?b' = ?b" "gs_token s < gs_token s'" using assms(1,2,4) by linarith
  then show ?thesis
  proof cases
    case 1
    have "?b' * (k + 1) + (k - gs_token s') < ?m"
    proof -
      have "?b' * (k + 1) \<le> (n + k + 1) * (k + 1)" by (intro mult_right_mono) auto
      then show ?thesis by (simp add: algebra_simps)
    qed
    moreover have "?a' * ?m + ?m \<le> ?a * ?m" by (rule step_mult [OF 1])
    ultimately show ?thesis unfolding potential_def by linarith
  next
    case 2
    have "?b' * (k + 1) + (k + 1) \<le> ?b * (k + 1)" by (rule step_mult [OF 2(2)])
    then show ?thesis unfolding potential_def 2(1) by linarith
  next
    case 3
    have "k - gs_token s' < k - gs_token s" using 3(3) assms(3) by linarith
    then show ?thesis unfolding potential_def 3(1,2) by linarith
  qed
qed

section \<open>Each step progresses\<close>

lemma next_boundary_shorter: "next_boundary limit work off cs = Inr (work', Some p) \<Longrightarrow> length (snd p) < length cs"
  using next_boundary_split [of limit work off cs work' "Some p"] by auto

lemma retry_directories_progress:
  assumes "state_ok mode tokens s" "within n tokens s" "retry_directories limit s = Inr (Go s')"
  shows "within n tokens s' \<and> dirs_progress n s < dirs_progress n s'"
proof (cases "gs_dirs s")
  case (Some r)
  obtain w p where n: "next_boundary limit (gs_work s) (fst (rt_input r)) (snd (rt_input r)) = Inr (w, Some p)"
    "s' = s\<lparr>gs_work := w, gs_dirs := Some (r\<lparr>rt_input := p\<rparr>), gs_at := p, gs_token := rt_token r, gs_star := None\<rparr>"
    using assms(3) Some by (auto simp: retry_directories_def split: sum.splits option.splits)
  then show ?thesis using next_boundary_shorter [OF n(1)] assms(2) Some
    by (auto simp: within_def dirs_progress_def progress_def)
qed (use assms(3) in \<open>simp add: retry_directories_def\<close>)

lemma retry_star_progress:
  assumes "state_ok mode tokens s" "within n tokens s" "retry_star mode limit s = Inr (Go s')"
  shows "within n tokens s' \<and> (dirs_progress n s < dirs_progress n s' \<or> dirs_progress n s = dirs_progress n s' \<and> star_progress n s < star_progress n s')"
proof (cases "retry_directories limit s = Inr (Go s')")
  case True
  then show ?thesis using retry_directories_progress [OF assms(1,2)] by blast
next
  case False
  then obtain r w where r: "gs_star s = Some r" "snd (rt_input r) \<noteq> []"
    "s' = s\<lparr>gs_work := w, gs_star := Some (r\<lparr>rt_input := advance (rt_input r)\<rparr>), gs_token := rt_token r, gs_at := advance (rt_input r)\<rparr>"
    using assms(3) by (auto simp: retry_star_def peek_eq Let_def split: option.splits sum.splits if_splits)
  then show ?thesis using assms(2) advance_shorter [OF r(2)]
    by (auto simp: within_def star_progress_def dirs_progress_def progress_def split: option.splits)
qed

lemma glob_step_progress:
  assumes "glob_wf mode tokens" "state_ok mode tokens s" "within n tokens s" "glob_step tokens ranges mode limit s = Inr (Go s')"
  shows "within n tokens s' \<and> potential n (length tokens) s' < potential n (length tokens) s"
proof -
  let ?t = "gs_token s" and ?token = "nth_opt tokens (gs_token s)" and ?l = "length (snd (gs_at s))"
  obtain work where w: "tick limit (gs_work s) (fst (gs_at s)) = Inr work" using assms(4) by (auto simp: glob_step_def split: sum.splits)
  define leading where "leading = (gs_leading s \<and> (case ?token of Some (GLiteral _) \<Rightarrow> True | Some GSeparator \<Rightarrow> True | _ \<Rightarrow> False))"
  let ?s = "s\<lparr>gs_work := work, gs_leading := leading\<rparr>"
  note step = assms(4) [unfolded glob_step_def w sum.case Let_def, folded leading_def]
  note b = progress_bounds [OF assms(2,3)]
  have same: "state_ok mode tokens (?s\<lparr>gs_work := v\<rparr>)" "within n tokens (?s\<lparr>gs_work := v\<rparr>)"
    "dirs_progress n (?s\<lparr>gs_work := v\<rparr>) = dirs_progress n s" "star_progress n (?s\<lparr>gs_work := v\<rparr>) = star_progress n s" for v
    using assms(2,3) by (cases "gs_star s"; cases "gs_dirs s"; simp add: state_ok_def within_def dirs_progress_def star_progress_def)+
  have ok: "state_ok mode tokens s'" using glob_step_keeps [OF assms(1,2,4)] by (simp add: keeps_def)
  then have t': "gs_token s' \<le> length tokens" by (simp add: state_ok_def)
  have len: "?l \<le> n" using assms(3) by (simp add: within_def)
  have "within n tokens s' \<and> (dirs_progress n s < dirs_progress n s' \<or> dirs_progress n s = dirs_progress n s' \<and>
      (star_progress n s < star_progress n s' \<or> star_progress n s = star_progress n s' \<and> ?t < gs_token s'))"
  proof -
    consider (dirs) "?token = Some GDirectories" | (star) "?token = Some GStar" | (other) "?token \<noteq> Some GDirectories" "?token \<noteq> Some GStar" by blast
    then show ?thesis
    proof cases
      case dirs
      then have "s' = ?s\<lparr>gs_token := ?t + 1, gs_dirs := Some \<lparr>rt_token = ?t + 1, rt_input = gs_at s\<rparr>, gs_star := None\<rparr>"
        using step by (auto split: if_splits)
      then show ?thesis using b(4) len assms(3) by (simp add: within_def dirs_progress_def progress_def)
    next
      case star
      then have "s' = ?s\<lparr>gs_token := ?t + 1, gs_star := Some \<lparr>rt_token = ?t + 1, rt_input = gs_at s\<rparr>\<rparr>"
        using step by (auto split: if_splits)
      then show ?thesis using b(3) len assms(3) by (cases "gs_dirs s") (simp_all add: within_def dirs_progress_def star_progress_def progress_def)
    next
      case other
      obtain v a where acc: "accepts ranges mode limit work (gs_at s) ?token = Inr (v, a)"
        using step other by (cases "accepts ranges mode limit work (gs_at s) ?token") (auto split: if_splits)
      show ?thesis
      proof (cases a)
        case False
        then have "retry_star mode limit (?s\<lparr>gs_work := v\<rparr>) = Inr (Go s')" using step other acc by (auto split: if_splits)
        then show ?thesis using retry_star_progress [OF same(1,2)] same(3,4) by metis
      next
        case True
        then have s': "s' = accept_token tokens (?s\<lparr>gs_work := v\<rparr>)" using step other acc by (auto split: if_splits)
        have at: "snd (gs_at s) \<noteq> []" using accepts_iff [OF acc] True by blast
        have l: "length (snd (advance (gs_at s))) + 1 = ?l" using at by (simp add: peek_eq)
        have star: "gs_star s' = (if tokens ! ?t = GSeparator then None else gs_star s)" "gs_dirs s' = gs_dirs s" "gs_token s' = ?t + 1" "gs_at s' = advance (gs_at s)"
          unfolding s' accept_token_fields by simp_all
        have w: "within n tokens s'" using assms(3) l star by (simp add: within_def)
        have d: "dirs_progress n s' = dirs_progress n s" by (simp add: dirs_progress_def star)
        have "gs_star s' = None \<Longrightarrow> star_progress n s < star_progress n s'" using b(3) l len star(3,4) by (simp add: star_progress_def)
        moreover have "gs_star s' = Some r \<Longrightarrow> star_progress n s = star_progress n s'" for r using star(1) by (simp add: star_progress_def split: if_splits)
        ultimately show ?thesis using w d star(3) by (cases "gs_star s'") simp_all
      qed
    qed
  qed
  then show ?thesis using potential_falls [OF b(1,2) t'] by blast
qed

section \<open>The cost of a step\<close>

text \<open>The state a turn ends in.\<close>

fun outcome_state :: "'s outcome \<Rightarrow> 's" where
  "outcome_state (Go s) = s"
| "outcome_state (Decided _ s) = s"

lemma tick_ok: "1 \<le> spare limit work \<Longrightarrow> \<exists>work'. tick limit work off = Inr work' \<and> spare limit work = spare limit work' + 1"
  using tick_refuses [of limit work off] tick_spare [of limit work off] by (cases "tick limit work off") auto

lemma next_boundary_ok: "length cs \<le> spare limit work \<Longrightarrow>
    \<exists>work' r. next_boundary limit work off cs = Inr (work', r) \<and> spare limit work \<le> spare limit work' + length cs"
proof (induction cs arbitrary: work off)
  case (Cons c cs)
  obtain w where w: "tick limit work off = Inr w" "spare limit work = spare limit w + 1" using tick_ok [of limit work off] Cons.prems by auto
  show ?case
  proof (cases "c = 0x2F")
    case False
    then show ?thesis using Cons.IH [of w "off + len_utf8 c"] Cons.prems w by auto
  qed (use w in simp)
qed simp

lemma retry_directories_ok:
  assumes "within n tokens s" "n \<le> spare limit (gs_work s)"
  shows "\<exists>result. retry_directories limit s = Inr result \<and> spare limit (gs_work s) \<le> spare limit (gs_work (outcome_state result)) + n"
proof (cases "gs_dirs s")
  case (Some r)
  have "length (snd (rt_input r)) \<le> n" using assms(1) Some by (simp add: within_def)
  then obtain w p where "next_boundary limit (gs_work s) (fst (rt_input r)) (snd (rt_input r)) = Inr (w, p)" "spare limit (gs_work s) \<le> spare limit w + n"
    using next_boundary_ok [of "snd (rt_input r)" limit "gs_work s" "fst (rt_input r)"] assms(2) by fastforce
  then show ?thesis using Some by (cases p) (simp_all add: retry_directories_def)
qed (simp add: retry_directories_def)

lemma retry_star_ok:
  assumes "within n tokens s" "n + 1 \<le> spare limit (gs_work s)"
  shows "\<exists>result. retry_star mode limit s = Inr result \<and> spare limit (gs_work s) \<le> spare limit (gs_work (outcome_state result)) + n + 1"
proof (cases "\<exists>r. gs_star s = Some r \<and> snd (rt_input r) \<noteq> [] \<and> takes mode (hd (snd (rt_input r)))")
  case True
  then obtain r where r: "gs_star s = Some r" "snd (rt_input r) \<noteq> []" "takes mode (hd (snd (rt_input r)))" by blast
  obtain w where "tick limit (gs_work s) (fst (rt_input r)) = Inr w" "spare limit (gs_work s) = spare limit w + 1"
    using tick_ok [of limit "gs_work s"] assms(2) by fastforce
  then show ?thesis using r by (simp add: retry_star_def peek_eq Let_def)
next
  case False
  then have "retry_star mode limit s = retry_directories limit s"
    by (auto simp: retry_star_def peek_eq split: option.splits)
  moreover obtain result where "retry_directories limit s = Inr result" "spare limit (gs_work s) \<le> spare limit (gs_work (outcome_state result)) + n"
    using retry_directories_ok [of n tokens s limit] assms by auto
  ultimately show ?thesis by auto
qed

lemma accepts_ok:
  assumes "1 \<le> spare limit work"
  shows "\<exists>work' b. accepts ranges mode limit work at token = Inr (work', b) \<and> spare limit work \<le> spare limit work' + 1"
proof -
  obtain w where "tick limit work (fst at) = Inr w" "spare limit work = spare limit w + 1" using tick_ok [OF assms] by blast
  then show ?thesis by (auto simp: accepts_def split: option.splits glob_token.splits)
qed

lemma glob_step_ok:
  assumes "within n tokens s" "n + 3 \<le> spare limit (gs_work s)"
  shows "\<exists>result. glob_step tokens ranges mode limit s = Inr result \<and> spare limit (gs_work s) \<le> spare limit (gs_work (outcome_state result)) + n + 3"
proof -
  let ?token = "nth_opt tokens (gs_token s)"
  obtain w where w: "tick limit (gs_work s) (fst (gs_at s)) = Inr w" "spare limit (gs_work s) = spare limit w + 1"
    using tick_ok [of limit "gs_work s"] assms(2) by fastforce
  obtain v b where a: "accepts ranges mode limit w (gs_at s) ?token = Inr (v, b)" "spare limit w \<le> spare limit v + 1"
    using accepts_ok [of limit w] w(2) assms(2) by fastforce
  define leading where "leading = (gs_leading s \<and> (case ?token of Some (GLiteral _) \<Rightarrow> True | Some GSeparator \<Rightarrow> True | _ \<Rightarrow> False))"
  let ?s = "s\<lparr>gs_leading := leading, gs_work := v\<rparr>"
  have "within n tokens ?s" using assms(1) by (cases "gs_star s"; cases "gs_dirs s"; simp add: within_def)
  then obtain result where r: "retry_star mode limit ?s = Inr result" "spare limit (gs_work ?s) \<le> spare limit (gs_work (outcome_state result)) + n + 1"
    using retry_star_ok [of n tokens ?s limit mode] a(2) w(2) assms(2) by auto
  have r': "spare limit (gs_work s) \<le> spare limit (gs_work (outcome_state result)) + n + 3" using r(2) a(2) w(2) by simp
  have acc: "spare limit (gs_work s) \<le> spare limit (gs_work (accept_token tokens ?s)) + n + 3" using a(2) w(2) by (simp add: accept_token_work)
  show ?thesis
    unfolding glob_step_def w(1) sum.case Let_def leading_def [symmetric] using a(1) r(1) r' acc w(2) by (auto simp: fun_upd_def)
qed

text \<open>The loop returns, and spends no more than the potential of its state allows.\<close>

lemma glob_loop_returns:
  assumes "glob_wf mode tokens" "state_ok mode tokens s" "within n tokens s" "(potential n (length tokens) s + 1) * (n + 3) \<le> spare limit (gs_work s)"
  shows "\<exists>b s'. glob_loop tokens ranges mode limit s = Inr (b, s') \<and>
    spare limit (gs_work s) \<le> spare limit (gs_work s') + (potential n (length tokens) s + 1) * (n + 3)"
  using assms(2-4)
proof (induction "potential n (length tokens) s" arbitrary: s rule: less_induct)
  case less
  let ?cost = "(potential n (length tokens) s + 1) * (n + 3)"
  have n: "n + 3 \<le> ?cost" by (simp add: add_mult_distrib)
  then have "n + 3 \<le> spare limit (gs_work s)" using less.prems(3) by (rule order.trans)
  then obtain result where r: "glob_step tokens ranges mode limit s = Inr result"
    "spare limit (gs_work s) \<le> spare limit (gs_work (outcome_state result)) + n + 3"
    using glob_step_ok [OF less.prems(2)] by blast
  show ?case
  proof (cases result)
    case (Go s')
    let ?cost' = "(potential n (length tokens) s' + 1) * (n + 3)"
    have p: "within n tokens s'" "potential n (length tokens) s' < potential n (length tokens) s"
      using glob_step_progress [OF assms(1) less.prems(1,2)] r(1) Go by simp_all
    have ok: "state_ok mode tokens s'" using glob_step_keeps [OF assms(1) less.prems(1)] r(1) Go by (fastforce simp: keeps_def)
    have c: "?cost' + (n + 3) \<le> ?cost" by (rule step_mult) (use p(2) in simp)
    then have "?cost' \<le> spare limit (gs_work s')" using less.prems(3) r(2) Go by simp
    then obtain b u where "glob_loop tokens ranges mode limit s' = Inr (b, u)" "spare limit (gs_work s') \<le> spare limit (gs_work u) + ?cost'"
      using less.hyps [OF p(2) ok p(1)] by blast
    moreover have "spare limit (gs_work s) \<le> spare limit (gs_work s') + n + 3" using r(2) Go by simp
    ultimately show ?thesis using r(1) Go c by (subst glob_loop.simps) simp
  next
    case (Decided b s')
    then have "spare limit (gs_work s) \<le> spare limit (gs_work s') + ?cost" using r(2) n by simp
    then show ?thesis using r(1) Decided by (subst glob_loop.simps) simp
  qed
qed

end
