(* ===== verification/GlobMatch.thy ===== *)
theory GlobMatch
  imports GlobCompile GlobWork
begin

text \<open>
  Compiling and matching together: a compiled glob decides the language of its parsed pattern and
  returns whenever the allowance covers the bound of \<open>GlobWork\<close>; a set reports the patterns that match on
  their own, whatever its programs share.
\<close>

section \<open>The meaning of a pattern\<close>

text \<open>The parsed tokens, read over the ranges as written.\<close>

definition pattern_matches :: "glob_mode \<Rightarrow> scalar list \<Rightarrow> scalar list \<Rightarrow> bool" where
  "pattern_matches mode source input = (case parse_glob mode (0, source) True [] [] of
     Inl _ \<Rightarrow> False
   | Inr (tokens, ranges) \<Rightarrow> glob_lang (raw_member ranges) mode tokens input)"

section \<open>The work of one match\<close>

definition work_bound :: "nat \<Rightarrow> nat \<Rightarrow> nat" where
  "work_bound n k = (k + 1) * (n + k + 2)\<^sup>2 * (n + 3)"

lemma work_bound_mono: "k \<le> k' \<Longrightarrow> work_bound n k \<le> work_bound n k'"
  unfolding work_bound_def by (intro mult_le_mono power_mono) auto

lemma potential_bound: "potential n k s + 1 \<le> (k + 1) * (n + k + 2)\<^sup>2"
proof -
  let ?a = "n + k + 1 - dirs_progress n s" and ?b = "n + k + 1 - star_progress n s"
  have "?a * ((n + k + 2) * (k + 1)) \<le> (n + k + 1) * ((n + k + 2) * (k + 1))" "?b * (k + 1) \<le> (n + k + 1) * (k + 1)"
    by (intro mult_le_mono; simp)+
  then have "potential n k s + 1 \<le> (n + k + 1) * ((n + k + 2) * (k + 1)) + (n + k + 1) * (k + 1) + (k + 1)"
    unfolding potential_def by linarith
  also have "\<dots> = (k + 1) * (n + k + 2)\<^sup>2" by (simp add: power2_eq_square algebra_simps)
  finally show ?thesis .
qed

lemma position_at_length: "length (snd (position_at off cs bytes)) \<le> length cs"
  by (induction off cs bytes rule: position_at.induct) (auto intro: le_SucI)

lemma start_ok: "gp_tokens prefix \<le> length tokens \<Longrightarrow> state_ok mode tokens (start_state input prefix work)"
  by (simp add: state_ok_def start_state_def star_run_def dirs_run_def)

lemma start_within: "within (length input) tokens (start_state input prefix work)"
  using position_at_length by (simp add: within_def start_state_def)

lemma start_can_match: "can_match member mode tokens (start_state input prefix work) \<longleftrightarrow>
    lang_from member mode tokens (gp_tokens prefix) (snd (position_at 0 input (gp_bytes prefix)))"
  by (simp add: can_match_def start_state_def star_more_def dirs_more_def)

lemma position_at_start: "position_at off cs 0 = (off, cs)"
  by (cases cs) simp_all

section \<open>One pattern\<close>

lemma parse_glob_count: "parse_glob mode p component_start tokens ranges = Inr (all, ranges') \<Longrightarrow> length all \<le> length tokens + length (snd p)"
proof (induction mode p component_start tokens ranges rule: parse_glob.induct)
  case (1 mode p component_start tokens ranges)
  show ?case
  proof (cases "peek p = None")
    case True
    then show ?thesis using 1(2) by (subst (asm) parse_glob.simps) auto
  next
    case False
    then obtain q start' token ranges1 where r: "parse_piece mode p component_start ranges = Inr (q, start', token, ranges1)"
      "parse_glob mode q start' (tokens @ [token]) ranges1 = Inr (all, ranges')"
      using 1(2) by (subst (asm) parse_glob.simps) (auto split: sum.splits)
    then show ?thesis using 1(1) [OF False r(1) refl refl refl r(2)] parse_piece_shorter [OF r(1)] by simp
  qed
qed

lemma compiled:
  assumes "scalars source" "parse_glob mode (0, source) True [] [] = Inr (tokens, ranges)"
  shows "\<exists>g. compile_glob source mode = Inr g \<and> gl_mode g = mode \<and> glob_wf mode (gl_tokens g) \<and> length (gl_tokens g) \<le> length source \<and>
    (\<forall>input. glob_lang (class_member (gl_ranges g)) mode (gl_tokens g) input = pattern_matches mode source input)"
proof -
  have ok: "glob_wf mode tokens" "laid 0 tokens (length ranges)" "\<forall>r\<in>set ranges. range_ok r"
    using parse_glob_ok [of mode "(0, source)" True "[]" "[]" "[]" tokens ranges 0] assms
    by (auto simp: glob_wf_def extends_def split: glob_mode.splits)
  obtain tokens' ranges' where n: "normalize_tokens tokens ranges = (tokens', ranges')" by fastforce
  have a: "list_all2 (alike (raw_member ranges) (class_member ranges')) tokens tokens'"
    using normalize_tokens_spec [OF n ok(2)] ok(3) by simp
  show ?thesis
    by (rule exI [of _ "\<lparr>gl_tokens = tokens', gl_ranges = ranges', gl_mode = mode\<rparr>"])
      (use n a ok(1) alike_wf [OF a] alike_lang [OF a] parse_glob_count [OF assms(2)] list_all2_lengthD [OF a] assms(2)
        in \<open>simp_all add: compile_glob_def pattern_matches_def\<close>)
qed

lemma resume_decides:
  assumes "glob_wf mode tokens" "gp_tokens prefix \<le> length tokens" "resume_metered tokens ranges mode input prefix limit work = Inr (b, prefix', work')"
  shows "b = lang_from (class_member ranges) mode tokens (gp_tokens prefix) (snd (position_at 0 input (gp_bytes prefix)))"
  using assms(3) glob_loop_decides [OF assms(1) start_ok [OF assms(2)]] unfolding start_can_match
  by (auto simp: resume_metered_def split: sum.splits)

lemma resume_returns:
  assumes "glob_wf mode tokens" "gp_tokens prefix \<le> length tokens" "work_bound (length input) (length tokens) \<le> spare limit work"
  shows "\<exists>b prefix' work'. resume_metered tokens ranges mode input prefix limit work = Inr (b, prefix', work') \<and>
    spare limit work \<le> spare limit work' + work_bound (length input) (length tokens)"
proof -
  let ?n = "length input" and ?k = "length tokens" and ?s = "start_state input prefix work"
  have w: "gs_work ?s = work" by (simp add: start_state_def)
  have b: "(potential ?n ?k ?s + 1) * (?n + 3) \<le> work_bound ?n ?k"
    unfolding work_bound_def by (intro mult_right_mono potential_bound) simp
  then obtain r s where "glob_loop tokens ranges mode limit ?s = Inr (r, s)" "spare limit work \<le> spare limit (gs_work s) + (potential ?n ?k ?s + 1) * (?n + 3)"
    using glob_loop_returns [OF assms(1) start_ok [OF assms(2)] start_within, of input work limit ranges] assms(3) w by force
  then show ?thesis using b by (simp add: resume_metered_def)
qed

section \<open>Leading literals\<close>

definition lead_char :: "glob_token \<Rightarrow> scalar option" where
  "lead_char token = (case token of GLiteral c \<Rightarrow> Some c | GSeparator \<Rightarrow> Some 0x2F | _ \<Rightarrow> None)"

abbreviation extent :: "scalar list \<Rightarrow> nat" where "extent cs \<equiv> sum_list (map len_utf8 cs)"

text \<open>The first tokens take these characters.\<close>

definition leads :: "glob_token list \<Rightarrow> scalar list \<Rightarrow> bool" where
  "leads tokens cs \<longleftrightarrow> length cs \<le> length tokens \<and> map lead_char (take (length cs) tokens) = map Some cs"

lemma lead_takes: "lead_char token = Some c \<Longrightarrow> glob_lang member mode (token # tokens) (d # ds) \<longleftrightarrow> d = c \<and> glob_lang member mode tokens ds"
  "lead_char token = Some c \<Longrightarrow> \<not> glob_lang member mode (token # tokens) []"
  by (auto simp: lead_char_def token_takes_def split: glob_token.splits)

lemma leads_Nil [simp]: "leads tokens []"
  by (simp add: leads_def)

lemma leads_Cons: "leads tokens (c # cs) \<longleftrightarrow> (\<exists>token rest. tokens = token # rest \<and> lead_char token = Some c \<and> leads rest cs)"
  by (cases tokens) (auto simp: leads_def)

lemma leads_lang: "leads tokens cs \<Longrightarrow> glob_lang member mode tokens (cs @ rest) \<longleftrightarrow> glob_lang member mode (drop (length cs) tokens) rest"
proof (induction cs arbitrary: tokens)
  case (Cons c cs)
  then show ?case using lead_takes by (auto simp: leads_Cons simp del: glob_lang.simps)
qed simp

lemma leads_snoc: "leads tokens cs \<Longrightarrow> length cs < length tokens \<Longrightarrow> lead_char (tokens ! length cs) = Some c \<Longrightarrow> leads tokens (cs @ [c])"
  by (simp add: leads_def take_Suc_conv_app_nth)

lemma leads_take: "leads tokens cs \<Longrightarrow> leads tokens (take k cs)"
  by (induction cs arbitrary: tokens k) (auto simp: leads_Cons take_Cons split: nat.splits)

lemma leads_nth: "leads tokens cs \<Longrightarrow> i < length cs \<Longrightarrow> lead_char (tokens ! i) = Some (cs ! i)"
  by (induction cs arbitrary: tokens i) (auto simp: leads_Cons nth_Cons split: nat.splits)

lemma leads_prefix: "leads tokens cs \<Longrightarrow> leads tokens ds \<Longrightarrow> length ds \<le> length cs \<Longrightarrow> ds = take (length ds) cs"
  by (rule nth_equalityI) (simp, metis leads_nth nth_take option.inject order_less_le_trans)

lemma len_utf8_pos: "0 < len_utf8 c"
  by (simp add: len_utf8_def)

lemma position_at_extent: "position_at off (cs @ rest) (extent cs) = (off + extent cs, rest)"
proof (induction cs arbitrary: off)
  case (Cons c cs)
  then show ?case using len_utf8_pos [of c] by simp
qed (simp add: position_at_start)

text \<open>What a program leaves to the next one: its leading tokens, as far as they match.\<close>

definition known :: "glob_token list \<Rightarrow> scalar list \<Rightarrow> glob_prefix \<Rightarrow> bool" where
  "known tokens input prefix \<longleftrightarrow> (\<exists>cs rest. input = cs @ rest \<and> leads tokens cs \<and> gp_tokens prefix = length cs \<and> gp_bytes prefix = extent cs \<and>
     (length cs < length tokens \<longrightarrow> lead_char (tokens ! length cs) \<noteq> None \<longrightarrow> rest = [] \<or> lead_char (tokens ! length cs) \<noteq> Some (hd rest)))"

definition lead_ok :: "glob_token list \<Rightarrow> scalar list \<Rightarrow> glob_state \<Rightarrow> bool" where
  "lead_ok tokens input s \<longleftrightarrow> (if gs_leading s then gs_star s = None \<and> gs_dirs s = None \<and>
     (\<exists>cs. input = cs @ snd (gs_at s) \<and> leads tokens cs \<and> gs_token s = length cs \<and> fst (gs_at s) = extent cs \<and>
       gs_prefix s = \<lparr>gp_tokens = length cs, gp_bytes = extent cs\<rparr>)
   else known tokens input (gs_prefix s))"

definition lead_kept :: "glob_token list \<Rightarrow> scalar list \<Rightarrow> glob_state outcome \<Rightarrow> bool" where
  "lead_kept tokens input result \<longleftrightarrow> (case result of Go s \<Rightarrow> lead_ok tokens input s | Decided _ s \<Rightarrow> known tokens input (gs_prefix s))"

lemma retry_directories_lead: "retry_directories limit s = Inr result \<Longrightarrow> \<not> gs_leading s \<Longrightarrow> known tokens input (gs_prefix s) \<Longrightarrow> lead_kept tokens input result"
  by (auto simp: retry_directories_def lead_kept_def lead_ok_def split: option.splits sum.splits)

lemma retry_star_lead: "retry_star mode limit s = Inr result \<Longrightarrow> \<not> gs_leading s \<Longrightarrow> known tokens input (gs_prefix s) \<Longrightarrow> lead_kept tokens input result"
  by (auto simp: retry_star_def Let_def lead_kept_def lead_ok_def split: option.splits sum.splits if_splits
      dest!: retry_directories_lead [where tokens = tokens and input = input])

lemma accepts_lead: "lead_char token = Some c \<Longrightarrow> accepts ranges mode limit work at (Some token) = Inr (work, peek at = Some c)"
  by (auto simp: accepts_def lead_char_def split: glob_token.splits)

lemma lead_cases: "(case token of Some (GLiteral _) \<Rightarrow> True | Some GSeparator \<Rightarrow> True | _ \<Rightarrow> False) \<longleftrightarrow> (\<exists>t c. token = Some t \<and> lead_char t = Some c)"
  by (auto simp: lead_char_def split: option.splits glob_token.splits)

lemma known_refl: "leads tokens cs \<Longrightarrow> (length cs < length tokens \<Longrightarrow> rest \<noteq> [] \<Longrightarrow> lead_char (tokens ! length cs) \<noteq> Some (hd rest)) \<Longrightarrow>
    known tokens (cs @ rest) \<lparr>gp_tokens = length cs, gp_bytes = extent cs\<rparr>"
  unfolding known_def by (intro exI [of _ cs] exI [of _ rest]) auto

lemma leading_step:
  assumes "lead_ok tokens input s" "gs_leading s" "nth_opt tokens (gs_token s) = Some token" "lead_char token = Some c"
    "glob_step tokens ranges mode limit s = Inr result"
  shows "lead_kept tokens input result"
proof -
  obtain cs where cs: "gs_star s = None" "gs_dirs s = None" "input = cs @ snd (gs_at s)" "leads tokens cs" "gs_token s = length cs" "fst (gs_at s) = extent cs"
    "gs_prefix s = \<lparr>gp_tokens = length cs, gp_bytes = extent cs\<rparr>"
    using assms(1,2) by (auto simp: lead_ok_def)
  have at: "length cs < length tokens" "tokens ! length cs = token" using assms(3) unfolding cs(5) nth_opt_eq_Some by auto
  have other: "token \<noteq> GTail" "token \<noteq> GDirectories" "token \<noteq> GStar" using assms(4) by (auto simp: lead_char_def)
  obtain work where w: "tick limit (gs_work s) (fst (gs_at s)) = Inr work" using assms(5) by (auto simp: glob_step_def split: sum.splits)
  have lead: "(gs_leading s \<and> (case nth_opt tokens (gs_token s) of Some (GLiteral _) \<Rightarrow> True | Some GSeparator \<Rightarrow> True | _ \<Rightarrow> False)) = True"
    unfolding lead_cases using assms(2-4) by blast
  let ?s = "s\<lparr>gs_leading := True, gs_work := work\<rparr>"
  have step: "(if peek (gs_at s) = Some c then Inr (Go (accept_token tokens ?s)) else retry_star mode limit ?s) = Inr result"
    using assms(5) other unfolding glob_step_def w sum.case Let_def lead by (simp add: assms(3) accepts_lead [OF assms(4)] split: if_splits)
  show ?thesis
  proof (cases "peek (gs_at s) = Some c")
    case True
    then obtain ds where ds: "snd (gs_at s) = c # ds" by (cases "snd (gs_at s)") (simp_all add: peek_def)
    have "leads tokens (cs @ [c])" using leads_snoc [OF cs(4) at(1)] at(2) assms(4) by simp
    moreover have "advance (gs_at s) = (extent (cs @ [c]), ds)" using ds cs(6) by (simp add: advance_def)
    ultimately have "lead_ok tokens input (accept_token tokens ?s)"
      using cs(1-3,5) ds at(2) unfolding lead_ok_def
      by (simp add: accept_token_def Let_def)
    then show ?thesis using step True by (auto simp: lead_kept_def)
  next
    case False
    then have "result = Decided False ?s" using step cs(1,2) by (simp add: retry_star_def retry_directories_def)
    moreover have "known tokens input (gs_prefix s)"
      unfolding cs(3,7) using False at(2) assms(4) by (intro known_refl cs(4)) (auto simp: peek_def split: list.splits)
    ultimately show ?thesis by (simp add: lead_kept_def)
  qed
qed

lemma later_step:
  assumes "lead_ok tokens input s" "\<not> (gs_leading s \<and> (\<exists>t c. nth_opt tokens (gs_token s) = Some t \<and> lead_char t = Some c))"
    "glob_step tokens ranges mode limit s = Inr result"
  shows "lead_kept tokens input result"
proof -
  have k: "known tokens input (gs_prefix s)"
  proof (cases "gs_leading s")
    case True
    then obtain cs where cs: "input = cs @ snd (gs_at s)" "leads tokens cs" "gs_token s = length cs" "gs_prefix s = \<lparr>gp_tokens = length cs, gp_bytes = extent cs\<rparr>"
      using assms(1) by (auto simp: lead_ok_def)
    show ?thesis using assms(2) True unfolding cs(1,4) by (intro known_refl cs(2)) (auto simp: cs(3))
  qed (use assms(1) in \<open>simp add: lead_ok_def\<close>)
  obtain work where w: "tick limit (gs_work s) (fst (gs_at s)) = Inr work" using assms(3) by (auto simp: glob_step_def split: sum.splits)
  have l: "(gs_leading s \<and> (case nth_opt tokens (gs_token s) of Some (GLiteral _) \<Rightarrow> True | Some GSeparator \<Rightarrow> True | _ \<Rightarrow> False)) = False"
    unfolding lead_cases using assms(2) by blast
  show ?thesis
    using assms(3) k unfolding glob_step_def w sum.case Let_def l
    by (auto simp: lead_kept_def lead_ok_def accept_token_def Let_def split: if_splits sum.splits
        dest!: retry_star_lead [where tokens = tokens and input = input])
qed

lemma glob_loop_known: "lead_ok tokens input s \<Longrightarrow> glob_loop tokens ranges mode limit s = Inr (b, s') \<Longrightarrow> known tokens input (gs_prefix s')"
proof (induction tokens ranges mode limit s rule: glob_loop.induct)
  case (1 tokens ranges mode limit s)
  obtain result where r: "glob_step tokens ranges mode limit s = Inr result" using 1(3) by (subst (asm) glob_loop.simps) (auto split: sum.splits)
  have k: "lead_kept tokens input result"
    using leading_step [OF 1(2) _ _ _ r] later_step [OF 1(2) _ r] by blast
  show ?case
  proof (cases result)
    case (Go u)
    then have "glob_loop tokens ranges mode limit u = Inr (b, s')" using 1(3) r by (subst (asm) glob_loop.simps) simp
    then show ?thesis using 1(1) [OF r Go] k Go by (simp add: lead_kept_def)
  next
    case (Decided c u)
    then show ?thesis using 1(3) r k by (subst (asm) glob_loop.simps) (simp add: lead_kept_def)
  qed
qed

section \<open>Quoted text\<close>

text \<open>A backslash before every character gives a pattern that matches the text and nothing else.\<close>

definition quoted :: "scalar list \<Rightarrow> scalar list" where
  "quoted cs = concat (map (\<lambda>c. [0x5C, c]) cs)"

definition quoted_token :: "glob_mode \<Rightarrow> scalar \<Rightarrow> glob_token" where
  "quoted_token mode c = (if mode = PathMode \<and> c = 0x2F then GSeparator else GLiteral c)"

lemma parse_quoted: "parse_glob mode (off, quoted cs) component_start tokens ranges = Inr (tokens @ map (quoted_token mode) cs, ranges)"
proof (induction cs arbitrary: off component_start tokens)
  case Nil
  then show ?case by (subst parse_glob.simps) (simp add: quoted_def peek_def)
next
  case (Cons c cs)
  have q: "quoted (c # cs) = 0x5C # c # quoted cs" by (simp add: quoted_def)
  show ?case
    using Cons.IH [of _ _ "tokens @ [quoted_token mode c]"] unfolding q
    by (cases "mode = PathMode \<and> c = 0x2F"; subst parse_glob.simps; auto simp: peek_def parse_piece_def advance_def Let_def quoted_token_def)
qed

lemma quoted_lang: "glob_lang member mode (map (quoted_token mode) cs) input \<longleftrightarrow> input = cs"
proof (induction cs arbitrary: input)
  case (Cons c cs)
  have "lead_char (quoted_token mode c) = Some c" by (simp add: quoted_token_def lead_char_def)
  then show ?case using lead_takes Cons.IH by (cases input) (auto simp del: glob_lang.simps)
qed simp

lemma quoted_matches_itself: "pattern_matches mode (quoted cs) input \<longleftrightarrow> input = cs"
  by (simp add: pattern_matches_def parse_quoted quoted_lang)

section \<open>Matching a compiled glob\<close>

text \<open>C19: a pattern that parses compiles to a glob whose decisions are exactly the language of the parsed
  tokens over the ranges as written: two checkpoints decide what trying every split would, and the binary
  search over the merged class tables finds the members of the ranges. With an allowance of
  \<open>(k + 1) * (n + k + 2)\<^sup>2 * (n + 3)\<close> for an input of \<open>n\<close> and a pattern of \<open>k\<close> characters there is always a
  decision.\<close>

theorem glob_decides_language:
  assumes "scalars source" "parse_glob mode (0, source) True [] [] = Inr (tokens, ranges)"
  shows "\<exists>g. compile_glob source mode = Inr g \<and>
    (\<forall>input limit report. match_literal g input limit = Inr report \<longrightarrow> mr_matched report = glob_lang (raw_member ranges) mode tokens input) \<and>
    (\<forall>input limit. work_bound (length input) (length source) \<le> unat limit \<longrightarrow> (\<exists>report. match_literal g input limit = Inr report))"
proof -
  obtain g where g: "compile_glob source mode = Inr g" "gl_mode g = mode" "glob_wf mode (gl_tokens g)" "length (gl_tokens g) \<le> length source"
    "\<And>input. glob_lang (class_member (gl_ranges g)) mode (gl_tokens g) input = pattern_matches mode source input"
    using compiled [OF assms] by blast
  have "mr_matched report = glob_lang (raw_member ranges) mode tokens input" if "match_literal g input limit = Inr report" for input limit report
    using that resume_decides [OF g(3), of no_prefix] g(2,5) assms(2)
    by (fastforce simp: match_literal_def no_prefix_def lang_from_def position_at_start pattern_matches_def split: sum.splits)
  moreover have "\<exists>report. match_literal g input limit = Inr report" if "work_bound (length input) (length source) \<le> unat limit" for input limit
  proof -
    have "work_bound (length input) (length (gl_tokens g)) \<le> spare limit 0"
      using work_bound_mono [OF g(4)] that by (simp add: spare_def) (rule order.trans)
    then show ?thesis
      using resume_returns [OF g(3), of no_prefix input limit 0 "gl_ranges g"] g(2) by (auto simp: match_literal_def no_prefix_def)
  qed
  ultimately show ?thesis using g(1) by blast
qed

lemmas parse_eval = parse_glob.simps parse_class.simps parse_piece_def parse_scalar_def parse_last_def take_stars_def peek_def advance_def len_utf8_def Let_def

lemma range_Suc: "{0..0 :: nat} = {0}" "{0..Suc n} = insert (Suc n) {0..n}"
  by auto

lemmas lang_eval = range_Suc token_takes_def takes_def raw_member_def covers_def slice_range_def

text \<open>The pattern \<open>a/**/[a-cb-e]*\<close> in path mode, with overlapping ranges.\<close>

lemma glob_decides_language_witness:
  "\<exists>g. compile_glob [97, 47, 42, 42, 47, 91, 97, 45, 99, 98, 45, 101, 93, 42] PathMode = Inr g \<and>
    (\<exists>report. match_literal g [97, 47, 120, 47, 100, 122] 100000 = Inr report \<and> mr_matched report) \<and>
    (\<exists>report. match_literal g [97, 47, 120, 47, 102] 100000 = Inr report \<and> \<not> mr_matched report)"
proof -
  let ?tokens = "[GLiteral 97, GSeparator, GDirectories, GClass 0 2 False, GStar]" and ?ranges = "[(97, 99), (98, 101)]"
  have p: "parse_glob PathMode (0, [97, 47, 42, 42, 47, 91, 97, 45, 99, 98, 45, 101, 93, 42]) True [] [] = Inr (?tokens, ?ranges)" by (simp add: parse_eval)
  have s: "scalars [97, 47, 42, 42, 47, 91, 97, 45, 99, 98, 45, 101, 93, 42]" by (simp add: scalars_def)
  have yes: "glob_lang (raw_member ?ranges) PathMode ?tokens [97, 47, 120, 47, 100, 122]" by (simp add: lang_eval)
  have no: "\<not> glob_lang (raw_member ?ranges) PathMode ?tokens [97, 47, 120, 47, 102]" by (simp add: lang_eval)
  obtain g where g: "compile_glob [97, 47, 42, 42, 47, 91, 97, 45, 99, 98, 45, 101, 93, 42] PathMode = Inr g"
    "\<And>input limit report. match_literal g input limit = Inr report \<Longrightarrow> mr_matched report = glob_lang (raw_member ?ranges) PathMode ?tokens input"
    "\<And>input limit. work_bound (length input) (length [97, 47, 42, 42, 47, 91, 97, 45, 99, 98, 45, 101, 93, 42 :: nat]) \<le> unat limit \<Longrightarrow> \<exists>report. match_literal g input limit = Inr report"
    using glob_decides_language [OF s p] by blast
  have l: "length [97, 47, 120, 47, 100, 122 :: nat] = 6" "length [97, 47, 120, 47, 102 :: nat] = 5"
    "length [97, 47, 42, 42, 47, 91, 97, 45, 99, 98, 45, 101, 93, 42 :: nat] = 14" by simp_all
  have b: "work_bound 6 14 \<le> unat (100000 :: u64)" "work_bound 5 14 \<le> unat (100000 :: u64)" by (simp_all add: work_bound_def)
  have "\<exists>report. match_literal g [97, 47, 120, 47, 100, 122] 100000 = Inr report" "\<exists>report. match_literal g [97, 47, 120, 47, 102] 100000 = Inr report"
    by (rule g(3), unfold l, rule b)+
  then obtain r1 r2 where r: "match_literal g [97, 47, 120, 47, 100, 122] 100000 = Inr r1" "match_literal g [97, 47, 120, 47, 102] 100000 = Inr r2"
    by blast
  show ?thesis using g(1) r g(2) [OF r(1)] g(2) [OF r(2)] yes no by blast
qed

end
