(* ===== verification/GlobSet.thy ===== *)
theory GlobSet
  imports GlobMatch
begin

text \<open>
  Ordered sets: every program of a compiled set has the meaning of its source pattern, and running the
  programs one after the other, each from the leading run it shares with the one before, reports the
  patterns that match on their own.
\<close>

section \<open>Tokens with shifted tables\<close>

definition shift_token :: "nat \<Rightarrow> glob_token \<Rightarrow> glob_token" where
  "shift_token n token = (case token of GClass i j negated \<Rightarrow> GClass (n + i) (n + j) negated | _ \<Rightarrow> token)"

lemma parse_class_shift: "parse_class at m p (base @ ranges) = map_sum id (\<lambda>(q, ranges). (q, base @ ranges)) (parse_class at m p ranges)"
proof (induction at m p ranges rule: parse_class.induct)
  case (1 at m p ranges)
  show ?case
  proof (cases "peek p")
    case (Some c)
    show ?thesis
    proof (cases "c = 0x5D \<or> take 2 (snd p) = [0x5B, 0x3A]")
      case False
      then have c: "c \<noteq> 0x5D" "take 2 (snd p) \<noteq> [0x5B, 0x3A]" by auto
      show ?thesis using Some c 1 [OF Some c]
        by (subst (1 2) parse_class.simps) (auto simp: id_def split: sum.splits)
    qed (use Some in \<open>subst (1 2) parse_class.simps, auto\<close>)
  qed (subst (1 2) parse_class.simps, simp)
qed

lemma parse_piece_shift: "parse_piece mode p component_start (base @ ranges) =
    map_sum id (\<lambda>(q, start', token, ranges). (q, start', shift_token (length base) token, base @ ranges)) (parse_piece mode p component_start ranges)"
proof (cases "snd p")
  case (Cons ch rest)
  show ?thesis
  proof (cases "ch = 0x5B")
    case True
    let ?q = "advance p"
    let ?r = "if peek ?q = Some 0x21 \<or> peek ?q = Some 0x5E then advance ?q else ?q"
    show ?thesis unfolding parse_piece_def Cons list.case Let_def parse_class_shift
      using True by (cases "parse_class (fst p) (fst ?r) ?r ranges") (auto simp: shift_token_def id_def split: prod.splits)
  next
    case False
    have plain: "shift_token n t = t" if "\<And>i j b. t \<noteq> GClass i j b" for n t using that by (cases t) (auto simp: shift_token_def)
    show ?thesis
      unfolding parse_piece_def Cons list.case Let_def
      using False by (cases "take_stars (advance p)"; cases "peek (advance p)") (simp_all add: plain)
  qed
qed (simp add: parse_piece_def)

lemma parse_glob_shift: "parse_glob mode p component_start (before @ map (shift_token (length base)) tokens) (base @ ranges) =
    map_sum id (\<lambda>(tokens, ranges). (before @ map (shift_token (length base)) tokens, base @ ranges)) (parse_glob mode p component_start tokens ranges)"
proof (induction mode p component_start tokens ranges rule: parse_glob.induct)
  case (1 mode p component_start tokens ranges)
  show ?case
  proof (cases "peek p = None")
    case False
    show ?thesis
    proof (cases "parse_piece mode p component_start ranges")
      case (Inr r)
      obtain q start' token ranges' where r: "r = (q, start', token, ranges')" by (cases r)
      show ?thesis using False 1 [OF False Inr r [symmetric] refl refl]
        by (subst (1 2) parse_glob.simps) (auto simp: parse_piece_shift Inr r id_def)
    qed (use False in \<open>subst (1 2) parse_glob.simps, simp add: parse_piece_shift\<close>)
  qed (subst (1 2) parse_glob.simps, simp)
qed

lemma shift_wf: "glob_wf mode (map (shift_token n) tokens) = glob_wf mode tokens"
proof -
  have other: "shift_token n t = u \<longleftrightarrow> t = u" if "\<And>i j b. u \<noteq> GClass i j b" for t u
    using that by (cases t) (auto simp: shift_token_def)
  show ?thesis
    unfolding glob_wf_def by (cases mode) (auto simp: other image_iff nth_map less_imp_diff_less eq_commute [of _ "shift_token _ _"])
qed

section \<open>The programs of a set\<close>

text \<open>The programs from a start on are the patterns, each with the leading run it shares with the tokens
  before it.\<close>

fun programs_of :: "glob_mode \<Rightarrow> glob_token list \<Rightarrow> scalar_range list \<Rightarrow> glob_token list \<Rightarrow> nat \<Rightarrow> program list \<Rightarrow> scalar list list \<Rightarrow> bool" where
  "programs_of mode tokens ranges previous start [] [] \<longleftrightarrow> True"
| "programs_of mode tokens ranges previous start (program # programs) (source # sources) \<longleftrightarrow>
     (let current = slice_range start (pr_end program) tokens in
      (\<exists>n own_tokens own_ranges. parse_glob mode (0, source) True [] [] = Inr (own_tokens, own_ranges) \<and>
        current = map (shift_token n) own_tokens \<and> take (length own_ranges) (drop n ranges) = own_ranges) \<and>
      pr_shared program = common_prefix no_prefix previous current \<and>
      start \<le> pr_end program \<and> pr_end program \<le> length tokens \<and> programs_of mode tokens ranges current (pr_end program) programs sources)"
| "programs_of mode tokens ranges previous start _ _ \<longleftrightarrow> False"

lemma parse_glob_base: "parse_glob mode p True tokens ranges =
    map_sum id (\<lambda>(own_tokens, own_ranges). (tokens @ map (shift_token (length ranges)) own_tokens, ranges @ own_ranges)) (parse_glob mode p True [] [])"
  using parse_glob_shift [of mode p True tokens ranges "[]" "[]"] by simp

lemma compile_programs_spec:
  assumes "compile_programs index sources mode previous_start tokens ranges programs = Inr (tokens', ranges', programs')" "previous_start \<le> length tokens"
  shows "\<exists>ts rs ps. tokens' = tokens @ ts \<and> ranges' = ranges @ rs \<and> programs' = programs @ ps \<and>
    programs_of mode tokens' ranges' (drop previous_start tokens) (length tokens) ps sources"
  using assms
proof (induction sources arbitrary: index previous_start tokens ranges programs)
  case (Cons source sources)
  obtain ts rs where own: "parse_glob mode (0, source) True [] [] = Inr (ts, rs)"
  proof (cases "parse_glob mode (0, source) True [] []")
    case (Inr r)
    then show ?thesis using that by (cases r) simp
  qed (use Cons.prems(1) in \<open>simp add: parse_glob_base [of _ _ tokens ranges]\<close>)
  let ?ts = "map (shift_token (length ranges)) ts"
  let ?p = "\<lparr>pr_end = length (tokens @ ?ts), pr_shared = common_prefix no_prefix (drop previous_start tokens) ?ts\<rparr>"
  have "slice_range previous_start (length tokens) (tokens @ ?ts) = drop previous_start tokens"
    using Cons.prems(2) by (simp add: slice_range_def)
  then have "compile_programs (index + 1) sources mode (length tokens) (tokens @ ?ts) (ranges @ rs) (programs @ [?p]) = Inr (tokens', ranges', programs')"
    using Cons.prems(1) by (simp add: parse_glob_base [of _ _ tokens ranges] own Let_def)
  from Cons.IH [OF this] obtain ts2 rs2 ps where r: "tokens' = (tokens @ ?ts) @ ts2" "ranges' = (ranges @ rs) @ rs2" "programs' = (programs @ [?p]) @ ps"
    "programs_of mode tokens' ranges' (drop (length tokens) (tokens @ ?ts)) (length (tokens @ ?ts)) ps sources" by auto
  have "slice_range (length tokens) (length (tokens @ ?ts)) tokens' = ?ts" unfolding r(1) by (simp add: slice_range_def)
  moreover have "take (length rs) (drop (length ranges) ranges') = rs" unfolding r(2) by simp
  ultimately have "programs_of mode tokens' ranges' (drop previous_start tokens) (length tokens) (?p # ps) (source # sources)"
    using own r(4) unfolding r(1) by (auto simp: Let_def)
  then show ?case using r(1-3) by (intro exI [of _ "?ts @ ts2"] exI [of _ "rs @ rs2"] exI [of _ "?p # ps"]) simp
qed auto

section \<open>Normalized programs\<close>

text \<open>What a run of the programs needs: the language of each one, and its shared leading run.\<close>

fun programs_mean :: "glob_mode \<Rightarrow> glob_token list \<Rightarrow> scalar_range list \<Rightarrow> glob_token list \<Rightarrow> nat \<Rightarrow> program list \<Rightarrow> scalar list list \<Rightarrow> bool" where
  "programs_mean mode tokens ranges previous start [] [] \<longleftrightarrow> True"
| "programs_mean mode tokens ranges previous start (program # programs) (source # sources) \<longleftrightarrow>
     (let current = slice_range start (pr_end program) tokens in
      glob_wf mode current \<and> length current \<le> length source \<and> (\<forall>input. glob_lang (class_member ranges) mode current input = pattern_matches mode source input) \<and>
      (\<exists>cs. leads previous cs \<and> leads current cs \<and> pr_shared program = \<lparr>gp_tokens = length cs, gp_bytes = extent cs\<rparr>) \<and>
      programs_mean mode tokens ranges current (pr_end program) programs sources)"
| "programs_mean mode tokens ranges previous start _ _ \<longleftrightarrow> False"

lemma common_prefix_leads: "\<exists>cs. leads previous cs \<and> leads current cs \<and>
    common_prefix shared previous current = \<lparr>gp_tokens = gp_tokens shared + length cs, gp_bytes = gp_bytes shared + extent cs\<rparr>"
proof (induction shared previous current rule: common_prefix.induct)
  case (1 shared left previous right current)
  show ?case
  proof (cases "left = right")
    case True
    then obtain cs where "leads previous cs" "leads current cs" "common_prefix shared (GLiteral left # previous) (GLiteral right # current) =
      \<lparr>gp_tokens = gp_tokens shared + 1 + length cs, gp_bytes = gp_bytes shared + len_utf8 left + extent cs\<rparr>" using 1 by auto
    then show ?thesis using True by (intro exI [of _ "left # cs"]) (simp add: leads_Cons lead_char_def)
  qed (intro exI [of _ "[]"], simp)
next
  case (2 shared previous current)
  then obtain cs where "leads previous cs" "leads current cs" "common_prefix shared (GSeparator # previous) (GSeparator # current) =
    \<lparr>gp_tokens = gp_tokens shared + 1 + length cs, gp_bytes = gp_bytes shared + len_utf8 0x2F + extent cs\<rparr>" by auto
  then show ?case by (intro exI [of _ "0x2F # cs"]) (simp add: leads_Cons lead_char_def)
qed (intro exI [of _ "[]"], simp)+

lemma alike_lead: "alike m m' t t' \<Longrightarrow> lead_char t = lead_char t'"
  by (cases t; cases t') (auto simp: alike_def lead_char_def)

lemma alike_leads: "list_all2 (alike m m') tokens tokens' \<Longrightarrow> leads tokens cs \<Longrightarrow> leads tokens' cs"
proof (induction cs arbitrary: tokens tokens')
  case (Cons c cs)
  then show ?case by (auto simp: leads_Cons list_all2_Cons1 dest!: alike_lead)
qed simp

lemma shift_alike:
  assumes "laid 0 own_tokens (length own_ranges)" "take (length own_ranges) (drop n ranges) = own_ranges"
  shows "list_all2 (alike (raw_member own_ranges) (raw_member ranges)) own_tokens (map (shift_token n) own_tokens)"
proof -
  have "list_all2 (alike (raw_member own_ranges) (raw_member ranges)) ts (map (shift_token n) ts)" if "laid k ts (length own_ranges)" for k ts
    using that
  proof (induction k ts "length own_ranges" rule: laid.induct)
    case (2 k start stop negated ts)
    then have "stop \<le> length own_ranges" "start \<le> stop" using laid_bound by auto
    then have "stop - start \<le> length own_ranges - start" "stop \<le> length own_ranges" "start \<le> stop" by auto
    then have "slice_range start stop own_ranges = slice_range (n + start) (n + stop) ranges"
      using arg_cong [OF assms(2), of "slice_range start stop"] by (simp add: slice_range_def drop_take min_def add.commute)
    then have "raw_member own_ranges start stop = raw_member ranges (n + start) (n + stop)" by (intro ext) (simp add: raw_member_def)
    then show ?case using 2 by (simp add: shift_token_def alike_class)
  qed (auto simp: shift_token_def alike_def)
  then show ?thesis using assms(1) by blast
qed

lemma own_ok:
  assumes "scalars source" "parse_glob mode (0, source) True [] [] = Inr (own_tokens, own_ranges)"
  shows "glob_wf mode own_tokens" "laid 0 own_tokens (length own_ranges)"
  using parse_glob_ok [of mode "(0, source)" True "[]" "[]" "[]" own_tokens own_ranges 0] assms
  by (auto simp: glob_wf_def split: glob_mode.splits)

lemma slice_all2: "list_all2 P xs ys \<Longrightarrow> list_all2 P (slice_range i j xs) (slice_range i j ys)"
  by (simp add: slice_range_def)

lemma normalized_programs:
  assumes "programs_of mode tokens ranges previous start programs sources" "\<forall>source\<in>set sources. scalars source"
    "list_all2 (alike (raw_member ranges) (class_member ranges')) tokens tokens'"
    "list_all2 (alike (raw_member ranges) (class_member ranges')) previous previous'"
  shows "programs_mean mode tokens' ranges' previous' start programs sources"
  using assms
proof (induction programs sources arbitrary: previous previous' start rule: list_induct2')
  case (4 program programs source sources)
  let ?current = "slice_range start (pr_end program) tokens" and ?current' = "slice_range start (pr_end program) tokens'"
  obtain n own_tokens own_ranges where own: "parse_glob mode (0, source) True [] [] = Inr (own_tokens, own_ranges)"
    "?current = map (shift_token n) own_tokens" "take (length own_ranges) (drop n ranges) = own_ranges"
    using 4(2) by (auto simp: Let_def)
  have source: "scalars source" using 4(3) by simp
  note ok = own_ok [OF source own(1)]
  have a: "list_all2 (alike (raw_member ranges) (class_member ranges')) ?current ?current'" by (rule slice_all2 [OF 4(4)])
  have "glob_wf mode ?current'" using ok(1) alike_wf [OF a] shift_wf own(2) by simp
  moreover have "glob_lang (class_member ranges') mode ?current' input = pattern_matches mode source input" for input
    using alike_lang [OF a, of mode input] alike_lang [OF shift_alike [OF ok(2) own(3)], of mode input] own(1,2)
    by (simp add: pattern_matches_def)
  moreover have "length ?current' \<le> length source" using list_all2_lengthD [OF a] own(2) parse_glob_count [OF own(1)] by simp
  moreover obtain cs where cs: "leads previous cs" "leads ?current cs" "common_prefix no_prefix previous ?current = \<lparr>gp_tokens = length cs, gp_bytes = extent cs\<rparr>"
    using common_prefix_leads [of previous ?current no_prefix] by (auto simp: no_prefix_def)
  have "leads previous' cs \<and> leads ?current' cs \<and> pr_shared program = \<lparr>gp_tokens = length cs, gp_bytes = extent cs\<rparr>"
    using alike_leads [OF 4(5) cs(1)] alike_leads [OF a cs(2)] cs(3) 4(2) by (auto simp: Let_def)
  moreover have "programs_mean mode tokens' ranges' ?current' (pr_end program) programs sources"
    using 4(1) [OF _ _ 4(4) a] 4(2,3) by (auto simp: Let_def)
  ultimately show ?case by (auto simp: Let_def)
qed simp_all

lemma programs_mean_length: "programs_mean mode tokens ranges previous start programs sources \<Longrightarrow> length programs = length sources"
  by (induction programs sources arbitrary: previous start rule: list_induct2') (auto simp: Let_def)

lemma wf_Nil: "glob_wf mode []"
  by (cases mode) (simp_all add: glob_wf_def)

lemma laid_append: "laid a xs b \<Longrightarrow> laid b ys c \<Longrightarrow> laid a (xs @ ys) c"
proof (induction a xs b rule: laid.induct)
  case (1 a b)
  then show ?case by (induction b ys c rule: laid.induct) auto
qed auto

lemma compile_programs_laid:
  assumes "compile_programs index sources mode previous_start tokens ranges programs = Inr (tokens', ranges', programs')"
    "laid 0 tokens (length ranges)" "\<forall>r\<in>set ranges. range_ok r" "\<forall>source\<in>set sources. scalars source"
  shows "laid 0 tokens' (length ranges') \<and> (\<forall>r\<in>set ranges'. range_ok r)"
  using assms
proof (induction sources arbitrary: index previous_start tokens ranges programs)
  case (Cons source sources)
  obtain ts rs where p: "parse_glob mode (0, source) True tokens ranges = Inr (ts, rs)"
    using Cons.prems(1) by (cases "parse_glob mode (0, source) True tokens ranges") auto
  obtain own where o: "ts = tokens @ own" "laid (length ranges) own (length rs)" "extends ranges rs"
    using parse_glob_ok [of mode "(0, source)" True tokens "[]" ranges ts rs "length ranges"] p Cons.prems(4) wf_Nil
    by auto
  have "laid 0 ts (length rs)" unfolding o(1) using laid_append Cons.prems(2) o(2) by blast
  moreover have "\<forall>r\<in>set rs. range_ok r" using o(3) Cons.prems(3) by (auto simp: extends_def)
  ultimately show ?case using Cons.IH [of "index + 1" "length tokens" ts rs] Cons.prems(1,4) p by (auto simp: Let_def)
qed auto

lemma compiled_set:
  assumes "compile_set sources mode = Inr g" "\<forall>source\<in>set sources. scalars source"
  shows "st_mode g = mode \<and> programs_mean mode (st_tokens g) (st_ranges g) [] 0 (st_programs g) sources \<and> length (st_programs g) = length sources"
proof -
  obtain tokens ranges programs where c: "compile_programs 0 sources mode 0 [] [] [] = Inr (tokens, ranges, programs)"
    using assms(1) by (cases "compile_programs 0 sources mode 0 [] [] []") (auto simp: compile_set_def)
  obtain tokens' ranges' where n: "normalize_tokens tokens ranges = (tokens', ranges')" by fastforce
  have g: "g = \<lparr>st_tokens = tokens', st_ranges = ranges', st_programs = programs, st_mode = mode\<rparr>"
    using assms(1) c n by (simp add: compile_set_def)
  have laid: "laid 0 tokens (length ranges)" "\<forall>r\<in>set ranges. range_ok r" using compile_programs_laid [OF c] assms(2) by simp_all
  have "list_all2 (alike (raw_member ranges) (class_member ranges')) tokens tokens'"
    using normalize_tokens_spec [OF n laid(1)] laid(2) by simp
  moreover have "programs_of mode tokens ranges [] 0 programs sources" using compile_programs_spec [OF c] by auto
  ultimately have m: "programs_mean mode tokens' ranges' [] 0 programs sources" using normalized_programs assms(2) by blast
  then show ?thesis using g programs_mean_length [OF m] by simp
qed

section \<open>Running the programs\<close>

lemma resume_known:
  assumes "leads tokens cs" "input = cs @ rest" "resume_metered tokens ranges mode input \<lparr>gp_tokens = length cs, gp_bytes = extent cs\<rparr> limit work = Inr (b, prefix', work')"
  shows "known tokens input prefix'"
proof -
  let ?s = "start_state input \<lparr>gp_tokens = length cs, gp_bytes = extent cs\<rparr> work"
  have "lead_ok tokens input ?s" using assms(1) position_at_extent [of 0 cs rest] unfolding assms(2) by (auto simp: lead_ok_def start_state_def)
  then show ?thesis using assms(3) glob_loop_known [of tokens input ?s] by (auto simp: resume_metered_def split: sum.splits)
qed

lemma run_program_spec:
  assumes "known previous_tokens input previous" "leads previous_tokens cs" "leads tokens cs" "pr_shared program = \<lparr>gp_tokens = length cs, gp_bytes = extent cs\<rparr>"
    "tokens = slice_range start (pr_end program) (st_tokens g)" "glob_wf (st_mode g) tokens"
    "run_program g input limit start program previous work = Inr (b, previous', work')"
  shows "b = glob_lang (class_member (st_ranges g)) (st_mode g) tokens input \<and> known tokens input previous'"
proof -
  obtain ds rest where ds: "input = ds @ rest" "leads previous_tokens ds" "gp_tokens previous = length ds" "gp_bytes previous = extent ds"
    "length ds < length previous_tokens \<longrightarrow> lead_char (previous_tokens ! length ds) \<noteq> None \<longrightarrow> rest = [] \<or> lead_char (previous_tokens ! length ds) \<noteq> Some (hd rest)"
    using assms(1) by (auto simp: known_def)
  show ?thesis
  proof (cases "length ds < length cs")
    case True
    have pre: "ds = take (length ds) cs" using leads_prefix [OF assms(2) ds(2)] True by simp
    have t: "leads tokens ds" using leads_take [OF assms(3), of "length ds"] pre by simp
    have at: "lead_char (tokens ! length ds) = Some (cs ! length ds)" "lead_char (previous_tokens ! length ds) = Some (cs ! length ds)"
      using leads_nth [OF assms(3) True] leads_nth [OF assms(2) True] by simp_all
    have len: "length ds < length tokens" "length ds < length previous_tokens" using True assms(2,3) by (simp_all add: leads_def)
    have bad: "rest = [] \<or> cs ! length ds \<noteq> hd rest" using ds(5) at(2) len(2) by auto
    have "\<not> glob_lang m (st_mode g) tokens input" for m
      unfolding ds(1) leads_lang [OF t] Cons_nth_drop_Suc [OF len(1), symmetric]
      using bad lead_takes [OF at(1)] by (cases rest) (auto simp del: glob_lang.simps)
    moreover have "b = False" "previous' = previous" using assms(7) True
      by (auto simp: run_program_def assms(4) ds(3) Let_def map_sum_def split: sum.splits if_splits)
    moreover have "known tokens input previous" unfolding known_def using ds(1,3,4) t at(1) bad by (intro exI [of _ ds] exI [of _ rest]) auto
    ultimately show ?thesis by simp
  next
    case False
    then have pre: "cs = take (length cs) ds" using leads_prefix [OF ds(2) assms(2)] by simp
    obtain tl where tl: "input = cs @ tl" using ds(1) pre by (metis append.assoc append_take_drop_id)
    obtain work1 where r: "resume_metered tokens (st_ranges g) (st_mode g) input \<lparr>gp_tokens = length cs, gp_bytes = extent cs\<rparr> limit work1 = Inr (b, previous', work')"
      using assms(7) False unfolding assms(5)
      by (cases "cs = []"; auto simp: run_program_def assms(4) ds(3) Let_def map_sum_def split: sum.splits if_splits)
    have "b = lang_from (class_member (st_ranges g)) (st_mode g) tokens (length cs) tl"
      using resume_decides [OF assms(6) _ r] assms(3) position_at_extent [of 0 cs tl] tl by (simp add: leads_def)
    then show ?thesis using leads_lang [OF assms(3)] resume_known [OF assms(3) tl r] tl by (simp add: lang_from_def)
  qed
qed

lemma run_programs_spec:
  assumes "programs_mean (st_mode g) (st_tokens g) (st_ranges g) previous_tokens start programs sources" "known previous_tokens input previous"
    "run_programs g (Some input) limit index start programs previous work matched = Inr (result, work')"
  shows "result = matched @ filter (\<lambda>i. pattern_matches (st_mode g) (sources ! (i - index)) input) [index..<index + length sources]"
  using assms
proof (induction programs sources arbitrary: previous_tokens start previous index work matched rule: list_induct2')
  case (4 program programs source sources)
  let ?tokens = "slice_range start (pr_end program) (st_tokens g)"
  obtain cs where m: "glob_wf (st_mode g) ?tokens" "glob_lang (class_member (st_ranges g)) (st_mode g) ?tokens input = pattern_matches (st_mode g) source input"
    "leads previous_tokens cs" "leads ?tokens cs" "pr_shared program = \<lparr>gp_tokens = length cs, gp_bytes = extent cs\<rparr>"
    "programs_mean (st_mode g) (st_tokens g) (st_ranges g) ?tokens (pr_end program) programs sources"
    using 4(2) by (auto simp: Let_def)
  obtain b previous' work1 where r: "run_program g input limit start program previous work = Inr (b, previous', work1)"
    "run_programs g (Some input) limit (index + 1) (pr_end program) programs previous' work1 (if b then matched @ [index] else matched) = Inr (result, work')"
    using 4(4) by (auto split: sum.splits)
  have b: "b = pattern_matches (st_mode g) source input" "known ?tokens input previous'"
    using run_program_spec [OF 4(3) m(3-5) refl m(1) r(1)] m(2) by simp_all
  have "filter (\<lambda>i. pattern_matches (st_mode g) ((source # sources) ! (i - index)) input) [index + 1..<index + 1 + length sources] =
      filter (\<lambda>i. pattern_matches (st_mode g) (sources ! (i - (index + 1))) input) [index + 1..<index + 1 + length sources]"
    by (rule filter_cong [OF refl]) (auto simp: nth_Cons')
  moreover have "[index..<index + length (source # sources)] = index # [index + 1..<index + 1 + length sources]"
    using upt_conv_Cons [of index "index + length (source # sources)"] by simp
  ultimately show ?case using 4(1) [OF m(6) b(2) r(2)] b(1) by auto
qed simp_all

section \<open>The work of a set\<close>

definition set_bound :: "nat \<Rightarrow> scalar list list \<Rightarrow> nat" where
  "set_bound n sources = sum_list (map (\<lambda>source. work_bound n (length source) + 1) sources)"

lemma run_program_returns:
  assumes "leads tokens cs" "pr_shared program = \<lparr>gp_tokens = length cs, gp_bytes = extent cs\<rparr>" "tokens = slice_range start (pr_end program) (st_tokens g)"
    "glob_wf (st_mode g) tokens" "length tokens \<le> k" "work_bound (length input) k + 1 \<le> spare limit work"
  shows "\<exists>b previous' work'. run_program g input limit start program previous work = Inr (b, previous', work') \<and>
    spare limit work \<le> spare limit work' + work_bound (length input) k + 1"
proof -
  let ?shared = "\<lparr>gp_tokens = length cs, gp_bytes = extent cs\<rparr>"
  have b: "work_bound (length input) (length tokens) \<le> work_bound (length input) k" by (rule work_bound_mono [OF assms(5)])
  have resume: "\<exists>b prefix' work'. resume_metered tokens (st_ranges g) (st_mode g) input ?shared limit w = Inr (b, prefix', work') \<and>
      spare limit w \<le> spare limit work' + work_bound (length input) k" if "work_bound (length input) k \<le> spare limit w" for w
    using resume_returns [OF assms(4), of ?shared input limit w "st_ranges g"] assms(1) that b by (fastforce simp: leads_def)
  obtain w where w: "tick limit work off = Inr (w off)" "spare limit work = spare limit (w off) + 1" for off
    using tick_ok [of limit work] assms(6) by (metis add_leD2)
  show ?thesis
  proof (cases "cs = []")
    case True
    then show ?thesis using resume [of work] assms(6) unfolding assms(3) by (fastforce simp: run_program_def assms(2) Let_def)
  next
    case False
    show ?thesis
    proof (cases "gp_tokens previous < length cs")
      case True
      then show ?thesis using False w [of "gp_bytes previous"] by (auto simp: run_program_def assms(2) Let_def)
    next
      case skip: False
      then show ?thesis using False w [of "extent cs"] resume [of "w (extent cs)"] assms(6) unfolding assms(3)
        by (fastforce simp: run_program_def assms(2) Let_def)
    qed
  qed
qed

lemma run_programs_returns:
  assumes "programs_mean (st_mode g) (st_tokens g) (st_ranges g) previous_tokens start programs sources" "set_bound (length input) sources \<le> spare limit work"
  shows "\<exists>result work'. run_programs g (Some input) limit index start programs previous work matched = Inr (result, work')"
  using assms
proof (induction programs sources arbitrary: previous_tokens start previous index work matched rule: list_induct2')
  case (4 program programs source sources)
  let ?tokens = "slice_range start (pr_end program) (st_tokens g)" and ?b = "work_bound (length input) (length source)"
  obtain cs where m: "glob_wf (st_mode g) ?tokens" "length ?tokens \<le> length source" "leads ?tokens cs" "pr_shared program = \<lparr>gp_tokens = length cs, gp_bytes = extent cs\<rparr>"
    "programs_mean (st_mode g) (st_tokens g) (st_ranges g) ?tokens (pr_end program) programs sources"
    using 4(2) by (auto simp: Let_def)
  have b: "?b + 1 \<le> spare limit work" "set_bound (length input) (source # sources) = ?b + 1 + set_bound (length input) sources"
    using 4(3) by (simp_all add: set_bound_def)
  obtain r previous' work1 where r: "run_program g input limit start program previous work = Inr (r, previous', work1)" "spare limit work \<le> spare limit work1 + ?b + 1"
    using run_program_returns [OF m(3,4) refl m(1,2) b(1)] by blast
  have "set_bound (length input) sources \<le> spare limit work1" using r(2) b(2) 4(3) by simp
  from 4(1) [OF m(5) this] show ?case using r(1) by simp
qed simp_all

lemma compile_programs_ok:
  assumes "\<forall>source\<in>set sources. \<exists>r. parse_glob mode (0, source) True [] [] = Inr r"
  shows "\<exists>r. compile_programs index sources mode previous_start tokens ranges programs = Inr r"
  using assms
proof (induction sources arbitrary: index previous_start tokens ranges programs)
  case (Cons source sources)
  then obtain r where "parse_glob mode (0, source) True [] [] = Inr r" by auto
  then show ?case using Cons by (cases r) (simp add: parse_glob_base [of _ _ tokens ranges] Let_def)
qed simp

lemma compile_set_ok:
  assumes "\<forall>source\<in>set sources. \<exists>r. parse_glob mode (0, source) True [] [] = Inr r"
  shows "\<exists>g. compile_set sources mode = Inr g"
  using compile_programs_ok [OF assms, of 0 0 "[]" "[]" "[]"] by (auto simp: compile_set_def split: prod.splits)

section \<open>Matching a compiled set\<close>

text \<open>C9: a set of patterns that parse compiles, and matching it reports, in order, the indices of exactly the
  patterns that match the input on their own, although a program is refused or resumed on the leading run it
  shares with the one before. With one index slot per pattern and an allowance of the sum of the single
  bounds there is always a report.\<close>

theorem set_reports_each_match:
  assumes "\<forall>source\<in>set sources. scalars source" "\<forall>source\<in>set sources. \<exists>r. parse_glob mode (0, source) True [] [] = Inr r"
  shows "\<exists>g. compile_set sources mode = Inr g \<and>
    (\<forall>input limit workspace indices work. match_set g (Some input) limit workspace = Inr (indices, work) \<longrightarrow>
      indices = filter (\<lambda>i. pattern_matches mode (sources ! i) input) [0..<length sources]) \<and>
    (\<forall>input limit workspace. length sources \<le> workspace \<longrightarrow> set_bound (length input) sources \<le> unat limit \<longrightarrow>
      (\<exists>indices work. match_set g (Some input) limit workspace = Inr (indices, work)))"
proof -
  obtain g where g: "compile_set sources mode = Inr g" using compile_set_ok [OF assms(2)] by blast
  note c = compiled_set [OF g assms(1)]
  have "known [] input no_prefix" for input by (auto simp: known_def no_prefix_def)
  then have "indices = filter (\<lambda>i. pattern_matches mode (sources ! i) input) [0..<length sources]"
    if "match_set g (Some input) limit workspace = Inr (indices, work)" for input limit workspace indices work
    using run_programs_spec [of g "[]" 0 "st_programs g" sources input no_prefix] c that
    by (fastforce simp: match_set_def split: if_splits)
  moreover have "\<exists>indices work. match_set g (Some input) limit workspace = Inr (indices, work)"
    if "length sources \<le> workspace" "set_bound (length input) sources \<le> unat limit" for input limit workspace
    using run_programs_returns [of g "[]" 0 "st_programs g" sources input limit 0] c that by (simp add: match_set_def spare_def)
  ultimately show ?thesis using g by blast
qed

text \<open>The patterns \<open>ab*\<close>, \<open>abd\<close> and \<open>ab?\<close>, the last two with a shared leading run.\<close>

lemma set_reports_each_match_witness:
  "\<exists>g indices work. compile_set [[97, 98, 42], [97, 98, 100], [97, 98, 63]] TextMode = Inr g \<and>
    match_set g (Some [97, 98, 99]) 100000 3 = Inr (indices, work) \<and> indices = [0, 2]"
proof -
  let ?s = "[[97, 98, 42], [97, 98, 100], [97, 98, 63]] :: scalar list list"
  have p: "parse_glob TextMode (0, [97, 98, 42]) True [] [] = Inr ([GLiteral 97, GLiteral 98, GStar], [])"
    "parse_glob TextMode (0, [97, 98, 100]) True [] [] = Inr ([GLiteral 97, GLiteral 98, GLiteral 100], [])"
    "parse_glob TextMode (0, [97, 98, 63]) True [] [] = Inr ([GLiteral 97, GLiteral 98, GAny], [])" by (simp_all add: parse_eval)
  have "\<forall>source\<in>set ?s. scalars source" "\<forall>source\<in>set ?s. \<exists>r. parse_glob TextMode (0, source) True [] [] = Inr r"
    using p by (simp_all add: scalars_def)
  from set_reports_each_match [OF this] obtain g where g: "compile_set ?s TextMode = Inr g"
    "\<And>input limit workspace indices work. match_set g (Some input) limit workspace = Inr (indices, work) \<Longrightarrow>
      indices = filter (\<lambda>i. pattern_matches TextMode (?s ! i) input) [0..<length ?s]"
    "\<And>input limit workspace. length ?s \<le> workspace \<Longrightarrow> set_bound (length input) ?s \<le> unat limit \<Longrightarrow>
      \<exists>indices work. match_set g (Some input) limit workspace = Inr (indices, work)" by blast
  have "\<exists>indices work. match_set g (Some [97, 98, 99]) 100000 3 = Inr (indices, work)"
    by (rule g(3)) (simp_all add: set_bound_def work_bound_def power2_eq_square)
  then obtain indices work where r: "match_set g (Some [97, 98, 99]) 100000 3 = Inr (indices, work)" by blast
  have "filter (\<lambda>i. pattern_matches TextMode (?s ! i) [97, 98, 99]) [0..<length ?s] = [0, 2]"
    using p by (simp add: pattern_matches_def lang_eval upt_rec)
  then show ?thesis using g(1) r g(2) [OF r] by auto
qed

end
