(* ===== verification/TermTable.thy ===== *)
theory TermTable
  imports IriParse DictTerm
begin

text \<open>
  The term interner of the dataset builder (\<open>crates/rdf-core/src/ir/builder.rs\<close>, \<open>ir/term.rs\<close>,
  \<open>ir/absolute.rs\<close>) and the frozen term table (\<open>ir/frozen_terms.rs\<close>): one arena owns every string
  once, a term holds ranges into it, and equal values have one id. The value index is a search of the
  table by the same equality. A term id is its stored word, one more than its index.
\<close>

section \<open>Capacity\<close>

datatype capacity_space = TermSpace | TermByteSpace | QuadSpace | ReifierSpace | AnnotationSpace

datatype capacity_error = CapacityRefused capacity_space nat nat

definition space_limit :: nat where "space_limit = 2 ^ 32 - 1"

definition capacity_required :: "capacity_space \<Rightarrow> nat \<Rightarrow> nat \<Rightarrow> capacity_error + nat" where
  "capacity_required space len additional =
     (let requested = len + additional in if space_limit < requested then Inl (CapacityRefused space requested space_limit) else Inr requested)"

section \<open>Interned terms\<close>

definition tid_index :: "u32 \<Rightarrow> u32" where "tid_index t = t - 1"

definition tid_of_index :: "nat \<Rightarrow> u32" where "tid_of_index i = of_nat i + 1"

datatype interned_term =
    InternedIri str_range
  | InternedBlank str_range u32
  | InternedLiteral str_range u32 "str_range option" "text_direction option"
  | InternedTriple u32 u32 u32

datatype lookup_key =
    LookIri bytes
  | LookBlank bytes u32
  | LookLiteral bytes u32 "bytes option" "text_direction option"
  | LookTriple u32 u32 u32

fun term_eq :: "bytes \<Rightarrow> interned_term \<Rightarrow> lookup_key \<Rightarrow> bool" where
  "term_eq arena (InternedIri r) (LookIri s) \<longleftrightarrow> arena_str arena r = s"
| "term_eq arena (InternedBlank label scope) (LookBlank ls ss) \<longleftrightarrow> scope = ss \<and> arena_str arena label = ls"
| "term_eq arena (InternedLiteral lexical_form dt lang dir) (LookLiteral lexical datatype language direction) \<longleftrightarrow>
     dt = datatype \<and> dir = direction \<and> arena_str arena lexical_form = lexical \<and>
     (case (lang, language) of (Some tag, Some language) \<Rightarrow> arena_str arena tag = language | (None, None) \<Rightarrow> True | _ \<Rightarrow> False)"
| "term_eq arena (InternedTriple s p ob) (LookTriple ls lp lo) \<longleftrightarrow> s = ls \<and> p = lp \<and> ob = lo"
| "term_eq arena _ _ \<longleftrightarrow> False"

section \<open>The interner\<close>

record interner =
  in_arena :: bytes
  in_terms :: "interned_term list"
  in_relative_iri :: "(bytes \<times> iri_error) option"

definition new_interner :: interner where
  "new_interner = \<lparr>in_arena = [], in_terms = [], in_relative_iri = None\<rparr>"

definition check_absolute_iri :: "bytes \<Rightarrow> iri_error + unit" where
  "check_absolute_iri iri = (if iri = [] then Inl (NoBase [])
     else and_then (is_absolute iri) (\<lambda>absolute. if absolute then Inr () else Inl (NoBase iri)))"

definition push_arena_str :: "bytes \<Rightarrow> bytes \<Rightarrow> str_range \<times> bytes" where
  "push_arena_str arena s = ((length arena, length s), arena @ s)"

definition lookup_text_bytes :: "lookup_key \<Rightarrow> nat" where
  "lookup_text_bytes l = (case l of
     LookIri text \<Rightarrow> length text
   | LookBlank label scope \<Rightarrow> length label
   | LookLiteral lexical datatype language direction \<Rightarrow> length lexical + (case language of None \<Rightarrow> 0 | Some lang \<Rightarrow> length lang)
   | LookTriple s p ob \<Rightarrow> 0)"

text \<open>The term of a miss and the arena after it.\<close>

definition store_strings :: "bytes \<Rightarrow> lookup_key \<Rightarrow> interned_term \<times> bytes" where
  "store_strings arena l = (case l of
     LookIri iri \<Rightarrow> (let (r, arena) = push_arena_str arena iri in (InternedIri r, arena))
   | LookBlank label scope \<Rightarrow> (let (r, arena) = push_arena_str arena label in (InternedBlank r scope, arena))
   | LookLiteral lexical datatype language direction \<Rightarrow>
       (let (lexical_form, arena) = push_arena_str arena lexical in
        case language of
          None \<Rightarrow> (InternedLiteral lexical_form datatype None direction, arena)
        | Some lang \<Rightarrow> (let (r, arena) = push_arena_str arena lang in (InternedLiteral lexical_form datatype (Some r) direction, arena)))
   | LookTriple s p ob \<Rightarrow> (InternedTriple s p ob, arena))"

text \<open>The first IRI that is not absolute, recorded on the path of a miss only.\<close>

definition note_relative :: "(bytes \<times> iri_error) option \<Rightarrow> lookup_key \<Rightarrow> (bytes \<times> iri_error) option" where
  "note_relative pending l = (case l of
     LookIri iri \<Rightarrow> if pending = None then (case check_absolute_iri iri of Inl e \<Rightarrow> Some (iri, e) | Inr _ \<Rightarrow> None) else pending
   | _ \<Rightarrow> pending)"

definition lookup_hashed :: "interner \<Rightarrow> lookup_key \<Rightarrow> u32 option" where
  "lookup_hashed it l = map_option tid_of_index (position (\<lambda>t. term_eq (in_arena it) t l) (in_terms it))"

definition intern :: "lookup_key \<Rightarrow> interner \<Rightarrow> capacity_error + u32 \<times> interner" where
  "intern l it = (case lookup_hashed it l of
     Some t \<Rightarrow> Inr (t, it)
   | None \<Rightarrow>
       and_then (capacity_required TermSpace (length (in_terms it)) 1) (\<lambda>_.
       and_then (capacity_required TermByteSpace (length (in_arena it)) (lookup_text_bytes l)) (\<lambda>_.
       let relative = note_relative (in_relative_iri it) l;
           (stored, arena) = store_strings (in_arena it) l
       in Inr (tid_of_index (length (in_terms it)), \<lparr>in_arena = arena, in_terms = in_terms it @ [stored], in_relative_iri = relative\<rparr>))))"

definition ensure_reifies :: "u32 option \<Rightarrow> interner \<Rightarrow> capacity_error + u32 option \<times> interner" where
  "ensure_reifies predicate it =
     (if predicate = None then and_then (intern (LookIri RDF_REIFIES) it) (\<lambda>(t, it). Inr (Some t, it)) else Inr (predicate, it))"

section \<open>The frozen table\<close>

definition term_at :: "interned_term list \<Rightarrow> u32 \<Rightarrow> interned_term option" where
  "term_at terms t = (let i = unat (tid_index t) in if i < length terms then Some (terms ! i) else None)"

definition iri_matches :: "bytes \<Rightarrow> bytes \<Rightarrow> interned_term \<Rightarrow> bool" where
  "iri_matches arena expected t = (case t of InternedIri r \<Rightarrow> arena_str arena r = expected | _ \<Rightarrow> False)"

definition frozen_id_by_iri :: "bytes \<Rightarrow> interned_term list \<Rightarrow> bytes \<Rightarrow> u32 option" where
  "frozen_id_by_iri arena terms iri = map_option tid_of_index (position (iri_matches arena iri) terms)"

definition resolve_interned :: "bytes \<Rightarrow> interned_term \<Rightarrow> lookup_key" where
  "resolve_interned arena t = (case t of
     InternedIri r \<Rightarrow> LookIri (arena_str arena r)
   | InternedBlank label scope \<Rightarrow> LookBlank (arena_str arena label) scope
   | InternedLiteral lexical datatype language direction \<Rightarrow>
       LookLiteral (arena_str arena lexical) datatype (map_option (arena_str arena) language) direction
   | InternedTriple s p ob \<Rightarrow> LookTriple s p ob)"

text \<open>The components of a triple term; any other term, and an id that is not of the table, panics.\<close>

definition triple_components :: "interned_term list \<Rightarrow> u32 \<Rightarrow> (u32 \<times> u32 \<times> u32) option" where
  "triple_components terms target = (case term_at terms target of Some (InternedTriple s p ob) \<Rightarrow> Some (s, p, ob) | _ \<Rightarrow> None)"

section \<open>What the interner keeps\<close>

text \<open>Ranges lie in the arena, no value is stored twice, and a violation is recorded unless every IRI is absolute.\<close>

fun ranges :: "interned_term \<Rightarrow> str_range list" where
  "ranges (InternedIri r) = [r]"
| "ranges (InternedBlank r scope) = [r]"
| "ranges (InternedLiteral r datatype language direction) = r # (case language of None \<Rightarrow> [] | Some r \<Rightarrow> [r])"
| "ranges (InternedTriple s p ob) = []"

definition interner_ok :: "interner \<Rightarrow> bool" where
  "interner_ok it \<longleftrightarrow> (\<forall>t\<in>set (in_terms it). \<forall>(i, n)\<in>set (ranges t). i + n \<le> length (in_arena it)) \<and>
     distinct (map (resolve_interned (in_arena it)) (in_terms it)) \<and>
     length (in_terms it) \<le> space_limit \<and> length (in_arena it) \<le> space_limit \<and>
     (in_relative_iri it = None \<longleftrightarrow> (\<forall>iri. LookIri iri \<in> resolve_interned (in_arena it) ` set (in_terms it) \<longrightarrow> iri \<noteq> [] \<and> is_absolute iri = Inr True))"

lemma term_eq_resolve: "term_eq arena t l \<longleftrightarrow> resolve_interned arena t = l"
  by (cases "(arena, t, l)" rule: term_eq.cases) (auto simp: resolve_interned_def split: option.splits)

lemma iri_matches_resolve: "iri_matches arena iri t \<longleftrightarrow> resolve_interned arena t = LookIri iri"
  by (cases t) (auto simp: iri_matches_def resolve_interned_def)

lemma arena_str_append: "i + n \<le> length arena \<Longrightarrow> arena_str (arena @ s) (i, n) = arena_str arena (i, n)"
  by (simp add: arena_str_def slice_range_def)

lemma resolve_append: "\<forall>(i, n)\<in>set (ranges t). i + n \<le> length arena \<Longrightarrow> resolve_interned (arena @ s) t = resolve_interned arena t"
proof (cases t)
  case (InternedLiteral r dt language direction)
  then show "\<forall>(i, n)\<in>set (ranges t). i + n \<le> length arena \<Longrightarrow> resolve_interned (arena @ s) t = resolve_interned arena t"
    by (cases language) (auto simp: resolve_interned_def arena_str_append)
qed (auto simp: resolve_interned_def arena_str_append)

lemma arena_str_new: "arena_str (arena @ s @ rest) (length arena, length s) = s"
  by (simp add: arena_str_def slice_range_def)

lemma arena_str_last: "arena_str (arena @ s) (length arena, length s) = s"
  using arena_str_new [of arena s "[]"] by simp

lemma store_strings_resolve:
  assumes "store_strings arena l = (t, arena')"
  shows "\<exists>s. arena' = arena @ s \<and> length s = lookup_text_bytes l \<and> resolve_interned arena' t = l \<and> (\<forall>(i, n)\<in>set (ranges t). i + n \<le> length arena')"
proof (cases l)
  case (LookLiteral lexical dt language direction)
  then show ?thesis using assms arena_str_new [of arena lexical] arena_str_last [of "arena @ lexical"] arena_str_last [of arena lexical]
    by (cases language) (auto simp: store_strings_def push_arena_str_def lookup_text_bytes_def resolve_interned_def)
next
  case (LookTriple s p ob)
  then show ?thesis using assms by (auto simp: store_strings_def lookup_text_bytes_def resolve_interned_def)
next
  case (LookBlank label scope)
  then show ?thesis using assms arena_str_last by (auto simp: store_strings_def push_arena_str_def lookup_text_bytes_def resolve_interned_def)
next
  case (LookIri iri)
  then show ?thesis using assms arena_str_last by (auto simp: store_strings_def push_arena_str_def lookup_text_bytes_def resolve_interned_def)
qed

lemma tid_round [simp]: "i < space_limit \<Longrightarrow> unat (tid_index (tid_of_index i)) = i"
  by (simp add: tid_index_def tid_of_index_def space_limit_def unsigned_of_nat take_bit_nat_eq_self)

lemma tid_of_unat [simp]: "tid_of_index (unat (tid_index t)) = t"
  by (simp add: tid_index_def tid_of_index_def)

lemma tid_of_index_nonzero: "i < space_limit \<Longrightarrow> tid_of_index i \<noteq> 0"
proof
  assume "i < space_limit" "tid_of_index i = 0"
  then have "i = unat (- 1 :: u32)" using tid_round [of i] by (simp add: tid_index_def)
  moreover have "unat (- 1 :: u32) = 2 ^ 32 - 1" by (simp add: unsigned_minus_1_eq_mask mask_eq_exp_minus_1)
  ultimately show False using \<open>i < space_limit\<close> by (simp only: space_limit_def)
qed

text \<open>The abstract table: the values in the order of their ids.\<close>

definition terms_of :: "interner \<Rightarrow> lookup_key list" where
  "terms_of it = map (resolve_interned (in_arena it)) (in_terms it)"

lemma length_terms_of: "length (terms_of it) = length (in_terms it)"
  by (simp add: terms_of_def)

lemma lookup_position: "lookup_hashed it l = map_option tid_of_index (position (\<lambda>v. v = l) (terms_of it))"
  by (simp add: lookup_hashed_def terms_of_def position_map term_eq_resolve)

lemma position_distinct: "distinct xs \<Longrightarrow> i < length xs \<Longrightarrow> position (\<lambda>x. x = xs ! i) xs = Some i"
  by (auto simp: position_eq_Some nth_eq_iff_index_eq)

lemma check_absolute_iri_ok: "check_absolute_iri iri = Inr () \<longleftrightarrow> iri \<noteq> [] \<and> is_absolute iri = Inr True"
  by (auto simp: check_absolute_iri_def and_then_eq_Inr split: if_splits)

lemma note_relative_None: "note_relative pending l = None \<longleftrightarrow> pending = None \<and> (\<forall>iri. l = LookIri iri \<longrightarrow> check_absolute_iri iri = Inr ())"
  by (cases l) (auto simp: note_relative_def split: sum.splits)

lemma intern_miss:
  assumes "lookup_hashed it l = None" "intern l it = Inr (t, it')"
  obtains stored s where "in_arena it' = in_arena it @ s" "in_terms it' = in_terms it @ [stored]" "resolve_interned (in_arena it') stored = l"
    "\<forall>(i, n)\<in>set (ranges stored). i + n \<le> length (in_arena it')" "t = tid_of_index (length (in_terms it))"
    "in_relative_iri it' = note_relative (in_relative_iri it) l" "length (in_terms it) < space_limit" "length (in_arena it') \<le> space_limit"
proof -
  obtain stored arena where st: "store_strings (in_arena it) l = (stored, arena)" by fastforce
  obtain s where s: "arena = in_arena it @ s" "length s = lookup_text_bytes l" "resolve_interned arena stored = l" "\<forall>(i, n)\<in>set (ranges stored). i + n \<le> length arena"
    using store_strings_resolve [OF st] by blast
  have "t = tid_of_index (length (in_terms it))" "it' = \<lparr>in_arena = arena, in_terms = in_terms it @ [stored], in_relative_iri = note_relative (in_relative_iri it) l\<rparr>"
    "length (in_terms it) < space_limit" "length arena \<le> space_limit"
    using assms s(1,2) by (auto simp: intern_def st and_then_eq_Inr capacity_required_def Let_def split: if_splits)
  then show thesis using s by (intro that [of s stored]) simp_all
qed

text \<open>Interning refines the store-once table.\<close>

lemma intern_refines:
  assumes "interner_ok it" "intern l it = Inr (t, it')"
  shows "interner_ok it'" "terms_of it' = (if l \<in> set (terms_of it) then terms_of it else terms_of it @ [l])"
    "unat (tid_index t) < length (terms_of it')" "terms_of it' ! unat (tid_index t) = l" "t \<noteq> 0"
proof -
  have "interner_ok it' \<and> terms_of it' = (if l \<in> set (terms_of it) then terms_of it else terms_of it @ [l]) \<and>
    (\<exists>i. t = tid_of_index i \<and> i < space_limit \<and> i < length (terms_of it') \<and> terms_of it' ! i = l)"
  proof (cases "lookup_hashed it l")
    case (Some u)
    then obtain i where i: "position (\<lambda>v. v = l) (terms_of it) = Some i" "u = tid_of_index i" by (auto simp: lookup_position)
    have eq: "it' = it" "t = u" using assms(2) Some by (auto simp: intern_def)
    have hit: "i < length (terms_of it)" "terms_of it ! i = l" using i(1) by (auto simp: position_eq_Some)
    then have "i < space_limit" "l \<in> set (terms_of it)" using assms(1) by (auto simp: interner_ok_def length_terms_of)
    then show ?thesis using eq i(2) hit assms(1) by auto
  next
    case None
    obtain stored s where m: "in_arena it' = in_arena it @ s" "in_terms it' = in_terms it @ [stored]" "resolve_interned (in_arena it') stored = l"
      "\<forall>(i, n)\<in>set (ranges stored). i + n \<le> length (in_arena it')" "t = tid_of_index (length (in_terms it))"
      "in_relative_iri it' = note_relative (in_relative_iri it) l" "length (in_terms it) < space_limit" "length (in_arena it') \<le> space_limit"
      by (rule intern_miss [OF None assms(2)])
    have new: "l \<notin> set (terms_of it)" using None by (auto simp: lookup_position position_eq_None)
    have keep: "resolve_interned (in_arena it') u = resolve_interned (in_arena it) u" if "u \<in> set (in_terms it)" for u
      unfolding m(1) using that assms(1) by (intro resolve_append) (auto simp: interner_ok_def)
    then have terms: "terms_of it' = terms_of it @ [l]" using m(3) by (simp add: terms_of_def m(2))
    have d: "distinct (terms_of it')" unfolding terms using assms(1) new by (simp add: interner_ok_def terms_of_def)
    have "\<forall>u\<in>set (in_terms it'). \<forall>(i, n)\<in>set (ranges u). i + n \<le> length (in_arena it')"
      using assms(1) m(1,2,4) by (fastforce simp: interner_ok_def)
    moreover have "in_relative_iri it' = None \<longleftrightarrow> (\<forall>iri. LookIri iri \<in> set (terms_of it') \<longrightarrow> iri \<noteq> [] \<and> is_absolute iri = Inr True)"
      using assms(1) unfolding m(6) note_relative_None terms by (auto simp: interner_ok_def terms_of_def check_absolute_iri_ok)
    moreover have "length (in_terms it') \<le> space_limit" using m(2,7) by simp
    ultimately have "interner_ok it'" using d [unfolded terms_of_def] m(8) unfolding interner_ok_def terms_of_def set_map by blast
    then show ?thesis using m(5,7) new terms by (auto simp: length_terms_of nth_append intro!: exI [of _ "length (in_terms it)"])
  qed
  then show "interner_ok it'" "terms_of it' = (if l \<in> set (terms_of it) then terms_of it else terms_of it @ [l])"
    "unat (tid_index t) < length (terms_of it')" "terms_of it' ! unat (tid_index t) = l" "t \<noteq> 0"
    by (blast, blast, metis tid_round, metis tid_round, metis tid_of_index_nonzero)
qed

text \<open>An interned value keeps its id.\<close>

lemma position_of_id: "interner_ok it \<Longrightarrow> unat (tid_index t) < length (terms_of it) \<Longrightarrow>
    position (\<lambda>v. v = terms_of it ! unat (tid_index t)) (terms_of it) = Some (unat (tid_index t))"
  by (rule position_distinct) (simp_all add: interner_ok_def terms_of_def)

lemma intern_again:
  assumes "interner_ok it" "intern l it = Inr (t, it')" "interner_ok it''" "terms_of it'' = terms_of it' @ ls"
  shows "intern l it'' = Inr (t, it'')"
proof -
  note t = intern_refines(3,4) [OF assms(1,2)]
  have "unat (tid_index t) < length (terms_of it'')" "terms_of it'' ! unat (tid_index t) = l"
    using t by (simp_all add: assms(4) nth_append)
  then show ?thesis using position_of_id [OF assms(3)] by (auto simp: intern_def lookup_position)
qed

lemma new_interner_ok: "interner_ok new_interner"
  by (simp add: new_interner_def interner_ok_def)

lemma ensure_reifies_refines:
  assumes "interner_ok it" "ensure_reifies predicate it = Inr (predicate', it')"
    "\<forall>t. predicate = Some t \<longrightarrow> unat (tid_index t) < length (terms_of it) \<and> terms_of it ! unat (tid_index t) = LookIri RDF_REIFIES"
  shows "interner_ok it'" "\<exists>ls. terms_of it' = terms_of it @ ls"
    "\<exists>t. predicate' = Some t \<and> unat (tid_index t) < length (terms_of it') \<and> terms_of it' ! unat (tid_index t) = LookIri RDF_REIFIES"
  using assms intern_refines [OF assms(1), of "LookIri RDF_REIFIES"]
  by (auto simp: ensure_reifies_def and_then_eq_Inr split: if_splits)

lemma frozen_id_by_iri_position: "frozen_id_by_iri (in_arena it) (in_terms it) iri = map_option tid_of_index (position (\<lambda>v. v = LookIri iri) (terms_of it))"
  unfolding frozen_id_by_iri_def terms_of_def position_map iri_matches_resolve [abs_def] ..

end
