(* ===== verification/QuadTable.thy ===== *)
theory QuadTable
  imports TermTable
begin

text \<open>
  The resident dataset of \<open>crates/rdf-core/src/ir\<close>: the ingress of terms and rows of \<open>builder.rs\<close> with the
  literal rules of \<open>model.rs\<close>, the rows stored once and sorted at freeze, and the reads of \<open>dataset.rs\<close> and \<open>triple.rs\<close> over the frozen tables: six quad orders with their
  probe plan, the residual filter over eight rows at a time, the owned cursor, and the ordinal orders of
  the statement tables. A term id is its stored nonzero word. Source locations and the lazy publication
  of an order (a cache of the same value) have no counterpart.
\<close>

section \<open>Rows\<close>

record quad_row =
  qr_s :: u32
  qr_p :: u32
  qr_o :: u32
  qr_g :: "u32 option"

type_synonym reif_row = "u32 \<times> u32 \<times> u32 option"
type_synonym annot_row = "u32 \<times> u32 \<times> u32 \<times> u32 option"

datatype quad_graph = AnyG | DefaultG | NamedG u32

definition graph_matches :: "quad_graph \<Rightarrow> u32 option \<Rightarrow> bool" where
  "graph_matches m graph = (case m of AnyG \<Rightarrow> True | DefaultG \<Rightarrow> graph = None | NamedG i \<Rightarrow> graph = Some i)"

text \<open>The derived order of \<open>QuadRow\<close>.\<close>

definition quad_row_cmp :: "quad_row \<Rightarrow> quad_row \<Rightarrow> ordering" where
  "quad_row_cmp a b = cmp (qr_s a, qr_p a, qr_o a, qr_g a) (qr_s b, qr_p b, qr_o b, qr_g b)"

section \<open>Sorting and bisection of the standard library\<close>

text \<open>An order that distinguishes all rows leaves an unstable sort one result.\<close>

fun insert_by :: "('a \<Rightarrow> 'a \<Rightarrow> ordering) \<Rightarrow> 'a \<Rightarrow> 'a list \<Rightarrow> 'a list" where
  "insert_by compare x [] = [x]"
| "insert_by compare x (y # ys) = (if compare x y = Greater then y # insert_by compare x ys else x # y # ys)"

definition sort_by :: "('a \<Rightarrow> 'a \<Rightarrow> ordering) \<Rightarrow> 'a list \<Rightarrow> 'a list" where
  "sort_by compare xs = foldr (insert_by compare) xs []"

function partition_loop :: "('a \<Rightarrow> bool) \<Rightarrow> 'a list \<Rightarrow> nat \<Rightarrow> nat \<Rightarrow> nat" where
  "partition_loop P xs lo hi =
     (if lo < hi then
        (let mid = lo + (hi - lo) div 2 in if P (xs ! mid) then partition_loop P xs (mid + 1) hi else partition_loop P xs lo mid)
      else lo)"
  by auto
termination by (relation "measure (\<lambda>(_, _, lo, hi). hi - lo)") auto

declare partition_loop.simps [simp del]

definition partition_point :: "('a \<Rightarrow> bool) \<Rightarrow> 'a list \<Rightarrow> nat" where
  "partition_point P xs = partition_loop P xs 0 (length xs)"

section \<open>The builder and the freeze\<close>

text \<open>The index of the row, existing or new, and the table after it. A new row is kept only if its
  dependency succeeds.\<close>

definition store_once_with :: "capacity_space \<Rightarrow> 'a list \<Rightarrow> 'a \<Rightarrow> ('s \<Rightarrow> capacity_error + 's) \<Rightarrow> 's \<Rightarrow> capacity_error + nat \<times> 'a list \<times> 's" where
  "store_once_with space rows row dependency s = (case position (\<lambda>r. r = row) rows of
     Some i \<Rightarrow> Inr (i, rows, s)
   | None \<Rightarrow>
       and_then (capacity_required space (length rows) 1) (\<lambda>_.
       and_then (dependency s) (\<lambda>s. Inr (length rows, rows @ [row], s))))"

definition store_once :: "capacity_space \<Rightarrow> 'a list \<Rightarrow> 'a \<Rightarrow> capacity_error + nat \<times> 'a list" where
  "store_once space rows row = and_then (store_once_with space rows row (\<lambda>s. Inr s) ()) (\<lambda>(i, rows, _). Inr (i, rows))"

text \<open>The rules for the components of a literal; the grammar of language tags is a parameter.\<close>

datatype literal_error = LanguageTagRefused | DatatypeMismatch | DirectionWithoutLanguage | LanguageDatatypeWithoutLanguage

definition XSD_STRING :: bytes where
  "XSD_STRING = map (\<lambda>c. of_nat (of_char c)) ''http://www.w3.org/2001/XMLSchema#string''"

definition RDF_LANG_STRING :: bytes where
  "RDF_LANG_STRING = map (\<lambda>c. of_nat (of_char c)) ''http://www.w3.org/1999/02/22-rdf-syntax-ns#langString''"

definition RDF_DIR_LANG_STRING :: bytes where
  "RDF_DIR_LANG_STRING = map (\<lambda>c. of_nat (of_char c)) ''http://www.w3.org/1999/02/22-rdf-syntax-ns#dirLangString''"

definition language_datatype_iri :: "bool \<Rightarrow> bytes" where
  "language_datatype_iri has_direction = (if has_direction then RDF_DIR_LANG_STRING else RDF_LANG_STRING)"

definition datatype_iri_from_parts :: "bytes option \<Rightarrow> bytes option \<Rightarrow> text_direction option \<Rightarrow> bytes" where
  "datatype_iri_from_parts dt language direction = (case (language, dt) of
     (Some _, _) \<Rightarrow> language_datatype_iri (direction \<noteq> None)
   | (None, Some dt) \<Rightarrow> dt
   | (None, None) \<Rightarrow> XSD_STRING)"

definition diagnose_components :: "(bytes \<Rightarrow> bool) \<Rightarrow> bytes \<Rightarrow> bytes option \<Rightarrow> text_direction option \<Rightarrow> literal_error option" where
  "diagnose_components tag_ok dt language direction = (case language of
     Some lang \<Rightarrow>
       if \<not> tag_ok lang then Some LanguageTagRefused
       else if dt \<noteq> language_datatype_iri (direction \<noteq> None) then Some DatatypeMismatch else None
   | None \<Rightarrow>
       if direction \<noteq> None then Some DirectionWithoutLanguage
       else if dt = RDF_LANG_STRING \<or> dt = RDF_DIR_LANG_STRING then Some LanguageDatatypeWithoutLanguage else None)"

record dataset_builder =
  db_interner :: interner
  db_quads :: "quad_row list"
  db_reifiers :: "reif_row list"
  db_annotations :: "annot_row list"
  db_declared :: "u32 list"
  db_reifies :: "u32 option"
  db_invalid_literal :: "literal_error option"

definition new_builder :: dataset_builder where
  "new_builder = \<lparr>db_interner = new_interner, db_quads = [], db_reifiers = [], db_annotations = [], db_declared = [], db_reifies = None, db_invalid_literal = None\<rparr>"

definition intern_term :: "lookup_key \<Rightarrow> dataset_builder \<Rightarrow> capacity_error + u32 \<times> dataset_builder" where
  "intern_term l b = map_sum id (\<lambda>(t, it). (t, b\<lparr>db_interner := it\<rparr>)) (intern l (db_interner b))"

definition intern_iri :: "bytes \<Rightarrow> dataset_builder \<Rightarrow> capacity_error + u32 \<times> dataset_builder" where
  "intern_iri iri = intern_term (LookIri iri)"

definition intern_blank :: "bytes \<Rightarrow> u32 \<Rightarrow> dataset_builder \<Rightarrow> capacity_error + u32 \<times> dataset_builder" where
  "intern_blank label scope = intern_term (LookBlank label scope)"

definition intern_triple :: "u32 \<Rightarrow> u32 \<Rightarrow> u32 \<Rightarrow> dataset_builder \<Rightarrow> capacity_error + u32 \<times> dataset_builder" where
  "intern_triple s p ob = intern_term (LookTriple s p ob)"

fun intern_blanks :: "(bytes \<times> u32) list \<Rightarrow> dataset_builder \<Rightarrow> capacity_error + dataset_builder" where
  "intern_blanks [] b = Inr b"
| "intern_blanks ((label, scope) # blanks) b = and_then (intern_blank label scope b) (\<lambda>(_, b). intern_blanks blanks b)"

text \<open>A literal: its datatype is interned first, then on a miss the blank nodes its text embeds (of a
  composite literal, a parameter), then the literal. The first violation is remembered.\<close>

definition intern_literal_parts :: "(bytes \<Rightarrow> bool) \<Rightarrow> (bytes \<Rightarrow> bytes \<Rightarrow> (bytes \<times> u32) list) \<Rightarrow> bytes \<Rightarrow> bytes option \<Rightarrow> bytes option \<Rightarrow>
    text_direction option \<Rightarrow> dataset_builder \<Rightarrow> capacity_error + u32 \<times> dataset_builder" where
  "intern_literal_parts tag_ok embedded lexical dt language direction b =
     (let datatype_iri = datatype_iri_from_parts dt language direction;
          invalid = (case db_invalid_literal b of Some e \<Rightarrow> Some e | None \<Rightarrow> diagnose_components tag_ok datatype_iri language direction)
      in and_then (intern_iri datatype_iri b) (\<lambda>(datatype_id, b).
      let l = LookLiteral lexical datatype_id (map_option (map to_ascii_lowercase) language) direction
      in case lookup_hashed (db_interner b) l of
        Some t \<Rightarrow> Inr (t, b)
      | None \<Rightarrow>
          and_then (intern_blanks (embedded lexical datatype_iri) b) (\<lambda>b.
          and_then (intern_term l b) (\<lambda>(t, b). Inr (t, b\<lparr>db_invalid_literal := invalid\<rparr>)))))"

definition push_quad_with_handle :: "quad_row \<Rightarrow> dataset_builder \<Rightarrow> capacity_error + nat \<times> dataset_builder" where
  "push_quad_with_handle row b = map_sum id (\<lambda>(i, rows). (i, b\<lparr>db_quads := rows\<rparr>)) (store_once QuadSpace (db_quads b) row)"

text \<open>The first reifier row interns \<open>rdf:reifies\<close>; a refusal there takes the row back.\<close>

definition push_reifier_in_graph :: "reif_row \<Rightarrow> dataset_builder \<Rightarrow> capacity_error + dataset_builder" where
  "push_reifier_in_graph row b = map_sum id (\<lambda>(_, rows, reifies, it). b\<lparr>db_reifiers := rows, db_reifies := reifies, db_interner := it\<rparr>)
     (store_once_with ReifierSpace (db_reifiers b) row (\<lambda>(reifies, it). ensure_reifies reifies it) (db_reifies b, db_interner b))"

definition push_annotation_in_graph :: "annot_row \<Rightarrow> dataset_builder \<Rightarrow> capacity_error + dataset_builder" where
  "push_annotation_in_graph row b = map_sum id (\<lambda>(_, rows). b\<lparr>db_annotations := rows\<rparr>) (store_once AnnotationSpace (db_annotations b) row)"

text \<open>Whether a declaration is skipped depends on the spare capacity of the vector.\<close>

definition declare_named_graph :: "bool \<Rightarrow> u32 \<Rightarrow> dataset_builder \<Rightarrow> dataset_builder" where
  "declare_named_graph at_capacity g b = (if at_capacity \<and> g \<in> set (db_declared b) then b else b\<lparr>db_declared := db_declared b @ [g]\<rparr>)"

record frozen_dataset =
  fd_quads :: "quad_row list"
  fd_reifiers :: "reif_row list"
  fd_annotations :: "annot_row list"
  fd_named_graphs :: "u32 list"
  fd_arena :: bytes
  fd_terms :: "interned_term list"

definition materialize :: "dataset_builder \<Rightarrow> frozen_dataset" where
  "materialize b =
     (let quads = sort_by quad_row_cmp (db_quads b);
          reifiers = sort_by cmp (db_reifiers b);
          annotations = sort_by cmp (db_annotations b);
          graphs = db_declared b @ List.map_filter qr_g quads @ List.map_filter (\<lambda>(_, _, g). g) reifiers
            @ List.map_filter (\<lambda>(_, _, _, g). g) annotations
      in \<lparr>fd_quads = quads, fd_reifiers = reifiers, fd_annotations = annotations,
          fd_named_graphs = remdups_adj (sort_by cmp graphs), fd_arena = in_arena (db_interner b), fd_terms = in_terms (db_interner b)\<rparr>)"

definition rdf_reifies_id :: "frozen_dataset \<Rightarrow> u32 option" where
  "rdf_reifies_id d = frozen_id_by_iri (fd_arena d) (fd_terms d) RDF_REIFIES"

section \<open>The six quad orders\<close>

datatype axis = AxisS | AxisP | AxisO | AxisG

definition axis_key :: "axis \<Rightarrow> quad_row \<Rightarrow> u32" where
  "axis_key a q = (case a of
     AxisS \<Rightarrow> tid_index (qr_s q)
   | AxisP \<Rightarrow> tid_index (qr_p q)
   | AxisO \<Rightarrow> tid_index (qr_o q)
   | AxisG \<Rightarrow> (case qr_g q of None \<Rightarrow> 0 | Some t \<Rightarrow> tid_index t + 1))"

fun compare_quads :: "axis list \<Rightarrow> quad_row \<Rightarrow> quad_row \<Rightarrow> ordering" where
  "compare_quads [] a b = Equal"
| "compare_quads (x # axes) a b = (case cmp (axis_key x a) (axis_key x b) of Equal \<Rightarrow> compare_quads axes a b | ord \<Rightarrow> ord)"

fun compare_prefix :: "axis list \<Rightarrow> quad_row \<Rightarrow> u32 list \<Rightarrow> nat \<Rightarrow> ordering" where
  "compare_prefix (x # axes) q (t # target) (Suc n) = (case cmp (axis_key x q) t of Equal \<Rightarrow> compare_prefix axes q target n | ord \<Rightarrow> ord)"
| "compare_prefix _ q _ _ = Equal"

datatype quad_permutation = Spog | Pos | Osp | Gspo | Gpos | Gosp

definition all_permutations :: "quad_permutation list" where
  "all_permutations = [Spog, Pos, Osp, Gspo, Gpos, Gosp]"

definition perm_axes :: "quad_permutation \<Rightarrow> axis list" where
  "perm_axes perm = (case perm of
     Spog \<Rightarrow> [AxisS, AxisP, AxisO, AxisG]
   | Pos \<Rightarrow> [AxisP, AxisO, AxisS, AxisG]
   | Osp \<Rightarrow> [AxisO, AxisS, AxisP, AxisG]
   | Gspo \<Rightarrow> [AxisG, AxisS, AxisP, AxisO]
   | Gpos \<Rightarrow> [AxisG, AxisP, AxisO, AxisS]
   | Gosp \<Rightarrow> [AxisG, AxisO, AxisS, AxisP])"

definition build_ordinals :: "('a \<Rightarrow> 'a \<Rightarrow> ordering) \<Rightarrow> 'a list \<Rightarrow> nat list" where
  "build_ordinals compare rows = sort_by (\<lambda>a b. compare (rows ! a) (rows ! b)) [0..<length rows]"

text \<open>The ordinals of a permutation; never asked for \<open>Spog\<close>.\<close>

definition permutation :: "quad_row list \<Rightarrow> quad_permutation \<Rightarrow> nat list" where
  "permutation quads perm = build_ordinals (compare_quads (perm_axes perm)) quads"

record probe_plan =
  pp_perm :: quad_permutation
  pp_prefix :: nat

definition make_plan :: "bool \<Rightarrow> bool \<Rightarrow> bool \<Rightarrow> quad_graph \<Rightarrow> probe_plan" where
  "make_plan s_bound p_bound o_bound g =
     (let axis_bound = (\<lambda>a. case a of AxisS \<Rightarrow> s_bound | AxisP \<Rightarrow> p_bound | AxisO \<Rightarrow> o_bound | AxisG \<Rightarrow> g \<noteq> AnyG)
      in foldl (\<lambda>best perm.
           let k = length (takeWhile axis_bound (perm_axes perm))
           in if pp_prefix best < k then \<lparr>pp_perm = perm, pp_prefix = k\<rparr> else best)
         \<lparr>pp_perm = Spog, pp_prefix = 0\<rparr> all_permutations)"

record quad_pattern =
  qp_s :: "u32 option"
  qp_p :: "u32 option"
  qp_o :: "u32 option"
  qp_g :: quad_graph

text \<open>The key of a bound axis; an axis that is not bound panics.\<close>

definition key_of :: "quad_pattern \<Rightarrow> axis \<Rightarrow> u32 option" where
  "key_of pat a = (case a of
     AxisS \<Rightarrow> map_option tid_index (qp_s pat)
   | AxisP \<Rightarrow> map_option tid_index (qp_p pat)
   | AxisO \<Rightarrow> map_option tid_index (qp_o pat)
   | AxisG \<Rightarrow> (case qp_g pat of DefaultG \<Rightarrow> Some 0 | NamedG t \<Rightarrow> Some (tid_index t + 1) | AnyG \<Rightarrow> None))"

definition candidate_run :: "frozen_dataset \<Rightarrow> probe_plan \<Rightarrow> quad_pattern \<Rightarrow> (quad_permutation \<times> nat \<times> nat) option" where
  "candidate_run d plan pat =
     (let axes = perm_axes (pp_perm plan); prefix = pp_prefix plan; quads = fd_quads d in do {
        target \<leftarrow> those (map (key_of pat) (take prefix axes));
        Some (if pp_perm plan = Spog then
            (Spog, partition_point (\<lambda>q. compare_prefix axes q target prefix = Less) quads,
              partition_point (\<lambda>q. compare_prefix axes q target prefix \<noteq> Greater) quads)
          else
            (let arr = permutation quads (pp_perm plan) in
              (pp_perm plan, partition_point (\<lambda>i. compare_prefix axes (quads ! i) target prefix = Less) arr,
                partition_point (\<lambda>i. compare_prefix axes (quads ! i) target prefix \<noteq> Greater) arr)))
      })"

datatype candidate_access = Sequential | Permuted quad_permutation

definition candidate_access_of :: "frozen_dataset \<Rightarrow> probe_plan \<Rightarrow> quad_pattern \<Rightarrow> (candidate_access \<times> nat \<times> nat) option" where
  "candidate_access_of d plan pat = map_option (\<lambda>(best, lo, hi).
     if best = Spog then (Sequential, lo, hi)
     else if length (fd_quads d) < (hi - lo) * 4 then (Sequential, 0, length (fd_quads d))
     else (Permuted best, lo, hi)) (candidate_run d plan pat)"

definition plan_of :: "quad_pattern \<Rightarrow> probe_plan" where
  "plan_of pat = make_plan (qp_s pat \<noteq> None) (qp_p pat \<noteq> None) (qp_o pat \<noteq> None) (qp_g pat)"

definition cardinality_estimate :: "frozen_dataset \<Rightarrow> quad_pattern \<Rightarrow> nat option" where
  "cardinality_estimate d pat = map_option (\<lambda>(_, lo, hi). hi - lo) (candidate_run d (plan_of pat) pat)"

section \<open>The residual filter\<close>

record quad_key =
  qk_key :: "u32 list"
  qk_mask :: "u32 list"

definition quad_key_of :: "quad_pattern \<Rightarrow> quad_key" where
  "quad_key_of pat =
     (let field = (\<lambda>t. case t of None \<Rightarrow> (0, 0) | Some t \<Rightarrow> (t, - 1));
          fields = [field (qp_s pat), field (qp_p pat), field (qp_o pat),
            (case qp_g pat of AnyG \<Rightarrow> (0, 0) | DefaultG \<Rightarrow> (0, - 1) | NamedG t \<Rightarrow> (t, - 1))]
      in \<lparr>qk_key = map fst fields, qk_mask = map snd fields\<rparr>)"

definition row_words :: "quad_row \<Rightarrow> u32 list" where
  "row_words q = [qr_s q, qr_p q, qr_o q, case qr_g q of None \<Rightarrow> 0 | Some t \<Rightarrow> t]"

definition misses :: "quad_key \<Rightarrow> quad_row \<Rightarrow> u32" where
  "misses k row = foldl (\<lambda>acc (word, key, mask). acc OR ((word XOR key) AND mask)) 0 (zip (row_words row) (zip (qk_key k) (qk_mask k)))"

definition key_matches :: "quad_key \<Rightarrow> quad_row \<Rightarrow> bool" where
  "key_matches k row \<longleftrightarrow> misses k row = 0"

definition ROW_CHUNK :: nat where "ROW_CHUNK = 8"

text \<open>Bit \<open>i\<close> of the result is row \<open>i\<close> of the chunk.\<close>

definition chunk_matches :: "quad_key \<Rightarrow> quad_row list \<Rightarrow> u8" where
  "chunk_matches k chunk =
     (let lanes = map (\<lambda>row. - (if misses k row = 0 then 1 else 0 :: u32)) chunk
      in ucast (foldl (\<lambda>bits (i, lane). bits OR (lane AND push_bit i 1)) (0 :: u32) (zip [0..<length lanes] lanes)))"

lemma clear_lowest_less: "w \<noteq> 0 \<Longrightarrow> unat (w AND (w - 1)) < unat (w :: 'a::len word)"
proof -
  assume "w \<noteq> 0"
  then have "unat (w - 1) < unat w" by (metis unat_minus_one unat_gt_0 diff_less zero_less_one)
  moreover have "unat (w AND (w - 1)) \<le> unat (w - 1)" by (simp add: word_le_nat_alt [symmetric] word_and_le1)
  ultimately show ?thesis by linarith
qed

text \<open>The rows of a chunk whose bits are pending, lowest first.\<close>

function drain_chunk :: "quad_row list \<Rightarrow> u8 \<Rightarrow> quad_row list" where
  "drain_chunk current pending = (if pending = 0 then [] else current ! trailing_zeros pending # drain_chunk current (pending AND (pending - 1)))"
  by auto
termination by (relation "measure (\<lambda>(_, pending). unat pending)") (auto intro: clear_lowest_less)

declare drain_chunk.simps [simp del]

text \<open>All rows a scan yields.\<close>

function scan_matches :: "quad_key \<Rightarrow> quad_row list \<Rightarrow> quad_row list" where
  "scan_matches k rows =
     (if ROW_CHUNK \<le> length rows
      then drain_chunk (take ROW_CHUNK rows) (chunk_matches k (take ROW_CHUNK rows)) @ scan_matches k (drop ROW_CHUNK rows)
      else filter (key_matches k) rows)"
  by auto
termination by (relation "measure (\<lambda>(_, rows). length rows)") (auto simp: ROW_CHUNK_def)

declare scan_matches.simps [simp del]

function first_match_from :: "nat \<Rightarrow> quad_key \<Rightarrow> quad_row list \<Rightarrow> nat option" where
  "first_match_from n k rows =
     (if ROW_CHUNK \<le> length rows then
        (let bits = chunk_matches k (take ROW_CHUNK rows)
         in if bits \<noteq> 0 then Some (n * ROW_CHUNK + trailing_zeros bits) else first_match_from (n + 1) k (drop ROW_CHUNK rows))
      else map_option (\<lambda>i. n * ROW_CHUNK + i) (position (key_matches k) rows))"
  by auto
termination by (relation "measure (\<lambda>(_, _, rows). length rows)") (auto simp: ROW_CHUNK_def)

declare first_match_from.simps [simp del]

definition first_match :: "quad_key \<Rightarrow> quad_row list \<Rightarrow> nat option" where
  "first_match k rows = first_match_from 0 k rows"

section \<open>Pattern queries\<close>

definition quads_for_pattern_with_plan :: "frozen_dataset \<Rightarrow> probe_plan \<Rightarrow> quad_pattern \<Rightarrow> quad_row list option" where
  "quads_for_pattern_with_plan d plan pat = map_option (\<lambda>(access, lo, hi).
     let k = quad_key_of pat in
     case access of
       Sequential \<Rightarrow> scan_matches k (slice_range lo hi (fd_quads d))
     | Permuted perm \<Rightarrow> filter (key_matches k) (map (\<lambda>i. fd_quads d ! i) (slice_range lo hi (permutation (fd_quads d) perm))))
     (candidate_access_of d plan pat)"

definition quads_for_pattern_indexed :: "frozen_dataset \<Rightarrow> quad_pattern \<Rightarrow> quad_row list option" where
  "quads_for_pattern_indexed d pat = quads_for_pattern_with_plan d (plan_of pat) pat"

text \<open>The owned cursor: one call of \<open>next\<close>, and all its rows.\<close>

record quad_cursor =
  qc_access :: candidate_access
  qc_next :: nat
  qc_end :: nat
  qc_key :: quad_key

definition new_cursor :: "frozen_dataset \<Rightarrow> quad_pattern \<Rightarrow> quad_cursor option" where
  "new_cursor d pat = map_option (\<lambda>(access, lo, hi). \<lparr>qc_access = access, qc_next = lo, qc_end = hi, qc_key = quad_key_of pat\<rparr>)
     (candidate_access_of d (plan_of pat) pat)"

function cursor_permuted :: "quad_row list \<Rightarrow> nat list \<Rightarrow> quad_key \<Rightarrow> nat \<Rightarrow> nat \<Rightarrow> quad_row option \<times> nat" where
  "cursor_permuted quads order k next limit =
     (if next < limit then
        (let row = quads ! (order ! next) in if key_matches k row then (Some row, next + 1) else cursor_permuted quads order k (next + 1) limit)
      else (None, next))"
  by auto
termination by (relation "measure (\<lambda>(_, _, _, next, limit). limit - next)") auto

declare cursor_permuted.simps [simp del]

definition cursor_next :: "frozen_dataset \<Rightarrow> quad_cursor \<Rightarrow> quad_row option \<times> quad_cursor" where
  "cursor_next d c = (case qc_access c of
     Sequential \<Rightarrow>
       (let rows = slice_range (qc_next c) (qc_end c) (fd_quads d) in
        case first_match (qc_key c) rows of
          Some off \<Rightarrow> (Some (rows ! off), c\<lparr>qc_next := qc_next c + off + 1\<rparr>)
        | None \<Rightarrow> (None, c\<lparr>qc_next := qc_end c\<rparr>))
   | Permuted perm \<Rightarrow>
       (case cursor_permuted (fd_quads d) (permutation (fd_quads d) perm) (qc_key c) (qc_next c) (qc_end c) of
          (row, n) \<Rightarrow> (row, c\<lparr>qc_next := n\<rparr>)))"

text \<open>The rows of at most \<open>n\<close> calls.\<close>

fun cursor_rows :: "nat \<Rightarrow> frozen_dataset \<Rightarrow> quad_cursor \<Rightarrow> quad_row list" where
  "cursor_rows 0 d c = []"
| "cursor_rows (Suc n) d c = (case cursor_next d c of (None, _) \<Rightarrow> [] | (Some row, c) \<Rightarrow> row # cursor_rows n d c)"

text \<open>The order the store certifies for the rows of a probe.\<close>

definition compare_pattern_probe_rows :: "frozen_dataset \<Rightarrow> probe_plan \<Rightarrow> quad_row \<Rightarrow> quad_row \<Rightarrow> ordering option" where
  "compare_pattern_probe_rows d plan left right =
     (let prefix = take (pp_prefix plan) (perm_axes (pp_perm plan)) in
      case compare_quads prefix left right of
        Equal \<Rightarrow>
          (let pat = \<lparr>qp_s = if AxisS \<in> set prefix then Some (qr_s left) else None,
                 qp_p = if AxisP \<in> set prefix then Some (qr_p left) else None,
                 qp_o = if AxisO \<in> set prefix then Some (qr_o left) else None,
                 qp_g = if AxisG \<in> set prefix then (case qr_g left of None \<Rightarrow> DefaultG | Some t \<Rightarrow> NamedG t) else AnyG\<rparr>
           in map_option (\<lambda>(access, _, _). compare_quads (perm_axes (case access of Sequential \<Rightarrow> Spog | Permuted perm \<Rightarrow> perm)) left right)
                (candidate_access_of d plan pat))
      | ord \<Rightarrow> Some ord)"

section \<open>Statement tables\<close>

text \<open>An ordinal range of a table: the rows whose key compares equal, through an order or in table order.\<close>

definition ordinal_range :: "'a list \<Rightarrow> nat list option \<Rightarrow> ('a \<Rightarrow> ordering) \<Rightarrow> 'a list" where
  "ordinal_range rows ordinals compare = (case ordinals of
     Some order \<Rightarrow> map (\<lambda>i. rows ! i) (slice_range (partition_point (\<lambda>i. compare (rows ! i) = Less) order)
       (partition_point (\<lambda>i. compare (rows ! i) \<noteq> Greater) order) order)
   | None \<Rightarrow> slice_range (partition_point (\<lambda>r. compare r = Less) rows) (partition_point (\<lambda>r. compare r \<noteq> Greater) rows) rows)"

type_synonym component_pattern = "u32 option \<times> u32 option \<times> u32 option"

definition component_mask :: "component_pattern \<Rightarrow> nat" where
  "component_mask = (\<lambda>(s, p, q). (if s \<noteq> None then 1 else 0) OR push_bit 1 (if p \<noteq> None then 1 else 0) OR push_bit 2 (if q \<noteq> None then 1 else 0))"

definition masked_key :: "u32 \<times> u32 \<times> u32 \<Rightarrow> nat \<Rightarrow> component_pattern" where
  "masked_key = (\<lambda>(s, p, q) bound. (if bit bound 0 then Some s else None, if bit bound 1 then Some p else None, if bit bound 2 then Some q else None))"

definition compare_masked :: "('a::linorder \<Rightarrow> u32 \<times> u32 \<times> u32) \<Rightarrow> nat \<Rightarrow> 'a \<Rightarrow> 'a \<Rightarrow> ordering" where
  "compare_masked components bound a b = (case cmp (masked_key (components a) bound) (masked_key (components b) bound) of
     Equal \<Rightarrow> cmp a b | ord \<Rightarrow> ord)"

definition masked_rows :: "'a::linorder list \<Rightarrow> bool \<Rightarrow> component_pattern \<Rightarrow> ('a \<Rightarrow> u32 \<times> u32 \<times> u32) \<Rightarrow> 'a list" where
  "masked_rows rows indexed pat components =
     (let bound = component_mask pat;
          ordinals = (if indexed then Some (build_ordinals (compare_masked components bound) rows) else None)
      in ordinal_range rows ordinals (\<lambda>row. cmp (masked_key (components row) bound) pat))"

definition compare_reifier_targets :: "reif_row \<Rightarrow> reif_row \<Rightarrow> ordering" where
  "compare_reifier_targets = (\<lambda>(r, t, g) (r', t', g'). cmp (t, r, g) (t', r', g'))"

definition reifier_rows_for_target :: "frozen_dataset \<Rightarrow> u32 \<Rightarrow> reif_row list" where
  "reifier_rows_for_target d target =
     (let rows = fd_reifiers d; order = build_ordinals compare_reifier_targets rows;
          start = partition_point (\<lambda>i. fst (snd (rows ! i)) < target) order;
          stop = partition_point (\<lambda>i. fst (snd (rows ! i)) \<le> target) order
      in map (\<lambda>i. rows ! i) (slice_range start stop order))"

definition reifiers_of :: "frozen_dataset \<Rightarrow> u32 \<Rightarrow> u32 list" where
  "reifiers_of d triple = map fst (reifier_rows_for_target d triple)"

definition rd_annotations_of_with_graph :: "frozen_dataset \<Rightarrow> u32 \<Rightarrow> (u32 \<times> u32 \<times> u32 option) list" where
  "rd_annotations_of_with_graph d reifier =
     map snd (takeWhile (\<lambda>row. fst row = reifier) (drop (partition_point (\<lambda>row. fst row < reifier) (fd_annotations d)) (fd_annotations d)))"

text \<open>The virtual quads; reifier rows without an id for \<open>rdf:reifies\<close> panic.\<close>

definition reifier_virtual :: "frozen_dataset \<Rightarrow> reif_row list \<Rightarrow> quad_row list option" where
  "reifier_virtual d rows =
     (if fd_reifiers d = [] \<or> rdf_reifies_id d \<noteq> None
      then Some (case rdf_reifies_id d of None \<Rightarrow> [] | Some p \<Rightarrow> map (\<lambda>(r, t, g). \<lparr>qr_s = r, qr_p = p, qr_o = t, qr_g = g\<rparr>) rows)
      else None)"

definition rd_reifier_quads :: "frozen_dataset \<Rightarrow> quad_row list option" where
  "rd_reifier_quads d = reifier_virtual d (fd_reifiers d)"

definition rd_reifier_quads_of :: "frozen_dataset \<Rightarrow> u32 \<Rightarrow> quad_row list option" where
  "rd_reifier_quads_of d reifier = reifier_virtual d
     (takeWhile (\<lambda>row. fst row = reifier) (drop (partition_point (\<lambda>row. fst row < reifier) (fd_reifiers d)) (fd_reifiers d)))"

definition rd_reifier_quads_for_target :: "frozen_dataset \<Rightarrow> u32 \<Rightarrow> quad_graph \<Rightarrow> quad_row list option" where
  "rd_reifier_quads_for_target d target graph = reifier_virtual d (filter (\<lambda>(_, _, g). graph_matches graph g) (reifier_rows_for_target d target))"

text \<open>The rows of a component pattern. A comparison that reaches a target which is not a triple term
  panics; here any such target of the table does.\<close>

definition reifier_component_rows :: "frozen_dataset \<Rightarrow> component_pattern \<Rightarrow> reif_row list option" where
  "reifier_component_rows d pat =
     (if \<forall>row\<in>set (fd_reifiers d). triple_components (fd_terms d) (fst (snd row)) \<noteq> None
      then Some (masked_rows (fd_reifiers d) (component_mask pat \<noteq> 0) pat (\<lambda>row. the (triple_components (fd_terms d) (fst (snd row)))))
      else None)"

definition rd_reifier_quads_for_components :: "frozen_dataset \<Rightarrow> component_pattern \<Rightarrow> quad_graph \<Rightarrow> quad_row list option" where
  "rd_reifier_quads_for_components d components graph = do {
     rows \<leftarrow> reifier_component_rows d components;
     reifier_virtual d (filter (\<lambda>(_, _, g). graph_matches graph g) rows) }"

definition annotation_virtual :: "annot_row list \<Rightarrow> quad_row list" where
  "annotation_virtual = map (\<lambda>(r, p, q, g). \<lparr>qr_s = r, qr_p = p, qr_o = q, qr_g = g\<rparr>)"

definition rd_annotation_quads :: "frozen_dataset \<Rightarrow> quad_row list" where
  "rd_annotation_quads d = annotation_virtual (fd_annotations d)"

definition rd_annotation_quads_for_pattern :: "frozen_dataset \<Rightarrow> u32 option \<Rightarrow> u32 option \<Rightarrow> quad_graph \<Rightarrow> quad_row list" where
  "rd_annotation_quads_for_pattern d predicate object graph =
     (let pat = (None, predicate, object)
      in annotation_virtual (filter (\<lambda>(_, _, _, g). graph_matches graph g)
           (masked_rows (fd_annotations d) (drop_bit 1 (component_mask pat) \<noteq> 0) pat (\<lambda>(r, p, q, _). (r, p, q)))))"

function graph_search :: "u32 \<Rightarrow> u32 list \<Rightarrow> nat \<Rightarrow> nat \<Rightarrow> bool" where
  "graph_search g graphs lo hi =
     (if lo < hi then
        (let mid = lo + (hi - lo) div 2 in
         if graphs ! mid < g then graph_search g graphs (mid + 1) hi
         else if g < graphs ! mid then graph_search g graphs lo mid
         else True)
      else False)"
  by auto
termination by (relation "measure (\<lambda>(_, _, lo, hi). hi - lo)") auto

declare graph_search.simps [simp del]

definition rd_has_named_graph :: "frozen_dataset \<Rightarrow> u32 \<Rightarrow> bool" where
  "rd_has_named_graph d g = graph_search g (fd_named_graphs d) 0 (length (fd_named_graphs d))"

text \<open>The rows of a named graph: its run in the graph-leading order and its statement rows.\<close>

definition named_graph_row_count :: "frozen_dataset \<Rightarrow> u32 \<Rightarrow> nat option" where
  "named_graph_row_count d graph =
     (let pat = \<lparr>qp_s = None, qp_p = None, qp_o = None, qp_g = NamedG graph\<rparr>
      in map_option (\<lambda>(_, lo, hi). hi - lo + length (filter (\<lambda>g. g = Some graph)
           (map (\<lambda>(_, _, g). g) (fd_reifiers d) @ map (\<lambda>(_, _, _, g). g) (fd_annotations d))))
         (candidate_run d (plan_of pat) pat))"

text \<open>The planner's estimate for a statement pattern; \<open>Some None\<close> is a sum beyond \<open>u64\<close>.\<close>

definition rd_statement_cardinality_estimate :: "frozen_dataset \<Rightarrow> quad_pattern \<Rightarrow> component_pattern \<Rightarrow> nat option option" where
  "rd_statement_cardinality_estimate d pat components =
     (if fd_reifiers d = [] \<and> fd_annotations d = [] then Some (Some 0)
      else if (case qp_g pat of NamedG g \<Rightarrow> \<not> rd_has_named_graph d g | _ \<Rightarrow> False) then Some (Some 0)
      else
        let can_reify = (case qp_p pat of None \<Rightarrow> True | Some p \<Rightarrow> Some p = rdf_reifies_id d) in do {
        reifiers \<leftarrow>
          (if \<not> can_reify \<or> fd_reifiers d = [] then Some 0
           else case qp_s pat of
             Some r \<Rightarrow> Some (partition_point (\<lambda>row. fst row \<le> r) (fd_reifiers d) - partition_point (\<lambda>row. fst row < r) (fd_reifiers d))
           | None \<Rightarrow> (case qp_o pat of
               Some target \<Rightarrow> Some (length (reifier_rows_for_target d target))
             | None \<Rightarrow>
                 if component_mask components = 0 then Some (length (fd_reifiers d))
                 else map_option length (reifier_component_rows d components)));
        let annotations = (case qp_s pat of
            Some r \<Rightarrow> partition_point (\<lambda>row. fst row \<le> r) (fd_annotations d) - partition_point (\<lambda>row. fst row < r) (fd_annotations d)
          | None \<Rightarrow>
              if qp_p pat = None \<and> qp_o pat = None then length (fd_annotations d)
              else length (masked_rows (fd_annotations d) (drop_bit 1 (component_mask (None, qp_p pat, qp_o pat)) \<noteq> 0)
                (None, qp_p pat, qp_o pat) (\<lambda>(r, p, q, _). (r, p, q))));
        Some (if reifiers + annotations < 2 ^ 64 then Some (reifiers + annotations) else None) })"

end
