(* ===== verification/QuadScan.thy ===== *)
theory QuadScan
  imports QuadTable
begin

text \<open>
  The kernels of \<open>QuadTable\<close>: sorting and bisection, the residual filter as word comparisons, and the scan
  of eight rows at a time, which yields the rows a plain filter yields, in their order.
\<close>

section \<open>Sorting and bisection\<close>

lemma insert_by_insort: "(\<And>a b. compare a b = cmp (f a) (f b)) \<Longrightarrow> insert_by compare x ys = insort_key f x ys"
  by (induction ys) auto

lemma sort_by_key: "(\<And>a b. compare a b = cmp (f a) (f b)) \<Longrightarrow> sort_by compare xs = sort_key f xs"
  by (simp add: sort_by_def sort_key_def) (induction xs, auto simp: insert_by_insort)

lemma partition_loop_spec:
  assumes "\<forall>i<length xs. P (xs ! i) \<longleftrightarrow> i < n" "lo \<le> n" "n \<le> hi" "hi \<le> length xs"
  shows "partition_loop P xs lo hi = n"
  using assms(2-4)
proof (induction "hi - lo" arbitrary: lo hi rule: less_induct)
  case less
  show ?case
  proof (cases "lo < hi")
    case True
    let ?m = "lo + (hi - lo) div 2"
    have m: "?m < hi" "lo \<le> ?m" using True by linarith+
    show ?thesis
    proof (cases "P (xs ! ?m)")
      case P: True
      then have "?m + 1 \<le> n" using assms(1) m less.prems(3) by auto
      then show ?thesis using less.hyps [of hi "?m + 1"] less.prems m P True by (subst partition_loop.simps) (simp add: Let_def)
    next
      case P: False
      then have "n \<le> ?m" using assms(1) m less.prems(3) by (metis not_less order.strict_trans2)
      then show ?thesis using less.hyps [of ?m lo] less.prems m P True by (subst partition_loop.simps) (simp add: Let_def)
    qed
  qed (use less.prems in \<open>subst partition_loop.simps, simp\<close>)
qed

lemma partition_point_eq:
  assumes "\<And>i j. i < j \<Longrightarrow> j < length xs \<Longrightarrow> P (xs ! j) \<Longrightarrow> P (xs ! i)"
  shows "partition_point P xs = length (takeWhile P xs)"
proof -
  let ?n = "length (takeWhile P xs)"
  have "P (xs ! i) \<longleftrightarrow> i < ?n" if "i < length xs" for i
  proof
    assume P: "P (xs ! i)"
    show "i < ?n"
    proof (rule ccontr)
      assume "\<not> i < ?n"
      then have n: "?n \<le> i" "?n < length xs" using that by auto
      then have "P (xs ! ?n)" using assms [of ?n i] P that by (cases "?n = i") auto
      then show False using nth_length_takeWhile [OF n(2)] by blast
    qed
  next
    assume i: "i < ?n"
    then have "takeWhile P xs ! i \<in> set (takeWhile P xs)" by (rule nth_mem)
    then show "P (xs ! i)" using i takeWhile_nth [OF i] set_takeWhileD by metis
  qed
  then show ?thesis unfolding partition_point_def by (intro partition_loop_spec) (auto simp: length_takeWhile_le)
qed

lemma partition_sorted:
  fixes key :: "'a \<Rightarrow> 'k::linorder"
  assumes "sorted (map key xs)"
  shows "partition_point (\<lambda>x. key x < t) xs = length (takeWhile (\<lambda>x. key x < t) xs)"
    "partition_point (\<lambda>x. key x \<le> t) xs = length (takeWhile (\<lambda>x. key x \<le> t) xs)"
proof -
  have le: "key (xs ! i) \<le> key (xs ! j)" if "i < j" "j < length xs" for i j
    using sorted_nth_mono [OF assms, of i j] that by simp
  show "partition_point (\<lambda>x. key x < t) xs = length (takeWhile (\<lambda>x. key x < t) xs)"
    by (rule partition_point_eq) (metis le le_less_trans)
  show "partition_point (\<lambda>x. key x \<le> t) xs = length (takeWhile (\<lambda>x. key x \<le> t) xs)"
    by (rule partition_point_eq) (metis le order.trans)
qed

lemma sorted_run:
  fixes key :: "'a \<Rightarrow> 'k::linorder"
  assumes "sorted (map key xs)"
  shows "drop (length (takeWhile (\<lambda>x. key x < t) xs)) (takeWhile (\<lambda>x. key x \<le> t) xs) = filter (\<lambda>x. key x = t) xs"
  using assms
proof (induction xs)
  case (Cons x xs)
  then have above: "\<forall>y\<in>set xs. key x \<le> key y" and s: "sorted (map key xs)" by auto
  consider "key x < t" | "key x = t" | "t < key x" by force
  then show ?case
  proof cases
    case 1
    then have "key x \<le> t" "key x \<noteq> t" by auto
    then show ?thesis using 1 Cons.IH [OF s] by simp
  next
    case 2
    then have "takeWhile (\<lambda>x. key x < t) xs = []" using above by (cases xs) auto
    then show ?thesis using Cons.IH [OF s] 2 by simp
  next
    case 3
    then have "filter (\<lambda>x. key x = t) xs = []" using above by (auto simp: filter_empty_conv)
    moreover have "\<not> key x \<le> t" "\<not> key x < t" "key x \<noteq> t" using 3 by auto
    ultimately show ?thesis by simp
  qed
qed simp

lemma run_filter:
  fixes key :: "'a \<Rightarrow> 'k::linorder"
  assumes "sorted (map key xs)"
  shows "slice_range (partition_point (\<lambda>x. key x < t) xs) (partition_point (\<lambda>x. key x \<le> t) xs) xs = filter (\<lambda>x. key x = t) xs"
    "partition_point (\<lambda>x. key x \<le> t) xs - partition_point (\<lambda>x. key x < t) xs = length (filter (\<lambda>x. key x = t) xs)"
proof -
  let ?l = "length (takeWhile (\<lambda>x. key x < t) xs)" and ?h = "length (takeWhile (\<lambda>x. key x \<le> t) xs)"
  have "?l \<le> ?h" by (induction xs) auto
  have "take (?h - ?l) (drop ?l xs) = drop ?l (take ?h xs)" using \<open>?l \<le> ?h\<close> by (simp add: take_drop)
  also have "take ?h xs = takeWhile (\<lambda>x. key x \<le> t) xs" by (metis takeWhile_eq_take)
  finally show *: "slice_range (partition_point (\<lambda>x. key x < t) xs) (partition_point (\<lambda>x. key x \<le> t) xs) xs = filter (\<lambda>x. key x = t) xs"
    unfolding partition_sorted [OF assms] slice_range_def sorted_run [OF assms, of t, symmetric] by simp
  show "partition_point (\<lambda>x. key x \<le> t) xs - partition_point (\<lambda>x. key x < t) xs = length (filter (\<lambda>x. key x = t) xs)"
    unfolding partition_sorted [OF assms] sorted_run [OF assms, of t, symmetric] by simp
qed

lemma map_sort_rows: "map f (sort_key (g \<circ> f) xs) = sort_key g (map f xs)"
proof -
  have "map f (insort_key (g \<circ> f) x ys) = insort_key g (f x) (map f ys)" for x ys by (induction ys) auto
  then show ?thesis by (induction xs) auto
qed

lemma build_ordinals_rows:
  assumes "\<And>a b. compare a b = cmp (f a) (f b)"
  shows "map (\<lambda>i. rows ! i) (build_ordinals compare rows) = sort_key f rows"
proof -
  have "build_ordinals compare rows = sort_key (f \<circ> (\<lambda>i. rows ! i)) [0..<length rows]"
    unfolding build_ordinals_def by (rule sort_by_key) (simp add: assms)
  then show ?thesis by (simp add: map_sort_rows map_nth)
qed

section \<open>The residual filter\<close>

definition matches_pattern :: "quad_pattern \<Rightarrow> quad_row \<Rightarrow> bool" where
  "matches_pattern pat q \<longleftrightarrow> (qp_s pat = None \<or> qp_s pat = Some (qr_s q)) \<and> (qp_p pat = None \<or> qp_p pat = Some (qr_p q)) \<and>
     (qp_o pat = None \<or> qp_o pat = Some (qr_o q)) \<and> graph_matches (qp_g pat) (qr_g q)"

text \<open>A term id is not zero.\<close>

definition valid_row :: "quad_row \<Rightarrow> bool" where
  "valid_row q \<longleftrightarrow> qr_s q \<noteq> 0 \<and> qr_p q \<noteq> 0 \<and> qr_o q \<noteq> 0 \<and> qr_g q \<noteq> Some 0"

definition valid_pattern :: "quad_pattern \<Rightarrow> bool" where
  "valid_pattern pat \<longleftrightarrow> qp_s pat \<noteq> Some 0 \<and> qp_p pat \<noteq> Some 0 \<and> qp_o pat \<noteq> Some 0 \<and> qp_g pat \<noteq> NamedG 0"

lemma xor_zero: "(word XOR key = 0) \<longleftrightarrow> word = (key :: 'a::len word)"
  by (metis xor_self_eq xor.right_neutral xor.assoc)

lemma misses_fields: "misses \<lparr>qk_key = [a, b, c, d], qk_mask = [ma, mb, mc, md]\<rparr> q = 0 \<longleftrightarrow>
    (qr_s q XOR a) AND ma = 0 \<and> (qr_p q XOR b) AND mb = 0 \<and> (qr_o q XOR c) AND mc = 0 \<and>
    ((case qr_g q of None \<Rightarrow> 0 | Some t \<Rightarrow> t) XOR d) AND md = 0"
  by (simp add: misses_def row_words_def or_eq_0_iff conj_assoc)

definition field_word :: "u32 option \<Rightarrow> u32 \<times> u32" where
  "field_word t = (case t of None \<Rightarrow> (0, 0) | Some t \<Rightarrow> (t, - 1))"

definition graph_word :: "quad_graph \<Rightarrow> u32 \<times> u32" where
  "graph_word g = (case g of AnyG \<Rightarrow> (0, 0) | DefaultG \<Rightarrow> (0, - 1) | NamedG t \<Rightarrow> (t, - 1))"

lemma field_word_matches: "(word XOR fst (field_word t)) AND snd (field_word t) = 0 \<longleftrightarrow> t = None \<or> t = Some word"
  by (cases t) (auto simp: field_word_def xor_zero)

lemma graph_word_matches:
  assumes "graph \<noteq> Some 0" "g \<noteq> NamedG 0"
  shows "((case graph of None \<Rightarrow> 0 | Some t \<Rightarrow> t) XOR fst (graph_word g)) AND snd (graph_word g) = 0 \<longleftrightarrow> graph_matches g graph"
  using assms by (cases g; cases graph) (auto simp: graph_word_def graph_matches_def xor_zero)

lemma quad_key_words: "quad_key_of pat =
    \<lparr>qk_key = [fst (field_word (qp_s pat)), fst (field_word (qp_p pat)), fst (field_word (qp_o pat)), fst (graph_word (qp_g pat))],
     qk_mask = [snd (field_word (qp_s pat)), snd (field_word (qp_p pat)), snd (field_word (qp_o pat)), snd (graph_word (qp_g pat))]\<rparr>"
  by (simp add: quad_key_of_def field_word_def graph_word_def Let_def)

lemma misses_matches:
  assumes "valid_row q" "valid_pattern pat"
  shows "key_matches (quad_key_of pat) q \<longleftrightarrow> matches_pattern pat q"
  using assms unfolding key_matches_def quad_key_words misses_fields field_word_matches
  by (auto simp: matches_pattern_def graph_word_matches valid_row_def valid_pattern_def)

section \<open>Eight rows at a time\<close>

lemma lane_fold: "length lanes \<le> 32 \<Longrightarrow>
    bit (foldl (\<lambda>bits (i, lane). bits OR (lane AND push_bit i 1)) (acc :: u32) (zip [0..<length lanes] lanes)) n \<longleftrightarrow>
      bit acc n \<or> n < length lanes \<and> bit (lanes ! n) n"
proof (induction lanes rule: rev_induct)
  case (snoc lane lanes)
  have "bit (lane AND push_bit (length lanes) 1) n \<longleftrightarrow> n = length lanes \<and> bit lane n"
    using snoc.prems by (auto simp: bit_and_iff bit_exp_iff dest: bit_imp_le_length)
  then show ?case using snoc by (auto simp: bit_or_iff nth_append less_Suc_eq)
qed simp

lemma chunk_matches_bit:
  assumes "length chunk = ROW_CHUNK"
  shows "bit (chunk_matches k chunk) n \<longleftrightarrow> n < ROW_CHUNK \<and> key_matches k (chunk ! n)"
proof -
  let ?lanes = "map (\<lambda>row. - (if misses k row = 0 then 1 else 0 :: u32)) chunk"
  have "length ?lanes \<le> 32" using assms by (simp add: ROW_CHUNK_def)
  from lane_fold [OF this, of 0 n] have "bit (chunk_matches k chunk) n \<longleftrightarrow> n < 8 \<and> n < length ?lanes \<and> bit (?lanes ! n) n"
    unfolding chunk_matches_def Let_def by (auto simp: bit_ucast_iff)
  then show ?thesis using assms by (auto simp: key_matches_def ROW_CHUNK_def bit_minus_1_iff split: if_splits)
qed

lemma clear_lowest_table: "\<forall>i\<in>set [1..255]. let w = word_of_int i :: u8 in
    filter (bit w) [0..<8] = trailing_zeros w # filter (bit (w AND (w - 1))) [0..<8]"
  by code_simp

lemma clear_lowest: "w \<noteq> 0 \<Longrightarrow> filter (bit w) [0..<8] = trailing_zeros w # filter (bit (w AND (w - 1))) [0..<8]" for w :: u8
proof -
  assume "w \<noteq> 0"
  then have "uint w \<noteq> 0" by (simp add: uint_0_iff)
  then have "0 < uint w" using uint_ge_0 [of w] by linarith
  then have "uint w \<in> set [1..255]" using unsigned_less [of w, where 'a = int] by simp
  from clear_lowest_table [rule_format, OF this] show ?thesis by (simp add: Let_def)
qed

lemma drain_chunk_spec: "drain_chunk current pending = map (\<lambda>i. current ! i) (filter (bit pending) [0..<8])"
proof (induction current pending rule: drain_chunk.induct)
  case (1 current pending)
  then show ?case by (subst drain_chunk.simps) (simp add: clear_lowest)
qed

lemma filter_nth: "map (\<lambda>i. xs ! i) (filter (\<lambda>i. P (xs ! i)) [0..<length xs]) = filter P xs"
  by (simp add: filter_map [symmetric, unfolded comp_def] map_nth)

lemma chunk_rows: "length chunk = ROW_CHUNK \<Longrightarrow> drain_chunk chunk (chunk_matches k chunk) = filter (key_matches k) chunk"
proof -
  assume len: "length chunk = ROW_CHUNK"
  have "filter (bit (chunk_matches k chunk)) [0..<8] = filter (\<lambda>i. key_matches k (chunk ! i)) [0..<length chunk]"
    using len by (intro filter_cong) (auto simp: chunk_matches_bit ROW_CHUNK_def)
  then show ?thesis by (simp add: drain_chunk_spec filter_nth)
qed

lemma scan_matches_filter: "scan_matches k rows = filter (key_matches k) rows"
proof (induction k rows rule: scan_matches.induct)
  case (1 k rows)
  show ?case
  proof (cases "ROW_CHUNK \<le> length rows")
    case True
    then show ?thesis using 1 [OF True] by (subst scan_matches.simps) (simp add: chunk_rows flip: filter_append)
  qed (subst scan_matches.simps, simp)
qed

lemma first_match_position: "first_match_from n k rows = map_option (\<lambda>i. n * ROW_CHUNK + i) (position (key_matches k) rows)"
proof (induction n k rows rule: first_match_from.induct)
  case (1 n k rows)
  show ?case
  proof (cases "ROW_CHUNK \<le> length rows")
    case True
    let ?c = "take ROW_CHUNK rows" and ?bits = "chunk_matches k (take ROW_CHUNK rows)"
    have len: "length ?c = ROW_CHUNK" using True by simp
    show ?thesis
    proof (cases "?bits = 0")
      case z: True
      then have "\<not> key_matches k (?c ! i)" if "i < ROW_CHUNK" for i using chunk_matches_bit [OF len, of k i] that by simp
      then have "position (key_matches k) ?c = None" unfolding position_eq_None using len by (auto simp: in_set_conv_nth)
      then show ?thesis using 1 [OF True refl] z True position_split [of "key_matches k" rows ROW_CHUNK]
        by (subst first_match_from.simps) (cases "position (key_matches k) (drop ROW_CHUNK rows)"; simp add: Let_def)
    next
      case nz: False
      note t = trailing_zeros_bit [OF nz]
      have "position (key_matches k) ?c = Some (trailing_zeros ?bits)"
        unfolding position_eq_Some using t chunk_matches_bit [OF len] len by auto
      then show ?thesis using nz True position_split [of "key_matches k" rows ROW_CHUNK]
        by (subst first_match_from.simps) (simp add: Let_def)
    qed
  qed (subst first_match_from.simps, simp)
qed

end
