(* ===== verification/QuadQuery.thy ===== *)
theory QuadQuery
  imports QuadScan "HOL-Library.Multiset"
begin

text \<open>
  Pattern queries of \<open>QuadTable\<close>: an ordinal order with bisection selects the rows of a key, for the quad
  orders and for the orders of the statement tables alike, and a probe plan's prefix is exactly the bound
  positions of its pattern.
\<close>

section \<open>Ordinal orders\<close>

text \<open>The contract of an order of row ordinals: a permutation that ascends by the key it is searched by.\<close>

locale ordinal_index =
  fixes order :: "'s \<Rightarrow> 'r list \<Rightarrow> nat list" and key :: "'s \<Rightarrow> 'r \<Rightarrow> 'k::linorder"
  assumes permutes: "mset (order s rows) = mset [0..<length rows]"
    and ordered: "sorted (map (\<lambda>i. key s (rows ! i)) (order s rows))"
begin

lemma entries_mset: "mset (map (\<lambda>i. rows ! i) (order s rows)) = mset rows"
proof -
  have "mset (map (\<lambda>i. rows ! i) (order s rows)) = image_mset (\<lambda>i. rows ! i) (mset [0..<length rows])" by (simp only: mset_map permutes)
  also have "\<dots> = mset rows" by (simp only: map_nth flip: mset_map)
  finally show ?thesis .
qed

lemma run_rows:
  "map (\<lambda>i. rows ! i) (slice_range (partition_point (\<lambda>i. key s (rows ! i) < t) (order s rows))
     (partition_point (\<lambda>i. key s (rows ! i) \<le> t) (order s rows)) (order s rows))
   = filter (\<lambda>r. key s r = t) (map (\<lambda>i. rows ! i) (order s rows))"
  unfolding run_filter(1) [OF ordered] by (simp add: filter_map comp_def)

lemma run_length:
  "partition_point (\<lambda>i. key s (rows ! i) \<le> t) (order s rows) - partition_point (\<lambda>i. key s (rows ! i) < t) (order s rows)
   = length (filter (\<lambda>r. key s r = t) rows)"
proof -
  have "length (filter (\<lambda>i. key s (rows ! i) = t) (order s rows)) = length (filter (\<lambda>r. key s r = t) (map (\<lambda>i. rows ! i) (order s rows)))"
    by (simp add: filter_map comp_def)
  also have "\<dots> = size (filter_mset (\<lambda>r. key s r = t) (mset rows))"
    unfolding entries_mset [of rows s, symmetric] mset_filter [symmetric] size_mset ..
  also have "\<dots> = length (filter (\<lambda>r. key s r = t) rows)" unfolding mset_filter [symmetric] size_mset ..
  finally show ?thesis unfolding run_filter(2) [OF ordered] .
qed

end

lemma build_ordinals_order:
  assumes "\<And>a b. compare a b = cmp (f a) (f b)" "\<And>a b. f a \<le> f b \<Longrightarrow> key a \<le> key b"
  shows "mset (build_ordinals compare rows) = mset [0..<length rows]" "sorted (map (\<lambda>i. key (rows ! i)) (build_ordinals compare rows))"
proof -
  have b: "build_ordinals compare rows = sort_key (\<lambda>i. f (rows ! i)) [0..<length rows]"
    unfolding build_ordinals_def by (rule sort_by_key) (simp add: assms)
  show "mset (build_ordinals compare rows) = mset [0..<length rows]" unfolding b by simp
  have "sorted_wrt (\<lambda>i j. f (rows ! i) \<le> f (rows ! j)) (build_ordinals compare rows)"
    using sorted_sort_key [of "\<lambda>i. f (rows ! i)" "[0..<length rows]"] unfolding b by (simp add: sorted_map)
  then show "sorted (map (\<lambda>i. key (rows ! i)) (build_ordinals compare rows))"
    unfolding sorted_map by (rule sorted_wrt_mono_rel [rotated]) (simp add: assms(2))
qed

section \<open>The quad orders\<close>

definition row_key :: "axis list \<Rightarrow> quad_row \<Rightarrow> u32 list" where
  "row_key axes q = map (\<lambda>a. axis_key a q) axes"

lemma compare_quads_cmp: "compare_quads axes a b = cmp (row_key axes a) (row_key axes b)"
  by (induction axes) (auto simp: row_key_def cmp_def)

lemma compare_prefix_cmp:
  "length target = n \<Longrightarrow> n \<le> length axes \<Longrightarrow> compare_prefix axes q target n = cmp (take n (row_key axes q)) target"
proof (induction axes q target n rule: compare_prefix.induct)
  case (1 x axes q t target n)
  then show ?case by (auto simp: row_key_def cmp_def)
qed (auto simp: row_key_def)

lemma take_le: "xs \<le> ys \<Longrightarrow> take n xs \<le> take n (ys :: 'a::linorder list)"
proof (induction n arbitrary: xs ys)
  case (Suc n)
  then show ?case by (cases xs; cases ys) auto
qed simp

definition prefix_key :: "quad_permutation \<times> nat \<Rightarrow> quad_row \<Rightarrow> u32 list" where
  "prefix_key s q = take (snd s) (row_key (perm_axes (fst s)) q)"

lemma quad_order:
  "mset (permutation rows perm) = mset [0..<length rows]"
  "sorted (map (\<lambda>i. prefix_key (perm, n) (rows ! i)) (permutation rows perm))"
  unfolding permutation_def
  by (rule build_ordinals_order [of _ "row_key (perm_axes perm)"], auto simp: compare_quads_cmp prefix_key_def take_le)+

interpretation quad_index: ordinal_index "\<lambda>s rows. permutation rows (fst s)" prefix_key
proof
  show "mset (permutation rows (fst s)) = mset [0..<length rows]" for s :: "quad_permutation \<times> nat" and rows by (rule quad_order(1))
  show "sorted (map (\<lambda>i. prefix_key s (rows ! i)) (permutation rows (fst s)))" for s rows using quad_order(2) [of "fst s" "snd s"] by simp
qed

lemma permutation_rows: "map (\<lambda>i. rows ! i) (permutation rows perm) = sort_key (row_key (perm_axes perm)) rows"
  unfolding permutation_def by (rule build_ordinals_rows) (rule compare_quads_cmp)

section \<open>Keys and patterns\<close>

definition axis_matches :: "quad_pattern \<Rightarrow> axis \<Rightarrow> quad_row \<Rightarrow> bool" where
  "axis_matches pat a q \<longleftrightarrow> (case a of
     AxisS \<Rightarrow> qp_s pat = None \<or> qp_s pat = Some (qr_s q)
   | AxisP \<Rightarrow> qp_p pat = None \<or> qp_p pat = Some (qr_p q)
   | AxisO \<Rightarrow> qp_o pat = None \<or> qp_o pat = Some (qr_o q)
   | AxisG \<Rightarrow> graph_matches (qp_g pat) (qr_g q))"

lemma all_axis: "(\<forall>a. P a) \<longleftrightarrow> P AxisS \<and> P AxisP \<and> P AxisO \<and> P AxisG"
  by (metis axis.exhaust)

lemma matches_axes: "matches_pattern pat q \<longleftrightarrow> (\<forall>a. axis_matches pat a q)"
  unfolding matches_pattern_def all_axis by (simp add: axis_matches_def)

lemma index_eq [simp]: "tid_index t = tid_index u \<longleftrightarrow> t = u"
  by (simp add: tid_index_def)

lemma index_less: "t \<noteq> 0 \<Longrightarrow> u \<noteq> 0 \<Longrightarrow> tid_index t < tid_index u \<longleftrightarrow> t < u"
  using unat_minus_one [of t] unat_minus_one [of u] unat_gt_0 [of t] unat_gt_0 [of u] by (auto simp: tid_index_def word_less_nat_alt)

lemma index_plus: "tid_index t + 1 = t"
  by (simp add: tid_index_def)

lemma key_matches_axis:
  assumes "valid_row q" "valid_pattern pat" "key_of pat a = Some k"
  shows "axis_key a q = k \<longleftrightarrow> axis_matches pat a q"
  using assms by (cases a)
    (auto simp: key_of_def axis_key_def axis_matches_def graph_matches_def index_plus valid_row_def valid_pattern_def split: quad_graph.splits option.splits)

lemma unbound_axis: "key_of pat a = None \<Longrightarrow> axis_matches pat a q"
  by (cases a) (auto simp: key_of_def axis_matches_def graph_matches_def split: quad_graph.splits)

text \<open>The prefix of the plan is the set of bound axes.\<close>

lemma plan_exact: "set (take (pp_prefix (plan_of pat)) (perm_axes (pp_perm (plan_of pat)))) = {a. key_of pat a \<noteq> None}"
proof -
  have axes: "{a. P a} = (if P AxisS then {AxisS} else {}) \<union> (if P AxisP then {AxisP} else {}) \<union> (if P AxisO then {AxisO} else {}) \<union> (if P AxisG then {AxisG} else {})" for P
    by (auto intro: axis.exhaust) (metis axis.exhaust)+
  show ?thesis
    unfolding plan_of_def axes
    by (cases "qp_s pat"; cases "qp_p pat"; cases "qp_o pat"; cases "qp_g pat")
      (simp_all add: make_plan_def all_permutations_def perm_axes_def key_of_def Let_def insert_commute)
qed

section \<open>Candidate runs\<close>

text \<open>What the freeze establishes.\<close>

definition table_ok :: "quad_row list \<Rightarrow> bool" where
  "table_ok quads \<longleftrightarrow> distinct quads \<and> (\<forall>q\<in>set quads. valid_row q) \<and> sorted (map (row_key (perm_axes Spog)) quads)"

lemma those_keys:
  assumes "those (map (key_of pat) axes) = Some target" "valid_row q" "valid_pattern pat"
  shows "row_key axes q = target \<longleftrightarrow> (\<forall>a\<in>set axes. axis_matches pat a q)"
  using assms
proof (induction axes arbitrary: target)
  case (Cons a axes)
  then obtain k ts where k: "key_of pat a = Some k" "those (map (key_of pat) axes) = Some ts" "target = k # ts"
    by (auto split: option.splits)
  then show ?case using Cons.IH [OF k(2) Cons.prems(2,3)] key_matches_axis [OF Cons.prems(2,3) k(1)] by (simp add: row_key_def)
qed (simp add: row_key_def)

lemma those_bound: "(\<forall>a\<in>set axes. key_of pat a \<noteq> None) \<Longrightarrow> \<exists>target. those (map (key_of pat) axes) = Some target \<and> length target = length axes"
proof (induction axes)
  case (Cons a axes)
  then obtain target where "those (map (key_of pat) axes) = Some target" "length target = length axes" by auto
  then show ?case using Cons.prems by (auto split: option.splits)
qed simp

lemma perm_axes_length: "length (perm_axes perm) = 4"
  by (cases perm) (simp_all add: perm_axes_def)

definition perm_rows :: "quad_row list \<Rightarrow> quad_permutation \<Rightarrow> quad_row list" where
  "perm_rows quads perm = (if perm = Spog then quads else sort_key (row_key (perm_axes perm)) quads)"

lemma perm_rows_mset: "mset (perm_rows quads perm) = mset quads"
  by (simp add: perm_rows_def)

lemma perm_rows_sorted: "table_ok quads \<Longrightarrow> sorted (map (row_key (perm_axes perm)) (perm_rows quads perm))"
  by (simp add: perm_rows_def table_ok_def)

lemma candidate_run_spec:
  assumes "table_ok (fd_quads d)" "valid_pattern pat" "pp_prefix plan \<le> 4"
    "\<forall>a\<in>set (take (pp_prefix plan) (perm_axes (pp_perm plan))). key_of pat a \<noteq> None"
  obtains lo hi where "candidate_run d plan pat = Some (pp_perm plan, lo, hi)"
    "hi - lo = length (filter (\<lambda>q. \<forall>a\<in>set (take (pp_prefix plan) (perm_axes (pp_perm plan))). axis_matches pat a q) (fd_quads d))"
    "(if pp_perm plan = Spog then slice_range lo hi (fd_quads d) else map (\<lambda>i. fd_quads d ! i) (slice_range lo hi (permutation (fd_quads d) (pp_perm plan))))
      = filter (\<lambda>q. \<forall>a\<in>set (take (pp_prefix plan) (perm_axes (pp_perm plan))). axis_matches pat a q) (perm_rows (fd_quads d) (pp_perm plan))"
proof -
  let ?perm = "pp_perm plan" and ?n = "pp_prefix plan" and ?quads = "fd_quads d"
  let ?axes = "perm_axes ?perm" and ?s = "(?perm, ?n)"
  obtain target where t: "those (map (key_of pat) (take ?n ?axes)) = Some target" "length target = ?n"
    using those_bound [OF assms(4)] assms(3) by (auto simp: perm_axes_length)
  have cmp: "compare_prefix ?axes q target ?n = cmp (prefix_key ?s q) target" for q
    using compare_prefix_cmp [OF t(2)] assms(3) by (simp add: prefix_key_def perm_axes_length)
  have key: "prefix_key ?s q = target \<longleftrightarrow> (\<forall>a\<in>set (take ?n ?axes). axis_matches pat a q)" if "q \<in> set ?quads" for q
    using those_keys [OF t(1) _ assms(2), of q] that assms(1) by (simp add: prefix_key_def row_key_def take_map table_ok_def)
  have filter_eq: "filter (\<lambda>q. prefix_key ?s q = target) rows = filter (\<lambda>q. \<forall>a\<in>set (take ?n ?axes). axis_matches pat a q) rows"
    if "set rows = set ?quads" for rows
    by (rule filter_cong [OF refl]) (simp only: key that)
  have tests: "(\<lambda>q. compare_prefix ?axes q target ?n = Less) = (\<lambda>q. prefix_key ?s q < target)"
    "(\<lambda>q. compare_prefix ?axes q target ?n \<noteq> Greater) = (\<lambda>q. prefix_key ?s q \<le> target)"
    unfolding cmp by (auto simp: not_less)
  show ?thesis
  proof (cases "?perm = Spog")
    case True
    have sorted: "sorted (map (prefix_key ?s) ?quads)"
      using assms(1) take_le unfolding table_ok_def sorted_map prefix_key_def True fst_conv
      by (auto intro: sorted_wrt_mono_rel [rotated])
    let ?lo = "partition_point (\<lambda>q. prefix_key ?s q < target) ?quads" and ?hi = "partition_point (\<lambda>q. prefix_key ?s q \<le> target) ?quads"
    have "candidate_run d plan pat = Some (?perm, ?lo, ?hi)"
      unfolding candidate_run_def Let_def t(1) using True tests by (simp add: fun_eq_iff)
    moreover have "hi - lo = length (filter (\<lambda>q. \<forall>a\<in>set (take ?n ?axes). axis_matches pat a q) ?quads)"
      if "hi = ?hi" "lo = ?lo" for lo hi
      unfolding that run_filter(2) [OF sorted] filter_eq [OF refl] ..
    moreover have "slice_range ?lo ?hi ?quads = filter (\<lambda>q. \<forall>a\<in>set (take ?n ?axes). axis_matches pat a q) ?quads"
      unfolding run_filter(1) [OF sorted] filter_eq [OF refl] ..
    ultimately show ?thesis using True by (intro that [of ?lo ?hi]) (simp_all only: perm_rows_def if_True simp_thms)
  next
    case False
    let ?arr = "permutation ?quads ?perm"
    let ?lo = "partition_point (\<lambda>i. prefix_key ?s (?quads ! i) < target) ?arr" and ?hi = "partition_point (\<lambda>i. prefix_key ?s (?quads ! i) \<le> target) ?arr"
    have "candidate_run d plan pat = Some (?perm, ?lo, ?hi)"
      unfolding candidate_run_def Let_def t(1) using False tests by (simp add: fun_eq_iff)
    moreover have "?hi - ?lo = length (filter (\<lambda>q. \<forall>a\<in>set (take ?n ?axes). axis_matches pat a q) ?quads)"
      using quad_index.run_length [of ?s ?quads target] unfolding filter_eq [OF refl] by simp
    moreover have "map (\<lambda>i. ?quads ! i) (slice_range ?lo ?hi ?arr)
        = filter (\<lambda>q. \<forall>a\<in>set (take ?n ?axes). axis_matches pat a q) (perm_rows ?quads ?perm)"
      using quad_index.run_rows [of ?quads ?s target] filter_eq [of "sort_key (row_key ?axes) ?quads"] False
      by (simp add: perm_rows_def permutation_rows)
    ultimately show ?thesis using False by (intro that [of ?lo ?hi]) (simp_all only: if_False simp_thms)
  qed
qed

end
