(* ===== verification/QuadRows.thy ===== *)
theory QuadRows
  imports QuadQuery
begin

text \<open>
  The rows of a pattern query of \<open>QuadTable\<close>: the indexed query and the owned cursor yield exactly the
  matching rows, each once, in the order the store certifies, and the estimate is their number.
\<close>

section \<open>The rows of an access\<close>

definition access_order :: "candidate_access \<Rightarrow> quad_permutation" where
  "access_order access = (case access of Sequential \<Rightarrow> Spog | Permuted perm \<Rightarrow> perm)"

definition access_rows :: "quad_row list \<Rightarrow> candidate_access \<Rightarrow> nat \<Rightarrow> nat \<Rightarrow> quad_row list" where
  "access_rows quads access lo hi = (case access of
     Sequential \<Rightarrow> slice_range lo hi quads
   | Permuted perm \<Rightarrow> map (\<lambda>i. quads ! i) (slice_range lo hi (permutation quads perm)))"

lemma partition_loop_le: "lo \<le> hi \<Longrightarrow> partition_loop P xs lo hi \<le> hi"
proof (induction P xs lo hi rule: partition_loop.induct)
  case (1 P xs lo hi)
  let ?m = "lo + (hi - lo) div 2"
  show ?case
  proof (cases "lo < hi")
    case True
    then have "?m + 1 \<le> hi" "lo \<le> ?m" by linarith+
    then show ?thesis using 1(1) [OF True refl] 1(2) [OF True refl] True
      by (subst partition_loop.simps) (fastforce simp: Let_def)
  qed (use 1 in \<open>subst partition_loop.simps, simp\<close>)
qed

lemma permutation_length: "length (permutation rows perm) = length rows"
  using arg_cong [OF quad_order(1) [of rows perm], of size] by simp

lemma partition_point_le: "length xs = n \<Longrightarrow> partition_point P xs \<le> n"
  using partition_loop_le [of 0 "length xs"] by (simp add: partition_point_def)

lemma candidate_run_end: "candidate_run d plan pat = Some (perm, lo, hi) \<Longrightarrow> perm = pp_perm plan \<and> hi \<le> length (fd_quads d)"
  unfolding candidate_run_def Let_def by (auto simp: permutation_length bind_eq_Some_conv partition_point_le split: if_splits)

lemma make_plan_bound: "pp_prefix (plan_of pat) \<le> 4"
  by (cases "qp_s pat"; cases "qp_p pat"; cases "qp_o pat"; cases "qp_g pat")
    (simp_all add: plan_of_def make_plan_def all_permutations_def perm_axes_def Let_def)

lemma matches_bound: "(\<forall>a\<in>set (take (pp_prefix (plan_of pat)) (perm_axes (pp_perm (plan_of pat)))). axis_matches pat a q) \<longleftrightarrow> matches_pattern pat q"
  unfolding plan_exact matches_axes using unbound_axis [of pat] by blast

text \<open>The run of a query holds the matching rows in the order of its permutation.\<close>

lemma query_run:
  assumes "table_ok (fd_quads d)" "valid_pattern pat"
  obtains lo hi where "candidate_run d (plan_of pat) pat = Some (pp_perm (plan_of pat), lo, hi)" "hi \<le> length (fd_quads d)"
    "hi - lo = length (filter (matches_pattern pat) (fd_quads d))"
    "access_rows (fd_quads d) (if pp_perm (plan_of pat) = Spog then Sequential else Permuted (pp_perm (plan_of pat))) lo hi
      = filter (matches_pattern pat) (perm_rows (fd_quads d) (pp_perm (plan_of pat)))"
proof -
  have bound: "\<forall>a\<in>set (take (pp_prefix (plan_of pat)) (perm_axes (pp_perm (plan_of pat)))). key_of pat a \<noteq> None"
    unfolding plan_exact by simp
  obtain lo hi where run: "candidate_run d (plan_of pat) pat = Some (pp_perm (plan_of pat), lo, hi)"
    "hi - lo = length (filter (matches_pattern pat) (fd_quads d))"
    "(if pp_perm (plan_of pat) = Spog then slice_range lo hi (fd_quads d)
      else map (\<lambda>i. fd_quads d ! i) (slice_range lo hi (permutation (fd_quads d) (pp_perm (plan_of pat)))))
     = filter (matches_pattern pat) (perm_rows (fd_quads d) (pp_perm (plan_of pat)))"
    by (rule candidate_run_spec [OF assms make_plan_bound bound]) (simp only: matches_bound)
  show thesis
    by (rule that [OF run(1) _ run(2)]) (use candidate_run_end [OF run(1)] run(3) in \<open>auto simp: access_rows_def split: if_splits\<close>)
qed

lemma query_access:
  assumes "table_ok (fd_quads d)" "valid_pattern pat"
  obtains access lo hi where "candidate_access_of d (plan_of pat) pat = Some (access, lo, hi)" "hi \<le> length (fd_quads d)"
    "filter (matches_pattern pat) (access_rows (fd_quads d) access lo hi) = filter (matches_pattern pat) (perm_rows (fd_quads d) (access_order access))"
    "set (access_rows (fd_quads d) access lo hi) \<subseteq> set (fd_quads d)"
proof -
  let ?perm = "pp_perm (plan_of pat)" and ?quads = "fd_quads d"
  obtain lo hi where run: "candidate_run d (plan_of pat) pat = Some (?perm, lo, hi)" "hi \<le> length ?quads"
    "access_rows ?quads (if ?perm = Spog then Sequential else Permuted ?perm) lo hi = filter (matches_pattern pat) (perm_rows ?quads ?perm)"
    by (rule query_run [OF assms])
  have sub: "set (filter P (perm_rows ?quads perm)) \<subseteq> set ?quads" for P perm
    using mset_eq_setD [OF perm_rows_mset [of ?quads perm]] by auto
  consider "?perm = Spog" | "?perm \<noteq> Spog" "length ?quads < (hi - lo) * 4" | "?perm \<noteq> Spog" "\<not> length ?quads < (hi - lo) * 4" by blast
  then show thesis
  proof cases
    case 1
    then show ?thesis using run sub
      by (intro that [of Sequential lo hi]) (simp_all add: candidate_access_of_def access_order_def)
  next
    case 2
    then show ?thesis using run
      by (intro that [of Sequential 0 "length ?quads"]) (simp_all add: candidate_access_of_def access_order_def access_rows_def slice_range_def perm_rows_def)
  next
    case 3
    then show ?thesis using run sub
      by (intro that [of "Permuted ?perm" lo hi]) (simp_all add: candidate_access_of_def access_order_def)
  qed
qed

lemma key_filter:
  assumes "set rows \<subseteq> set quads" "table_ok quads" "valid_pattern pat"
  shows "filter (key_matches (quad_key_of pat)) rows = filter (matches_pattern pat) rows"
  using assms by (intro filter_cong) (auto simp: table_ok_def misses_matches)

lemma with_plan_rows: "quads_for_pattern_with_plan d plan pat
    = map_option (\<lambda>(access, lo, hi). filter (key_matches (quad_key_of pat)) (access_rows (fd_quads d) access lo hi)) (candidate_access_of d plan pat)"
  by (auto simp: quads_for_pattern_with_plan_def access_rows_def scan_matches_filter Let_def split: candidate_access.splits intro!: map_option_cong)

lemma indexed_rows:
  assumes "table_ok (fd_quads d)" "valid_pattern pat"
  obtains access lo hi where "candidate_access_of d (plan_of pat) pat = Some (access, lo, hi)"
    "quads_for_pattern_indexed d pat = Some (filter (matches_pattern pat) (perm_rows (fd_quads d) (access_order access)))"
proof -
  obtain access lo hi where a: "candidate_access_of d (plan_of pat) pat = Some (access, lo, hi)"
    "filter (matches_pattern pat) (access_rows (fd_quads d) access lo hi) = filter (matches_pattern pat) (perm_rows (fd_quads d) (access_order access))"
    "set (access_rows (fd_quads d) access lo hi) \<subseteq> set (fd_quads d)"
    by (rule query_access [OF assms])
  then show thesis using key_filter [OF a(3) assms]
    by (intro that [OF a(1)]) (simp add: quads_for_pattern_indexed_def with_plan_rows)
qed

lemma estimate_exact:
  assumes "table_ok (fd_quads d)" "valid_pattern pat"
  shows "cardinality_estimate d pat = Some (length (filter (matches_pattern pat) (fd_quads d)))"
  by (rule query_run [OF assms]) (simp add: cardinality_estimate_def)

section \<open>The owned cursor\<close>

definition cursor_left :: "frozen_dataset \<Rightarrow> quad_cursor \<Rightarrow> quad_row list" where
  "cursor_left d c = filter (key_matches (qc_key c)) (access_rows (fd_quads d) (qc_access c) (qc_next c) (qc_end c))"

lemma slice_drop: "drop n (slice_range i j xs) = slice_range (i + n) j xs"
  by (simp add: slice_range_def drop_take add.commute)

lemma slice_first: "i < j \<Longrightarrow> j \<le> length xs \<Longrightarrow> slice_range i j xs = xs ! i # slice_range (i + 1) j xs"
  unfolding slice_range_def by (subst Cons_nth_drop_Suc [symmetric]) (simp_all add: Suc_diff_Suc take_Cons')

lemma filter_position:
  "filter P xs = (case position P xs of None \<Rightarrow> [] | Some n \<Rightarrow> xs ! n # filter P (drop (n + 1) xs))"
  by (induction xs) (auto split: option.splits)

lemma cursor_permuted_spec:
  assumes "limit \<le> length order"
  shows "case cursor_permuted quads order k next limit of (row, n) \<Rightarrow>
    filter (key_matches k) (map (\<lambda>i. quads ! i) (slice_range next limit order)) =
      (case row of None \<Rightarrow> [] | Some q \<Rightarrow> q # filter (key_matches k) (map (\<lambda>i. quads ! i) (slice_range n limit order)))"
  using assms
proof (induction quads order k "next" limit rule: cursor_permuted.induct)
  case (1 quads order k "next" limit)
  show ?case
  proof (cases "next < limit")
    case True
    then have "slice_range next limit order = order ! next # slice_range (next + 1) limit order"
      using slice_first 1(2) by blast
    then show ?thesis using 1(1) [OF True refl _ 1(2)] True by (subst cursor_permuted.simps) (auto simp: Let_def)
  qed (subst cursor_permuted.simps, simp add: slice_range_def)
qed

text \<open>A call returns the first row left and leaves the rest.\<close>

lemma cursor_next_spec:
  assumes "qc_end c \<le> length (fd_quads d)" "cursor_next d c = (row, c')"
  shows "cursor_left d c = (case row of None \<Rightarrow> [] | Some q \<Rightarrow> q # cursor_left d c')" "qc_end c' = qc_end c"
proof -
  have "cursor_left d c = (case row of None \<Rightarrow> [] | Some q \<Rightarrow> q # cursor_left d c') \<and> qc_end c' = qc_end c"
  proof (cases "qc_access c")
    case Sequential
    let ?rows = "slice_range (qc_next c) (qc_end c) (fd_quads d)"
    have "first_match (qc_key c) ?rows = position (key_matches (qc_key c)) ?rows"
      by (simp add: first_match_def first_match_position option.map_ident)
    then show ?thesis using assms(2) Sequential filter_position [of "key_matches (qc_key c)" ?rows]
      by (auto simp: cursor_next_def cursor_left_def access_rows_def slice_drop add.assoc Let_def split: option.splits)
  next
    case (Permuted perm)
    then show ?thesis using assms cursor_permuted_spec [of "qc_end c" "permutation (fd_quads d) perm" "qc_key c" "fd_quads d" "qc_next c"]
      by (auto simp: cursor_next_def cursor_left_def access_rows_def permutation_length split: prod.splits option.splits)
  qed
  then show "cursor_left d c = (case row of None \<Rightarrow> [] | Some q \<Rightarrow> q # cursor_left d c')" "qc_end c' = qc_end c" by blast+
qed

lemma cursor_rows_left: "qc_end c \<le> length (fd_quads d) \<Longrightarrow> cursor_rows n d c = take n (cursor_left d c)"
proof (induction n arbitrary: c)
  case (Suc n)
  obtain row c' where "next": "cursor_next d c = (row, c')" by fastforce
  show ?case using cursor_next_spec [OF Suc.prems "next"] Suc "next" by (cases row) auto
qed simp

lemma cursor_query:
  assumes "table_ok (fd_quads d)" "valid_pattern pat"
  obtains c where "new_cursor d pat = Some c"
    "quads_for_pattern_indexed d pat = Some (cursor_left d c)" "qc_end c \<le> length (fd_quads d)"
proof -
  obtain access lo hi where a: "candidate_access_of d (plan_of pat) pat = Some (access, lo, hi)" "hi \<le> length (fd_quads d)"
    by (rule query_access [OF assms])
  then show thesis
    by (intro that [of "\<lparr>qc_access = access, qc_next = lo, qc_end = hi, qc_key = quad_key_of pat\<rparr>"])
      (simp_all add: new_cursor_def quads_for_pattern_indexed_def with_plan_rows cursor_left_def)
qed

section \<open>The certified order\<close>

lemma row_key_inj:
  assumes "valid_row a" "valid_row b" "row_key (perm_axes perm) a = row_key (perm_axes perm) b"
  shows "a = b"
proof -
  have "axis_key x a = axis_key x b" for x using assms(3) by (cases perm; cases x) (simp_all add: perm_axes_def row_key_def)
  from this [of AxisS] this [of AxisP] this [of AxisO] this [of AxisG] assms(1,2) show ?thesis
    by (cases a; cases b) (auto simp: axis_key_def index_plus valid_row_def split: option.splits)
qed

lemma rows_ascend:
  assumes "table_ok quads"
  shows "sorted_wrt (\<lambda>a b. compare_quads (perm_axes perm) a b = Less) (perm_rows quads perm)"
proof -
  have "set (perm_rows quads perm) = set quads" "distinct (perm_rows quads perm)"
    using mset_eq_setD [OF perm_rows_mset [of quads perm]] mset_eq_imp_distinct_iff [OF perm_rows_mset [of quads perm]] assms
    by (auto simp: table_ok_def)
  then have "distinct (map (row_key (perm_axes perm)) (perm_rows quads perm))"
    using assms row_key_inj unfolding distinct_map table_ok_def by (auto intro!: inj_onI)
  with perm_rows_sorted [OF assms, of perm] have "sorted_wrt (<) (map (row_key (perm_axes perm)) (perm_rows quads perm))"
    by (simp add: strict_sorted_iff)
  then show ?thesis unfolding sorted_wrt_map by (simp add: compare_quads_cmp)
qed

lemma bound_prefix: "a \<in> set (take (pp_prefix (plan_of pat)) (perm_axes (pp_perm (plan_of pat)))) \<longleftrightarrow> key_of pat a \<noteq> None"
  unfolding plan_exact by simp

text \<open>A matching row rebuilds the pattern.\<close>

lemma probe_certified:
  assumes "valid_row a" "valid_row b" "valid_pattern pat" "matches_pattern pat a" "matches_pattern pat b"
  shows "compare_pattern_probe_rows d (plan_of pat) a b =
    map_option (\<lambda>(access, _, _). compare_quads (perm_axes (access_order access)) a b) (candidate_access_of d (plan_of pat) pat)"
proof -
  let ?prefix = "take (pp_prefix (plan_of pat)) (perm_axes (pp_perm (plan_of pat)))"
  have "axis_key x a = axis_key x b" if "x \<in> set ?prefix" for x
  proof -
    from that obtain k where k: "key_of pat x = Some k" unfolding bound_prefix by blast
    have "axis_key x a = k" "axis_key x b = k" using assms key_matches_axis [OF _ assms(3) k] by (auto simp: matches_axes)
    then show ?thesis by simp
  qed
  then have "row_key ?prefix a = row_key ?prefix b" by (simp add: row_key_def)
  then have eq: "compare_quads ?prefix a b = Equal" by (simp add: compare_quads_cmp)
  have "(if AxisS \<in> set ?prefix then Some (qr_s a) else None) = qp_s pat" "(if AxisP \<in> set ?prefix then Some (qr_p a) else None) = qp_p pat"
    "(if AxisO \<in> set ?prefix then Some (qr_o a) else None) = qp_o pat"
    "(if AxisG \<in> set ?prefix then (case qr_g a of None \<Rightarrow> DefaultG | Some t \<Rightarrow> NamedG t) else AnyG) = qp_g pat"
    using assms(4) unfolding bound_prefix
    by (auto simp: key_of_def matches_pattern_def graph_matches_def split: quad_graph.splits option.splits)
  moreover have "\<lparr>qp_s = qp_s pat, qp_p = qp_p pat, qp_o = qp_o pat, qp_g = qp_g pat\<rparr> = pat" by simp
  ultimately show ?thesis unfolding compare_pattern_probe_rows_def Let_def eq
    by (simp only: ordering.case access_order_def)
qed

lemma rows_certified:
  assumes "table_ok (fd_quads d)" "valid_pattern pat" "quads_for_pattern_indexed d pat = Some rows"
  shows "sorted_wrt (\<lambda>a b. compare_pattern_probe_rows d (plan_of pat) a b = Some Less) rows"
proof -
  obtain access lo hi where a: "candidate_access_of d (plan_of pat) pat = Some (access, lo, hi)"
    "rows = filter (matches_pattern pat) (perm_rows (fd_quads d) (access_order access))"
    by (rule indexed_rows [OF assms(1,2)]) (use assms(3) in auto)
  have valid: "valid_row q \<and> matches_pattern pat q" if "q \<in> set rows" for q
    using that mset_eq_setD [OF perm_rows_mset [of "fd_quads d" "access_order access"]] assms(1) unfolding a(2) table_ok_def by auto
  have "sorted_wrt (\<lambda>a b. compare_quads (perm_axes (access_order access)) a b = Less) rows"
    unfolding a(2) by (rule sorted_wrt_filter [OF rows_ascend [OF assms(1)]])
  then show ?thesis
    by (rule sorted_wrt_mono_rel [rotated]) (simp add: probe_certified valid assms(2) a(1))
qed

end
