(* ===== verification/QuadStatements.thy ===== *)
theory QuadStatements
  imports QuadRows
begin

text \<open>
  The statement tables of \<open>QuadTable\<close>: every lookup of reifier and annotation rows, through an ordinal
  order or a bisection of the table, is the filter of the full walk, in its order; the graph registry.
\<close>

section \<open>Runs in table order\<close>

text \<open>The rows of one key come out of a sort as they stand in the table.\<close>

lemma filter_sort_key_id:
  fixes rows :: "'a::linorder list" and f :: "'a \<Rightarrow> 'b::linorder"
  assumes "sorted rows" "\<And>a b. P a \<Longrightarrow> P b \<Longrightarrow> a \<le> b \<Longrightarrow> f a \<le> f b"
  shows "filter P (sort_key f rows) = filter P rows"
proof -
  have "sorted_wrt (\<lambda>a b. f a \<le> f b) (filter P rows)"
    by (rule sorted_wrt_mono_rel [OF _ sorted_wrt_filter [OF assms(1)]]) (simp add: assms(2))
  then show ?thesis by (simp add: filter_sort sort_key_id_if_sorted sorted_map)
qed

lemma sorted_keys: "sorted rows \<Longrightarrow> (\<And>a b. a \<le> b \<Longrightarrow> key a \<le> key b) \<Longrightarrow> sorted (map key rows)"
  unfolding sorted_map by (rule sorted_wrt_mono_rel [rotated])

lemma first_le: "a \<le> b \<Longrightarrow> fst a \<le> fst b" for a b :: "'a::linorder \<times> 'b::linorder"
  by (auto simp: less_eq_prod_def)

text \<open>The bisected start and the walk that stops at the first other key.\<close>

lemma walk_run:
  fixes key :: "'a \<Rightarrow> 'k::linorder"
  assumes "sorted (map key rows)"
  shows "takeWhile (\<lambda>r. key r = t) (drop (partition_point (\<lambda>r. key r < t) rows) rows) = filter (\<lambda>r. key r = t) rows"
proof -
  have "takeWhile (\<lambda>r. key r = t) (dropWhile (\<lambda>r. key r < t) rows) = filter (\<lambda>r. key r = t) rows"
    using assms
  proof (induction rows)
    case (Cons x xs)
    then have above: "\<forall>y\<in>set xs. key x \<le> key y" and s: "sorted (map key xs)" by auto
    consider "key x < t" | "key x = t" | "t < key x" by force
    then show ?case
    proof cases
      case 2
      then have "dropWhile (\<lambda>r. key r < t) xs = xs" using above by (cases xs) auto
      then show ?thesis using 2 Cons.IH [OF s] by simp
    next
      case 3
      then have "filter (\<lambda>r. key r = t) xs = []" using above by (auto simp: filter_empty_conv)
      then show ?thesis using 3 by auto
    qed (use Cons.IH [OF s] in auto)
  qed simp
  then show ?thesis by (simp add: partition_sorted(1) [OF assms] dropWhile_eq_drop)
qed

lemma first_run:
  fixes rows :: "('k::linorder \<times> 'b::linorder) list"
  assumes "sorted rows"
  shows "takeWhile (\<lambda>row. fst row = t) (drop (partition_point (\<lambda>row. fst row < t) rows) rows) = filter (\<lambda>row. fst row = t) rows"
    "partition_point (\<lambda>row. fst row \<le> t) rows - partition_point (\<lambda>row. fst row < t) rows = length (filter (\<lambda>row. fst row = t) rows)"
proof -
  have keys: "sorted (map fst rows)" by (rule sorted_keys [OF assms first_le])
  show "takeWhile (\<lambda>row. fst row = t) (drop (partition_point (\<lambda>row. fst row < t) rows) rows) = filter (\<lambda>row. fst row = t) rows"
    by (rule walk_run [OF keys])
  show "partition_point (\<lambda>row. fst row \<le> t) rows - partition_point (\<lambda>row. fst row < t) rows = length (filter (\<lambda>row. fst row = t) rows)"
    by (rule run_filter(2) [OF keys])
qed

section \<open>The orders of the statement rows\<close>

lemma compare_reifier_targets_cmp:
  "compare_reifier_targets a b = cmp (fst (snd a), fst a, snd (snd a)) (fst (snd b), fst b, snd (snd b))"
  by (simp add: compare_reifier_targets_def split: prod.splits)

lemma compare_masked_cmp: "compare_masked components bound a b = cmp (masked_key (components a) bound, a) (masked_key (components b) bound, b)"
  by (auto simp: compare_masked_def cmp_def)

lemma pair_first_le: "(x, y) \<le> (x', y') \<Longrightarrow> x \<le> x'" for x :: "'a::linorder" and y :: "'b::linorder"
  by auto

interpretation target_index: ordinal_index "\<lambda>s. build_ordinals compare_reifier_targets" "\<lambda>s :: unit. fst \<circ> snd"
proof
  show "mset (build_ordinals compare_reifier_targets rows) = mset [0..<length rows]"
    "sorted (map (\<lambda>i. (fst \<circ> snd) (rows ! i)) (build_ordinals compare_reifier_targets rows))" for s :: unit and rows
    by (rule build_ordinals_order, rule compare_reifier_targets_cmp, auto)+
qed

interpretation masked_index: ordinal_index "\<lambda>(components, bound). build_ordinals (compare_masked components bound)"
  "\<lambda>(components :: 'a::linorder \<Rightarrow> u32 \<times> u32 \<times> u32, bound) row. masked_key (components row) bound"
proof
  fix s :: "('a \<Rightarrow> u32 \<times> u32 \<times> u32) \<times> nat" and rows :: "'a list"
  obtain components bound where s: "s = (components, bound)" by fastforce
  show "mset ((case s of (components, bound) \<Rightarrow> build_ordinals (compare_masked components bound)) rows) = mset [0..<length rows]"
    "sorted (map (\<lambda>i. (case s of (components, bound) \<Rightarrow> \<lambda>row. masked_key (components row) bound) (rows ! i))
      ((case s of (components, bound) \<Rightarrow> build_ordinals (compare_masked components bound)) rows))"
    unfolding s prod.case by (rule build_ordinals_order, rule compare_masked_cmp, erule pair_first_le)+
qed

lemma target_rows:
  assumes "sorted (fd_reifiers d)"
  shows "reifier_rows_for_target d t = filter (\<lambda>row. fst (snd row) = t) (fd_reifiers d)"
proof -
  have "reifier_rows_for_target d t = filter (\<lambda>row. fst (snd row) = t) (sort_key (\<lambda>a. (fst (snd a), fst a, snd (snd a))) (fd_reifiers d))"
    using target_index.run_rows [of "fd_reifiers d" t] build_ordinals_rows [OF compare_reifier_targets_cmp, where rows = "fd_reifiers d"]
    by (simp add: reifier_rows_for_target_def Let_def)
  also have "\<dots> = filter (\<lambda>row. fst (snd row) = t) (fd_reifiers d)"
    by (rule filter_sort_key_id [OF assms]) (auto simp: less_eq_prod_def)
  finally show ?thesis .
qed

definition components_match :: "component_pattern \<Rightarrow> u32 \<times> u32 \<times> u32 \<Rightarrow> bool" where
  "components_match = (\<lambda>(s, p, q) (a, b, c). (s = None \<or> s = Some a) \<and> (p = None \<or> p = Some b) \<and> (q = None \<or> q = Some c))"

lemma masked_key_matches: "masked_key components (component_mask pat) = pat \<longleftrightarrow> components_match pat components"
proof -
  have bits: "bit (component_mask pat) 0 \<longleftrightarrow> fst pat \<noteq> None" "bit (component_mask pat) (Suc 0) \<longleftrightarrow> fst (snd pat) \<noteq> None"
    "bit (component_mask pat) 2 \<longleftrightarrow> snd (snd pat) \<noteq> None"
    by (auto simp: component_mask_def bit_or_iff bit_push_bit_iff bit_Suc_0_iff split: prod.splits)
  show ?thesis using bits
    by (cases components; cases pat) (auto simp: masked_key_def components_match_def)
qed

lemma component_mask_zero: "component_mask pat = 0 \<longleftrightarrow> pat = (None, None, None)"
  by (cases pat) (auto simp: component_mask_def or_eq_0_iff)

lemma masked_rows_filter:
  fixes rows :: "'a::linorder list"
  assumes "sorted rows" "indexed \<or> pat = (None, None, None)"
  shows "masked_rows rows indexed pat components = filter (\<lambda>row. components_match pat (components row)) rows"
proof (cases indexed)
  case True
  let ?key = "\<lambda>row. masked_key (components row) (component_mask pat)"
  have tests: "(cmp (?key r) pat = Less) = (?key r < pat)" "(cmp (?key r) pat \<noteq> Greater) = (?key r \<le> pat)" for r
    by (auto simp: not_less)
  have "masked_rows rows indexed pat components = filter (\<lambda>row. ?key row = pat) (sort_key (\<lambda>row. (?key row, row)) rows)"
    using masked_index.run_rows [of rows "(components, component_mask pat)" pat] build_ordinals_rows [OF compare_masked_cmp [of components "component_mask pat"], where rows = rows] True
    by (simp add: masked_rows_def ordinal_range_def tests Let_def del: cmp_simps)
  also have "\<dots> = filter (\<lambda>row. ?key row = pat) rows" by (rule filter_sort_key_id [OF assms(1)]) auto
  finally show ?thesis by (simp add: masked_key_matches)
next
  case False
  then have pat: "pat = (None, None, None)" using assms(2) by blast
  have mask: "component_mask pat = 0" unfolding component_mask_zero by (rule pat)
  have "takeWhile (\<lambda>_. False) rows = []" "length (takeWhile (\<lambda>_. True) rows) = length rows" by (induction rows) auto
  then have "partition_point (\<lambda>_. False) rows = 0" "partition_point (\<lambda>_. True) rows = length rows" by (simp_all add: partition_point_eq)
  then show ?thesis using False pat mask
    by (simp add: masked_rows_def ordinal_range_def slice_range_def masked_key_def components_match_def split_def)
qed

section \<open>Lookups\<close>

text \<open>The components of a term that the caller knows to be a triple term.\<close>

definition target_parts :: "frozen_dataset \<Rightarrow> u32 \<Rightarrow> u32 \<times> u32 \<times> u32" where
  "target_parts d t = the (triple_components (fd_terms d) t)"

text \<open>What the freeze establishes for the statement tables and the registry.\<close>

definition statements_ok :: "frozen_dataset \<Rightarrow> bool" where
  "statements_ok d \<longleftrightarrow> (\<forall>(_, t, _)\<in>set (fd_reifiers d). triple_components (fd_terms d) t \<noteq> None) \<and> sorted (fd_reifiers d) \<and> sorted (fd_annotations d) \<and> sorted_wrt (<) (fd_named_graphs d) \<and>
     (\<forall>q\<in>set (fd_quads d). \<forall>g. qr_g q = Some g \<longrightarrow> g \<in> set (fd_named_graphs d)) \<and>
     (\<forall>(_, _, graph)\<in>set (fd_reifiers d). \<forall>g. graph = Some g \<longrightarrow> g \<in> set (fd_named_graphs d)) \<and>
     (\<forall>(_, _, _, graph)\<in>set (fd_annotations d). \<forall>g. graph = Some g \<longrightarrow> g \<in> set (fd_named_graphs d))"

lemma virtual_filter:
  assumes "reifier_virtual d (fd_reifiers d) = Some quads"
  shows "reifier_virtual d (filter P (fd_reifiers d)) = Some (filter (\<lambda>q. P (qr_s q, qr_o q, qr_g q)) quads)"
    "map qr_s (filter (\<lambda>q. P (qr_s q, qr_o q, qr_g q)) quads) = map fst (filter P (fd_reifiers d))"
    "length (filter P (fd_reifiers d)) = length (filter (\<lambda>q. P (qr_s q, qr_o q, qr_g q)) quads)"
  using assms
  by (auto simp: reifier_virtual_def filter_map comp_def split_def split: option.splits if_splits)

lemma virtual_predicate: "reifier_virtual d rows = Some quads \<Longrightarrow> q \<in> set quads \<Longrightarrow> rdf_reifies_id d = Some (qr_p q)"
  by (auto simp: reifier_virtual_def split: option.splits if_splits)

lemma component_rows:
  assumes "statements_ok d"
  shows "reifier_component_rows d cs = Some (filter (\<lambda>row. components_match cs (target_parts d (fst (snd row)))) (fd_reifiers d))"
proof -
  have sorted: "sorted (fd_reifiers d)" and all: "\<forall>row\<in>set (fd_reifiers d). triple_components (fd_terms d) (fst (snd row)) \<noteq> None"
    using assms by (auto simp: statements_ok_def)
  have "component_mask cs \<noteq> 0 \<or> cs = (None, None, None)" by (simp add: component_mask_zero)
  then show ?thesis unfolding reifier_component_rows_def if_P [OF all] target_parts_def by (simp only: masked_rows_filter [OF sorted])
qed

lemma reifier_lookups:
  assumes "statements_ok d" "rd_reifier_quads d = Some quads"
  shows "rd_reifier_quads_of d r = Some (filter (\<lambda>q. qr_s q = r) quads)"
    "rd_reifier_quads_for_target d t g = Some (filter (\<lambda>q. qr_o q = t \<and> graph_matches g (qr_g q)) quads)"
    "rd_reifier_quads_for_components d cs g = Some (filter (\<lambda>q. components_match cs (target_parts d (qr_o q)) \<and> graph_matches g (qr_g q)) quads)"
    "reifiers_of d t = map qr_s (filter (\<lambda>q. qr_o q = t) quads)"
proof -
  have sorted: "sorted (fd_reifiers d)" using assms(1) by (simp add: statements_ok_def)
  note all = assms(2) [unfolded rd_reifier_quads_def]
  note virtual = virtual_filter [OF all]
  show "rd_reifier_quads_of d r = Some (filter (\<lambda>q. qr_s q = r) quads)"
    unfolding rd_reifier_quads_of_def first_run(1) [OF sorted] virtual by simp
  show "rd_reifier_quads_for_target d t g = Some (filter (\<lambda>q. qr_o q = t \<and> graph_matches g (qr_g q)) quads)"
    unfolding rd_reifier_quads_for_target_def target_rows [OF sorted] filter_filter virtual by (simp add: split_def conj_commute)
  show "rd_reifier_quads_for_components d cs g = Some (filter (\<lambda>q. components_match cs (target_parts d (qr_o q)) \<and> graph_matches g (qr_g q)) quads)"
    unfolding rd_reifier_quads_for_components_def component_rows [OF assms(1)]
    by (simp add: virtual split_def conj_commute)
  show "reifiers_of d t = map qr_s (filter (\<lambda>q. qr_o q = t) quads)"
    unfolding reifiers_of_def target_rows [OF sorted] by (simp add: virtual(2) [symmetric])
qed

lemma annotation_lookups:
  assumes "statements_ok d"
  shows "rd_annotation_quads_for_pattern d p t g =
      filter (\<lambda>q. (p = None \<or> p = Some (qr_p q)) \<and> (t = None \<or> t = Some (qr_o q)) \<and> graph_matches g (qr_g q)) (rd_annotation_quads d)"
    "rd_annotations_of_with_graph d r = map (\<lambda>q. (qr_p q, qr_o q, qr_g q)) (filter (\<lambda>q. qr_s q = r) (rd_annotation_quads d))"
proof -
  have sorted: "sorted (fd_annotations d)" using assms(1) by (simp add: statements_ok_def)
  have indexed: "drop_bit 1 (component_mask (None, p, t)) \<noteq> 0 \<or> (None, p, t) = (None :: u32 option, None :: u32 option, None :: u32 option)"
    by (cases p; cases t) (auto simp: component_mask_def)
  show "rd_annotation_quads_for_pattern d p t g =
      filter (\<lambda>q. (p = None \<or> p = Some (qr_p q)) \<and> (t = None \<or> t = Some (qr_o q)) \<and> graph_matches g (qr_g q)) (rd_annotation_quads d)"
    unfolding rd_annotation_quads_for_pattern_def Let_def masked_rows_filter [OF sorted indexed]
    by (simp add: rd_annotation_quads_def annotation_virtual_def filter_map comp_def split_def components_match_def conj_commute conj_left_commute)
  show "rd_annotations_of_with_graph d r = map (\<lambda>q. (qr_p q, qr_o q, qr_g q)) (filter (\<lambda>q. qr_s q = r) (rd_annotation_quads d))"
    unfolding rd_annotations_of_with_graph_def first_run(1) [OF sorted]
    by (simp add: rd_annotation_quads_def annotation_virtual_def filter_map comp_def split_def)
qed

section \<open>The graph registry\<close>

lemma graph_search_spec:
  assumes "sorted_wrt (<) graphs" "hi \<le> length graphs"
  shows "graph_search g graphs lo hi \<longleftrightarrow> (\<exists>i. lo \<le> i \<and> i < hi \<and> graphs ! i = g)"
  using assms
proof (induction g graphs lo hi rule: graph_search.induct)
  case (1 g graphs lo hi)
  have mono: "i < j \<Longrightarrow> j < length graphs \<Longrightarrow> graphs ! i < graphs ! j" for i j
    by (rule sorted_wrt_nth_less [OF 1(3)])
  have less: "graphs ! i < graphs ! j \<longleftrightarrow> i < j" if "i < length graphs" "j < length graphs" for i j
    using mono [of i j] mono [of j i] that by (metis less_asym linorder_neqE_nat less_irrefl)
  let ?m = "lo + (hi - lo) div 2"
  show ?case
  proof (cases "lo < hi")
    case True
    then have m: "?m < hi" "lo \<le> ?m" by linarith+
    consider "graphs ! ?m < g" | "g < graphs ! ?m" | "graphs ! ?m = g" by force
    then show ?thesis
    proof cases
      case a: 1
      have ne: "graphs ! i \<noteq> g" if "i \<le> ?m" for i using less [of ?m i] a m that 1(4) by auto
      have "lo \<le> i \<and> i < hi \<and> graphs ! i = g \<longleftrightarrow> ?m + 1 \<le> i \<and> i < hi \<and> graphs ! i = g" for i
        using ne [of i] m by (cases "i \<le> ?m") auto
      then show ?thesis using 1(1) [OF True refl a 1(3,4)] True a by (subst graph_search.simps) (simp add: Let_def)
    next
      case a: 2
      have ne: "graphs ! i \<noteq> g" if "?m \<le> i" "i < hi" for i using less [of i ?m] a m that 1(4) by auto
      have "lo \<le> i \<and> i < hi \<and> graphs ! i = g \<longleftrightarrow> lo \<le> i \<and> i < ?m \<and> graphs ! i = g" for i
        using ne [of i] m by (cases "i < ?m") auto
      then show ?thesis using 1(2) [OF True refl less_not_sym [OF a] a 1(3)] 1(4) m True a less_not_sym [OF a] by (subst graph_search.simps) (simp add: Let_def)
    next
      case a: 3
      then have "\<exists>i. lo \<le> i \<and> i < hi \<and> graphs ! i = g" using m by blast
      then show ?thesis using a True by (subst graph_search.simps) (simp add: Let_def)
    qed
  qed (subst graph_search.simps, simp)
qed

lemma has_named_graph_spec: "statements_ok d \<Longrightarrow> rd_has_named_graph d g \<longleftrightarrow> g \<in> set (fd_named_graphs d)"
  using graph_search_spec [of "fd_named_graphs d" "length (fd_named_graphs d)" g 0] by (auto simp: rd_has_named_graph_def statements_ok_def in_set_conv_nth)

lemma row_count_spec:
  assumes "table_ok (fd_quads d)" "g \<noteq> 0"
  shows "named_graph_row_count d g = Some (length (filter (\<lambda>q. qr_g q = Some g) (fd_quads d))
    + length (filter (\<lambda>(_, _, h). h = Some g) (fd_reifiers d)) + length (filter (\<lambda>(_, _, _, h). h = Some g) (fd_annotations d)))"
proof -
  let ?pat = "\<lparr>qp_s = None, qp_p = None, qp_o = None, qp_g = NamedG g\<rparr>"
  have valid: "valid_pattern ?pat" using assms(2) by (simp add: valid_pattern_def)
  have "matches_pattern ?pat = (\<lambda>q. qr_g q = Some g)" by (rule ext) (simp add: matches_pattern_def graph_matches_def)
  moreover obtain lo hi where "candidate_run d (plan_of ?pat) ?pat = Some (pp_perm (plan_of ?pat), lo, hi)"
    "hi - lo = length (filter (matches_pattern ?pat) (fd_quads d))"
    by (rule query_run [OF assms(1) valid])
  ultimately show ?thesis by (simp add: named_graph_row_count_def filter_map comp_def split_def)
qed

section \<open>The statement estimate\<close>

text \<open>The virtual quads of a pattern: reifier rows also by the components of their triple term.\<close>

definition statement_matches :: "frozen_dataset \<Rightarrow> quad_pattern \<Rightarrow> component_pattern \<Rightarrow> quad_row list" where
  "statement_matches d pat components =
     filter (\<lambda>q. matches_pattern pat q \<and> components_match components (target_parts d (qr_o q))) (case rd_reifier_quads d of None \<Rightarrow> [] | Some quads \<Rightarrow> quads)
     @ filter (matches_pattern pat) (rd_annotation_quads d)"

lemma length_filter_le2: "(\<And>x. x \<in> set xs \<Longrightarrow> P x \<Longrightarrow> Q x) \<Longrightarrow> length (filter P xs) \<le> length (filter Q xs)"
  by (induction xs) (auto intro: le_SucI)

lemma annotation_quads_count: "length (filter P (rd_annotation_quads d)) = length (filter (\<lambda>(r, p, q, g). P \<lparr>qr_s = r, qr_p = p, qr_o = q, qr_g = g\<rparr>) (fd_annotations d))"
  by (simp add: rd_annotation_quads_def annotation_virtual_def filter_map comp_def split_def)

lemma absent_graph:
  assumes "statements_ok d" "qp_g pat = NamedG g" "g \<notin> set (fd_named_graphs d)"
  shows "statement_matches d pat components = []"
proof -
  have "qr_g q \<noteq> Some g" if "rd_reifier_quads d = Some quads" "q \<in> set quads" for q quads
    using assms that by (fastforce simp: rd_reifier_quads_def reifier_virtual_def statements_ok_def split: if_splits option.splits)
  moreover have "qr_g q \<noteq> Some g" if "q \<in> set (rd_annotation_quads d)" for q
    using assms that by (fastforce simp: rd_annotation_quads_def annotation_virtual_def statements_ok_def)
  ultimately show ?thesis using assms(2)
    by (cases "rd_reifier_quads d") (auto simp: statement_matches_def matches_pattern_def graph_matches_def filter_empty_conv)
qed

text \<open>The estimate never undershoots.\<close>

lemma reifier_bound:
  assumes "statements_ok d" "rd_reifier_quads d = Some quads"
  shows "\<exists>n. (if \<not> (case qp_p pat of None \<Rightarrow> True | Some p \<Rightarrow> Some p = rdf_reifies_id d) \<or> fd_reifiers d = [] then Some 0
        else case qp_s pat of
          Some r \<Rightarrow> Some (partition_point (\<lambda>row. fst row \<le> r) (fd_reifiers d) - partition_point (\<lambda>row. fst row < r) (fd_reifiers d))
        | None \<Rightarrow> (case qp_o pat of
            Some target \<Rightarrow> Some (length (reifier_rows_for_target d target))
          | None \<Rightarrow>
              if component_mask components = 0 then Some (length (fd_reifiers d))
              else map_option length (reifier_component_rows d components))) = Some n \<and>
    length (filter (\<lambda>q. matches_pattern pat q \<and> components_match components (target_parts d (qr_o q))) quads) \<le> n \<and> n \<le> length (fd_reifiers d)"
proof -
  have sorted: "sorted (fd_reifiers d)" using assms(1) by (simp add: statements_ok_def)
  note all = assms(2) [unfolded rd_reifier_quads_def]
  note count = virtual_filter(3) [OF all]
  have len: "length quads = length (fd_reifiers d)" using count [of "\<lambda>_. True"] by simp
  let ?may = "case qp_p pat of None \<Rightarrow> True | Some p \<Rightarrow> Some p = rdf_reifies_id d"
  let ?P = "\<lambda>row. case qp_s pat of Some r \<Rightarrow> fst row = r | None \<Rightarrow> (case qp_o pat of
    Some t \<Rightarrow> fst (snd row) = t | None \<Rightarrow> components_match components (target_parts d (fst (snd row))))"
  consider "\<not> ?may" | "fd_reifiers d = []" | "?may" "fd_reifiers d \<noteq> []" by blast
  then show ?thesis
  proof cases
    case 1
    then have "\<not> matches_pattern pat q" if "q \<in> set quads" for q
      using virtual_predicate [OF all that] by (auto simp: matches_pattern_def split: option.splits)
    then show ?thesis using 1 by (intro exI [of _ 0]) simp
  next
    case 3
    let ?n = "length (filter ?P (fd_reifiers d))"
    have n: "(case qp_s pat of
          Some r \<Rightarrow> Some (partition_point (\<lambda>row. fst row \<le> r) (fd_reifiers d) - partition_point (\<lambda>row. fst row < r) (fd_reifiers d))
        | None \<Rightarrow> (case qp_o pat of
            Some target \<Rightarrow> Some (length (reifier_rows_for_target d target))
          | None \<Rightarrow>
              if component_mask components = 0 then Some (length (fd_reifiers d))
              else map_option length (reifier_component_rows d components))) = Some ?n"
      unfolding first_run(2) [OF sorted] target_rows [OF sorted] component_rows [OF assms(1)]
      by (cases "qp_s pat"; cases "qp_o pat") (auto simp: component_mask_zero components_match_def split_def)
    have "?n = length (filter (\<lambda>q. ?P (qr_s q, qr_o q, qr_g q)) quads)" by (rule count)
    then have "length (filter (\<lambda>q. matches_pattern pat q \<and> components_match components (target_parts d (qr_o q))) quads) \<le> ?n"
      by (auto simp: matches_pattern_def split: option.splits intro!: length_filter_le2)
    then show ?thesis using 3 by (simp add: n)
  qed (use len in simp)
qed

lemma annotation_bound:
  assumes "statements_ok d"
    and n: "n = (case qp_s pat of
        Some r \<Rightarrow> partition_point (\<lambda>row. fst row \<le> r) (fd_annotations d) - partition_point (\<lambda>row. fst row < r) (fd_annotations d)
      | None \<Rightarrow>
          if qp_p pat = None \<and> qp_o pat = None then length (fd_annotations d)
          else length (masked_rows (fd_annotations d) (drop_bit 1 (component_mask (None, qp_p pat, qp_o pat)) \<noteq> 0)
            (None, qp_p pat, qp_o pat) (\<lambda>(r, p, q, _). (r, p, q))))"
  shows "length (filter (matches_pattern pat) (rd_annotation_quads d)) \<le> n \<and> n \<le> length (fd_annotations d)"
proof -
  have sorted: "sorted (fd_annotations d)" using assms(1) by (simp add: statements_ok_def)
  have indexed: "drop_bit 1 (component_mask (None, p, t)) \<noteq> 0 \<or> (None, p, t) = (None :: u32 option, None :: u32 option, None :: u32 option)" for p t
    by (cases p; cases t) (auto simp: component_mask_def)
  have n: "n = length (filter (\<lambda>row. (case qp_s pat of
      Some r \<Rightarrow> fst row = r
    | None \<Rightarrow> components_match (None, qp_p pat, qp_o pat) (fst row, fst (snd row), fst (snd (snd row))))) (fd_annotations d))"
    unfolding n first_run(2) [OF sorted] masked_rows_filter [OF sorted indexed]
    by (cases "qp_s pat") (simp_all add: split_def, simp add: components_match_def)
  have "length (filter (matches_pattern pat) (rd_annotation_quads d)) \<le> n" unfolding annotation_quads_count n
    by (auto simp: matches_pattern_def components_match_def split: option.splits intro!: length_filter_le2)
  then show ?thesis by (simp add: n)
qed

lemma statement_estimate:
  assumes "statements_ok d" "rd_reifier_quads d = Some quads" "length (fd_reifiers d) \<le> space_limit" "length (fd_annotations d) \<le> space_limit"
  obtains n where "rd_statement_cardinality_estimate d pat components = Some (Some n)" "length (statement_matches d pat components) \<le> n"
proof -
  note reifiers = reifier_bound [OF assms(1,2), of pat components]
  note annotations = annotation_bound [OF assms(1) refl, of pat]
  consider "fd_reifiers d = []" "fd_annotations d = []"
    | "\<not> (fd_reifiers d = [] \<and> fd_annotations d = [])" "case qp_g pat of NamedG g \<Rightarrow> \<not> rd_has_named_graph d g | _ \<Rightarrow> False"
    | "\<not> (fd_reifiers d = [] \<and> fd_annotations d = [])" "\<not> (case qp_g pat of NamedG g \<Rightarrow> \<not> rd_has_named_graph d g | _ \<Rightarrow> False)"
    by blast
  then show thesis
  proof cases
    case 1
    then have "quads = []" using virtual_filter(3) [OF assms(2) [unfolded rd_reifier_quads_def], of "\<lambda>_. True"] by simp
    then show ?thesis using 1 assms(2)
      by (intro that [of 0]) (simp_all add: rd_statement_cardinality_estimate_def statement_matches_def rd_annotation_quads_def annotation_virtual_def)
  next
    case 2
    then obtain g where "qp_g pat = NamedG g" "g \<notin> set (fd_named_graphs d)"
      by (cases "qp_g pat") (auto simp: has_named_graph_spec [OF assms(1)])
    then have "statement_matches d pat components = []" by (rule absent_graph [OF assms(1)])
    then show ?thesis using 2 by (intro that [of 0]) (simp_all add: rd_statement_cardinality_estimate_def)
  next
    case 3
    have limit: "space_limit + space_limit < 2 ^ 64" by (simp add: space_limit_def)
    obtain n where n: "length (filter (\<lambda>q. matches_pattern pat q \<and> components_match components (target_parts d (qr_o q))) quads) \<le> n" "n \<le> length (fd_reifiers d)"
      and eq: "(if \<not> (case qp_p pat of None \<Rightarrow> True | Some p \<Rightarrow> Some p = rdf_reifies_id d) \<or> fd_reifiers d = [] then Some 0
        else case qp_s pat of
          Some r \<Rightarrow> Some (partition_point (\<lambda>row. fst row \<le> r) (fd_reifiers d) - partition_point (\<lambda>row. fst row < r) (fd_reifiers d))
        | None \<Rightarrow> (case qp_o pat of
            Some target \<Rightarrow> Some (length (reifier_rows_for_target d target))
          | None \<Rightarrow>
              if component_mask components = 0 then Some (length (fd_reifiers d))
              else map_option length (reifier_component_rows d components))) = Some n" using reifiers by blast
    show ?thesis using add_mono [OF n(1) annotations [THEN conjunct1]] n(2) annotations [THEN conjunct2] assms(2,3,4) limit
      by (intro that) (unfold rd_statement_cardinality_estimate_def Let_def if_not_P [OF 3(1)] if_not_P [OF 3(2)] eq Option.bind.simps
        option.inject, rule if_P, linarith, simp add: statement_matches_def)
  qed
qed

end
