(* ===== verification/QuadValidate.thy ===== *)
theory QuadValidate
  imports QuadTable
begin

text \<open>
  The structural validation between the builder and the freeze (\<open>crates/rdf-core/src/ir/validate.rs\<close>):
  the recorded violations, the kinds of the terms of every row, and the depth-first search that bounds
  the nesting of triple terms and refuses cycles. A reference for what it must accept, and the proof that
  it accepts exactly that and never indexes out of the term table. An outer option is a panic.
\<close>

section \<open>Diagnostics\<close>

datatype structural_error =
    RelativeIri iri_error
  | InvalidLiteral literal_error
  | TermOutOfRange
  | LiteralSubject
  | TripleSubject
  | PredicateNotIri
  | GraphNameInvalid
  | NestingLimit
  | TripleCycle
  | ReifierNotTriple

type_synonym 'a checked = "(structural_error + 'a) option"

definition checked_bind :: "'a checked \<Rightarrow> ('a \<Rightarrow> 'b checked) \<Rightarrow> 'b checked" where
  "checked_bind m f = (case m of None \<Rightarrow> None | Some (Inl e) \<Rightarrow> Some (Inl e) | Some (Inr x) \<Rightarrow> f x)"

abbreviation passed :: "unit checked" where
  "passed \<equiv> Some (Inr ())"

abbreviation refused :: "structural_error \<Rightarrow> 'a checked" where
  "refused e \<equiv> Some (Inl e)"

definition also_check :: "unit checked \<Rightarrow> 'b checked \<Rightarrow> 'b checked" where
  "also_check m n = checked_bind m (\<lambda>_. n)"

fun check_each :: "('a \<Rightarrow> unit checked) \<Rightarrow> 'a list \<Rightarrow> unit checked" where
  "check_each f [] = passed"
| "check_each f (x # xs) = also_check (f x) (check_each f xs)"

section \<open>Positions\<close>

datatype term_kind = KindIri | KindBlank | KindLiteral | KindTriple

fun interned_kind :: "interned_term \<Rightarrow> term_kind" where
  "interned_kind (InternedIri _) = KindIri"
| "interned_kind (InternedBlank _ _) = KindBlank"
| "interned_kind (InternedLiteral _ _ _ _) = KindLiteral"
| "interned_kind (InternedTriple _ _ _) = KindTriple"

definition check_id_in_range :: "interned_term list \<Rightarrow> u32 \<Rightarrow> unit checked" where
  "check_id_in_range terms t = (if length terms \<le> unat (tid_index t) then refused TermOutOfRange else passed)"

definition check_graph_range :: "interned_term list \<Rightarrow> u32 option \<Rightarrow> unit checked" where
  "check_graph_range terms graph = (case graph of None \<Rightarrow> passed | Some g \<Rightarrow> check_id_in_range terms g)"

definition require_kind :: "(term_kind \<Rightarrow> structural_error option) \<Rightarrow> interned_term list \<Rightarrow> u32 \<Rightarrow> unit checked" where
  "require_kind rule terms t = map_option (\<lambda>x. case rule (interned_kind x) of Some e \<Rightarrow> Inl e | None \<Rightarrow> Inr ()) (term_at terms t)"

definition subject_rule :: "term_kind \<Rightarrow> structural_error option" where
  "subject_rule k = (case k of KindIri \<Rightarrow> None | KindBlank \<Rightarrow> None | KindLiteral \<Rightarrow> Some LiteralSubject | KindTriple \<Rightarrow> Some TripleSubject)"

definition predicate_rule :: "term_kind \<Rightarrow> structural_error option" where
  "predicate_rule k = (if k = KindIri then None else Some PredicateNotIri)"

definition graph_rule :: "term_kind \<Rightarrow> structural_error option" where
  "graph_rule k = (case k of KindIri \<Rightarrow> None | KindBlank \<Rightarrow> None | _ \<Rightarrow> Some GraphNameInvalid)"

definition require_subject :: "interned_term list \<Rightarrow> u32 \<Rightarrow> unit checked" where
  "require_subject = require_kind subject_rule"

definition require_iri_predicate :: "interned_term list \<Rightarrow> u32 \<Rightarrow> unit checked" where
  "require_iri_predicate = require_kind predicate_rule"

definition require_graph_name :: "interned_term list \<Rightarrow> u32 \<Rightarrow> unit checked" where
  "require_graph_name = require_kind graph_rule"

definition require_graph_slot :: "interned_term list \<Rightarrow> u32 option \<Rightarrow> unit checked" where
  "require_graph_slot terms graph = (case graph of None \<Rightarrow> passed | Some g \<Rightarrow> require_graph_name terms g)"

section \<open>Triple terms\<close>

definition MAX_TERM_NESTING_DEPTH :: nat where "MAX_TERM_NESTING_DEPTH = 16"

datatype visit_state = Unvisited | OnStack | Done nat

definition is_triple_id :: "interned_term list \<Rightarrow> u32 \<Rightarrow> bool option" where
  "is_triple_id terms t = map_option (\<lambda>x. interned_kind x = KindTriple) (term_at terms t)"

text \<open>The search from one term, and its loop over the three components.\<close>

function check_acyclic :: "interned_term list \<Rightarrow> u32 \<Rightarrow> nat \<Rightarrow> visit_state list \<Rightarrow> (nat \<times> visit_state list) checked"
  and check_nested :: "interned_term list \<Rightarrow> u32 list \<Rightarrow> nat \<Rightarrow> nat \<Rightarrow> visit_state list \<Rightarrow> (nat \<times> visit_state list) checked" where
  "check_acyclic terms t depth state =
     (if MAX_TERM_NESTING_DEPTH < depth then refused NestingLimit
      else let i = unat (tid_index t) in
        if length state \<le> i then None
        else case state ! i of
          Done nesting \<Rightarrow> Some (Inr (nesting, state))
        | OnStack \<Rightarrow> refused TripleCycle
        | Unvisited \<Rightarrow>
            (case term_at terms t of
               None \<Rightarrow> None
             | Some (InternedTriple s p ob) \<Rightarrow>
                 checked_bind (check_nested terms [s, p, ob] (depth + 1) 0 (state[i := OnStack])) (\<lambda>(deepest, state).
                 let nesting = deepest + 1 in
                 if MAX_TERM_NESTING_DEPTH < nesting then refused NestingLimit
                 else Some (Inr (nesting, state[i := Done nesting])))
             | Some _ \<Rightarrow> Some (Inr (0, state[i := Done 0]))))"
| "check_nested terms [] depth deepest state = Some (Inr (deepest, state))"
| "check_nested terms (c # cs) depth deepest state =
     (case is_triple_id terms c of
        None \<Rightarrow> None
      | Some False \<Rightarrow> check_nested terms cs depth deepest state
      | Some True \<Rightarrow>
          checked_bind (check_acyclic terms c depth state) (\<lambda>(nesting, state).
          check_nested terms cs depth (max deepest nesting) state))"
  by pat_completeness auto
termination
  by (relation "measures [\<lambda>x. case x of Inl (_, _, depth, _) \<Rightarrow> Suc MAX_TERM_NESTING_DEPTH - depth
      | Inr (_, _, depth, _, _) \<Rightarrow> Suc MAX_TERM_NESTING_DEPTH - depth,
    \<lambda>x. case x of Inl _ \<Rightarrow> 0 | Inr (_, cs, _, _, _) \<Rightarrow> Suc (length cs)]") auto

declare check_acyclic.simps [simp del] check_nested.simps(2) [simp del]

fun check_roots :: "interned_term list \<Rightarrow> nat \<Rightarrow> interned_term list \<Rightarrow> visit_state list \<Rightarrow> unit checked" where
  "check_roots terms raw [] state = passed"
| "check_roots terms raw (x # xs) state =
     (if interned_kind x = KindTriple
      then checked_bind (check_acyclic terms (tid_of_index raw) 0 state) (\<lambda>(_, state). check_roots terms (raw + 1) xs state)
      else check_roots terms (raw + 1) xs state)"

definition check_triple_positions :: "interned_term list \<Rightarrow> interned_term \<Rightarrow> unit checked" where
  "check_triple_positions terms x = (case x of
     InternedTriple s p ob \<Rightarrow>
       also_check (check_id_in_range terms s) (also_check (check_id_in_range terms p) (also_check (check_id_in_range terms ob)
       (also_check (require_subject terms s) (require_iri_predicate terms p))))
   | _ \<Rightarrow> passed)"

definition validate_triple_terms :: "interned_term list \<Rightarrow> unit checked" where
  "validate_triple_terms terms = also_check (check_each (check_triple_positions terms) terms)
     (check_roots terms 0 terms (replicate (length terms) Unvisited))"

section \<open>Rows\<close>

definition check_declared :: "interned_term list \<Rightarrow> u32 \<Rightarrow> unit checked" where
  "check_declared terms graph = also_check (check_id_in_range terms graph) (require_graph_name terms graph)"

definition check_quad :: "interned_term list \<Rightarrow> quad_row \<Rightarrow> unit checked" where
  "check_quad terms q =
     also_check (check_id_in_range terms (qr_s q)) (also_check (check_id_in_range terms (qr_p q)) (also_check (check_id_in_range terms (qr_o q))
     (also_check (check_graph_range terms (qr_g q))
     (also_check (require_subject terms (qr_s q)) (also_check (require_iri_predicate terms (qr_p q)) (require_graph_slot terms (qr_g q)))))))"

definition check_reifier :: "interned_term list \<Rightarrow> reif_row \<Rightarrow> unit checked" where
  "check_reifier terms = (\<lambda>(reifier, target, graph).
     also_check (check_id_in_range terms reifier) (also_check (check_id_in_range terms target)
     (also_check (require_subject terms reifier)
     (also_check (check_graph_range terms graph) (also_check (require_graph_slot terms graph)
     (require_kind (\<lambda>k. if k = KindTriple then None else Some ReifierNotTriple) terms target))))))"

definition check_annotation :: "interned_term list \<Rightarrow> annot_row \<Rightarrow> unit checked" where
  "check_annotation terms = (\<lambda>(reifier, p, ob, graph).
     also_check (check_id_in_range terms reifier) (also_check (check_id_in_range terms p) (also_check (check_id_in_range terms ob)
     (also_check (require_iri_predicate terms p) (also_check (require_subject terms reifier)
     (also_check (check_graph_range terms graph) (require_graph_slot terms graph)))))))"

definition validate_rows :: "dataset_builder \<Rightarrow> unit checked" where
  "validate_rows b =
     (let terms = in_terms (db_interner b) in
      case in_relative_iri (db_interner b) of
        Some (_, e) \<Rightarrow> refused (RelativeIri e)
      | None \<Rightarrow>
          (case db_invalid_literal b of
             Some e \<Rightarrow> refused (InvalidLiteral e)
           | None \<Rightarrow>
               also_check (validate_triple_terms terms)
               (also_check (check_each (check_declared terms) (db_declared b))
               (also_check (check_each (check_quad terms) (db_quads b))
               (also_check (check_each (check_reifier terms) (db_reifiers b))
               (check_each (check_annotation terms) (db_annotations b)))))))"

text \<open>Freeze: validate, then build the tables.\<close>

definition freeze :: "dataset_builder \<Rightarrow> frozen_dataset checked" where
  "freeze b = checked_bind (validate_rows b) (\<lambda>_. Some (Inr (materialize b)))"

section \<open>Nesting\<close>

text \<open>A chain of \<open>n\<close> triple terms from a term on, each a component of the one before.\<close>

fun nests :: "interned_term list \<Rightarrow> nat \<Rightarrow> u32 \<Rightarrow> bool" where
  "nests terms 0 t \<longleftrightarrow> True"
| "nests terms (Suc n) t \<longleftrightarrow> (case triple_components terms t of
     Some (s, p, ob) \<Rightarrow> nests terms n s \<or> nests terms n p \<or> nests terms n ob
   | None \<Rightarrow> False)"

lemma nests_less: "nests terms n t \<Longrightarrow> m \<le> n \<Longrightarrow> nests terms m t"
proof (induction n arbitrary: m t)
  case (Suc n)
  then show ?case by (cases m) (auto split: option.splits)
qed simp

lemma nests_component: "triple_components terms t = Some (s, p, ob) \<Longrightarrow> c \<in> {s, p, ob} \<Longrightarrow> nests terms m c \<Longrightarrow> nests terms (Suc m) t"
  by auto

lemma triple_components_at: "term_at terms t = Some (InternedTriple s p ob) \<Longrightarrow> triple_components terms t = Some (s, p, ob)"
  by (simp add: triple_components_def)

lemma triple_components_leaf: "is_triple_id terms t = Some False \<Longrightarrow> triple_components terms t = None"
  by (auto simp: is_triple_id_def triple_components_def split: interned_term.splits)

lemma is_triple_id_None: "is_triple_id terms t = None \<longleftrightarrow> length terms \<le> unat (tid_index t)"
  by (auto simp: is_triple_id_def term_at_def Let_def)

section \<open>The search decides the nesting\<close>

definition within_table :: "interned_term list \<Rightarrow> u32 \<Rightarrow> bool" where
  "within_table terms t \<longleftrightarrow> unat (tid_index t) < length terms"

definition closed_terms :: "interned_term list \<Rightarrow> bool" where
  "closed_terms terms \<longleftrightarrow> length terms \<le> space_limit \<and>
     (\<forall>t s p ob. triple_components terms t = Some (s, p, ob) \<longrightarrow> within_table terms s \<and> within_table terms p \<and> within_table terms ob)"

definition memo_exact :: "interned_term list \<Rightarrow> visit_state list \<Rightarrow> bool" where
  "memo_exact terms state \<longleftrightarrow> length state = length terms \<and>
     (\<forall>i<length state. \<forall>k. state ! i = Done k \<longrightarrow> k \<le> MAX_TERM_NESTING_DEPTH \<and> nests terms k (tid_of_index i) \<and> \<not> nests terms (Suc k) (tid_of_index i))"

text \<open>Where the search stands: some root lies \<open>depth\<close> triple terms above, and every open term above.\<close>

definition below :: "interned_term list \<Rightarrow> u32 \<Rightarrow> nat \<Rightarrow> visit_state list \<Rightarrow> bool" where
  "below terms t depth state \<longleftrightarrow> (\<exists>r. \<forall>m. nests terms m t \<longrightarrow> nests terms (m + depth) r) \<and>
     (\<forall>i<length state. state ! i = OnStack \<longrightarrow> (\<forall>m. nests terms m t \<longrightarrow> nests terms (Suc m) (tid_of_index i)))"

definition too_deep :: "interned_term list \<Rightarrow> bool" where
  "too_deep terms \<longleftrightarrow> (\<exists>t. nests terms (Suc MAX_TERM_NESTING_DEPTH) t)"

definition same_open :: "visit_state list \<Rightarrow> visit_state list \<Rightarrow> bool" where
  "same_open state state' \<longleftrightarrow> (\<forall>i<length state. state' ! i = OnStack \<longleftrightarrow> state ! i = OnStack)"

definition searched_term :: "interned_term list \<Rightarrow> u32 \<Rightarrow> visit_state list \<Rightarrow> (nat \<times> visit_state list) checked \<Rightarrow> bool" where
  "searched_term terms t state r \<longleftrightarrow> (case r of
     None \<Rightarrow> False
   | Some (Inl e) \<Rightarrow> too_deep terms
   | Some (Inr (k, state')) \<Rightarrow> memo_exact terms state' \<and> same_open state state' \<and> k \<le> MAX_TERM_NESTING_DEPTH \<and>
       nests terms k t \<and> \<not> nests terms (Suc k) t)"

definition searched_parts :: "interned_term list \<Rightarrow> u32 list \<Rightarrow> nat \<Rightarrow> visit_state list \<Rightarrow> (nat \<times> visit_state list) checked \<Rightarrow> bool" where
  "searched_parts terms cs deepest state r \<longleftrightarrow> (case r of
     None \<Rightarrow> False
   | Some (Inl e) \<Rightarrow> too_deep terms
   | Some (Inr (k, state')) \<Rightarrow> memo_exact terms state' \<and> same_open state state' \<and> deepest \<le> k \<and>
       (\<forall>c\<in>set cs. \<not> nests terms (Suc k) c) \<and> (k = deepest \<or> (\<exists>c\<in>set cs. nests terms k c)))"

lemma cycle_too_deep: "(\<And>m. nests terms m t \<Longrightarrow> nests terms (Suc m) t) \<Longrightarrow> too_deep terms"
proof -
  assume step: "\<And>m. nests terms m t \<Longrightarrow> nests terms (Suc m) t"
  have "nests terms m t" for m by (induction m) (use step in \<open>simp_all del: nests.simps(2)\<close>)
  then show ?thesis unfolding too_deep_def by blast
qed

lemma depth_too_deep: "below terms t depth state \<Longrightarrow> MAX_TERM_NESTING_DEPTH < depth \<Longrightarrow> too_deep terms"
proof -
  assume "below terms t depth state" "MAX_TERM_NESTING_DEPTH < depth"
  then obtain r where "nests terms depth r" unfolding below_def using nests.simps(1) add_0 by metis
  then show ?thesis using \<open>MAX_TERM_NESTING_DEPTH < depth\<close> nests_less [of terms depth r "Suc MAX_TERM_NESTING_DEPTH"] unfolding too_deep_def by auto
qed

lemma below_component:
  assumes "below terms t depth state" "triple_components terms t = Some (s, p, ob)" "c \<in> {s, p, ob}"
  shows "below terms c (depth + 1) (state[unat (tid_index t) := OnStack])"
proof -
  note up = nests_component [OF assms(2,3)]
  obtain r where "\<forall>m. nests terms m t \<longrightarrow> nests terms (m + depth) r" using assms(1) by (auto simp: below_def)
  then have "\<forall>m. nests terms m c \<longrightarrow> nests terms (m + (depth + 1)) r" using up by (metis add_Suc add_Suc_right Suc_eq_plus1)
  moreover have "nests terms (Suc m) (tid_of_index i)"
    if "i < length state" "state[unat (tid_index t) := OnStack] ! i = OnStack" "nests terms m c" for i m
  proof (cases "i = unat (tid_index t)")
    case True
    then show ?thesis using up [OF that(3)] by simp
  next
    case False
    then have "nests terms (Suc (Suc m)) (tid_of_index i)" using assms(1) that(1,2) up [OF that(3)] unfolding below_def by simp
    then show ?thesis by (rule nests_less) simp
  qed
  ultimately show ?thesis by (auto simp: below_def)
qed

lemma below_same: "below terms t depth state \<Longrightarrow> same_open state state' \<Longrightarrow> length state' = length state \<Longrightarrow> below terms t depth state'"
  by (auto simp: below_def same_open_def)

lemma same_open_trans: "same_open a b \<Longrightarrow> same_open b c \<Longrightarrow> length a = length b \<Longrightarrow> same_open a c"
  by (simp add: same_open_def)

lemma memo_exact_length: "memo_exact terms state \<Longrightarrow> length state = length terms"
  by (simp add: memo_exact_def)

lemma update_nth: "xs[i := v] ! j = (if i = j \<and> i < length xs then v else xs ! j)"
  by (cases "i < length xs") (auto simp: nth_list_update list_update_beyond not_less)

lemma memo_exact_open: "memo_exact terms state \<Longrightarrow> memo_exact terms (state[i := OnStack])"
  by (simp add: memo_exact_def update_nth del: nests.simps)

lemma memo_exact_done:
  "memo_exact terms state \<Longrightarrow> k \<le> MAX_TERM_NESTING_DEPTH \<Longrightarrow> nests terms k t \<Longrightarrow> \<not> nests terms (Suc k) t \<Longrightarrow>
    memo_exact terms (state[unat (tid_index t) := Done k])"
  by (auto simp: memo_exact_def update_nth simp del: nests.simps)

lemma same_open_done:
  "same_open (state[i := OnStack]) state' \<Longrightarrow> state ! i \<noteq> OnStack \<Longrightarrow> length state' = length state \<Longrightarrow> same_open state (state'[i := Done k])"
  by (auto simp: same_open_def update_nth split: if_splits)

text \<open>One step of the search, given its loop.\<close>

lemma acyclic_step:
  assumes "memo_exact terms state" "below terms t depth state" "within_table terms t" "\<not> MAX_TERM_NESTING_DEPTH < depth"
    and unvisited: "state ! unat (tid_index t) = Unvisited"
    and loop: "\<And>s p ob. term_at terms t = Some (InternedTriple s p ob) \<Longrightarrow>
      searched_parts terms [s, p, ob] 0 (state[unat (tid_index t) := OnStack]) (check_nested terms [s, p, ob] (depth + 1) 0 (state[unat (tid_index t) := OnStack]))"
  shows "searched_term terms t state (check_acyclic terms t depth state)"
proof -
  let ?i = "unat (tid_index t)" and ?open = "state[unat (tid_index t) := OnStack]"
  have i: "?i < length state" using assms(1,3) by (simp add: memo_exact_def within_table_def)
  have some: "term_at terms t = Some (terms ! ?i)" using assms(3) by (simp add: term_at_def within_table_def)
  have leaf: "searched_term terms t state (check_acyclic terms t depth state)" if "interned_kind (terms ! ?i) \<noteq> KindTriple"
  proof -
    have run: "check_acyclic terms t depth state = Some (Inr (0, state[?i := Done 0]))"
      using assms(4) i unvisited some that by (subst check_acyclic.simps) (cases "terms ! ?i"; simp add: Let_def)
    have "triple_components terms t = None" using some that by (cases "terms ! ?i") (simp_all add: triple_components_def)
    then have "\<not> nests terms (Suc 0) t" by simp
    then show ?thesis using memo_exact_done [OF assms(1), of 0 t] unvisited i unfolding run
      by (simp add: searched_term_def same_open_def update_nth del: nests.simps(2))
  qed
  show ?thesis
  proof (cases "terms ! ?i")
    case (InternedTriple s p ob)
    then have at: "term_at terms t = Some (InternedTriple s p ob)" using some by simp
    note parts = triple_components_at [OF at]
    let ?r = "check_nested terms [s, p, ob] (depth + 1) 0 ?open"
    have run: "check_acyclic terms t depth state = checked_bind ?r (\<lambda>(deepest, state).
        if MAX_TERM_NESTING_DEPTH < Suc deepest then refused NestingLimit else Some (Inr (Suc deepest, state[?i := Done (Suc deepest)])))"
      using assms(4) i unvisited by (subst check_acyclic.simps) (simp add: at Let_def cong: if_cong)
    consider e where "?r = Some (Inl e)" "too_deep terms"
      | k state' where "?r = Some (Inr (k, state'))" "memo_exact terms state'" "same_open ?open state'"
        "\<forall>c\<in>{s, p, ob}. \<not> nests terms (Suc k) c" "k = 0 \<or> (\<exists>c\<in>{s, p, ob}. nests terms k c)"
      using loop [OF at] by (auto simp: searched_parts_def split: option.splits sum.splits)
    then show ?thesis
    proof cases
      case (2 k state')
      have up: "nests terms (Suc k) t" using 2(5) parts by auto
      have top: "\<not> nests terms (Suc (Suc k)) t" using 2(4) parts by simp
      show ?thesis
      proof (cases "MAX_TERM_NESTING_DEPTH < Suc k")
        case True
        then show ?thesis using nests_less [OF up, of "Suc MAX_TERM_NESTING_DEPTH"] unfolding run 2(1)
          by (auto simp: searched_term_def checked_bind_def too_deep_def simp del: nests.simps)
      next
        case False
        then show ?thesis using memo_exact_done [OF 2(2) _ up top] same_open_done [OF 2(3)] unvisited up top
            memo_exact_length [OF 2(2)] memo_exact_length [OF assms(1)] unfolding run 2(1)
          by (simp add: searched_term_def checked_bind_def del: nests.simps)
      qed
    qed (simp add: run searched_term_def checked_bind_def)
  qed (use leaf in simp_all)
qed

lemma nested_step:
  assumes "memo_exact terms state" "within_table terms c"
    and hit: "searched_term terms c state (check_acyclic terms c depth state)"
    and rest: "\<And>k state'. memo_exact terms state' \<Longrightarrow> same_open state state' \<Longrightarrow> is_triple_id terms c = Some True \<Longrightarrow>
      check_acyclic terms c depth state = Some (Inr (k, state')) \<Longrightarrow>
      searched_parts terms cs (max deepest k) state' (check_nested terms cs depth (max deepest k) state')"
    and skip: "is_triple_id terms c = Some False \<Longrightarrow> searched_parts terms cs deepest state (check_nested terms cs depth deepest state)"
  shows "searched_parts terms (c # cs) deepest state (check_nested terms (c # cs) depth deepest state)"
proof (cases "is_triple_id terms c")
  case None
  then show ?thesis using assms(2) by (simp add: is_triple_id_None within_table_def)
next
  case (Some triple)
  show ?thesis
  proof (cases triple)
    case False
    then have leaf: "triple_components terms c = None" using Some triple_components_leaf by simp
    have run: "check_nested terms (c # cs) depth deepest state = check_nested terms cs depth deepest state"
      using Some False by (subst check_nested.simps) simp
    show ?thesis using skip Some False leaf unfolding run searched_parts_def by (auto split: option.splits sum.splits)
  next
    case True
    then have nested: "is_triple_id terms c = Some True" using Some by simp
    have run: "check_nested terms (c # cs) depth deepest state = checked_bind (check_acyclic terms c depth state)
        (\<lambda>(k, state). check_nested terms cs depth (max deepest k) state)" using nested by (subst check_nested.simps) simp
    consider e where "check_acyclic terms c depth state = Some (Inl e)" "too_deep terms"
      | k state' where "check_acyclic terms c depth state = Some (Inr (k, state'))" "memo_exact terms state'" "same_open state state'"
        "nests terms k c" "\<not> nests terms (Suc k) c"
      using hit by (auto simp: searched_term_def split: option.splits sum.splits)
    then show ?thesis
    proof cases
      case (2 k state')
      have len: "length state' = length state" using memo_exact_length [OF 2(2)] memo_exact_length [OF assms(1)] by simp
      have bound: "\<not> nests terms (Suc m) c" if "k \<le> m" for m using 2(5) that nests_less [of terms "Suc m" c "Suc k"] by auto
      show ?thesis using rest [OF 2(2,3) nested 2(1)] same_open_trans [OF 2(3)] len bound 2(4) unfolding run 2(1) searched_parts_def
        by (auto simp: checked_bind_def max_def simp del: nests.simps split: option.splits sum.splits if_splits)
    qed (simp add: run searched_parts_def checked_bind_def)
  qed
qed

lemma search_exact:
  assumes "closed_terms terms"
  shows "memo_exact terms state \<Longrightarrow> below terms t depth state \<Longrightarrow> within_table terms t \<Longrightarrow>
      searched_term terms t state (check_acyclic terms t depth state)"
    and "memo_exact terms state \<Longrightarrow> \<forall>c\<in>set cs. below terms c depth state \<Longrightarrow> \<forall>c\<in>set cs. within_table terms c \<Longrightarrow>
      searched_parts terms cs deepest state (check_nested terms cs depth deepest state)"
  using assms
proof (induction terms t depth state and terms cs depth deepest state rule: check_acyclic_check_nested.induct)
  case (1 terms t depth state)
  let ?i = "unat (tid_index t)"
  have i: "?i < length state" "length state = length terms" using 1(2,4) by (simp_all add: memo_exact_def within_table_def)
  show ?case
  proof (cases "MAX_TERM_NESTING_DEPTH < depth")
    case True
    then show ?thesis using depth_too_deep [OF 1(3) True] by (subst check_acyclic.simps) (simp add: searched_term_def)
  next
    case False
    show ?thesis
    proof (cases "state ! ?i")
      case Unvisited
      show ?thesis
      proof (rule acyclic_step [OF 1(2,3,4) False Unvisited])
        fix s p ob assume at: "term_at terms t = Some (InternedTriple s p ob)"
        note parts = triple_components_at [OF at]
        have "\<not> length state \<le> ?i" using i by simp
        note IH = 1(1) [OF False refl this Unvisited at refl]
        show "searched_parts terms [s, p, ob] 0 (state[?i := OnStack]) (check_nested terms [s, p, ob] (depth + 1) 0 (state[?i := OnStack]))"
          using 1(5) parts by (intro IH memo_exact_open [OF 1(2)])
            (auto intro: below_component [OF 1(3) parts, simplified] simp: closed_terms_def)
      qed
    next
      case OnStack
      then have "too_deep terms" using 1(3) i by (intro cycle_too_deep [of terms t]) (auto simp: below_def simp del: nests.simps)
      then show ?thesis using False i OnStack by (subst check_acyclic.simps) (simp add: searched_term_def Let_def)
    next
      case (Done k)
      then have "k \<le> MAX_TERM_NESTING_DEPTH" "nests terms k t" "\<not> nests terms (Suc k) t" using 1(2) i by (auto simp: memo_exact_def simp del: nests.simps)
      then show ?thesis using False i Done 1(2) by (subst check_acyclic.simps) (simp add: searched_term_def same_open_def Let_def del: nests.simps)
    qed
  qed
next
  case (2 terms depth deepest state)
  then show ?case by (simp add: searched_parts_def same_open_def)
next
  case (3 terms c cs depth deepest state)
  have hit: "searched_term terms c state (check_acyclic terms c depth state)" if "is_triple_id terms c = Some True"
    using 3(1) [OF that refl] 3(4-7) by simp
  show ?case
  proof (cases "is_triple_id terms c = Some True")
    case True
    show ?thesis
    proof (rule nested_step [OF 3(4) _ hit [OF True]])
      fix k state' assume r: "memo_exact terms state'" "same_open state state'" "check_acyclic terms c depth state = Some (Inr (k, state'))"
      have "\<forall>d\<in>set cs. below terms d depth state'" using 3(5) below_same [OF _ r(2)] memo_exact_length [OF r(1)] memo_exact_length [OF 3(4)] by auto
      then show "searched_parts terms cs (max deepest k) state' (check_nested terms cs depth (max deepest k) state')"
        using 3(2) [OF True refl r(1)] 3(6,7) by simp
    qed (use 3(6) True in simp_all)
  next
    case False
    then have no: "is_triple_id terms c = Some False" using 3(6) by (cases "is_triple_id terms c") (auto simp: is_triple_id_None within_table_def)
    have rest: "searched_parts terms cs deepest state (check_nested terms cs depth deepest state)" using 3(3) [OF no refl] 3(4-7) by simp
    have run: "check_nested terms (c # cs) depth deepest state = check_nested terms cs depth deepest state" using no by (subst check_nested.simps) simp
    show ?thesis using rest triple_components_leaf [OF no] unfolding run searched_parts_def by (auto split: option.splits sum.splits)
  qed
qed

section \<open>What validation accepts\<close>

text \<open>A check decides a predicate: it never panics, and passes exactly when the predicate holds.\<close>

definition decides :: "unit checked \<Rightarrow> bool \<Rightarrow> bool" where
  "decides m P \<longleftrightarrow> m \<noteq> None \<and> (m = passed \<longleftrightarrow> P)"

lemma decides_also: "decides m P \<Longrightarrow> (P \<Longrightarrow> decides n Q) \<Longrightarrow> decides (also_check m n) (P \<and> Q)"
  by (auto simp: decides_def also_check_def checked_bind_def split: option.splits sum.splits)

lemma decides_cong: "decides m P \<Longrightarrow> P \<longleftrightarrow> Q \<Longrightarrow> decides m Q"
  by simp

lemma decides_each: "(\<And>x. x \<in> set xs \<Longrightarrow> decides (f x) (P x)) \<Longrightarrow> decides (check_each f xs) (\<forall>x\<in>set xs. P x)"
proof (induction xs)
  case (Cons x xs)
  then have "decides (check_each f (x # xs)) (P x \<and> (\<forall>x\<in>set xs. P x))" unfolding check_each.simps by (intro decides_also) simp_all
  then show ?case by simp
qed (simp add: decides_def)

lemma decides_range: "decides (check_id_in_range terms t) (within_table terms t)"
  by (auto simp: decides_def check_id_in_range_def within_table_def)

lemma decides_graph_range: "decides (check_graph_range terms g) (\<forall>t. g = Some t \<longrightarrow> within_table terms t)"
  using decides_range by (cases g) (auto simp: check_graph_range_def decides_def)

definition has_kind :: "term_kind set \<Rightarrow> interned_term list \<Rightarrow> u32 \<Rightarrow> bool" where
  "has_kind ks terms t \<longleftrightarrow> (\<exists>x. term_at terms t = Some x \<and> interned_kind x \<in> ks)"

lemma has_kind_within: "has_kind ks terms t \<Longrightarrow> within_table terms t"
  by (auto simp: has_kind_def within_table_def term_at_def Let_def split: if_splits)

lemma decides_kind: "within_table terms t \<Longrightarrow> decides (require_kind rule terms t) (has_kind {k. rule k = None} terms t)"
  by (auto simp: decides_def require_kind_def has_kind_def within_table_def term_at_def Let_def split: option.splits)

abbreviation resource_kinds :: "term_kind set" where
  "resource_kinds \<equiv> {KindIri, KindBlank}"

lemma rule_kinds: "{k. subject_rule k = None} = resource_kinds" "{k. predicate_rule k = None} = {KindIri}" "{k. graph_rule k = None} = resource_kinds"
  "{k. (if k = KindTriple then None else Some ReifierNotTriple) = None} = {KindTriple}"
  by (auto simp: subject_rule_def predicate_rule_def graph_rule_def split: term_kind.splits if_splits) (metis term_kind.exhaust)+

lemmas decides_subject = decides_kind [of _ _ subject_rule, folded require_subject_def, unfolded rule_kinds]
lemmas decides_predicate = decides_kind [of _ _ predicate_rule, folded require_iri_predicate_def, unfolded rule_kinds]
lemmas decides_graph = decides_kind [of _ _ graph_rule, folded require_graph_name_def, unfolded rule_kinds]
lemmas decides_target = decides_kind [of _ _ "\<lambda>k. if k = KindTriple then None else Some ReifierNotTriple", unfolded rule_kinds]

definition graph_named :: "interned_term list \<Rightarrow> u32 option \<Rightarrow> bool" where
  "graph_named terms g \<longleftrightarrow> (\<forall>t. g = Some t \<longrightarrow> has_kind resource_kinds terms t)"

lemma decides_graph_slot: "\<forall>t. g = Some t \<longrightarrow> within_table terms t \<Longrightarrow> decides (require_graph_slot terms g) (graph_named terms g)"
  using decides_graph by (cases g) (auto simp: require_graph_slot_def decides_def graph_named_def)

lemmas decides_rules = decides_also decides_range decides_graph_range decides_subject decides_predicate decides_graph_slot decides_target

definition sound_triple :: "interned_term list \<Rightarrow> interned_term \<Rightarrow> bool" where
  "sound_triple terms x \<longleftrightarrow> (\<forall>s p ob. x = InternedTriple s p ob \<longrightarrow>
     has_kind resource_kinds terms s \<and> has_kind {KindIri} terms p \<and> within_table terms ob)"

definition sound_quad :: "interned_term list \<Rightarrow> quad_row \<Rightarrow> bool" where
  "sound_quad terms q \<longleftrightarrow> has_kind resource_kinds terms (qr_s q) \<and> has_kind {KindIri} terms (qr_p q) \<and> within_table terms (qr_o q) \<and>
     graph_named terms (qr_g q)"

definition sound_reifier :: "interned_term list \<Rightarrow> reif_row \<Rightarrow> bool" where
  "sound_reifier terms = (\<lambda>(reifier, target, g). has_kind resource_kinds terms reifier \<and> has_kind {KindTriple} terms target \<and> graph_named terms g)"

definition sound_annotation :: "interned_term list \<Rightarrow> annot_row \<Rightarrow> bool" where
  "sound_annotation terms = (\<lambda>(reifier, p, ob, g). has_kind resource_kinds terms reifier \<and> has_kind {KindIri} terms p \<and>
     within_table terms ob \<and> graph_named terms g)"

lemma graph_named_within: "graph_named terms g \<Longrightarrow> g = Some t \<Longrightarrow> within_table terms t"
  by (simp add: graph_named_def has_kind_within)

lemma decides_triple_positions: "decides (check_triple_positions terms x) (sound_triple terms x)"
proof (cases x)
  case (InternedTriple s p ob)
  have "decides (check_triple_positions terms x) (within_table terms s \<and> within_table terms p \<and> within_table terms ob \<and>
      has_kind resource_kinds terms s \<and> has_kind {KindIri} terms p)"
    unfolding InternedTriple check_triple_positions_def interned_term.case by (intro decides_rules)
  then show ?thesis by (rule decides_cong) (auto simp: sound_triple_def InternedTriple dest: has_kind_within)
qed (simp_all add: decides_def check_triple_positions_def sound_triple_def)

lemma decides_declared: "decides (check_declared terms g) (has_kind resource_kinds terms g)"
proof -
  have "decides (check_declared terms g) (within_table terms g \<and> has_kind resource_kinds terms g)"
    unfolding check_declared_def by (intro decides_rules decides_graph)
  then show ?thesis by (rule decides_cong) (auto dest: has_kind_within)
qed

lemma decides_quad: "decides (check_quad terms q) (sound_quad terms q)"
proof -
  have "decides (check_quad terms q) (within_table terms (qr_s q) \<and> within_table terms (qr_p q) \<and> within_table terms (qr_o q) \<and>
      (\<forall>t. qr_g q = Some t \<longrightarrow> within_table terms t) \<and> has_kind resource_kinds terms (qr_s q) \<and> has_kind {KindIri} terms (qr_p q) \<and>
      graph_named terms (qr_g q))"
    unfolding check_quad_def by (intro decides_rules)
  then show ?thesis by (rule decides_cong) (auto simp: sound_quad_def dest: has_kind_within graph_named_within)
qed

lemma decides_reifier: "decides (check_reifier terms row) (sound_reifier terms row)"
proof -
  obtain reifier target g where row: "row = (reifier, target, g)" using prod_cases3 by blast
  have "decides (check_reifier terms row) (within_table terms reifier \<and> within_table terms target \<and> has_kind resource_kinds terms reifier \<and>
      (\<forall>t. g = Some t \<longrightarrow> within_table terms t) \<and> graph_named terms g \<and> has_kind {KindTriple} terms target)"
    unfolding row check_reifier_def prod.case by (intro decides_rules)
  then show ?thesis by (rule decides_cong) (auto simp: sound_reifier_def row dest: has_kind_within graph_named_within)
qed

lemma decides_annotation: "decides (check_annotation terms row) (sound_annotation terms row)"
proof -
  obtain reifier p ob g where row: "row = (reifier, p, ob, g)" using prod_cases4 by blast
  have "decides (check_annotation terms row) (within_table terms reifier \<and> within_table terms p \<and> within_table terms ob \<and>
      has_kind {KindIri} terms p \<and> has_kind resource_kinds terms reifier \<and> (\<forall>t. g = Some t \<longrightarrow> within_table terms t) \<and> graph_named terms g)"
    unfolding row check_annotation_def prod.case by (intro decides_rules)
  then show ?thesis by (rule decides_cong) (auto simp: sound_annotation_def row dest: has_kind_within graph_named_within)
qed

section \<open>The whole validation\<close>

lemma closed_after_positions:
  assumes "length terms \<le> space_limit" "\<forall>x\<in>set terms. sound_triple terms x"
  shows "closed_terms terms"
  unfolding closed_terms_def
proof (intro conjI [OF assms(1)] allI impI)
  fix t s p ob assume "triple_components terms t = Some (s, p, ob)"
  then have "InternedTriple s p ob \<in> set terms"
    by (auto simp: triple_components_def term_at_def Let_def split: option.splits interned_term.splits if_splits) (metis nth_mem)
  then have "sound_triple terms (InternedTriple s p ob)" using assms(2) by blast
  then show "within_table terms s \<and> within_table terms p \<and> within_table terms ob" by (auto simp: sound_triple_def dest: has_kind_within)
qed

lemma roots_exact:
  assumes "closed_terms terms" "memo_exact terms state" "\<forall>i<length state. state ! i \<noteq> OnStack" "raw \<le> length terms"
  shows "case check_roots terms raw (drop raw terms) state of
     None \<Rightarrow> False
   | Some (Inl e) \<Rightarrow> too_deep terms
   | Some (Inr _) \<Rightarrow> \<forall>i. raw \<le> i \<and> i < length terms \<longrightarrow> \<not> nests terms (Suc MAX_TERM_NESTING_DEPTH) (tid_of_index i)"
  using assms(2-4)
proof (induction "length terms - raw" arbitrary: raw state)
  case (Suc n)
  let ?t = "tid_of_index raw"
  have raw: "raw < length terms" "unat (tid_index ?t) = raw" using Suc.hyps(2) Suc.prems assms(1) by (auto simp: closed_terms_def)
  then have at: "term_at terms ?t = Some (terms ! raw)" by (simp add: term_at_def)
  have split: "drop raw terms = terms ! raw # drop (raw + 1) terms" using Cons_nth_drop_Suc [OF raw(1)] by simp
  have last: "(\<forall>i. raw \<le> i \<and> i < length terms \<longrightarrow> P i) \<longleftrightarrow> P raw \<and> (\<forall>i. raw + 1 \<le> i \<and> i < length terms \<longrightarrow> P i)" for P
    using raw(1) by (metis Suc_eq_plus1 Suc_leI le_eq_less_or_eq le_refl Suc_leD)
  have rest: "n = length terms - (raw + 1)" "raw + 1 \<le> length terms" using Suc.hyps(2) raw(1) by auto
  show ?case
  proof (cases "interned_kind (terms ! raw) = KindTriple")
    case False
    then have "triple_components terms ?t = None" using at by (cases "terms ! raw") (simp_all add: triple_components_def)
    then have leaf: "\<not> nests terms (Suc MAX_TERM_NESTING_DEPTH) ?t" by simp
    show ?thesis using Suc.hyps(1) [OF rest(1) Suc.prems(1,2) rest(2)] False leaf unfolding split check_roots.simps if_not_P [OF False] last
      by (auto split: option.splits sum.splits)
  next
    case True
    have "below terms ?t 0 state" using Suc.prems(2) by (auto simp: below_def)
    then have "searched_term terms ?t state (check_acyclic terms ?t 0 state)"
      using search_exact(1) [OF assms(1) Suc.prems(1)] raw by (simp add: within_table_def)
    then consider e where "check_acyclic terms ?t 0 state = Some (Inl e)" "too_deep terms"
      | k state' where "check_acyclic terms ?t 0 state = Some (Inr (k, state'))" "memo_exact terms state'" "same_open state state'"
        "k \<le> MAX_TERM_NESTING_DEPTH" "\<not> nests terms (Suc k) ?t"
      by (auto simp: searched_term_def split: option.splits sum.splits)
    then show ?thesis
    proof cases
      case (2 k state')
      have leaf: "\<not> nests terms (Suc MAX_TERM_NESTING_DEPTH) ?t" using 2(4,5) nests_less [of terms "Suc MAX_TERM_NESTING_DEPTH" ?t "Suc k"] by auto
      have "\<forall>i<length state'. state' ! i \<noteq> OnStack" using 2(2,3) Suc.prems(1,2) by (simp add: same_open_def memo_exact_def)
      from Suc.hyps(1) [OF rest(1) 2(2) this rest(2)] show ?thesis using leaf unfolding split check_roots.simps if_P [OF True] last
        by (auto simp: 2(1) checked_bind_def split: option.splits sum.splits)
    qed (unfold split check_roots.simps if_P [OF True], simp add: checked_bind_def)
  qed
qed (auto simp del: nests.simps)

lemma decides_triple_terms:
  assumes "length terms \<le> space_limit"
  shows "decides (validate_triple_terms terms) ((\<forall>x\<in>set terms. sound_triple terms x) \<and> \<not> too_deep terms)"
  unfolding validate_triple_terms_def
proof (intro decides_also decides_each decides_triple_positions)
  assume "\<forall>x\<in>set terms. sound_triple terms x"
  note closed = closed_after_positions [OF assms this]
  let ?state = "replicate (length terms) Unvisited"
  have deep: "too_deep terms \<longleftrightarrow> (\<exists>i<length terms. nests terms (Suc MAX_TERM_NESTING_DEPTH) (tid_of_index i))"
  proof
    assume "too_deep terms"
    then obtain t where t: "nests terms (Suc MAX_TERM_NESTING_DEPTH) t" by (auto simp: too_deep_def)
    then have "unat (tid_index t) < length terms" by (auto simp: triple_components_def term_at_def Let_def split: option.splits if_splits)
    then show "\<exists>i<length terms. nests terms (Suc MAX_TERM_NESTING_DEPTH) (tid_of_index i)"
      using t by (intro exI [of _ "unat (tid_index t)"]) (simp del: nests.simps)
  qed (auto simp: too_deep_def simp del: nests.simps)
  have "memo_exact terms ?state" "\<forall>i<length ?state. ?state ! i \<noteq> OnStack" by (simp_all add: memo_exact_def)
  from roots_exact [OF closed this, of 0] show "decides (check_roots terms 0 terms ?state) (\<not> too_deep terms)"
    by (auto simp: decides_def deep simp del: nests.simps split: option.splits sum.splits)
qed

text \<open>The reference: what a dataset must be, over the term table and the rows.\<close>

definition well_formed :: "dataset_builder \<Rightarrow> bool" where
  "well_formed b \<longleftrightarrow> (let it = db_interner b; terms = in_terms it in
     (\<forall>iri. LookIri iri \<in> set (terms_of it) \<longrightarrow> iri \<noteq> [] \<and> is_absolute iri = Inr True) \<and> db_invalid_literal b = None \<and>
     (\<forall>x\<in>set terms. sound_triple terms x) \<and> (\<forall>t. \<not> nests terms 17 t) \<and>
     (\<forall>g\<in>set (db_declared b). has_kind resource_kinds terms g) \<and>
     (\<forall>q\<in>set (db_quads b). sound_quad terms q) \<and>
     (\<forall>row\<in>set (db_reifiers b). sound_reifier terms row) \<and>
     (\<forall>row\<in>set (db_annotations b). sound_annotation terms row))"

lemma validate_exact:
  assumes "interner_ok (db_interner b)"
  shows "decides (validate_rows b) (well_formed b)"
proof -
  let ?terms = "in_terms (db_interner b)"
  have n: "length ?terms \<le> space_limit" and absolute: "in_relative_iri (db_interner b) = None \<longleftrightarrow>
      (\<forall>iri. LookIri iri \<in> set (terms_of (db_interner b)) \<longrightarrow> iri \<noteq> [] \<and> is_absolute iri = Inr True)"
    using assms by (auto simp: interner_ok_def terms_of_def)
  have deep: "\<not> too_deep ?terms \<longleftrightarrow> (\<forall>t. \<not> nests ?terms 17 t)"
    by (simp add: too_deep_def MAX_TERM_NESTING_DEPTH_def del: nests.simps)
  have checks: "decides (also_check (validate_triple_terms ?terms)
      (also_check (check_each (check_declared ?terms) (db_declared b))
      (also_check (check_each (check_quad ?terms) (db_quads b))
      (also_check (check_each (check_reifier ?terms) (db_reifiers b))
      (check_each (check_annotation ?terms) (db_annotations b))))))
    (((\<forall>x\<in>set ?terms. sound_triple ?terms x) \<and> \<not> too_deep ?terms) \<and> (\<forall>g\<in>set (db_declared b). has_kind resource_kinds ?terms g) \<and>
      (\<forall>q\<in>set (db_quads b). sound_quad ?terms q) \<and> (\<forall>row\<in>set (db_reifiers b). sound_reifier ?terms row) \<and>
      (\<forall>row\<in>set (db_annotations b). sound_annotation ?terms row))"
    by (intro decides_also decides_each decides_triple_terms [OF n] decides_declared decides_quad decides_reifier decides_annotation)
  show ?thesis
  proof (cases "in_relative_iri (db_interner b) = None \<and> db_invalid_literal b = None")
    case True
    then have run: "validate_rows b = also_check (validate_triple_terms ?terms)
      (also_check (check_each (check_declared ?terms) (db_declared b))
      (also_check (check_each (check_quad ?terms) (db_quads b))
      (also_check (check_each (check_reifier ?terms) (db_reifiers b))
      (check_each (check_annotation ?terms) (db_annotations b)))))" by (simp add: validate_rows_def Let_def)
    show ?thesis unfolding run by (rule decides_cong [OF checks]) (use True absolute deep in \<open>simp add: well_formed_def Let_def\<close>)
  next
    case False
    then show ?thesis using absolute by (auto simp: validate_rows_def well_formed_def Let_def decides_def split: option.splits)
  qed
qed

end
