(* ===== verification/QuadFreeze.thy ===== *)
theory QuadFreeze
  imports QuadStatements QuadValidate IriSplit
begin

text \<open>
  The builder of \<open>QuadTable\<close> and its freeze: whatever terms and rows a builder was given, its tables hold
  each once, the id of \<open>rdf:reifies\<close> is there once a reifier row is, and the frozen tables satisfy what the
  queries rely on. The properties of the resident dataset follow.
\<close>

section \<open>Builders\<close>

text \<open>The builders that the operations reach from an empty one; ids are nonzero.\<close>

inductive built :: "dataset_builder \<Rightarrow> bool" where
  built_new: "built new_builder"
| built_iri: "built b \<Longrightarrow> intern_iri iri b = Inr (t, b') \<Longrightarrow> built b'"
| built_blank: "built b \<Longrightarrow> intern_blank label scope b = Inr (t, b') \<Longrightarrow> built b'"
| built_literal: "built b \<Longrightarrow> intern_literal_parts tag_ok embedded lexical dt language direction b = Inr (t, b') \<Longrightarrow> built b'"
| built_triple: "built b \<Longrightarrow> intern_triple s p ob b = Inr (t, b') \<Longrightarrow> built b'"
| built_quad: "built b \<Longrightarrow> valid_row row \<Longrightarrow> push_quad_with_handle row b = Inr (i, b') \<Longrightarrow> built b'"
| built_reifier: "built b \<Longrightarrow> push_reifier_in_graph rrow b = Inr b' \<Longrightarrow> built b'"
| built_annotation: "built b \<Longrightarrow> push_annotation_in_graph arow b = Inr b' \<Longrightarrow> built b'"
| built_declare: "built b \<Longrightarrow> built (declare_named_graph at_capacity g b)"

lemma row_position: "position (\<lambda>r. r = row) rows = None \<longleftrightarrow> row \<notin> set rows"
  "position (\<lambda>r. r = row) rows = Some i \<Longrightarrow> i < length rows \<and> rows ! i = row \<and> row \<in> set rows"
  by (auto simp: position_eq_None position_eq_Some)

lemma store_once_with_cases:
  assumes "store_once_with space rows row dependency s = Inr (i, rows', s')"
  shows "rows' ! i = row \<and> i < length rows' \<and>
    (rows' = rows \<and> row \<in> set rows \<and> s' = s \<or> rows' = rows @ [row] \<and> row \<notin> set rows \<and> length rows' \<le> space_limit \<and> dependency s = Inr s')"
  using assms row_position [of row rows] unfolding store_once_with_def
  by (auto simp: and_then_eq_Inr capacity_required_def Let_def split: option.splits if_splits)

lemma store_once_cases:
  assumes "store_once space rows row = Inr (i, rows')"
  shows "rows' ! i = row" "i < length rows'" "rows' = rows \<and> row \<in> set rows \<or> rows' = rows @ [row] \<and> row \<notin> set rows \<and> length rows' \<le> space_limit"
  using assms store_once_with_cases [of space rows row "\<lambda>s. Inr s" "()" i rows' "()"]
  by (auto simp: store_once_def and_then_eq_Inr)

lemma store_once_set: "store_once space rows row = Inr (i, rows') \<Longrightarrow> set rows' = insert row (set rows) \<and> (distinct rows \<longrightarrow> distinct rows')"
  using store_once_cases(3) [of space rows row i rows'] by auto

text \<open>The id that the builder remembers for \<open>rdf:reifies\<close> resolves to it, and exists once a reifier row does.\<close>

definition names_reifies :: "interner \<Rightarrow> u32 option \<Rightarrow> bool" where
  "names_reifies it reifies \<longleftrightarrow> (\<forall>t. reifies = Some t \<longrightarrow> unat (tid_index t) < length (terms_of it) \<and> terms_of it ! unat (tid_index t) = LookIri RDF_REIFIES)"

definition builder_ok :: "dataset_builder \<Rightarrow> bool" where
  "builder_ok b \<longleftrightarrow> distinct (db_quads b) \<and> (\<forall>q\<in>set (db_quads b). valid_row q) \<and> distinct (db_reifiers b) \<and> distinct (db_annotations b) \<and>
     length (db_quads b) \<le> space_limit \<and> length (db_reifiers b) \<le> space_limit \<and> length (db_annotations b) \<le> space_limit \<and>
     interner_ok (db_interner b) \<and> names_reifies (db_interner b) (db_reifies b) \<and> (db_reifiers b \<noteq> [] \<longrightarrow> db_reifies b \<noteq> None)"

lemma names_reifies_extend: "names_reifies it reifies \<Longrightarrow> terms_of it' = terms_of it @ ls \<Longrightarrow> names_reifies it' reifies"
  by (auto simp: names_reifies_def nth_append)

lemma intern_term_ok:
  assumes "builder_ok b" "intern_term l b = Inr (t, b')"
  shows "builder_ok b'"
proof -
  obtain it where it: "intern l (db_interner b) = Inr (t, it)" "b' = b\<lparr>db_interner := it\<rparr>"
    using assms(2) by (auto simp: intern_term_def map_sum_def split: sum.splits)
  have ok: "interner_ok (db_interner b)" using assms(1) by (simp add: builder_ok_def)
  have "\<exists>ls. terms_of it = terms_of (db_interner b) @ ls" using intern_refines(2) [OF ok it(1)] by auto
  then show ?thesis using assms(1) it(2) intern_refines(1) [OF ok it(1)] names_reifies_extend by (auto simp: builder_ok_def)
qed

lemmas intern_ops = intern_iri_def intern_blank_def intern_triple_def

lemma intern_blanks_ok: "builder_ok b \<Longrightarrow> intern_blanks blanks b = Inr b' \<Longrightarrow> builder_ok b'"
  by (induction blanks b rule: intern_blanks.induct) (auto simp: and_then_eq_Inr intern_ops intro: intern_term_ok)

lemma literal_flag_ok [simp]: "builder_ok (b\<lparr>db_invalid_literal := e\<rparr>) = builder_ok b"
  by (simp add: builder_ok_def)

lemma intern_literal_ok:
  assumes "builder_ok b" "intern_literal_parts tag_ok embedded lexical dt language direction b = Inr (t, b')"
  shows "builder_ok b'"
  using assms unfolding intern_literal_parts_def intern_ops Let_def
  by (auto simp: and_then_eq_Inr split: option.splits) (metis intern_term_ok intern_blanks_ok literal_flag_ok)+

lemma push_reifier_ok:
  assumes "builder_ok b" "push_reifier_in_graph row b = Inr b'"
  shows "builder_ok b'"
proof -
  obtain i rows reifies it where st: "store_once_with ReifierSpace (db_reifiers b) row (\<lambda>(reifies, it). ensure_reifies reifies it)
      (db_reifies b, db_interner b) = Inr (i, rows, reifies, it)"
    and b': "b' = b\<lparr>db_reifiers := rows, db_reifies := reifies, db_interner := it\<rparr>"
    using assms(2) by (auto simp: push_reifier_in_graph_def map_sum_def split: sum.splits)
  note ok = assms(1) [unfolded builder_ok_def]
  consider "rows = db_reifiers b" "row \<in> set (db_reifiers b)" "reifies = db_reifies b" "it = db_interner b"
    | "rows = db_reifiers b @ [row]" "row \<notin> set (db_reifiers b)" "length rows \<le> space_limit" "ensure_reifies (db_reifies b) (db_interner b) = Inr (reifies, it)"
    using store_once_with_cases [OF st, unfolded prod.case prod.inject] by metis
  then show ?thesis
  proof cases
    case 2
    have "names_reifies (db_interner b) (db_reifies b)" using ok by blast
    note e = ensure_reifies_refines [OF _ 2(4) this [unfolded names_reifies_def]]
    have "interner_ok (db_interner b)" using ok by blast
    then show ?thesis using ok b' 2(1-3) e by (auto simp: builder_ok_def names_reifies_def)
  qed (use assms(1) b' in \<open>auto simp: builder_ok_def\<close>)
qed

lemma built_ok: "built b \<Longrightarrow> builder_ok b"
proof (induction rule: built.induct)
  case built_new
  then show ?case by (simp add: builder_ok_def new_builder_def new_interner_ok names_reifies_def)
next
  case (built_quad b row i b')
  then obtain rows where rows: "store_once QuadSpace (db_quads b) row = Inr (i, rows)" "b' = b\<lparr>db_quads := rows\<rparr>"
    by (auto simp: push_quad_with_handle_def map_sum_def split: sum.splits)
  then show ?case using store_once_set [OF rows(1)] store_once_cases(3) [OF rows(1)] built_quad by (auto simp: builder_ok_def)
next
  case (built_annotation b row b')
  then obtain i rows where rows: "store_once AnnotationSpace (db_annotations b) row = Inr (i, rows)" "b' = b\<lparr>db_annotations := rows\<rparr>"
    by (auto simp: push_annotation_in_graph_def map_sum_def split: sum.splits)
  then show ?case using store_once_set [OF rows(1)] store_once_cases(3) [OF rows(1)] built_annotation by (auto simp: builder_ok_def)
next
  case (built_declare b at_capacity g)
  then show ?case by (simp add: builder_ok_def declare_named_graph_def)
qed (auto simp: intern_ops intro: intern_term_ok intern_literal_ok push_reifier_ok)

section \<open>The freeze\<close>

definition row_tuple :: "quad_row \<Rightarrow> u32 \<times> u32 \<times> u32 \<times> u32 option" where
  "row_tuple q = (qr_s q, qr_p q, qr_o q, qr_g q)"

lemma index_le: "t \<noteq> 0 \<Longrightarrow> u \<noteq> 0 \<Longrightarrow> tid_index t \<le> tid_index u \<longleftrightarrow> t \<le> u"
  using index_less [of u t] by (auto simp: not_less [symmetric])

lemma row_tuple_key:
  assumes "valid_row a" "valid_row b" "row_tuple a \<le> row_tuple b"
  shows "row_key (perm_axes Spog) a \<le> row_key (perm_axes Spog) b"
  using assms by (cases "qr_g a"; cases "qr_g b")
    (auto simp: row_tuple_def row_key_def perm_axes_def axis_key_def valid_row_def index_le index_less index_plus less_eq_prod_def word_gt_0)

lemma sort_by_cmp: "sort_by cmp xs = sort xs"
  by (rule sort_by_key) simp

lemma frozen_tables:
  "fd_quads (materialize b) = sort_key row_tuple (db_quads b)"
  "fd_reifiers (materialize b) = sort (db_reifiers b)"
  "fd_annotations (materialize b) = sort (db_annotations b)"
  "fd_arena (materialize b) = in_arena (db_interner b)"
  "fd_terms (materialize b) = in_terms (db_interner b)"
proof -
  have "sort_by quad_row_cmp (db_quads b) = sort_key row_tuple (db_quads b)"
    by (rule sort_by_key) (simp add: quad_row_cmp_def row_tuple_def)
  then show "fd_quads (materialize b) = sort_key row_tuple (db_quads b)" by (simp add: materialize_def Let_def)
qed (simp_all add: materialize_def Let_def sort_by_cmp)

lemma frozen_table_ok: "builder_ok b \<Longrightarrow> table_ok (fd_quads (materialize b))"
proof -
  assume ok: "builder_ok b"
  have "sorted_wrt (\<lambda>p q. row_tuple p \<le> row_tuple q) (sort_key row_tuple (db_quads b))"
    using sorted_sort_key [of row_tuple "db_quads b"] unfolding sorted_map .
  then have "sorted_wrt (\<lambda>p q. row_key (perm_axes Spog) p \<le> row_key (perm_axes Spog) q) (sort_key row_tuple (db_quads b))"
    by (rule sorted_wrt_mono_rel [rotated]) (use ok row_tuple_key in \<open>simp add: builder_ok_def\<close>)
  then show ?thesis using ok by (simp add: table_ok_def frozen_tables builder_ok_def sorted_map)
qed

definition graphs_used :: "dataset_builder \<Rightarrow> u32 set" where
  "graphs_used b = set (db_declared b) \<union> {g. Some g \<in> qr_g ` set (db_quads b)} \<union>
     {g. Some g \<in> (\<lambda>(_, _, g). g) ` set (db_reifiers b)} \<union> {g. Some g \<in> (\<lambda>(_, _, _, g). g) ` set (db_annotations b)}"

lemma set_map_filter_Some: "set (List.map_filter f xs) = {y. Some y \<in> f ` set xs}"
  by (induction xs) (auto simp: List.map_filter_simps split: option.splits)

lemma frozen_graphs: "set (fd_named_graphs (materialize b)) = graphs_used b"
  by (simp add: materialize_def Let_def sort_by_cmp set_map_filter_Some graphs_used_def Un_assoc frozen_tables(1) [unfolded materialize_def Let_def, simplified])

lemma frozen_statements_ok:
  assumes "\<forall>(r, t, g)\<in>set (db_reifiers b). triple_components (in_terms (db_interner b)) t \<noteq> None"
  shows "statements_ok (materialize b)"
proof -
  have "sorted_wrt (<) (remdups_adj (sort xs))" for xs :: "u32 list"
    by (simp add: strict_remdups_adj)
  moreover have "fd_named_graphs (materialize b) = remdups_adj (sort xs)" if
    "xs = db_declared b @ List.map_filter qr_g (sort_key row_tuple (db_quads b)) @ List.map_filter (\<lambda>(_, _, g). g) (sort (db_reifiers b))
      @ List.map_filter (\<lambda>(_, _, _, g). g) (sort (db_annotations b))" for xs
    using frozen_tables(1) [of b] by (simp add: that materialize_def Let_def sort_by_cmp)
  ultimately have "sorted_wrt (<) (fd_named_graphs (materialize b))" by metis
  then show ?thesis using assms unfolding statements_ok_def frozen_graphs
    by (auto simp: frozen_tables graphs_used_def rev_image_eqI)
qed

text \<open>The dataset finds the id of \<open>rdf:reifies\<close> that the builder remembers.\<close>

lemma frozen_reifies:
  assumes "builder_ok b" "db_reifies b = Some t"
  shows "rdf_reifies_id (materialize b) = Some t"
proof -
  have it: "interner_ok (db_interner b)" "unat (tid_index t) < length (terms_of (db_interner b))"
    "terms_of (db_interner b) ! unat (tid_index t) = LookIri RDF_REIFIES" using assms by (auto simp: builder_ok_def names_reifies_def)
  show ?thesis using position_of_id [OF it(1,2)] it(3)
    by (simp add: rdf_reifies_id_def frozen_tables frozen_id_by_iri_position)
qed

definition value_of_id :: "frozen_dataset \<Rightarrow> u32 \<Rightarrow> lookup_key option" where
  "value_of_id d t = map_option (resolve_interned (fd_arena d)) (term_at (fd_terms d) t)"

lemma frozen_value: "unat (tid_index t) < length (terms_of (db_interner b)) \<Longrightarrow> value_of_id (materialize b) t = Some (terms_of (db_interner b) ! unat (tid_index t))"
  by (simp add: value_of_id_def frozen_tables term_at_def terms_of_def)

lemma virtual_reifiers: "reifiers = [] \<or> rdf_reifies_id d = Some p \<Longrightarrow> fd_reifiers d = sort reifiers \<Longrightarrow>
    rd_reifier_quads d = Some (map (\<lambda>(r, t, g). \<lparr>qr_s = r, qr_p = p, qr_o = t, qr_g = g\<rparr>) (sort reifiers))"
  by (cases "rdf_reifies_id d") (auto simp: rd_reifier_quads_def reifier_virtual_def sort_key_def)

lemma built_reifies:
  assumes "builder_ok b"
  obtains p where "db_reifiers b \<noteq> [] \<longrightarrow> rdf_reifies_id (materialize b) = Some p \<and> value_of_id (materialize b) p = Some (LookIri RDF_REIFIES)"
proof (cases "db_reifies b")
  case None
  then show ?thesis using assms that by (simp add: builder_ok_def)
next
  case (Some p)
  then show ?thesis using that frozen_reifies [OF assms Some] frozen_value [of p b] assms by (auto simp: builder_ok_def names_reifies_def)
qed

text \<open>A dataset that the freeze returns is well-formed.\<close>

lemma freeze_ok:
  assumes "built b" "freeze b = Some (Inr d)"
  shows "d = materialize b" "well_formed b"
proof -
  have "decides (validate_rows b) (well_formed b)" using built_ok [OF assms(1)] by (intro validate_exact) (simp add: builder_ok_def)
  then show "d = materialize b" "well_formed b" using assms(2) by (auto simp: freeze_def checked_bind_def decides_def split: option.splits sum.splits)
qed

lemma triple_value: "triple_components (fd_terms d) t = Some (x, y, z) \<Longrightarrow> value_of_id d t = Some (LookTriple x y z) \<and> target_parts d t = (x, y, z)"
  by (auto simp: triple_components_def value_of_id_def resolve_interned_def target_parts_def split: option.splits interned_term.splits)

lemma has_kind_triple: "has_kind {KindTriple} terms t \<longleftrightarrow> triple_components terms t \<noteq> None"
  by (auto simp: has_kind_def triple_components_def split: option.splits interned_term.splits)

lemma freeze_statements:
  assumes "built b" "freeze b = Some (Inr d)"
  shows "statements_ok d" "\<forall>(r, t, g)\<in>set (db_reifiers b). triple_components (fd_terms d) t \<noteq> None"
proof -
  note f = freeze_ok [OF assms]
  have t: "\<forall>(r, t, g)\<in>set (db_reifiers b). triple_components (in_terms (db_interner b)) t \<noteq> None"
    using f(2) by (auto simp: well_formed_def Let_def sound_reifier_def has_kind_triple split_def)
  show "statements_ok d" unfolding f(1) by (rule frozen_statements_ok [OF t])
  show "\<forall>(r, t, g)\<in>set (db_reifiers b). triple_components (fd_terms d) t \<noteq> None" unfolding f(1) frozen_tables by (rule t)
qed

section \<open>The order of an indexed query\<close>

text \<open>A permuted run lists its rows in the order of its index, not in the order of a linear scan.\<close>

definition eight_quads :: frozen_dataset where
  "eight_quads = \<lparr>fd_quads = map (\<lambda>(s, p, t). \<lparr>qr_s = s, qr_p = p, qr_o = t, qr_g = None\<rparr>)
       [(1, 1, 1), (1, 1, 2), (1, 1, 3), (1, 1, 4), (1, 1, 5), (1, 1, 6), (1, 2, 9), (2, 2, 8)],
     fd_reifiers = [], fd_annotations = [], fd_named_graphs = [], fd_arena = [], fd_terms = []\<rparr>"

lemma indexed_order_differs:
  "quads_for_pattern_indexed eight_quads \<lparr>qp_s = None, qp_p = Some 2, qp_o = None, qp_g = AnyG\<rparr>
     = Some (rev (filter (matches_pattern \<lparr>qp_s = None, qp_p = Some 2, qp_o = None, qp_g = AnyG\<rparr>) (fd_quads eight_quads)))"
  by code_simp

section \<open>Properties\<close>

text \<open>C7: Queries of a resident dataset. For every builder the operations reach and every pattern, the
  indexed query of the frozen dataset succeeds, its rows are exactly the pushed quads that match, each
  once; the estimate is their number; the owned cursor yields the same rows, one a call; and they stand in
  the strict order that the store certifies for the plan.\<close>

theorem dataset_query_exact:
  assumes "built b" "valid_pattern pat" "d = materialize b"
  shows "\<exists>rows c. quads_for_pattern_indexed d pat = Some rows \<and> mset rows = mset (filter (matches_pattern pat) (db_quads b)) \<and> distinct rows \<and>
    cardinality_estimate d pat = Some (length rows) \<and>
    new_cursor d pat = Some c \<and> (\<forall>n. cursor_rows n d c = take n rows) \<and>
    sorted_wrt (\<lambda>x y. compare_pattern_probe_rows d (plan_of pat) x y = Some Less) rows"
proof -
  have ok: "builder_ok b" by (rule built_ok [OF assms(1)])
  have table: "table_ok (fd_quads d)" unfolding assms(3) by (rule frozen_table_ok [OF ok])
  obtain access lo hi where rows: "quads_for_pattern_indexed d pat = Some (filter (matches_pattern pat) (perm_rows (fd_quads d) (access_order access)))"
    by (rule indexed_rows [OF table assms(2)])
  let ?rows = "filter (matches_pattern pat) (perm_rows (fd_quads d) (access_order access))"
  have m: "mset ?rows = mset (filter (matches_pattern pat) (db_quads b))"
    by (simp add: mset_filter perm_rows_mset assms(3) frozen_tables)
  have count: "length (filter (matches_pattern pat) (fd_quads d)) = length ?rows"
    by (rule mset_eq_length) (simp add: mset_filter perm_rows_mset)
  have distinct: "distinct ?rows" using ok mset_eq_imp_distinct_iff [OF m] by (simp add: builder_ok_def)
  obtain c where "new_cursor d pat = Some c" "quads_for_pattern_indexed d pat = Some (cursor_left d c)" "qc_end c \<le> length (fd_quads d)"
    by (rule cursor_query [OF table assms(2)])
  then show ?thesis using rows m distinct estimate_exact [OF table assms(2)] count rows_certified [OF table assms(2) rows] cursor_rows_left [of c d]
    by (intro exI [of _ ?rows] exI [of _ c]) simp
qed

text \<open>C10: Statement rows of a resident dataset. For every dataset that the freeze of a builder returns, no
  walk panics: once there are reifier rows the term table has an id for \<open>rdf:reifies\<close>, and every target is
  a triple term. Every lookup (by reifier, by target, by the components of the target, by
  annotation predicate and object) is the filter of the full walk, in its order. A named graph is listed
  exactly when it is declared or used, its row count is the number of its rows, and the planner's estimate
  never undershoots.\<close>

theorem dataset_statement_lookups:
  assumes "built b" "freeze b = Some (Inr d)"
  shows "\<exists>p quads. (db_reifiers b \<noteq> [] \<longrightarrow> rdf_reifies_id d = Some p \<and> value_of_id d p = Some (LookIri RDF_REIFIES)) \<and>
    rd_reifier_quads d = Some quads \<and>
    quads = map (\<lambda>(r, t, g). \<lparr>qr_s = r, qr_p = p, qr_o = t, qr_g = g\<rparr>) (sort (db_reifiers b)) \<and>
    rd_annotation_quads d = map (\<lambda>(r, p, q, g). \<lparr>qr_s = r, qr_p = p, qr_o = q, qr_g = g\<rparr>) (sort (db_annotations b)) \<and>
    (\<forall>r. rd_reifier_quads_of d r = Some (filter (\<lambda>q. qr_s q = r) quads)) \<and>
    (\<forall>t. reifiers_of d t = map qr_s (filter (\<lambda>q. qr_o q = t) quads)) \<and>
    (\<forall>t g. rd_reifier_quads_for_target d t g = Some (filter (\<lambda>q. qr_o q = t \<and> graph_matches g (qr_g q)) quads)) \<and>
    (\<forall>q\<in>set quads. \<exists>x y z. value_of_id d (qr_o q) = Some (LookTriple x y z) \<and> target_parts d (qr_o q) = (x, y, z)) \<and>
    (\<forall>cs g. rd_reifier_quads_for_components d cs g =
      Some (filter (\<lambda>q. components_match cs (target_parts d (qr_o q)) \<and> graph_matches g (qr_g q)) quads)) \<and>
    (\<forall>r. rd_annotations_of_with_graph d r = map (\<lambda>q. (qr_p q, qr_o q, qr_g q)) (filter (\<lambda>q. qr_s q = r) (rd_annotation_quads d))) \<and>
    (\<forall>p t g. rd_annotation_quads_for_pattern d p t g =
      filter (\<lambda>q. (p = None \<or> p = Some (qr_p q)) \<and> (t = None \<or> t = Some (qr_o q)) \<and> graph_matches g (qr_g q)) (rd_annotation_quads d)) \<and>
    (\<forall>g. rd_has_named_graph d g \<longleftrightarrow> g \<in> graphs_used b) \<and>
    (\<forall>g. g \<noteq> 0 \<longrightarrow> named_graph_row_count d g = Some (length (filter (\<lambda>q. qr_g q = Some g) (db_quads b @ quads @ rd_annotation_quads d)))) \<and>
    (\<forall>pat cs. \<exists>n. rd_statement_cardinality_estimate d pat cs = Some (Some n) \<and> length (statement_matches d pat cs) \<le> n)"
proof -
  have ok: "builder_ok b" by (rule built_ok [OF assms(1)])
  note d = freeze_ok(1) [OF assms] and st = freeze_statements(1) [OF assms]
  have table: "table_ok (fd_quads d)" unfolding d by (rule frozen_table_ok [OF ok])
  obtain p where p: "db_reifiers b \<noteq> [] \<longrightarrow> rdf_reifies_id d = Some p \<and> value_of_id d p = Some (LookIri RDF_REIFIES)"
    by (rule built_reifies [OF ok, folded d])
  obtain quads where quads: "rd_reifier_quads d = Some quads"
    "quads = map (\<lambda>(r, t, g). \<lparr>qr_s = r, qr_p = p, qr_o = t, qr_g = g\<rparr>) (sort (db_reifiers b))"
    using virtual_reifiers [of "db_reifiers b" d p] p by (auto simp: d frozen_tables)
  have annotations: "rd_annotation_quads d = map (\<lambda>(r, p, q, g). \<lparr>qr_s = r, qr_p = p, qr_o = q, qr_g = g\<rparr>) (sort (db_annotations b))"
    by (simp add: rd_annotation_quads_def annotation_virtual_def d frozen_tables)
  have targets: "\<forall>q\<in>set quads. \<exists>x y z. value_of_id d (qr_o q) = Some (LookTriple x y z) \<and> target_parts d (qr_o q) = (x, y, z)"
    using freeze_statements(2) [OF assms] unfolding quads(2) by (fastforce dest: triple_value)
  have graphs: "rd_has_named_graph d g \<longleftrightarrow> g \<in> graphs_used b" for g
    unfolding has_named_graph_spec [OF st] unfolding d frozen_graphs ..
  have pushed: "length (filter P (fd_quads d)) = length (filter P (db_quads b))" for P
    by (rule mset_eq_length) (simp add: mset_filter d frozen_tables)
  have row_count: "named_graph_row_count d g = Some (length (filter (\<lambda>q. qr_g q = Some g) (db_quads b @ quads @ rd_annotation_quads d)))" if "g \<noteq> 0" for g
    unfolding row_count_spec [OF table that] pushed annotation_quads_count filter_append length_append
    using quads(2) by (simp add: filter_map comp_def split_def d frozen_tables)
  have "length (fd_reifiers d) \<le> space_limit" "length (fd_annotations d) \<le> space_limit"
    using ok by (simp_all add: d frozen_tables builder_ok_def)
  then have estimate: "\<exists>n. rd_statement_cardinality_estimate d pat cs = Some (Some n) \<and> length (statement_matches d pat cs) \<le> n" for pat cs
    by (metis statement_estimate [OF st quads(1)])
  show ?thesis
    by (intro exI [of _ p] exI [of _ quads] conjI allI impI)
      (fact p quads annotations targets graphs row_count estimate reifier_lookups [OF st quads(1)] annotation_lookups [OF st] | use p in blast)+
qed

text \<open>C31: What a freeze accepts. For every builder the operations reach, validation and freeze never panic
  (no id indexes out of the term table, whatever ids the rows hold), and the freeze returns the tables
  exactly when the builder is well-formed: every interned IRI is absolute and no literal was refused; every
  subject, predicate, graph name and reifier target has its kind; no chain of triple terms is longer than
  sixteen, which a cycle would be. Otherwise it is refused with a diagnostic.\<close>

theorem freeze_exact:
  assumes "built b"
  shows "\<exists>r. freeze b = Some r \<and> (case r of Inr d \<Rightarrow> well_formed b \<and> d = materialize b | Inl e \<Rightarrow> \<not> well_formed b)"
proof -
  have "interner_ok (db_interner b)" using built_ok [OF assms] by (simp add: builder_ok_def)
  from validate_exact [OF this] show ?thesis
    by (auto simp: freeze_def checked_bind_def decides_def split: option.splits sum.splits)
qed

section \<open>Witnesses\<close>

text \<open>Two IRIs and a triple term over them; two quads, one of them pushed twice; a reifier of the triple
  term, which interns \<open>rdf:reifies\<close>, and an annotation in a graph that no quad uses.\<close>

definition small_quad :: "u32 \<Rightarrow> u32 option \<Rightarrow> quad_row" where
  "small_quad ob g = \<lparr>qr_s = 1, qr_p = 2, qr_o = ob, qr_g = g\<rparr>"

definition small_interner :: interner where
  "small_interner = \<lparr>in_arena = [0x61, 0x3A, 0x62, 0x3A], in_terms = [InternedIri (0, 2), InternedIri (2, 2), InternedTriple 1 2 1], in_relative_iri = None\<rparr>"

definition small_builder :: dataset_builder where
  "small_builder = \<lparr>db_interner = \<lparr>in_arena = in_arena small_interner @ RDF_REIFIES,
       in_terms = in_terms small_interner @ [InternedIri (4, length RDF_REIFIES)], in_relative_iri = None\<rparr>,
     db_quads = [small_quad 3 None, small_quad 1 (Some 2)], db_reifiers = [(1, 3, Some 2)], db_annotations = [(1, 2, 1, Some 1)],
     db_declared = [], db_reifies = Some 4, db_invalid_literal = None\<rparr>"

lemma small_absolute: "is_absolute [0x61, 0x3A] = Inr True" "is_absolute [0x62, 0x3A] = Inr True" "is_absolute RDF_REIFIES = Inr True"
  by (rule clean_absolute; code_simp)+

lemma small_clean: "check_absolute_iri [0x61, 0x3A] = Inr ()" "check_absolute_iri [0x62, 0x3A] = Inr ()" "check_absolute_iri RDF_REIFIES = Inr ()"
  using small_absolute by (simp_all add: check_absolute_iri_ok RDF_REIFIES_def)

lemma reifies_length: "length RDF_REIFIES = 50"
  by (simp add: RDF_REIFIES_def)

lemma reifies_not_small: "arena_str (in_arena small_interner) (0, 2) \<noteq> RDF_REIFIES" "arena_str (in_arena small_interner) (2, 2) \<noteq> RDF_REIFIES"
  by (auto simp: arena_str_def slice_range_def small_interner_def dest: arg_cong [of _ _ length] simp: reifies_length)

lemmas small_eval = intern_ops intern_term_def intern_def lookup_hashed_def capacity_required_def space_limit_def lookup_text_bytes_def
  store_strings_def push_arena_str_def note_relative_def small_clean tid_of_index_def arena_str_def slice_range_def
  new_builder_def new_interner_def small_interner_def store_once_def store_once_with_def valid_row_def small_quad_def

lemma small_steps:
  "intern_iri [0x61, 0x3A] new_builder = Inr (1, new_builder\<lparr>db_interner := \<lparr>in_arena = [0x61, 0x3A], in_terms = [InternedIri (0, 2)], in_relative_iri = None\<rparr>\<rparr>)"
  "intern_iri [0x62, 0x3A] (new_builder\<lparr>db_interner := \<lparr>in_arena = [0x61, 0x3A], in_terms = [InternedIri (0, 2)], in_relative_iri = None\<rparr>\<rparr>)
    = Inr (2, new_builder\<lparr>db_interner := small_interner\<lparr>in_terms := [InternedIri (0, 2), InternedIri (2, 2)]\<rparr>\<rparr>)"
  "intern_triple 1 2 1 (new_builder\<lparr>db_interner := small_interner\<lparr>in_terms := [InternedIri (0, 2), InternedIri (2, 2)]\<rparr>\<rparr>)
    = Inr (3, new_builder\<lparr>db_interner := small_interner\<rparr>)"
  by (simp_all add: small_eval)

lemma small_reifies: "ensure_reifies None small_interner = Inr (Some 4, db_interner small_builder)"
  using reifies_not_small
  by (simp add: ensure_reifies_def intern_def lookup_hashed_def small_builder_def small_interner_def capacity_required_def space_limit_def
    lookup_text_bytes_def reifies_length store_strings_def push_arena_str_def note_relative_def small_clean tid_of_index_def)

lemma small_built: "built small_builder"
proof -
  let ?b = "new_builder\<lparr>db_interner := small_interner\<rparr>"
  have "built ?b" by (rule built_triple [OF built_iri [OF built_iri [OF built_new small_steps(1)] small_steps(2)] small_steps(3)])
  then have "built (?b\<lparr>db_quads := [small_quad 3 None]\<rparr>)"
    by (rule built_quad [of _ "small_quad 3 None" 0]) (simp_all add: small_eval push_quad_with_handle_def)
  then have "built (?b\<lparr>db_quads := [small_quad 3 None, small_quad 1 (Some 2)]\<rparr>)"
    by (rule built_quad [of _ "small_quad 1 (Some 2)" 1]) (simp_all add: small_eval push_quad_with_handle_def)
  then have "built (?b\<lparr>db_quads := [small_quad 3 None, small_quad 1 (Some 2)]\<rparr>)"
    by (rule built_quad [of _ "small_quad 3 None" 0]) (simp_all add: small_eval push_quad_with_handle_def)
  then have "built (small_builder\<lparr>db_annotations := []\<rparr>)"
    by (rule built_reifier [of _ "(1, 3, Some 2)"])
      (simp add: push_reifier_in_graph_def store_once_with_def capacity_required_def space_limit_def new_builder_def small_reifies, simp add: small_builder_def)
  then show ?thesis
    by (rule built_annotation [of _ "(1, 2, 1, Some 1)"])
      (simp add: push_annotation_in_graph_def store_once_def store_once_with_def capacity_required_def space_limit_def small_builder_def)
qed

lemma small_freeze: "freeze small_builder = Some (Inr (materialize small_builder))"
proof -
  have "validate_rows small_builder = passed" by code_simp
  then show ?thesis by (simp add: freeze_def checked_bind_def)
qed

theorem dataset_query_exact_witness:
  "\<exists>rows. quads_for_pattern_indexed (materialize small_builder) \<lparr>qp_s = Some 1, qp_p = Some 2, qp_o = Some 1, qp_g = AnyG\<rparr> = Some rows \<and>
    mset rows = {# small_quad 1 (Some 2) #}"
  using dataset_query_exact [OF small_built, of "\<lparr>qp_s = Some 1, qp_p = Some 2, qp_o = Some 1, qp_g = AnyG\<rparr>" "materialize small_builder"]
  by (auto simp: valid_pattern_def matches_pattern_def graph_matches_def small_builder_def small_quad_def)

theorem dataset_statement_lookups_witness:
  "\<exists>p. value_of_id (materialize small_builder) p = Some (LookIri RDF_REIFIES) \<and>
    rd_reifier_quads_for_target (materialize small_builder) 3 AnyG = Some [\<lparr>qr_s = 1, qr_p = p, qr_o = 3, qr_g = Some 2\<rparr>] \<and>
    rd_has_named_graph (materialize small_builder) 1"
  using dataset_statement_lookups [OF small_built small_freeze]
  by (auto simp: graph_matches_def small_builder_def graphs_used_def)

theorem freeze_exact_witness: "well_formed small_builder"
  using freeze_exact [OF small_built] by (simp add: small_freeze)

end
