(* ===== verification/Spec2Isabelle.thy ===== *)
theory Spec2Isabelle
  imports PackRoundTrip MmrProof CborExact CborSequence Resolution GlobSet QuadFreeze
begin

text \<open>
  A verification library for the storage and interchange core of the \<open>purrdf\<close> workspace: an
  RDF 1.2 engine in Rust whose datasets are persisted as packs (\<open>crates/rdf-core/src/ir/pack\<close>) and
  exchanged as CBOR items (\<open>crates/lex/src/cbor\<close>) with Merkle commitments (\<open>crates/gts\<close>).

  \<^bold>\<open>How the parts interact.\<close> A pack stores a dataset as a dictionary of its terms and an index of its
  quads. The dictionary (\<open>dict.rs\<close>) sorts the terms, numbers them from 1 and writes them front
  coded; opening it rebuilds an arena of strings and a table of entries and checks them. The index
  (\<open>triples.rs\<close>) keeps one partition per graph, each a two-level adjacency of subjects, predicates
  and objects over the term ids. The side tables (\<open>side.rs\<close>) keep the reifiers and annotations as packed
  columns over the same ids. All three are made of the packed vectors, rank and select bitmaps and
  varints of \<open>bits.rs\<close>. The container (\<open>container.rs\<close>) frames the three sections with their digests,
  and \<open>view.rs\<close> answers queries from an opened one. The CBOR codec is the wire form of the workspace, and the commitment ranges
  of \<open>mmr.rs\<close> hash CBOR preimages.

  \<^bold>\<open>Conventions.\<close> A \<open>u8\<close> to \<open>u128\<close> is a word of that width whose arithmetic wraps, as in the release
  build; a \<open>usize\<close> is a natural number, with the wrap-around modulo \<open>2 ^ 64\<close> written out where an
  untrusted sum can reach it. A panic is \<open>None\<close>, an \<open>Err\<close> is \<open>Inl\<close>, and a function that can do both
  returns \<open>(error + 'a) option\<close>. A string is its UTF-8 bytes. A cursor passed by mutable reference
  is returned beside the result. A lazy iterator is the list of the values it yields.

  \<^bold>\<open>Shared ground.\<close>
  \<^item> \<open>Prelude\<close>, \<open>Words\<close>: the integer types, little- and big-endian bytes, bit counts, the UTF-8 test of
    the Rust standard library, and the list lemmas used throughout.
  \<^item> \<open>Sequences\<close>: the two interfaces between the pack layers, as locales: an indexed sequence of 64-bit
    values with binary search, and a section codec that reports its own length. Both are interpreted
    on the packed vectors and bitmaps, the binary search is proved once.

  \<^bold>\<open>Pack primitives\<close> (\<open>ir/pack/bits.rs\<close>).
  \<^item> \<open>IntVec\<close>: \<open>IntVector\<close>, \<open>IntVectorRef\<close> and the header reads. The abstract value is the list of the
    entries; C1 to C3 are reading back, the byte round trip, and what an untrusted header is accepted for
    and when the reads under it return.
  \<^item> \<open>SelectWord\<close>: \<open>select_in_word\<close>, equal to the position of the r-th set bit (C4).
  \<^item> \<open>RankSelect\<close>: \<open>BitVec\<close>, \<open>RankSelect\<close>, \<open>RankSelectRef\<close>. The directory trait is the locale
    \<open>rank_directory\<close>, interpreted by the owner and by the borrowed reader (C5, C6, C8);
    an unvalidated buffer panics.
  \<^item> \<open>Varint\<close>: varints, zigzag, delta lists.

  \<^bold>\<open>Triple index\<close> (\<open>ir/pack/triples.rs\<close>).
  \<^item> \<open>TriplesEncode\<close>, \<open>MarkGroups\<close>, \<open>TriplesBuild\<close>, \<open>TriplesNumber\<close>: \<open>encode_partition\<close>, and that its
    sections hold the local rows of the distinct input triples.
  \<^item> \<open>TriplesParse\<close>, \<open>TriplesValid\<close>: \<open>PartitionRef::from_bytes\<close> and its checks, which pass on every
    encoded block.
  \<^item> \<open>TriplesQuery\<close>, \<open>TriplesRows\<close>, \<open>TriplesMatch\<close>: the eight access paths and the size bound; every
    path yields the rows that match, in order.
  \<^item> \<open>TriplesStore\<close>, \<open>TriplesRef\<close>: \<open>Triples::try_encode\<close> over a dataset view (the record of what its
    trait methods answer) and \<open>TriplesRef\<close>. \<open>TripleIndex\<close> holds the properties C13 to C16,
    a panic on a crafted partition count and the exactness of the dictionary search over any sorted values.

  \<^bold>\<open>Pack dictionary\<close> (\<open>ir/pack/dict.rs\<close>).
  \<^item> \<open>DictTerm\<close>: \<open>TermValue\<close> (\<open>ir/term.rs\<close>) with the work-list comparison of \<open>ir/term_walk.rs\<close>, shown
    to be the lexicographic order of the terms' preorder keys, hence a linear order.
  \<^item> \<open>DictPrefix\<close>: \<open>common_prefix_len\<close> (\<open>crates/deflate/src/kernels.rs\<close>), equal to the length of the
    common prefix.
  \<^item> \<open>DictCodec\<close>: records, front coding, arena and entry table.
  \<^item> \<open>DictOpen\<close>: the checks of an opened dictionary and the queries by id. Resolving an id folds a
    nested term over a work list; it is a partial function, because on an unchecked dictionary it may
    run forever.
  \<^item> \<open>DictDepth\<close>: the depth search with its memo table decides the nesting of triple terms (C34).
  \<^item> \<open>DictOrder\<close>: in an opened dictionary the entries strictly increase and every id has a value, so
    that comparing compact entries agrees with comparing terms.
  \<^item> \<open>DictWrite\<close>, \<open>DictRoundTrip\<close>: decoding the written buckets gives back the strings and fields of the
    records, and the opened dictionary holds the packed values in order. A list of values is
    \<open>encodable\<close> when it is strictly sorted, closed under components, nested at most 128 deep, accepted
    by the term checks, and short enough (fewer than 2^58 terms, an arena below 2^32 bytes).
  \<^item> \<open>DictLookup\<close>: an opened dictionary is a sorted bijection between ids and terms (C35), the section
    round trip (C36), and a panic on crafted bucket offsets.
  \<^item> \<open>DictClosure\<close>: \<open>PackDict::try_encode\<close> over a dataset view: the closure of the view's ids and
    its values, which opens as a dictionary of exactly the view's terms (C38). The iteration order
    of the hash set of ids is the parameter \<open>iter\<close>.

  \<^bold>\<open>Pack side tables\<close> (\<open>ir/pack/side.rs\<close>).
  \<^item> \<open>SideTables\<close>: the code: encoder, checks of the reader, queries and capability flags.
  \<^item> \<open>SideOpened\<close>: the checks establish \<open>side_valid\<close>; the lower bound search over an ascending column.
  \<^item> \<open>SideQuery\<close>: on valid tables no query panics, and the iterator and the searches yield the rows.
  \<^item> \<open>SideWrite\<close>, \<open>SideIndex\<close>: written tables open to their rows; the encoder over a dataset view; C39.

  \<^bold>\<open>Pack container and view\<close> (\<open>ir/pack/container.rs\<close>, \<open>view.rs\<close>, \<open>certify.rs\<close>).
  \<^item> \<open>Pack\<close>: header, directory, writer, reader, builder and certificate check. \<open>PackFrame\<close>: an
    assembled file is read back section by section.
  \<^item> \<open>PackQuery\<close>: the queries of an opened pack, the merge of its named graphs, the capability flags.
  \<^item> \<open>PackIndex\<close>: a view within the bounds \<open>pack_fits\<close> builds and opens: fewer than 2^48 quads,
    declared graphs, reifiers and annotations each, fewer than 2^50 terms, an arena below 2^32 bytes.
    Under them no offset or length wraps.
  \<^item> \<open>PackRoundTrip\<close>: the round trip of the whole pack (C40), and a graph that is listed and yet not a
    member (C17).

  \<^bold>\<open>CBOR\<close> (\<open>crates/lex/src/cbor\<close>).
  \<^item> \<open>CborHead\<close> (\<open>head.rs\<close>): heads and strings.
  \<^item> \<open>CborFloat\<close>: narrowing and widening of floats over their bit patterns; the encoder picks the shortest
    float that keeps every bit (C26).
  \<^item> \<open>CborEncode\<close> (\<open>encode.rs\<close>, \<open>value.rs\<close>): the work-list encoders and the bottom-up machine, equal to
    a recursive reference encoding (C27).
  \<^item> \<open>CborDecode\<close> (\<open>decode.rs\<close>): the decoders as a stack machine with one step per head.
    \<open>CborRoundTrip\<close> (C28, C29) runs it over an encoding; \<open>CborExact\<close> (C30) shows by an invariant of
    the machine that the deterministic decoder accepts canonical encodings only; \<open>CborSequence\<close>
    (C32, C33) treats trailing bytes, truncation and sequences.

  \<^bold>\<open>Commitment ranges\<close> (\<open>crates/gts/src/mmr.rs\<close>).
  \<^item> \<open>Mmr\<close>: the frontier, the tree builder, proofs and verification. \<open>MmrTree\<close>: the perfect trees they
    compute. \<open>MmrProof\<close>: C21 and C23 to C25, among them that verification is exact for a collision-free digest.

  \<^bold>\<open>Byte scanners, percent-encoding, IRIs\<close> (\<open>crates/lex/src/scan.rs\<close>, \<open>percent.rs\<close>, \<open>crates/iri/src\<close>).
  \<^item> \<open>ByteScan\<close>: class tables, their runs and the chunked searches over sixteen byte lanes, equal to the
    first position of a member (C11).
  \<^item> \<open>IriChars\<close> (\<open>parse.rs\<close>, \<open>hex.rs\<close>): the class table and the component validator; its precheck of
    eight bytes at a time changes no verdict, error or offset.
  \<^item> \<open>Percent\<close>: encoding, decoding in place and the normalization of triplets (C22, C37). A slice that does
    not end on a character boundary panics.
  \<^item> \<open>IriParse\<close> (\<open>parse.rs\<close>, \<open>host.rs\<close>): the parser, and \<open>IriSplit\<close>: it accepts exactly the texts whose
    parts pass the character checks of their components and are kept apart by their delimiters, and
    returns these parts (C12).
  \<^item> \<open>IriResolve\<close> (\<open>resolve.rs\<close>, \<open>normalize.rs\<close>): resolution and normalization. \<open>DotSegments\<close>: removing dot
    segments is a stack of segments (C20). \<open>Resolution\<close>: the rules of RFC 3986, 5.2.2, as an inductive
    relation on split texts, and that a resolved reference is the one target they give (C18);
    normalizing a parsed text can panic.

  \<^bold>\<open>Compiled globs\<close> (\<open>crates/glob/src\<close>). A text is the list of its characters, a position the byte offset with
  the characters left.
  \<^item> \<open>Glob\<close> (\<open>compile.rs\<close>, \<open>execute.rs\<close>, \<open>set.rs\<close>, \<open>lib.rs\<close>): the pattern parser, the class tables, the
    matcher with its two checkpoints and its work meter, ordered sets.
  \<^item> \<open>GlobLang\<close>: the language of a token list, and that the matcher decides it: an invariant of the
    checkpoints shows that the earliest place of a star or directory token is enough.
  \<^item> \<open>GlobWork\<close>: a potential falls at every turn and each turn costs at most \<open>n + 3\<close> units, so a match
    with \<open>n\<close> characters and a pattern of \<open>k\<close> spends at most \<open>(k + 1) * (n + k + 2)\<^sup>2 * (n + 3)\<close>.
  \<^item> \<open>GlobCompile\<close>: the parser emits well-formed tokens, and the merged class tables with their binary
    search decide membership in the ranges as written.
  \<^item> \<open>GlobMatch\<close>: a compiled glob decides its pattern (C19), and a quoted text matches itself only.
    \<open>GlobSet\<close>: a set reports the patterns that match on their own (C9).

  \<^bold>\<open>Resident dataset\<close> (\<open>crates/rdf-core/src/ir\<close>: \<open>builder.rs\<close>, \<open>absolute.rs\<close>, \<open>validate.rs\<close>,
  \<open>frozen_terms.rs\<close>, \<open>dataset.rs\<close>, \<open>triple.rs\<close>). A term id is its stored nonzero word.
  \<^item> \<open>TermTable\<close>: the interner and the frozen term table. The abstract value is the list of the term values
    in the order of their ids, without repetitions; interning a value finds its place or appends it.
  \<^item> \<open>QuadTable\<close>: the rules of literal components and the ingress of terms, the store-once tables of the
    builder (the first reifier row interns \<open>rdf:reifies\<close>) and their sorted form, the six quad orders with
    the probe plan, the residual filter on eight rows at a time, the borrowed query and the owned cursor,
    the orders of the statement tables and their lookups, the graph registry and the estimates.
  \<^item> \<open>QuadValidate\<close>: the validation that precedes a freeze. Its memoised search for cycles and depth is
    exact: it refuses exactly when some chain of triple terms is longer than sixteen.
  \<^item> \<open>QuadScan\<close>: sorting and bisection are \<open>sort_key\<close> and a prefix count, and the chunked scan is a filter.
  \<^item> \<open>QuadQuery\<close>: the locale \<open>ordinal_index\<close> states what an order of row ordinals promises (it permutes the
    rows and ascends by the key it is searched by) and is interpreted for the quad orders, the reifier
    targets and the masked component orders; the prefix of a plan is exactly the bound positions.
  \<^item> \<open>QuadRows\<close>, \<open>QuadStatements\<close>: queries, cursor, certified order; statement lookups, registry, estimates.
  \<^item> \<open>QuadFreeze\<close>: the builders reached by the operations and their invariant; what a freeze accepts
    (C31); pattern queries (C7) and statement lookups (C10) of every frozen builder. That a non-empty
    reifier table has \<open>rdf:reifies\<close> interned is part of the invariant, that a reifier's target is a
    triple term follows from the validation.

  \<^bold>\<open>Parameters and bounds.\<close> The digest of the commitment ranges is a function parameter; the safety
  property assumes that it is injective and shows that this can hold. The dictionary checks of IRIs, language
  tags and literal components are the record \<open>term_checks\<close>; nothing is assumed of them but what a
  property names. SHA-256, BLAKE3, the canonical digest of a view and the reconstruction of a
  dataset from a pack are parameters of the container; the round trip assumes 32-byte digests. The
  grammar of language tags and the blank nodes a composite literal embeds are parameters of the
  literal ingress. The size of a partition reader in memory is a parameter of the index. No loop of
  the model needs fuel: each recursion is structural, has a measure, or is the partial fold of nested
  terms, whose result is proved where a property needs it. The depth ceilings (128 for triple terms of
  a pack, 16 for those of a builder, and the decoder's limit for CBOR) are the code's. A resident table
  holds fewer than 2^32 rows, terms and bytes of text, which its capacity checks enforce.

  \<^bold>\<open>Not modelled.\<close> Of the resident dataset: content-id recognition, blank scopes, transactions and
  batch ingress, the hash index (a search of the table by the same equality), term lookups other than of
  IRIs, source locations, storage admission, unions, the importer and canonicalization. The grammar of
  language tags, the statistics fingerprint of a pack, the encoders over borrowed CBOR items and over failing writers, the reader
  source and span visitors of the decoder, the file walk and JSON form of the commitments, the
  storage admission and the RDF form of glob plans, and the
  other crates (parsers, SPARQL, reasoning, validation, search, geometry, compression, bindings).
  Hash functions and signatures are parameters or absent. Capacity reservations and allocation
  failure have no counterpart in the model, except where a capacity overflow panics.
\<close>

end
